(* ===== verification/Qlinq_Prelude.thy ===== *)
theory Qlinq_Prelude
  imports Main "HOL-Library.Word"
begin

text \<open>
  Shared vocabulary of the development: the machine integers of the C code, its
  \<open>size_t\<close> arithmetic, C strings in fixed arrays, and the interface of a bounded
  queue that two components implement.

  Integers of a fixed width that travel on the wire or are combined bitwise are
  words. A \<open>size_t\<close> (64 bits on every supported target) is a \<open>nat\<close> whose additions,
  subtractions and multiplications go through \<open>sz_add\<close>, \<open>sz_sub\<close> and \<open>sz_mul\<close>, which
  wrap around as C does. The collection \<open>no_wrap\<close> turns them into the plain operations
  where the code's guards or the component's invariant rule a wrap-around out.
\<close>

unbundle bit_operations_syntax

named_theorems no_wrap "size_t operations that do not wrap around"
named_theorems wire_simps "evaluation of the byte level codec"

section \<open>Machine integers\<close>

type_synonym u8 = "8 word"
type_synonym u16 = "16 word"
type_synonym u32 = "32 word"
type_synonym u64 = "64 word"
type_synonym bytes = "u8 list"

definition SIZE_MAX :: nat where
  "SIZE_MAX = 18446744073709551615"

definition sz_add :: "nat \<Rightarrow> nat \<Rightarrow> nat" where
  "sz_add a b = (a + b) mod (SIZE_MAX + 1)"

definition sz_sub :: "nat \<Rightarrow> nat \<Rightarrow> nat" where
  "sz_sub a b = (if b \<le> a then a - b else (a + (SIZE_MAX + 1) - b) mod (SIZE_MAX + 1))"

definition sz_mul :: "nat \<Rightarrow> nat \<Rightarrow> nat" where
  "sz_mul a b = (a * b) mod (SIZE_MAX + 1)"

lemma sz_add_no_wrap [no_wrap]: "a + b \<le> SIZE_MAX \<Longrightarrow> sz_add a b = a + b"
  by (simp add: sz_add_def)

lemma sz_sub_no_wrap [no_wrap]: "b \<le> a \<Longrightarrow> sz_sub a b = a - b"
  by (simp add: sz_sub_def)

lemma sz_mul_no_wrap [no_wrap]: "a * b \<le> SIZE_MAX \<Longrightarrow> sz_mul a b = a * b"
  by (simp add: sz_mul_def)

lemma sz_add_bound: "sz_add a b \<le> SIZE_MAX"
  by (simp add: sz_add_def flip: less_Suc_eq_le)

lemma sz_mul_bound: "sz_mul a b \<le> SIZE_MAX"
  by (simp add: sz_mul_def flip: less_Suc_eq_le)

lemma unat_of_nat_small: "n < 2 ^ LENGTH('a) \<Longrightarrow> unat (of_nat n :: 'a::len word) = n"
  by (simp add: unat_of_nat)

lemma unat_less_2p: "unat (w :: 'a::len word) < 2 ^ LENGTH('a)"
  by (rule unsigned_less)

lemma unat_u32_le: "unat (w :: u32) \<le> 4294967295"
proof -
  have "unat w < 4294967296" using unat_less_2p [of w] by simp
  then show ?thesis by linarith
qed

section \<open>C strings in fixed arrays\<close>

text \<open>
  A \<open>char name[n]\<close> is the list of its \<open>n\<close> bytes. \<open>cstr\<close> is the string it holds (the
  bytes before the first NUL), \<open>strnlen\<close> the library function, \<open>strcmp_eq\<close> the test
  \<open>strcmp(a, b) == 0\<close> on terminated arrays.
\<close>

definition cstr :: "bytes \<Rightarrow> bytes" where
  "cstr s = takeWhile (\<lambda>c. c \<noteq> 0) s"

definition strnlen :: "bytes \<Rightarrow> nat \<Rightarrow> nat" where
  "strnlen s n = length (cstr (take n s))"

definition strcmp_eq :: "bytes \<Rightarrow> bytes \<Rightarrow> bool" where
  "strcmp_eq a b = (cstr a = cstr b)"

text \<open>An array of \<open>n\<close> bytes, all zero, with a prefix copied in.\<close>

definition fill_array :: "nat \<Rightarrow> bytes \<Rightarrow> bytes" where
  "fill_array n s = s @ replicate (n - length s) 0"

lemma strnlen_le [simp]: "strnlen s n \<le> n"
proof -
  have "length (cstr (take n s)) \<le> length (take n s)"
    unfolding cstr_def by (rule length_takeWhile_le)
  then show ?thesis by (simp add: strnlen_def)
qed

lemma length_fill_array [simp]: "length s \<le> n \<Longrightarrow> length (fill_array n s) = n"
  by (simp add: fill_array_def)

lemma cstr_id: "0 \<notin> set s \<Longrightarrow> cstr s = s"
  by (induction s) (auto simp: cstr_def)

lemma cstr_append_zero: "0 \<notin> set s \<Longrightarrow> cstr (s @ 0 # t) = s"
  by (induction s) (auto simp: cstr_def)

lemma no_zero_cstr [simp]: "0 \<notin> set (cstr s)"
  by (auto simp: cstr_def dest: set_takeWhileD)

lemma cstr_cstr [simp]: "cstr (cstr s) = cstr s"
  by (rule cstr_id) simp

lemma take_cstr: "take (length (cstr s)) s = cstr s"
  unfolding cstr_def by (metis takeWhile_eq_take)

section \<open>Slices of a byte buffer\<close>

text \<open>
  The decoders read a buffer field by field from the left; these facts put the fields
  together again from the right.
\<close>

named_theorems refill "adjacent slices of a buffer join"

lemma slice_drop [refill]: "j = i + a \<Longrightarrow> take a (drop i xs) @ drop j xs = drop i xs"
  by (simp add: add.commute flip: drop_drop)

lemma cons_drop [refill]:
  assumes "0 < j" "j \<le> length xs" "xs ! (j - 1) = c"
  shows "c # drop j xs = drop (j - 1) xs"
  using assms Cons_nth_drop_Suc [of "j - 1" xs] by simp

section \<open>Scanning an array\<close>

text \<open>
  \<open>for (i = 0; i < n; i++) if (P(a[i])) return i\<close>, the shape of most lookups of the code:
  the first index that satisfies \<open>P\<close>.
\<close>

definition first_index :: "('a \<Rightarrow> bool) \<Rightarrow> 'a list \<Rightarrow> nat option" where
  "first_index P xs = (let n = length (takeWhile (\<lambda>x. \<not> P x) xs) in
     if n < length xs then Some n else None)"

lemma first_index_Nil [simp]: "first_index P [] = None"
  by (simp add: first_index_def)

lemma first_index_Cons [simp]:
  "first_index P (x # xs) = (if P x then Some 0 else map_option Suc (first_index P xs))"
  by (simp add: first_index_def Let_def)

lemma first_index_None: "first_index P xs = None \<longleftrightarrow> (\<forall>i < length xs. \<not> P (xs ! i))"
  by (induction xs) (auto simp: nth_Cons split: nat.splits)

lemma first_index_Some:
  "first_index P xs = Some i \<longleftrightarrow> i < length xs \<and> P (xs ! i) \<and> (\<forall>j < i. \<not> P (xs ! j))"
proof (induction xs arbitrary: i)
  case (Cons x xs)
  then show ?case
    by (cases i) (auto simp: nth_Cons less_Suc_eq_0_disj split: nat.splits)
qed simp

lemma first_index_unique:
  assumes "i < length xs" "P (xs ! i)" "\<And>j. j < length xs \<Longrightarrow> P (xs ! j) \<Longrightarrow> j = i"
  shows "first_index P xs = Some i"
  using assms unfolding first_index_Some by (metis less_trans nat_neq_iff)

end
