(* ===== verification/Wire.thy ===== *)
theory Wire
  imports Qlinq_Prelude
begin

text \<open>
  The byte level codec of \<open>src/src/common/transport_wire.c\<close>, function by function, in
  the order of the file. An encoder takes the capacity of its destination and returns
  the bytes it writes there; a decoder takes the \<open>len\<close> bytes at \<open>src\<close> as a list and
  returns the structure it fills in. \<open>QLINQ_WIRE_OK\<close> is the right summand, the other
  results of \<open>qlinq_wire_result_t\<close> are the left one. The locales \<open>wire_codec\<close> and
  \<open>canonical_codec\<close> state what a pair of them promises; every record of the protocol
  interprets one of the two.
\<close>

section \<open>Constants, results and records\<close>

datatype wire_error = NEED_MORE | INVALID | UNSUPPORTED_VERSION | TOO_LARGE

abbreviation (input) "WIRE_MAGIC_0 \<equiv> (0x51 :: u8)"
abbreviation (input) "WIRE_MAGIC_1 \<equiv> (0x4c :: u8)"
abbreviation (input) "WIRE_VERSION \<equiv> (1 :: u8)"
abbreviation (input) "WIRE_FRAME_HEADER_SIZE \<equiv> (8 :: nat)"
abbreviation (input) "WIRE_TRACK_OBJECT_HEADER_SIZE \<equiv> (20 :: nat)"
abbreviation (input) "WIRE_FEC_HEADER_SIZE \<equiv> (44 :: nat)"
abbreviation (input) "WIRE_TELEMETRY_SIZE \<equiv> (24 :: nat)"
abbreviation (input) "WIRE_HELLO_SIZE \<equiv> (20 :: nat)"
abbreviation (input) "WIRE_TRACK_END_SIZE \<equiv> (17 :: nat)"
abbreviation (input) "WIRE_TRACK_CHECKPOINT_SIZE \<equiv> (28 :: nat)"
abbreviation (input) "WIRE_TRACK_CHECKPOINT_ACK_SIZE \<equiv> (17 :: nat)"
abbreviation (input) "WIRE_MAX_TRACK_NAME \<equiv> (63 :: nat)"
abbreviation (input) "WIRE_MAX_NACK_SYMBOLS \<equiv> (1024 :: u16)"
abbreviation (input) "WIRE_NACK_WHOLE_OBJECT \<equiv> (1 :: u8)"
abbreviation (input) "WIRE_NACK_RATELESS \<equiv> (2 :: u8)"
abbreviation (input) "WIRE_CHECKPOINT_BASELINE \<equiv> (1 :: u8)"
abbreviation (input) "UINT32_MAX \<equiv> (4294967295 :: nat)"
abbreviation (input) "UINT16_MAX \<equiv> (65535 :: nat)"

abbreviation (input) "WIRE_SUBSCRIBE \<equiv> (1 :: u8)"
abbreviation (input) "WIRE_UNSUBSCRIBE \<equiv> (2 :: u8)"
abbreviation (input) "WIRE_UNICAST \<equiv> (3 :: u8)"
abbreviation (input) "WIRE_AUTH_REQUEST \<equiv> (4 :: u8)"
abbreviation (input) "WIRE_AUTH_RESPONSE \<equiv> (5 :: u8)"
abbreviation (input) "WIRE_KEYFRAME_REQUEST \<equiv> (6 :: u8)"
abbreviation (input) "WIRE_TRACK_OBJECT \<equiv> (7 :: u8)"
abbreviation (input) "WIRE_NACK \<equiv> (8 :: u8)"
abbreviation (input) "WIRE_HELLO \<equiv> (9 :: u8)"
abbreviation (input) "WIRE_TRACK_END \<equiv> (11 :: u8)"
abbreviation (input) "WIRE_TRACK_CHECKPOINT \<equiv> (12 :: u8)"
abbreviation (input) "WIRE_TRACK_CHECKPOINT_ACK \<equiv> (13 :: u8)"
abbreviation (input) "WIRE_DATAGRAM_FEC \<equiv> (1 :: u8)"
abbreviation (input) "WIRE_DATAGRAM_TELEMETRY \<equiv> (2 :: u8)"

abbreviation (input) "WIRE_ROLE_CLIENT \<equiv> (0 :: u8)"
abbreviation (input) "WIRE_ROLE_SERVER \<equiv> (1 :: u8)"

abbreviation (input) "WIRE_CAP_RELIABLE \<equiv> (0x01 :: u32)"
abbreviation (input) "WIRE_CAP_DATAGRAM \<equiv> (0x02 :: u32)"
abbreviation (input) "WIRE_CAP_FEC_REED_SOLOMON \<equiv> (0x04 :: u32)"
abbreviation (input) "WIRE_CAP_FEC_RATELESS \<equiv> (0x08 :: u32)"
abbreviation (input) "WIRE_CAP_MULTIPATH \<equiv> (0x10 :: u32)"
abbreviation (input) "WIRE_CAP_AUTHENTICATION \<equiv> (0x20 :: u32)"
abbreviation (input) "WIRE_CAP_RECOVERY_CHECKPOINTS \<equiv> (0x80 :: u32)"
abbreviation (input) "WIRE_CAP_RATELESS_REPAIR \<equiv> (0x100 :: u32)"

definition WIRE_CAP_KNOWN :: u32 where
  "WIRE_CAP_KNOWN = WIRE_CAP_RELIABLE OR WIRE_CAP_DATAGRAM OR WIRE_CAP_FEC_REED_SOLOMON OR
     WIRE_CAP_FEC_RATELESS OR WIRE_CAP_MULTIPATH OR WIRE_CAP_AUTHENTICATION OR
     WIRE_CAP_RECOVERY_CHECKPOINTS OR WIRE_CAP_RATELESS_REPAIR"

record wire_frame =
  wf_type :: u8
  wf_payload :: bytes
  wf_consumed :: nat

record wire_track =
  wt_alias :: u8
  wt_track_type :: u8
  wt_flags :: u8
  wt_name :: bytes

record wire_nack =
  wn_alias :: u8
  wn_flags :: u8
  wn_group_id :: u64
  wn_object_id :: u64
  wn_missing_count :: u16
  wn_encoded_indices :: "bytes option"

record wire_track_object =
  wo_alias :: u8
  wo_is_keyframe :: bool
  wo_priority :: u8
  wo_group_id :: u64
  wo_object_id :: u64

record wire_fec_header =
  fh_alias :: u8
  fh_is_keyframe :: bool
  fh_priority :: u8
  fh_path_id :: u8
  fh_group_id :: u64
  fh_object_id :: u64
  fh_symbol_index :: u16
  fh_total_symbols :: u16
  fh_data_symbols :: u16
  fh_symbol_size :: u16
  fh_original_size :: u32
  fh_send_time_ns :: u64

record wire_telemetry =
  te_path_id :: u8
  te_send_time_ns :: u64
  te_recv_time_ns :: u64

record wire_hello =
  he_role :: u8
  he_max_paths :: u16
  he_capabilities :: u32
  he_max_reliable_object_size :: u32
  he_max_fec_object_size :: u32
  he_max_subscriptions :: u16
  he_max_datagram_size :: u16

record wire_track_end =
  en_alias :: u8
  en_group_id :: u64
  en_final_object_id :: u64

record wire_track_checkpoint =
  cp_alias :: u8
  cp_flags :: u8
  cp_group_id :: u64
  cp_first_object_id :: u64
  cp_final_object_id :: u64

record wire_track_checkpoint_ack =
  ca_alias :: u8
  ca_group_id :: u64
  ca_final_object_id :: u64

section \<open>Big-endian integers\<close>

definition write_u16 :: "u16 \<Rightarrow> bytes" where
  "write_u16 value = [ucast (drop_bit 8 value), ucast value]"

definition write_u32 :: "u32 \<Rightarrow> bytes" where
  "write_u32 value = [ucast (drop_bit 24 value), ucast (drop_bit 16 value),
     ucast (drop_bit 8 value), ucast value]"

definition write_u64 :: "u64 \<Rightarrow> bytes" where
  "write_u64 value = map (\<lambda>i. ucast (drop_bit (56 - i * 8) value)) [0..<8]"

definition read_u16 :: "bytes \<Rightarrow> u16" where
  "read_u16 src = push_bit 8 (ucast (src ! 0)) OR ucast (src ! 1)"

definition read_u32 :: "bytes \<Rightarrow> u32" where
  "read_u32 src = push_bit 24 (ucast (src ! 0)) OR push_bit 16 (ucast (src ! 1)) OR
     push_bit 8 (ucast (src ! 2)) OR ucast (src ! 3)"

definition read_u64 :: "bytes \<Rightarrow> u64" where
  "read_u64 src = fold (\<lambda>i value. push_bit 8 value OR ucast (src ! i)) [0..<8] 0"

lemma length_write [simp]:
  "length (write_u16 a) = 2" "length (write_u32 b) = 4" "length (write_u64 c) = 8"
  by (simp_all add: write_u16_def write_u32_def write_u64_def)

text \<open>One byte more at the low end, and its inverse: the readers are chains of it.\<close>

definition shift_in :: "'a::len word \<Rightarrow> u8 \<Rightarrow> 'a word" where
  "shift_in v b = push_bit 8 v OR ucast b"

lemma shift_in_byte [simp]:
  fixes v :: "'a::len word"
  assumes "t = s + 8"
  shows "shift_in (drop_bit t v) (ucast (drop_bit s v)) = drop_bit s v"
proof -
  have "bit (push_bit 8 (drop_bit (s + 8) v) OR ucast (ucast (drop_bit s v) :: u8)) n =
      bit (drop_bit s v) n" if "n < LENGTH('a)" for n
    using that by (cases "n < 8") (auto simp: bit_simps not_less add.assoc)
  then show ?thesis
    unfolding assms shift_in_def by (intro bit_word_eqI)
qed

lemma shift_in_last [simp]: "shift_in (drop_bit 8 v) (ucast v) = v"
  using shift_in_byte [of 8 0 v] by simp

lemma byte_of_shifted [simp]:
  fixes v :: "'a::len word" and b :: u8
  assumes "t = s + 8" "s + 16 \<le> LENGTH('a)"
  shows "(ucast (drop_bit t (shift_in v b)) :: u8) = ucast (drop_bit s v)"
proof (rule bit_word_eqI)
  fix n assume "n < LENGTH(8)"
  then show "bit (ucast (drop_bit t (shift_in v b)) :: u8) n = bit (ucast (drop_bit s v) :: u8) n"
    using assms by (auto simp: shift_in_def bit_simps ac_simps dest: bit_imp_le_length)
qed

lemma byte_of_shifted_8 [simp]:
  fixes v :: "'a::len word" and b :: u8
  assumes "16 \<le> LENGTH('a)"
  shows "(ucast (drop_bit 8 (shift_in v b)) :: u8) = ucast v"
  using byte_of_shifted [of 8 0 v b] assms by simp

lemma low_byte_of_shifted [simp]:
  fixes v :: "'a::len word" and b :: u8
  assumes "8 \<le> LENGTH('a)"
  shows "(ucast (shift_in v b) :: u8) = b"
  using assms by (intro bit_word_eqI) (auto simp: shift_in_def bit_simps)

lemma shift_in_zero [simp]: "shift_in 0 b = ucast b"
  by (simp add: shift_in_def)

lemma byte_back [simp]: "8 \<le> LENGTH('a) \<Longrightarrow> ucast (ucast (b :: u8) :: 'a::len word) = b"
  by (simp add: ucast_up_ucast_id is_up)

lemma read_u16_chain: "read_u16 src = shift_in (ucast (src ! 0)) (src ! 1)"
  by (simp add: read_u16_def shift_in_def)

lemma read_u32_chain: "read_u32 src =
    shift_in (shift_in (shift_in (ucast (src ! 0)) (src ! 1)) (src ! 2)) (src ! 3)"
  by (simp add: read_u32_def shift_in_def push_bit_or or.assoc)

lemma upt8: "[0..<8::nat] = [0, 1, 2, 3, 4, 5, 6, 7]"
  by (simp add: upt_rec)

lemma read_u64_chain: "read_u64 src =
    shift_in (shift_in (shift_in (shift_in (shift_in (shift_in (shift_in (ucast (src ! 0))
      (src ! 1)) (src ! 2)) (src ! 3)) (src ! 4)) (src ! 5)) (src ! 6)) (src ! 7)"
  by (simp add: read_u64_def upt8 flip: shift_in_def)

lemma top_byte [simp]: "LENGTH('a) = s + 8 \<Longrightarrow>
    ucast (ucast (drop_bit s v) :: u8) = drop_bit s (v :: 'a::len word)"
  by (intro bit_word_eqI) (auto simp: bit_simps dest: bit_imp_le_length)

lemma read_write_u16 [wire_simps]: "read_u16 (write_u16 v @ r) = v"
  by (simp add: read_u16_chain write_u16_def)

lemma read_write_u32 [wire_simps]: "read_u32 (write_u32 v @ r) = v"
  by (simp add: read_u32_chain write_u32_def)

lemma read_write_u64 [wire_simps]: "read_u64 (write_u64 v @ r) = v"
  by (simp add: read_u64_chain write_u64_def upt8)

lemma read_write [wire_simps]:
  "read_u16 (write_u16 a) = a" "read_u32 (write_u32 b) = b" "read_u64 (write_u64 c) = c"
  using read_write_u16 [of a "[]"] read_write_u32 [of b "[]"] read_write_u64 [of c "[]"]
  by simp_all

lemma write_read_u16 [wire_simps]: "2 \<le> length s \<Longrightarrow> write_u16 (read_u16 s) = take 2 s"
  by (auto simp: numeral_eq_Suc Suc_le_length_iff)
    (simp add: read_u16_chain write_u16_def)

lemma write_read_u32 [wire_simps]:
  assumes "4 \<le> length s"
  shows "write_u32 (read_u32 s) = take 4 s"
proof -
  from assms obtain a b c d r where s: "s = a # b # c # d # r"
    by (auto simp: numeral_eq_Suc Suc_le_length_iff)
  show ?thesis
    unfolding s by (simp add: read_u32_chain write_u32_def)
qed

lemma write_read_u64 [wire_simps]:
  assumes "8 \<le> length s"
  shows "write_u64 (read_u64 s) = take 8 s"
proof -
  from assms obtain a b c d e f g h r where s: "s = a # b # c # d # e # f # g # h # r"
    by (auto simp: numeral_eq_Suc Suc_le_length_iff)
  show ?thesis
    unfolding s by (simp add: read_u64_chain write_u64_def upt8)
qed

section \<open>Frames\<close>

definition check_envelope :: "bytes \<Rightarrow> u8 \<Rightarrow> wire_error + unit" where
  "check_envelope src kind =
     (if length src < 4 then Inl NEED_MORE
      else if src ! 0 \<noteq> WIRE_MAGIC_0 \<or> src ! 1 \<noteq> WIRE_MAGIC_1 \<or> src ! 3 \<noteq> kind then Inl INVALID
      else if src ! 2 \<noteq> WIRE_VERSION then Inl UNSUPPORTED_VERSION
      else Inr ())"

definition qlinq_wire_frame_type_is_known :: "u8 \<Rightarrow> bool" where
  "qlinq_wire_frame_type_is_known t =
     ((WIRE_SUBSCRIBE \<le> t \<and> t \<le> WIRE_HELLO) \<or>
      (WIRE_TRACK_END \<le> t \<and> t \<le> WIRE_TRACK_CHECKPOINT_ACK))"

definition qlinq_wire_encode_frame_header ::
  "nat \<Rightarrow> u8 \<Rightarrow> nat \<Rightarrow> nat \<Rightarrow> wire_error + bytes" where
  "qlinq_wire_encode_frame_header capacity t payload_len max_payload_len =
     (if \<not> qlinq_wire_frame_type_is_known t then Inl INVALID
      else if payload_len > max_payload_len \<or> payload_len > UINT32_MAX then Inl TOO_LARGE
      else if capacity < WIRE_FRAME_HEADER_SIZE then Inl TOO_LARGE
      else Inr ([WIRE_MAGIC_0, WIRE_MAGIC_1, WIRE_VERSION, t] @
                write_u32 (of_nat payload_len)))"

definition qlinq_wire_encode_frame ::
  "nat \<Rightarrow> u8 \<Rightarrow> bytes \<Rightarrow> nat \<Rightarrow> wire_error + bytes" where
  "qlinq_wire_encode_frame capacity t payload max_payload_len =
     (if length payload > SIZE_MAX - WIRE_FRAME_HEADER_SIZE \<or>
         capacity < WIRE_FRAME_HEADER_SIZE + length payload then Inl TOO_LARGE
      else case qlinq_wire_encode_frame_header capacity t (length payload) max_payload_len of
        Inl e \<Rightarrow> Inl e
      | Inr hdr \<Rightarrow> Inr (hdr @ payload))"

definition qlinq_wire_decode_datagram_type :: "bytes \<Rightarrow> wire_error + u8" where
  "qlinq_wire_decode_datagram_type src =
     (if length src < 4 then Inl NEED_MORE
      else if src ! 0 \<noteq> WIRE_MAGIC_0 \<or> src ! 1 \<noteq> WIRE_MAGIC_1 then Inl INVALID
      else if src ! 2 \<noteq> WIRE_VERSION then Inl UNSUPPORTED_VERSION
      else if src ! 3 \<noteq> WIRE_DATAGRAM_FEC \<and> src ! 3 \<noteq> WIRE_DATAGRAM_TELEMETRY then Inl INVALID
      else Inr (src ! 3))"

definition qlinq_wire_decode_frame :: "bytes \<Rightarrow> nat \<Rightarrow> wire_error + wire_frame" where
  "qlinq_wire_decode_frame src max_payload_len =
     (if length src < WIRE_FRAME_HEADER_SIZE then Inl NEED_MORE
      else if src ! 0 \<noteq> WIRE_MAGIC_0 \<or> src ! 1 \<noteq> WIRE_MAGIC_1 then Inl INVALID
      else if src ! 2 \<noteq> WIRE_VERSION then Inl UNSUPPORTED_VERSION
      else if \<not> qlinq_wire_frame_type_is_known (src ! 3) then Inl INVALID
      else let payload_len = unat (read_u32 (drop 4 src)) in
        if payload_len > max_payload_len then Inl TOO_LARGE
        else if payload_len > SIZE_MAX - WIRE_FRAME_HEADER_SIZE then Inl TOO_LARGE
        else let frame_len = WIRE_FRAME_HEADER_SIZE + payload_len in
          if length src < frame_len then Inl NEED_MORE
          else Inr \<lparr>wf_type = src ! 3, wf_payload = take payload_len (drop 8 src),
                    wf_consumed = frame_len\<rparr>)"

section \<open>Track descriptors\<close>

definition qlinq_wire_encode_track :: "nat \<Rightarrow> wire_track \<Rightarrow> wire_error + bytes" where
  "qlinq_wire_encode_track capacity track =
     (let name_len = strnlen (wt_name track) 64 in
      if name_len > WIRE_MAX_TRACK_NAME \<or> capacity < 4 + name_len then Inl TOO_LARGE
      else Inr ([wt_alias track, wt_track_type track, wt_flags track, of_nat name_len] @
                take name_len (wt_name track)))"

definition qlinq_wire_decode_track :: "bytes \<Rightarrow> wire_error + wire_track" where
  "qlinq_wire_decode_track src =
     (if length src < 4 then Inl INVALID
      else let name_len = unat (src ! 3) in
        if name_len > WIRE_MAX_TRACK_NAME \<or> length src \<noteq> 4 + name_len then Inl INVALID
        else Inr \<lparr>wt_alias = src ! 0, wt_track_type = src ! 1, wt_flags = src ! 2,
                  wt_name = fill_array 64 (take name_len (drop 4 src))\<rparr>)"

section \<open>Negative acknowledgements\<close>

definition qlinq_wire_encode_nack ::
  "nat \<Rightarrow> u8 \<Rightarrow> u8 \<Rightarrow> u64 \<Rightarrow> u64 \<Rightarrow> u16 list option \<Rightarrow> u16 \<Rightarrow> wire_error + bytes" where
  "qlinq_wire_encode_nack capacity alias flags group_id object_id missing missing_count =
     (let whole_object = flags AND WIRE_NACK_WHOLE_OBJECT \<noteq> 0;
          rateless = flags AND WIRE_NACK_RATELESS \<noteq> 0 in
      if flags AND NOT (WIRE_NACK_WHOLE_OBJECT OR WIRE_NACK_RATELESS) \<noteq> 0 \<or>
         (if rateless then (\<not> whole_object \<and> missing_count = 0) \<or> missing \<noteq> None
          else if whole_object then missing_count \<noteq> 0
          else missing_count = 0 \<or> missing = None) then Inl INVALID
      else if missing_count > WIRE_MAX_NACK_SYMBOLS then Inl TOO_LARGE
      else let needed = 20 + (if rateless then 0 else unat missing_count * 2) in
        if capacity < needed then Inl TOO_LARGE
        else Inr ([alias, flags] @ write_u64 group_id @ write_u64 object_id @
                  write_u16 missing_count @
                  (if rateless then []
                   else concat (map (\<lambda>i. write_u16 (the missing ! i)) [0..<unat missing_count]))))"

definition qlinq_wire_decode_nack :: "bytes \<Rightarrow> wire_error + wire_nack" where
  "qlinq_wire_decode_nack src =
     (if length src < 20 \<or>
         src ! 1 AND NOT (WIRE_NACK_WHOLE_OBJECT OR WIRE_NACK_RATELESS) \<noteq> 0 then Inl INVALID
      else let count = read_u16 (drop 18 src) in
        if count > WIRE_MAX_NACK_SYMBOLS then Inl TOO_LARGE
        else let whole_object = src ! 1 AND WIRE_NACK_WHOLE_OBJECT \<noteq> 0;
                 rateless = src ! 1 AND WIRE_NACK_RATELESS \<noteq> 0 in
          if (if rateless then \<not> whole_object \<and> count = 0
              else if whole_object then count \<noteq> 0 else count = 0) then Inl INVALID
          else if length src \<noteq> 20 + (if rateless then 0 else unat count * 2) then Inl INVALID
          else Inr \<lparr>wn_alias = src ! 0, wn_flags = src ! 1,
                    wn_group_id = read_u64 (drop 2 src), wn_object_id = read_u64 (drop 10 src),
                    wn_missing_count = count,
                    wn_encoded_indices = (if rateless then None else Some (drop 20 src))\<rparr>)"

definition qlinq_wire_nack_index :: "wire_nack \<Rightarrow> nat \<Rightarrow> u16 option" where
  "qlinq_wire_nack_index nack index =
     (if index \<ge> unat (wn_missing_count nack) then None
      else case wn_encoded_indices nack of
        None \<Rightarrow> None
      | Some enc \<Rightarrow> Some (read_u16 (drop (index * 2) enc)))"

section \<open>Track objects\<close>

definition qlinq_wire_encode_track_object ::
  "nat \<Rightarrow> wire_track_object \<Rightarrow> wire_error + bytes" where
  "qlinq_wire_encode_track_object capacity object =
     (if capacity < WIRE_TRACK_OBJECT_HEADER_SIZE then Inl TOO_LARGE
      else Inr ([wo_alias object, if wo_is_keyframe object then 1 else 0, wo_priority object, 0] @
                write_u64 (wo_group_id object) @ write_u64 (wo_object_id object)))"

definition qlinq_wire_decode_track_object ::
  "bytes \<Rightarrow> wire_error + (wire_track_object \<times> bytes)" where
  "qlinq_wire_decode_track_object src =
     (if length src < WIRE_TRACK_OBJECT_HEADER_SIZE then Inl INVALID
      else if src ! 1 > 1 \<or> src ! 3 \<noteq> 0 then Inl INVALID
      else Inr (\<lparr>wo_alias = src ! 0, wo_is_keyframe = (src ! 1 \<noteq> 0), wo_priority = src ! 2,
                 wo_group_id = read_u64 (drop 4 src), wo_object_id = read_u64 (drop 12 src)\<rparr>,
                drop WIRE_TRACK_OBJECT_HEADER_SIZE src))"

section \<open>FEC and telemetry datagrams\<close>

definition qlinq_wire_encode_fec_header :: "nat \<Rightarrow> wire_fec_header \<Rightarrow> wire_error + bytes" where
  "qlinq_wire_encode_fec_header capacity header =
     (if capacity < WIRE_FEC_HEADER_SIZE then Inl TOO_LARGE
      else Inr ([WIRE_MAGIC_0, WIRE_MAGIC_1, WIRE_VERSION, WIRE_DATAGRAM_FEC, fh_alias header,
                 if fh_is_keyframe header then 1 else 0, fh_priority header, fh_path_id header] @
                write_u64 (fh_group_id header) @ write_u64 (fh_object_id header) @
                write_u16 (fh_symbol_index header) @ write_u16 (fh_total_symbols header) @
                write_u16 (fh_data_symbols header) @ write_u16 (fh_symbol_size header) @
                write_u32 (fh_original_size header) @ write_u64 (fh_send_time_ns header)))"

definition qlinq_wire_decode_fec_header :: "bytes \<Rightarrow> wire_error + wire_fec_header" where
  "qlinq_wire_decode_fec_header src =
     (case check_envelope src WIRE_DATAGRAM_FEC of
        Inl e \<Rightarrow> Inl e
      | Inr _ \<Rightarrow>
        if length src < WIRE_FEC_HEADER_SIZE then Inl NEED_MORE
        else if src ! 5 > 1 then Inl INVALID
        else Inr \<lparr>fh_alias = src ! 4, fh_is_keyframe = (src ! 5 \<noteq> 0), fh_priority = src ! 6,
                  fh_path_id = src ! 7, fh_group_id = read_u64 (drop 8 src),
                  fh_object_id = read_u64 (drop 16 src), fh_symbol_index = read_u16 (drop 24 src),
                  fh_total_symbols = read_u16 (drop 26 src),
                  fh_data_symbols = read_u16 (drop 28 src),
                  fh_symbol_size = read_u16 (drop 30 src),
                  fh_original_size = read_u32 (drop 32 src),
                  fh_send_time_ns = read_u64 (drop 36 src)\<rparr>)"

definition qlinq_wire_encode_telemetry :: "nat \<Rightarrow> wire_telemetry \<Rightarrow> wire_error + bytes" where
  "qlinq_wire_encode_telemetry capacity telemetry =
     (if capacity < WIRE_TELEMETRY_SIZE then Inl TOO_LARGE
      else Inr ([WIRE_MAGIC_0, WIRE_MAGIC_1, WIRE_VERSION, WIRE_DATAGRAM_TELEMETRY,
                 te_path_id telemetry, 0, 0, 0] @
                write_u64 (te_send_time_ns telemetry) @ write_u64 (te_recv_time_ns telemetry)))"

definition qlinq_wire_decode_telemetry :: "bytes \<Rightarrow> wire_error + wire_telemetry" where
  "qlinq_wire_decode_telemetry src =
     (case check_envelope src WIRE_DATAGRAM_TELEMETRY of
        Inl e \<Rightarrow> Inl e
      | Inr _ \<Rightarrow>
        if length src \<noteq> WIRE_TELEMETRY_SIZE then Inl INVALID
        else if src ! 5 \<noteq> 0 \<or> src ! 6 \<noteq> 0 \<or> src ! 7 \<noteq> 0 then Inl INVALID
        else Inr \<lparr>te_path_id = src ! 4, te_send_time_ns = read_u64 (drop 8 src),
                  te_recv_time_ns = read_u64 (drop 16 src)\<rparr>)"

section \<open>HELLO\<close>

definition qlinq_wire_encode_hello :: "nat \<Rightarrow> wire_hello \<Rightarrow> wire_error + bytes" where
  "qlinq_wire_encode_hello capacity hello =
     (if capacity < WIRE_HELLO_SIZE \<or> he_role hello > WIRE_ROLE_SERVER \<or>
         he_max_paths hello = 0 \<or> he_max_subscriptions hello = 0 \<or>
         he_max_datagram_size hello = 0 \<or> he_max_reliable_object_size hello = 0 \<or>
         he_max_fec_object_size hello = 0 \<or>
         he_capabilities hello AND NOT WIRE_CAP_KNOWN \<noteq> 0 then Inl INVALID
      else Inr ([he_role hello, 0] @ write_u16 (he_max_paths hello) @
                write_u32 (he_capabilities hello) @
                write_u32 (he_max_reliable_object_size hello) @
                write_u32 (he_max_fec_object_size hello) @
                write_u16 (he_max_subscriptions hello) @ write_u16 (he_max_datagram_size hello)))"

definition qlinq_wire_decode_hello :: "bytes \<Rightarrow> wire_error + wire_hello" where
  "qlinq_wire_decode_hello src =
     (if length src \<noteq> WIRE_HELLO_SIZE \<or> src ! 1 \<noteq> 0 then Inl INVALID
      else let hello = \<lparr>he_role = src ! 0, he_max_paths = read_u16 (drop 2 src),
               he_capabilities = read_u32 (drop 4 src),
               he_max_reliable_object_size = read_u32 (drop 8 src),
               he_max_fec_object_size = read_u32 (drop 12 src),
               he_max_subscriptions = read_u16 (drop 16 src),
               he_max_datagram_size = read_u16 (drop 18 src)\<rparr> in
        if he_role hello > WIRE_ROLE_SERVER \<or> he_max_paths hello = 0 \<or>
           he_max_subscriptions hello = 0 \<or> he_max_datagram_size hello = 0 \<or>
           he_max_reliable_object_size hello = 0 \<or> he_max_fec_object_size hello = 0 \<or>
           he_capabilities hello AND NOT WIRE_CAP_KNOWN \<noteq> 0 then Inl INVALID
        else Inr hello)"

section \<open>Track completion and recovery checkpoints\<close>

definition qlinq_wire_encode_track_end :: "nat \<Rightarrow> wire_track_end \<Rightarrow> wire_error + bytes" where
  "qlinq_wire_encode_track_end capacity e =
     (if capacity < WIRE_TRACK_END_SIZE then Inl TOO_LARGE
      else Inr ([en_alias e] @ write_u64 (en_group_id e) @ write_u64 (en_final_object_id e)))"

definition qlinq_wire_decode_track_end :: "bytes \<Rightarrow> wire_error + wire_track_end" where
  "qlinq_wire_decode_track_end src =
     (if length src \<noteq> WIRE_TRACK_END_SIZE then Inl INVALID
      else Inr \<lparr>en_alias = src ! 0, en_group_id = read_u64 (drop 1 src),
                en_final_object_id = read_u64 (drop 9 src)\<rparr>)"

definition qlinq_wire_encode_track_checkpoint ::
  "nat \<Rightarrow> wire_track_checkpoint \<Rightarrow> wire_error + bytes" where
  "qlinq_wire_encode_track_checkpoint capacity c =
     (if cp_flags c AND NOT WIRE_CHECKPOINT_BASELINE \<noteq> 0 \<or>
         cp_first_object_id c > cp_final_object_id c then Inl INVALID
      else if capacity < WIRE_TRACK_CHECKPOINT_SIZE then Inl TOO_LARGE
      else Inr ([cp_alias c, cp_flags c, 0, 0] @ write_u64 (cp_group_id c) @
                write_u64 (cp_first_object_id c) @ write_u64 (cp_final_object_id c)))"

definition qlinq_wire_decode_track_checkpoint :: "bytes \<Rightarrow> wire_error + wire_track_checkpoint" where
  "qlinq_wire_decode_track_checkpoint src =
     (if length src \<noteq> WIRE_TRACK_CHECKPOINT_SIZE then Inl INVALID
      else let c = \<lparr>cp_alias = src ! 0, cp_flags = src ! 1, cp_group_id = read_u64 (drop 4 src),
               cp_first_object_id = read_u64 (drop 12 src),
               cp_final_object_id = read_u64 (drop 20 src)\<rparr> in
        if src ! 2 = 0 \<and> src ! 3 = 0 \<and> cp_flags c AND NOT WIRE_CHECKPOINT_BASELINE = 0 \<and>
           cp_first_object_id c \<le> cp_final_object_id c
        then Inr c else Inl INVALID)"

definition qlinq_wire_encode_track_checkpoint_ack ::
  "nat \<Rightarrow> wire_track_checkpoint_ack \<Rightarrow> wire_error + bytes" where
  "qlinq_wire_encode_track_checkpoint_ack capacity a =
     (if capacity < WIRE_TRACK_CHECKPOINT_ACK_SIZE then Inl TOO_LARGE
      else Inr ([ca_alias a] @ write_u64 (ca_group_id a) @ write_u64 (ca_final_object_id a)))"

definition qlinq_wire_decode_track_checkpoint_ack ::
  "bytes \<Rightarrow> wire_error + wire_track_checkpoint_ack" where
  "qlinq_wire_decode_track_checkpoint_ack src =
     (if length src \<noteq> WIRE_TRACK_CHECKPOINT_ACK_SIZE then Inl INVALID
      else Inr \<lparr>ca_alias = src ! 0, ca_group_id = read_u64 (drop 1 src),
                ca_final_object_id = read_u64 (drop 9 src)\<rparr>)"

section \<open>The contract of a codec\<close>

text \<open>
  What a decoder promises about its encoder: an encoded value decodes to itself. A
  canonical codec also accepts nothing that its encoder would not have written, so
  encoding and accepted bytes determine each other. The first argument of \<open>enc\<close> is the
  capacity of the destination; \<open>wf\<close> are the values the encoder is specified on.
\<close>

locale wire_codec =
  fixes enc :: "nat \<Rightarrow> 'a \<Rightarrow> wire_error + bytes"
    and dec :: "bytes \<Rightarrow> wire_error + 'a"
    and wf :: "'a \<Rightarrow> bool"
  assumes enc_dec: "wf x \<Longrightarrow> enc cap x = Inr bs \<Longrightarrow> length bs \<le> cap \<and> dec bs = Inr x"
begin

lemma enc_inj: "wf x \<Longrightarrow> wf y \<Longrightarrow> enc cap x = Inr bs \<Longrightarrow> enc cap' y = Inr bs \<Longrightarrow> x = y"
  using enc_dec [of x cap bs] enc_dec [of y cap' bs] by simp

lemma enc_fits: "wf x \<Longrightarrow> enc cap x = Inr bs \<Longrightarrow> length bs \<le> cap"
  using enc_dec by blast

end

locale canonical_codec = wire_codec +
  assumes dec_wf: "dec bs = Inr x \<Longrightarrow> wf x"
    and dec_enc: "dec bs = Inr x \<Longrightarrow> length bs \<le> cap \<Longrightarrow> enc cap x = Inr bs"
begin

lemma dec_iff_enc: "dec bs = Inr x \<longleftrightarrow> wf x \<and> enc (length bs) x = Inr bs"
  using enc_dec dec_enc dec_wf by blast

lemma dec_inj: "dec bs = Inr x \<Longrightarrow> dec cs = Inr x \<Longrightarrow> bs = cs"
proof -
  assume b: "dec bs = Inr x" and c: "dec cs = Inr x"
  let ?n = "max (length bs) (length cs)"
  from b have "enc ?n x = Inr bs" by (rule dec_enc) simp
  moreover from c have "enc ?n x = Inr cs" by (rule dec_enc) simp
  ultimately show "bs = cs" by simp
qed

lemma enc_capacity: "wf x \<Longrightarrow> enc cap x = Inr bs \<Longrightarrow> cap \<le> cap' \<Longrightarrow> enc cap' x = Inr bs"
  using enc_dec dec_enc by (meson order_trans)

end

section \<open>The codecs of the protocol records\<close>

lemma bool_byte_one: "\<not> 1 < (b :: u8) \<Longrightarrow> b \<noteq> 0 \<Longrightarrow> b = 1"
  by unat_arith

lemma read_append [wire_simps]:
  "2 \<le> length s \<Longrightarrow> read_u16 (s @ r) = read_u16 s"
  "4 \<le> length s \<Longrightarrow> read_u32 (s @ r) = read_u32 s"
  "8 \<le> length s \<Longrightarrow> read_u64 (s @ r) = read_u64 s"
  by (auto simp: read_u16_chain read_u32_chain read_u64_chain nth_append)

lemma hello_enc_dec:
  assumes "qlinq_wire_encode_hello cap h = Inr bs"
  shows "length bs \<le> cap \<and> qlinq_wire_decode_hello bs = Inr h"
  using assms
  by (auto simp: qlinq_wire_encode_hello_def qlinq_wire_decode_hello_def wire_simps
      split: if_splits)

lemma hello_dec_enc:
  assumes "qlinq_wire_decode_hello bs = Inr h" "length bs \<le> cap"
  shows "qlinq_wire_encode_hello cap h = Inr bs"
  using assms
  by (auto simp: qlinq_wire_encode_hello_def qlinq_wire_decode_hello_def wire_simps Let_def
      refill split: if_splits)


lemma telemetry_enc_dec:
  assumes "qlinq_wire_encode_telemetry cap t = Inr bs"
  shows "length bs \<le> cap \<and> qlinq_wire_decode_telemetry bs = Inr t"
  using assms
  by (auto simp: qlinq_wire_encode_telemetry_def qlinq_wire_decode_telemetry_def
      check_envelope_def wire_simps split: if_splits)

lemma telemetry_dec_enc:
  assumes "qlinq_wire_decode_telemetry bs = Inr t" "length bs \<le> cap"
  shows "qlinq_wire_encode_telemetry cap t = Inr bs"
  using assms
  by (auto simp: qlinq_wire_encode_telemetry_def qlinq_wire_decode_telemetry_def
      check_envelope_def wire_simps refill split: if_splits)

lemma track_end_enc_dec:
  assumes "qlinq_wire_encode_track_end cap e = Inr bs"
  shows "length bs \<le> cap \<and> qlinq_wire_decode_track_end bs = Inr e"
  using assms
  by (auto simp: qlinq_wire_encode_track_end_def qlinq_wire_decode_track_end_def wire_simps
      split: if_splits)

lemma track_end_dec_enc:
  assumes "qlinq_wire_decode_track_end bs = Inr e" "length bs \<le> cap"
  shows "qlinq_wire_encode_track_end cap e = Inr bs"
  using assms
  by (auto simp: qlinq_wire_encode_track_end_def qlinq_wire_decode_track_end_def wire_simps
      refill split: if_splits)

lemma checkpoint_enc_dec:
  assumes "qlinq_wire_encode_track_checkpoint cap c = Inr bs"
  shows "length bs \<le> cap \<and> qlinq_wire_decode_track_checkpoint bs = Inr c"
  using assms
  by (auto simp: qlinq_wire_encode_track_checkpoint_def qlinq_wire_decode_track_checkpoint_def
      wire_simps split: if_splits)

lemma checkpoint_dec_enc:
  assumes "qlinq_wire_decode_track_checkpoint bs = Inr c" "length bs \<le> cap"
  shows "qlinq_wire_encode_track_checkpoint cap c = Inr bs"
  using assms
  by (auto simp: qlinq_wire_encode_track_checkpoint_def qlinq_wire_decode_track_checkpoint_def
      wire_simps Let_def refill split: if_splits)

lemma checkpoint_ack_enc_dec:
  assumes "qlinq_wire_encode_track_checkpoint_ack cap a = Inr bs"
  shows "length bs \<le> cap \<and> qlinq_wire_decode_track_checkpoint_ack bs = Inr a"
  using assms
  by (auto simp: qlinq_wire_encode_track_checkpoint_ack_def
      qlinq_wire_decode_track_checkpoint_ack_def wire_simps split: if_splits)

lemma checkpoint_ack_dec_enc:
  assumes "qlinq_wire_decode_track_checkpoint_ack bs = Inr a" "length bs \<le> cap"
  shows "qlinq_wire_encode_track_checkpoint_ack cap a = Inr bs"
  using assms
  by (auto simp: qlinq_wire_encode_track_checkpoint_ack_def
      qlinq_wire_decode_track_checkpoint_ack_def wire_simps refill split: if_splits)

interpretation hello: canonical_codec qlinq_wire_encode_hello qlinq_wire_decode_hello "\<lambda>_. True"
  by unfold_locales (erule hello_enc_dec, rule TrueI, erule (1) hello_dec_enc)

interpretation telemetry: canonical_codec qlinq_wire_encode_telemetry qlinq_wire_decode_telemetry
    "\<lambda>_. True"
  by unfold_locales (erule telemetry_enc_dec, rule TrueI, erule (1) telemetry_dec_enc)

interpretation track_end: canonical_codec qlinq_wire_encode_track_end qlinq_wire_decode_track_end
    "\<lambda>_. True"
  by unfold_locales (erule track_end_enc_dec, rule TrueI, erule (1) track_end_dec_enc)

interpretation checkpoint: canonical_codec qlinq_wire_encode_track_checkpoint
    qlinq_wire_decode_track_checkpoint "\<lambda>_. True"
  by unfold_locales (erule checkpoint_enc_dec, rule TrueI, erule (1) checkpoint_dec_enc)

interpretation checkpoint_ack: canonical_codec qlinq_wire_encode_track_checkpoint_ack
    qlinq_wire_decode_track_checkpoint_ack "\<lambda>_. True"
  by unfold_locales (erule checkpoint_ack_enc_dec, rule TrueI, erule (1) checkpoint_ack_dec_enc)

text \<open>A FEC datagram is the header and the symbol that follows it.\<close>

lemma fec_header_prefix:
  "length p = 44 \<Longrightarrow> qlinq_wire_decode_fec_header (p @ r) = qlinq_wire_decode_fec_header p"
  by (simp add: qlinq_wire_decode_fec_header_def check_envelope_def wire_simps nth_append)

lemma fec_header_enc_dec:
  assumes "qlinq_wire_encode_fec_header cap h = Inr p"
  shows "length p = 44 \<and> length p \<le> cap \<and> qlinq_wire_decode_fec_header p = Inr h"
  using assms
  by (auto simp: qlinq_wire_encode_fec_header_def qlinq_wire_decode_fec_header_def
      check_envelope_def wire_simps split: if_splits)

lemma fec_header_dec_enc:
  assumes "qlinq_wire_decode_fec_header p = Inr h" "length p = 44" "44 \<le> cap"
  shows "qlinq_wire_encode_fec_header cap h = Inr p"
  using assms
  by (auto simp: qlinq_wire_encode_fec_header_def qlinq_wire_decode_fec_header_def
      check_envelope_def wire_simps refill dest: bool_byte_one split: if_splits)

lemma fec_header_length: "qlinq_wire_decode_fec_header bs = Inr h \<Longrightarrow> 44 \<le> length bs"
  by (auto simp: qlinq_wire_decode_fec_header_def check_envelope_def split: if_splits)

lemma fec_header_split:
  "qlinq_wire_decode_fec_header bs = Inr h \<longleftrightarrow>
   44 \<le> length bs \<and> qlinq_wire_encode_fec_header 44 h = Inr (take 44 bs)"
proof
  assume d: "qlinq_wire_decode_fec_header bs = Inr h"
  then have l: "44 \<le> length bs" by (rule fec_header_length)
  with d have "qlinq_wire_decode_fec_header (take 44 bs) = Inr h"
    using fec_header_prefix [of "take 44 bs" "drop 44 bs"] by simp
  with l show "44 \<le> length bs \<and> qlinq_wire_encode_fec_header 44 h = Inr (take 44 bs)"
    by (simp add: fec_header_dec_enc)
next
  assume "44 \<le> length bs \<and> qlinq_wire_encode_fec_header 44 h = Inr (take 44 bs)"
  then show "qlinq_wire_decode_fec_header bs = Inr h"
    using fec_header_enc_dec [of 44 h "take 44 bs"] fec_header_prefix [of "take 44 bs" "drop 44 bs"]
    by simp
qed

lemma track_object_enc_dec:
  assumes "qlinq_wire_encode_track_object cap ob = Inr p"
  shows "length p = 20 \<and> length p \<le> cap \<and> qlinq_wire_decode_track_object (p @ r) = Inr (ob, r)"
  using assms
  by (auto simp: qlinq_wire_encode_track_object_def qlinq_wire_decode_track_object_def wire_simps
      nth_append split: if_splits)

lemma track_object_dec_enc:
  assumes "qlinq_wire_decode_track_object bs = Inr (ob, r)" "20 \<le> cap"
  shows "\<exists>p. qlinq_wire_encode_track_object cap ob = Inr p \<and> bs = p @ r"
proof -
  from assms have l: "20 \<le> length bs" and r: "r = drop 20 bs"
    by (auto simp: qlinq_wire_decode_track_object_def split: if_splits)
  from assms(2) obtain p where p: "qlinq_wire_encode_track_object cap ob = Inr p"
    by (simp add: qlinq_wire_encode_track_object_def)
  have "p @ drop 20 bs = bs"
    using assms p l
    by (auto simp: qlinq_wire_encode_track_object_def qlinq_wire_decode_track_object_def wire_simps
        refill dest: bool_byte_one split: if_splits)
  with p r show ?thesis by auto
qed


section \<open>Frames: round trip, canonicity and stability\<close>

lemma frame_header_bytes:
  "qlinq_wire_encode_frame_header cap t n mx = Inr hdr \<longleftrightarrow>
   qlinq_wire_frame_type_is_known t \<and> n \<le> mx \<and> n \<le> UINT32_MAX \<and> 8 \<le> cap \<and>
   hdr = [0x51, 0x4c, 1, t] @ write_u32 (of_nat n)"
  by (auto simp: qlinq_wire_encode_frame_header_def)

lemma frame_bytes:
  "qlinq_wire_encode_frame cap t p mx = Inr bs \<longleftrightarrow>
   qlinq_wire_frame_type_is_known t \<and> length p \<le> mx \<and> length p \<le> UINT32_MAX \<and>
   8 + length p \<le> cap \<and> bs = [0x51, 0x4c, 1, t] @ write_u32 (of_nat (length p)) @ p"
  by (auto simp: qlinq_wire_encode_frame_def qlinq_wire_encode_frame_header_def SIZE_MAX_def
      split: sum.splits if_splits)

lemma frame_enc_dec:
  assumes "qlinq_wire_encode_frame cap t p mx = Inr bs"
  shows "qlinq_wire_decode_frame (bs @ rest) mx =
    Inr \<lparr>wf_type = t, wf_payload = p, wf_consumed = length bs\<rparr>"
proof -
  have "unat (word_of_nat (length p) :: u32) = length p"
    using assms by (simp add: frame_bytes unat_of_nat_small)
  then show ?thesis
    using assms
    by (auto simp: frame_bytes qlinq_wire_decode_frame_def wire_simps SIZE_MAX_def Let_def)
qed

lemma frame_dec_enc:
  assumes "qlinq_wire_decode_frame bs mx = Inr f"
  shows "wf_consumed f = 8 + length (wf_payload f) \<and> wf_consumed f \<le> length bs \<and>
    qlinq_wire_encode_frame (wf_consumed f) (wf_type f) (wf_payload f) mx =
      Inr (take (wf_consumed f) bs)"
proof -
  let ?n = "unat (read_u32 (drop 4 bs))"
  have n: "?n \<le> UINT32_MAX"
    by (rule unat_u32_le)
  from assms have f: "f = \<lparr>wf_type = bs ! 3, wf_payload = take ?n (drop 8 bs),
      wf_consumed = 8 + ?n\<rparr>" and l: "8 + ?n \<le> length bs" and m: "?n \<le> mx"
    and h: "bs ! 0 = 0x51" "bs ! 1 = 0x4c" "bs ! 2 = 1" "qlinq_wire_frame_type_is_known (bs ! 3)"
    by (auto simp: qlinq_wire_decode_frame_def Let_def split: if_splits)
  have e: "take 4 (drop 4 bs) @ take ?n (drop 8 bs) = take (4 + ?n) (drop 4 bs)"
    by (simp add: take_add)
  have "[0x51, 0x4c, 1, bs ! 3] @ take (4 + ?n) (drop 4 bs) = take (8 + ?n) bs"
  proof -
    have "take (8 + ?n) bs = take 4 bs @ take (4 + ?n) (drop 4 bs)"
      using take_add [of 4 "4 + ?n" bs] by simp
    moreover have "take 4 bs = [0x51, 0x4c, 1, bs ! 3]"
    proof -
      have "4 \<le> length bs" using l by linarith
      then obtain a b c d r where "bs = a # b # c # d # r"
        by (auto simp: numeral_eq_Suc Suc_le_length_iff)
      then show ?thesis using h by simp
    qed
    ultimately show ?thesis by simp
  qed
  with f l m n h show ?thesis
    by (simp add: frame_bytes wire_simps flip: e)
qed

lemma frame_decision_stable:
  assumes "qlinq_wire_decode_frame bs mx \<noteq> Inl NEED_MORE"
  shows "qlinq_wire_decode_frame (bs @ ys) mx = qlinq_wire_decode_frame bs mx"
proof -
  have l: "8 \<le> length bs"
    using assms by (auto simp: qlinq_wire_decode_frame_def split: if_splits)
  have r: "read_u32 (drop 4 bs @ ys) = read_u32 (drop 4 bs)"
    using l by (intro read_append) simp
  have n: "(bs @ ys) ! i = bs ! i" if "i < 8" for i
    using l that by (simp add: nth_append)
  have g: "\<not> length bs < 8 + unat (read_u32 (drop 4 bs))"
    if "bs ! 0 = 0x51" "bs ! 1 = 0x4c" "bs ! 2 = 1" "qlinq_wire_frame_type_is_known (bs ! 3)"
      "unat (read_u32 (drop 4 bs)) \<le> mx" "unat (read_u32 (drop 4 bs)) \<le> SIZE_MAX - 8"
    using assms l that by (simp add: qlinq_wire_decode_frame_def Let_def split: if_splits)
  show ?thesis
    unfolding qlinq_wire_decode_frame_def using l g by (auto simp: r n Let_def)
qed

section \<open>Track descriptors and NACKs\<close>

lemma track_name_len: "strnlen nm 64 \<le> 63 \<Longrightarrow> unat (of_nat (strnlen nm 64) :: u8) = strnlen nm 64"
  by (simp add: unat_of_nat_small)

lemma track_enc_dec:
  assumes "qlinq_wire_encode_track cap t = Inr bs"
  shows "length bs \<le> cap \<and> qlinq_wire_decode_track bs =
    Inr (t\<lparr>wt_name := fill_array 64 (cstr (take 64 (wt_name t)))\<rparr>)"
proof -
  let ?n = "strnlen (wt_name t) 64"
  from assms have n: "?n \<le> 63" and c: "4 + ?n \<le> cap"
    and bs: "bs = [wt_alias t, wt_track_type t, wt_flags t, of_nat ?n] @ take ?n (wt_name t)"
    by (auto simp: qlinq_wire_encode_track_def Let_def split: if_splits)
  have nm: "take ?n (wt_name t) = cstr (take 64 (wt_name t))"
  proof -
    have "take ?n (wt_name t) = take ?n (take 64 (wt_name t))" using n by simp
    then show ?thesis by (simp only: strnlen_def take_cstr)
  qed
  then have l: "length (take ?n (wt_name t)) = ?n" by (simp add: strnlen_def)
  show ?thesis
    unfolding bs qlinq_wire_decode_track_def
    using n c l nm by (simp add: track_name_len Let_def)
qed

lemma track_dec_enc:
  assumes "qlinq_wire_decode_track bs = Inr t" "0 \<notin> set (drop 4 bs)" "length bs \<le> cap"
  shows "qlinq_wire_encode_track cap t = Inr bs"
proof -
  let ?n = "unat (bs ! 3)"
  from assms(1) have n: "?n \<le> 63" and l: "length bs = 4 + ?n"
    and t: "t = \<lparr>wt_alias = bs ! 0, wt_track_type = bs ! 1, wt_flags = bs ! 2,
               wt_name = fill_array 64 (take ?n (drop 4 bs))\<rparr>"
    by (auto simp: qlinq_wire_decode_track_def Let_def split: if_splits)
  have c: "cstr (fill_array 64 (drop 4 bs)) = drop 4 bs"
  proof -
    have "replicate (64 - ?n) (0 :: u8) = 0 # replicate (63 - ?n) 0"
      using n by (cases "64 - ?n") (auto simp: Suc_diff_le)
    then show ?thesis
      using assms(2) l by (simp add: fill_array_def cstr_append_zero)
  qed
  then have s: "strnlen (wt_name t) 64 = ?n"
    using l n by (simp add: t strnlen_def)
  show ?thesis
    unfolding qlinq_wire_encode_track_def Let_def s
    using assms(3) l n by (simp add: t fill_array_def refill)
qed


text \<open>The indices of an indexed request, as the peer reads them back.\<close>

lemma drop_concat_write_u16:
  "i \<le> length ns \<Longrightarrow> drop (i * 2) (concat (map write_u16 ns)) = concat (map write_u16 (drop i ns))"
proof (induction ns arbitrary: i)
  case Nil
  then show ?case by simp
next
  case (Cons n ns)
  then show ?case by (cases i) simp_all
qed

lemma length_concat_write_u16 [simp]: "length (concat (map write_u16 ns)) = 2 * length ns"
  by (induction ns) simp_all

lemma map_nth_write [simp]:
  "length ns = n \<Longrightarrow> map (\<lambda>i. write_u16 (ns ! i)) [0..<n] = map write_u16 ns"
  by (metis (no_types, lifting) comp_apply map_eq_conv map_map map_nth)

lemma nack_index_concat:
  assumes "wn_encoded_indices nk = Some (concat (map write_u16 ns))"
    and "unat (wn_missing_count nk) = length ns"
  shows "qlinq_wire_nack_index nk i = (if i < length ns then Some (ns ! i) else None)"
proof (cases "i < length ns")
  case True
  have "drop (i * 2) (concat (map write_u16 ns)) = concat (map write_u16 (drop i ns))"
    using True by (intro drop_concat_write_u16) simp
  also have "\<dots> = write_u16 (ns ! i) @ concat (map write_u16 (drop (Suc i) ns))"
    using True by (simp flip: Cons_nth_drop_Suc)
  finally show ?thesis
    using True assms by (simp add: qlinq_wire_nack_index_def read_write_u16)
next
  case False
  then show ?thesis using assms by (simp add: qlinq_wire_nack_index_def)
qed

definition nack_rateless :: "u8 \<Rightarrow> bool" where
  "nack_rateless fl \<longleftrightarrow> fl AND WIRE_NACK_RATELESS \<noteq> 0"

definition nack_whole :: "u8 \<Rightarrow> bool" where
  "nack_whole fl \<longleftrightarrow> fl AND WIRE_NACK_WHOLE_OBJECT \<noteq> 0"

definition nack_valid :: "u8 \<Rightarrow> u16 \<Rightarrow> bool" where
  "nack_valid fl c \<longleftrightarrow> fl AND NOT (WIRE_NACK_WHOLE_OBJECT OR WIRE_NACK_RATELESS) = 0 \<and>
     c \<le> WIRE_MAX_NACK_SYMBOLS \<and>
     (if nack_rateless fl then nack_whole fl \<or> c \<noteq> 0
      else nack_whole fl = (c = 0))"

lemma nack_encode_iff:
  "qlinq_wire_encode_nack cap a fl g ob ms c = Inr bs \<longleftrightarrow>
   nack_valid fl c \<and>
   (if nack_rateless fl then ms = None
    else nack_whole fl \<or> ms \<noteq> None) \<and>
   20 + (if nack_rateless fl then 0 else unat c * 2) \<le> cap \<and>
   bs = [a, fl] @ write_u64 g @ write_u64 ob @ write_u16 c @
     (if nack_rateless fl then []
      else concat (map (\<lambda>i. write_u16 (the ms ! i)) [0..<unat c]))"
proof -
  define R W V where "R = (fl AND WIRE_NACK_RATELESS \<noteq> 0)" and "W = (fl AND WIRE_NACK_WHOLE_OBJECT \<noteq> 0)"
    and "V = (fl AND NOT (WIRE_NACK_WHOLE_OBJECT OR WIRE_NACK_RATELESS) \<noteq> 0)"
  show ?thesis
    unfolding qlinq_wire_encode_nack_def nack_valid_def nack_rateless_def nack_whole_def Let_def
    by (auto split: if_splits simp flip: R_def W_def V_def)
qed

lemma nack_decode_iff:
  "qlinq_wire_decode_nack bs = Inr nk \<longleftrightarrow>
   20 \<le> length bs \<and> nack_valid (bs ! 1) (read_u16 (drop 18 bs)) \<and>
   length bs = 20 + (if nack_rateless (bs ! 1) then 0
     else unat (read_u16 (drop 18 bs)) * 2) \<and>
   nk = \<lparr>wn_alias = bs ! 0, wn_flags = bs ! 1, wn_group_id = read_u64 (drop 2 bs),
         wn_object_id = read_u64 (drop 10 bs), wn_missing_count = read_u16 (drop 18 bs),
         wn_encoded_indices = (if nack_rateless (bs ! 1) then None
           else Some (drop 20 bs))\<rparr>"
proof -
  define fl c where "fl = bs ! 1" and "c = read_u16 (drop 18 bs)"
  have n: "NOT (1 OR 2 :: u8) = -4" by simp
  have c: "\<not> 1024 < c \<longleftrightarrow> c \<le> 1024" by (rule linorder_not_less)
  show ?thesis
    unfolding qlinq_wire_decode_nack_def nack_valid_def nack_rateless_def nack_whole_def Let_def fl_def [symmetric] c_def [symmetric] n
    by (cases "fl AND 2 = 0"; cases "fl AND 1 = 0"; cases "fl AND -4 = 0"; cases "1024 < c";
        cases "c = 0"; cases "length bs < 20") (simp_all only: c [symmetric] if_True if_False simp_thms linorder_not_less [where 'a = nat] sum.inject sum.distinct not_not split: if_splits, fastforce+)
qed
text \<open>The indices of a decoded request, as a list, and the requests an encoder is given.\<close>

definition nack_missing :: "wire_nack \<Rightarrow> u16 list option" where
  "nack_missing nk = map_option
     (\<lambda>enc. map (\<lambda>i. read_u16 (drop (i * 2) enc)) [0..<unat (wn_missing_count nk)])
     (wn_encoded_indices nk)"

definition nack_wf :: "wire_nack \<Rightarrow> bool" where
  "nack_wf nk \<longleftrightarrow> (case wn_encoded_indices nk of
      None \<Rightarrow> nack_rateless (wn_flags nk)
    | Some enc \<Rightarrow> \<not> nack_rateless (wn_flags nk) \<and>
        length enc = unat (wn_missing_count nk) * 2)"

definition encode_nack_record :: "nat \<Rightarrow> wire_nack \<Rightarrow> wire_error + bytes" where
  "encode_nack_record cap nk = qlinq_wire_encode_nack cap (wn_alias nk) (wn_flags nk)
     (wn_group_id nk) (wn_object_id nk) (nack_missing nk) (wn_missing_count nk)"

lemma rewrite_indices:
  "length enc = n * 2 \<Longrightarrow> concat (map (\<lambda>i. write_u16 (read_u16 (drop (i * 2) enc))) [0..<n]) = enc"
proof (induction n arbitrary: enc)
  case 0
  then show ?case by simp
next
  case (Suc n)
  have u: "[0..<Suc n] = 0 # map Suc [0..<n]"
    by (simp add: upt_conv_Cons map_Suc_upt del: upt_Suc)
  have d: "drop (i * 2) (drop 2 enc) = drop (Suc (Suc (i * 2))) enc" for i
    by (simp add: numeral_2_eq_2)
  have "concat (map (\<lambda>i. write_u16 (read_u16 (drop (i * 2) (drop 2 enc)))) [0..<n]) = drop 2 enc"
    using Suc.prems by (intro Suc.IH) simp
  then show ?case
    using Suc.prems unfolding d by (simp add: u comp_def write_read_u16 del: upt_Suc drop_drop)
qed

lemma nack_bytes_decode:
  assumes "nack_valid fl c" "length enc = (if nack_rateless fl then 0 else unat c * 2)"
  shows "qlinq_wire_decode_nack ([a, fl] @ write_u64 g @ write_u64 ob @ write_u16 c @ enc) =
    Inr \<lparr>wn_alias = a, wn_flags = fl, wn_group_id = g, wn_object_id = ob, wn_missing_count = c,
      wn_encoded_indices = (if nack_rateless fl then None else Some enc)\<rparr>"
  using assms by (simp only: nack_decode_iff) (simp add: wire_simps)

lemma nack_bytes_split:
  assumes "20 \<le> length bs"
  shows "[bs ! 0, bs ! 1] @ write_u64 (read_u64 (drop 2 bs)) @ write_u64 (read_u64 (drop 10 bs)) @
    write_u16 (read_u16 (drop 18 bs)) @ drop 20 bs = bs"
  using assms by (simp add: wire_simps refill)

lemma nack_record_enc_dec:
  assumes wf: "nack_wf nk" and e: "encode_nack_record cap nk = Inr bs"
  shows "length bs \<le> cap \<and> qlinq_wire_decode_nack bs = Inr nk"
proof (cases "wn_encoded_indices nk")
  case None
  with wf have r: "nack_rateless (wn_flags nk)" by (simp add: nack_wf_def)
  from e r None have v: "nack_valid (wn_flags nk) (wn_missing_count nk)" and c: "20 \<le> cap"
    and b: "bs = [wn_alias nk, wn_flags nk] @ write_u64 (wn_group_id nk) @
      write_u64 (wn_object_id nk) @ write_u16 (wn_missing_count nk) @ []"
    unfolding encode_nack_record_def nack_encode_iff by simp_all
  show ?thesis
    unfolding b using c r None nack_bytes_decode [OF v, of "[]"] by simp
next
  case (Some enc)
  with wf have r: "\<not> nack_rateless (wn_flags nk)"
    and l: "length enc = unat (wn_missing_count nk) * 2" by (simp_all add: nack_wf_def)
  have m: "concat (map (\<lambda>i. write_u16 (the (nack_missing nk) ! i)) [0..<unat (wn_missing_count nk)]) = enc"
    using Some rewrite_indices [OF l] by (simp add: nack_missing_def cong: map_cong)
  from e r have v: "nack_valid (wn_flags nk) (wn_missing_count nk)"
    and c: "20 + unat (wn_missing_count nk) * 2 \<le> cap"
    and b: "bs = [wn_alias nk, wn_flags nk] @ write_u64 (wn_group_id nk) @
      write_u64 (wn_object_id nk) @ write_u16 (wn_missing_count nk) @ enc"
    unfolding encode_nack_record_def nack_encode_iff m by simp_all
  show ?thesis
    unfolding b using c r Some l nack_bytes_decode [OF v, of enc] by simp
qed

lemma nack_record_dec_enc:
  assumes d: "qlinq_wire_decode_nack bs = Inr nk" and cap: "length bs \<le> cap"
  shows "encode_nack_record cap nk = Inr bs"
proof -
  define fl c where "fl = bs ! 1" and "c = read_u16 (drop 18 bs)"
  from d have l: "20 \<le> length bs" and v: "nack_valid fl c"
    and n: "length bs = 20 + (if nack_rateless fl then 0 else unat c * 2)"
    and nk: "nk = \<lparr>wn_alias = bs ! 0, wn_flags = fl, wn_group_id = read_u64 (drop 2 bs),
      wn_object_id = read_u64 (drop 10 bs), wn_missing_count = c,
      wn_encoded_indices = (if nack_rateless fl then None
        else Some (drop 20 bs))\<rparr>"
    unfolding nack_decode_iff fl_def c_def by blast+
  have b: "[bs ! 0, fl] @ write_u64 (read_u64 (drop 2 bs)) @ write_u64 (read_u64 (drop 10 bs)) @
    write_u16 c @ drop 20 bs = bs"
    using nack_bytes_split [OF l] by (simp only: fl_def c_def)
  show ?thesis
  proof (cases "nack_rateless fl")
    case False
    then have enc: "length (drop 20 bs) = unat c * 2"
      using n by simp
    have a: "map (\<lambda>i. write_u16 (the (nack_missing nk) ! i)) [0..<unat c] =
        map (\<lambda>i. write_u16 (read_u16 (drop (i * 2) (drop 20 bs)))) [0..<unat c]"
      using False by (intro map_cong refl) (simp add: nk nack_missing_def)
    have m: "concat (map (\<lambda>i. write_u16 (the (nack_missing nk) ! i)) [0..<unat c]) = drop 20 bs"
      unfolding a by (rule rewrite_indices [OF enc])
    show ?thesis
      unfolding encode_nack_record_def nack_encode_iff
      using False v n cap b m by (simp add: nk nack_missing_def)
  next
    case True
    then have "drop 20 bs = []" using n by simp
    then show ?thesis
      unfolding encode_nack_record_def nack_encode_iff
      using True v n cap b by (simp add: nk nack_missing_def)
  qed
qed

lemma nack_record_wf: 
  assumes d: "qlinq_wire_decode_nack bs = Inr nk"
  shows "nack_wf nk"
proof -
  define fl c where "fl = bs ! 1" and "c = read_u16 (drop 18 bs)"
  from d have n: "length bs = 20 + (if nack_rateless fl then 0 else unat c * 2)"
    and nk: "nk = \<lparr>wn_alias = bs ! 0, wn_flags = fl, wn_group_id = read_u64 (drop 2 bs),
      wn_object_id = read_u64 (drop 10 bs), wn_missing_count = c,
      wn_encoded_indices = (if nack_rateless fl then None
        else Some (drop 20 bs))\<rparr>"
    unfolding nack_decode_iff fl_def c_def by blast+
  show ?thesis
    using n by (cases "nack_rateless fl") (simp_all add: nack_wf_def nk)
qed

interpretation nack: canonical_codec encode_nack_record qlinq_wire_decode_nack nack_wf
  by unfold_locales
    (erule (1) nack_record_enc_dec, erule nack_record_wf, erule (1) nack_record_dec_enc)

text \<open>
  A track descriptor is encoded up to its terminator: the codec is faithful on names that
  are padded with zeros, as every decoder result and every copied name is.
\<close>

definition track_wf :: "wire_track \<Rightarrow> bool" where
  "track_wf t \<longleftrightarrow> wt_name t = fill_array 64 (cstr (take 64 (wt_name t)))"

interpretation track: wire_codec qlinq_wire_encode_track qlinq_wire_decode_track track_wf
proof unfold_locales
  fix t cap bs assume "track_wf t" "qlinq_wire_encode_track cap t = Inr bs"
  then show "length bs \<le> cap \<and> qlinq_wire_decode_track bs = Inr t"
    using track_enc_dec [of cap t bs] by (simp add: track_wf_def)
qed

section \<open>Properties\<close>

text \<open>
  C19. A frame on the wire is exactly what the encoder writes: the decoder accepts a buffer
  if and only if the buffer begins with the encoding of the returned type and payload, and
  it then consumes that encoding and nothing more.
\<close>

theorem frame_decode_iff_encode:
  "qlinq_wire_decode_frame bs mx = Inr f \<longleftrightarrow>
   (\<exists>enc rest. bs = enc @ rest \<and> wf_consumed f = length enc \<and>
      qlinq_wire_encode_frame (length enc) (wf_type f) (wf_payload f) mx = Inr enc)"
proof
  assume "qlinq_wire_decode_frame bs mx = Inr f"
  from frame_dec_enc [OF this] have "bs = take (wf_consumed f) bs @ drop (wf_consumed f) bs \<and>
      wf_consumed f = length (take (wf_consumed f) bs) \<and>
      qlinq_wire_encode_frame (length (take (wf_consumed f) bs)) (wf_type f) (wf_payload f) mx =
        Inr (take (wf_consumed f) bs)" by auto
  then show "\<exists>enc rest. bs = enc @ rest \<and> wf_consumed f = length enc \<and>
      qlinq_wire_encode_frame (length enc) (wf_type f) (wf_payload f) mx = Inr enc" by blast
next
  assume "\<exists>enc rest. bs = enc @ rest \<and> wf_consumed f = length enc \<and>
      qlinq_wire_encode_frame (length enc) (wf_type f) (wf_payload f) mx = Inr enc"
  then show "qlinq_wire_decode_frame bs mx = Inr f"
    using frame_enc_dec by fastforce
qed

text \<open>
  C20. The frame decoder is insensitive to how the stream was cut: once it has accepted or
  rejected a prefix, bytes that arrive later never change that decision, so only
  \<open>NEED_MORE\<close> asks for more input.
\<close>

theorem frame_decision_final:
  assumes "qlinq_wire_decode_frame bs mx \<noteq> Inl NEED_MORE"
  shows "qlinq_wire_decode_frame (bs @ ys) mx = qlinq_wire_decode_frame bs mx"
  using assms by (rule frame_decision_stable)

theorem frame_decision_final_witness:
  "qlinq_wire_decode_frame ([0x51, 0x4c, 1, 10, 0, 0, 0, 0] @ [7]) 16 = Inl INVALID"
proof -
  have d: "qlinq_wire_decode_frame [0x51, 0x4c, 1, 10, 0, 0, 0, 0] 16 = Inl INVALID"
    by (simp add: qlinq_wire_decode_frame_def qlinq_wire_frame_type_is_known_def)
  show ?thesis
    using frame_decision_final [of "[0x51, 0x4c, 1, 10, 0, 0, 0, 0]" 16 "[7]"] unfolding d by simp
qed

text \<open>
  HELLO, telemetry and the three completion records have one encoding per value and one
  value per encoding: each decoder accepts exactly the bytes its encoder produces, all
  validity conditions (roles, limits, capabilities, object ranges, reserved bytes) included.
\<close>

theorem control_records_canonical:
  "(qlinq_wire_decode_hello bs = Inr h \<longleftrightarrow> qlinq_wire_encode_hello (length bs) h = Inr bs) \<and>
   (qlinq_wire_decode_telemetry bs = Inr t \<longleftrightarrow>
      qlinq_wire_encode_telemetry (length bs) t = Inr bs) \<and>
   (qlinq_wire_decode_track_end bs = Inr e \<longleftrightarrow>
      qlinq_wire_encode_track_end (length bs) e = Inr bs) \<and>
   (qlinq_wire_decode_track_checkpoint bs = Inr c \<longleftrightarrow>
      qlinq_wire_encode_track_checkpoint (length bs) c = Inr bs) \<and>
   (qlinq_wire_decode_track_checkpoint_ack bs = Inr a \<longleftrightarrow>
      qlinq_wire_encode_track_checkpoint_ack (length bs) a = Inr bs)"
  using hello.dec_iff_enc telemetry.dec_iff_enc track_end.dec_iff_enc checkpoint.dec_iff_enc
    checkpoint_ack.dec_iff_enc by simp

text \<open>
  A FEC datagram and a reliable object split into exactly one header and the payload
  behind it: the decoder accepts a buffer precisely when its fixed-size prefix is the
  encoding of the returned header.
\<close>

theorem data_headers_split:
  "(qlinq_wire_decode_fec_header bs = Inr h \<longleftrightarrow>
     44 \<le> length bs \<and> qlinq_wire_encode_fec_header 44 h = Inr (take 44 bs)) \<and>
   (qlinq_wire_decode_track_object bs = Inr (ob, payload) \<longleftrightarrow>
     (\<exists>p. qlinq_wire_encode_track_object 20 ob = Inr p \<and> bs = p @ payload))"
  using fec_header_split track_object_enc_dec [of 20 ob] track_object_dec_enc [of bs ob payload 20]
  by fastforce

text \<open>
  C21. A repair request has one encoding: the decoder accepts exactly the bytes that the
  encoder writes for the flags, the object and the list of missing symbols it reports, where
  a rateless request carries no list and an indexed one as many indices as its count says.
\<close>

theorem nack_canonical:
  "qlinq_wire_decode_nack bs = Inr nk \<longleftrightarrow>
   nack_wf nk \<and>
   qlinq_wire_encode_nack (length bs) (wn_alias nk) (wn_flags nk) (wn_group_id nk)
     (wn_object_id nk) (nack_missing nk) (wn_missing_count nk) = Inr bs"
  using nack.dec_iff_enc [of bs nk] by (simp add: encode_nack_record_def)

text \<open>
  A track descriptor whose name is a zero padded C string survives the wire unchanged,
  and two descriptors with the same encoding are the same.
\<close>

theorem track_descriptor_roundtrip:
  assumes "track_wf t" "qlinq_wire_encode_track cap t = Inr bs"
  shows "length bs \<le> cap \<and> qlinq_wire_decode_track bs = Inr t \<and>
    (track_wf t' \<and> qlinq_wire_encode_track cap' t' = Inr bs \<longrightarrow> t' = t)"
  using assms track.enc_dec [of t cap bs] track.enc_inj [of t' t cap' bs cap] by blast

theorem track_descriptor_roundtrip_witness:
  "qlinq_wire_decode_track [7, 4, 1, 2, 97, 98] =
   Inr \<lparr>wt_alias = 7, wt_track_type = 4, wt_flags = 1, wt_name = [97, 98] @ replicate 62 0\<rparr>"
proof -
  let ?t = "\<lparr>wt_alias = 7, wt_track_type = 4, wt_flags = 1, wt_name = [97, 98] @ replicate 62 0\<rparr>"
  have c: "cstr (take 64 ([97, 98] @ replicate 62 0)) = [97, 98]"
    by code_simp
  have w: "track_wf ?t"
    unfolding track_wf_def wire_track.simps c by (simp add: fill_array_def)
  have e: "qlinq_wire_encode_track 64 ?t = Inr [7, 4, 1, 2, 97, 98]"
    unfolding qlinq_wire_encode_track_def strnlen_def wire_track.simps c by simp
  show ?thesis using track_descriptor_roundtrip [OF w e] by simp
qed

text \<open>
  The decoder takes a repair request for a whole rateless object with a nonzero count; the wire
  document gives such a request a zero count.
\<close>
lemma nack_whole_rateless_counted:
  "qlinq_wire_decode_nack ([1, 3] @ replicate 16 0 @ [0, 9]) =
     Inr \<lparr>wn_alias = 1, wn_flags = 3, wn_group_id = 0, wn_object_id = 0, wn_missing_count = 9,
          wn_encoded_indices = None\<rparr>"
  by code_simp

end
