(* ===== verification/Tracks.thy ===== *)
theory Tracks
  imports Qlinq_Prelude
begin

text \<open>
  Track identities (\<open>transport_tracks.c\<close>, \<open>moq_track_id_t\<close> of \<open>transport.h\<close>, the track types of
  \<open>transport_protocol.c\<close>) and the command line parsers of \<open>cli_parse.c\<close>. The C enumeration
  \<open>moq_track_type_t\<close> is the 32 bit integer that represents it, so a value outside of the
  enumerators is possible, as it is in C.
\<close>

section \<open>Track identities\<close>

record moq_track_id =
  ti_type :: u32
  ti_flags :: u8
  ti_name :: bytes

abbreviation (input) "MOQ_TRACK_VIDEO \<equiv> (0 :: u8)"
abbreviation (input) "MOQ_TRACK_AUDIO \<equiv> (1 :: u8)"
abbreviation (input) "MOQ_TRACK_INPUT \<equiv> (2 :: u8)"
abbreviation (input) "MOQ_TRACK_TEXT \<equiv> (3 :: u8)"
abbreviation (input) "MOQ_TRACK_DATA \<equiv> (4 :: u8)"
abbreviation (input) "MOQ_TRACK_TELEMETRY \<equiv> (6 :: u8)"
abbreviation (input) "MOQ_TRACK_FLAG_RELIABLE \<equiv> (1 :: u8)"
abbreviation (input) "MOQ_TRACK_FLAG_FEC_ENABLED \<equiv> (2 :: u8)"
abbreviation (input) "MOQ_TRACK_FLAG_FEC_RATELESS \<equiv> (4 :: u8)"
abbreviation (input) "TRACK_NAME_SIZE \<equiv> (64 :: nat)"

text \<open>A \<open>memset\<close> of zero.\<close>

definition zero_track :: moq_track_id where
  "zero_track = \<lparr>ti_type = 0, ti_flags = 0, ti_name = replicate 64 0\<rparr>"

definition transport_track_type_valid :: "u8 \<Rightarrow> bool" where
  "transport_track_type_valid t = (t = MOQ_TRACK_VIDEO \<or> t = MOQ_TRACK_AUDIO \<or>
     t = MOQ_TRACK_INPUT \<or> t = MOQ_TRACK_TEXT \<or> t = MOQ_TRACK_DATA \<or> t = MOQ_TRACK_TELEMETRY)"

record track_profile =
  pr_reliable :: bool
  pr_fec_enabled :: bool
  pr_fec_rateless :: bool

definition transport_track_profile :: "moq_track_id \<Rightarrow> track_profile" where
  "transport_track_profile track =
     \<lparr>pr_reliable = (ti_flags track AND MOQ_TRACK_FLAG_RELIABLE \<noteq> 0),
      pr_fec_enabled = (ti_flags track AND MOQ_TRACK_FLAG_FEC_ENABLED \<noteq> 0),
      pr_fec_rateless = (ti_flags track AND MOQ_TRACK_FLAG_FEC_RATELESS \<noteq> 0)\<rparr>"

text \<open>The test of the type looks at its low byte only, because of the cast in the code.\<close>

definition transport_track_id_valid :: "moq_track_id \<Rightarrow> bool" where
  "transport_track_id_valid track =
     (if strnlen (ti_name track) TRACK_NAME_SIZE = TRACK_NAME_SIZE then False
      else if \<not> transport_track_type_valid (ucast (ti_type track)) then False
      else let valid_flags = MOQ_TRACK_FLAG_RELIABLE OR MOQ_TRACK_FLAG_FEC_ENABLED OR
             MOQ_TRACK_FLAG_FEC_RATELESS in
        ti_flags track AND NOT valid_flags = 0)"

definition transport_track_id_equal :: "moq_track_id \<Rightarrow> moq_track_id \<Rightarrow> bool" where
  "transport_track_id_equal a b = (ti_type a = ti_type b \<and> ti_flags a = ti_flags b \<and>
     strcmp_eq (ti_name a) (ti_name b))"

lemma track_id_equal_refl: "transport_track_id_equal a a"
  by (simp add: transport_track_id_equal_def strcmp_eq_def)

lemma track_id_equal_sym: "transport_track_id_equal a b = transport_track_id_equal b a"
  by (auto simp: transport_track_id_equal_def strcmp_eq_def)

lemma track_id_equal_trans:
  "transport_track_id_equal a b \<Longrightarrow> transport_track_id_equal b c \<Longrightarrow> transport_track_id_equal a c"
  by (simp add: transport_track_id_equal_def strcmp_eq_def)

lemma track_profile_equal:
  "transport_track_id_equal a b \<Longrightarrow> transport_track_profile a = transport_track_profile b"
  by (simp add: transport_track_id_equal_def transport_track_profile_def)

section \<open>Command line parsers\<close>

text \<open>
  A \<open>const char *\<close> argument is the list of the bytes before its terminator. \<open>char_at\<close> reads
  it the way C does, up to the terminating zero. \<open>strtoull\<close> is the standard function at
  base 10 on a text that begins with a digit, the only texts it is called on: the value and
  \<open>errno\<close> (whether it is \<open>ERANGE\<close>), and the offset of \<open>end\<close>.
\<close>

definition char_at :: "bytes \<Rightarrow> nat \<Rightarrow> u8" where
  "char_at s i = (if i < length s then s ! i else 0)"

abbreviation (input) "CHAR_0 \<equiv> (48 :: u8)"
abbreviation (input) "CHAR_9 \<equiv> (57 :: u8)"
abbreviation (input) "CHAR_COLON \<equiv> (58 :: u8)"
abbreviation (input) "CHAR_LBRACKET \<equiv> (91 :: u8)"
abbreviation (input) "CHAR_RBRACKET \<equiv> (93 :: u8)"

definition is_digit :: "u8 \<Rightarrow> bool" where
  "is_digit c = (CHAR_0 \<le> c \<and> c \<le> CHAR_9)"

definition decimal :: "bytes \<Rightarrow> nat" where
  "decimal ds = foldl (\<lambda>n d. n * 10 + (unat d - 48)) 0 ds"

definition strtoull :: "bytes \<Rightarrow> (nat \<times> bool) \<times> nat" where
  "strtoull s = (let ds = takeWhile is_digit s; v = decimal ds in
     (if v > SIZE_MAX then (SIZE_MAX, True) else (v, False), length ds))"

definition cli_parse_u64 :: "bytes \<Rightarrow> u64 \<Rightarrow> u64 option" where
  "cli_parse_u64 text maximum =
     (if char_at text 0 = 0 \<or> char_at text 0 < CHAR_0 \<or> char_at text 0 > CHAR_9 then None
      else case strtoull text of ((parsed, range_error), end_at) \<Rightarrow>
        if range_error \<or> char_at text end_at \<noteq> 0 \<or> parsed > unat maximum then None
        else Some (of_nat parsed))"

text \<open>\<open>strchr\<close> and \<open>strrchr\<close>: the index of the first and of the last occurrence.\<close>

definition strchr :: "bytes \<Rightarrow> u8 \<Rightarrow> nat option" where
  "strchr s c = (let n = length (takeWhile (\<lambda>x. x \<noteq> c) s) in if n < length s then Some n else None)"

definition strrchr :: "bytes \<Rightarrow> u8 \<Rightarrow> nat option" where
  "strrchr s c = map_option (\<lambda>n. length s - 1 - n) (strchr (rev s) c)"

text \<open>
  The end point parser in three steps: the brackets and colons, as the start of the host in
  the text, its size and the text of the port; the bounds of the host; the port. The first
  component of the result is what is written to \<open>*has_port\<close>, also when the port is rejected.
\<close>

definition endpoint_parts :: "bytes \<Rightarrow> (nat \<times> nat \<times> nat option) option" where
  "endpoint_parts text =
     (if char_at text 0 = CHAR_LBRACKET then
        case strchr (drop 1 text) CHAR_RBRACKET of
          None \<Rightarrow> None
        | Some n \<Rightarrow>
          let closing = 1 + n in
          if char_at text (closing + 1) \<noteq> 0 \<and> char_at text (closing + 1) \<noteq> CHAR_COLON then None
          else Some (1, n,
            if char_at text (closing + 1) = CHAR_COLON then Some (closing + 2) else None)
      else case strchr text CHAR_COLON of
          None \<Rightarrow> Some (0, length text, None)
        | Some first_colon \<Rightarrow>
          if strrchr text CHAR_COLON = Some first_colon
          then Some (0, first_colon, Some (first_colon + 1))
          else Some (0, length text, None))"

definition cli_parse_endpoint ::
  "bytes \<Rightarrow> nat \<Rightarrow> bool option \<times> (bytes \<times> u16 option) option" where
  "cli_parse_endpoint text host_capacity =
     (if char_at text 0 = 0 \<or> host_capacity = 0 then (None, None)
      else case endpoint_parts text of
        None \<Rightarrow> (None, None)
      | Some (start, host_size, port_text) \<Rightarrow>
        if host_size = 0 \<or> host_size \<ge> host_capacity then (None, None)
        else (Some (port_text \<noteq> None),
          let host = take host_size (drop start text) in
          case port_text of
            None \<Rightarrow> Some (host, None)
          | Some p \<Rightarrow>
            (case cli_parse_u64 (drop p text) 65535 of
              None \<Rightarrow> None
            | Some parsed \<Rightarrow> if parsed = 0 then None else Some (host, Some (ucast parsed)))))"

section \<open>The parsers accept what they should\<close>

lemma char_at_0: "char_at s 0 = 0 \<longleftrightarrow> s = [] \<or> hd s = 0"
  by (cases s) (auto simp: char_at_def)

lemma char_at_length_takeWhile:
  "0 \<notin> set s \<Longrightarrow> (char_at s (length (takeWhile P s)) = 0) = (\<forall>c\<in>set s. P c)"
  by (induction s) (auto simp: char_at_def)

lemma zero_no_digit: "\<not> is_digit 0"
  by (simp add: is_digit_def)

text \<open>
  The number parser accepts exactly the non-empty digit strings whose value is at most the
  maximum, and returns that value.
\<close>

lemma parse_u64_iff:
  assumes "0 \<notin> set text"
  shows "cli_parse_u64 text maximum = Some v \<longleftrightarrow>
    text \<noteq> [] \<and> (\<forall>c\<in>set text. is_digit c) \<and> decimal text \<le> unat maximum \<and>
    v = of_nat (decimal text)"
proof (cases "text = []")
  case True
  then show ?thesis by (simp add: cli_parse_u64_def char_at_def)
next
  case False
  have m: "unat maximum \<le> SIZE_MAX"
    using unat_less_2p [of maximum] by (simp add: SIZE_MAX_def)
  have d: "takeWhile is_digit text = text" if "\<forall>c\<in>set text. is_digit c"
    using that by (simp add: takeWhile_eq_all_conv)
  have g: "\<not> (char_at text 0 = 0 \<or> char_at text 0 < 48 \<or> 57 < char_at text 0)"
    if "\<forall>c\<in>set text. is_digit c"
    using that False by (cases "text") (auto simp: char_at_def is_digit_def)
  show ?thesis
  proof (cases "\<forall>c\<in>set text. is_digit c")
    case True
    then show ?thesis
      using m False g char_at_length_takeWhile [OF assms, of is_digit]
      by (auto simp: cli_parse_u64_def strtoull_def Let_def d)
  next
    case no: False
    then show ?thesis
      using char_at_length_takeWhile [OF assms, of is_digit]
      by (auto simp: cli_parse_u64_def strtoull_def Let_def)
  qed
qed

lemma takeWhile_neq_append: "c \<notin> set a \<Longrightarrow> takeWhile (\<lambda>x. x \<noteq> c) (a @ c # b) = a"
  by (induction a) auto

lemma strchr_append: "c \<notin> set a \<Longrightarrow> strchr (a @ c # b) c = Some (length a)"
  by (simp add: strchr_def takeWhile_neq_append)

lemma strchr_none: "c \<notin> set a \<Longrightarrow> strchr a c = None"
  unfolding strchr_def by (metis (mono_tags, lifting) less_irrefl takeWhile_eq_all_conv)

lemma strrchr_append: "c \<notin> set b \<Longrightarrow> strrchr (a @ c # b) c = Some (length a)"
  using strchr_append [of c "rev b" "rev a"] by (simp add: strrchr_def)

text \<open>What the parser makes of the port part, and the four documented forms of an end point.\<close>

definition endpoint_port :: "bytes \<Rightarrow> u16 option" where
  "endpoint_port p = (case cli_parse_u64 p 65535 of
     None \<Rightarrow> None | Some v \<Rightarrow> if v = 0 then None else Some (ucast v))"

lemma char_at_simps:
  "char_at (c # s) 0 = c" "char_at (c # s) (Suc n) = char_at s n" "char_at [] n = 0"
  "char_at (a @ s) (length a + n) = char_at s n" "char_at (a @ s) (length a) = char_at s 0"
  by (simp_all add: char_at_def nth_append)

lemma endpoint_parts_plain:
  assumes "char_at h 0 \<noteq> CHAR_LBRACKET" "CHAR_COLON \<notin> set h"
  shows "endpoint_parts h = Some (0, length h, None)"
  using assms by (simp add: endpoint_parts_def strchr_none)

lemma endpoint_parts_port:
  assumes "h \<noteq> []" "hd h \<noteq> CHAR_LBRACKET" "CHAR_COLON \<notin> set h" "CHAR_COLON \<notin> set p"
  shows "endpoint_parts (h @ CHAR_COLON # p) = Some (0, length h, Some (length h + 1))"
proof -
  have "char_at (h @ CHAR_COLON # p) 0 = hd h"
    using assms(1) by (cases h) (simp_all add: char_at_def)
  then show ?thesis
    using assms by (simp add: endpoint_parts_def strchr_append strrchr_append)
qed

lemma endpoint_parts_bracket:
  assumes "CHAR_RBRACKET \<notin> set h" "rest = [] \<or> hd rest = CHAR_COLON"
  shows "endpoint_parts (CHAR_LBRACKET # h @ CHAR_RBRACKET # rest) =
    Some (1, length h, if rest = [] then None else Some (length h + 3))"
proof -
  have "char_at (CHAR_LBRACKET # h @ CHAR_RBRACKET # rest) (Suc (Suc (length h))) = char_at rest 0"
    using char_at_simps(4) [of "CHAR_LBRACKET # h" "CHAR_RBRACKET # rest" 1]
    by (simp add: char_at_simps)
  then show ?thesis
    using assms
    by (cases rest) (auto simp: endpoint_parts_def char_at_simps strchr_append Let_def)
qed

lemma endpoint_result:
  assumes "endpoint_parts s = Some (i, n, None)" "char_at s 0 \<noteq> 0" "0 < n" "n < cap"
  shows "cli_parse_endpoint s cap = (Some False, Some (take n (drop i s), None))"
  using assms by (simp add: cli_parse_endpoint_def)

lemma endpoint_result_port:
  assumes "endpoint_parts s = Some (i, n, Some p)" "char_at s 0 \<noteq> 0" "0 < n" "n < cap"
  shows "cli_parse_endpoint s cap = (Some True,
    map_option (\<lambda>port. (take n (drop i s), Some port)) (endpoint_port (drop p s)))"
  using assms by (auto simp: cli_parse_endpoint_def endpoint_port_def split: option.splits)

lemma endpoint_port_nonzero: "endpoint_port p = Some v \<Longrightarrow> v \<noteq> 0"
proof -
  assume e: "endpoint_port p = Some v"
  then obtain w where w: "cli_parse_u64 p 65535 = Some w" "w \<noteq> 0" "v = ucast w"
    by (auto simp: endpoint_port_def split: option.splits if_splits)
  from w(1) obtain d where d: "w = of_nat d" "d \<le> 65535"
    by (auto simp: cli_parse_u64_def strtoull_def Let_def split: if_splits)
  then have "unat v = d"
    using w by (simp add: unsigned_ucast_eq unat_of_nat take_bit_nat_eq_self)
  with w d show "v \<noteq> 0" by auto
qed

section \<open>Properties\<close>

text \<open>
  C40. The number parser of the command line accepts exactly the non-empty decimal texts
  whose value does not exceed the given maximum, whatever their length, and returns that
  value: no sign, no blank, no suffix, and no silent wrap-around of a large number.
\<close>

theorem cli_parse_u64_spec:
  "cli_parse_u64 (cstr s) maximum = Some v \<longleftrightarrow>
   cstr s \<noteq> [] \<and> list_all is_digit (cstr s) \<and> decimal (cstr s) \<le> unat maximum \<and>
   v = of_nat (decimal (cstr s))"
  using parse_u64_iff [of "cstr s" maximum v] by (simp add: list_all_iff)

text \<open>
  The end point parser reads the documented forms \<open>HOST\<close>, \<open>HOST:PORT\<close>, \<open>[IPv6]\<close> and
  \<open>[IPv6]:PORT\<close> back into the host and the port they were built from; the port is the number
  parser's, zero excluded, and only a text with a port sets \<open>has_port\<close>.
\<close>

theorem cli_parse_endpoint_forms:
  assumes "h \<noteq> []" "0 \<notin> set h" "length h < cap" "hd h \<noteq> CHAR_LBRACKET"
    "CHAR_COLON \<notin> set h" "CHAR_COLON \<notin> set p" "h6 \<noteq> []" "length h6 < cap" "CHAR_RBRACKET \<notin> set h6"
  shows "cli_parse_endpoint h cap = (Some False, Some (h, None)) \<and>
    cli_parse_endpoint (h @ CHAR_COLON # p) cap =
      (Some True, map_option (\<lambda>port. (h, Some port)) (endpoint_port p)) \<and>
    cli_parse_endpoint (CHAR_LBRACKET # h6 @ [CHAR_RBRACKET]) cap = (Some False, Some (h6, None)) \<and>
    cli_parse_endpoint (CHAR_LBRACKET # h6 @ CHAR_RBRACKET # CHAR_COLON # p) cap =
      (Some True, map_option (\<lambda>port. (h6, Some port)) (endpoint_port p))"
proof -
  have c: "char_at h 0 \<noteq> 0" "char_at h 0 \<noteq> CHAR_LBRACKET" "char_at (h @ CHAR_COLON # p) 0 \<noteq> 0"
    using assms(1-4) by (cases h; simp add: char_at_def)+
  have b: "char_at (CHAR_LBRACKET # r) 0 \<noteq> 0" for r by (simp add: char_at_def)
  have d: "drop (length h6 + 3) (CHAR_LBRACKET # h6 @ CHAR_RBRACKET # CHAR_COLON # p) = p"
    by (simp add: numeral_3_eq_3)
  show ?thesis
    using assms c(3) d
      endpoint_result [OF endpoint_parts_plain [OF c(2) assms(5)] c(1)]
      endpoint_result_port [OF endpoint_parts_port [OF assms(1,4,5,6)] c(3)]
      endpoint_result [OF endpoint_parts_bracket [OF assms(9), of "[]", simplified] b]
      endpoint_result_port [OF endpoint_parts_bracket [OF assms(9), of "CHAR_COLON # p", simplified] b]
    by simp
qed

theorem cli_parse_endpoint_forms_witness:
  "cli_parse_endpoint [104, 58, 56, 48] 16 = (Some True, Some ([104], Some 80))"
proof -
  have "endpoint_port [56, 48] = Some 80"
    by (simp add: endpoint_port_def cli_parse_u64_def strtoull_def char_at_def is_digit_def
        decimal_def SIZE_MAX_def)
  then show ?thesis
    using cli_parse_endpoint_forms [of "[104]" 16 "[56, 48]" "[49]"] by simp
qed

text \<open>
  The type of a track is validated after a cast to eight bits, so a type beyond the byte range with
  a known low byte passes.
\<close>
lemma track_type_validated_truncated:
  "transport_track_id_valid \<lparr>ti_type = 0x101, ti_flags = 0, ti_name = replicate 64 0\<rparr> =
   transport_track_type_valid 1"
  "transport_track_type_valid 1"
  by code_simp+

end
