(* ===== verification/Subscriptions.thy ===== *)
theory Subscriptions
  imports Tracks
begin

text \<open>
  The subscription table of a connection (\<open>transport_subscriptions.c\<close>) and the per-alias
  state it owns (\<open>transport_recovery_state.h\<close>). The array \<open>entries\<close> is a list, empty while
  the pointer is NULL, so \<open>capacity\<close> is its length; \<open>states\<close>, an array of pointers indexed by
  alias, is a function into \<open>option\<close>; a QUIC stream is an opaque handle. The result of
  \<open>calloc\<close> is an argument of the operations that allocate.

  \<open>subs_map\<close> is the abstract table: a partial map from a track (its type and name) to the
  alias and the mode of its subscription. The invariant \<open>subs_inv\<close> says that aliases and
  tracks identify active entries, and that exactly the aliases in use own a state.
\<close>

section \<open>State\<close>

record recovery_window =
  rw_active :: bool
  rw_group_id :: u64
  rw_first_object_id :: u64
  rw_final_object_id :: u64
  rw_missing_mask :: u32
  rw_cursor :: u8
  rw_last_request_ms :: int

record object_gap_state =
  og_last_seen :: u64
  og_seen_initialized :: bool
  og_pending_base :: u64
  og_pending_mask :: u32
  og_group_id :: u64
  og_detected_at_ms :: int
  og_largest_delivered :: u64
  og_delivered_mask :: "u64 list"
  og_delivered_initialized :: bool
  og_checkpoint_initialized :: bool
  og_last_checkpoint_object_id :: u64
  og_recovery_windows :: "recovery_window list"

record checkpoint_ack_state =
  ak_participating :: bool
  ak_sent_initialized :: bool
  ak_sent_group_id :: u64
  ak_sent_object_id :: u64
  ak_oldest_unacked_sent_at_ms :: int
  ak_acked_initialized :: bool
  ak_acked_group_id :: u64
  ak_acked_object_id :: u64

record subscription_state =
  ss_generation :: u64
  ss_object_gap :: object_gap_state
  ss_checkpoint_ack :: checkpoint_ack_state

type_synonym stream_handle = nat

record track_subscription =
  ts_track_id :: moq_track_id
  ts_alias :: u8
  ts_active :: bool
  ts_stream :: "stream_handle option"
  ts_ingress_stream :: "stream_handle option"

record subscription_table =
  tb_entries :: "track_subscription list"
  tb_next_generation :: u64
  tb_states :: "u8 \<Rightarrow> subscription_state option"

abbreviation (input) "HARD_MAX_SUBSCRIPTIONS \<equiv> (256 :: nat)"
abbreviation (input) "DEFAULT_MAX_SUBSCRIPTIONS \<equiv> (32 :: nat)"
abbreviation (input) "RECOVERY_WINDOW_OBJECTS \<equiv> (32 :: nat)"
abbreviation (input) "RECOVERY_MAX_WINDOWS \<equiv> (128 :: nat)"

text \<open>Zeroed memory.\<close>

definition zero_window :: recovery_window where
  "zero_window = \<lparr>rw_active = False, rw_group_id = 0, rw_first_object_id = 0,
     rw_final_object_id = 0, rw_missing_mask = 0, rw_cursor = 0, rw_last_request_ms = 0\<rparr>"

definition zero_gap :: object_gap_state where
  "zero_gap = \<lparr>og_last_seen = 0, og_seen_initialized = False, og_pending_base = 0,
     og_pending_mask = 0, og_group_id = 0, og_detected_at_ms = 0, og_largest_delivered = 0,
     og_delivered_mask = replicate 64 0, og_delivered_initialized = False,
     og_checkpoint_initialized = False, og_last_checkpoint_object_id = 0,
     og_recovery_windows = replicate RECOVERY_MAX_WINDOWS zero_window\<rparr>"

definition zero_ack :: checkpoint_ack_state where
  "zero_ack = \<lparr>ak_participating = False, ak_sent_initialized = False, ak_sent_group_id = 0,
     ak_sent_object_id = 0, ak_oldest_unacked_sent_at_ms = 0, ak_acked_initialized = False,
     ak_acked_group_id = 0, ak_acked_object_id = 0\<rparr>"

definition zero_subscription :: track_subscription where
  "zero_subscription = \<lparr>ts_track_id = zero_track, ts_alias = 0, ts_active = False,
     ts_stream = None, ts_ingress_stream = None\<rparr>"

definition fresh_state :: "u64 \<Rightarrow> subscription_state" where
  "fresh_state g = \<lparr>ss_generation = g, ss_object_gap = zero_gap, ss_checkpoint_ack = zero_ack\<rparr>"

definition empty_table :: subscription_table where
  "empty_table = \<lparr>tb_entries = [], tb_next_generation = 0, tb_states = \<lambda>_. None\<rparr>"

section \<open>Operations\<close>

definition transport_subscriptions_get_state ::
  "subscription_table \<Rightarrow> u8 \<Rightarrow> subscription_state option" where
  "transport_subscriptions_get_state table alias = tb_states table alias"

definition transport_subscriptions_destroy :: "subscription_table \<Rightarrow> subscription_table" where
  "transport_subscriptions_destroy table = empty_table"

definition transport_subscriptions_init ::
  "bool \<Rightarrow> subscription_table \<Rightarrow> nat \<Rightarrow> bool \<times> subscription_table" where
  "transport_subscriptions_init calloc_ok table capacity =
     (if capacity = 0 \<or> capacity > HARD_MAX_SUBSCRIPTIONS then (False, table)
      else if \<not> calloc_ok then (False, table)
      else (True, (transport_subscriptions_destroy table)
             \<lparr>tb_entries := replicate capacity zero_subscription\<rparr>))"

definition transport_subscriptions_count :: "subscription_table \<Rightarrow> nat" where
  "transport_subscriptions_count table =
     foldl (\<lambda>count e. count + (if ts_active e then 1 else 0)) 0 (tb_entries table)"

definition ensure_initialized :: "bool \<Rightarrow> subscription_table \<Rightarrow> bool \<times> subscription_table" where
  "ensure_initialized calloc_ok table =
     (if tb_entries table \<noteq> [] then (True, table)
      else transport_subscriptions_init calloc_ok table DEFAULT_MAX_SUBSCRIPTIONS)"

definition track_matches :: "moq_track_id \<Rightarrow> u32 \<Rightarrow> bytes \<Rightarrow> bool" where
  "track_matches track t name = (ti_type track = t \<and> strcmp_eq (ti_name track) name)"

definition transport_subscriptions_find_by_alias ::
  "subscription_table \<Rightarrow> u8 \<Rightarrow> moq_track_id option" where
  "transport_subscriptions_find_by_alias table alias =
     map_option (\<lambda>i. ts_track_id (tb_entries table ! i))
       (first_index (\<lambda>e. ts_active e \<and> ts_alias e = alias) (tb_entries table))"

definition transport_subscriptions_find_alias ::
  "subscription_table \<Rightarrow> moq_track_id \<Rightarrow> u8 option" where
  "transport_subscriptions_find_alias table track =
     map_option (\<lambda>i. ts_alias (tb_entries table ! i))
       (first_index (\<lambda>e. ts_active e \<and> track_matches (ts_track_id e) (ti_type track) (ti_name track))
         (tb_entries table))"

text \<open>The pointer into the entries is the index of the entry.\<close>

definition transport_subscriptions_find ::
  "subscription_table \<Rightarrow> moq_track_id \<Rightarrow> nat option" where
  "transport_subscriptions_find table track =
     first_index (\<lambda>e. ts_active e \<and> track_matches (ts_track_id e) (ti_type track) (ti_name track))
       (tb_entries table)"

definition transport_subscriptions_contains :: "subscription_table \<Rightarrow> moq_track_id \<Rightarrow> bool" where
  "transport_subscriptions_contains table track = (transport_subscriptions_find table track \<noteq> None)"

text \<open>
  The move of an existing subscription to another alias. The state moves along and is then
  cleared; \<open>states[entry->alias]\<close> is dereferenced there, and \<open>subs_inv\<close> implies that it is
  not NULL.
\<close>

definition move_alias :: "subscription_table \<Rightarrow> nat \<Rightarrow> u8 \<Rightarrow> subscription_table" where
  "move_alias table i alias =
     (let old = ts_alias (tb_entries table ! i);
          moved = (tb_states table)(alias := tb_states table old, old := None);
          generation = tb_next_generation table + 1 in
      table\<lparr>tb_states := moved(alias := map_option (\<lambda>_. fresh_state generation) (moved alias)),
            tb_next_generation := generation\<rparr>)"

definition transport_subscriptions_add ::
  "bool \<Rightarrow> bool \<Rightarrow> subscription_table \<Rightarrow> u32 \<Rightarrow> u8 \<Rightarrow> bytes \<Rightarrow> u8 \<Rightarrow>
   bool \<times> subscription_table" where
  "transport_subscriptions_add table_calloc_ok calloc_ok table0 t flags name alias =
     (case ensure_initialized table_calloc_ok table0 of (initialized, table) \<Rightarrow>
      if \<not> initialized \<or> strnlen name TRACK_NAME_SIZE \<ge> TRACK_NAME_SIZE then (False, table)
      else if first_index (\<lambda>e. ts_active e \<and> ts_alias e = alias \<and>
          \<not> track_matches (ts_track_id e) t name) (tb_entries table) \<noteq> None then (False, table)
      else case first_index (\<lambda>e. ts_active e \<and> track_matches (ts_track_id e) t name)
          (tb_entries table) of
        Some i \<Rightarrow>
          let entry = tb_entries table ! i in
          if ti_flags (ts_track_id entry) \<noteq> flags then (False, table)
          else let table' = (if ts_alias entry \<noteq> alias then move_alias table i alias else table) in
            (True, table'\<lparr>tb_entries := (tb_entries table')
               [i := entry\<lparr>ts_alias := alias,
                           ts_track_id := (ts_track_id entry)\<lparr>ti_flags := flags\<rparr>\<rparr>]\<rparr>)
      | None \<Rightarrow>
          (case first_index (\<lambda>e. \<not> ts_active e) (tb_entries table) of
            None \<Rightarrow> (False, table)
          | Some i \<Rightarrow>
            if \<not> calloc_ok then (False, table)
            else let generation = tb_next_generation table + 1;
                     entry = zero_subscription\<lparr>
                       ts_track_id := \<lparr>ti_type = t, ti_flags = flags,
                         ti_name = fill_array 64 (take (strnlen name TRACK_NAME_SIZE) name)\<rparr>,
                       ts_alias := alias, ts_active := True\<rparr> in
              (True, \<lparr>tb_entries = (tb_entries table)[i := entry],
                      tb_next_generation = generation,
                      tb_states = (tb_states table)(alias := Some (fresh_state generation))\<rparr>)))"

text \<open>The second component of the result is the stream whose egress side is shut down.\<close>

definition transport_subscriptions_remove ::
  "subscription_table \<Rightarrow> u32 \<Rightarrow> bytes \<Rightarrow> subscription_table \<times> stream_handle option" where
  "transport_subscriptions_remove table t name =
     (case first_index (\<lambda>e. ts_active e \<and> track_matches (ts_track_id e) t name)
        (tb_entries table) of
        None \<Rightarrow> (table, None)
      | Some i \<Rightarrow>
        let entry = tb_entries table ! i in
        (table\<lparr>tb_entries := (tb_entries table)
                 [i := entry\<lparr>ts_active := False, ts_stream := None, ts_ingress_stream := None\<rparr>],
               tb_states := (tb_states table)(ts_alias entry := None)\<rparr>,
         ts_stream entry))"

definition transport_subscriptions_clear_stream ::
  "subscription_table \<Rightarrow> stream_handle \<Rightarrow> subscription_table" where
  "transport_subscriptions_clear_stream table stream =
     table\<lparr>tb_entries := map (\<lambda>e. if ts_active e
        then e\<lparr>ts_stream := (if ts_stream e = Some stream then None else ts_stream e),
               ts_ingress_stream := (if ts_ingress_stream e = Some stream then None
                 else ts_ingress_stream e)\<rparr>
        else e) (tb_entries table)\<rparr>"

definition transport_subscriptions_bind_stream ::
  "subscription_table \<Rightarrow> u8 \<Rightarrow> stream_handle \<Rightarrow> bool \<times> subscription_table" where
  "transport_subscriptions_bind_stream table alias stream =
     (case first_index (\<lambda>e. ts_active e \<and> ts_alias e = alias) (tb_entries table) of
        None \<Rightarrow> (False, table)
      | Some i \<Rightarrow> (True, table\<lparr>tb_entries := (tb_entries table)
          [i := (tb_entries table ! i)\<lparr>ts_ingress_stream := Some stream\<rparr>]\<rparr>))"

definition alias_used :: "subscription_table \<Rightarrow> nat \<Rightarrow> bool" where
  "alias_used table alias =
     list_ex (\<lambda>e. ts_active e \<and> unat (ts_alias e) = alias) (tb_entries table)"

definition transport_subscriptions_next_alias :: "subscription_table \<Rightarrow> int \<Rightarrow> int" where
  "transport_subscriptions_next_alias table first_dynamic_alias =
     (if first_dynamic_alias < 0 \<or> first_dynamic_alias > 255 then -1
      else case first_index (\<lambda>alias. \<not> alias_used table alias)
          [nat first_dynamic_alias..<256] of
        None \<Rightarrow> -1
      | Some i \<Rightarrow> first_dynamic_alias + int i)"

section \<open>The abstract table\<close>

definition track_key :: "moq_track_id \<Rightarrow> u32 \<times> bytes" where
  "track_key track = (ti_type track, cstr (ti_name track))"

definition subs_map :: "subscription_table \<Rightarrow> (u32 \<times> bytes) \<Rightarrow> (u8 \<times> u8) option" where
  "subs_map table k = map_option
     (\<lambda>i. (ts_alias (tb_entries table ! i), ti_flags (ts_track_id (tb_entries table ! i))))
     (first_index (\<lambda>e. ts_active e \<and> track_key (ts_track_id e) = k) (tb_entries table))"

definition subs_inv :: "subscription_table \<Rightarrow> bool" where
  "subs_inv table \<longleftrightarrow>
     (\<forall>i < length (tb_entries table). \<forall>j < length (tb_entries table).
        ts_active (tb_entries table ! i) \<and> ts_active (tb_entries table ! j) \<and>
        (ts_alias (tb_entries table ! i) = ts_alias (tb_entries table ! j) \<or>
         track_key (ts_track_id (tb_entries table ! i)) = track_key (ts_track_id (tb_entries table ! j)))
        \<longrightarrow> i = j) \<and>
     (\<forall>a. tb_states table a \<noteq> None \<longleftrightarrow>
        (\<exists>i < length (tb_entries table). ts_active (tb_entries table ! i) \<and>
           ts_alias (tb_entries table ! i) = a)) \<and>
     length (tb_entries table) \<le> HARD_MAX_SUBSCRIPTIONS"

lemma track_matches_key: "track_matches tr t name \<longleftrightarrow> track_key tr = (t, cstr name)"
  by (auto simp: track_matches_def track_key_def strcmp_eq_def)

section \<open>The invariant and the abstract table under every operation\<close>


definition live :: "track_subscription list \<Rightarrow> nat \<Rightarrow> bool" where
  "live es i \<longleftrightarrow> i < length es \<and> ts_active (es ! i)"

abbreviation (input) "entry_key es i \<equiv> track_key (ts_track_id (es ! i))"

lemma inv_alias: "subs_inv tb \<Longrightarrow> live (tb_entries tb) i \<Longrightarrow> live (tb_entries tb) j \<Longrightarrow>
   ts_alias (tb_entries tb ! i) = ts_alias (tb_entries tb ! j) \<Longrightarrow> i = j"
  unfolding subs_inv_def live_def by blast

lemma inv_key: "subs_inv tb \<Longrightarrow> live (tb_entries tb) i \<Longrightarrow> live (tb_entries tb) j \<Longrightarrow>
   entry_key (tb_entries tb) i = entry_key (tb_entries tb) j \<Longrightarrow> i = j"
  unfolding subs_inv_def live_def by blast

lemma inv_state: "subs_inv tb \<Longrightarrow>
   tb_states tb a \<noteq> None \<longleftrightarrow> (\<exists>i. live (tb_entries tb) i \<and> ts_alias (tb_entries tb ! i) = a)"
  unfolding subs_inv_def live_def by blast

lemma inv_intro:
  assumes "\<And>i j. live (tb_entries tb) i \<Longrightarrow> live (tb_entries tb) j \<Longrightarrow>
      ts_alias (tb_entries tb ! i) = ts_alias (tb_entries tb ! j) \<or>
      entry_key (tb_entries tb) i = entry_key (tb_entries tb) j \<Longrightarrow> i = j"
    and "\<And>a. tb_states tb a \<noteq> None \<longleftrightarrow> (\<exists>i. live (tb_entries tb) i \<and> ts_alias (tb_entries tb ! i) = a)"
    and "length (tb_entries tb) \<le> 256"
  shows "subs_inv tb"
  using assms unfolding subs_inv_def live_def by auto

lemma inv_length: "subs_inv tb \<Longrightarrow> length (tb_entries tb) \<le> 256"
  unfolding subs_inv_def by blast

lemma live_update: "live (es[n := e]) i \<longleftrightarrow> (if i = n then n < length es \<and> ts_active e else live es i)"
  by (auto simp: live_def nth_list_update)

lemma first_live: "first_index (\<lambda>e. ts_active e \<and> P e) es = Some i \<Longrightarrow> live es i \<and> P (es ! i)"
  by (simp add: first_index_Some live_def)

lemma no_live: "first_index (\<lambda>e. ts_active e \<and> P e) es = None \<longleftrightarrow> (\<forall>i. live es i \<longrightarrow> \<not> P (es ! i))"
  by (auto simp: first_index_None live_def)

lemma subs_map_iff:
  assumes "subs_inv tb"
  shows "subs_map tb k = Some (a, f) \<longleftrightarrow> (\<exists>i. live (tb_entries tb) i \<and> entry_key (tb_entries tb) i = k \<and>
     ts_alias (tb_entries tb ! i) = a \<and> ti_flags (ts_track_id (tb_entries tb ! i)) = f)"
    (is "?l = ?r")
proof
  assume ?l then show ?r by (auto simp: subs_map_def dest: first_live)
next
  assume ?r
  then obtain i where i: "live (tb_entries tb) i" "entry_key (tb_entries tb) i = k"
     "ts_alias (tb_entries tb ! i) = a" "ti_flags (ts_track_id (tb_entries tb ! i)) = f" by blast
  have "first_index (\<lambda>e. ts_active e \<and> track_key (ts_track_id e) = k) (tb_entries tb) = Some i"
  proof (rule first_index_unique)
    fix j assume "j < length (tb_entries tb)"
      "ts_active (tb_entries tb ! j) \<and> track_key (ts_track_id (tb_entries tb ! j)) = k"
    then have "live (tb_entries tb) j" "entry_key (tb_entries tb) j = entry_key (tb_entries tb) i"
      using i(2) by (simp_all add: live_def)
    then show "j = i" by (rule inv_key [OF assms _ i(1)])
  qed (use i(1,2) in \<open>simp_all add: live_def\<close>)
  with i show ?l by (simp add: subs_map_def)
qed

lemma subs_map_None: "subs_map tb k = None \<longleftrightarrow> (\<forall>i. live (tb_entries tb) i \<longrightarrow> entry_key (tb_entries tb) i \<noteq> k)"
  by (simp add: subs_map_def no_live)

lemma map_eqI: "(\<And>k a f. m k = Some (a, f) \<longleftrightarrow> m' k = Some (a, f)) \<Longrightarrow> m = m'"
  by (rule ext) (metis not_Some_eq surj_pair)

lemma inv_empty: "subs_inv (empty_table\<lparr>tb_entries := replicate n zero_subscription\<rparr>)" if "n \<le> 256"
  using that by (intro inv_intro) (auto simp: live_def empty_table_def zero_subscription_def)

lemma init_inv:
  "subs_inv table \<Longrightarrow> subs_inv (snd (transport_subscriptions_init c table n))"
  by (simp add: transport_subscriptions_init_def transport_subscriptions_destroy_def inv_empty)

lemma ensure_inv: "subs_inv table \<Longrightarrow> subs_inv (snd (ensure_initialized c table))"
  by (simp add: ensure_initialized_def init_inv)

lemma ensure_map: "subs_map (snd (ensure_initialized c table)) = subs_map table"
  by (auto simp: ensure_initialized_def transport_subscriptions_init_def
      transport_subscriptions_destroy_def subs_map_def first_index_None fun_eq_iff
      zero_subscription_def empty_table_def)

lemma takeWhile_take: "length (takeWhile P (take n xs)) < n \<Longrightarrow> takeWhile P (take n xs) = takeWhile P xs"
proof (induction xs arbitrary: n)
  case (Cons x xs)
  then show ?case by (cases n) (auto split: if_splits)
qed simp

lemma cstr_take: "strnlen name 64 < 64 \<Longrightarrow> cstr (take 64 name) = cstr name"
  unfolding strnlen_def cstr_def by (rule takeWhile_take)

lemma cstr_fill:
  assumes "strnlen name 64 < 64"
  shows "cstr (fill_array 64 (take (strnlen name 64) name)) = cstr name"
proof -
  have "take (strnlen name 64) name = cstr name"
    using assms cstr_take [OF assms] take_cstr [of name] by (simp add: strnlen_def)
  moreover have "replicate (64 - length (cstr name)) (0 :: u8) = 0 # replicate (63 - length (cstr name)) 0"
    using assms cstr_take [OF assms] by (simp add: strnlen_def Suc_diff_le flip: replicate_Suc)
  ultimately show ?thesis by (simp add: fill_array_def cstr_append_zero)
qed

text \<open>The three ways in which adding a subscription ends.\<close>

lemma add_cases [consumes 1, case_names refused updated added]:
  assumes "transport_subscriptions_add c0 c tb0 t f name alias = (ok, tb')"
  obtains
    (refused) "\<not> ok" "tb' = snd (ensure_initialized c0 tb0)"
  | (updated) tb i where "ok" "tb = snd (ensure_initialized c0 tb0)" "live (tb_entries tb) i"
      "entry_key (tb_entries tb) i = (t, cstr name)" "ti_flags (ts_track_id (tb_entries tb ! i)) = f"
      "\<And>j. live (tb_entries tb) j \<Longrightarrow> ts_alias (tb_entries tb ! j) = alias \<Longrightarrow>
         entry_key (tb_entries tb) j = (t, cstr name)"
      "tb' = (if ts_alias (tb_entries tb ! i) \<noteq> alias then move_alias tb i alias else tb)
         \<lparr>tb_entries := (tb_entries tb)[i := (tb_entries tb ! i)\<lparr>ts_alias := alias\<rparr>]\<rparr>"
  | (added) tb i entry where "ok" "tb = snd (ensure_initialized c0 tb0)" "i < length (tb_entries tb)"
      "\<not> ts_active (tb_entries tb ! i)" "c"
      "\<And>j. live (tb_entries tb) j \<Longrightarrow> entry_key (tb_entries tb) j \<noteq> (t, cstr name)"
      "\<And>j. live (tb_entries tb) j \<Longrightarrow> ts_alias (tb_entries tb ! j) \<noteq> alias"
      "track_key (ts_track_id entry) = (t, cstr name)" "ti_flags (ts_track_id entry) = f"
      "ts_alias entry = alias" "ts_active entry"
      "tb' = \<lparr>tb_entries = (tb_entries tb)[i := entry], tb_next_generation = tb_next_generation tb + 1,
         tb_states = (tb_states tb)(alias := Some (fresh_state (tb_next_generation tb + 1)))\<rparr>"
proof -
  define tb where "tb = snd (ensure_initialized c0 tb0)"
  obtain ini where e: "ensure_initialized c0 tb0 = (ini, tb)"
    unfolding tb_def by (cases "ensure_initialized c0 tb0") simp
  let ?clash = "first_index (\<lambda>e. ts_active e \<and> ts_alias e = alias \<and>
          \<not> track_matches (ts_track_id e) t name) (tb_entries tb)"
  let ?old = "first_index (\<lambda>e. ts_active e \<and> track_matches (ts_track_id e) t name) (tb_entries tb)"
  let ?free = "first_index (\<lambda>e. \<not> ts_active e) (tb_entries tb)"
  show ?thesis
  proof (cases "\<not> ini \<or> strnlen name 64 \<ge> 64 \<or> ?clash \<noteq> None")
    case True
    then have "transport_subscriptions_add c0 c tb0 t f name alias = (False, tb)"
      by (elim disjE) (simp_all add: transport_subscriptions_add_def e)
    then show ?thesis
      using assms refused by (simp add: tb_def)
  next
    case ok: False
    have clash: "\<And>j. live (tb_entries tb) j \<Longrightarrow> ts_alias (tb_entries tb ! j) = alias \<Longrightarrow>
        entry_key (tb_entries tb) j = (t, cstr name)"
      using ok by (simp add: no_live track_matches_key)
    show ?thesis
    proof (cases ?old)
      case (Some i)
      then have i: "live (tb_entries tb) i" "entry_key (tb_entries tb) i = (t, cstr name)"
        using first_live [OF Some] by (simp_all add: track_matches_key)
      show ?thesis
      proof (cases "ti_flags (ts_track_id (tb_entries tb ! i)) = f")
        case True
        have same: "(tb_entries tb ! i)\<lparr>ts_alias := alias,
            ts_track_id := (ts_track_id (tb_entries tb ! i))\<lparr>ti_flags := f\<rparr>\<rparr> =
            (tb_entries tb ! i)\<lparr>ts_alias := alias\<rparr>"
          using True by (cases "tb_entries tb ! i"; cases "ts_track_id (tb_entries tb ! i)") auto
        have ents: "tb_entries (if b then move_alias tb i alias else tb) = tb_entries tb" for b
          by (simp add: move_alias_def Let_def)
        show ?thesis
          using assms e ok Some True
          by (intro updated [OF _ tb_def i(1) i(2) True clash])
            (auto simp: transport_subscriptions_add_def Let_def same ents)
      next
        case False
        then have "transport_subscriptions_add c0 c tb0 t f name alias = (False, tb)"
          using ok Some by (simp add: transport_subscriptions_add_def e)
        then show ?thesis
          using assms refused by (simp add: tb_def)
      qed
    next
      case None
      then have k: "\<And>j. live (tb_entries tb) j \<Longrightarrow> entry_key (tb_entries tb) j \<noteq> (t, cstr name)"
        by (simp add: no_live track_matches_key)
      show ?thesis
      proof (cases "?free = None \<or> \<not> c")
        case True
        then have "transport_subscriptions_add c0 c tb0 t f name alias = (False, tb)"
          using ok None by (elim disjE) (simp_all add: transport_subscriptions_add_def e split: option.split)
        then show ?thesis
          using assms refused by (simp add: tb_def)
      next
        case False
        then obtain i where i: "?free = Some i" and c by auto
        then have i': "i < length (tb_entries tb)" "\<not> ts_active (tb_entries tb ! i)"
          by (simp_all add: first_index_Some)
        let ?e = "zero_subscription\<lparr>ts_track_id := \<lparr>ti_type = t, ti_flags = f,
            ti_name = fill_array 64 (take (strnlen name 64) name)\<rparr>, ts_alias := alias, ts_active := True\<rparr>"
        have key: "track_key (ts_track_id ?e) = (t, cstr name)"
          using ok cstr_fill [of name] by (simp add: track_key_def)
        show ?thesis
          using assms e ok None i \<open>c\<close> k clash
          by (intro added [OF _ tb_def i' \<open>c\<close> k _ key])
            (auto simp: transport_subscriptions_add_def Let_def)
      qed
    qed
  qed
qed

lemma move_alias_simps [simp]:
  "tb_entries (move_alias tb i a) = tb_entries tb"
  "tb_next_generation (move_alias tb i a) = tb_next_generation tb + 1"
  by (simp_all add: move_alias_def Let_def)

lemma move_alias_states:
  assumes "subs_inv tb" "live (tb_entries tb) i" "ts_alias (tb_entries tb ! i) \<noteq> a"
  shows "tb_states (move_alias tb i a) = (tb_states tb)
    (ts_alias (tb_entries tb ! i) := None, a := Some (fresh_state (tb_next_generation tb + 1)))"
proof -
  obtain s where "tb_states tb (ts_alias (tb_entries tb ! i)) = Some s"
    using inv_state [OF assms(1)] assms(2) by blast
  then show ?thesis
    using assms(3) by (auto simp: move_alias_def Let_def fun_eq_iff)
qed

lemma entry_update_key: "entry_key (es[i := (es ! i)\<lparr>ts_alias := a\<rparr>]) j = entry_key es j"
  by (cases "i < length es") (auto simp: nth_list_update list_update_beyond)

lemma inv_updated:
  assumes inv: "subs_inv tb" and i: "live (tb_entries tb) i"
    and own: "\<And>j. live (tb_entries tb) j \<Longrightarrow> ts_alias (tb_entries tb ! j) = a \<Longrightarrow>
       entry_key (tb_entries tb) j = entry_key (tb_entries tb) i"
    and st: "st = (if ts_alias (tb_entries tb ! i) = a then tb_states tb else (tb_states tb)
      (ts_alias (tb_entries tb ! i) := None, a := Some s))"
    and es: "tb_entries tb' = (tb_entries tb)[i := (tb_entries tb ! i)\<lparr>ts_alias := a\<rparr>]"
    and "tb_states tb' = st"
  shows "subs_inv tb'"
proof (rule inv_intro)
  let ?es = "tb_entries tb" and ?es' = "tb_entries tb'"
  have L: "live ?es' j = live ?es j" for j
    unfolding es using i by (auto simp: live_def nth_list_update)
  have A: "ts_alias (?es' ! j) = (if j = i then a else ts_alias (?es ! j))" for j
    unfolding es using i by (auto simp: live_def nth_list_update)
  have K: "entry_key ?es' j = entry_key ?es j" for j
    unfolding es by (rule entry_update_key)
  have sole: "j = i" if "live ?es j" "ts_alias (?es ! j) = a" for j
    using inv_key [OF inv that(1) i own [OF that]] .
  show "j = k" if "live ?es' j" "live ?es' k" "ts_alias (?es' ! j) = ts_alias (?es' ! k) \<or>
      entry_key ?es' j = entry_key ?es' k" for j k
  proof (cases "entry_key ?es j = entry_key ?es k")
    case True
    then show ?thesis using that inv_key [OF inv, of j k] unfolding L by blast
  next
    case False
    then have "(if j = i then a else ts_alias (?es ! j)) = (if k = i then a else ts_alias (?es ! k))"
      using that(3) unfolding A K by blast
    then show ?thesis
      using that(1,2) sole [of j] sole [of k] inv_alias [OF inv, of j k] unfolding L
      by metis
  qed
  show "length ?es' \<le> 256" unfolding es using inv_length [OF inv] by simp
  show "tb_states tb' b \<noteq> None \<longleftrightarrow> (\<exists>j. live ?es' j \<and> ts_alias (?es' ! j) = b)" for b
  proof (cases "ts_alias (?es ! i) = a")
    case True
    then have "ts_alias (?es' ! j) = ts_alias (?es ! j)" for j by (simp add: A)
    then show ?thesis
      unfolding L using True inv_state [OF inv, of b] by (simp add: assms(6) st)
  next
    case False
    have "tb_states tb' b \<noteq> None \<longleftrightarrow> b = a \<or> b \<noteq> ts_alias (?es ! i) \<and> tb_states tb b \<noteq> None"
      using False by (auto simp: assms(6) st)
    also have "\<dots> \<longleftrightarrow> (\<exists>j. live ?es' j \<and> ts_alias (?es' ! j) = b)"
    proof -
      have u: "\<forall>j. live ?es j \<longrightarrow> ts_alias (?es ! j) = ts_alias (?es ! i) \<longrightarrow> j = i"
        using inv_alias [OF inv _ i] by blast
      show ?thesis
        unfolding inv_state [OF inv] L A using i u by metis
    qed
    finally show ?thesis .
  qed
qed

lemma inv_added:
  assumes inv: "subs_inv tb" and i: "i < length (tb_entries tb)" "\<not> ts_active (tb_entries tb ! i)"
    and e: "ts_active entry" "track_key (ts_track_id entry) = k" "ts_alias entry = a"
    and fresh: "\<And>j. live (tb_entries tb) j \<Longrightarrow> entry_key (tb_entries tb) j \<noteq> k"
      "\<And>j. live (tb_entries tb) j \<Longrightarrow> ts_alias (tb_entries tb ! j) \<noteq> a"
    and tb': "tb_entries tb' = (tb_entries tb)[i := entry]" "tb_states tb' = (tb_states tb)(a := Some s)"
  shows "subs_inv tb'"
proof (rule inv_intro)
  let ?es = "tb_entries tb" and ?es' = "tb_entries tb'"
  have L: "live ?es' j \<longleftrightarrow> j = i \<or> live ?es j" for j
    using i e(1) by (auto simp: tb'(1) live_def nth_list_update)
  have n: "\<not> live ?es i" using i by (simp add: live_def)
  have E: "?es' ! j = (if j = i then entry else ?es ! j)" for j
    using i(1) by (simp add: tb'(1) nth_list_update)
  show "j = m" if "live ?es' j" "live ?es' m" "ts_alias (?es' ! j) = ts_alias (?es' ! m) \<or>
      entry_key ?es' j = entry_key ?es' m" for j m
    using that e fresh [of j] fresh [of m] inv_key [OF inv, of j m] inv_alias [OF inv, of j m]
    unfolding L E by (cases "j = i"; cases "m = i") auto
  show "length ?es' \<le> 256" using inv_length [OF inv] by (simp add: tb'(1))
  have "(\<exists>j. live ?es' j \<and> ts_alias (?es' ! j) = b) \<longleftrightarrow>
      b = a \<or> (\<exists>j. live ?es j \<and> ts_alias (?es ! j) = b)" for b
    unfolding L E using n e(3) by auto
  then show "tb_states tb' b \<noteq> None \<longleftrightarrow> (\<exists>j. live ?es' j \<and> ts_alias (?es' ! j) = b)" for b
    using inv_state [OF inv, of b] by (simp add: tb'(2))
qed

lemma add_inv:
  assumes inv: "subs_inv tb0"
  shows "subs_inv (snd (transport_subscriptions_add c0 c tb0 t f name alias))"
proof -
  obtain ok tb' where r: "transport_subscriptions_add c0 c tb0 t f name alias = (ok, tb')"
    by (cases "transport_subscriptions_add c0 c tb0 t f name alias")
  have inv': "subs_inv (snd (ensure_initialized c0 tb0))" using inv by (rule ensure_inv)
  from r have "subs_inv tb'"
  proof (cases rule: add_cases)
    case refused
    then show ?thesis using inv' by simp
  next
    case (updated tb i)
    show ?thesis
      using inv' updated move_alias_states [of tb i "alias"]
      by (intro inv_updated [of tb i "alias" "tb_states tb'" "fresh_state (tb_next_generation tb + 1)" tb'])
        auto
  next
    case (added tb i entry)
    show ?thesis
      using inv' added by (intro inv_added [of tb i entry "(t, cstr name)" "alias" tb']) auto
  qed
  then show ?thesis by (simp add: r)
qed

lemma map_updated:
  assumes inv: "subs_inv tb" and i: "live (tb_entries tb) i" "entry_key (tb_entries tb) i = k"
    and inv': "subs_inv tb'"
    and es: "tb_entries tb' = (tb_entries tb)[i := (tb_entries tb ! i)\<lparr>ts_alias := a\<rparr>]"
  shows "subs_map tb' = (subs_map tb)(k \<mapsto> (a, ti_flags (ts_track_id (tb_entries tb ! i))))"
proof (rule map_eqI)
  fix q b f
  let ?es = "tb_entries tb" and ?es' = "tb_entries tb'"
  have L: "live ?es' j = live ?es j" for j
    unfolding es using i by (auto simp: live_def nth_list_update)
  have A: "ts_alias (?es' ! j) = (if j = i then a else ts_alias (?es ! j))" for j
    unfolding es using i by (auto simp: live_def nth_list_update)
  have F: "ti_flags (ts_track_id (?es' ! j)) = ti_flags (ts_track_id (?es ! j))" for j
    unfolding es using i by (auto simp: live_def nth_list_update)
  have K: "entry_key ?es' j = entry_key ?es j" for j
    unfolding es by (rule entry_update_key)
  have u: "\<forall>j. live ?es j \<longrightarrow> entry_key ?es j = k \<longrightarrow> j = i"
    using inv_key [OF inv _ i(1)] i(2) by auto
  show "subs_map tb' q = Some (b, f) \<longleftrightarrow>
      ((subs_map tb)(k \<mapsto> (a, ti_flags (ts_track_id (?es ! i))))) q = Some (b, f)"
  proof (cases "q = k")
    case True
    show ?thesis
      unfolding subs_map_iff [OF inv'] L A F K True fun_upd_same option.inject prod.inject
      using i u by metis
  next
    case False
    then have "entry_key ?es i \<noteq> q" using i by simp
    then show ?thesis
      using False unfolding subs_map_iff [OF inv'] L A F K by (simp add: subs_map_iff [OF inv]) metis
  qed
qed

lemma map_added:
  assumes inv: "subs_inv tb" and i: "i < length (tb_entries tb)" "\<not> ts_active (tb_entries tb ! i)"
    and e: "ts_active entry" "track_key (ts_track_id entry) = k"
    and fresh: "\<And>j. live (tb_entries tb) j \<Longrightarrow> entry_key (tb_entries tb) j \<noteq> k"
    and inv': "subs_inv tb'" and es: "tb_entries tb' = (tb_entries tb)[i := entry]"
  shows "subs_map tb' = (subs_map tb)(k \<mapsto> (ts_alias entry, ti_flags (ts_track_id entry)))"
proof (rule map_eqI)
  fix q b f
  let ?es = "tb_entries tb" and ?es' = "tb_entries tb'"
  have L: "live ?es' j \<longleftrightarrow> j = i \<or> live ?es j" for j
    using i e(1) by (auto simp: es live_def nth_list_update)
  have n: "\<not> live ?es i" using i by (simp add: live_def)
  have E: "?es' ! j = (if j = i then entry else ?es ! j)" for j
    using i(1) by (simp add: es nth_list_update)
  show "subs_map tb' q = Some (b, f) \<longleftrightarrow>
      ((subs_map tb)(k \<mapsto> (ts_alias entry, ti_flags (ts_track_id entry)))) q = Some (b, f)"
  proof (cases "q = k")
    case True
    have "(\<exists>j. (j = i \<or> live ?es j) \<and> entry_key ?es' j = k \<and> ts_alias (?es' ! j) = b \<and>
        ti_flags (ts_track_id (?es' ! j)) = f) \<longleftrightarrow> ts_alias entry = b \<and> ti_flags (ts_track_id entry) = f"
      unfolding E using fresh e(2) by auto
    then show ?thesis unfolding subs_map_iff [OF inv'] L True by simp
  next
    case False
    have "(\<exists>j. (j = i \<or> live ?es j) \<and> entry_key ?es' j = q \<and> ts_alias (?es' ! j) = b \<and>
        ti_flags (ts_track_id (?es' ! j)) = f) \<longleftrightarrow> subs_map tb q = Some (b, f)"
      unfolding E subs_map_iff [OF inv] using n e(2) False by auto
    then show ?thesis using False unfolding subs_map_iff [OF inv'] L by simp
  qed
qed

lemma add_map:
  assumes inv: "subs_inv tb0" and r: "transport_subscriptions_add c0 c tb0 t f name alias = (ok, tb')"
  shows "subs_map tb' = (if ok then (subs_map tb0)((t, cstr name) \<mapsto> (alias, f)) else subs_map tb0)"
proof -
  have inv': "subs_inv (snd (ensure_initialized c0 tb0))" using inv by (rule ensure_inv)
  have i2: "subs_inv tb'" using add_inv [OF inv, of c0 c t f name "alias"] by (simp add: r)
  from r show ?thesis
  proof (cases rule: add_cases)
    case refused
    then show ?thesis by (simp add: ensure_map)
  next
    case (updated tb i)
    then show ?thesis
      using map_updated [of tb i "(t, cstr name)" tb' "alias"] inv' i2 by (simp add: ensure_map)
  next
    case (added tb i entry)
    then show ?thesis
      using map_added [of tb i entry "(t, cstr name)" tb'] inv' i2 by (simp add: ensure_map)
  qed
qed

lemma remove_cases:
  assumes "transport_subscriptions_remove tb t name = (tb', st)"
  obtains
    (absent) "tb' = tb" "st = None" "\<And>j. live (tb_entries tb) j \<Longrightarrow> entry_key (tb_entries tb) j \<noteq> (t, cstr name)"
  | (removed) i where "live (tb_entries tb) i" "entry_key (tb_entries tb) i = (t, cstr name)"
      "tb_entries tb' = (tb_entries tb)[i := (tb_entries tb ! i)
        \<lparr>ts_active := False, ts_stream := None, ts_ingress_stream := None\<rparr>]"
      "tb_states tb' = (tb_states tb)(ts_alias (tb_entries tb ! i) := None)"
      "st = ts_stream (tb_entries tb ! i)" "tb_next_generation tb' = tb_next_generation tb"
proof (cases "first_index (\<lambda>e. ts_active e \<and> track_matches (ts_track_id e) t name) (tb_entries tb)")
  case None
  have "tb' = tb \<and> st = None"
    using assms None by (simp add: transport_subscriptions_remove_def)
  then show ?thesis
    using None absent by (simp add: no_live track_matches_key)
next
  case (Some i)
  then show ?thesis
    using assms removed [of i] first_live [OF Some]
    by (auto simp: transport_subscriptions_remove_def track_matches_key Let_def)
qed

lemma remove_inv:
  assumes inv: "subs_inv tb" and r: "transport_subscriptions_remove tb t name = (tb', st)"
  shows "subs_inv tb' \<and> subs_map tb' = (subs_map tb)((t, cstr name) := None)"
  using r
proof (cases rule: remove_cases)
  case absent
  then have "subs_map tb (t, cstr name) = None" by (simp add: subs_map_None)
  with absent inv show ?thesis by (auto simp: fun_eq_iff)
next
  case (removed i)
  let ?es = "tb_entries tb" and ?es' = "tb_entries tb'"
  have L: "live ?es' j \<longleftrightarrow> j \<noteq> i \<and> live ?es j" for j
    using removed(1) by (auto simp: removed(3) live_def nth_list_update)
  have E: "?es' ! j = ?es ! j" if "j \<noteq> i" for j
    using that by (simp add: removed(3))
  have inv': "subs_inv tb'"
  proof (rule inv_intro)
    show "j = m" if "live ?es' j" "live ?es' m" "ts_alias (?es' ! j) = ts_alias (?es' ! m) \<or>
        entry_key ?es' j = entry_key ?es' m" for j m
      using that inv_key [OF inv, of j m] inv_alias [OF inv, of j m] unfolding L by (metis E)
    show "length ?es' \<le> 256" using inv_length [OF inv] by (simp add: removed(3))
    have u: "\<forall>j. live ?es j \<longrightarrow> ts_alias (?es ! j) = ts_alias (?es ! i) \<longrightarrow> j = i"
      using inv_alias [OF inv _ removed(1)] by blast
    show "tb_states tb' b \<noteq> None \<longleftrightarrow> (\<exists>j. live ?es' j \<and> ts_alias (?es' ! j) = b)" for b
    proof -
      have "tb_states tb' b \<noteq> None \<longleftrightarrow> b \<noteq> ts_alias (?es ! i) \<and> tb_states tb b \<noteq> None"
        by (simp add: removed(4))
      also have "\<dots> \<longleftrightarrow> (\<exists>j. live ?es' j \<and> ts_alias (?es' ! j) = b)"
        unfolding inv_state [OF inv] L using u E by metis
      finally show ?thesis .
    qed
  qed
  have u: "\<forall>j. live ?es j \<longrightarrow> entry_key ?es j = (t, cstr name) \<longrightarrow> j = i"
    using inv_key [OF inv _ removed(1)] removed(2) by auto
  have "subs_map tb' = (subs_map tb)((t, cstr name) := None)"
  proof (rule map_eqI)
    fix q b f
    show "subs_map tb' q = Some (b, f) \<longleftrightarrow> ((subs_map tb)((t, cstr name) := None)) q = Some (b, f)"
    proof (cases "q = (t, cstr name)")
      case True
      then show ?thesis unfolding subs_map_iff [OF inv'] L using u E by auto
    next
      case False
      then have "((subs_map tb)((t, cstr name) := None)) q = subs_map tb q" by simp
      moreover have "subs_map tb' q = Some (b, f) \<longleftrightarrow> subs_map tb q = Some (b, f)"
        unfolding subs_map_iff [OF inv'] subs_map_iff [OF inv] L using removed(2) False E by metis
      ultimately show ?thesis by simp
    qed
  qed
  with inv' show ?thesis by simp
qed

lemma count_foldl: "foldl (\<lambda>c e. c + (if ts_active e then 1 else 0)) n es = n + length (filter ts_active es)"
  by (induction es arbitrary: n) auto

lemma count_filter: "transport_subscriptions_count tb = length (filter ts_active (tb_entries tb))"
  by (simp add: transport_subscriptions_count_def count_foldl)

lemma free_entry:
  "first_index (\<lambda>e. \<not> ts_active e) (tb_entries tb) \<noteq> None \<longleftrightarrow>
   transport_subscriptions_count tb < length (tb_entries tb)"
proof -
  have "first_index (\<lambda>e. \<not> ts_active e) (tb_entries tb) = None \<longleftrightarrow> filter ts_active (tb_entries tb) = tb_entries tb"
    by (simp add: first_index_None filter_id_conv all_set_conv_all_nth)
  also have "\<dots> \<longleftrightarrow> length (filter ts_active (tb_entries tb)) = length (tb_entries tb)"
    by (metis length_filter_less filter_True less_irrefl)
  finally show ?thesis
    using length_filter_le [of ts_active "tb_entries tb"] by (simp add: count_filter nat_less_le)
qed

text \<open>When an initialized table accepts a subscription.\<close>

lemma add_ok_iff:
  assumes inv: "subs_inv tb" and ini: "tb_entries tb \<noteq> []"
  shows "fst (transport_subscriptions_add c0 c tb t f name alias) \<longleftrightarrow>
    strnlen name 64 < 64 \<and>
    (\<forall>k g. subs_map tb k = Some (alias, g) \<longrightarrow> k = (t, cstr name)) \<and>
    (case subs_map tb (t, cstr name) of
       Some (a, g) \<Rightarrow> g = f
     | None \<Rightarrow> c \<and> transport_subscriptions_count tb < length (tb_entries tb))"
proof -
  let ?old = "first_index (\<lambda>e. ts_active e \<and> track_matches (ts_track_id e) t name) (tb_entries tb)"
  have e: "ensure_initialized c0 tb = (True, tb)" using ini by (simp add: ensure_initialized_def)
  have clash: "(first_index (\<lambda>e. ts_active e \<and> ts_alias e = alias \<and>
          \<not> track_matches (ts_track_id e) t name) (tb_entries tb) \<noteq> None) \<longleftrightarrow>
      \<not> (\<forall>k g. subs_map tb k = Some (alias, g) \<longrightarrow> k = (t, cstr name))"
    unfolding no_live subs_map_iff [OF inv] track_matches_key by metis
  have m: "subs_map tb (t, cstr name) =
      map_option (\<lambda>i. (ts_alias (tb_entries tb ! i), ti_flags (ts_track_id (tb_entries tb ! i)))) ?old"
    by (simp add: subs_map_def track_matches_key)
  define C where "C = (\<forall>k g. subs_map tb k = Some (alias, g) \<longrightarrow> k = (t, cstr name))"
  show ?thesis
    unfolding transport_subscriptions_add_def e prod.case clash C_def [symmetric] m
    unfolding free_entry [symmetric]
    by (cases ?old) (auto simp: Let_def split: option.split)
qed

text \<open>Lookups read the abstract table.\<close>

lemma find_alias_map:
  "transport_subscriptions_find_alias tb tr = map_option fst (subs_map tb (track_key tr))"
  by (simp add: transport_subscriptions_find_alias_def subs_map_def track_matches_key track_key_def
      option.map_comp comp_def)

lemma contains_map: "transport_subscriptions_contains tb tr \<longleftrightarrow> subs_map tb (track_key tr) \<noteq> None"
  by (auto simp: transport_subscriptions_contains_def transport_subscriptions_find_def subs_map_def
      track_matches_key track_key_def)

lemma find_by_alias_map:
  assumes inv: "subs_inv tb"
  shows "(case transport_subscriptions_find_by_alias tb a of
      Some tr \<Rightarrow> subs_map tb (track_key tr) = Some (a, ti_flags tr)
    | None \<Rightarrow> \<forall>k g. subs_map tb k \<noteq> Some (a, g))"
proof (cases "first_index (\<lambda>e. ts_active e \<and> ts_alias e = a) (tb_entries tb)")
  case None
  then have "\<forall>i. live (tb_entries tb) i \<longrightarrow> ts_alias (tb_entries tb ! i) \<noteq> a"
    unfolding no_live .
  then have "subs_map tb k \<noteq> Some (a, g)" for k g
    unfolding subs_map_iff [OF inv] by blast
  then show ?thesis
    by (simp add: transport_subscriptions_find_by_alias_def None)
next
  case (Some i)
  then show ?thesis
    using first_live [OF Some] subs_map_iff [OF inv]
    by (auto simp: transport_subscriptions_find_by_alias_def)
qed

lemma states_map: "subs_inv tb \<Longrightarrow>
  transport_subscriptions_get_state tb a \<noteq> None \<longleftrightarrow> (\<exists>k g. subs_map tb k = Some (a, g))"
  unfolding transport_subscriptions_get_state_def inv_state subs_map_iff by blast

text \<open>Streams are bound and cleared without touching the subscriptions.\<close>

lemma same_subs:
  assumes "length (tb_entries tb') = length (tb_entries tb)" "tb_states tb' = tb_states tb"
    and "\<And>i. i < length (tb_entries tb) \<Longrightarrow> ts_active (tb_entries tb' ! i) = ts_active (tb_entries tb ! i) \<and>
      ts_alias (tb_entries tb' ! i) = ts_alias (tb_entries tb ! i) \<and>
      ts_track_id (tb_entries tb' ! i) = ts_track_id (tb_entries tb ! i)"
    and inv: "subs_inv tb"
  shows "subs_inv tb' \<and> subs_map tb' = subs_map tb"
proof -
  have L: "live (tb_entries tb') i = live (tb_entries tb) i" for i
    using assms(1,3) by (auto simp: live_def)
  have inv': "subs_inv tb'"
    using inv unfolding subs_inv_def assms(1,2) using assms(3) by (auto 0 3)
  have "subs_map tb' = subs_map tb"
  proof (rule map_eqI)
    show "subs_map tb' k = Some (a, f) \<longleftrightarrow> subs_map tb k = Some (a, f)" for k a f
      unfolding subs_map_iff [OF inv'] subs_map_iff [OF inv] L
      using assms(3) by (auto simp: live_def)
  qed
  with inv' show ?thesis by simp
qed

lemma clear_stream_same:
  "subs_inv tb \<Longrightarrow> subs_inv (transport_subscriptions_clear_stream tb s) \<and>
   subs_map (transport_subscriptions_clear_stream tb s) = subs_map tb"
  by (rule same_subs) (simp_all add: transport_subscriptions_clear_stream_def)

lemma bind_stream_same:
  "subs_inv tb \<Longrightarrow> subs_inv (snd (transport_subscriptions_bind_stream tb a s)) \<and>
   subs_map (snd (transport_subscriptions_bind_stream tb a s)) = subs_map tb"
  by (rule same_subs) (auto simp: transport_subscriptions_bind_stream_def nth_list_update first_index_Some
      split: option.split)

lemma next_alias_bound: "transport_subscriptions_next_alias tb n \<in> {-1..255}"
  by (auto simp: transport_subscriptions_next_alias_def first_index_Some split: option.split)

lemma alias_used_map:
  assumes "subs_inv tb"
  shows "alias_used tb (unat a) \<longleftrightarrow> (\<exists>k g. subs_map tb k = Some (a, g))"
  unfolding alias_used_def subs_map_iff [OF assms] list_ex_length live_def
    word_unat_eq_iff [of _ a] by (metis surj_pair)

lemma next_alias_found:
  assumes "transport_subscriptions_next_alias tb n = int a" 
  shows "0 \<le> n \<and> n \<le> int a \<and> a < 256 \<and> \<not> alias_used tb a \<and> (\<forall>b. n \<le> int b \<and> b < a \<longrightarrow> alias_used tb b)"
proof -
  from assms have n: "0 \<le> n" "n \<le> 255"
    by (auto simp: transport_subscriptions_next_alias_def split: if_splits)
  with assms obtain i where i: "first_index (\<lambda>alias. \<not> alias_used tb alias) [nat n..<256] = Some i"
    and a: "n + int i = int a"
    by (auto simp: transport_subscriptions_next_alias_def split: option.splits)
  from a n have a': "a = nat n + i" by linarith
  have f: "i < 256 - nat n" "\<not> alias_used tb (nat n + i)" "\<And>j. j < i \<Longrightarrow> alias_used tb (nat n + j)"
    using i by (auto simp: first_index_Some)
  have "alias_used tb b" if "n \<le> int b" "b < a" for b
    using f(3) [of "b - nat n"] that n a' by simp
  with f n a' show ?thesis by auto
qed

lemma next_alias_none:
  assumes "transport_subscriptions_next_alias tb n = -1" "0 \<le> n" "n \<le> int b" "b < 256"
  shows "alias_used tb b"
proof -
  from assms have "first_index (\<lambda>alias. \<not> alias_used tb alias) [nat n..<256] = None"
    by (auto simp: transport_subscriptions_next_alias_def split: option.splits if_splits)
  then have "\<forall>j < 256 - nat n. alias_used tb (nat n + j)" by (simp add: first_index_None)
  moreover have "b - nat n < 256 - nat n" "nat n + (b - nat n) = b" using assms by linarith+
  ultimately show ?thesis by metis
qed

text \<open>Generations are handed out once: no live state carries one above \<open>next_generation\<close>.\<close>

definition generations_bounded :: "subscription_table \<Rightarrow> bool" where
  "generations_bounded tb \<longleftrightarrow>
     (\<forall>a s. tb_states tb a = Some s \<longrightarrow> ss_generation s \<le> tb_next_generation tb)"

lemma ensure_states:
  assumes "subs_inv tb"
  shows "tb_states (snd (ensure_initialized c tb)) = tb_states tb"
proof (cases "tb_entries tb = []")
  case True
  then have "tb_states tb a = None" for a
    using inv_state [OF assms, of a] by (simp add: live_def)
  then show ?thesis
    using True by (auto simp: ensure_initialized_def transport_subscriptions_init_def
      transport_subscriptions_destroy_def empty_table_def fun_eq_iff)
qed (simp add: ensure_initialized_def)

lemma ensure_next:
  "tb_next_generation (snd (ensure_initialized c tb)) \<in> {0, tb_next_generation tb}"
  by (auto simp: ensure_initialized_def transport_subscriptions_init_def
      transport_subscriptions_destroy_def empty_table_def)

lemma ensure_bounded:
  assumes "subs_inv tb" "generations_bounded tb"
  shows "generations_bounded (snd (ensure_initialized c tb))"
proof (cases "tb_entries tb = []")
  case True
  then have "tb_states tb a = None" for a
    using inv_state [OF assms(1), of a] by (simp add: live_def)
  then show ?thesis by (simp add: generations_bounded_def ensure_states [OF assms(1)])
next
  case False
  then show ?thesis using assms(2) by (simp add: ensure_initialized_def)
qed

lemma generation_step:
  assumes "(n :: u64) \<noteq> -1" "g \<le> n"
  shows "g < n + 1"
proof -
  have "1 + n \<noteq> 0" using assms(1) by (metis add.commute eq_neg_iff_add_eq_0)
  then have "unat (n + 1) = Suc (unat n)" by (simp add: unatSuc add.commute)
  then show ?thesis using assms(2) by (simp add: word_less_nat_alt word_le_nat_alt)
qed

text \<open>The states after an addition, as an update of the states before.\<close>

definition states_after ::
  "subscription_table \<Rightarrow> bool \<Rightarrow> u8 option \<Rightarrow> u8 \<Rightarrow> u64 \<Rightarrow> u8 \<Rightarrow> subscription_state option" where
  "states_after tb taken old alias g b =
     (if \<not> taken then tb_states tb b
      else if b = alias then Some (fresh_state g)
      else if old = Some b then None else tb_states tb b)"

lemma add_states:
  assumes inv: "subs_inv tb0" and r: "transport_subscriptions_add c0 c tb0 t f name alias = (ok, tb')"
  defines "old \<equiv> map_option fst (subs_map tb0 (t, cstr name))"
    and "next \<equiv> tb_next_generation (snd (ensure_initialized c0 tb0))"
  shows "tb_states tb' = states_after tb0 (ok \<and> old \<noteq> Some alias) old alias (tb_next_generation tb') \<and>
    tb_next_generation tb' = (if ok \<and> old \<noteq> Some alias then next + 1 else next)"
  using r
proof (cases rule: add_cases)
  case refused
  then show ?thesis using ensure_states [OF inv] by (simp add: states_after_def next_def fun_eq_iff)
next
  case (updated tb i)
  have inv': "subs_inv tb" using inv updated(2) by (simp add: ensure_inv)
  have "subs_map tb0 (t, cstr name) = Some (ts_alias (tb_entries tb ! i), f)"
    using subs_map_iff [OF inv', of "(t, cstr name)"] updated ensure_map [of c0 tb0] by metis
  then have old: "old = Some (ts_alias (tb_entries tb ! i))" by (simp add: old_def)
  have st: "tb_states tb = tb_states tb0" using ensure_states [OF inv] updated(2) by simp
  have nx: "tb_next_generation tb = next" using updated(2) by (simp add: next_def)
  show ?thesis
  proof (cases "ts_alias (tb_entries tb ! i) = alias")
    case True
    then show ?thesis using updated(1,7) old st nx by (simp add: states_after_def fun_eq_iff)
  next
    case False
    then show ?thesis
      using updated(1,3,7) old st nx move_alias_states [of tb i "alias"] inv'
      by (auto simp: states_after_def fun_eq_iff)
  qed
next
  case (added tb i entry)
  have inv': "subs_inv tb" using inv added(2) by (simp add: ensure_inv)
  have "subs_map tb0 (t, cstr name) = None"
    using subs_map_iff [OF inv', of "(t, cstr name)"] added(2,6) ensure_map [of c0 tb0]
    by (cases "subs_map tb0 (t, cstr name)") auto
  then have "old = None" by (simp add: old_def)
  moreover have "tb_states tb = tb_states tb0" using ensure_states [OF inv] added(2) by simp
  moreover have "tb_next_generation tb = next" using added(2) by (simp add: next_def)
  ultimately show ?thesis using added(1,12) by (simp add: states_after_def fun_eq_iff)
qed

lemma add_generation:
  assumes inv: "subs_inv tb0" and gen: "generations_bounded tb0" and n: "tb_next_generation tb0 \<noteq> -1"
    and r: "transport_subscriptions_add c0 c tb0 t f name alias = (ok, tb')"
  defines "taken \<equiv> ok \<and> map_option fst (subs_map tb0 (t, cstr name)) \<noteq> Some alias"
  shows "generations_bounded tb' \<and>
    (taken \<longrightarrow> (\<forall>b s. tb_states tb0 b = Some s \<longrightarrow> ss_generation s < tb_next_generation tb'))"
proof -
  let ?tb = "snd (ensure_initialized c0 tb0)"
  have gen': "generations_bounded ?tb" using inv gen by (simp add: ensure_bounded)
  have n': "tb_next_generation ?tb \<noteq> -1" using ensure_next [of c0 tb0] n by auto
  have st: "tb_states ?tb = tb_states tb0" using inv by (rule ensure_states)
  note u = add_states [OF inv r]
  have new: "ss_generation s < tb_next_generation ?tb + 1" if "tb_states tb0 b' = Some s" for b' s
    using gen' that n' by (intro generation_step) (simp_all add: generations_bounded_def st)
  show ?thesis
  proof (cases taken)
    case True
    then have g: "tb_next_generation tb' = tb_next_generation ?tb + 1" using u unfolding taken_def by simp
    have "ss_generation x \<le> tb_next_generation tb'" if "tb_states tb' a = Some x" for a x
      using u new [THEN less_imp_le] that unfolding g
      by (auto simp: states_after_def fresh_state_def split: if_splits)
    then show ?thesis using new g by (simp add: generations_bounded_def)
  next
    case False
    then show ?thesis using u gen' st unfolding taken_def by (auto simp: generations_bounded_def states_after_def)
  qed
qed

section \<open>Properties\<close>

text \<open>A table with one subscription, for the witnesses.\<close>

definition subscribed_table :: subscription_table where
  "subscribed_table = snd (transport_subscriptions_add True True
     (empty_table\<lparr>tb_entries := replicate 2 zero_subscription\<rparr>) 4 1 [97] 9)"

lemma subscribed: "subs_inv subscribed_table" "subs_map subscribed_table (4, [97]) = Some (9, 1)"
proof -
  let ?tb = "empty_table\<lparr>tb_entries := replicate 2 zero_subscription\<rparr>"
  have inv: "subs_inv ?tb" by (rule inv_empty) simp
  have m: "subs_map ?tb k = None" for k
    by (simp add: subs_map_def empty_table_def zero_subscription_def first_index_None)
  have c: "cstr [97 :: u8] = [97]" "strnlen [97] 64 < 64" by (simp_all add: cstr_def strnlen_def)
  obtain ok tb' where r: "transport_subscriptions_add True True ?tb 4 1 [97] 9 = (ok, tb')"
    by (cases "transport_subscriptions_add True True ?tb 4 1 [97] 9")
  have "transport_subscriptions_count ?tb = 0"
    by (simp add: count_filter empty_table_def zero_subscription_def)
  then have "ok" using add_ok_iff [OF inv, of True True 4 1 "[97]" 9] r m c by simp
  then show "subs_map subscribed_table (4, [97]) = Some (9, 1)"
    using add_map [OF inv r] c r by (simp add: subscribed_table_def)
  show "subs_inv subscribed_table" unfolding subscribed_table_def by (rule add_inv [OF inv])
qed

text \<open>
  C22. Subscribing is an update of the abstract table: on an initialized table that satisfies
  the invariant, a subscription is accepted exactly when its name fits, its alias is not
  another track's, and the track either has the same mode already or there is room (and
  memory) for it; then the track maps to the new alias and mode, otherwise nothing changes.
  The invariant is kept in both cases.
\<close>

theorem subscribe_refines:
  assumes "subs_inv tb" "tb_entries tb \<noteq> []"
    and "transport_subscriptions_add c0 c tb t f name alias = (ok, tb')"
  shows "subs_inv tb' \<and>
    subs_map tb' = (if ok then (subs_map tb)((t, cstr name) \<mapsto> (alias, f)) else subs_map tb) \<and>
    (ok = (strnlen name 64 < 64 \<and> (\<forall>k g. subs_map tb k = Some (alias, g) \<longrightarrow> k = (t, cstr name)) \<and>
       (case subs_map tb (t, cstr name) of
          Some (a, g) \<Rightarrow> g = f
        | None \<Rightarrow> c \<and> transport_subscriptions_count tb < length (tb_entries tb))))"
  using add_inv [OF assms(1), of c0 c t f name "alias"] add_map [OF assms(1,3)]
    add_ok_iff [OF assms(1,2), of c0 c t f name "alias"] assms(3) by simp

theorem subscribe_refines_witness:
  "subs_map (snd (transport_subscriptions_add True True
     (empty_table\<lparr>tb_entries := replicate 2 zero_subscription\<rparr>) 4 1 [97] 9)) (4, [97]) = Some (9, 1)"
proof -
  let ?tb = "empty_table\<lparr>tb_entries := replicate 2 zero_subscription\<rparr>"
  have inv: "subs_inv ?tb" by (rule inv_empty) simp
  have m: "subs_map ?tb k = None" for k
    by (simp add: subs_map_def empty_table_def zero_subscription_def first_index_None)
  have c: "cstr [97 :: u8] = [97]" "strnlen [97] 64 < 64" by (simp_all add: cstr_def strnlen_def)
  obtain ok tb' where r: "transport_subscriptions_add True True ?tb 4 1 [97] 9 = (ok, tb')"
    by (cases "transport_subscriptions_add True True ?tb 4 1 [97] 9")
  have "transport_subscriptions_count ?tb = 0"
    by (simp add: count_filter empty_table_def zero_subscription_def)
  then show ?thesis
    using subscribe_refines [OF inv _ r] c m r by simp
qed

text \<open>
  C23. Unsubscribing removes exactly that track from the abstract table and keeps the
  invariant, so the alias owns no recovery state afterwards; and the lookups by track and by
  alias agree with the abstract table, an alias having state precisely when it is in use.
\<close>

theorem unsubscribe_refines:
  assumes "subs_inv tb" "transport_subscriptions_remove tb t name = (tb', st)"
  shows "subs_inv tb' \<and> subs_map tb' = (subs_map tb)((t, cstr name) := None) \<and>
    transport_subscriptions_find_alias tb' tr = map_option fst (subs_map tb' (track_key tr)) \<and>
    (transport_subscriptions_get_state tb' a \<noteq> None) = (\<exists>k g. subs_map tb' k = Some (a, g)) \<and>
    (case transport_subscriptions_find_by_alias tb' a of
       Some tr' \<Rightarrow> subs_map tb' (track_key tr') = Some (a, ti_flags tr')
     | None \<Rightarrow> \<forall>k g. subs_map tb' k \<noteq> Some (a, g))"
  using remove_inv [OF assms] find_alias_map states_map find_by_alias_map by blast

theorem unsubscribe_refines_witness:
  "subs_map subscribed_table (4, [97]) = Some (9, 1) \<and>
   subs_map (fst (transport_subscriptions_remove subscribed_table 4 [97])) (4, [97]) = None"
proof -
  obtain tb' st where r: "transport_subscriptions_remove subscribed_table 4 [97] = (tb', st)"
    by (cases "transport_subscriptions_remove subscribed_table 4 [97]")
  have "cstr [97 :: u8] = [97]" by (simp add: cstr_def)
  then show ?thesis using unsubscribe_refines [OF subscribed(1) r] subscribed(2) by (simp add: r)
qed

text \<open>
  The allocator of dynamic aliases returns the least unused alias at or above its start,
  and fails only when every one of them is taken.
\<close>

theorem next_alias_least:
  assumes "subs_inv tb" "0 \<le> first" "first \<le> 255"
  shows "if transport_subscriptions_next_alias tb first = -1
    then \<forall>b. first \<le> int (unat b) \<longrightarrow> (\<exists>k g. subs_map tb k = Some (b, g))
    else \<exists>a. transport_subscriptions_next_alias tb first = int (unat a) \<and> first \<le> int (unat a) \<and>
      (\<forall>k g. subs_map tb k \<noteq> Some (a, g)) \<and>
      (\<forall>b. first \<le> int (unat b) \<and> b < a \<longrightarrow> (\<exists>k g. subs_map tb k = Some (b, g)))"
proof (cases "transport_subscriptions_next_alias tb first = -1")
  case True
  have "alias_used tb (unat b)" if "first \<le> int (unat b)" for b :: u8
    using next_alias_none [OF True assms(2) that] unat_less_2p [of b] by simp
  then show ?thesis using True alias_used_map [OF assms(1)] by simp
next
  case False
  then have "0 \<le> transport_subscriptions_next_alias tb first \<and> transport_subscriptions_next_alias tb first \<le> 255"
    using next_alias_bound [of tb first] by auto
  then obtain m where m: "transport_subscriptions_next_alias tb first = int m" "int m \<le> 255"
    using nonneg_int_cases by metis
  define a :: u8 where "a = of_nat m"
  have u: "unat a = m" unfolding a_def using m(2) by (intro unat_of_nat_small) simp
  note found = next_alias_found [OF m(1)]
  have "alias_used tb (unat b)" if "first \<le> int (unat b)" "b < a" for b
    using found that u by (auto simp: word_less_nat_alt)
  then show ?thesis
    using False found m(1) u alias_used_map [OF assms(1)] by (auto intro!: exI [of _ a])
qed

theorem next_alias_least_witness: "\<exists>a :: u8. transport_subscriptions_next_alias empty_table 16 = int (unat a)"
proof -
  have inv: "subs_inv empty_table" using inv_empty [of 0] by (simp add: empty_table_def)
  have "first_index (\<lambda>alias. \<not> alias_used empty_table alias) [16..<256] = Some 0"
    unfolding first_index_Some by (simp add: alias_used_def empty_table_def)
  then have "transport_subscriptions_next_alias empty_table 16 \<noteq> -1"
    by (simp add: transport_subscriptions_next_alias_def)
  then show ?thesis using next_alias_least [OF inv, of 16] by auto
qed

text \<open>
  C24. A subscription takes over an alias when the addition succeeds and the track did not have
  that alias before. Then the alias owns cleared recovery and checkpoint state, whatever it or the
  track's former alias owned, under a generation greater than that of every live state, and the
  state of the former alias is gone; no other alias's state changes. In every other case, a refusal
  or an update in place, no state changes. So state of an earlier subscription is never
  mistaken for the new one's.
\<close>

theorem subscribe_fresh_generation:
  assumes "subs_inv tb" "generations_bounded tb" "tb_next_generation tb \<noteq> -1"
    and "transport_subscriptions_add c0 c tb t f name alias = (ok, tb')"
    and "old = map_option fst (subs_map tb (t, cstr name))" and "g = tb_next_generation tb'"
  shows "generations_bounded tb' \<and>
    (if ok \<and> old \<noteq> Some alias then
       tb_states tb' alias = Some \<lparr>ss_generation = g, ss_object_gap = zero_gap, ss_checkpoint_ack = zero_ack\<rparr> \<and>
       (\<forall>b s. tb_states tb b = Some s \<longrightarrow> ss_generation s < g) \<and>
       (\<forall>b. b \<noteq> alias \<longrightarrow> tb_states tb' b = (if old = Some b then None else tb_states tb b))
     else tb_states tb' = tb_states tb)"
  using add_generation [OF assms(1-4)] add_states [OF assms(1,4)] unfolding assms(5,6)
  by (auto simp: states_after_def fresh_state_def fun_eq_iff)

theorem subscribe_fresh_generation_witness:
  "ss_generation (the (tb_states (snd (transport_subscriptions_add True True
     (empty_table\<lparr>tb_entries := replicate 2 zero_subscription\<rparr>) 4 1 [97] 9)) 9)) = 1"
proof -
  let ?tb = "empty_table\<lparr>tb_entries := replicate 2 zero_subscription\<rparr>"
  have inv: "subs_inv ?tb" by (rule inv_empty) simp
  have m: "subs_map ?tb k = None" for k
    by (simp add: subs_map_def empty_table_def zero_subscription_def first_index_None)
  have g: "generations_bounded ?tb" "tb_next_generation ?tb \<noteq> -1"
    by (simp_all add: generations_bounded_def empty_table_def)
  obtain ok tb' where r: "transport_subscriptions_add True True ?tb 4 1 [97] 9 = (ok, tb')"
    by (cases "transport_subscriptions_add True True ?tb 4 1 [97] 9")
  have "transport_subscriptions_count ?tb = 0"
    by (simp add: count_filter empty_table_def zero_subscription_def)
  then have ok: "ok" using add_ok_iff [OF inv, of True True 4 1 "[97]" 9] r m
    by (simp add: strnlen_def cstr_def)
  then have "tb_next_generation tb' = 1"
    using add_states [OF inv r] m by (simp add: ensure_initialized_def) (simp add: empty_table_def)
  then show ?thesis using subscribe_fresh_generation [OF inv g r refl refl] m ok r by simp
qed

end
