(* ===== verification/Udp.thy ===== *)
theory Udp
  imports Qlinq_Prelude "HOL-Library.Sublist"
begin

text \<open>
  The batched UDP sender of \<open>transport_udp.c\<close>, in its Linux variant. The kernel is an
  argument of the model, a stream of answers: one for every \<open>sendmsg\<close> or \<open>sendmmsg\<close>, given
  after the calls that were interrupted (\<open>EINTR\<close>, which the code retries at once). What each
  call offered to the kernel is recorded in \<open>nt_offers\<close> and what the kernel has put on the wire
  in \<open>nt_wire\<close>, so that the order and the boundaries of datagrams, and the call that refused
  one, can be stated. A UDP \<open>sendmsg\<close> takes the whole message or nothing;
  \<open>UDP_SEGMENT\<close> makes the kernel cut the message into segments of the given size;
  \<open>sendmmsg\<close> takes between one and all of its messages.
\<close>

section \<open>The kernel\<close>

datatype send_error = WOULD_BLOCK | HARD_ERROR
datatype send_answer = Accept nat | Refuse send_error

record net =
  nt_answer :: "nat \<Rightarrow> send_answer"
  nt_offers :: "(bytes \<times> bytes list) list"
  nt_wire :: "(bytes \<times> bytes) list"

definition put_on_wire :: "net \<Rightarrow> bytes \<Rightarrow> bytes list \<Rightarrow> bytes list \<Rightarrow> net" where
  "put_on_wire net dest offered taken =
     net\<lparr>nt_offers := nt_offers net @ [(dest, offered)], nt_wire := nt_wire net @ map (Pair dest) taken\<rparr>"

text \<open>What the kernel answers to the next call.\<close>

definition kernel_answer :: "net \<Rightarrow> send_answer" where
  "kernel_answer net = nt_answer net (length (nt_offers net))"

function segments :: "nat \<Rightarrow> bytes \<Rightarrow> bytes list" where
  "segments n bs = (if n = 0 \<or> bs = [] then [] else take n bs # segments n (drop n bs))"
  by pat_completeness auto
termination by (relation "measure (length \<circ> snd)") auto

declare segments.simps [simp del]

definition sendmsg_segmented :: "net \<Rightarrow> bytes \<Rightarrow> nat \<Rightarrow> bytes \<Rightarrow> bool \<times> net" where
  "sendmsg_segmented net dest segment_size buffer =
     (let ds = segments segment_size buffer in
      case kernel_answer net of
        Accept _ \<Rightarrow> (True, put_on_wire net dest ds ds)
      | Refuse _ \<Rightarrow> (False, put_on_wire net dest ds []))"

text \<open>The number of accepted messages is the kernel's choice, within its documented bounds.\<close>

definition sendmmsg :: "net \<Rightarrow> bytes \<Rightarrow> bytes list \<Rightarrow> (send_error + nat) \<times> net" where
  "sendmmsg net dest ds =
     (case kernel_answer net of
        Accept n \<Rightarrow> let k = max 1 (min n (length ds)) in (Inr k, put_on_wire net dest ds (take k ds))
      | Refuse e \<Rightarrow> (Inl e, put_on_wire net dest ds []))"

section \<open>The sender\<close>

abbreviation (input) "UDP_MAX_BATCH \<equiv> (64 :: nat)"
abbreviation (input) "UDP_GSO_BUFFER_SIZE \<equiv> (65507 :: nat)"

fun gso_scan :: "nat \<Rightarrow> nat \<Rightarrow> bytes list \<Rightarrow> nat" where
  "gso_scan segment_size used [] = 0"
| "gso_scan segment_size used (d # ds) =
     (let len = length d in
      if len = 0 \<or> len > segment_size \<or> len > UDP_GSO_BUFFER_SIZE - used then 0
      else if len \<noteq> segment_size then 1
      else 1 + gso_scan segment_size (used + len) ds)"

definition gso_prefix :: "bytes list \<Rightarrow> nat" where
  "gso_prefix datagrams =
     (let segment_size = length (datagrams ! 0) in
      if segment_size = 0 \<or> segment_size > UDP_GSO_BUFFER_SIZE then 0
      else gso_scan segment_size 0 datagrams)"

text \<open>The loop of \<open>try_gso\<close> that validates the group and adds up its size.\<close>

fun gso_total :: "nat \<Rightarrow> nat \<Rightarrow> bytes list \<Rightarrow> nat option" where
  "gso_total segment_size acc [] = Some acc"
| "gso_total segment_size acc (d # ds) =
     (if length d = 0 \<or> length d > segment_size \<or> (ds \<noteq> [] \<and> length d \<noteq> segment_size) \<or>
         length d > SIZE_MAX - acc then None
      else gso_total segment_size (acc + length d) ds)"

definition try_gso :: "net \<Rightarrow> bytes \<Rightarrow> bytes list \<Rightarrow> bool \<times> net" where
  "try_gso net dest datagrams =
     (if length datagrams < 2 \<or> length (datagrams ! 0) = 0 \<or> length (datagrams ! 0) > 65535
      then (False, net)
      else let segment_size = length (datagrams ! 0) in
        case gso_total segment_size 0 datagrams of
          None \<Rightarrow> (False, net)
        | Some total_size \<Rightarrow>
            if total_size > UDP_GSO_BUFFER_SIZE then (False, net)
            else sendmsg_segmented net dest segment_size (concat datagrams))"

text \<open>
  The two loops of \<open>transport_udp_send_batch\<close>; the argument is what is left to send, the
  result the number of datagrams sent.
\<close>

function gso_loop :: "net \<Rightarrow> bytes \<Rightarrow> bytes list \<Rightarrow> nat \<times> net" where
  "gso_loop net dest rest =
     (if rest = [] then (0, net)
      else let group = gso_prefix rest in
        if group < 2 then (0, net)
        else case try_gso net dest (take group rest) of
          (False, net') \<Rightarrow> (0, net')
        | (True, net') \<Rightarrow>
            (case gso_loop net' dest (drop group rest) of (n, net'') \<Rightarrow> (group + n, net'')))"
  by pat_completeness auto
termination by (relation "measure (\<lambda>(net, dest, rest). length rest)") auto

function mmsg_loop :: "net \<Rightarrow> bytes \<Rightarrow> bytes list \<Rightarrow> nat \<Rightarrow> (send_error + nat) \<times> net" where
  "mmsg_loop net dest rest sent_count =
     (if rest = [] then (Inr sent_count, net)
      else case sendmmsg net dest rest of
        (Inr sent, net') \<Rightarrow>
          if sent > 0 then mmsg_loop net' dest (drop sent rest) (sent_count + sent)
          else (if sent_count > 0 then Inr sent_count else Inl HARD_ERROR, net')
      | (Inl WOULD_BLOCK, net') \<Rightarrow> (Inr sent_count, net')
      | (Inl HARD_ERROR, net') \<Rightarrow>
          (if sent_count > 0 then Inr sent_count else Inl HARD_ERROR, net'))"
  by pat_completeness auto
termination by (relation "measure (\<lambda>(net, dest, rest, n). length rest)") auto

declare gso_loop.simps [simp del] mmsg_loop.simps [simp del]

definition transport_udp_send_batch ::
  "net \<Rightarrow> int \<Rightarrow> bytes \<Rightarrow> bytes list \<Rightarrow> (send_error + nat) \<times> net" where
  "transport_udp_send_batch net fd dest datagrams =
     (if fd < 0 then (Inl HARD_ERROR, net)
      else if datagrams = [] then (Inr 0, net)
      else if length datagrams > UDP_MAX_BATCH then (Inl HARD_ERROR, net)
      else case gso_loop net dest datagrams of (sent_count, net') \<Rightarrow>
        if sent_count = length datagrams then (Inr sent_count, net')
        else mmsg_loop net' dest (drop sent_count datagrams) sent_count)"

section \<open>Segmentation keeps the datagrams\<close>

lemma segments_join:
  assumes "d \<noteq> []" "length d = n \<or> r = []" "length d \<le> n"
  shows "segments n (d @ r) = d # segments n r"
proof -
  have "n \<noteq> 0" "d @ r \<noteq> []" using assms by (cases d; auto)+
  then have s: "segments n (d @ r) = take n (d @ r) # segments n (drop n (d @ r))"
    by (subst segments.simps) simp
  show ?thesis
  proof (cases "length d = n")
    case True
    then show ?thesis unfolding s by simp
  next
    case False
    then show ?thesis using assms unfolding s by (simp add: segments.simps)
  qed
qed

lemma gso_total_segments:
  "gso_total n t ds = Some m \<Longrightarrow> segments n (concat ds) = ds"
proof (induction n t ds rule: gso_total.induct)
  case (1 n t)
  then show ?case by (simp add: segments.simps)
next
  case (2 n t d ds)
  then show ?case using segments_join [of d n "[]"] by (auto simp: segments_join split: if_splits)
qed

lemma try_gso_wire:
  assumes "try_gso net dest ds = (ok, net')"
  shows "nt_wire net' = nt_wire net @ (if ok then map (Pair dest) ds else [])"
  using assms gso_total_segments
  by (auto simp: try_gso_def sendmsg_segmented_def put_on_wire_def Let_def
      split: if_splits option.splits send_answer.splits)

lemma gso_scan_le: "gso_scan n u ds \<le> length ds"
  by (induction n u ds rule: gso_scan.induct) (auto simp: Let_def)

lemma gso_prefix_le: "gso_prefix ds \<le> length ds"
  by (simp add: gso_prefix_def gso_scan_le Let_def)

lemma gso_loop_wire:
  "gso_loop net dest rest = (n, net') \<Longrightarrow>
   n \<le> length rest \<and> nt_wire net' = nt_wire net @ map (Pair dest) (take n rest)"
proof (induction net dest rest arbitrary: n net' rule: gso_loop.induct)
  case (1 net dest rest)
  show ?case
  proof (cases "rest = [] \<or> gso_prefix rest < 2")
    case True
    then show ?thesis using "1.prems" by (subst (asm) gso_loop.simps) (auto simp: Let_def split: if_splits)
  next
    case False
    let ?g = "gso_prefix rest"
    obtain ok net1 where t: "try_gso net dest (take ?g rest) = (ok, net1)"
      by (cases "try_gso net dest (take ?g rest)")
    note w = try_gso_wire [OF t]
    show ?thesis
    proof (cases ok)
      case no: False
      then show ?thesis
        using "1.prems" False t w by (subst (asm) gso_loop.simps) (auto simp: Let_def)
    next
      case True
      obtain m net2 where r: "gso_loop net1 dest (drop ?g rest) = (m, net2)"
        by (cases "gso_loop net1 dest (drop ?g rest)")
      have res: "n = ?g + m" "net' = net2"
        using "1.prems" False t True r by (subst (asm) gso_loop.simps, auto simp: Let_def)+
      have ih: "m \<le> length rest - ?g" "nt_wire net2 = nt_wire net1 @ map (Pair dest) (take m (drop ?g rest))"
        using "1.IH" [OF _ refl _ t [symmetric] _ r] False True by auto
      show ?thesis
        using ih w True gso_prefix_le [of rest] by (simp add: res take_add)
    qed
  qed
qed

lemma mmsg_loop_wire:
  "mmsg_loop net dest rest s = (r, net') \<Longrightarrow>
   \<exists>n \<le> length rest. nt_wire net' = nt_wire net @ map (Pair dest) (take n rest) \<and>
     (case r of Inr k \<Rightarrow> k = s + n | Inl e \<Rightarrow> e = HARD_ERROR \<and> s = 0 \<and> n = 0)"
proof (induction net dest rest s arbitrary: r net' rule: mmsg_loop.induct)
  case (1 net dest rest s)
  show ?case
  proof (cases "rest = []")
    case True
    then show ?thesis using "1.prems" by (subst (asm) mmsg_loop.simps) auto
  next
    case False
    obtain a net1 where a: "sendmmsg net dest rest = (a, net1)" by (cases "sendmmsg net dest rest")
    show ?thesis
    proof (cases a)
      case (Inl e)
      then have "nt_wire net1 = nt_wire net"
        using a by (auto simp: sendmmsg_def put_on_wire_def Let_def split: send_answer.splits)
      then show ?thesis
        using "1.prems" False a Inl
        by (subst (asm) mmsg_loop.simps) (auto split: send_error.splits if_splits)
    next
      case (Inr k)
      have k: "0 < k" "k \<le> length rest" "nt_wire net1 = nt_wire net @ map (Pair dest) (take k rest)"
        using a Inr False
        by (auto simp: sendmmsg_def put_on_wire_def Let_def Suc_le_eq split: send_answer.splits)
      have "mmsg_loop net1 dest (drop k rest) (s + k) = (r, net')"
        using "1.prems" False a Inr k(1) by (subst (asm) mmsg_loop.simps) auto
      from "1.IH" [OF False a [symmetric] Inr k(1) this]
      obtain n where n: "n \<le> length rest - k"
        "nt_wire net' = nt_wire net1 @ map (Pair dest) (take n (drop k rest))"
        "case r of Inr q \<Rightarrow> q = s + k + n | Inl e \<Rightarrow> e = HARD_ERROR \<and> s + k = 0 \<and> n = 0"
        by auto
      show ?thesis
        using n k by (intro exI [of _ "k + n"]) (auto simp: take_add split: sum.splits)
    qed
  qed
qed

text \<open>The contract the send queue relies on.\<close>

lemma send_batch_wire:
  assumes "transport_udp_send_batch net fd dest ds = (r, net')"
  shows "(case r of Inr n \<Rightarrow> n \<le> length ds \<and> nt_wire net' = nt_wire net @ map (Pair dest) (take n ds)
    | Inl e \<Rightarrow> nt_wire net' = nt_wire net)"
proof (cases "fd < 0 \<or> ds = [] \<or> length ds > 64")
  case True
  then show ?thesis using assms by (auto simp: transport_udp_send_batch_def split: if_splits)
next
  case False
  obtain n net1 where g: "gso_loop net dest ds = (n, net1)" by (cases "gso_loop net dest ds")
  note w = gso_loop_wire [OF g]
  show ?thesis
  proof (cases "n = length ds")
    case True
    then show ?thesis using assms False g w by (auto simp: transport_udp_send_batch_def)
  next
    case ne: False
    then have m: "mmsg_loop net1 dest (drop n ds) n = (r, net')"
      using assms False g by (auto simp: transport_udp_send_batch_def)
    from mmsg_loop_wire [OF m] obtain k where "k \<le> length ds - n"
      "nt_wire net' = nt_wire net1 @ map (Pair dest) (take k (drop n ds))"
      "case r of Inr q \<Rightarrow> q = n + k | Inl e \<Rightarrow> e = HARD_ERROR \<and> n = 0 \<and> k = 0" by auto
    then show ?thesis using w by (auto simp: take_add split: sum.splits)
  qed
qed

lemma mmsg_loop_error: "fst (mmsg_loop net dest rest s) = Inl e \<Longrightarrow> e = HARD_ERROR"
  using mmsg_loop_wire [of net dest rest s "Inl e" "snd (mmsg_loop net dest rest s)"]
  by (cases "mmsg_loop net dest rest s") auto

section \<open>The calls made\<close>

text \<open>The answers are fixed beforehand and the calls are only added to.\<close>

definition kernel_after :: "net \<Rightarrow> net \<Rightarrow> bool" where
  "kernel_after net net' \<longleftrightarrow> nt_answer net' = nt_answer net \<and> prefix (nt_offers net) (nt_offers net')"

text \<open>Call \<open>i\<close> is between the two states, offered \<open>ds\<close> and was refused for good.\<close>

definition hard_refusal :: "net \<Rightarrow> net \<Rightarrow> bytes \<Rightarrow> bytes list \<Rightarrow> nat \<Rightarrow> bool" where
  "hard_refusal net net' dest ds i \<longleftrightarrow> length (nt_offers net) \<le> i \<and> i < length (nt_offers net') \<and>
     nt_offers net' ! i = (dest, ds) \<and> nt_answer net i = Refuse HARD_ERROR"

lemma kernel_after_refl [simp, intro]: "kernel_after net net"
  by (simp add: kernel_after_def)

lemma kernel_after_trans [trans]:
  "kernel_after a b \<Longrightarrow> kernel_after b c \<Longrightarrow> kernel_after a c"
  by (auto simp: kernel_after_def)

lemma kernel_after_put: "kernel_after net (put_on_wire net dest ds taken)"
  by (simp add: kernel_after_def put_on_wire_def)

lemma kernel_after_more: "kernel_after a b \<Longrightarrow> length (nt_offers a) \<le> length (nt_offers b)"
  by (auto simp: kernel_after_def dest: prefix_length_le)

lemma hard_refusal_later:
  "hard_refusal a b d ds i \<Longrightarrow> kernel_after b c \<Longrightarrow> hard_refusal a c d ds i"
  by (auto simp: hard_refusal_def kernel_after_def prefix_def nth_append)

lemma hard_refusal_earlier:
  "hard_refusal b c d ds i \<Longrightarrow> kernel_after a b \<Longrightarrow> hard_refusal a c d ds i"
  using kernel_after_more [of a b] by (simp add: hard_refusal_def kernel_after_def)

lemma try_gso_calls: "try_gso net dest ds = (ok, net') \<Longrightarrow> kernel_after net net'"
  using kernel_after_put by (auto simp: try_gso_def sendmsg_segmented_def Let_def
      split: if_splits option.splits send_answer.splits)

lemma gso_loop_calls: "gso_loop net dest rest = (n, net') \<Longrightarrow> kernel_after net net'"
proof (induction net dest rest arbitrary: n net' rule: gso_loop.induct)
  case (1 net dest rest)
  show ?case
  proof (cases "rest = [] \<or> gso_prefix rest < 2")
    case True
    then show ?thesis using "1.prems" by (subst (asm) gso_loop.simps) (auto simp: Let_def split: if_splits)
  next
    case False
    let ?g = "gso_prefix rest"
    obtain ok net1 where t: "try_gso net dest (take ?g rest) = (ok, net1)"
      by (cases "try_gso net dest (take ?g rest)")
    obtain m net2 where r: "gso_loop net1 dest (drop ?g rest) = (m, net2)"
      by (cases "gso_loop net1 dest (drop ?g rest)")
    have "net' = (if ok then net2 else net1)"
      using "1.prems" False t r by (subst (asm) gso_loop.simps) (auto simp: Let_def split: bool.splits)
    moreover have "kernel_after net1 net2" if ok
      using "1.IH" [OF _ refl _ t [symmetric] _ r] False that by auto
    ultimately show ?thesis using try_gso_calls [OF t] kernel_after_trans by (auto split: if_splits)
  qed
qed

lemma mmsg_loop_calls:
  "mmsg_loop net dest rest s = (r, net') \<Longrightarrow> kernel_after net net' \<and>
   (r = Inl e \<longrightarrow> (\<exists>i. hard_refusal net net' dest rest i))"
proof (induction net dest rest s arbitrary: r net' rule: mmsg_loop.induct)
  case (1 net dest rest s)
  show ?case
  proof (cases "rest = []")
    case True
    then show ?thesis using "1.prems" by (subst (asm) mmsg_loop.simps) auto
  next
    case False
    obtain a net1 where a: "sendmmsg net dest rest = (a, net1)" by (cases "sendmmsg net dest rest")
    have after: "kernel_after net net1"
      using a kernel_after_put by (auto simp: sendmmsg_def Let_def split: send_answer.splits)
    show ?thesis
    proof (cases a)
      case (Inl x)
      have "hard_refusal net net1 dest rest (length (nt_offers net))" if "x = HARD_ERROR"
        using a Inl that by (auto simp: sendmmsg_def hard_refusal_def put_on_wire_def kernel_answer_def Let_def
            split: send_answer.splits)
      then show ?thesis
        using "1.prems" False a Inl after
        by (subst (asm) mmsg_loop.simps) (auto split: send_error.splits if_splits)
    next
      case (Inr k)
      have k: "0 < k" using a Inr False by (auto simp: sendmmsg_def Let_def split: send_answer.splits)
      have l: "mmsg_loop net1 dest (drop k rest) (s + k) = (r, net')"
        using "1.prems" False a Inr k by (subst (asm) mmsg_loop.simps) auto
      have "kernel_after net1 net'" using "1.IH" [OF False a [symmetric] Inr k l] by blast
      moreover have "r \<noteq> Inl e" using mmsg_loop_wire [OF l] k by auto
      ultimately show ?thesis using after kernel_after_trans by blast
    qed
  qed
qed

lemma send_batch_calls:
  assumes "transport_udp_send_batch net fd dest ds = (r, net')"
  shows "kernel_after net net' \<and>
    (r = Inl e \<and> 0 \<le> fd \<and> length ds \<le> 64 \<longrightarrow> (\<exists>i. hard_refusal net net' dest ds i))"
proof (cases "fd < 0 \<or> ds = [] \<or> length ds > 64")
  case True
  then show ?thesis using assms by (auto simp: transport_udp_send_batch_def split: if_splits)
next
  case False
  obtain n net1 where g: "gso_loop net dest ds = (n, net1)" by (cases "gso_loop net dest ds")
  show ?thesis
  proof (cases "n = length ds")
    case True
    then show ?thesis using assms False g gso_loop_calls [OF g] by (auto simp: transport_udp_send_batch_def)
  next
    case ne: False
    then have m: "mmsg_loop net1 dest (drop n ds) n = (r, net')"
      using assms False g by (auto simp: transport_udp_send_batch_def)
    have "n = 0" if "r = Inl e" using mmsg_loop_wire [OF m] that by auto
    moreover have "kernel_after net net'"
      using gso_loop_calls [OF g] mmsg_loop_calls [OF m] by (blast intro: kernel_after_trans)
    moreover have "r = Inl e \<Longrightarrow> \<exists>i. hard_refusal net1 net' dest (drop n ds) i"
      using mmsg_loop_calls [OF m, of e] by blast
    ultimately show ?thesis
      using hard_refusal_earlier [OF _ gso_loop_calls [OF g]] by (metis drop0)
  qed
qed

section \<open>Properties\<close>

text \<open>
  Whatever the kernel answers, the batched sender puts exactly a prefix of the batch on
  the wire, each datagram unchanged and once, in order, and returns the length of that prefix;
  on an error nothing was sent. Segmentation offload therefore keeps datagram boundaries.
\<close>

theorem udp_batch_prefix:
  "(case transport_udp_send_batch net fd dest ds of (r, net') \<Rightarrow>
     nt_wire net' = nt_wire net @ map (Pair dest) (take (case r of Inr n \<Rightarrow> n | Inl _ \<Rightarrow> 0) ds) \<and>
     (case r of Inr n \<Rightarrow> n \<le> length ds | Inl e \<Rightarrow> e = HARD_ERROR))"
proof -
  obtain r net' where b: "transport_udp_send_batch net fd dest ds = (r, net')"
    by (cases "transport_udp_send_batch net fd dest ds")
  have "e = HARD_ERROR" if "r = Inl e" for e
    using b that mmsg_loop_error
    by (auto simp: transport_udp_send_batch_def split: if_splits prod.splits dest: arg_cong [of _ _ fst])
  then show ?thesis
    using send_batch_wire [OF b] by (auto simp: b split: sum.splits)
qed

end
