(* ===== verification/Fifo.thy ===== *)
theory Fifo
  imports Qlinq_Prelude
begin

text \<open>
  The interface of a queue with a limit on its items and a limit on their total cost. The
  socket send queue (ring of packets, bytes) and the event queue of the application
  interface (linked list of nodes, allocation sizes) both promise it. The operations return
  \<open>None\<close> when the code refuses; the lemmas say that any interleaving of insertions and
  removals delivers the accepted items in order, none lost and none twice, and never exceeds
  the two limits.
\<close>

datatype 'e fifo_op = Enq 'e | Deq

fun fifo_run :: "('q \<Rightarrow> 'e \<Rightarrow> 'q option) \<Rightarrow> ('q \<Rightarrow> ('e \<times> 'q) option) \<Rightarrow> 'q \<Rightarrow> 'e fifo_op list \<Rightarrow>
    'q \<times> 'e list \<times> 'e list" where
  "fifo_run enq deq q [] = (q, [], [])"
| "fifo_run enq deq q (Enq x # ops) =
     (case enq q x of
        None \<Rightarrow> fifo_run enq deq q ops
      | Some q1 \<Rightarrow> (case fifo_run enq deq q1 ops of (q', ins, outs) \<Rightarrow> (q', x # ins, outs)))"
| "fifo_run enq deq q (Deq # ops) =
     (case deq q of
        None \<Rightarrow> fifo_run enq deq q ops
      | Some (x, q1) \<Rightarrow> (case fifo_run enq deq q1 ops of (q', ins, outs) \<Rightarrow> (q', ins, x # outs)))"

locale bounded_fifo =
  fixes inv :: "'q \<Rightarrow> bool"
    and items :: "'q \<Rightarrow> 'e list"
    and cost :: "'e \<Rightarrow> nat"
    and max_items :: "'q \<Rightarrow> nat"
    and max_cost :: "'q \<Rightarrow> nat"
    and enq :: "'q \<Rightarrow> 'e \<Rightarrow> 'q option"
    and deq :: "'q \<Rightarrow> ('e \<times> 'q) option"
  assumes enq_fits: "inv q \<Longrightarrow> enq q x \<noteq> None \<longleftrightarrow>
      length (items q) < max_items q \<and> sum_list (map cost (items q)) + cost x \<le> max_cost q"
    and enq_items: "inv q \<Longrightarrow> enq q x = Some q' \<Longrightarrow>
      inv q' \<and> items q' = items q @ [x] \<and> max_items q' = max_items q \<and> max_cost q' = max_cost q"
    and deq_items: "inv q \<Longrightarrow> (case deq q of None \<Rightarrow> items q = []
      | Some (x, q') \<Rightarrow> inv q' \<and> items q = x # items q' \<and> max_items q' = max_items q \<and>
          max_cost q' = max_cost q)"
    and within: "inv q \<Longrightarrow> length (items q) \<le> max_items q \<and>
      sum_list (map cost (items q)) \<le> max_cost q"
begin

lemma deq_Some: "inv q \<Longrightarrow> deq q = Some (x, q') \<Longrightarrow> inv q' \<and> items q = x # items q'"
  using deq_items [of q] by simp

lemma deq_None: "inv q \<Longrightarrow> deq q = None \<longleftrightarrow> items q = []"
  using deq_items [of q] by (auto split: option.splits)

lemma run_order:
  "inv q \<Longrightarrow> fifo_run enq deq q ops = (q', ins, outs) \<Longrightarrow>
   inv q' \<and> outs @ items q' = items q @ ins \<and> max_items q' = max_items q \<and> max_cost q' = max_cost q"
proof (induction ops arbitrary: q q' ins outs)
  case Nil
  then show ?case by simp
next
  case (Cons op ops)
  show ?case
  proof (cases op)
    case (Enq x)
    show ?thesis
    proof (cases "enq q x")
      case None
      then show ?thesis using Cons Enq by simp
    next
      case (Some q1)
      obtain q2 i o' where r: "fifo_run enq deq q1 ops = (q2, i, o')" by (cases "fifo_run enq deq q1 ops")
      then show ?thesis
        using Cons.prems Enq Some enq_items [OF Cons.prems(1) Some] Cons.IH [OF _ r] by auto
    qed
  next
    case Deq
    show ?thesis
    proof (cases "deq q")
      case None
      then show ?thesis using Cons Deq by simp
    next
      case (Some p)
      obtain x q1 where p: "p = (x, q1)" by (cases p)
      obtain q2 i o' where r: "fifo_run enq deq q1 ops = (q2, i, o')" by (cases "fifo_run enq deq q1 ops")
      then show ?thesis
        using Cons.prems Deq Some p deq_items [OF Cons.prems(1)] Cons.IH [OF _ r] by auto
    qed
  qed
qed

lemma run_within:
  "inv q \<Longrightarrow> fifo_run enq deq q ops = (q', ins, outs) \<Longrightarrow>
   length (items q') \<le> max_items q \<and> sum_list (map cost (items q')) \<le> max_cost q"
  using run_order [of q ops q' ins outs] within [of q'] by simp

end

end
