(* ===== verification/Egress.thy ===== *)
theory Egress
  imports Udp Fifo "HOL-Library.Sublist"
begin

text \<open>
  The per-socket send queue of \<open>transport_egress.c\<close>: a ring of packets with a limit on their
  number and on their bytes. A slot that \<open>memset\<close> has cleared is \<open>zero_packet\<close>; \<open>capacity\<close> is the
  length of the ring. \<open>eg_queue\<close> is the abstract queue, the packets from \<open>head\<close> on. The
  interface \<open>bounded_fifo\<close> states what a queue with two budgets promises; the ring
  interprets it here, and the event queue of the application interface does in its theory.
\<close>

section \<open>State\<close>

record egress_packet =
  pk_destination :: bytes
  pk_data :: bytes

record egress =
  eg_packets :: "egress_packet list"
  eg_max_bytes :: nat
  eg_head :: nat
  eg_count :: nat
  eg_bytes :: nat
  eg_peak_count :: nat
  eg_peak_bytes :: nat
  eg_packets_sent :: u64
  eg_bytes_sent :: u64
  eg_would_block :: u64
  eg_send_errors :: u64
  eg_packets_queued :: u64
  eg_bytes_queued :: u64
  eg_packets_dropped :: u64

abbreviation (input) "eg_capacity e \<equiv> length (eg_packets e)"
abbreviation (input) "EGRESS_BATCH \<equiv> (64 :: nat)"
abbreviation (input) "SOCKADDR_STORAGE \<equiv> (128 :: nat)"

definition zero_packet :: egress_packet where
  "zero_packet = \<lparr>pk_destination = [], pk_data = []\<rparr>"

definition zero_egress :: egress where
  "zero_egress = \<lparr>eg_packets = [], eg_max_bytes = 0, eg_head = 0, eg_count = 0, eg_bytes = 0,
     eg_peak_count = 0, eg_peak_bytes = 0, eg_packets_sent = 0, eg_bytes_sent = 0,
     eg_would_block = 0, eg_send_errors = 0, eg_packets_queued = 0, eg_bytes_queued = 0,
     eg_packets_dropped = 0\<rparr>"

section \<open>Operations\<close>

definition transport_egress_init :: "bool \<Rightarrow> egress \<Rightarrow> nat \<Rightarrow> nat \<Rightarrow> bool \<times> egress" where
  "transport_egress_init calloc_ok egress max_packets max_bytes =
     (if max_packets = 0 \<or> max_bytes = 0 then (False, egress)
      else if \<not> calloc_ok then (False, zero_egress)
      else (True, zero_egress\<lparr>eg_packets := replicate max_packets zero_packet,
                              eg_max_bytes := max_bytes\<rparr>))"

definition transport_egress_destroy :: "egress \<Rightarrow> egress" where
  "transport_egress_destroy egress = zero_egress"

definition transport_egress_can_accept :: "egress \<Rightarrow> nat \<Rightarrow> nat \<Rightarrow> bool" where
  "transport_egress_can_accept egress packets bytes =
     (packets \<le> sz_sub (eg_capacity egress) (eg_count egress) \<and>
      bytes \<le> sz_sub (eg_max_bytes egress) (eg_bytes egress))"

text \<open>The two bodies of the loops: a packet is put behind the last one, the first one is
  taken out, the last one is taken back.\<close>

definition egress_push :: "egress \<Rightarrow> egress_packet \<Rightarrow> egress" where
  "egress_push e packet =
     (let tail = (eg_head e + eg_count e) mod eg_capacity e in
      e\<lparr>eg_packets := (eg_packets e)[tail := packet], eg_count := eg_count e + 1,
        eg_bytes := eg_bytes e + length (pk_data packet)\<rparr>)"

definition egress_front :: "egress \<Rightarrow> egress_packet" where
  "egress_front e = eg_packets e ! eg_head e"

definition egress_pop :: "egress \<Rightarrow> egress" where
  "egress_pop e =
     e\<lparr>eg_bytes := sz_sub (eg_bytes e) (length (pk_data (egress_front e))),
       eg_packets := (eg_packets e)[eg_head e := zero_packet],
       eg_head := (eg_head e + 1) mod eg_capacity e,
       eg_count := eg_count e - 1\<rparr>"

definition egress_unpush :: "egress \<Rightarrow> egress" where
  "egress_unpush e =
     (let tail = (eg_head e + eg_count e - 1) mod eg_capacity e in
      e\<lparr>eg_bytes := sz_sub (eg_bytes e) (length (pk_data (eg_packets e ! tail))),
        eg_packets := (eg_packets e)[tail := zero_packet], eg_count := eg_count e - 1\<rparr>)"

text \<open>The sum of the sizes, \<open>None\<close> when it would exceed \<open>SIZE_MAX\<close>.\<close>

fun total_bytes :: "nat \<Rightarrow> bytes list \<Rightarrow> nat option" where
  "total_bytes bytes [] = Some bytes"
| "total_bytes bytes (d # ds) =
     (if length d > SIZE_MAX - bytes then None else total_bytes (bytes + length d) ds)"

text \<open>
  The copying loop. \<open>alloc\<close> says which of its allocations succeed; when one fails, the packets
  queued before it are taken back.
\<close>

fun queue_loop :: "(nat \<Rightarrow> bool) \<Rightarrow> egress \<Rightarrow> bytes \<Rightarrow> bytes list \<Rightarrow> nat \<Rightarrow> bool \<times> egress" where
  "queue_loop alloc e dest [] queued = (True, e)"
| "queue_loop alloc e dest (d # ds) queued =
     (if \<not> alloc queued then (False, (egress_unpush ^^ queued) e)
      else queue_loop alloc (egress_push e \<lparr>pk_destination = dest, pk_data = d\<rparr>) dest ds (queued + 1))"

definition queue_remaining ::
  "(nat \<Rightarrow> bool) \<Rightarrow> egress \<Rightarrow> bytes \<Rightarrow> bytes list \<Rightarrow> bool \<times> egress" where
  "queue_remaining alloc egress dest datagrams =
     (case total_bytes 0 datagrams of
        None \<Rightarrow> (False, egress)
      | Some bytes \<Rightarrow>
        let dropped = egress\<lparr>eg_packets_dropped :=
              eg_packets_dropped egress + of_nat (length datagrams)\<rparr> in
        if \<not> transport_egress_can_accept egress (length datagrams) bytes then (False, dropped)
        else case queue_loop alloc egress dest datagrams 0 of
          (False, e) \<Rightarrow> (False, e\<lparr>eg_packets_dropped :=
              eg_packets_dropped e + of_nat (length datagrams)\<rparr>)
        | (True, e) \<Rightarrow> (True, e
            \<lparr>eg_packets_queued := eg_packets_queued e + of_nat (length datagrams),
             eg_bytes_queued := eg_bytes_queued e + of_nat bytes,
             eg_peak_count := max (eg_peak_count e) (eg_count e),
             eg_peak_bytes := max (eg_peak_bytes e) (eg_bytes e)\<rparr>))"

definition count_sent :: "egress \<Rightarrow> bytes \<Rightarrow> egress" where
  "count_sent e d = e\<lparr>eg_packets_sent := eg_packets_sent e + 1,
                     eg_bytes_sent := eg_bytes_sent e + of_nat (length d)\<rparr>"

definition count_blocked :: "egress \<Rightarrow> egress" where
  "count_blocked e = e\<lparr>eg_would_block := eg_would_block e + 1\<rparr>"

definition count_error :: "egress \<Rightarrow> egress" where
  "count_error e = e\<lparr>eg_send_errors := eg_send_errors e + 1\<rparr>"

definition transport_egress_submit ::
  "(nat \<Rightarrow> bool) \<Rightarrow> net \<Rightarrow> egress \<Rightarrow> int \<Rightarrow> bytes \<Rightarrow> bytes list \<Rightarrow> bool \<times> egress \<times> net" where
  "transport_egress_submit alloc net egress fd dest datagrams =
     (if fd < 0 \<or> length dest > SOCKADDR_STORAGE then (False, egress, net)
      else if datagrams = [] then (True, egress, net)
      else
        let (result, net') = (if eg_count egress = 0
              then transport_udp_send_batch net fd dest datagrams else (Inr 0, net)) in
        case result of
          Inl HARD_ERROR \<Rightarrow> (False, count_error egress, net')
        | Inl WOULD_BLOCK \<Rightarrow>
            (case queue_remaining alloc (count_blocked (count_error egress)) dest datagrams of
              (ok, e) \<Rightarrow> (ok, e, net'))
        | Inr first \<Rightarrow>
            let sent = foldl count_sent egress (take first datagrams);
                e = (if eg_count egress = 0 \<and> first < length datagrams
                     then count_blocked sent else sent) in
            if first = length datagrams then (True, e, net')
            else case queue_remaining alloc e dest (drop first datagrams) of
              (ok, e') \<Rightarrow> (ok, e', net'))"

text \<open>The packets from the head on that share the first one's destination.\<close>

definition egress_slot :: "egress \<Rightarrow> nat \<Rightarrow> egress_packet" where
  "egress_slot e i = eg_packets e ! ((eg_head e + i) mod eg_capacity e)"

definition compatible_batch :: "egress \<Rightarrow> nat \<Rightarrow> bytes list" where
  "compatible_batch e batch =
     map pk_data (takeWhile (\<lambda>p. pk_destination p = pk_destination (egress_front e))
       (map (egress_slot e) [0..<batch]))"

fun pop_sent :: "egress \<Rightarrow> nat \<Rightarrow> egress" where
  "pop_sent e 0 = e"
| "pop_sent e (Suc n) = pop_sent (egress_pop (count_sent e (pk_data (egress_front e)))) n"

text \<open>
  One iteration of the flushing loop spends at least one unit of the budget or returns; the
  second argument of the continuation is what is left of it.
\<close>

function flush_loop :: "net \<Rightarrow> egress \<Rightarrow> int \<Rightarrow> nat \<Rightarrow> bool \<Rightarrow> bool \<times> egress \<times> net" where
  "flush_loop net e fd budget success =
     (if eg_count e = 0 \<or> budget = 0 then (success, e, net)
      else
        let batch = min (eg_count e) budget;
            datagrams = compatible_batch e batch in
        case transport_udp_send_batch net fd (pk_destination (egress_front e)) datagrams of
          (Inl WOULD_BLOCK, net') \<Rightarrow> (success, count_blocked e, net')
        | (Inl HARD_ERROR, net') \<Rightarrow>
            let e' = egress_pop ((count_error e)\<lparr>eg_packets_dropped := eg_packets_dropped e + 1\<rparr>)
            in flush_loop net' e' fd (budget - 1) False
        | (Inr sent, net') \<Rightarrow>
            if sent = 0 then (success, count_blocked e, net')
            else let e' = pop_sent e sent in
              if sent < length datagrams then (success, count_blocked e', net')
              else flush_loop net' e' fd (budget - sent) success)"
  by pat_completeness auto
termination by (relation "measure (\<lambda>(net, e, fd, budget, success). budget)") auto

declare flush_loop.simps [simp del]

definition transport_egress_flush :: "net \<Rightarrow> egress \<Rightarrow> int \<Rightarrow> bool \<times> egress \<times> net" where
  "transport_egress_flush net egress fd =
     (if fd < 0 then (False, egress, net) else flush_loop net egress fd EGRESS_BATCH True)"

section \<open>The abstract queue\<close>

definition eg_queue :: "egress \<Rightarrow> egress_packet list" where
  "eg_queue e = map (egress_slot e) [0..<eg_count e]"

definition packet_cost :: "egress_packet \<Rightarrow> nat" where
  "packet_cost p = length (pk_data p)"

definition queue_bytes :: "egress_packet list \<Rightarrow> nat" where
  "queue_bytes ps = sum_list (map packet_cost ps)"

definition egress_inv :: "egress \<Rightarrow> bool" where
  "egress_inv e \<longleftrightarrow> eg_head e < eg_capacity e \<and> eg_count e \<le> eg_capacity e \<and>
     eg_bytes e = queue_bytes (eg_queue e) \<and> eg_bytes e \<le> eg_max_bytes e \<and> eg_max_bytes e \<le> SIZE_MAX"

lemma length_eg_queue [simp]: "length (eg_queue e) = eg_count e"
  by (simp add: eg_queue_def)

lemma queue_bytes_simps [simp]:
  "queue_bytes [] = 0" "queue_bytes (p # ps) = packet_cost p + queue_bytes ps"
  "queue_bytes (ps @ qs) = queue_bytes ps + queue_bytes qs"
  by (simp_all add: queue_bytes_def)

lemma ring_inj_le:
  assumes "i \<le> j" "j < n" "(h + i) mod n = (h + j) mod (n :: nat)"
  shows "i = j"
proof -
  have "n dvd (h + j) - (h + i)"
    using assms(1,3) by (subst mod_eq_dvd_iff_nat [symmetric]) simp_all
  then have "n dvd j - i" by simp
  then show ?thesis using assms(1,2) by (auto dest: dvd_imp_le)
qed

lemma ring_inj:
  "i < n \<Longrightarrow> j < n \<Longrightarrow> (h + i) mod n = (h + j) mod n \<Longrightarrow> i = (j :: nat)"
  using ring_inj_le [of i j n h] ring_inj_le [of j i n h] by (cases "i \<le> j") auto

lemma ring_distinct:
  "i < n \<Longrightarrow> j < n \<Longrightarrow> i \<noteq> j \<Longrightarrow> (h + i) mod n \<noteq> (h + j) mod (n :: nat)"
  using ring_inj by blast

lemma queue_push:
  assumes "eg_head e < eg_capacity e" "eg_count e < eg_capacity e"
  shows "eg_queue (egress_push e p) = eg_queue e @ [p]"
proof -
  let ?t = "(eg_head e + eg_count e) mod eg_capacity e"
  have t: "?t < eg_capacity e" using assms(1) by (intro mod_less_divisor) linarith
  have "egress_slot (egress_push e p) i = egress_slot e i" if "i < eg_count e" for i
  proof -
    have "(eg_head e + i) mod eg_capacity e \<noteq> (eg_head e + eg_count e) mod eg_capacity e"
      using that assms by (intro ring_distinct) linarith+
    then show ?thesis by (simp add: egress_slot_def egress_push_def Let_def)
  qed
  moreover have "egress_slot (egress_push e p) (eg_count e) = p"
    using t by (simp add: egress_slot_def egress_push_def Let_def)
  ultimately show ?thesis
    by (simp add: eg_queue_def egress_push_def Let_def)
qed

lemma queue_pop:
  assumes "eg_head e < eg_capacity e" "eg_count e \<le> eg_capacity e" "0 < eg_count e"
  shows "eg_queue e = egress_front e # eg_queue (egress_pop e)"
proof -
  have front: "egress_slot e 0 = egress_front e"
    using assms(1) by (simp add: egress_slot_def egress_front_def)
  have "egress_slot (egress_pop e) i = egress_slot e (Suc i)" if "Suc i < eg_count e" for i
  proof -
    have "(eg_head e + Suc i) mod eg_capacity e \<noteq> (eg_head e + 0) mod eg_capacity e"
      using that assms by (intro ring_distinct) linarith+
    then show ?thesis
      using assms(1) by (simp add: egress_slot_def egress_pop_def mod_add_left_eq)
  qed
  then have "map (egress_slot (egress_pop e)) [0..<eg_count e - 1] =
      map (egress_slot e) (map Suc [0..<eg_count e - 1])" by auto
  moreover have "[0..<eg_count e] = 0 # map Suc [0..<eg_count e - 1]"
    using assms(3) by (simp add: map_Suc_upt upt_conv_Cons)
  ultimately show ?thesis
    by (simp add: eg_queue_def front egress_pop_def)
qed

lemma queue_unpush:
  assumes "eg_head e < eg_capacity e" "eg_count e \<le> eg_capacity e" "eg_queue e = ps @ [p]"
  shows "eg_queue (egress_unpush e) = ps \<and> egress_slot e (eg_count e - 1) = p"
proof -
  have n: "eg_count e = Suc (length ps)"
    using assms(3) by (metis length_eg_queue length_append_singleton)
  let ?t = "(eg_head e + eg_count e - 1) mod eg_capacity e"
  have "egress_slot (egress_unpush e) i = egress_slot e i" if "i < length ps" for i
  proof -
    have "(eg_head e + i) mod eg_capacity e \<noteq> (eg_head e + length ps) mod eg_capacity e"
      using that assms n by (intro ring_distinct) linarith+
    then show ?thesis by (simp add: egress_slot_def egress_unpush_def Let_def n)
  qed
  then have "eg_queue (egress_unpush e) = map (egress_slot e) [0..<length ps]"
    by (simp add: eg_queue_def egress_unpush_def Let_def n)
  moreover have "map (egress_slot e) [0..<length ps] @ [egress_slot e (length ps)] = ps @ [p]"
    using assms(3) by (simp add: eg_queue_def n)
  ultimately show ?thesis using n by simp
qed

lemma inv_push:
  assumes "egress_inv e" "eg_count e < eg_capacity e" "eg_bytes e + packet_cost p \<le> eg_max_bytes e"
  shows "egress_inv (egress_push e p)"
proof -
  have "eg_queue (egress_push e p) = eg_queue e @ [p]"
    using assms by (intro queue_push) (simp_all add: egress_inv_def)
  then show ?thesis
    using assms by (simp add: egress_inv_def egress_push_def Let_def packet_cost_def)
qed

lemma inv_pop:
  assumes "egress_inv e" "0 < eg_count e"
  shows "egress_inv (egress_pop e) \<and> eg_queue e = egress_front e # eg_queue (egress_pop e)"
proof -
  have q: "eg_queue e = egress_front e # eg_queue (egress_pop e)"
    using assms by (intro queue_pop) (simp_all add: egress_inv_def)
  have b: "eg_bytes e = packet_cost (egress_front e) + queue_bytes (eg_queue (egress_pop e))"
    using assms(1) by (simp add: egress_inv_def q)
  have "eg_bytes (egress_pop e) = sz_sub (eg_bytes e) (packet_cost (egress_front e))"
    by (simp add: egress_pop_def packet_cost_def)
  then have "eg_bytes (egress_pop e) = queue_bytes (eg_queue (egress_pop e))"
    using b by (simp add: no_wrap)
  moreover have "eg_capacity (egress_pop e) = eg_capacity e" "eg_count (egress_pop e) = eg_count e - 1"
    "eg_max_bytes (egress_pop e) = eg_max_bytes e" "eg_head (egress_pop e) = (eg_head e + 1) mod eg_capacity e"
    by (simp_all add: egress_pop_def)
  moreover have "(eg_head e + 1) mod eg_capacity e < eg_capacity e"
    using assms(1) unfolding egress_inv_def by (intro mod_less_divisor) linarith
  ultimately show ?thesis
    using assms q b by (auto simp: egress_inv_def)
qed

lemma inv_unpush:
  assumes "egress_inv e" "eg_queue e = ps @ [p]"
  shows "egress_inv (egress_unpush e) \<and> eg_queue (egress_unpush e) = ps"
proof -
  have n: "eg_count e = Suc (length ps)"
    using assms(2) by (metis length_eg_queue length_append_singleton)
  have u: "eg_queue (egress_unpush e) = ps" "egress_slot e (length ps) = p"
    using queue_unpush [OF _ _ assms(2)] assms(1) n by (simp_all add: egress_inv_def)
  have b: "eg_bytes e = queue_bytes ps + packet_cost p"
    using assms by (simp add: egress_inv_def)
  have "eg_bytes (egress_unpush e) = sz_sub (eg_bytes e) (packet_cost p)"
    using u(2) n by (simp add: egress_unpush_def Let_def packet_cost_def egress_slot_def)
  then have "eg_bytes (egress_unpush e) = queue_bytes ps"
    using b by (simp add: no_wrap)
  moreover have "eg_capacity (egress_unpush e) = eg_capacity e" "eg_count (egress_unpush e) = length ps"
    "eg_max_bytes (egress_unpush e) = eg_max_bytes e" "eg_head (egress_unpush e) = eg_head e"
    using n by (simp_all add: egress_unpush_def Let_def)
  ultimately show ?thesis
    using assms(1) u(1) b n by (auto simp: egress_inv_def)
qed

section \<open>The ring is a bounded queue\<close>

definition egress_enq :: "egress \<Rightarrow> egress_packet \<Rightarrow> egress option" where
  "egress_enq e p = (if transport_egress_can_accept e 1 (length (pk_data p)) then Some (egress_push e p) else None)"

definition egress_deq :: "egress \<Rightarrow> (egress_packet \<times> egress) option" where
  "egress_deq e = (if eg_count e = 0 then None else Some (egress_front e, egress_pop e))"

lemma can_accept_iff:
  assumes "egress_inv e"
  shows "transport_egress_can_accept e n b \<longleftrightarrow> eg_count e + n \<le> eg_capacity e \<and>
    queue_bytes (eg_queue e) + b \<le> eg_max_bytes e"
  using assms by (auto simp: transport_egress_can_accept_def egress_inv_def no_wrap)

lemma push_limits [simp]:
  "eg_capacity (egress_push e p) = eg_capacity e" "eg_max_bytes (egress_push e p) = eg_max_bytes e"
  "eg_count (egress_push e p) = eg_count e + 1" "eg_bytes (egress_push e p) = eg_bytes e + packet_cost p"
  by (simp_all add: egress_push_def Let_def packet_cost_def)

lemma pop_limits [simp]:
  "eg_capacity (egress_pop e) = eg_capacity e" "eg_max_bytes (egress_pop e) = eg_max_bytes e"
  "eg_count (egress_pop e) = eg_count e - 1"
  by (simp_all add: egress_pop_def)

interpretation ring: bounded_fifo egress_inv eg_queue packet_cost "\<lambda>e. eg_capacity e" eg_max_bytes
    egress_enq egress_deq
proof unfold_locales
  fix q :: egress and x q'
  assume inv: "egress_inv q"
  show "(egress_enq q x \<noteq> None) = (length (eg_queue q) < eg_capacity q \<and>
      sum_list (map packet_cost (eg_queue q)) + packet_cost x \<le> eg_max_bytes q)"
    using can_accept_iff [OF inv] by (auto simp: egress_enq_def packet_cost_def queue_bytes_def)
  show "length (eg_queue q) \<le> eg_capacity q \<and> sum_list (map packet_cost (eg_queue q)) \<le> eg_max_bytes q"
    using inv by (auto simp: egress_inv_def queue_bytes_def)
  show "case egress_deq q of None \<Rightarrow> eg_queue q = []
      | Some (x, q') \<Rightarrow> egress_inv q' \<and> eg_queue q = x # eg_queue q' \<and> eg_capacity q' = eg_capacity q \<and>
          eg_max_bytes q' = eg_max_bytes q"
    using inv_pop [OF inv] by (auto simp: egress_deq_def simp flip: length_eg_queue)
  show "egress_inv q' \<and> eg_queue q' = eg_queue q @ [x] \<and> eg_capacity q' = eg_capacity q \<and>
      eg_max_bytes q' = eg_max_bytes q" if "egress_enq q x = Some q'"
  proof -
    have c: "eg_count q < eg_capacity q" "eg_bytes q + packet_cost x \<le> eg_max_bytes q" "q' = egress_push q x"
      using that can_accept_iff [OF inv] inv
      by (auto simp: egress_enq_def packet_cost_def egress_inv_def split: if_splits)
    then show ?thesis
      using inv_push [OF inv c(1,2)] queue_push [of q x] inv by (simp add: egress_inv_def)
  qed
qed

section \<open>Submitting and flushing\<close>

abbreviation (input) "wire_of ps \<equiv> map (\<lambda>p. (pk_destination p, pk_data p)) ps"

text \<open>The counters are outside of the invariant and of the abstract queue.\<close>

lemma egress_frame:
  assumes "eg_packets e' = eg_packets e" "eg_head e' = eg_head e" "eg_count e' = eg_count e"
    and "eg_bytes e' = eg_bytes e" "eg_max_bytes e' = eg_max_bytes e"
  shows "eg_queue e' = eg_queue e \<and> egress_inv e' = egress_inv e \<and> egress_front e' = egress_front e"
proof -
  have "egress_slot e' = egress_slot e" using assms by (simp add: egress_slot_def fun_eq_iff)
  then have q: "eg_queue e' = eg_queue e" using assms by (simp add: eg_queue_def)
  show ?thesis using assms by (simp add: egress_inv_def q egress_front_def)
qed

lemma count_frame [simp]:
  "eg_queue (count_sent e d) = eg_queue e" "egress_inv (count_sent e d) = egress_inv e"
  "egress_front (count_sent e d) = egress_front e"
  "eg_queue (count_blocked e) = eg_queue e" "egress_inv (count_blocked e) = egress_inv e"
  "eg_queue (count_error e) = eg_queue e" "egress_inv (count_error e) = egress_inv e"
  using egress_frame [of "count_sent e d" e] egress_frame [of "count_blocked e" e]
    egress_frame [of "count_error e" e]
  by (simp_all add: count_sent_def count_blocked_def count_error_def)

lemma count_count [simp]: "eg_count (count_sent e d) = eg_count e" "eg_count (count_error e) = eg_count e"
  by (simp_all add: count_sent_def count_error_def)

lemma dropped_frame [simp]:
  "eg_queue (e\<lparr>eg_packets_dropped := n\<rparr>) = eg_queue e"
  "egress_inv (e\<lparr>eg_packets_dropped := n\<rparr>) = egress_inv e"
  "egress_front (e\<lparr>eg_packets_dropped := n\<rparr>) = egress_front e"
  using egress_frame [of "e\<lparr>eg_packets_dropped := n\<rparr>" e] by simp_all

lemma total_bytes_Some:
  "total_bytes b ds = Some n \<Longrightarrow> n = b + sum_list (map length ds)"
  by (induction b ds rule: total_bytes.induct) (auto split: if_splits)

lemma unpush_all:
  "egress_inv e \<Longrightarrow> eg_queue e = ps @ qs \<Longrightarrow>
   egress_inv ((egress_unpush ^^ length qs) e) \<and> eg_queue ((egress_unpush ^^ length qs) e) = ps"
proof (induction qs arbitrary: e rule: rev_induct)
  case (snoc q qs)
  have "egress_inv (egress_unpush e) \<and> eg_queue (egress_unpush e) = ps @ qs"
    using inv_unpush [of e "ps @ qs" q] snoc.prems by simp
  then show ?case
    using snoc.IH [of "egress_unpush e"] by (simp add: funpow_swap1)
qed simp

lemma queue_loop_result:
  assumes "egress_inv e" "eg_queue e = ps @ qs" "length qs = queued"
    and "eg_count e + length ds \<le> eg_capacity e"
    and "eg_bytes e + sum_list (map length ds) \<le> eg_max_bytes e"
    and "queue_loop alloc e dest ds queued = (ok, e')"
  shows "egress_inv e' \<and> eg_queue e' = ps @ (if ok then qs @ map (egress_packet.make dest) ds else [])"
  using assms
proof (induction alloc e dest ds queued arbitrary: qs rule: queue_loop.induct)
  case (1 alloc e dest queued)
  then show ?case by auto
next
  case (2 alloc e dest d ds queued)
  show ?case
  proof (cases "alloc queued")
    case False
    then show ?thesis using 2 unpush_all [of e ps qs] by auto
  next
    case True
    let ?e = "egress_push e \<lparr>pk_destination = dest, pk_data = d\<rparr>"
    have q: "eg_queue ?e = ps @ (qs @ [egress_packet.make dest d])"
      using "2.prems" by (subst queue_push) (auto simp: egress_inv_def egress_packet.make_def)
    have i: "egress_inv ?e"
      using "2.prems" by (intro inv_push) (auto simp: packet_cost_def)
    show ?thesis
      using "2.IH" [OF _ i q] True "2.prems" by (auto simp: packet_cost_def)
  qed
qed

lemma queue_remaining_result:
  assumes inv: "egress_inv e" and r: "queue_remaining alloc e dest ds = (ok, e')"
  shows "egress_inv e' \<and> eg_queue e' = eg_queue e @ (if ok then map (egress_packet.make dest) ds else [])"
proof (cases "total_bytes 0 ds")
  case None
  then show ?thesis using inv r by (simp add: queue_remaining_def)
next
  case (Some b)
  note b = total_bytes_Some [OF Some]
  show ?thesis
  proof (cases "transport_egress_can_accept e (length ds) b")
    case False
    then show ?thesis using inv r Some by (auto simp: queue_remaining_def Let_def)
  next
    case True
    obtain l e1 where l: "queue_loop alloc e dest ds 0 = (l, e1)" by (cases "queue_loop alloc e dest ds 0")
    have res: "egress_inv e1 \<and> eg_queue e1 = eg_queue e @ (if l then map (egress_packet.make dest) ds else [])"
    proof -
      have "eg_count e + length ds \<le> eg_capacity e" "eg_bytes e + sum_list (map length ds) \<le> eg_max_bytes e"
        using True can_accept_iff [OF inv] b inv by (simp_all add: egress_inv_def)
      from queue_loop_result [OF inv _ _ this l, of "eg_queue e" "[]"] show ?thesis by simp
    qed
    have fin: "eg_queue (e1\<lparr>eg_packets_queued := a, eg_bytes_queued := c, eg_peak_count := f, eg_peak_bytes := g\<rparr>) = eg_queue e1
      \<and> egress_inv (e1\<lparr>eg_packets_queued := a, eg_bytes_queued := c, eg_peak_count := f, eg_peak_bytes := g\<rparr>) = egress_inv e1" for a c f g
      using egress_frame [of "e1\<lparr>eg_packets_queued := a, eg_bytes_queued := c, eg_peak_count := f, eg_peak_bytes := g\<rparr>" e1] by simp
    show ?thesis
      using r Some True l res fin by (cases l) (auto simp: queue_remaining_def Let_def)
  qed
qed

lemma count_sent_fold [simp]:
  "eg_queue (foldl count_sent e ds) = eg_queue e" "egress_inv (foldl count_sent e ds) = egress_inv e"
  "eg_count (foldl count_sent e ds) = eg_count e"
  by (induction ds arbitrary: e) auto

lemma wire_make [simp]: "wire_of (map (egress_packet.make dest) ds) = map (Pair dest) ds"
  by (simp add: egress_packet.make_def comp_def)

lemma submit_result:
  assumes inv: "egress_inv e"
    and s: "transport_egress_submit alloc net e fd dest ds = (ok, e', net')"
  obtains n where "n \<le> length ds" "n = 0 \<or> eg_queue e = []" "egress_inv e'"
    "nt_wire net' = nt_wire net @ map (Pair dest) (take n ds)"
    "eg_queue e' = eg_queue e @ (if ok then map (egress_packet.make dest) (drop n ds) else [])"
proof (cases "fd < 0 \<or> 128 < length dest \<or> ds = []")
  case True
  then show thesis using that [of 0] s inv by (auto simp: transport_egress_submit_def split: if_splits)
next
  case False
  obtain r net1 where b: "(if eg_count e = 0 then transport_udp_send_batch net fd dest ds else (Inr 0, net)) = (r, net1)"
    by (cases "if eg_count e = 0 then transport_udp_send_batch net fd dest ds else (Inr 0, net)")
  have w: "case r of Inr n \<Rightarrow> n \<le> length ds \<and> nt_wire net1 = nt_wire net @ map (Pair dest) (take n ds)
    | Inl e \<Rightarrow> nt_wire net1 = nt_wire net"
    using b send_batch_wire [of net fd dest ds r net1] by (auto split: if_splits)
  have z: "r = Inr 0 \<or> eg_queue e = []"
    using b by (auto simp flip: length_eg_queue split: if_splits)
  show thesis
  proof (cases r)
    case (Inl x)
    then have q: "eg_queue e = []" using z by auto
    show thesis
    proof (cases x)
      case WOULD_BLOCK
      obtain o' e1 where q1: "queue_remaining alloc (count_blocked (count_error e)) dest ds = (o', e1)"
        by (cases "queue_remaining alloc (count_blocked (count_error e)) dest ds")
      show thesis
        using that [of 0] queue_remaining_result [OF _ q1] inv s False b w q Inl WOULD_BLOCK q1
        by (simp add: transport_egress_submit_def)
    next
      case HARD_ERROR
      show thesis
        using that [of 0] inv s False b w q Inl HARD_ERROR by (auto simp: transport_egress_submit_def)
    qed
  next
    case (Inr n)
    define e1 where "e1 = (if eg_count e = 0 \<and> n < length ds then count_blocked (foldl count_sent e (take n ds))
      else foldl count_sent e (take n ds))"
    have e1: "egress_inv e1" "eg_queue e1 = eg_queue e" using inv by (simp_all add: e1_def)
    show thesis
    proof (cases "n = length ds")
      case True
      then show thesis
        using that [of n] s False b w z Inr e1 by (auto simp: transport_egress_submit_def e1_def)
    next
      case ne: False
      obtain o' e2 where q1: "queue_remaining alloc e1 dest (drop n ds) = (o', e2)"
        by (cases "queue_remaining alloc e1 dest (drop n ds)")
      have c: "(fd < 0 \<or> 128 < length dest) = False" "(ds = []) = False" "(n = length ds) = False"
        using False ne by simp_all
      have "transport_egress_submit alloc net e fd dest ds = (o', e2, net1)"
        by (simp only: transport_egress_submit_def b Inr Let_def prod.case sum.case if_False c
            e1_def [symmetric] q1)
      then show thesis
        using that [of n] s w z Inr e1 queue_remaining_result [OF e1(1) q1] by auto
    qed
  qed
qed

lemma pop_sent_result:
  "egress_inv e \<Longrightarrow> n \<le> eg_count e \<Longrightarrow>
   egress_inv (pop_sent e n) \<and> eg_queue (pop_sent e n) = drop n (eg_queue e)"
proof (induction e n rule: pop_sent.induct)
  case (1 e)
  then show ?case by simp
next
  case (2 e n)
  let ?e = "count_sent e (pk_data (egress_front e))"
  have p: "egress_inv (egress_pop ?e) \<and> eg_queue ?e = egress_front ?e # eg_queue (egress_pop ?e)"
    using "2.prems" by (intro inv_pop) auto
  then have "eg_queue e = egress_front e # eg_queue (egress_pop ?e)" by simp
  then show ?case using "2.IH" p "2.prems" by simp
qed

lemma compatible_prefix:
  assumes "n \<le> eg_count e" "k \<le> length (compatible_batch e n)"
  shows "length (compatible_batch e n) \<le> n \<and>
    wire_of (take k (eg_queue e)) = map (Pair (pk_destination (egress_front e))) (take k (compatible_batch e n))"
proof -
  let ?same = "\<lambda>p. pk_destination p = pk_destination (egress_front e)"
  let ?ps = "map (egress_slot e) [0..<n]"
  have t: "?ps = take n (eg_queue e)" using assms(1) by (simp add: eg_queue_def take_map)
  define c where "c = takeWhile ?same ?ps"
  have c: "c = take (length c) ?ps" unfolding c_def by (rule takeWhile_eq_take)
  have len: "length c \<le> n" unfolding c_def using length_takeWhile_le [of ?same ?ps] by simp
  have b: "compatible_batch e n = map pk_data c" by (simp add: compatible_batch_def c_def)
  have "take k (eg_queue e) = take k c"
  proof -
    have "take k c = take k (take (length c) ?ps)" using c by simp
    also have "\<dots> = take k (eg_queue e)" using assms(2) len b by (simp add: t min_def)
    finally show ?thesis by simp
  qed
  moreover have "\<forall>p\<in>set c. ?same p" by (auto simp: c_def dest: set_takeWhileD)
  then have "\<forall>p\<in>set (take k c). ?same p" by (meson in_set_takeD)
  then have "wire_of (take k c) = map (Pair (pk_destination (egress_front e))) (map pk_data (take k c))" by simp
  ultimately show ?thesis using len by (simp add: b take_map)
qed

text \<open>
  What a flush may do to the queue: each packet it takes from the front was sent, or was refused
  by the kernel in a call whose first datagram it was.
\<close>

type_synonym fate = "egress_packet \<times> nat option"

definition sent_of :: "fate list \<Rightarrow> egress_packet list" where
  "sent_of fates = map fst (filter (\<lambda>f. snd f = None) fates)"

definition refused_at :: "net \<Rightarrow> net \<Rightarrow> egress_packet \<Rightarrow> nat \<Rightarrow> bool" where
  "refused_at net net' p i \<longleftrightarrow> (\<exists>ds. hard_refusal net net' (pk_destination p) (pk_data p # ds) i)"

definition refusals :: "net \<Rightarrow> net \<Rightarrow> fate list \<Rightarrow> bool" where
  "refusals net net' fates \<longleftrightarrow>
     (\<forall>(p, c) \<in> set fates. \<forall>i. c = Some i \<longrightarrow> refused_at net net' p i) \<and>
     sorted_wrt (<) (List.map_filter snd fates)"

definition flushed :: "egress \<Rightarrow> net \<Rightarrow> egress \<Rightarrow> net \<Rightarrow> nat \<Rightarrow> bool \<Rightarrow> bool" where
  "flushed e net e' net' budget lossless \<longleftrightarrow> egress_inv e' \<and> kernel_after net net' \<and> (\<exists>fates.
     eg_queue e = map fst fates @ eg_queue e' \<and> length fates \<le> budget \<and>
     nt_wire net' = nt_wire net @ wire_of (sent_of fates) \<and> refusals net net' fates \<and>
     (lossless \<longleftrightarrow> (\<forall>f\<in>set fates. snd f = None)))"

lemma sent_of_simps [simp]:
  "sent_of [] = []" "sent_of (fs @ gs) = sent_of fs @ sent_of gs"
  "sent_of ((p, Some i) # fs) = sent_of fs" "sent_of (map (\<lambda>p. (p, None)) ps) = ps"
  by (simp_all add: sent_of_def filter_map comp_def)

lemma refusals_simps [simp]:
  "refusals net net' []" "refusals net net' (map (\<lambda>p. (p, None)) ps)"
  "refusals net net' [(p, Some i)] \<longleftrightarrow> refused_at net net' p i"
  by (auto simp: refusals_def map_filter_simps List.map_filter_def comp_def)

lemma refusals_index:
  "refusals net net' fs \<Longrightarrow> i \<in> set (List.map_filter snd fs) \<Longrightarrow>
   length (nt_offers net) \<le> i \<and> i < length (nt_offers net')"
  by (fastforce simp: refusals_def refused_at_def hard_refusal_def List.map_filter_def)

lemma refusals_append:
  assumes "refusals a b fs" "refusals b c gs" "kernel_after a b" "kernel_after b c"
  shows "refusals a c (fs @ gs)"
proof -
  have "i < j" if "i \<in> set (List.map_filter snd fs)" "j \<in> set (List.map_filter snd gs)" for i j
    using refusals_index [OF assms(1) that(1)] refusals_index [OF assms(2) that(2)] by linarith
  moreover have "refused_at a b p i \<Longrightarrow> refused_at a c p i" "refused_at b c p i \<Longrightarrow> refused_at a c p i" for p i
    using hard_refusal_later [OF _ assms(4)] hard_refusal_earlier [OF _ assms(3)]
    unfolding refused_at_def by blast+
  ultimately show ?thesis
    using assms(1,2) by (auto simp: refusals_def sorted_wrt_append List.map_filter_def)
qed

lemma flushed_refl: "egress_inv e' \<Longrightarrow> eg_queue e' = eg_queue e \<Longrightarrow> nt_wire net' = nt_wire net \<Longrightarrow>
    kernel_after net net' \<Longrightarrow> flushed e net e' net' n True"
  unfolding flushed_def by (intro conjI exI [of _ "[]"]) auto

lemma flushed_step:
  assumes "eg_queue e = map fst taken @ eg_queue e1" "length taken \<le> n"
    and "nt_wire net1 = nt_wire net @ wire_of (sent_of taken)" "refusals net net1 taken" "kernel_after net net1"
    and "flushed e1 net1 e' net' (b - n) l1" "n \<le> b" "l \<longleftrightarrow> l1 \<and> (\<forall>f\<in>set taken. snd f = None)"
  shows "flushed e net e' net' b l"
proof -
  from assms(6) obtain fates where g: "egress_inv e'" "kernel_after net1 net'"
    "eg_queue e1 = map fst fates @ eg_queue e'" "length fates \<le> b - n"
    "nt_wire net' = nt_wire net1 @ wire_of (sent_of fates)" "refusals net1 net' fates"
    "l1 \<longleftrightarrow> (\<forall>f\<in>set fates. snd f = None)" unfolding flushed_def by blast
  have "refusals net net' (taken @ fates)" using assms(4) g(6) assms(5) g(2) by (rule refusals_append)
  then show ?thesis
    unfolding flushed_def using assms g kernel_after_trans [OF assms(5) g(2)]
    by (intro conjI exI [of _ "taken @ fates"]) auto
qed

lemma flushed_sent:
  assumes "eg_queue e = ps @ eg_queue e1" "length ps \<le> n" "nt_wire net1 = nt_wire net @ wire_of ps"
    and "kernel_after net net1" "flushed e1 net1 e' net' (b - n) l" "n \<le> b"
  shows "flushed e net e' net' b l"
  by (rule flushed_step [of e "map (\<lambda>p. (p, None)) ps" e1 n]) (use assms in \<open>auto simp: comp_def\<close>)

lemma compatible_nonempty: "0 < n \<Longrightarrow> eg_head e < eg_capacity e \<Longrightarrow> compatible_batch e n \<noteq> []"
  by (cases n) (simp_all add: compatible_batch_def egress_slot_def egress_front_def upt_conv_Cons del: upt_Suc)

text \<open>The packet whose refusal the loop answers to is the first one of the batch it offered.\<close>

lemma batch_front:
  assumes "0 < n" "eg_head e < eg_capacity e"
  shows "\<exists>ds. compatible_batch e n = pk_data (egress_front e) # ds"
  using assms by (cases n) (simp_all add: compatible_batch_def egress_slot_def egress_front_def upt_conv_Cons del: upt_Suc)

text \<open>The three ways an iteration of the loop goes on.\<close>

lemma flush_loop_iteration:
  assumes "eg_count e \<noteq> 0" "budget \<noteq> 0" and "ds = compatible_batch e (min (eg_count e) budget)"
    and "transport_udp_send_batch net fd (pk_destination (egress_front e)) ds = (r, net1)"
  shows "flush_loop net e fd budget s = (case r of
      Inl WOULD_BLOCK \<Rightarrow> (s, count_blocked e, net1)
    | Inl HARD_ERROR \<Rightarrow>
        flush_loop net1 (egress_pop ((count_error e)\<lparr>eg_packets_dropped := eg_packets_dropped e + 1\<rparr>))
          fd (budget - 1) False
    | Inr sent \<Rightarrow>
        if sent = 0 then (s, count_blocked e, net1)
        else if sent < length ds then (s, count_blocked (pop_sent e sent), net1)
        else flush_loop net1 (pop_sent e sent) fd (budget - sent) s)"
  using assms by (subst flush_loop.simps) (simp add: Let_def split: sum.split send_error.split)

lemma flush_loop_result:
  "egress_inv e \<Longrightarrow> budget \<le> 64 \<Longrightarrow> 0 \<le> fd \<Longrightarrow> flush_loop net e fd budget s = (s', e', net') \<Longrightarrow>
   \<exists>l. flushed e net e' net' budget l \<and> (s' \<longleftrightarrow> s \<and> l)"
proof (induction net e fd budget s arbitrary: s' e' net' rule: flush_loop.induct)
  case (1 net e fd budget s)
  show ?case
  proof (cases "eg_count e = 0 \<or> budget = 0")
    case True
    then have "s' = s" "e' = e" "net' = net" using "1.prems"(4) by (subst (asm) flush_loop.simps, auto)+
    then show ?thesis using "1.prems"(1) flushed_refl [of e e net net budget] by auto
  next
    case False
    define ds where "ds = compatible_batch e (min (eg_count e) budget)"
    let ?dest = "pk_destination (egress_front e)"
    obtain r net1 where b: "transport_udp_send_batch net fd ?dest ds = (r, net1)"
      by (cases "transport_udp_send_batch net fd ?dest ds")
    note w = send_batch_wire [OF b] and calls = send_batch_calls [OF b]
    obtain more where d: "ds = pk_data (egress_front e) # more"
      using False "1.prems"(1) batch_front [of "min (eg_count e) budget" e] by (auto simp: ds_def egress_inv_def)
    have lds: "length ds \<le> min (eg_count e) budget"
      using compatible_prefix [of "min (eg_count e) budget" e 0] by (simp add: ds_def)
    note unf = flush_loop_iteration [OF _ _ ds_def b, of s]
    note IH = "1.IH" [OF False refl refl, folded ds_def, OF b [symmetric]]
    show ?thesis
    proof (cases r)
      case (Inl x)
      show ?thesis
      proof (cases x)
        case WOULD_BLOCK
        then show ?thesis
          using "1.prems" w calls Inl False unf by (auto intro!: exI [of _ True] flushed_refl)
      next
        case HARD_ERROR
        let ?e = "(count_error e)\<lparr>eg_packets_dropped := eg_packets_dropped e + 1\<rparr>"
        have front: "egress_front (count_error e) = egress_front e"
          by (simp add: egress_front_def count_error_def)
        have p: "egress_inv (egress_pop ?e)" "eg_queue ?e = egress_front ?e # eg_queue (egress_pop ?e)"
          using "1.prems"(1) False inv_pop [of ?e] by auto
        have fl: "flush_loop net1 (egress_pop ?e) fd (budget - 1) False = (s', e', net')"
          using "1.prems"(4) Inl HARD_ERROR False unf by simp
        obtain l where ih: "flushed (egress_pop ?e) net1 e' net' (budget - 1) l" "\<not> s'"
          using IH(1) [OF Inl HARD_ERROR refl p(1) le_trans [OF diff_le_self "1.prems"(2)] "1.prems"(3) fl]
          by blast
        obtain i where "hard_refusal net net1 ?dest ds i"
          using calls Inl HARD_ERROR "1.prems"(2,3) lds by auto
        then have "refused_at net net1 (egress_front e) i" by (auto simp: refused_at_def d)
        then have "flushed e net e' net' budget False"
          using flushed_step [of e "[(egress_front e, Some i)]" "egress_pop ?e" 1 net1 net e' net' budget l False]
            p w Inl calls ih False by (auto simp: front)
        then show ?thesis using ih(2) by blast
      qed
    next
      case (Inr k)
      have k: "k \<le> length ds" "nt_wire net1 = nt_wire net @ wire_of (take k (eg_queue e))"
        using w Inr compatible_prefix [of "min (eg_count e) budget" e k] by (auto simp: ds_def)
      have ps: "egress_inv (pop_sent e k)" "eg_queue (pop_sent e k) = drop k (eg_queue e)"
        using pop_sent_result [OF "1.prems"(1), of k] k lds by auto
      have after: "kernel_after net net1" using calls by blast
      have sent: "flushed e net e' net' budget l"
        if "flushed (pop_sent e k) net1 e' net' (budget - k) l" for l
        using that ps k lds after
        by (intro flushed_sent [of e "take k (eg_queue e)" "pop_sent e k" k net1 net]) auto
      consider "k = 0" | "0 < k" "k < length ds" | "0 < k" "k = length ds" using k(1) by linarith
      then show ?thesis
      proof cases
        case 1
        then show ?thesis
          using "1.prems" k(2) Inr False unf after by (auto intro!: exI [of _ True] flushed_refl)
      next
        case 2
        then have "s' = s" "e' = count_blocked (pop_sent e k)" "net' = net1"
          using "1.prems"(4) Inr False unf by auto
        moreover from this have "flushed (pop_sent e k) net1 e' net' (budget - k) True"
          using ps by (intro flushed_refl) simp_all
        ultimately show ?thesis using sent by blast
      next
        case 3
        then have fl: "flush_loop net1 (pop_sent e k) fd (budget - k) s = (s', e', net')"
          using "1.prems"(4) Inr False unf by auto
        show ?thesis
          using IH(2) [OF Inr _ refl _ ps(1) le_trans [OF diff_le_self "1.prems"(2)] "1.prems"(3) fl] 3 sent
          by auto
      qed
    qed
  qed
qed

lemma egress_init_inv:
  "transport_egress_init c e0 n b = (True, e) \<Longrightarrow> b \<le> SIZE_MAX \<Longrightarrow> egress_inv e \<and> eg_queue e = []"
  by (auto simp: transport_egress_init_def egress_inv_def eg_queue_def zero_egress_def split: if_splits)

section \<open>Properties\<close>

text \<open>
  The send queue is a FIFO with two budgets: any interleaving of insertions and removals
  on the ring delivers the accepted packets in order, none lost and none twice, and the ring
  never holds more packets than it has slots nor more bytes than its limit, wherever the
  head has wrapped to.
\<close>

theorem egress_ring_fifo:
  assumes "egress_inv e" "fifo_run egress_enq egress_deq e ops = (e', ins, outs)"
  shows "egress_inv e' \<and> outs @ eg_queue e' = eg_queue e @ ins \<and>
    length (eg_queue e') \<le> eg_capacity e \<and> sum_list (map packet_cost (eg_queue e')) \<le> eg_max_bytes e"
  using ring.run_order [OF assms] ring.run_within [OF assms] by simp

definition sample_egress :: egress where
  "sample_egress = snd (transport_egress_init True zero_egress 2 100)"

lemma sample_inv: "egress_inv sample_egress" "eg_queue sample_egress = []"
  using egress_init_inv [of True zero_egress 2 100 sample_egress]
  by (simp_all add: sample_egress_def transport_egress_init_def SIZE_MAX_def)

theorem egress_ring_fifo_witness:
  "\<exists>e' ins outs. fifo_run egress_enq egress_deq sample_egress
     [Enq \<lparr>pk_destination = [1], pk_data = [5, 6]\<rparr>, Deq, Deq] = (e', ins, outs) \<and> outs @ eg_queue e' = ins"
proof -
  obtain e' ins outs where r: "fifo_run egress_enq egress_deq sample_egress
     [Enq \<lparr>pk_destination = [1], pk_data = [5, 6]\<rparr>, Deq, Deq] = (e', ins, outs)"
    by (cases "fifo_run egress_enq egress_deq sample_egress
     [Enq \<lparr>pk_destination = [1], pk_data = [5, 6]\<rparr>, Deq, Deq]")
  show ?thesis using egress_ring_fifo [OF sample_inv(1) r] r by (simp add: sample_inv)
qed

text \<open>
  C26. Submitting a batch never reorders: what has reached the wire followed by what is queued
  is what it was before followed by the batch when it is accepted, and by the prefix the
  kernel took directly (only possible while nothing is queued) when it is not. A failed
  allocation leaves no part of the batch in the queue.
\<close>

theorem egress_submit_order:
  assumes "egress_inv e" "transport_egress_submit alloc net e fd dest ds = (ok, e', net')"
  shows "egress_inv e' \<and> (\<exists>n \<le> length ds. (n = 0 \<or> eg_queue e = []) \<and>
    nt_wire net' @ wire_of (eg_queue e') =
      nt_wire net @ wire_of (eg_queue e) @ map (Pair dest) (if ok then ds else take n ds) \<and>
    (\<not> ok \<longrightarrow> eg_queue e' = eg_queue e))"
proof -
  from submit_result [OF assms] obtain n where n: "n \<le> length ds" "n = 0 \<or> eg_queue e = []"
    "egress_inv e'" "nt_wire net' = nt_wire net @ map (Pair dest) (take n ds)"
    "eg_queue e' = eg_queue e @ (if ok then map (egress_packet.make dest) (drop n ds) else [])" .
  have "map (Pair dest) ds = map (Pair dest) (take n ds) @ map (Pair dest) (drop n ds)"
    by (simp flip: map_append)
  moreover have "wire_of (eg_queue e') = wire_of (eg_queue e) @ (if ok then map (Pair dest) (drop n ds) else [])"
    using n(5) by (cases ok) (simp_all only: map_append wire_make if_True if_False append_Nil2)
  ultimately show ?thesis using n by (intro conjI exI [of _ n]) auto
qed

theorem egress_submit_order_witness:
  "egress_inv (fst (snd (transport_egress_submit (\<lambda>_. True)
     \<lparr>nt_answer = \<lambda>_. Refuse WOULD_BLOCK, nt_offers = [], nt_wire = []\<rparr> sample_egress 3 [1] [[5], [6]])))"
proof -
  let ?net = "\<lparr>nt_answer = \<lambda>_. Refuse WOULD_BLOCK, nt_offers = [], nt_wire = []\<rparr>"
  obtain ok e' net' where r: "transport_egress_submit (\<lambda>_. True) ?net sample_egress 3 [1] [[5], [6]] = (ok, e', net')"
    by (cases "transport_egress_submit (\<lambda>_. True) ?net sample_egress 3 [1] [[5], [6]]")
  show ?thesis using egress_submit_order [OF sample_inv(1) r] by (simp add: r)
qed

text \<open>
  C27. A flush takes packets only from the front of the queue, at most one batch per call, and
  what stays queued is untouched, whatever the kernel answers. Each packet taken was sent, in
  the queue's order, unless a call of this flush that offered it first was answered with a hard
  error; no two packets are dropped for the same call. The flush reports success exactly when
  it has a socket and dropped nothing.
\<close>

theorem egress_flush_prefix:
  assumes "egress_inv e" "transport_egress_flush net e fd = (ok, e', net')"
  shows "egress_inv e' \<and> (\<exists>fates. eg_queue e = map fst fates @ eg_queue e' \<and> length fates \<le> 64 \<and>
    nt_wire net' = nt_wire net @ wire_of (map fst (filter (\<lambda>f. snd f = None) fates)) \<and>
    (\<forall>(p, c) \<in> set fates. \<forall>i. c = Some i \<longrightarrow>
       length (nt_offers net) \<le> i \<and> i < length (nt_offers net') \<and> nt_answer net i = Refuse HARD_ERROR \<and>
       (\<exists>ds. nt_offers net' ! i = (pk_destination p, pk_data p # ds))) \<and>
    sorted_wrt (<) (List.map_filter snd fates) \<and>
    (ok \<longleftrightarrow> 0 \<le> fd \<and> (\<forall>f\<in>set fates. snd f = None)))"
proof (cases "fd < 0")
  case True
  then show ?thesis
    using assms by (auto simp: transport_egress_flush_def List.map_filter_def intro!: exI [of _ "[]"])
next
  case False
  then have "flush_loop net e fd 64 True = (ok, e', net')"
    using assms(2) by (simp add: transport_egress_flush_def)
  with False obtain l where "flushed e net e' net' 64 l" "ok \<longleftrightarrow> l"
    using flush_loop_result [OF assms(1), of 64 fd net True ok e' net'] by auto
  then obtain fates where f: "egress_inv e'" "eg_queue e = map fst fates @ eg_queue e'" "length fates \<le> 64"
    "nt_wire net' = nt_wire net @ wire_of (sent_of fates)" "refusals net net' fates"
    "ok \<longleftrightarrow> (\<forall>f\<in>set fates. snd f = None)" unfolding flushed_def by blast
  then show ?thesis
    using False by (intro conjI exI [of _ fates])
      (auto simp: refusals_def refused_at_def hard_refusal_def sent_of_def)
qed

theorem egress_flush_prefix_witness:
  "egress_inv (fst (snd (transport_egress_flush
     \<lparr>nt_answer = \<lambda>_. Refuse HARD_ERROR, nt_offers = [], nt_wire = []\<rparr>
     (egress_push sample_egress \<lparr>pk_destination = [1], pk_data = [5]\<rparr>) 3)))"
proof -
  let ?net = "\<lparr>nt_answer = \<lambda>_. Refuse HARD_ERROR, nt_offers = [], nt_wire = []\<rparr>"
  let ?e = "egress_push sample_egress \<lparr>pk_destination = [1], pk_data = [5]\<rparr>"
  have inv: "egress_inv ?e"
    using sample_inv(1) by (rule inv_push)
      (simp_all add: sample_egress_def transport_egress_init_def zero_egress_def packet_cost_def)
  obtain ok e' net' where r: "transport_egress_flush ?net ?e 3 = (ok, e', net')"
    by (cases "transport_egress_flush ?net ?e 3")
  show ?thesis using egress_flush_prefix [OF inv r] by (simp add: r)
qed

end
