(* ===== verification/SentCache.thy ===== *)
theory SentCache
  imports Tracks
begin

text \<open>
  The recovery cache of sent objects and the cache of FEC codecs (\<open>transport_fec_state.c\<close>).
  A pointer to payload bytes is an address together with the bytes stored there, because the
  code compares addresses to protect a publication that aliases a retained payload; the
  \<open>size\<close> fields are the lengths. The table of entries is a list, empty while the pointer is NULL.
  The results of \<open>malloc\<close> and \<open>calloc\<close> are arguments.
\<close>

section \<open>State\<close>

record payload =
  pl_address :: nat
  pl_bytes :: bytes

record moq_object =
  ob_track_id :: moq_track_id
  ob_group_id :: u64
  ob_object_id :: u64
  ob_data :: "payload option"
  ob_is_keyframe :: bool
  ob_priority :: u8

record sent_entry =
  se_track_id :: moq_track_id
  se_group_id :: u64
  se_object_id :: u64
  se_data :: "payload option"
  se_priority :: u8
  se_is_keyframe :: bool
  se_total_symbols :: u16
  se_data_symbols :: u16
  se_symbol_size :: u16
  se_next_repair_symbol :: u16
  se_next_systematic_repair_symbol :: u16
  se_recovery_protected :: bool

record sent_cache =
  sc_entries :: "sent_entry list"
  sc_next_entry :: nat
  sc_max_payload_bytes :: nat
  sc_payload_bytes :: nat
  sc_peak_payload_bytes :: nat
  sc_count :: nat
  sc_peak_count :: nat

abbreviation (input) "SENT_CACHE_SIZE \<equiv> (2048 :: nat)"
abbreviation (input) "SENT_CACHE_MAX_SIZE \<equiv> (4096 :: nat)"
abbreviation (input) "DEFAULT_RECOVERY_CACHE_BYTES \<equiv> (16777216 :: nat)"
abbreviation (input) "MAX_FEC_OBJECT_SIZE \<equiv> (1048576 :: nat)"
abbreviation (input) "SIZEOF_SENT_ENTRY \<equiv> (120 :: nat)"

definition data_size :: "payload option \<Rightarrow> nat" where
  "data_size d = (case d of None \<Rightarrow> 0 | Some p \<Rightarrow> length (pl_bytes p))"

definition zero_entry :: sent_entry where
  "zero_entry = \<lparr>se_track_id = zero_track, se_group_id = 0, se_object_id = 0, se_data = None,
     se_priority = 0, se_is_keyframe = False, se_total_symbols = 0, se_data_symbols = 0,
     se_symbol_size = 0, se_next_repair_symbol = 0, se_next_systematic_repair_symbol = 0,
     se_recovery_protected = False\<rparr>"

definition zero_cache :: sent_cache where
  "zero_cache = \<lparr>sc_entries = [], sc_next_entry = 0, sc_max_payload_bytes = 0,
     sc_payload_bytes = 0, sc_peak_payload_bytes = 0, sc_count = 0, sc_peak_count = 0\<rparr>"

section \<open>Operations\<close>

definition sent_track_equal :: "moq_track_id \<Rightarrow> moq_track_id \<Rightarrow> bool" where
  "sent_track_equal a b = (ti_type a = ti_type b \<and> ti_flags a = ti_flags b \<and>
     strcmp_eq (ti_name a) (ti_name b))"

definition cache_capacity :: "sent_cache \<Rightarrow> nat" where
  "cache_capacity cache =
     (if sc_entries cache \<noteq> [] then length (sc_entries cache) else SENT_CACHE_SIZE)"

definition transport_sent_cache_byte_limit :: "sent_cache \<Rightarrow> nat" where
  "transport_sent_cache_byte_limit cache =
     (if sc_max_payload_bytes cache \<noteq> 0 then sc_max_payload_bytes cache
      else DEFAULT_RECOVERY_CACHE_BYTES)"

text \<open>The number of slots: one for each object of the largest size, within the two bounds.\<close>

definition slots_for :: "nat \<Rightarrow> nat \<Rightarrow> nat" where
  "slots_for byte_limit object_limit =
     (let quotient = byte_limit div object_limit;
          rounded = (if byte_limit mod object_limit \<noteq> 0 then quotient + 1 else quotient);
          raised = (if rounded < SENT_CACHE_SIZE then SENT_CACHE_SIZE else rounded) in
      if raised > SENT_CACHE_MAX_SIZE then SENT_CACHE_MAX_SIZE else raised)"

definition transport_sent_cache_init ::
  "bool \<Rightarrow> sent_cache \<Rightarrow> nat \<Rightarrow> nat \<Rightarrow> bool \<times> sent_cache" where
  "transport_sent_cache_init calloc_ok cache max_payload_bytes max_object_bytes =
     (if sc_entries cache \<noteq> [] then (True, cache)
      else let byte_limit = (if max_payload_bytes \<noteq> 0 then max_payload_bytes
                 else DEFAULT_RECOVERY_CACHE_BYTES);
               object_limit = (if max_object_bytes \<noteq> 0 then max_object_bytes
                 else MAX_FEC_OBJECT_SIZE);
               capacity = slots_for byte_limit object_limit in
        if capacity > SIZE_MAX div SIZEOF_SENT_ENTRY then (False, cache)
        else if \<not> calloc_ok then (False, cache)
        else (True, cache\<lparr>sc_entries := replicate capacity zero_entry,
                          sc_max_payload_bytes := byte_limit\<rparr>))"

definition entry_is :: "moq_track_id \<Rightarrow> u64 \<Rightarrow> u64 \<Rightarrow> sent_entry \<Rightarrow> bool" where
  "entry_is track group_id object_id e =
     (se_data e \<noteq> None \<and> sent_track_equal (se_track_id e) track \<and> se_group_id e = group_id \<and>
      se_object_id e = object_id)"

text \<open>The pointer into the table is the index of the entry.\<close>

definition transport_sent_cache_find ::
  "sent_cache \<Rightarrow> moq_track_id \<Rightarrow> u64 \<Rightarrow> u64 \<Rightarrow> nat option" where
  "transport_sent_cache_find cache track group_id object_id =
     first_index (entry_is track group_id object_id) (sc_entries cache)"

definition transport_sent_cache_has_space :: "sent_cache \<Rightarrow> bool" where
  "transport_sent_cache_has_space cache = (sc_count cache < cache_capacity cache)"

definition source_overlaps_entry :: "payload \<Rightarrow> payload \<Rightarrow> bool" where
  "source_overlaps_entry source retained =
     (if pl_address source \<ge> pl_address retained
      then pl_address source - pl_address retained < length (pl_bytes retained)
      else pl_address retained - pl_address source < length (pl_bytes source))"

definition evictable :: "payload \<Rightarrow> sent_entry \<Rightarrow> bool" where
  "evictable source e = (case se_data e of None \<Rightarrow> False
     | Some retained \<Rightarrow> \<not> se_recovery_protected e \<and> \<not> source_overlaps_entry source retained)"

fun can_store_scan ::
  "moq_object \<Rightarrow> payload \<Rightarrow> bool \<Rightarrow> sent_entry list \<Rightarrow> nat \<Rightarrow> bool \<Rightarrow> bool" where
  "can_store_scan object source allow_evict [] available slot_available =
     (slot_available \<and> length (pl_bytes source) \<le> available)"
| "can_store_scan object source allow_evict (e # es) available slot_available =
     (case se_data e of
        None \<Rightarrow> can_store_scan object source allow_evict es available True
      | Some retained \<Rightarrow>
          if sent_track_equal (se_track_id e) (ob_track_id object) \<and>
             se_group_id e = ob_group_id object \<and> se_object_id e = ob_object_id object
          then length (pl_bytes retained) = length (pl_bytes source) \<and>
               pl_bytes retained = pl_bytes source
          else if allow_evict \<and> evictable source e
          then can_store_scan object source allow_evict es
                 (sz_add available (length (pl_bytes retained))) True
          else can_store_scan object source allow_evict es available slot_available)"

definition transport_sent_cache_can_store :: "sent_cache \<Rightarrow> moq_object \<Rightarrow> bool \<Rightarrow> bool" where
  "transport_sent_cache_can_store cache object allow_evict =
     (case ob_data object of
        None \<Rightarrow> False
      | Some source \<Rightarrow>
        let size = length (pl_bytes source); limit = transport_sent_cache_byte_limit cache in
        if size = 0 \<or> size > limit \<or> sc_payload_bytes cache > limit then False
        else let available = limit - sc_payload_bytes cache in
          if sc_entries cache = [] then sc_count cache = 0 \<and> size \<le> available
          else if sc_count cache < cache_capacity cache \<and> size \<le> available then True
          else can_store_scan object source allow_evict (sc_entries cache) available False)"

definition release_entry :: "sent_cache \<Rightarrow> nat \<Rightarrow> sent_cache" where
  "release_entry cache i =
     (let cache' = (if se_data (sc_entries cache ! i) \<noteq> None
            then cache\<lparr>sc_payload_bytes := sz_sub (sc_payload_bytes cache)
                          (data_size (se_data (sc_entries cache ! i))),
                       sc_count := sz_sub (sc_count cache) 1\<rparr>
            else cache) in
      cache'\<lparr>sc_entries := (sc_entries cache')[i := zero_entry]\<rparr>)"

text \<open>The loop that makes room, from \<open>offset\<close> on; \<open>None\<close> is its \<open>return false\<close>.\<close>

function evict_loop :: "sent_cache \<Rightarrow> payload \<Rightarrow> bool \<Rightarrow> nat \<Rightarrow> bool \<times> sent_cache" where
  "evict_loop cache source allow_evict offset =
     (if length (pl_bytes source) >
           sz_sub (transport_sent_cache_byte_limit cache) (sc_payload_bytes cache) \<or>
         sc_count cache = cache_capacity cache
      then if \<not> allow_evict \<or> offset \<ge> cache_capacity cache then (False, cache)
           else let index = (sc_next_entry cache + offset) mod cache_capacity cache in
             evict_loop (if evictable source (sc_entries cache ! index)
                         then release_entry cache index else cache)
               source allow_evict (offset + 1)
      else (True, cache))"
  by pat_completeness auto
termination
  by (relation "measure (\<lambda>(cache, source, allow_evict, offset). cache_capacity cache - offset)")
    (auto simp: cache_capacity_def release_entry_def Let_def)

declare evict_loop.simps [simp del]

text \<open>The first empty slot from \<open>next_entry\<close> on, around the table.\<close>

definition free_slot :: "sent_cache \<Rightarrow> nat option" where
  "free_slot cache = map_option (\<lambda>offset. (sc_next_entry cache + offset) mod cache_capacity cache)
     (first_index (\<lambda>offset.
        se_data (sc_entries cache ! ((sc_next_entry cache + offset) mod cache_capacity cache)) = None)
       [0..<cache_capacity cache])"

definition restore_entry ::
  "sent_entry \<Rightarrow> moq_object \<Rightarrow> u16 \<Rightarrow> u16 \<Rightarrow> u16 \<Rightarrow> bool \<Rightarrow> sent_entry" where
  "restore_entry e object total_symbols data_symbols symbol_size allow_evict =
     (let total = (if total_symbols > se_total_symbols e then total_symbols else se_total_symbols e) in
      e\<lparr>se_total_symbols := total,
        se_next_repair_symbol := (if se_next_repair_symbol e < total then total
          else se_next_repair_symbol e),
        se_data_symbols := data_symbols, se_symbol_size := symbol_size,
        se_priority := ob_priority object, se_is_keyframe := ob_is_keyframe object,
        se_recovery_protected := (se_recovery_protected e \<or> \<not> allow_evict)\<rparr>)"

definition new_entry ::
  "moq_object \<Rightarrow> payload \<Rightarrow> u16 \<Rightarrow> u16 \<Rightarrow> u16 \<Rightarrow> bool \<Rightarrow> sent_entry" where
  "new_entry object copy total_symbols data_symbols symbol_size allow_evict =
     \<lparr>se_track_id = ob_track_id object, se_group_id = ob_group_id object,
      se_object_id = ob_object_id object, se_data = Some copy, se_priority = ob_priority object,
      se_is_keyframe = ob_is_keyframe object, se_total_symbols = total_symbols,
      se_data_symbols = data_symbols, se_symbol_size = symbol_size,
      se_next_repair_symbol = total_symbols, se_next_systematic_repair_symbol = 0,
      se_recovery_protected = (\<not> allow_evict)\<rparr>"

definition insert_entry :: "sent_cache \<Rightarrow> nat \<Rightarrow> sent_entry \<Rightarrow> sent_cache" where
  "insert_entry cache index entry =
     (let payload_bytes = sc_payload_bytes cache + data_size (se_data entry);
          count = sc_count cache + 1 in
      cache\<lparr>sc_entries := (sc_entries cache)[index := entry],
            sc_next_entry := (index + 1) mod cache_capacity cache,
            sc_payload_bytes := payload_bytes, sc_count := count,
            sc_peak_payload_bytes := max (sc_peak_payload_bytes cache) payload_bytes,
            sc_peak_count := max (sc_peak_count cache) count\<rparr>)"

definition transport_sent_cache_store ::
  "bool \<Rightarrow> nat option \<Rightarrow> sent_cache \<Rightarrow> moq_object \<Rightarrow> u16 \<Rightarrow> u16 \<Rightarrow> u16 \<Rightarrow> bool \<Rightarrow>
   bool \<times> sent_cache" where
  "transport_sent_cache_store calloc_ok malloc cache0 object total_symbols data_symbols
     symbol_size allow_evict =
     (case ob_data object of
        None \<Rightarrow> (False, cache0)
      | Some source \<Rightarrow>
        if length (pl_bytes source) = 0 then (False, cache0)
        else case transport_sent_cache_init calloc_ok cache0 (sc_max_payload_bytes cache0)
                    MAX_FEC_OBJECT_SIZE of
          (False, cache) \<Rightarrow> (False, cache)
        | (True, cache) \<Rightarrow>
          (case transport_sent_cache_find cache (ob_track_id object) (ob_group_id object)
                  (ob_object_id object) of
             Some i \<Rightarrow>
               (case se_data (sc_entries cache ! i) of
                  Some retained \<Rightarrow>
                    if length (pl_bytes retained) \<noteq> length (pl_bytes source) \<or>
                       pl_bytes retained \<noteq> pl_bytes source then (False, cache)
                    else (True, cache\<lparr>sc_entries := (sc_entries cache)
                       [i := restore_entry (sc_entries cache ! i) object total_symbols data_symbols
                          symbol_size allow_evict]\<rparr>)
                | None \<Rightarrow> (False, cache))
           | None \<Rightarrow>
             if \<not> transport_sent_cache_can_store cache object allow_evict then (False, cache)
             else case evict_loop cache source allow_evict 0 of
               (False, cache') \<Rightarrow> (False, cache')
             | (True, cache') \<Rightarrow>
               (case free_slot cache' of
                  None \<Rightarrow> (False, cache')
                | Some index \<Rightarrow>
                  (case malloc of
                     None \<Rightarrow> (False, cache')
                   | Some address \<Rightarrow> (True, insert_entry cache' index
                       (new_entry object \<lparr>pl_address = address, pl_bytes = pl_bytes source\<rparr>
                          total_symbols data_symbols symbol_size allow_evict))))))"

text \<open>The loops that release entries, from index \<open>i\<close> on.\<close>

function release_loop :: "(sent_entry \<Rightarrow> bool) \<Rightarrow> sent_cache \<Rightarrow> nat \<Rightarrow> nat \<Rightarrow> nat \<times> sent_cache" where
  "release_loop P cache i released =
     (if i \<ge> length (sc_entries cache) then (released, cache)
      else if P (sc_entries cache ! i) then release_loop P (release_entry cache i) (i + 1) (released + 1)
      else release_loop P cache (i + 1) released)"
  by pat_completeness auto
termination
  by (relation "measure (\<lambda>(P, cache, i, released). length (sc_entries cache) - i)")
    (auto simp: release_entry_def Let_def)

declare release_loop.simps [simp del]

definition transport_sent_cache_release_through ::
  "sent_cache \<Rightarrow> moq_track_id \<Rightarrow> u64 \<Rightarrow> u64 \<Rightarrow> nat \<times> sent_cache" where
  "transport_sent_cache_release_through cache track group_id object_id =
     release_loop (\<lambda>e. se_data e \<noteq> None \<and> sent_track_equal (se_track_id e) track \<and>
       se_group_id e = group_id \<and> se_object_id e \<le> object_id) cache 0 0"

definition transport_sent_cache_release_track :: "sent_cache \<Rightarrow> moq_track_id \<Rightarrow> nat \<times> sent_cache" where
  "transport_sent_cache_release_track cache track =
     release_loop (\<lambda>e. se_data e \<noteq> None \<and> sent_track_equal (se_track_id e) track) cache 0 0"

definition transport_sent_cache_destroy :: "sent_cache \<Rightarrow> sent_cache" where
  "transport_sent_cache_destroy cache = zero_cache"

section \<open>The cache of FEC codecs\<close>

text \<open>A codec (\<open>fec_t *\<close>) is an opaque handle; \<open>created\<close> is the result of \<open>fec_create_ex\<close>.\<close>

datatype fec_type = FEC_REED_SOLOMON | FEC_RAPTORQ

record fec_cache_entry =
  fe_type :: fec_type
  fe_data_symbols :: nat
  fe_parity_symbols :: nat
  fe_symbol_size :: nat
  fe_fec :: "nat option"
  fe_last_used_ns :: u64

abbreviation (input) "FEC_CACHE_SIZE \<equiv> (8 :: nat)"

definition zero_fec_entry :: fec_cache_entry where
  "zero_fec_entry = \<lparr>fe_type = FEC_REED_SOLOMON, fe_data_symbols = 0, fe_parity_symbols = 0,
     fe_symbol_size = 0, fe_fec = None, fe_last_used_ns = 0\<rparr>"

text \<open>The index of the least recently used entry, as the loop finds it.\<close>

definition fec_lru :: "fec_cache_entry list \<Rightarrow> nat" where
  "fec_lru es = fst (foldl (\<lambda>(lru_index, oldest) i.
     if fe_last_used_ns (es ! i) < oldest then (i, fe_last_used_ns (es ! i)) else (lru_index, oldest))
     (0, -1) [0..<length es])"

definition transport_fec_cache_get ::
  "u64 \<Rightarrow> nat option \<Rightarrow> fec_cache_entry list \<Rightarrow> fec_type \<Rightarrow> nat \<Rightarrow> nat \<Rightarrow> nat \<Rightarrow>
   nat option \<times> fec_cache_entry list" where
  "transport_fec_cache_get now created entries t data_symbols parity_symbols symbol_size =
     (if data_symbols = 0 \<or> symbol_size = 0 then (None, entries)
      else case first_index (\<lambda>e. fe_fec e \<noteq> None \<and> fe_type e = t \<and>
          fe_data_symbols e = data_symbols \<and> fe_parity_symbols e = parity_symbols \<and>
          fe_symbol_size e = symbol_size) entries of
        Some i \<Rightarrow> (fe_fec (entries ! i), entries[i := (entries ! i)\<lparr>fe_last_used_ns := now\<rparr>])
      | None \<Rightarrow>
          (case created of
             None \<Rightarrow> (None, entries)
           | Some replacement \<Rightarrow> (Some replacement, entries
               [fec_lru entries := \<lparr>fe_type = t, fe_data_symbols = data_symbols,
                  fe_parity_symbols = parity_symbols, fe_symbol_size = symbol_size,
                  fe_fec = Some replacement, fe_last_used_ns = now\<rparr>])))"

definition transport_fec_cache_destroy :: "fec_cache_entry list \<Rightarrow> fec_cache_entry list" where
  "transport_fec_cache_destroy entries = replicate FEC_CACHE_SIZE zero_fec_entry"

section \<open>The accounting invariant\<close>

definition entry_bytes :: "sent_entry \<Rightarrow> nat" where
  "entry_bytes e = data_size (se_data e)"

definition entry_used :: "sent_entry \<Rightarrow> nat" where
  "entry_used e = (if se_data e \<noteq> None then 1 else 0)"

definition same_object :: "sent_entry \<Rightarrow> sent_entry \<Rightarrow> bool" where
  "same_object e f \<longleftrightarrow> entry_is (se_track_id f) (se_group_id f) (se_object_id f) e \<and> se_data f \<noteq> None"

text \<open>
  The two counters are the number and the bytes of the retained payloads, within the limits;
  every retained payload is non-empty and its identity occurs once.
\<close>

definition cache_inv :: "sent_cache \<Rightarrow> bool" where
  "cache_inv c \<longleftrightarrow>
     sc_payload_bytes c = sum_list (map entry_bytes (sc_entries c)) \<and>
     sc_count c = sum_list (map entry_used (sc_entries c)) \<and>
     sc_payload_bytes c \<le> transport_sent_cache_byte_limit c \<and>
     transport_sent_cache_byte_limit c \<le> SIZE_MAX \<and>
     length (sc_entries c) \<le> SENT_CACHE_MAX_SIZE \<and>
     (\<forall>e \<in> set (sc_entries c). se_data e \<noteq> None \<longrightarrow> 0 < entry_bytes e) \<and>
     (\<forall>i < length (sc_entries c). \<forall>j < length (sc_entries c).
        same_object (sc_entries c ! i) (sc_entries c ! j) \<longrightarrow> i = j)"

lemma zero_entry_simps [simp]:
  "se_data zero_entry = None" "entry_bytes zero_entry = 0" "entry_used zero_entry = 0"
  by (simp_all add: zero_entry_def entry_bytes_def data_size_def entry_used_def)

lemma sent_track_equal_refl [simp]: "sent_track_equal a a"
  by (simp add: sent_track_equal_def strcmp_eq_def)

lemma sent_track_equal_sym: "sent_track_equal a b = sent_track_equal b a"
  by (auto simp: sent_track_equal_def strcmp_eq_def)

lemma sent_track_equal_trans: "sent_track_equal a b \<Longrightarrow> sent_track_equal b c \<Longrightarrow> sent_track_equal a c"
  by (simp add: sent_track_equal_def strcmp_eq_def)

lemma same_object_sym: "same_object e f = same_object f e"
  unfolding same_object_def entry_is_def using sent_track_equal_sym by auto

lemma sum_list_ge_nth: "i < length xs \<Longrightarrow> f (xs ! i) \<le> (sum_list (map f xs) :: nat)"
  using member_le_sum_list [of "f (xs ! i)" "map f xs"] by simp

lemma sum_list_update_nat:
  "i < length xs \<Longrightarrow> sum_list (map f (xs[i := x])) = sum_list (map f xs) + f x - (f (xs ! i) :: nat)"
  by (simp add: map_update sum_list_update)

lemma release_entry_simps:
  assumes "cache_inv c" "i < length (sc_entries c)"
  shows "sc_entries (release_entry c i) = (sc_entries c)[i := zero_entry]"
    "sc_payload_bytes (release_entry c i) = sc_payload_bytes c - entry_bytes (sc_entries c ! i)"
    "sc_count (release_entry c i) = sc_count c - entry_used (sc_entries c ! i)"
    "sc_max_payload_bytes (release_entry c i) = sc_max_payload_bytes c"
    "sc_next_entry (release_entry c i) = sc_next_entry c"
    "cache_capacity (release_entry c i) = cache_capacity c"
    "transport_sent_cache_byte_limit (release_entry c i) = transport_sent_cache_byte_limit c"
proof -
  let ?e = "sc_entries c ! i"
  have b: "entry_bytes ?e \<le> sc_payload_bytes c" and n: "entry_used ?e \<le> sc_count c"
    using assms sum_list_ge_nth [of i "sc_entries c" entry_bytes] sum_list_ge_nth [of i "sc_entries c" entry_used]
    by (simp_all add: cache_inv_def)
  show "sc_entries (release_entry c i) = (sc_entries c)[i := zero_entry]"
    "sc_max_payload_bytes (release_entry c i) = sc_max_payload_bytes c"
    "sc_next_entry (release_entry c i) = sc_next_entry c"
    "cache_capacity (release_entry c i) = cache_capacity c"
    "transport_sent_cache_byte_limit (release_entry c i) = transport_sent_cache_byte_limit c"
    by (simp_all add: release_entry_def Let_def cache_capacity_def transport_sent_cache_byte_limit_def)
  show "sc_payload_bytes (release_entry c i) = sc_payload_bytes c - entry_bytes ?e"
    using b by (cases "se_data ?e") (simp_all add: release_entry_def Let_def entry_bytes_def data_size_def no_wrap)
  show "sc_count (release_entry c i) = sc_count c - entry_used ?e"
    using n by (cases "se_data ?e") (simp_all add: release_entry_def Let_def entry_used_def no_wrap)
qed

lemma cache_inv_intro:
  assumes "sc_payload_bytes c = sum_list (map entry_bytes (sc_entries c))"
    "sc_count c = sum_list (map entry_used (sc_entries c))"
    "sc_payload_bytes c \<le> transport_sent_cache_byte_limit c"
    "transport_sent_cache_byte_limit c \<le> SIZE_MAX" "length (sc_entries c) \<le> SENT_CACHE_MAX_SIZE"
    "\<And>i. i < length (sc_entries c) \<Longrightarrow> se_data (sc_entries c ! i) \<noteq> None \<Longrightarrow> 0 < entry_bytes (sc_entries c ! i)"
    "\<And>i j. i < length (sc_entries c) \<Longrightarrow> j < length (sc_entries c) \<Longrightarrow>
       same_object (sc_entries c ! i) (sc_entries c ! j) \<Longrightarrow> i = j"
  shows "cache_inv c"
  unfolding cache_inv_def using assms by (auto simp: in_set_conv_nth)

lemma cache_inv_dest:
  assumes "cache_inv c"
  shows "sc_payload_bytes c = sum_list (map entry_bytes (sc_entries c))"
    "sc_count c = sum_list (map entry_used (sc_entries c))"
    "sc_payload_bytes c \<le> transport_sent_cache_byte_limit c"
    "transport_sent_cache_byte_limit c \<le> SIZE_MAX" "length (sc_entries c) \<le> SENT_CACHE_MAX_SIZE"
    "\<And>i. i < length (sc_entries c) \<Longrightarrow> se_data (sc_entries c ! i) \<noteq> None \<Longrightarrow> 0 < entry_bytes (sc_entries c ! i)"
    "\<And>i j. i < length (sc_entries c) \<Longrightarrow> j < length (sc_entries c) \<Longrightarrow>
       same_object (sc_entries c ! i) (sc_entries c ! j) \<Longrightarrow> i = j"
  using assms unfolding cache_inv_def by simp_all

lemma release_entry_inv:
  assumes inv: "cache_inv c" and i: "i < length (sc_entries c)"
  shows "cache_inv (release_entry c i)"
proof (rule cache_inv_intro)
  note s = release_entry_simps [OF inv i] and d = cache_inv_dest [OF inv]
  let ?es = "sc_entries c"
  show "sc_payload_bytes (release_entry c i) = sum_list (map entry_bytes (sc_entries (release_entry c i)))"
    "sc_count (release_entry c i) = sum_list (map entry_used (sc_entries (release_entry c i)))"
    unfolding s using i by (simp_all add: sum_list_update_nat d(1,2))
  show "sc_payload_bytes (release_entry c i) \<le> transport_sent_cache_byte_limit (release_entry c i)"
    "transport_sent_cache_byte_limit (release_entry c i) \<le> SIZE_MAX"
    "length (sc_entries (release_entry c i)) \<le> SENT_CACHE_MAX_SIZE"
    unfolding s using d(3,4,5) by simp_all
  show "0 < entry_bytes (sc_entries (release_entry c i) ! j)"
    if "j < length (sc_entries (release_entry c i))" "se_data (sc_entries (release_entry c i) ! j) \<noteq> None" for j
    using that d(6) [of j] i unfolding s by (cases "j = i") simp_all
  show "j = k" if "j < length (sc_entries (release_entry c i))" "k < length (sc_entries (release_entry c i))"
    "same_object (sc_entries (release_entry c i) ! j) (sc_entries (release_entry c i) ! k)" for j k
    using that d(7) [of j k] i unfolding s
    by (cases "j = i"; cases "k = i") (simp_all add: same_object_def entry_is_def)
qed

section \<open>Making room\<close>

lemma ring_reaches:
  assumes "j < (n :: nat)"
  shows "\<exists>k < n. (h + k) mod n = j"
proof -
  let ?k = "(j + (n - h mod n)) mod n"
  have h: "h mod n < n" using assms by simp
  have "(h + ?k) mod n = (h + (j + (n - h mod n))) mod n" by (rule mod_add_right_eq)
  also have "\<dots> = (h mod n + (j + (n - h mod n))) mod n" by (rule mod_add_left_eq [symmetric])
  also have "h mod n + (j + (n - h mod n)) = j + n" using h by linarith
  finally show ?thesis using assms by (intro exI [of _ ?k]) simp
qed

definition kept_bytes :: "payload \<Rightarrow> sent_entry list \<Rightarrow> nat" where
  "kept_bytes s es = sum_list (map (\<lambda>e. if evictable s e then 0 else entry_bytes e) es)"

definition kept_used :: "payload \<Rightarrow> sent_entry list \<Rightarrow> nat" where
  "kept_used s es = sum_list (map (\<lambda>e. if evictable s e then 0 else entry_used e) es)"

definition freed_bytes :: "payload \<Rightarrow> sent_entry list \<Rightarrow> nat" where
  "freed_bytes s es = sum_list (map (\<lambda>e. if evictable s e then entry_bytes e else 0) es)"

lemma not_evictable_zero [simp]: "\<not> evictable s zero_entry"
  by (simp add: evictable_def)

lemma evictable_data: "evictable s e \<Longrightarrow> se_data e \<noteq> None"
  by (auto simp: evictable_def split: option.splits)

lemma kept_freed: "kept_bytes s es + freed_bytes s es = sum_list (map entry_bytes es)"
  by (induction es) (auto simp: kept_bytes_def freed_bytes_def)

lemma kept_release:
  assumes "i < length es" "evictable s (es ! i)"
  shows "kept_bytes s (es[i := zero_entry]) = kept_bytes s es \<and> kept_used s (es[i := zero_entry]) = kept_used s es"
proof -
  have "map (\<lambda>e. if evictable s e then 0 else entry_bytes e) (es[i := zero_entry]) =
      map (\<lambda>e. if evictable s e then 0 else entry_bytes e) es"
    "map (\<lambda>e. if evictable s e then 0 else entry_used e) (es[i := zero_entry]) =
      map (\<lambda>e. if evictable s e then 0 else entry_used e) es"
    using assms by (auto intro!: nth_equalityI simp: nth_list_update)
  then show ?thesis by (simp only: kept_bytes_def kept_used_def)
qed

lemma kept_all:
  assumes "\<And>j. j < length es \<Longrightarrow> \<not> evictable s (es ! j)"
  shows "kept_bytes s es = sum_list (map entry_bytes es) \<and> kept_used s es = sum_list (map entry_used es)"
proof -
  have "\<forall>e\<in>set es. \<not> evictable s e" using assms by (auto simp: in_set_conv_nth)
  then show ?thesis unfolding kept_bytes_def kept_used_def by (simp cong: map_cong)
qed

lemma kept_used_less:
  assumes "e \<in> set es" "se_data e = None \<or> evictable s e"
  shows "kept_used s es < length es"
proof -
  have le: "kept_used s xs \<le> length xs" for xs
    by (induction xs) (auto simp: kept_used_def entry_used_def)
  show ?thesis using assms
  proof (induction es)
    case (Cons x es)
    then show ?case using le [of es] by (cases "x = e") (auto simp: kept_used_def entry_used_def)
  qed simp
qed

lemma entry_used_less:
  "sum_list (map entry_used es) < length es \<longleftrightarrow> (\<exists>e\<in>set es. se_data e = None)"
proof -
  have le: "sum_list (map entry_used xs) \<le> length xs" for xs
    by (induction xs) (auto simp: entry_used_def)
  show ?thesis
  proof (induction es)
    case (Cons x es)
    have u: "entry_used x = (if se_data x = None then 0 else 1)" by (simp add: entry_used_def)
    show ?case
    proof (cases "se_data x = None")
      case True
      then show ?thesis using le [of es] u by simp
    next
      case False
      then show ?thesis using Cons u by auto
    qed
  qed simp
qed

text \<open>What a run of the eviction loop leaves behind.\<close>

definition evicted_from :: "payload \<Rightarrow> sent_cache \<Rightarrow> sent_cache \<Rightarrow> bool" where
  "evicted_from s c c' \<longleftrightarrow> cache_inv c' \<and> length (sc_entries c') = length (sc_entries c) \<and>
     sc_next_entry c' = sc_next_entry c \<and> sc_max_payload_bytes c' = sc_max_payload_bytes c \<and>
     kept_bytes s (sc_entries c') = kept_bytes s (sc_entries c) \<and>
     kept_used s (sc_entries c') = kept_used s (sc_entries c) \<and>
     (\<forall>j < length (sc_entries c). sc_entries c' ! j = sc_entries c ! j \<or>
        evictable s (sc_entries c ! j) \<and> sc_entries c' ! j = zero_entry)"

lemma evicted_refl: "cache_inv c \<Longrightarrow> evicted_from s c c"
  by (simp add: evicted_from_def)

lemma evicted_release:
  assumes inv: "cache_inv c" and i: "i < length (sc_entries c)" "evictable s (sc_entries c ! i)"
  shows "evicted_from s c (release_entry c i)"
  using release_entry_inv [OF inv i(1)] kept_release [OF i] i
  by (auto simp: evicted_from_def release_entry_simps [OF inv i(1)] nth_list_update)

lemma evicted_trans: "evicted_from s c c1 \<Longrightarrow> evicted_from s c1 c2 \<Longrightarrow> evicted_from s c c2"
proof -
  assume a: "evicted_from s c c1" "evicted_from s c1 c2"
  have "sc_entries c2 ! j = sc_entries c ! j \<or> evictable s (sc_entries c ! j) \<and> sc_entries c2 ! j = zero_entry"
    if "j < length (sc_entries c)" for j
    using a that unfolding evicted_from_def by (metis not_evictable_zero)
  with a show ?thesis unfolding evicted_from_def by simp
qed

lemma evicted_limits:
  assumes "evicted_from s c c'"
  shows "cache_capacity c' = cache_capacity c"
    "transport_sent_cache_byte_limit c' = transport_sent_cache_byte_limit c"
proof -
  have "sc_entries c' = [] \<longleftrightarrow> sc_entries c = []"
    using assms by (metis evicted_from_def length_0_conv)
  then show "cache_capacity c' = cache_capacity c"
    "transport_sent_cache_byte_limit c' = transport_sent_cache_byte_limit c"
    using assms by (simp_all add: evicted_from_def cache_capacity_def transport_sent_cache_byte_limit_def)
qed

abbreviation (input) "too_full c s \<equiv> length (pl_bytes s) >
    sz_sub (transport_sent_cache_byte_limit c) (sc_payload_bytes c) \<or> sc_count c = cache_capacity c"

abbreviation (input) "evict_index c k \<equiv> (sc_next_entry c + k) mod cache_capacity c"

lemma evict_loop_result:
  assumes "cache_inv c" "sc_entries c \<noteq> []" "evict_loop c s allow off = (ok, c')"
  shows "evicted_from s c c' \<and> (ok \<longrightarrow> \<not> too_full c' s) \<and> (\<not> allow \<longrightarrow> c' = c \<and> ok = (\<not> too_full c s)) \<and>
    (\<not> ok \<and> allow \<and> (\<forall>k < off. \<not> evictable s (sc_entries c ! evict_index c k)) \<longrightarrow>
       too_full c' s \<and> (\<forall>k < cache_capacity c'. \<not> evictable s (sc_entries c' ! evict_index c' k)))"
  using assms
proof (induction c s allow off arbitrary: ok c' rule: evict_loop.induct)
  case (1 c s allow off)
  show ?case
  proof (cases "too_full c s")
    case False
    then have "ok \<and> c' = c" using "1.prems"(3) by (subst (asm) evict_loop.simps) auto
    then show ?thesis using False evicted_refl [OF "1.prems"(1)] by auto
  next
    case full: True
    show ?thesis
    proof (cases "\<not> allow \<or> off \<ge> cache_capacity c")
      case True
      then have r: "ok = False \<and> c' = c" using full "1.prems"(3) by (subst (asm) evict_loop.simps) auto
      then show ?thesis using True full evicted_refl [OF "1.prems"(1)] by auto
    next
      case False
      let ?i = "evict_index c off"
      have cap: "cache_capacity c = length (sc_entries c)" using "1.prems"(2) by (simp add: cache_capacity_def)
      have i: "?i < length (sc_entries c)" using "1.prems"(2) by (simp add: cap)
      define c1 where "c1 = (if evictable s (sc_entries c ! ?i) then release_entry c ?i else c)"
      have e1: "evicted_from s c c1"
        unfolding c1_def using evicted_release [OF "1.prems"(1) i] evicted_refl [OF "1.prems"(1)] by simp
      have gone: "\<not> evictable s (sc_entries c1 ! ?i)"
        unfolding c1_def using release_entry_simps(1) [OF "1.prems"(1) i] i by auto
      have loop: "evict_loop c1 s allow (off + 1) = (ok, c')"
        using full False "1.prems"(3) unfolding c1_def by (subst (asm) evict_loop.simps) (auto simp: Let_def)
      have inv1: "cache_inv c1" "sc_entries c1 \<noteq> []"
        using e1 "1.prems"(2) unfolding evicted_from_def by auto
      have ih: "evicted_from s c1 c' \<and> (ok \<longrightarrow> \<not> too_full c' s) \<and>
         (\<not> allow \<longrightarrow> c' = c1 \<and> ok = (\<not> too_full c1 s)) \<and>
         (\<not> ok \<and> allow \<and> (\<forall>k < off + 1. \<not> evictable s (sc_entries c1 ! evict_index c1 k)) \<longrightarrow>
           too_full c' s \<and> (\<forall>k < cache_capacity c'. \<not> evictable s (sc_entries c' ! evict_index c' k)))"
        using "1.IH" [OF full _ refl, of ok c'] False inv1 loop unfolding c1_def by simp
      have idx: "evict_index c1 k = evict_index c k" for k
        using e1 evicted_limits [OF e1] by (simp add: evicted_from_def)
      have keep: "\<not> evictable s (sc_entries c1 ! evict_index c1 k)"
        if "\<forall>k < off. \<not> evictable s (sc_entries c ! evict_index c k)" "k < off + 1" for k
      proof (cases "k = off")
        case True
        then show ?thesis using gone unfolding idx by simp
      next
        case ne: False
        then have k: "\<not> evictable s (sc_entries c ! evict_index c k)" using that by simp
        have "evict_index c k < length (sc_entries c)" using "1.prems"(2) by (simp add: cap)
        then have "sc_entries c1 ! evict_index c k = sc_entries c ! evict_index c k \<or> sc_entries c1 ! evict_index c k = zero_entry"
          using e1 unfolding evicted_from_def by blast
        then show ?thesis unfolding idx using k by auto
      qed
      show ?thesis
        using ih evicted_trans [OF e1] keep False by blast
    qed
  qed
qed

section \<open>The admission test is what storing needs\<close>

lemma can_store_scan_iff:
  assumes "\<forall>e\<in>set es. \<not> entry_is (ob_track_id ob) (ob_group_id ob) (ob_object_id ob) e"
    and "n + freed_bytes s es \<le> SIZE_MAX"
  shows "can_store_scan ob s allow es n slot \<longleftrightarrow>
    (slot \<or> (\<exists>e\<in>set es. se_data e = None \<or> allow \<and> evictable s e)) \<and>
    length (pl_bytes s) \<le> n + (if allow then freed_bytes s es else 0)"
  using assms
proof (induction es arbitrary: n slot)
  case Nil
  then show ?case by (simp add: freed_bytes_def)
next
  case (Cons e es)
  have f: "freed_bytes s (e # es) = (if evictable s e then entry_bytes e else 0) + freed_bytes s es"
    by (simp add: freed_bytes_def)
  show ?case
  proof (cases "se_data e")
    case None
    then have "\<not> evictable s e" by (simp add: evictable_def)
    then show ?thesis using Cons None f by simp
  next
    case (Some d)
    have ne: "\<not> (sent_track_equal (se_track_id e) (ob_track_id ob) \<and> se_group_id e = ob_group_id ob \<and>
        se_object_id e = ob_object_id ob)"
      using Cons.prems(1) Some by (simp add: entry_is_def)
    have b: "entry_bytes e = length (pl_bytes d)" using Some by (simp add: entry_bytes_def data_size_def)
    show ?thesis
    proof (cases "allow \<and> evictable s e")
      case True
      then have "sz_add n (length (pl_bytes d)) = n + length (pl_bytes d)"
        using Cons.prems(2) f b by (intro sz_add_no_wrap) simp
      then have "can_store_scan ob s allow (e # es) n slot =
          can_store_scan ob s allow es (n + length (pl_bytes d)) True"
        using True Some ne by auto
      then show ?thesis using Cons True Some f b by (simp add: add.assoc)
    next
      case False
      then have "can_store_scan ob s allow (e # es) n slot = can_store_scan ob s allow es n slot"
        using Some ne by auto
      then show ?thesis using Cons False Some f by auto
    qed
  qed
qed

lemma evict_loop_completes:
  assumes inv: "cache_inv c" and ne: "sc_entries c \<noteq> []"
    and new: "transport_sent_cache_find c (ob_track_id ob) (ob_group_id ob) (ob_object_id ob) = None"
    and can: "transport_sent_cache_can_store c ob allow" and src: "ob_data ob = Some s"
  shows "fst (evict_loop c s allow 0)"
proof (rule ccontr)
  assume f: "\<not> fst (evict_loop c s allow 0)"
  then obtain c' where r: "evict_loop c s allow 0 = (False, c')"
    by (cases "evict_loop c s allow 0") auto
  note res = evict_loop_result [OF inv ne r]
  note d = cache_inv_dest [OF inv]
  let ?L = "transport_sent_cache_byte_limit c" and ?n = "length (pl_bytes s)"
  have cap: "cache_capacity c = length (sc_entries c)" using ne by (simp add: cache_capacity_def)
  have full: "too_full c s" using r by (subst (asm) evict_loop.simps) (auto split: if_splits)
  have av: "sz_sub ?L (sc_payload_bytes c) = ?L - sc_payload_bytes c" using d(3) by (rule sz_sub_no_wrap)
  have fresh: "\<forall>e\<in>set (sc_entries c). \<not> entry_is (ob_track_id ob) (ob_group_id ob) (ob_object_id ob) e"
    using new by (auto simp: transport_sent_cache_find_def first_index_None in_set_conv_nth)
  have "freed_bytes s (sc_entries c) \<le> sc_payload_bytes c"
    using kept_freed [of s "sc_entries c"] d(1) by simp
  then have fit: "?L - sc_payload_bytes c + freed_bytes s (sc_entries c) \<le> SIZE_MAX"
    using d(3,4) by linarith
  have scan: "(sc_count c < length (sc_entries c) \<and> ?n \<le> ?L - sc_payload_bytes c) \<or>
      can_store_scan ob s allow (sc_entries c) (?L - sc_payload_bytes c) False"
    using can src ne cap by (auto simp: transport_sent_cache_can_store_def Let_def split: if_splits)
  then have room: "\<exists>e\<in>set (sc_entries c). se_data e = None \<or> allow \<and> evictable s e"
    and bytes: "?n \<le> ?L - sc_payload_bytes c + (if allow then freed_bytes s (sc_entries c) else 0)"
    using can_store_scan_iff [OF fresh fit] entry_used_less [of "sc_entries c"] d(2) by auto
  show False
  proof (cases allow)
    case False
    then have "sc_count c < length (sc_entries c)" using room entry_used_less d(2) by auto
    then show False using False full bytes av cap by auto
  next
    case True
    then have full': "too_full c' s" and none: "\<forall>k < cache_capacity c'. \<not> evictable s (sc_entries c' ! evict_index c' k)"
      and ev: "evicted_from s c c'" using res by auto
    have inv': "cache_inv c'" and len: "length (sc_entries c') = length (sc_entries c)"
      using ev by (simp_all add: evicted_from_def)
    note d' = cache_inv_dest [OF inv'] and lim = evicted_limits [OF ev]
    have "\<not> evictable s (sc_entries c' ! j)" if "j < length (sc_entries c')" for j
      using none ring_reaches [of j "cache_capacity c'" "sc_next_entry c'"] that lim len cap by auto
    note k = kept_all [OF this]
    have payload: "sc_payload_bytes c' = kept_bytes s (sc_entries c)" and count: "sc_count c' = kept_used s (sc_entries c)"
      using k ev d'(1,2) by (simp_all add: evicted_from_def)
    have "sc_count c' < length (sc_entries c)"
      unfolding count using room kept_used_less by auto
    moreover have "?n \<le> ?L - sc_payload_bytes c'"
      using bytes True kept_freed [of s "sc_entries c"] d(1,3) unfolding payload by simp
    moreover have "sz_sub ?L (sc_payload_bytes c') = ?L - sc_payload_bytes c'"
      using d'(3) unfolding lim by (rule sz_sub_no_wrap)
    ultimately show False using full' unfolding lim cap by simp
  qed
qed

lemma free_slot_Some:
  assumes inv: "cache_inv c" and ne: "sc_entries c \<noteq> []" and count: "sc_count c \<noteq> cache_capacity c"
  shows "\<exists>i. free_slot c = Some i"
proof -
  have cap: "cache_capacity c = length (sc_entries c)" using ne by (simp add: cache_capacity_def)
  have le: "sum_list (map entry_used es) \<le> length es" for es
    by (induction es) (auto simp: entry_used_def)
  have "sum_list (map entry_used (sc_entries c)) < length (sc_entries c)"
    using cache_inv_dest(2) [OF inv] count cap le [of "sc_entries c"] by simp
  then obtain j where j: "j < length (sc_entries c)" "se_data (sc_entries c ! j) = None"
    unfolding entry_used_less by (auto simp: in_set_conv_nth)
  obtain k where "k < cache_capacity c" "evict_index c k = j"
    using ring_reaches [of j "cache_capacity c" "sc_next_entry c"] j cap by auto
  then have "first_index (\<lambda>off. se_data (sc_entries c ! evict_index c off) = None) [0..<cache_capacity c] \<noteq> None"
    using j by (auto simp: first_index_None)
  then show ?thesis by (auto simp: free_slot_def)
qed

lemma free_slot_empty:
  assumes "sc_entries c \<noteq> []" "free_slot c = Some i"
  shows "i < length (sc_entries c) \<and> se_data (sc_entries c ! i) = None"
  using assms by (auto simp: free_slot_def first_index_Some cache_capacity_def)

section \<open>Storing\<close>

lemma slots_for_bounds: "2048 \<le> slots_for b m \<and> slots_for b m \<le> 4096"
  by (simp add: slots_for_def Let_def)

lemma init_fresh:
  assumes "sc_entries c = []" "transport_sent_cache_init k c (sc_max_payload_bytes c) m = (True, c')"
  shows "\<exists>n. 0 < n \<and> n \<le> 4096 \<and> c' = c\<lparr>sc_entries := replicate n zero_entry,
    sc_max_payload_bytes := transport_sent_cache_byte_limit c\<rparr>"
proof -
  have "\<exists>b. c' = c\<lparr>sc_entries := replicate (slots_for (transport_sent_cache_byte_limit c) b) zero_entry,
    sc_max_payload_bytes := transport_sent_cache_byte_limit c\<rparr>"
    using assms
    by (auto simp: transport_sent_cache_init_def transport_sent_cache_byte_limit_def Let_def split: if_splits)
  then show ?thesis using slots_for_bounds by (metis le_zero_eq not_gr_zero zero_neq_numeral)
qed

lemma init_result:
  assumes inv: "cache_inv c" and r: "transport_sent_cache_init k c (sc_max_payload_bytes c) m = (ok, c')"
  shows "cache_inv c' \<and> transport_sent_cache_byte_limit c' = transport_sent_cache_byte_limit c \<and>
    (ok \<longrightarrow> sc_entries c' \<noteq> []) \<and> (sc_entries c \<noteq> [] \<longrightarrow> ok \<and> c' = c) \<and>
    (sc_entries c = [] \<longrightarrow> (\<exists>n. sc_entries c' = replicate n zero_entry))"
proof (cases "sc_entries c = [] \<and> ok")
  case True
  then obtain n where e: "sc_entries c' = replicate n zero_entry" "0 < n" "n \<le> 4096"
    and f: "sc_payload_bytes c' = sc_payload_bytes c" "sc_count c' = sc_count c"
    "sc_max_payload_bytes c' = transport_sent_cache_byte_limit c"
    using r init_fresh [of c k m c'] by auto
  have l: "transport_sent_cache_byte_limit c' = transport_sent_cache_byte_limit c"
    using f(3) by (auto simp: transport_sent_cache_byte_limit_def)
  have "cache_inv c'"
  proof (rule cache_inv_intro)
    note d = cache_inv_dest [OF inv]
    show "sc_payload_bytes c' = sum_list (map entry_bytes (sc_entries c'))"
      "sc_count c' = sum_list (map entry_used (sc_entries c'))"
      using d(1,2) True by (simp_all add: e f sum_list_replicate)
    show "sc_payload_bytes c' \<le> transport_sent_cache_byte_limit c'" "transport_sent_cache_byte_limit c' \<le> SIZE_MAX"
      "length (sc_entries c') \<le> 4096" using d(3,4) by (simp_all add: l f e)
  qed (auto simp: e same_object_def entry_is_def)
  then show ?thesis using l e True by auto
next
  case False
  then have "c' = c \<and> (ok \<longrightarrow> sc_entries c \<noteq> [])"
    using r by (auto simp: transport_sent_cache_init_def Let_def split: if_splits)
  moreover have "sc_entries c \<noteq> [] \<Longrightarrow> ok" using r by (auto simp: transport_sent_cache_init_def)
  ultimately show ?thesis using inv by (auto intro: exI [of _ 0])
qed

lemma entry_is_same: "entry_is t g i e \<Longrightarrow> entry_is t g i f \<Longrightarrow> same_object e f"
  by (auto simp: same_object_def entry_is_def sent_track_equal_def strcmp_eq_def)

lemma same_entry_is: "same_object e f \<Longrightarrow> entry_is t g i f \<Longrightarrow> entry_is t g i e"
  by (auto simp: same_object_def entry_is_def sent_track_equal_def strcmp_eq_def)

lemma find_iff:
  assumes "cache_inv c"
  shows "transport_sent_cache_find c t g i = Some j \<longleftrightarrow> j < length (sc_entries c) \<and> entry_is t g i (sc_entries c ! j)"
proof
  assume "transport_sent_cache_find c t g i = Some j"
  then show "j < length (sc_entries c) \<and> entry_is t g i (sc_entries c ! j)"
    by (simp add: transport_sent_cache_find_def first_index_Some)
next
  assume j: "j < length (sc_entries c) \<and> entry_is t g i (sc_entries c ! j)"
  show "transport_sent_cache_find c t g i = Some j"
    unfolding transport_sent_cache_find_def
    by (rule first_index_unique) (use j cache_inv_dest(7) [OF assms] entry_is_same in blast)+
qed

lemma find_None:
  "transport_sent_cache_find c t g i = None \<longleftrightarrow> (\<forall>j < length (sc_entries c). \<not> entry_is t g i (sc_entries c ! j))"
  by (simp add: transport_sent_cache_find_def first_index_None)

lemma insert_inv:
  assumes inv: "cache_inv c" and i: "i < length (sc_entries c)" "se_data (sc_entries c ! i) = None"
    and e: "se_data e \<noteq> None" "0 < entry_bytes e"
    and fit: "sc_payload_bytes c + entry_bytes e \<le> transport_sent_cache_byte_limit c"
    and new: "\<And>j. j < length (sc_entries c) \<Longrightarrow> \<not> same_object (sc_entries c ! j) e"
  shows "cache_inv (insert_entry c i e)"
proof (rule cache_inv_intro)
  note d = cache_inv_dest [OF inv]
  let ?c = "insert_entry c i e"
  have s: "sc_entries ?c = (sc_entries c)[i := e]" "sc_payload_bytes ?c = sc_payload_bytes c + entry_bytes e"
    "sc_count ?c = sc_count c + 1" "transport_sent_cache_byte_limit ?c = transport_sent_cache_byte_limit c"
    by (simp_all add: insert_entry_def Let_def entry_bytes_def transport_sent_cache_byte_limit_def)
  have z: "entry_bytes (sc_entries c ! i) = 0" "entry_used (sc_entries c ! i) = 0" "entry_used e = 1"
    using i e by (simp_all add: entry_bytes_def data_size_def entry_used_def)
  show "sc_payload_bytes ?c = sum_list (map entry_bytes (sc_entries ?c))"
    "sc_count ?c = sum_list (map entry_used (sc_entries ?c))"
    unfolding s using i z by (simp_all add: sum_list_update_nat d(1,2))
  show "sc_payload_bytes ?c \<le> transport_sent_cache_byte_limit ?c" "transport_sent_cache_byte_limit ?c \<le> SIZE_MAX"
    "length (sc_entries ?c) \<le> 4096" unfolding s using fit d(4,5) by simp_all
  show "0 < entry_bytes (sc_entries ?c ! j)" if "j < length (sc_entries ?c)" "se_data (sc_entries ?c ! j) \<noteq> None" for j
    using that d(6) [of j] e i unfolding s by (cases "j = i") simp_all
  show "j = k" if "j < length (sc_entries ?c)" "k < length (sc_entries ?c)"
    "same_object (sc_entries ?c ! j) (sc_entries ?c ! k)" for j k
    using that d(7) [of j k] new [of j] new [of k] i same_object_sym [of e "sc_entries c ! k"] unfolding s
    by (cases "j = i"; cases "k = i") simp_all
qed

lemma restore_inv:
  assumes inv: "cache_inv c" and i: "i < length (sc_entries c)"
  shows "cache_inv (c\<lparr>sc_entries := (sc_entries c)[i := restore_entry (sc_entries c ! i) ob a b q w]\<rparr>)"
proof (rule cache_inv_intro)
  note d = cache_inv_dest [OF inv]
  let ?e = "restore_entry (sc_entries c ! i) ob a b q w"
  let ?c = "c\<lparr>sc_entries := (sc_entries c)[i := ?e]\<rparr>"
  have e: "entry_bytes ?e = entry_bytes (sc_entries c ! i)" "entry_used ?e = entry_used (sc_entries c ! i)"
    "se_data ?e = se_data (sc_entries c ! i)"
    "same_object ?e f = same_object (sc_entries c ! i) f" "same_object f ?e = same_object f (sc_entries c ! i)" for f
    by (simp_all add: restore_entry_def Let_def entry_bytes_def entry_used_def same_object_def entry_is_def)
  have l: "transport_sent_cache_byte_limit ?c = transport_sent_cache_byte_limit c"
    by (simp add: transport_sent_cache_byte_limit_def)
  show "sc_payload_bytes ?c = sum_list (map entry_bytes (sc_entries ?c))"
    "sc_count ?c = sum_list (map entry_used (sc_entries ?c))"
    using i by (simp_all add: sum_list_update_nat d(1,2) e sum_list_ge_nth)
  show "sc_payload_bytes ?c \<le> transport_sent_cache_byte_limit ?c" "transport_sent_cache_byte_limit ?c \<le> SIZE_MAX"
    "length (sc_entries ?c) \<le> 4096" using d(3,4,5) unfolding l by simp_all
  show "0 < entry_bytes (sc_entries ?c ! j)" if "j < length (sc_entries ?c)" "se_data (sc_entries ?c ! j) \<noteq> None" for j
    using that d(6) [of j] i by (cases "j = i") (simp_all add: e)
  show "j = k" if "j < length (sc_entries ?c)" "k < length (sc_entries ?c)"
    "same_object (sc_entries ?c ! j) (sc_entries ?c ! k)" for j k
    using that d(7) [of j k] d(7) [of i k] d(7) [of j i] i by (cases "j = i"; cases "k = i") (simp_all add: e)
qed

definition object_is :: "moq_object \<Rightarrow> sent_entry \<Rightarrow> bool" where
  "object_is ob = entry_is (ob_track_id ob) (ob_group_id ob) (ob_object_id ob)"

definition survives :: "sent_cache \<Rightarrow> sent_cache \<Rightarrow> bool" where
  "survives c c' \<longleftrightarrow> (\<forall>e\<in>set (sc_entries c). se_data e \<noteq> None \<and> se_recovery_protected e \<longrightarrow>
     (\<exists>e'\<in>set (sc_entries c'). same_object e' e \<and> se_data e' = se_data e \<and> se_recovery_protected e' \<and>
        se_next_repair_symbol e \<le> se_next_repair_symbol e'))"

lemma same_object_refl: "se_data e \<noteq> None \<Longrightarrow> same_object e e"
  by (simp add: same_object_def entry_is_def)

lemma survives_pointwise:
  assumes "length (sc_entries c') = length (sc_entries c)"
    and "\<And>j. j < length (sc_entries c) \<Longrightarrow> se_data (sc_entries c ! j) \<noteq> None \<Longrightarrow>
      se_recovery_protected (sc_entries c ! j) \<Longrightarrow> same_object (sc_entries c' ! j) (sc_entries c ! j) \<and>
      se_data (sc_entries c' ! j) = se_data (sc_entries c ! j) \<and> se_recovery_protected (sc_entries c' ! j) \<and>
      se_next_repair_symbol (sc_entries c ! j) \<le> se_next_repair_symbol (sc_entries c' ! j)"
  shows "survives c c'"
  unfolding survives_def using assms by (metis in_set_conv_nth)

lemma survives_refl: "survives c c"
  by (rule survives_pointwise) (simp_all add: same_object_refl)

lemma survives_evicted: "evicted_from s c c' \<Longrightarrow> survives c c'"
  by (rule survives_pointwise)
    (auto simp: evicted_from_def evictable_def same_object_refl split: option.splits)

lemma restore_survives:
  "se_data e \<noteq> None \<Longrightarrow> same_object (restore_entry e ob a b q w) e \<and>
   se_data (restore_entry e ob a b q w) = se_data e \<and>
   (se_recovery_protected e \<longrightarrow> se_recovery_protected (restore_entry e ob a b q w)) \<and>
   se_next_repair_symbol e \<le> se_next_repair_symbol (restore_entry e ob a b q w)"
  by (auto simp: restore_entry_def Let_def same_object_def entry_is_def)

lemma insert_limit: "transport_sent_cache_byte_limit (insert_entry c i e) = transport_sent_cache_byte_limit c"
  by (simp add: insert_entry_def Let_def transport_sent_cache_byte_limit_def)

text \<open>Storing into an initialized table, as three outcomes.\<close>

lemma store_initialized:
  assumes inv: "cache_inv c" and ne: "sc_entries c \<noteq> []" and src: "ob_data ob = Some s"
    and pos: "0 < length (pl_bytes s)"
    and r: "transport_sent_cache_store k (Some m) c ob t d w allow = (ok, c')"
  shows "ok = (case transport_sent_cache_find c (ob_track_id ob) (ob_group_id ob) (ob_object_id ob) of
      Some i \<Rightarrow> map_option pl_bytes (se_data (sc_entries c ! i)) = Some (pl_bytes s)
    | None \<Rightarrow> transport_sent_cache_can_store c ob allow)"
    and "cache_inv c' \<and> transport_sent_cache_byte_limit c' = transport_sent_cache_byte_limit c \<and> survives c c'"
    and "ok \<Longrightarrow> \<exists>e\<in>set (sc_entries c'). object_is ob e \<and>
      map_option pl_bytes (se_data e) = Some (pl_bytes s) \<and> (\<not> allow \<longrightarrow> se_recovery_protected e)"
proof -
  have ini: "transport_sent_cache_init k c (sc_max_payload_bytes c) 1048576 = (True, c)"
    using ne by (simp add: transport_sent_cache_init_def)
  let ?find = "transport_sent_cache_find c (ob_track_id ob) (ob_group_id ob) (ob_object_id ob)"
  have "ok = (case ?find of
      Some i \<Rightarrow> map_option pl_bytes (se_data (sc_entries c ! i)) = Some (pl_bytes s)
    | None \<Rightarrow> transport_sent_cache_can_store c ob allow) \<and>
    (cache_inv c' \<and> transport_sent_cache_byte_limit c' = transport_sent_cache_byte_limit c \<and> survives c c') \<and>
    (ok \<longrightarrow> (\<exists>e\<in>set (sc_entries c'). object_is ob e \<and>
      map_option pl_bytes (se_data e) = Some (pl_bytes s) \<and> (\<not> allow \<longrightarrow> se_recovery_protected e)))"
  proof (cases ?find)
    case (Some i)
    then have i: "i < length (sc_entries c)" "object_is ob (sc_entries c ! i)"
      using find_iff [OF inv] by (simp_all add: object_is_def)
    then obtain q where q: "se_data (sc_entries c ! i) = Some q" by (auto simp: object_is_def entry_is_def)
    show ?thesis
    proof (cases "pl_bytes q = pl_bytes s")
      case True
      let ?e = "restore_entry (sc_entries c ! i) ob t d w allow"
      have r': "ok" "c' = c\<lparr>sc_entries := (sc_entries c)[i := ?e]\<rparr>"
        using r src pos ini Some q True by (simp_all add: transport_sent_cache_store_def)
      have e: "se_data ?e = Some q" "object_is ob ?e" "\<not> allow \<longrightarrow> se_recovery_protected ?e"
        using q i(2) by (simp_all add: restore_entry_def Let_def object_is_def entry_is_def)
      have "survives c c'"
        unfolding r' by (rule survives_pointwise)
          (use i(1) in \<open>auto simp: nth_list_update same_object_refl restore_survives\<close>)
      moreover have "?e \<in> set (sc_entries c')" unfolding r' using i(1) by (simp add: set_update_memI)
      moreover have "transport_sent_cache_byte_limit c' = transport_sent_cache_byte_limit c"
        by (simp add: r' transport_sent_cache_byte_limit_def)
      ultimately show ?thesis using restore_inv [OF inv i(1)] r' Some q True e by auto
    next
      case False
      then have "ok = False" "c' = c" using r src pos ini Some q by (auto simp: transport_sent_cache_store_def)
      then show ?thesis using False Some q inv survives_refl by auto
    qed
  next
    case None
    show ?thesis
    proof (cases "transport_sent_cache_can_store c ob allow")
      case False
      then have "ok = False" "c' = c" using r src pos ini None by (auto simp: transport_sent_cache_store_def)
      then show ?thesis using False None inv survives_refl by auto
    next
      case True
      obtain c1 where l: "evict_loop c s allow 0 = (True, c1)"
        using evict_loop_completes [OF inv ne None True src] by (cases "evict_loop c s allow 0") auto
      have ev: "evicted_from s c c1" and room: "\<not> too_full c1 s"
        using evict_loop_result [OF inv ne l] by auto
      have inv1: "cache_inv c1" and ne1: "sc_entries c1 \<noteq> []" using ev ne by (auto simp: evicted_from_def)
      obtain i where i: "free_slot c1 = Some i" using free_slot_Some [OF inv1 ne1] room by auto
      note i' = free_slot_empty [OF ne1 i]
      let ?e = "new_entry ob \<lparr>pl_address = m, pl_bytes = pl_bytes s\<rparr> t d w allow"
      have r': "ok" "c' = insert_entry c1 i ?e"
        using r src pos ini None True l i by (simp_all add: transport_sent_cache_store_def)
      have e: "se_data ?e = Some \<lparr>pl_address = m, pl_bytes = pl_bytes s\<rparr>" "object_is ob ?e"
        "entry_bytes ?e = length (pl_bytes s)" "\<not> allow \<longrightarrow> se_recovery_protected ?e"
        by (simp_all add: new_entry_def object_is_def entry_is_def entry_bytes_def data_size_def)
      have es: "sc_entries c' = (sc_entries c1)[i := ?e]"
        by (simp add: r' insert_entry_def Let_def)
      have new: "\<not> same_object (sc_entries c1 ! j) ?e" if "j < length (sc_entries c1)" for j
      proof
        assume "same_object (sc_entries c1 ! j) ?e"
        then have "object_is ob (sc_entries c1 ! j)"
          using e(2) unfolding object_is_def by (rule same_entry_is)
        moreover have "sc_entries c1 ! j = sc_entries c ! j \<or> sc_entries c1 ! j = zero_entry"
          "j < length (sc_entries c)"
          using ev that unfolding evicted_from_def by auto
        ultimately show False
          using None unfolding find_None object_is_def by (auto simp: entry_is_def)
      qed
      have "length (pl_bytes s) \<le> transport_sent_cache_byte_limit c1 - sc_payload_bytes c1"
        using room cache_inv_dest(3) [OF inv1] by (simp add: no_wrap)
      then have "cache_inv c'"
        unfolding r' using i' e pos new cache_inv_dest(3) [OF inv1] by (intro insert_inv [OF inv1]) auto
      moreover have "survives c c'"
      proof (rule survives_pointwise)
        show "length (sc_entries c') = length (sc_entries c)" using ev by (simp add: es evicted_from_def)
        fix j assume j: "j < length (sc_entries c)" "se_data (sc_entries c ! j) \<noteq> None"
          "se_recovery_protected (sc_entries c ! j)"
        then have "sc_entries c1 ! j = sc_entries c ! j"
          using ev unfolding evicted_from_def evictable_def by (auto split: option.splits)
        moreover from this have "j \<noteq> i" using i' j by auto
        ultimately show "same_object (sc_entries c' ! j) (sc_entries c ! j) \<and>
          se_data (sc_entries c' ! j) = se_data (sc_entries c ! j) \<and> se_recovery_protected (sc_entries c' ! j) \<and>
          se_next_repair_symbol (sc_entries c ! j) \<le> se_next_repair_symbol (sc_entries c' ! j)"
          using j by (simp add: es same_object_refl)
      qed
      moreover have "transport_sent_cache_byte_limit c' = transport_sent_cache_byte_limit c"
        using evicted_limits(2) [OF ev] by (simp only: r' insert_limit)
      moreover have "?e \<in> set (sc_entries c')" using i' by (simp add: es set_update_memI)
      ultimately show ?thesis using e r' None True by auto
    qed
  qed
  then show "ok = (case ?find of
      Some i \<Rightarrow> map_option pl_bytes (se_data (sc_entries c ! i)) = Some (pl_bytes s)
    | None \<Rightarrow> transport_sent_cache_can_store c ob allow)"
    and "cache_inv c' \<and> transport_sent_cache_byte_limit c' = transport_sent_cache_byte_limit c \<and> survives c c'"
    and "ok \<Longrightarrow> \<exists>e\<in>set (sc_entries c'). object_is ob e \<and>
      map_option pl_bytes (se_data e) = Some (pl_bytes s) \<and> (\<not> allow \<longrightarrow> se_recovery_protected e)"
    by blast+
qed

section \<open>Releasing\<close>

lemma release_loop_result:
  assumes "cache_inv c" "release_loop P c i n = (m, c')" "\<And>e. P e \<Longrightarrow> se_data e \<noteq> None"
  shows "cache_inv c' \<and> sc_entries c' = take i (sc_entries c) @ map (\<lambda>e. if P e then zero_entry else e) (drop i (sc_entries c)) \<and>
    m = n + length (filter P (drop i (sc_entries c))) \<and>
    transport_sent_cache_byte_limit c' = transport_sent_cache_byte_limit c"
  using assms
proof (induction P c i n arbitrary: m c' rule: release_loop.induct)
  case (1 P c i n)
  show ?case
  proof (cases "i < length (sc_entries c)")
    case False
    then show ?thesis using "1.prems" by (subst (asm) release_loop.simps) simp
  next
    case True
    let ?e = "sc_entries c ! i"
    have d: "drop i (sc_entries c) = ?e # drop (Suc i) (sc_entries c)"
      using True by (simp add: Cons_nth_drop_Suc)
    have t: "take (Suc i) (sc_entries c) = take i (sc_entries c) @ [?e]"
      using True by (simp add: take_Suc_conv_app_nth)
    show ?thesis
    proof (cases "P ?e")
      case no: False
      then have "release_loop P c (i + 1) n = (m, c')"
        using True "1.prems"(2) by (subst (asm) release_loop.simps) simp
      then show ?thesis
        using "1.IH"(2) [of m c'] True no "1.prems" d t by simp
    next
      case yes: True
      note s = release_entry_simps [OF "1.prems"(1) True]
      have "release_loop P (release_entry c i) (i + 1) (n + 1) = (m, c')"
        using True yes "1.prems"(2) by (subst (asm) release_loop.simps) simp
      moreover have "take (Suc i) ((sc_entries c)[i := zero_entry]) = take i (sc_entries c) @ [zero_entry]"
        using True by (simp add: take_Suc_conv_app_nth)
      ultimately show ?thesis
        using "1.IH"(1) [of m c'] True yes "1.prems" d release_entry_inv [OF "1.prems"(1) True] by (simp add: s)
    qed
  qed
qed

section \<open>The codec cache\<close>

lemma fec_lru_less: "es \<noteq> [] \<Longrightarrow> fec_lru es < length es"
proof -
  assume ne: "es \<noteq> []"
  have "fst (foldl (\<lambda>(lru_index, oldest) i.
     if fe_last_used_ns (es ! i) < oldest then (i, fe_last_used_ns (es ! i)) else (lru_index, oldest))
     (k, old) is) < length es" if "k < length es" "\<forall>i\<in>set is. i < length es" for k old "is"
    using that by (induction "is" arbitrary: k old) auto
  then show ?thesis using ne by (simp add: fec_lru_def)
qed

text \<open>Every cached codec was created for the parameters of its entry.\<close>

definition fec_cache_ok :: "(nat \<Rightarrow> fec_type \<times> nat \<times> nat \<times> nat) \<Rightarrow> fec_cache_entry list \<Rightarrow> bool" where
  "fec_cache_ok params es \<longleftrightarrow> length es = FEC_CACHE_SIZE \<and> (\<forall>e\<in>set es. \<forall>h. fe_fec e = Some h \<longrightarrow>
     params h = (fe_type e, fe_data_symbols e, fe_parity_symbols e, fe_symbol_size e))"

lemma fec_get_ok:
  assumes ok: "fec_cache_ok params es" and new: "\<And>h. created = Some h \<Longrightarrow> params h = (t, k, p, z)"
    and r: "transport_fec_cache_get now created es t k p z = (res, es')"
  shows "fec_cache_ok params es' \<and> (\<forall>h. res = Some h \<longrightarrow> params h = (t, k, p, z)) \<and>
    (\<forall>h. res = Some h \<longrightarrow> (\<exists>e\<in>set es'. fe_fec e = Some h \<and> fe_type e = t \<and> fe_data_symbols e = k \<and>
       fe_parity_symbols e = p \<and> fe_symbol_size e = z))"
proof (cases "k = 0 \<or> z = 0")
  case True
  then show ?thesis using ok r by (auto simp: transport_fec_cache_get_def)
next
  case False
  let ?hit = "first_index (\<lambda>e. fe_fec e \<noteq> None \<and> fe_type e = t \<and> fe_data_symbols e = k \<and>
          fe_parity_symbols e = p \<and> fe_symbol_size e = z) es"
  have set_up: "set (es[i := x]) \<subseteq> insert x (set es)" for i x by (rule set_update_subset_insert)
  show ?thesis
  proof (cases ?hit)
    case (Some i)
    then have i: "i < length es" "fe_type (es ! i) = t" "fe_data_symbols (es ! i) = k"
      "fe_parity_symbols (es ! i) = p" "fe_symbol_size (es ! i) = z" by (simp_all add: first_index_Some)
    have r': "res = fe_fec (es ! i)" "es' = es[i := (es ! i)\<lparr>fe_last_used_ns := now\<rparr>]"
      using r False Some by (auto simp: transport_fec_cache_get_def)
    have mem: "es ! i \<in> set es" "(es ! i)\<lparr>fe_last_used_ns := now\<rparr> \<in> set es'"
      using i(1) by (simp_all add: r' set_update_memI)
    have "fec_cache_ok params es'"
      using ok mem(1) set_up [of i "(es ! i)\<lparr>fe_last_used_ns := now\<rparr>"] unfolding fec_cache_ok_def r' by auto
    then show ?thesis
      using ok i mem r'(1) unfolding fec_cache_ok_def
      by (auto intro!: bexI [of _ "(es ! i)\<lparr>fe_last_used_ns := now\<rparr>"])
  next
    case None
    show ?thesis
    proof (cases created)
      case none: None
      then show ?thesis using ok r False None by (auto simp: transport_fec_cache_get_def)
    next
      case (Some h)
      let ?e = "\<lparr>fe_type = t, fe_data_symbols = k, fe_parity_symbols = p, fe_symbol_size = z,
         fe_fec = Some h, fe_last_used_ns = now\<rparr>"
      have r': "res = Some h" "es' = es[fec_lru es := ?e]"
        using r False None Some by (auto simp: transport_fec_cache_get_def)
      have "es \<noteq> []" using ok by (auto simp: fec_cache_ok_def)
      then have "?e \<in> set es'" using fec_lru_less by (simp add: r' set_update_memI)
      moreover have "fec_cache_ok params es'"
        using ok new [OF Some] set_up [of "fec_lru es" ?e] unfolding fec_cache_ok_def r' by auto
      ultimately show ?thesis using new [OF Some] r'(1) by (auto intro!: bexI [of _ ?e])
    qed
  qed
qed

section \<open>Properties\<close>

text \<open>
  C25. Storing a sent object is exact and keeps every recovery obligation. On an initialized
  cache it succeeds precisely when the object is already retained with the same bytes, or is
  new and the admission test accepts it (so the eviction loop always finds the room the test
  promised); the counters and both limits keep holding; a protected payload is never evicted
  or altered, not even by a failing call; and after success the object can be found with the
  published bytes, protected unless eviction was allowed.
\<close>

theorem sent_cache_store_correct:
  assumes "cache_inv c" "sc_entries c \<noteq> []" "ob_data ob = Some s" "0 < length (pl_bytes s)"
    and "transport_sent_cache_store k (Some m) c ob t d w allow = (ok, c')"
  shows "ok = (case transport_sent_cache_find c (ob_track_id ob) (ob_group_id ob) (ob_object_id ob) of
      Some i \<Rightarrow> map_option pl_bytes (se_data (sc_entries c ! i)) = Some (pl_bytes s)
    | None \<Rightarrow> transport_sent_cache_can_store c ob allow) \<and>
    cache_inv c' \<and> survives c c' \<and>
    (ok \<longrightarrow> (\<exists>e\<in>set (sc_entries c'). object_is ob e \<and>
      map_option pl_bytes (se_data e) = Some (pl_bytes s) \<and> (\<not> allow \<longrightarrow> se_recovery_protected e)))"
  using store_initialized [OF assms] by blast

definition sample_cache :: sent_cache where
  "sample_cache = zero_cache\<lparr>sc_entries := replicate 2 zero_entry, sc_max_payload_bytes := 10\<rparr>"

lemma sample_cache_inv: "cache_inv sample_cache"
  by (rule cache_inv_intro)
    (auto simp: sample_cache_def zero_cache_def transport_sent_cache_byte_limit_def SIZE_MAX_def same_object_def
      entry_is_def)

definition sample_object :: moq_object where
  "sample_object = \<lparr>ob_track_id = zero_track, ob_group_id = 1, ob_object_id = 7,
     ob_data = Some \<lparr>pl_address = 64, pl_bytes = [1, 2, 3]\<rparr>, ob_is_keyframe = False, ob_priority = 1\<rparr>"

theorem sent_cache_store_correct_witness:
  "fst (transport_sent_cache_store True (Some 128) sample_cache sample_object 4 3 1 False)"
proof -
  obtain ok c' where r: "transport_sent_cache_store True (Some 128) sample_cache sample_object 4 3 1 False = (ok, c')"
    by (cases "transport_sent_cache_store True (Some 128) sample_cache sample_object 4 3 1 False")
  have f: "transport_sent_cache_find sample_cache zero_track 1 7 = None"
    by (simp add: find_None sample_cache_def entry_is_def)
  have "transport_sent_cache_can_store sample_cache sample_object False"
    by (simp add: transport_sent_cache_can_store_def sample_cache_def sample_object_def zero_cache_def
        transport_sent_cache_byte_limit_def cache_capacity_def)
  then show ?thesis
    using sent_cache_store_correct [OF sample_cache_inv _ _ _ r, of "\<lparr>pl_address = 64, pl_bytes = [1, 2, 3]\<rparr>"] f r
    by (simp add: sample_object_def sample_cache_def)
qed

text \<open>
  An acknowledgement releases exactly the objects it covers: of the retained entries,
  those of the track and group up to the acknowledged object are cleared, all the others stay
  in place, the returned count is their number, and the byte and entry counters still agree
  with the table.
\<close>

theorem sent_cache_release_exact:
  assumes "cache_inv c" "transport_sent_cache_release_through c tr g i = (n, c')"
  shows "cache_inv c' \<and> n = length (filter (\<lambda>e. se_data e \<noteq> None \<and> sent_track_equal (se_track_id e) tr \<and>
      se_group_id e = g \<and> se_object_id e \<le> i) (sc_entries c)) \<and>
    sc_entries c' = map (\<lambda>e. if se_data e \<noteq> None \<and> sent_track_equal (se_track_id e) tr \<and>
      se_group_id e = g \<and> se_object_id e \<le> i then zero_entry else e) (sc_entries c)"
  using release_loop_result [OF assms(1) assms(2) [unfolded transport_sent_cache_release_through_def]] by simp

theorem sent_cache_release_exact_witness:
  "cache_inv (snd (transport_sent_cache_release_through sample_cache zero_track 1 7))"
  using sent_cache_release_exact [OF sample_cache_inv prod.collapse [symmetric]] by blast

text \<open>
  The codec cache never hands out a codec built for other parameters: with a constructor
  that builds what it is asked for, a returned codec has exactly the requested type and
  sizes, it is retained under them, and the cache keeps its eight entries consistent while it
  replaces the least recently used one.
\<close>

theorem fec_cache_get_matches:
  assumes "fec_cache_ok params es" "\<And>h. created = Some h \<Longrightarrow> params h = (t, k, p, z)"
    and "transport_fec_cache_get now created es t k p z = (res, es')"
  shows "fec_cache_ok params es' \<and> (\<forall>h. res = Some h \<longrightarrow> params h = (t, k, p, z) \<and>
     (\<exists>e\<in>set es'. fe_fec e = Some h \<and> fe_type e = t \<and> fe_data_symbols e = k \<and>
       fe_parity_symbols e = p \<and> fe_symbol_size e = z))"
  using fec_get_ok [OF assms] by blast

theorem fec_cache_get_matches_witness:
  "fst (transport_fec_cache_get 5 (Some 9) (replicate 8 zero_fec_entry) FEC_RAPTORQ 4 2 100) = Some 9 \<and>
   fec_cache_ok (\<lambda>_. (FEC_RAPTORQ, 4, 2, 100))
     (snd (transport_fec_cache_get 5 (Some 9) (replicate 8 zero_fec_entry) FEC_RAPTORQ 4 2 100))"
proof -
  let ?p = "\<lambda>_ :: nat. (FEC_RAPTORQ, 4, 2, 100) :: fec_type \<times> nat \<times> nat \<times> nat"
  have ok: "fec_cache_ok ?p (replicate 8 zero_fec_entry)"
    by (auto simp: fec_cache_ok_def zero_fec_entry_def)
  have n: "first_index (\<lambda>e. fe_fec e \<noteq> None \<and> fe_type e = FEC_RAPTORQ \<and> fe_data_symbols e = 4 \<and>
          fe_parity_symbols e = 2 \<and> fe_symbol_size e = 100) (replicate 8 zero_fec_entry) = None"
    by (simp add: first_index_None zero_fec_entry_def)
  show ?thesis
    using fec_cache_get_matches [OF ok _ prod.collapse [symmetric], of "Some 9" FEC_RAPTORQ 4 2 100 5] n
    by (simp add: transport_fec_cache_get_def)
qed

end
