(* ===== verification/Buckets.thy ===== *)
theory Buckets
  imports Qlinq_Prelude
begin

text \<open>
  The interface of the rate limits of the transport: a state with a debt that time pays off
  and that every granted request raises. The limiter of repair requests (milli-tokens per
  millisecond) and the pacing budget of a path (fixed point symbols per nanosecond) promise
  it; the lemma bounds what can be granted in any interval by the burst plus what the elapsed
  time pays for. \<open>drain\<close> is the debt that a duration pays off; rounding down makes it
  superadditive only.
\<close>

fun bucket_run :: "('s \<Rightarrow> nat \<Rightarrow> bool \<times> 's) \<Rightarrow> 's \<Rightarrow> nat list \<Rightarrow> nat \<times> 's" where
  "bucket_run req s [] = (0, s)"
| "bucket_run req s (now # ts) =
     (case req s now of (granted, s1) \<Rightarrow>
        (case bucket_run req s1 ts of (n, s') \<Rightarrow> ((if granted then 1 else 0) + n, s')))"

locale leaky_bucket =
  fixes ok :: "'s \<Rightarrow> bool"
    and debt :: "'s \<Rightarrow> nat"
    and clock :: "'s \<Rightarrow> nat"
    and cost :: nat
    and burst :: nat
    and drain :: "nat \<Rightarrow> nat"
    and request :: "'s \<Rightarrow> nat \<Rightarrow> bool \<times> 's"
  assumes drain_add: "drain a + drain b \<le> drain (a + b)"
    and debt_burst: "ok s \<Longrightarrow> debt s \<le> burst"
    and step: "ok s \<Longrightarrow> clock s \<le> now \<Longrightarrow> request s now = (granted, s') \<Longrightarrow>
      ok s' \<and> clock s' = now \<and> debt s + (if granted then cost else 0) \<le> debt s' + drain (now - clock s)"
begin

lemma run_bound:
  "ok s \<Longrightarrow> sorted (clock s # ts) \<Longrightarrow> bucket_run request s ts = (n, s') \<Longrightarrow>
   ok s' \<and> clock s \<le> clock s' \<and> debt s + n * cost \<le> debt s' + drain (clock s' - clock s)"
proof (induction ts arbitrary: s n s')
  case Nil
  then show ?case by simp
next
  case (Cons now ts)
  obtain g s1 where r: "request s now = (g, s1)" by (cases "request s now")
  obtain m s2 where q: "bucket_run request s1 ts = (m, s2)" by (cases "bucket_run request s1 ts")
  have n: "n = (if g then 1 else 0) + m" "s' = s2" using Cons.prems(3) r q by auto
  have c: "clock s \<le> now" using Cons.prems(2) by simp
  note s1 = step [OF Cons.prems(1) c r]
  have "sorted (clock s1 # ts)" using Cons.prems(2) s1 by simp
  from Cons.IH [OF _ this q] s1 have ih: "ok s2" "now \<le> clock s2"
    "debt s1 + m * cost \<le> debt s2 + drain (clock s2 - now)" by auto
  have "drain (now - clock s) + drain (clock s2 - now) \<le> drain (clock s2 - clock s)"
    using drain_add [of "now - clock s" "clock s2 - now"] c ih(2) by simp
  then have "debt s + ((if g then 1 else 0) + m) * cost \<le> debt s2 + drain (clock s2 - clock s)"
    using s1 ih(3) by (cases g) (simp_all add: algebra_simps)
  then show ?case using ih c by (simp add: n)
qed

lemma granted_bound:
  assumes "ok s" "sorted (clock s # ts)" "bucket_run request s ts = (n, s')"
  shows "n * cost \<le> burst + drain (clock s' - clock s)"
proof -
  from run_bound [OF assms] have "ok s'" "debt s + n * cost \<le> debt s' + drain (clock s' - clock s)" by auto
  then show ?thesis using debt_burst [of s'] by linarith
qed

end

end
