(* ===== verification/Repair.thy ===== *)
theory Repair
  imports SentCache Buckets
begin

text \<open>
  Repair of sent objects (\<open>transport_repair.c\<close>): the request limiter, the canonical form of a
  list of symbol indices, the batches of repair symbols and the counters that make rateless
  repair symbols fresh. The FEC codec itself is a library behind \<open>fec.c\<close>: \<open>create\<close> (the
  result of \<open>fec_create_ex\<close>) and \<open>encode\<close> (\<open>fec_encode\<close>, the parity blocks for the data
  blocks) are arguments of the model. A \<open>uint64_t\<close> counter of the limiter is a \<open>nat\<close> with the
  wrapping operations, an \<open>int64_t\<close> time an \<open>int\<close>.
\<close>

section \<open>The request limiter\<close>

record repair_limiter =
  rl_tokens_milli :: nat
  rl_last_refill_ms :: int

definition refill_limiter :: "repair_limiter \<Rightarrow> nat \<Rightarrow> int \<Rightarrow> bool \<times> repair_limiter" where
  "refill_limiter limiter requests_per_second now_ms =
     (if requests_per_second = 0 \<or> requests_per_second > SIZE_MAX div 1000 then (False, limiter)
      else let capacity = sz_mul requests_per_second 1000 in
        if rl_last_refill_ms limiter = 0 \<or> now_ms < rl_last_refill_ms limiter
        then (True, \<lparr>rl_tokens_milli = capacity, rl_last_refill_ms = now_ms\<rparr>)
        else if now_ms > rl_last_refill_ms limiter
        then let elapsed = nat (now_ms - rl_last_refill_ms limiter);
                 added = (if elapsed > SIZE_MAX div requests_per_second then capacity
                          else sz_mul elapsed requests_per_second) in
          (True, \<lparr>rl_tokens_milli =
                    (if added \<ge> sz_sub capacity (rl_tokens_milli limiter) then capacity
                     else sz_add (rl_tokens_milli limiter) added),
                  rl_last_refill_ms = now_ms\<rparr>)
        else (True, limiter))"

definition transport_repair_limiter_wait_ms ::
  "repair_limiter \<Rightarrow> nat \<Rightarrow> int \<Rightarrow> nat \<times> repair_limiter" where
  "transport_repair_limiter_wait_ms limiter requests_per_second now_ms =
     (case refill_limiter limiter requests_per_second now_ms of
        (False, l) \<Rightarrow> (SIZE_MAX, l)
      | (True, l) \<Rightarrow>
          if rl_tokens_milli l \<ge> 1000 then (0, l)
          else let missing = 1000 - rl_tokens_milli l in
            (sz_sub (sz_add missing requests_per_second) 1 div requests_per_second, l))"

definition transport_repair_limiter_take ::
  "repair_limiter \<Rightarrow> nat \<Rightarrow> int \<Rightarrow> bool \<times> repair_limiter" where
  "transport_repair_limiter_take limiter requests_per_second now_ms =
     (case refill_limiter limiter requests_per_second now_ms of
        (False, l) \<Rightarrow> (False, l)
      | (True, l) \<Rightarrow>
          if rl_tokens_milli l < 1000 then (False, l)
          else (True, l\<lparr>rl_tokens_milli := rl_tokens_milli l - 1000\<rparr>))"

section \<open>Canonical index lists\<close>

text \<open>The inner loop of the insertion sort: \<open>value\<close> is placed at or below \<open>position\<close>.\<close>

fun insert_shift :: "u16 list \<Rightarrow> nat \<Rightarrow> u16 \<Rightarrow> u16 list" where
  "insert_shift indices 0 value = indices[0 := value]"
| "insert_shift indices (Suc position) value =
     (if indices ! position > value
      then insert_shift (indices[Suc position := indices ! position]) position value
      else indices[Suc position := value])"

definition sort_indices :: "u16 list \<Rightarrow> nat \<Rightarrow> u16 list" where
  "sort_indices indices count =
     foldl (\<lambda>xs i. insert_shift xs i (xs ! i)) indices [1..<count]"

definition transport_repair_normalize_indices :: "u16 list \<Rightarrow> nat \<Rightarrow> nat \<times> u16 list" where
  "transport_repair_normalize_indices indices count =
     foldl (\<lambda>(unique, xs) i.
         if unique = 0 \<or> xs ! i \<noteq> xs ! (unique - 1)
         then (unique + 1, xs[unique := xs ! i]) else (unique, xs))
       (0, sort_indices indices count) [0..<count]"

section \<open>Repair batches\<close>

abbreviation (input) "REPAIR_MAX_SYMBOLS \<equiv> (64 :: nat)"
abbreviation (input) "FEC_MAX_TOTAL_SYMBOLS \<equiv> (1024 :: nat)"

text \<open>The first \<open>count\<close> indices and their symbols; the rest of the array is unused.\<close>

record repair_batch =
  rb_indices :: "u16 list"
  rb_symbols :: bytes
  rb_total_symbols :: u16
  rb_symbol_size :: u16

abbreviation (input) "rb_count b \<equiv> length (rb_indices b)"

definition append_unique :: "u16 list \<Rightarrow> u16 \<Rightarrow> u16 list option" where
  "append_unique indices index =
     (if index \<in> set indices then Some indices
      else if length indices \<ge> REPAIR_MAX_SYMBOLS then None
      else Some (indices @ [index]))"

fun collect_indices :: "u16 list \<Rightarrow> u16 list \<Rightarrow> u16 list option" where
  "collect_indices indices [] = Some indices"
| "collect_indices indices (m # missing) =
     (if unat m \<ge> FEC_MAX_TOTAL_SYMBOLS then None
      else case append_unique indices m of
        None \<Rightarrow> None
      | Some indices' \<Rightarrow> collect_indices indices' missing)"

definition data_block :: "bytes \<Rightarrow> nat \<Rightarrow> nat \<Rightarrow> bytes" where
  "data_block data symbol_size i =
     (let offset = i * symbol_size;
          chunk = min (if offset < length data then length data - offset else 0) symbol_size in
      fill_array symbol_size (take chunk (drop offset data)))"

definition repair_parity :: "sent_entry \<Rightarrow> u16 list \<Rightarrow> nat" where
  "repair_parity object indices =
     (let highest = foldl max 0 indices;
          parity_symbols = (if highest \<ge> se_data_symbols object
            then unat highest - unat (se_data_symbols object) + 1 else 0);
          rateless = ti_flags (se_track_id object) AND MOQ_TRACK_FLAG_FEC_RATELESS \<noteq> 0;
          original_parity = (if se_total_symbols object \<ge> se_data_symbols object
            then unat (se_total_symbols object) - unat (se_data_symbols object) else 0) in
      if \<not> rateless \<and> parity_symbols < original_parity then original_parity else parity_symbols)"

definition transport_repair_build ::
  "u64 \<Rightarrow> (fec_type \<Rightarrow> nat \<Rightarrow> nat \<Rightarrow> nat \<Rightarrow> nat option) \<Rightarrow> (nat \<Rightarrow> bytes list \<Rightarrow> bytes list option) \<Rightarrow>
   bool \<Rightarrow> fec_cache_entry list \<Rightarrow> sent_entry \<Rightarrow> bool \<Rightarrow> u16 list option \<Rightarrow>
   repair_batch option \<times> fec_cache_entry list" where
  "transport_repair_build now create encode alloc_ok fec_cache object whole_object missing =
     (case se_data object of
        None \<Rightarrow> (None, fec_cache)
      | Some data \<Rightarrow>
        if length (pl_bytes data) = 0 \<or> se_data_symbols object = 0 \<or> se_symbol_size object = 0 \<or>
           (\<not> whole_object \<and> (missing = None \<or> missing = Some [])) then (None, fec_cache)
        else case (if whole_object
              then Some (map of_nat [0..<min (unat (se_data_symbols object)) REPAIR_MAX_SYMBOLS])
              else collect_indices [] (take REPAIR_MAX_SYMBOLS (the missing))) of
          None \<Rightarrow> (None, fec_cache)
        | Some indices \<Rightarrow>
          let k = unat (se_data_symbols object); size = unat (se_symbol_size object);
              parity_symbols = repair_parity object indices;
              total_symbols = k + parity_symbols;
              rateless = ti_flags (se_track_id object) AND MOQ_TRACK_FLAG_FEC_RATELESS \<noteq> 0;
              data_blocks = map (data_block (pl_bytes data) size) [0..<k] in
          if indices = [] \<or> total_symbols > 65535 \<or> length indices > SIZE_MAX div size \<or> \<not> alloc_ok
          then (None, fec_cache)
          else case (if parity_symbols > 0
                then let t = (if rateless \<or> total_symbols > 255 then FEC_RAPTORQ else FEC_REED_SOLOMON) in
                  (case transport_fec_cache_get now (create t k parity_symbols size) fec_cache t k
                          parity_symbols size of
                     (None, cache) \<Rightarrow> (None, cache)
                   | (Some fec, cache) \<Rightarrow> (encode fec data_blocks, cache))
                else (Some [], fec_cache)) of
            (None, cache) \<Rightarrow> (None, cache)
          | (Some parity_blocks, cache) \<Rightarrow>
              (Some \<lparr>rb_indices = indices,
                     rb_symbols = concat (map (\<lambda>index.
                       if index < se_data_symbols object then data_blocks ! unat index
                       else parity_blocks ! (unat index - k)) indices),
                     rb_total_symbols = of_nat total_symbols,
                     rb_symbol_size = se_symbol_size object\<rparr>, cache))"

definition transport_repair_build_rateless ::
  "u64 \<Rightarrow> (fec_type \<Rightarrow> nat \<Rightarrow> nat \<Rightarrow> nat \<Rightarrow> nat option) \<Rightarrow> (nat \<Rightarrow> bytes list \<Rightarrow> bytes list option) \<Rightarrow>
   bool \<Rightarrow> fec_cache_entry list \<Rightarrow> sent_entry \<Rightarrow> nat \<Rightarrow>
   repair_batch option \<times> fec_cache_entry list" where
  "transport_repair_build_rateless now create encode alloc_ok fec_cache object requested =
     (if ti_flags (se_track_id object) AND MOQ_TRACK_FLAG_FEC_RATELESS = 0 \<or> requested = 0 \<or>
         se_next_repair_symbol object < se_data_symbols object \<or>
         unat (se_next_repair_symbol object) \<ge> FEC_MAX_TOTAL_SYMBOLS then (None, fec_cache)
      else let available = FEC_MAX_TOTAL_SYMBOLS - unat (se_next_repair_symbol object);
               count = min (min requested REPAIR_MAX_SYMBOLS) available in
        if count = 0 then (None, fec_cache)
        else transport_repair_build now create encode alloc_ok fec_cache object False
          (Some (map (\<lambda>i. of_nat (unat (se_next_repair_symbol object) + i)) [0..<count])))"

definition transport_repair_commit_rateless ::
  "sent_entry \<Rightarrow> repair_batch \<Rightarrow> nat \<Rightarrow> bool \<times> sent_entry" where
  "transport_repair_commit_rateless object batch admitted =
     (if admitted = 0 \<or> admitted > rb_count batch \<or>
         unat (se_next_repair_symbol object) \<ge> FEC_MAX_TOTAL_SYMBOLS \<or>
         admitted > FEC_MAX_TOTAL_SYMBOLS - unat (se_next_repair_symbol object) then (False, object)
      else if list_ex (\<lambda>i. unat (rb_indices batch ! i) \<noteq> unat (se_next_repair_symbol object) + i)
          [0..<admitted] then (False, object)
      else (True, object\<lparr>se_next_repair_symbol :=
        of_nat (unat (se_next_repair_symbol object) + admitted)\<rparr>))"

definition transport_repair_build_systematic_fallback ::
  "u64 \<Rightarrow> (fec_type \<Rightarrow> nat \<Rightarrow> nat \<Rightarrow> nat \<Rightarrow> nat option) \<Rightarrow> (nat \<Rightarrow> bytes list \<Rightarrow> bytes list option) \<Rightarrow>
   bool \<Rightarrow> fec_cache_entry list \<Rightarrow> sent_entry \<Rightarrow> nat \<Rightarrow>
   repair_batch option \<times> fec_cache_entry list" where
  "transport_repair_build_systematic_fallback now create encode alloc_ok fec_cache object requested =
     (if requested = 0 \<or> ti_flags (se_track_id object) AND MOQ_TRACK_FLAG_FEC_RATELESS = 0 \<or>
         unat (se_next_repair_symbol object) < FEC_MAX_TOTAL_SYMBOLS \<or> se_data_symbols object = 0 \<or>
         se_next_systematic_repair_symbol object \<ge> se_data_symbols object then (None, fec_cache)
      else let k = unat (se_data_symbols object);
               count = min (min requested REPAIR_MAX_SYMBOLS) k in
        transport_repair_build now create encode alloc_ok fec_cache object False
          (Some (map (\<lambda>i. of_nat ((unat (se_next_systematic_repair_symbol object) + i) mod k))
            [0..<count])))"

definition transport_repair_commit_systematic_fallback ::
  "sent_entry \<Rightarrow> repair_batch \<Rightarrow> nat \<Rightarrow> bool \<times> sent_entry" where
  "transport_repair_commit_systematic_fallback object batch admitted =
     (let k = unat (se_data_symbols object); cursor = unat (se_next_systematic_repair_symbol object) in
      if admitted = 0 \<or> admitted > rb_count batch \<or> se_data_symbols object = 0 \<or>
         se_next_systematic_repair_symbol object \<ge> se_data_symbols object then (False, object)
      else if list_ex (\<lambda>i. unat (rb_indices batch ! i) \<noteq> (cursor + i) mod k) [0..<admitted]
      then (False, object)
      else (True, object\<lparr>se_next_systematic_repair_symbol := of_nat ((cursor + admitted) mod k)\<rparr>))"

section \<open>The limiter is a leaky bucket\<close>

definition limiter_ok :: "nat \<Rightarrow> repair_limiter \<Rightarrow> bool" where
  "limiter_ok rps l \<longleftrightarrow> 0 < rps \<and> rps \<le> SIZE_MAX div 1000 \<and> 0 < rl_last_refill_ms l \<and>
     rl_tokens_milli l \<le> rps * 1000"

lemma limiter_capacity: "rps \<le> SIZE_MAX div 1000 \<Longrightarrow> sz_mul rps 1000 = rps * 1000"
  by (rule sz_mul_no_wrap) (simp add: SIZE_MAX_def)

lemma refill_ok:
  assumes ok: "limiter_ok rps l" and now: "rl_last_refill_ms l \<le> now"
  shows "\<exists>l'. refill_limiter l rps now = (True, l') \<and> limiter_ok rps l' \<and> rl_last_refill_ms l' = now \<and>
    rl_tokens_milli l' = min (rps * 1000) (rl_tokens_milli l + rps * nat (now - rl_last_refill_ms l))"
proof (cases "now = rl_last_refill_ms l")
  case True
  then show ?thesis using ok by (auto simp: refill_limiter_def limiter_ok_def Let_def)
next
  case False
  then have lt: "rl_last_refill_ms l < now" using now by simp
  let ?e = "nat (now - rl_last_refill_ms l)" and ?c = "rps * 1000"
  have r: "0 < rps" "rps \<le> SIZE_MAX div 1000" "rl_tokens_milli l \<le> ?c" "0 < rl_last_refill_ms l"
    using ok by (simp_all add: limiter_ok_def)
  have c: "sz_mul rps 1000 = ?c" using r(2) by (rule limiter_capacity)
  have cm: "?c \<le> SIZE_MAX" using r(2) by (simp add: SIZE_MAX_def)
  define a where "a = (if ?e > SIZE_MAX div rps then ?c else sz_mul ?e rps)"
  have a: "?c \<le> ?e * rps \<and> a = ?c \<or> a = ?e * rps"
  proof (cases "?e > SIZE_MAX div rps")
    case True
    then have "SIZE_MAX < ?e * rps" using r(1) by (simp add: div_less_iff_less_mult)
    then have "?c \<le> ?e * rps" using cm by linarith
    then show ?thesis using True by (simp add: a_def)
  next
    case False
    then have "?e * rps \<le> SIZE_MAX" using r(1) by (simp add: less_eq_div_iff_mult_less_eq not_less)
    then show ?thesis using False by (simp add: a_def no_wrap)
  qed
  define t where "t = (if a \<ge> sz_sub ?c (rl_tokens_milli l) then ?c else sz_add (rl_tokens_milli l) a)"
  have "refill_limiter l rps now = (True, \<lparr>rl_tokens_milli = t, rl_last_refill_ms = now\<rparr>)"
    using r lt by (simp add: refill_limiter_def c t_def a_def Let_def)
  moreover have "t = min ?c (rl_tokens_milli l + rps * ?e)"
  proof (cases "a \<ge> ?c - rl_tokens_milli l")
    case True
    then have "t = ?c" using r(3) by (simp add: t_def no_wrap)
    moreover have "?c \<le> rl_tokens_milli l + rps * ?e"
      using True a r(3) mult.commute [of rps ?e] by linarith
    ultimately show ?thesis by simp
  next
    case False
    then have "t = rl_tokens_milli l + a" using r(3) cm by (simp add: t_def no_wrap)
    moreover have "a = rps * ?e" using False a r(3) mult.commute [of rps ?e] by linarith
    ultimately show ?thesis using False r(3) by simp
  qed
  ultimately show ?thesis using r lt by (simp add: limiter_ok_def)
qed

text \<open>The debt of the limiter is what is missing to a full bucket.\<close>

interpretation limiter: leaky_bucket "limiter_ok rps" "\<lambda>l. rps * 1000 - rl_tokens_milli l"
    "\<lambda>l. nat (rl_last_refill_ms l)" 1000 "rps * 1000" "\<lambda>d. rps * d"
    "\<lambda>l now. transport_repair_limiter_take l rps (int now)"
  for rps :: nat
proof unfold_locales
  show "rps * a + rps * b \<le> rps * (a + b)" for a b by (simp add: algebra_simps)
  show "rps * 1000 - rl_tokens_milli s \<le> rps * 1000" for s by simp
  fix s s' :: repair_limiter and now granted
  assume ok: "limiter_ok rps s" and now: "nat (rl_last_refill_ms s) \<le> now"
    and r: "transport_repair_limiter_take s rps (int now) = (granted, s')"
  have p: "0 < rl_last_refill_ms s" using ok by (simp add: limiter_ok_def)
  obtain l where l: "refill_limiter s rps (int now) = (True, l)" "limiter_ok rps l" "rl_last_refill_ms l = int now"
    "rl_tokens_milli l = min (rps * 1000) (rl_tokens_milli s + rps * nat (int now - rl_last_refill_ms s))"
  proof -
    have "rl_last_refill_ms s \<le> int now" using now by linarith
    from refill_ok [OF ok this] show thesis using that by blast
  qed
  define x where "x = rps * (now - nat (rl_last_refill_ms s))"
  have e: "nat (int now - rl_last_refill_ms s) = now - nat (rl_last_refill_ms s)" using p by (simp add: nat_diff_distrib)
  show "limiter_ok rps s' \<and> nat (rl_last_refill_ms s') = now \<and>
      rps * 1000 - rl_tokens_milli s + (if granted then 1000 else 0)
      \<le> rps * 1000 - rl_tokens_milli s' + rps * (now - nat (rl_last_refill_ms s))"
  proof (cases "rl_tokens_milli l < 1000")
    case True
    then have "granted = False" "s' = l" using r l(1) by (auto simp: transport_repair_limiter_take_def)
    moreover have "rps * 1000 - rl_tokens_milli s \<le> rps * 1000 - rl_tokens_milli l + x"
      using l(4) unfolding e x_def [symmetric] by linarith
    ultimately show ?thesis using l by (simp add: x_def)
  next
    case False
    then have g: "granted = True" "s' = l\<lparr>rl_tokens_milli := rl_tokens_milli l - 1000\<rparr>"
      using r l(1) by (auto simp: transport_repair_limiter_take_def)
    have "rps * 1000 - rl_tokens_milli s + 1000 \<le> rps * 1000 - (rl_tokens_milli l - 1000) + x"
      using l(4) False unfolding e x_def [symmetric] by linarith
    moreover have "limiter_ok rps s'" using g l(2) by (auto simp: limiter_ok_def)
    ultimately show ?thesis using l(3) g by (simp only: x_def if_True repair_limiter.simps) simp
  qed
qed

text \<open>The announced waiting time is exact: a request then succeeds, and not before.\<close>

lemma wait_exact:
  assumes ok: "limiter_ok rps l" and now: "rl_last_refill_ms l \<le> now"
    and w: "transport_repair_limiter_wait_ms l rps now = (n, l')"
  shows "limiter_ok rps l' \<and> rl_last_refill_ms l' = now \<and>
    (fst (transport_repair_limiter_take l' rps (now + int d)) \<longleftrightarrow> n \<le> d)"
proof -
  obtain l1 where l1: "refill_limiter l rps now = (True, l1)" "limiter_ok rps l1" "rl_last_refill_ms l1 = now"
    using refill_ok [OF ok now] by blast
  have r: "0 < rps" "rps \<le> SIZE_MAX div 1000" "rl_tokens_milli l1 \<le> rps * 1000"
    using l1(2) by (simp_all add: limiter_ok_def)
  have l': "l' = l1" using w l1(1) by (auto simp: transport_repair_limiter_wait_ms_def split: if_splits)
  let ?t = "rl_tokens_milli l1"
  have n: "n = (if ?t \<ge> 1000 then 0 else (1000 - ?t + rps - 1) div rps)"
  proof (cases "?t \<ge> 1000")
    case False
    have "sz_add (1000 - ?t) rps = 1000 - ?t + rps" using r by (intro sz_add_no_wrap) (simp add: SIZE_MAX_def)
    moreover have "n = sz_sub (sz_add (1000 - ?t) rps) 1 div rps"
      using False w l1(1) by (auto simp: transport_repair_limiter_wait_ms_def)
    ultimately show ?thesis using False r(1) by (simp add: no_wrap)
  qed (use w l1(1) in \<open>auto simp: transport_repair_limiter_wait_ms_def\<close>)
  have le: "n \<le> d \<longleftrightarrow> 1000 \<le> ?t + rps * d"
  proof (cases "?t \<ge> 1000")
    case False
    have "(1000 - ?t + rps - 1) div rps \<le> d \<longleftrightarrow> 1000 - ?t + rps - 1 < (d + 1) * rps"
      using r(1) by (simp add: div_less_iff_less_mult flip: less_Suc_eq_le)
    also have "\<dots> \<longleftrightarrow> 1000 \<le> ?t + rps * d" using False r(1) by (simp add: algebra_simps) linarith
    finally show ?thesis using False n by simp
  qed (simp add: n)
  have "rl_last_refill_ms l1 \<le> now + int d" using l1(3) by simp
  from refill_ok [OF l1(2) this] obtain l2 where l2: "refill_limiter l1 rps (now + int d) = (True, l2)"
    "rl_tokens_milli l2 = min (rps * 1000) (?t + rps * d)" using l1(3) by auto
  have "fst (transport_repair_limiter_take l1 rps (now + int d)) \<longleftrightarrow> 1000 \<le> rl_tokens_milli l2"
    using l2(1) by (simp add: transport_repair_limiter_take_def not_less)
  also have "\<dots> \<longleftrightarrow> n \<le> d" using l2(2) r(1) le by auto
  finally show ?thesis using l1 l' by simp
qed

section \<open>Canonical index lists\<close>

lemma length_insert_shift [simp]: "length (insert_shift xs p v) = length xs"
  by (induction xs p v rule: insert_shift.induct) auto

lemma insort_below: "(v :: 'a::linorder) < y \<Longrightarrow> insort v (ys @ [y]) = insort v ys @ [y]"
  by (induction ys) auto

lemma insert_shift_result:
  "p < length xs \<Longrightarrow> sorted (take p xs) \<Longrightarrow>
   take (Suc p) (insert_shift xs p v) = insort v (take p xs) \<and>
   drop (Suc p) (insert_shift xs p v) = drop (Suc p) xs"
proof (induction xs p v rule: insert_shift.induct)
  case (1 xs v)
  then show ?case by (cases xs) auto
next
  case (2 xs p v)
  have t: "take (Suc p) xs = take p xs @ [xs ! p]" using 2(2) by (simp add: take_Suc_conv_app_nth)
  have s: "sorted (take p xs)" "\<forall>y\<in>set (take p xs). y \<le> xs ! p"
    using 2(3) unfolding t by (simp_all add: sorted_append)
  have d: "drop (Suc p) xs = xs ! Suc p # drop (Suc (Suc p)) xs" using 2(2) by (simp add: Cons_nth_drop_Suc)
  show ?case
  proof (cases "xs ! p > v")
    case True
    let ?ys = "xs[Suc p := xs ! p]"
    let ?r = "insert_shift ?ys p v"
    have r: "take (Suc p) ?r = insort v (take p xs)" "drop (Suc p) ?r = drop (Suc p) ?ys"
      using 2(1) [OF True] 2(2) s by auto
    have "drop (Suc p) ?ys = xs ! p # drop (Suc (Suc p)) xs"
      using 2(2) d by (simp add: drop_update_swap list_update_append1)
    then have e: "drop (Suc p) ?r = xs ! p # drop (Suc (Suc p)) xs" using r(2) by simp
    have "take (Suc (Suc p)) ?r = take (Suc p) ?r @ take 1 (drop (Suc p) ?r)"
      using take_add [of "Suc p" 1 ?r] by simp
    also have "\<dots> = insort v (take p xs) @ [xs ! p]" by (simp add: r(1) e)
    also have "\<dots> = insort v (take (Suc p) xs)"
      unfolding t using True by (rule insort_below [symmetric])
    finally have "take (Suc (Suc p)) ?r = insort v (take (Suc p) xs)" .
    moreover have "drop (Suc (Suc p)) ?r = drop (Suc (Suc p)) xs"
      using e by (metis drop_Suc tl_drop list.sel(3))
    ultimately show ?thesis using True by simp
  next
    case False
    then have "insort v (take (Suc p) xs) = take (Suc p) xs @ [v]"
      using s unfolding t by (intro sorted_insort_is_snoc) (auto simp: sorted_append)
    then show ?thesis using False 2(2) by (simp add: take_Suc_conv_app_nth [of "Suc p"])
  qed
qed

lemma drop_Suc_eq: "drop m xs = drop m ys \<Longrightarrow> drop (Suc m) xs = drop (Suc m) ys"
  by (metis drop_Suc tl_drop)

lemma nth_drop_eq: "drop m xs = drop m ys \<Longrightarrow> m < length xs \<Longrightarrow> m < length ys \<Longrightarrow> xs ! m = ys ! m"
  by (metis hd_drop_conv_nth)

lemma sort_indices_result:
  assumes "n \<le> length xs"
  shows "length (sort_indices xs n) = length xs \<and> sorted (take n (sort_indices xs n)) \<and>
    set (take n (sort_indices xs n)) = set (take n xs)"
proof -
  have "length (foldl (\<lambda>xs i. insert_shift xs i (xs ! i)) xs [1..<m]) = length xs \<and>
    sorted (take m (foldl (\<lambda>xs i. insert_shift xs i (xs ! i)) xs [1..<m])) \<and>
    set (take m (foldl (\<lambda>xs i. insert_shift xs i (xs ! i)) xs [1..<m])) = set (take m xs) \<and>
    drop m (foldl (\<lambda>xs i. insert_shift xs i (xs ! i)) xs [1..<m]) = drop m xs" if "m \<le> n" for m
    using that
  proof (induction m)
    case 0
    then show ?case by simp
  next
    case (Suc m)
    show ?case
    proof (cases "m = 0")
      case True
      then show ?thesis by (cases xs) auto
    next
      case False
      let ?ys = "foldl (\<lambda>xs i. insert_shift xs i (xs ! i)) xs [1..<m]"
      let ?r = "insert_shift ?ys m (?ys ! m)"
      have f: "foldl (\<lambda>xs i. insert_shift xs i (xs ! i)) xs [1..<Suc m] = ?r" using False by simp
      have ih: "length ?ys = length xs" "sorted (take m ?ys)" "set (take m ?ys) = set (take m xs)"
        "drop m ?ys = drop m xs" using Suc by auto
      have m: "m < length ?ys" using Suc.prems assms ih(1) by simp
      have v: "?ys ! m = xs ! m" using nth_drop_eq [OF ih(4)] m ih(1) by simp
      note r = insert_shift_result [OF m ih(2), of "?ys ! m"]
      have "set (take (Suc m) xs) = insert (xs ! m) (set (take m xs))"
        using m ih(1) by (simp add: take_Suc_conv_app_nth)
      moreover have "set (take (Suc m) ?r) = insert (xs ! m) (set (take m xs))"
        using r v ih(3) by (simp add: set_insort_key)
      moreover have "drop (Suc m) ?r = drop (Suc m) xs"
        using r drop_Suc_eq [OF ih(4)] by simp
      moreover have "sorted (take (Suc m) ?r)" using r ih(2) by (simp add: sorted_insort)
      ultimately show ?thesis unfolding f using ih(1) by (simp only: length_insert_shift simp_thms)
    qed
  qed
  from this [of n] show ?thesis by (simp add: sort_indices_def)
qed

lemma unique_loop_result:
  assumes s: "sorted (take n xs)" and n: "n \<le> length xs" and m: "m \<le> n"
  shows "case foldl (\<lambda>(unique, ys) i. if unique = 0 \<or> ys ! i \<noteq> ys ! (unique - 1)
         then (unique + 1, ys[unique := ys ! i]) else (unique, ys)) (0, xs) [0..<m] of (u, ys) \<Rightarrow>
    u \<le> m \<and> length ys = length xs \<and> drop m ys = drop m xs \<and> sorted_wrt (<) (take u ys) \<and>
    set (take u ys) = set (take m xs) \<and> (u = 0 \<longleftrightarrow> m = 0) \<and> (0 < u \<longrightarrow> ys ! (u - 1) = xs ! (m - 1))"
  using m
proof (induction m)
  case 0
  then show ?case by simp
next
  case (Suc m)
  let ?f = "\<lambda>(unique, ys) i. if unique = 0 \<or> ys ! i \<noteq> ys ! (unique - 1)
         then (unique + 1, ys[unique := ys ! i]) else (unique, ys)"
  obtain u ys where f: "foldl ?f (0, xs) [0..<m] = (u, ys)" by (cases "foldl ?f (0, xs) [0..<m]")
  have ih: "u \<le> m" "length ys = length xs" "drop m ys = drop m xs" "sorted_wrt (<) (take u ys)"
    "set (take u ys) = set (take m xs)" "u = 0 \<longleftrightarrow> m = 0" "0 < u \<longrightarrow> ys ! (u - 1) = xs ! (m - 1)"
    using Suc f by simp_all
  have ml: "m < length xs" using Suc.prems n by simp
  have v: "ys ! m = xs ! m" using nth_drop_eq [OF ih(3)] ml ih(2) by simp
  have step: "foldl ?f (0, xs) [0..<Suc m] = ?f (u, ys) m" using f by simp
  have ins: "set (take (Suc m) xs) = insert (xs ! m) (set (take m xs))"
    using ml by (simp add: take_Suc_conv_app_nth)
  have d: "drop (Suc m) ys = drop (Suc m) xs" using ih(3) by (rule drop_Suc_eq)
  show ?case
  proof (cases "u = 0 \<or> ys ! m \<noteq> ys ! (u - 1)")
    case True
    let ?ys = "ys[u := ys ! m]"
    have u: "u < length ys" using ih(1,2) ml by simp
    have t: "take (Suc u) ?ys = take u ys @ [xs ! m]" using u v by (simp add: take_Suc_conv_app_nth)
    have less: "x < xs ! m" if "x \<in> set (take m xs)" for x
    proof -
      from that have m0: "0 < m" by (cases m) auto
      obtain j where j: "j < m" "x = xs ! j" using \<open>x \<in> set (take m xs)\<close> ml by (auto simp: in_set_conv_nth)
      have "xs ! j \<le> xs ! (m - 1)" "xs ! (m - 1) \<le> xs ! m"
        using sorted_nth_mono [OF s, of j "m - 1"] sorted_nth_mono [OF s, of "m - 1" m] j m0 Suc.prems n by auto
      moreover have "xs ! (m - 1) \<noteq> xs ! m" using True ih(6,7) m0 v by auto
      ultimately show ?thesis using j(2) by simp
    qed
    have "sorted_wrt (<) (take (Suc u) ?ys)"
      unfolding t sorted_wrt_append using ih(4,5) less by simp
    moreover have "set (take (Suc u) ?ys) = set (take (Suc m) xs)" unfolding t ins using ih(5) by simp
    moreover have "drop (Suc m) ?ys = drop (Suc m) xs" using d ih(1) by simp
    moreover have "?f (u, ys) m = (u + 1, ?ys)" using True by simp
    ultimately show ?thesis unfolding step using ih(1,2) u v by simp
  next
    case False
    then have e: "xs ! m = xs ! (m - 1)" "0 < u" using ih(7) v by auto
    then have "0 < m" using ih(6) by simp
    then have "xs ! (m - 1) \<in> set (take m xs)" using ml by (auto simp: in_set_conv_nth intro!: exI [of _ "m - 1"])
    then have "set (take (Suc m) xs) = set (take m xs)" unfolding ins e(1) by auto
    moreover have "?f (u, ys) m = (u, ys)" using False by simp
    ultimately show ?thesis unfolding step using ih e d by simp
  qed
qed

lemma normalize_result:
  assumes "n \<le> length xs" "transport_repair_normalize_indices xs n = (u, ys)"
  shows "u \<le> n \<and> sorted_wrt (<) (take u ys) \<and> set (take u ys) = set (take n xs) \<and> length ys = length xs"
proof -
  note s = sort_indices_result [OF assms(1)]
  have "sorted (take n (sort_indices xs n))" "n \<le> length (sort_indices xs n)" using s assms(1) by simp_all
  from unique_loop_result [OF this order_refl] s show ?thesis
    using assms(2) by (simp add: transport_repair_normalize_indices_def)
qed
section \<open>The contents of a batch\<close>

lemma append_unique_Some:
  "append_unique xs m = Some ys \<Longrightarrow> distinct xs \<Longrightarrow> length xs \<le> REPAIR_MAX_SYMBOLS \<Longrightarrow>
   distinct ys \<and> set ys = insert m (set xs) \<and> length ys \<le> REPAIR_MAX_SYMBOLS"
  by (auto simp: append_unique_def split: if_splits)

lemma collect_indices_Some:
  "collect_indices xs ms = Some ys \<Longrightarrow> distinct xs \<Longrightarrow> length xs \<le> REPAIR_MAX_SYMBOLS \<Longrightarrow>
   distinct ys \<and> set ys = set xs \<union> set ms \<and> length ys \<le> REPAIR_MAX_SYMBOLS \<and>
   (\<forall>m\<in>set ms. unat m < FEC_MAX_TOTAL_SYMBOLS)"
proof (induction ms arbitrary: xs)
  case (Cons m ms)
  then obtain zs where z: "unat m < FEC_MAX_TOTAL_SYMBOLS" "append_unique xs m = Some zs"
    "collect_indices zs ms = Some ys" by (auto split: if_splits option.splits)
  from append_unique_Some [OF z(2) Cons.prems(2,3)] Cons.IH [OF z(3)] z(1) show ?case by auto
qed simp

lemma collect_indices_distinct:
  "distinct (xs @ ms) \<Longrightarrow> length (xs @ ms) \<le> REPAIR_MAX_SYMBOLS \<Longrightarrow>
   \<forall>m\<in>set ms. unat m < FEC_MAX_TOTAL_SYMBOLS \<Longrightarrow> collect_indices xs ms = Some (xs @ ms)"
proof (induction ms arbitrary: xs)
  case (Cons m ms)
  have "append_unique xs m = Some (xs @ [m])" using Cons.prems by (simp add: append_unique_def)
  then show ?case using Cons.prems Cons.IH [of "xs @ [m]"] by simp
qed simp

lemma foldl_max_ge: "a \<le> foldl max (a :: 'a::linorder) xs \<and> (\<forall>x\<in>set xs. x \<le> foldl max a xs)"
proof (induction xs arbitrary: a)
  case (Cons x xs)
  show ?case using Cons.IH [of "max a x"] by auto
qed simp

lemma repair_parity_covers:
  assumes "i \<in> set indices"
  shows "unat i < unat (se_data_symbols object) + repair_parity object indices \<or>
    unat i < unat (se_data_symbols object)"
proof -
  have "i \<le> foldl max 0 indices" using foldl_max_ge [of 0 indices] assms by auto
  then have "unat i \<le> unat (foldl max 0 indices)" by (simp add: word_le_nat_alt)
  then show ?thesis by (auto simp: repair_parity_def Let_def word_le_nat_alt)
qed

lemma length_data_block [simp]: "length (data_block d z i) = z"
  by (simp add: data_block_def Let_def)

lemma concat_slot:
  "\<forall>x\<in>set xs. length (f x) = z \<Longrightarrow> j < length xs \<Longrightarrow>
   take z (drop (j * z) (concat (map f xs))) = f (xs ! j)"
proof (induction xs arbitrary: j)
  case (Cons x xs)
  then show ?case by (cases j) simp_all
qed simp

lemma length_concat_slots:
  "\<forall>x\<in>set xs. length (f x) = z \<Longrightarrow> length (concat (map f xs)) = length xs * z"
  by (induction xs) auto

lemma repair_build_Some:
  assumes "transport_repair_build now create encode alloc_ok cache object whole missing = (Some b, cache')"
  defines "k \<equiv> unat (se_data_symbols object)" and "z \<equiv> unat (se_symbol_size object)"
    and "p \<equiv> repair_parity object (rb_indices b)"
  shows "\<exists>data parity. se_data object = Some data \<and> 0 < k \<and> 0 < z \<and> rb_indices b \<noteq> [] \<and>
    (if whole then Some (map of_nat [0..<min k REPAIR_MAX_SYMBOLS])
     else collect_indices [] (take REPAIR_MAX_SYMBOLS (the missing))) = Some (rb_indices b) \<and>
    k + p \<le> 65535 \<and> rb_total_symbols b = of_nat (k + p) \<and> rb_symbol_size b = se_symbol_size object \<and>
    rb_symbols b = concat (map (\<lambda>index. if index < se_data_symbols object
      then map (data_block (pl_bytes data) z) [0..<k] ! unat index else parity ! (unat index - k))
      (rb_indices b)) \<and>
    (if p = 0 then parity = [] \<and> cache' = cache else
       \<exists>h t. transport_fec_cache_get now (create t k p z) cache t k p z = (Some h, cache') \<and>
         t = (if ti_flags (se_track_id object) AND MOQ_TRACK_FLAG_FEC_RATELESS \<noteq> 0 \<or> k + p > 255
              then FEC_RAPTORQ else FEC_REED_SOLOMON) \<and>
         encode h (map (data_block (pl_bytes data) z) [0..<k]) = Some parity)"
proof -
  obtain data where d: "se_data object = Some data" using assms(1)
    by (auto simp: transport_repair_build_def split: option.splits)
  let ?g = "length (pl_bytes data) = 0 \<or> se_data_symbols object = 0 \<or> se_symbol_size object = 0 \<or>
           (\<not> whole \<and> (missing = None \<or> missing = Some []))"
  have g: "\<not> ?g"
  proof
    assume ?g
    then show False using assms(1) d by (simp add: transport_repair_build_def)
  qed
  let ?c = "if whole then Some (map of_nat [0..<min k REPAIR_MAX_SYMBOLS])
     else collect_indices [] (take REPAIR_MAX_SYMBOLS (the missing))"
  obtain ix where ix: "?c = Some ix"
  proof (cases ?c)
    case None
    then have False using assms(1) d g unfolding k_def
      by (simp only: transport_repair_build_def option.simps if_False) simp
    then show thesis ..
  qed
  have e: "transport_repair_build now create encode alloc_ok cache object whole missing =
    (let parity_symbols = repair_parity object ix;
              total_symbols = k + parity_symbols;
              rateless = ti_flags (se_track_id object) AND MOQ_TRACK_FLAG_FEC_RATELESS \<noteq> 0;
              data_blocks = map (data_block (pl_bytes data) z) [0..<k] in
          if ix = [] \<or> total_symbols > 65535 \<or> length ix > SIZE_MAX div z \<or> \<not> alloc_ok
          then (None, cache)
          else case (if parity_symbols > 0
                then let t = (if rateless \<or> total_symbols > 255 then FEC_RAPTORQ else FEC_REED_SOLOMON) in
                  (case transport_fec_cache_get now (create t k parity_symbols z) cache t k
                          parity_symbols z of
                     (None, cache) \<Rightarrow> (None, cache)
                   | (Some fec, cache) \<Rightarrow> (encode fec data_blocks, cache))
                else (Some [], cache)) of
            (None, cache) \<Rightarrow> (None, cache)
          | (Some parity_blocks, cache) \<Rightarrow>
              (Some \<lparr>rb_indices = ix,
                     rb_symbols = concat (map (\<lambda>index.
                       if index < se_data_symbols object then data_blocks ! unat index
                       else parity_blocks ! (unat index - k)) ix),
                     rb_total_symbols = of_nat total_symbols,
                     rb_symbol_size = se_symbol_size object\<rparr>, cache))"
    using g ix unfolding transport_repair_build_def d k_def z_def Let_def
    by (simp only: option.simps if_False)
  have i: "rb_indices b = ix" using assms(1) unfolding e Let_def
    by (auto split: if_splits option.splits prod.splits)
  have k: "0 < k" "0 < z" using g by (simp_all add: k_def z_def unat_gt_0)
  define t where "t = (if ti_flags (se_track_id object) AND MOQ_TRACK_FLAG_FEC_RATELESS \<noteq> 0 \<or>
    k + p > 255 then FEC_RAPTORQ else FEC_REED_SOLOMON)"
  note e' = e [unfolded Let_def, folded i, folded p_def, folded t_def]
  have n: "\<not> (rb_indices b = [] \<or> k + p > 65535 \<or> length (rb_indices b) > SIZE_MAX div z \<or> \<not> alloc_ok)"
  proof
    assume "rb_indices b = [] \<or> k + p > 65535 \<or> length (rb_indices b) > SIZE_MAX div z \<or> \<not> alloc_ok"
    then show False using assms(1) unfolding e' by (simp only: if_True prod.inject) simp
  qed
  note f = assms(1) [unfolded e', unfolded if_not_P [OF n]]
  show ?thesis
  proof (cases "p = 0")
    case True
    then show ?thesis using f n d k ix i
      by (intro exI [of _ data] exI [of _ "[]"]) (cases b, simp)
  next
    case False
    obtain h cache1 where h: "transport_fec_cache_get now (create t k p z) cache t k p z = (Some h, cache1)"
      using f False by (cases "transport_fec_cache_get now (create t k p z) cache t k p z") (auto split: option.splits)
    obtain parity where parity: "encode h (map (data_block (pl_bytes data) z) [0..<k]) = Some parity"
      using f False h by (auto split: option.splits)
    then show ?thesis using f False n d k ix i h
      by (intro exI [of _ data] exI [of _ parity]) (cases b, simp add: t_def)
  qed
qed

text \<open>Every index of a batch names a block, and its symbol is that block.\<close>

lemma repair_batch_blocks:
  assumes ix: "\<forall>i\<in>set ix. unat i < k + length parity"
    and ds: "length ds = k" "\<forall>d\<in>set ds. length d = z" "\<forall>d\<in>set parity. length d = z"
    and k: "k = unat (k16 :: u16)"
    and s: "syms = concat (map (\<lambda>index. if index < k16 then ds ! unat index else parity ! (unat index - k)) ix)"
  shows "length syms = length ix * z \<and>
    (\<forall>j < length ix. take z (drop (j * z) syms) = (ds @ parity) ! unat (ix ! j))"
proof -
  let ?f = "\<lambda>index. if index < k16 then ds ! unat index else parity ! (unat index - k)"
  have f: "?f i = (ds @ parity) ! unat i" for i
    using ds(1) k by (simp add: nth_append word_less_nat_alt)
  have "length ((ds @ parity) ! unat i) = z" if "i \<in> set ix" for i
  proof -
    have "(ds @ parity) ! unat i \<in> set (ds @ parity)" using ix that ds(1) by (intro nth_mem) simp
    then show ?thesis using ds(2,3) by auto
  qed
  then have l: "\<forall>i\<in>set ix. length (?f i) = z" using f by simp
  show ?thesis unfolding s using length_concat_slots [OF l] concat_slot [OF l] f by simp
qed

definition codec_laws ::
  "(nat \<Rightarrow> fec_type \<times> nat \<times> nat \<times> nat) \<Rightarrow> (fec_type \<Rightarrow> nat \<Rightarrow> nat \<Rightarrow> nat \<Rightarrow> nat option) \<Rightarrow>
   (nat \<Rightarrow> bytes list \<Rightarrow> bytes list option) \<Rightarrow> bool" where
  "codec_laws params create encode \<longleftrightarrow>
     (\<forall>t k p z h. create t k p z = Some h \<longrightarrow> params h = (t, k, p, z)) \<and>
     (\<forall>h t k p z ds ps. params h = (t, k, p, z) \<longrightarrow> length ds = k \<longrightarrow> (\<forall>d\<in>set ds. length d = z) \<longrightarrow> encode h ds = Some ps \<longrightarrow>
        length ps = p \<and> (\<forall>d\<in>set ps. length d = z))"

lemma repair_build_correct:
  assumes cache: "fec_cache_ok params cache" and laws: "codec_laws params create encode"
    and r: "transport_repair_build now create encode alloc_ok cache object whole missing = (Some b, cache')"
  defines "k \<equiv> unat (se_data_symbols object)" and "z \<equiv> unat (se_symbol_size object)"
  shows "fec_cache_ok params cache' \<and> distinct (rb_indices b) \<and> rb_count b \<le> REPAIR_MAX_SYMBOLS \<and>
    set (rb_indices b) = (if whole then of_nat ` {..<min k REPAIR_MAX_SYMBOLS}
      else set (take REPAIR_MAX_SYMBOLS (the missing))) \<and>
    rb_symbol_size b = se_symbol_size object \<and> length (rb_symbols b) = rb_count b * z \<and>
    (\<exists>data parity. se_data object = Some data \<and> unat (rb_total_symbols b) = k + length parity \<and>
       (\<forall>j < rb_count b. unat (rb_indices b ! j) < k + length parity \<and>
          take z (drop (j * z) (rb_symbols b)) =
            (map (data_block (pl_bytes data) z) [0..<k] @ parity) ! unat (rb_indices b ! j)) \<and>
       (parity \<noteq> [] \<longrightarrow> (\<exists>h t. params h = (t, k, length parity, z) \<and>
          encode h (map (data_block (pl_bytes data) z) [0..<k]) = Some parity)))"
proof -
  define p where "p = repair_parity object (rb_indices b)"
  obtain data parity where c: "se_data object = Some data" "0 < k" "rb_indices b \<noteq> []"
    "(if whole then Some (map of_nat [0..<min k REPAIR_MAX_SYMBOLS])
     else collect_indices [] (take REPAIR_MAX_SYMBOLS (the missing))) = Some (rb_indices b)"
    "k + p \<le> 65535" "rb_total_symbols b = of_nat (k + p)" "rb_symbol_size b = se_symbol_size object"
    "rb_symbols b = concat (map (\<lambda>index. if index < se_data_symbols object
      then map (data_block (pl_bytes data) z) [0..<k] ! unat index else parity ! (unat index - k))
      (rb_indices b))"
    and f: "if p = 0 then parity = [] \<and> cache' = cache else
       \<exists>h t. transport_fec_cache_get now (create t k p z) cache t k p z = (Some h, cache') \<and>
         t = (if ti_flags (se_track_id object) AND MOQ_TRACK_FLAG_FEC_RATELESS \<noteq> 0 \<or> k + p > 255
              then FEC_RAPTORQ else FEC_REED_SOLOMON) \<and>
         encode h (map (data_block (pl_bytes data) z) [0..<k]) = Some parity"
    using repair_build_Some [OF r] unfolding k_def z_def p_def by blast
  have fec: "fec_cache_ok params cache' \<and> length parity = p \<and> (\<forall>d\<in>set parity. length d = z) \<and>
    (parity \<noteq> [] \<longrightarrow> (\<exists>h t. params h = (t, k, length parity, z) \<and>
          encode h (map (data_block (pl_bytes data) z) [0..<k]) = Some parity))"
  proof (cases "p = 0")
    case True
    then show ?thesis using f cache by simp
  next
    case False
    then obtain h t where h: "transport_fec_cache_get now (create t k p z) cache t k p z = (Some h, cache')"
      "encode h (map (data_block (pl_bytes data) z) [0..<k]) = Some parity" using f by auto
    have new: "create t k p z = Some h' \<Longrightarrow> params h' = (t, k, p, z)" for h'
      using laws by (simp add: codec_laws_def)
    have "fec_cache_ok params cache'" "params h = (t, k, p, z)"
      using fec_get_ok [OF cache new h(1)] by auto
    moreover have "length parity = p \<and> (\<forall>d\<in>set parity. length d = z)"
    proof -
      have "length (map (data_block (pl_bytes data) z) [0..<k]) = k"
        "\<forall>d\<in>set (map (data_block (pl_bytes data) z) [0..<k]). length d = z" by simp_all
      then show ?thesis using laws h(2) calculation(2) unfolding codec_laws_def by blast
    qed
    ultimately show ?thesis using h(2) by auto
  qed
  have idx: "distinct (rb_indices b) \<and> rb_count b \<le> REPAIR_MAX_SYMBOLS \<and>
    set (rb_indices b) = (if whole then of_nat ` {..<min k REPAIR_MAX_SYMBOLS}
      else set (take REPAIR_MAX_SYMBOLS (the missing)))"
  proof (cases whole)
    case True
    then have e: "rb_indices b = map of_nat [0..<min k REPAIR_MAX_SYMBOLS]" using c(4) by simp
    have "inj_on (of_nat :: nat \<Rightarrow> u16) {0..<min k REPAIR_MAX_SYMBOLS}"
      by (rule inj_onI, drule arg_cong [of _ _ unat]) (simp add: unat_of_nat)
    then show ?thesis using True unfolding e by (auto simp: distinct_map lessThan_atLeast0)
  next
    case False
    then show ?thesis using c(4) collect_indices_Some [of "[]" _ "rb_indices b"] by simp
  qed
  have "unat (rb_total_symbols b) = k + length parity"
    using c(5,6) fec by (simp add: unat_of_nat del: of_nat_add)
  moreover have cov: "\<forall>i\<in>set (rb_indices b). unat i < k + length parity"
    using repair_parity_covers [of _ "rb_indices b" object] fec unfolding k_def p_def by fastforce
  moreover have "\<forall>j < rb_count b. unat (rb_indices b ! j) < k + length parity" using cov nth_mem by blast
  moreover have "length (rb_symbols b) = rb_count b * z \<and> (\<forall>j < rb_count b.
    take z (drop (j * z) (rb_symbols b)) =
      (map (data_block (pl_bytes data) z) [0..<k] @ parity) ! unat (rb_indices b ! j))"
    by (rule repair_batch_blocks [OF cov _ _ _ k_def [THEN meta_eq_to_obj_eq] c(8)]) (use fec in auto)
  ultimately show ?thesis using c(1,7) idx fec by blast
qed

section \<open>Fresh rateless symbols\<close>

text \<open>
  A sequence of repairs of one object: each step builds a batch, hands some of its symbols to
  the network (\<open>admitted\<close>, at most the batch) and commits them. The result is the sequence of
  the indices that were sent.
\<close>

fun repair_session ::
  "(u64 \<Rightarrow> bool \<Rightarrow> fec_cache_entry list \<Rightarrow> sent_entry \<Rightarrow> nat \<Rightarrow> repair_batch option \<times> fec_cache_entry list) \<Rightarrow>
   (sent_entry \<Rightarrow> repair_batch \<Rightarrow> nat \<Rightarrow> bool \<times> sent_entry) \<Rightarrow> fec_cache_entry list \<Rightarrow> sent_entry \<Rightarrow>
   (u64 \<times> bool \<times> nat \<times> nat) list \<Rightarrow> u16 list \<times> sent_entry" where
  "repair_session build commit cache object [] = ([], object)"
| "repair_session build commit cache object ((now, alloc_ok, requested, admitted) # ops) =
     (case build now alloc_ok cache object requested of
        (None, cache') \<Rightarrow> repair_session build commit cache' object ops
      | (Some b, cache') \<Rightarrow>
          let n = min admitted (rb_count b);
              rest = repair_session build commit cache' (snd (commit object b n)) ops in
          (take n (rb_indices b) @ fst rest, snd rest))"

lemma distinct_of_nat16: "b \<le> 65536 \<Longrightarrow> distinct (map (of_nat :: nat \<Rightarrow> u16) [a..<b])"
  unfolding distinct_map by (intro conjI inj_onI, simp, drule arg_cong [of _ _ unat]) (simp add: unat_of_nat)

lemma upt_split: "a \<le> b \<Longrightarrow> b \<le> c \<Longrightarrow> [a..<c] = [a..<b] @ [b..<c]"
  using upt_add_eq_append [of a b "c - b"] by simp

lemma repair_build_indices:
  assumes "transport_repair_build now create encode alloc_ok cache object False (Some ix) = (Some b, cache')"
    "distinct ix" "length ix \<le> REPAIR_MAX_SYMBOLS" "\<forall>i\<in>set ix. unat i < FEC_MAX_TOTAL_SYMBOLS"
  shows "rb_indices b = ix"
  using repair_build_Some [OF assms(1)] collect_indices_distinct [of "[]" ix] assms(2-4) by auto

lemma build_rateless_indices:
  assumes r: "transport_repair_build_rateless now create encode alloc_ok cache object requested = (Some b, cache')"
  defines "first \<equiv> unat (se_next_repair_symbol object)"
  shows "se_data_symbols object \<le> se_next_repair_symbol object \<and> first + rb_count b \<le> FEC_MAX_TOTAL_SYMBOLS \<and>
    0 < rb_count b \<and> rb_count b \<le> requested \<and> rb_indices b = map of_nat [first..<first + rb_count b]"
proof -
  let ?n = "min (min requested REPAIR_MAX_SYMBOLS) (FEC_MAX_TOTAL_SYMBOLS - first)"
  let ?ix = "map (\<lambda>i. of_nat (first + i)) [0..<?n] :: u16 list"
  have g: "requested \<noteq> 0" "se_data_symbols object \<le> se_next_repair_symbol object"
    "first < FEC_MAX_TOTAL_SYMBOLS" and
    b: "transport_repair_build now create encode alloc_ok cache object False (Some ?ix) = (Some b, cache')"
    using r by (auto simp: transport_repair_build_rateless_def Let_def first_def split: if_splits)
  have e: "?ix = map of_nat [first..<first + ?n]" by (intro nth_equalityI) simp_all
  have "rb_indices b = ?ix"
  proof (rule repair_build_indices [OF b])
    show "distinct ?ix" unfolding e using g(3) by (intro distinct_of_nat16) simp
    show "\<forall>i\<in>set ?ix. unat i < FEC_MAX_TOTAL_SYMBOLS" using g(3) unfolding e by (auto simp: unat_of_nat)
  qed simp
  moreover have "first + ?n \<le> FEC_MAX_TOTAL_SYMBOLS" "?n \<le> requested" using g(3) by linarith+
  ultimately show ?thesis using e g by simp
qed

lemma commit_rateless_ok:
  assumes "rb_indices b = map of_nat [unat (se_next_repair_symbol object)..<unat (se_next_repair_symbol object) + m]"
    "unat (se_next_repair_symbol object) + m \<le> FEC_MAX_TOTAL_SYMBOLS" "0 < n" "n \<le> m"
  shows "transport_repair_commit_rateless object b n = (True, object\<lparr>se_next_repair_symbol :=
    of_nat (unat (se_next_repair_symbol object) + n)\<rparr>)"
proof -
  have "unat (rb_indices b ! i) = unat (se_next_repair_symbol object) + i" if "i < n" for i
    using assms that by (simp add: unat_of_nat del: of_nat_add)
  then show ?thesis using assms by (simp add: transport_repair_commit_rateless_def list_ex_iff del: of_nat_add)
qed

lemma rateless_session:
  fixes object :: sent_entry and create :: "fec_type \<Rightarrow> nat \<Rightarrow> nat \<Rightarrow> nat \<Rightarrow> nat option"
    and encode :: "nat \<Rightarrow> bytes list \<Rightarrow> bytes list option"
  defines "run \<equiv> repair_session (\<lambda>now. transport_repair_build_rateless now create encode)
    transport_repair_commit_rateless"
  shows "run cache object ops = (sent, object') \<Longrightarrow>
    sent = map of_nat [unat (se_next_repair_symbol object)..<unat (se_next_repair_symbol object')] \<and>
    se_next_repair_symbol object \<le> se_next_repair_symbol object' \<and>
    object' = object\<lparr>se_next_repair_symbol := se_next_repair_symbol object'\<rparr> \<and>
    (sent \<noteq> [] \<longrightarrow> se_data_symbols object \<le> se_next_repair_symbol object \<and>
       unat (se_next_repair_symbol object') \<le> FEC_MAX_TOTAL_SYMBOLS)"
proof (induction ops arbitrary: cache object sent)
  case Nil
  then show ?case by (simp add: run_def)
next
  case (Cons op ops)
  obtain now ok requested admitted where op: "op = (now, ok, requested, admitted)" by (cases op)
  let ?build = "transport_repair_build_rateless now create encode ok cache object requested"
  show ?case
  proof (cases "fst ?build")
    case None
    then have "run (snd ?build) object ops = (sent, object')" using Cons.prems
      by (cases ?build) (simp add: run_def op)
    then show ?thesis by (rule Cons.IH)
  next
    case (Some b)
    then obtain cache' where b: "?build = (Some b, cache')" by (cases ?build) simp
    define n where "n = min admitted (rb_count b)"
    let ?o = "snd (transport_repair_commit_rateless object b n)"
    let ?first = "unat (se_next_repair_symbol object)"
    note ix = build_rateless_indices [OF b]
    obtain rest where rest: "run cache' ?o ops = (rest, object')" "sent = take n (rb_indices b) @ rest"
    proof -
      have "(sent, object') = (take n (rb_indices b) @ fst (run cache' ?o ops), snd (run cache' ?o ops))"
        using Cons.prems b by (simp add: run_def op n_def Let_def)
      then show thesis using that by (cases "run cache' ?o ops") simp
    qed
    note ih = Cons.IH [OF rest(1)]
    show ?thesis
    proof (cases "n = 0")
      case True
      then have "?o = object" by (simp add: transport_repair_commit_rateless_def)
      then show ?thesis using ih rest(2) True by simp
    next
      case False
      have o: "?o = object\<lparr>se_next_repair_symbol := of_nat (?first + n)\<rparr>"
        using commit_rateless_ok [of b object "rb_count b" n] ix False by (simp add: n_def)
      have u: "unat (se_next_repair_symbol ?o) = ?first + n"
      proof -
        have "?first + n < 65536" using ix unfolding n_def by linarith
        then show ?thesis unfolding o by (simp add: unat_of_nat del: of_nat_add)
      qed
      have le: "?first + n \<le> unat (se_next_repair_symbol object')"
        using ih u by (simp add: word_le_nat_alt)
      have t: "take n (rb_indices b) = map of_nat [?first..<?first + n]"
      proof -
        have "take n (rb_indices b) = take n (map of_nat [?first..<?first + rb_count b])" using ix by simp
        also have "\<dots> = map of_nat [?first..<?first + n]" by (simp add: take_map take_upt n_def)
        finally show ?thesis .
      qed
      have "sent = map of_nat [?first..<unat (se_next_repair_symbol object')]"
        unfolding rest(2) t using ih u upt_split [of ?first "?first + n" "unat (se_next_repair_symbol object')"] le
        by simp
      moreover have "unat (se_next_repair_symbol object') \<le> FEC_MAX_TOTAL_SYMBOLS"
      proof (cases "rest = []")
        case True
        then have "unat (se_next_repair_symbol object') \<le> unat (se_next_repair_symbol ?o)" using ih by auto
        then show ?thesis using u ix unfolding n_def by linarith
      qed (use ih in simp)
      moreover have "object' = object\<lparr>se_next_repair_symbol := se_next_repair_symbol object'\<rparr>"
        using ih unfolding o by simp
      moreover have "se_next_repair_symbol object \<le> se_next_repair_symbol object'"
        using le by (simp add: word_le_nat_alt)
      ultimately show ?thesis using ix by simp
    qed
  qed
qed


section \<open>Systematic symbols in rotation\<close>

abbreviation (input) "rotation cursor k a b \<equiv> map (\<lambda>i. of_nat ((cursor + i) mod k)) [a..<b]"

lemma build_systematic_indices:
  assumes r: "transport_repair_build_systematic_fallback now create encode alloc_ok cache object requested = (Some b, cache')"
  defines "k \<equiv> unat (se_data_symbols object)" and "cursor \<equiv> unat (se_next_systematic_repair_symbol object)"
  shows "cursor < k \<and> 0 < rb_count b \<and> rb_count b \<le> requested \<and> rb_count b \<le> k \<and>
    rb_indices b = rotation cursor k 0 (rb_count b)"
proof -
  let ?n = "min (min requested REPAIR_MAX_SYMBOLS) k"
  let ?ix = "rotation cursor k 0 ?n :: u16 list"
  have g: "requested \<noteq> 0" "cursor < k" and
    b: "transport_repair_build now create encode alloc_ok cache object False (Some ?ix) = (Some b, cache')"
    using r by (auto simp: transport_repair_build_systematic_fallback_def Let_def cursor_def k_def
        word_le_nat_alt split: if_splits)
  have k: "k < 65536" using unat_less_2p [of "se_data_symbols object"] by (simp add: k_def)
  from repair_build_Some [OF b] have "Some (rb_indices b) = collect_indices [] (take REPAIR_MAX_SYMBOLS ?ix)" by auto
  then have c: "collect_indices [] ?ix = Some (rb_indices b)" by simp
  have "distinct ?ix"
  proof (unfold distinct_map, intro conjI distinct_upt inj_onI)
    fix i j assume ij: "i \<in> set [0..<?n]" "j \<in> set [0..<?n]"
      "(of_nat ((cursor + i) mod k) :: u16) = of_nat ((cursor + j) mod k)"
    have l: "(cursor + i) mod k < 65536" "(cursor + j) mod k < 65536"
      using mod_less_divisor [of k] g(2) k by (metis less_trans not_gr_zero not_less_zero)+
    have "(cursor + i) mod k = (cursor + j) mod k"
      using arg_cong [OF ij(3), of unat] l by (simp add: unat_of_nat_small)
    moreover have "i < k" "j < k" using ij by simp_all
    ultimately show "i = j"
      using g(2) by (auto simp: mod_if [of "cursor + _"] le_mod_geq split: if_splits)
  qed
  with collect_indices_Some [OF c] have "\<forall>m\<in>set ?ix. unat m < FEC_MAX_TOTAL_SYMBOLS" by simp
  then have "collect_indices [] ?ix = Some ([] @ ?ix)"
    using \<open>distinct ?ix\<close> by (intro collect_indices_distinct) simp_all
  then have e: "rb_indices b = ?ix" using c by simp
  have "?n \<le> requested" "?n \<le> k" "0 < ?n" using g by auto
  then show ?thesis using e g by simp
qed

lemma commit_systematic_ok:
  assumes "rb_indices b = rotation (unat (se_next_systematic_repair_symbol object)) (unat (se_data_symbols object)) 0 m"
    "unat (se_next_systematic_repair_symbol object) < unat (se_data_symbols object)" "0 < n" "n \<le> m"
  shows "transport_repair_commit_systematic_fallback object b n = (True, object\<lparr>se_next_systematic_repair_symbol :=
    of_nat ((unat (se_next_systematic_repair_symbol object) + n) mod unat (se_data_symbols object))\<rparr>)"
proof -
  let ?k = "unat (se_data_symbols object)" and ?c = "unat (se_next_systematic_repair_symbol object)"
  have l: "x mod ?k < 65536" for x
  proof -
    have "x mod ?k < ?k" using assms(2) by (intro mod_less_divisor) linarith
    then show ?thesis using unat_less_2p [of "se_data_symbols object"] by simp
  qed
  have "unat (rb_indices b ! i) = (?c + i) mod ?k" if "i < n" for i
    using assms(1,4) that l [of "?c + i"] by (simp add: unat_of_nat_small)
  then show ?thesis using assms
    by (simp add: transport_repair_commit_systematic_fallback_def list_ex_iff word_less_nat_alt
        word_le_nat_alt unat_gt_0 [symmetric] Let_def)
qed


lemma rotation_split:
  "a \<le> n \<Longrightarrow> rotation c k 0 n = rotation c k 0 a @ (rotation ((c + a) mod k) k 0 (n - a) :: u16 list)"
  by (intro nth_equalityI) (auto simp: nth_append mod_simps add.assoc)

lemma systematic_session:
  fixes object :: sent_entry and create :: "fec_type \<Rightarrow> nat \<Rightarrow> nat \<Rightarrow> nat \<Rightarrow> nat option"
    and encode :: "nat \<Rightarrow> bytes list \<Rightarrow> bytes list option"
  defines "run \<equiv> repair_session (\<lambda>now. transport_repair_build_systematic_fallback now create encode)
    transport_repair_commit_systematic_fallback"
  shows "run cache object ops = (sent, object') \<Longrightarrow>
    unat (se_next_systematic_repair_symbol object) < unat (se_data_symbols object) \<Longrightarrow>
    sent = rotation (unat (se_next_systematic_repair_symbol object)) (unat (se_data_symbols object)) 0 (length sent) \<and>
    object' = object\<lparr>se_next_systematic_repair_symbol :=
      of_nat ((unat (se_next_systematic_repair_symbol object) + length sent) mod unat (se_data_symbols object))\<rparr>"
proof (induction ops arbitrary: cache object sent)
  case Nil
  then show ?case by (simp add: run_def)
next
  case (Cons op ops)
  obtain now ok requested admitted where op: "op = (now, ok, requested, admitted)" by (cases op)
  let ?build = "transport_repair_build_systematic_fallback now create encode ok cache object requested"
  show ?case
  proof (cases "fst ?build")
    case None
    then have "run (snd ?build) object ops = (sent, object')" using Cons.prems(1)
      by (cases ?build) (simp add: run_def op)
    then show ?thesis using Cons.prems(2) by (rule Cons.IH)
  next
    case (Some b)
    then obtain cache' where b: "?build = (Some b, cache')" by (cases ?build) simp
    define n where "n = min admitted (rb_count b)"
    let ?o = "snd (transport_repair_commit_systematic_fallback object b n)"
    let ?c = "unat (se_next_systematic_repair_symbol object)" and ?k = "unat (se_data_symbols object)"
    note ix = build_systematic_indices [OF b]
    obtain rest where rest: "run cache' ?o ops = (rest, object')" "sent = take n (rb_indices b) @ rest"
    proof -
      have "(sent, object') = (take n (rb_indices b) @ fst (run cache' ?o ops), snd (run cache' ?o ops))"
        using Cons.prems(1) b by (simp add: run_def op n_def Let_def)
      then show thesis using that by (cases "run cache' ?o ops") simp
    qed
    have o: "?o = object\<lparr>se_next_systematic_repair_symbol := of_nat ((?c + n) mod ?k)\<rparr>"
    proof (cases "n = 0")
      case True
      then have "?o = object" by (simp add: transport_repair_commit_systematic_fallback_def Let_def)
      then show ?thesis using True ix by simp
    next
      case False
      then show ?thesis using commit_systematic_ok [of b object "rb_count b" n] ix by (simp add: n_def)
    qed
    have lt: "(?c + n) mod ?k < ?k" using ix by (intro mod_less_divisor) linarith
    have u: "unat (se_next_systematic_repair_symbol ?o) = (?c + n) mod ?k"
      unfolding o using lt unat_less_2p [of "se_data_symbols object"] by (simp add: unat_of_nat_small)
    have k: "se_data_symbols ?o = se_data_symbols object" unfolding o by simp
    have "rest = rotation ((?c + n) mod ?k) ?k 0 (length rest) \<and>
      object' = ?o\<lparr>se_next_systematic_repair_symbol := of_nat (((?c + n) mod ?k + length rest) mod ?k)\<rparr>"
      using Cons.IH [OF rest(1)] lt unfolding u k by simp
    then have r: "rest = rotation ((?c + n) mod ?k) ?k 0 (length rest)"
      "object' = object\<lparr>se_next_systematic_repair_symbol := of_nat ((?c + (n + length rest)) mod ?k)\<rparr>"
      unfolding o by (simp_all add: mod_simps add.assoc)
    have t: "take n (rb_indices b) = rotation ?c ?k 0 n"
    proof -
      have "take n (rb_indices b) = take n (rotation ?c ?k 0 (rb_count b))" using ix by simp
      also have "\<dots> = rotation ?c ?k 0 n" by (simp add: take_map take_upt n_def)
      finally show ?thesis .
    qed
    have l: "length sent = n + length rest" unfolding rest(2) t by simp
    have "sent = rotation ?c ?k 0 (n + length rest)"
      using rotation_split [of n "n + length rest" ?c ?k] rest(2) t r(1) by simp
    then show ?thesis unfolding l using r(2) by blast
  qed
qed

section \<open>Properties\<close>

text \<open>
  C28. A batch of repair symbols is what was asked for. Whatever codec the FEC library provides
  (as long as it answers with the number and size of blocks it was created for), a batch that
  \<open>transport_repair_build\<close> returns lists every requested index once (the first 64 requested, or
  the first 64 data symbols of the whole object), at most 64 of them; the symbol stored for an
  index is the data block with that number, cut from the retained payload and padded with
  zeros, or the parity block that a codec of exactly these parameters computed from all the
  data blocks; every index is below the announced total, which has not wrapped around; and the
  codec cache keeps its invariant.
\<close>

theorem repair_batch_correct:
  assumes "fec_cache_ok params cache" "codec_laws params create encode"
    and "transport_repair_build now create encode alloc_ok cache object whole missing = (Some b, cache')"
  shows "let k = unat (se_data_symbols object); z = unat (se_symbol_size object) in
    fec_cache_ok params cache' \<and> distinct (rb_indices b) \<and> length (rb_indices b) \<le> 64 \<and>
    set (rb_indices b) = (if whole then of_nat ` {..<min k 64} else set (take 64 (the missing))) \<and>
    rb_symbol_size b = se_symbol_size object \<and> length (rb_symbols b) = length (rb_indices b) * z \<and>
    (\<exists>data parity. se_data object = Some data \<and> unat (rb_total_symbols b) = k + length parity \<and>
       (\<forall>j < length (rb_indices b). unat (rb_indices b ! j) < k + length parity \<and>
          take z (drop (j * z) (rb_symbols b)) =
            (map (data_block (pl_bytes data) z) [0..<k] @ parity) ! unat (rb_indices b ! j)) \<and>
       (parity \<noteq> [] \<longrightarrow> (\<exists>h t. params h = (t, k, length parity, z) \<and>
          encode h (map (data_block (pl_bytes data) z) [0..<k]) = Some parity)))"
  unfolding Let_def by (rule repair_build_correct [OF assms])

definition example_object :: sent_entry where
  "example_object = zero_entry\<lparr>se_data := Some \<lparr>pl_address = 64, pl_bytes = [1, 2, 3]\<rparr>,
     se_track_id := zero_track\<lparr>ti_flags := 4\<rparr>, se_data_symbols := 2, se_total_symbols := 2,
     se_symbol_size := 2, se_next_repair_symbol := 2\<rparr>"

definition example_create :: "fec_type \<Rightarrow> nat \<Rightarrow> nat \<Rightarrow> nat \<Rightarrow> nat option" where
  "example_create t k p z = (if (t, k, p, z) = (FEC_RAPTORQ, 2, 1, 2) then Some 5 else None)"

definition example_encode :: "nat \<Rightarrow> bytes list \<Rightarrow> bytes list option" where
  "example_encode h ds = (if h = 5 then Some [map2 (XOR) (ds ! 0) (ds ! 1)] else None)"


definition example_cache :: "fec_cache_entry list" where
  "example_cache = replicate FEC_CACHE_SIZE zero_fec_entry"

lemma example_codec: "codec_laws (\<lambda>h. (FEC_RAPTORQ, 2, 1, 2)) example_create example_encode"
  by (auto simp: codec_laws_def example_create_def example_encode_def split: if_splits)

lemma example_cache_ok: "fec_cache_ok params example_cache"
  by (auto simp: fec_cache_ok_def example_cache_def zero_fec_entry_def)

lemma example_get: "transport_fec_cache_get 9 (Some 5) example_cache FEC_RAPTORQ 2 1 2 =
   (Some 5, example_cache[fec_lru example_cache := \<lparr>fe_type = FEC_RAPTORQ, fe_data_symbols = 2,
     fe_parity_symbols = 1, fe_symbol_size = 2, fe_fec = Some 5, fe_last_used_ns = 9\<rparr>])"
proof -
  have "first_index (\<lambda>e. fe_fec e \<noteq> None \<and> fe_type e = FEC_RAPTORQ \<and> fe_data_symbols e = 2 \<and>
    fe_parity_symbols e = 1 \<and> fe_symbol_size e = 2) example_cache = None"
    by (simp add: first_index_None example_cache_def zero_fec_entry_def)
  then show ?thesis by (simp add: transport_fec_cache_get_def)
qed

lemma example_build: "fst (transport_repair_build 9 example_create example_encode True example_cache example_object False
    (Some [2, 0])) = Some \<lparr>rb_indices = [2, 0], rb_symbols = [2, 2, 1, 2], rb_total_symbols = 3, rb_symbol_size = 2\<rparr>"
proof -
  have o: "se_data example_object = Some \<lparr>pl_address = 64, pl_bytes = [1, 2, 3]\<rparr>"
    "se_data_symbols example_object = 2" "se_symbol_size example_object = 2" "se_total_symbols example_object = 2"
    "ti_flags (se_track_id example_object) = 4"
    by (simp_all add: example_object_def zero_entry_def zero_track_def)
  have p: "repair_parity example_object [2, 0] = 1" by (simp add: repair_parity_def o Let_def)
  have b: "map (data_block [1, 2, 3] 2) [0..<2] = [[1, 2], [3, 0]]"
    by (simp add: data_block_def fill_array_def upt_rec numeral_2_eq_2)
  have e: "example_encode 5 [[1, 2], [3, 0]] = Some [[2, 2]]" by (simp add: example_encode_def)
  have k: "example_create FEC_RAPTORQ 2 1 2 = Some 5" by (simp add: example_create_def)
  show ?thesis
    by (simp add: transport_repair_build_def o append_unique_def p b e k [unfolded One_nat_def] example_get [unfolded One_nat_def] SIZE_MAX_def Let_def)
qed

theorem repair_batch_correct_witness:
  "\<exists>b cache'. transport_repair_build 9 example_create example_encode True example_cache example_object False
     (Some [2, 0]) = (Some b, cache') \<and> distinct (rb_indices b) \<and>
   rb_symbols b = [2, 2, 1, 2] \<and> unat (rb_total_symbols b) = 3"
proof -
  let ?b = "\<lparr>rb_indices = [2, 0], rb_symbols = [2, 2, 1, 2], rb_total_symbols = 3, rb_symbol_size = 2\<rparr>"
  obtain cache' where r: "transport_repair_build 9 example_create example_encode True example_cache
      example_object False (Some [2, 0]) = (Some ?b, cache')"
    using example_build by (metis prod.collapse)
  from repair_batch_correct [OF example_cache_ok example_codec r] have "distinct (rb_indices ?b)"
    by (simp add: Let_def)
  then show ?thesis using r by auto
qed

text \<open>
  C29. No rateless repair symbol is ever sent twice. Take any sequence of repairs of one object,
  each building a batch and committing the part of it that the network accepted; whatever is
  requested, accepted or fails to build, the symbol indices sent over the whole sequence are
  consecutive numbers from the object's counter up to its final value, all different, none a
  source symbol and none beyond the largest codec index, and nothing but the counter of the
  object changes.
\<close>

theorem rateless_repair_fresh:
  "case repair_session (\<lambda>now. transport_repair_build_rateless now create encode)
       transport_repair_commit_rateless cache object ops of (sent, object') \<Rightarrow>
     sent = map of_nat [unat (se_next_repair_symbol object)..<unat (se_next_repair_symbol object')] \<and>
     distinct sent \<and> set sent \<subseteq> {i. se_data_symbols object \<le> i \<and> unat i < 1024} \<and>
     object' = object\<lparr>se_next_repair_symbol := se_next_repair_symbol object'\<rparr>"
proof -
  obtain sent object' where r: "repair_session (\<lambda>now. transport_repair_build_rateless now create encode)
       transport_repair_commit_rateless cache object ops = (sent, object')" by (cases "repair_session
       (\<lambda>now. transport_repair_build_rateless now create encode) transport_repair_commit_rateless cache object ops")
  note s = rateless_session [OF r]
  let ?a = "unat (se_next_repair_symbol object)" and ?b = "unat (se_next_repair_symbol object')"
  have b: "?b < 65536" using unat_less_2p [of "se_next_repair_symbol object'"] by simp
  have "se_data_symbols object \<le> (of_nat i :: u16) \<and> unat (of_nat i :: u16) < 1024" if "?a \<le> i" "i < ?b" for i
  proof -
    have "sent \<noteq> []" using s that by auto
    then have "unat (se_data_symbols object) \<le> ?a" "?b \<le> 1024" using s by (simp_all add: word_le_nat_alt)
    moreover have "unat (of_nat i :: u16) = i" using that b by (simp add: unat_of_nat_small)
    ultimately show ?thesis using that by (simp add: word_le_nat_alt)
  qed
  then have "set sent \<subseteq> {i. se_data_symbols object \<le> i \<and> unat i < 1024}" using s by auto
  moreover have "distinct sent" using s b distinct_of_nat16 [of ?b ?a] by simp
  ultimately show ?thesis unfolding r using s by simp
qed

text \<open>
  Once the rateless indices are used up, the source symbols are repeated in rotation: over
  any sequence of fallback repairs, accepted in part or in full, the indices sent run through
  the data symbols in order, starting at the object's cursor and wrapping at their number, and
  the cursor ends where the next repair continues.
\<close>

theorem systematic_repair_rotates:
  assumes "se_next_systematic_repair_symbol object < se_data_symbols object"
    and "repair_session (\<lambda>now. transport_repair_build_systematic_fallback now create encode)
       transport_repair_commit_systematic_fallback cache object ops = (sent, object')"
  shows "sent = map (\<lambda>i. of_nat ((unat (se_next_systematic_repair_symbol object) + i) mod
      unat (se_data_symbols object))) [0..<length sent] \<and>
    object' = object\<lparr>se_next_systematic_repair_symbol :=
      of_nat ((unat (se_next_systematic_repair_symbol object) + length sent) mod unat (se_data_symbols object))\<rparr>"
proof -
  have "unat (se_next_systematic_repair_symbol object) < unat (se_data_symbols object)"
    using assms(1) by (simp add: word_less_nat_alt)
  from systematic_session [OF assms(2) this] show ?thesis .
qed

text \<open>
  C30. The request limiter bounds the repair work a peer can cause. Over any non-decreasing
  sequence of request times the limiter grants at most one burst (the requests of one second)
  plus \<open>requests_per_second\<close> per second of elapsed time: 1000 milli-tokens per grant against a
  full bucket and \<open>requests_per_second\<close> milli-tokens per millisecond.
\<close>

theorem repair_limiter_bound:
  assumes "limiter_ok rps l" "sorted (nat (rl_last_refill_ms l) # ts)"
    and "bucket_run (\<lambda>l now. transport_repair_limiter_take l rps (int now)) l ts = (granted, l')"
  shows "granted * 1000 \<le> rps * 1000 + rps * (nat (rl_last_refill_ms l') - nat (rl_last_refill_ms l))"
  using assms by (rule limiter.granted_bound)

text \<open>
  The waiting time announced to a requester is exact: if the limiter announces \<open>n\<close>
  milliseconds, a request \<open>d\<close> milliseconds later is granted if and only if \<open>n \<le> d\<close>.
\<close>

theorem repair_wait_exact:
  assumes "limiter_ok rps l" "rl_last_refill_ms l \<le> now"
    and "transport_repair_limiter_wait_ms l rps now = (n, l')"
  shows "limiter_ok rps l' \<and> rl_last_refill_ms l' = now \<and>
    (fst (transport_repair_limiter_take l' rps (now + int d)) \<longleftrightarrow> n \<le> d)"
  using assms by (rule wait_exact)

text \<open>
  The list of missing symbols of a repair request is brought into its canonical form in
  place: the returned count is the number of different indices, and the front of the array holds
  them in strictly increasing order.
\<close>

theorem repair_indices_normalized:
  assumes "n \<le> length xs" "transport_repair_normalize_indices xs n = (unique, ys)"
  shows "sorted_wrt (<) (take unique ys) \<and> set (take unique ys) = set (take n xs) \<and>
    unique = card (set (take n xs)) \<and> length ys = length xs"
proof -
  note r = normalize_result [OF assms]
  then have "unique = length (take unique ys)" using assms(1) by simp
  moreover have "distinct (take unique ys)" using r strict_sorted_iff by blast
  ultimately have "unique = card (set (take unique ys))" using distinct_card [of "take unique ys"] by simp
  then show ?thesis using r by simp
qed

section \<open>Witnesses\<close>

lemma systematic_session_example:
  "repair_session (\<lambda>now. transport_repair_build_systematic_fallback now example_create example_encode)
     transport_repair_commit_systematic_fallback example_cache
     (example_object\<lparr>se_next_repair_symbol := 1024, se_next_systematic_repair_symbol := 0\<rparr>) [(9, True, 1, 1), (10, True, 2, 2)] =
   ([0, 1, 0], example_object\<lparr>se_next_repair_symbol := 1024, se_next_systematic_repair_symbol := 1\<rparr>)"
proof -
  let ?o = "\<lambda>c. example_object\<lparr>se_next_repair_symbol := 1024, se_next_systematic_repair_symbol := c\<rparr>"
  have f: "se_data (?o c) = Some \<lparr>pl_address = 64, pl_bytes = [1, 2, 3]\<rparr>"
    "se_data_symbols (?o c) = 2" "se_symbol_size (?o c) = 2" "se_total_symbols (?o c) = 2"
    "ti_flags (se_track_id (?o c)) = 4" for c
    by (simp_all add: example_object_def zero_entry_def zero_track_def)
  have b: "map (data_block [1, 2, 3] 2) [0..<2] = [[1, 2], [3, 0]]"
    by (simp add: data_block_def fill_array_def upt_rec numeral_2_eq_2)
  have p: "repair_parity (?o 0) [0] = 0" "repair_parity (?o 1) [1, 0] = 0" by (simp_all add: repair_parity_def f Let_def word_le_nat_alt)
  have u: "[0..<2] = [0, 1 :: nat]" by (simp add: upt_rec numeral_2_eq_2)
  have 1: "transport_repair_build_systematic_fallback 9 example_create example_encode True example_cache (?o 0) 1 =
    (Some \<lparr>rb_indices = [0], rb_symbols = [1, 2], rb_total_symbols = 2, rb_symbol_size = 2\<rparr>, example_cache)"
    using f b p by (simp add: transport_repair_build_systematic_fallback_def transport_repair_build_def append_unique_def SIZE_MAX_def Let_def)
  have 2: "transport_repair_build_systematic_fallback 10 example_create example_encode True example_cache (?o 1) 2 =
    (Some \<lparr>rb_indices = [1, 0], rb_symbols = [3, 0, 1, 2], rb_total_symbols = 2, rb_symbol_size = 2\<rparr>, example_cache)"
  proof -
    have "transport_repair_build_systematic_fallback 10 example_create example_encode True example_cache (?o 1) 2 =
      transport_repair_build 10 example_create example_encode True example_cache (?o 1) False (Some [1, 0])"
      using f by (simp add: transport_repair_build_systematic_fallback_def Let_def u word_le_nat_alt)
    then show ?thesis
      using f b p by (simp add: transport_repair_build_def append_unique_def SIZE_MAX_def Let_def)
  qed
  have 3: "snd (transport_repair_commit_systematic_fallback (?o 0)
      \<lparr>rb_indices = [0], rb_symbols = [1, 2], rb_total_symbols = 2, rb_symbol_size = 2\<rparr> 1) = ?o 1"
    using f by (simp add: transport_repair_commit_systematic_fallback_def Let_def)
  have 4: "snd (transport_repair_commit_systematic_fallback (?o 1)
      \<lparr>rb_indices = [1, 0], rb_symbols = [3, 0, 1, 2], rb_total_symbols = 2, rb_symbol_size = 2\<rparr> 2) = ?o 1"
    using f by (simp add: transport_repair_commit_systematic_fallback_def Let_def u word_le_nat_alt)
  show ?thesis using 1 2 3 4 by (simp add: numeral_2_eq_2)
qed

lemma systematic_repair_rotates_witness:
  "let object = example_object\<lparr>se_next_repair_symbol := 1024, se_next_systematic_repair_symbol := 0\<rparr>;
     run = repair_session (\<lambda>now. transport_repair_build_systematic_fallback now example_create example_encode)
       transport_repair_commit_systematic_fallback example_cache object [(9, True, 1, 1), (10, True, 2, 2)] in
   fst run = [0, 1, 0] \<and> fst run = map (\<lambda>i. of_nat ((unat (se_next_systematic_repair_symbol object) + i) mod
      unat (se_data_symbols object))) [0..<length [0 :: nat, 1, 0]]"
proof -
  let ?o = "example_object\<lparr>se_next_repair_symbol := 1024, se_next_systematic_repair_symbol := 0\<rparr>"
  have "se_next_systematic_repair_symbol ?o < se_data_symbols ?o" by (simp add: example_object_def)
  note t = systematic_repair_rotates [OF this systematic_session_example, THEN conjunct1]
  have l: "length [0 :: u16, 1, 0] = length [0 :: nat, 1, 0]" by simp
  show ?thesis
    unfolding Let_def systematic_session_example fst_conv using t unfolding l by (intro conjI refl)
qed

lemma repair_limiter_bound_witness:
  "bucket_run (\<lambda>l now. transport_repair_limiter_take l 2 (int now))
     \<lparr>rl_tokens_milli = 1000, rl_last_refill_ms = 5\<rparr> [5, 6, 505] =
     (2, \<lparr>rl_tokens_milli = 0, rl_last_refill_ms = 505\<rparr>) \<and> (2 :: nat) * 1000 \<le> 2 * 1000 + 2 * (505 - 5)"
proof -
  let ?l = "\<lparr>rl_tokens_milli = 1000, rl_last_refill_ms = 5\<rparr>"
  have r: "bucket_run (\<lambda>l now. transport_repair_limiter_take l 2 (int now)) ?l [5, 6, 505] =
     (2, \<lparr>rl_tokens_milli = 0, rl_last_refill_ms = 505\<rparr>)"
    by (simp add: transport_repair_limiter_take_def refill_limiter_def SIZE_MAX_def sz_mul_def sz_sub_def
        sz_add_def Let_def)
  have "limiter_ok 2 ?l" by (simp add: limiter_ok_def SIZE_MAX_def)
  from repair_limiter_bound [OF this _ r] r show ?thesis by simp
qed

lemma repair_wait_exact_witness:
  "transport_repair_limiter_wait_ms \<lparr>rl_tokens_milli = 0, rl_last_refill_ms = 5\<rparr> 2 105 =
     (400, \<lparr>rl_tokens_milli = 200, rl_last_refill_ms = 105\<rparr>) \<and>
   fst (transport_repair_limiter_take \<lparr>rl_tokens_milli = 200, rl_last_refill_ms = 105\<rparr> 2 505) \<and>
   \<not> fst (transport_repair_limiter_take \<lparr>rl_tokens_milli = 200, rl_last_refill_ms = 105\<rparr> 2 504)"
proof -
  let ?l = "\<lparr>rl_tokens_milli = 0, rl_last_refill_ms = 5\<rparr>"
  have r: "transport_repair_limiter_wait_ms ?l 2 105 = (400, \<lparr>rl_tokens_milli = 200, rl_last_refill_ms = 105\<rparr>)"
    by (simp add: transport_repair_limiter_wait_ms_def refill_limiter_def SIZE_MAX_def sz_mul_def sz_sub_def
        sz_add_def Let_def)
  have "limiter_ok 2 ?l" by (simp add: limiter_ok_def SIZE_MAX_def)
  from repair_wait_exact [OF this _ r, of 400] repair_wait_exact [OF this _ r, of 399] r show ?thesis by simp
qed

lemma repair_indices_normalized_witness:
  "transport_repair_normalize_indices [7, 3, 7, 9] 3 = (2, [3, 7, 7, 9]) \<and>
   card (set (take 3 [7 :: u16, 3, 7, 9])) = 2"
proof -
  have r: "transport_repair_normalize_indices [7, 3, 7, 9] 3 = (2, [3, 7, 7, 9])" by code_simp
  from repair_indices_normalized [OF _ r] r show ?thesis by simp
qed
end
