(* ===== verification/Memory.thy ===== *)
theory Memory
  imports Qlinq_Prelude
begin

text \<open>
  The two allocators of the transport (\<open>transport_memory.c\<close>): the arena of short lived packet
  buffers and the storage of a frame assembler. An arena block is an offset into the arena's
  buffer or, when the buffer is exhausted, a heap block; a NULL buffer is \<open>None\<close>. Whether
  \<open>malloc\<close> and \<open>calloc\<close> succeed, and the address that \<open>calloc\<close> returns, are arguments.
\<close>

section \<open>The arena\<close>

datatype arena_ptr = In_buffer nat | On_heap nat

record arena =
  ar_buffer :: "bytes option"
  ar_capacity :: nat
  ar_offset :: nat
  ar_fallbacks :: "nat list"

abbreviation (input) "ARENA_MAX_FALLBACKS \<equiv> (1024 :: nat)"

definition zero_arena :: arena where
  "zero_arena = \<lparr>ar_buffer = None, ar_capacity = 0, ar_offset = 0, ar_fallbacks = []\<rparr>"

definition transport_arena_init :: "bytes option \<Rightarrow> arena \<Rightarrow> nat \<Rightarrow> bool \<times> arena" where
  "transport_arena_init malloc_result arena capacity =
     (if capacity = 0 then (False, arena)
      else case malloc_result of
        None \<Rightarrow> (False, zero_arena)
      | Some buffer \<Rightarrow> (True, zero_arena\<lparr>ar_buffer := Some buffer, ar_capacity := capacity\<rparr>))"

definition transport_arena_reset :: "arena \<Rightarrow> arena" where
  "transport_arena_reset arena = arena\<lparr>ar_offset := 0, ar_fallbacks := []\<rparr>"

definition transport_arena_destroy :: "arena \<Rightarrow> arena" where
  "transport_arena_destroy arena = zero_arena"

text \<open>\<open>(size + 7U) & ~(size_t)7U\<close>\<close>

definition round_up_8 :: "nat \<Rightarrow> nat" where
  "round_up_8 n = unat ((of_nat n + 7 :: u64) AND NOT 7)"

definition transport_arena_alloc :: "nat option \<Rightarrow> arena \<Rightarrow> nat \<Rightarrow> arena_ptr option \<times> arena" where
  "transport_arena_alloc calloc_result arena requested =
     (case ar_buffer arena of
        None \<Rightarrow> (None, arena)
      | Some buffer \<Rightarrow>
        if requested > SIZE_MAX - 7 then (None, arena)
        else let size = round_up_8 requested in
          if ar_offset arena > ar_capacity arena \<or> size > sz_sub (ar_capacity arena) (ar_offset arena) then
            (if length (ar_fallbacks arena) \<ge> ARENA_MAX_FALLBACKS then (None, arena)
             else case calloc_result of
               None \<Rightarrow> (None, arena)
             | Some ptr \<Rightarrow> (Some (On_heap ptr), arena\<lparr>ar_fallbacks := ar_fallbacks arena @ [ptr]\<rparr>))
          else (Some (In_buffer (ar_offset arena)),
            arena\<lparr>ar_buffer := Some (take (ar_offset arena) buffer @ replicate size 0 @
                    drop (ar_offset arena + size) buffer),
                  ar_offset := sz_add (ar_offset arena) size\<rparr>))"

section \<open>Assembler storage\<close>

text \<open>
  The arrays of an assembler are options (NULL before the first growth); \<open>fa_buffers\<close> has a
  block of \<open>fa_capacity_symbol_size\<close> bytes per symbol. \<open>fa_owner\<close> tells whether the assembler
  is indexed in its connection.
\<close>

record frame_assembler =
  fa_owner :: bool
  fa_hash_next :: u16
  fa_track_id :: u8
  fa_group_id :: u64
  fa_object_id :: u64
  fa_total_symbols :: u16
  fa_data_symbols :: u16
  fa_symbol_size :: u16
  fa_original_size :: u32
  fa_received_count :: u16
  fa_capacity_symbols :: u16
  fa_capacity_symbol_size :: u16
  fa_buffers :: "bytes option list option"
  fa_received_mask :: "bool list option"
  fa_missing_mask :: "bool list option"
  fa_missing_indices :: "u16 list option"
  fa_decoded :: bool
  fa_priority :: u8
  fa_nack_sent :: bool
  fa_first_symbol_time_ms :: int
  fa_last_activity_time_ms :: int
  fa_last_nack_time_ms :: int

definition zero_assembler :: frame_assembler where
  "zero_assembler = \<lparr>fa_owner = False, fa_hash_next = 0, fa_track_id = 0, fa_group_id = 0,
     fa_object_id = 0, fa_total_symbols = 0, fa_data_symbols = 0, fa_symbol_size = 0,
     fa_original_size = 0, fa_received_count = 0, fa_capacity_symbols = 0,
     fa_capacity_symbol_size = 0, fa_buffers = None, fa_received_mask = None,
     fa_missing_mask = None, fa_missing_indices = None, fa_decoded = False, fa_priority = 0,
     fa_nack_sent = False, fa_first_symbol_time_ms = 0, fa_last_activity_time_ms = 0,
     fa_last_nack_time_ms = 0\<rparr>"

definition transport_assembler_release :: "frame_assembler \<Rightarrow> frame_assembler" where
  "transport_assembler_release assembler = zero_assembler"

definition transport_assembler_required_bytes :: "u16 \<Rightarrow> u16 \<Rightarrow> nat" where
  "transport_assembler_required_bytes symbols symbol_size =
     (if symbols = 0 \<or> symbol_size = 0 then 0
      else sz_mul (unat symbols) (8 + unat symbol_size + 2 * 1 + 2))"

definition transport_assembler_capacity_bytes :: "frame_assembler \<Rightarrow> nat" where
  "transport_assembler_capacity_bytes assembler =
     transport_assembler_required_bytes (fa_capacity_symbols assembler) (fa_capacity_symbol_size assembler)"

text \<open>
  The copy loop of the growth: block \<open>i\<close> of the fresh storage starts with the \<open>symbol_size\<close>
  bytes of the old block \<open>i\<close>. \<open>None\<close> when an old block is NULL.
\<close>

definition copy_symbols :: "frame_assembler \<Rightarrow> bytes option list \<Rightarrow> bool list \<Rightarrow> nat \<Rightarrow> nat \<Rightarrow>
    (bytes option list \<times> bool list) option" where
  "copy_symbols assembler old old_mask new_symbols new_symbol_size =
     foldl (\<lambda>r i. case r of
         None \<Rightarrow> None
       | Some (buffers, received) \<Rightarrow>
           (case old ! i of
              None \<Rightarrow> None
            | Some block \<Rightarrow> Some
                (buffers[i := Some (take (unat (fa_symbol_size assembler)) block @
                    replicate (new_symbol_size - unat (fa_symbol_size assembler)) 0)],
                 received[i := old_mask ! i])))
       (Some (replicate new_symbols (Some (replicate new_symbol_size 0)), replicate new_symbols False))
       [0..<unat (fa_total_symbols assembler)]"

definition transport_assembler_grow :: "bool \<Rightarrow> frame_assembler \<Rightarrow> u16 \<Rightarrow> u16 \<Rightarrow> bool \<times> frame_assembler" where
  "transport_assembler_grow alloc_ok assembler symbols symbol_size =
     (if symbols = 0 \<or> symbol_size = 0 then (False, assembler)
      else if fa_buffers assembler \<noteq> None \<and> fa_capacity_symbols assembler \<ge> symbols \<and>
              fa_capacity_symbol_size assembler \<ge> symbol_size then (True, assembler)
      else let new_symbols = (if fa_capacity_symbols assembler > symbols
                 then fa_capacity_symbols assembler else symbols);
               new_symbol_size = (if fa_capacity_symbol_size assembler > symbol_size
                 then fa_capacity_symbol_size assembler else symbol_size);
               n = unat new_symbols; z = unat new_symbol_size in
        if \<not> alloc_ok then (False, assembler)
        else case (case fa_buffers assembler of
             None \<Rightarrow> Some (replicate n (Some (replicate z 0)), replicate n False)
           | Some old \<Rightarrow>
               if fa_total_symbols assembler > 0 then
                 (case fa_received_mask assembler of
                    None \<Rightarrow> None
                  | Some old_mask \<Rightarrow>
                      if fa_total_symbols assembler > new_symbols \<or> fa_symbol_size assembler > new_symbol_size
                      then None else copy_symbols assembler old old_mask n z)
               else Some (replicate n (Some (replicate z 0)), replicate n False)) of
          None \<Rightarrow> (False, assembler)
        | Some (buffers, received) \<Rightarrow>
            (True, assembler\<lparr>fa_buffers := Some buffers, fa_received_mask := Some received,
               fa_missing_mask := Some (replicate n False), fa_missing_indices := Some (replicate n 0),
               fa_capacity_symbols := new_symbols, fa_capacity_symbol_size := new_symbol_size\<rparr>))"

section \<open>The arena hands out disjoint blocks\<close>

definition arena_ok :: "arena \<Rightarrow> bool" where
  "arena_ok a \<longleftrightarrow> ar_offset a \<le> ar_capacity a \<and> ar_capacity a \<le> SIZE_MAX \<and> ar_offset a mod 8 = 0 \<and>
     length (ar_fallbacks a) \<le> ARENA_MAX_FALLBACKS \<and>
     (case ar_buffer a of None \<Rightarrow> True | Some b \<Rightarrow> length b = ar_capacity a)"

lemma round_up_8:
  assumes "n \<le> SIZE_MAX - 7"
  shows "round_up_8 n = (n + 7) div 8 * 8"
proof -
  let ?w = "of_nat n + 7 :: u64"
  have u: "unat ?w = n + 7"
  proof -
    have "?w = of_nat (n + 7)" by simp
    moreover have "unat (of_nat (n + 7) :: u64) = n + 7"
      using assms by (intro unat_of_nat_small) (simp add: SIZE_MAX_def)
    ultimately show ?thesis by simp
  qed
  have m: "(7 :: u64) = mask 3" by (simp add: mask_eq_decr_exp)
  have "?w AND NOT 7 = push_bit 3 (drop_bit 3 ?w)" unfolding m by (simp add: bit_eq_iff bit_simps) (auto simp: bit_simps)
  then have "round_up_8 n = unat (push_bit 3 (drop_bit 3 ?w))" by (simp add: round_up_8_def)
  also have "\<dots> = unat (drop_bit 3 ?w) * 8 mod 2 ^ 64"
    by (simp add: push_bit_eq_mult unat_word_ariths(2))
  also have "unat (drop_bit 3 ?w) = (n + 7) div 8"
    unfolding unat_drop_bit_eq u by (simp add: drop_bit_eq_div)
  also have "(n + 7) div 8 * 8 mod 2 ^ 64 = (n + 7) div 8 * 8"
    using assms by (intro mod_less) (simp add: SIZE_MAX_def)
  finally show ?thesis .
qed


fun arena_run :: "arena \<Rightarrow> (nat \<times> nat option) list \<Rightarrow> (arena_ptr option \<times> nat) list \<times> arena" where
  "arena_run a [] = ([], a)"
| "arena_run a ((n, calloc_result) # requests) =
     (case transport_arena_alloc calloc_result a n of (ptr, a1) \<Rightarrow>
        (case arena_run a1 requests of (ptrs, a2) \<Rightarrow> ((ptr, n) # ptrs, a2)))"

fun buffer_blocks :: "(arena_ptr option \<times> nat) list \<Rightarrow> (nat \<times> nat) list" where
  "buffer_blocks [] = []"
| "buffer_blocks ((Some (In_buffer off), n) # ps) = (off, n) # buffer_blocks ps"
| "buffer_blocks ((_, n) # ps) = buffer_blocks ps"

fun heap_blocks :: "(arena_ptr option \<times> nat) list \<Rightarrow> nat list" where
  "heap_blocks [] = []"
| "heap_blocks ((Some (On_heap ptr), n) # ps) = ptr # heap_blocks ps"
| "heap_blocks ((_, n) # ps) = heap_blocks ps"

lemma arena_alloc_ok:
  assumes ok: "arena_ok a" and r: "transport_arena_alloc c a n = (p, a')"
  shows "arena_ok a' \<and> ar_capacity a' = ar_capacity a \<and> ar_offset a \<le> ar_offset a' \<and>
    (case p of
       None \<Rightarrow> a' = a \<and> (ar_buffer a = None \<or> n > SIZE_MAX - 7 \<or>
         (ar_capacity a - ar_offset a < (n + 7) div 8 * 8 \<and>
          (c = None \<or> length (ar_fallbacks a) = ARENA_MAX_FALLBACKS)))
     | Some (In_buffer off) \<Rightarrow> off = ar_offset a \<and> off + n \<le> ar_offset a' \<and>
         ar_fallbacks a' = ar_fallbacks a \<and>
         (\<exists>b b'. ar_buffer a = Some b \<and> ar_buffer a' = Some b' \<and> take n (drop off b') = replicate n 0 \<and>
            take off b' = take off b)
     | Some (On_heap ptr) \<Rightarrow> c = Some ptr \<and> ar_fallbacks a' = ar_fallbacks a @ [ptr] \<and> ar_offset a' = ar_offset a)"
proof (cases "ar_buffer a = None \<or> n > SIZE_MAX - 7")
  case True
  then show ?thesis using r ok by (auto simp: transport_arena_alloc_def split: option.splits)
next
  case False
  then obtain b where b: "ar_buffer a = Some b" and n: "n \<le> SIZE_MAX - 7" by auto
  let ?z = "(n + 7) div 8 * 8"
  have o: "ar_offset a \<le> ar_capacity a" "ar_capacity a \<le> SIZE_MAX" "length b = ar_capacity a"
    "length (ar_fallbacks a) \<le> ARENA_MAX_FALLBACKS" "ar_offset a mod 8 = 0"
    using ok b by (simp_all add: arena_ok_def)
  have z: "n \<le> ?z" by presburger
  note e = r [unfolded transport_arena_alloc_def b option.simps Let_def round_up_8 [OF n]]
  show ?thesis
  proof (cases "?z > ar_capacity a - ar_offset a")
    case True
    then show ?thesis using e n o ok b
      by (auto simp: sz_sub_no_wrap arena_ok_def split: if_splits option.splits)
  next
    case fits: False
    then have s: "sz_add (ar_offset a) ?z = ar_offset a + ?z" using o by (intro sz_add_no_wrap) linarith
    have p: "p = Some (In_buffer (ar_offset a))"
      "a' = a\<lparr>ar_buffer := Some (take (ar_offset a) b @ replicate ?z 0 @ drop (ar_offset a + ?z) b),
         ar_offset := ar_offset a + ?z\<rparr>"
      using e n fits o s by (auto simp: sz_sub_no_wrap split: if_splits)
    have "take n (replicate ?z (0 :: u8) @ xs) = replicate n 0" for xs using z by simp
    moreover have "(ar_offset a + ?z) mod 8 = 0" using o(5) by presburger
    ultimately show ?thesis using p o b fits z by (simp add: arena_ok_def)
  qed
qed

lemma arena_run_ok:
  "arena_ok a \<Longrightarrow> arena_run a requests = (ps, a') \<Longrightarrow>
   arena_ok a' \<and> ar_offset a \<le> ar_offset a' \<and> ar_capacity a' = ar_capacity a \<and>
   sorted_wrt (\<lambda>(o1, n1) (o2, n2). o1 + n1 \<le> o2) (buffer_blocks ps) \<and>
   (\<forall>(off, n)\<in>set (buffer_blocks ps). ar_offset a \<le> off \<and> off mod 8 = 0 \<and> off + n \<le> ar_offset a') \<and>
   ar_fallbacks a' = ar_fallbacks a @ heap_blocks ps"
proof (induction requests arbitrary: a ps)
  case Nil
  then show ?case by auto
next
  case (Cons req requests)
  obtain n c where req: "req = (n, c)" by (cases req)
  obtain p a1 where p: "transport_arena_alloc c a n = (p, a1)" by (cases "transport_arena_alloc c a n")
  obtain qs where q: "arena_run a1 requests = (qs, a')" "ps = (p, n) # qs"
    using Cons.prems(2) p req by (auto split: prod.splits)
  note al = arena_alloc_ok [OF Cons.prems(1) p]
  note ih = Cons.IH [OF _ q(1)]
  have a8: "ar_offset a mod 8 = 0" using Cons.prems(1) by (simp add: arena_ok_def)
  show ?case
  proof (cases p)
    case None
    then show ?thesis using al ih q(2) by auto
  next
    case (Some ptr)
    then show ?thesis using al ih q(2) a8 by (cases ptr) fastforce+
  qed
qed


section \<open>Growing an assembler keeps what was received\<close>

definition storage_ok :: "frame_assembler \<Rightarrow> bool" where
  "storage_ok a \<longleftrightarrow> (case fa_buffers a of
       None \<Rightarrow> fa_capacity_symbols a = 0 \<and> fa_capacity_symbol_size a = 0
     | Some bs \<Rightarrow> length bs = unat (fa_capacity_symbols a) \<and> 0 < fa_capacity_symbols a \<and>
         0 < fa_capacity_symbol_size a \<and>
         (\<forall>x\<in>set bs. \<exists>b. x = Some b \<and> length b = unat (fa_capacity_symbol_size a)) \<and>
         (\<exists>r m n. fa_received_mask a = Some r \<and> fa_missing_mask a = Some m \<and> fa_missing_indices a = Some n \<and>
            length r = length bs \<and> length m = length bs \<and> length n = length bs) \<and>
         fa_total_symbols a \<le> fa_capacity_symbols a \<and> fa_symbol_size a \<le> fa_capacity_symbol_size a)"

text \<open>What an assembler has of symbol \<open>i\<close>: whether it was received, and its bytes.\<close>

definition received_symbol :: "frame_assembler \<Rightarrow> nat \<Rightarrow> bool \<times> bytes" where
  "received_symbol a i = (the (fa_received_mask a) ! i,
     take (unat (fa_symbol_size a)) (the (the (fa_buffers a) ! i)))"

lemma copy_symbols_result:
  assumes old: "\<forall>x\<in>set old. \<exists>b. x = Some b \<and> length b = w" "unat (fa_total_symbols a) \<le> length old"
    and n: "length old \<le> n" and z: "unat (fa_symbol_size a) \<le> w" "unat (fa_symbol_size a) \<le> z"
  shows "\<exists>bs r. copy_symbols a old old_mask n z = Some (bs, r) \<and> length bs = n \<and> length r = n \<and>
    (\<forall>x\<in>set bs. \<exists>b. x = Some b \<and> length b = z) \<and>
    (\<forall>i < unat (fa_total_symbols a). r ! i = old_mask ! i \<and>
       take (unat (fa_symbol_size a)) (the (bs ! i)) = take (unat (fa_symbol_size a)) (the (old ! i)))"
proof -
  let ?s = "unat (fa_symbol_size a)"
  let ?f = "\<lambda>r i. case r of
         None \<Rightarrow> None
       | Some (buffers, received) \<Rightarrow>
           (case old ! i of
              None \<Rightarrow> None
            | Some block \<Rightarrow> Some (buffers[i := Some (take ?s block @ replicate (z - ?s) 0)], received[i := old_mask ! i]))"
  let ?i = "Some (replicate n (Some (replicate z 0)), replicate n False)"
  have "\<exists>bs r. foldl ?f ?i [0..<m] = Some (bs, r) \<and> length bs = n \<and> length r = n \<and>
    (\<forall>x\<in>set bs. \<exists>b. x = Some b \<and> length b = z) \<and>
    (\<forall>i < m. r ! i = old_mask ! i \<and> take ?s (the (bs ! i)) = take ?s (the (old ! i)))"
    if "m \<le> length old" for m
    using that
  proof (induction m)
    case 0
    then show ?case by simp
  next
    case (Suc m)
    then obtain bs r where ih: "foldl ?f ?i [0..<m] = Some (bs, r)" "length bs = n" "length r = n"
      "\<forall>x\<in>set bs. \<exists>b. x = Some b \<and> length b = z"
      "\<forall>i < m. r ! i = old_mask ! i \<and> take ?s (the (bs ! i)) = take ?s (the (old ! i))" by auto
    have "m < length old" using Suc.prems by simp
    then obtain b where b: "old ! m = Some b" "length b = w" using old(1) by (metis nth_mem)
    have m: "m < n" using Suc.prems n by simp
    let ?b = "Some (take ?s b @ replicate (z - ?s) 0)"
    have l: "length (take ?s b @ replicate (z - ?s) 0) = z" using b(2) z by simp
    have "\<forall>x\<in>set (bs[m := ?b]). \<exists>b. x = Some b \<and> length b = z"
      using ih(4) l set_update_subset_insert [of bs m ?b] by blast
    moreover have "take ?s (the (bs[m := ?b] ! i)) = take ?s (the (old ! i)) \<and> r[m := old_mask ! m] ! i = old_mask ! i"
      if "i < Suc m" for i
      using that ih(2,3,5) m b z by (cases "i = m") (auto simp: min_def)
    moreover have "foldl ?f ?i [0..<Suc m] = Some (bs[m := ?b], r[m := old_mask ! m])"
      using ih(1) b(1) by simp
    ultimately show ?case using ih(2,3) by simp
  qed
  from this [OF old(2)] show ?thesis by (simp add: copy_symbols_def)
qed

lemma required_bytes_mult:
  "transport_assembler_required_bytes s z = (if s = 0 \<or> z = 0 then 0 else unat s * (unat z + 12))"
proof -
  have "unat s * (unat z + 12) \<le> 65535 * (65535 + 12)"
    using unat_less_2p [of s] unat_less_2p [of z] by (intro mult_le_mono) auto
  then have "sz_mul (unat s) (unat z + 12) = unat s * (unat z + 12)"
    by (intro sz_mul_no_wrap) (simp add: SIZE_MAX_def)
  then show ?thesis by (simp add: transport_assembler_required_bytes_def add.commute)
qed

lemma max_u16_if: "(if a > b then a else b) = max a (b :: u16)"
  by (simp add: max.absorb3 max.absorb2 not_less)

definition reuses :: "frame_assembler \<Rightarrow> u16 \<Rightarrow> u16 \<Rightarrow> bool" where
  "reuses a symbols symbol_size \<longleftrightarrow> fa_buffers a \<noteq> None \<and> symbols \<le> fa_capacity_symbols a \<and>
     symbol_size \<le> fa_capacity_symbol_size a"

lemma assembler_grow_ok:
  assumes ok: "storage_ok a" and p: "symbols \<noteq> 0" "symbol_size \<noteq> 0"
    and r: "transport_assembler_grow alloc_ok a symbols symbol_size = (done, a')"
  shows "(done \<longleftrightarrow> alloc_ok \<or> reuses a symbols symbol_size) \<and> (\<not> done \<longrightarrow> a' = a) \<and>
    (done \<longrightarrow> (fa_buffers a = None \<longrightarrow> fa_total_symbols a \<le> symbols \<and> fa_symbol_size a \<le> symbol_size) \<longrightarrow>
       storage_ok a') \<and>
    (done \<longrightarrow> fa_buffers a' \<noteq> None \<and>
       fa_capacity_symbols a' = max (fa_capacity_symbols a) symbols \<and>
       fa_capacity_symbol_size a' = max (fa_capacity_symbol_size a) symbol_size) \<and>
    (done \<longrightarrow> fa_buffers a \<noteq> None \<longrightarrow>
       (\<forall>i < unat (fa_total_symbols a). received_symbol a' i = received_symbol a i)) \<and>
    a' = a\<lparr>fa_buffers := fa_buffers a', fa_received_mask := fa_received_mask a',
      fa_missing_mask := fa_missing_mask a', fa_missing_indices := fa_missing_indices a',
      fa_capacity_symbols := fa_capacity_symbols a', fa_capacity_symbol_size := fa_capacity_symbol_size a'\<rparr>"
proof (cases "reuses a symbols symbol_size")
  case True
  then have "done" "a' = a" using r p by (auto simp: transport_assembler_grow_def reuses_def)
  then show ?thesis using True ok by (auto simp: reuses_def max_def)
next
  case nr: False
  let ?ns = "max (fa_capacity_symbols a) symbols" and ?nz = "max (fa_capacity_symbol_size a) symbol_size"
  note r' = r [unfolded transport_assembler_grow_def max_u16_if Let_def]
  show ?thesis
  proof (cases alloc_ok)
    case False
    then show ?thesis using r' nr p by (auto simp: reuses_def)
  next
    case True
    let ?f = "case fa_buffers a of
             None \<Rightarrow> Some (replicate (unat ?ns) (Some (replicate (unat ?nz) 0)), replicate (unat ?ns) False)
           | Some old \<Rightarrow>
               if fa_total_symbols a > 0 then
                 (case fa_received_mask a of
                    None \<Rightarrow> None
                  | Some old_mask \<Rightarrow>
                      if fa_total_symbols a > ?ns \<or> fa_symbol_size a > ?nz
                      then None else copy_symbols a old old_mask (unat ?ns) (unat ?nz))
               else Some (replicate (unat ?ns) (Some (replicate (unat ?nz) 0)), replicate (unat ?ns) False)"
    have fresh: "\<exists>bs rc. ?f = Some (bs, rc) \<and> length bs = unat ?ns \<and> length rc = unat ?ns \<and>
      (\<forall>x\<in>set bs. \<exists>b. x = Some b \<and> length b = unat ?nz) \<and>
      (fa_buffers a \<noteq> None \<longrightarrow> (\<forall>i < unat (fa_total_symbols a). rc ! i = the (fa_received_mask a) ! i \<and>
         take (unat (fa_symbol_size a)) (the (bs ! i)) =
         take (unat (fa_symbol_size a)) (the (the (fa_buffers a) ! i))))"
    proof (cases "fa_buffers a")
      case (Some old)
      show ?thesis
      proof (cases "fa_total_symbols a > 0")
        case True
        obtain om where om: "fa_received_mask a = Some om" using ok Some by (auto simp: storage_ok_def)
        have le: "fa_total_symbols a \<le> fa_capacity_symbols a" "fa_symbol_size a \<le> fa_capacity_symbol_size a"
          using ok Some by (auto simp: storage_ok_def)
        then have m: "fa_total_symbols a \<le> ?ns" "fa_symbol_size a \<le> ?nz" by (auto simp: le_max_iff_disj)
        have "\<forall>x\<in>set old. \<exists>b. x = Some b \<and> length b = unat (fa_capacity_symbol_size a)"
          "length old = unat (fa_capacity_symbols a)" using ok Some by (auto simp: storage_ok_def)
        moreover have "unat (fa_capacity_symbols a) \<le> unat ?ns" by (simp add: word_le_nat_alt [symmetric])
        ultimately have "\<exists>bs rc. copy_symbols a old om (unat ?ns) (unat ?nz) = Some (bs, rc) \<and>
          length bs = unat ?ns \<and> length rc = unat ?ns \<and> (\<forall>x\<in>set bs. \<exists>b. x = Some b \<and> length b = unat ?nz) \<and>
          (\<forall>i < unat (fa_total_symbols a). rc ! i = om ! i \<and>
             take (unat (fa_symbol_size a)) (the (bs ! i)) = take (unat (fa_symbol_size a)) (the (old ! i)))"
          using le m by (intro copy_symbols_result) (auto simp: word_le_nat_alt)
        then show ?thesis using Some True om m by (simp add: not_less le_max_iff_disj)
      next
        case False
        then have "fa_total_symbols a = 0" by (simp add: word_gt_0)
        then show ?thesis using Some by auto
      qed
    qed auto
    then obtain bs rc where f: "?f = Some (bs, rc)" and b: "length bs = unat ?ns" "length rc = unat ?ns"
      "\<forall>x\<in>set bs. \<exists>b. x = Some b \<and> length b = unat ?nz"
      "fa_buffers a \<noteq> None \<longrightarrow> (\<forall>i < unat (fa_total_symbols a). rc ! i = the (fa_received_mask a) ! i \<and>
         take (unat (fa_symbol_size a)) (the (bs ! i)) =
         take (unat (fa_symbol_size a)) (the (the (fa_buffers a) ! i)))" by blast
    have g: "\<not> (symbols = 0 \<or> symbol_size = 0)" "\<not> (fa_buffers a \<noteq> None \<and> fa_capacity_symbols a \<ge> symbols \<and>
              fa_capacity_symbol_size a \<ge> symbol_size)" using p nr by (auto simp: reuses_def)
    have "(done, a') = (True, a\<lparr>fa_buffers := Some bs, fa_received_mask := Some rc,
               fa_missing_mask := Some (replicate (unat ?ns) False), fa_missing_indices := Some (replicate (unat ?ns) 0),
               fa_capacity_symbols := ?ns, fa_capacity_symbol_size := ?nz\<rparr>)"
      using r' True unfolding if_not_P [OF g(1)] if_not_P [OF g(2)] f by simp
    then have d: "done" and a': "a' = a\<lparr>fa_buffers := Some bs, fa_received_mask := Some rc,
               fa_missing_mask := Some (replicate (unat ?ns) False), fa_missing_indices := Some (replicate (unat ?ns) 0),
               fa_capacity_symbols := ?ns, fa_capacity_symbol_size := ?nz\<rparr>" by simp_all
    have pos: "0 < ?ns" "0 < ?nz" using p by (simp_all add: less_max_iff_disj word_gt_0)
    have "storage_ok a'" if fit: "fa_buffers a = None \<longrightarrow> fa_total_symbols a \<le> symbols \<and> fa_symbol_size a \<le> symbol_size"
    proof -
      have "fa_total_symbols a \<le> ?ns \<and> fa_symbol_size a \<le> ?nz"
        using fit ok by (cases "fa_buffers a") (auto simp: storage_ok_def le_max_iff_disj)
      then show ?thesis using b pos unfolding storage_ok_def a' by simp
    qed
    then show ?thesis using d b(4) nr True unfolding a' by (simp add: received_symbol_def)
  qed
qed

text \<open>The mask after a growth: nothing is marked as received beyond the announced symbols.\<close>

lemma copy_symbols_mask:
  assumes "copy_symbols a old old_mask n z = Some (bs, r)"
  shows "length r = n \<and> (\<forall>i < n. unat (fa_total_symbols a) \<le> i \<longrightarrow> \<not> r ! i)"
proof -
  let ?s = "unat (fa_symbol_size a)"
  let ?f = "\<lambda>r i. case r of
         None \<Rightarrow> None
       | Some (buffers, received) \<Rightarrow>
           (case old ! i of
              None \<Rightarrow> None
            | Some block \<Rightarrow> Some (buffers[i := Some (take ?s block @ replicate (z - ?s) 0)], received[i := old_mask ! i]))"
  let ?i = "Some (replicate n (Some (replicate z 0)), replicate n False)"
  have "foldl ?f ?i [0..<m] = Some (bs, r) \<Longrightarrow> length r = n \<and> (\<forall>i < n. m \<le> i \<longrightarrow> \<not> r ! i)" for m bs r
  proof (induction m arbitrary: bs r)
    case (Suc m)
    from Suc.prems obtain bs0 r0 where ih: "foldl ?f ?i [0..<m] = Some (bs0, r0)" "r = r0[m := old_mask ! m]"
      by (auto split: option.splits)
    show ?case using Suc.IH [OF ih(1)] unfolding ih(2) by auto
  qed auto
  then show ?thesis using assms by (simp add: copy_symbols_def)
qed

lemma assembler_grow_mask:
  assumes ok: "storage_ok a" and r: "transport_assembler_grow alloc_ok a symbols symbol_size = (True, a')"
  shows "a' = a \<or> (\<exists>rc. fa_received_mask a' = Some rc \<and> (\<forall>i < length rc. unat (fa_total_symbols a) \<le> i \<longrightarrow> \<not> rc ! i))"
proof (cases "reuses a symbols symbol_size")
  case True
  then show ?thesis using r by (auto simp: transport_assembler_grow_def reuses_def split: if_splits)
next
  case False
  have c: "copy_symbols a x2 x2a n z = Some (bs, rc) \<Longrightarrow> \<forall>i < length rc. unat (fa_total_symbols a) \<le> i \<longrightarrow> \<not> rc ! i"
    for x2 x2a n z bs rc using copy_symbols_mask by auto
  show ?thesis using r False
    by (auto simp: transport_assembler_grow_def reuses_def Let_def split: if_splits option.splits dest!: c)
qed

section \<open>Properties\<close>

text \<open>
  Between two resets the arena never hands out overlapping memory. For any sequence of
  requests on a well formed arena, the blocks placed in its buffer are 8-byte aligned, lie
  behind what was handed out before and inside the buffer, and each ends before the next one
  starts; the heap blocks it fell back to are exactly the ones recorded for the next reset.
\<close>

theorem arena_blocks_disjoint:
  assumes "arena_ok a" "arena_run a requests = (ptrs, a')"
  shows "arena_ok a' \<and> sorted_wrt (\<lambda>(o1, n1) (o2, n2). o1 + n1 \<le> o2) (buffer_blocks ptrs) \<and>
    (\<forall>(off, n)\<in>set (buffer_blocks ptrs). ar_offset a \<le> off \<and> off mod 8 = 0 \<and> off + n \<le> ar_capacity a) \<and>
    ar_fallbacks a' = ar_fallbacks a @ heap_blocks ptrs"
proof -
  have "ar_offset a' \<le> ar_capacity a" using arena_run_ok [OF assms] by (simp add: arena_ok_def)
  then show ?thesis using arena_run_ok [OF assms] by fastforce
qed

text \<open>
  C2. One allocation is exact: a block in the buffer is cleared and leaves everything below it
  alone; the arena answers NULL, and changes nothing, only without a buffer, for a size that
  cannot be rounded up, or when the rest of the buffer is too small and the heap fails or 1024
  heap blocks are already in use.
\<close>

theorem arena_alloc_exact:
  assumes "arena_ok a" "transport_arena_alloc calloc_result a n = (p, a')"
  shows "arena_ok a' \<and> (case p of
       None \<Rightarrow> a' = a \<and> (ar_buffer a = None \<or> n > SIZE_MAX - 7 \<or>
         (ar_capacity a - ar_offset a < (n + 7) div 8 * 8 \<and>
          (calloc_result = None \<or> length (ar_fallbacks a) = 1024)))
     | Some (In_buffer off) \<Rightarrow> off = ar_offset a \<and> off + n \<le> ar_offset a' \<and>
         ar_fallbacks a' = ar_fallbacks a \<and>
         (\<exists>b b'. ar_buffer a = Some b \<and> ar_buffer a' = Some b' \<and> take n (drop off b') = replicate n 0 \<and>
            take off b' = take off b)
     | Some (On_heap ptr) \<Rightarrow> calloc_result = Some ptr \<and> ar_fallbacks a' = ar_fallbacks a @ [ptr] \<and>
         ar_offset a' = ar_offset a)"
  using arena_alloc_ok [OF assms] by blast

text \<open>
  Growing a frame assembler never loses what it has received. On well formed storage the
  growth succeeds exactly when the storage is large enough already or the allocations succeed;
  a failure leaves the assembler as it was; a success provides the requested capacity, never
  shrinks either dimension, keeps for every symbol of the object whether it was received and
  its bytes, keeps the storage well formed, and touches nothing but storage and capacity.
\<close>

theorem assembler_grow_keeps:
  assumes "storage_ok a" "fa_buffers a \<noteq> None" "symbols \<noteq> 0" "symbol_size \<noteq> 0"
    and "transport_assembler_grow alloc_ok a symbols symbol_size = (grown, a')"
  shows "(grown \<longleftrightarrow> alloc_ok \<or> (symbols \<le> fa_capacity_symbols a \<and> symbol_size \<le> fa_capacity_symbol_size a)) \<and>
    (if grown then storage_ok a' \<and> fa_capacity_symbols a' = max (fa_capacity_symbols a) symbols \<and>
       fa_capacity_symbol_size a' = max (fa_capacity_symbol_size a) symbol_size \<and>
       (\<forall>i < unat (fa_total_symbols a). received_symbol a' i = received_symbol a i)
     else a' = a) \<and>
    a' = a\<lparr>fa_buffers := fa_buffers a', fa_received_mask := fa_received_mask a',
      fa_missing_mask := fa_missing_mask a', fa_missing_indices := fa_missing_indices a',
      fa_capacity_symbols := fa_capacity_symbols a', fa_capacity_symbol_size := fa_capacity_symbol_size a'\<rparr>"
  using assembler_grow_ok [OF assms(1,3,4,5)] assms(2) by (simp add: reuses_def)

section \<open>Witnesses\<close>

definition small_arena :: arena where
  "small_arena = zero_arena\<lparr>ar_buffer := Some (replicate 16 9), ar_capacity := 16\<rparr>"

lemma small_arena_ok: "arena_ok small_arena"
  by (simp add: small_arena_def zero_arena_def arena_ok_def SIZE_MAX_def)

lemma arena_blocks_disjoint_witness:
  "\<exists>a'. arena_run small_arena [(5, None), (8, None), (1, Some 77), (1, None)] =
     ([(Some (In_buffer 0), 5), (Some (In_buffer 8), 8), (Some (On_heap 77), 1), (None, 1)], a') \<and>
   ar_fallbacks a' = [77] \<and> (0 :: nat) + 5 \<le> 8 \<and> 8 + 8 \<le> ar_capacity small_arena"
proof -
  have r8: "round_up_8 5 = 8" "round_up_8 8 = 8" "round_up_8 1 = 8" by (simp_all add: round_up_8 SIZE_MAX_def)
  obtain a' where r: "arena_run small_arena [(5, None), (8, None), (1, Some 77), (1, None)] =
     ([(Some (In_buffer 0), 5), (Some (In_buffer 8), 8), (Some (On_heap 77), 1), (None, 1)], a')"
    using r8 by (simp add: small_arena_def zero_arena_def transport_arena_alloc_def SIZE_MAX_def sz_sub_def
        sz_add_def Let_def)
  from arena_blocks_disjoint [OF small_arena_ok r] show ?thesis
    using r by (auto simp: small_arena_def zero_arena_def)
qed

lemma arena_alloc_exact_witness:
  "\<exists>a'. transport_arena_alloc None small_arena 5 = (Some (In_buffer 0), a') \<and>
   (\<exists>b'. ar_buffer a' = Some b' \<and> take 5 b' = replicate 5 0)"
proof -
  have r8: "round_up_8 5 = 8" by (simp add: round_up_8 SIZE_MAX_def)
  obtain a' where r: "transport_arena_alloc None small_arena 5 = (Some (In_buffer 0), a')"
    using r8 by (simp add: small_arena_def zero_arena_def transport_arena_alloc_def SIZE_MAX_def sz_sub_def
        Let_def)
  from arena_alloc_exact [OF small_arena_ok r] show ?thesis using r by auto
qed

definition small_assembler :: frame_assembler where
  "small_assembler = zero_assembler\<lparr>fa_total_symbols := 2, fa_symbol_size := 1,
     fa_capacity_symbols := 2, fa_capacity_symbol_size := 1, fa_buffers := Some [Some [5], Some [6]],
     fa_received_mask := Some [False, True], fa_missing_mask := Some [False, False],
     fa_missing_indices := Some [0, 0]\<rparr>"

lemma assembler_grow_keeps_witness:
  "\<exists>a'. transport_assembler_grow True small_assembler 3 1 = (True, a') \<and>
   received_symbol a' 1 = (True, [6]) \<and> fa_capacity_symbols a' = 3"
proof -
  have ok: "storage_ok small_assembler" "fa_buffers small_assembler \<noteq> None"
    by (simp_all add: storage_ok_def small_assembler_def zero_assembler_def)
  obtain g a' where r: "transport_assembler_grow True small_assembler 3 1 = (g, a')"
    by (cases "transport_assembler_grow True small_assembler 3 1")
  have "(3 :: u16) \<noteq> 0" "(1 :: u16) \<noteq> 0" by simp_all
  note t = assembler_grow_keeps [OF ok this r]
  have "received_symbol a' 1 = received_symbol small_assembler 1" "g" "fa_capacity_symbols a' = 3"
    using t by (simp_all add: small_assembler_def zero_assembler_def max_def word_le_nat_alt)
  then show ?thesis using r by (simp add: received_symbol_def small_assembler_def)
qed

end
