(* ===== verification/Chains.thy ===== *)
theory Chains
  imports Qlinq_Prelude
begin

text \<open>
  Hash chains through an array of slots, as the receiver keeps them twice: for the frame
  assemblers of a connection and for its completed objects. A reference is a slot number plus
  one, 0 ends a chain; \<open>nxt\<close> reads the \<open>hash_next\<close> field of a slot. The loops over a chain
  are partial functions, so that termination is something to prove: it holds on every chain.
\<close>

section \<open>The loops\<close>

text \<open>\<open>for (ref = bucket; ref != 0; ref = slots[ref - 1].hash_next) if (P(slot)) return slot\<close>\<close>

partial_function (option) chain_find :: "(nat \<Rightarrow> u16) \<Rightarrow> (nat \<Rightarrow> bool) \<Rightarrow> u16 \<Rightarrow> nat option option" where
  "chain_find nxt P ref =
     (if ref = 0 then Some None
      else if P (unat ref - 1) then Some (Some (unat ref - 1))
      else chain_find nxt P (nxt (unat ref - 1)))"

declare chain_find.simps [code]

text \<open>
  \<open>while (*link != ref && *link != 0) link = &slots[*link - 1].hash_next\<close>, where a link is the
  bucket itself (\<open>None\<close>) or the \<open>hash_next\<close> field of a slot.
\<close>

abbreviation (input) link_value :: "(nat \<Rightarrow> u16) \<Rightarrow> u16 \<Rightarrow> nat option \<Rightarrow> u16" where
  "link_value nxt head link \<equiv> (case link of None \<Rightarrow> head | Some i \<Rightarrow> nxt i)"

partial_function (option) seek_link :: "(nat \<Rightarrow> u16) \<Rightarrow> u16 \<Rightarrow> u16 \<Rightarrow> nat option \<Rightarrow> nat option option" where
  "seek_link nxt head ref link =
     (let v = link_value nxt head link in
      if v = ref \<or> v = 0 then Some link else seek_link nxt head ref (Some (unat v - 1)))"

declare seek_link.simps [code]

section \<open>Chains\<close>

inductive chain :: "(nat \<Rightarrow> u16) \<Rightarrow> u16 \<Rightarrow> nat list \<Rightarrow> bool" for nxt where
  chain_end: "chain nxt 0 []"
| chain_step: "ref \<noteq> 0 \<Longrightarrow> chain nxt (nxt (unat ref - 1)) xs \<Longrightarrow> chain nxt ref ((unat ref - 1) # xs)"

inductive_cases chain_NilE: "chain nxt ref []"
inductive_cases chain_ConsE: "chain nxt ref (i # xs)"
inductive_cases chain_zeroE: "chain nxt 0 xs"

abbreviation slot_ref :: "nat \<Rightarrow> u16" where
  "slot_ref i \<equiv> of_nat (i + 1)"

lemma unat_slot_ref: "i < 65535 \<Longrightarrow> unat (slot_ref i) = i + 1"
  by (rule unat_of_nat_small) simp

lemma slot_ref_nonzero: "i < 65535 \<Longrightarrow> slot_ref i \<noteq> 0"
  using unat_slot_ref [of i] by (metis unat_0 add_is_0 one_neq_zero)

lemma slot_ref_unat: "ref \<noteq> (0 :: u16) \<Longrightarrow> slot_ref (unat ref - 1) = ref"
  using unat_gt_0 [of ref] by (simp add: of_nat_diff)

lemma chain_Cons_iff: "chain nxt ref (i # xs) \<longleftrightarrow> i < 65535 \<and> ref = slot_ref i \<and> chain nxt (nxt i) xs"
proof
  assume c: "chain nxt ref (i # xs)"
  then have r: "ref \<noteq> 0" "i = unat ref - 1" "chain nxt (nxt i) xs" by (auto elim: chain_ConsE)
  have "unat ref < 65536" using unat_less_2p [of ref] by simp
  then show "i < 65535 \<and> ref = slot_ref i \<and> chain nxt (nxt i) xs"
    using r slot_ref_unat [OF r(1)] unat_gt_0 [of ref] by auto
next
  assume a: "i < 65535 \<and> ref = slot_ref i \<and> chain nxt (nxt i) xs"
  then have "unat ref - 1 = i" "ref \<noteq> 0" using unat_slot_ref [of i] slot_ref_nonzero [of i] by simp_all
  then show "chain nxt ref (i # xs)" using a chain_step [of ref nxt xs] by simp
qed

lemma chain_Nil_iff: "chain nxt ref [] \<longleftrightarrow> ref = 0"
  by (auto elim: chain_NilE intro: chain_end)

lemma chain_less: "chain nxt ref xs \<Longrightarrow> i \<in> set xs \<Longrightarrow> i < 65535"
proof (induction xs arbitrary: ref)
  case (Cons x xs)
  then show ?case by (auto simp: chain_Cons_iff)
qed simp

lemma chain_cong: "chain nxt ref xs \<Longrightarrow> \<forall>i\<in>set xs. nxt' i = nxt i \<Longrightarrow> chain nxt' ref xs"
proof (induction xs arbitrary: ref)
  case (Cons x xs)
  then show ?case by (auto simp: chain_Cons_iff)
qed (simp add: chain_Nil_iff)

lemma chain_find_chain: "chain nxt ref xs \<Longrightarrow> chain_find nxt P ref = Some (List.find P xs)"
proof (induction xs arbitrary: ref)
  case Nil
  then show ?case by (simp add: chain_Nil_iff chain_find.simps)
next
  case (Cons x xs)
  then have c: "x < 65535" "ref = slot_ref x" "chain nxt (nxt x) xs" by (simp_all add: chain_Cons_iff)
  have "ref \<noteq> 0" "unat ref - 1 = x" using c slot_ref_nonzero [of x] unat_slot_ref [of x] by simp_all
  then show ?case using Cons.IH [OF c(3)] by (subst chain_find.simps) simp
qed

lemma slot_ref_inj: "i < 65535 \<Longrightarrow> j < 65535 \<Longrightarrow> slot_ref i = slot_ref j \<longleftrightarrow> i = j"
  using unat_slot_ref [of i] unat_slot_ref [of j] by (metis add_right_imp_eq)

lemma seek_link_chain:
  "chain nxt (link_value nxt head link) (ys @ i # zs) \<Longrightarrow> i \<notin> set ys \<Longrightarrow>
   seek_link nxt head (slot_ref i) link = Some (if ys = [] then link else Some (last ys))"
proof (induction ys arbitrary: link)
  case Nil
  then have "link_value nxt head link = slot_ref i" by (simp add: chain_Cons_iff)
  then show ?case by (subst seek_link.simps) (simp add: Let_def)
next
  case (Cons y ys)
  let ?v = "link_value nxt head link"
  have c: "y < 65535" "?v = slot_ref y" "chain nxt (nxt y) (ys @ i # zs)"
    using Cons.prems(1) by (simp_all add: chain_Cons_iff)
  have "i < 65535" using chain_less [OF c(3)] by simp
  then have "?v \<noteq> slot_ref i" "?v \<noteq> 0" "unat ?v - 1 = y"
    using c(1) Cons.prems(2) slot_ref_inj [of y i] slot_ref_nonzero [of y] unat_slot_ref [of y]
    unfolding c(2) by auto
  then have "seek_link nxt head (slot_ref i) link = seek_link nxt head (slot_ref i) (Some y)"
    by (subst seek_link.simps) (simp add: Let_def)
  also have "\<dots> = Some (if ys = [] then Some y else Some (last ys))"
    using Cons.IH [of "Some y"] c(3) Cons.prems(2) by simp
  finally show ?case by simp
qed

text \<open>Redirecting the link to an element past it takes the element out of the chain.\<close>

lemma chain_unlink:
  assumes "chain nxt head (ys @ i # zs)" "distinct (ys @ i # zs)"
  shows "chain (if ys = [] then nxt else nxt(last ys := nxt i)) (if ys = [] then nxt i else head) (ys @ zs)"
  using assms
proof (induction ys arbitrary: head)
  case Nil
  then show ?case by (simp add: chain_Cons_iff)
next
  case (Cons y ys)
  then have c: "y < 65535" "head = slot_ref y" "chain nxt (nxt y) (ys @ i # zs)"
    by (simp_all add: chain_Cons_iff)
  have ih: "chain (if ys = [] then nxt else nxt(last ys := nxt i)) (if ys = [] then nxt i else nxt y) (ys @ zs)"
    using Cons.IH [OF c(3)] Cons.prems(2) by simp
  show ?case
  proof (cases "ys = []")
    case True
    have "chain (nxt(y := nxt i)) (nxt i) zs"
      using ih True Cons.prems(2) by - (rule chain_cong [of nxt], auto)
    moreover have "(nxt(y := nxt i)) y = nxt i" by simp
    ultimately show ?thesis using c True by (simp add: chain_Cons_iff del: fun_upd_apply)
  next
    case False
    then have "last ys \<in> set ys" by simp
    then have "last ys \<noteq> y" using Cons.prems(2) by auto
    then have "(nxt(last ys := nxt i)) y = nxt y" by simp
    then show ?thesis using ih False c by (simp add: chain_Cons_iff del: fun_upd_apply)
  qed
qed

text \<open>The chain of every bucket lists the live slots of that bucket, each once.\<close>

definition chain_index :: "nat \<Rightarrow> (nat \<Rightarrow> u16) \<Rightarrow> (nat \<Rightarrow> u16) \<Rightarrow> (nat \<Rightarrow> bool) \<Rightarrow> (nat \<Rightarrow> nat) \<Rightarrow> bool" where
  "chain_index slots head nxt live bucket \<longleftrightarrow> (\<forall>b. \<exists>xs. chain nxt (head b) xs \<and> distinct xs \<and>
     set xs = {i. i < slots \<and> live i \<and> bucket i = b})"

lemma chain_index_cong:
  assumes ix: "chain_index n head nxt live bucket"
    and same: "\<forall>b. head' b = head b" "\<forall>i < n. live' i \<longleftrightarrow> live i"
      "\<forall>i < n. live i \<longrightarrow> nxt' i = nxt i \<and> bucket' i = bucket i"
  shows "chain_index n head' nxt' live' bucket'"
  unfolding chain_index_def
proof
  fix b
  obtain xs where xs: "chain nxt (head b) xs" "distinct xs" "set xs = {i. i < n \<and> live i \<and> bucket i = b}"
    using ix unfolding chain_index_def by blast
  have "\<forall>i\<in>set xs. nxt' i = nxt i" using xs(3) same(3) by simp
  with xs(1) have "chain nxt' (head b) xs" by (rule chain_cong)
  moreover have "{i. i < n \<and> live i \<and> bucket i = b} = {i. i < n \<and> live' i \<and> bucket' i = b}"
    using same(2,3) by fastforce
  ultimately show "\<exists>xs. chain nxt' (head' b) xs \<and> distinct xs \<and> set xs = {i. i < n \<and> live' i \<and> bucket' i = b}"
    using xs(2,3) same(1) by auto
qed

section \<open>The interface of an index\<close>

text \<open>
  A state with hash buckets over slots: \<open>insert\<close> links a free slot under a key at the head of
  its bucket, \<open>remove\<close> unlinks a live slot. Lookup by a predicate that determines the bucket
  then finds exactly the live slots, and both operations keep the index exact.
\<close>

locale hash_index =
  fixes slots :: nat
    and hash :: "'k \<Rightarrow> nat"
    and head :: "'s \<Rightarrow> nat \<Rightarrow> u16"
    and nxt :: "'s \<Rightarrow> nat \<Rightarrow> u16"
    and live :: "'s \<Rightarrow> nat \<Rightarrow> bool"
    and key :: "'s \<Rightarrow> nat \<Rightarrow> 'k"
    and wf :: "'s \<Rightarrow> bool"
    and link :: "'s \<Rightarrow> nat \<Rightarrow> 'k \<Rightarrow> 's"
    and unlink :: "'s \<Rightarrow> nat \<Rightarrow> 's option"
  assumes slots_less: "slots < 65535"
    and link_law: "wf s \<Longrightarrow> i < slots \<Longrightarrow> \<not> live s i \<Longrightarrow> link s i k = s' \<Longrightarrow>
      wf s' \<and> (\<forall>b. head s' b = (if b = hash k then slot_ref i else head s b)) \<and>
      (\<forall>j < slots. nxt s' j = (if j = i then head s (hash k) else nxt s j) \<and>
         live s' j = (j = i \<or> live s j) \<and> key s' j = (if j = i then k else key s j))"
    and unlink_law: "wf s \<Longrightarrow> i < slots \<Longrightarrow> live s i \<Longrightarrow>
      seek_link (nxt s) (head s (hash (key s i))) (slot_ref i) None = Some l \<Longrightarrow>
      (case l of None \<Rightarrow> True | Some j \<Rightarrow> j < slots) \<Longrightarrow>
      link_value (nxt s) (head s (hash (key s i))) l = slot_ref i \<Longrightarrow>
      \<exists>s'. unlink s i = Some s' \<and> wf s' \<and>
        (\<forall>b. head s' b = (if l = None \<and> b = hash (key s i) then nxt s i else head s b)) \<and>
        (\<forall>j < slots. j \<noteq> i \<longrightarrow> nxt s' j = (if l = Some j then nxt s i else nxt s j) \<and> key s' j = key s j) \<and>
        (\<forall>j < slots. live s' j = (j \<noteq> i \<and> live s j))"
begin

abbreviation indexed :: "'s \<Rightarrow> bool" where
  "indexed s \<equiv> chain_index slots (head s) (nxt s) (live s) (\<lambda>i. hash (key s i))"

lemma lookup:
  assumes "indexed s"
  shows "\<exists>r. chain_find (nxt s) P (head s b) = Some r \<and>
    (case r of
       None \<Rightarrow> \<forall>i < slots. live s i \<longrightarrow> hash (key s i) = b \<longrightarrow> \<not> P i
     | Some i \<Rightarrow> i < slots \<and> live s i \<and> hash (key s i) = b \<and> P i)"
proof -
  obtain xs where xs: "chain (nxt s) (head s b) xs" "set xs = {i. i < slots \<and> live s i \<and> hash (key s i) = b}"
    using assms unfolding chain_index_def by blast
  show ?thesis
  proof (cases "List.find P xs")
    case None
    then have "\<forall>i\<in>set xs. \<not> P i" by (auto simp: find_None_iff)
    then show ?thesis using chain_find_chain [OF xs(1), of P] xs(2) None by simp
  next
    case (Some i)
    then have "P i" "i \<in> set xs" by (auto simp: find_Some_iff in_set_conv_nth)
    then show ?thesis using chain_find_chain [OF xs(1), of P] xs(2) Some by auto
  qed
qed

lemma indexed_link:
  assumes ix: "indexed s" and wf: "wf s" and i: "i < slots" "\<not> live s i"
  shows "indexed (link s i k) \<and> wf (link s i k)"
proof -
  let ?s = "link s i k"
  note law = link_law [OF wf i refl, of k]
  have hd: "head ?s b = (if b = hash k then slot_ref i else head s b)" for b using law by blast
  have nx: "nxt ?s j = (if j = i then head s (hash k) else nxt s j)" if "j < slots" for j using law that by blast
  have lk: "live ?s j \<longleftrightarrow> j = i \<or> live s j" "key ?s j = (if j = i then k else key s j)"
    if "j < slots" for j using law that by blast+
  have members: "{j. j < slots \<and> live ?s j \<and> hash (key ?s j) = b} =
    (if b = hash k then insert i else id) {j. j < slots \<and> live s j \<and> hash (key s j) = b}" for b
  proof (intro set_eqI)
    fix j
    show "j \<in> {j. j < slots \<and> live ?s j \<and> hash (key ?s j) = b} \<longleftrightarrow>
      j \<in> (if b = hash k then insert i else id) {j. j < slots \<and> live s j \<and> hash (key s j) = b}"
      by (cases "j < slots"; cases "j = i") (use i lk [of j] in auto)
  qed
  have "\<exists>xs. chain (nxt ?s) (head ?s b) xs \<and> distinct xs \<and>
     set xs = {i. i < slots \<and> live ?s i \<and> hash (key ?s i) = b}" for b
  proof -
    obtain xs where xs: "chain (nxt s) (head s b) xs" "distinct xs"
      "set xs = {i. i < slots \<and> live s i \<and> hash (key s i) = b}" using ix unfolding chain_index_def by blast
    have ni: "i \<notin> set xs" using xs(3) i by simp
    have "\<forall>j\<in>set xs. nxt ?s j = nxt s j"
    proof
      fix j assume "j \<in> set xs"
      then have "j < slots" "j \<noteq> i" using xs(3) i by auto
      then show "nxt ?s j = nxt s j" using nx [of j] by simp
    qed
    with xs(1) have c: "chain (nxt ?s) (head s b) xs" by (rule chain_cong)
    show ?thesis
    proof (cases "b = hash k")
      case True
      have "nxt ?s i = head s b" "head ?s b = slot_ref i" using nx [OF i(1)] hd True by simp_all
      then have "chain (nxt ?s) (head ?s b) (i # xs)" using c i slots_less by (simp add: chain_Cons_iff)
      then show ?thesis using xs(2,3) ni True members [of b] by (intro exI [of _ "i # xs"]) simp
    next
      case False
      then show ?thesis using c xs(2,3) members [of b] hd [of b] by (intro exI [of _ xs]) simp
    qed
  qed
  then show ?thesis using law by (simp only: chain_index_def) blast
qed

lemma indexed_unlink:
  assumes ix: "indexed s" and wf: "wf s" and i: "i < slots" "live s i"
  shows "\<exists>s'. unlink s i = Some s' \<and> indexed s' \<and> wf s' \<and>
    (\<forall>j < slots. live s' j = (j \<noteq> i \<and> live s j)) \<and> (\<forall>j < slots. j \<noteq> i \<longrightarrow> key s' j = key s j)"
proof -
  let ?b = "hash (key s i)"
  obtain xs where xs: "chain (nxt s) (head s ?b) xs" "distinct xs"
    "set xs = {j. j < slots \<and> live s j \<and> hash (key s j) = ?b}" using ix unfolding chain_index_def by blast
  have "i \<in> set xs" using xs(3) i by simp
  then obtain ys zs where e: "xs = ys @ i # zs" by (auto dest: split_list)
  have ny: "i \<notin> set ys" using xs(2) e by simp
  let ?l = "if ys = [] then None else Some (last ys)"
  have sk: "seek_link (nxt s) (head s ?b) (slot_ref i) None = Some ?l"
    using seek_link_chain [of "nxt s" "head s ?b" None ys i zs] xs(1) ny e by simp
  have lin: "case ?l of None \<Rightarrow> True | Some j \<Rightarrow> j < slots"
  proof (cases "ys = []")
    case False
    then have "last ys \<in> set xs" using e by simp
    then show ?thesis using xs(3) False by simp
  qed simp
  have "link_value (nxt s) (head s ?b) ?l = slot_ref i"
  proof -
    have "chain n h (ys @ i # zs) \<Longrightarrow> (if ys = [] then h else n (last ys)) = slot_ref i" for n h
      by (induction ys arbitrary: h) (auto simp: chain_Cons_iff split: if_splits)
    from this [OF xs(1) [unfolded e]] show ?thesis by (cases "ys = []") simp_all
  qed
  from unlink_law [OF wf i sk lin this] obtain s' where s': "unlink s i = Some s'" "wf s'"
    "\<forall>b. head s' b = (if ?l = None \<and> b = ?b then nxt s i else head s b)"
    "\<forall>j < slots. j \<noteq> i \<longrightarrow> nxt s' j = (if ?l = Some j then nxt s i else nxt s j) \<and> key s' j = key s j"
    "\<forall>j < slots. live s' j = (j \<noteq> i \<and> live s j)" by blast
  have members: "{j. j < slots \<and> live s' j \<and> hash (key s' j) = b} =
    {j. j < slots \<and> live s j \<and> hash (key s j) = b} - {i}" for b
  proof (intro set_eqI)
    fix j
    have "j < slots \<Longrightarrow> live s' j = (j \<noteq> i \<and> live s j)" "j < slots \<Longrightarrow> j \<noteq> i \<Longrightarrow> key s' j = key s j"
      using s'(4,5) by blast+
    then show "j \<in> {j. j < slots \<and> live s' j \<and> hash (key s' j) = b} \<longleftrightarrow>
      j \<in> {j. j < slots \<and> live s j \<and> hash (key s j) = b} - {i}"
      by (cases "j < slots"; cases "j = i") auto
  qed
  have "\<exists>ws. chain (nxt s') (head s' b) ws \<and> distinct ws \<and>
     set ws = {j. j < slots \<and> live s' j \<and> hash (key s' j) = b}" for b
  proof (cases "b = ?b")
    case True
    have "chain (if ys = [] then nxt s else (nxt s)(last ys := nxt s i)) (if ys = [] then nxt s i else head s ?b)
      (ys @ zs)" using chain_unlink [OF xs(1) [unfolded e] xs(2) [unfolded e]] .
    moreover have "head s' b = (if ys = [] then nxt s i else head s ?b)" using s'(3) True by auto
    moreover have in_slots: "\<forall>j\<in>set (ys @ zs). j < slots \<and> j \<noteq> i" using xs(2,3) e by auto
    moreover have "\<forall>j\<in>set (ys @ zs). nxt s' j = (if ys = [] then nxt s else (nxt s)(last ys := nxt s i)) j"
    proof
      fix j assume "j \<in> set (ys @ zs)"
      then have "nxt s' j = (if ?l = Some j then nxt s i else nxt s j)" using in_slots s'(4) by blast
      then show "nxt s' j = (if ys = [] then nxt s else (nxt s)(last ys := nxt s i)) j" by auto
    qed
    ultimately have "chain (nxt s') (head s' b) (ys @ zs)" using chain_cong [of _ _ "ys @ zs" "nxt s'"] by simp
    moreover have "set (ys @ zs) = set xs - {i}" "distinct (ys @ zs)" using xs(2) e by auto
    ultimately show ?thesis unfolding True members xs(3) by (intro exI [of _ "ys @ zs"]) simp
  next
    case False
    obtain ws where ws: "chain (nxt s) (head s b) ws" "distinct ws"
      "set ws = {j. j < slots \<and> live s j \<and> hash (key s j) = b}" using ix unfolding chain_index_def by blast
    have "\<forall>j\<in>set ws. j < slots \<and> j \<noteq> i \<and> ?l \<noteq> Some j"
    proof
      fix j assume j: "j \<in> set ws"
      have "last ys \<noteq> j" if "ys \<noteq> []"
      proof
        assume "last ys = j"
        then have "j \<in> set xs" using that e by auto
        then show False using xs(3) j ws(3) False by auto
      qed
      then show "j < slots \<and> j \<noteq> i \<and> ?l \<noteq> Some j" using j ws(3) False by auto
    qed
    then have "\<forall>j\<in>set ws. nxt s' j = nxt s j" using s'(4) by simp
    with ws(1) have "chain (nxt s') (head s b) ws" by (rule chain_cong)
    then have "chain (nxt s') (head s' b) ws" using s'(3) False by simp
    moreover have "i \<notin> set ws" using ws(3) False by simp
    ultimately show ?thesis using ws(2,3) members [of b] by (intro exI [of _ ws]) simp
  qed
  then have "indexed s'" unfolding chain_index_def by blast
  then show ?thesis using s' by blast
qed

end

end
