(* ===== verification/Assembly.thy ===== *)
theory Assembly
  imports Memory Chains
begin

text \<open>
  The frame assemblers of a connection (\<open>transport_quicly.c\<close>, the part on receive assemblers):
  the pool of slots with its hash index, the bitmap of the slots in use, the receive window and
  the accounting of assembler memory. A pointer to an assembler is its slot number. The fields of
  \<open>transport_conn_t\<close> that belong to the pool are the record \<open>assembler_pool\<close>; the three fields of
  \<open>transport_t\<close> that the accounting uses are \<open>assembler_memory\<close>. What quicly reports as the
  smoothed round trip time of a path is an argument.
\<close>

abbreviation (input) "HARD_MAX_ASSEMBLERS \<equiv> (1024 :: nat)"
abbreviation (input) "ASSEMBLER_BUCKETS \<equiv> (2048 :: nat)"
abbreviation (input) "MIN_ASSEMBLER_WINDOW \<equiv> (8 :: nat)"
abbreviation (input) "MAX_QUIC_PATHS \<equiv> (64 :: nat)"

record assembler_pool =
  ap_assemblers :: "frame_assembler list"
  ap_index :: nat
  ap_limit :: nat
  ap_count :: nat
  ap_rx_rate :: nat
  ap_rx_window_started_ms :: nat
  ap_rx_window_bytes :: nat
  ap_active :: "u64 list"
  ap_buckets :: "u16 list"

definition zero_pool :: assembler_pool where
  "zero_pool = \<lparr>ap_assemblers = replicate HARD_MAX_ASSEMBLERS zero_assembler, ap_index = 0,
     ap_limit = 0, ap_count = 0, ap_rx_rate = 0, ap_rx_window_started_ms = 0,
     ap_rx_window_bytes = 0, ap_active = replicate 16 0,
     ap_buckets = replicate ASSEMBLER_BUCKETS 0\<rparr>"

section \<open>The hash index\<close>

definition transport_receive_bucket :: "u8 \<Rightarrow> u64 \<Rightarrow> u64 \<Rightarrow> nat" where
  "transport_receive_bucket alias_id group_id object_id =
     (let key = object_id XOR (group_id * 0x9e3779b97f4a7c15) XOR push_bit 56 (ucast alias_id :: u64);
          key = key XOR drop_bit 30 key;
          key = key * 0xbf58476d1ce4e5b9;
          key = key XOR drop_bit 27 key in
      unat (key AND of_nat (ASSEMBLER_BUCKETS - 1)))"

abbreviation (input) slot_next :: "frame_assembler list \<Rightarrow> nat \<Rightarrow> u16" where
  "slot_next assemblers i \<equiv> fa_hash_next (assemblers ! i)"

definition transport_find_assembler :: "assembler_pool \<Rightarrow> u8 \<Rightarrow> u64 \<Rightarrow> u64 \<Rightarrow> nat option option" where
  "transport_find_assembler pool alias_id group_id object_id =
     chain_find (slot_next (ap_assemblers pool))
       (\<lambda>i. let a = ap_assemblers pool ! i in
          fa_track_id a = alias_id \<and> fa_group_id a = group_id \<and> fa_object_id a = object_id)
       (ap_buckets pool ! transport_receive_bucket alias_id group_id object_id)"

definition transport_index_assembler :: "assembler_pool \<Rightarrow> nat \<Rightarrow> assembler_pool" where
  "transport_index_assembler pool slot =
     (let a = ap_assemblers pool ! slot;
          bucket = transport_receive_bucket (fa_track_id a) (fa_group_id a) (fa_object_id a) in
      pool\<lparr>ap_assemblers := (ap_assemblers pool)[slot := a\<lparr>fa_owner := True,
              fa_hash_next := ap_buckets pool ! bucket\<rparr>],
           ap_buckets := (ap_buckets pool)[bucket := slot_ref slot],
           ap_count := sz_add (ap_count pool) 1,
           ap_active := (ap_active pool)[slot div 64 :=
              ap_active pool ! (slot div 64) OR push_bit (slot mod 64) 1]\<rparr>)"

text \<open>\<open>None\<close> would be a search that does not end.\<close>

definition transport_unindex_assembler :: "assembler_pool \<Rightarrow> nat \<Rightarrow> assembler_pool option" where
  "transport_unindex_assembler pool slot =
     (let a = ap_assemblers pool ! slot in
      if \<not> fa_owner a then Some pool
      else
        let bucket = transport_receive_bucket (fa_track_id a) (fa_group_id a) (fa_object_id a);
            nxt = slot_next (ap_assemblers pool); head = ap_buckets pool ! bucket in
        (case seek_link nxt head (slot_ref slot) None of
           None \<Rightarrow> None
         | Some link \<Rightarrow>
             let unlinked = (if link_value nxt head link = slot_ref slot then
                   (case link of
                      None \<Rightarrow> pool\<lparr>ap_buckets := (ap_buckets pool)[bucket := fa_hash_next a]\<rparr>
                    | Some i \<Rightarrow> pool\<lparr>ap_assemblers := (ap_assemblers pool)
                        [i := (ap_assemblers pool ! i)\<lparr>fa_hash_next := fa_hash_next a\<rparr>]\<rparr>)
                   \<lparr>ap_count := sz_sub (ap_count pool) 1,
                    ap_active := (ap_active pool)[slot div 64 :=
                      ap_active pool ! (slot div 64) AND NOT (push_bit (slot mod 64) 1)]\<rparr>
                 else pool) in
             Some (unlinked\<lparr>ap_assemblers := (ap_assemblers unlinked)
               [slot := (ap_assemblers unlinked ! slot)\<lparr>fa_owner := False, fa_hash_next := 0\<rparr>]\<rparr>)))"

text \<open>\<open>__builtin_ctzll\<close>: the position of the lowest set bit.\<close>

definition ctz :: "u64 \<Rightarrow> nat" where
  "ctz w = length (takeWhile (\<lambda>i. \<not> bit w i) [0..<64])"

fun next_assembler_loop :: "u64 list \<Rightarrow> nat \<Rightarrow> nat" where
  "next_assembler_loop [] word = HARD_MAX_ASSEMBLERS"
| "next_assembler_loop (bits # words) word =
     (if bits \<noteq> 0 then word * 64 + ctz bits else next_assembler_loop words (word + 1))"

definition transport_next_assembler :: "assembler_pool \<Rightarrow> nat \<Rightarrow> nat" where
  "transport_next_assembler pool first =
     (if ap_count pool = 0 \<or> first \<ge> HARD_MAX_ASSEMBLERS then HARD_MAX_ASSEMBLERS
      else let word = first div 64;
               bits = ap_active pool ! word AND push_bit (first mod 64) (- 1) in
        next_assembler_loop (bits # drop (word + 1) (ap_active pool)) word)"

section \<open>The receive window\<close>

text \<open>The slots that two bandwidth-delay products of objects need, on top of the minimum.\<close>

definition window_target :: "(nat \<Rightarrow> u32 option) \<Rightarrow> nat \<Rightarrow> nat \<Rightarrow> nat \<Rightarrow> nat" where
  "window_target rtt_smoothed rx_rate minimum object_bytes =
     (let rtt_ms = foldl (\<lambda>rtt_ms i. case rtt_smoothed i of
              Some rtt \<Rightarrow> if unat rtt > rtt_ms then unat rtt else rtt_ms
            | None \<Rightarrow> rtt_ms) 25 [0..<MAX_QUIC_PATHS];
          bdp_bytes = (if rx_rate > SIZE_MAX div rtt_ms then SIZE_MAX
            else sz_mul rx_rate rtt_ms div 1000) in
      if bdp_bytes \<noteq> 0 then
        let double_bdp = (if bdp_bytes > SIZE_MAX div 2 then SIZE_MAX else sz_mul bdp_bytes 2) in
        sz_add minimum (sz_sub (sz_add double_bdp object_bytes) 1 div object_bytes)
      else minimum)"

definition transport_assembler_window ::
  "nat \<Rightarrow> (nat \<Rightarrow> u32 option) \<Rightarrow> assembler_pool \<Rightarrow> u16 \<Rightarrow> u16 \<Rightarrow> nat \<times> assembler_pool" where
  "transport_assembler_window max_assemblers rtt_smoothed pool total_symbols symbol_size =
     (if total_symbols = 0 \<or> symbol_size = 0 then (MIN_ASSEMBLER_WINDOW, pool)
      else let cap = max_assemblers;
               minimum = (if cap < MIN_ASSEMBLER_WINDOW then cap else MIN_ASSEMBLER_WINDOW);
               target = window_target rtt_smoothed (ap_rx_rate pool) minimum
                 (unat total_symbols * unat symbol_size);
               target = (if target > cap then cap else target);
               limit = (if ap_limit pool < target then target else ap_limit pool);
               limit = (if limit < minimum then minimum else limit) in
        (limit, pool\<lparr>ap_limit := limit\<rparr>))"

definition transport_assembler_observe_receive :: "nat \<Rightarrow> assembler_pool \<Rightarrow> nat \<Rightarrow> assembler_pool" where
  "transport_assembler_observe_receive now_ms pool payload_bytes =
     (if payload_bytes = 0 then pool
      else if ap_rx_window_started_ms pool = 0 \<or> now_ms < ap_rx_window_started_ms pool then
        pool\<lparr>ap_rx_window_started_ms := now_ms, ap_rx_window_bytes := payload_bytes\<rparr>
      else
        let window_bytes = (if payload_bytes > SIZE_MAX - ap_rx_window_bytes pool then SIZE_MAX
              else sz_add (ap_rx_window_bytes pool) payload_bytes);
            elapsed = sz_sub now_ms (ap_rx_window_started_ms pool);
            pool = pool\<lparr>ap_rx_window_bytes := window_bytes\<rparr> in
        if elapsed = 0 then pool
        else
          let rate = (if window_bytes > SIZE_MAX div 1000 then SIZE_MAX
                else sz_mul window_bytes 1000 div elapsed);
              pool = (if rate > ap_rx_rate pool then pool\<lparr>ap_rx_rate := rate\<rparr> else pool) in
          if elapsed \<ge> 25 then pool\<lparr>ap_rx_window_started_ms := now_ms, ap_rx_window_bytes := 0\<rparr>
          else pool)"

section \<open>Memory accounting\<close>

record assembler_memory =
  am_bytes :: nat
  am_limit :: nat
  am_limit_errors :: nat

definition release_accounting :: "assembler_memory \<Rightarrow> frame_assembler \<Rightarrow> assembler_memory" where
  "release_accounting memory a =
     (let bytes = transport_assembler_capacity_bytes a in
      memory\<lparr>am_bytes := (if bytes \<le> am_bytes memory then sz_sub (am_bytes memory) bytes else 0)\<rparr>)"

definition transport_release_assembler ::
  "assembler_memory \<Rightarrow> assembler_pool \<Rightarrow> nat \<Rightarrow> (assembler_memory \<times> assembler_pool) option" where
  "transport_release_assembler memory pool slot =
     (case transport_unindex_assembler pool slot of
        None \<Rightarrow> None
      | Some pool' \<Rightarrow>
          let a = ap_assemblers pool' ! slot in
          Some (release_accounting memory a, pool'\<lparr>ap_assemblers := (ap_assemblers pool')
            [slot := transport_assembler_release a]\<rparr>))"

definition transport_grow_assembler ::
  "bool \<Rightarrow> assembler_memory \<Rightarrow> frame_assembler \<Rightarrow> u16 \<Rightarrow> u16 \<Rightarrow>
   bool \<times> assembler_memory \<times> frame_assembler" where
  "transport_grow_assembler alloc_ok memory assembler symbols symbol_size =
     (let old_bytes = transport_assembler_capacity_bytes assembler;
          new_bytes = (if fa_capacity_symbols assembler > symbols \<or>
                          fa_capacity_symbol_size assembler > symbol_size
            then transport_assembler_required_bytes
              (if fa_capacity_symbols assembler > symbols then fa_capacity_symbols assembler else symbols)
              (if fa_capacity_symbol_size assembler > symbol_size
               then fa_capacity_symbol_size assembler else symbol_size)
            else transport_assembler_required_bytes symbols symbol_size);
          used_without_old = (if old_bytes \<le> am_bytes memory then sz_sub (am_bytes memory) old_bytes
            else am_bytes memory);
          needs_allocation = (fa_buffers assembler = None \<or> fa_capacity_symbols assembler < symbols \<or>
            fa_capacity_symbol_size assembler < symbol_size);
          additional_bytes = (if needs_allocation then new_bytes else 0) in
      if am_bytes memory > am_limit memory \<or> additional_bytes > sz_sub (am_limit memory) (am_bytes memory)
      then (False, memory\<lparr>am_limit_errors := sz_add (am_limit_errors memory) 1\<rparr>, assembler)
      else case transport_assembler_grow alloc_ok assembler symbols symbol_size of
        (False, assembler') \<Rightarrow> (False, memory, assembler')
      | (True, assembler') \<Rightarrow>
          (True, memory\<lparr>am_bytes := sz_add used_without_old (transport_assembler_capacity_bytes assembler')\<rparr>,
           assembler'))"

section \<open>The index of the pool\<close>

definition pool_wf :: "assembler_pool \<Rightarrow> bool" where
  "pool_wf p \<longleftrightarrow> length (ap_assemblers p) = HARD_MAX_ASSEMBLERS \<and>
     length (ap_buckets p) = ASSEMBLER_BUCKETS \<and> length (ap_active p) = 16"

definition pool_head :: "assembler_pool \<Rightarrow> nat \<Rightarrow> u16" where
  "pool_head p b = (if b < ASSEMBLER_BUCKETS then ap_buckets p ! b else 0)"

definition pool_live :: "assembler_pool \<Rightarrow> nat \<Rightarrow> bool" where
  "pool_live p i = fa_owner (ap_assemblers p ! i)"

definition pool_key :: "assembler_pool \<Rightarrow> nat \<Rightarrow> u8 \<times> u64 \<times> u64" where
  "pool_key p i = (let a = ap_assemblers p ! i in (fa_track_id a, fa_group_id a, fa_object_id a))"

definition key_bucket :: "u8 \<times> u64 \<times> u64 \<Rightarrow> nat" where
  "key_bucket = (\<lambda>(t, g, i). transport_receive_bucket t g i)"

definition pool_link :: "assembler_pool \<Rightarrow> nat \<Rightarrow> u8 \<times> u64 \<times> u64 \<Rightarrow> assembler_pool" where
  "pool_link p i = (\<lambda>(t, g, ob). transport_index_assembler (p\<lparr>ap_assemblers := (ap_assemblers p)
     [i := (ap_assemblers p ! i)\<lparr>fa_track_id := t, fa_group_id := g, fa_object_id := ob\<rparr>]\<rparr>) i)"

lemma receive_bucket_less: "transport_receive_bucket t g i < ASSEMBLER_BUCKETS"
proof -
  have "unat (w AND of_nat (ASSEMBLER_BUCKETS - 1) :: u64) \<le> unat (of_nat (ASSEMBLER_BUCKETS - 1) :: u64)" for w
    by (intro word_le_nat_alt [THEN iffD1] word_and_le1)
  then have "unat (w AND of_nat (ASSEMBLER_BUCKETS - 1) :: u64) < ASSEMBLER_BUCKETS" for w
    by (simp flip: less_Suc_eq_le)
  then show ?thesis by (simp add: transport_receive_bucket_def Let_def)
qed

lemma key_bucket_less: "key_bucket k < ASSEMBLER_BUCKETS"
  using receive_bucket_less by (cases k) (simp add: key_bucket_def)

lemma pool_link_law:
  assumes wf: "pool_wf s" and i: "i < HARD_MAX_ASSEMBLERS" and r: "pool_link s i k = s'"
  shows "pool_wf s' \<and> (\<forall>b. pool_head s' b = (if b = key_bucket k then slot_ref i else pool_head s b)) \<and>
      (\<forall>j < HARD_MAX_ASSEMBLERS. slot_next (ap_assemblers s') j =
         (if j = i then pool_head s (key_bucket k) else slot_next (ap_assemblers s) j) \<and>
         pool_live s' j = (j = i \<or> pool_live s j) \<and> pool_key s' j = (if j = i then k else pool_key s j))"
proof -
  obtain t g ob where k: "k = (t, g, ob)" by (cases k)
  have l: "length (ap_assemblers s) = 1024" "length (ap_buckets s) = 2048" "length (ap_active s) = 16"
    using wf by (simp_all add: pool_wf_def)
  have b: "transport_receive_bucket t g ob < 2048" using receive_bucket_less by simp
  show ?thesis using l b i unfolding r [symmetric] k
    by (auto simp: pool_link_def transport_index_assembler_def pool_wf_def pool_head_def pool_live_def pool_key_def
        key_bucket_def Let_def nth_list_update)
qed

lemma pool_unlink_law:
  assumes wf: "pool_wf s" and i: "i < HARD_MAX_ASSEMBLERS" and live: "pool_live s i"
    and sk: "seek_link (slot_next (ap_assemblers s)) (pool_head s (key_bucket (pool_key s i))) (slot_ref i) None = Some l"
    and l: "case l of None \<Rightarrow> True | Some j \<Rightarrow> j < HARD_MAX_ASSEMBLERS"
    and v: "link_value (slot_next (ap_assemblers s)) (pool_head s (key_bucket (pool_key s i))) l = slot_ref i"
  shows "\<exists>s'. transport_unindex_assembler s i = Some s' \<and> pool_wf s' \<and>
        (\<forall>b. pool_head s' b = (if l = None \<and> b = key_bucket (pool_key s i)
           then slot_next (ap_assemblers s) i else pool_head s b)) \<and>
        (\<forall>j < HARD_MAX_ASSEMBLERS. j \<noteq> i \<longrightarrow> slot_next (ap_assemblers s') j =
           (if l = Some j then slot_next (ap_assemblers s) i else slot_next (ap_assemblers s) j) \<and>
           pool_key s' j = pool_key s j) \<and>
        (\<forall>j < HARD_MAX_ASSEMBLERS. pool_live s' j = (j \<noteq> i \<and> pool_live s j))"
proof -
  let ?a = "ap_assemblers s ! i"
  let ?b = "transport_receive_bucket (fa_track_id ?a) (fa_group_id ?a) (fa_object_id ?a)"
  have len: "length (ap_assemblers s) = 1024" "length (ap_buckets s) = 2048" "length (ap_active s) = 16"
    using wf by (simp_all add: pool_wf_def)
  have kb: "key_bucket (pool_key s i) = ?b" by (simp add: key_bucket_def pool_key_def Let_def)
  have b: "?b < 2048" using receive_bucket_less by simp
  have h: "pool_head s ?b = ap_buckets s ! ?b" using b by (simp add: pool_head_def)
  note sk' = sk [unfolded kb h] and v' = v [unfolded kb h]
  have ow: "fa_owner ?a" using live by (simp add: pool_live_def)
  let ?act = "(ap_active s)[i div 64 := ap_active s ! (i div 64) AND NOT (push_bit (i mod 64) 1)]"
  show ?thesis
  proof (cases l)
    case None
    let ?s = "s\<lparr>ap_buckets := (ap_buckets s)[?b := fa_hash_next ?a], ap_count := sz_sub (ap_count s) 1,
      ap_active := ?act, ap_assemblers := (ap_assemblers s)[i := ?a\<lparr>fa_owner := False, fa_hash_next := 0\<rparr>]\<rparr>"
    have u: "transport_unindex_assembler s i = Some ?s"
      using ow sk' v' None by (simp add: transport_unindex_assembler_def Let_def)
    show ?thesis
      by (rule exI [of _ ?s]) (use u len i b None in \<open>auto simp: pool_wf_def pool_head_def pool_live_def pool_key_def key_bucket_def
        Let_def nth_list_update\<close>)
  next
    case (Some m)
    have m: "m < 1024" using l Some by simp
    let ?as = "(ap_assemblers s)[m := (ap_assemblers s ! m)\<lparr>fa_hash_next := fa_hash_next ?a\<rparr>]"
    let ?s = "s\<lparr>ap_count := sz_sub (ap_count s) 1, ap_active := ?act,
      ap_assemblers := ?as[i := (?as ! i)\<lparr>fa_owner := False, fa_hash_next := 0\<rparr>]\<rparr>"
    have u: "transport_unindex_assembler s i = Some ?s"
      using ow sk' v' Some by (simp add: transport_unindex_assembler_def Let_def)
    show ?thesis
      by (rule exI [of _ ?s]) (use u len i b m Some in \<open>auto simp: pool_wf_def pool_head_def pool_live_def pool_key_def key_bucket_def
        Let_def nth_list_update\<close>)
  qed
qed

interpretation pool: hash_index HARD_MAX_ASSEMBLERS key_bucket pool_head "\<lambda>p. slot_next (ap_assemblers p)"
    pool_live pool_key pool_wf pool_link transport_unindex_assembler
proof unfold_locales
  show "HARD_MAX_ASSEMBLERS < 65535" by simp
qed (rule pool_link_law pool_unlink_law; assumption)+

section \<open>The lowest active slot\<close>

lemma ctz_correct:
  assumes "w \<noteq> 0"
  shows "ctz w < 64 \<and> bit w (ctz w) \<and> (\<forall>j < ctz w. \<not> bit w j)"
proof -
  have ex: "\<exists>i < 64. bit w i" using assms bit_imp_le_length [of w] by (auto simp: bit_eq_iff)
  let ?t = "takeWhile (\<lambda>i. \<not> bit w i) [0..<64]"
  have l: "length ?t < length [0..<64]"
  proof (rule ccontr)
    assume "\<not> length ?t < length [0..<64]"
    then have "?t = [0..<64]" using length_takeWhile_le [of "\<lambda>i. \<not> bit w i" "[0..<64]"]
      by (metis le_neq_implies_less takeWhile_eq_take take_all linorder_not_less)
    then have "\<forall>i\<in>set [0..<64]. \<not> bit w i" by (simp only: takeWhile_eq_all_conv)
    then show False using ex by auto
  qed
  then have "bit w ([0..<64] ! length ?t)" using nth_length_takeWhile [OF l] by simp
  moreover have "\<not> bit w j" if "j < length ?t" for j
    using that takeWhile_nth [OF that] nth_mem [OF that] l by (auto dest!: set_takeWhileD)
  ultimately show ?thesis using l by (simp add: ctz_def)
qed

lemma next_loop_correct:
  "64 * (word + length ws) = HARD_MAX_ASSEMBLERS \<Longrightarrow>
   (let r = next_assembler_loop ws word in
     64 * word \<le> r \<and> r \<le> HARD_MAX_ASSEMBLERS \<and> (r < HARD_MAX_ASSEMBLERS \<longrightarrow> bit (ws ! (r div 64 - word)) (r mod 64)) \<and>
     (\<forall>j. 64 * word \<le> j \<longrightarrow> j < r \<longrightarrow> \<not> bit (ws ! (j div 64 - word)) (j mod 64)))"
proof (induction ws arbitrary: word)
  case (Cons w ws)
  show ?case
  proof (cases "w = 0")
    case True
    let ?r = "next_assembler_loop ws (word + 1)"
    have "64 * (word + 1 + length ws) = HARD_MAX_ASSEMBLERS" using Cons.prems by simp
    note ih = Cons.IH [OF this, unfolded Let_def]
    have "\<not> bit ((w # ws) ! (j div 64 - word)) (j mod 64)" if "64 * word \<le> j" "j < ?r" for j
    proof (cases "j div 64 = word")
      case True
      then show ?thesis using \<open>w = 0\<close> by simp
    next
      case False
      then have "word < j div 64" using div_le_mono [OF that(1), of 64] by simp
      then have "64 * (word + 1) \<le> j" "j div 64 - word = Suc (j div 64 - (word + 1))"
        using less_eq_div_iff_mult_less_eq [of 64 "word + 1" j] by simp_all
      then show ?thesis using ih that(2) by simp
    qed
    moreover have "bit ((w # ws) ! (?r div 64 - word)) (?r mod 64)" if "?r < HARD_MAX_ASSEMBLERS"
    proof -
      have "64 * (word + 1) \<le> ?r" using ih by simp
      then have "word < ?r div 64" using div_le_mono [of "64 * (word + 1)" ?r 64] by simp
      then have "?r div 64 - word = Suc (?r div 64 - (word + 1))" by linarith
      then show ?thesis using ih that by simp
    qed
    ultimately show ?thesis using ih True by (simp add: Let_def)
  next
    case False
    note c = ctz_correct [OF False]
    have r: "next_assembler_loop (w # ws) word = word * 64 + ctz w" using False by simp
    have "\<not> bit ((w # ws) ! (j div 64 - word)) (j mod 64)" if "64 * word \<le> j" "j < word * 64 + ctz w" for j
    proof -
      have d: "j div 64 = word" using that c by linarith
      then have "j mod 64 < ctz w" using that mult_div_mod_eq [of 64 j] by simp
      then show ?thesis using c d by simp
    qed
    then have low: "\<forall>j. 64 * word \<le> j \<longrightarrow> j < word * 64 + ctz w \<longrightarrow> \<not> bit ((w # ws) ! (j div 64 - word)) (j mod 64)"
      by blast
    have "(word * 64 + ctz w) div 64 = word" "(word * 64 + ctz w) mod 64 = ctz w" using c by simp_all
    moreover have "word * 64 + ctz w < HARD_MAX_ASSEMBLERS" using c Cons.prems by simp
    ultimately show ?thesis using c unfolding r Let_def by (intro conjI low) simp_all
  qed
qed (simp add: Let_def)

section \<open>The invariant of the pool\<close>

text \<open>
  The chains index exactly the live slots, the bitmap and the counter agree with them, and no
  two live slots hold the same object.
\<close>

definition pool_ok :: "assembler_pool \<Rightarrow> bool" where
  "pool_ok p \<longleftrightarrow> pool_wf p \<and>
     chain_index HARD_MAX_ASSEMBLERS (pool_head p) (slot_next (ap_assemblers p)) (pool_live p)
       (\<lambda>i. key_bucket (pool_key p i)) \<and>
     ap_count p = card {i. i < HARD_MAX_ASSEMBLERS \<and> pool_live p i} \<and>
     (\<forall>i < HARD_MAX_ASSEMBLERS. bit (ap_active p ! (i div 64)) (i mod 64) \<longleftrightarrow> pool_live p i) \<and>
     (\<forall>i < HARD_MAX_ASSEMBLERS. \<forall>j < HARD_MAX_ASSEMBLERS.
        pool_live p i \<longrightarrow> pool_live p j \<longrightarrow> pool_key p i = pool_key p j \<longrightarrow> i = j)"

lemma next_assembler_ok:
  assumes ok: "pool_ok p"
  shows "let r = transport_next_assembler p first in
    (r = HARD_MAX_ASSEMBLERS \<or> (r < HARD_MAX_ASSEMBLERS \<and> first \<le> r \<and> pool_live p r)) \<and>
    (\<forall>j < r. first \<le> j \<longrightarrow> \<not> pool_live p j)"
proof -
  have l: "length (ap_active p) = 16" using ok by (simp add: pool_ok_def pool_wf_def)
  have lv: "pool_live p i \<longleftrightarrow> bit (ap_active p ! (i div 64)) (i mod 64)" if "i < HARD_MAX_ASSEMBLERS" for i
    using ok that by (simp add: pool_ok_def)
  show ?thesis
  proof (cases "ap_count p = 0 \<or> first \<ge> HARD_MAX_ASSEMBLERS")
    case True
    have "\<not> pool_live p j" if "first \<le> j" "j < HARD_MAX_ASSEMBLERS" for j
    proof
      assume "pool_live p j"
      then have "card {i. i < HARD_MAX_ASSEMBLERS \<and> pool_live p i} \<noteq> 0"
        using that by (subst card_0_eq) auto
      then show False using True that ok by (auto simp: pool_ok_def)
    qed
    then show ?thesis using True by (simp add: transport_next_assembler_def)
  next
    case False
    then have f: "first < 1024" by simp
    let ?w = "first div 64"
    let ?ws = "(ap_active p ! ?w AND push_bit (first mod 64) (- 1)) # drop (?w + 1) (ap_active p)"
    have w: "?w < 16" using f by linarith
    then have "64 * (?w + length ?ws) = HARD_MAX_ASSEMBLERS" using l by simp
    note c = next_loop_correct [OF this]
    define r where "r = transport_next_assembler p first"
    have re: "next_assembler_loop ?ws ?w = r" unfolding r_def transport_next_assembler_def if_not_P [OF False] Let_def ..
    note c' = c [unfolded re Let_def]
    have b: "bit (?ws ! (j div 64 - ?w)) (j mod 64) \<longleftrightarrow> first \<le> j \<and> pool_live p j"
      if j: "64 * ?w \<le> j" "j < 1024" for j
    proof (cases "j div 64 = ?w")
      case True
      have "first mod 64 \<le> j mod 64 \<longleftrightarrow> first \<le> j" using True by (metis div_mult_mod_eq nat_add_left_cancel_le)
      then show ?thesis using True lv [of j] j by (auto simp: bit_simps not_less)
    next
      case False
      then have "?w < j div 64" using div_le_mono [OF j(1), of 64] by simp
      moreover from this have "first \<le> j" by (meson div_le_mono leD le_cases)
      moreover have "j div 64 - ?w = Suc (j div 64 - (?w + 1))" using calculation(1) by linarith
      ultimately show ?thesis using lv [of j] j l by simp
    qed
    have "r = HARD_MAX_ASSEMBLERS \<or> (r < HARD_MAX_ASSEMBLERS \<and> first \<le> r \<and> pool_live p r)"
      using c' b [of r] by auto
    moreover have "\<not> pool_live p j" if "j < r" "first \<le> j" for j
    proof -
      have "64 * ?w \<le> j" using that(2) by (metis div_times_less_eq_dividend mult.commute order_trans)
      then show ?thesis using c' b [of j] that by auto
    qed
    ultimately show ?thesis by (simp add: Let_def flip: r_def)
  qed
qed

lemma find_assembler_ok:
  assumes ok: "pool_ok p"
  shows "\<exists>r. transport_find_assembler p t g ob = Some r \<and>
    (case r of
       None \<Rightarrow> \<forall>i < HARD_MAX_ASSEMBLERS. pool_live p i \<longrightarrow> pool_key p i \<noteq> (t, g, ob)
     | Some i \<Rightarrow> i < HARD_MAX_ASSEMBLERS \<and> pool_live p i \<and> pool_key p i = (t, g, ob))"
proof -
  let ?P = "\<lambda>i. let a = ap_assemblers p ! i in fa_track_id a = t \<and> fa_group_id a = g \<and> fa_object_id a = ob"
  have ix: "pool.indexed p" using ok by (simp add: pool_ok_def)
  have P: "?P i \<longleftrightarrow> pool_key p i = (t, g, ob)" for i by (simp add: pool_key_def Let_def)
  have h: "pool_head p (transport_receive_bucket t g ob) = ap_buckets p ! transport_receive_bucket t g ob"
    using receive_bucket_less by (simp add: pool_head_def)
  have kb: "key_bucket (t, g, ob) = transport_receive_bucket t g ob" by (simp add: key_bucket_def)
  from pool.lookup [OF ix, of ?P "transport_receive_bucket t g ob"] obtain r where
    r: "chain_find (slot_next (ap_assemblers p)) ?P (pool_head p (transport_receive_bucket t g ob)) = Some r"
      "case r of
       None \<Rightarrow> \<forall>i < HARD_MAX_ASSEMBLERS. pool_live p i \<longrightarrow>
          key_bucket (pool_key p i) = transport_receive_bucket t g ob \<longrightarrow> \<not> ?P i
     | Some i \<Rightarrow> i < HARD_MAX_ASSEMBLERS \<and> pool_live p i \<and>
          key_bucket (pool_key p i) = transport_receive_bucket t g ob \<and> ?P i" by blast
  have f: "transport_find_assembler p t g ob = Some r"
    unfolding transport_find_assembler_def using r(1) unfolding h .
  show ?thesis
  proof (cases r)
    case None
    then show ?thesis using f r(2) kb unfolding P by auto
  next
    case (Some i)
    then show ?thesis using f r(2) unfolding P by simp
  qed
qed

lemma bit_set_slot:
  "i < 1024 \<Longrightarrow> j < 1024 \<Longrightarrow> length ws = 16 \<Longrightarrow>
   bit (ws[i div 64 := (ws ! (i div 64) :: u64) OR push_bit (i mod 64) 1] ! (j div 64)) (j mod 64) \<longleftrightarrow>
   j = i \<or> bit (ws ! (j div 64)) (j mod 64)"
  by (cases "j div 64 = i div 64") (auto simp: nth_list_update bit_simps, metis div_mult_mod_eq)

lemma bit_clear_slot:
  "i < 1024 \<Longrightarrow> j < 1024 \<Longrightarrow> length ws = 16 \<Longrightarrow>
   bit (ws[i div 64 := (ws ! (i div 64) :: u64) AND NOT (push_bit (i mod 64) 1)] ! (j div 64)) (j mod 64) \<longleftrightarrow>
   j \<noteq> i \<and> bit (ws ! (j div 64)) (j mod 64)"
  by (cases "j div 64 = i div 64") (auto simp: nth_list_update bit_simps, metis div_mult_mod_eq)
text \<open>An assembler apart from the fields the index owns.\<close>

definition contents :: "frame_assembler \<Rightarrow> frame_assembler" where
  "contents a = a\<lparr>fa_owner := False, fa_hash_next := 0\<rparr>"

lemma contents_simps [simp]:
  "contents (a\<lparr>fa_owner := ow\<rparr>) = contents a" "contents (a\<lparr>fa_hash_next := h\<rparr>) = contents a"
  by (cases a; simp add: contents_def)+

lemma contents_fields:
  "fa_track_id (contents a) = fa_track_id a" "fa_group_id (contents a) = fa_group_id a"
  "fa_object_id (contents a) = fa_object_id a" "fa_buffers (contents a) = fa_buffers a"
  "transport_assembler_capacity_bytes (contents a) = transport_assembler_capacity_bytes a"
  "storage_ok (contents a) = storage_ok a"
  by (simp_all add: contents_def transport_assembler_capacity_bytes_def storage_ok_def split: option.split)

lemma contents_key:
  assumes "contents (ap_assemblers p' ! i) = contents (ap_assemblers p ! i)"
  shows "pool_key p' i = pool_key p i"
  using assms [THEN arg_cong, of fa_track_id] assms [THEN arg_cong, of fa_group_id]
    assms [THEN arg_cong, of fa_object_id] by (simp add: pool_key_def contents_fields Let_def)

lemma contents_relink [simp]:
  "contents (xs[a := (xs ! a)\<lparr>fa_hash_next := h\<rparr>] ! j) = contents (xs ! j)"
  by (cases "a < length xs"; cases "a = j") (simp_all add: list_update_beyond)

lemma card_live_insert:
  "i < 1024 \<Longrightarrow> \<not> P i \<Longrightarrow> \<forall>j < 1024. Q j \<longleftrightarrow> j = i \<or> P j \<Longrightarrow>
   card {j. j < (1024 :: nat) \<and> Q j} = Suc (card {j. j < 1024 \<and> P j})"
proof -
  assume a: "i < 1024" "\<not> P i" "\<forall>j < 1024. Q j \<longleftrightarrow> j = i \<or> P j"
  then have "{j. j < 1024 \<and> Q j} = insert i {j. j < 1024 \<and> P j}" by auto
  then show ?thesis using a by simp
qed

lemma card_live_le: "card {j. j < (1024 :: nat) \<and> P j} \<le> 1024"
  using card_mono [of "{..<1024 :: nat}" "{j. j < 1024 \<and> P j}"] by auto

lemma index_ok:
  assumes ok: "pool_ok p" and i: "i < HARD_MAX_ASSEMBLERS" "\<not> pool_live p i"
    and fresh: "\<forall>j < HARD_MAX_ASSEMBLERS. pool_live p j \<longrightarrow> pool_key p j \<noteq> pool_key p i"
  shows "pool_ok (transport_index_assembler p i) \<and>
    (\<forall>j < HARD_MAX_ASSEMBLERS. pool_live (transport_index_assembler p i) j \<longleftrightarrow> j = i \<or> pool_live p j) \<and>
    (\<forall>j < HARD_MAX_ASSEMBLERS. contents (ap_assemblers (transport_index_assembler p i) ! j) =
       contents (ap_assemblers p ! j))"
proof -
  let ?p = "transport_index_assembler p i"
  have wf: "pool_wf p" and ix: "pool.indexed p" using ok by (simp_all add: pool_ok_def)
  have l: "length (ap_assemblers p) = 1024" "length (ap_active p) = 16" using wf by (simp_all add: pool_wf_def)
  have e: "pool_link p i (pool_key p i) = ?p" by (simp add: pool_link_def pool_key_def Let_def)
  note q = pool.indexed_link [OF ix wf i, of "pool_key p i", unfolded e]
  note law = pool_link_law [OF wf i(1) e]
  have lv: "\<forall>j < HARD_MAX_ASSEMBLERS. pool_live ?p j \<longleftrightarrow> j = i \<or> pool_live p j" using law by blast
  have ky: "pool_key ?p j = pool_key p j" if "j < HARD_MAX_ASSEMBLERS" for j using law that by auto
  have cnt: "ap_count ?p = card {j. j < HARD_MAX_ASSEMBLERS \<and> pool_live ?p j}"
  proof -
    have "ap_count ?p = sz_add (ap_count p) 1" by (simp add: transport_index_assembler_def Let_def)
    also have "\<dots> = Suc (ap_count p)"
      using ok card_live_le [of "pool_live p"] by (subst sz_add_no_wrap) (simp_all add: pool_ok_def SIZE_MAX_def)
    also have "\<dots> = card {j. j < HARD_MAX_ASSEMBLERS \<and> pool_live ?p j}"
      using card_live_insert [of i "pool_live p" "pool_live ?p"] i lv ok by (simp add: pool_ok_def)
    finally show ?thesis .
  qed
  have bits: "bit (ap_active ?p ! (j div 64)) (j mod 64) \<longleftrightarrow> pool_live ?p j" if "j < HARD_MAX_ASSEMBLERS" for j
    using bit_set_slot [OF i(1) that l(2)] lv ok that
    by (simp add: transport_index_assembler_def Let_def pool_ok_def)
  have uniq: "j = k" if "j < HARD_MAX_ASSEMBLERS" "k < HARD_MAX_ASSEMBLERS" "pool_live ?p j" "pool_live ?p k"
    "pool_key ?p j = pool_key ?p k" for j k
  proof -
    have *: "pool_key p j = pool_key p k" "j = i \<or> pool_live p j" "k = i \<or> pool_live p k"
      using that ky lv by auto
    show ?thesis using * fresh ok that(1,2) unfolding pool_ok_def by metis
  qed
  have "contents (ap_assemblers ?p ! j) = contents (ap_assemblers p ! j)" if "j < HARD_MAX_ASSEMBLERS" for j
    using l i(1) that by (auto simp: transport_index_assembler_def Let_def nth_list_update)
  moreover have "pool_ok ?p" unfolding pool_ok_def using q cnt bits uniq by blast
  ultimately show ?thesis using lv by blast
qed

lemma unindex_ok:
  assumes ok: "pool_ok p" and i: "i < HARD_MAX_ASSEMBLERS"
  shows "\<exists>p'. transport_unindex_assembler p i = Some p' \<and> pool_ok p' \<and>
    (\<forall>j < HARD_MAX_ASSEMBLERS. pool_live p' j \<longleftrightarrow> j \<noteq> i \<and> pool_live p j) \<and>
    (\<forall>j < HARD_MAX_ASSEMBLERS. contents (ap_assemblers p' ! j) = contents (ap_assemblers p ! j)) \<and>
    length (ap_assemblers p') = HARD_MAX_ASSEMBLERS"
proof (cases "pool_live p i")
  case False
  then have "transport_unindex_assembler p i = Some p"
    by (simp add: transport_unindex_assembler_def pool_live_def Let_def)
  then show ?thesis using ok False by (auto simp: pool_ok_def pool_wf_def)
next
  case True
  have wf: "pool_wf p" and ix: "pool.indexed p" using ok by (simp_all add: pool_ok_def)
  have l: "length (ap_assemblers p) = 1024" "length (ap_active p) = 16" using wf by (simp_all add: pool_wf_def)
  from pool.indexed_unlink [OF ix wf i True] obtain p' where u: "transport_unindex_assembler p i = Some p'"
    and q: "pool.indexed p'" "pool_wf p'" and lv: "\<forall>j < HARD_MAX_ASSEMBLERS. pool_live p' j = (j \<noteq> i \<and> pool_live p j)"
    and ky: "\<forall>j < HARD_MAX_ASSEMBLERS. j \<noteq> i \<longrightarrow> pool_key p' j = pool_key p j" by blast
  let ?a = "ap_assemblers p ! i"
  define bucket where "bucket = transport_receive_bucket (fa_track_id ?a) (fa_group_id ?a) (fa_object_id ?a)"
  define head where "head = ap_buckets p ! bucket"
  have ow: "fa_owner ?a" using True by (simp add: pool_live_def)
  obtain lk where lk: "seek_link (slot_next (ap_assemblers p)) head (slot_ref i) None = Some lk"
    using u ow by (auto simp: transport_unindex_assembler_def Let_def head_def bucket_def split: option.splits)
  let ?act = "(ap_active p)[i div 64 := ap_active p ! (i div 64) AND NOT (push_bit (i mod 64) 1)]"
  note u' = u [unfolded transport_unindex_assembler_def Let_def, folded bucket_def, folded head_def, unfolded lk option.simps]
  have shape: "(ap_active p' = ?act \<and> ap_count p' = sz_sub (ap_count p) 1 \<or>
      ap_active p' = ap_active p \<and> ap_count p' = ap_count p) \<and>
    (\<forall>j < HARD_MAX_ASSEMBLERS. contents (ap_assemblers p' ! j) = contents (ap_assemblers p ! j))"
  proof (cases "link_value (slot_next (ap_assemblers p)) head lk = slot_ref i")
    case True
    then show ?thesis using u' ow l i by (cases lk) (auto simp: nth_list_update)
  next
    case False
    then show ?thesis using u' ow l i by (auto simp: nth_list_update)
  qed
  have linked: "link_value (slot_next (ap_assemblers p)) head lk = slot_ref i"
  proof -
    have kb: "key_bucket (pool_key p i) = bucket" by (simp add: key_bucket_def pool_key_def Let_def bucket_def)
    have hd: "pool_head p bucket = head" using receive_bucket_less by (simp add: pool_head_def head_def bucket_def)
    from ix obtain xs where xs: "chain (slot_next (ap_assemblers p)) head xs" "distinct xs" "i \<in> set xs"
      unfolding chain_index_def using True i kb hd by blast
    obtain ys zs where e: "xs = ys @ i # zs" using xs(3) by (auto dest: split_list)
    have "lk = (if ys = [] then None else Some (last ys))"
      using seek_link_chain [of "slot_next (ap_assemblers p)" head None ys i zs] xs e lk by simp
    moreover have "chain n h (ys @ i # zs) \<Longrightarrow> (if ys = [] then h else n (last ys)) = slot_ref i" for n h
      by (induction ys arbitrary: h) (auto simp: chain_Cons_iff split: if_splits)
    from this [OF xs(1) [unfolded e]] have "(if ys = [] then head else slot_next (ap_assemblers p) (last ys)) = slot_ref i" .
    ultimately show ?thesis by (cases "ys = []") simp_all
  qed
  have act: "ap_active p' = ?act" "ap_count p' = sz_sub (ap_count p) 1"
    using u' linked ow by (cases lk; auto)+
  have c: "ap_count p = Suc (card {j. j < HARD_MAX_ASSEMBLERS \<and> pool_live p' j})"
    using card_live_insert [of i "pool_live p'" "pool_live p"] i lv True ok by (auto simp: pool_ok_def)
  have cnt: "ap_count p' = card {j. j < HARD_MAX_ASSEMBLERS \<and> pool_live p' j}"
    unfolding act(2) c by (simp add: sz_sub_def)
  have bits: "bit (ap_active p' ! (j div 64)) (j mod 64) \<longleftrightarrow> pool_live p' j" if "j < HARD_MAX_ASSEMBLERS" for j
    unfolding act(1) bit_clear_slot [OF i that l(2)] using lv ok that by (simp add: pool_ok_def)
  have uniq: "j = k" if "j < HARD_MAX_ASSEMBLERS" "k < HARD_MAX_ASSEMBLERS" "pool_live p' j" "pool_live p' k"
    "pool_key p' j = pool_key p' k" for j k
  proof -
    have "j \<noteq> i" "k \<noteq> i" "pool_live p j" "pool_live p k" "pool_key p j = pool_key p k" using that ky lv by auto
    then show ?thesis using ok that(1,2) unfolding pool_ok_def by metis
  qed
  have "pool_ok p'" unfolding pool_ok_def using q cnt bits uniq by blast
  then show ?thesis using u lv shape q(2) by (simp add: pool_wf_def)
qed
lemma pool_ok_free_slot:
  assumes ok: "pool_ok p" and i: "i < HARD_MAX_ASSEMBLERS" "\<not> pool_live p i" and a: "\<not> fa_owner a"
  shows "pool_ok (p\<lparr>ap_assemblers := (ap_assemblers p)[i := a]\<rparr>) \<and>
    (\<forall>j < HARD_MAX_ASSEMBLERS. pool_live (p\<lparr>ap_assemblers := (ap_assemblers p)[i := a]\<rparr>) j \<longleftrightarrow> pool_live p j)"
proof -
  let ?p = "p\<lparr>ap_assemblers := (ap_assemblers p)[i := a]\<rparr>"
  have l: "length (ap_assemblers p) = 1024" using ok by (simp add: pool_ok_def pool_wf_def)
  have lv: "pool_live ?p j \<longleftrightarrow> pool_live p j" for j
    using i a l by (cases "j = i") (simp_all add: pool_live_def)
  have same: "j \<noteq> i \<Longrightarrow> pool_key ?p j = pool_key p j" "j \<noteq> i \<Longrightarrow> slot_next (ap_assemblers ?p) j = slot_next (ap_assemblers p) j"
    for j by (simp_all add: pool_key_def)
  have ne: "pool_live p j \<Longrightarrow> j \<noteq> i" for j using i(2) by blast
  have nx: "slot_next (ap_assemblers ?p) j = slot_next (ap_assemblers p) j \<and> pool_key ?p j = pool_key p j"
    if "pool_live p j" for j using same [of j] ne [OF that] by simp
  have hd: "pool_head ?p b = pool_head p b" for b by (simp add: pool_head_def)
  have "pool.indexed p" using ok by (simp add: pool_ok_def)
  then have "chain_index HARD_MAX_ASSEMBLERS (pool_head ?p) (slot_next (ap_assemblers ?p)) (pool_live ?p)
       (\<lambda>i. key_bucket (pool_key ?p i))"
    by (rule chain_index_cong) (use hd lv nx in simp_all)
  moreover have "pool_wf ?p" using ok by (simp add: pool_ok_def pool_wf_def)
  moreover have "j = k" if "j < HARD_MAX_ASSEMBLERS" "k < HARD_MAX_ASSEMBLERS" "pool_live ?p j" "pool_live ?p k"
    "pool_key ?p j = pool_key ?p k" for j k
  proof -
    have "pool_live p j" "pool_live p k" "pool_key p j = pool_key p k" using that lv same ne by auto
    then show ?thesis using ok that(1,2) unfolding pool_ok_def by metis
  qed
  ultimately have "pool_ok ?p" using ok lv unfolding pool_ok_def by simp
  then show ?thesis using lv by blast
qed

definition slots_bytes :: "assembler_pool \<Rightarrow> nat" where
  "slots_bytes p = (\<Sum>a\<leftarrow>ap_assemblers p. transport_assembler_capacity_bytes a)"

lemma slots_bytes_update:
  assumes "i < length (ap_assemblers p)"
  shows "slots_bytes (p\<lparr>ap_assemblers := (ap_assemblers p)[i := a]\<rparr>) +
    transport_assembler_capacity_bytes (ap_assemblers p ! i) = slots_bytes p + transport_assembler_capacity_bytes a"
proof -
  let ?f = transport_assembler_capacity_bytes and ?xs = "ap_assemblers p"
  have "?f (?xs ! i) \<le> sum_list (map ?f ?xs)" using assms by (intro member_le_sum_list) simp_all
  moreover have "sum_list ((map ?f ?xs)[i := ?f a]) = sum_list (map ?f ?xs) + ?f a - map ?f ?xs ! i"
    using assms by (intro sum_list_update) simp
  ultimately show ?thesis using assms by (simp add: slots_bytes_def map_update)
qed

lemma slots_bytes_cong:
  assumes "length (ap_assemblers p') = length (ap_assemblers p)"
    "\<forall>j < length (ap_assemblers p). contents (ap_assemblers p' ! j) = contents (ap_assemblers p ! j)"
  shows "slots_bytes p' = slots_bytes p"
proof -
  have "map transport_assembler_capacity_bytes (ap_assemblers p') = map transport_assembler_capacity_bytes (ap_assemblers p)"
    using assms by (intro nth_equalityI) (simp, metis contents_fields(5) length_map nth_map)
  then show ?thesis by (simp add: slots_bytes_def)
qed

lemma zero_capacity [simp]: "transport_assembler_capacity_bytes zero_assembler = 0"
  by (simp add: transport_assembler_capacity_bytes_def transport_assembler_required_bytes_def zero_assembler_def)

text \<open>Releasing a slot frees exactly its bytes.\<close>

lemma release_ok:
  assumes ok: "pool_ok p" and i: "i < HARD_MAX_ASSEMBLERS" and m: "am_bytes m = others + slots_bytes p"
  shows "\<exists>m' p'. transport_release_assembler m p i = Some (m', p') \<and> pool_ok p' \<and>
    am_bytes m' = others + slots_bytes p' \<and> am_bytes m' \<le> am_bytes m \<and> am_limit m' = am_limit m \<and>
    ap_assemblers p' ! i = zero_assembler \<and>
    (\<forall>j < HARD_MAX_ASSEMBLERS. pool_live p' j \<longleftrightarrow> j \<noteq> i \<and> pool_live p j) \<and>
    (\<forall>j < HARD_MAX_ASSEMBLERS. j \<noteq> i \<longrightarrow> contents (ap_assemblers p' ! j) = contents (ap_assemblers p ! j))"
proof -
  obtain q where q: "transport_unindex_assembler p i = Some q" "pool_ok q"
    "\<forall>j < HARD_MAX_ASSEMBLERS. pool_live q j \<longleftrightarrow> j \<noteq> i \<and> pool_live p j"
    "\<forall>j < HARD_MAX_ASSEMBLERS. contents (ap_assemblers q ! j) = contents (ap_assemblers p ! j)"
    "length (ap_assemblers q) = HARD_MAX_ASSEMBLERS" using unindex_ok [OF ok i] by blast
  have lp: "length (ap_assemblers p) = HARD_MAX_ASSEMBLERS" using ok by (simp add: pool_ok_def pool_wf_def)
  have b: "slots_bytes q = slots_bytes p" using q(4,5) lp by (intro slots_bytes_cong) simp_all
  let ?a = "ap_assemblers q ! i" and ?p = "q\<lparr>ap_assemblers := (ap_assemblers q)[i := zero_assembler]\<rparr>"
  have s: "slots_bytes ?p + transport_assembler_capacity_bytes ?a = slots_bytes q"
    using slots_bytes_update [of i q zero_assembler] i q(5) by simp
  have r: "transport_release_assembler m p i = Some (release_accounting m ?a, ?p)"
    by (simp add: transport_release_assembler_def q(1) Let_def transport_assembler_release_def)
  have m': "am_bytes (release_accounting m ?a) = others + slots_bytes ?p" "am_limit (release_accounting m ?a) = am_limit m"
    using m s b by (simp_all add: release_accounting_def Let_def sz_sub_def)
  have "\<not> pool_live q i" using q(3) i by blast
  note f = pool_ok_free_slot [OF q(2) i this, of zero_assembler]
  have "\<not> fa_owner zero_assembler" by (simp add: zero_assembler_def)
  note f = f [OF this]
  have "\<forall>j < HARD_MAX_ASSEMBLERS. j \<noteq> i \<longrightarrow> contents (ap_assemblers ?p ! j) = contents (ap_assemblers p ! j)"
    using q(4) by simp
  moreover have "ap_assemblers ?p ! i = zero_assembler" using i q(5) by simp
  ultimately show ?thesis using r m' f q(3) m s b by (intro exI [of _ "release_accounting m ?a"] exI [of _ ?p]) simp
qed

text \<open>
  Growing an assembler keeps the account exact and within the limit, even counting the old and
  the new storage together while the copy is made.
\<close>

lemma grow_accounting:
  assumes ok: "storage_ok a" and p: "symbols \<noteq> 0" "symbol_size \<noteq> 0"
    and m: "am_bytes m = others + transport_assembler_capacity_bytes a" "am_bytes m \<le> am_limit m" "am_limit m \<le> SIZE_MAX"
    and r: "transport_grow_assembler alloc_ok m a symbols symbol_size = (grown, m', a')"
  shows "am_bytes m' = others + transport_assembler_capacity_bytes a' \<and> am_bytes m' \<le> am_limit m' \<and>
    am_limit m' = am_limit m \<and> (\<not> grown \<longrightarrow> a' = a \<and> am_bytes m' = am_bytes m) \<and>
    (grown \<longrightarrow> transport_assembler_grow alloc_ok a symbols symbol_size = (True, a') \<and>
       (a' = a \<or> am_bytes m + transport_assembler_capacity_bytes a' \<le> am_limit m))"
proof -
  let ?cap = "transport_assembler_capacity_bytes"
  let ?ns = "max (fa_capacity_symbols a) symbols" and ?nz = "max (fa_capacity_symbol_size a) symbol_size"
  define new where "new = (if fa_capacity_symbols a > symbols \<or> fa_capacity_symbol_size a > symbol_size
    then transport_assembler_required_bytes ?ns ?nz else transport_assembler_required_bytes symbols symbol_size)"
  have new: "new = transport_assembler_required_bytes ?ns ?nz"
    by (auto simp: new_def max_def not_less dest: order_antisym)
  define needs where "needs \<longleftrightarrow> fa_buffers a = None \<or> fa_capacity_symbols a < symbols \<or> fa_capacity_symbol_size a < symbol_size"
  have nr: "needs \<longleftrightarrow> \<not> reuses a symbols symbol_size" by (auto simp: needs_def reuses_def not_less)
  have used: "(if ?cap a \<le> am_bytes m then sz_sub (am_bytes m) (?cap a) else am_bytes m) = others"
    using m(1) by (simp add: sz_sub_def)
  have e: "transport_grow_assembler alloc_ok m a symbols symbol_size =
    (if (if needs then new else 0) > am_limit m - am_bytes m
     then (False, m\<lparr>am_limit_errors := sz_add (am_limit_errors m) 1\<rparr>, a)
      else case transport_assembler_grow alloc_ok a symbols symbol_size of
        (False, assembler') \<Rightarrow> (False, m, assembler')
      | (True, assembler') \<Rightarrow> (True, m\<lparr>am_bytes := sz_add others (?cap assembler')\<rparr>, assembler'))"
    using m(2) unfolding transport_grow_assembler_def max_u16_if Let_def used
    by (simp add: needs_def new_def sz_sub_def)
  obtain g a1 where g: "transport_assembler_grow alloc_ok a symbols symbol_size = (g, a1)"
    by (cases "transport_assembler_grow alloc_ok a symbols symbol_size")
  note gk = assembler_grow_ok [OF ok p g]
  show ?thesis
  proof (cases "(if needs then new else 0) > am_limit m - am_bytes m")
    case True
    then have "grown = False" "m' = m\<lparr>am_limit_errors := sz_add (am_limit_errors m) 1\<rparr>" "a' = a"
      using r e by simp_all
    then show ?thesis using m by simp
  next
    case fits: False
    show ?thesis
    proof (cases g)
      case False
      then show ?thesis using r e g gk m fits by simp
    next
      case True
      have c: "?cap a1 = transport_assembler_required_bytes ?ns ?nz"
        using gk True by (simp add: transport_assembler_capacity_bytes_def)
      have a1: "a1 = a" if "\<not> needs"
        using that g p by (auto simp: nr reuses_def transport_assembler_grow_def split: if_splits)
      have fit: "others + ?cap a1 \<le> am_limit m \<and> (a1 = a \<or> am_bytes m + ?cap a1 \<le> am_limit m)"
        using fits m a1 c new by (cases needs) auto
      have "sz_add others (?cap a1) = others + ?cap a1" using fit m(3) by (intro sz_add_no_wrap) simp
      then have "grown" "m' = m\<lparr>am_bytes := others + ?cap a1\<rparr>" "a' = a1" using r e g True fits by auto
      then show ?thesis using g True fit by simp
    qed
  qed
qed

section \<open>Reachable pools\<close>

text \<open>
  What the receiver does to a pool: it claims a slot for an object that is not being assembled
  (taking it from the index first if it was in use), updates what a slot has received, and
  releases slots.
\<close>

inductive pool_reachable :: "assembler_pool \<Rightarrow> bool" where
  start: "pool_reachable zero_pool"
| claim: "pool_reachable p \<Longrightarrow> i < HARD_MAX_ASSEMBLERS \<Longrightarrow> transport_unindex_assembler p i = Some q \<Longrightarrow>
    transport_find_assembler p (fa_track_id a) (fa_group_id a) (fa_object_id a) = Some None \<Longrightarrow> \<not> fa_owner a \<Longrightarrow>
    pool_reachable (transport_index_assembler (q\<lparr>ap_assemblers := (ap_assemblers q)[i := a]\<rparr>) i)"
| receive: "pool_reachable p \<Longrightarrow> i < HARD_MAX_ASSEMBLERS \<Longrightarrow> fa_owner a = pool_live p i \<Longrightarrow>
    fa_hash_next a = slot_next (ap_assemblers p) i \<Longrightarrow> pool_key (p\<lparr>ap_assemblers := (ap_assemblers p)[i := a]\<rparr>) i = pool_key p i \<Longrightarrow>
    pool_reachable (p\<lparr>ap_assemblers := (ap_assemblers p)[i := a]\<rparr>)"
| release: "pool_reachable p \<Longrightarrow> i < HARD_MAX_ASSEMBLERS \<Longrightarrow> transport_release_assembler m p i = Some (m', p') \<Longrightarrow>
    pool_reachable p'"

lemma pool_ok_zero: "pool_ok zero_pool"
proof -
  have lv: "\<not> pool_live zero_pool i" if "i < HARD_MAX_ASSEMBLERS" for i
    using that by (simp add: pool_live_def zero_pool_def zero_assembler_def)
  have hd: "pool_head zero_pool b = 0" for b by (simp add: pool_head_def zero_pool_def)
  have "pool.indexed zero_pool"
    unfolding chain_index_def hd by (intro allI exI [of _ "[]"]) (use lv in \<open>auto simp: chain_Nil_iff\<close>)
  moreover have "bit (ap_active zero_pool ! (i div 64)) (i mod 64) = pool_live zero_pool i" if "i < HARD_MAX_ASSEMBLERS" for i
  proof -
    have "i div 64 < 16" using that by linarith
    then show ?thesis using lv [OF that] by (simp add: zero_pool_def)
  qed
  moreover have "{i. i < HARD_MAX_ASSEMBLERS \<and> pool_live zero_pool i} = {}" using lv by auto
  moreover have "pool_wf zero_pool" "ap_count zero_pool = 0" by (simp_all add: pool_wf_def zero_pool_def)
  ultimately show ?thesis using lv unfolding pool_ok_def by simp
qed

lemma pool_ok_same_slot:
  assumes ok: "pool_ok p" and i: "i < HARD_MAX_ASSEMBLERS" and a: "fa_owner a = pool_live p i"
    "fa_hash_next a = slot_next (ap_assemblers p) i" "pool_key (p\<lparr>ap_assemblers := (ap_assemblers p)[i := a]\<rparr>) i = pool_key p i"
  shows "pool_ok (p\<lparr>ap_assemblers := (ap_assemblers p)[i := a]\<rparr>) \<and>
    (\<forall>j. pool_live (p\<lparr>ap_assemblers := (ap_assemblers p)[i := a]\<rparr>) j = pool_live p j)"
proof -
  let ?p = "p\<lparr>ap_assemblers := (ap_assemblers p)[i := a]\<rparr>"
  have l: "length (ap_assemblers p) = 1024" using ok by (simp add: pool_ok_def pool_wf_def)
  have lv: "pool_live ?p j = pool_live p j" for j
    using i a(1) l by (cases "j = i") (simp_all add: pool_live_def)
  have nx: "slot_next (ap_assemblers ?p) j = slot_next (ap_assemblers p) j" for j
    using i a(2) l by (cases "j = i") simp_all
  have ky: "pool_key ?p j = pool_key p j" for j using a(3) by (cases "j = i") (simp_all add: pool_key_def)
  have hd: "pool_head ?p b = pool_head p b" for b by (simp add: pool_head_def)
  have "pool.indexed p" using ok by (simp add: pool_ok_def)
  then have "pool.indexed ?p" by (rule chain_index_cong) (use hd lv nx ky in simp_all)
  moreover have "pool_wf ?p" using ok by (simp add: pool_ok_def pool_wf_def)
  ultimately have "pool_ok ?p" using ok lv ky unfolding pool_ok_def by simp
  then show ?thesis using lv by blast
qed

lemma pool_ok_claim:
  assumes ok: "pool_ok p" and i: "i < HARD_MAX_ASSEMBLERS" and u: "transport_unindex_assembler p i = Some q"
    and fresh: "transport_find_assembler p (fa_track_id a) (fa_group_id a) (fa_object_id a) = Some None"
    and a: "\<not> fa_owner a"
  defines "p' \<equiv> transport_index_assembler (q\<lparr>ap_assemblers := (ap_assemblers q)[i := a]\<rparr>) i"
  shows "pool_ok p' \<and> (\<forall>j < HARD_MAX_ASSEMBLERS. pool_live p' j \<longleftrightarrow> j = i \<or> pool_live p j) \<and>
    contents (ap_assemblers p' ! i) = contents a \<and>
    (\<forall>j < HARD_MAX_ASSEMBLERS. j \<noteq> i \<longrightarrow> contents (ap_assemblers p' ! j) = contents (ap_assemblers p ! j))"
proof -
  have q: "pool_ok q" "\<forall>j < HARD_MAX_ASSEMBLERS. pool_live q j \<longleftrightarrow> j \<noteq> i \<and> pool_live p j"
    "\<forall>j < HARD_MAX_ASSEMBLERS. contents (ap_assemblers q ! j) = contents (ap_assemblers p ! j)"
    "length (ap_assemblers q) = HARD_MAX_ASSEMBLERS" using unindex_ok [OF ok i] u by auto
  let ?k = "(fa_track_id a, fa_group_id a, fa_object_id a)" and ?r = "q\<lparr>ap_assemblers := (ap_assemblers q)[i := a]\<rparr>"
  have abs: "\<forall>j < HARD_MAX_ASSEMBLERS. pool_live p j \<longrightarrow> pool_key p j \<noteq> ?k"
    using find_assembler_ok [OF ok, of "fa_track_id a" "fa_group_id a" "fa_object_id a"] fresh by auto
  have nl: "\<not> pool_live q i" using q(2) i by blast
  have r: "pool_ok ?r" "\<forall>j < HARD_MAX_ASSEMBLERS. pool_live ?r j \<longleftrightarrow> pool_live q j"
    using pool_ok_free_slot [OF q(1) i nl a] by blast+
  have k: "pool_key ?r i = ?k" using q(4) i by (simp add: pool_key_def Let_def)
  have "pool_key ?r j \<noteq> pool_key ?r i" if "j < HARD_MAX_ASSEMBLERS" "pool_live ?r j" for j
  proof -
    have j: "j \<noteq> i" "pool_live p j" using that r(2) q(2) by blast+
    have "pool_key ?r j = pool_key q j" using j(1) by (simp add: pool_key_def)
    also have "\<dots> = pool_key p j" using q(3) that(1) by (intro contents_key) blast
    finally show ?thesis using abs that(1) j(2) k by auto
  qed
  moreover have "\<not> pool_live ?r i" using r(2) nl i by blast
  ultimately have ix: "pool_ok p' \<and> (\<forall>j < HARD_MAX_ASSEMBLERS. pool_live p' j \<longleftrightarrow> j = i \<or> pool_live ?r j) \<and>
    (\<forall>j < HARD_MAX_ASSEMBLERS. contents (ap_assemblers p' ! j) = contents (ap_assemblers ?r ! j))"
    unfolding p'_def using index_ok [OF r(1) i] by blast
  have "contents (ap_assemblers p' ! i) = contents a" using ix i q(4) by simp
  moreover have "\<forall>j < HARD_MAX_ASSEMBLERS. j \<noteq> i \<longrightarrow> contents (ap_assemblers p' ! j) = contents (ap_assemblers p ! j)"
    using ix q(3) by simp
  moreover have "\<forall>j < HARD_MAX_ASSEMBLERS. pool_live p' j \<longleftrightarrow> j = i \<or> pool_live p j" using ix r(2) q(2) by blast
  ultimately show ?thesis using ix by blast
qed

lemma pool_reachable_ok: "pool_reachable p \<Longrightarrow> pool_ok p"
proof (induction rule: pool_reachable.induct)
  case start
  show ?case by (rule pool_ok_zero)
next
  case (claim p i q a)
  then show ?case using pool_ok_claim by blast
next
  case (receive p i a)
  then show ?case using pool_ok_same_slot by blast
next
  case (release p i m m' p')
  let ?m = "m\<lparr>am_bytes := 0 + slots_bytes p\<rparr>"
  obtain q where q: "transport_release_assembler ?m p i = Some q" "pool_ok (snd q)"
    using release_ok [OF release.IH release.hyps(2), of ?m 0] by auto
  then have "snd q = p'" using release.hyps(3)
    by (auto simp: transport_release_assembler_def Let_def split: option.splits)
  then show ?case using q(2) by simp
qed

section \<open>The window\<close>

lemma window_bounds:
  assumes w: "transport_assembler_window cap rtt p n z = (limit, p')" and p: "n \<noteq> 0" "z \<noteq> 0"
  shows "ap_limit p' = limit \<and> p' = p\<lparr>ap_limit := limit\<rparr> \<and> min cap 8 \<le> limit \<and> ap_limit p \<le> limit \<and>
    (ap_limit p \<le> cap \<longrightarrow> limit \<le> cap)"
proof -
  define t where "t = window_target rtt (ap_rx_rate p) (if cap < 8 then cap else 8) (unat n * unat z)"
  have "(limit, p') = (let l1 = (if ap_limit p < (if t > cap then cap else t) then (if t > cap then cap else t) else ap_limit p);
        l2 = (if l1 < (if cap < 8 then cap else 8) then (if cap < 8 then cap else 8) else l1) in (l2, p\<lparr>ap_limit := l2\<rparr>))"
    using w [symmetric] p unfolding transport_assembler_window_def t_def [symmetric] Let_def by simp
  then have l: "limit = (let l1 = (if ap_limit p < (if t > cap then cap else t) then (if t > cap then cap else t) else ap_limit p)
        in if l1 < (if cap < 8 then cap else 8) then (if cap < 8 then cap else 8) else l1)"
    and p': "p' = p\<lparr>ap_limit := limit\<rparr>" unfolding Let_def prod.inject by blast+
  have "min cap 8 \<le> limit \<and> ap_limit p \<le> limit \<and> (ap_limit p \<le> cap \<longrightarrow> limit \<le> cap)"
    unfolding l Let_def by auto
  then show ?thesis using p' by simp
qed

section \<open>Properties\<close>

text \<open>
  C31. The index of the frame assemblers is exact in every state the receiver can reach. However
  slots are claimed, filled, reclaimed and released, every search along a hash chain ends; a
  lookup finds the one slot that assembles the object, or reports that none does; a slot can be
  taken out of the index; and the bitmap scan returns the lowest active slot from a position
  on, or 1024 when there is none.
\<close>

theorem assembler_index_exact:
  assumes "pool_reachable p"
  shows "pool_ok p \<and> (\<forall>track g ob. \<exists>r. transport_find_assembler p track g ob = Some r \<and>
      (r = None \<longleftrightarrow> (\<forall>i < 1024. pool_live p i \<longrightarrow> pool_key p i \<noteq> (track, g, ob))) \<and>
      (\<forall>i. r = Some i \<longrightarrow> i < 1024 \<and> pool_live p i \<and> pool_key p i = (track, g, ob))) \<and>
    (\<forall>slot < 1024. transport_unindex_assembler p slot \<noteq> None) \<and>
    (\<forall>first. let r = transport_next_assembler p first in
      (r = 1024 \<or> (r < 1024 \<and> first \<le> r \<and> pool_live p r)) \<and> (\<forall>j < r. first \<le> j \<longrightarrow> \<not> pool_live p j))"
proof (intro conjI allI impI)
  show ok: "pool_ok p" using assms by (rule pool_reachable_ok)
  show "\<exists>r. transport_find_assembler p track g ob = Some r \<and>
      (r = None \<longleftrightarrow> (\<forall>i < 1024. pool_live p i \<longrightarrow> pool_key p i \<noteq> (track, g, ob))) \<and>
      (\<forall>i. r = Some i \<longrightarrow> i < 1024 \<and> pool_live p i \<and> pool_key p i = (track, g, ob))" for track g ob
  proof -
    obtain r where r: "transport_find_assembler p track g ob = Some r"
      "case r of None \<Rightarrow> \<forall>i < 1024. pool_live p i \<longrightarrow> pool_key p i \<noteq> (track, g, ob)
       | Some i \<Rightarrow> i < 1024 \<and> pool_live p i \<and> pool_key p i = (track, g, ob)"
      using find_assembler_ok [OF ok, of track g ob] by blast
    then show ?thesis by (cases r) auto
  qed
  show "transport_unindex_assembler p slot \<noteq> None" if "slot < 1024" for slot
    using unindex_ok [OF ok that] by auto
  show "let r = transport_next_assembler p first in
      (r = 1024 \<or> (r < 1024 \<and> first \<le> r \<and> pool_live p r)) \<and> (\<forall>j < r. first \<le> j \<longrightarrow> \<not> pool_live p j)" for first
    by (rule next_assembler_ok [OF ok])
qed

text \<open>
  C32. Assembler memory stays within its limit and is accounted for exactly. If the transport's
  counter is what one assembler and all the others together occupy, and within the limit, then
  after an attempt to grow that assembler both still hold; a successful growth that allocates
  has found room for the old and the new storage side by side; a refused growth leaves the
  assembler alone.
\<close>

theorem assembler_memory_bounded:
  assumes "storage_ok a" "symbols \<noteq> 0" "symbol_size \<noteq> 0"
    and "am_bytes m = others + transport_assembler_capacity_bytes a" "am_bytes m \<le> am_limit m" "am_limit m \<le> SIZE_MAX"
    and "transport_grow_assembler alloc_ok m a symbols symbol_size = (grown, m', a')"
  shows "am_bytes m' = others + transport_assembler_capacity_bytes a' \<and> am_bytes m' \<le> am_limit m' \<and>
    am_limit m' = am_limit m \<and>
    (if grown then a' = a \<or> am_bytes m + transport_assembler_capacity_bytes a' \<le> am_limit m
     else a' = a \<and> am_bytes m' = am_bytes m)"
  using grow_accounting [OF assms] by auto

section \<open>Witnesses\<close>

lemma assembler_index_exact_witness:
  "\<exists>r. transport_find_assembler zero_pool 3 7 9 = Some r \<and> r = None"
proof -
  have "\<not> pool_live zero_pool i" if "i < 1024" for i
    using that by (simp add: pool_live_def zero_pool_def zero_assembler_def)
  with assembler_index_exact [OF pool_reachable.start] show ?thesis by blast
qed

lemma assembler_memory_bounded_witness:
  "\<exists>m' a'. transport_grow_assembler True \<lparr>am_bytes = 126, am_limit = 200, am_limit_errors = 0\<rparr> small_assembler 3 1 =
     (True, m', a') \<and> am_bytes m' = 100 + transport_assembler_capacity_bytes a' \<and> am_bytes m' \<le> 200"
proof -
  let ?m = "\<lparr>am_bytes = 126, am_limit = 200, am_limit_errors = 0\<rparr>"
  have ok: "storage_ok small_assembler" by (simp add: storage_ok_def small_assembler_def zero_assembler_def)
  have c: "transport_assembler_capacity_bytes small_assembler = 26"
    by (simp add: transport_assembler_capacity_bytes_def required_bytes_mult small_assembler_def zero_assembler_def)
  obtain g m' a' where r: "transport_grow_assembler True ?m small_assembler 3 1 = (g, m', a')"
    by (cases "transport_grow_assembler True ?m small_assembler 3 1") auto
  have "(3 :: u16) \<noteq> 0" "(1 :: u16) \<noteq> 0" by simp_all
  note t = assembler_memory_bounded [OF ok this _ _ _ r, of 100]
  have g: g
  proof -
    obtain d a1 where a1: "transport_assembler_grow True small_assembler 3 1 = (d, a1)"
      by (cases "transport_assembler_grow True small_assembler 3 1")
    then have "transport_assembler_grow True small_assembler 3 1 = (True, a1)"
      using assembler_grow_ok [OF ok _ _ a1] by simp
    moreover have "fa_capacity_symbols small_assembler = 2" "fa_capacity_symbol_size small_assembler = 1"
      by (simp_all add: small_assembler_def)
    ultimately show ?thesis using r c
      by (auto simp: transport_grow_assembler_def required_bytes_mult Let_def sz_sub_def word_less_nat_alt)
  qed
  show ?thesis using t r g c by (simp add: SIZE_MAX_def)
qed

end
