(* ===== verification/Limits.thy ===== *)
theory Limits
  imports Qlinq_Prelude
begin

text \<open>
  The resource limits of a transport (\<open>transport_config.c\<close>): defaults for the fields left at
  zero, and the validation that every other component relies on. An error is the message the C
  function writes for the caller.
\<close>

record limits =
  lm_max_connections :: nat
  lm_max_subscriptions_per_connection :: nat
  lm_max_assemblers_per_connection :: nat
  lm_max_repair_requests_per_second :: nat
  lm_max_aggregate_repair_requests_per_second :: nat
  lm_max_aggregate_nack_requests_per_second :: nat
  lm_max_egress_packets_per_socket :: nat
  lm_max_egress_bytes_per_socket :: nat
  lm_max_assembler_memory_bytes :: nat
  lm_max_recovery_cache_bytes :: nat
  lm_max_stream_egress_bytes :: nat
  lm_max_total_stream_egress_bytes :: nat
  lm_max_reliable_object_size :: nat
  lm_max_fec_object_size :: nat
  lm_max_udp_payload_size :: nat
  lm_max_packets_per_tick :: nat

abbreviation (input) "MAX_RELIABLE_OBJECT_SIZE \<equiv> (1048560 :: nat)"
abbreviation (input) "MAX_FEC_OBJECT_BYTES \<equiv> (1048576 :: nat)"
abbreviation (input) "MAX_FEC_RECORD_SIZE \<equiv> (65535 :: nat)"
abbreviation (input) "RECOVERY_WINDOW_OBJECTS \<equiv> (32 :: nat)"
abbreviation (input) "STREAM_CONTROL_BYTE_RESERVE \<equiv> (65536 :: nat)"
abbreviation (input) "ENDPOINT_CONTROL_BYTE_RESERVE \<equiv> (2097152 :: nat)"

definition value_or_default :: "nat \<Rightarrow> nat \<Rightarrow> nat" where
  "value_or_default v fallback = (if v = 0 then fallback else v)"

text \<open>The first half of \<open>transport_limits_resolve\<close>: the defaults.\<close>

definition limits_defaulted :: "limits \<Rightarrow> limits" where
  "limits_defaulted c = \<lparr>
     lm_max_connections = value_or_default (lm_max_connections c) 32,
     lm_max_subscriptions_per_connection = value_or_default (lm_max_subscriptions_per_connection c) 32,
     lm_max_assemblers_per_connection = value_or_default (lm_max_assemblers_per_connection c) 1024,
     lm_max_repair_requests_per_second = value_or_default (lm_max_repair_requests_per_second c) 16,
     lm_max_aggregate_repair_requests_per_second =
       value_or_default (lm_max_aggregate_repair_requests_per_second c) 256,
     lm_max_aggregate_nack_requests_per_second =
       value_or_default (lm_max_aggregate_nack_requests_per_second c) 16,
     lm_max_egress_packets_per_socket = value_or_default (lm_max_egress_packets_per_socket c) 1024,
     lm_max_egress_bytes_per_socket = value_or_default (lm_max_egress_bytes_per_socket c) 2097152,
     lm_max_assembler_memory_bytes = value_or_default (lm_max_assembler_memory_bytes c) 67108864,
     lm_max_recovery_cache_bytes = value_or_default (lm_max_recovery_cache_bytes c) 16777216,
     lm_max_stream_egress_bytes = value_or_default (lm_max_stream_egress_bytes c) 2097152,
     lm_max_total_stream_egress_bytes = value_or_default (lm_max_total_stream_egress_bytes c) 16777216,
     lm_max_reliable_object_size = value_or_default (lm_max_reliable_object_size c) MAX_RELIABLE_OBJECT_SIZE,
     lm_max_fec_object_size = value_or_default (lm_max_fec_object_size c) MAX_FEC_OBJECT_BYTES,
     lm_max_udp_payload_size = value_or_default (lm_max_udp_payload_size c) 1280,
     lm_max_packets_per_tick = value_or_default (lm_max_packets_per_tick c) 1024\<rparr>"

definition minimum_recovery_cache :: "limits \<Rightarrow> nat" where
  "minimum_recovery_cache r =
     (let grouped_max = (if lm_max_fec_object_size r < MAX_FEC_RECORD_SIZE + 2
            then lm_max_fec_object_size r else MAX_FEC_RECORD_SIZE + 2);
          minimum_cache = sz_mul RECOVERY_WINDOW_OBJECTS grouped_max in
      if minimum_cache < lm_max_fec_object_size r then lm_max_fec_object_size r else minimum_cache)"

text \<open>The checks, in their order, with their messages.\<close>

definition limit_checks :: "limits \<Rightarrow> (bool \<times> string) list" where
  "limit_checks r = [
    (lm_max_connections r > 1024, ''max_connections exceeds hard limit''),
    (lm_max_subscriptions_per_connection r > 256, ''max_subscriptions_per_connection exceeds alias space''),
    (lm_max_assemblers_per_connection r > 1024, ''max_assemblers_per_connection exceeds hard limit''),
    (lm_max_repair_requests_per_second r > 65535, ''max_repair_requests_per_second exceeds hard limit''),
    (lm_max_aggregate_repair_requests_per_second r > 65535,
      ''max_aggregate_repair_requests_per_second exceeds hard limit''),
    (lm_max_aggregate_nack_requests_per_second r > 65535,
      ''max_aggregate_nack_requests_per_second exceeds hard limit''),
    (lm_max_egress_packets_per_socket r < 64 \<or> lm_max_egress_packets_per_socket r > 65536,
      ''max_egress_packets_per_socket is outside supported range''),
    (lm_max_egress_bytes_per_socket r < 64 * 1500, ''max_egress_bytes_per_socket cannot hold one send batch''),
    (lm_max_assembler_memory_bytes r < 1048576, ''max_assembler_memory_bytes must be at least 1 MiB''),
    (lm_max_reliable_object_size r > MAX_RELIABLE_OBJECT_SIZE,
      ''max_reliable_object_size exceeds wire implementation''),
    (lm_max_fec_object_size r > MAX_FEC_OBJECT_BYTES, ''max_fec_object_size exceeds wire implementation''),
    (lm_max_recovery_cache_bytes r < minimum_recovery_cache r, ''recovery cache must hold one recovery window''),
    (lm_max_stream_egress_bytes r <
       sz_add (sz_add (lm_max_reliable_object_size r) 1024) STREAM_CONTROL_BYTE_RESERVE,
      ''stream budget must hold a maximum object and control reserve''),
    (lm_max_stream_egress_bytes r > SIZE_MAX - ENDPOINT_CONTROL_BYTE_RESERVE \<or>
     lm_max_total_stream_egress_bytes r <
       sz_add (lm_max_stream_egress_bytes r) ENDPOINT_CONTROL_BYTE_RESERVE,
      ''total stream budget must hold a stream and control reserve''),
    (lm_max_udp_payload_size r < 1200 \<or> lm_max_udp_payload_size r > 1500,
      ''max_udp_payload_size is outside supported range''),
    (lm_max_packets_per_tick r > 65536, ''max_packets_per_tick exceeds hard limit'')]"

fun first_failure :: "(bool \<times> string) list \<Rightarrow> string option" where
  "first_failure [] = None"
| "first_failure ((bad, message) # checks) = (if bad then Some message else first_failure checks)"

definition transport_limits_resolve :: "limits \<Rightarrow> string + limits" where
  "transport_limits_resolve configured =
     (let resolved = limits_defaulted configured in
      case first_failure (limit_checks resolved) of
        Some message \<Rightarrow> Inl message
      | None \<Rightarrow> Inr resolved)"

section \<open>What resolved limits guarantee\<close>

text \<open>The ranges the other components assume.\<close>

definition limits_ok :: "limits \<Rightarrow> bool" where
  "limits_ok r \<longleftrightarrow>
     lm_max_connections r \<in> {1..1024} \<and> lm_max_subscriptions_per_connection r \<in> {1..256} \<and>
     lm_max_assemblers_per_connection r \<in> {1..1024} \<and> lm_max_repair_requests_per_second r \<in> {1..65535} \<and>
     lm_max_aggregate_repair_requests_per_second r \<in> {1..65535} \<and>
     lm_max_aggregate_nack_requests_per_second r \<in> {1..65535} \<and>
     lm_max_egress_packets_per_socket r \<in> {64..65536} \<and> 96000 \<le> lm_max_egress_bytes_per_socket r \<and>
     1048576 \<le> lm_max_assembler_memory_bytes r \<and>
     lm_max_reliable_object_size r \<in> {1..MAX_RELIABLE_OBJECT_SIZE} \<and>
     lm_max_fec_object_size r \<in> {1..MAX_FEC_OBJECT_BYTES} \<and>
     lm_max_fec_object_size r \<le> lm_max_recovery_cache_bytes r \<and>
     32 * min (lm_max_fec_object_size r) 65537 \<le> lm_max_recovery_cache_bytes r \<and>
     lm_max_reliable_object_size r + 1024 + STREAM_CONTROL_BYTE_RESERVE \<le> lm_max_stream_egress_bytes r \<and>
     lm_max_stream_egress_bytes r + ENDPOINT_CONTROL_BYTE_RESERVE \<le> SIZE_MAX \<and>
     lm_max_stream_egress_bytes r + ENDPOINT_CONTROL_BYTE_RESERVE \<le> lm_max_total_stream_egress_bytes r \<and>
     lm_max_udp_payload_size r \<in> {1200..1500} \<and> lm_max_packets_per_tick r \<in> {1..65536}"

lemma value_or_default_pos: "0 < d \<Longrightarrow> 0 < value_or_default v d"
  by (simp add: value_or_default_def)

lemma value_or_default_id: "0 < v \<Longrightarrow> value_or_default v d = v"
  by (simp add: value_or_default_def)

lemma first_failure_None: "first_failure cs = None \<longleftrightarrow> (\<forall>c\<in>set cs. \<not> fst c)"
  by (induction cs rule: first_failure.induct) auto

lemma first_failure_Some:
  "first_failure cs = Some m \<Longrightarrow> \<exists>as bs. cs = as @ (True, m) # bs \<and> (\<forall>c\<in>set as. \<not> fst c)"
proof (induction cs rule: first_failure.induct)
  case (2 bad message checks)
  show ?case
  proof (cases bad)
    case True
    then show ?thesis using 2 by (intro exI [of _ "[]"] exI [of _ checks]) simp
  next
    case False
    then obtain as bs where "checks = as @ (True, m) # bs" "\<forall>c\<in>set as. \<not> fst c" using 2 by auto
    then show ?thesis using False by (intro exI [of _ "(bad, message) # as"] exI [of _ bs]) simp
  qed
qed simp

lemma value_or_default_idem: "value_or_default (value_or_default v d) d = value_or_default v d"
  by (simp add: value_or_default_def)

lemma limits_defaulted_idem: "limits_defaulted (limits_defaulted c) = limits_defaulted c"
  by (simp add: limits_defaulted_def value_or_default_idem)

lemma minimum_cache_eq:
  "minimum_recovery_cache r = max (32 * min (lm_max_fec_object_size r) 65537) (lm_max_fec_object_size r)"
proof -
  have g: "(if x < 65537 then x else 65537) = min x (65537 :: nat)" for x by simp
  have m: "(if y < x then x else y) = max y (x :: nat)" for x y by simp
  have "sz_mul 32 (min (lm_max_fec_object_size r) 65537) = 32 * min (lm_max_fec_object_size r) 65537"
    by (intro sz_mul_no_wrap) (simp add: SIZE_MAX_def)
  moreover have "minimum_recovery_cache r = max (sz_mul 32 (min (lm_max_fec_object_size r) 65537)) (lm_max_fec_object_size r)"
    unfolding minimum_recovery_cache_def Let_def m using g [of "lm_max_fec_object_size r"] by simp
  ultimately show ?thesis by simp
qed

lemma limits_ok_iff:
  assumes d: "limits_defaulted r = r"
  shows "first_failure (limit_checks r) = None \<longleftrightarrow> limits_ok r"
proof -
  have pos: "0 < lm_max_connections r" "0 < lm_max_subscriptions_per_connection r" "0 < lm_max_assemblers_per_connection r"
    "0 < lm_max_repair_requests_per_second r" "0 < lm_max_aggregate_repair_requests_per_second r"
    "0 < lm_max_aggregate_nack_requests_per_second r" "0 < lm_max_reliable_object_size r"
    "0 < lm_max_fec_object_size r" "0 < lm_max_packets_per_tick r"
    by (subst d [symmetric], simp add: limits_defaulted_def value_or_default_pos)+
  have add: "lm_max_reliable_object_size r \<le> MAX_RELIABLE_OBJECT_SIZE \<Longrightarrow>
    sz_add (sz_add (lm_max_reliable_object_size r) 1024) STREAM_CONTROL_BYTE_RESERVE =
      lm_max_reliable_object_size r + 1024 + STREAM_CONTROL_BYTE_RESERVE"
    by (simp add: sz_add_no_wrap SIZE_MAX_def)
  have add2: "lm_max_stream_egress_bytes r \<le> SIZE_MAX - ENDPOINT_CONTROL_BYTE_RESERVE \<Longrightarrow>
    sz_add (lm_max_stream_egress_bytes r) ENDPOINT_CONTROL_BYTE_RESERVE =
      lm_max_stream_egress_bytes r + ENDPOINT_CONTROL_BYTE_RESERVE"
    by (rule sz_add_no_wrap) (simp add: SIZE_MAX_def)
  have room: "x \<le> SIZE_MAX - 2097152 \<longleftrightarrow> x + 2097152 \<le> SIZE_MAX" for x by (simp add: SIZE_MAX_def)
  show ?thesis
    unfolding first_failure_None limit_checks_def limits_ok_def minimum_cache_eq
    using pos add add2 room [of "lm_max_stream_egress_bytes r"] by (auto simp: not_less Suc_le_eq)
qed

section \<open>Properties\<close>

text \<open>
  C33. Limit validation is exact. The function accepts a configuration precisely when, after the
  zero fields got their defaults, every field lies in the range the rest of the transport relies
  on (none of the sums and products it computes wraps around); what it returns is the defaulted
  configuration, and resolving that again changes nothing. Otherwise the message is the one of
  the first check that fails.
\<close>

theorem limits_resolve_exact:
  "(transport_limits_resolve c = Inr l \<longleftrightarrow> l = limits_defaulted c \<and> limits_ok l) \<and>
   transport_limits_resolve (limits_defaulted c) = transport_limits_resolve c \<and>
   (case transport_limits_resolve c of
      Inr l \<Rightarrow> True
    | Inl m \<Rightarrow> \<exists>as bs. limit_checks (limits_defaulted c) = as @ (True, m) # bs \<and> \<not> list_ex fst as)"
proof -
  have iff: "first_failure (limit_checks (limits_defaulted c)) = None \<longleftrightarrow> limits_ok (limits_defaulted c)"
    by (rule limits_ok_iff) (rule limits_defaulted_idem)
  show ?thesis
  proof (cases "first_failure (limit_checks (limits_defaulted c))")
    case None
    then show ?thesis using iff by (auto simp: transport_limits_resolve_def limits_defaulted_idem)
  next
    case (Some m)
    then show ?thesis using iff first_failure_Some [OF Some]
      by (auto simp: transport_limits_resolve_def limits_defaulted_idem list_ex_iff)
  qed
qed

end
