(* ===== verification/Stream.thy ===== *)
theory Stream
  imports Wire Limits SentCache "HOL-Library.While_Combinator" "HOL-Library.Sublist"
begin

text \<open>
  Reliable streams (\<open>transport_stream.c\<close>): admission of frames to a stream's send buffer under
  the budgets of the stream and of the endpoint, the frames retained until QUIC releases them,
  and the writers of every kind of frame. The send buffer itself belongs to quicly: its entries
  and the capacity of its vector are data of the model, \<open>vec_size\<close> is the size of an entry, and
  what quicly does when an entry is written or acknowledged bytes are shifted out is an
  argument (\<open>write_vec\<close>, \<open>shift\<close>). \<open>is_open\<close> and \<open>closing\<close> are the states of the stream's send
  side and of its connection. The assertions of the source are facts proved here.
\<close>

section \<open>State\<close>

text \<open>An entry written by this file holds the bytes of one frame; \<open>Foreign\<close> is any other entry.\<close>

datatype sendvec = Retained bytes | Foreign nat

fun vec_len :: "sendvec \<Rightarrow> nat" where
  "vec_len (Retained frame) = length frame"
| "vec_len (Foreign n) = n"

record sendbuf =
  sb_vecs :: "sendvec list"
  sb_capacity :: nat

record stream_ctx =
  sx_egress :: sendbuf
  sx_retained_frame_bytes :: nat
  sx_is_control :: bool
  sx_alias_bound :: bool
  sx_alias :: u8

record stream_stats =
  st_egress_bytes :: nat
  st_egress_frames :: nat
  st_egress_vector_capacity :: nat
  st_egress_peak_bytes :: nat
  st_egress_peak_frames :: nat
  st_egress_peak_vectors :: nat
  st_egress_blocked :: nat
  st_control_failures :: nat
  st_resource_limit_errors :: nat

abbreviation (input) "MAX_STREAM_PAYLOAD \<equiv> MAX_RELIABLE_OBJECT_SIZE + WIRE_TRACK_OBJECT_HEADER_SIZE"
abbreviation (input) "ENDPOINT_MAX_VECTORS \<equiv> (8192 :: nat)"
abbreviation (input) "CONTROL_FRAME_RESERVE \<equiv> (16 :: nat)"
abbreviation (input) "CONTROL_VECTOR_RESERVE \<equiv> (256 :: nat)"
abbreviation (input) "SIZEOF_RETAINED_FRAME \<equiv> (8 :: nat)"

section \<open>Admission\<close>

definition vector_growth :: "sendbuf \<Rightarrow> nat" where
  "vector_growth sb = (if length (sb_vecs sb) < sb_capacity sb then 0
     else if sb_capacity sb \<noteq> 0 then sb_capacity sb else 4)"

text \<open>The limits of one admission: stream bytes, endpoint bytes, vectors, frames.\<close>

definition admission_limits :: "limits \<Rightarrow> bool \<Rightarrow> bool \<Rightarrow> nat \<times> nat \<times> nat \<times> nat" where
  "admission_limits lim is_control preserve_control_reserve =
     (let stream_limit = lm_max_stream_egress_bytes lim;
          endpoint_limit = lm_max_total_stream_egress_bytes lim;
          vector_limit = ENDPOINT_MAX_VECTORS;
          frame_limit = (if stream_limit div 64 > vector_limit then vector_limit else stream_limit div 64) in
      if \<not> preserve_control_reserve then (stream_limit, endpoint_limit, vector_limit, frame_limit)
      else if \<not> is_control then
        (stream_limit, sz_sub endpoint_limit ENDPOINT_CONTROL_BYTE_RESERVE,
         sz_sub vector_limit CONTROL_VECTOR_RESERVE, frame_limit)
      else (sz_sub stream_limit STREAM_CONTROL_BYTE_RESERVE,
            sz_sub endpoint_limit ENDPOINT_CONTROL_BYTE_RESERVE,
            sz_sub vector_limit CONTROL_VECTOR_RESERVE, sz_sub frame_limit CONTROL_FRAME_RESERVE))"

definition stream_can_accept_reserved ::
  "nat \<Rightarrow> limits \<Rightarrow> bool \<Rightarrow> bool \<Rightarrow> stream_stats \<Rightarrow> stream_ctx \<Rightarrow> nat \<Rightarrow> bool \<Rightarrow> nat \<Rightarrow> nat \<Rightarrow>
   (nat \<times> nat) option" where
  "stream_can_accept_reserved vec_size lim is_open closing stats ctx frame_len
     preserve_control_reserve reserved_bytes reserved_vectors =
     (if \<not> is_open \<or> closing \<or> frame_len > MAX_STREAM_PAYLOAD + WIRE_FRAME_HEADER_SIZE then None
      else case admission_limits lim (sx_is_control ctx) preserve_control_reserve of
        (stream_limit, endpoint_limit, vector_limit, frame_limit) \<Rightarrow>
        if frame_limit = 0 then None
        else let sb = sx_egress ctx;
                 growth = vector_growth sb;
                 frame_bytes = sz_add SIZEOF_RETAINED_FRAME frame_len;
                 bytes = sz_add frame_bytes (sz_mul growth vec_size);
                 stream_bytes = sz_add (sx_retained_frame_bytes ctx) (sz_mul (sb_capacity sb) vec_size) in
          if length (sb_vecs sb) \<ge> frame_limit \<or> stream_bytes > stream_limit \<or>
             bytes > sz_sub stream_limit stream_bytes \<or> st_egress_bytes stats > endpoint_limit \<or>
             reserved_bytes > sz_sub endpoint_limit (st_egress_bytes stats) \<or>
             bytes > sz_sub (sz_sub endpoint_limit (st_egress_bytes stats)) reserved_bytes \<or>
             st_egress_vector_capacity stats > vector_limit \<or>
             reserved_vectors > sz_sub vector_limit (st_egress_vector_capacity stats) \<or>
             growth > sz_sub (sz_sub vector_limit (st_egress_vector_capacity stats)) reserved_vectors
          then None
          else Some (sz_add reserved_bytes bytes, sz_add reserved_vectors growth))"

definition transport_stream_can_accept ::
  "nat \<Rightarrow> limits \<Rightarrow> bool \<Rightarrow> bool \<Rightarrow> stream_stats \<Rightarrow> stream_ctx \<Rightarrow> nat \<Rightarrow> bool \<Rightarrow> bool" where
  "transport_stream_can_accept vec_size lim is_open closing stats ctx frame_len preserve_control_reserve =
     (stream_can_accept_reserved vec_size lim is_open closing stats ctx frame_len
        preserve_control_reserve 0 0 \<noteq> None)"

definition transport_stream_can_accept_batch ::
  "nat \<Rightarrow> limits \<Rightarrow> bool \<Rightarrow> bool \<Rightarrow> stream_stats \<Rightarrow> stream_ctx \<Rightarrow> nat \<Rightarrow> nat \<Rightarrow> nat \<Rightarrow> (nat \<times> nat) option" where
  "transport_stream_can_accept_batch vec_size lim is_open closing stats ctx frame_len bytes vectors =
     stream_can_accept_reserved vec_size lim is_open closing stats ctx frame_len True bytes vectors"

section \<open>Retained frames\<close>

definition flatten_frame :: "bytes \<Rightarrow> nat \<Rightarrow> nat \<Rightarrow> bytes" where
  "flatten_frame frame off len = take len (drop off frame)"

text \<open>The discard callback of an entry; an entry of another owner is not accounted here.\<close>

fun discard_frame :: "sendvec \<Rightarrow> stream_stats \<times> stream_ctx \<Rightarrow> stream_stats \<times> stream_ctx" where
  "discard_frame (Retained frame) (stats, ctx) =
     (let n = sz_add SIZEOF_RETAINED_FRAME (length frame) in
      (stats\<lparr>st_egress_bytes := sz_sub (st_egress_bytes stats) n,
             st_egress_frames := sz_sub (st_egress_frames stats) 1\<rparr>,
       ctx\<lparr>sx_retained_frame_bytes := sz_sub (sx_retained_frame_bytes ctx) n\<rparr>))"
| "discard_frame (Foreign n) (stats, ctx) = (stats, ctx)"

definition transport_stream_has_retained_frame ::
  "bool \<Rightarrow> bool \<Rightarrow> stream_ctx \<Rightarrow> u8 \<Rightarrow> bytes \<Rightarrow> bool" where
  "transport_stream_has_retained_frame is_open closing ctx t payload =
     (if \<not> is_open \<or> closing \<or> length payload > MAX_STREAM_PAYLOAD then False
      else case qlinq_wire_encode_frame_header WIRE_FRAME_HEADER_SIZE t (length payload) MAX_STREAM_PAYLOAD of
        Inl _ \<Rightarrow> False
      | Inr header \<Rightarrow> list_ex (\<lambda>v. case v of
            Foreign _ \<Rightarrow> False
          | Retained frame \<Rightarrow> length frame = length header + length payload \<and>
              take (length header) frame = header \<and> drop (length header) frame = payload)
          (rev (sb_vecs (sx_egress ctx))))"

definition release_vector_capacity :: "nat \<Rightarrow> stream_stats \<Rightarrow> nat \<Rightarrow> stream_stats" where
  "release_vector_capacity vec_size stats count =
     (if count = 0 then stats
      else stats\<lparr>st_egress_vector_capacity := sz_sub (st_egress_vector_capacity stats) count,
                 st_egress_bytes := sz_sub (st_egress_bytes stats) (sz_mul count vec_size)\<rparr>)"

text \<open>
  \<open>shift\<close> is quicly's answer to the acknowledged bytes: how many leading entries it releases and
  the capacity it leaves; \<open>realloc_ok\<close> whether the compaction gets its memory.
\<close>

definition compact_capacity :: "nat \<Rightarrow> nat" where
  "compact_capacity entries = while (\<lambda>compact. compact < entries) (\<lambda>compact. compact * 2) 4"

definition transport_stream_egress_shift ::
  "nat \<Rightarrow> (sendbuf \<Rightarrow> nat \<times> nat) \<Rightarrow> bool \<Rightarrow> stream_stats \<Rightarrow> stream_ctx \<Rightarrow> stream_stats \<times> stream_ctx" where
  "transport_stream_egress_shift vec_size shift realloc_ok stats ctx =
     (let sb = sx_egress ctx;
          capacity = sb_capacity sb in
      case shift sb of (released, new_capacity) \<Rightarrow>
      (case fold discard_frame (take released (sb_vecs sb)) (stats, ctx) of (stats, ctx) \<Rightarrow>
        let vecs = drop released (sb_vecs sb);
            cap = (if new_capacity > 4 \<and> length vecs \<le> new_capacity div 4 \<and> realloc_ok
              then compact_capacity (length vecs) else new_capacity) in
        (release_vector_capacity vec_size stats (sz_sub capacity cap),
         ctx\<lparr>sx_egress := \<lparr>sb_vecs = vecs, sb_capacity = cap\<rparr>\<rparr>)))"

text \<open>\<open>quicly_streambuf_destroy\<close> discards every entry that is left.\<close>

definition transport_stream_destroy :: "nat \<Rightarrow> stream_stats \<Rightarrow> stream_ctx \<Rightarrow> stream_stats" where
  "transport_stream_destroy vec_size stats ctx =
     fst (fold discard_frame (sb_vecs (sx_egress ctx))
       (release_vector_capacity vec_size stats (sb_capacity (sx_egress ctx)), ctx))"

section \<open>Writing frames\<close>

text \<open>The result: whether the frame was accepted, and whether the connection is to be closed.\<close>

record write_result =
  wr_ok :: bool
  wr_close :: bool
  wr_stats :: stream_stats
  wr_ctx :: stream_ctx

definition write_failed :: "bool \<Rightarrow> bool \<Rightarrow> stream_stats \<Rightarrow> stream_ctx \<Rightarrow> write_result" where
  "write_failed closing application_data stats ctx =
     (if \<not> application_data \<and> \<not> closing
      then \<lparr>wr_ok = False, wr_close = True,
             wr_stats = stats\<lparr>st_control_failures := sz_add (st_control_failures stats) 1,
               st_resource_limit_errors := sz_add (st_resource_limit_errors stats) 1\<rparr>, wr_ctx = ctx\<rparr>
      else \<lparr>wr_ok = False, wr_close = False, wr_stats = stats, wr_ctx = ctx\<rparr>)"

definition count_peaks :: "stream_stats \<Rightarrow> stream_stats" where
  "count_peaks stats = stats\<lparr>
     st_egress_peak_bytes := max (st_egress_peak_bytes stats) (st_egress_bytes stats),
     st_egress_peak_frames := max (st_egress_peak_frames stats) (st_egress_frames stats),
     st_egress_peak_vectors := max (st_egress_peak_vectors stats) (st_egress_vector_capacity stats)\<rparr>"

text \<open>
  \<open>write_vec\<close> is quicly's answer to one more entry: its return code and the buffer it leaves.
\<close>

definition account_write ::
  "nat \<Rightarrow> bool \<Rightarrow> bool \<Rightarrow> stream_stats \<Rightarrow> stream_ctx \<Rightarrow> nat \<Rightarrow> int \<times> sendbuf \<Rightarrow> write_result" where
  "account_write vec_size closing application_data stats ctx frame_len answer =
     (case answer of (ret, sb) \<Rightarrow>
        let growth = sz_sub (sb_capacity sb) (sb_capacity (sx_egress ctx));
            stats = stats\<lparr>st_egress_vector_capacity := sz_add (st_egress_vector_capacity stats) growth,
              st_egress_bytes := sz_add (st_egress_bytes stats) (sz_mul growth vec_size)\<rparr>;
            appended = (length (sb_vecs sb) \<noteq> length (sb_vecs (sx_egress ctx)));
            n = sz_add SIZEOF_RETAINED_FRAME frame_len;
            ctx' = ctx\<lparr>sx_egress := sb, sx_retained_frame_bytes :=
              (if appended then sz_add (sx_retained_frame_bytes ctx) n else sx_retained_frame_bytes ctx)\<rparr>;
            stats = (if appended then stats\<lparr>st_egress_bytes := sz_add (st_egress_bytes stats) n,
              st_egress_frames := sz_add (st_egress_frames stats) 1\<rparr> else stats);
            stats = count_peaks stats in
        if ret = 0 then \<lparr>wr_ok = True, wr_close = False, wr_stats = stats, wr_ctx = ctx'\<rparr>
        else write_failed closing (application_data \<and> \<not> appended) stats ctx')"

definition transport_stream_write_parts ::
  "nat \<Rightarrow> limits \<Rightarrow> bool \<Rightarrow> bool \<Rightarrow> bool \<Rightarrow> (sendvec \<Rightarrow> sendbuf \<Rightarrow> int \<times> sendbuf) \<Rightarrow>
   stream_stats \<Rightarrow> stream_ctx \<Rightarrow> u8 \<Rightarrow> bytes \<Rightarrow> bytes \<Rightarrow> write_result" where
  "transport_stream_write_parts vec_size lim is_open closing malloc_ok write_vec stats ctx t prefix_data payload =
     (if length prefix_data > SIZE_MAX - length payload \<or>
         sz_add (length prefix_data) (length payload) > MAX_STREAM_PAYLOAD
      then \<lparr>wr_ok = False, wr_close = False, wr_stats = stats, wr_ctx = ctx\<rparr>
      else
        let wire_payload_len = sz_add (length prefix_data) (length payload);
            application_data = (t = WIRE_TRACK_OBJECT \<or> t = WIRE_UNICAST);
            frame_len = sz_add WIRE_FRAME_HEADER_SIZE wire_payload_len in
        if \<not> transport_stream_can_accept vec_size lim is_open closing stats ctx frame_len application_data
        then write_failed closing application_data
          (stats\<lparr>st_egress_blocked := sz_add (st_egress_blocked stats) 1\<rparr>) ctx
        else if \<not> malloc_ok then write_failed closing application_data stats ctx
        else case qlinq_wire_encode_frame_header frame_len t wire_payload_len MAX_STREAM_PAYLOAD of
          Inl _ \<Rightarrow> \<lparr>wr_ok = False, wr_close = False, wr_stats = stats, wr_ctx = ctx\<rparr>
        | Inr header \<Rightarrow>
            account_write vec_size closing application_data stats ctx frame_len
              (write_vec (Retained (header @ prefix_data @ payload)) (sx_egress ctx)))"

definition transport_stream_write_frame ::
  "nat \<Rightarrow> limits \<Rightarrow> bool \<Rightarrow> bool \<Rightarrow> bool \<Rightarrow> (sendvec \<Rightarrow> sendbuf \<Rightarrow> int \<times> sendbuf) \<Rightarrow>
   stream_stats \<Rightarrow> stream_ctx \<Rightarrow> u8 \<Rightarrow> bytes \<Rightarrow> write_result" where
  "transport_stream_write_frame vec_size lim is_open closing malloc_ok write_vec stats ctx t payload =
     transport_stream_write_parts vec_size lim is_open closing malloc_ok write_vec stats ctx t payload []"

section \<open>The frames of the protocol\<close>

text \<open>
  Each writer encodes a payload and passes it to \<open>transport_stream_write_frame\<close> or
  \<open>transport_stream_write_parts\<close>; \<open>None\<close> is its own failure before that.
\<close>

definition track_frame_payload :: "u8 \<Rightarrow> moq_track_id \<Rightarrow> bytes option" where
  "track_frame_payload alias_id track =
     (let name_len = strnlen (ti_name track) 64 in
      if name_len > WIRE_MAX_TRACK_NAME then None
      else case qlinq_wire_encode_track (4 + WIRE_MAX_TRACK_NAME)
          \<lparr>wt_alias = alias_id, wt_track_type = ucast (ti_type track), wt_flags = ti_flags track,
           wt_name = fill_array 64 (take name_len (ti_name track))\<rparr> of
        Inl _ \<Rightarrow> None
      | Inr payload \<Rightarrow> Some payload)"

definition transport_stream_write_track_frame ::
  "(stream_stats \<Rightarrow> stream_ctx \<Rightarrow> u8 \<Rightarrow> bytes \<Rightarrow> write_result) \<Rightarrow> stream_stats \<Rightarrow> stream_ctx \<Rightarrow>
   u8 \<Rightarrow> u8 \<Rightarrow> moq_track_id \<Rightarrow> write_result" where
  "transport_stream_write_track_frame write_frame stats ctx t alias_id track =
     (case track_frame_payload alias_id track of
        None \<Rightarrow> \<lparr>wr_ok = False, wr_close = False, wr_stats = stats, wr_ctx = ctx\<rparr>
      | Some payload \<Rightarrow> write_frame stats ctx t payload)"

definition transport_stream_write_object_frame ::
  "(stream_stats \<Rightarrow> stream_ctx \<Rightarrow> u8 \<Rightarrow> bytes \<Rightarrow> bytes \<Rightarrow> write_result) \<Rightarrow> stream_stats \<Rightarrow> stream_ctx \<Rightarrow>
   u8 \<Rightarrow> moq_object \<Rightarrow> write_result" where
  "transport_stream_write_object_frame write_parts stats ctx alias_id object =
     (let data = (case ob_data object of None \<Rightarrow> [] | Some p \<Rightarrow> pl_bytes p) in
      if length data > MAX_RELIABLE_OBJECT_SIZE
      then \<lparr>wr_ok = False, wr_close = False, wr_stats = stats, wr_ctx = ctx\<rparr>
      else case qlinq_wire_encode_track_object WIRE_TRACK_OBJECT_HEADER_SIZE
          \<lparr>wo_alias = alias_id, wo_is_keyframe = ob_is_keyframe object, wo_priority = ob_priority object,
           wo_group_id = ob_group_id object, wo_object_id = ob_object_id object\<rparr> of
        Inl _ \<Rightarrow> \<lparr>wr_ok = False, wr_close = False, wr_stats = stats, wr_ctx = ctx\<rparr>
      | Inr header \<Rightarrow> write_parts stats ctx WIRE_TRACK_OBJECT header data)"

definition transport_stream_write_track_end_frame ::
  "(stream_stats \<Rightarrow> stream_ctx \<Rightarrow> u8 \<Rightarrow> bytes \<Rightarrow> write_result) \<Rightarrow> stream_stats \<Rightarrow> stream_ctx \<Rightarrow>
   u8 \<Rightarrow> u64 \<Rightarrow> u64 \<Rightarrow> write_result" where
  "transport_stream_write_track_end_frame write_frame stats ctx alias_id group_id final_object_id =
     (case qlinq_wire_encode_track_end WIRE_TRACK_END_SIZE
         \<lparr>en_alias = alias_id, en_group_id = group_id, en_final_object_id = final_object_id\<rparr> of
        Inl _ \<Rightarrow> \<lparr>wr_ok = False, wr_close = False, wr_stats = stats, wr_ctx = ctx\<rparr>
      | Inr payload \<Rightarrow> write_frame stats ctx WIRE_TRACK_END payload)"

definition transport_stream_write_track_checkpoint_frame ::
  "(stream_stats \<Rightarrow> stream_ctx \<Rightarrow> u8 \<Rightarrow> bytes \<Rightarrow> write_result) \<Rightarrow> stream_stats \<Rightarrow> stream_ctx \<Rightarrow>
   u8 \<Rightarrow> u64 \<Rightarrow> u64 \<Rightarrow> u64 \<Rightarrow> bool \<Rightarrow> write_result" where
  "transport_stream_write_track_checkpoint_frame write_frame stats ctx alias_id group_id first_object_id
     final_object_id baseline =
     (case qlinq_wire_encode_track_checkpoint WIRE_TRACK_CHECKPOINT_SIZE
         \<lparr>cp_alias = alias_id, cp_flags = (if baseline then WIRE_CHECKPOINT_BASELINE else 0),
          cp_group_id = group_id, cp_first_object_id = first_object_id,
          cp_final_object_id = final_object_id\<rparr> of
        Inl _ \<Rightarrow> \<lparr>wr_ok = False, wr_close = False, wr_stats = stats, wr_ctx = ctx\<rparr>
      | Inr payload \<Rightarrow> write_frame stats ctx WIRE_TRACK_CHECKPOINT payload)"

definition transport_stream_write_track_checkpoint_ack_frame ::
  "(stream_stats \<Rightarrow> stream_ctx \<Rightarrow> u8 \<Rightarrow> bytes \<Rightarrow> write_result) \<Rightarrow> stream_stats \<Rightarrow> stream_ctx \<Rightarrow>
   u8 \<Rightarrow> u64 \<Rightarrow> u64 \<Rightarrow> write_result" where
  "transport_stream_write_track_checkpoint_ack_frame write_frame stats ctx alias_id group_id final_object_id =
     (case qlinq_wire_encode_track_checkpoint_ack WIRE_TRACK_CHECKPOINT_ACK_SIZE
         \<lparr>ca_alias = alias_id, ca_group_id = group_id, ca_final_object_id = final_object_id\<rparr> of
        Inl _ \<Rightarrow> \<lparr>wr_ok = False, wr_close = False, wr_stats = stats, wr_ctx = ctx\<rparr>
      | Inr payload \<Rightarrow> write_frame stats ctx WIRE_TRACK_CHECKPOINT_ACK payload)"

section \<open>The account of a stream\<close>

text \<open>What an entry charges: its frame and the bookkeeping in front of it.\<close>

fun vec_charge :: "sendvec \<Rightarrow> nat" where
  "vec_charge (Retained frame) = 8 + length frame"
| "vec_charge (Foreign n) = 0"

fun vec_frames :: "sendvec \<Rightarrow> nat" where
  "vec_frames (Retained frame) = 1"
| "vec_frames (Foreign n) = 0"

abbreviation "charge vs \<equiv> sum_list (map vec_charge vs)"
abbreviation "frames vs \<equiv> sum_list (map vec_frames vs)"

text \<open>
  The counters of the endpoint are what this stream and the others (\<open>b\<close> bytes, \<open>f\<close> frames,
  \<open>v\<close> vector entries) hold, and within the limits.
\<close>

definition stream_account :: "nat \<Rightarrow> limits \<Rightarrow> nat \<times> nat \<times> nat \<Rightarrow> stream_stats \<Rightarrow> stream_ctx \<Rightarrow> bool" where
  "stream_account vec_size lim others stats ctx \<longleftrightarrow> (case others of (b, f, v) \<Rightarrow>
     sx_retained_frame_bytes ctx = charge (sb_vecs (sx_egress ctx)) \<and>
     length (sb_vecs (sx_egress ctx)) \<le> sb_capacity (sx_egress ctx) \<and>
     st_egress_bytes stats = b + charge (sb_vecs (sx_egress ctx)) + sb_capacity (sx_egress ctx) * vec_size \<and>
     st_egress_frames stats = f + frames (sb_vecs (sx_egress ctx)) \<and>
     st_egress_vector_capacity stats = v + sb_capacity (sx_egress ctx) \<and>
     st_egress_bytes stats \<le> lm_max_total_stream_egress_bytes lim \<and>
     charge (sb_vecs (sx_egress ctx)) + sb_capacity (sx_egress ctx) * vec_size \<le> lm_max_stream_egress_bytes lim \<and>
     st_egress_vector_capacity stats \<le> ENDPOINT_MAX_VECTORS \<and> f \<le> v \<and>
     lm_max_total_stream_egress_bytes lim \<le> SIZE_MAX)"

text \<open>What quicly's documentation says of its send buffer.\<close>

definition write_vec_law :: "(sendvec \<Rightarrow> sendbuf \<Rightarrow> int \<times> sendbuf) \<Rightarrow> bool" where
  "write_vec_law write_vec \<longleftrightarrow> (\<forall>vec sb ret sb'. write_vec vec sb = (ret, sb') \<longrightarrow>
     length (sb_vecs sb) \<le> sb_capacity sb \<longrightarrow>
     (sb_vecs sb' = sb_vecs sb \<or> sb_vecs sb' = sb_vecs sb @ [vec]) \<and>
     (sb_capacity sb' = sb_capacity sb \<or> sb_capacity sb' = sb_capacity sb + vector_growth sb) \<and>
     length (sb_vecs sb') \<le> sb_capacity sb' \<and> (ret = 0 \<longrightarrow> sb_vecs sb' = sb_vecs sb @ [vec]))"

definition shift_law :: "(sendbuf \<Rightarrow> nat \<times> nat) \<Rightarrow> bool" where
  "shift_law shift \<longleftrightarrow> (\<forall>sb n c. shift sb = (n, c) \<longrightarrow> length (sb_vecs sb) \<le> sb_capacity sb \<longrightarrow>
     n \<le> length (sb_vecs sb) \<and> c \<le> sb_capacity sb \<and> length (sb_vecs sb) - n \<le> c)"

lemma limits_stream_facts:
  assumes "limits_ok lim"
  shows "0 < lm_max_reliable_object_size lim" "lm_max_stream_egress_bytes lim + 2097152 \<le> lm_max_total_stream_egress_bytes lim"
    "66560 < lm_max_stream_egress_bytes lim" "lm_max_stream_egress_bytes lim + 2097152 \<le> SIZE_MAX"
  using assms by (auto simp: limits_ok_def)

lemma admission_limits_eq:
  assumes "limits_ok lim"
  shows "admission_limits lim c p =
    (lm_max_stream_egress_bytes lim - (if p \<and> c then 65536 else 0),
     lm_max_total_stream_egress_bytes lim - (if p then 2097152 else 0),
     8192 - (if p then 256 else 0),
     min (lm_max_stream_egress_bytes lim div 64) 8192 - (if p \<and> c then 16 else 0))"
proof -
  note l = limits_stream_facts [OF assms]
  have d: "16 \<le> lm_max_stream_egress_bytes lim div 64" using l(3) by simp
  have f: "(if lm_max_stream_egress_bytes lim div 64 > 8192 then 8192 else lm_max_stream_egress_bytes lim div 64) =
    min (lm_max_stream_egress_bytes lim div 64) 8192" by simp
  have s: "sz_sub (lm_max_stream_egress_bytes lim) 65536 = lm_max_stream_egress_bytes lim - 65536"
    "sz_sub (lm_max_total_stream_egress_bytes lim) 2097152 = lm_max_total_stream_egress_bytes lim - 2097152"
    "sz_sub (min (lm_max_stream_egress_bytes lim div 64) 8192) 16 = min (lm_max_stream_egress_bytes lim div 64) 8192 - 16"
    using l d by (simp_all add: sz_sub_no_wrap)
  have v: "sz_sub 8192 256 = 8192 - 256" by (simp add: sz_sub_def)
  show ?thesis unfolding admission_limits_def Let_def f s v by simp
qed

text \<open>An accepted frame fits every budget, without any wrap-around in the test.\<close>

lemma accept_reserved_fits:
  assumes lim: "limits_ok lim" and vs: "vec_size \<le> 65536"
    and acc: "stream_account vec_size lim others stats ctx"
    and r: "stream_can_accept_reserved vec_size lim is_open closing stats ctx n p rb rv = Some (b', v')"
    and res: "rb \<le> SIZE_MAX div 2"
  defines "growth \<equiv> vector_growth (sx_egress ctx)"
  shows "is_open \<and> \<not> closing \<and> n \<le> 1048588 \<and>
    charge (sb_vecs (sx_egress ctx)) + sb_capacity (sx_egress ctx) * vec_size + (8 + n + growth * vec_size)
      \<le> lm_max_stream_egress_bytes lim \<and>
    st_egress_bytes stats + rb + (8 + n + growth * vec_size) + (if p then 2097152 else 0) \<le> lm_max_total_stream_egress_bytes lim \<and>
    st_egress_vector_capacity stats + rv + growth + (if p then 256 else 0) \<le> 8192 \<and>
    b' = rb + (8 + n + growth * vec_size) \<and> v' = rv + growth"
proof -
  note l = limits_stream_facts [OF lim]
  obtain ob of' ov where ot: "others = (ob, of', ov)" by (cases others)
  let ?cap = "sb_capacity (sx_egress ctx)" and ?c = "charge (sb_vecs (sx_egress ctx))"
  have a: "sx_retained_frame_bytes ctx = ?c" "?c + ?cap * vec_size \<le> lm_max_stream_egress_bytes lim"
    "st_egress_bytes stats \<le> lm_max_total_stream_egress_bytes lim" "st_egress_vector_capacity stats \<le> 8192"
    "?cap \<le> 8192" using acc by (auto simp: stream_account_def ot)
  have g: "growth \<le> 8196" using a(5) by (auto simp: growth_def vector_growth_def)
  have gm: "growth * vec_size \<le> 8196 * 65536" using g vs by (intro mult_le_mono) auto
  obtain sl el vl fl where al: "admission_limits lim (sx_is_control ctx) p = (sl, el, vl, fl)"
    by (cases "admission_limits lim (sx_is_control ctx) p")
  have lims: "sl \<le> lm_max_stream_egress_bytes lim" "el + (if p then 2097152 else 0) = lm_max_total_stream_egress_bytes lim"
    "vl + (if p then 256 else 0) = 8192"
    using al [symmetric] l unfolding admission_limits_eq [OF lim] by auto
  have n: "is_open" "\<not> closing" "n \<le> 1048588" using r by (auto simp: stream_can_accept_reserved_def split: if_splits)
  have e1: "sz_add 8 n = 8 + n" using n(3) by (intro sz_add_no_wrap) (simp add: SIZE_MAX_def)
  have e2: "sz_mul growth vec_size = growth * vec_size" using gm by (intro sz_mul_no_wrap) (simp add: SIZE_MAX_def)
  have e3: "sz_add (8 + n) (growth * vec_size) = 8 + n + growth * vec_size"
    using n(3) gm by (intro sz_add_no_wrap) (simp add: SIZE_MAX_def)
  have e4: "sz_mul ?cap vec_size = ?cap * vec_size" using a(2) l(4) by (intro sz_mul_no_wrap) linarith
  have e5: "sz_add ?c (?cap * vec_size) = ?c + ?cap * vec_size" using a(2) l(4) by (intro sz_add_no_wrap) linarith
  let ?bytes = "8 + n + growth * vec_size" and ?sb = "?c + ?cap * vec_size"
  have nb: "\<not> (length (sb_vecs (sx_egress ctx)) \<ge> fl \<or> ?sb > sl \<or> ?bytes > sz_sub sl ?sb \<or> st_egress_bytes stats > el \<or>
             rb > sz_sub el (st_egress_bytes stats) \<or>
             ?bytes > sz_sub (sz_sub el (st_egress_bytes stats)) rb \<or>
             st_egress_vector_capacity stats > vl \<or>
             rv > sz_sub vl (st_egress_vector_capacity stats) \<or>
             growth > sz_sub (sz_sub vl (st_egress_vector_capacity stats)) rv)"
    and res': "b' = sz_add rb ?bytes" "v' = sz_add rv growth"
    using r n unfolding stream_can_accept_reserved_def al prod.case Let_def a(1) growth_def [symmetric] e1 e2 e3 e4 e5
    by (auto split: if_splits)
  have s1: "?sb \<le> sl" "?bytes \<le> sl - ?sb" using nb by (auto simp: sz_sub_def)
  have s2: "st_egress_bytes stats \<le> el" "rb \<le> el - st_egress_bytes stats" "?bytes \<le> el - st_egress_bytes stats - rb"
    using nb by (auto simp: sz_sub_def)
  have s3: "st_egress_vector_capacity stats \<le> vl" "rv \<le> vl - st_egress_vector_capacity stats"
    "growth \<le> vl - st_egress_vector_capacity stats - rv" using nb by (auto simp: sz_sub_def)
  have "b' = rb + ?bytes" unfolding res' using res n(3) gm by (intro sz_add_no_wrap) (simp add: SIZE_MAX_def)
  moreover have "v' = rv + growth" unfolding res' using s3 lims(3) by (intro sz_add_no_wrap) (simp add: SIZE_MAX_def)
  moreover have "?sb + ?bytes \<le> lm_max_stream_egress_bytes lim" using s1 lims(1) by linarith
  moreover have "st_egress_bytes stats + rb + ?bytes + (if p then 2097152 else 0) \<le> lm_max_total_stream_egress_bytes lim"
    using s2 lims(2) by linarith
  moreover have "st_egress_vector_capacity stats + rv + growth + (if p then 256 else 0) \<le> 8192"
    using s3 lims(3) by linarith
  ultimately show ?thesis using n by blast
qed

text \<open>
  The admission rule over plain numbers. A frame of \<open>n\<close> bytes is charged with its bookkeeping and
  with the growth of the vector it causes; \<open>p\<close> says whether the control reserves must stay free.
\<close>

definition frame_charge :: "nat \<Rightarrow> stream_ctx \<Rightarrow> nat \<Rightarrow> nat" where
  "frame_charge vec_size ctx n = 8 + n + vector_growth (sx_egress ctx) * vec_size"

definition stream_admits :: "nat \<Rightarrow> limits \<Rightarrow> stream_stats \<Rightarrow> stream_ctx \<Rightarrow> bool \<Rightarrow> nat \<Rightarrow> bool" where
  "stream_admits vec_size lim stats ctx p n \<longleftrightarrow> (let sb = sx_egress ctx; reserve = p \<and> sx_is_control ctx in
     n \<le> MAX_STREAM_PAYLOAD + WIRE_FRAME_HEADER_SIZE \<and>
     length (sb_vecs sb) + (if reserve then CONTROL_FRAME_RESERVE else 0)
       < min (lm_max_stream_egress_bytes lim div 64) ENDPOINT_MAX_VECTORS \<and>
     charge (sb_vecs sb) + sb_capacity sb * vec_size + frame_charge vec_size ctx n
       + (if reserve then STREAM_CONTROL_BYTE_RESERVE else 0) \<le> lm_max_stream_egress_bytes lim \<and>
     st_egress_bytes stats + frame_charge vec_size ctx n + (if p then ENDPOINT_CONTROL_BYTE_RESERVE else 0)
       \<le> lm_max_total_stream_egress_bytes lim \<and>
     st_egress_vector_capacity stats + vector_growth sb + (if p then CONTROL_VECTOR_RESERVE else 0)
       \<le> ENDPOINT_MAX_VECTORS)"

lemma account_no_wrap:
  assumes lim: "limits_ok lim" and vs: "vec_size \<le> 65536" and acc: "stream_account vec_size lim others stats ctx"
    and n: "n \<le> 1048588"
  defines "g \<equiv> vector_growth (sx_egress ctx)"
  shows "sz_add (sz_add 8 n) (sz_mul g vec_size) = frame_charge vec_size ctx n"
    "sz_add (sx_retained_frame_bytes ctx) (sz_mul (sb_capacity (sx_egress ctx)) vec_size) =
      charge (sb_vecs (sx_egress ctx)) + sb_capacity (sx_egress ctx) * vec_size"
proof -
  note l = limits_stream_facts [OF lim]
  obtain ob of' ov where ot: "others = (ob, of', ov)" by (cases others)
  have a: "sx_retained_frame_bytes ctx = charge (sb_vecs (sx_egress ctx))" "sb_capacity (sx_egress ctx) \<le> 8192"
    "charge (sb_vecs (sx_egress ctx)) + sb_capacity (sx_egress ctx) * vec_size \<le> lm_max_stream_egress_bytes lim"
    using acc by (auto simp: stream_account_def ot)
  have "g \<le> 8196" using a(2) by (auto simp: g_def vector_growth_def)
  then have gm: "g * vec_size \<le> 8196 * 65536" using vs by (intro mult_le_mono) auto
  have "sz_mul g vec_size = g * vec_size" using gm by (intro sz_mul_no_wrap) (simp add: SIZE_MAX_def)
  moreover have "sz_add 8 n = 8 + n" using n by (intro sz_add_no_wrap) (simp add: SIZE_MAX_def)
  moreover have "sz_add (8 + n) (g * vec_size) = 8 + n + g * vec_size"
    using n gm by (intro sz_add_no_wrap) (simp add: SIZE_MAX_def)
  ultimately show "sz_add (sz_add 8 n) (sz_mul g vec_size) = frame_charge vec_size ctx n"
    by (simp add: frame_charge_def g_def)
  show "sz_add (sx_retained_frame_bytes ctx) (sz_mul (sb_capacity (sx_egress ctx)) vec_size) =
      charge (sb_vecs (sx_egress ctx)) + sb_capacity (sx_egress ctx) * vec_size"
    unfolding a(1) using a(3) l(4) by (subst sz_mul_no_wrap; (subst sz_add_no_wrap)?) linarith+
qed

lemma sz_room: "(\<not> a > b \<and> \<not> c > sz_sub b a) \<longleftrightarrow> a + c \<le> b" if "b \<le> SIZE_MAX"
  using that by (cases "a \<le> b") (auto simp: sz_sub_no_wrap)

lemma stream_can_accept_iff:
  assumes lim: "limits_ok lim" and vs: "vec_size \<le> 65536" and acc: "stream_account vec_size lim others stats ctx"
  shows "transport_stream_can_accept vec_size lim is_open closing stats ctx n p \<longleftrightarrow>
    is_open \<and> \<not> closing \<and> stream_admits vec_size lim stats ctx p n"
proof (cases "is_open \<and> \<not> closing \<and> n \<le> 1048588")
  case False
  then show ?thesis
    by (auto simp: transport_stream_can_accept_def stream_can_accept_reserved_def stream_admits_def Let_def)
next
  case True
  note l = limits_stream_facts [OF lim] and w = account_no_wrap [OF lim vs acc, of n]
  obtain ob of' ov where ot: "others = (ob, of', ov)" by (cases others)
  have a: "st_egress_bytes stats \<le> SIZE_MAX" "lm_max_total_stream_egress_bytes lim \<le> SIZE_MAX"
    using acc by (auto simp: stream_account_def ot)
  obtain sl el vl fl where al: "admission_limits lim (sx_is_control ctx) p = (sl, el, vl, fl)"
    by (cases "admission_limits lim (sx_is_control ctx) p")
  have lims: "sl + (if p \<and> sx_is_control ctx then 65536 else 0) = lm_max_stream_egress_bytes lim"
    "el + (if p then 2097152 else 0) = lm_max_total_stream_egress_bytes lim"
    "vl + (if p then 256 else 0) = 8192"
    "fl = min (lm_max_stream_egress_bytes lim div 64) 8192 - (if p \<and> sx_is_control ctx then 16 else 0)"
    using al [symmetric] l unfolding admission_limits_eq [OF lim] by auto
  have sm: "sl \<le> SIZE_MAX" "el \<le> SIZE_MAX" "vl \<le> SIZE_MAX"
    using lims a(2) l(4) by (simp_all add: SIZE_MAX_def split: if_splits)
  let ?sb = "sx_egress ctx" and ?c = "frame_charge vec_size ctx n"
  let ?used = "charge (sb_vecs ?sb) + sb_capacity ?sb * vec_size"
  have z: "sz_sub (sz_sub el (st_egress_bytes stats)) 0 = sz_sub el (st_egress_bytes stats)"
    "sz_sub (sz_sub vl (st_egress_vector_capacity stats)) 0 = sz_sub vl (st_egress_vector_capacity stats)"
    using sm by (auto simp: sz_sub_def)
  have "transport_stream_can_accept vec_size lim is_open closing stats ctx n p \<longleftrightarrow>
    \<not> fl = 0 \<and> \<not> length (sb_vecs ?sb) \<ge> fl \<and> (\<not> ?used > sl \<and> \<not> ?c > sz_sub sl ?used) \<and>
    (\<not> st_egress_bytes stats > el \<and> \<not> ?c > sz_sub el (st_egress_bytes stats)) \<and>
    (\<not> st_egress_vector_capacity stats > vl \<and> \<not> vector_growth ?sb > sz_sub vl (st_egress_vector_capacity stats))"
    using True w unfolding transport_stream_can_accept_def stream_can_accept_reserved_def al prod.case Let_def
    by (simp add: z)
  also have "\<dots> \<longleftrightarrow> length (sb_vecs ?sb) < fl \<and> ?used + ?c \<le> sl \<and> st_egress_bytes stats + ?c \<le> el \<and>
    st_egress_vector_capacity stats + vector_growth ?sb \<le> vl"
    unfolding sz_room [OF sm(1)] sz_room [OF sm(2)] sz_room [OF sm(3)] by auto
  also have "length (sb_vecs ?sb) < fl \<longleftrightarrow> length (sb_vecs ?sb) + (if p \<and> sx_is_control ctx then 16 else 0)
      < min (lm_max_stream_egress_bytes lim div 64) 8192" unfolding lims(4) by (simp add: less_diff_conv)
  also have "?used + ?c \<le> sl \<longleftrightarrow> ?used + ?c + (if p \<and> sx_is_control ctx then 65536 else 0)
      \<le> lm_max_stream_egress_bytes lim" unfolding lims(1) [symmetric] by simp
  also have "st_egress_bytes stats + ?c \<le> el \<longleftrightarrow> st_egress_bytes stats + ?c + (if p then 2097152 else 0)
      \<le> lm_max_total_stream_egress_bytes lim" unfolding lims(2) [symmetric] by simp
  also have "st_egress_vector_capacity stats + vector_growth ?sb \<le> vl \<longleftrightarrow>
      st_egress_vector_capacity stats + vector_growth ?sb + (if p then 256 else 0) \<le> 8192"
    unfolding lims(3) [symmetric] by simp
  finally have "transport_stream_can_accept vec_size lim is_open closing stats ctx n p \<longleftrightarrow>
      stream_admits vec_size lim stats ctx p n"
    using True unfolding stream_admits_def Let_def by simp
  then show ?thesis using True by blast
qed

lemma frames_le: "frames vs \<le> length vs"
proof (induction vs)
  case (Cons v vs)
  then show ?case by (cases v) simp_all
qed simp

lemma account_cong:
  "stream_account vs lim others stats ctx \<Longrightarrow> sx_egress ctx' = sx_egress ctx \<Longrightarrow>
   sx_retained_frame_bytes ctx' = sx_retained_frame_bytes ctx \<Longrightarrow> st_egress_bytes stats' = st_egress_bytes stats \<Longrightarrow>
   st_egress_frames stats' = st_egress_frames stats \<Longrightarrow>
   st_egress_vector_capacity stats' = st_egress_vector_capacity stats \<Longrightarrow> stream_account vs lim others stats' ctx'"
  by (simp add: stream_account_def)

lemma account_write_ok:
  assumes lim: "limits_ok lim" and vs: "vec_size \<le> 65536" and law: "write_vec_law write_vec"
    and acc: "stream_account vec_size lim others stats ctx"
    and fits: "charge (sb_vecs (sx_egress ctx)) + sb_capacity (sx_egress ctx) * vec_size +
        (8 + length frame + vector_growth (sx_egress ctx) * vec_size) \<le> lm_max_stream_egress_bytes lim"
      "st_egress_bytes stats + (8 + length frame + vector_growth (sx_egress ctx) * vec_size) + reserve
        \<le> lm_max_total_stream_egress_bytes lim"
      "st_egress_vector_capacity stats + vector_growth (sx_egress ctx) + vreserve \<le> 8192"
      "lm_max_stream_egress_bytes lim \<le> SIZE_MAX"
    and r: "account_write vec_size False app stats ctx (length frame) (write_vec (Retained frame) (sx_egress ctx)) = r"
  shows "stream_account vec_size lim others (wr_stats r) (wr_ctx r) \<and>
    (sb_vecs (sx_egress (wr_ctx r)) = sb_vecs (sx_egress ctx) \<or>
     sb_vecs (sx_egress (wr_ctx r)) = sb_vecs (sx_egress ctx) @ [Retained frame]) \<and>
    (wr_ok r \<longrightarrow> sb_vecs (sx_egress (wr_ctx r)) \<noteq> sb_vecs (sx_egress ctx)) \<and>
    (\<not> wr_ok r \<longrightarrow> (wr_close r \<longleftrightarrow> \<not> app \<or> sb_vecs (sx_egress (wr_ctx r)) \<noteq> sb_vecs (sx_egress ctx))) \<and>
    (wr_ok r \<longrightarrow> \<not> wr_close r) \<and>
    st_egress_bytes (wr_stats r) + reserve \<le> lm_max_total_stream_egress_bytes lim \<and>
    st_egress_vector_capacity (wr_stats r) + vreserve \<le> 8192"
proof -
  obtain ob of' ov where ot: "others = (ob, of', ov)" by (cases others)
  let ?sb = "sx_egress ctx"
  obtain ret sb where w: "write_vec (Retained frame) ?sb = (ret, sb)" by (cases "write_vec (Retained frame) ?sb")
  have a: "sx_retained_frame_bytes ctx = charge (sb_vecs ?sb)" "length (sb_vecs ?sb) \<le> sb_capacity ?sb"
    "st_egress_bytes stats = ob + charge (sb_vecs ?sb) + sb_capacity ?sb * vec_size"
    "st_egress_frames stats = of' + frames (sb_vecs ?sb)" "st_egress_vector_capacity stats = ov + sb_capacity ?sb"
    "of' \<le> ov" "lm_max_total_stream_egress_bytes lim \<le> SIZE_MAX" using acc by (simp_all add: stream_account_def ot)
  have b5: "st_egress_bytes stats + (8 + length frame + vector_growth (sx_egress ctx) * vec_size) \<le> SIZE_MAX"
    using fits(2) a(7) by linarith
  have lw: "sb_vecs sb = sb_vecs ?sb \<or> sb_vecs sb = sb_vecs ?sb @ [Retained frame]"
    "sb_capacity sb = sb_capacity ?sb \<or> sb_capacity sb = sb_capacity ?sb + vector_growth ?sb"
    "length (sb_vecs sb) \<le> sb_capacity sb" "ret = 0 \<longrightarrow> sb_vecs sb = sb_vecs ?sb @ [Retained frame]"
    using law w a(2) unfolding write_vec_law_def by blast+
  define g where "g = sb_capacity sb - sb_capacity ?sb"
  have g: "g \<le> vector_growth ?sb" "sb_capacity sb = sb_capacity ?sb + g" using lw(2) by (auto simp: g_def)
  have gm: "g * vec_size \<le> vector_growth ?sb * vec_size" using g(1) by simp
  define appended where "appended \<longleftrightarrow> length (sb_vecs sb) \<noteq> length (sb_vecs ?sb)"
  have ap: "appended \<longleftrightarrow> sb_vecs sb = sb_vecs ?sb @ [Retained frame]" "\<not> appended \<longleftrightarrow> sb_vecs sb = sb_vecs ?sb"
    using lw(1) by (auto simp: appended_def)
  let ?n = "8 + length frame"
  have fc: "charge (sb_vecs sb) = charge (sb_vecs ?sb) + (if appended then ?n else 0)"
    "frames (sb_vecs sb) = frames (sb_vecs ?sb) + (if appended then 1 else 0)" using ap by (cases appended; simp)+
  have s: "sz_sub (sb_capacity sb) (sb_capacity ?sb) = g" using g(2) by (simp add: sz_sub_no_wrap)
  have e1: "sz_add (st_egress_vector_capacity stats) g = st_egress_vector_capacity stats + g"
    using fits(3) g(1) by (intro sz_add_no_wrap) (simp add: SIZE_MAX_def)
  have e2: "sz_mul g vec_size = g * vec_size" using b5 gm by (intro sz_mul_no_wrap) linarith
  have e3: "sz_add (st_egress_bytes stats) (g * vec_size) = st_egress_bytes stats + g * vec_size"
    using b5 gm by (intro sz_add_no_wrap) linarith
  have e4: "sz_add 8 (length frame) = ?n" using b5 by (intro sz_add_no_wrap) linarith
  have e5: "sz_add (sx_retained_frame_bytes ctx) ?n = charge (sb_vecs ?sb) + ?n"
    using fits(1,4) a(1) by (subst sz_add_no_wrap) simp_all
  have e6: "sz_add (st_egress_bytes stats + g * vec_size) ?n = st_egress_bytes stats + g * vec_size + ?n"
    using b5 gm by (intro sz_add_no_wrap) linarith
  have e7: "sz_add (st_egress_frames stats) 1 = st_egress_frames stats + 1"
  proof -
    have "st_egress_frames stats \<le> st_egress_vector_capacity stats" using a frames_le [of "sb_vecs ?sb"] by linarith
    then have "st_egress_frames stats \<le> 8192" using fits(3) by linarith
    then show ?thesis by (intro sz_add_no_wrap) (simp add: SIZE_MAX_def)
  qed
  define stats' where "stats' = count_peaks (let s = stats\<lparr>st_egress_vector_capacity := st_egress_vector_capacity stats + g,
       st_egress_bytes := st_egress_bytes stats + g * vec_size\<rparr> in
     if appended then s\<lparr>st_egress_bytes := st_egress_bytes s + ?n, st_egress_frames := st_egress_frames stats + 1\<rparr> else s)"
  define ctx' where "ctx' = ctx\<lparr>sx_egress := sb, sx_retained_frame_bytes := charge (sb_vecs sb)\<rparr>"
  have rr: "r = (if ret = 0 then \<lparr>wr_ok = True, wr_close = False, wr_stats = stats', wr_ctx = ctx'\<rparr>
      else write_failed False (app \<and> \<not> appended) stats' ctx')"
  proof -
    have c: "(if appended then sz_add (sx_retained_frame_bytes ctx) ?n else sx_retained_frame_bytes ctx) = charge (sb_vecs sb)"
      using fc(1) e5 a(1) by simp
    have st: "(if appended
         then (stats\<lparr>st_egress_vector_capacity := st_egress_vector_capacity stats + g,
                st_egress_bytes := st_egress_bytes stats + g * vec_size\<rparr>)
              \<lparr>st_egress_bytes := sz_add (st_egress_bytes (stats\<lparr>st_egress_vector_capacity := st_egress_vector_capacity stats + g,
                st_egress_bytes := st_egress_bytes stats + g * vec_size\<rparr>)) ?n,
               st_egress_frames := sz_add (st_egress_frames (stats\<lparr>st_egress_vector_capacity := st_egress_vector_capacity stats + g,
                st_egress_bytes := st_egress_bytes stats + g * vec_size\<rparr>)) 1\<rparr>
         else stats\<lparr>st_egress_vector_capacity := st_egress_vector_capacity stats + g,
                st_egress_bytes := st_egress_bytes stats + g * vec_size\<rparr>) =
      (let s = stats\<lparr>st_egress_vector_capacity := st_egress_vector_capacity stats + g,
       st_egress_bytes := st_egress_bytes stats + g * vec_size\<rparr> in
     if appended then s\<lparr>st_egress_bytes := st_egress_bytes s + ?n, st_egress_frames := st_egress_frames stats + 1\<rparr> else s)"
      using e6 e7 by (simp add: Let_def)
    show ?thesis
      using r unfolding account_write_def w prod.case Let_def s e1 e2 e3 e4 appended_def [symmetric] c
      unfolding st [unfolded Let_def] stats'_def ctx'_def Let_def by simp
  qed
  have st: "st_egress_bytes stats' = st_egress_bytes stats + g * vec_size + (if appended then ?n else 0)"
    "st_egress_frames stats' = st_egress_frames stats + (if appended then 1 else 0)"
    "st_egress_vector_capacity stats' = st_egress_vector_capacity stats + g"
    by (simp_all add: stats'_def count_peaks_def Let_def)
  have acc': "stream_account vec_size lim others stats' ctx'"
  proof -
    define cv gv vv where "cv = sb_capacity ?sb * vec_size" and "gv = g * vec_size" and "vv = vector_growth ?sb * vec_size"
    have cap: "sb_capacity sb * vec_size = cv + gv" by (simp add: g(2) cv_def gv_def add_mult_distrib)
    note f = fits(1,2,3) [folded cv_def vv_def] and gm' = gm [folded gv_def vv_def] and st' = st [folded gv_def]
    show ?thesis
      unfolding stream_account_def ot ctx'_def prod.case stream_ctx.simps st'
      using f gm' g lw(3) a [folded cv_def] fc cap [unfolded g(2)] by (cases appended) simp_all
  qed
  have wf: "stream_account vec_size lim others (wr_stats (write_failed False x stats' ctx')) (wr_ctx (write_failed False x stats' ctx'))"
    for x by (rule account_cong [OF acc']) (simp_all add: write_failed_def)
  have wc: "wr_ctx r = ctx'" "st_egress_bytes (wr_stats r) = st_egress_bytes stats'"
    "st_egress_vector_capacity (wr_stats r) = st_egress_vector_capacity stats'"
    by (simp_all add: rr write_failed_def)
  have "wr_ok r \<longleftrightarrow> ret = 0" "wr_ok r \<longrightarrow> \<not> wr_close r" "\<not> wr_ok r \<longrightarrow> (wr_close r \<longleftrightarrow> \<not> app \<or> appended)"
    by (auto simp: rr write_failed_def)
  moreover have "sb_vecs (sx_egress ctx') = sb_vecs sb" by (simp add: ctx'_def)
  moreover have "stream_account vec_size lim others (wr_stats r) (wr_ctx r)"
    using acc' wf by (cases "ret = 0") (simp_all add: rr)
  moreover have "st_egress_bytes stats' + reserve \<le> lm_max_total_stream_egress_bytes lim"
    "st_egress_vector_capacity stats' + vreserve \<le> 8192"
  proof -
    have "st_egress_bytes stats' \<le> st_egress_bytes stats + g * vec_size + ?n" unfolding st(1) by simp
    then show "st_egress_bytes stats' + reserve \<le> lm_max_total_stream_egress_bytes lim" using fits(2) gm by linarith
    show "st_egress_vector_capacity stats' + vreserve \<le> 8192" unfolding st(3) using fits(3) g(1) by linarith
  qed
  ultimately show ?thesis using ap lw(4) unfolding wc by auto
qed


lemma write_parts_ok:
  assumes lim: "limits_ok lim" and vs: "vec_size \<le> 65536" and law: "write_vec_law write_vec"
    and acc: "stream_account vec_size lim others stats ctx"
    and r: "transport_stream_write_parts vec_size lim is_open closing malloc_ok write_vec stats ctx t prefix_data payload = r"
    and size: "length payload \<le> SIZE_MAX"
  defines "app \<equiv> t = WIRE_TRACK_OBJECT \<or> t = WIRE_UNICAST"
    and "old \<equiv> sb_vecs (sx_egress ctx)" and "new \<equiv> sb_vecs (sx_egress (wr_ctx r))"
  shows "stream_account vec_size lim others (wr_stats r) (wr_ctx r) \<and>
    (new = old \<or> (\<exists>frame. new = old @ [Retained frame] \<and>
       qlinq_wire_encode_frame (8 + length (prefix_data @ payload)) t (prefix_data @ payload) MAX_STREAM_PAYLOAD = Inr frame \<and>
       (app \<longrightarrow> st_egress_bytes (wr_stats r) + ENDPOINT_CONTROL_BYTE_RESERVE \<le> lm_max_total_stream_egress_bytes lim \<and>
          st_egress_vector_capacity (wr_stats r) + CONTROL_VECTOR_RESERVE \<le> ENDPOINT_MAX_VECTORS))) \<and>
    (wr_ok r \<longrightarrow> new \<noteq> old \<and> \<not> wr_close r) \<and> (\<not> wr_ok r \<longrightarrow> new \<noteq> old \<longrightarrow> wr_close r) \<and>
    (\<not> wr_ok r \<longrightarrow> app \<longrightarrow> new = old \<longrightarrow> \<not> wr_close r)"
proof (cases "length (prefix_data @ payload) > MAX_STREAM_PAYLOAD")
  case True
  have e: "length prefix_data > SIZE_MAX - length payload \<or>
         sz_add (length prefix_data) (length payload) > MAX_STREAM_PAYLOAD"
    using True by (cases "length prefix_data > SIZE_MAX - length payload") (use size in \<open>simp_all add: sz_add_no_wrap\<close>)
  then show ?thesis using acc r unfolding transport_stream_write_parts_def by (auto simp: old_def new_def)
next
  case False
  then have n: "length prefix_data + length payload \<le> 1048580" by simp
  then have s1: "sz_add (length prefix_data) (length payload) = length prefix_data + length payload"
    and nw: "\<not> length prefix_data > SIZE_MAX - length payload"
    by (simp_all add: sz_add_no_wrap SIZE_MAX_def)
  have s2: "sz_add 8 (length prefix_data + length payload) = 8 + (length prefix_data + length payload)"
    using n by (intro sz_add_no_wrap) (simp add: SIZE_MAX_def)
  let ?len = "8 + (length prefix_data + length payload)"
  note r' = r [unfolded transport_stream_write_parts_def s1 s2 Let_def, folded app_def]
  have ng: "\<not> (length prefix_data > SIZE_MAX - length payload \<or> length prefix_data + length payload > MAX_STREAM_PAYLOAD)"
    using nw n by simp
  note r'' = r' [unfolded if_not_P [OF ng]]
  have failed: "stream_account vec_size lim others (wr_stats (write_failed closing app st' ctx)) (wr_ctx (write_failed closing app st' ctx)) \<and>
      sb_vecs (sx_egress (wr_ctx (write_failed closing app st' ctx))) = old \<and> \<not> wr_ok (write_failed closing app st' ctx) \<and>
      (app \<longrightarrow> \<not> wr_close (write_failed closing app st' ctx))"
    if "st' = stats \<or> st' = stats\<lparr>st_egress_blocked := sz_add (st_egress_blocked stats) 1\<rparr>" for st'
    using that by (intro conjI account_cong [OF acc]) (auto simp: write_failed_def old_def)
  show ?thesis
  proof (cases "transport_stream_can_accept vec_size lim is_open closing stats ctx ?len app \<and> malloc_ok")
    case False
    obtain st' where st': "r = write_failed closing app st' ctx"
      "st' = stats \<or> st' = stats\<lparr>st_egress_blocked := sz_add (st_egress_blocked stats) 1\<rparr>"
      using False r'' by (cases malloc_ok) (auto split: if_splits)
    show ?thesis using failed [OF st'(2)] unfolding st'(1) new_def by simp
  next
    case True
    then obtain b' v' where ac: "stream_can_accept_reserved vec_size lim is_open closing stats ctx ?len app 0 0 = Some (b', v')"
      by (auto simp: transport_stream_can_accept_def)
    note fit = accept_reserved_fits [OF lim vs acc ac]
    have nc: "\<not> closing" using fit by simp
    note l = limits_stream_facts [OF lim]
    show ?thesis
    proof (cases "qlinq_wire_encode_frame_header ?len t (length prefix_data + length payload) MAX_STREAM_PAYLOAD")
      case (Inl e)
      then have "r = \<lparr>wr_ok = False, wr_close = False, wr_stats = stats, wr_ctx = ctx\<rparr>" using r'' True by simp
      then show ?thesis using acc by (simp add: new_def old_def)
    next
      case (Inr header)
      let ?f = "header @ prefix_data @ payload"
      have h: "header = [0x51, 0x4c, 1, t] @ write_u32 (of_nat (length prefix_data + length payload))"
        "qlinq_wire_frame_type_is_known t" using Inr by (simp_all add: frame_header_bytes)
      have lf: "length ?f = ?len" by (simp add: h write_u32_def write_u16_def)
      have enc: "qlinq_wire_encode_frame (8 + length (prefix_data @ payload)) t (prefix_data @ payload) MAX_STREAM_PAYLOAD = Inr ?f"
        using h n by (simp add: frame_bytes)
      have rw: "account_write vec_size False app stats ctx (length ?f) (write_vec (Retained ?f) (sx_egress ctx)) = r"
        using r'' True Inr nc unfolding lf by simp
      have fit1: "charge (sb_vecs (sx_egress ctx)) + sb_capacity (sx_egress ctx) * vec_size +
        (8 + length ?f + vector_growth (sx_egress ctx) * vec_size) \<le> lm_max_stream_egress_bytes lim"
        "st_egress_bytes stats + (8 + length ?f + vector_growth (sx_egress ctx) * vec_size) + (if app then 2097152 else 0)
        \<le> lm_max_total_stream_egress_bytes lim"
        "st_egress_vector_capacity stats + vector_growth (sx_egress ctx) + (if app then 256 else 0) \<le> 8192"
        "lm_max_stream_egress_bytes lim \<le> SIZE_MAX" unfolding lf using fit l by simp_all
      note w = account_write_ok [OF lim vs law acc fit1 rw]
      show ?thesis using w enc unfolding old_def new_def by auto
    qed
  qed
qed


text \<open>When a write appends its frame: legal, admitted by the budgets, and with memory for the copy.\<close>

definition write_admitted ::
  "nat \<Rightarrow> limits \<Rightarrow> bool \<Rightarrow> bool \<Rightarrow> bool \<Rightarrow> stream_stats \<Rightarrow> stream_ctx \<Rightarrow> u8 \<Rightarrow> bytes \<Rightarrow> bytes \<Rightarrow> bool" where
  "write_admitted vec_size lim is_open closing malloc_ok stats ctx t content frame \<longleftrightarrow>
     qlinq_wire_encode_frame (8 + length content) t content MAX_STREAM_PAYLOAD = Inr frame \<and>
     is_open \<and> \<not> closing \<and> malloc_ok \<and>
     stream_admits vec_size lim stats ctx (t = WIRE_TRACK_OBJECT \<or> t = WIRE_UNICAST) (length frame)"

lemma write_parts_admission:
  assumes lim: "limits_ok lim" and vs: "vec_size \<le> 65536" and law: "write_vec_law write_vec"
    and acc: "stream_account vec_size lim others stats ctx"
    and r: "transport_stream_write_parts vec_size lim is_open closing malloc_ok write_vec stats ctx t prefix_data payload = r"
    and size: "length payload \<le> SIZE_MAX"
  defines "adm \<equiv> write_admitted vec_size lim is_open closing malloc_ok stats ctx t (prefix_data @ payload)"
  shows "(adm frame \<longrightarrow> sx_egress (wr_ctx r) = snd (write_vec (Retained frame) (sx_egress ctx)) \<and>
       (wr_ok r \<longleftrightarrow> fst (write_vec (Retained frame) (sx_egress ctx)) = 0)) \<and>
     ((\<forall>frame. \<not> adm frame) \<longrightarrow> wr_ctx r = ctx \<and> \<not> wr_ok r) \<and>
     (qlinq_wire_encode_frame (8 + length (prefix_data @ payload)) t (prefix_data @ payload) MAX_STREAM_PAYLOAD = Inr f' \<and>
       \<not> wr_ok r \<and> \<not> closing \<and> t \<noteq> WIRE_TRACK_OBJECT \<and> t \<noteq> WIRE_UNICAST \<longrightarrow> wr_close r)"
proof (cases "length (prefix_data @ payload) > MAX_STREAM_PAYLOAD")
  case True
  have e: "length prefix_data > SIZE_MAX - length payload \<or>
         sz_add (length prefix_data) (length payload) > MAX_STREAM_PAYLOAD"
    using True by (cases "length prefix_data > SIZE_MAX - length payload") (use size in \<open>simp_all add: sz_add_no_wrap\<close>)
  have "r = \<lparr>wr_ok = False, wr_close = False, wr_stats = stats, wr_ctx = ctx\<rparr>"
    using e r unfolding transport_stream_write_parts_def by simp
  moreover have "qlinq_wire_encode_frame (8 + length (prefix_data @ payload)) t (prefix_data @ payload) MAX_STREAM_PAYLOAD
      \<noteq> Inr f" for f using True by (simp add: frame_bytes)
  ultimately show ?thesis by (simp add: adm_def write_admitted_def)
next
  case False
  let ?app = "t = WIRE_TRACK_OBJECT \<or> t = WIRE_UNICAST"
  from False have n: "length prefix_data + length payload \<le> 1048580" by simp
  then have s1: "sz_add (length prefix_data) (length payload) = length prefix_data + length payload"
    and nw: "\<not> length prefix_data > SIZE_MAX - length payload"
    by (simp_all add: sz_add_no_wrap SIZE_MAX_def)
  let ?len = "8 + (length prefix_data + length payload)"
  have s2: "sz_add 8 (length prefix_data + length payload) = ?len"
    using n by (intro sz_add_no_wrap) (simp add: SIZE_MAX_def)
  let ?header = "[0x51, 0x4c, 1, t] @ write_u32 (of_nat (length prefix_data + length payload))"
  let ?known = "qlinq_wire_frame_type_is_known t"
  have enc: "qlinq_wire_encode_frame (8 + length (prefix_data @ payload)) t (prefix_data @ payload) MAX_STREAM_PAYLOAD = Inr f
      \<longleftrightarrow> ?known \<and> f = ?header @ prefix_data @ payload" for f
    using n by (auto simp: frame_bytes)
  have len: "length (?header @ prefix_data @ payload) = ?len" by (simp add: write_u32_def write_u16_def)
  have adm: "adm f \<longleftrightarrow> ?known \<and> f = ?header @ prefix_data @ payload \<and> malloc_ok \<and>
      transport_stream_can_accept vec_size lim is_open closing stats ctx ?len ?app" for f
    unfolding adm_def write_admitted_def enc stream_can_accept_iff [OF lim vs acc] using len by auto
  have hd: "qlinq_wire_encode_frame_header ?len t (length prefix_data + length payload) MAX_STREAM_PAYLOAD =
      (if ?known then Inr ?header else Inl WIRE_MALFORMED)" if "?known"
    using that n frame_header_bytes [of ?len t "length prefix_data + length payload" MAX_STREAM_PAYLOAD ?header] by simp
  have un: "\<exists>e. qlinq_wire_encode_frame_header ?len t (length prefix_data + length payload) MAX_STREAM_PAYLOAD = Inl e"
    if "\<not> ?known"
    using that by (cases "qlinq_wire_encode_frame_header ?len t (length prefix_data + length payload) MAX_STREAM_PAYLOAD")
      (simp_all add: frame_header_bytes)
  have ng: "\<not> (length prefix_data > SIZE_MAX - length payload \<or> length prefix_data + length payload > MAX_STREAM_PAYLOAD)"
    using nw n by simp
  note r' = r [unfolded transport_stream_write_parts_def s1 s2 Let_def, unfolded if_not_P [OF ng]]
  have wf: "wr_ctx (write_failed closing ?app st' ctx) = ctx" "\<not> wr_ok (write_failed closing ?app st' ctx)"
    "wr_close (write_failed closing ?app st' ctx) \<longleftrightarrow> \<not> ?app \<and> \<not> closing" for st'
    by (auto simp: write_failed_def)
  show ?thesis
  proof (cases "transport_stream_can_accept vec_size lim is_open closing stats ctx ?len ?app \<and> malloc_ok")
    case False
    then obtain st' where "r = write_failed closing ?app st' ctx"
      using r' by (cases malloc_ok) (auto split: if_splits)
    then show ?thesis using False wf by (auto simp: adm enc)
  next
    case True
    show ?thesis
    proof (cases ?known)
      case False
      then have "wr_ctx r = ctx" "\<not> wr_ok r" using r' True un by auto
      then show ?thesis using False unfolding adm enc by blast
    next
      case known: True
      let ?f = "?header @ prefix_data @ payload"
      have "r = account_write vec_size closing ?app stats ctx ?len (write_vec (Retained ?f) (sx_egress ctx))"
        using r' True hd [OF known] known by simp
      moreover have "\<not> closing" using True stream_can_accept_iff [OF lim vs acc] by blast
      ultimately show ?thesis
        using True known by (auto simp: adm enc account_write_def write_failed_def Let_def split: prod.splits if_splits)
    qed
  qed
qed

lemma compact_capacity_bounds:
  "n \<le> compact_capacity n \<and> (compact_capacity n = 4 \<or> compact_capacity n < 2 * n)"
proof -
  have "(\<lambda>c. n \<le> c \<and> (c = 4 \<or> c < 2 * n)) (while (\<lambda>c. c < n) (\<lambda>c. c * 2) (4 :: nat))"
    by (rule while_rule [where P = "\<lambda>c. 0 < c \<and> (c = 4 \<or> c < 2 * n)" and r = "measure (\<lambda>c. n - c)"]) auto
  then show ?thesis by (simp add: compact_capacity_def)
qed

lemma discard_fold:
  "st_egress_bytes stats \<ge> charge vs \<Longrightarrow> st_egress_frames stats \<ge> frames vs \<Longrightarrow> sx_retained_frame_bytes ctx \<ge> charge vs \<Longrightarrow>
   st_egress_bytes stats \<le> SIZE_MAX \<Longrightarrow>
   fold discard_frame vs (stats, ctx) =
     (stats\<lparr>st_egress_bytes := st_egress_bytes stats - charge vs, st_egress_frames := st_egress_frames stats - frames vs\<rparr>,
      ctx\<lparr>sx_retained_frame_bytes := sx_retained_frame_bytes ctx - charge vs\<rparr>)"
proof (induction vs arbitrary: stats ctx)
  case (Cons v vs)
  show ?case
  proof (cases v)
    case (Retained f)
    have n: "sz_add 8 (length f) = 8 + length f" using Cons.prems Retained by (intro sz_add_no_wrap) simp
    have d: "discard_frame v (stats, ctx) = (stats\<lparr>st_egress_bytes := st_egress_bytes stats - (8 + length f),
       st_egress_frames := st_egress_frames stats - 1\<rparr>,
       ctx\<lparr>sx_retained_frame_bytes := sx_retained_frame_bytes ctx - (8 + length f)\<rparr>)"
      using Cons.prems Retained n by (simp add: Let_def sz_sub_no_wrap)
    show ?thesis unfolding fold_simps d using Cons.prems Retained by (subst Cons.IH) simp_all
  next
    case (Foreign n)
    then show ?thesis using Cons.prems Cons.IH [of stats ctx] by simp
  qed
qed simp

lemma shift_ok:
  assumes vs: "vec_size \<le> 65536" and law: "shift_law shift" and acc: "stream_account vec_size lim others stats ctx"
    and r: "transport_stream_egress_shift vec_size shift realloc_ok stats ctx = (stats', ctx')"
  shows "stream_account vec_size lim others stats' ctx' \<and>
    sb_vecs (sx_egress ctx') = drop (fst (shift (sx_egress ctx))) (sb_vecs (sx_egress ctx)) \<and>
    st_egress_bytes stats' \<le> st_egress_bytes stats"
proof -
  obtain ob of' ov where ot: "others = (ob, of', ov)" by (cases others)
  let ?sb = "sx_egress ctx"
  have a: "sx_retained_frame_bytes ctx = charge (sb_vecs ?sb)" "length (sb_vecs ?sb) \<le> sb_capacity ?sb"
    "st_egress_bytes stats = ob + charge (sb_vecs ?sb) + sb_capacity ?sb * vec_size"
    "st_egress_frames stats = of' + frames (sb_vecs ?sb)" "st_egress_vector_capacity stats = ov + sb_capacity ?sb"
    "of' \<le> ov" "lm_max_total_stream_egress_bytes lim \<le> SIZE_MAX" "st_egress_bytes stats \<le> lm_max_total_stream_egress_bytes lim"
    "charge (sb_vecs ?sb) + sb_capacity ?sb * vec_size \<le> lm_max_stream_egress_bytes lim" "st_egress_vector_capacity stats \<le> 8192"
    using acc by (simp_all add: stream_account_def ot)
  obtain n c where nc: "shift ?sb = (n, c)" by (cases "shift ?sb")
  have l: "n \<le> length (sb_vecs ?sb)" "c \<le> sb_capacity ?sb" "length (sb_vecs ?sb) - n \<le> c"
    using law nc a(2) unfolding shift_law_def by blast+
  let ?gone = "take n (sb_vecs ?sb)" and ?rest = "drop n (sb_vecs ?sb)"
  have sp: "charge (sb_vecs ?sb) = charge ?gone + charge ?rest" "frames (sb_vecs ?sb) = frames ?gone + frames ?rest"
    by (metis append_take_drop_id map_append sum_list_append)+
  define cap where "cap = (if c > 4 \<and> length ?rest \<le> c div 4 \<and> realloc_ok then compact_capacity (length ?rest) else c)"
  have cap: "cap \<le> sb_capacity ?sb" "length ?rest \<le> cap"
    using compact_capacity_bounds [of "length ?rest"] l by (auto simp: cap_def)
  define k where "k = sb_capacity ?sb - cap"
  have k: "sb_capacity ?sb = cap + k" using cap(1) by (simp add: k_def)
  define s1 where "s1 = stats\<lparr>st_egress_bytes := st_egress_bytes stats - charge ?gone, st_egress_frames := st_egress_frames stats - frames ?gone\<rparr>"
  have fd: "fold discard_frame ?gone (stats, ctx) = (s1, ctx\<lparr>sx_retained_frame_bytes := sx_retained_frame_bytes ctx - charge ?gone\<rparr>)"
    unfolding s1_def by (rule discard_fold) (use a sp in simp_all)
  define s2 where "s2 = s1\<lparr>st_egress_vector_capacity := ov + cap,
    st_egress_bytes := ob + charge ?rest + cap * vec_size\<rparr>"
  have rel: "release_vector_capacity vec_size s1 (sz_sub (sb_capacity ?sb) cap) = s2"
  proof -
    define cv kv where "cv = cap * vec_size" and "kv = k * vec_size"
    have capm: "sb_capacity ?sb * vec_size = cv + kv" by (simp add: k cv_def kv_def add_mult_distrib)
    have ks: "sz_sub (sb_capacity ?sb) cap = k" using k by (simp add: sz_sub_no_wrap)
    have "kv \<le> SIZE_MAX" using a(3,7,8) unfolding capm by linarith
    then have "sz_mul k vec_size = kv" by (simp add: kv_def sz_mul_no_wrap)
    moreover have "k = 0 \<Longrightarrow> kv = 0" by (simp add: kv_def)
    ultimately show ?thesis
      unfolding ks release_vector_capacity_def s2_def s1_def cv_def [symmetric]
      using a(3,5) sp(1) k unfolding capm by (cases "k = 0") (simp_all add: sz_sub_no_wrap)
  qed
  have rr: "stats' = s2" "ctx' = ctx\<lparr>sx_retained_frame_bytes := sx_retained_frame_bytes ctx - charge ?gone,
      sx_egress := \<lparr>sb_vecs = ?rest, sb_capacity = cap\<rparr>\<rparr>"
    using r unfolding transport_stream_egress_shift_def Let_def nc prod.case fd cap_def [symmetric] rel by auto
  have cm: "cap * vec_size \<le> sb_capacity ?sb * vec_size" using cap(1) by simp
  have b: "ob + charge ?rest + cap * vec_size \<le> st_egress_bytes stats" using a(3) sp(1) cm by linarith
  moreover have "charge ?rest + cap * vec_size \<le> lm_max_stream_egress_bytes lim" using a(9) sp(1) cm by linarith
  ultimately have "stream_account vec_size lim others stats' ctx'"
    unfolding rr ot stream_account_def s2_def s1_def using a sp cap by simp
  moreover have "st_egress_bytes stats' \<le> st_egress_bytes stats" using b by (simp add: rr s2_def s1_def)
  ultimately show ?thesis by (simp add: rr nc)
qed

text \<open>Destroying the stream gives back everything it was charged for.\<close>

lemma destroy_ok:
  assumes vs: "vec_size \<le> 65536" and acc: "stream_account vec_size lim (b, f, v) stats ctx"
  shows "st_egress_bytes (transport_stream_destroy vec_size stats ctx) = b \<and>
    st_egress_frames (transport_stream_destroy vec_size stats ctx) = f \<and>
    st_egress_vector_capacity (transport_stream_destroy vec_size stats ctx) = v"
proof -
  let ?sb = "sx_egress ctx"
  have a: "sx_retained_frame_bytes ctx = charge (sb_vecs ?sb)"
    "st_egress_bytes stats = b + charge (sb_vecs ?sb) + sb_capacity ?sb * vec_size"
    "st_egress_frames stats = f + frames (sb_vecs ?sb)" "st_egress_vector_capacity stats = v + sb_capacity ?sb"
    "st_egress_bytes stats \<le> SIZE_MAX" using acc by (auto simp: stream_account_def)
  define cv where "cv = sb_capacity ?sb * vec_size"
  have "sz_mul (sb_capacity ?sb) vec_size = cv" using a(2,5) by (simp add: cv_def sz_mul_no_wrap)
  moreover have "sb_capacity ?sb = 0 \<Longrightarrow> cv = 0" by (simp add: cv_def)
  ultimately have r: "release_vector_capacity vec_size stats (sb_capacity ?sb) =
    stats\<lparr>st_egress_vector_capacity := v, st_egress_bytes := b + charge (sb_vecs ?sb)\<rparr>"
    using a(2,4) unfolding cv_def [symmetric] by (cases "sb_capacity ?sb = 0") (simp_all add: release_vector_capacity_def sz_sub_no_wrap)
  define s1 where "s1 = stats\<lparr>st_egress_vector_capacity := v, st_egress_bytes := b + charge (sb_vecs ?sb)\<rparr>"
  have fd: "fold discard_frame (sb_vecs ?sb) (s1, ctx) =
    (s1\<lparr>st_egress_bytes := st_egress_bytes s1 - charge (sb_vecs ?sb),
        st_egress_frames := st_egress_frames s1 - frames (sb_vecs ?sb)\<rparr>,
     ctx\<lparr>sx_retained_frame_bytes := sx_retained_frame_bytes ctx - charge (sb_vecs ?sb)\<rparr>)"
    by (rule discard_fold) (use a in \<open>simp_all add: s1_def\<close>)
  show ?thesis unfolding transport_stream_destroy_def r s1_def [symmetric] fd by (simp add: s1_def a)
qed

lemma has_retained_iff:
  "transport_stream_has_retained_frame is_open closing ctx t payload \<longleftrightarrow>
   is_open \<and> \<not> closing \<and> (\<exists>frame. Retained frame \<in> set (sb_vecs (sx_egress ctx)) \<and>
     qlinq_wire_encode_frame (8 + length payload) t payload MAX_STREAM_PAYLOAD = Inr frame)"
proof (cases "qlinq_wire_encode_frame_header 8 t (length payload) MAX_STREAM_PAYLOAD")
  case (Inl e)
  then have "qlinq_wire_encode_frame (8 + length payload) t payload MAX_STREAM_PAYLOAD \<noteq> Inr frame" for frame
    by (auto simp: qlinq_wire_encode_frame_def qlinq_wire_encode_frame_header_def split: if_splits)
  then show ?thesis using Inl by (simp add: transport_stream_has_retained_frame_def)
next
  case (Inr header)
  then have h: "header = [0x51, 0x4c, 1, t] @ write_u32 (of_nat (length payload))" "qlinq_wire_frame_type_is_known t"
    "length payload \<le> MAX_STREAM_PAYLOAD" by (simp_all add: frame_header_bytes)
  have lh: "length header = 8" by (simp add: h write_u32_def write_u16_def)
  have enc: "qlinq_wire_encode_frame (8 + length payload) t payload MAX_STREAM_PAYLOAD = Inr frame \<longleftrightarrow> frame = header @ payload"
    for frame using h by (auto simp: frame_bytes)
  have fr: "(length frame = length header + length payload \<and> take (length header) frame = header \<and>
      drop (length header) frame = payload) \<longleftrightarrow> frame = header @ payload" for frame
    by (metis append_eq_conv_conj length_append)
  have ex: "list_ex (\<lambda>v. case v of Foreign _ \<Rightarrow> False | Retained frame \<Rightarrow> frame = header @ payload) vs \<longleftrightarrow>
    Retained (header @ payload) \<in> set vs" for vs
  proof (induction vs)
    case (Cons v vs)
    then show ?case by (cases v) auto
  qed simp
  have el: "(\<exists>frame. Retained frame \<in> set vs \<and> frame = header @ payload) \<longleftrightarrow> Retained (header @ payload) \<in> set vs" for vs
    by blast
  have hd: "transport_stream_has_retained_frame is_open closing ctx t payload \<longleftrightarrow> is_open \<and> \<not> closing \<and>
    list_ex (\<lambda>v. case v of Foreign _ \<Rightarrow> False | Retained frame \<Rightarrow> frame = header @ payload) (rev (sb_vecs (sx_egress ctx)))"
    using h(3) Inr unfolding transport_stream_has_retained_frame_def by (simp add: fr)
  show ?thesis unfolding hd ex enc el by simp
qed

section \<open>Runs of a stream\<close>

text \<open>
  The operations a stream sees between its opening and its end, each with quicly's answer;
  \<open>Close_op\<close> is the closing of the connection by anything else. Of a run the model records the
  frames whose write reported success and how many entries quicly released.
\<close>

datatype stream_op =
    Write_op u8 bytes bytes bool "sendvec \<Rightarrow> sendbuf \<Rightarrow> int \<times> sendbuf"
  | Shift_op "sendbuf \<Rightarrow> nat \<times> nat" bool
  | Close_op

record stream_run =
  rn_stats :: stream_stats
  rn_ctx :: stream_ctx
  rn_closing :: bool
  rn_accepted :: "bytes list"
  rn_released :: nat

text \<open>The frame an operation offers to the stream.\<close>

fun op_frames :: "stream_op \<Rightarrow> bytes list" where
  "op_frames (Write_op t prefix_data payload malloc_ok write_vec) =
     (case qlinq_wire_encode_frame (8 + length (prefix_data @ payload)) t (prefix_data @ payload) MAX_STREAM_PAYLOAD of
        Inl _ \<Rightarrow> [] | Inr frame \<Rightarrow> [frame])"
| "op_frames _ = []"

fun stream_step :: "nat \<Rightarrow> limits \<Rightarrow> stream_op \<Rightarrow> stream_run \<Rightarrow> stream_run" where
  "stream_step vec_size lim (Write_op t prefix_data payload malloc_ok write_vec) s =
     (let r = transport_stream_write_parts vec_size lim True (rn_closing s) malloc_ok write_vec
            (rn_stats s) (rn_ctx s) t prefix_data payload in
      s\<lparr>rn_stats := wr_stats r, rn_ctx := wr_ctx r, rn_closing := rn_closing s \<or> wr_close r,
        rn_accepted := rn_accepted s @
          (if wr_ok r then op_frames (Write_op t prefix_data payload malloc_ok write_vec) else [])\<rparr>)"
| "stream_step vec_size lim (Shift_op shift realloc_ok) s =
     (case transport_stream_egress_shift vec_size shift realloc_ok (rn_stats s) (rn_ctx s) of
       (stats, ctx) \<Rightarrow> s\<lparr>rn_stats := stats, rn_ctx := ctx,
         rn_released := rn_released s + fst (shift (sx_egress (rn_ctx s)))\<rparr>)"
| "stream_step vec_size lim Close_op s = s\<lparr>rn_closing := True\<rparr>"

fun op_lawful :: "stream_op \<Rightarrow> bool" where
  "op_lawful (Write_op t prefix_data payload malloc_ok write_vec) \<longleftrightarrow> write_vec_law write_vec \<and> length payload \<le> SIZE_MAX"
| "op_lawful (Shift_op shift realloc_ok) \<longleftrightarrow> shift_law shift"
| "op_lawful Close_op \<longleftrightarrow> True"

definition stream_start :: "stream_stats \<Rightarrow> stream_ctx \<Rightarrow> stream_run" where
  "stream_start stats ctx =
     \<lparr>rn_stats = stats, rn_ctx = ctx, rn_closing = False, rn_accepted = [], rn_released = 0\<rparr>"

text \<open>
  The entries of the buffer in a run that began with \<open>old\<close> in it: everything accepted, less what was
  released. \<open>extra\<close> is a frame whose write appended it and failed nevertheless; it is the last one, for
  the connection is closed then.
\<close>

definition run_inv :: "nat \<Rightarrow> limits \<Rightarrow> nat \<times> nat \<times> nat \<Rightarrow> sendvec list \<Rightarrow> stream_run \<Rightarrow> bool" where
  "run_inv vec_size lim others old s \<longleftrightarrow>
     stream_account vec_size lim others (rn_stats s) (rn_ctx s) \<and>
     (\<exists>extra. length extra \<le> 1 \<and> (\<not> rn_closing s \<longrightarrow> extra = []) \<and>
        rn_released s \<le> length (old @ map Retained (rn_accepted s @ extra)) \<and>
        sb_vecs (sx_egress (rn_ctx s)) = drop (rn_released s) (old @ map Retained (rn_accepted s @ extra)))"

lemma run_inv_start: "stream_account vec_size lim others stats ctx \<Longrightarrow>
    run_inv vec_size lim others (sb_vecs (sx_egress ctx)) (stream_start stats ctx)"
  by (simp add: run_inv_def stream_start_def)

lemma run_inv_write:
  assumes lim: "limits_ok lim" and vs: "vec_size \<le> 65536" and inv: "run_inv vec_size lim others old s"
    and law: "write_vec_law write_vec" "length payload \<le> SIZE_MAX"
  shows "run_inv vec_size lim others old (stream_step vec_size lim (Write_op t prefix_data payload malloc_ok write_vec) s)"
proof -
  define r where "r = transport_stream_write_parts vec_size lim True (rn_closing s) malloc_ok write_vec
            (rn_stats s) (rn_ctx s) t prefix_data payload"
  let ?s = "stream_step vec_size lim (Write_op t prefix_data payload malloc_ok write_vec) s"
  let ?enc = "qlinq_wire_encode_frame (8 + length (prefix_data @ payload)) t (prefix_data @ payload) MAX_STREAM_PAYLOAD"
  obtain extra where inv': "stream_account vec_size lim others (rn_stats s) (rn_ctx s)"
    "length extra \<le> 1" "\<not> rn_closing s \<longrightarrow> extra = []"
    "rn_released s \<le> length (old @ map Retained (rn_accepted s @ extra))"
    "sb_vecs (sx_egress (rn_ctx s)) = drop (rn_released s) (old @ map Retained (rn_accepted s @ extra))"
    using inv unfolding run_inv_def by blast
  note w = write_parts_ok [OF lim vs law(1) inv'(1) r_def [symmetric] law(2)]
    and adm = write_parts_admission [OF lim vs law(1) inv'(1) r_def [symmetric] law(2)]
  have s: "rn_stats ?s = wr_stats r" "rn_ctx ?s = wr_ctx r" "rn_closing ?s \<longleftrightarrow> rn_closing s \<or> wr_close r"
    "rn_released ?s = rn_released s"
    "rn_accepted ?s = rn_accepted s @ (if wr_ok r then case ?enc of Inl _ \<Rightarrow> [] | Inr frame \<Rightarrow> [frame] else [])"
    by (simp_all add: r_def Let_def)
  show ?thesis
  proof (cases "sb_vecs (sx_egress (wr_ctx r)) = sb_vecs (sx_egress (rn_ctx s))")
    case True
    then have "\<not> wr_ok r" using w by blast
    then show ?thesis
      unfolding run_inv_def s using w inv' True by (intro conjI exI [of _ extra]) simp_all
  next
    case False
    then obtain frame where f: "sb_vecs (sx_egress (wr_ctx r)) = sb_vecs (sx_egress (rn_ctx s)) @ [Retained frame]"
      "?enc = Inr frame" using w by blast
    have "\<not> rn_closing s" using False adm unfolding write_admitted_def by metis
    then have e: "extra = []" using inv'(3) by simp
    show ?thesis
    proof (cases "wr_ok r")
      case True
      then show ?thesis
        unfolding run_inv_def s using w inv' f e by (intro conjI exI [of _ "[]"]) simp_all
    next
      case no: False
      then have "wr_close r" using w False by blast
      then show ?thesis
        unfolding run_inv_def s using w inv' f e no by (intro conjI exI [of _ "[frame]"]) simp_all
    qed
  qed
qed

lemma run_inv_step:
  assumes lim: "limits_ok lim" and vs: "vec_size \<le> 65536" and inv: "run_inv vec_size lim others old s"
    and law: "op_lawful op"
  shows "run_inv vec_size lim others old (stream_step vec_size lim op s)"
proof (cases op)
  case (Write_op t prefix_data payload malloc_ok write_vec)
  then show ?thesis using run_inv_write [OF lim vs inv] law by simp
next
  case (Shift_op shift realloc_ok)
  obtain stats ctx where r: "transport_stream_egress_shift vec_size shift realloc_ok (rn_stats s) (rn_ctx s) = (stats, ctx)"
    by (cases "transport_stream_egress_shift vec_size shift realloc_ok (rn_stats s) (rn_ctx s)")
  have l: "shift_law shift" using law by (simp add: Shift_op)
  have acc: "stream_account vec_size lim others (rn_stats s) (rn_ctx s)" using inv by (simp add: run_inv_def)
  note sh = shift_ok [OF vs l acc r]
  have "fst (shift (sx_egress (rn_ctx s))) \<le> length (sb_vecs (sx_egress (rn_ctx s)))"
  proof -
    have "length (sb_vecs (sx_egress (rn_ctx s))) \<le> sb_capacity (sx_egress (rn_ctx s))"
      using acc by (cases others) (simp add: stream_account_def)
    then show ?thesis using l unfolding shift_law_def by (metis prod.collapse)
  qed
  moreover obtain extra where e: "length extra \<le> 1" "\<not> rn_closing s \<longrightarrow> extra = []"
    "rn_released s \<le> length (old @ map Retained (rn_accepted s @ extra))"
    "sb_vecs (sx_egress (rn_ctx s)) = drop (rn_released s) (old @ map Retained (rn_accepted s @ extra))"
    using inv unfolding run_inv_def by blast
  define all where "all = old @ map Retained (rn_accepted s @ extra)"
  define m where "m = fst (shift (sx_egress (rn_ctx s)))"
  have step: "stream_step vec_size lim op s = s\<lparr>rn_stats := stats, rn_ctx := ctx, rn_released := rn_released s + m\<rparr>"
    by (simp add: Shift_op r m_def)
  have "rn_released s + m \<le> length all"
    using calculation e(3,4) unfolding all_def [symmetric] m_def [symmetric] by simp
  moreover have "sb_vecs (sx_egress ctx) = drop (rn_released s + m) all"
    using sh e(4) unfolding all_def [symmetric] m_def [symmetric] by (simp add: add.commute)
  ultimately show ?thesis
    unfolding step run_inv_def using sh e(1,2)
    by (intro conjI exI [of _ extra]) (simp_all add: all_def)
next
  case Close_op
  then show ?thesis using inv by (auto simp: run_inv_def)
qed

lemma run_inv_run:
  assumes lim: "limits_ok lim" and vs: "vec_size \<le> 65536"
  shows "\<forall>op \<in> set ops. op_lawful op \<Longrightarrow> run_inv vec_size lim others old s \<Longrightarrow>
    run_inv vec_size lim others old (fold (stream_step vec_size lim) ops s)"
  using run_inv_step [OF lim vs] by (induction ops arbitrary: s) auto

text \<open>Only offered frames are accepted, each at most once and in the order of the writes.\<close>

lemma accepted_subseq:
  "subseq (rn_accepted s) fs \<Longrightarrow>
   subseq (rn_accepted (fold (stream_step vec_size lim) ops s)) (fs @ concat (map op_frames ops))"
proof (induction ops arbitrary: s fs)
  case (Cons op ops)
  have "subseq (rn_accepted (stream_step vec_size lim op s)) (fs @ op_frames op)"
    using Cons.prems
    by (cases op) (auto simp: Let_def intro: list_emb_append_mono subseq_order.order_trans split: prod.splits)
  from Cons.IH [OF this] show ?case by simp
qed simp

section \<open>Properties\<close>

text \<open>A concrete endpoint for the witnesses: default limits, an empty stream, a buffer that appends.\<close>

definition example_limits :: limits where
  "example_limits = limits_defaulted \<lparr>lm_max_connections = 0, lm_max_subscriptions_per_connection = 0,
     lm_max_assemblers_per_connection = 0, lm_max_repair_requests_per_second = 0,
     lm_max_aggregate_repair_requests_per_second = 0, lm_max_aggregate_nack_requests_per_second = 0,
     lm_max_egress_packets_per_socket = 0, lm_max_egress_bytes_per_socket = 0, lm_max_assembler_memory_bytes = 0,
     lm_max_recovery_cache_bytes = 0, lm_max_stream_egress_bytes = 0, lm_max_total_stream_egress_bytes = 0,
     lm_max_reliable_object_size = 0, lm_max_fec_object_size = 0, lm_max_udp_payload_size = 0,
     lm_max_packets_per_tick = 0\<rparr>"

definition example_stats :: stream_stats where
  "example_stats = \<lparr>st_egress_bytes = 0, st_egress_frames = 0, st_egress_vector_capacity = 0, st_egress_peak_bytes = 0,
     st_egress_peak_frames = 0, st_egress_peak_vectors = 0, st_egress_blocked = 0, st_control_failures = 0,
     st_resource_limit_errors = 0\<rparr>"

definition example_stream :: stream_ctx where
  "example_stream = \<lparr>sx_egress = \<lparr>sb_vecs = [], sb_capacity = 0\<rparr>, sx_retained_frame_bytes = 0,
     sx_is_control = False, sx_alias_bound = False, sx_alias = 0\<rparr>"

definition append_vec :: "sendvec \<Rightarrow> sendbuf \<Rightarrow> int \<times> sendbuf" where
  "append_vec vec sb = (0, \<lparr>sb_vecs = sb_vecs sb @ [vec], sb_capacity = sb_capacity sb + vector_growth sb\<rparr>)"

definition release_one :: "sendbuf \<Rightarrow> nat \<times> nat" where
  "release_one sb = (min 1 (length (sb_vecs sb)), sb_capacity sb)"

lemma example_lawful: "write_vec_law append_vec" "shift_law release_one"
  by (auto simp: write_vec_law_def shift_law_def append_vec_def release_one_def vector_growth_def)

lemma example_limits_ok: "limits_ok example_limits"
  by (simp add: example_limits_def limits_ok_def limits_defaulted_def value_or_default_def SIZE_MAX_def)

lemma example_account: "stream_account 32 example_limits (0, 0, 0) example_stats example_stream"
  by (simp add: stream_account_def example_limits_def limits_defaulted_def value_or_default_def
      example_stats_def example_stream_def SIZE_MAX_def)

definition example_frame :: bytes where
  "example_frame = [0x51, 0x4c, 1, WIRE_UNICAST] @ write_u32 3 @ [1, 2, 3]"

lemma example_encoded:
  "qlinq_wire_encode_frame 11 WIRE_UNICAST [1, 2, 3] 1048580 = Inr example_frame"
  by (simp add: frame_bytes qlinq_wire_frame_type_is_known_def example_frame_def)

lemma example_write:
  "let r = transport_stream_write_parts 32 example_limits True False True append_vec example_stats example_stream
        WIRE_UNICAST [1] [2, 3] in
   wr_ok r \<and> sx_egress (wr_ctx r) = snd (append_vec (Retained example_frame) (sx_egress example_stream))"
proof -
  have n: "length [2, 3 :: u8] \<le> SIZE_MAX" "(32 :: nat) \<le> 65536" by (simp_all add: SIZE_MAX_def)
  have "write_admitted 32 example_limits True False True example_stats example_stream WIRE_UNICAST ([1] @ [2, 3]) example_frame"
    by (simp add: write_admitted_def example_encoded stream_admits_def frame_charge_def example_stream_def example_stats_def
        example_limits_def limits_defaulted_def value_or_default_def vector_growth_def example_frame_def
        write_u32_def write_u16_def Let_def)
  then show ?thesis
    using write_parts_admission [OF example_limits_ok n(2) example_lawful(1) example_account refl n(1), of True False True
        WIRE_UNICAST "[1]" example_frame] by (simp add: append_vec_def)
qed

text \<open>
  C34. One frame write, on every branch. The frame is admitted exactly when it is legal, the
  stream is open and its connection not closing, its copy gets memory, and it fits every budget:
  the stream's bytes and frame count, the endpoint's bytes and vector entries; an application
  frame (objects, unicast data) moreover leaves the endpoint's control reserves free, and on the
  control stream the reserves of that stream too. An admitted frame goes to quicly as the
  encoding of the given payload and success is quicly's; any other frame leaves the stream as it was
  and is refused. The counters of stream and endpoint stay an exact account within every
  limit. A control frame that could not be written closes the connection, an application frame
  only when quicly failed after having taken it.
\<close>

theorem stream_write_exact:
  "limits_ok lim \<Longrightarrow> vec_size \<le> 65536 \<Longrightarrow> write_vec_law write_vec \<Longrightarrow> stream_account vec_size lim others stats ctx \<Longrightarrow>
   transport_stream_write_parts vec_size lim is_open closing malloc_ok write_vec stats ctx t prefix_data payload = r \<Longrightarrow>
   length payload \<le> SIZE_MAX \<Longrightarrow> app = (t = WIRE_TRACK_OBJECT \<or> t = WIRE_UNICAST) \<Longrightarrow>
   enc = qlinq_wire_encode_frame (8 + length (prefix_data @ payload)) t (prefix_data @ payload) MAX_STREAM_PAYLOAD \<Longrightarrow>
   admitted = (\<lambda>frame. enc = Inr frame \<and> is_open \<and> \<not> closing \<and> malloc_ok \<and>
     (let sb = sx_egress ctx; reserve = app \<and> sx_is_control ctx;
          cost = 8 + length frame + vector_growth sb * vec_size in
      length (sb_vecs sb) + (if reserve then CONTROL_FRAME_RESERVE else 0)
        < min (lm_max_stream_egress_bytes lim div 64) ENDPOINT_MAX_VECTORS \<and>
      sum_list (map vec_charge (sb_vecs sb)) + sb_capacity sb * vec_size + cost
        + (if reserve then STREAM_CONTROL_BYTE_RESERVE else 0) \<le> lm_max_stream_egress_bytes lim \<and>
      st_egress_bytes stats + cost + (if app then ENDPOINT_CONTROL_BYTE_RESERVE else 0)
        \<le> lm_max_total_stream_egress_bytes lim \<and>
      st_egress_vector_capacity stats + vector_growth sb + (if app then CONTROL_VECTOR_RESERVE else 0)
        \<le> ENDPOINT_MAX_VECTORS)) \<Longrightarrow>
   stream_account vec_size lim others (wr_stats r) (wr_ctx r) \<and>
   (\<forall>frame. admitted frame \<longrightarrow> sx_egress (wr_ctx r) = snd (write_vec (Retained frame) (sx_egress ctx)) \<and>
      (wr_ok r \<longleftrightarrow> fst (write_vec (Retained frame) (sx_egress ctx)) = 0)) \<and>
   ((\<forall>frame. \<not> admitted frame) \<longrightarrow> wr_ctx r = ctx \<and> \<not> wr_ok r) \<and>
   (wr_close r \<longrightarrow> \<not> wr_ok r \<and> (app \<longrightarrow> sb_vecs (sx_egress (wr_ctx r)) \<noteq> sb_vecs (sx_egress ctx))) \<and>
   (\<not> wr_ok r \<and> \<not> wr_close r \<longrightarrow> closing \<or> (\<exists>e. enc = Inl e) \<or>
      app \<and> sb_vecs (sx_egress (wr_ctx r)) = sb_vecs (sx_egress ctx))"
  subgoal premises h
  proof -
    note w = write_parts_ok [OF h(1-6), folded h(7)]
      and adm = write_parts_admission [OF h(1-6), folded h(8)]
    have len: "enc = Inr f \<Longrightarrow> length f \<le> MAX_STREAM_PAYLOAD + WIRE_FRAME_HEADER_SIZE" for f
      unfolding h(8) frame_bytes by (auto simp: write_u32_def write_u16_def)
    have a: "admitted f \<longleftrightarrow> write_admitted vec_size lim is_open closing malloc_ok stats ctx t (prefix_data @ payload) f" for f
      unfolding h(9) write_admitted_def stream_admits_def frame_charge_def Let_def h(7) [symmetric] h(8) [symmetric]
      using len [of f] by blast
    have c: "wr_close r" if "\<not> wr_ok r" "\<not> closing" "\<not> app" "enc = Inr f" for f
      using adm [of undefined f] that h(7) by blast
    have "closing \<or> (\<exists>e. enc = Inl e) \<or> app \<and> sb_vecs (sx_egress (wr_ctx r)) = sb_vecs (sx_egress ctx)"
      if "\<not> wr_ok r \<and> \<not> wr_close r"
      using w c that by (cases enc) blast+
    moreover have "\<not> wr_ok r \<and> (app \<longrightarrow> sb_vecs (sx_egress (wr_ctx r)) \<noteq> sb_vecs (sx_egress ctx))" if "wr_close r"
      using w that by blast
    moreover have "sx_egress (wr_ctx r) = snd (write_vec (Retained f) (sx_egress ctx)) \<and>
        (wr_ok r \<longleftrightarrow> fst (write_vec (Retained f) (sx_egress ctx)) = 0)" if "admitted f" for f
      using adm [of f] that unfolding a by blast
    moreover have "wr_ctx r = ctx \<and> \<not> wr_ok r" if "\<forall>f. \<not> admitted f"
      using adm that unfolding a by blast
    moreover have "stream_account vec_size lim others (wr_stats r) (wr_ctx r)" using w by blast
    ultimately show ?thesis by blast
  qed
  done

theorem stream_write_exact_witness:
  "wr_ok (transport_stream_write_parts 32 example_limits True False True append_vec example_stats example_stream
        WIRE_UNICAST [1] [2, 3])"
proof -
  let ?r = "transport_stream_write_parts 32 example_limits True False True append_vec example_stats example_stream
        WIRE_UNICAST [1] [2, 3]"
  have n: "length [2, 3 :: u8] \<le> SIZE_MAX" "(32 :: nat) \<le> 65536" by (simp_all add: SIZE_MAX_def)
  note w = stream_write_exact [OF example_limits_ok n(2) example_lawful(1) example_account refl n(1) refl refl refl,
      where is_open = True and closing = False and malloc_ok = True and t = WIRE_UNICAST and prefix_data = "[1]"]
  have "qlinq_wire_encode_frame (8 + length ([1] @ [2, 3 :: u8])) WIRE_UNICAST ([1] @ [2, 3]) MAX_STREAM_PAYLOAD =
      Inr ([0x51, 0x4c, 1, WIRE_UNICAST] @ write_u32 3 @ [1, 2, 3])"
    by (simp add: frame_bytes qlinq_wire_frame_type_is_known_def)
  then show ?thesis using w
    by (auto simp: example_stream_def example_stats_def example_limits_def limits_defaulted_def value_or_default_def
        vector_growth_def append_vec_def write_u32_def write_u16_def)
qed

text \<open>
  C35. A whole run of writes, acknowledgements and closings. After any sequence of them the entries of
  the send buffer are exactly what it held at the beginning followed by the frames whose write
  reported success, in order, less as many entries from the front as quicly released; only
  after the connection was closed one frame more may stand at the end, whose write failed after
  quicly had taken it. Every frame that reported success was offered by a write of the run. The
  account is exact and within the limits; and destroying the stream then leaves the endpoint's
  counters at exactly what the other streams hold, so no byte, frame or vector entry leaks.
\<close>

theorem stream_run_no_leak:
  "limits_ok lim \<Longrightarrow> vec_size \<le> 65536 \<Longrightarrow> \<forall>op \<in> set ops. op_lawful op \<Longrightarrow>
   stream_account vec_size lim (b, f, v) stats ctx \<Longrightarrow>
   fold (stream_step vec_size lim) ops (stream_start stats ctx) = s \<Longrightarrow>
   stream_account vec_size lim (b, f, v) (rn_stats s) (rn_ctx s) \<and>
   (\<exists>extra. length extra \<le> 1 \<and> (\<not> rn_closing s \<longrightarrow> extra = []) \<and>
      rn_released s \<le> length (sb_vecs (sx_egress ctx) @ map Retained (rn_accepted s @ extra)) \<and>
      sb_vecs (sx_egress (rn_ctx s)) =
        drop (rn_released s) (sb_vecs (sx_egress ctx) @ map Retained (rn_accepted s @ extra))) \<and>
   subseq (rn_accepted s) (concat (map op_frames ops)) \<and>
   st_egress_bytes (transport_stream_destroy vec_size (rn_stats s) (rn_ctx s)) = b \<and>
   st_egress_frames (transport_stream_destroy vec_size (rn_stats s) (rn_ctx s)) = f \<and>
   st_egress_vector_capacity (transport_stream_destroy vec_size (rn_stats s) (rn_ctx s)) = v"
  using run_inv_run [OF _ _ _ run_inv_start, of lim vec_size ops "(b, f, v)" stats ctx]
    destroy_ok [of vec_size lim b f v "rn_stats s" "rn_ctx s"]
    accepted_subseq [of "stream_start stats ctx" "[]" vec_size lim ops]
  unfolding run_inv_def by (simp add: stream_start_def)

theorem stream_run_no_leak_witness:
  "let s = fold (stream_step 32 example_limits)
     [Write_op WIRE_UNICAST [1] [2, 3] True append_vec, Shift_op release_one True]
     (stream_start example_stats example_stream) in
   rn_accepted s = [example_frame] \<and> rn_released s = 1 \<and>
   st_egress_bytes (transport_stream_destroy 32 (rn_stats s) (rn_ctx s)) = 0"
proof -
  let ?ops = "[Write_op WIRE_UNICAST [1] [2, 3] True append_vec, Shift_op release_one True]"
  have l: "\<forall>op \<in> set ?ops. op_lawful op" using example_lawful by (simp add: SIZE_MAX_def)
  define s where "s = fold (stream_step 32 example_limits) ?ops (stream_start example_stats example_stream)"
  note p = stream_run_no_leak [OF example_limits_ok _ l example_account s_def [symmetric]]
  define r where "r = transport_stream_write_parts 32 example_limits True False True append_vec example_stats
      example_stream WIRE_UNICAST [1] [2, 3]"
  have w: "wr_ok r" "sx_egress (wr_ctx r) = snd (append_vec (Retained example_frame) (sx_egress example_stream))"
    using example_write by (simp_all add: Let_def r_def)
  obtain stats ctx where sh: "transport_stream_egress_shift 32 release_one True (wr_stats r) (wr_ctx r) = (stats, ctx)"
    by (cases "transport_stream_egress_shift 32 release_one True (wr_stats r) (wr_ctx r)")
  have "s = \<lparr>rn_stats = stats, rn_ctx = ctx, rn_closing = wr_close r, rn_accepted = [example_frame], rn_released = 1\<rparr>"
    using w sh unfolding s_def r_def [symmetric]
    by (simp add: stream_start_def Let_def example_encoded release_one_def append_vec_def flip: r_def)
  then have "rn_accepted s = [example_frame]" "rn_released s = 1" by simp_all
  then show ?thesis using p unfolding s_def [symmetric] Let_def by simp
qed

text \<open>
  The search for a retained frame is exact: on an open stream it finds one precisely when
  the send buffer retains an entry whose bytes are the encoding of that type and payload, wherever it
  stands, and on a stream that is closing it finds none.
\<close>

theorem stream_has_retained_exact:
  "transport_stream_has_retained_frame is_open closing ctx t payload \<longleftrightarrow>
   is_open \<and> \<not> closing \<and> (\<exists>frame. Retained frame \<in> set (sb_vecs (sx_egress ctx)) \<and>
     qlinq_wire_encode_frame (8 + length payload) t payload MAX_STREAM_PAYLOAD = Inr frame)"
  by (rule has_retained_iff)

end
