(* ===== verification/Paths.thy ===== *)
theory Paths
  imports Buckets "HOL-Library.Signed_Division"
begin

text \<open>
  QUIC paths as the scheduler sees them (\<open>transport_paths.c\<close>): the estimate of a path from
  quicly's statistics, the delivery rate measured on it, the pacing budget that limits what is
  queued on it, and the lookups between physical links and QUIC paths.

  Rates and times in fixed point come from the pathflow library. Its number format is an argument
  of the model (\<open>fixed\<close>), a value is the integer that represents it, and \<open>fp_wide_t\<close> is wide
  enough for every product formed here. Pathflow's own update of a path state is an argument too.
  quicly's statistics are data; a failing query is \<open>None\<close>.
\<close>

section \<open>Data\<close>

record fixed =
  fp_one :: int
  fp_safe_whole :: nat
  fp_from_int :: "nat \<Rightarrow> int"
  fp_from_float :: "nat \<Rightarrow> nat \<Rightarrow> int"
  fp_add :: "int \<Rightarrow> int \<Rightarrow> int"
  fp_div :: "int \<Rightarrow> int \<Rightarrow> int"
  fp_max :: int

text \<open>\<open>fp_from_float fp n d\<close> is the constant \<open>FP_FROM_FLOAT\<close> of the literal with value \<open>n / d\<close>.\<close>

datatype sockaddr =
    Sockaddr_in u16 u32
  | Sockaddr_in6 u16 bytes u32
  | Sockaddr_other u16

record path_stats =
  ps_local :: sockaddr
  ps_remote :: sockaddr
  ps_rtt_smoothed :: nat
  ps_cwnd :: nat
  ps_bytes_in_flight :: nat
  ps_sent :: nat
  ps_lost :: nat
  ps_acked :: nat
  ps_bytes_acked :: nat

record path =
  pt_b :: int
  pt_l :: int
  pt_p :: int
  pt_q :: nat
  pt_x :: nat
  pt_m :: nat

record path_state =
  pst_b_ewma :: int
  pst_l_ewma :: int
  pst_p_ewma :: int
  pst_q_ewma :: nat
  pst_initialized :: bool

record path_measurement =
  pm_baseline :: path_stats
  pm_started_ms :: nat
  pm_rate_at_ms :: nat
  pm_quic_path :: nat
  pm_delivered_bytes_per_second :: nat
  pm_probe_rates :: "nat list"
  pm_probe_times :: "nat list"
  pm_probe_cursor :: nat
  pm_minimum_rtt :: nat
  pm_initialized :: bool
  pm_busy :: bool

record path_budget =
  pb_debt :: int
  pb_rate :: int
  pb_at_ns :: nat

abbreviation (input) "MAX_QUIC_PATHS \<equiv> (64 :: nat)"
abbreviation (input) "PATH_BURST_MAX \<equiv> (64 :: nat)"

section \<open>Estimates\<close>

definition ceil_div :: "nat \<Rightarrow> nat \<Rightarrow> nat" where
  "ceil_div n d = n div d + (if n mod d \<noteq> 0 then 1 else 0)"

definition saturating_add :: "fixed \<Rightarrow> nat \<Rightarrow> nat \<Rightarrow> nat" where
  "saturating_add fp q n = (if n > sz_sub (fp_safe_whole fp) q then fp_safe_whole fp else sz_add q n)"

definition estimate_rate :: "fixed \<Rightarrow> path_stats \<Rightarrow> nat \<Rightarrow> int" where
  "estimate_rate fp stats symbol_size =
     (let rate = (int (ps_cwnd stats) * 1000 * fp_one fp) sdiv (int symbol_size * int (ps_rtt_smoothed stats));
          ceiling = fp_from_int fp (fp_safe_whole fp) in
      if rate > ceiling then ceiling else if rate > 0 then rate else 1)"

definition transport_path_estimate ::
  "fixed \<Rightarrow> path_stats option \<Rightarrow> nat \<Rightarrow> nat \<Rightarrow> nat \<Rightarrow> int \<Rightarrow> path" where
  "transport_path_estimate fp stats queued_datagrams egress_bytes symbol_size relative_owd =
     (let b = (case stats of
              Some s \<Rightarrow> if ps_rtt_smoothed s > 0 \<and> ps_cwnd s > 0 \<and> symbol_size > 0
                then estimate_rate fp s symbol_size else fp_from_int fp 100
            | None \<Rightarrow> fp_from_int fp 100);
          l = (case stats of
              Some s \<Rightarrow> if ps_rtt_smoothed s > 0 then fp_from_int fp (ps_rtt_smoothed s) sdiv 2000
                else fp_from_float fp 50 1000
            | None \<Rightarrow> fp_from_float fp 50 1000);
          p = (case stats of
              Some s \<Rightarrow> if ps_sent s > 0
                then (int (if ps_lost s < ps_sent s then ps_lost s else ps_sent s) * fp_one fp) sdiv int (ps_sent s)
                else fp_from_float fp 1 100
            | None \<Rightarrow> fp_from_float fp 1 100);
          l = (if relative_owd > 0 then fp_add fp l relative_owd else l);
          egress_symbols = (if symbol_size = 0 then 0 else ceil_div egress_bytes symbol_size);
          q = (if queued_datagrams > fp_safe_whole fp then fp_safe_whole fp else queued_datagrams) in
      \<lparr>pt_b = b, pt_l = l, pt_p = p, pt_q = saturating_add fp q egress_symbols, pt_x = 0, pt_m = 0\<rparr>)"

text \<open>\<open>update\<close> is \<open>pathflow_update_state\<close>: smoothing of rate, latency, loss and queue with a weight.\<close>

definition transport_path_update_state ::
  "fixed \<Rightarrow> (path_state \<Rightarrow> int \<Rightarrow> int \<Rightarrow> int \<Rightarrow> nat \<Rightarrow> int \<Rightarrow> path_state) \<Rightarrow> path_state \<Rightarrow> path \<Rightarrow> bool \<Rightarrow> path_state" where
  "transport_path_update_state fp update state sample periodic =
     (let state = (if \<not> pst_initialized state \<or> periodic
        then update state (pt_b sample) (pt_l sample) (pt_p sample) (pt_q sample) (fp_from_float fp 1 10) else state) in
      state\<lparr>pst_q_ewma := pt_q sample\<rparr>)"

section \<open>Addresses\<close>

fun sockaddr_endpoint_equal :: "sockaddr \<Rightarrow> sockaddr \<Rightarrow> bool" where
  "sockaddr_endpoint_equal (Sockaddr_in p a) (Sockaddr_in p' a') \<longleftrightarrow> p = p' \<and> a = a'"
| "sockaddr_endpoint_equal (Sockaddr_in6 p a s) (Sockaddr_in6 p' a' s') \<longleftrightarrow> p = p' \<and> s = s' \<and> a = a'"
| "sockaddr_endpoint_equal _ _ \<longleftrightarrow> False"

fun sockaddr_address_equal :: "sockaddr \<Rightarrow> sockaddr \<Rightarrow> bool" where
  "sockaddr_address_equal (Sockaddr_in p a) (Sockaddr_in p' a') \<longleftrightarrow> a = a'"
| "sockaddr_address_equal (Sockaddr_in6 p a s) (Sockaddr_in6 p' a' s') \<longleftrightarrow> s = s' \<and> a = a'"
| "sockaddr_address_equal _ _ \<longleftrightarrow> False"

definition transport_path_matches_local :: "path_stats \<Rightarrow> sockaddr \<Rightarrow> bool" where
  "transport_path_matches_local stats local = sockaddr_address_equal (ps_local stats) local"

text \<open>\<open>query\<close> is \<open>quicly_get_path_stats\<close> on the connection; the loops stop at the first match.\<close>

definition transport_path_find_by_addresses ::
  "(nat \<Rightarrow> path_stats option) \<Rightarrow> sockaddr \<Rightarrow> sockaddr \<Rightarrow> nat option" where
  "transport_path_find_by_addresses query local remote =
     first_index (\<lambda>p. case query p of None \<Rightarrow> False
       | Some stats \<Rightarrow> sockaddr_endpoint_equal (ps_local stats) local \<and> sockaddr_endpoint_equal (ps_remote stats) remote)
       [0..<MAX_QUIC_PATHS]"

definition transport_path_get_stats_by_link ::
  "(nat \<Rightarrow> path_stats option) \<Rightarrow> sockaddr list \<Rightarrow> nat \<Rightarrow> (nat \<times> path_stats) option" where
  "transport_path_get_stats_by_link query local_addrs link_index =
     (if link_index \<ge> length local_addrs then None
      else case first_index (\<lambda>p. case query p of None \<Rightarrow> False
          | Some stats \<Rightarrow> transport_path_matches_local stats (local_addrs ! link_index)) [0..<MAX_QUIC_PATHS] of
        None \<Rightarrow> None
      | Some p \<Rightarrow> map_option (\<lambda>stats. (p, stats)) (query p))"

definition transport_path_find_by_link :: "(nat \<Rightarrow> path_stats option) \<Rightarrow> sockaddr list \<Rightarrow> nat \<Rightarrow> nat option" where
  "transport_path_find_by_link query local_addrs link_index =
     map_option fst (transport_path_get_stats_by_link query local_addrs link_index)"

fun transport_path_select_physical :: "path list \<Rightarrow> nat \<Rightarrow> nat option" where
  "transport_path_select_physical [] packet_index = None"
| "transport_path_select_physical (p # paths) packet_index =
     (if packet_index < pt_x p then Some 0
      else map_option Suc (transport_path_select_physical paths (packet_index - pt_x p)))"

section \<open>Measurement\<close>

definition path_is_busy :: "path_stats \<Rightarrow> nat \<Rightarrow> bool" where
  "path_is_busy stats queued_datagrams =
     (queued_datagrams \<noteq> 0 \<or> (ps_cwnd stats \<noteq> 0 \<and> ps_bytes_in_flight stats \<ge> ps_cwnd stats div 2))"

definition measurement_reset :: "path_measurement \<Rightarrow> path_stats \<Rightarrow> nat \<Rightarrow> nat \<Rightarrow> bool" where
  "measurement_reset m stats quic_path now_ms =
     (\<not> pm_initialized m \<or> pm_quic_path m \<noteq> quic_path \<or> now_ms < pm_started_ms m \<or>
      ps_acked stats < ps_acked (pm_baseline m) \<or> ps_bytes_acked stats < ps_bytes_acked (pm_baseline m) \<or>
      ps_sent stats < ps_sent (pm_baseline m) \<or>
      \<not> sockaddr_endpoint_equal (ps_local stats) (ps_local (pm_baseline m)) \<or>
      \<not> sockaddr_endpoint_equal (ps_remote stats) (ps_remote (pm_baseline m)))"

definition new_measurement :: "path_stats \<Rightarrow> nat \<Rightarrow> bool \<Rightarrow> nat \<Rightarrow> path_measurement" where
  "new_measurement stats quic_path busy now_ms =
     \<lparr>pm_baseline = stats, pm_started_ms = now_ms, pm_rate_at_ms = 0, pm_quic_path = quic_path,
      pm_delivered_bytes_per_second = 0, pm_probe_rates = replicate 4 0, pm_probe_times = replicate 4 0,
      pm_probe_cursor = 0, pm_minimum_rtt = ps_rtt_smoothed stats, pm_initialized = True, pm_busy = busy\<rparr>"

definition window_ms :: "path_stats \<Rightarrow> nat" where
  "window_ms stats = (let w = ps_rtt_smoothed stats * 2; w = (if w < 100 then 100 else w) in
     if w > 1000 then 1000 else w)"

definition transport_path_measure ::
  "path_measurement \<Rightarrow> path_stats \<Rightarrow> nat \<Rightarrow> nat \<Rightarrow> nat \<Rightarrow> bool \<times> path_measurement" where
  "transport_path_measure m stats quic_path queued_datagrams now_ms =
     (let busy = path_is_busy stats queued_datagrams in
      if measurement_reset m stats quic_path now_ms then (True, new_measurement stats quic_path busy now_ms)
      else let m = (if ps_rtt_smoothed stats \<noteq> 0 \<and> (pm_minimum_rtt m = 0 \<or> ps_rtt_smoothed stats < pm_minimum_rtt m)
                then m\<lparr>pm_minimum_rtt := ps_rtt_smoothed stats\<rparr> else m);
               m = m\<lparr>pm_busy := pm_busy m \<and> busy\<rparr>;
               elapsed = now_ms - pm_started_ms m in
        if elapsed < window_ms stats then (False, m)
        else let delivered = ps_bytes_acked stats - ps_bytes_acked (pm_baseline m);
                 rate = delivered * 1000 div elapsed;
                 observed = (if rate > SIZE_MAX then SIZE_MAX else rate);
                 m = m\<lparr>pm_probe_rates := (pm_probe_rates m)[pm_probe_cursor m := observed],
                       pm_probe_times := (pm_probe_times m)[pm_probe_cursor m := now_ms],
                       pm_probe_cursor := (pm_probe_cursor m + 1) mod 4\<rparr>;
                 m = (if pm_busy m \<and> delivered \<noteq> 0
                   then m\<lparr>pm_delivered_bytes_per_second := observed, pm_rate_at_ms := now_ms\<rparr> else m) in
          (False, m\<lparr>pm_baseline := stats, pm_started_ms := now_ms, pm_busy := busy\<rparr>))"

text \<open>The highest observed rate that is still fresh.\<close>

definition probe_peak :: "path_measurement \<Rightarrow> nat \<Rightarrow> nat \<Rightarrow> nat" where
  "probe_peak m lifetime now_ms = fold (\<lambda>i peak.
     if now_ms \<ge> pm_probe_times m ! i \<and> now_ms - pm_probe_times m ! i \<le> lifetime \<and> pm_probe_rates m ! i > peak
     then pm_probe_rates m ! i else peak) [0..<4] 0"

definition transport_path_probe_cap :: "fixed \<Rightarrow> path_measurement \<Rightarrow> path_stats \<Rightarrow> nat \<Rightarrow> nat \<Rightarrow> int" where
  "transport_path_probe_cap fp m stats symbol_size now_ms =
     (let ceiling = fp_from_int fp (fp_safe_whole fp) in
      if \<not> pm_initialized m \<or> symbol_size = 0 \<or> now_ms < pm_started_ms m then ceiling
      else let lifetime = (if ps_rtt_smoothed stats * 8 < 500 then 500 else ps_rtt_smoothed stats * 8);
               peak = probe_peak m lifetime now_ms in
        if peak = 0 then ceiling
        else let slack = (if pm_minimum_rtt m div 8 < 5 then 5 else pm_minimum_rtt m div 8) in
          if \<not> pm_busy m \<or> pm_minimum_rtt m = 0 \<or> ps_rtt_smoothed stats \<le> pm_minimum_rtt m + slack then ceiling
          else let cap = (int peak * fp_one fp) sdiv (int symbol_size + 80) in
            if cap > ceiling then ceiling else if cap > 0 then cap else 1)"

section \<open>Pacing budgets\<close>

definition transport_path_budget_burst :: "fixed \<Rightarrow> int \<Rightarrow> nat" where
  "transport_path_budget_burst fp rate =
     (let symbols = ((if rate > 0 then rate else fp_one fp) + 20 * fp_one fp - 1) sdiv (20 * fp_one fp);
          burst = (if symbols > int SIZE_MAX then SIZE_MAX else nat (symbols mod (int SIZE_MAX + 1)));
          burst = (if burst < 8 then 8 else burst) in
      if burst > PATH_BURST_MAX then PATH_BURST_MAX else burst)"

definition transport_path_budget_update :: "fixed \<Rightarrow> path_budget \<Rightarrow> int \<Rightarrow> nat \<Rightarrow> nat \<times> path_budget" where
  "transport_path_budget_update fp budget rate now_ns =
     (let debt = (if now_ns < pb_at_ns budget then 0 else pb_debt budget);
          drained = (pb_rate budget * int (if now_ns \<ge> pb_at_ns budget then now_ns - pb_at_ns budget else 0))
            sdiv 1000000000;
          debt = (if drained \<ge> debt then 0 else debt - drained) in
      (nat (((debt + fp_one fp - 1) sdiv fp_one fp) mod (int SIZE_MAX + 1)),
       \<lparr>pb_debt = debt, pb_rate = (if rate > 0 then rate else 1), pb_at_ns = now_ns\<rparr>))"

definition transport_path_budget_charge :: "fixed \<Rightarrow> path_budget \<Rightarrow> path_budget" where
  "transport_path_budget_charge fp budget = budget\<lparr>pb_debt := pb_debt budget + fp_one fp\<rparr>"

definition transport_path_budget_wait :: "fixed \<Rightarrow> path_budget \<Rightarrow> nat \<Rightarrow> nat \<Rightarrow> nat" where
  "transport_path_budget_wait fp budget burst symbols =
     (if symbols > burst then SIZE_MAX
      else let required = fp_from_int fp (burst - symbols) in
        if pb_debt budget \<le> required then 0
        else if pb_rate budget \<le> 0 then SIZE_MAX
        else let needed = pb_debt budget - required;
                 ns = (needed * 1000000000 + pb_rate budget - 1) sdiv pb_rate budget in
          if ns > int SIZE_MAX then SIZE_MAX else nat ns)"

section \<open>Budgets drain at their rate\<close>

text \<open>What pathflow's documentation says of its numbers: a fixed point format with a positive unit.\<close>

definition fixed_ok :: "fixed \<Rightarrow> bool" where
  "fixed_ok fp \<longleftrightarrow> 0 < fp_one fp \<and> (\<forall>n. fp_from_int fp n = int n * fp_one fp)"

lemma sdiv_nonneg: "0 \<le> a \<Longrightarrow> 0 < b \<Longrightarrow> a sdiv b = a div b" for a b :: int
  by (simp add: signed_divide_int_def sgn_if)

lemma burst_bounds: "8 \<le> transport_path_budget_burst fp rate \<and> transport_path_budget_burst fp rate \<le> 64"
  by (simp add: transport_path_budget_burst_def Let_def)

lemma burst_exact:
  assumes fp: "fixed_ok fp" and rate: "0 < rate"
  shows "int (transport_path_budget_burst fp rate) = min 64 (max 8 ((rate + 20 * fp_one fp - 1) div (20 * fp_one fp)))"
proof -
  have one: "0 < fp_one fp" using fp by (simp add: fixed_ok_def)
  define q where "q = (rate + 20 * fp_one fp - 1) div (20 * fp_one fp)"
  have s: "(rate + 20 * fp_one fp - 1) sdiv (20 * fp_one fp) = q" using one rate by (simp add: q_def sdiv_nonneg)
  have q: "0 \<le> q" using one rate by (simp add: q_def pos_imp_zdiv_nonneg_iff)
  have m: "\<not> q > int SIZE_MAX \<Longrightarrow> q mod (int SIZE_MAX + 1) = q" using q by (intro mod_pos_pos_trivial) auto
  have big: "q > int SIZE_MAX \<Longrightarrow> 64 < q" by (simp add: SIZE_MAX_def)
  have sm: "\<not> SIZE_MAX < 8" "SIZE_MAX > 64" by (simp_all add: SIZE_MAX_def)
  show ?thesis unfolding q_def [symmetric] transport_path_budget_burst_def Let_def s if_P [OF rate]
    using q m big sm by (auto simp: min_def max_def)
qed

definition drained :: "int \<Rightarrow> nat \<Rightarrow> int" where
  "drained rate ns = rate * int ns div 1000000000"

lemma budget_update_eq:
  assumes "0 \<le> pb_rate b" "pb_at_ns b \<le> now" "0 < rate"
  shows "snd (transport_path_budget_update fp b rate now) =
    \<lparr>pb_debt = max 0 (pb_debt b - drained (pb_rate b) (now - pb_at_ns b)), pb_rate = rate, pb_at_ns = now\<rparr>"
  using assms by (auto simp: transport_path_budget_update_def Let_def drained_def sdiv_nonneg max_def)

lemma le_div_int_iff:
  fixes a b x :: int
  assumes "0 < b"
  shows "x \<le> a div b \<longleftrightarrow> x * b \<le> a"
proof
  assume "x \<le> a div b"
  then have "x * b \<le> a div b * b" using assms by simp
  also have "\<dots> \<le> a" using assms div_mult_mod_eq [of a b] pos_mod_sign [of b a] by linarith
  finally show "x * b \<le> a" .
next
  assume "x * b \<le> a"
  then have "x * b div b \<le> a div b" using assms by (intro zdiv_mono1)
  then show "x \<le> a div b" using assms by simp
qed

lemma ceil_div_int_iff:
  fixes a r :: int and d :: int
  assumes "0 < r"
  shows "(a * c + r - 1) div r \<le> d \<longleftrightarrow> a * c \<le> r * d"
proof -
  have "(a * c + r - 1) div r \<le> d \<longleftrightarrow> \<not> d + 1 \<le> (a * c + r - 1) div r" by linarith
  also have "\<dots> \<longleftrightarrow> a * c + r - 1 < (d + 1) * r" unfolding le_div_int_iff [OF assms] by linarith
  also have "\<dots> \<longleftrightarrow> a * c \<le> r * d" by (auto simp: algebra_simps)
  finally show ?thesis .
qed

text \<open>The wait is exact: the debt meets the requirement after that time and not a nanosecond earlier.\<close>

lemma budget_wait_exact:
  assumes fp: "fixed_ok fp" and b: "0 < pb_rate b" and s: "symbols \<le> burst"
    and w: "transport_path_budget_wait fp b burst symbols = w" "w < SIZE_MAX"
  shows "pb_debt b - drained (pb_rate b) d \<le> int (burst - symbols) * fp_one fp \<longleftrightarrow> w \<le> d"
proof -
  have f: "fp_from_int fp (burst - symbols) = int (burst - symbols) * fp_one fp" using fp by (simp add: fixed_ok_def)
  define req where "req = int (burst - symbols) * fp_one fp"
  have dr: "pb_debt b - drained (pb_rate b) d \<le> req \<longleftrightarrow> (pb_debt b - req) * 1000000000 \<le> pb_rate b * int d"
  proof -
    have "pb_debt b - drained (pb_rate b) d \<le> req \<longleftrightarrow> pb_debt b - req \<le> pb_rate b * int d div 1000000000"
      by (auto simp: drained_def)
    also have "\<dots> \<longleftrightarrow> (pb_debt b - req) * 1000000000 \<le> pb_rate b * int d" by (rule le_div_int_iff) simp
    finally show ?thesis .
  qed
  show ?thesis
  proof (cases "pb_debt b \<le> req")
    case True
    have "w = 0" using w(1) s True by (simp add: transport_path_budget_wait_def f req_def)
    moreover have "(pb_debt b - req) * 1000000000 \<le> pb_rate b * int d"
    proof -
      have "0 \<le> pb_rate b * int d" using b by simp
      moreover have "(pb_debt b - req) * 1000000000 \<le> 0" using True by (simp add: mult_nonpos_nonneg)
      ultimately show ?thesis by linarith
    qed
    ultimately show ?thesis unfolding req_def [symmetric] dr by simp
  next
    case False
    define ns where "ns = ((pb_debt b - req) * 1000000000 + pb_rate b - 1) div pb_rate b"
    have e: "((pb_debt b - req) * 1000000000 + pb_rate b - 1) sdiv pb_rate b = ns"
      unfolding ns_def using False b by (intro sdiv_nonneg) simp_all
    have "transport_path_budget_wait fp b burst symbols = (if ns > int SIZE_MAX then SIZE_MAX else nat ns)"
      using False b s unfolding transport_path_budget_wait_def f Let_def req_def [symmetric] e by simp
    then have wn: "w = nat ns" using w by (auto split: if_splits)
    have "nat ns \<le> d \<longleftrightarrow> ns \<le> int d" by linarith
    also have "\<dots> \<longleftrightarrow> (pb_debt b - req) * 1000000000 \<le> pb_rate b * int d"
      unfolding ns_def by (rule ceil_div_int_iff [OF b])
    finally show ?thesis unfolding req_def [symmetric] dr wn by simp
  qed
qed

section \<open>Admission on a path\<close>

text \<open>
  What the publisher does with one path's budget for an allocation of \<open>symbols\<close>: refresh it,
  admit the whole allocation when no wait is needed, and charge each symbol.
\<close>

definition path_admit :: "fixed \<Rightarrow> int \<Rightarrow> nat \<Rightarrow> path_budget \<Rightarrow> nat \<Rightarrow> bool \<times> path_budget" where
  "path_admit fp rate symbols budget now =
     (let b = snd (transport_path_budget_update fp budget rate now);
          burst = transport_path_budget_burst fp (pb_rate b);
          burst = (if burst < symbols then symbols else burst) in
      if transport_path_budget_wait fp b burst symbols \<noteq> 0 then (False, b)
      else (True, (transport_path_budget_charge fp ^^ symbols) b))"

definition admission_burst :: "fixed \<Rightarrow> int \<Rightarrow> nat \<Rightarrow> nat" where
  "admission_burst fp rate symbols = max (transport_path_budget_burst fp rate) symbols"

definition budget_ok :: "fixed \<Rightarrow> int \<Rightarrow> nat \<Rightarrow> path_budget \<Rightarrow> bool" where
  "budget_ok fp rate symbols b \<longleftrightarrow> fixed_ok fp \<and> 0 < rate \<and> pb_rate b = rate \<and> 0 \<le> pb_debt b \<and>
     pb_debt b \<le> int (admission_burst fp rate symbols) * fp_one fp"

lemma charge_pow: "(transport_path_budget_charge fp ^^ n) b = b\<lparr>pb_debt := pb_debt b + int n * fp_one fp\<rparr>"
  by (induction n arbitrary: b) (simp_all add: transport_path_budget_charge_def algebra_simps)

lemma wait_0_iff:
  assumes "fixed_ok fp" "0 < pb_rate b" "symbols \<le> burst"
  shows "transport_path_budget_wait fp b burst symbols = 0 \<longleftrightarrow> pb_debt b \<le> int (burst - symbols) * fp_one fp"
proof (cases "transport_path_budget_wait fp b burst symbols < SIZE_MAX")
  case True
  then show ?thesis using budget_wait_exact [OF assms refl True, of 0] by (simp add: drained_def)
next
  case False
  have "fp_from_int fp (burst - symbols) = int (burst - symbols) * fp_one fp" using assms by (simp add: fixed_ok_def)
  then have "\<not> pb_debt b \<le> int (burst - symbols) * fp_one fp"
    using False assms(3) unfolding transport_path_budget_wait_def Let_def by (auto simp: SIZE_MAX_def)
  then show ?thesis using False by (simp add: SIZE_MAX_def)
qed

lemma path_admit_step:
  assumes ok: "budget_ok fp rate symbols b" and now: "pb_at_ns b \<le> now"
    and r: "path_admit fp rate symbols b now = (granted, b')"
  shows "budget_ok fp rate symbols b' \<and> pb_at_ns b' = now \<and>
    pb_debt b + (if granted then int symbols * fp_one fp else 0) \<le> pb_debt b' + drained rate (now - pb_at_ns b)"
proof -
  have o: "fixed_ok fp" "0 < rate" "pb_rate b = rate" "0 \<le> pb_debt b" "0 < fp_one fp"
    "pb_debt b \<le> int (admission_burst fp rate symbols) * fp_one fp" using ok by (simp_all add: budget_ok_def fixed_ok_def)
  define d where "d = drained rate (now - pb_at_ns b)"
  have d: "0 \<le> d" using o by (simp add: d_def drained_def pos_imp_zdiv_nonneg_iff)
  define b1 where "b1 = \<lparr>pb_debt = max 0 (pb_debt b - d), pb_rate = rate, pb_at_ns = now\<rparr>"
  have u: "snd (transport_path_budget_update fp b rate now) = b1"
    using budget_update_eq [of b now rate fp] o now by (simp add: b1_def d_def)
  have bu: "(if transport_path_budget_burst fp rate < symbols then symbols else transport_path_budget_burst fp rate) =
    admission_burst fp rate symbols" by (simp add: admission_burst_def)
  have pr: "pb_rate b1 = rate" by (simp add: b1_def)
  have s: "symbols \<le> admission_burst fp rate symbols" by (simp add: admission_burst_def)
  have r': "(if transport_path_budget_wait fp b1 (admission_burst fp rate symbols) symbols \<noteq> 0 then (False, b1)
     else (True, (transport_path_budget_charge fp ^^ symbols) b1)) = (granted, b')"
    using r unfolding path_admit_def Let_def u by (simp only: pr bu)
  note w = wait_0_iff [of fp b1 symbols "admission_burst fp rate symbols", OF o(1) _ s]
  have b1: "pb_debt b \<le> pb_debt b1 + d" "0 \<le> pb_debt b1" "pb_debt b1 \<le> int (admission_burst fp rate symbols) * fp_one fp"
    using o d by (auto simp: b1_def)
  show ?thesis
  proof (cases granted)
    case False
    then have "b' = b1" using r' by (auto split: if_splits)
    then show ?thesis using o b1 False by (simp add: budget_ok_def b1_def d_def)
  next
    case True
    then have e: "b' = b1\<lparr>pb_debt := pb_debt b1 + int symbols * fp_one fp\<rparr>"
      and "transport_path_budget_wait fp b1 (admission_burst fp rate symbols) symbols = 0"
      using r' by (auto simp: charge_pow split: if_splits)
    then have "pb_debt b1 \<le> int (admission_burst fp rate symbols - symbols) * fp_one fp" using w o by (simp add: b1_def)
    also have "\<dots> = int (admission_burst fp rate symbols) * fp_one fp - int symbols * fp_one fp"
      using s by (simp add: of_nat_diff left_diff_distrib)
    finally have le: "pb_debt b' \<le> int (admission_burst fp rate symbols) * fp_one fp" by (simp add: e)
    have "0 \<le> pb_debt b'" using b1 o by (simp add: e)
    then show ?thesis using o b1 True le by (simp add: budget_ok_def e d_def) (simp add: b1_def)
  qed
qed

lemma drained_add: "drained rate a + drained rate b \<le> drained rate (a + b)"
proof -
  have "(drained rate a + drained rate b) * 1000000000 \<le> rate * int (a + b)"
    using div_mult_mod_eq [of "rate * int a" 1000000000] div_mult_mod_eq [of "rate * int b" 1000000000]
      pos_mod_sign [of 1000000000 "rate * int a"] pos_mod_sign [of 1000000000 "rate * int b"]
    by (simp add: drained_def distrib_left)
  then show ?thesis unfolding drained_def by (subst le_div_int_iff) simp_all
qed

interpretation pacing: leaky_bucket "budget_ok fp rate symbols" "\<lambda>b. nat (pb_debt b)" pb_at_ns
    "nat (int symbols * fp_one fp)" "nat (int (admission_burst fp rate symbols) * fp_one fp)"
    "\<lambda>d. nat (drained (max 0 rate) d)" "path_admit fp rate symbols"
  for fp rate symbols
proof unfold_locales
  fix a b
  have "0 \<le> drained (max 0 rate) a" "0 \<le> drained (max 0 rate) b" by (simp_all add: drained_def pos_imp_zdiv_nonneg_iff)
  then show "nat (drained (max 0 rate) a) + nat (drained (max 0 rate) b) \<le> nat (drained (max 0 rate) (a + b))"
    using drained_add [of "max 0 rate" a b] by linarith
next
  fix s assume "budget_ok fp rate symbols s"
  then show "nat (pb_debt s) \<le> nat (int (admission_burst fp rate symbols) * fp_one fp)"
    unfolding budget_ok_def by (intro nat_mono) simp
next
  fix s s' now granted
  assume a: "budget_ok fp rate symbols s" "pb_at_ns s \<le> now" "path_admit fp rate symbols s now = (granted, s')"
  have r: "max 0 rate = rate" "0 < fp_one fp" "0 \<le> pb_debt s" using a(1) by (simp_all add: budget_ok_def fixed_ok_def)
  note st = path_admit_step [OF a]
  have d: "0 \<le> drained rate (now - pb_at_ns s)" using a(1) by (simp add: budget_ok_def drained_def pos_imp_zdiv_nonneg_iff)
  have p: "0 \<le> pb_debt s'" using st by (simp add: budget_ok_def)
  have c: "0 \<le> int symbols * fp_one fp" using r by simp
  show "budget_ok fp rate symbols s' \<and> pb_at_ns s' = now \<and>
    nat (pb_debt s) + (if granted then nat (int symbols * fp_one fp) else 0) \<le>
    nat (pb_debt s') + nat (drained (max 0 rate) (now - pb_at_ns s))"
    unfolding r(1) using st p d c r(3) by (cases granted) (simp_all add: nat_le_eq_zle flip: nat_add_distrib)
qed

section \<open>Which path a symbol takes\<close>

definition symbol_owners :: "path list \<Rightarrow> nat list" where
  "symbol_owners paths = concat (map (\<lambda>i. replicate (pt_x (paths ! i)) i) [0..<length paths])"

lemma symbol_owners_Cons: "symbol_owners (p # paths) = replicate (pt_x p) 0 @ map Suc (symbol_owners paths)"
proof -
  have "[0..<length (p # paths)] = 0 # map Suc [0..<length paths]" by (simp add: map_Suc_upt upt_conv_Cons del: upt_Suc)
  then show ?thesis by (simp add: symbol_owners_def map_concat comp_def del: upt_Suc)
qed

lemma select_physical_owners:
  "transport_path_select_physical paths k =
     (if k < length (symbol_owners paths) then Some (symbol_owners paths ! k) else None)"
proof (induction paths arbitrary: k)
  case Nil
  then show ?case by (simp add: symbol_owners_def)
next
  case (Cons p paths)
  then show ?case by (auto simp: symbol_owners_Cons nth_append)
qed

lemma count_owners: "i < length paths \<Longrightarrow> count_list (symbol_owners paths) i = pt_x (paths ! i)"
proof (induction paths arbitrary: i)
  case (Cons p paths)
  have "count_list (map Suc ks) (Suc j) = count_list ks j" "count_list (map Suc ks) 0 = 0" for ks j
    by (induction ks) auto
  moreover have "count_list (replicate n (0 :: nat)) (Suc j) = 0" "count_list (replicate n (0 :: nat)) 0 = n" for j n
    by (induction n) auto
  ultimately show ?case using Cons by (cases i) (simp_all add: symbol_owners_Cons)
qed simp

lemma length_owners: "length (symbol_owners paths) = sum_list (map pt_x paths)"
  by (induction paths) (simp_all add: symbol_owners_Cons, simp add: symbol_owners_def)

section \<open>Properties\<close>

definition example_fixed :: fixed where
  "example_fixed = \<lparr>fp_one = 65536, fp_safe_whole = 30000, fp_from_int = (\<lambda>n. int n * 65536),
     fp_from_float = (\<lambda>n d. int n * 65536 div int d), fp_add = (+), fp_div = (\<lambda>a b. a * 65536 div b), fp_max = 2147483647\<rparr>"

lemma example_fixed_ok: "fixed_ok example_fixed"
  by (simp add: fixed_ok_def example_fixed_def)

text \<open>
  C36. Pacing of a path. However often the publisher asks, the allocations it gets onto a path of a
  given rate are bounded in every interval: \<open>n\<close> admitted allocations of \<open>symbols\<close> symbols cost at
  most one burst (about 50 ms of work, between 8 and 64 symbols, or one whole allocation when
  that is larger) plus what the rate pays for in the elapsed nanoseconds.
\<close>

theorem path_pacing_bound:
  "fixed_ok fp \<Longrightarrow> 0 < rate \<Longrightarrow> pb_rate b = rate \<Longrightarrow> 0 \<le> pb_debt b \<Longrightarrow>
   pb_debt b \<le> int (max (transport_path_budget_burst fp rate) symbols) * fp_one fp \<Longrightarrow>
   sorted (pb_at_ns b # ts) \<Longrightarrow> bucket_run (path_admit fp rate symbols) b ts = (n, b') \<Longrightarrow>
   int n * (int symbols * fp_one fp) \<le>
     int (max (transport_path_budget_burst fp rate) symbols) * fp_one fp +
     rate * int (pb_at_ns b' - pb_at_ns b) div 1000000000 \<and>
   8 \<le> transport_path_budget_burst fp rate \<and> transport_path_budget_burst fp rate \<le> 64"
proof -
  assume a: "fixed_ok fp" "0 < rate" "pb_rate b = rate" "0 \<le> pb_debt b"
    "pb_debt b \<le> int (max (transport_path_budget_burst fp rate) symbols) * fp_one fp"
    "sorted (pb_at_ns b # ts)" "bucket_run (path_admit fp rate symbols) b ts = (n, b')"
  have ok: "budget_ok fp rate symbols b" using a by (simp add: budget_ok_def admission_burst_def)
  have one: "0 \<le> fp_one fp" using a(1) by (simp add: fixed_ok_def)
  have p: "0 \<le> int symbols * fp_one fp" "0 \<le> int (admission_burst fp rate symbols) * fp_one fp"
    "0 \<le> drained rate (pb_at_ns b' - pb_at_ns b)" using one a(2) by (simp_all add: drained_def pos_imp_zdiv_nonneg_iff)
  have m: "max 0 rate = rate" using a(2) by simp
  have "int (n * nat (int symbols * fp_one fp)) \<le>
    int (nat (int (admission_burst fp rate symbols) * fp_one fp) + nat (drained rate (pb_at_ns b' - pb_at_ns b)))"
    using pacing.granted_bound [OF ok a(6,7)] unfolding m zle_int .
  then show ?thesis using p burst_bounds [of fp rate] by (simp add: admission_burst_def drained_def)
qed

theorem path_pacing_bound_witness:
  "case bucket_run (path_admit example_fixed 65536000 8) \<lparr>pb_debt = 0, pb_rate = 65536000, pb_at_ns = 0\<rparr> [0, 1000000] of
     (n, b') \<Rightarrow> int n * (8 * 65536) \<le> 64 * 65536 + 65536000 * int (pb_at_ns b') div 1000000000"
proof -
  obtain n b' where r: "bucket_run (path_admit example_fixed 65536000 8)
      \<lparr>pb_debt = 0, pb_rate = 65536000, pb_at_ns = 0\<rparr> [0, 1000000] = (n, b')" by (metis surj_pair)
  have one: "fp_one example_fixed = 65536" by (simp add: example_fixed_def)
  have burst: "transport_path_budget_burst example_fixed 65536000 = 50"
    by (simp add: transport_path_budget_burst_def one SIZE_MAX_def Let_def)
  have "int n * (int 8 * 65536) \<le> int (max 50 8) * 65536 + 65536000 * int (pb_at_ns b' - 0) div 1000000000"
    using path_pacing_bound [OF example_fixed_ok _ _ _ _ _ r] one by (simp add: burst)
  then show ?thesis unfolding r by simp
qed

text \<open>
  Waiting makes progress, and no earlier than needed. When the budget answers with a finite wait,
  then refreshed \<open>d\<close> nanoseconds later it admits the same allocation at once exactly if \<open>d\<close> is at
  least that wait (as long as the rate is unchanged).
\<close>

theorem path_wait_exact:
  "fixed_ok fp \<Longrightarrow> 0 < pb_rate b \<Longrightarrow> 0 \<le> pb_debt b \<Longrightarrow> symbols \<le> burst \<Longrightarrow>
   transport_path_budget_wait fp b burst symbols = w \<Longrightarrow> w < SIZE_MAX \<Longrightarrow>
   (transport_path_budget_wait fp (snd (transport_path_budget_update fp b (pb_rate b) (pb_at_ns b + d))) burst symbols = 0
      \<longleftrightarrow> w \<le> d)"
proof -
  assume a: "fixed_ok fp" "0 < pb_rate b" "0 \<le> pb_debt b" "symbols \<le> burst"
    "transport_path_budget_wait fp b burst symbols = w" "w < SIZE_MAX"
  let ?b = "snd (transport_path_budget_update fp b (pb_rate b) (pb_at_ns b + d))"
  have b: "?b = \<lparr>pb_debt = max 0 (pb_debt b - drained (pb_rate b) d), pb_rate = pb_rate b, pb_at_ns = pb_at_ns b + d\<rparr>"
    using budget_update_eq [of b "pb_at_ns b + d" "pb_rate b" fp] a(2) by simp
  have "0 < pb_rate ?b" using a(2) by (simp add: b)
  note z = wait_0_iff [OF a(1) this a(4)]
  have "0 \<le> int (burst - symbols) * fp_one fp" using a(1) by (simp add: fixed_ok_def)
  then show ?thesis unfolding z using budget_wait_exact [OF a(1,2,4,5,6), of d] by (simp add: b)
qed

theorem path_wait_exact_witness:
  "transport_path_budget_wait example_fixed (snd (transport_path_budget_update example_fixed
     \<lparr>pb_debt = 524288, pb_rate = 65536000, pb_at_ns = 5\<rparr> 65536000 1000005)) 8 1 = 0"
proof -
  have w: "transport_path_budget_wait example_fixed \<lparr>pb_debt = 524288, pb_rate = 65536000, pb_at_ns = 5\<rparr> 8 1 = 1000000"
    by (simp add: transport_path_budget_wait_def example_fixed_def SIZE_MAX_def)
  show ?thesis using path_wait_exact [OF example_fixed_ok _ _ _ w, of 1000000] by (simp add: SIZE_MAX_def)
qed

text \<open>
  The loop that assigns symbols to paths is the plain reading of the allocation: the symbols in order
  are the first path's, then the second's, and so on, and a symbol past the allocation has no path.
\<close>

theorem select_physical_is_allocation:
  "transport_path_select_physical paths k =
     (let owners = concat (map (\<lambda>i. replicate (pt_x (paths ! i)) i) [0..<length paths]) in
      if k < length owners then Some (owners ! k) else None)"
  using select_physical_owners [of paths k] by (simp add: symbol_owners_def Let_def)

end
