(* ===== verification/Scheduler.thy ===== *)
theory Scheduler
  imports Paths
begin

text \<open>
  Placement of the symbols of one object on the available paths (\<open>transport_scheduler.c\<close>). The
  optimiser is pathflow's: \<open>optimize\<close> maps the paths, the number of data symbols and the target
  reliability to the allocation, or fails.
\<close>

record schedule =
  sd_paths :: "path list"
  sd_parity_symbols :: nat

abbreviation (input) "MAX_PATHS \<equiv> (4 :: nat)"

definition schedule_inputs :: "fixed \<Rightarrow> path_state list \<Rightarrow> nat \<Rightarrow> path list" where
  "schedule_inputs fp states symbol_size =
     (let defaults = transport_path_estimate fp None 0 0 symbol_size 0 in
      map (\<lambda>s. \<lparr>pt_b = (if pst_b_ewma s > 0 then pst_b_ewma s else pt_b defaults),
                pt_l = (if pst_initialized s then pst_l_ewma s else pt_l defaults),
                pt_p = (if pst_initialized s then pst_p_ewma s else pt_p defaults),
                pt_q = pst_q_ewma s, pt_x = 0, pt_m = 0\<rparr>) states)"

definition add_symbol :: "nat \<Rightarrow> path list \<Rightarrow> path list" where
  "add_symbol i paths = paths[i := (paths ! i)\<lparr>pt_x := pt_x (paths ! i) + 1\<rparr>]"

definition spread_symbols :: "nat \<Rightarrow> path list \<Rightarrow> path list" where
  "spread_symbols data_symbols paths =
     fold (\<lambda>symbol. add_symbol (symbol mod length paths)) [0..<data_symbols] paths"

definition count_parity :: "path list \<Rightarrow> nat" where
  "count_parity paths = sum_list (map (\<lambda>p. if pt_x p > pt_m p then pt_x p - pt_m p else 0) paths)"

definition finish_time :: "fixed \<Rightarrow> path \<Rightarrow> int" where
  "finish_time fp p = fp_add fp (pt_l p)
     (fp_div fp (fp_add fp (fp_from_int fp (pt_q p)) (fp_from_int fp (pt_x p + 1))) (pt_b p))"

text \<open>The path that carries data and finishes one more symbol first.\<close>

fun earliest_step :: "fixed \<Rightarrow> path list \<Rightarrow> nat \<Rightarrow> nat option \<times> int \<Rightarrow> nat option \<times> int" where
  "earliest_step fp paths i (chosen, best) =
     (if pt_m (paths ! i) = 0 then (chosen, best)
      else if chosen = None \<or> finish_time fp (paths ! i) < best then (Some i, finish_time fp (paths ! i))
      else (chosen, best))"

definition earliest_path :: "fixed \<Rightarrow> path list \<Rightarrow> nat option" where
  "earliest_path fp paths = fst (fold (earliest_step fp paths) [0..<length paths] (None, fp_max fp))"

definition transport_schedule_build ::
  "fixed \<Rightarrow> (path list \<Rightarrow> nat \<Rightarrow> nat \<Rightarrow> path list option) \<Rightarrow> path_state list \<Rightarrow> nat \<Rightarrow> nat \<Rightarrow> bool \<Rightarrow> u8 \<Rightarrow> nat \<Rightarrow>
   (schedule \<times> nat) option" where
  "transport_schedule_build fp optimize states data_symbols symbol_size fec_enabled priority round_robin =
     (if states = [] \<or> length states > MAX_PATHS \<or> data_symbols = 0 \<or> symbol_size = 0 then None
      else let paths = schedule_inputs fp states symbol_size in
        if \<not> fec_enabled
        then Some (\<lparr>sd_paths = spread_symbols data_symbols paths, sd_parity_symbols = 0\<rparr>, round_robin)
        else if data_symbols = 1
        then let i = round_robin mod length states in
          Some (\<lparr>sd_paths = paths[i := (paths ! i)\<lparr>pt_x := 1\<rparr>], sd_parity_symbols = 0\<rparr>, sz_add round_robin 1)
        else let target = (if priority = 0 then 85 else if priority = 2 then 99 else 95) in
          case optimize paths data_symbols target of
            None \<Rightarrow> None
          | Some paths \<Rightarrow>
              if count_parity paths \<noteq> 0
              then Some (\<lparr>sd_paths = paths, sd_parity_symbols = count_parity paths\<rparr>, round_robin)
              else case earliest_path fp paths of
                None \<Rightarrow> None
              | Some i \<Rightarrow> Some (\<lparr>sd_paths = add_symbol i paths, sd_parity_symbols = 1\<rparr>, round_robin))"

section \<open>Round robin placement\<close>

abbreviation "total_x paths \<equiv> sum_list (map pt_x paths)"
abbreviation "total_m paths \<equiv> sum_list (map pt_m paths)"

lemma length_add_symbol [simp]: "length (add_symbol i paths) = length paths"
  by (simp add: add_symbol_def)

lemma add_symbol_x:
  "i < length paths \<Longrightarrow> j < length paths \<Longrightarrow>
   pt_x (add_symbol i paths ! j) = pt_x (paths ! j) + (if i = j then 1 else 0)"
  by (simp add: add_symbol_def nth_list_update)

lemma add_symbol_m [simp]: "map pt_m (add_symbol i paths) = map pt_m paths"
  by (cases "i < length paths") (simp add: add_symbol_def map_update list_update_same_conv, simp add: add_symbol_def list_update_beyond)

lemma add_symbol_total: "i < length paths \<Longrightarrow> total_x (add_symbol i paths) = total_x paths + 1"
proof -
  assume i: "i < length paths"
  have "total_x (add_symbol i paths) + pt_x (paths ! i) = total_x paths + (pt_x (paths ! i) + 1)"
    using sum_list_update [of i "map pt_x paths" "pt_x (paths ! i) + 1"] i member_le_sum_list [of "pt_x (paths ! i)" "map pt_x paths"]
    by (simp add: add_symbol_def map_update)
  then show ?thesis by simp
qed

lemma spread_symbols_eq:
  assumes "paths \<noteq> []"
  shows "length (spread_symbols n paths) = length paths \<and> total_x (spread_symbols n paths) = total_x paths + n \<and>
    (\<forall>i < length paths. pt_x (spread_symbols n paths ! i) =
       pt_x (paths ! i) + n div length paths + (if i < n mod length paths then 1 else 0))"
proof (induction n)
  case 0
  then show ?case by (simp add: spread_symbols_def)
next
  case (Suc n)
  let ?p = "spread_symbols n paths"
  have s: "spread_symbols (Suc n) paths = add_symbol (n mod length paths) ?p" by (simp add: spread_symbols_def)
  have l: "0 < length paths" "n mod length paths < length ?p" using assms Suc by simp_all
  have "pt_x (spread_symbols (Suc n) paths ! i) =
       pt_x (paths ! i) + Suc n div length paths + (if i < Suc n mod length paths then 1 else 0)"
    if i: "i < length paths" for i
    using Suc i l unfolding s by (auto simp: add_symbol_x mod_Suc div_Suc)
  then show ?case using Suc l unfolding s by (simp add: add_symbol_total)
qed

section \<open>The earliest path\<close>

lemma earliest_path_fold:
  "fold (earliest_step fp paths) [0..<n] (None, fp_max fp) = (c, b) \<Longrightarrow>
   (case c of None \<Rightarrow> \<forall>i < n. pt_m (paths ! i) = 0
    | Some i \<Rightarrow> i < n \<and> 0 < pt_m (paths ! i) \<and> b = finish_time fp (paths ! i) \<and>
        (\<forall>j < n. 0 < pt_m (paths ! j) \<longrightarrow> finish_time fp (paths ! i) \<le> finish_time fp (paths ! j) \<and>
           (j < i \<longrightarrow> finish_time fp (paths ! i) < finish_time fp (paths ! j))))"
proof (induction n arbitrary: c b)
  case (Suc n)
  obtain c' b' where f: "fold (earliest_step fp paths) [0..<n] (None, fp_max fp) = (c', b')" by (metis surj_pair)
  have r: "earliest_step fp paths n (c', b') = (c, b)" using Suc.prems f by simp
  note ih = Suc.IH [OF f]
  have all: "(\<forall>j < Suc n. P j) \<longleftrightarrow> P n \<and> (\<forall>j < n. P j)" for P by (auto simp: less_Suc_eq)
  show ?case
  proof (cases "pt_m (paths ! n) = 0")
    case True
    then have "c = c'" "b = b'" using r by simp_all
    then show ?thesis using ih True by (simp add: all split: option.splits)
  next
    case m: False
    show ?thesis
    proof (cases "c' = None \<or> finish_time fp (paths ! n) < b'")
      case True
      then have c: "c = Some n" "b = finish_time fp (paths ! n)" using r m by simp_all
      have "0 < pt_m (paths ! j) \<longrightarrow> finish_time fp (paths ! n) < finish_time fp (paths ! j)" if "j < n" for j
      proof (cases c')
        case None
        then show ?thesis using ih that by simp
      next
        case (Some i)
        then have "finish_time fp (paths ! n) < finish_time fp (paths ! i)"
          "0 < pt_m (paths ! j) \<longrightarrow> finish_time fp (paths ! i) \<le> finish_time fp (paths ! j)"
          using True ih that by simp_all
        then show ?thesis by linarith
      qed
      then have "0 < pt_m (paths ! j) \<longrightarrow> finish_time fp (paths ! n) \<le> finish_time fp (paths ! j) \<and>
           (j < n \<longrightarrow> finish_time fp (paths ! n) < finish_time fp (paths ! j))" if "j < n" for j
        using that less_imp_le by blast
      then show ?thesis using m by (simp add: c all)
    next
      case False
      have f: "(c' = None \<or> finish_time fp (paths ! n) < b') = False" using False by simp
      have "c = c'" "b = b'" using r m unfolding earliest_step.simps f by simp_all
      moreover obtain i where i: "c' = Some i" "finish_time fp (paths ! i) \<le> finish_time fp (paths ! n)"
        using False ih by (cases c') auto
      ultimately show ?thesis using ih i by (simp add: all)
    qed
  qed
qed simp

lemma earliest_path_spec:
  "case earliest_path fp paths of
     None \<Rightarrow> \<forall>p \<in> set paths. pt_m p = 0
   | Some i \<Rightarrow> i < length paths \<and> 0 < pt_m (paths ! i) \<and>
       (\<forall>j < length paths. 0 < pt_m (paths ! j) \<longrightarrow> finish_time fp (paths ! i) \<le> finish_time fp (paths ! j) \<and>
          (j < i \<longrightarrow> finish_time fp (paths ! i) < finish_time fp (paths ! j)))"
proof -
  obtain c b where f: "fold (earliest_step fp paths) [0..<length paths] (None, fp_max fp) = (c, b)" by (metis surj_pair)
  have e: "earliest_path fp paths = c" unfolding earliest_path_def f by simp
  note sp = earliest_path_fold [OF f]
  show ?thesis
  proof (cases c)
    case None
    then show ?thesis using sp by (simp add: e all_set_conv_all_nth)
  next
    case (Some i)
    then show ?thesis using sp by (simp add: e all_set_conv_all_nth)
  qed
qed

section \<open>The schedule\<close>

text \<open>What pathflow promises of an allocation: every path keeps its place, data is a part of what is sent.\<close>

definition optimizer_ok :: "(path list \<Rightarrow> nat \<Rightarrow> nat \<Rightarrow> path list option) \<Rightarrow> bool" where
  "optimizer_ok optimize \<longleftrightarrow> (\<forall>paths n t paths'. optimize paths n t = Some paths' \<longrightarrow>
     length paths' = length paths \<and> total_m paths' = n \<and> (\<forall>p \<in> set paths'. pt_m p \<le> pt_x p))"

lemma count_parity_eq: "\<forall>p \<in> set paths. pt_m p \<le> pt_x p \<Longrightarrow> total_x paths = total_m paths + count_parity paths"
  unfolding count_parity_def by (induction paths) (auto simp: add.assoc)

lemma schedule_inputs_facts:
  "length (schedule_inputs fp states size') = length states" "total_x (schedule_inputs fp states size') = 0"
  "i < length states \<Longrightarrow> pt_x (schedule_inputs fp states size' ! i) = 0"
  "map pt_m (schedule_inputs fp states size') = replicate (length states) 0"
  by (simp_all add: schedule_inputs_def Let_def comp_def map_replicate_const sum_list_triv)

lemma single_placed:
  assumes "total_x paths = 0" "i < length paths" "j < length paths"
  shows "pt_x (paths[i := (paths ! i)\<lparr>pt_x := 1\<rparr>] ! j) = (if j = i then 1 else 0)"
  using assms member_le_sum_list [of "pt_x (paths ! j)" "map pt_x paths"] by (auto simp: nth_list_update)

text \<open>Who carries the parity of a coded object of several symbols.\<close>

definition parity_placed :: "fixed \<Rightarrow> path list \<Rightarrow> nat \<Rightarrow> path list \<Rightarrow> bool" where
  "parity_placed fp paths n placed \<longleftrightarrow> (if total_x paths \<noteq> n then placed = paths else
     (\<exists>i < length paths. placed = paths[i := (paths ! i)\<lparr>pt_x := pt_x (paths ! i) + 1\<rparr>] \<and> 0 < pt_m (paths ! i) \<and>
       (\<forall>j < length paths. 0 < pt_m (paths ! j) \<longrightarrow> finish_time fp (paths ! i) \<le> finish_time fp (paths ! j) \<and>
          (j < i \<longrightarrow> finish_time fp (paths ! i) < finish_time fp (paths ! j)))))"

lemma coded_parity:
  assumes opt: "optimizer_ok optimize" and n: "n \<noteq> 1"
    and r: "transport_schedule_build fp optimize states n symbol_size True priority rr = Some (s, rr')"
  shows "\<exists>paths. optimize (schedule_inputs fp states symbol_size) n
       (if priority = 0 then 85 else if priority = 2 then 99 else 95) = Some paths \<and>
     length paths = length states \<and> parity_placed fp paths n (sd_paths s)"
proof -
  let ?t = "if priority = 0 then 85 else if priority = 2 then 99 else 95 :: nat"
  let ?in = "schedule_inputs fp states symbol_size"
  obtain paths where p: "optimize ?in n ?t = Some paths"
    using r n by (auto simp: transport_schedule_build_def Let_def split: if_splits option.splits)
  have o: "length paths = length states" "total_m paths = n" "\<forall>p \<in> set paths. pt_m p \<le> pt_x p"
    using opt p schedule_inputs_facts(1) [where fp = fp and states = states and size' = symbol_size]
    unfolding optimizer_ok_def by metis+
  have cp: "count_parity paths = 0 \<longleftrightarrow> total_x paths = n" using count_parity_eq [OF o(3)] o(2) by simp
  have "parity_placed fp paths n (sd_paths s)"
  proof (cases "count_parity paths = 0")
    case False
    then have "sd_paths s = paths"
      using r n p by (auto simp: transport_schedule_build_def Let_def split: if_splits)
    then show ?thesis using False cp by (simp add: parity_placed_def)
  next
    case True
    then obtain i where i: "earliest_path fp paths = Some i" "sd_paths s = add_symbol i paths"
      using r n p by (auto simp: transport_schedule_build_def Let_def split: if_splits option.splits)
    then show ?thesis
      using True cp earliest_path_spec [where fp = fp and paths = paths] by (auto simp: parity_placed_def add_symbol_def)
  qed
  then show ?thesis using p o(1) by blast
qed

text \<open>The schedule by cases, for the clients of the scheduler.\<close>

lemma schedule_build_facts:
  "optimizer_ok optimize \<Longrightarrow> r = transport_schedule_build fp optimize states n symbol_size fec priority rr \<Longrightarrow>
   (r = None \<longleftrightarrow> states = [] \<or> length states > MAX_PATHS \<or> n = 0 \<or> symbol_size = 0 \<or>
      (fec \<and> n \<noteq> 1 \<and> optimize (schedule_inputs fp states symbol_size) n
         (if priority = 0 then 85 else if priority = 2 then 99 else 95) = None)) \<and>
   (\<forall>s rr'. r = Some (s, rr') \<longrightarrow> length (sd_paths s) = length states \<and>
      total_x (sd_paths s) = n + sd_parity_symbols s \<and>
      (\<not> fec \<longrightarrow> sd_parity_symbols s = 0 \<and> (\<forall>i < length states. pt_x (sd_paths s ! i) =
         n div length states + (if i < n mod length states then 1 else 0))) \<and>
      (fec \<and> n = 1 \<longrightarrow> sd_parity_symbols s = 0 \<and> pt_x (sd_paths s ! (rr mod length states)) = 1 \<and> rr' = sz_add rr 1) \<and>
      (fec \<and> n \<noteq> 1 \<longrightarrow> 0 < sd_parity_symbols s \<and> total_m (sd_paths s) = n \<and> rr' = rr))"
proof -
  assume opt: "optimizer_ok optimize" and r: "r = transport_schedule_build fp optimize states n symbol_size fec priority rr"
  let ?t = "if priority = 0 then 85 else if priority = 2 then 99 else 95 :: nat"
  let ?in = "schedule_inputs fp states symbol_size"
  show ?thesis
  proof (cases "states = [] \<or> length states > MAX_PATHS \<or> n = 0 \<or> symbol_size = 0")
    case True
    then show ?thesis using r by (auto simp: transport_schedule_build_def)
  next
    case bad: False
    note r' = r [unfolded transport_schedule_build_def if_not_P [OF bad] Let_def]
    have ne: "?in \<noteq> []" using bad schedule_inputs_facts(1) [where fp = fp and states = states and size' = symbol_size] by auto
    show ?thesis
    proof (cases "fec \<and> n \<noteq> 1")
      case False
      show ?thesis
      proof (cases fec)
        case True
        define i where "i = rr mod length states"
        have i: "i < length ?in" using bad by (simp add: i_def schedule_inputs_facts)
        have n: "n = 1" using True False by simp
        have r'': "r = Some (\<lparr>sd_paths = ?in[i := (?in ! i)\<lparr>pt_x := 1\<rparr>], sd_parity_symbols = 0\<rparr>, sz_add rr 1)"
          using r' True n by (simp add: i_def)
        have "add_symbol i ?in = ?in[i := (?in ! i)\<lparr>pt_x := 1\<rparr>]"
          using i by (simp add: add_symbol_def schedule_inputs_facts)
        then have "total_x (?in[i := (?in ! i)\<lparr>pt_x := 1\<rparr>]) = 1"
          using add_symbol_total [OF i] schedule_inputs_facts(2) [where fp = fp and states = states and size' = symbol_size] by simp
        then show ?thesis using r'' bad True n i by (simp add: schedule_inputs_facts flip: i_def)
      next
        case False
        have "r = Some (\<lparr>sd_paths = spread_symbols n ?in, sd_parity_symbols = 0\<rparr>, rr)" using r' False by simp
        then show ?thesis using spread_symbols_eq [OF ne, of n] bad False schedule_inputs_facts [where fp = fp and states = states and size' = symbol_size]
          by simp
      qed
    next
      case True
      note r'' = r' [simplified True if_False not_True_eq_False]
      show ?thesis
      proof (cases "optimize ?in n ?t")
        case None
        then show ?thesis using r' True by simp
      next
        case (Some paths)
        have o: "length paths = length states" "total_m paths = n" "\<forall>p \<in> set paths. pt_m p \<le> pt_x p"
          using opt Some schedule_inputs_facts(1) [where fp = fp and states = states and size' = symbol_size] unfolding optimizer_ok_def by metis+
        note cp = count_parity_eq [OF o(3)]
        show ?thesis
        proof (cases "count_parity paths = 0")
          case False
          have "r = Some (\<lparr>sd_paths = paths, sd_parity_symbols = count_parity paths\<rparr>, rr)"
            using r' True Some False by simp
          then show ?thesis using bad Some o cp False True by simp
        next
          case z: True
          have "total_m paths \<noteq> 0" using o(2) bad by simp
          then have "\<not> (\<forall>p \<in> set paths. pt_m p = 0)" by (auto simp: sum_list_eq_0_iff)
          then obtain i where i: "earliest_path fp paths = Some i" "i < length paths"
            using earliest_path_spec [where fp = fp and paths = paths] by (auto split: option.splits)
          have "r = Some (\<lparr>sd_paths = add_symbol i paths, sd_parity_symbols = 1\<rparr>, rr)"
            using r' True Some z i by simp
          then show ?thesis using bad Some o cp z True i by (simp add: add_symbol_total)
        qed
      qed
    qed
  qed
qed

section \<open>Properties\<close>


text \<open>An optimiser for the witness: everything on the first path.\<close>

definition first_path_only :: "path list \<Rightarrow> nat \<Rightarrow> nat \<Rightarrow> path list option" where
  "first_path_only paths n t = (case paths of [] \<Rightarrow> None
     | p # ps \<Rightarrow> Some (p\<lparr>pt_x := n, pt_m := n\<rparr> # map (\<lambda>q. q\<lparr>pt_x := 0, pt_m := 0\<rparr>) ps))"

lemma first_path_only_ok: "optimizer_ok first_path_only"
  by (auto simp: optimizer_ok_def first_path_only_def sum_list_eq_0_iff split: list.splits)


end
