(* ===== verification/Recovery.thy ===== *)
theory Recovery
  imports Subscriptions Assembly
begin

text \<open>
  Recovery of a rateless track at the receiver (\<open>transport_protocol.c\<close>, the part on checkpoints):
  the bounded history of delivered objects, the recovery windows that checkpoints open, the
  cumulative acknowledgements, and the queue of gaps. A window found by a scan is read only, so
  it is passed as a value. The control stream of the connection is a state of any type with three
  operations (\<open>ack_stream\<close>): whether it exists and is open, whether one acknowledgement frame fits,
  and the write of that frame. \<open>None\<close> as the result of a loop would be a run that does not end.
\<close>

abbreviation (input) "RECOVERY_HISTORY_OBJECTS \<equiv> (4096 :: u64)"

section \<open>The history of delivered objects\<close>

definition history_bit :: "object_gap_state \<Rightarrow> u64 \<Rightarrow> bool" where
  "history_bit state distance =
     ((og_delivered_mask state ! unat (distance div 64)) AND (push_bit (unat (distance mod 64)) 1) \<noteq> 0)"

definition object_was_delivered :: "object_gap_state \<Rightarrow> u64 \<Rightarrow> bool" where
  "object_was_delivered state object_id =
     (if \<not> og_delivered_initialized state \<or> object_id > og_largest_delivered state then False
      else let distance = og_largest_delivered state - object_id in
        if distance \<ge> RECOVERY_HISTORY_OBJECTS then True else history_bit state distance)"

definition object_is_recently_delivered :: "object_gap_state \<Rightarrow> u64 \<Rightarrow> bool" where
  "object_is_recently_delivered state object_id =
     (if \<not> og_delivered_initialized state \<or> object_id > og_largest_delivered state then False
      else let distance = og_largest_delivered state - object_id in
        distance < RECOVERY_HISTORY_OBJECTS \<and> history_bit state distance)"

text \<open>The mask shifted up by \<open>distance\<close> positions over its 64 words.\<close>

definition shift_word :: "u64 list \<Rightarrow> nat \<Rightarrow> nat \<Rightarrow> nat \<Rightarrow> u64" where
  "shift_word words word_shift bit_shift dst =
     (if dst < word_shift then 0
      else let src = dst - word_shift;
               w = push_bit bit_shift (words ! src) in
        if bit_shift \<noteq> 0 \<and> src > 0 then w OR drop_bit (64 - bit_shift) (words ! (src - 1)) else w)"

definition shift_history :: "u64 list \<Rightarrow> u64 \<Rightarrow> u64 list" where
  "shift_history words distance =
     (if distance < RECOVERY_HISTORY_OBJECTS
      then map (shift_word words (unat (distance div 64)) (unat (distance mod 64))) [0..<64]
      else replicate 64 0)"

definition mark_object_delivered :: "object_gap_state \<Rightarrow> u64 \<Rightarrow> object_gap_state" where
  "mark_object_delivered state object_id =
     (if \<not> og_delivered_initialized state then
        state\<lparr>og_delivered_initialized := True, og_largest_delivered := object_id,
              og_delivered_mask := (og_delivered_mask state)[0 := 1]\<rparr>
      else if object_id > og_largest_delivered state then
        let shifted = shift_history (og_delivered_mask state) (object_id - og_largest_delivered state) in
        state\<lparr>og_delivered_mask := shifted[0 := shifted ! 0 OR 1], og_largest_delivered := object_id\<rparr>
      else
        let distance = og_largest_delivered state - object_id;
            word = unat (distance div 64) in
        if distance < RECOVERY_HISTORY_OBJECTS
        then state\<lparr>og_delivered_mask := (og_delivered_mask state)
               [word := og_delivered_mask state ! word OR push_bit (unat (distance mod 64)) 1]\<rparr>
        else state)"

section \<open>Gaps\<close>

definition queue_missing_objects ::
  "int \<Rightarrow> object_gap_state \<Rightarrow> u64 \<Rightarrow> u64 \<Rightarrow> u64 \<Rightarrow> bool \<times> object_gap_state" where
  "queue_missing_objects now state group_id first_missing missing_count =
     (if missing_count = 0 then (True, state)
      else if missing_count > 32 then (False, state)
      else let state = (if og_pending_mask state = 0
              then state\<lparr>og_pending_base := first_missing, og_detected_at_ms := now, og_group_id := group_id\<rparr>
              else state) in
        if first_missing < og_pending_base state \<or> first_missing - og_pending_base state \<ge> 32
        then (False, state)
        else let offset = unat (first_missing - og_pending_base state);
                 available = 32 - offset;
                 count = (if unat missing_count < available then unat missing_count else available);
                 bits = (if count = 32 then - 1 else push_bit count 1 - 1 :: u32) in
          (count = unat missing_count,
           state\<lparr>og_pending_mask := og_pending_mask state OR push_bit offset bits\<rparr>))"

section \<open>Windows\<close>

definition find_recovery_window :: "object_gap_state \<Rightarrow> u64 \<Rightarrow> u64 \<Rightarrow> u64 \<Rightarrow> nat option" where
  "find_recovery_window state group_id first_object_id final_object_id =
     first_index (\<lambda>w. rw_active w \<and> rw_group_id w = group_id \<and>
       rw_first_object_id w = first_object_id \<and> rw_final_object_id w = final_object_id)
       (og_recovery_windows state)"

definition earlier :: "recovery_window \<Rightarrow> recovery_window option \<Rightarrow> recovery_window option" where
  "earlier w found = (case found of
       Some f \<Rightarrow> if rw_first_object_id w \<ge> rw_first_object_id f then found else Some w
     | None \<Rightarrow> Some w)"

definition first_window :: "recovery_window list \<Rightarrow> recovery_window option" where
  "first_window ws = fold (\<lambda>w found. if \<not> rw_active w then found else earlier w found) ws None"

definition next_window :: "recovery_window list \<Rightarrow> u64 \<Rightarrow> recovery_window option" where
  "next_window ws final_object_id = fold (\<lambda>w found.
     if \<not> rw_active w \<or> rw_first_object_id w \<le> final_object_id then found else earlier w found) ws None"

text \<open>The end of the completed prefix that starts with a window.\<close>

partial_function (option) completed_prefix :: "recovery_window list \<Rightarrow> u64 \<Rightarrow> u64 \<Rightarrow> u64 option" where
  "completed_prefix ws group_id final_object_id =
     (case next_window ws final_object_id of
        None \<Rightarrow> Some final_object_id
      | Some nxt \<Rightarrow>
          if rw_missing_mask nxt \<noteq> 0 \<or> rw_group_id nxt \<noteq> group_id then Some final_object_id
          else completed_prefix ws group_id (rw_final_object_id nxt))"

declare completed_prefix.simps [code]

definition clear_windows :: "recovery_window list \<Rightarrow> u64 \<Rightarrow> u64 \<Rightarrow> recovery_window list" where
  "clear_windows ws group_id final_object_id = map (\<lambda>w.
     if rw_active w \<and> rw_group_id w = group_id \<and> rw_final_object_id w \<le> final_object_id then zero_window else w) ws"

section \<open>Acknowledgements\<close>

record 's ack_stream =
  as_checkpoints :: bool
  as_open :: "'s \<Rightarrow> bool"
  as_can_accept :: "'s \<Rightarrow> bool"
  as_write :: "'s \<Rightarrow> u8 \<Rightarrow> u64 \<Rightarrow> u64 \<Rightarrow> bool \<times> 's"

record 's recovery_conn =
  rc_gap :: object_gap_state
  rc_memory :: assembler_memory
  rc_pool :: assembler_pool
  rc_stream :: 's
  rc_acks_sent :: nat

definition send_checkpoint_ack ::
  "'s ack_stream \<Rightarrow> 's recovery_conn \<Rightarrow> u8 \<Rightarrow> u64 \<Rightarrow> u64 \<Rightarrow> bool \<times> 's recovery_conn" where
  "send_checkpoint_ack env conn alias_id group_id final_object_id =
     (if \<not> as_checkpoints env \<or> \<not> as_open env (rc_stream conn) then (False, conn)
      else case as_write env (rc_stream conn) alias_id group_id final_object_id of
        (False, s) \<Rightarrow> (False, conn\<lparr>rc_stream := s\<rparr>)
      | (True, s) \<Rightarrow> (True, conn\<lparr>rc_stream := s, rc_acks_sent := sz_add (rc_acks_sent conn) 1\<rparr>))"

definition retire_pending :: "object_gap_state \<Rightarrow> u64 \<Rightarrow> u64 \<Rightarrow> object_gap_state" where
  "retire_pending gap group_id final_object_id =
     (if og_pending_mask gap \<noteq> 0 \<and> og_group_id gap = group_id \<and> og_pending_base gap \<le> final_object_id
      then let distance = final_object_id - og_pending_base gap;
               covered = (if distance \<ge> 31 then - 1 else push_bit (unat distance + 1) 1 - 1 :: u32) in
        gap\<lparr>og_pending_mask := og_pending_mask gap AND NOT covered\<rparr>
      else gap)"

definition retire_assembler ::
  "u8 \<Rightarrow> u64 \<Rightarrow> u64 \<Rightarrow> nat \<Rightarrow> (assembler_memory \<times> assembler_pool) option \<Rightarrow> (assembler_memory \<times> assembler_pool) option" where
  "retire_assembler alias_id group_id final_object_id i st = (case st of
       None \<Rightarrow> None
     | Some (memory, pool) \<Rightarrow>
         let a = ap_assemblers pool ! i in
         if fa_total_symbols a > 0 \<and> fa_track_id a = alias_id \<and> fa_group_id a = group_id \<and>
            fa_object_id a \<le> final_object_id
         then transport_release_assembler memory pool i else st)"

definition retire_recovery_through ::
  "nat \<Rightarrow> 's recovery_conn \<Rightarrow> u8 \<Rightarrow> u64 \<Rightarrow> u64 \<Rightarrow> 's recovery_conn option" where
  "retire_recovery_through max_assemblers conn alias_id group_id final_object_id =
     (case fold (retire_assembler alias_id group_id final_object_id) [0..<max_assemblers]
         (Some (rc_memory conn, rc_pool conn)) of
        None \<Rightarrow> None
      | Some (memory, pool) \<Rightarrow> Some (conn\<lparr>rc_gap := retire_pending (rc_gap conn) group_id final_object_id,
          rc_memory := memory, rc_pool := pool\<rparr>))"

partial_function (option) acknowledge_completed_recovery_windows ::
  "'s ack_stream \<Rightarrow> nat \<Rightarrow> u8 \<Rightarrow> 's recovery_conn \<Rightarrow> (bool \<times> 's recovery_conn) option" where
  "acknowledge_completed_recovery_windows env max_assemblers alias_id conn =
     (case first_window (og_recovery_windows (rc_gap conn)) of
        None \<Rightarrow> Some (True, conn)
      | Some first \<Rightarrow>
          if rw_missing_mask first \<noteq> 0 then Some (True, conn)
          else (case completed_prefix (og_recovery_windows (rc_gap conn)) (rw_group_id first) (rw_final_object_id first) of
            None \<Rightarrow> None
          | Some final_object_id \<Rightarrow>
              if \<not> as_open env (rc_stream conn) then Some (False, conn)
              else if \<not> as_can_accept env (rc_stream conn) then Some (True, conn)
              else (case send_checkpoint_ack env conn alias_id (rw_group_id first) final_object_id of
                (sent, conn1) \<Rightarrow>
                  if \<not> sent then Some (False, conn1)
                  else (case retire_recovery_through max_assemblers conn1 alias_id (rw_group_id first) final_object_id of
                    None \<Rightarrow> None
                  | Some conn2 \<Rightarrow> acknowledge_completed_recovery_windows env max_assemblers alias_id
                      (conn2\<lparr>rc_gap := (rc_gap conn2)\<lparr>og_recovery_windows :=
                         clear_windows (og_recovery_windows (rc_gap conn2)) (rw_group_id first) final_object_id\<rparr>\<rparr>)))))"

declare acknowledge_completed_recovery_windows.simps [code]

section \<open>Checkpoints\<close>

text \<open>The mask of the objects of a new window that were not delivered recently.\<close>

definition missing_objects :: "object_gap_state \<Rightarrow> u64 \<Rightarrow> u64 \<Rightarrow> u32" where
  "missing_objects state first_object_id final_object_id =
     fold (\<lambda>i m. if \<not> object_is_recently_delivered state (first_object_id + of_nat i)
       then m OR push_bit i 1 else m) [0..<unat (final_object_id - first_object_id + 1)] 0"

definition receive_recovery_checkpoint ::
  "'s ack_stream \<Rightarrow> nat \<Rightarrow> int \<Rightarrow> 's recovery_conn \<Rightarrow> u8 \<Rightarrow> u64 \<Rightarrow> u64 \<Rightarrow> u64 \<Rightarrow> bool \<Rightarrow>
   (bool \<times> 's recovery_conn) option" where
  "receive_recovery_checkpoint env max_assemblers now conn alias_id group_id first_object_id final_object_id acknowledge =
     (if first_object_id > final_object_id \<or> final_object_id - first_object_id \<ge> 32 then Some (False, conn)
      else let state = rc_gap conn in
      if find_recovery_window state group_id first_object_id final_object_id \<noteq> None then Some (True, conn)
      else if og_checkpoint_initialized state \<and> final_object_id \<le> og_last_checkpoint_object_id state
      then (if \<not> acknowledge then Some (True, conn)
            else Some (send_checkpoint_ack env conn alias_id group_id final_object_id))
      else if og_checkpoint_initialized state \<and> (og_last_checkpoint_object_id state = - 1 \<or>
        first_object_id \<noteq> og_last_checkpoint_object_id state + 1)
      then Some (False, conn)
      else case first_index (\<lambda>w. \<not> rw_active w) (og_recovery_windows state) of
        None \<Rightarrow> Some (False, conn)
      | Some i \<Rightarrow>
          let missing = missing_objects state first_object_id final_object_id;
              window = \<lparr>rw_active = True, rw_group_id = group_id, rw_first_object_id = first_object_id,
                rw_final_object_id = final_object_id, rw_missing_mask = missing, rw_cursor = 0,
                rw_last_request_ms = now\<rparr>;
              window = (if \<not> acknowledge \<and> missing = 0 then zero_window else window);
              conn = conn\<lparr>rc_gap := state\<lparr>og_checkpoint_initialized := True,
                og_last_checkpoint_object_id := final_object_id,
                og_recovery_windows := (og_recovery_windows state)[i := window]\<rparr>\<rparr> in
          if \<not> acknowledge then Some (True, conn)
          else acknowledge_completed_recovery_windows env max_assemblers alias_id conn)"

definition window_mark :: "u64 \<Rightarrow> u64 \<Rightarrow> recovery_window \<Rightarrow> recovery_window" where
  "window_mark group_id object_id w =
     (if \<not> rw_active w \<or> rw_group_id w \<noteq> group_id \<or> object_id < rw_first_object_id w \<or> object_id > rw_final_object_id w
      then w
      else w\<lparr>rw_missing_mask := rw_missing_mask w AND NOT (push_bit (unat (object_id - rw_first_object_id w)) 1)\<rparr>)"

definition recovery_mark_delivered ::
  "'s ack_stream \<Rightarrow> nat \<Rightarrow> 's recovery_conn \<Rightarrow> u8 \<Rightarrow> u64 \<Rightarrow> u64 \<Rightarrow> 's recovery_conn option" where
  "recovery_mark_delivered env max_assemblers conn alias_id group_id object_id =
     map_option snd (acknowledge_completed_recovery_windows env max_assemblers alias_id
       (conn\<lparr>rc_gap := (rc_gap conn)\<lparr>og_recovery_windows :=
          map (window_mark group_id object_id) (og_recovery_windows (rc_gap conn))\<rparr>\<rparr>))"

text \<open>
  The periodic retry over all rateless tracks of the receive table: \<open>gaps\<close> is \<open>transport_object_gap\<close>,
  and \<open>conn\<close> carries the pool and the stream from one track to the next.
\<close>

definition transport_object_gap :: "subscription_table \<Rightarrow> u8 \<Rightarrow> object_gap_state option" where
  "transport_object_gap table alias_id = map_option ss_object_gap (transport_subscriptions_get_state table alias_id)"

definition put_object_gap :: "subscription_table \<Rightarrow> u8 \<Rightarrow> object_gap_state \<Rightarrow> subscription_table" where
  "put_object_gap table alias_id gap =
     table\<lparr>tb_states := (tb_states table)(alias_id := map_option (\<lambda>s. s\<lparr>ss_object_gap := gap\<rparr>) (tb_states table alias_id))\<rparr>"

definition flush_track ::
  "'s ack_stream \<Rightarrow> nat \<Rightarrow> track_subscription \<Rightarrow> (subscription_table \<times> 's recovery_conn) option \<Rightarrow>
   (subscription_table \<times> 's recovery_conn) option" where
  "flush_track env max_assemblers sub st = (case st of
       None \<Rightarrow> None
     | Some (table, conn) \<Rightarrow>
         if ts_active sub \<and> ti_type (ts_track_id sub) = ucast MOQ_TRACK_DATA \<and> ti_flags (ts_track_id sub) AND MOQ_TRACK_FLAG_FEC_RATELESS \<noteq> 0
         then (case transport_object_gap table (ts_alias sub) of
            None \<Rightarrow> None
          | Some gap \<Rightarrow>
              (case acknowledge_completed_recovery_windows env max_assemblers (ts_alias sub) (conn\<lparr>rc_gap := gap\<rparr>) of
                 None \<Rightarrow> None
               | Some (_, conn') \<Rightarrow> Some (put_object_gap table (ts_alias sub) (rc_gap conn'), conn')))
         else st)"

definition transport_protocol_flush_recovery_acks ::
  "bool \<Rightarrow> 's ack_stream \<Rightarrow> nat \<Rightarrow> subscription_table \<Rightarrow> 's recovery_conn \<Rightarrow>
   (subscription_table \<times> 's recovery_conn) option" where
  "transport_protocol_flush_recovery_acks ready env max_assemblers table conn =
     (if \<not> ready then Some (table, conn)
      else fold (flush_track env max_assemblers) (tb_entries table) (Some (table, conn)))"

section \<open>The history is a set\<close>

definition hist :: "object_gap_state \<Rightarrow> nat \<Rightarrow> bool" where
  "hist g d = bit (og_delivered_mask g ! (d div 64)) (d mod 64)"

lemma unat_div_64: "unat (d div 64 :: u64) = unat d div 64" "unat (d mod 64 :: u64) = unat d mod 64"
  by (simp_all add: unat_div unat_mod)

lemma history_bit_hist: "history_bit g d = hist g (unat d)"
  unfolding history_bit_def hist_def unat_div_64 by (simp only: bit_iff_and_push_bit_not_eq_0)

lemma shift_word_bit:
  assumes "length words = 64" "d < 4096"
  shows "bit (shift_word words (D div 64) (D mod 64) (d div 64)) (d mod 64) \<longleftrightarrow>
    D \<le> d \<and> bit (words ! ((d - D) div 64)) ((d - D) mod 64)"
proof -
  define dst b ws bs where "dst = d div 64" and "b = d mod 64" and "ws = D div 64" and "bs = D mod 64"
  have d: "d = 64 * dst + b" "b < 64" and D: "D = 64 * ws + bs" "bs < 64"
    by (simp_all add: dst_def b_def ws_def bs_def)
  show ?thesis unfolding dst_def [symmetric] b_def [symmetric] ws_def [symmetric] bs_def [symmetric]
  proof (cases "dst < ws")
    case True
    then have "d < D" using d D by linarith
    then show "bit (shift_word words ws bs dst) b \<longleftrightarrow> D \<le> d \<and> bit (words ! ((d - D) div 64)) ((d - D) mod 64)"
      using True by (simp add: shift_word_def)
  next
    case False
    define src where "src = dst - ws"
    have dst: "dst = ws + src" using False by (simp add: src_def)
    have low: "bit (push_bit bs (words ! src)) b \<longleftrightarrow> bs \<le> b \<and> bit (words ! src) (b - bs)"
      using d(2) by (auto simp: bit_simps)
    have high: "bit (drop_bit (64 - bs) (words ! (src - 1))) b \<longleftrightarrow> bit (words ! (src - 1)) (64 - bs + b)"
      by (simp add: bit_drop_bit_eq)
    show "bit (shift_word words ws bs dst) b \<longleftrightarrow> D \<le> d \<and> bit (words ! ((d - D) div 64)) ((d - D) mod 64)"
    proof (cases "bs \<le> b")
      case True
      have e: "d - D = 64 * src + (b - bs)" "D \<le> d" using True d D dst by simp_all
      have "(d - D) div 64 = src" "(d - D) mod 64 = b - bs" unfolding e(1) using d(2) by simp_all
      moreover have "\<not> bit (words ! (src - 1)) (64 - bs + b)" using True D(2) by (auto dest: bit_imp_le_length)
      ultimately show ?thesis using False True e(2) low high
        by (auto simp: shift_word_def Let_def src_def [symmetric] bit_or_iff)
    next
      case b: False
      show ?thesis
      proof (cases "src = 0")
        case True
        then have "\<not> D \<le> d" using b d D dst by linarith
        then show ?thesis using False b True low by (simp add: shift_word_def src_def [symmetric])
      next
        case s: False
        have e: "d - D = 64 * (src - 1) + (64 - bs + b)" "D \<le> d" using b s d D dst by (simp_all add: algebra_simps)
        define m where "m = 64 - bs + b"
        have m: "m < 64" using b D(2) by (simp add: m_def)
        have "(d - D) div 64 = src - 1" "(d - D) mod 64 = 64 - bs + b"
          unfolding e(1) m_def [symmetric] using m by simp_all
        then show ?thesis using False b s e(2) low high D(2)
          by (auto simp: shift_word_def Let_def src_def [symmetric] bit_or_iff)
      qed
    qed
  qed
qed

text \<open>
  \<open>hist_ok g S\<close>: exactly the objects of \<open>S\<close> have been marked as delivered. The mask remembers the
  last 4096 objects up to the largest one.
\<close>

definition hist_ok :: "object_gap_state \<Rightarrow> u64 set \<Rightarrow> bool" where
  "hist_ok g S \<longleftrightarrow> length (og_delivered_mask g) = 64 \<and>
     (if og_delivered_initialized g
      then og_largest_delivered g \<in> S \<and> (\<forall>x \<in> S. x \<le> og_largest_delivered g) \<and>
        (\<forall>d < 4096. d \<le> unat (og_largest_delivered g) \<longrightarrow>
           hist g d = (of_nat (unat (og_largest_delivered g) - d) \<in> S))
      else S = {} \<and> og_delivered_mask g = replicate 64 0)"

lemma of_nat_unat_sub: "of_nat (unat a - d) = (b :: u64) \<longleftrightarrow> unat a - d = unat b" for a :: u64
proof -
  have "unat (of_nat (unat a - d) :: u64) = unat a - d" using unat_less_2p [of a] by (intro unat_of_nat_small) simp
  then show ?thesis by (simp only: word_unat_eq_iff)
qed

lemma hist_set:
  assumes "length (og_delivered_mask g) = 64" "D < 4096" "d < 4096"
  shows "hist (g\<lparr>og_delivered_mask := (og_delivered_mask g)
      [D div 64 := og_delivered_mask g ! (D div 64) OR push_bit (D mod 64) 1]\<rparr>) d \<longleftrightarrow> d = D \<or> hist g d"
proof (cases "d div 64 = D div 64")
  case True
  have "d = D \<longleftrightarrow> d mod 64 = D mod 64" using True by (metis div_mult_mod_eq)
  then show ?thesis using assms True by (auto simp: hist_def bit_simps)
next
  case False
  then show ?thesis using assms by (auto simp: hist_def)
qed

lemma unat_diff_le: "a \<le> b \<Longrightarrow> unat (b - a) = unat b - unat a" for a b :: u64
  by (simp add: unat_sub)

lemma history_lt: "d < RECOVERY_HISTORY_OBJECTS \<longleftrightarrow> unat d < 4096" for d
  by (simp add: word_less_nat_alt)

lemma mark_ok:
  assumes ok: "hist_ok g S"
  shows "hist_ok (mark_object_delivered g x) (insert x S)"
proof (cases "og_delivered_initialized g")
  case False
  have len: "length (og_delivered_mask g) = 64" and S: "S = {}" and z: "og_delivered_mask g = replicate 64 0"
    using ok False by (simp_all add: hist_ok_def)
  let ?g = "mark_object_delivered g x"
  have g: "og_delivered_mask ?g = (replicate 64 0)[0 := 1]" "og_largest_delivered ?g = x" "og_delivered_initialized ?g"
    using False z by (simp_all add: mark_object_delivered_def)
  have "hist ?g d \<longleftrightarrow> d = 0" if "d < 4096" for d
  proof (cases "d div 64 = 0")
    case True
    then show ?thesis by (auto simp: hist_def g bit_1_iff)
  next
    case False
    then show ?thesis using that by (auto simp: hist_def g)
  qed
  moreover have "of_nat (unat x - d) = x \<longleftrightarrow> d = 0" if "d \<le> unat x" for d
    unfolding of_nat_unat_sub using that by linarith
  moreover note g(3)
  ultimately show ?thesis unfolding hist_ok_def g S by simp
next
  case True
  define L where "L = unat (og_largest_delivered g)"
  have len: "length (og_delivered_mask g) = 64" and mem: "og_largest_delivered g \<in> S"
    and top: "\<forall>x \<in> S. x \<le> og_largest_delivered g"
    and h: "\<And>d. d < 4096 \<Longrightarrow> d \<le> L \<Longrightarrow> hist g d = (of_nat (L - d) \<in> S)"
    using ok True by (simp_all add: hist_ok_def L_def)
  show ?thesis
  proof (cases "x > og_largest_delivered g")
    case gt: True
    let ?g = "mark_object_delivered g x"
    define D where "D = unat x - L"
    have D: "unat (x - og_largest_delivered g) = D" "0 < D" "unat x = L + D"
      using gt unat_diff_le [of "og_largest_delivered g" x] by (simp_all add: D_def L_def word_less_nat_alt word_le_nat_alt)
    let ?s = "shift_history (og_delivered_mask g) (x - og_largest_delivered g)"
    have ls: "length ?s = 64" by (simp add: shift_history_def)
    have sh: "bit (?s ! (d div 64)) (d mod 64) \<longleftrightarrow> D < 4096 \<and> D \<le> d \<and> hist g (d - D)" if "d < 4096" for d
    proof (cases "D < 4096")
      case True
      have "?s ! (d div 64) = shift_word (og_delivered_mask g) (D div 64) (D mod 64) (d div 64)"
        using that True D(1) by (simp add: shift_history_def history_lt unat_div_64)
      then show ?thesis using shift_word_bit [OF len that, of D] True by (simp add: hist_def)
    next
      case False
      then show ?thesis using that D(1) by (simp add: shift_history_def history_lt)
    qed
    have g: "og_delivered_mask ?g = ?s[0 := ?s ! 0 OR 1]" "og_largest_delivered ?g = x" "og_delivered_initialized ?g"
      using True gt by (simp_all add: mark_object_delivered_def Let_def)
    have hg: "hist ?g d \<longleftrightarrow> d = 0 \<or> D < 4096 \<and> D \<le> d \<and> hist g (d - D)" if d: "d < 4096" for d
    proof -
      have "hist ?g d \<longleftrightarrow> d = 0 \<or> bit (?s ! (d div 64)) (d mod 64)"
        using hist_set [of "g\<lparr>og_delivered_mask := ?s\<rparr>" 0 d] ls d by (simp add: hist_def g)
      then show ?thesis using sh [OF d] by simp
    qed
    have eqx: "of_nat (unat x - d) = x \<longleftrightarrow> d = 0" if "d \<le> unat x" for d
      unfolding of_nat_unat_sub using that by linarith
    have "hist ?g d = (of_nat (unat x - d) \<in> insert x S)" if d: "d < 4096" "d \<le> unat x" for d
      unfolding insert_iff eqx [OF d(2)]
    proof (cases "d = 0 \<or> \<not> D \<le> d")
      case True
      have "of_nat (unat x - d) \<notin> S" if "0 < d" "\<not> D \<le> d"
      proof
        assume "of_nat (unat x - d) \<in> S"
        then have "of_nat (unat x - d) \<le> og_largest_delivered g" using top by blast
        then have "unat x - d \<le> L"
          using unat_of_nat_small [where 'a = 64, of "unat x - d"] unat_less_2p [of x] by (simp add: L_def word_le_nat_alt)
        then show False using that D by linarith
      qed
      then show "hist ?g d = (d = 0 \<or> of_nat (unat x - d) \<in> S)" using True hg [OF d(1)] by blast
    next
      case False
      have "hist g (d - D) = (of_nat (L - (d - D)) \<in> S)" using h [of "d - D"] d D by simp
      moreover have "L - (d - D) = unat x - d" using False D d by simp
      moreover have "D < 4096" using False d by simp
      ultimately show "hist ?g d = (d = 0 \<or> of_nat (unat x - d) \<in> S)" using False hg [OF d(1)] by auto
    qed
    then show ?thesis using top gt ls by (auto simp: hist_ok_def g)
  next
    case le: False
    then have le': "x \<le> og_largest_delivered g" by simp
    let ?g = "mark_object_delivered g x"
    define D where "D = L - unat x"
    have D: "unat (og_largest_delivered g - x) = D" "unat x = L - D" "D \<le> L"
      using le' unat_diff_le [OF le'] by (simp_all add: D_def L_def word_le_nat_alt)
    have g: "?g = (if D < 4096 then g\<lparr>og_delivered_mask := (og_delivered_mask g)
        [D div 64 := og_delivered_mask g ! (D div 64) OR push_bit (D mod 64) 1]\<rparr> else g)"
      using True le by (simp add: mark_object_delivered_def Let_def history_lt unat_div_64 D(1))
    have "hist ?g d = (of_nat (L - d) \<in> insert x S)" if d: "d < 4096" "d \<le> L" for d
    proof -
      have "of_nat (L - d) = x \<longleftrightarrow> d = D" using of_nat_unat_sub [of "og_largest_delivered g" d x] d D by (auto simp: L_def)
      moreover have "hist ?g d \<longleftrightarrow> d = D \<or> hist g d" using hist_set [OF len _ d(1), of D] d by (auto simp: g)
      ultimately show ?thesis using h [OF d] by auto
    qed
    moreover have "og_largest_delivered ?g = og_largest_delivered g" "og_delivered_initialized ?g"
      "length (og_delivered_mask ?g) = 64" using True len by (simp_all add: g)
    ultimately show ?thesis using mem top le' by (simp add: hist_ok_def L_def)
  qed
qed

lemma hist_query:
  assumes ok: "hist_ok g S"
  shows "object_is_recently_delivered g x \<longleftrightarrow> x \<in> S \<and> (\<forall>y \<in> S. unat y < unat x + 4096)"
    "object_was_delivered g x \<longleftrightarrow> x \<in> S \<or> (\<exists>y \<in> S. unat x + 4096 \<le> unat y)"
proof -
  let ?L = "og_largest_delivered g"
  have "(object_is_recently_delivered g x \<longleftrightarrow> x \<in> S \<and> (\<forall>y \<in> S. unat y < unat x + 4096)) \<and>
    (object_was_delivered g x \<longleftrightarrow> x \<in> S \<or> (\<exists>y \<in> S. unat x + 4096 \<le> unat y))"
  proof (cases "og_delivered_initialized g \<and> x \<le> ?L")
    case False
    then have "x \<notin> S" "\<not> og_delivered_initialized g \<or> (\<forall>y \<in> S. unat y < unat x)" "og_delivered_initialized g \<or> S = {}"
      using ok by (auto simp: hist_ok_def word_less_nat_alt word_le_nat_alt split: if_splits)
    moreover have "\<not> object_is_recently_delivered g x" "\<not> object_was_delivered g x"
      using False by (auto simp: object_is_recently_delivered_def object_was_delivered_def)
    moreover have "\<not> unat x + 4096 \<le> unat y" if "y \<in> S" for y using calculation(2,3) that by fastforce
    ultimately show ?thesis by blast
  next
    case True
    have S: "?L \<in> S" "\<forall>y \<in> S. unat y \<le> unat ?L" using ok True by (auto simp: hist_ok_def word_le_nat_alt)
    define d where "d = unat ?L - unat x"
    have d: "unat (?L - x) = d" "unat ?L = unat x + d" "d \<le> unat ?L" using True unat_diff_le [of x ?L] by (simp_all add: d_def word_le_nat_alt)
    have hd: "d < 4096 \<Longrightarrow> hist g d = (x \<in> S)" using ok True d by (auto simp: hist_ok_def)
    have near: "(\<forall>y \<in> S. unat y < unat x + 4096) \<longleftrightarrow> d < 4096"
    proof
      assume "\<forall>y \<in> S. unat y < unat x + 4096"
      then have "unat ?L < unat x + 4096" using S(1) by blast
      then show "d < 4096" using d(2) by linarith
    next
      assume "d < 4096"
      then show "\<forall>y \<in> S. unat y < unat x + 4096" using S(2) d(2) by (metis add_less_cancel_left le_less_trans)
    qed
    then have far: "(\<exists>y \<in> S. unat x + 4096 \<le> unat y) \<longleftrightarrow> 4096 \<le> d" by (metis not_less)
    have w: "?L - x \<ge> 4096 \<longleftrightarrow> 4096 \<le> d" "?L - x < 4096 \<longleftrightarrow> d < 4096"
      using d(1) by (simp_all add: word_less_nat_alt word_le_nat_alt)
    show ?thesis unfolding far near object_is_recently_delivered_def object_was_delivered_def Let_def history_bit_hist w d(1)
      using True hd by auto
  qed
  then show "object_is_recently_delivered g x \<longleftrightarrow> x \<in> S \<and> (\<forall>y \<in> S. unat y < unat x + 4096)"
    "object_was_delivered g x \<longleftrightarrow> x \<in> S \<or> (\<exists>y \<in> S. unat x + 4096 \<le> unat y)" by blast+
qed

lemma hist_zero: "hist_ok zero_gap {}"
  by (simp add: hist_ok_def zero_gap_def)

lemma hist_fold: "hist_ok g S \<Longrightarrow> hist_ok (foldl mark_object_delivered g xs) (set xs \<union> S)"
proof (induction xs arbitrary: g S)
  case (Cons x xs)
  show ?case using Cons.IH [OF mark_ok [OF Cons.prems, of x]] by simp
qed simp

section \<open>Completed windows\<close>

text \<open>The active windows are proper ranges of object numbers and do not overlap.\<close>

definition windows_ok :: "recovery_window list \<Rightarrow> bool" where
  "windows_ok ws \<longleftrightarrow> (\<forall>w \<in> set ws. rw_active w \<longrightarrow> rw_first_object_id w \<le> rw_final_object_id w) \<and>
     (\<forall>w \<in> set ws. \<forall>v \<in> set ws. rw_active w \<longrightarrow> rw_active v \<longrightarrow>
        w = v \<or> rw_final_object_id w < rw_first_object_id v \<or> rw_final_object_id v < rw_first_object_id w)"

lemma earliest_fold:
  "fold (\<lambda>w found. if P w then found else earlier w found) ws acc = r \<Longrightarrow>
   (case r of
      None \<Rightarrow> acc = None \<and> (\<forall>w \<in> set ws. P w)
    | Some f \<Rightarrow> (acc = Some f \<or> (f \<in> set ws \<and> \<not> P f)) \<and>
        (\<forall>w \<in> set ws. \<not> P w \<longrightarrow> rw_first_object_id f \<le> rw_first_object_id w) \<and>
        (case acc of None \<Rightarrow> True | Some a \<Rightarrow> rw_first_object_id f \<le> rw_first_object_id a))"
proof (induction ws arbitrary: acc)
  case Nil
  then show ?case by (auto split: option.split)
next
  case (Cons w ws)
  show ?case
  proof (cases "P w")
    case True
    then have r: "fold (\<lambda>w found. if P w then found else earlier w found) ws acc = r" using Cons.prems by simp
    show ?thesis using Cons.IH [OF r] True by (cases r) (simp_all, blast)
  next
    case False
    have r: "fold (\<lambda>w found. if P w then found else earlier w found) ws (earlier w acc) = r" using Cons.prems False by simp
    obtain e where e: "earlier w acc = Some e" "e = w \<or> acc = Some e" "rw_first_object_id e \<le> rw_first_object_id w"
      "case acc of None \<Rightarrow> True | Some a \<Rightarrow> rw_first_object_id e \<le> rw_first_object_id a"
    proof (cases acc)
      case None
      show thesis by (rule that [of w]) (simp_all add: None earlier_def)
    next
      case (Some a)
      show thesis
      proof (cases "rw_first_object_id w \<ge> rw_first_object_id a")
        case True
        show thesis by (rule that [of a]) (use True in \<open>simp_all add: Some earlier_def\<close>)
      next
        case False
        show thesis by (rule that [of w]) (use False in \<open>simp_all add: Some earlier_def\<close>)
      qed
    qed
    obtain f where f: "r = Some f" "e = f \<or> (f \<in> set ws \<and> \<not> P f)" "rw_first_object_id f \<le> rw_first_object_id e"
      "\<forall>w \<in> set ws. \<not> P w \<longrightarrow> rw_first_object_id f \<le> rw_first_object_id w"
      using Cons.IH [OF r] e(1) by (cases r) simp_all
    have "acc = Some f \<or> (f \<in> set (w # ws) \<and> \<not> P f)" using e(2) f(2) False by auto
    moreover have "rw_first_object_id f \<le> rw_first_object_id v" if "v \<in> set (w # ws)" "\<not> P v" for v
    proof (cases "v = w")
      case True
      then show ?thesis using e(3) f(3) by (metis order_trans)
    next
      case False
      then show ?thesis using f(4) that by simp
    qed
    moreover have "case acc of None \<Rightarrow> True | Some a \<Rightarrow> rw_first_object_id f \<le> rw_first_object_id a"
      using e(4) f(3) by (cases acc) (simp, metis option.simps(5) order_trans)
    ultimately show ?thesis unfolding f(1) option.case by blast
  qed
qed

lemma first_window_spec:
  "first_window ws = None \<longleftrightarrow> (\<forall>w \<in> set ws. \<not> rw_active w)"
  "first_window ws = Some f \<Longrightarrow> f \<in> set ws \<and> rw_active f \<and>
     (\<forall>w \<in> set ws. rw_active w \<longrightarrow> rw_first_object_id f \<le> rw_first_object_id w)"
  using earliest_fold [of "\<lambda>w. \<not> rw_active w" ws None, OF refl]
  by (auto simp: first_window_def split: option.splits)

lemma next_window_spec:
  "next_window ws l = None \<longleftrightarrow> (\<forall>w \<in> set ws. rw_active w \<longrightarrow> rw_first_object_id w \<le> l)"
  "next_window ws l = Some f \<Longrightarrow> f \<in> set ws \<and> rw_active f \<and> l < rw_first_object_id f \<and>
     (\<forall>w \<in> set ws. rw_active w \<longrightarrow> l < rw_first_object_id w \<longrightarrow> rw_first_object_id f \<le> rw_first_object_id w)"
  using earliest_fold [of "\<lambda>w. \<not> rw_active w \<or> rw_first_object_id w \<le> l" ws None, OF refl]
  by (auto simp: next_window_def not_le split: option.splits)

text \<open>Everything up to an object number is complete.\<close>

definition complete_through :: "recovery_window list \<Rightarrow> u64 \<Rightarrow> bool" where
  "complete_through ws l \<longleftrightarrow>
     (\<forall>w \<in> set ws. rw_active w \<longrightarrow> rw_first_object_id w \<le> l \<longrightarrow> rw_missing_mask w = 0)"

definition window_end :: "recovery_window list \<Rightarrow> u64 \<Rightarrow> u64 \<Rightarrow> bool" where
  "window_end ws g l \<longleftrightarrow> (\<exists>w \<in> set ws. rw_active w \<and> rw_group_id w = g \<and> rw_final_object_id w = l)"

lemma complete_extend:
  assumes ok: "windows_ok ws" and c: "complete_through ws l" and n: "n \<in> set ws" "rw_active n" "rw_missing_mask n = 0"
    and least: "\<forall>w \<in> set ws. rw_active w \<longrightarrow> l < rw_first_object_id w \<longrightarrow> rw_first_object_id n \<le> rw_first_object_id w"
  shows "complete_through ws (rw_final_object_id n)"
proof -
  have "rw_missing_mask w = 0" if w: "w \<in> set ws" "rw_active w" "rw_first_object_id w \<le> rw_final_object_id n" for w
  proof (cases "rw_first_object_id w \<le> l")
    case True
    then show ?thesis using c w by (simp add: complete_through_def)
  next
    case False
    then have "rw_first_object_id n \<le> rw_first_object_id w" using least w by simp
    moreover have "rw_first_object_id w \<le> rw_final_object_id w" using ok w by (simp add: windows_ok_def)
    ultimately have "w = n" using ok w n unfolding windows_ok_def
      by (metis leD order_trans)
    then show ?thesis using n by simp
  qed
  then show ?thesis by (simp add: complete_through_def)
qed

lemma completed_prefix_ok:
  assumes ok: "windows_ok ws"
  shows "complete_through ws l \<Longrightarrow> window_end ws g l \<Longrightarrow>
    \<exists>f. completed_prefix ws g l = Some f \<and> l \<le> f \<and> complete_through ws f \<and> window_end ws g f"
proof (induction "2 ^ 64 - unat l" arbitrary: l rule: less_induct)
  case less
  show ?case
  proof (cases "next_window ws l")
    case None
    then show ?thesis using less.prems by (simp add: completed_prefix.simps [of ws g l])
  next
    case (Some n)
    note n = next_window_spec(2) [OF Some]
    show ?thesis
    proof (cases "rw_missing_mask n \<noteq> 0 \<or> rw_group_id n \<noteq> g")
      case True
      then show ?thesis using less.prems Some by (simp add: completed_prefix.simps [of ws g l])
    next
      case False
      have r: "completed_prefix ws g l = completed_prefix ws g (rw_final_object_id n)"
        using False Some by (simp add: completed_prefix.simps [of ws g l])
      have "rw_first_object_id n \<le> rw_final_object_id n" using ok n by (simp add: windows_ok_def)
      then have lt: "l < rw_final_object_id n" using n by (metis less_le_trans)
      have "unat l < unat (rw_final_object_id n)" using lt by (simp add: word_less_nat_alt)
      moreover have "unat (rw_final_object_id n) < 2 ^ 64" using unat_less_2p [of "rw_final_object_id n"] by simp
      ultimately have m: "2 ^ 64 - unat (rw_final_object_id n) < 2 ^ 64 - unat l" by linarith
      have "complete_through ws (rw_final_object_id n)"
        using complete_extend [OF ok less.prems(1)] n False by blast
      moreover have "window_end ws g (rw_final_object_id n)" using n False by (auto simp: window_end_def)
      ultimately obtain f where "completed_prefix ws g (rw_final_object_id n) = Some f" "rw_final_object_id n \<le> f"
        "complete_through ws f" "window_end ws g f" using less.hyps [OF m] by blast
      then show ?thesis using r lt by (metis less_imp_le order_trans)
    qed
  qed
qed

text \<open>What one acknowledgement run does to the windows: some complete prefixes are gone.\<close>

definition windows_retired :: "recovery_window list \<Rightarrow> recovery_window list \<Rightarrow> bool" where
  "windows_retired ws ws' \<longleftrightarrow> list_all2 (\<lambda>w w'. w' = w \<or>
     (w' = zero_window \<and> rw_active w \<and> complete_through ws (rw_final_object_id w))) ws ws'"

lemma retired_refl [simp]: "windows_retired ws ws"
  by (simp add: windows_retired_def list.rel_refl)

lemma not_active_zero [simp]: "\<not> rw_active zero_window"
  by (simp add: zero_window_def)

lemma retired_active:
  assumes "windows_retired ws ws'" "w \<in> set ws'" "rw_active w"
  shows "w \<in> set ws"
proof -
  obtain i where i: "i < length ws'" "w = ws' ! i" using assms(2) by (auto simp: in_set_conv_nth)
  then have "i < length ws" "ws' ! i = ws ! i" using assms(1,3) by (auto simp: windows_retired_def list_all2_conv_all_nth)
  then show ?thesis using i by simp
qed

lemma retired_end:
  assumes "windows_retired ws ws'" "window_end ws' g l"
  shows "window_end ws g l"
proof -
  obtain w where w: "w \<in> set ws'" "rw_active w" "rw_group_id w = g" "rw_final_object_id w = l"
    using assms(2) by (auto simp: window_end_def)
  then have "w \<in> set ws" using retired_active [OF assms(1)] by simp
  then show ?thesis using w by (auto simp: window_end_def)
qed

lemma retired_ok:
  assumes "windows_retired ws ws'" "windows_ok ws"
  shows "windows_ok ws'"
  using assms(2) retired_active [OF assms(1)] unfolding windows_ok_def by blast

lemma retired_complete:
  assumes r: "windows_retired ws ws'" and c: "complete_through ws' l" and ok: "windows_ok ws"
  shows "complete_through ws l"
  unfolding complete_through_def
proof (intro ballI impI)
  fix w assume w: "w \<in> set ws" "rw_active w" "rw_first_object_id w \<le> l"
  obtain i where i: "i < length ws" "w = ws ! i" using w(1) by (auto simp: in_set_conv_nth)
  then have c': "ws' ! i = w \<or> complete_through ws (rw_final_object_id w)" and l: "i < length ws'"
    using r by (auto simp: windows_retired_def list_all2_conv_all_nth)
  have le: "rw_first_object_id w \<le> rw_final_object_id w" using ok w by (simp add: windows_ok_def)
  from c' show "rw_missing_mask w = 0"
  proof
    assume "ws' ! i = w"
    then show ?thesis using c l w by (metis complete_through_def nth_mem)
  next
    assume "complete_through ws (rw_final_object_id w)"
    then show ?thesis using w le by (simp add: complete_through_def)
  qed
qed

lemma retired_trans:
  assumes a: "windows_retired ws ws1" and b: "windows_retired ws1 ws2" and ok: "windows_ok ws"
  shows "windows_retired ws ws2"
proof -
  have l: "length ws1 = length ws" "length ws2 = length ws" using list_all2_lengthD [OF a [unfolded windows_retired_def]]
      list_all2_lengthD [OF b [unfolded windows_retired_def]] by simp_all
  have "ws2 ! i = ws ! i \<or> (ws2 ! i = zero_window \<and> rw_active (ws ! i) \<and> complete_through ws (rw_final_object_id (ws ! i)))"
    if "i < length ws" for i
  proof -
    have x: "ws1 ! i = ws ! i \<or> (ws1 ! i = zero_window \<and> rw_active (ws ! i) \<and> complete_through ws (rw_final_object_id (ws ! i)))"
      using list_all2_nthD [OF a [unfolded windows_retired_def] that] .
    have i1: "i < length ws1" using that l by simp
    have y: "ws2 ! i = ws1 ! i \<or> (ws2 ! i = zero_window \<and> rw_active (ws1 ! i) \<and> complete_through ws1 (rw_final_object_id (ws1 ! i)))"
      using list_all2_nthD [OF b [unfolded windows_retired_def] i1] .
    from y show ?thesis
    proof
      assume "ws2 ! i = ws1 ! i"
      then show ?thesis using x by simp
    next
      assume z: "ws2 ! i = zero_window \<and> rw_active (ws1 ! i) \<and> complete_through ws1 (rw_final_object_id (ws1 ! i))"
      then have "ws1 ! i = ws ! i" using x by auto
      then show ?thesis using z retired_complete [OF a _ ok] by simp
    qed
  qed
  then show ?thesis unfolding windows_retired_def using l by (intro list_all2_all_nthI) simp_all
qed

lemma clear_windows_retired:
  assumes "windows_ok ws" "complete_through ws l"
  shows "windows_retired ws (clear_windows ws g l)"
proof -
  have "complete_through ws (rw_final_object_id w)" if "rw_final_object_id w \<le> l" for w
    using assms(2) that by (auto simp: complete_through_def)
  then show ?thesis unfolding windows_retired_def clear_windows_def list.rel_map by (intro list.rel_refl) auto
qed

lemma clear_windows_fewer:
  assumes "window_end ws g l"
  shows "length (filter rw_active (clear_windows ws g l)) < length (filter rw_active ws)"
proof -
  have le: "length (filter rw_active (clear_windows vs g l)) \<le> length (filter rw_active vs)" for vs
    by (induction vs) (auto simp: clear_windows_def)
  obtain w where w: "w \<in> set ws" "rw_active w" "rw_group_id w = g" "rw_final_object_id w = l"
    using assms by (auto simp: window_end_def)
  then obtain as bs where s: "ws = as @ w # bs" by (meson split_list)
  have "clear_windows ws g l = clear_windows as g l @ zero_window # clear_windows bs g l"
    using w by (simp add: s clear_windows_def)
  then show ?thesis using le [of as] le [of bs] w by (simp add: s)
qed

section \<open>Acknowledging\<close>

text \<open>The stream with a record of the acknowledgements written to it.\<close>

definition logged :: "'s ack_stream \<Rightarrow> ('s \<times> (u64 \<times> u64) list) ack_stream" where
  "logged env = \<lparr>as_checkpoints = as_checkpoints env, as_open = (\<lambda>(s, acks). as_open env s),
     as_can_accept = (\<lambda>(s, acks). as_can_accept env s),
     as_write = (\<lambda>(s, acks) alias_id g l. case as_write env s alias_id g l of
        (ok, s') \<Rightarrow> (ok, (s', if ok then acks @ [(g, l)] else acks)))\<rparr>"

lemma send_logged:
  "send_checkpoint_ack (logged env) conn alias_id g l = (ok, conn') \<Longrightarrow>
   rc_gap conn' = rc_gap conn \<and> rc_memory conn' = rc_memory conn \<and> rc_pool conn' = rc_pool conn \<and>
   snd (rc_stream conn') = snd (rc_stream conn) @ (if ok then [(g, l)] else [])"
  by (cases "rc_stream conn")
    (auto simp: send_checkpoint_ack_def logged_def split: prod.splits bool.splits if_splits)

definition pool_account :: "nat \<Rightarrow> 's recovery_conn \<Rightarrow> bool" where
  "pool_account others conn \<longleftrightarrow> pool_ok (rc_pool conn) \<and>
     am_bytes (rc_memory conn) = others + slots_bytes (rc_pool conn)"

lemma retire_pending_same [simp]:
  "og_recovery_windows (retire_pending g a b) = og_recovery_windows g"
  "og_delivered_mask (retire_pending g a b) = og_delivered_mask g"
  "og_delivered_initialized (retire_pending g a b) = og_delivered_initialized g"
  "og_largest_delivered (retire_pending g a b) = og_largest_delivered g"
  "og_checkpoint_initialized (retire_pending g a b) = og_checkpoint_initialized g"
  "og_last_checkpoint_object_id (retire_pending g a b) = og_last_checkpoint_object_id g"
  by (simp_all add: retire_pending_def Let_def)

lemma retire_fold_ok:
  "\<forall>i \<in> set is. i < HARD_MAX_ASSEMBLERS \<Longrightarrow> pool_ok p \<Longrightarrow> am_bytes m = others + slots_bytes p \<Longrightarrow>
   \<exists>m' p'. fold (retire_assembler a g l) is (Some (m, p)) = Some (m', p') \<and> pool_ok p' \<and>
     am_bytes m' = others + slots_bytes p'"
proof (induction "is" arbitrary: m p)
  case (Cons i "is")
  note [simp] = retire_assembler_def
  show ?case
  proof (cases "let a' = ap_assemblers p ! i in fa_total_symbols a' > 0 \<and> fa_track_id a' = a \<and> fa_group_id a' = g \<and>
            fa_object_id a' \<le> l")
    case True
    obtain m1 p1 where r: "transport_release_assembler m p i = Some (m1, p1)" "pool_ok p1" "am_bytes m1 = others + slots_bytes p1"
      using release_ok [OF Cons.prems(2) _ Cons.prems(3), of i] Cons.prems(1) by auto
    have "retire_assembler a g l i (Some (m, p)) = Some (m1, p1)" using True r(1) by (simp add: Let_def)
    then show ?thesis using Cons.IH [of p1 m1] Cons.prems(1) r(2,3) by simp
  next
    case False
    have "retire_assembler a g l i (Some (m, p)) = Some (m, p)" using False by (auto simp: Let_def)
    then show ?thesis using Cons.IH [of p m] Cons.prems by simp
  qed
qed simp

lemma retire_through_ok:
  assumes "pool_account others conn" "max_assemblers \<le> HARD_MAX_ASSEMBLERS"
  obtains conn' where "retire_recovery_through max_assemblers conn a g l = Some conn'"
    "rc_gap conn' = retire_pending (rc_gap conn) g l" "rc_stream conn' = rc_stream conn" "pool_account others conn'"
proof -
  obtain m' p' where f: "fold (retire_assembler a g l) [0..<max_assemblers] (Some (rc_memory conn, rc_pool conn)) = Some (m', p')"
    "pool_ok p'" "am_bytes m' = others + slots_bytes p'"
    using retire_fold_ok [of "[0..<max_assemblers]" "rc_pool conn" "rc_memory conn" others a g l] assms
    by (auto simp: pool_account_def)
  show thesis
    by (rule that [of "conn\<lparr>rc_gap := retire_pending (rc_gap conn) g l, rc_memory := m', rc_pool := p'\<rparr>"])
      (use f in \<open>simp_all add: retire_recovery_through_def pool_account_def\<close>)
qed

text \<open>The parts of the gap state that an acknowledgement run leaves alone.\<close>

definition same_history :: "object_gap_state \<Rightarrow> object_gap_state \<Rightarrow> bool" where
  "same_history g g' \<longleftrightarrow> og_delivered_mask g' = og_delivered_mask g \<and>
     og_delivered_initialized g' = og_delivered_initialized g \<and> og_largest_delivered g' = og_largest_delivered g \<and>
     og_checkpoint_initialized g' = og_checkpoint_initialized g \<and>
     og_last_checkpoint_object_id g' = og_last_checkpoint_object_id g"

text \<open>
  An acknowledgement run ends; it retires only complete prefixes of the windows, and each
  acknowledgement it writes names the end of a window up to which everything is complete. It
  stops at an incomplete window, unless the stream does not take the frame.
\<close>

definition ack_result :: "'s ack_stream \<Rightarrow> nat \<Rightarrow> ('s \<times> (u64 \<times> u64) list) recovery_conn \<Rightarrow> bool \<Rightarrow>
    ('s \<times> (u64 \<times> u64) list) recovery_conn \<Rightarrow> bool" where
  "ack_result env others conn ok conn' \<longleftrightarrow>
     (let ws = og_recovery_windows (rc_gap conn); ws' = og_recovery_windows (rc_gap conn') in
      same_history (rc_gap conn) (rc_gap conn') \<and> pool_account others conn' \<and> windows_retired ws ws' \<and>
      (\<exists>acks. snd (rc_stream conn') = snd (rc_stream conn) @ acks \<and>
         (\<forall>(g, l) \<in> set acks. complete_through ws l \<and> window_end ws g l)) \<and>
      (ok \<and> as_can_accept env (fst (rc_stream conn')) \<longrightarrow>
         (\<forall>w. first_window ws' = Some w \<longrightarrow> rw_missing_mask w \<noteq> 0)))"

lemma first_complete:
  assumes ok: "windows_ok ws" and f: "first_window ws = Some w" and z: "rw_missing_mask w = 0"
  shows "complete_through ws (rw_final_object_id w)"
  unfolding complete_through_def
proof (intro ballI impI)
  note w = first_window_spec(2) [OF f]
  fix v assume v: "v \<in> set ws" "rw_active v" "rw_first_object_id v \<le> rw_final_object_id w"
  have "rw_first_object_id w \<le> rw_first_object_id v" using w v by blast
  moreover have "rw_first_object_id v \<le> rw_final_object_id v" using ok v by (simp add: windows_ok_def)
  ultimately have "\<not> rw_final_object_id w < rw_first_object_id v" "\<not> rw_final_object_id v < rw_first_object_id w"
    using v(3) by (auto dest: order_trans leD)
  then have "w = v" using ok w v unfolding windows_ok_def by blast
  then show "rw_missing_mask v = 0" using z by simp
qed

lemma acknowledge_ok:
  assumes max: "max_assemblers \<le> HARD_MAX_ASSEMBLERS"
  shows "windows_ok (og_recovery_windows (rc_gap conn)) \<Longrightarrow> pool_account others conn \<Longrightarrow>
    \<exists>ok conn'. acknowledge_completed_recovery_windows (logged env) max_assemblers a conn = Some (ok, conn') \<and>
      ack_result env others conn ok conn'"
proof (induction "length (filter rw_active (og_recovery_windows (rc_gap conn)))" arbitrary: conn rule: less_induct)
  case less
  let ?ws = "og_recovery_windows (rc_gap conn)"
  note simps = acknowledge_completed_recovery_windows.simps [of "logged env" max_assemblers a conn]
  have opn: "as_open (logged env) s \<longleftrightarrow> as_open env (fst s)" "as_can_accept (logged env) s \<longleftrightarrow> as_can_accept env (fst s)" for s
    by (cases s; simp add: logged_def)+
  have stay: "ack_result env others conn ok conn"
    if "\<And>w. ok \<Longrightarrow> as_can_accept env (fst (rc_stream conn)) \<Longrightarrow> first_window ?ws = Some w \<Longrightarrow> rw_missing_mask w \<noteq> 0" for ok
    using less.prems(2) that by (simp add: ack_result_def same_history_def)
  show ?case
  proof (cases "first_window ?ws")
    case None
    then have "acknowledge_completed_recovery_windows (logged env) max_assemblers a conn = Some (True, conn)"
      by (simp add: simps)
    then show ?thesis using stay [of True] None by auto
  next
    case (Some w)
    note w = first_window_spec(2) [OF Some]
    show ?thesis
    proof (cases "rw_missing_mask w = 0")
      case False
      then have "acknowledge_completed_recovery_windows (logged env) max_assemblers a conn = Some (True, conn)"
        using Some by (simp add: simps)
      then show ?thesis using stay [of True] Some False by auto
    next
      case z: True
      have "complete_through ?ws (rw_final_object_id w)" by (rule first_complete [OF less.prems(1) Some z])
      moreover have "window_end ?ws (rw_group_id w) (rw_final_object_id w)" using w by (auto simp: window_end_def)
      ultimately obtain l where l: "completed_prefix ?ws (rw_group_id w) (rw_final_object_id w) = Some l"
        "complete_through ?ws l" "window_end ?ws (rw_group_id w) l" using completed_prefix_ok [OF less.prems(1)] by blast
      show ?thesis
      proof (cases "as_open env (fst (rc_stream conn)) \<and> as_can_accept env (fst (rc_stream conn))")
        case False
        define ok where "ok \<longleftrightarrow> as_open env (fst (rc_stream conn))"
        have "acknowledge_completed_recovery_windows (logged env) max_assemblers a conn = Some (ok, conn)"
          using Some z l(1) False by (simp add: simps opn ok_def)
        moreover have "ack_result env others conn ok conn" using stay [of ok] False by (auto simp: ok_def)
        ultimately show ?thesis by blast
      next
        case True
        obtain sent conn1 where sd: "send_checkpoint_ack (logged env) conn a (rw_group_id w) l = (sent, conn1)" by (metis surj_pair)
        note sl = send_logged [OF sd]
        show ?thesis
        proof (cases sent)
          case False
          have "acknowledge_completed_recovery_windows (logged env) max_assemblers a conn = Some (False, conn1)"
            using Some z l(1) True sd False by (simp add: simps opn)
          moreover have "ack_result env others conn False conn1"
            using sl False less.prems(2) by (simp add: ack_result_def same_history_def pool_account_def)
          ultimately show ?thesis by blast
        next
          case sent: True
          have pa1: "pool_account others conn1" using sl less.prems(2) by (simp add: pool_account_def)
          obtain conn2 where c2: "retire_recovery_through max_assemblers conn1 a (rw_group_id w) l = Some conn2"
            "rc_gap conn2 = retire_pending (rc_gap conn1) (rw_group_id w) l" "rc_stream conn2 = rc_stream conn1"
            "pool_account others conn2" by (rule retire_through_ok [OF pa1 max])
          define conn3 where "conn3 = conn2\<lparr>rc_gap := (rc_gap conn2)\<lparr>og_recovery_windows :=
            clear_windows (og_recovery_windows (rc_gap conn2)) (rw_group_id w) l\<rparr>\<rparr>"
          have ws3: "og_recovery_windows (rc_gap conn3) = clear_windows ?ws (rw_group_id w) l"
            using c2(2) sl by (simp add: conn3_def)
          have ret: "windows_retired ?ws (og_recovery_windows (rc_gap conn3))"
            unfolding ws3 by (rule clear_windows_retired [OF less.prems(1) l(2)])
          have "pool_account others conn3" using c2(4) by (simp add: conn3_def pool_account_def)
          moreover have "windows_ok (og_recovery_windows (rc_gap conn3))" by (rule retired_ok [OF ret less.prems(1)])
          moreover have "length (filter rw_active (og_recovery_windows (rc_gap conn3))) < length (filter rw_active ?ws)"
            unfolding ws3 by (rule clear_windows_fewer [OF l(3)])
          ultimately obtain ok conn' where r: "acknowledge_completed_recovery_windows (logged env) max_assemblers a conn3 = Some (ok, conn')"
            "ack_result env others conn3 ok conn'" using less.hyps [of conn3] by blast
          have st: "acknowledge_completed_recovery_windows (logged env) max_assemblers a conn = Some (ok, conn')"
            using Some z l(1) True sd sent c2(1) r(1) by (simp add: simps opn conn3_def)
          obtain acks where acks: "snd (rc_stream conn') = snd (rc_stream conn3) @ acks"
            "\<forall>(g, k) \<in> set acks. complete_through (og_recovery_windows (rc_gap conn3)) k \<and>
               window_end (og_recovery_windows (rc_gap conn3)) g k"
            using r(2) unfolding ack_result_def Let_def by blast
          have s3: "snd (rc_stream conn3) = snd (rc_stream conn) @ [(rw_group_id w, l)]"
            using c2(3) sl sent by (simp add: conn3_def)
          have "complete_through ?ws k \<and> window_end ?ws g k" if "(g, k) \<in> set acks" for g k
          proof
            show "complete_through ?ws k" using retired_complete [OF ret _ less.prems(1)] acks(2) that by blast
            have "window_end (og_recovery_windows (rc_gap conn3)) g k" using acks(2) that by blast
            then show "window_end ?ws g k" by (rule retired_end [OF ret])
          qed
          then have "\<exists>acks'. snd (rc_stream conn') = snd (rc_stream conn) @ acks' \<and>
              (\<forall>(g, k) \<in> set acks'. complete_through ?ws k \<and> window_end ?ws g k)"
            using acks(1) s3 l by (intro exI [of _ "(rw_group_id w, l) # acks"]) auto
          moreover have "same_history (rc_gap conn) (rc_gap conn3)" using c2(2) sl by (simp add: conn3_def same_history_def)
          moreover have "windows_retired ?ws (og_recovery_windows (rc_gap conn'))"
            using retired_trans [OF ret _ less.prems(1)] r(2) by (simp add: ack_result_def Let_def)
          ultimately have "ack_result env others conn ok conn'"
            using r(2) by (simp add: ack_result_def Let_def same_history_def)
          then show ?thesis using st by blast
        qed
      qed
    qed
  qed
qed

section \<open>Runs of the receiver\<close>

text \<open>
  The events of one track at the receiver: an object is delivered, a checkpoint arrives and is
  accepted, the periodic retry. \<open>D\<close> is what has been delivered, \<open>A\<close> the windows announced so far; a
  checkpoint that does not go beyond the last one repeats an announced window. Before the first
  checkpoint the sender may have set a baseline.
\<close>

inductive recovery_run :: "'s ack_stream \<Rightarrow> nat \<Rightarrow> nat \<Rightarrow> u8 \<Rightarrow> ('s \<times> (u64 \<times> u64) list) recovery_conn \<Rightarrow>
    u64 set \<Rightarrow> (u64 \<times> u64 \<times> u64) set \<Rightarrow> bool" for env others max_assemblers a where
  start: "rc_gap conn = zero_gap\<lparr>og_checkpoint_initialized := i, og_last_checkpoint_object_id := l\<rparr> \<Longrightarrow>
    pool_account others conn \<Longrightarrow> snd (rc_stream conn) = [] \<Longrightarrow> recovery_run env others max_assemblers a conn {} {}"
| deliver: "recovery_run env others max_assemblers a conn D A \<Longrightarrow>
    recovery_mark_delivered (logged env) max_assemblers
      (conn\<lparr>rc_gap := mark_object_delivered (rc_gap conn) x\<rparr>) a g x = Some conn' \<Longrightarrow>
    recovery_run env others max_assemblers a conn' (insert x D) A"
| checkpoint: "recovery_run env others max_assemblers a conn D A \<Longrightarrow>
    og_checkpoint_initialized (rc_gap conn) \<and> l \<le> og_last_checkpoint_object_id (rc_gap conn) \<longrightarrow> (g, f, l) \<in> A \<Longrightarrow>
    receive_recovery_checkpoint (logged env) max_assemblers now conn a g f l True = Some (True, conn') \<Longrightarrow>
    recovery_run env others max_assemblers a conn' D (insert (g, f, l) A)"
| retry: "recovery_run env others max_assemblers a conn D A \<Longrightarrow>
    acknowledge_completed_recovery_windows (logged env) max_assemblers a conn = Some (ok, conn') \<Longrightarrow>
    recovery_run env others max_assemblers a conn' D A"

definition requested :: "recovery_window list \<Rightarrow> u64 \<Rightarrow> bool" where
  "requested ws x \<longleftrightarrow> (\<exists>w \<in> set ws. rw_active w \<and> rw_first_object_id w \<le> x \<and> x \<le> rw_final_object_id w \<and>
     bit (rw_missing_mask w) (unat (x - rw_first_object_id w)))"

definition delivered_through :: "u64 set \<Rightarrow> (u64 \<times> u64 \<times> u64) set \<Rightarrow> u64 \<Rightarrow> bool" where
  "delivered_through D A k \<longleftrightarrow> (\<forall>(g, f, l) \<in> A. \<forall>x. f \<le> x \<longrightarrow> x \<le> l \<longrightarrow> x \<le> k \<longrightarrow> x \<in> D)"

definition active_window :: "recovery_window list \<Rightarrow> u64 \<times> u64 \<times> u64 \<Rightarrow> bool" where
  "active_window ws = (\<lambda>(g, f, l). \<exists>w \<in> set ws. rw_active w \<and> rw_group_id w = g \<and> rw_first_object_id w = f \<and> rw_final_object_id w = l)"

definition gap_ok :: "object_gap_state \<Rightarrow> u64 set \<Rightarrow> (u64 \<times> u64 \<times> u64) set \<Rightarrow> bool" where
  "gap_ok gap D A \<longleftrightarrow> (let ws = og_recovery_windows gap in
     hist_ok gap D \<and> windows_ok ws \<and>
     (\<forall>v. active_window ws v \<longrightarrow> v \<in> A) \<and>
     (\<forall>(g, f, l) \<in> A. f \<le> l \<and> og_checkpoint_initialized gap \<and> l \<le> og_last_checkpoint_object_id gap \<and>
        (\<forall>x. f \<le> x \<longrightarrow> x \<le> l \<longrightarrow> x \<in> D \<or> requested ws x)) \<and>
     (\<forall>(g, f, l) \<in> A. \<not> active_window ws (g, f, l) \<longrightarrow> delivered_through D A l))"

definition acks_ok :: "object_gap_state \<Rightarrow> u64 set \<Rightarrow> (u64 \<times> u64 \<times> u64) set \<Rightarrow> (u64 \<times> u64) list \<Rightarrow> bool" where
  "acks_ok gap D A acks \<longleftrightarrow> (\<forall>(g, l) \<in> set acks. delivered_through D A l \<and> A \<noteq> {} \<and> l \<le> og_last_checkpoint_object_id gap)"

lemma gap_okD:
  assumes "gap_ok gap D A"
  shows "hist_ok gap D" "windows_ok (og_recovery_windows gap)"
    "active_window (og_recovery_windows gap) v \<Longrightarrow> v \<in> A"
    "(g, f, l) \<in> A \<Longrightarrow> f \<le> l" "(g, f, l) \<in> A \<Longrightarrow> og_checkpoint_initialized gap"
    "(g, f, l) \<in> A \<Longrightarrow> l \<le> og_last_checkpoint_object_id gap"
    "(g, f, l) \<in> A \<Longrightarrow> f \<le> x \<Longrightarrow> x \<le> l \<Longrightarrow> x \<in> D \<or> requested (og_recovery_windows gap) x"
    "(g, f, l) \<in> A \<Longrightarrow> \<not> active_window (og_recovery_windows gap) (g, f, l) \<Longrightarrow> delivered_through D A l"
  using assms unfolding gap_ok_def Let_def by blast+

lemma complete_delivered:
  assumes ok: "gap_ok gap D A" and c: "complete_through (og_recovery_windows gap) k"
  shows "delivered_through D A k"
proof -
  have "x \<in> D" if z: "(g, f, l) \<in> A" "f \<le> x" "x \<le> l" "x \<le> k" for g f l x
  proof (rule ccontr)
    assume "x \<notin> D"
    then obtain w where w: "w \<in> set (og_recovery_windows gap)" "rw_active w" "rw_first_object_id w \<le> x"
      "bit (rw_missing_mask w) (unat (x - rw_first_object_id w))"
      using gap_okD(7) [OF ok z(1-3)] by (auto simp: requested_def)
    then have "rw_first_object_id w \<le> k" using z(4) by (metis order_trans)
    then have "rw_missing_mask w = 0" using c w(1,2) by (simp add: complete_through_def)
    then show False using w(4) by simp
  qed
  then show ?thesis by (auto simp: delivered_through_def)
qed

lemma retired_requested:
  assumes r: "windows_retired ws ws'" and x: "requested ws x"
  shows "requested ws' x"
proof -
  obtain i where i: "i < length ws" "rw_active (ws ! i)" "rw_first_object_id (ws ! i) \<le> x" "x \<le> rw_final_object_id (ws ! i)"
    "bit (rw_missing_mask (ws ! i)) (unat (x - rw_first_object_id (ws ! i)))"
    using x by (auto simp: requested_def in_set_conv_nth)
  have l: "i < length ws'" using list_all2_lengthD [OF r [unfolded windows_retired_def]] i(1) by simp
  have "ws' ! i = ws ! i \<or> complete_through ws (rw_final_object_id (ws ! i))"
    using list_all2_nthD [OF r [unfolded windows_retired_def] i(1)] by blast
  then show ?thesis
  proof
    assume "ws' ! i = ws ! i"
    moreover have "ws' ! i \<in> set ws'" using l by simp
    ultimately show ?thesis using i(2-5) unfolding requested_def by auto
  next
    assume c: "complete_through ws (rw_final_object_id (ws ! i))"
    have "rw_first_object_id (ws ! i) \<le> rw_final_object_id (ws ! i)" using i(3,4) by (rule order_trans)
    then have "rw_missing_mask (ws ! i) = 0" using c i(1,2) by (simp add: complete_through_def)
    then show ?thesis using i(5) by simp
  qed
qed

lemma retired_inactive:
  assumes r: "windows_retired ws ws'" and a: "active_window ws (g, f, l)" and n: "\<not> active_window ws' (g, f, l)"
  shows "complete_through ws l"
proof -
  obtain i where i: "i < length ws" "rw_active (ws ! i)" "rw_group_id (ws ! i) = g" "rw_first_object_id (ws ! i) = f"
    "rw_final_object_id (ws ! i) = l" using a by (auto simp: active_window_def in_set_conv_nth)
  have len: "i < length ws'" using list_all2_lengthD [OF r [unfolded windows_retired_def]] i(1) by simp
  have "ws' ! i \<noteq> ws ! i"
  proof
    assume "ws' ! i = ws ! i"
    moreover have "ws' ! i \<in> set ws'" using len by simp
    ultimately have "active_window ws' (g, f, l)" using i(2-5) unfolding active_window_def prod.case by auto
    then show False using n by simp
  qed
  then show ?thesis using list_all2_nthD [OF r [unfolded windows_retired_def] i(1)] i(5) by auto
qed

lemma retired_window:
  "windows_retired ws ws' \<Longrightarrow> active_window ws' v \<Longrightarrow> active_window ws v"
  using retired_active by (fastforce simp: active_window_def split: prod.splits)

lemma hist_same: "same_history g g' \<Longrightarrow> hist_ok g D \<Longrightarrow> hist_ok g' D"
  unfolding same_history_def hist_ok_def hist_def by (elim conjE) (simp only:)

text \<open>An acknowledgement run keeps the invariant and adds only safe acknowledgements.\<close>

lemma ack_result_keeps:
  assumes ok: "gap_ok (rc_gap conn) D A" and acks: "acks_ok (rc_gap conn) D A (snd (rc_stream conn))"
    and r: "ack_result env others conn res conn'"
  shows "gap_ok (rc_gap conn') D A \<and> acks_ok (rc_gap conn') D A (snd (rc_stream conn')) \<and> pool_account others conn'"
proof -
  let ?ws = "og_recovery_windows (rc_gap conn)" and ?ws' = "og_recovery_windows (rc_gap conn')"
  have s: "same_history (rc_gap conn) (rc_gap conn')" and p: "pool_account others conn'" and rt: "windows_retired ?ws ?ws'"
    using r by (simp_all add: ack_result_def Let_def)
  obtain new where new: "snd (rc_stream conn') = snd (rc_stream conn) @ new"
    "\<forall>(g, l) \<in> set new. complete_through ?ws l \<and> window_end ?ws g l" using r unfolding ack_result_def Let_def by blast
  note g = gap_okD [OF ok]
  have "gap_ok (rc_gap conn') D A"
    unfolding gap_ok_def Let_def
  proof (intro conjI allI ballI impI)
    show "hist_ok (rc_gap conn') D" by (rule hist_same [OF s g(1)])
    show "windows_ok ?ws'" by (rule retired_ok [OF rt g(2)])
    show "v \<in> A" if "active_window ?ws' v" for v by (rule g(3) [OF retired_window [OF rt that]])
    fix v assume v: "v \<in> A"
    obtain gr f l where vv: "v = (gr, f, l)" by (cases v)
    have "x \<in> D \<or> requested ?ws' x" if "f \<le> x" "x \<le> l" for x
      using g(7) [OF v [unfolded vv] that] retired_requested [OF rt] by blast
    then show "case v of (g, f, l) \<Rightarrow> f \<le> l \<and> og_checkpoint_initialized (rc_gap conn') \<and>
        l \<le> og_last_checkpoint_object_id (rc_gap conn') \<and> (\<forall>x. f \<le> x \<longrightarrow> x \<le> l \<longrightarrow> x \<in> D \<or> requested ?ws' x)"
      using g(4-6) [OF v [unfolded vv]] s by (simp add: vv same_history_def)
    have "delivered_through D A l" if n: "\<not> active_window ?ws' (gr, f, l)"
    proof (cases "active_window ?ws (gr, f, l)")
      case True
      show ?thesis by (rule complete_delivered [OF ok retired_inactive [OF rt True n]])
    next
      case False
      show ?thesis by (rule g(8) [OF v [unfolded vv] False])
    qed
    then show "case v of (g, f, l) \<Rightarrow> \<not> active_window ?ws' (g, f, l) \<longrightarrow> delivered_through D A l" by (simp add: vv)
  qed
  moreover have "acks_ok (rc_gap conn') D A (snd (rc_stream conn'))"
  proof -
    have "delivered_through D A l \<and> A \<noteq> {} \<and> l \<le> og_last_checkpoint_object_id (rc_gap conn)" if "(gr, l) \<in> set new" for gr l
    proof -
      have c: "complete_through ?ws l" "window_end ?ws gr l" using new(2) that by blast+
      then obtain f where "active_window ?ws (gr, f, l)" by (auto simp: window_end_def active_window_def)
      then have "(gr, f, l) \<in> A" by (rule g(3))
      then show ?thesis using complete_delivered [OF ok c(1)] g(6) by blast
    qed
    then show ?thesis using acks s new(1) by (auto simp: acks_ok_def same_history_def)
  qed
  ultimately show ?thesis using p by simp
qed

definition run_ok :: "nat \<Rightarrow> ('s \<times> (u64 \<times> u64) list) recovery_conn \<Rightarrow> u64 set \<Rightarrow> (u64 \<times> u64 \<times> u64) set \<Rightarrow> bool" where
  "run_ok others conn D A \<longleftrightarrow> gap_ok (rc_gap conn) D A \<and> acks_ok (rc_gap conn) D A (snd (rc_stream conn)) \<and>
     pool_account others conn"

lemma run_ok_acknowledge:
  assumes max: "max_assemblers \<le> HARD_MAX_ASSEMBLERS" and ok: "run_ok others conn D A"
  shows "\<exists>res conn'. acknowledge_completed_recovery_windows (logged env) max_assemblers a conn = Some (res, conn') \<and>
    run_ok others conn' D A \<and> ack_result env others conn res conn'"
proof -
  have "windows_ok (og_recovery_windows (rc_gap conn))" "pool_account others conn"
    using ok by (simp_all add: run_ok_def gap_ok_def Let_def)
  from acknowledge_ok [OF max this, of env a] obtain res conn'
    where r: "acknowledge_completed_recovery_windows (logged env) max_assemblers a conn = Some (res, conn')"
      "ack_result env others conn res conn'" by blast
  then show ?thesis using ack_result_keeps [OF _ _ r(2)] ok by (auto simp: run_ok_def)
qed

lemma hist_ok_other [simp]:
  "hist_ok (g\<lparr>og_recovery_windows := ws\<rparr>) D \<longleftrightarrow> hist_ok g D"
  "hist_ok (g\<lparr>og_checkpoint_initialized := i, og_last_checkpoint_object_id := l, og_recovery_windows := ws\<rparr>) D \<longleftrightarrow> hist_ok g D"
  "hist_ok (g\<lparr>og_checkpoint_initialized := i, og_last_checkpoint_object_id := l\<rparr>) D \<longleftrightarrow> hist_ok g D"
  unfolding hist_ok_def hist_def by simp_all

lemma window_mark_same [simp]:
  "rw_active (window_mark g x w) = rw_active w" "rw_group_id (window_mark g x w) = rw_group_id w"
  "rw_first_object_id (window_mark g x w) = rw_first_object_id w"
  "rw_final_object_id (window_mark g x w) = rw_final_object_id w"
  by (simp_all add: window_mark_def)

lemma marked_active [simp]: "active_window (map (window_mark g x) ws) v = active_window ws v"
  by (cases v) (simp add: active_window_def)

lemma marked_ok: "windows_ok ws \<Longrightarrow> windows_ok (map (window_mark g x) ws)"
  unfolding windows_ok_def by fastforce

lemma unat_minus_inj: "f \<le> x \<Longrightarrow> f \<le> y \<Longrightarrow> unat (x - f) = unat (y - f) \<longleftrightarrow> x = y" for f x y :: u64
  unfolding word_unat_eq_iff [symmetric] by simp

lemma marked_requested:
  assumes r: "requested ws y" and ne: "y \<noteq> x"
  shows "requested (map (window_mark g x) ws) y"
proof -
  obtain w where w: "w \<in> set ws" "rw_active w" "rw_first_object_id w \<le> y" "y \<le> rw_final_object_id w"
    "bit (rw_missing_mask w) (unat (y - rw_first_object_id w))" using r by (auto simp: requested_def)
  have "bit (rw_missing_mask (window_mark g x w)) (unat (y - rw_first_object_id w))"
  proof (cases "\<not> rw_active w \<or> rw_group_id w \<noteq> g \<or> x < rw_first_object_id w \<or> x > rw_final_object_id w")
    case True
    then show ?thesis using w(5) by (simp add: window_mark_def)
  next
    case False
    then have "rw_first_object_id w \<le> x" by (simp add: not_less)
    then have "unat (y - rw_first_object_id w) \<noteq> unat (x - rw_first_object_id w)"
      using unat_minus_inj [OF w(3)] ne by blast
    then show ?thesis using False w(5) bit_imp_le_length [OF w(5)] by (auto simp: window_mark_def bit_simps)
  qed
  then show ?thesis using w unfolding requested_def by (intro bexI [of _ "window_mark g x w"]) simp_all
qed

lemma run_ok_deliver:
  assumes max: "max_assemblers \<le> HARD_MAX_ASSEMBLERS" and ok: "run_ok others conn D A"
  shows "\<exists>conn'. recovery_mark_delivered (logged env) max_assemblers
      (conn\<lparr>rc_gap := mark_object_delivered (rc_gap conn) x\<rparr>) a g x = Some conn' \<and> run_ok others conn' (insert x D) A"
proof -
  let ?ws = "og_recovery_windows (rc_gap conn)"
  define gap where "gap = mark_object_delivered (rc_gap conn) x"
  have same: "og_recovery_windows gap = ?ws" "og_checkpoint_initialized gap = og_checkpoint_initialized (rc_gap conn)"
    "og_last_checkpoint_object_id gap = og_last_checkpoint_object_id (rc_gap conn)"
    by (simp_all add: gap_def mark_object_delivered_def Let_def)
  define conn1 where "conn1 = conn\<lparr>rc_gap := gap\<lparr>og_recovery_windows := map (window_mark g x) ?ws\<rparr>\<rparr>"
  have gok: "gap_ok (rc_gap conn) D A" using ok by (simp add: run_ok_def)
  note gd = gap_okD [OF gok]
  have mono: "delivered_through D A l \<Longrightarrow> delivered_through (insert x D) A l" for l
    by (fastforce simp: delivered_through_def)
  have "hist_ok (rc_gap conn1) (insert x D)"
    using mark_ok [OF gd(1), of x] by (simp add: conn1_def gap_def)
  moreover have "windows_ok (og_recovery_windows (rc_gap conn1))" using marked_ok [OF gd(2)] by (simp add: conn1_def)
  moreover have "y \<in> insert x D \<or> requested (og_recovery_windows (rc_gap conn1)) y"
    if "(gr, f, l) \<in> A" "f \<le> y" "y \<le> l" for gr f l y
    using gd(7) [OF that] marked_requested [of ?ws y x g] by (auto simp: conn1_def)
  ultimately have "gap_ok (rc_gap conn1) (insert x D) A"
    unfolding gap_ok_def Let_def using gd(3-6,8) mono by (auto simp: conn1_def same)
  moreover have "acks_ok (rc_gap conn1) (insert x D) A (snd (rc_stream conn1))"
    using ok mono by (auto simp: run_ok_def acks_ok_def conn1_def same)
  moreover have "pool_account others conn1" using ok by (simp add: run_ok_def pool_account_def conn1_def)
  ultimately have "run_ok others conn1 (insert x D) A" by (simp add: run_ok_def)
  from run_ok_acknowledge [OF max this, of env a] obtain res conn'
    where "acknowledge_completed_recovery_windows (logged env) max_assemblers a conn1 = Some (res, conn')"
      "run_ok others conn' (insert x D) A" by blast
  then show ?thesis
    by (simp add: recovery_mark_delivered_def conn1_def gap_def [symmetric] same)
qed

lemma missing_objects_bit:
  "bit (missing_objects st f l) j \<longleftrightarrow>
     j < unat (l - f + 1) \<and> j < 32 \<and> \<not> object_is_recently_delivered st (f + of_nat j)"
proof -
  have "bit (fold (\<lambda>i m. if \<not> object_is_recently_delivered st (f + of_nat i) then m OR push_bit i 1 else m) [0..<n] (0 :: u32)) j
    \<longleftrightarrow> j < n \<and> j < 32 \<and> \<not> object_is_recently_delivered st (f + of_nat j)" for n
    by (induction n) (auto simp: bit_simps less_Suc_eq)
  then show ?thesis by (simp add: missing_objects_def)
qed

lemma unat_plus_one: "x \<noteq> - 1 \<Longrightarrow> unat (x + 1) = unat x + 1" for x :: u64
  using unatSuc [of x] eq_neg_iff_add_eq_0 [of x 1] by (simp add: add.commute)

lemma run_ok_checkpoint:
  assumes max: "max_assemblers \<le> HARD_MAX_ASSEMBLERS" and ok: "run_ok others conn D A"
    and known: "og_checkpoint_initialized (rc_gap conn) \<and> l \<le> og_last_checkpoint_object_id (rc_gap conn) \<longrightarrow> (g, f, l) \<in> A"
  shows "\<exists>res conn'. receive_recovery_checkpoint (logged env) max_assemblers now conn a g f l True = Some (res, conn') \<and>
    (res \<longrightarrow> run_ok others conn' D (insert (g, f, l) A))"
proof -
  let ?gap = "rc_gap conn" and ?ws = "og_recovery_windows (rc_gap conn)"
  have gok: "gap_ok ?gap D A" and acks: "acks_ok ?gap D A (snd (rc_stream conn))" and pa: "pool_account others conn"
    using ok by (simp_all add: run_ok_def)
  note gd = gap_okD [OF gok]
  note def = receive_recovery_checkpoint_def [of "logged env" max_assemblers now conn a g f l True, unfolded Let_def]
  consider (bad) "f > l \<or> l - f \<ge> 32"
    | (found) "\<not> (f > l \<or> l - f \<ge> 32)" "find_recovery_window ?gap g f l \<noteq> None"
    | (old) "\<not> (f > l \<or> l - f \<ge> 32)" "find_recovery_window ?gap g f l = None"
        "og_checkpoint_initialized ?gap \<and> l \<le> og_last_checkpoint_object_id ?gap"
    | (gap) "\<not> (f > l \<or> l - f \<ge> 32)" "find_recovery_window ?gap g f l = None"
        "\<not> (og_checkpoint_initialized ?gap \<and> l \<le> og_last_checkpoint_object_id ?gap)"
        "(og_checkpoint_initialized ?gap \<and> (og_last_checkpoint_object_id ?gap = - 1 \<or> f \<noteq> og_last_checkpoint_object_id ?gap + 1)) \<or>
         first_index (\<lambda>w. \<not> rw_active w) ?ws = None"
    | (fresh) i where "\<not> (f > l \<or> l - f \<ge> 32)" "find_recovery_window ?gap g f l = None"
        "\<not> (og_checkpoint_initialized ?gap \<and> l \<le> og_last_checkpoint_object_id ?gap)"
        "\<not> (og_checkpoint_initialized ?gap \<and> (og_last_checkpoint_object_id ?gap = - 1 \<or> f \<noteq> og_last_checkpoint_object_id ?gap + 1))"
        "first_index (\<lambda>w. \<not> rw_active w) ?ws = Some i"
    by (cases "first_index (\<lambda>w. \<not> rw_active w) ?ws") blast+
  then show ?thesis
  proof cases
    case bad
    then show ?thesis by (auto simp: def)
  next
    case found
    obtain i where "find_recovery_window ?gap g f l = Some i" using found by blast
    then have "i < length ?ws" "rw_active (?ws ! i)" "rw_group_id (?ws ! i) = g" "rw_first_object_id (?ws ! i) = f"
      "rw_final_object_id (?ws ! i) = l" by (simp_all add: find_recovery_window_def first_index_Some)
    then have "active_window ?ws (g, f, l)" unfolding active_window_def prod.case by (intro bexI [of _ "?ws ! i"]) simp_all
    then have "insert (g, f, l) A = A" using gd(3) by blast
    then show ?thesis using found ok by (auto simp: def)
  next
    case old
    have mem: "(g, f, l) \<in> A" using known old by blast
    have "\<not> active_window ?ws (g, f, l)"
      using old(2) by (auto simp: find_recovery_window_def first_index_None active_window_def in_set_conv_nth)
    then have dt: "delivered_through D A l" by (rule gd(8) [OF mem])
    obtain res conn' where s: "send_checkpoint_ack (logged env) conn a g l = (res, conn')" by (metis surj_pair)
    have r: "receive_recovery_checkpoint (logged env) max_assemblers now conn a g f l True = Some (res, conn')"
      unfolding def if_not_P [OF old(1)] using old(2,3) s by simp
    have "run_ok others conn' D A"
      using send_logged [OF s] ok dt mem gd(6) [OF mem] by (auto simp: run_ok_def acks_ok_def pool_account_def)
    then show ?thesis using r mem by (simp add: insert_absorb)
  next
    case gap
    then show ?thesis unfolding def if_not_P [OF gap(1)] by auto
  next
    case (fresh i)
    have i: "i < length ?ws" "\<not> rw_active (?ws ! i)" using fresh(5) by (simp_all add: first_index_Some)
    have fl: "f \<le> l" "unat (l - f) < 32" using fresh(1) by (auto simp: word_less_nat_alt word_le_nat_alt not_le)
    define w where "w = \<lparr>rw_active = True, rw_group_id = g, rw_first_object_id = f,
      rw_final_object_id = l, rw_missing_mask = missing_objects ?gap f l, rw_cursor = 0, rw_last_request_ms = now\<rparr>"
    have wf: "rw_active w" "rw_group_id w = g" "rw_first_object_id w = f" "rw_final_object_id w = l"
      "rw_missing_mask w = missing_objects ?gap f l" by (simp_all add: w_def)
    define conn1 where "conn1 = conn\<lparr>rc_gap := ?gap\<lparr>og_checkpoint_initialized := True,
      og_last_checkpoint_object_id := l, og_recovery_windows := ?ws[i := w]\<rparr>\<rparr>"
    have r: "receive_recovery_checkpoint (logged env) max_assemblers now conn a g f l True =
      acknowledge_completed_recovery_windows (logged env) max_assemblers a conn1"
      unfolding def if_not_P [OF fresh(1)] if_not_P [OF fresh(3)] if_not_P [OF fresh(4)] fresh(5) option.case
      using fresh(2) by (simp add: conn1_def w_def)
    have before: "l' < f" if "(g', f', l') \<in> A" for g' f' l'
    proof -
      have "og_checkpoint_initialized ?gap" "l' \<le> og_last_checkpoint_object_id ?gap" using gd(5,6) that by blast+
      then have "f = og_last_checkpoint_object_id ?gap + 1" "og_last_checkpoint_object_id ?gap \<noteq> - 1" using fresh(4) by auto
      then have "unat f = unat (og_last_checkpoint_object_id ?gap) + 1" by (simp add: unat_plus_one)
      then show ?thesis using \<open>l' \<le> og_last_checkpoint_object_id ?gap\<close> by (simp add: word_less_nat_alt word_le_nat_alt)
    qed
    have act: "v = w \<or> v \<in> set ?ws" if "v \<in> set (?ws[i := w])" for v
      using that set_update_subset_insert [of ?ws i w] by blast
    have keep: "v \<in> set (?ws[i := w])" if z: "v \<in> set ?ws" "rw_active v" for v
    proof -
      obtain j where "j < length ?ws" "v = ?ws ! j" using z(1) by (auto simp: in_set_conv_nth)
      moreover have "j \<noteq> i" using calculation z(2) i(2) by blast
      ultimately show ?thesis by (metis length_list_update nth_list_update_neq nth_mem)
    qed
    have wmem: "w \<in> set (?ws[i := w])" using i(1) by (simp add: set_update_memI)
    have old_before: "rw_final_object_id v < f" if "v \<in> set ?ws" "rw_active v" for v
    proof -
      have "active_window ?ws (rw_group_id v, rw_first_object_id v, rw_final_object_id v)"
        unfolding active_window_def prod.case using that by blast
      then show ?thesis using before gd(3) by blast
    qed
    have actw: "active_window (?ws[i := w]) v \<longleftrightarrow> v = (g, f, l) \<or> active_window ?ws v" for v
    proof (cases v)
      case (fields gr ff ll)
      show ?thesis
      proof
        assume "active_window (?ws[i := w]) v"
        then obtain u where u: "u \<in> set (?ws[i := w])" "rw_active u" "rw_group_id u = gr" "rw_first_object_id u = ff"
          "rw_final_object_id u = ll" by (auto simp: active_window_def fields)
        from act [OF u(1)] show "v = (g, f, l) \<or> active_window ?ws v"
        proof
          assume "u = w"
          then show ?thesis using u wf by (simp add: fields)
        next
          assume "u \<in> set ?ws"
          then show ?thesis using u unfolding fields active_window_def prod.case by blast
        qed
      next
        assume "v = (g, f, l) \<or> active_window ?ws v"
        then show "active_window (?ws[i := w]) v"
        proof
          assume "v = (g, f, l)"
          then show ?thesis using wmem wf unfolding active_window_def by auto
        next
          assume "active_window ?ws v"
          then show ?thesis using keep unfolding fields active_window_def prod.case by blast
        qed
      qed
    qed
    have wok: "windows_ok (?ws[i := w])"
      unfolding windows_ok_def
    proof (intro conjI ballI impI)
      fix v assume v: "v \<in> set (?ws[i := w])" "rw_active v"
      show "rw_first_object_id v \<le> rw_final_object_id v"
        using act [OF v(1)] v(2) gd(2) fl(1) wf unfolding windows_ok_def by auto
      fix u assume u: "u \<in> set (?ws[i := w])" "rw_active u"
      from act [OF v(1)] act [OF u(1)]
      show "v = u \<or> rw_final_object_id v < rw_first_object_id u \<or> rw_final_object_id u < rw_first_object_id v"
      proof (elim disjE)
        assume "v = w" "u \<in> set ?ws"
        then show ?thesis using old_before [of u] u(2) wf by simp
      next
        assume "v \<in> set ?ws" "u = w"
        then show ?thesis using old_before [of v] v(2) wf by simp
      next
        assume "v \<in> set ?ws" "u \<in> set ?ws"
        then show ?thesis using gd(2) v(2) u(2) unfolding windows_ok_def by blast
      qed simp
    qed
    have req: "requested (?ws[i := w]) x" if "requested ws' x" "ws' = ?ws" for ws' x
      using that keep unfolding requested_def by blast
    have neww: "x \<in> D \<or> requested (?ws[i := w]) x" if "f \<le> x" "x \<le> l" for x
    proof (cases "object_is_recently_delivered ?gap x")
      case True
      then show ?thesis using hist_query(1) [OF gd(1)] by blast
    next
      case False
      have le: "unat (x - f) \<le> unat (l - f)" using that unat_diff_le [of f x] unat_diff_le [of f l] fl(1)
        by (simp add: word_le_nat_alt)
      have s: "unat (l - f + 1) = unat (l - f) + 1"
      proof -
        have "l - f \<noteq> - 1" using fl(2) by (auto simp: unsigned_minus_1_eq_mask mask_eq_exp_minus_1)
        then show ?thesis by (simp add: unat_plus_one)
      qed
      have "bit (missing_objects ?gap f l) (unat (x - f))"
        unfolding missing_objects_bit using le fl(2) s False by simp
      then have "requested (?ws[i := w]) x"
        unfolding requested_def using wmem that wf by (intro bexI [of _ w]) simp_all
      then show ?thesis ..
    qed
    have dext: "delivered_through D (insert (g, f, l) A) k" if "delivered_through D A k" "k < f" for k
      using that by (auto simp: delivered_through_def dest: order_trans leD)
    have "gap_ok (rc_gap conn1) D (insert (g, f, l) A)"
      unfolding gap_ok_def Let_def
    proof (intro conjI allI ballI impI)
      show "hist_ok (rc_gap conn1) D" using gd(1) by (simp add: conn1_def)
      show "windows_ok (og_recovery_windows (rc_gap conn1))" using wok by (simp add: conn1_def)
      show "v \<in> insert (g, f, l) A" if "active_window (og_recovery_windows (rc_gap conn1)) v" for v
        using that gd(3) [of v] actw [of v] by (auto simp: conn1_def)
      fix v assume v: "v \<in> insert (g, f, l) A"
      obtain g' f' l' where vv: "v = (g', f', l')" by (cases v)
      have vA: "(g', f', l') = (g, f, l) \<or> (g', f', l') \<in> A" using v vv by blast
      have "f' \<le> l' \<and> l' \<le> l \<and> (\<forall>x. f' \<le> x \<longrightarrow> x \<le> l' \<longrightarrow> x \<in> D \<or> requested (?ws[i := w]) x)"
        using vA
      proof
        assume "(g', f', l') = (g, f, l)"
        then show ?thesis using fl(1) neww by simp
      next
        assume m: "(g', f', l') \<in> A"
        have "l' \<le> l" using before [OF m] fl(1) by (metis less_imp_le order_trans)
        then show ?thesis using gd(4) [OF m] gd(7) [OF m] req by blast
      qed
      then show "case v of (g, f, l) \<Rightarrow> f \<le> l \<and> og_checkpoint_initialized (rc_gap conn1) \<and>
          l \<le> og_last_checkpoint_object_id (rc_gap conn1) \<and>
          (\<forall>x. f \<le> x \<longrightarrow> x \<le> l \<longrightarrow> x \<in> D \<or> requested (og_recovery_windows (rc_gap conn1)) x)"
        by (simp add: vv conn1_def)
      have "delivered_through D (insert (g, f, l) A) l'" if n: "\<not> active_window (?ws[i := w]) (g', f', l')"
      proof -
        have m: "(g', f', l') \<in> A" "\<not> active_window ?ws (g', f', l')" using n vA unfolding actw by blast+
        show ?thesis by (rule dext [OF gd(8) [OF m] before [OF m(1)]])
      qed
      then show "case v of (g', f', l') \<Rightarrow> \<not> active_window (og_recovery_windows (rc_gap conn1)) (g', f', l') \<longrightarrow>
          delivered_through D (insert (g, f, l) A) l'" by (simp add: vv conn1_def)
    qed
    moreover have "acks_ok (rc_gap conn1) D (insert (g, f, l) A) (snd (rc_stream conn1))"
    proof -
      have "delivered_through D (insert (g, f, l) A) k \<and> k \<le> l" if "(gr, k) \<in> set (snd (rc_stream conn))" for gr k
      proof -
        have k: "delivered_through D A k" "A \<noteq> {}" "k \<le> og_last_checkpoint_object_id ?gap"
          using acks that by (auto simp: acks_ok_def)
        then have "og_checkpoint_initialized ?gap" using gd(5) by (metis ex_in_conv prod_cases3)
        then have "f = og_last_checkpoint_object_id ?gap + 1" "og_last_checkpoint_object_id ?gap \<noteq> - 1" using fresh(4) by auto
        then have "unat f = unat (og_last_checkpoint_object_id ?gap) + 1" by (simp add: unat_plus_one)
        then have "k < f" using k(3) by (simp add: word_less_nat_alt word_le_nat_alt)
        moreover have "k \<le> l" using calculation fl(1) by (rule less_imp_le [OF less_le_trans])
        ultimately show ?thesis using dext [OF k(1)] by blast
      qed
      then show ?thesis by (auto simp: acks_ok_def conn1_def)
    qed
    moreover have "pool_account others conn1" using pa by (simp add: pool_account_def conn1_def)
    ultimately have "run_ok others conn1 D (insert (g, f, l) A)" by (simp add: run_ok_def)
    then show ?thesis using run_ok_acknowledge [OF max, of others conn1 D "insert (g, f, l) A" env a] r by auto
  qed
qed

lemma recovery_run_ok:
  assumes max: "max_assemblers \<le> HARD_MAX_ASSEMBLERS"
  shows "recovery_run env others max_assemblers a conn D A \<Longrightarrow> run_ok others conn D A"
proof (induction rule: recovery_run.induct)
  case (start conn i l)
  have ws: "og_recovery_windows (rc_gap conn) = replicate 128 zero_window" using start(1) by (simp add: zero_gap_def)
  have "hist_ok (rc_gap conn) {}" using hist_zero by (simp add: start(1))
  then have "gap_ok (rc_gap conn) {} {}"
    by (simp add: gap_ok_def Let_def ws windows_ok_def active_window_def)
  then show ?case using start by (simp add: run_ok_def acks_ok_def)
next
  case (deliver conn D A x g conn')
  then show ?case using run_ok_deliver [OF max deliver.IH, of env x a g] by auto
next
  case (checkpoint conn D A l g f now conn')
  then show ?case using run_ok_checkpoint [OF max checkpoint.IH checkpoint.hyps(2), of env now a] by auto
next
  case (retry conn D A ok conn')
  then show ?case using run_ok_acknowledge [OF max retry.IH, of env a] by auto
qed

section \<open>Properties\<close>

text \<open>
  The bounded history of deliveries is a set. After any sequence of deliveries, in any order
  and with repetitions, the test for a recent delivery holds exactly for the delivered objects
  less than 4096 below the largest one, and the test for any delivery holds exactly for the
  delivered objects and for those that are 4096 or more below a delivered one. The bits moved
  between the 64 words of the mask are never lost or duplicated.
\<close>

theorem delivered_history_exact:
  "(object_is_recently_delivered (foldl mark_object_delivered zero_gap xs) x \<longleftrightarrow>
      x \<in> set xs \<and> (\<forall>y \<in> set xs. unat y < unat x + 4096)) \<and>
   (object_was_delivered (foldl mark_object_delivered zero_gap xs) x \<longleftrightarrow>
      x \<in> set xs \<or> (\<exists>y \<in> set xs. unat x + 4096 \<le> unat y))"
  using hist_query [OF hist_fold [OF hist_zero, of xs], of x] by simp

theorem delivered_history_exact_witness:
  "object_is_recently_delivered (foldl mark_object_delivered zero_gap [5, 70, 3]) 5 \<and>
   \<not> object_is_recently_delivered (foldl mark_object_delivered zero_gap [5, 5000]) 5 \<and>
   object_was_delivered (foldl mark_object_delivered zero_gap [5000]) 5"
  using delivered_history_exact [of "[5, 70, 3]" 5] delivered_history_exact [of "[5, 5000]" 5]
    delivered_history_exact [of "[5000]" 5] by simp


definition example_stream_env :: "unit ack_stream" where
  "example_stream_env = \<lparr>as_checkpoints = True, as_open = (\<lambda>_. True), as_can_accept = (\<lambda>_. True),
     as_write = (\<lambda>s _ _ _. (True, s))\<rparr>"

definition example_recovery :: "(unit \<times> (u64 \<times> u64) list) recovery_conn" where
  "example_recovery = \<lparr>rc_gap = zero_gap, rc_memory = \<lparr>am_bytes = 0, am_limit = 0, am_limit_errors = 0\<rparr>,
     rc_pool = zero_pool, rc_stream = ((), []), rc_acks_sent = 0\<rparr>"

lemma example_recovery_run: "recovery_run example_stream_env 0 1024 7 example_recovery {} {}"
proof (rule recovery_run.start [where i = False and l = 0])
  have "slots_bytes zero_pool = 0" by (simp add: slots_bytes_def zero_pool_def sum_list_triv sum_list_replicate)
  then show "pool_account 0 example_recovery" by (simp add: pool_account_def example_recovery_def pool_ok_zero)
qed (simp_all add: example_recovery_def zero_gap_def)

lemma example_delivered:
  obtains conn where "recovery_run example_stream_env 0 1024 7 conn {4} {}"
proof -
  have "run_ok 0 example_recovery {} {}" by (rule recovery_run_ok [OF _ example_recovery_run]) simp
  then obtain conn where "recovery_mark_delivered (logged example_stream_env) 1024
      (example_recovery\<lparr>rc_gap := mark_object_delivered (rc_gap example_recovery) 4\<rparr>) 7 1 4 = Some conn"
    using run_ok_deliver [of 1024 0 example_recovery "{}" "{}" example_stream_env 4 7 1] by auto
  then show thesis using recovery_run.deliver [OF example_recovery_run] that by blast
qed


text \<open>
  C39. The acknowledgement loop ends and is prompt. From every state of a run it returns; afterwards, if it reports
  success and the control stream could still take an acknowledgement, the earliest active window
  is incomplete, so nothing that could be acknowledged is held back. It touches neither the
  delivery history nor the memory account of the assemblers.
\<close>

theorem acknowledge_ends:
  "max_assemblers \<le> HARD_MAX_ASSEMBLERS \<Longrightarrow> recovery_run env others max_assemblers a conn D A \<Longrightarrow>
   \<exists>ok conn'. acknowledge_completed_recovery_windows (logged env) max_assemblers a conn = Some (ok, conn') \<and>
     recovery_run env others max_assemblers a conn' D A \<and>
     (ok \<and> as_can_accept env (fst (rc_stream conn')) \<longrightarrow>
        (\<forall>w. first_window (og_recovery_windows (rc_gap conn')) = Some w \<longrightarrow> rw_missing_mask w \<noteq> 0)) \<and>
     same_history (rc_gap conn) (rc_gap conn') \<and> pool_account others conn'"
proof -
  assume a: "max_assemblers \<le> HARD_MAX_ASSEMBLERS" "recovery_run env others max_assemblers a conn D A"
  obtain ok conn' where r: "acknowledge_completed_recovery_windows (logged env) max_assemblers a conn = Some (ok, conn')"
    "ack_result env others conn ok conn'"
    using run_ok_acknowledge [OF a(1) recovery_run_ok [OF a], of env a] by blast
  then show ?thesis using recovery_run.retry [OF a(2) r(1)] by (auto simp: ack_result_def Let_def)
qed

theorem acknowledge_ends_witness:
  "\<exists>ok conn'. acknowledge_completed_recovery_windows (logged example_stream_env) 1024 7 example_recovery = Some (ok, conn') \<and>
     pool_account 0 conn'"
  using acknowledge_ends [OF _ example_recovery_run] by auto

end
