(* ===== verification/Completed.thy ===== *)
theory Completed
  imports Assembly
begin

text \<open>
  The objects a connection has completed recently (\<open>transport_protocol.c\<close>, inside
  \<open>on_receive_datagram_frame\<close>): a ring of 2048 identities with a hash index of the same shape as
  that of the assemblers, which suppresses symbols of an object that was already delivered.
\<close>

abbreviation (input) "COMPLETED_OBJECTS \<equiv> (2048 :: nat)"

record completed_object =
  co_generation :: u64
  co_group_id :: u64
  co_object_id :: u64
  co_alias :: u8
  co_active :: bool
  co_hash_next :: u16

record completed_table =
  ct_objects :: "completed_object list"
  ct_cursor :: nat
  ct_buckets :: "u16 list"

definition zero_completed :: completed_table where
  "zero_completed = \<lparr>ct_objects = replicate COMPLETED_OBJECTS \<lparr>co_generation = 0, co_group_id = 0, co_object_id = 0,
     co_alias = 0, co_active = False, co_hash_next = 0\<rparr>, ct_cursor = 0, ct_buckets = replicate ASSEMBLER_BUCKETS 0\<rparr>"

abbreviation (input) completed_next :: "completed_table \<Rightarrow> nat \<Rightarrow> u16" where
  "completed_next c i \<equiv> co_hash_next (ct_objects c ! i)"

definition completed_find :: "completed_table \<Rightarrow> u8 \<Rightarrow> u64 \<Rightarrow> u64 \<Rightarrow> u64 \<Rightarrow> nat option option" where
  "completed_find c alias_id generation group_id object_id =
     chain_find (completed_next c)
       (\<lambda>i. let o' = ct_objects c ! i in co_active o' \<and> co_alias o' = alias_id \<and> co_generation o' = generation \<and>
          co_group_id o' = group_id \<and> co_object_id o' = object_id)
       (ct_buckets c ! transport_receive_bucket alias_id group_id object_id)"

text \<open>The entry under the cursor leaves its chain before it is overwritten.\<close>

definition completed_unlink :: "completed_table \<Rightarrow> nat \<Rightarrow> completed_table option" where
  "completed_unlink c slot =
     (let entry = ct_objects c ! slot;
          bucket = transport_receive_bucket (co_alias entry) (co_group_id entry) (co_object_id entry);
          head = ct_buckets c ! bucket in
      case seek_link (completed_next c) head (slot_ref slot) None of
        None \<Rightarrow> None
      | Some link \<Rightarrow> Some
          (if link_value (completed_next c) head link \<noteq> 0 then
             (case link of
                None \<Rightarrow> c\<lparr>ct_buckets := (ct_buckets c)[bucket := co_hash_next entry]\<rparr>
              | Some i \<Rightarrow> c\<lparr>ct_objects := (ct_objects c)[i := (ct_objects c ! i)\<lparr>co_hash_next := co_hash_next entry\<rparr>]\<rparr>)
           else c))"

definition completed_link :: "completed_table \<Rightarrow> nat \<Rightarrow> u8 \<Rightarrow> u64 \<Rightarrow> u64 \<Rightarrow> u64 \<Rightarrow> completed_table" where
  "completed_link c slot alias_id generation group_id object_id =
     (let bucket = transport_receive_bucket alias_id group_id object_id in
      c\<lparr>ct_objects := (ct_objects c)[slot := \<lparr>co_generation = generation, co_group_id = group_id,
            co_object_id = object_id, co_alias = alias_id, co_active = True, co_hash_next = ct_buckets c ! bucket\<rparr>],
        ct_buckets := (ct_buckets c)[bucket := slot_ref slot]\<rparr>)"

definition completed_remember :: "completed_table \<Rightarrow> u8 \<Rightarrow> u64 \<Rightarrow> u64 \<Rightarrow> u64 \<Rightarrow> completed_table option" where
  "completed_remember c alias_id generation group_id object_id =
     (let completed = ct_cursor c;
          c = c\<lparr>ct_cursor := (completed + 1) mod COMPLETED_OBJECTS\<rparr> in
      case (if co_active (ct_objects c ! completed) then completed_unlink c completed else Some c) of
        None \<Rightarrow> None
      | Some c \<Rightarrow> Some (completed_link c completed alias_id generation group_id object_id))"

section \<open>The index of the table\<close>

type_synonym completion = "u8 \<times> u64 \<times> u64 \<times> u64"

definition completed_wf :: "completed_table \<Rightarrow> bool" where
  "completed_wf c \<longleftrightarrow> length (ct_objects c) = COMPLETED_OBJECTS \<and> length (ct_buckets c) = ASSEMBLER_BUCKETS"

definition completed_head :: "completed_table \<Rightarrow> nat \<Rightarrow> u16" where
  "completed_head c b = (if b < ASSEMBLER_BUCKETS then ct_buckets c ! b else 0)"

definition completed_live :: "completed_table \<Rightarrow> nat \<Rightarrow> bool" where
  "completed_live c i = co_active (ct_objects c ! i)"

definition completed_key :: "completed_table \<Rightarrow> nat \<Rightarrow> completion" where
  "completed_key c i = (let e = ct_objects c ! i in (co_alias e, co_generation e, co_group_id e, co_object_id e))"

definition completion_bucket :: "completion \<Rightarrow> nat" where
  "completion_bucket = (\<lambda>(t, n, g, i). transport_receive_bucket t g i)"

text \<open>The two operations as the index sees them: an unlinked entry is no longer live.\<close>

definition link_completion :: "completed_table \<Rightarrow> nat \<Rightarrow> completion \<Rightarrow> completed_table" where
  "link_completion c i = (\<lambda>(t, n, g, ob). completed_link c i t n g ob)"

definition clear_completion :: "completed_table \<Rightarrow> nat \<Rightarrow> completed_table" where
  "clear_completion c i = c\<lparr>ct_objects := (ct_objects c)[i := (ct_objects c ! i)\<lparr>co_active := False\<rparr>]\<rparr>"

definition unlink_completion :: "completed_table \<Rightarrow> nat \<Rightarrow> completed_table option" where
  "unlink_completion c i = map_option (\<lambda>c. clear_completion c i) (completed_unlink c i)"

lemma link_completion_law:
  assumes wf: "completed_wf s" and i: "i < COMPLETED_OBJECTS" and r: "link_completion s i k = s'"
  shows "completed_wf s' \<and> (\<forall>b. completed_head s' b = (if b = completion_bucket k then slot_ref i else completed_head s b)) \<and>
      (\<forall>j < COMPLETED_OBJECTS. completed_next s' j =
         (if j = i then completed_head s (completion_bucket k) else completed_next s j) \<and>
         completed_live s' j = (j = i \<or> completed_live s j) \<and> completed_key s' j = (if j = i then k else completed_key s j))"
proof -
  obtain t n g ob where k: "k = (t, n, g, ob)" by (cases k)
  have l: "length (ct_objects s) = 2048" "length (ct_buckets s) = 2048" using wf by (simp_all add: completed_wf_def)
  have b: "transport_receive_bucket t g ob < 2048" using receive_bucket_less by simp
  show ?thesis using l b i unfolding r [symmetric] k
    by (auto simp: link_completion_def completed_link_def completed_wf_def completed_head_def completed_live_def
        completed_key_def completion_bucket_def Let_def nth_list_update)
qed

lemma unlink_completion_law:
  assumes wf: "completed_wf s" and i: "i < COMPLETED_OBJECTS" and live: "completed_live s i"
    and sk: "seek_link (completed_next s) (completed_head s (completion_bucket (completed_key s i))) (slot_ref i) None = Some l"
    and l: "case l of None \<Rightarrow> True | Some j \<Rightarrow> j < COMPLETED_OBJECTS"
    and v: "link_value (completed_next s) (completed_head s (completion_bucket (completed_key s i))) l = slot_ref i"
  shows "\<exists>s'. unlink_completion s i = Some s' \<and> completed_wf s' \<and>
        (\<forall>b. completed_head s' b = (if l = None \<and> b = completion_bucket (completed_key s i)
           then completed_next s i else completed_head s b)) \<and>
        (\<forall>j < COMPLETED_OBJECTS. j \<noteq> i \<longrightarrow> completed_next s' j =
           (if l = Some j then completed_next s i else completed_next s j) \<and>
           completed_key s' j = completed_key s j) \<and>
        (\<forall>j < COMPLETED_OBJECTS. completed_live s' j = (j \<noteq> i \<and> completed_live s j))"
proof -
  let ?e = "ct_objects s ! i"
  let ?b = "transport_receive_bucket (co_alias ?e) (co_group_id ?e) (co_object_id ?e)"
  have len: "length (ct_objects s) = 2048" "length (ct_buckets s) = 2048" using wf by (simp_all add: completed_wf_def)
  have kb: "completion_bucket (completed_key s i) = ?b" by (simp add: completion_bucket_def completed_key_def Let_def)
  have b: "?b < 2048" using receive_bucket_less by simp
  have h: "completed_head s ?b = ct_buckets s ! ?b" using b by (simp add: completed_head_def)
  have nz: "slot_ref i \<noteq> 0" using i slot_ref_nonzero [of i] by simp
  note sk' = sk [unfolded kb h] and v' = v [unfolded kb h]
  show ?thesis
  proof (cases l)
    case None
    let ?s = "clear_completion (s\<lparr>ct_buckets := (ct_buckets s)[?b := co_hash_next ?e]\<rparr>) i"
    have "unlink_completion s i = Some ?s"
      using sk' v' None nz by (simp add: unlink_completion_def completed_unlink_def Let_def)
    moreover have "completed_wf ?s" using len by (simp add: completed_wf_def clear_completion_def)
    moreover have "completed_head ?s b' = (if b' = ?b then completed_next s i else completed_head s b')" for b'
      using b len by (simp add: completed_head_def clear_completion_def nth_list_update)
    ultimately show ?thesis using len i None unfolding kb
      by (intro exI [of _ ?s]) (simp add: completed_key_def completed_live_def clear_completion_def Let_def nth_list_update)
  next
    case (Some m)
    have m: "m < 2048" using l Some by simp
    let ?s = "clear_completion (s\<lparr>ct_objects := (ct_objects s)[m := (ct_objects s ! m)\<lparr>co_hash_next := co_hash_next ?e\<rparr>]\<rparr>) i"
    have "unlink_completion s i = Some ?s"
      using sk' v' Some nz by (simp add: unlink_completion_def completed_unlink_def Let_def)
    moreover have "completed_wf ?s" using len by (simp add: completed_wf_def clear_completion_def)
    moreover have "completed_head ?s b' = completed_head s b'" for b' by (simp add: completed_head_def clear_completion_def)
    ultimately show ?thesis using len i m Some
      by (intro exI [of _ ?s]) (auto simp: completed_key_def completed_live_def clear_completion_def Let_def nth_list_update)
  qed
qed

interpretation completed: hash_index COMPLETED_OBJECTS completion_bucket completed_head "\<lambda>c. completed_next c"
    completed_live completed_key completed_wf link_completion unlink_completion
proof unfold_locales
  show "COMPLETED_OBJECTS < 65535" by simp
qed (rule link_completion_law unlink_completion_law; assumption)+

section \<open>The table is a window of the last completions\<close>

text \<open>
  \<open>completed_holds c hs\<close>: the table holds exactly the last 2048 of the completions \<open>hs\<close>, the
  \<open>j\<close>-th of them in slot \<open>j mod 2048\<close>.
\<close>

definition completed_holds :: "completed_table \<Rightarrow> completion list \<Rightarrow> bool" where
  "completed_holds c hs \<longleftrightarrow> completed_wf c \<and> completed.indexed c \<and> ct_cursor c = length hs mod COMPLETED_OBJECTS \<and>
     (\<forall>j < length hs. length hs \<le> j + COMPLETED_OBJECTS \<longrightarrow>
        completed_live c (j mod COMPLETED_OBJECTS) \<and> completed_key c (j mod COMPLETED_OBJECTS) = hs ! j) \<and>
     (\<forall>i < COMPLETED_OBJECTS. completed_live c i \<longrightarrow> (\<exists>j < length hs. length hs \<le> j + COMPLETED_OBJECTS \<and> j mod COMPLETED_OBJECTS = i))"

definition last_completions :: "completion list \<Rightarrow> completion list" where
  "last_completions hs = drop (length hs - COMPLETED_OBJECTS) hs"

lemma set_last_completions:
  "x \<in> set (last_completions hs) \<longleftrightarrow> (\<exists>j < length hs. length hs \<le> j + COMPLETED_OBJECTS \<and> hs ! j = x)"
proof -
  let ?n = "length hs - COMPLETED_OBJECTS"
  have "x \<in> set (drop ?n hs) \<longleftrightarrow> (\<exists>k < length hs - ?n. hs ! (?n + k) = x)"
    by (auto simp: in_set_conv_nth)
  also have "\<dots> \<longleftrightarrow> (\<exists>j < length hs. length hs \<le> j + COMPLETED_OBJECTS \<and> hs ! j = x)"
  proof
    assume "\<exists>k < length hs - ?n. hs ! (?n + k) = x"
    then obtain k where "k < length hs - ?n" "hs ! (?n + k) = x" by blast
    then show "\<exists>j < length hs. length hs \<le> j + COMPLETED_OBJECTS \<and> hs ! j = x"
      by (intro exI [of _ "?n + k"]) auto
  next
    assume "\<exists>j < length hs. length hs \<le> j + COMPLETED_OBJECTS \<and> hs ! j = x"
    then obtain j where "j < length hs" "length hs \<le> j + COMPLETED_OBJECTS" "hs ! j = x" by blast
    then show "\<exists>k < length hs - ?n. hs ! (?n + k) = x" by (intro exI [of _ "j - ?n"]) auto
  qed
  finally show ?thesis by (simp add: last_completions_def)
qed

lemma completed_holds_zero: "completed_holds zero_completed []"
proof -
  have lv: "\<not> completed_live zero_completed i" if "i < COMPLETED_OBJECTS" for i
    using that by (simp add: completed_live_def zero_completed_def)
  have hd: "completed_head zero_completed b = 0" for b by (simp add: completed_head_def zero_completed_def)
  have "completed.indexed zero_completed"
    unfolding chain_index_def hd by (intro allI exI [of _ "[]"]) (use lv in \<open>auto simp: chain_Nil_iff\<close>)
  moreover have "completed_wf zero_completed" "ct_cursor zero_completed = 0" by (simp_all add: completed_wf_def zero_completed_def)
  ultimately show ?thesis using lv by (simp add: completed_holds_def)
qed

lemma completed_find_ok:
  assumes ok: "completed_holds c hs"
  shows "\<exists>r. completed_find c t n g ob = Some r \<and> (r \<noteq> None \<longleftrightarrow> (t, n, g, ob) \<in> set (last_completions hs))"
proof -
  let ?P = "\<lambda>i. let o' = ct_objects c ! i in co_active o' \<and> co_alias o' = t \<and> co_generation o' = n \<and>
          co_group_id o' = g \<and> co_object_id o' = ob" and ?b = "transport_receive_bucket t g ob"
  have ix: "completed.indexed c" using ok by (simp add: completed_holds_def)
  have P: "?P i \<longleftrightarrow> completed_live c i \<and> completed_key c i = (t, n, g, ob)" for i
    by (auto simp: completed_key_def completed_live_def Let_def)
  have h: "completed_head c ?b = ct_buckets c ! ?b" using receive_bucket_less by (simp add: completed_head_def)
  from completed.lookup [OF ix, of ?P ?b] obtain r where
    r: "chain_find (completed_next c) ?P (completed_head c ?b) = Some r"
      "case r of None \<Rightarrow> \<forall>i < COMPLETED_OBJECTS. completed_live c i \<longrightarrow> completion_bucket (completed_key c i) = ?b \<longrightarrow> \<not> ?P i
       | Some i \<Rightarrow> i < COMPLETED_OBJECTS \<and> completed_live c i \<and> completion_bucket (completed_key c i) = ?b \<and> ?P i" by blast
  have f: "completed_find c t n g ob = Some r" unfolding completed_find_def using r(1) unfolding h .
  have "r \<noteq> None \<longleftrightarrow> (\<exists>i < COMPLETED_OBJECTS. completed_live c i \<and> completed_key c i = (t, n, g, ob))"
    using r(2) unfolding P by (cases r) (auto simp: completion_bucket_def)
  also have "\<dots> \<longleftrightarrow> (t, n, g, ob) \<in> set (last_completions hs)"
  proof
    assume "\<exists>i < COMPLETED_OBJECTS. completed_live c i \<and> completed_key c i = (t, n, g, ob)"
    then obtain i where i: "i < COMPLETED_OBJECTS" "completed_live c i" "completed_key c i = (t, n, g, ob)" by blast
    then obtain j where j: "j < length hs" "length hs \<le> j + COMPLETED_OBJECTS" "j mod COMPLETED_OBJECTS = i"
      using ok unfolding completed_holds_def by blast
    then have "hs ! j = (t, n, g, ob)" using ok i(3) unfolding completed_holds_def by metis
    then show "(t, n, g, ob) \<in> set (last_completions hs)" using j unfolding set_last_completions by blast
  next
    assume "(t, n, g, ob) \<in> set (last_completions hs)"
    then obtain j where "j < length hs" "length hs \<le> j + COMPLETED_OBJECTS" "hs ! j = (t, n, g, ob)"
      unfolding set_last_completions by blast
    then show "\<exists>i < COMPLETED_OBJECTS. completed_live c i \<and> completed_key c i = (t, n, g, ob)"
      using ok unfolding completed_holds_def by (intro exI [of _ "j mod COMPLETED_OBJECTS"]) simp
  qed
  finally show ?thesis using f by blast
qed

lemma completed_unlink_cursor: "completed_unlink c i = Some c' \<Longrightarrow> ct_cursor c' = ct_cursor c"
  by (auto simp: completed_unlink_def Let_def split: option.splits if_splits)

lemma link_cleared: "completed_link (clear_completion c i) i t n g ob = completed_link c i t n g ob"
  by (simp add: completed_link_def clear_completion_def Let_def)

text \<open>Taking the entry under the cursor out of its chain and linking the new one in its place.\<close>

lemma completed_replace_ok:
  assumes ix: "completed.indexed c" and wf: "completed_wf c" and i: "i < COMPLETED_OBJECTS"
  shows "\<exists>c'. (if co_active (ct_objects c ! i) then completed_unlink c i else Some c) = Some c' \<and> ct_cursor c' = ct_cursor c \<and>
    completed.indexed (completed_link c' i t n g ob) \<and> completed_wf (completed_link c' i t n g ob) \<and>
    (\<forall>j < COMPLETED_OBJECTS. completed_live (completed_link c' i t n g ob) j = (j = i \<or> completed_live c j) \<and>
       completed_key (completed_link c' i t n g ob) j = (if j = i then (t, n, g, ob) else completed_key c j))"
proof (cases "completed_live c i")
  case True
  then obtain s where s: "unlink_completion c i = Some s" "completed.indexed s" "completed_wf s"
      "\<forall>j < COMPLETED_OBJECTS. completed_live s j = (j \<noteq> i \<and> completed_live c j)"
      "\<forall>j < COMPLETED_OBJECTS. j \<noteq> i \<longrightarrow> completed_key s j = completed_key c j"
    using completed.indexed_unlink [OF ix wf i] by blast
  obtain c' where c': "completed_unlink c i = Some c'" "s = clear_completion c' i"
    using s(1) by (auto simp: unlink_completion_def)
  have e: "link_completion s i (t, n, g, ob) = completed_link c' i t n g ob"
    by (simp add: link_completion_def c'(2) link_cleared)
  have nl: "\<not> completed_live s i" using s(4) i by blast
  note q = completed.indexed_link [OF s(2,3) i nl, of "(t, n, g, ob)", unfolded e]
  note law = link_completion_law [OF s(3) i e]
  show ?thesis
    by (rule exI [of _ c']) (use c' completed_unlink_cursor [OF c'(1)] True q law s(4,5) in \<open>auto simp: completed_live_def\<close>)
next
  case False
  have e: "link_completion c i (t, n, g, ob) = completed_link c i t n g ob" by (simp add: link_completion_def)
  note q = completed.indexed_link [OF ix wf i False, of "(t, n, g, ob)", unfolded e]
  note law = link_completion_law [OF wf i e]
  show ?thesis by (rule exI [of _ c]) (use False q law in \<open>auto simp: completed_live_def\<close>)
qed

lemma completed_remember_ok:
  assumes ok: "completed_holds c hs"
  shows "\<exists>c'. completed_remember c t n g ob = Some c' \<and> completed_holds c' (hs @ [(t, n, g, ob)])"
proof -
  let ?i = "ct_cursor c" and ?c = "c\<lparr>ct_cursor := (ct_cursor c + 1) mod COMPLETED_OBJECTS\<rparr>" and ?N = "length hs"
  have same: "completed_live ?c = completed_live c" "completed_key ?c = completed_key c" "completed_head ?c = completed_head c"
    by (simp_all add: completed_live_def completed_key_def completed_head_def fun_eq_iff)
  have ix: "completed.indexed ?c" "completed_wf ?c" using ok unfolding completed_holds_def same by (simp_all add: completed_wf_def)
  have i: "?i < COMPLETED_OBJECTS" "?i = ?N mod COMPLETED_OBJECTS" using ok by (simp_all add: completed_holds_def)
  from completed_replace_ok [OF ix i(1), of t n g ob] obtain c1 where c1:
      "(if co_active (ct_objects ?c ! ?i) then completed_unlink ?c ?i else Some ?c) = Some c1" "ct_cursor c1 = ct_cursor ?c"
      "completed.indexed (completed_link c1 ?i t n g ob)" "completed_wf (completed_link c1 ?i t n g ob)"
      "\<forall>j < COMPLETED_OBJECTS. completed_live (completed_link c1 ?i t n g ob) j = (j = ?i \<or> completed_live ?c j) \<and>
       completed_key (completed_link c1 ?i t n g ob) j = (if j = ?i then (t, n, g, ob) else completed_key ?c j)" by blast
  let ?d = "completed_link c1 ?i t n g ob" and ?hs = "hs @ [(t, n, g, ob)]"
  have r: "completed_remember c t n g ob = Some ?d"
    unfolding completed_remember_def Let_def using c1(1) by simp
  have cur: "ct_cursor ?d = length ?hs mod COMPLETED_OBJECTS"
    using c1(2) i(2) by (simp add: completed_link_def Let_def mod_simps)
  have old: "completed_live ?d (j mod COMPLETED_OBJECTS) \<and> completed_key ?d (j mod COMPLETED_OBJECTS) = ?hs ! j"
    if j: "j < length ?hs" "length ?hs \<le> j + COMPLETED_OBJECTS" for j
  proof (cases "j = ?N")
    case True
    then show ?thesis using c1(5) i by (simp add: nth_append)
  next
    case False
    then have jN: "j < ?N" "?N \<le> j + COMPLETED_OBJECTS" "?N - j < COMPLETED_OBJECTS" using j by simp_all
    have "j mod COMPLETED_OBJECTS \<noteq> ?i"
    proof
      assume "j mod COMPLETED_OBJECTS = ?i"
      then have "COMPLETED_OBJECTS dvd ?N - j" using jN(1) i(2) mod_eq_dvd_iff_nat [of j ?N COMPLETED_OBJECTS] by simp
      then show False using jN by (auto dest: dvd_imp_le)
    qed
    moreover have "completed_live c (j mod COMPLETED_OBJECTS) \<and> completed_key c (j mod COMPLETED_OBJECTS) = hs ! j"
      using ok jN unfolding completed_holds_def by blast
    ultimately show ?thesis using c1(5) jN(1) unfolding same by (simp add: nth_append)
  qed
  have only: "\<exists>j < length ?hs. length ?hs \<le> j + COMPLETED_OBJECTS \<and> j mod COMPLETED_OBJECTS = k"
    if k: "k < COMPLETED_OBJECTS" "completed_live ?d k" for k
  proof (cases "k = ?i")
    case True
    then show ?thesis using i(2) by (intro exI [of _ ?N]) simp
  next
    case False
    then have "completed_live c k" using c1(5) k unfolding same by blast
    then obtain j where j: "j < ?N" "?N \<le> j + COMPLETED_OBJECTS" "j mod COMPLETED_OBJECTS = k"
      using ok k(1) unfolding completed_holds_def by blast
    have "?N \<noteq> j + COMPLETED_OBJECTS" using j(3) False i(2) by auto
    then show ?thesis using j by (intro exI [of _ j]) simp
  qed
  have "completed_holds ?d ?hs" unfolding completed_holds_def using c1(3,4) cur old only by blast
  then show ?thesis using r by blast
qed
end
