(* ===== verification/Telemetry.thy ===== *)
theory Telemetry
  imports Wire Paths
begin

text \<open>
  One way delays (\<open>transport_protocol.c\<close>, the telemetry part of \<open>on_receive_datagram_frame\<close>). A
  telemetry reply carries the QUIC path and two clock readings; the delay above the smallest one
  seen is kept per physical path. The path statistics of quicly and the number format of pathflow
  are arguments, as in \<open>Paths\<close>. The six arrays of the connection are one list of records.
\<close>

record owd_path =
  ow_min :: int
  ow_initialized :: bool
  ow_path :: nat
  ow_latest_fp :: int
  ow_last_s :: u64
  ow_last_r :: u64

abbreviation (input) "INT64_MAX \<equiv> (0x7fffffffffffffff :: u64)"
abbreviation (input) "OWD_DISCONTINUITY_NS \<equiv> (10000000000 :: u64)"

datatype telemetry_result = Ignored | Malformed | Accepted "owd_path list"

text \<open>The wire names a QUIC path; scheduling state follows the physical socket with its address.\<close>

definition telemetry_link :: "(nat \<Rightarrow> path_stats option) \<Rightarrow> (nat \<Rightarrow> bool) \<Rightarrow> sockaddr list \<Rightarrow> nat \<Rightarrow> nat option" where
  "telemetry_link query available local_addrs path_id =
     (case query path_id of
        None \<Rightarrow> None
      | Some path \<Rightarrow> if available path_id then first_index (transport_path_matches_local path) local_addrs else None)"

definition owd_sample :: "fixed \<Rightarrow> wire_telemetry \<Rightarrow> owd_path \<Rightarrow> owd_path" where
  "owd_sample fp telemetry p =
     (let s_ns = te_send_time_ns telemetry; r_ns = te_recv_time_ns telemetry;
          path_id = unat (te_path_id telemetry);
          current = uint r_ns - uint s_ns;
          fresh = (\<not> ow_initialized p \<or> ow_path p \<noteq> path_id \<or> current < ow_min p);
          relative = (if fresh then 0 else word_of_int current - word_of_int (ow_min p) :: u64);
          baseline = (if fresh then current else if relative > OWD_DISCONTINUITY_NS then current else ow_min p);
          relative = (if relative > OWD_DISCONTINUITY_NS then 0 else relative) in
      \<lparr>ow_min = baseline, ow_initialized = True, ow_path = path_id,
       ow_latest_fp = fp_from_int fp (unat (relative div 1000)) sdiv 1000000, ow_last_s = s_ns, ow_last_r = r_ns\<rparr>)"

definition receive_telemetry ::
  "fixed \<Rightarrow> (nat \<Rightarrow> path_stats option) \<Rightarrow> (nat \<Rightarrow> bool) \<Rightarrow> sockaddr list \<Rightarrow> owd_path list \<Rightarrow> bytes \<Rightarrow> telemetry_result" where
  "receive_telemetry fp query available local_addrs paths payload =
     (case qlinq_wire_decode_telemetry payload of
        Inl _ \<Rightarrow> Malformed
      | Inr telemetry \<Rightarrow>
          (case telemetry_link query available local_addrs (unat (te_path_id telemetry)) of
             None \<Rightarrow> Ignored
           | Some pid \<Rightarrow>
               if te_send_time_ns telemetry > INT64_MAX \<or> te_recv_time_ns telemetry > INT64_MAX then Malformed
               else if ow_initialized (paths ! pid) \<and> ow_path (paths ! pid) = unat (te_path_id telemetry) \<and>
                 te_send_time_ns telemetry \<le> ow_last_s (paths ! pid) then Ignored
               else Accepted (paths[pid := owd_sample fp telemetry (paths ! pid)])))"

section \<open>The delay is exact\<close>

text \<open>A difference of two nonnegative 64 bit readings.\<close>

definition reading_difference :: "int \<Rightarrow> bool" where
  "reading_difference d \<longleftrightarrow> \<bar>d\<bar> < 2 ^ 63"

lemma difference_of_readings:
  assumes "s \<le> INT64_MAX" "r \<le> INT64_MAX"
  shows "reading_difference (uint r - uint s)"
proof -
  have "uint s \<le> 2 ^ 63 - 1" "uint r \<le> 2 ^ 63 - 1" using assms by (simp_all add: word_le_def)
  moreover have "0 \<le> uint s" "0 \<le> uint r" by simp_all
  ultimately show ?thesis unfolding reading_difference_def abs_less_iff by linarith
qed

lemma unsigned_difference:
  assumes "reading_difference c" "reading_difference m" "m \<le> c"
  shows "int (unat (word_of_int c - word_of_int m :: u64)) = c - m"
proof -
  have b: "0 \<le> c - m" "c - m < 2 ^ 64" using assms by (simp_all add: reading_difference_def abs_less_iff)
  have "uint (word_of_int c - word_of_int m :: u64) = (c - m) mod 2 ^ 64"
    by (simp only: wi_hom_sub uint_word_of_int) simp
  also have "\<dots> = c - m" using b by simp
  finally show ?thesis by simp
qed

lemma owd_sample_exact:
  assumes s: "te_send_time_ns t \<le> INT64_MAX" and r: "te_recv_time_ns t \<le> INT64_MAX" and m: "reading_difference (ow_min p)"
  defines "c \<equiv> uint (te_recv_time_ns t) - uint (te_send_time_ns t)"
  shows "let p' = owd_sample fp t p in
    ow_min p' = (if ow_initialized p \<and> ow_path p = unat (te_path_id t) \<and> ow_min p \<le> c \<and> c \<le> ow_min p + 10000000000
      then ow_min p else c) \<and>
    0 \<le> c - ow_min p' \<and> c - ow_min p' \<le> 10000000000 \<and>
    ow_latest_fp p' = fp_from_int fp (nat (c - ow_min p') div 1000) sdiv 1000000 \<and> reading_difference (ow_min p')"
proof -
  have c: "reading_difference c" unfolding c_def by (rule difference_of_readings [OF s r])
  show ?thesis
  proof (cases "ow_initialized p \<and> ow_path p = unat (te_path_id t) \<and> ow_min p \<le> c")
    case False
    then have fresh: "(\<not> ow_initialized p \<or> ow_path p \<noteq> unat (te_path_id t) \<or> c < ow_min p) = True" by auto
    have not_old: "(ow_initialized p \<and> ow_path p = unat (te_path_id t) \<and> ow_min p \<le> c \<and> c \<le> ow_min p + 10000000000) = False"
      using False by blast
    show ?thesis using c unfolding owd_sample_def Let_def c_def [symmetric] fresh not_old by simp
  next
    case True
    then have old: "(\<not> ow_initialized p \<or> ow_path p \<noteq> unat (te_path_id t) \<or> c < ow_min p) = False" by auto
    define rel :: u64 where "rel = word_of_int c - word_of_int (ow_min p)"
    have rel: "unat rel = nat (c - ow_min p)"
      using unsigned_difference [OF c m] True unfolding rel_def [symmetric] by linarith
    have big: "rel > OWD_DISCONTINUITY_NS \<longleftrightarrow> c > ow_min p + 10000000000"
      unfolding word_less_nat_alt rel using True by simp linarith
    have div: "unat (rel div 1000) = nat (c - ow_min p) div 1000" by (simp add: unat_div rel)
    show ?thesis
    proof (cases "c > ow_min p + 10000000000")
      case gt: True
      then show ?thesis using True c big unfolding owd_sample_def Let_def c_def [symmetric] old rel_def [symmetric] by simp
    next
      case le: False
      then show ?thesis using True m big div unfolding owd_sample_def Let_def c_def [symmetric] old rel_def [symmetric] by simp
    qed
  qed
qed

section \<open>Properties\<close>

text \<open>
  Queueing delays come out exact and bounded. A telemetry reply is taken only from a usable path
  whose address is that of the physical link it is recorded under, and only when it was sent later than the one
  before it on the same QUIC path. The recorded delay is then the difference of the two clock
  readings above the baseline, without wrap-around, between zero and ten seconds; the baseline
  falls to a smaller difference, is replaced after a change of path or a jump of more than ten
  seconds, and is kept otherwise. The other links are left alone.
\<close>

theorem telemetry_delay_exact:
  assumes "receive_telemetry fp query available local_addrs paths payload = Accepted paths'"
    and "\<forall>p \<in> set paths. reading_difference (ow_min p)" and "length local_addrs \<le> length paths"
  shows "\<exists>t pid path. qlinq_wire_decode_telemetry payload = Inr t \<and> query (unat (te_path_id t)) = Some path \<and>
    available (unat (te_path_id t)) \<and> pid < length local_addrs \<and> transport_path_matches_local path (local_addrs ! pid) \<and>
    (let p = paths ! pid; p' = paths' ! pid; c = uint (te_recv_time_ns t) - uint (te_send_time_ns t) in
       (ow_initialized p \<and> ow_path p = unat (te_path_id t) \<longrightarrow> ow_last_s p < te_send_time_ns t) \<and>
       ow_min p' = (if ow_initialized p \<and> ow_path p = unat (te_path_id t) \<and> ow_min p \<le> c \<and> c \<le> ow_min p + 10000000000
         then ow_min p else c) \<and>
       0 \<le> c - ow_min p' \<and> c - ow_min p' \<le> 10000000000 \<and>
       ow_latest_fp p' = fp_from_int fp (nat (c - ow_min p') div 1000) sdiv 1000000 \<and>
       paths' = paths[pid := p']) \<and>
    (\<forall>p \<in> set paths'. reading_difference (ow_min p))"
proof -
  obtain t where t: "qlinq_wire_decode_telemetry payload = Inr t"
    using assms(1) by (auto simp: receive_telemetry_def split: sum.splits)
  note r = assms(1) [unfolded receive_telemetry_def t sum.case]
  obtain pid where pid: "telemetry_link query available local_addrs (unat (te_path_id t)) = Some pid"
    using r by (auto split: option.splits)
  obtain path where path: "query (unat (te_path_id t)) = Some path" "available (unat (te_path_id t))"
    "first_index (transport_path_matches_local path) local_addrs = Some pid"
    using pid by (auto simp: telemetry_link_def split: option.splits if_splits)
  have l: "pid < length local_addrs" "transport_path_matches_local path (local_addrs ! pid)"
    using path(3) by (simp_all add: first_index_Some)
  have lp: "pid < length paths" using l(1) assms(3) by simp
  note r = r [unfolded pid option.case]
  have times: "te_send_time_ns t \<le> INT64_MAX" "te_recv_time_ns t \<le> INT64_MAX"
    using r by (auto simp: not_less split: if_splits)
  have order: "ow_initialized (paths ! pid) \<and> ow_path (paths ! pid) = unat (te_path_id t) \<longrightarrow>
    ow_last_s (paths ! pid) < te_send_time_ns t" using r by (auto simp: not_le split: if_splits)
  have p': "paths' = paths[pid := owd_sample fp t (paths ! pid)]" using r by (auto split: if_splits)
  have "reading_difference (ow_min (paths ! pid))" using assms(2) lp by simp
  note ex = owd_sample_exact [OF times this, of fp, unfolded Let_def]
  have at: "paths' ! pid = owd_sample fp t (paths ! pid)" using lp by (simp add: p')
  have keep: "\<forall>p \<in> set paths'. reading_difference (ow_min p)"
    using assms(2) ex set_update_subset_insert [of paths pid "owd_sample fp t (paths ! pid)"] unfolding p' by blast
  show ?thesis
    by (intro exI [of _ t] exI [of _ pid] exI [of _ path] conjI keep)
      (use t path l order ex lp in \<open>simp_all add: Let_def at p'\<close>)
qed

section \<open>Witnesses\<close>

definition example_fixed :: fixed where
  "example_fixed = \<lparr>fp_one = 65536, fp_safe_whole = 1000, fp_from_int = (\<lambda>n. int n * 65536),
     fp_from_float = (\<lambda>n d. int n * 65536 div int d), fp_add = (+), fp_div = (\<lambda>a b. a * 65536 div b), fp_max = 10 ^ 18\<rparr>"

definition example_owd :: owd_path where
  "example_owd = \<lparr>ow_min = 100, ow_initialized = True, ow_path = 3, ow_latest_fp = 0, ow_last_s = 5, ow_last_r = 105\<rparr>"

definition example_reply :: bytes where
  "example_reply = (case qlinq_wire_encode_telemetry 24 \<lparr>te_path_id = 3, te_send_time_ns = 1000, te_recv_time_ns = 4001100\<rparr> of
     Inr bs \<Rightarrow> bs | Inl _ \<Rightarrow> [])"

definition example_path_stats :: path_stats where
  "example_path_stats = \<lparr>ps_local = Sockaddr_in 4433 7, ps_remote = Sockaddr_in 9 9, ps_rtt_smoothed = 10, ps_cwnd = 0,
     ps_bytes_in_flight = 0, ps_sent = 0, ps_lost = 0, ps_acked = 0, ps_bytes_acked = 0\<rparr>"

lemma telemetry_delay_exact_witness:
  "\<exists>paths'. receive_telemetry example_fixed (\<lambda>_. Some example_path_stats) (\<lambda>_. True) [Sockaddr_in 1 7] [example_owd] example_reply = Accepted paths' \<and>
     ow_min (paths' ! 0) = 100 \<and> 0 \<le> (4001100 - 1000) - ow_min (paths' ! 0)"
proof -
  have r: "receive_telemetry example_fixed (\<lambda>_. Some example_path_stats) (\<lambda>_. True) [Sockaddr_in 1 7] [example_owd] example_reply =
      Accepted [\<lparr>ow_min = 100, ow_initialized = True, ow_path = 3, ow_latest_fp = 262, ow_last_s = 1000, ow_last_r = 4001100\<rparr>]"
    by code_simp
  have "\<forall>p \<in> set [example_owd]. reading_difference (ow_min p)" "length [Sockaddr_in 1 7] \<le> length [example_owd]"
    by (simp_all add: example_owd_def reading_difference_def)
  from telemetry_delay_exact [OF r this] show ?thesis using r by simp
qed

end
