(* ===== verification/Receive.thy ===== *)
theory Receive
  imports Completed Recovery Telemetry SentCache "HOL-Library.Monad_Syntax"
begin

text \<open>
  The receiver of coded objects (\<open>transport_protocol.c\<close>, \<open>on_receive_datagram_frame\<close>) and what else
  changes its state: the timeout of assemblers in \<open>transport_tick\<close>, recovery checkpoints, and the
  application, which may subscribe and unsubscribe (\<open>transport_quicly.c\<close>) between the calls and from
  within every event callback.

  A \<open>receiver\<close> is the part of \<open>transport_conn_t\<close> and \<open>transport_t\<close> that these functions use.
  \<open>rx_world\<close> is everything behind it, the QUIC connection and its control stream among it, with the
  operations of \<open>receive_env\<close>; the clock, the results of the allocators and the calls the
  application makes in a callback are in the environment too, which may be another one for every
  step. \<open>rx_events\<close> lists the events that were handed to the application. A handler returns \<open>None\<close>
  when a loop of it would not end, or when it would dereference NULL.
\<close>

section \<open>State and environment\<close>

datatype receive_event =
    Event_object moq_track_id u64 u64 bytes bool u8
  | Event_object_lost moq_track_id u64 u64

text \<open>What an application may call; \<open>App_other\<close> is any call that leaves the receiver alone.\<close>

datatype 's app_call =
    App_subscribe moq_track_id
  | App_unsubscribe moq_track_id
  | App_other "'s \<Rightarrow> 's"

record receive_stats =
  rs_datagrams_received :: nat
  rs_conn_datagrams_received :: nat
  rs_malformed_datagrams :: nat
  rs_conn_malformed_datagrams :: nat
  rs_protocol_errors :: nat
  rs_duplicates_suppressed :: nat
  rs_objects_lost :: nat
  rs_objects_recovered :: nat
  rs_events_emitted :: nat

record 's receiver =
  rx_table :: subscription_table
  rx_pool :: assembler_pool
  rx_memory :: assembler_memory
  rx_completed :: completed_table
  rx_fec_cache :: "fec_cache_entry list"
  rx_owd :: "owd_path list"
  rx_queued_datagrams :: "u16 list"
  rx_acks_sent :: nat
  rx_stats :: receive_stats
  rx_events :: "receive_event list"
  rx_world :: 's

record 's receive_env =
  ev_ack :: "'s ack_stream"
  ev_authenticated :: bool
  ev_ready :: bool
  ev_closing :: "'s \<Rightarrow> bool"
  ev_close :: "'s \<Rightarrow> 's"
  ev_write_track :: "'s \<Rightarrow> u8 \<Rightarrow> u8 \<Rightarrow> moq_track_id \<Rightarrow> bool \<times> 's"
  ev_shutdown :: "'s \<Rightarrow> stream_handle \<Rightarrow> 's"
  ev_path_stats :: "'s \<Rightarrow> nat \<Rightarrow> path_stats option"
  ev_path_available :: "'s \<Rightarrow> nat \<Rightarrow> bool"
  ev_path_datagrams :: "'s \<Rightarrow> nat \<Rightarrow> nat"
  ev_send_datagram :: "'s \<Rightarrow> nat \<Rightarrow> bytes \<Rightarrow> 's"
  ev_local_addrs :: "sockaddr list"
  ev_fixed :: fixed
  ev_max_assemblers :: nat
  ev_max_fec_object_size :: u32
  ev_max_subscriptions :: nat
  ev_assembler_timeout_ms :: u32
  ev_rtt :: "nat \<Rightarrow> u32 option"
  ev_now_ms :: nat
  ev_now_ns :: u64
  ev_grow_ok :: bool
  ev_malloc_ok :: bool
  ev_calloc_ok :: bool
  ev_create :: "fec_type \<Rightarrow> nat \<Rightarrow> nat \<Rightarrow> nat \<Rightarrow> nat option"
  ev_decode :: "nat \<Rightarrow> bytes option list \<Rightarrow> bool list \<Rightarrow> bool \<times> bytes option list"
  ev_callback :: "receive_event \<Rightarrow> 's \<Rightarrow> 's app_call list"

abbreviation (input) "MAX_TOTAL_SYMBOLS \<equiv> (1024 :: u16)"
abbreviation (input) "MAX_SYMBOL_SIZE \<equiv> (1500 :: u16)"
abbreviation (input) "PATH_DATAGRAM_QUEUE_CAPACITY \<equiv> (64 :: nat)"
abbreviation (input) "FIRST_DYNAMIC_ALIAS \<equiv> (8 :: int)"

abbreviation (input) slot_of :: "'s receiver \<Rightarrow> nat \<Rightarrow> frame_assembler" where
  "slot_of rx i \<equiv> ap_assemblers (rx_pool rx) ! i"

definition put_slot :: "'s receiver \<Rightarrow> nat \<Rightarrow> frame_assembler \<Rightarrow> 's receiver" where
  "put_slot rx i a = rx\<lparr>rx_pool := (rx_pool rx)\<lparr>ap_assemblers := (ap_assemblers (rx_pool rx))[i := a]\<rparr>\<rparr>"

definition is_rateless :: "moq_track_id \<Rightarrow> bool" where
  "is_rateless track \<longleftrightarrow> ti_flags track AND MOQ_TRACK_FLAG_FEC_RATELESS \<noteq> 0"

definition is_rateless_data :: "moq_track_id \<Rightarrow> bool" where
  "is_rateless_data track \<longleftrightarrow> ti_type track = ucast MOQ_TRACK_DATA \<and> is_rateless track"

section \<open>Counters\<close>

definition count_datagram :: "'s receiver \<Rightarrow> 's receiver" where
  "count_datagram rx = rx\<lparr>rx_stats := (rx_stats rx)
     \<lparr>rs_datagrams_received := sz_add (rs_datagrams_received (rx_stats rx)) 1,
      rs_conn_datagrams_received := sz_add (rs_conn_datagrams_received (rx_stats rx)) 1\<rparr>\<rparr>"

definition count_malformed :: "'s receiver \<Rightarrow> 's receiver" where
  "count_malformed rx = rx\<lparr>rx_stats := (rx_stats rx)
     \<lparr>rs_malformed_datagrams := sz_add (rs_malformed_datagrams (rx_stats rx)) 1,
      rs_conn_malformed_datagrams := sz_add (rs_conn_malformed_datagrams (rx_stats rx)) 1\<rparr>\<rparr>"

definition count_duplicate :: "'s receiver \<Rightarrow> 's receiver" where
  "count_duplicate rx = rx\<lparr>rx_stats := (rx_stats rx)
     \<lparr>rs_duplicates_suppressed := sz_add (rs_duplicates_suppressed (rx_stats rx)) 1\<rparr>\<rparr>"

definition count_lost :: "'s receiver \<Rightarrow> 's receiver" where
  "count_lost rx = rx\<lparr>rx_stats := (rx_stats rx)\<lparr>rs_objects_lost := sz_add (rs_objects_lost (rx_stats rx)) 1\<rparr>\<rparr>"

definition count_recovered :: "'s receiver \<Rightarrow> 's receiver" where
  "count_recovered rx = rx\<lparr>rx_stats := (rx_stats rx)\<lparr>rs_objects_recovered := sz_add (rs_objects_recovered (rx_stats rx)) 1\<rparr>\<rparr>"

section \<open>Calls of the application\<close>

text \<open>A slot is released on the receiver's own pool and memory account.\<close>

definition release_slot :: "nat \<Rightarrow> 's receiver \<Rightarrow> 's receiver option" where
  "release_slot i rx = map_option (\<lambda>(memory, pool). rx\<lparr>rx_memory := memory, rx_pool := pool\<rparr>)
     (transport_release_assembler (rx_memory rx) (rx_pool rx) i)"

definition release_if :: "(frame_assembler \<Rightarrow> bool) \<Rightarrow> nat \<Rightarrow> 's receiver \<Rightarrow> 's receiver option" where
  "release_if P i rx = (if P (slot_of rx i) then release_slot i rx else Some rx)"

definition release_all_if :: "(frame_assembler \<Rightarrow> bool) \<Rightarrow> nat list \<Rightarrow> 's receiver \<Rightarrow> 's receiver option" where
  "release_all_if P slots rx = foldl (\<lambda>r i. Option.bind r (release_if P i)) (Some rx) slots"

definition subscribe_connection :: "'s receive_env \<Rightarrow> moq_track_id \<Rightarrow> 's receiver \<Rightarrow> bool \<times> 's receiver" where
  "subscribe_connection env track rx =
     (let table = rx_table rx in
      if \<not> ev_ready env \<or> \<not> as_open (ev_ack env) (rx_world rx) then (False, rx)
      else if (case transport_subscriptions_find table track of
          Some i \<Rightarrow> ti_flags (ts_track_id (tb_entries table ! i)) \<noteq> ti_flags track | None \<Rightarrow> False) then (False, rx)
      else case (case transport_subscriptions_find_alias table track of
          Some alias_id \<Rightarrow> (Some (alias_id, False), table)
        | None \<Rightarrow>
            if transport_subscriptions_count table \<ge> ev_max_subscriptions env then (None, table)
            else let next_alias = (if cstr (ti_name track) = [] then uint (ucast (ti_type track) :: u8)
                  else transport_subscriptions_next_alias table FIRST_DYNAMIC_ALIAS) in
              if next_alias < 0 then (None, table)
              else let alias_id = word_of_int next_alias in
                (case transport_subscriptions_add (ev_calloc_ok env) (ev_calloc_ok env) table (ti_type track)
                    (ti_flags track) (ti_name track) alias_id of
                   (False, table') \<Rightarrow> (None, table')
                 | (True, table') \<Rightarrow> (Some (alias_id, True), put_object_gap table' alias_id zero_gap))) of
        (None, table') \<Rightarrow> (False, rx\<lparr>rx_table := table'\<rparr>)
      | (Some (alias_id, newly_added), table') \<Rightarrow>
          (case ev_write_track env (rx_world rx) WIRE_SUBSCRIBE alias_id track of
             (True, world) \<Rightarrow> (True, rx\<lparr>rx_table := table', rx_world := world\<rparr>)
           | (False, world) \<Rightarrow>
               if newly_added
               then (case transport_subscriptions_remove table' (ti_type track) (ti_name track) of
                  (table'', stream) \<Rightarrow> (False, rx\<lparr>rx_table := table'',
                     rx_world := (case stream of None \<Rightarrow> world | Some h \<Rightarrow> ev_shutdown env world h)\<rparr>))
               else (False, rx\<lparr>rx_table := table', rx_world := world\<rparr>)))"

definition unsubscribe_connection :: "'s receive_env \<Rightarrow> moq_track_id \<Rightarrow> 's receiver \<Rightarrow> (bool \<times> 's receiver) option" where
  "unsubscribe_connection env track rx =
     (let table = rx_table rx in
      if \<not> ev_ready env \<or> \<not> as_open (ev_ack env) (rx_world rx) then Some (False, rx)
      else case transport_subscriptions_find table track of
        None \<Rightarrow> Some (False, rx)
      | Some i \<Rightarrow>
          let subscribed_track = ts_track_id (tb_entries table ! i); alias_id = ts_alias (tb_entries table ! i) in
          (case ev_write_track env (rx_world rx) WIRE_UNSUBSCRIBE alias_id subscribed_track of
             (False, world) \<Rightarrow> Some (False, rx\<lparr>rx_world := world\<rparr>)
           | (True, world) \<Rightarrow>
               map_option (\<lambda>rx. case transport_subscriptions_remove (rx_table rx) (ti_type subscribed_track) (ti_name subscribed_track) of
                   (table', stream) \<Rightarrow> (True, rx\<lparr>rx_table := table',
                      rx_world := (case stream of None \<Rightarrow> rx_world rx | Some h \<Rightarrow> ev_shutdown env (rx_world rx) h)\<rparr>))
                 (release_all_if (\<lambda>a. fa_total_symbols a \<noteq> 0 \<and> fa_track_id a = alias_id) [0..<ev_max_assemblers env]
                   (rx\<lparr>rx_world := world, rx_table := put_object_gap table alias_id zero_gap\<rparr>))))"

fun run_call :: "'s receive_env \<Rightarrow> 's app_call \<Rightarrow> 's receiver \<Rightarrow> 's receiver option" where
  "run_call env (App_subscribe track) rx =
     (if transport_track_id_valid track then Some (snd (subscribe_connection env track rx)) else Some rx)"
| "run_call env (App_unsubscribe track) rx =
     (if transport_track_id_valid track then map_option snd (unsubscribe_connection env track rx) else Some rx)"
| "run_call env (App_other f) rx = Some (rx\<lparr>rx_world := f (rx_world rx)\<rparr>)"

fun run_calls :: "'s receive_env \<Rightarrow> 's app_call list \<Rightarrow> 's receiver \<Rightarrow> 's receiver option" where
  "run_calls env [] rx = Some rx"
| "run_calls env (c # cs) rx = Option.bind (run_call env c rx) (run_calls env cs)"

definition transport_emit_event :: "'s receive_env \<Rightarrow> receive_event \<Rightarrow> 's receiver \<Rightarrow> 's receiver option" where
  "transport_emit_event env event rx =
     run_calls env (ev_callback env event (rx_world rx))
       (rx\<lparr>rx_stats := (rx_stats rx)\<lparr>rs_events_emitted := sz_add (rs_events_emitted (rx_stats rx)) 1\<rparr>,
           rx_events := rx_events rx @ [event]\<rparr>)"

section \<open>Telemetry\<close>

definition transport_queue_datagram :: "'s receive_env \<Rightarrow> nat \<Rightarrow> bytes \<Rightarrow> 's receiver \<Rightarrow> bool \<times> 's receiver" where
  "transport_queue_datagram env path datagram rx =
     (if path \<ge> MAX_QUIC_PATHS \<or> ev_path_stats env (rx_world rx) path = None \<or>
         ev_path_datagrams env (rx_world rx) path \<ge> PATH_DATAGRAM_QUEUE_CAPACITY then (False, rx)
      else let depth_before = ev_path_datagrams env (rx_world rx) path;
               world = ev_send_datagram env (rx_world rx) path datagram;
               depth_after = ev_path_datagrams env world path in
        (depth_after = sz_add depth_before 1, rx\<lparr>rx_world := world,
           rx_queued_datagrams := (rx_queued_datagrams rx)[path := of_nat depth_after]\<rparr>))"

definition send_telemetry_reply :: "'s receive_env \<Rightarrow> wire_fec_header \<Rightarrow> 's receiver \<Rightarrow> 's receiver" where
  "send_telemetry_reply env hdr rx =
     (case qlinq_wire_encode_telemetry WIRE_TELEMETRY_SIZE \<lparr>te_path_id = fh_path_id hdr,
          te_send_time_ns = fh_send_time_ns hdr, te_recv_time_ns = ev_now_ns env\<rparr> of
        Inl _ \<Rightarrow> rx
      | Inr reply \<Rightarrow> snd (transport_queue_datagram env (unat (fh_path_id hdr)) reply rx))"

definition on_telemetry :: "'s receive_env \<Rightarrow> bytes \<Rightarrow> 's receiver \<Rightarrow> 's receiver" where
  "on_telemetry env payload rx =
     (case receive_telemetry (ev_fixed env) (ev_path_stats env (rx_world rx)) (ev_path_available env (rx_world rx))
          (ev_local_addrs env) (rx_owd rx) payload of
        Ignored \<Rightarrow> rx
      | Malformed \<Rightarrow> count_malformed rx
      | Accepted owd \<Rightarrow> rx\<lparr>rx_owd := owd\<rparr>)"

section \<open>The header of a symbol\<close>

definition fec_header_ok :: "u32 \<Rightarrow> wire_fec_header \<Rightarrow> nat \<Rightarrow> bool" where
  "fec_header_ok max_fec_object_size h payload_len \<longleftrightarrow>
     \<not> (fh_total_symbols h = 0 \<or> fh_total_symbols h > MAX_TOTAL_SYMBOLS \<or>
        fh_symbol_size h = 0 \<or> fh_symbol_size h > MAX_SYMBOL_SIZE \<or>
        fh_data_symbols h = 0 \<or> fh_data_symbols h > fh_total_symbols h \<or>
        fh_symbol_index h \<ge> fh_total_symbols h) \<and>
     \<not> (fh_original_size h > max_fec_object_size \<or>
        fh_original_size h > ucast (fh_data_symbols h) * ucast (fh_symbol_size h) \<or>
        fh_original_size h = 0) \<and>
     payload_len = WIRE_FEC_HEADER_SIZE + unat (fh_symbol_size h)"

text \<open>Gaps between the numbers of the objects seen become pending requests.\<close>

definition observe_object :: "nat \<Rightarrow> u64 \<Rightarrow> u64 \<Rightarrow> object_gap_state \<Rightarrow> object_gap_state" where
  "observe_object now group_id object_id gap =
     (if \<not> og_seen_initialized gap then gap\<lparr>og_seen_initialized := True, og_last_seen := object_id\<rparr>
      else if object_id > og_last_seen gap then
        (if object_id - og_last_seen gap > 1
         then let first_missing = og_last_seen gap + 1 in
           snd (queue_missing_objects (int now) gap group_id first_missing (object_id - first_missing))
         else gap)\<lparr>og_last_seen := object_id\<rparr>
      else if og_pending_mask gap \<noteq> 0 \<and> object_id \<ge> og_pending_base gap \<and> object_id - og_pending_base gap < 32
      then gap\<lparr>og_pending_mask := og_pending_mask gap AND NOT (push_bit (unat (object_id - og_pending_base gap)) 1)\<rparr>
      else gap)"

section \<open>Choosing a slot\<close>

text \<open>The first free slot from the cursor on, or else the one without progress for longest.\<close>

fun scan_slots :: "frame_assembler list \<Rightarrow> nat \<Rightarrow> nat \<Rightarrow> nat list \<Rightarrow> nat \<Rightarrow> nat" where
  "scan_slots slots limit cursor [] selected = selected"
| "scan_slots slots limit cursor (offset # offsets) selected =
     (let index = sz_add cursor offset mod limit in
      if fa_total_symbols (slots ! index) = 0 then index
      else scan_slots slots limit cursor offsets
        (if fa_last_activity_time_ms (slots ! index) < fa_last_activity_time_ms (slots ! selected)
         then index else selected))"

definition choose_slot :: "assembler_pool \<Rightarrow> nat \<Rightarrow> nat" where
  "choose_slot pool limit =
     scan_slots (ap_assemblers pool) limit (ap_index pool) [0..<limit] (ap_index pool mod limit)"

text \<open>
  The object that has to make room is reported as lost. The callback may end the subscription
  that the new symbol belongs to; then the symbol is dropped.
\<close>

definition report_evicted :: "'s receive_env \<Rightarrow> u8 \<Rightarrow> u64 \<Rightarrow> nat \<Rightarrow> 's receiver \<Rightarrow> (bool \<times> 's receiver) option" where
  "report_evicted env track_id generation slot rx =
     (let a = slot_of rx slot in
      if fa_total_symbols a > 0 \<and> \<not> fa_decoded a then
        (case transport_subscriptions_find_by_alias (rx_table rx) (fa_track_id a) of
           None \<Rightarrow> Some (True, rx)
         | Some track \<Rightarrow> do {
             rx \<leftarrow> transport_emit_event env (Event_object_lost track (fa_group_id a) (fa_object_id a)) (count_lost rx);
             Some (case transport_subscriptions_get_state (rx_table rx) track_id of
               None \<Rightarrow> (False, rx)
             | Some state \<Rightarrow> (ss_generation state = generation \<and> \<not> ev_closing env (rx_world rx), rx)) })
      else Some (True, rx))"

definition fill_slot :: "nat \<Rightarrow> wire_fec_header \<Rightarrow> frame_assembler \<Rightarrow> frame_assembler" where
  "fill_slot now h a = a\<lparr>fa_received_mask := Some (replicate (unat (fa_capacity_symbols a)) False),
     fa_track_id := fh_alias h, fa_group_id := fh_group_id h, fa_object_id := fh_object_id h,
     fa_total_symbols := fh_total_symbols h, fa_data_symbols := fh_data_symbols h, fa_symbol_size := fh_symbol_size h,
     fa_original_size := fh_original_size h, fa_priority := fh_priority h, fa_decoded := False,
     fa_received_count := 0, fa_nack_sent := False, fa_first_symbol_time_ms := int now,
     fa_last_activity_time_ms := int now\<rparr>"

text \<open>Storage for the new object: what the slot has is kept when it is large enough.\<close>

definition prepare_slot :: "'s receive_env \<Rightarrow> wire_fec_header \<Rightarrow> nat \<Rightarrow> 's receiver \<Rightarrow> (bool \<times> 's receiver) option" where
  "prepare_slot env h slot rx = do {
     pool \<leftarrow> transport_unindex_assembler (rx_pool rx) slot;
     let rx = rx\<lparr>rx_pool := pool\<rparr>;
     if fa_buffers (slot_of rx slot) = None \<or> fa_capacity_symbols (slot_of rx slot) < fh_total_symbols h \<or>
        fa_capacity_symbol_size (slot_of rx slot) < fh_symbol_size h
     then do {
       rx \<leftarrow> release_slot slot rx;
       case transport_grow_assembler (ev_grow_ok env) (rx_memory rx) (slot_of rx slot) (fh_total_symbols h) (fh_symbol_size h) of
         (grown, memory, a) \<Rightarrow>
           let rx = put_slot (rx\<lparr>rx_memory := memory\<rparr>) slot a in
           if grown then Some (True, rx)
           else map_option (\<lambda>rx. (False, rx)) (release_slot slot rx) }
     else Some (True, rx) }"

definition claim_slot :: "'s receive_env \<Rightarrow> wire_fec_header \<Rightarrow> u64 \<Rightarrow> 's receiver \<Rightarrow> (nat option \<times> 's receiver) option" where
  "claim_slot env h generation rx =
     (case transport_assembler_window (ev_max_assemblers env) (ev_rtt env) (rx_pool rx) (fh_total_symbols h) (fh_symbol_size h) of
        (assembler_limit, pool) \<Rightarrow>
          let slot = choose_slot pool assembler_limit;
              rx = rx\<lparr>rx_pool := pool\<lparr>ap_index := sz_add slot 1 mod assembler_limit\<rparr>\<rparr> in do {
            (go, rx) \<leftarrow> report_evicted env (fh_alias h) generation slot rx;
            if \<not> go then Some (None, rx)
            else do {
              (ready, rx) \<leftarrow> prepare_slot env h slot rx;
              if \<not> ready then Some (None, rx)
              else let rx = put_slot rx slot (fill_slot (ev_now_ms env) h (slot_of rx slot)) in
                Some (Some slot, rx\<lparr>rx_pool := transport_index_assembler (rx_pool rx) slot\<rparr>) } })"

section \<open>Storing a symbol\<close>

definition store_symbol :: "nat \<Rightarrow> u16 \<Rightarrow> bytes \<Rightarrow> frame_assembler \<Rightarrow> frame_assembler option" where
  "store_symbol now index symbol a = do {
     mask \<leftarrow> fa_received_mask a;
     if mask ! unat index then Some a
     else do {
       buffers \<leftarrow> fa_buffers a;
       block \<leftarrow> buffers ! unat index;
       let z = unat (fa_symbol_size a);
       Some (a\<lparr>fa_buffers := Some (buffers[unat index := Some (take z symbol @ drop z block)]),
               fa_received_mask := Some (mask[unat index := True]),
               fa_received_count := fa_received_count a + 1, fa_last_activity_time_ms := int now\<rparr>) } }"

section \<open>Completing an object\<close>

text \<open>The object is complete when all data symbols arrived, or when the codec restores the missing ones.\<close>

definition decode_object :: "'s receive_env \<Rightarrow> bool \<Rightarrow> nat \<Rightarrow> 's receiver \<Rightarrow> (bool \<times> 's receiver) option" where
  "decode_object env rateless slot rx = do {
     let a = slot_of rx slot;
     let k = unat (fa_data_symbols a);
     let n = unat (fa_total_symbols a);
     mask \<leftarrow> fa_received_mask a;
     if \<forall>i < k. mask ! i then Some (True, rx)
     else if n - k = 0 then Some (False, rx)
     else let t = (if rateless \<or> n > 255 then FEC_RAPTORQ else FEC_REED_SOLOMON) in
       (case transport_fec_cache_get (ev_now_ns env) (ev_create env t k (n - k) (unat (fa_symbol_size a)))
           (rx_fec_cache rx) t k (n - k) (unat (fa_symbol_size a)) of
          (None, cache) \<Rightarrow> Some (False, rx\<lparr>rx_fec_cache := cache\<rparr>)
        | (Some fec, cache) \<Rightarrow> do {
            buffers \<leftarrow> fa_buffers a;
            old_missing \<leftarrow> fa_missing_mask a;
            let missing = map Not (take n mask) @ drop n old_missing;
            case ev_decode env fec buffers missing of
              (success, buffers') \<Rightarrow>
                Some (success, put_slot (rx\<lparr>rx_fec_cache := cache\<rparr>) slot
                  (a\<lparr>fa_missing_mask := Some missing, fa_buffers := Some buffers'\<rparr>)) }) }"

fun gather :: "nat \<Rightarrow> nat \<Rightarrow> bytes option list \<Rightarrow> bytes option" where
  "gather bytes_left symbol_size [] = Some []"
| "gather bytes_left symbol_size (b # bs) =
     (let chunk = (if bytes_left < symbol_size then bytes_left else symbol_size) in
      if chunk > 0 then do {
        block \<leftarrow> b;
        rest \<leftarrow> gather (bytes_left - chunk) symbol_size bs;
        Some (take chunk block @ rest) }
      else gather bytes_left symbol_size bs)"

text \<open>The gap state of the track and the pool travel through the recovery functions.\<close>

definition recovery_part :: "'s receiver \<Rightarrow> object_gap_state \<Rightarrow> 's recovery_conn" where
  "recovery_part rx gap = \<lparr>rc_gap = gap, rc_memory = rx_memory rx, rc_pool = rx_pool rx, rc_stream = rx_world rx,
     rc_acks_sent = rx_acks_sent rx\<rparr>"

definition with_recovery :: "'s receiver \<Rightarrow> 's recovery_conn \<Rightarrow> 's receiver" where
  "with_recovery rx conn = rx\<lparr>rx_memory := rc_memory conn, rx_pool := rc_pool conn, rx_world := rc_stream conn,
     rx_acks_sent := rc_acks_sent conn\<rparr>"

definition put_gap :: "'s receiver \<Rightarrow> u8 \<Rightarrow> object_gap_state \<Rightarrow> 's receiver" where
  "put_gap rx alias_id gap = rx\<lparr>rx_table := put_object_gap (rx_table rx) alias_id gap\<rparr>"

definition mark_delivered :: "'s receive_env \<Rightarrow> u8 \<Rightarrow> u64 \<Rightarrow> u64 \<Rightarrow> 's receiver \<Rightarrow> 's receiver option" where
  "mark_delivered env alias_id group_id object_id rx = do {
     gap \<leftarrow> transport_object_gap (rx_table rx) alias_id;
     conn \<leftarrow> recovery_mark_delivered (ev_ack env) (ev_max_assemblers env)
       (recovery_part rx (mark_object_delivered gap object_id)) alias_id group_id object_id;
     Some (put_gap (with_recovery rx conn) alias_id (rc_gap conn)) }"

definition deliver_object ::
  "'s receive_env \<Rightarrow> moq_track_id \<Rightarrow> u64 \<Rightarrow> wire_fec_header \<Rightarrow> u8 \<Rightarrow> bytes \<Rightarrow> nat \<Rightarrow> 's receiver \<Rightarrow> 's receiver option" where
  "deliver_object env track generation h priority full_data slot rx = do {
     completed \<leftarrow> completed_remember (rx_completed rx) (fh_alias h) generation (fh_group_id h) (fh_object_id h);
     let rx = rx\<lparr>rx_completed := completed\<rparr>;
     rx \<leftarrow> (if is_rateless_data track then mark_delivered env (fh_alias h) (fh_group_id h) (fh_object_id h) rx else Some rx);
     rx \<leftarrow> transport_emit_event env (Event_object track (fh_group_id h) (fh_object_id h) full_data (fh_is_keyframe h) priority)
       (count_recovered rx);
     release_slot slot rx }"

definition complete_object ::
  "'s receive_env \<Rightarrow> moq_track_id \<Rightarrow> u64 \<Rightarrow> wire_fec_header \<Rightarrow> nat \<Rightarrow> 's receiver \<Rightarrow> 's receiver option" where
  "complete_object env track generation h slot rx = do {
     (success, rx) \<leftarrow> decode_object env (is_rateless track) slot rx;
     if \<not> success \<or> \<not> ev_malloc_ok env then Some rx
     else do {
       let a = slot_of rx slot;
       buffers \<leftarrow> fa_buffers a;
       full_data \<leftarrow> gather (unat (fa_original_size a)) (unat (fa_symbol_size a)) (take (unat (fa_data_symbols a)) buffers);
       deliver_object env track generation h (fa_priority a) full_data slot rx } }"

text \<open>A later symbol may announce more symbols than the first one did.\<close>

definition widen_slot :: "'s receive_env \<Rightarrow> wire_fec_header \<Rightarrow> nat \<Rightarrow> 's receiver \<Rightarrow> bool \<times> 's receiver" where
  "widen_slot env h slot rx =
     (if fh_total_symbols h > fa_total_symbols (slot_of rx slot) then
        (case transport_grow_assembler (ev_grow_ok env) (rx_memory rx) (slot_of rx slot) (fh_total_symbols h) (fh_symbol_size h) of
           (grown, memory, a) \<Rightarrow> (grown, put_slot (rx\<lparr>rx_memory := memory\<rparr>) slot
              (if grown then a\<lparr>fa_total_symbols := fh_total_symbols h\<rparr> else a)))
      else (True, rx))"

definition receive_into ::
  "'s receive_env \<Rightarrow> moq_track_id \<Rightarrow> u64 \<Rightarrow> wire_fec_header \<Rightarrow> bytes \<Rightarrow> nat \<Rightarrow> 's receiver \<Rightarrow> 's receiver option" where
  "receive_into env track generation h symbol slot rx =
     (if fa_decoded (slot_of rx slot) then Some rx
      else case widen_slot env h slot rx of
        (False, rx) \<Rightarrow> Some rx
      | (True, rx) \<Rightarrow>
          if fh_symbol_index h \<ge> fa_total_symbols (slot_of rx slot) then Some rx
          else do {
            a \<leftarrow> store_symbol (ev_now_ms env) (fh_symbol_index h) symbol (slot_of rx slot);
            let rx = put_slot rx slot a;
            if fa_received_count a \<ge> fa_data_symbols a then complete_object env track generation h slot rx
            else Some rx })"

definition receive_symbol ::
  "'s receive_env \<Rightarrow> moq_track_id \<Rightarrow> subscription_state \<Rightarrow> wire_fec_header \<Rightarrow> bytes \<Rightarrow> 's receiver \<Rightarrow> 's receiver option" where
  "receive_symbol env track state h symbol rx =
     (let generation = ss_generation state;
          rx = rx\<lparr>rx_pool := transport_assembler_observe_receive (ev_now_ms env) (rx_pool rx) (unat (fh_symbol_size h))\<rparr> in do {
        completed \<leftarrow> completed_find (rx_completed rx) (fh_alias h) generation (fh_group_id h) (fh_object_id h);
        if completed \<noteq> None then Some (count_duplicate rx)
        else if is_rateless_data track \<and> object_was_delivered (ss_object_gap state) (fh_object_id h)
        then Some (count_duplicate rx)
        else let rx = (if is_rateless_data track
              then put_gap rx (fh_alias h) (observe_object (ev_now_ms env) (fh_group_id h) (fh_object_id h) (ss_object_gap state))
              else rx) in do {
          found \<leftarrow> transport_find_assembler (rx_pool rx) (fh_alias h) (fh_group_id h) (fh_object_id h);
          case found of
            Some slot \<Rightarrow>
              if fa_symbol_size (slot_of rx slot) \<noteq> fh_symbol_size h \<or> fa_data_symbols (slot_of rx slot) \<noteq> fh_data_symbols h \<or>
                 fa_original_size (slot_of rx slot) \<noteq> fh_original_size h
              then Some (count_malformed rx)
              else receive_into env track generation h symbol slot rx
          | None \<Rightarrow> do {
              (claimed, rx) \<leftarrow> claim_slot env h generation rx;
              case claimed of
                None \<Rightarrow> Some rx
              | Some slot \<Rightarrow> receive_into env track generation h symbol slot rx } } })"

definition on_receive_datagram_frame :: "'s receive_env \<Rightarrow> bytes \<Rightarrow> 's receiver \<Rightarrow> 's receiver option" where
  "on_receive_datagram_frame env payload rx0 =
     (let rx = count_datagram rx0 in
      if \<not> ev_authenticated env then Some rx
      else case qlinq_wire_decode_datagram_type payload of
        Inl _ \<Rightarrow> Some (count_malformed rx)
      | Inr datagram_type \<Rightarrow>
          if datagram_type = WIRE_DATAGRAM_TELEMETRY then Some (on_telemetry env payload rx)
          else (case qlinq_wire_decode_fec_header payload of
            Inl _ \<Rightarrow> Some (count_malformed rx)
          | Inr h \<Rightarrow>
              (case transport_subscriptions_find_by_alias (rx_table rx) (fh_alias h) of
                 None \<Rightarrow> Some rx
               | Some track \<Rightarrow>
                   if ti_flags track AND MOQ_TRACK_FLAG_RELIABLE \<noteq> 0
                   then Some (rx\<lparr>rx_world := ev_close env (rx_world rx), rx_stats := (rx_stats rx)
                          \<lparr>rs_protocol_errors := sz_add (rs_protocol_errors (rx_stats rx)) 1\<rparr>\<rparr>)
                   else let rx = send_telemetry_reply env h rx in
                     if \<not> fec_header_ok (ev_max_fec_object_size env) h (length payload) then Some (count_malformed rx)
                     else (case transport_subscriptions_get_state (rx_table rx) (fh_alias h) of
                        None \<Rightarrow> Some rx
                      | Some state \<Rightarrow> receive_symbol env track state h (drop WIRE_FEC_HEADER_SIZE payload) rx))))"

section \<open>The tick and the checkpoints\<close>

text \<open>The timeout of assemblers without progress, over the slots in use from one slot on.\<close>

partial_function (option) expire_assemblers :: "'s receive_env \<Rightarrow> nat \<Rightarrow> 's receiver \<Rightarrow> 's receiver option" where
  "expire_assemblers env i rx =
     (if i \<ge> ev_max_assemblers env then Some rx
      else let a = slot_of rx i in
        Option.bind
          (if fa_total_symbols a = 0 then Some rx
           else if int (ev_now_ms env) - fa_last_activity_time_ms a \<ge> int (unat (ev_assembler_timeout_ms env))
           then Option.bind
             (case transport_subscriptions_find_by_alias (rx_table rx) (fa_track_id a) of
                None \<Rightarrow> Some rx
              | Some track \<Rightarrow> transport_emit_event env (Event_object_lost track (fa_group_id a) (fa_object_id a)) (count_lost rx))
             (release_slot i)
           else Some rx)
          (\<lambda>rx. expire_assemblers env (transport_next_assembler (rx_pool rx) (i + 1)) rx))"

declare expire_assemblers.simps [code]

definition tick_receiver :: "'s receive_env \<Rightarrow> 's receiver \<Rightarrow> 's receiver option" where
  "tick_receiver env rx =
     (if ev_closing env (rx_world rx) then Some rx
      else do {
        (table, conn) \<leftarrow> transport_protocol_flush_recovery_acks (ev_authenticated env) (ev_ack env) (ev_max_assemblers env)
          (rx_table rx) (recovery_part rx zero_gap);
        let rx = (with_recovery rx conn)\<lparr>rx_table := table\<rparr>;
        expire_assemblers env (transport_next_assembler (rx_pool rx) 0) rx })"

definition checkpoint_receiver ::
  "'s receive_env \<Rightarrow> u8 \<Rightarrow> u64 \<Rightarrow> u64 \<Rightarrow> u64 \<Rightarrow> bool \<Rightarrow> 's receiver \<Rightarrow> (bool \<times> 's receiver) option" where
  "checkpoint_receiver env alias_id group_id first_object_id final_object_id acknowledge rx =
     (case transport_object_gap (rx_table rx) alias_id of
        None \<Rightarrow> Some (False, rx)
      | Some gap \<Rightarrow> do {
          (ok, conn) \<leftarrow> receive_recovery_checkpoint (ev_ack env) (ev_max_assemblers env) (int (ev_now_ms env))
            (recovery_part rx gap) alias_id group_id first_object_id final_object_id acknowledge;
          Some (ok, put_gap (with_recovery rx conn) alias_id (rc_gap conn)) })"

end
