(* ===== verification/Receiver.thy ===== *)
theory Receiver
  imports Receive Repair
begin

text \<open>
  The invariant of the receiver of \<open>Receive\<close>, part by part: what a slot holds of an object of a
  sender, gathering and decoding it, the pool with its memory account, acknowledgement runs, and
  the subscriptions with the deliveries made under them. \<open>sources\<close> names, for an alias, a group
  and an object number, the object at the sender, or none when nothing is claimed about it.
\<close>

section \<open>Slots\<close>

text \<open>
  An object at its sender: its bytes, the number and the size of its data symbols, and the repair
  symbols that its code can produce.
\<close>

record source_object =
  so_data :: bytes
  so_k :: nat
  so_z :: nat
  so_parity :: "nat \<Rightarrow> bytes"

type_synonym sources = "u8 \<Rightarrow> u64 \<Rightarrow> u64 \<Rightarrow> source_object option"

definition source_symbol :: "source_object \<Rightarrow> nat \<Rightarrow> bytes" where
  "source_symbol so i = (if i < so_k so then data_block (so_data so) (so_z so) i else so_parity so (i - so_k so))"

definition header_wf :: "wire_fec_header \<Rightarrow> bool" where
  "header_wf h \<longleftrightarrow> 0 < fh_data_symbols h \<and> fh_data_symbols h \<le> fh_total_symbols h \<and> fh_total_symbols h \<le> 1024 \<and>
     fh_symbol_index h < fh_total_symbols h \<and> 0 < fh_symbol_size h \<and> 0 < fh_original_size h \<and>
     unat (fh_original_size h) \<le> unat (fh_data_symbols h) * unat (fh_symbol_size h)"

definition genuine_header :: "sources \<Rightarrow> wire_fec_header \<Rightarrow> bool" where
  "genuine_header G h \<longleftrightarrow> (case G (fh_alias h) (fh_group_id h) (fh_object_id h) of None \<Rightarrow> True
     | Some so \<Rightarrow> so_k so = unat (fh_data_symbols h) \<and> so_z so = unat (fh_symbol_size h) \<and>
         length (so_data so) = unat (fh_original_size h))"

definition genuine :: "sources \<Rightarrow> wire_fec_header \<Rightarrow> bytes \<Rightarrow> bool" where
  "genuine G h symbol \<longleftrightarrow> genuine_header G h \<and> (case G (fh_alias h) (fh_group_id h) (fh_object_id h) of None \<Rightarrow> True
     | Some so \<Rightarrow> symbol = source_symbol so (unat (fh_symbol_index h)))"

definition received_count :: "frame_assembler \<Rightarrow> nat" where
  "received_count a = card {i. i < unat (fa_capacity_symbols a) \<and> the (fa_received_mask a) ! i}"

definition slot_wf :: "frame_assembler \<Rightarrow> bool" where
  "slot_wf a \<longleftrightarrow> storage_ok a \<and> \<not> fa_decoded a \<and>
     (fa_total_symbols a \<noteq> 0 \<longrightarrow> fa_buffers a \<noteq> None \<and> fa_total_symbols a \<le> 1024 \<and>
        0 < fa_data_symbols a \<and> fa_data_symbols a \<le> fa_total_symbols a \<and> 0 < fa_symbol_size a \<and> 0 < fa_original_size a \<and>
        unat (fa_original_size a) \<le> unat (fa_data_symbols a) * unat (fa_symbol_size a) \<and>
        unat (fa_received_count a) = received_count a \<and>
        (\<forall>i < unat (fa_capacity_symbols a). the (fa_received_mask a) ! i \<longrightarrow> i < unat (fa_total_symbols a)))"

definition slot_genuine :: "sources \<Rightarrow> frame_assembler \<Rightarrow> bool" where
  "slot_genuine G a \<longleftrightarrow> (fa_total_symbols a \<noteq> 0 \<longrightarrow> (case G (fa_track_id a) (fa_group_id a) (fa_object_id a) of None \<Rightarrow> True
     | Some so \<Rightarrow> so_k so = unat (fa_data_symbols a) \<and> so_z so = unat (fa_symbol_size a) \<and>
         length (so_data so) = unat (fa_original_size a) \<and>
         (\<forall>i < unat (fa_total_symbols a). fst (received_symbol a i) \<longrightarrow> snd (received_symbol a i) = source_symbol so i)))"

definition slot_ok :: "sources \<Rightarrow> frame_assembler \<Rightarrow> bool" where
  "slot_ok G a \<longleftrightarrow> slot_wf a \<and> slot_genuine G a"

lemma slot_ok_zero: "slot_ok G zero_assembler"
  by (simp add: slot_ok_def slot_wf_def slot_genuine_def zero_assembler_def storage_ok_def)

lemma contents_more [simp]:
  "fa_total_symbols (contents a) = fa_total_symbols a" "fa_data_symbols (contents a) = fa_data_symbols a"
  "fa_symbol_size (contents a) = fa_symbol_size a" "fa_original_size (contents a) = fa_original_size a"
  "fa_received_count (contents a) = fa_received_count a" "fa_received_mask (contents a) = fa_received_mask a"
  "fa_capacity_symbols (contents a) = fa_capacity_symbols a" "fa_decoded (contents a) = fa_decoded a"
  "received_symbol (contents a) i = received_symbol a i" "received_count (contents a) = received_count a"
  "fa_priority (contents a) = fa_priority a" "fa_capacity_symbol_size (contents a) = fa_capacity_symbol_size a"
  by (simp_all add: contents_def received_symbol_def received_count_def)

lemma slot_ok_contents [simp]: "slot_ok G (contents a) = slot_ok G a"
  by (simp add: slot_ok_def slot_wf_def slot_genuine_def contents_fields split: option.split)

lemma slot_ok_cong: "contents a = contents b \<Longrightarrow> slot_ok G a = slot_ok G b"
  using slot_ok_contents by metis

lemma storageD:
  assumes "storage_ok a" "fa_buffers a = Some bs"
  shows "length bs = unat (fa_capacity_symbols a)" "i < length bs \<Longrightarrow> \<exists>b. bs ! i = Some b \<and> length b = unat (fa_capacity_symbol_size a)"
    "\<exists>r m n. fa_received_mask a = Some r \<and> fa_missing_mask a = Some m \<and> fa_missing_indices a = Some n \<and>
       length r = length bs \<and> length m = length bs \<and> length n = length bs"
    "fa_total_symbols a \<le> fa_capacity_symbols a" "fa_symbol_size a \<le> fa_capacity_symbol_size a"
  using assms nth_mem [of i bs] by (auto simp: storage_ok_def)

lemma slot_ok_fill:
  assumes st: "storage_ok a" "fa_buffers a \<noteq> None" and cap: "fh_total_symbols h \<le> fa_capacity_symbols a"
      "fh_symbol_size h \<le> fa_capacity_symbol_size a" and h: "header_wf h" and g: "genuine_header G h"
  shows "slot_ok G (fill_slot now h a)"
proof -
  let ?a = "fill_slot now h a"
  obtain bs where bs: "fa_buffers a = Some bs" using st(2) by blast
  note s = storageD [OF st(1) bs]
  have "storage_ok ?a" using st(1) bs cap s(1) by (auto simp: storage_ok_def fill_slot_def)
  moreover have e: "{i. i < unat (fa_capacity_symbols a) \<and> replicate (unat (fa_capacity_symbols a)) False ! i} = {}" by auto
  have "received_count ?a = 0" unfolding received_count_def by (simp add: fill_slot_def e)
  moreover have "slot_genuine G ?a"
    using g s(4) cap unfolding slot_genuine_def genuine_header_def
    by (auto simp: fill_slot_def received_symbol_def word_le_nat_alt split: option.splits)
  moreover have "\<not> fa_decoded ?a" "fa_buffers ?a \<noteq> None" by (simp_all add: fill_slot_def bs)
  ultimately show ?thesis using h unfolding slot_ok_def slot_wf_def header_wf_def by (simp add: fill_slot_def)
qed

text \<open>What a lookup tells about the slot of an object, against the header of a symbol.\<close>

definition slot_matches :: "wire_fec_header \<Rightarrow> frame_assembler \<Rightarrow> bool" where
  "slot_matches h a \<longleftrightarrow> fa_total_symbols a \<noteq> 0 \<and> fa_track_id a = fh_alias h \<and> fa_group_id a = fh_group_id h \<and>
     fa_object_id a = fh_object_id h \<and> fa_symbol_size a = fh_symbol_size h \<and> fa_data_symbols a = fh_data_symbols h \<and>
     fa_original_size a = fh_original_size h"

lemma slot_matches_fill: "header_wf h \<Longrightarrow> slot_matches h (fill_slot now h a)"
  by (auto simp: slot_matches_def fill_slot_def header_wf_def)

lemma slot_ok_widen:
  assumes ok: "slot_ok G a" and m: "slot_matches h a" and h: "header_wf h" and t: "fa_total_symbols a < fh_total_symbols h"
    and r: "transport_assembler_grow alloc_ok a (fh_total_symbols h) (fh_symbol_size h) = (True, a')"
  defines "b \<equiv> a'\<lparr>fa_total_symbols := fh_total_symbols h\<rparr>"
  shows "slot_ok G b \<and> slot_matches h b \<and> storage_ok a' \<and> fa_owner b = fa_owner a \<and> fa_hash_next b = fa_hash_next a"
proof -
  have wf: "slot_wf a" and gen: "slot_genuine G a" using ok by (simp_all add: slot_ok_def)
  have st: "storage_ok a" and nz: "fa_total_symbols a \<noteq> 0" using wf m by (simp_all add: slot_wf_def slot_matches_def)
  have buf: "fa_buffers a \<noteq> None" using wf nz by (simp add: slot_wf_def)
  have pos: "fh_total_symbols h \<noteq> 0" "fh_symbol_size h \<noteq> 0" using h t by (auto simp: header_wf_def)
  note g = assembler_grow_ok [OF st pos r]
  have st': "storage_ok a'" using g buf by simp
  have cap: "fa_capacity_symbols a' = max (fa_capacity_symbols a) (fh_total_symbols h)"
    "fa_capacity_symbol_size a' = max (fa_capacity_symbol_size a) (fh_symbol_size h)" "fa_buffers a' \<noteq> None" using g by simp_all
  have rs: "received_symbol a' i = received_symbol a i" if "i < unat (fa_total_symbols a)" for i using g buf that by simp
  define fs where "fs = a'"
  have same: "a' = a\<lparr>fa_buffers := fa_buffers fs, fa_received_mask := fa_received_mask fs,
      fa_missing_mask := fa_missing_mask fs, fa_missing_indices := fa_missing_indices fs,
      fa_capacity_symbols := fa_capacity_symbols fs, fa_capacity_symbol_size := fa_capacity_symbol_size fs\<rparr>" unfolding fs_def using g by blast
  obtain bs where bs: "fa_buffers a = Some bs" using buf by blast
  obtain bs' where bs': "fa_buffers a' = Some bs'" using cap(3) by blast
  note s = storageD [OF st bs] and s' = storageD [OF st' bs']
  obtain rm where rm: "fa_received_mask a = Some rm" "length rm = unat (fa_capacity_symbols a)" using s(1,3) by auto
  obtain rm' where rm': "fa_received_mask a' = Some rm'" "length rm' = unat (fa_capacity_symbols a')" using s'(1,3) by auto
  have flds: "fa_total_symbols a' = fa_total_symbols a" "fa_data_symbols a' = fa_data_symbols a" "fa_symbol_size a' = fa_symbol_size a"
    "fa_original_size a' = fa_original_size a" "fa_track_id a' = fa_track_id a" "fa_group_id a' = fa_group_id a"
    "fa_object_id a' = fa_object_id a" "fa_received_count a' = fa_received_count a" "fa_decoded a' = fa_decoded a"
    "fa_owner a' = fa_owner a" "fa_hash_next a' = fa_hash_next a"
    by (subst same; simp)+
  have le: "unat (fa_total_symbols a) \<le> unat (fa_capacity_symbols a)" "unat (fa_capacity_symbols a) \<le> unat (fa_capacity_symbols a')"
    using s(4) unfolding cap by (simp_all add: word_le_nat_alt [symmetric])
  have old: "rm ! i \<Longrightarrow> i < unat (fa_capacity_symbols a) \<Longrightarrow> i < unat (fa_total_symbols a)" for i using wf nz rm by (simp add: slot_wf_def)
  have mask: "rm' ! i \<longleftrightarrow> i < unat (fa_total_symbols a) \<and> rm ! i" if i: "i < unat (fa_capacity_symbols a')" for i
  proof (cases "i < unat (fa_total_symbols a)")
    case True
    then show ?thesis using rs [of i] rm rm' by (simp add: received_symbol_def)
  next
    case False
    have "\<not> rm' ! i"
      using assembler_grow_mask [OF st r]
    proof
      assume "a' = a"
      then show ?thesis using False old [of i] rm rm' i by auto
    next
      assume "\<exists>rc. fa_received_mask a' = Some rc \<and> (\<forall>i < length rc. unat (fa_total_symbols a) \<le> i \<longrightarrow> \<not> rc ! i)"
      then show ?thesis using False rm' i by auto
    qed
    then show ?thesis using False by simp
  qed
  have "{i. i < unat (fa_capacity_symbols a') \<and> rm' ! i} = {i. i < unat (fa_capacity_symbols a) \<and> rm ! i}"
    using mask old le by fastforce
  then have cnt: "received_count b = received_count a" by (simp add: received_count_def b_def rm(1) rm'(1))
  have tt: "unat (fa_total_symbols a) < unat (fh_total_symbols h)" using t by (simp add: word_less_nat_alt)
  have rb: "received_symbol b i = received_symbol a' i" for i by (simp add: received_symbol_def b_def)
  have "slot_wf b"
  proof -
    have "storage_ok b" using st' bs' cap(1) by (auto simp: b_def storage_ok_def)
    moreover have "fa_data_symbols a \<le> fh_total_symbols h"
      using wf nz less_imp_le [OF t] by (auto simp: slot_wf_def)
    moreover have "\<forall>i < unat (fa_capacity_symbols a'). rm' ! i \<longrightarrow> i < unat (fh_total_symbols h)" using mask tt by auto
    ultimately show ?thesis using wf nz cnt h rm' bs' unfolding slot_wf_def header_wf_def
      by (simp add: b_def flds)
  qed
  moreover have "slot_genuine G b"
    unfolding slot_genuine_def
  proof (intro impI)
    have key: "G (fa_track_id b) (fa_group_id b) (fa_object_id b) = G (fa_track_id a) (fa_group_id a) (fa_object_id a)"
      by (simp add: b_def flds)
    show "case G (fa_track_id b) (fa_group_id b) (fa_object_id b) of None \<Rightarrow> True
     | Some so \<Rightarrow> so_k so = unat (fa_data_symbols b) \<and> so_z so = unat (fa_symbol_size b) \<and>
         length (so_data so) = unat (fa_original_size b) \<and>
         (\<forall>i < unat (fa_total_symbols b). fst (received_symbol b i) \<longrightarrow> snd (received_symbol b i) = source_symbol so i)"
    proof (cases "G (fa_track_id a) (fa_group_id a) (fa_object_id a)")
      case None
      then show ?thesis by (simp add: key)
    next
      case (Some so)
      have so: "so_k so = unat (fa_data_symbols a)" "so_z so = unat (fa_symbol_size a)" "length (so_data so) = unat (fa_original_size a)"
        "\<And>i. i < unat (fa_total_symbols a) \<Longrightarrow> fst (received_symbol a i) \<Longrightarrow> snd (received_symbol a i) = source_symbol so i"
        using gen nz Some by (simp_all add: slot_genuine_def)
      have "snd (received_symbol b i) = source_symbol so i" if "i < unat (fa_total_symbols b)" "fst (received_symbol b i)" for i
      proof -
        have "i < unat (fa_capacity_symbols a')"
          using that(1) s'(4) cap(1) by (simp add: b_def) (meson le_max_iff_disj order.refl less_le_trans word_le_nat_alt)
        moreover have "rm' ! i" using that(2) unfolding rb by (simp add: received_symbol_def rm'(1))
        ultimately have "i < unat (fa_total_symbols a)" using mask by blast
        then show ?thesis using so(4) that(2) rs by (simp add: rb)
      qed
      then show ?thesis unfolding key Some using so(1-3) by (simp add: b_def flds)
    qed
  qed
  moreover have "slot_matches h b" using m h pos by (simp add: slot_matches_def b_def flds)
  ultimately show ?thesis using st' by (simp add: slot_ok_def b_def flds)
qed


lemma slot_ok_store:
  assumes ok: "slot_ok G a" and m: "slot_matches h a" and i: "fh_symbol_index h < fa_total_symbols a"
    and len: "length symbol = unat (fh_symbol_size h)" and gen: "genuine G h symbol"
  shows "\<exists>b. store_symbol now (fh_symbol_index h) symbol a = Some b \<and> slot_ok G b \<and> slot_matches h b \<and>
    fa_owner b = fa_owner a \<and> fa_hash_next b = fa_hash_next a \<and>
    fa_capacity_symbols b = fa_capacity_symbols a \<and> fa_capacity_symbol_size b = fa_capacity_symbol_size a \<and>
    fa_priority b = fa_priority a \<and> fa_total_symbols b = fa_total_symbols a \<and>
    (\<forall>j < unat (fa_total_symbols a). fst (received_symbol b j) \<longleftrightarrow> j = unat (fh_symbol_index h) \<or> fst (received_symbol a j))"
proof -
  let ?i = "unat (fh_symbol_index h)" and ?z = "unat (fa_symbol_size a)"
  have wf: "slot_wf a" and g: "slot_genuine G a" using ok by (simp_all add: slot_ok_def)
  have nz: "fa_total_symbols a \<noteq> 0" using m by (simp add: slot_matches_def)
  have st: "storage_ok a" using wf by (simp add: slot_wf_def)
  obtain bs where bs: "fa_buffers a = Some bs" using wf nz by (auto simp: slot_wf_def)
  note s = storageD [OF st bs]
  obtain rm mm mi where rm: "fa_received_mask a = Some rm" "fa_missing_mask a = Some mm" "fa_missing_indices a = Some mi"
    "length rm = length bs" "length mm = length bs" "length mi = length bs" using s(3) by blast
  have ti: "?i < unat (fa_total_symbols a)" using i by (simp add: word_less_nat_alt)
  have tc: "unat (fa_total_symbols a) \<le> length bs" using s(1,4) by (simp add: word_le_nat_alt)
  have il: "?i < length bs" using ti tc by simp
  obtain block where block: "bs ! ?i = Some block" "length block = unat (fa_capacity_symbol_size a)" using s(2) [OF il] by blast
  have zc: "?z \<le> length block" using s(5) block(2) by (simp add: word_le_nat_alt)
  have sz: "length symbol = ?z" using m len by (simp add: slot_matches_def)
  show ?thesis
  proof (cases "rm ! ?i")
    case True
    then have "store_symbol now (fh_symbol_index h) symbol a = Some a" by (simp add: store_symbol_def rm)
    then show ?thesis using ok m True by (auto simp: received_symbol_def rm)
  next
    case False
    let ?b = "a\<lparr>fa_buffers := Some (bs[?i := Some (take ?z symbol @ drop ?z block)]),
               fa_received_mask := Some (rm[?i := True]),
               fa_received_count := fa_received_count a + 1, fa_last_activity_time_ms := int now\<rparr>"
    have r: "store_symbol now (fh_symbol_index h) symbol a = Some ?b"
      using False block(1) by (simp add: store_symbol_def rm bs Let_def)
    have lb: "length (take ?z symbol @ drop ?z block) = length block" using sz zc by simp
    have stb: "storage_ok ?b"
      unfolding storage_ok_def
    proof (simp add: rm(2,3) s(1) [symmetric], intro conjI)
      have "\<exists>b. x = Some b \<and> length b = unat (fa_capacity_symbol_size a)" if "x \<in> set bs" for x
        using st bs that by (auto simp: storage_ok_def)
      then show "\<forall>x \<in> set (bs[?i := Some (take ?z symbol @ drop ?z block)]). \<exists>b. x = Some b \<and> length b = unat (fa_capacity_symbol_size a)"
        using set_update_subset_insert [of bs ?i "Some (take ?z symbol @ drop ?z block)"] lb block(2) by auto
    qed (use st bs s rm in \<open>auto simp: storage_ok_def\<close>)
    let ?R = "{j. j < length bs \<and> rm ! j}"
    have R: "{j. j < length bs \<and> rm[?i := True] ! j} = insert ?i ?R" using il rm(4) by (auto simp: nth_list_update)
    have "?i \<notin> ?R" using False by simp
    then have c: "received_count ?b = Suc (received_count a)"
      using R by (simp add: received_count_def rm(1) s(1) [symmetric])
    have old: "rm ! j \<Longrightarrow> j < length bs \<Longrightarrow> j < unat (fa_total_symbols a)" for j using wf nz rm s(1) by (simp add: slot_wf_def)
    have "insert ?i ?R \<subseteq> {..< unat (fa_total_symbols a)}" using old ti by auto
    then have "card (insert ?i ?R) \<le> card {..< unat (fa_total_symbols a)}" by (rule card_mono [rotated]) simp
    then have "Suc (received_count a) \<le> unat (fa_total_symbols a)"
      using c R by (simp add: received_count_def rm(1) s(1) [symmetric])
    moreover have "unat (fa_total_symbols a) \<le> 1024" using wf nz by (simp add: slot_wf_def word_le_nat_alt)
    ultimately have "unat (fa_received_count a + 1) = Suc (received_count a)"
      using wf nz by (simp add: slot_wf_def unat_word_ariths)
    then have "slot_wf ?b" using wf nz c stb old ti s(1) il rm(1,4)
      unfolding slot_wf_def by (auto simp: nth_list_update)
    moreover have rs: "received_symbol ?b j = (if j = ?i then (True, symbol) else received_symbol a j)" for j
      using il rm(1,4) sz by (simp add: received_symbol_def bs nth_list_update)
    moreover have "slot_genuine G ?b"
    proof (cases "G (fa_track_id a) (fa_group_id a) (fa_object_id a)")
      case None
      then show ?thesis by (simp add: slot_genuine_def)
    next
      case (Some so)
      have so: "so_k so = unat (fa_data_symbols a)" "so_z so = unat (fa_symbol_size a)" "length (so_data so) = unat (fa_original_size a)"
        "\<And>i. i < unat (fa_total_symbols a) \<Longrightarrow> fst (received_symbol a i) \<Longrightarrow> snd (received_symbol a i) = source_symbol so i"
        using g nz Some by (simp_all add: slot_genuine_def)
      have "symbol = source_symbol so ?i" using gen Some m by (simp add: genuine_def slot_matches_def)
      then show ?thesis using so Some unfolding slot_genuine_def rs by simp
    qed
    ultimately show ?thesis using r m by (simp add: slot_ok_def slot_matches_def)
  qed
qed

section \<open>Gathering the bytes\<close>

lemma gather_take:
  "\<forall>b \<in> set bs. \<exists>x. b = Some x \<and> z \<le> length x \<Longrightarrow>
   gather left z bs = Some (take left (concat (map (\<lambda>b. take z (the b)) bs)))"
proof (induction bs arbitrary: left)
  case (Cons b bs)
  obtain x where x: "b = Some x" "z \<le> length x" using Cons.prems by auto
  have ih: "gather l z bs = Some (take l (concat (map (\<lambda>b. take z (the b)) bs)))" for l
    using Cons.IH Cons.prems by simp
  show ?case
  proof (cases "left < z")
    case True
    then show ?thesis using x by (cases "left = 0") (simp_all add: ih Let_def min_def)
  next
    case False
    have e: "concat (map (\<lambda>b. [] :: bytes) bs) = []" by (induction bs) simp_all
    show ?thesis using False x ih [of left] by (cases "z = 0") (simp_all add: ih Let_def min_def e)
  qed
qed simp

lemma data_block_take: "data_block data z i = fill_array z (take z (drop (i * z) data))"
  by (auto simp: data_block_def Let_def min_def not_less)

lemma data_blocks_concat:
  "concat (map (data_block data z) [0..<k]) = take (k * z) data @ replicate (k * z - length data) 0"
proof (induction k)
  case (Suc k)
  have "fill_array z (take z (drop (k * z) data)) = take z (drop (k * z) data) @ replicate (z - min z (length data - k * z)) 0"
    by (simp add: fill_array_def min_def)
  moreover have "take (k * z) data @ replicate (k * z - length data) 0 @ take z (drop (k * z) data) @
      replicate (z - min z (length data - k * z)) 0 = take (Suc k * z) data @ replicate (Suc k * z - length data) (0 :: u8)"
  proof (cases "length data \<le> k * z")
    case True
    then show ?thesis by (simp flip: replicate_add)
  next
    case False
    have "take (Suc k * z) data = take (k * z) data @ take z (drop (k * z) data)"
      by (simp add: take_add [symmetric] add.commute)
    then show ?thesis using False by (auto simp: min_def)
  qed
  ultimately show ?case using Suc by (simp add: data_block_take)
qed simp

lemma gather_source:
  assumes b: "\<forall>b \<in> set bs. \<exists>x. b = Some x \<and> z \<le> length x" and k: "k \<le> length bs" "length data \<le> k * z"
    and d: "\<forall>i < k. take z (the (bs ! i)) = data_block data z i"
  shows "gather (length data) z (take k bs) = Some data"
proof -
  have "map (\<lambda>b. take z (the b)) (take k bs) = map (data_block data z) [0..<k]"
    using d k by (intro nth_equalityI) simp_all
  moreover have "\<forall>b \<in> set (take k bs). \<exists>x. b = Some x \<and> z \<le> length x" using b by (meson in_set_takeD)
  ultimately have "gather (length data) z (take k bs) = Some (take (length data) (take (k * z) data @ replicate (k * z - length data) 0))"
    by (simp add: gather_take data_blocks_concat)
  then show ?thesis using k(2) by simp
qed

section \<open>Decoding\<close>

text \<open>
  What the receiver relies on of a codec: it is made for the parameters it was asked for; decoding
  writes to missing blocks only and keeps their size; and when it reports success on symbols of an
  object, the first \<open>k\<close> blocks are the data symbols of that object.
\<close>

definition decoder_laws ::
  "sources \<Rightarrow> (nat \<Rightarrow> fec_type \<times> nat \<times> nat \<times> nat) \<Rightarrow> (fec_type \<Rightarrow> nat \<Rightarrow> nat \<Rightarrow> nat \<Rightarrow> nat option) \<Rightarrow>
   (nat \<Rightarrow> bytes option list \<Rightarrow> bool list \<Rightarrow> bool \<times> bytes option list) \<Rightarrow> bool" where
  "decoder_laws G params create decode \<longleftrightarrow>
     (\<forall>t k p z h. create t k p z = Some h \<longrightarrow> params h = (t, k, p, z)) \<and>
     (\<forall>h t k p z bs missing ok bs'. params h = (t, k, p, z) \<longrightarrow> k + p \<le> length bs \<longrightarrow> length missing = length bs \<longrightarrow>
        (\<forall>b \<in> set bs. \<exists>x. b = Some x \<and> z \<le> length x) \<longrightarrow> decode h bs missing = (ok, bs') \<longrightarrow>
        length bs' = length bs \<and>
        (\<forall>i < length bs. \<exists>y. bs' ! i = Some y \<and> length y = length (the (bs ! i)) \<and>
           (k + p \<le> i \<or> \<not> missing ! i \<longrightarrow> y = the (bs ! i))) \<and>
        (\<forall>a g ob so. G a g ob = Some so \<longrightarrow> so_k so = k \<longrightarrow> so_z so = z \<longrightarrow> ok \<longrightarrow>
           (\<forall>i < k + p. \<not> missing ! i \<longrightarrow> take z (the (bs ! i)) = source_symbol so i) \<longrightarrow>
           (\<forall>i < k. take z (the (bs' ! i)) = source_symbol so i)))"

text \<open>The data symbols of the slot are those of its object.\<close>

definition data_ready :: "sources \<Rightarrow> frame_assembler \<Rightarrow> bool" where
  "data_ready G a \<longleftrightarrow> (\<exists>bs. fa_buffers a = Some bs \<and>
     (\<forall>so. G (fa_track_id a) (fa_group_id a) (fa_object_id a) = Some so \<longrightarrow>
        (\<forall>i < unat (fa_data_symbols a). take (unat (fa_symbol_size a)) (the (bs ! i)) = source_symbol so i)))"

lemma data_ready_all:
  assumes ok: "slot_ok G a" and nz: "fa_total_symbols a \<noteq> 0" and m: "fa_received_mask a = Some rm"
    and all: "\<forall>i < unat (fa_data_symbols a). rm ! i"
  shows "data_ready G a"
proof -
  have wf: "slot_wf a" and g: "slot_genuine G a" using ok by (simp_all add: slot_ok_def)
  obtain bs where bs: "fa_buffers a = Some bs" using wf nz by (auto simp: slot_wf_def)
  have le: "unat (fa_data_symbols a) \<le> unat (fa_total_symbols a)" using wf nz by (simp add: slot_wf_def word_le_nat_alt)
  have "take (unat (fa_symbol_size a)) (the (bs ! i)) = source_symbol so i"
    if so: "G (fa_track_id a) (fa_group_id a) (fa_object_id a) = Some so" and i: "i < unat (fa_data_symbols a)" for so i
  proof -
    have "i < unat (fa_total_symbols a)" "fst (received_symbol a i)" using i le all by (simp_all add: received_symbol_def m)
    then have "snd (received_symbol a i) = source_symbol so i" using g nz so by (simp add: slot_genuine_def)
    then show ?thesis by (simp add: received_symbol_def bs)
  qed
  then show ?thesis using bs by (auto simp: data_ready_def)
qed

lemma slot_ok_decoded:
  assumes ok: "slot_ok G a" and nz: "fa_total_symbols a \<noteq> 0" and bs: "fa_buffers a = Some bs" and rm: "fa_received_mask a = Some rm"
    and mm: "fa_missing_mask a = Some mm" and laws: "decoder_laws G params create decode"
    and p: "params fec = (t, unat (fa_data_symbols a), unat (fa_total_symbols a) - unat (fa_data_symbols a), unat (fa_symbol_size a))"
    and missing: "missing = map Not (take (unat (fa_total_symbols a)) rm) @ drop (unat (fa_total_symbols a)) mm"
    and r: "decode fec bs missing = (success, bs')"
  defines "b \<equiv> a\<lparr>fa_missing_mask := Some missing, fa_buffers := Some bs'\<rparr>"
  shows "slot_ok G b \<and> (success \<longrightarrow> data_ready G b)"
proof -
  let ?k = "unat (fa_data_symbols a)" and ?n = "unat (fa_total_symbols a)" and ?z = "unat (fa_symbol_size a)"
  have wf: "slot_wf a" and g: "slot_genuine G a" using ok by (simp_all add: slot_ok_def)
  have st: "storage_ok a" using wf by (simp add: slot_wf_def)
  note s = storageD [OF st bs]
  have len: "length rm = length bs" "length mm = length bs" using s(3) rm mm by auto
  have kn: "?k \<le> ?n" "?n \<le> length bs" using wf nz s(1,4) by (simp_all add: slot_wf_def word_le_nat_alt)
  have ml: "length missing = length bs" using len kn by (simp add: missing)
  have blocks: "\<forall>b \<in> set bs. \<exists>x. b = Some x \<and> ?z \<le> length x"
    using st bs s(5) by (auto simp: storage_ok_def word_le_nat_alt)
  have mi: "missing ! i \<longleftrightarrow> \<not> rm ! i" if "i < ?n" for i using that kn len by (simp add: missing nth_append)
  have nk: "?k + (?n - ?k) = ?n" using kn(1) by simp
  note l1 = laws [unfolded decoder_laws_def, THEN conjunct2, rule_format, OF p, unfolded nk, OF kn(2) ml blocks [rule_format] r]
  have l: "length bs' = length bs"
      "\<And>i. i < length bs \<Longrightarrow> \<exists>y. bs' ! i = Some y \<and> length y = length (the (bs ! i)) \<and> (?n \<le> i \<or> \<not> missing ! i \<longrightarrow> y = the (bs ! i))"
      "\<And>a' g ob so i. G a' g ob = Some so \<Longrightarrow> so_k so = ?k \<Longrightarrow> so_z so = ?z \<Longrightarrow> success \<Longrightarrow>
         \<forall>i < ?n. \<not> missing ! i \<longrightarrow> take ?z (the (bs ! i)) = source_symbol so i \<Longrightarrow> i < ?k \<Longrightarrow>
         take ?z (the (bs' ! i)) = source_symbol so i"
    using l1 by blast+
  have keep: "bs' ! i = bs ! i" if i: "i < length bs" "?n \<le> i \<or> rm ! i" for i
  proof -
    obtain y where y: "bs' ! i = Some y" "?n \<le> i \<or> \<not> missing ! i \<longrightarrow> y = the (bs ! i)" using l(2) [OF i(1)] by blast
    obtain x where "bs ! i = Some x" using s(2) [OF i(1)] by blast
    then show ?thesis using y i(2) mi [of i] by (cases "i < ?n") simp_all
  qed
  have stb: "storage_ok b"
  proof -
    have "\<exists>y. x = Some y \<and> length y = unat (fa_capacity_symbol_size a)" if x: "x \<in> set bs'" for x
    proof -
      obtain i where i: "i < length bs" "x = bs' ! i" using x l(1) by (auto simp: in_set_conv_nth)
      show ?thesis using l(2) [OF i(1)] s(2) [OF i(1)] i(2) by auto
    qed
    then show ?thesis using st bs rm len ml l(1) s by (auto simp: storage_ok_def b_def)
  qed
  have rs: "received_symbol b i = received_symbol a i" if "i < ?n" "rm ! i" for i
    using keep [of i] that kn by (simp add: received_symbol_def b_def bs rm)
  have rm_b: "fst (received_symbol b i) = rm ! i" for i by (simp add: received_symbol_def b_def rm)
  have "slot_wf b" using wf stb by (simp add: slot_wf_def b_def received_count_def bs)
  moreover have gen: "snd (received_symbol a i) = source_symbol so i"
    if "G (fa_track_id a) (fa_group_id a) (fa_object_id a) = Some so" "i < ?n" "rm ! i" for so i
    using g nz that by (simp add: slot_genuine_def) (simp add: received_symbol_def rm)
  have "slot_genuine G b"
  proof (cases "G (fa_track_id a) (fa_group_id a) (fa_object_id a)")
    case None
    then show ?thesis by (simp add: slot_genuine_def b_def)
  next
    case (Some so)
    have so: "so_k so = ?k" "so_z so = ?z" "length (so_data so) = unat (fa_original_size a)"
      using g nz Some by (simp_all add: slot_genuine_def)
    have "snd (received_symbol b i) = source_symbol so i" if "i < ?n" "fst (received_symbol b i)" for i
      using rs [OF that(1)] gen [OF Some that(1)] that(2) rm_b by simp
    then show ?thesis using Some so unfolding slot_genuine_def by (simp add: b_def)
  qed
  moreover have "data_ready G b" if success
  proof -
    have "take ?z (the (bs' ! i)) = source_symbol so i"
      if so: "G (fa_track_id a) (fa_group_id a) (fa_object_id a) = Some so" and i: "i < ?k" for so i
    proof (rule l(3) [OF so _ _ \<open>success\<close> _ i])
      show "so_k so = ?k" "so_z so = ?z" using g nz so by (simp_all add: slot_genuine_def)
      show "\<forall>i < ?n. \<not> missing ! i \<longrightarrow> take ?z (the (bs ! i)) = source_symbol so i"
        using gen [OF so] mi by (simp add: received_symbol_def bs)
    qed
    then show ?thesis by (simp add: data_ready_def b_def)
  qed
  ultimately show ?thesis by (simp add: slot_ok_def)
qed

section \<open>The pool\<close>

definition pools_ok :: "sources \<Rightarrow> nat \<Rightarrow> assembler_memory \<Rightarrow> assembler_pool \<Rightarrow> bool" where
  "pools_ok G others m p \<longleftrightarrow> pool_ok p \<and>
     (\<forall>i < HARD_MAX_ASSEMBLERS. slot_ok G (ap_assemblers p ! i) \<and> (pool_live p i \<longrightarrow> fa_total_symbols (ap_assemblers p ! i) \<noteq> 0)) \<and>
     am_bytes m = others + slots_bytes p \<and> am_bytes m \<le> am_limit m \<and> am_limit m \<le> SIZE_MAX"

text \<open>The live slots of \<open>p'\<close> are live slots of \<open>p\<close>, unchanged, and the window is the same.\<close>

definition pool_le :: "assembler_pool \<Rightarrow> assembler_pool \<Rightarrow> bool" where
  "pool_le p' p \<longleftrightarrow> ap_limit p' = ap_limit p \<and> (\<forall>i < HARD_MAX_ASSEMBLERS. pool_live p' i \<longrightarrow> pool_live p i \<and>
     contents (ap_assemblers p' ! i) = contents (ap_assemblers p ! i))"

lemma pool_le_refl [simp]: "pool_le p p"
  by (simp add: pool_le_def)

lemma pool_le_trans: "pool_le p2 p1 \<Longrightarrow> pool_le p1 p0 \<Longrightarrow> pool_le p2 p0"
  by (simp add: pool_le_def)

lemma pools_okD:
  assumes "pools_ok G others m p"
  shows "pool_ok p" "i < HARD_MAX_ASSEMBLERS \<Longrightarrow> slot_ok G (ap_assemblers p ! i)"
    "i < HARD_MAX_ASSEMBLERS \<Longrightarrow> pool_live p i \<Longrightarrow> fa_total_symbols (ap_assemblers p ! i) \<noteq> 0"
    "am_bytes m = others + slots_bytes p" "am_bytes m \<le> am_limit m" "am_limit m \<le> SIZE_MAX" "length (ap_assemblers p) = HARD_MAX_ASSEMBLERS"
  using assms by (simp_all add: pools_ok_def pool_ok_def pool_wf_def)

lemma unindex_limit: "transport_unindex_assembler p i = Some p' \<Longrightarrow> ap_limit p' = ap_limit p"
  by (auto simp: transport_unindex_assembler_def Let_def split: option.splits if_splits)

lemma release_limit: "transport_release_assembler m p i = Some (m', p') \<Longrightarrow> ap_limit p' = ap_limit p"
  by (auto simp: transport_release_assembler_def Let_def dest: unindex_limit split: option.splits)

lemma release_pools:
  assumes ok: "pools_ok G others m p" and i: "i < HARD_MAX_ASSEMBLERS"
  shows "\<exists>m' p'. transport_release_assembler m p i = Some (m', p') \<and> pools_ok G others m' p' \<and> pool_le p' p \<and>
    ap_assemblers p' ! i = zero_assembler \<and> am_limit m' = am_limit m"
proof -
  note d = pools_okD [OF ok]
  obtain m' p' where r: "transport_release_assembler m p i = Some (m', p')" "pool_ok p'"
    "am_bytes m' = others + slots_bytes p'" "am_bytes m' \<le> am_bytes m" "am_limit m' = am_limit m"
    "ap_assemblers p' ! i = zero_assembler" "\<forall>j < HARD_MAX_ASSEMBLERS. pool_live p' j \<longleftrightarrow> j \<noteq> i \<and> pool_live p j"
    "\<forall>j < HARD_MAX_ASSEMBLERS. j \<noteq> i \<longrightarrow> contents (ap_assemblers p' ! j) = contents (ap_assemblers p ! j)"
    using release_ok [OF d(1) i d(4)] by blast
  have "slot_ok G (ap_assemblers p' ! j) \<and> (pool_live p' j \<longrightarrow> fa_total_symbols (ap_assemblers p' ! j) \<noteq> 0)"
    if j: "j < HARD_MAX_ASSEMBLERS" for j
  proof (cases "j = i")
    case True
    then show ?thesis using r(6,7) i slot_ok_zero by simp
  next
    case False
    then have c: "contents (ap_assemblers p' ! j) = contents (ap_assemblers p ! j)" using r(8) j by blast
    have t: "fa_total_symbols (ap_assemblers p' ! j) = fa_total_symbols (ap_assemblers p ! j)"
      using arg_cong [OF c, of fa_total_symbols] by simp
    show ?thesis using slot_ok_cong [OF c] d(2,3) [OF j] r(7) j t by simp
  qed
  moreover have le: "am_bytes m' \<le> am_limit m" using r(4) d(5) by linarith
  ultimately have "pools_ok G others m' p'" using r(2,3) le d(6) r(5) unfolding pools_ok_def by simp
  moreover have "pool_le p' p" using r(7,8) release_limit [OF r(1)] by (simp add: pool_le_def)
  ultimately show ?thesis using r by blast
qed

lemma retire_fold_pools:
  "\<forall>i \<in> set is. i < HARD_MAX_ASSEMBLERS \<Longrightarrow> pools_ok G others m p \<Longrightarrow>
   \<exists>m' p'. fold (retire_assembler a g l) is (Some (m, p)) = Some (m', p') \<and> pools_ok G others m' p' \<and> pool_le p' p"
proof (induction "is" arbitrary: m p)
  case (Cons i "is")
  show ?case
  proof (cases "let a' = ap_assemblers p ! i in fa_total_symbols a' > 0 \<and> fa_track_id a' = a \<and> fa_group_id a' = g \<and>
            fa_object_id a' \<le> l")
    case True
    obtain m1 p1 where r: "transport_release_assembler m p i = Some (m1, p1)" "pools_ok G others m1 p1" "pool_le p1 p"
      using release_pools [OF Cons.prems(2), of i] Cons.prems(1) by auto
    have "retire_assembler a g l i (Some (m, p)) = Some (m1, p1)" using True r(1) by (simp add: Let_def retire_assembler_def)
    obtain m2 p2 where f: "fold (retire_assembler a g l) is (Some (m1, p1)) = Some (m2, p2)" "pools_ok G others m2 p2" "pool_le p2 p1"
      using Cons.IH [of m1 p1] Cons.prems(1) r(2) by auto
    then show ?thesis using pool_le_trans [OF f(3) r(3)] \<open>retire_assembler a g l i (Some (m, p)) = Some (m1, p1)\<close> by simp
  next
    case False
    have "retire_assembler a g l i (Some (m, p)) = Some (m, p)" using False by (auto simp: Let_def retire_assembler_def)
    then show ?thesis using Cons.IH [of m p] Cons.prems by simp
  qed
qed simp

section \<open>Acknowledgement runs\<close>

definition unlog :: "('s \<times> (u64 \<times> u64) list) recovery_conn \<Rightarrow> 's recovery_conn" where
  "unlog conn = \<lparr>rc_gap = rc_gap conn, rc_memory = rc_memory conn, rc_pool = rc_pool conn,
     rc_stream = fst (rc_stream conn), rc_acks_sent = rc_acks_sent conn\<rparr>"

lemma unlog_simps [simp]:
  "rc_gap (unlog conn) = rc_gap conn" "rc_memory (unlog conn) = rc_memory conn" "rc_pool (unlog conn) = rc_pool conn"
  "rc_stream (unlog conn) = fst (rc_stream conn)" "rc_acks_sent (unlog conn) = rc_acks_sent conn"
  by (simp_all add: unlog_def)

lemma unlog_update [simp]: "(unlog conn)\<lparr>rc_gap := g\<rparr> = unlog (conn\<lparr>rc_gap := g\<rparr>)"
  by (simp add: unlog_def)

lemma send_unlog:
  "send_checkpoint_ack (logged env) conn a g l = (ok, conn') \<Longrightarrow> send_checkpoint_ack env (unlog conn) a g l = (ok, unlog conn')"
  by (cases "rc_stream conn")
    (auto simp: send_checkpoint_ack_def logged_def unlog_def split: prod.splits bool.splits if_splits)

lemma retire_unlog:
  "retire_recovery_through M conn a g l = Some conn' \<Longrightarrow> retire_recovery_through M (unlog conn) a g l = Some (unlog conn')"
  by (auto simp: retire_recovery_through_def unlog_def split: option.splits)

lemma acknowledge_unlog:
  "acknowledge_completed_recovery_windows e M a conn = Some r \<Longrightarrow> e = logged env \<Longrightarrow>
   acknowledge_completed_recovery_windows env M a (unlog conn) = Some (fst r, unlog (snd r))"
proof (induction rule: acknowledge_completed_recovery_windows.raw_induct [rotated, consumes 1, case_names step])
  case (step ack e m x c r)
  have opn: "as_open e s \<longleftrightarrow> as_open env (fst s)" "as_can_accept e s \<longleftrightarrow> as_can_accept env (fst s)" for s
    unfolding step.prems by (cases s; simp add: logged_def)+
  note simps = acknowledge_completed_recovery_windows.simps [of env m x "unlog c"]
  note body = step.hyps [unfolded opn]
  show ?case
  proof (cases "first_window (og_recovery_windows (rc_gap c))")
    case None
    then show ?thesis using body by (auto simp: simps)
  next
    case (Some w)
    show ?thesis
    proof (cases "rw_missing_mask w = 0 \<and> as_open env (fst (rc_stream c)) \<and> as_can_accept env (fst (rc_stream c))")
      case False
      then show ?thesis using body Some by (auto simp: simps split: option.splits if_splits)
    next
      case True
      obtain l where l: "completed_prefix (og_recovery_windows (rc_gap c)) (rw_group_id w) (rw_final_object_id w) = Some l"
        using body Some True by (auto split: option.splits)
      obtain sent c1 where c1: "send_checkpoint_ack e c x (rw_group_id w) l = (sent, c1)"
        by (cases "send_checkpoint_ack e c x (rw_group_id w) l")
      note u = send_unlog [OF c1 [unfolded step.prems]]
      show ?thesis
      proof (cases sent)
        case False
        then show ?thesis using body Some True l c1 u by (auto simp: simps)
      next
        case s: True
        obtain c2 where c2: "retire_recovery_through m c1 x (rw_group_id w) l = Some c2"
          using body Some True l c1 s by (auto split: option.splits)
        have "ack e m x (c2\<lparr>rc_gap := (rc_gap c2)\<lparr>og_recovery_windows :=
           clear_windows (og_recovery_windows (rc_gap c2)) (rw_group_id w) l\<rparr>\<rparr>) = Some r"
          using body Some True l c1 s c2 by simp
        from step.IH [OF this step.prems] show ?thesis
          using Some True l u s retire_unlog [OF c2] by (simp add: simps)
      qed
    qed
  qed
qed

lemma acknowledge_plain:
  assumes max: "M \<le> HARD_MAX_ASSEMBLERS" and w: "windows_ok (og_recovery_windows (rc_gap conn))" and p: "pool_account others conn"
  shows "\<exists>ok conn'. acknowledge_completed_recovery_windows env M a conn = Some (ok, conn') \<and>
    same_history (rc_gap conn) (rc_gap conn') \<and> windows_retired (og_recovery_windows (rc_gap conn)) (og_recovery_windows (rc_gap conn'))"
proof -
  define lc :: "('a \<times> (u64 \<times> u64) list) recovery_conn" where "lc = \<lparr>rc_gap = rc_gap conn, rc_memory = rc_memory conn, rc_pool = rc_pool conn,
     rc_stream = (rc_stream conn, []), rc_acks_sent = rc_acks_sent conn\<rparr>"
  have u: "unlog lc = conn" by (simp add: unlog_def lc_def)
  have "windows_ok (og_recovery_windows (rc_gap lc))" "pool_account others lc" using w p by (simp_all add: lc_def pool_account_def)
  from acknowledge_ok [OF max this, of env a] obtain ok lc' where
    r: "acknowledge_completed_recovery_windows (logged env) M a lc = Some (ok, lc')" "ack_result env others lc ok lc'" by blast
  have "acknowledge_completed_recovery_windows env M a conn = Some (ok, unlog lc')"
    using acknowledge_unlog [OF r(1) refl] by (simp add: u)
  moreover have "same_history (rc_gap conn) (rc_gap lc')" "windows_retired (og_recovery_windows (rc_gap conn)) (og_recovery_windows (rc_gap lc'))"
    using r(2) by (simp_all add: ack_result_def Let_def) (simp_all add: lc_def)
  ultimately show ?thesis by (intro exI [of _ ok] exI [of _ "unlog lc'"]) simp
qed

lemma send_pools:
  "send_checkpoint_ack env conn a g l = (ok, conn') \<Longrightarrow> rc_memory conn' = rc_memory conn \<and> rc_pool conn' = rc_pool conn"
  by (auto simp: send_checkpoint_ack_def split: prod.splits bool.splits if_splits)

lemma acknowledge_pools:
  "acknowledge_completed_recovery_windows env M a conn = Some r \<Longrightarrow> M \<le> HARD_MAX_ASSEMBLERS \<Longrightarrow>
   pools_ok G others (rc_memory conn) (rc_pool conn) \<Longrightarrow>
   pools_ok G others (rc_memory (snd r)) (rc_pool (snd r)) \<and> pool_le (rc_pool (snd r)) (rc_pool conn)"
proof (induction rule: acknowledge_completed_recovery_windows.raw_induct [rotated, consumes 1, case_names step])
  case (step ack env m x c r)
  show ?case
  proof (cases "first_window (og_recovery_windows (rc_gap c))")
    case None
    then show ?thesis using step.hyps step.prems by auto
  next
    case (Some w)
    show ?thesis
    proof (cases "rw_missing_mask w = 0 \<and> as_open env (rc_stream c) \<and> as_can_accept env (rc_stream c)")
      case False
      then have "snd r = c" using step.hyps Some by (auto split: option.splits if_splits)
      then show ?thesis using step.prems by simp
    next
      case True
      obtain l where l: "completed_prefix (og_recovery_windows (rc_gap c)) (rw_group_id w) (rw_final_object_id w) = Some l"
        using step.hyps Some True by (auto split: option.splits)
      obtain sent c1 where c1: "send_checkpoint_ack env c x (rw_group_id w) l = (sent, c1)"
        by (cases "send_checkpoint_ack env c x (rw_group_id w) l")
      note s1 = send_pools [OF c1]
      show ?thesis
      proof (cases sent)
        case False
        then have "snd r = c1" using step.hyps Some True l c1 by auto
        then show ?thesis using s1 step.prems by simp
      next
        case s: True
        obtain c2 where c2: "retire_recovery_through m c1 x (rw_group_id w) l = Some c2"
          using step.hyps Some True l c1 s by (auto split: option.splits)
        have p1: "pools_ok G others (rc_memory c1) (rc_pool c1)" using s1 step.prems by simp
        have idx: "\<forall>i \<in> set [0..<m]. i < HARD_MAX_ASSEMBLERS" using step.prems(1) by simp
        have p2: "pools_ok G others (rc_memory c2) (rc_pool c2) \<and> pool_le (rc_pool c2) (rc_pool c1)"
          using retire_fold_pools [OF idx p1, of x "rw_group_id w" l] c2 by (auto simp: retire_recovery_through_def)
        let ?c3 = "c2\<lparr>rc_gap := (rc_gap c2)\<lparr>og_recovery_windows :=
           clear_windows (og_recovery_windows (rc_gap c2)) (rw_group_id w) l\<rparr>\<rparr>"
        have "ack env m x ?c3 = Some r" using step.hyps Some True l c1 s c2 by simp
        from step.IH [OF this step.prems(1)] p2 have
          "pools_ok G others (rc_memory (snd r)) (rc_pool (snd r)) \<and> pool_le (rc_pool (snd r)) (rc_pool c2)" by simp
        then show ?thesis using p2 s1 pool_le_trans by fastforce
      qed
    qed
  qed
qed

section \<open>The subscriptions\<close>

type_synonym delivery = "completion \<times> receive_event"

definition rateless_delivery :: "receive_event \<Rightarrow> bool" where
  "rateless_delivery e \<longleftrightarrow> (case e of Event_object track _ _ _ _ _ \<Rightarrow> is_rateless_data track | _ \<Rightarrow> False)"

text \<open>The numbers of the rateless objects delivered under one subscription.\<close>

definition delivered_objects :: "delivery list \<Rightarrow> u8 \<Rightarrow> u64 \<Rightarrow> u64 set" where
  "delivered_objects ds a n = {ob. \<exists>g e. ((a, n, g, ob), e) \<in> set ds \<and> rateless_delivery e}"

definition gap_inv :: "object_gap_state \<Rightarrow> bool" where
  "gap_inv gap \<longleftrightarrow> windows_ok (og_recovery_windows gap) \<and>
     (\<forall>w \<in> set (og_recovery_windows gap). rw_active w \<longrightarrow>
        og_checkpoint_initialized gap \<and> rw_final_object_id w \<le> og_last_checkpoint_object_id gap)"

definition state_ok :: "delivery list \<Rightarrow> u8 \<Rightarrow> subscription_state \<Rightarrow> bool" where
  "state_ok ds a s \<longleftrightarrow> gap_inv (ss_object_gap s) \<and> hist_ok (ss_object_gap s) (delivered_objects ds a (ss_generation s))"

definition table_wf :: "delivery list \<Rightarrow> nat \<Rightarrow> subscription_table \<Rightarrow> bool" where
  "table_wf ds n tb \<longleftrightarrow> subs_inv tb \<and> tb_entries tb \<noteq> [] \<and> generations_bounded tb \<and> unat (tb_next_generation tb) \<le> n \<and>
     (\<forall>d \<in> set ds. fst (snd (fst d)) \<le> tb_next_generation tb)"

definition table_ok :: "delivery list \<Rightarrow> nat \<Rightarrow> subscription_table \<Rightarrow> bool" where
  "table_ok ds n tb \<longleftrightarrow> table_wf ds n tb \<and> (\<forall>a s. tb_states tb a = Some s \<longrightarrow> state_ok ds a s)"

lemma table_okD:
  assumes "table_ok ds n tb"
  shows "subs_inv tb" "tb_entries tb \<noteq> []" "generations_bounded tb" "unat (tb_next_generation tb) \<le> n"
    "d \<in> set ds \<Longrightarrow> fst (snd (fst d)) \<le> tb_next_generation tb" "tb_states tb a = Some s \<Longrightarrow> state_ok ds a s"
  using assms by (simp_all add: table_ok_def table_wf_def)

lemma table_ok_mono: "table_ok ds n tb \<Longrightarrow> n \<le> n' \<Longrightarrow> table_ok ds n' tb"
  by (auto simp: table_ok_def table_wf_def)

lemma gap_inv_zero: "gap_inv zero_gap"
  by (simp add: gap_inv_def zero_gap_def windows_ok_def)

lemma put_object_gap_simps [simp]:
  "tb_entries (put_object_gap tb a gap) = tb_entries tb" "tb_next_generation (put_object_gap tb a gap) = tb_next_generation tb"
  by (simp_all add: put_object_gap_def)

lemma put_object_gap_states:
  "tb_states (put_object_gap tb a gap) b = (if b = a then map_option (\<lambda>s. s\<lparr>ss_object_gap := gap\<rparr>) (tb_states tb a) else tb_states tb b)"
  by (simp add: put_object_gap_def)

lemma put_gap_inv: "subs_inv tb \<Longrightarrow> subs_inv (put_object_gap tb a gap)"
  unfolding subs_inv_def by (auto simp: put_object_gap_states)

lemma put_gap_bounded: "generations_bounded tb \<Longrightarrow> generations_bounded (put_object_gap tb a gap)"
  unfolding generations_bounded_def by (auto simp: put_object_gap_states split: if_splits)

lemma put_gap_table_wf: "table_wf ds n tb \<Longrightarrow> table_wf ds n (put_object_gap tb a gap)"
  by (simp add: table_wf_def put_gap_inv put_gap_bounded)

lemma put_gap_table:
  assumes ok: "table_ok ds n tb" and s: "tb_states tb a = Some s" and g: "gap_inv gap" "hist_ok gap (delivered_objects ds a (ss_generation s))"
  shows "table_ok ds n (put_object_gap tb a gap)"
proof -
  have "state_ok ds b s'" if "tb_states (put_object_gap tb a gap) b = Some s'" for b s'
    using that s g table_okD(6) [OF ok, of b s'] by (auto simp: put_object_gap_states state_ok_def split: if_splits)
  then show ?thesis using ok put_gap_table_wf by (simp add: table_ok_def)
qed

text \<open>A new subscription starts without deliveries, because its generation is new.\<close>

lemma add_table:
  assumes ok: "table_ok ds n tb" and n: "n < 2 ^ 64 - 1" and new: "transport_subscriptions_find_alias tb track = None"
    and r: "transport_subscriptions_add c0 c tb (ti_type track) f (ti_name track) a = (done, tb')"
  shows "table_ok ds (n + 1) tb' \<and> (done \<longrightarrow> (\<exists>g. tb_states tb' a = Some (fresh_state g)) \<and> put_object_gap tb' a zero_gap = tb')"
proof -
  note d = table_okD [OF ok]
  let ?g = "tb_next_generation tb + 1"
  have en: "ensure_initialized c0 tb = (True, tb)" using d(2) by (simp add: ensure_initialized_def)
  have ne: "tb_next_generation tb \<noteq> - 1"
  proof
    assume "tb_next_generation tb = - 1"
    then have "unat (tb_next_generation tb) = 2 ^ 64 - 1" by (simp add: unsigned_minus_1_eq_mask mask_eq_exp_minus_1)
    then show False using d(4) n by simp
  qed
  have gt: "g < ?g" if "g \<le> tb_next_generation tb" for g using generation_step [OF ne that] .
  have ug: "unat ?g = unat (tb_next_generation tb) + 1" using ne by (rule unat_plus_one)
  have inv': "subs_inv tb'" using add_inv [OF d(1), of c0 c "ti_type track" f "ti_name track" a] by (simp add: r)
  from r show ?thesis
  proof (cases rule: add_cases)
    case refused
    then show ?thesis using ok en table_ok_mono [of ds n tb "n + 1"] by simp
  next
    case (updated tb1 i)
    have "subs_map tb (track_key track) = None" using new by (simp add: find_alias_map)
    then have "entry_key (tb_entries tb) i \<noteq> track_key track"
      using updated(2,3) en by (simp add: subs_map_None)
    then show ?thesis using updated(2,4) en by (simp add: track_key_def)
  next
    case (added tb1 i entry)
    have tb1: "tb1 = tb" using added(2) en by simp
    have tb': "tb' = \<lparr>tb_entries = (tb_entries tb)[i := entry], tb_next_generation = ?g,
         tb_states = (tb_states tb)(a := Some (fresh_state ?g))\<rparr>" using added(12) by (simp add: tb1)
    have old: "g \<le> ?g" if "g \<le> tb_next_generation tb" for g using gt [OF that] by simp
    have "generations_bounded tb'"
      using d(3) old unfolding generations_bounded_def tb' by (auto simp: fresh_state_def)
    moreover have "\<forall>x \<in> set ds. fst (snd (fst x)) \<le> tb_next_generation tb'" using d(5) old by (simp add: tb')
    ultimately have wf: "table_wf ds (n + 1) tb'" using inv' d(2,4) ug by (simp add: table_wf_def tb')
    have none: "delivered_objects ds a ?g = {}"
    proof -
      have "x \<notin> delivered_objects ds a ?g" for x
      proof
        assume "x \<in> delivered_objects ds a ?g"
        then obtain g e where "((a, ?g, g, x), e) \<in> set ds" by (auto simp: delivered_objects_def)
        then have "?g \<le> tb_next_generation tb" using d(5) by fastforce
        then show False using gt [of "?g"] by simp
      qed
      then show ?thesis by blast
    qed
    have "state_ok ds b s" if "tb_states tb' b = Some s" for b s
    proof (cases "b = a")
      case True
      then have "s = fresh_state ?g" using that by (simp add: tb')
      then show ?thesis using True none hist_zero gap_inv_zero by (simp add: state_ok_def fresh_state_def)
    next
      case False
      then show ?thesis using that d(6) [of b s] by (simp add: tb')
    qed
    then have "table_ok ds (n + 1) tb'" using wf by (simp add: table_ok_def)
    moreover have "put_object_gap tb' a zero_gap = tb'"
      by (simp add: put_object_gap_def tb' fresh_state_def fun_upd_idem_iff)
    ultimately show ?thesis by (auto simp: tb')
  qed
qed

lemma remove_table:
  assumes ok: "table_ok ds n tb" and r: "transport_subscriptions_remove tb t name = (tb', st)"
  shows "table_ok ds n tb'"
  using r
proof (cases rule: remove_cases)
  case absent
  then show ?thesis using ok by simp
next
  case (removed i)
  note d = table_okD [OF ok]
  have "subs_inv tb'" using remove_inv [OF d(1) r] by simp
  moreover have "generations_bounded tb'" using d(3) removed(4,6) by (auto simp: generations_bounded_def split: if_splits)
  ultimately have "table_wf ds n tb'" using d(2,4,5) removed(3,6) by (simp add: table_wf_def)
  moreover have "state_ok ds a s" if "tb_states tb' a = Some s" for a s using that removed(4) d(6) by (auto split: if_splits)
  ultimately show ?thesis by (simp add: table_ok_def)
qed

lemma unsubscribe_table:
  assumes ok: "table_ok ds n tb" and i: "live (tb_entries tb) i"
    and r: "transport_subscriptions_remove (put_object_gap tb (ts_alias (tb_entries tb ! i)) zero_gap)
      (ti_type (ts_track_id (tb_entries tb ! i))) (ti_name (ts_track_id (tb_entries tb ! i))) = (tb', st)"
  shows "table_ok ds n tb'"
proof -
  note d = table_okD [OF ok]
  let ?a = "ts_alias (tb_entries tb ! i)" and ?p = "put_object_gap tb (ts_alias (tb_entries tb ! i)) zero_gap"
  have inv: "subs_inv ?p" using put_gap_inv [OF d(1)] .
  from r show ?thesis
  proof (cases rule: remove_cases)
    case absent
    then show ?thesis using absent(3) [of i] i by (simp add: track_key_def)
  next
    case (removed j)
    have "entry_key (tb_entries tb) j = entry_key (tb_entries tb) i" using removed(2) by (simp add: track_key_def)
    then have j: "j = i" using inv_key [OF d(1)] removed(1) i by simp
    have st: "tb_states tb' = (tb_states tb)(?a := None)"
      using removed(4) by (auto simp: j put_object_gap_states fun_eq_iff)
    have "subs_inv tb'" using remove_inv [OF inv r] by simp
    moreover have "generations_bounded tb'"
      using d(3) st removed(6) by (auto simp: generations_bounded_def split: if_splits)
    ultimately have "table_wf ds n tb'" using d(2,4,5) removed(3,6) by (simp add: table_wf_def)
    moreover have "state_ok ds a s" if "tb_states tb' a = Some s" for a s using that st d(6) by (auto split: if_splits)
    ultimately show ?thesis by (simp add: table_ok_def)
  qed
qed

end
