(* ===== verification/Delivery.thy ===== *)
theory Delivery
  imports Receiver
begin

text \<open>
  The whole receiver of \<open>Receive\<close>: the invariant of its state with the list of the deliveries made,
  and every operation of it against that invariant, with the calls of the application in between.
\<close>

section \<open>The whole receiver\<close>

record receiver_config =
  cf_sources :: sources
  cf_params :: "nat \<Rightarrow> fec_type \<times> nat \<times> nat \<times> nat"
  cf_others :: nat
  cf_max :: nat
  cf_calls :: nat

text \<open>
  \<open>cf_others\<close> is the assembler memory of the other connections, \<open>cf_calls\<close> a bound on the calls
  the application makes from one callback.
\<close>

definition env_ok :: "receiver_config \<Rightarrow> 's receive_env \<Rightarrow> bool" where
  "env_ok cf env \<longleftrightarrow> ev_max_assemblers env = cf_max cf \<and> 0 < cf_max cf \<and> cf_max cf \<le> HARD_MAX_ASSEMBLERS \<and>
     decoder_laws (cf_sources cf) (cf_params cf) (ev_create env) (ev_decode env) \<and>
     (\<forall>e w. length (ev_callback env e w) \<le> cf_calls cf)"

definition is_object_event :: "receive_event \<Rightarrow> bool" where
  "is_object_event e \<longleftrightarrow> (case e of Event_object _ _ _ _ _ _ \<Rightarrow> True | _ \<Rightarrow> False)"

text \<open>The event hands over the bytes of the source object.\<close>

definition source_event :: "sources \<Rightarrow> delivery \<Rightarrow> bool" where
  "source_event G d \<longleftrightarrow> (case d of ((a, k, g, ob), e) \<Rightarrow>
     (\<exists>track data key prio. e = Event_object track g ob data key prio \<and> (\<forall>so. G a g ob = Some so \<longrightarrow> data = so_data so)))"

definition spaced :: "completion list \<Rightarrow> bool" where
  "spaced hs \<longleftrightarrow> (\<forall>j < length hs. \<forall>i < j. hs ! i = hs ! j \<longrightarrow> i + COMPLETED_OBJECTS < j)"

definition rateless_once :: "delivery list \<Rightarrow> bool" where
  "rateless_once ds \<longleftrightarrow> (\<forall>j < length ds. \<forall>i < j. rateless_delivery (snd (ds ! i)) \<longrightarrow> rateless_delivery (snd (ds ! j)) \<longrightarrow>
     (case (fst (ds ! i), fst (ds ! j)) of ((a, k, g, ob), (a', k', g', ob')) \<Rightarrow> (a, k, ob) \<noteq> (a', k', ob')))"

definition rx_inv :: "receiver_config \<Rightarrow> delivery list \<Rightarrow> nat \<Rightarrow> 's receiver \<Rightarrow> bool" where
  "rx_inv cf ds n rx \<longleftrightarrow>
     pools_ok (cf_sources cf) (cf_others cf) (rx_memory rx) (rx_pool rx) \<and> ap_limit (rx_pool rx) \<le> cf_max cf \<and>
     table_ok ds n (rx_table rx) \<and> completed_holds (rx_completed rx) (map fst ds) \<and>
     fec_cache_ok (cf_params cf) (rx_fec_cache rx) \<and> filter is_object_event (rx_events rx) = map snd ds \<and>
     (\<forall>d \<in> set ds. source_event (cf_sources cf) d) \<and> spaced (map fst ds) \<and> rateless_once ds"

lemma rx_invD:
  assumes "rx_inv cf ds n rx"
  shows "pools_ok (cf_sources cf) (cf_others cf) (rx_memory rx) (rx_pool rx)" "ap_limit (rx_pool rx) \<le> cf_max cf"
    "table_ok ds n (rx_table rx)" "completed_holds (rx_completed rx) (map fst ds)"
    "fec_cache_ok (cf_params cf) (rx_fec_cache rx)" "filter is_object_event (rx_events rx) = map snd ds"
    "\<forall>d \<in> set ds. source_event (cf_sources cf) d" "spaced (map fst ds)" "rateless_once ds"
  using assms by (simp_all add: rx_inv_def)

lemma rx_inv_mono: "rx_inv cf ds n rx \<Longrightarrow> n \<le> n' \<Longrightarrow> rx_inv cf ds n' rx"
  by (auto simp: rx_inv_def dest: table_ok_mono)

text \<open>
  What may change besides the subscriptions when nothing is delivered: losses are reported, and
  with \<open>quiet\<close> live slots disappear.
\<close>

definition reports :: "receive_event list \<Rightarrow> 's receiver \<Rightarrow> 's receiver \<Rightarrow> bool" where
  "reports os rx rx' \<longleftrightarrow> (\<exists>es. rx_events rx' = rx_events rx @ es \<and> filter is_object_event es = os)"

definition calm :: "'s receiver \<Rightarrow> 's receiver \<Rightarrow> bool" where
  "calm rx rx' \<longleftrightarrow> rx_completed rx' = rx_completed rx \<and> rx_fec_cache rx' = rx_fec_cache rx \<and> reports [] rx rx'"

definition quiet :: "'s receiver \<Rightarrow> 's receiver \<Rightarrow> bool" where
  "quiet rx rx' \<longleftrightarrow> calm rx rx' \<and> pool_le (rx_pool rx') (rx_pool rx)"

lemma reports_trans: "reports os rx0 rx1 \<Longrightarrow> reports os' rx1 rx2 \<Longrightarrow> reports (os @ os') rx0 rx2"
  by (fastforce simp: reports_def)

lemma reports_same: "rx_events rx' = rx_events rx \<Longrightarrow> reports [] rx rx'"
  by (simp add: reports_def)

lemma calm_same: "rx_completed rx' = rx_completed rx \<Longrightarrow> rx_fec_cache rx' = rx_fec_cache rx \<Longrightarrow>
   rx_events rx' = rx_events rx \<Longrightarrow> calm rx rx'"
  by (simp add: calm_def reports_same)

lemma calm_trans: "calm rx0 rx1 \<Longrightarrow> calm rx1 rx2 \<Longrightarrow> calm rx0 rx2"
  using reports_trans [of "[]" rx0 rx1 "[]" rx2] by (simp add: calm_def)

lemma quiet_same: "rx_completed rx' = rx_completed rx \<Longrightarrow> rx_fec_cache rx' = rx_fec_cache rx \<Longrightarrow>
   rx_events rx' = rx_events rx \<Longrightarrow> pool_le (rx_pool rx') (rx_pool rx) \<Longrightarrow> quiet rx rx'"
  by (simp add: quiet_def calm_same)

lemma quiet_refl [simp]: "quiet rx rx"
  by (rule quiet_same) simp_all

lemma quiet_trans: "quiet rx0 rx1 \<Longrightarrow> quiet rx1 rx2 \<Longrightarrow> quiet rx0 rx2"
  by (auto simp: quiet_def intro: pool_le_trans calm_trans)

lemma rx_inv_calm:
  assumes "rx_inv cf ds n rx" "calm rx rx'" "table_ok ds n' (rx_table rx')"
    "pools_ok (cf_sources cf) (cf_others cf) (rx_memory rx') (rx_pool rx')" "ap_limit (rx_pool rx') \<le> cf_max cf"
  shows "rx_inv cf ds n' rx'"
  using assms by (auto simp: rx_inv_def calm_def reports_def)

lemma rx_inv_quiet:
  assumes "rx_inv cf ds n rx" "quiet rx rx'" "table_ok ds n' (rx_table rx')"
    "pools_ok (cf_sources cf) (cf_others cf) (rx_memory rx') (rx_pool rx')"
  shows "rx_inv cf ds n' rx'"
  using assms by (intro rx_inv_calm [OF assms(1)]) (simp_all add: quiet_def pool_le_def rx_inv_def)

section \<open>Calls of the application\<close>

lemma release_slot_ok:
  assumes p: "pools_ok G others (rx_memory rx) (rx_pool rx)" and i: "i < HARD_MAX_ASSEMBLERS"
  obtains m' p' where "release_slot i rx = Some (rx\<lparr>rx_memory := m', rx_pool := p'\<rparr>)" "pools_ok G others m' p'"
    "pool_le p' (rx_pool rx)" "ap_assemblers p' ! i = zero_assembler" "am_limit m' = am_limit (rx_memory rx)"
  using release_pools [OF p i] by (auto simp: release_slot_def)

lemma release_all_ok:
  assumes "pools_ok G others (rx_memory rx) (rx_pool rx)" "\<forall>i \<in> set is. i < HARD_MAX_ASSEMBLERS"
  shows "\<exists>m' p'. release_all_if P is rx = Some (rx\<lparr>rx_memory := m', rx_pool := p'\<rparr>) \<and> pools_ok G others m' p' \<and> pool_le p' (rx_pool rx)"
  using assms
proof (induction "is" arbitrary: rx)
  case Nil
  then show ?case by (intro exI [of _ "rx_memory rx"] exI [of _ "rx_pool rx"]) (simp add: release_all_if_def)
next
  case (Cons i "is")
  have "\<exists>m' p'. release_if P i rx = Some (rx\<lparr>rx_memory := m', rx_pool := p'\<rparr>) \<and> pools_ok G others m' p' \<and> pool_le p' (rx_pool rx)"
  proof (cases "P (slot_of rx i)")
    case True
    have "i < HARD_MAX_ASSEMBLERS" using Cons.prems(2) by simp
    from release_slot_ok [OF Cons.prems(1) this] show ?thesis using True by (metis release_if_def)
  next
    case False
    then show ?thesis using Cons.prems(1)
      by (intro exI [of _ "rx_memory rx"] exI [of _ "rx_pool rx"]) (simp add: release_if_def)
  qed
  then obtain m1 p1 where 1: "release_if P i rx = Some (rx\<lparr>rx_memory := m1, rx_pool := p1\<rparr>)" "pools_ok G others m1 p1"
    "pool_le p1 (rx_pool rx)" by blast
  let ?rx = "rx\<lparr>rx_memory := m1, rx_pool := p1\<rparr>"
  obtain m2 p2 where 2: "release_all_if P is ?rx = Some (?rx\<lparr>rx_memory := m2, rx_pool := p2\<rparr>)" "pools_ok G others m2 p2"
    "pool_le p2 p1" using Cons.IH [of ?rx] 1(2) Cons.prems(2) by auto
  have "release_all_if P (i # is) rx = release_all_if P is ?rx" by (simp add: release_all_if_def 1(1))
  then show ?case using 2 pool_le_trans [OF 2(3) 1(3)] by (intro exI [of _ m2] exI [of _ p2]) simp
qed

lemma subscribe_ok:
  assumes ok: "rx_inv cf ds n rx" and n: "n < 2 ^ 64 - 1"
  shows "rx_inv cf ds (n + 1) (snd (subscribe_connection env track rx)) \<and> quiet rx (snd (subscribe_connection env track rx))"
proof -
  note d = rx_invD [OF ok]
  have t1: "table_ok ds (n + 1) (rx_table rx)" using table_ok_mono [OF d(3)] by simp
  have keep: "rx_inv cf ds (n + 1) (rx\<lparr>rx_table := tb, rx_world := w\<rparr>) \<and> quiet rx (rx\<lparr>rx_table := tb, rx_world := w\<rparr>)"
    if "table_ok ds (n + 1) tb" for tb w
    using that ok by (simp add: rx_inv_def quiet_same)
  have keep1: "rx_inv cf ds (n + 1) (rx\<lparr>rx_table := tb\<rparr>) \<and> quiet rx (rx\<lparr>rx_table := tb\<rparr>)"
    if "table_ok ds (n + 1) tb" for tb using that ok by (simp add: rx_inv_def quiet_same)
  have stay: "rx_inv cf ds (n + 1) rx \<and> quiet rx rx" using rx_inv_mono [OF ok] by simp
  let ?refuse = "\<not> ev_ready env \<or> \<not> as_open (ev_ack env) (rx_world rx)"
  let ?clash = "case transport_subscriptions_find (rx_table rx) track of
      Some i \<Rightarrow> ti_flags (ts_track_id (tb_entries (rx_table rx) ! i)) \<noteq> ti_flags track | None \<Rightarrow> False"
  show ?thesis
  proof (cases "?refuse \<or> ?clash")
    case True
    then have "subscribe_connection env track rx = (False, rx)" by (elim disjE) (simp_all add: subscribe_connection_def Let_def)
    then show ?thesis using stay by simp
  next
    case False
    show ?thesis
    proof (cases "transport_subscriptions_find_alias (rx_table rx) track")
      case (Some a)
      obtain w b where w: "ev_write_track env (rx_world rx) WIRE_SUBSCRIBE a track = (b, w)" by (cases "ev_write_track env (rx_world rx) 1 a track")
      have "subscribe_connection env track rx = (b, rx\<lparr>rx_table := rx_table rx, rx_world := w\<rparr>)"
        using False Some w by (cases b) (simp_all add: subscribe_connection_def Let_def)
      then show ?thesis using keep [OF t1] by simp
    next
      case None
      let ?na = "if cstr (ti_name track) = [] then uint (ucast (ti_type track) :: u8)
                  else transport_subscriptions_next_alias (rx_table rx) FIRST_DYNAMIC_ALIAS"
      show ?thesis
      proof (cases "transport_subscriptions_count (rx_table rx) \<ge> ev_max_subscriptions env \<or> ?na < 0")
        case True
        then have "subscribe_connection env track rx = (False, rx\<lparr>rx_table := rx_table rx\<rparr>)"
          using False None unfolding subscribe_connection_def Let_def by (elim disjE) simp_all
        then show ?thesis using keep1 [OF t1] by simp
      next
        case go: False
        define a :: u8 where "a = word_of_int ?na"
        obtain fine tb where add: "transport_subscriptions_add (ev_calloc_ok env) (ev_calloc_ok env) (rx_table rx) (ti_type track)
            (ti_flags track) (ti_name track) a = (fine, tb)"
          by (cases "transport_subscriptions_add (ev_calloc_ok env) (ev_calloc_ok env) (rx_table rx) (ti_type track)
            (ti_flags track) (ti_name track) a")
        note at = add_table [OF d(3) n None add]
        show ?thesis
        proof (cases fine)
          case no: False
          have "subscribe_connection env track rx = (False, rx\<lparr>rx_table := tb\<rparr>)"
            using False None go add no unfolding subscribe_connection_def Let_def a_def by simp
          then show ?thesis using keep1 at by simp
        next
          case True
          obtain w b where w: "ev_write_track env (rx_world rx) WIRE_SUBSCRIBE a track = (b, w)" by (cases "ev_write_track env (rx_world rx) 1 a track")
          obtain tb2 st where rm: "transport_subscriptions_remove tb (ti_type track) (ti_name track) = (tb2, st)"
            by (cases "transport_subscriptions_remove tb (ti_type track) (ti_name track)")
          have tb2: "table_ok ds (n + 1) tb2" using remove_table [OF _ rm] at by blast
          have pg: "put_object_gap tb a zero_gap = tb" using at True by blast
          have "subscribe_connection env track rx = (if b then (True, rx\<lparr>rx_table := tb, rx_world := w\<rparr>)
              else (False, rx\<lparr>rx_table := tb2, rx_world := (case st of None \<Rightarrow> w | Some h \<Rightarrow> ev_shutdown env w h)\<rparr>))"
            using False None go add True w rm pg unfolding subscribe_connection_def Let_def a_def by simp
          then show ?thesis using keep at tb2 by simp
        qed
      qed
    qed
  qed
qed


lemma unsubscribe_ok:
  assumes ok: "rx_inv cf ds n rx" and e: "env_ok cf env"
  shows "\<exists>b rx'. unsubscribe_connection env track rx = Some (b, rx') \<and> rx_inv cf ds n rx' \<and> quiet rx rx'"
proof -
  note d = rx_invD [OF ok]
  show ?thesis
  proof (cases "\<not> ev_ready env \<or> \<not> as_open (ev_ack env) (rx_world rx) \<or> transport_subscriptions_find (rx_table rx) track = None")
    case True
    then have "unsubscribe_connection env track rx = Some (False, rx)" by (auto simp: unsubscribe_connection_def Let_def)
    then show ?thesis using ok by auto
  next
    case False
    then obtain i where i: "transport_subscriptions_find (rx_table rx) track = Some i" by auto
    then have live: "live (tb_entries (rx_table rx)) i" using first_live by (auto simp: transport_subscriptions_find_def)
    let ?tr = "ts_track_id (tb_entries (rx_table rx) ! i)" and ?a = "ts_alias (tb_entries (rx_table rx) ! i)"
    obtain b w where w: "ev_write_track env (rx_world rx) WIRE_UNSUBSCRIBE ?a ?tr = (b, w)" by (cases "ev_write_track env (rx_world rx) 2 ?a ?tr")
    show ?thesis
    proof (cases b)
      case no: False
      have "unsubscribe_connection env track rx = Some (False, rx\<lparr>rx_world := w\<rparr>)"
        using False i w no by (simp add: unsubscribe_connection_def Let_def)
      then show ?thesis using ok by (auto simp: rx_inv_def intro!: quiet_same)
    next
      case True
      let ?rx = "rx\<lparr>rx_world := w, rx_table := put_object_gap (rx_table rx) ?a zero_gap\<rparr>"
      let ?P = "\<lambda>s. fa_total_symbols s \<noteq> 0 \<and> fa_track_id s = ?a"
      have "pools_ok (cf_sources cf) (cf_others cf) (rx_memory ?rx) (rx_pool ?rx)" using d(1) by simp
      moreover have "\<forall>i \<in> set [0..<ev_max_assemblers env]. i < HARD_MAX_ASSEMBLERS" using e by (simp add: env_ok_def)
      ultimately obtain m' p' where r: "release_all_if ?P [0..<ev_max_assemblers env] ?rx = Some (?rx\<lparr>rx_memory := m', rx_pool := p'\<rparr>)"
        "pools_ok (cf_sources cf) (cf_others cf) m' p'" "pool_le p' (rx_pool ?rx)"
        using release_all_ok [of "cf_sources cf" "cf_others cf" ?rx "[0..<ev_max_assemblers env]" ?P] by blast
      obtain tb st where rm: "transport_subscriptions_remove (put_object_gap (rx_table rx) ?a zero_gap) (ti_type ?tr) (ti_name ?tr) = (tb, st)"
        by (cases "transport_subscriptions_remove (put_object_gap (rx_table rx) ?a zero_gap) (ti_type ?tr) (ti_name ?tr)")
      have tb: "table_ok ds n tb" by (rule unsubscribe_table [OF d(3) live rm])
      let ?w = "case st of None \<Rightarrow> w | Some h \<Rightarrow> ev_shutdown env w h"
      let ?rx' = "?rx\<lparr>rx_memory := m', rx_pool := p', rx_table := tb, rx_world := ?w\<rparr>"
      have "unsubscribe_connection env track rx = Some (True, ?rx')"
        using False i w True r(1) rm by (cases st) (simp_all add: unsubscribe_connection_def Let_def)
      moreover have q: "quiet rx ?rx'" using r(3) by (simp add: quiet_same)
      have "rx_inv cf ds n ?rx'" by (rule rx_inv_quiet [OF ok q]) (use tb r(2) in simp_all)
      ultimately show ?thesis using q by blast
    qed
  qed
qed

lemma run_calls_ok:
  assumes e: "env_ok cf env"
  shows "rx_inv cf ds n rx \<Longrightarrow> n + length cs < 2 ^ 64 \<Longrightarrow>
    \<exists>rx'. run_calls env cs rx = Some rx' \<and> rx_inv cf ds (n + length cs) rx' \<and> quiet rx rx'"
proof (induction cs arbitrary: n rx)
  case (Cons c cs)
  have "\<exists>rx1. run_call env c rx = Some rx1 \<and> rx_inv cf ds (n + 1) rx1 \<and> quiet rx rx1"
  proof (cases c)
    case (App_subscribe track)
    have "n < 2 ^ 64 - 1" using Cons.prems(2) by simp
    then show ?thesis using App_subscribe subscribe_ok [OF Cons.prems(1), of env track] rx_inv_mono [OF Cons.prems(1), of "n + 1"] by simp
  next
    case (App_unsubscribe track)
    obtain b rx' where "unsubscribe_connection env track rx = Some (b, rx')" "rx_inv cf ds n rx'" "quiet rx rx'"
      using unsubscribe_ok [OF Cons.prems(1) e] by blast
    then show ?thesis using App_unsubscribe rx_inv_mono [of cf ds n rx' "n + 1"] rx_inv_mono [OF Cons.prems(1), of "n + 1"] by simp
  next
    case (App_other f)
    then show ?thesis using Cons.prems(1) rx_inv_mono [OF Cons.prems(1), of "n + 1"] by (simp add: rx_inv_def quiet_same)
  qed
  then obtain rx1 where 1: "run_call env c rx = Some rx1" "rx_inv cf ds (n + 1) rx1" "quiet rx rx1" by blast
  have "n + 1 + length cs < 2 ^ 64" using Cons.prems(2) by simp
  from Cons.IH [OF 1(2) this] obtain rx2 where 2: "run_calls env cs rx1 = Some rx2" "rx_inv cf ds (n + 1 + length cs) rx2" "quiet rx1 rx2"
    by blast
  then show ?case using 1 quiet_trans [OF 1(3) 2(3)] by simp
qed simp

text \<open>A callback, after a loss that is not a delivery.\<close>

lemma emit_ok:
  assumes e: "env_ok cf env" and n: "n + cf_calls cf < 2 ^ 64"
    and ok: "rx_inv cf ds n (rx\<lparr>rx_events := rx_events rx @ [event]\<rparr>)"
  shows "\<exists>rx'. transport_emit_event env event rx = Some rx' \<and> rx_inv cf ds (n + cf_calls cf) rx' \<and>
    quiet (rx\<lparr>rx_events := rx_events rx @ [event]\<rparr>) rx'"
proof -
  let ?rx = "rx\<lparr>rx_stats := (rx_stats rx)\<lparr>rs_events_emitted := sz_add (rs_events_emitted (rx_stats rx)) 1\<rparr>,
           rx_events := rx_events rx @ [event]\<rparr>"
  let ?cs = "ev_callback env event (rx_world rx)"
  have l: "length ?cs \<le> cf_calls cf" using e by (simp add: env_ok_def)
  have "rx_inv cf ds n ?rx" using ok by (simp add: rx_inv_def)
  moreover have "n + length ?cs < 2 ^ 64" using l n by simp
  ultimately obtain rx' where r: "run_calls env ?cs ?rx = Some rx'" "rx_inv cf ds (n + length ?cs) rx'" "quiet ?rx rx'"
    using run_calls_ok [OF e] by blast
  have "rx_inv cf ds (n + cf_calls cf) rx'" by (rule rx_inv_mono [OF r(2)]) (use l in simp)
  moreover have "quiet (rx\<lparr>rx_events := rx_events rx @ [event]\<rparr>) rx'" by (rule quiet_trans [OF _ r(3)]) (simp add: quiet_same)
  ultimately show ?thesis using r(1) by (simp add: transport_emit_event_def)
qed

lemma emit_lost_ok:
  assumes e: "env_ok cf env" and n: "n + cf_calls cf < 2 ^ 64" and ok: "rx_inv cf ds n rx"
  shows "\<exists>rx'. transport_emit_event env (Event_object_lost track g ob) (count_lost rx) = Some rx' \<and>
    rx_inv cf ds (n + cf_calls cf) rx' \<and> quiet rx rx'"
proof -
  let ?e = "Event_object_lost track g ob" and ?rx = "count_lost rx"
  let ?rx1 = "?rx\<lparr>rx_events := rx_events ?rx @ [?e]\<rparr>"
  have "rx_inv cf ds n ?rx1" using ok by (simp add: rx_inv_def count_lost_def is_object_event_def)
  from emit_ok [OF e n this] obtain rx' where r: "transport_emit_event env ?e ?rx = Some rx'" "rx_inv cf ds (n + cf_calls cf) rx'" "quiet ?rx1 rx'"
    by blast
  have "quiet rx ?rx1" by (simp add: quiet_def calm_def reports_def count_lost_def is_object_event_def)
  then show ?thesis using r quiet_trans by blast
qed

section \<open>Claiming a slot\<close>

definition same_slots :: "assembler_pool \<Rightarrow> assembler_pool \<Rightarrow> bool" where
  "same_slots p p' \<longleftrightarrow> ap_assemblers p' = ap_assemblers p \<and> ap_buckets p' = ap_buckets p \<and> ap_active p' = ap_active p \<and>
     ap_count p' = ap_count p"

lemma same_slots_pools:
  assumes s: "same_slots p p'"
  shows "pools_ok G others m p' = pools_ok G others m p" "pool_live p' = pool_live p" "pool_key p' = pool_key p"
    "transport_find_assembler p' t g ob = transport_find_assembler p t g ob"
proof -
  have f: "pool_live p' = pool_live p" "pool_key p' = pool_key p" "pool_head p' = pool_head p" "slots_bytes p' = slots_bytes p"
    using s by (simp_all add: same_slots_def pool_live_def pool_key_def pool_head_def slots_bytes_def fun_eq_iff)
  have "pool_ok p' = pool_ok p" using s unfolding pool_ok_def pool_wf_def f by (simp add: same_slots_def)
  then show "pools_ok G others m p' = pools_ok G others m p" using s f by (simp add: pools_ok_def same_slots_def)
  show "pool_live p' = pool_live p" "pool_key p' = pool_key p" by (fact f)+
  show "transport_find_assembler p' t g ob = transport_find_assembler p t g ob"
    using s by (simp add: transport_find_assembler_def same_slots_def)
qed

lemma observe_same_slots: "same_slots p (transport_assembler_observe_receive now p n)"
  "ap_limit (transport_assembler_observe_receive now p n) = ap_limit p"
  by (simp_all add: transport_assembler_observe_receive_def same_slots_def Let_def)

lemma scan_slots_less: "selected < limit \<Longrightarrow> scan_slots slots limit cursor offsets selected < limit"
  by (induction offsets arbitrary: selected) (auto simp: Let_def)

lemma choose_slot_less: "0 < limit \<Longrightarrow> choose_slot pool limit < limit"
  by (simp add: choose_slot_def scan_slots_less)

text \<open>Replacing what a slot holds, when it is free and when it is live.\<close>

lemma pools_free_slot:
  assumes ok: "pools_ok G others m p" and i: "i < HARD_MAX_ASSEMBLERS" "\<not> pool_live p i" and a: "\<not> fa_owner a" "slot_ok G a"
    and m: "am_bytes m' + transport_assembler_capacity_bytes (ap_assemblers p ! i) = am_bytes m + transport_assembler_capacity_bytes a"
      "am_bytes m' \<le> am_limit m'" "am_limit m' = am_limit m"
  defines "p' \<equiv> p\<lparr>ap_assemblers := (ap_assemblers p)[i := a]\<rparr>"
  shows "pools_ok G others m' p' \<and> pool_le p' p \<and> \<not> pool_live p' i \<and> (\<forall>j < HARD_MAX_ASSEMBLERS. pool_live p' j \<longleftrightarrow> pool_live p j)"
proof -
  note d = pools_okD [OF ok]
  have f: "pool_ok p'" "\<forall>j < HARD_MAX_ASSEMBLERS. pool_live p' j \<longleftrightarrow> pool_live p j"
    using pool_ok_free_slot [OF d(1) i a(1)] by (simp_all add: p'_def)
  have b: "slots_bytes p' + transport_assembler_capacity_bytes (ap_assemblers p ! i) = slots_bytes p + transport_assembler_capacity_bytes a"
    using slots_bytes_update [of i p a] i d(7) by (simp add: p'_def)
  have other: "j \<noteq> i \<Longrightarrow> ap_assemblers p' ! j = ap_assemblers p ! j" for j by (simp add: p'_def)
  have at: "ap_assemblers p' ! i = a" using i d(7) by (simp add: p'_def)
  have "slot_ok G (ap_assemblers p' ! j) \<and> (pool_live p' j \<longrightarrow> fa_total_symbols (ap_assemblers p' ! j) \<noteq> 0)"
    if j: "j < HARD_MAX_ASSEMBLERS" for j
    using j f(2) i a(2) at other [of j] d(2,3) [OF j] by (cases "j = i") simp_all
  moreover have "am_bytes m' = others + slots_bytes p'" using b m(1) d(4) by linarith
  moreover have "pool_le p' p"
  proof -
    have "pool_live p j \<and> ap_assemblers p' ! j = ap_assemblers p ! j" if "j < HARD_MAX_ASSEMBLERS" "pool_live p' j" for j
    proof -
      have l: "pool_live p j" using f(2) that by blast
      then have "j \<noteq> i" using i(2) by blast
      then show ?thesis using l other by blast
    qed
    then show ?thesis by (simp add: pool_le_def) (simp add: p'_def)
  qed
  ultimately show ?thesis using f i m(2,3) d(6) by (simp add: pools_ok_def)
qed

lemma pools_live_slot:
  assumes ok: "pools_ok G others m p" and i: "i < HARD_MAX_ASSEMBLERS" "pool_live p i"
    and a: "fa_owner a = fa_owner (ap_assemblers p ! i)" "fa_hash_next a = slot_next (ap_assemblers p) i"
      "fa_track_id a = fa_track_id (ap_assemblers p ! i)" "fa_group_id a = fa_group_id (ap_assemblers p ! i)"
      "fa_object_id a = fa_object_id (ap_assemblers p ! i)" "slot_ok G a" "fa_total_symbols a \<noteq> 0"
    and m: "am_bytes m' + transport_assembler_capacity_bytes (ap_assemblers p ! i) = am_bytes m + transport_assembler_capacity_bytes a"
      "am_bytes m' \<le> am_limit m'" "am_limit m' = am_limit m"
  defines "p' \<equiv> p\<lparr>ap_assemblers := (ap_assemblers p)[i := a]\<rparr>"
  shows "pools_ok G others m' p' \<and> pool_live p' i"
proof -
  note d = pools_okD [OF ok]
  have at: "ap_assemblers p' ! i = a" using i d(7) by (simp add: p'_def)
  have "pool_key p' i = pool_key p i" using at a(3-5) by (simp add: pool_key_def Let_def)
  then have f: "pool_ok p'" "\<forall>j. pool_live p' j = pool_live p j"
    using pool_ok_same_slot [OF d(1) i(1), of a] a(1,2) by (simp_all add: p'_def pool_live_def)
  have b: "slots_bytes p' + transport_assembler_capacity_bytes (ap_assemblers p ! i) = slots_bytes p + transport_assembler_capacity_bytes a"
    using slots_bytes_update [of i p a] i d(7) by (simp add: p'_def)
  have other: "j \<noteq> i \<Longrightarrow> ap_assemblers p' ! j = ap_assemblers p ! j" for j by (simp add: p'_def)
  have "slot_ok G (ap_assemblers p' ! j) \<and> (pool_live p' j \<longrightarrow> fa_total_symbols (ap_assemblers p' ! j) \<noteq> 0)"
    if j: "j < HARD_MAX_ASSEMBLERS" for j
    using j f(2) a(6,7) at other [of j] d(2,3) [OF j] by (cases "j = i") simp_all
  moreover have "am_bytes m' = others + slots_bytes p'" using b m(1) d(4) by linarith
  ultimately show ?thesis using f i m(2,3) d(6) by (simp add: pools_ok_def)
qed

lemma pools_unindex:
  assumes ok: "pools_ok G others m p" and i: "i < HARD_MAX_ASSEMBLERS"
  shows "\<exists>p'. transport_unindex_assembler p i = Some p' \<and> pools_ok G others m p' \<and> pool_le p' p \<and> \<not> pool_live p' i"
proof -
  note d = pools_okD [OF ok]
  obtain p' where r: "transport_unindex_assembler p i = Some p'" "pool_ok p'"
    "\<forall>j < HARD_MAX_ASSEMBLERS. pool_live p' j \<longleftrightarrow> j \<noteq> i \<and> pool_live p j"
    "\<forall>j < HARD_MAX_ASSEMBLERS. contents (ap_assemblers p' ! j) = contents (ap_assemblers p ! j)"
    "length (ap_assemblers p') = HARD_MAX_ASSEMBLERS" using unindex_ok [OF d(1) i] by blast
  have b: "slots_bytes p' = slots_bytes p" using r(4,5) d(7) by (intro slots_bytes_cong) simp_all
  have "slot_ok G (ap_assemblers p' ! j) \<and> (pool_live p' j \<longrightarrow> fa_total_symbols (ap_assemblers p' ! j) \<noteq> 0)"
    if j: "j < HARD_MAX_ASSEMBLERS" for j
  proof -
    have c: "contents (ap_assemblers p' ! j) = contents (ap_assemblers p ! j)" using r(4) j by blast
    have t: "fa_total_symbols (ap_assemblers p' ! j) = fa_total_symbols (ap_assemblers p ! j)"
      using arg_cong [OF c, of fa_total_symbols] by simp
    show ?thesis using slot_ok_cong [OF c] d(2,3) [OF j] r(3) j t by simp
  qed
  then have "pools_ok G others m p'" using r b d(4-6) unfolding pools_ok_def by simp
  moreover have "pool_le p' p" using r(3,4) unindex_limit [OF r(1)] by (simp add: pool_le_def)
  ultimately show ?thesis using r i by blast
qed

lemma pools_index:
  assumes ok: "pools_ok G others m p" and i: "i < HARD_MAX_ASSEMBLERS" "\<not> pool_live p i"
    and fresh: "\<forall>j < HARD_MAX_ASSEMBLERS. pool_live p j \<longrightarrow> pool_key p j \<noteq> pool_key p i" and nz: "fa_total_symbols (ap_assemblers p ! i) \<noteq> 0"
  defines "p' \<equiv> transport_index_assembler p i"
  shows "pools_ok G others m p' \<and> pool_live p' i \<and> contents (ap_assemblers p' ! i) = contents (ap_assemblers p ! i) \<and> ap_limit p' = ap_limit p"
proof -
  note d = pools_okD [OF ok]
  have r: "pool_ok p'" "\<forall>j < HARD_MAX_ASSEMBLERS. pool_live p' j \<longleftrightarrow> j = i \<or> pool_live p j"
    "\<forall>j < HARD_MAX_ASSEMBLERS. contents (ap_assemblers p' ! j) = contents (ap_assemblers p ! j)"
    using index_ok [OF d(1) i fresh] by (simp_all add: p'_def)
  have l: "length (ap_assemblers p') = HARD_MAX_ASSEMBLERS" using r(1) by (simp add: pool_ok_def pool_wf_def)
  have b: "slots_bytes p' = slots_bytes p" using r(3) d(7) l by (intro slots_bytes_cong) simp_all
  have "slot_ok G (ap_assemblers p' ! j) \<and> (pool_live p' j \<longrightarrow> fa_total_symbols (ap_assemblers p' ! j) \<noteq> 0)"
    if j: "j < HARD_MAX_ASSEMBLERS" for j
  proof -
    have c: "contents (ap_assemblers p' ! j) = contents (ap_assemblers p ! j)" using r(3) j by blast
    have t: "fa_total_symbols (ap_assemblers p' ! j) = fa_total_symbols (ap_assemblers p ! j)"
      using arg_cong [OF c, of fa_total_symbols] by simp
    show ?thesis using slot_ok_cong [OF c] d(2,3) [OF j] r(2) j t nz by auto
  qed
  then have "pools_ok G others m p'" using r b d(4-6) unfolding pools_ok_def by simp
  then show ?thesis using r i by (simp add: p'_def transport_index_assembler_def Let_def)
qed

text \<open>Storage for a new object in a slot taken out of the index.\<close>

lemma capacity_fill: "transport_assembler_capacity_bytes (fill_slot now h a) = transport_assembler_capacity_bytes a"
  by (simp add: transport_assembler_capacity_bytes_def fill_slot_def)

lemma prepare_slot_ok:
  assumes ok: "pools_ok G others (rx_memory rx) (rx_pool rx)" and i: "i < HARD_MAX_ASSEMBLERS" and h: "header_wf h"
  shows "\<exists>ready m' p'. prepare_slot env h i rx = Some (ready, rx\<lparr>rx_memory := m', rx_pool := p'\<rparr>) \<and> pools_ok G others m' p' \<and>
    pool_le p' (rx_pool rx) \<and> \<not> pool_live p' i \<and>
    (ready \<longrightarrow> storage_ok (ap_assemblers p' ! i) \<and> fa_buffers (ap_assemblers p' ! i) \<noteq> None \<and>
       fh_total_symbols h \<le> fa_capacity_symbols (ap_assemblers p' ! i) \<and> fh_symbol_size h \<le> fa_capacity_symbol_size (ap_assemblers p' ! i))"
proof -
  obtain p1 where p1: "transport_unindex_assembler (rx_pool rx) i = Some p1" "pools_ok G others (rx_memory rx) p1"
    "pool_le p1 (rx_pool rx)" "\<not> pool_live p1 i" using pools_unindex [OF ok i] by blast
  let ?rx1 = "rx\<lparr>rx_pool := p1\<rparr>"
  have sw: "slot_wf (ap_assemblers p1 ! i)" using pools_okD(2) [OF p1(2) i] by (simp add: slot_ok_def)
  let ?small = "fa_buffers (slot_of ?rx1 i) = None \<or> fa_capacity_symbols (slot_of ?rx1 i) < fh_total_symbols h \<or>
     fa_capacity_symbol_size (slot_of ?rx1 i) < fh_symbol_size h"
  show ?thesis
  proof (cases ?small)
    case False
    then have "prepare_slot env h i rx = Some (True, rx\<lparr>rx_memory := rx_memory rx, rx_pool := p1\<rparr>)"
      by (auto simp: prepare_slot_def p1(1) Let_def)
    then show ?thesis using p1 False sw by (intro exI [of _ True] exI [of _ "rx_memory rx"] exI [of _ p1]) (simp add: slot_wf_def not_less)
  next
    case True
    have "pools_ok G others (rx_memory ?rx1) (rx_pool ?rx1)" using p1(2) by simp
    then obtain m2 p2 where r0: "release_slot i ?rx1 = Some (?rx1\<lparr>rx_memory := m2, rx_pool := p2\<rparr>)"
      "pools_ok G others m2 p2" "pool_le p2 (rx_pool ?rx1)" "ap_assemblers p2 ! i = zero_assembler" by (rule release_slot_ok [OF _ i])
    note r = r0(1,2) r0(3) [simplified] r0(4)
    note d2 = pools_okD [OF r(2)]
    have nl: "\<not> pool_live p2 i" using r(4) by (simp add: pool_live_def zero_assembler_def)
    obtain grown m3 a where g: "transport_grow_assembler (ev_grow_ok env) m2 zero_assembler (fh_total_symbols h) (fh_symbol_size h) = (grown, m3, a)"
      by (cases "transport_grow_assembler (ev_grow_ok env) m2 zero_assembler (fh_total_symbols h) (fh_symbol_size h)")
    have st0: "storage_ok zero_assembler" by (simp add: storage_ok_def zero_assembler_def)
    have pos: "fh_total_symbols h \<noteq> 0" "fh_symbol_size h \<noteq> 0" using h by (auto simp: header_wf_def)
    have am: "am_bytes m2 = am_bytes m2 + transport_assembler_capacity_bytes zero_assembler" by simp
    note ga = grow_accounting [OF st0 pos am d2(5,6) g]
    have grow: "transport_assembler_grow (ev_grow_ok env) zero_assembler (fh_total_symbols h) (fh_symbol_size h) = (True, a)" if grown using ga that by blast
    have a: "storage_ok a \<and> fa_buffers a \<noteq> None \<and> fh_total_symbols h \<le> fa_capacity_symbols a \<and> fh_symbol_size h \<le> fa_capacity_symbol_size a \<and>
      \<not> fa_owner a \<and> slot_ok G a" if grown
    proof -
      note k = assembler_grow_ok [OF st0 pos grow [OF that]]
      define b where "b = a"
      have same: "a = zero_assembler\<lparr>fa_buffers := fa_buffers b, fa_received_mask := fa_received_mask b,
        fa_missing_mask := fa_missing_mask b, fa_missing_indices := fa_missing_indices b,
        fa_capacity_symbols := fa_capacity_symbols b, fa_capacity_symbol_size := fa_capacity_symbol_size b\<rparr>" unfolding b_def using k by blast
      have f: "\<not> fa_owner a" "fa_total_symbols a = 0" "\<not> fa_decoded a" by (subst same; simp add: zero_assembler_def)+
      have "storage_ok a" using k by (simp add: zero_assembler_def)
      then show ?thesis using k f by (simp add: slot_ok_def slot_wf_def slot_genuine_def)
    qed
    let ?rx2 = "rx\<lparr>rx_memory := m3, rx_pool := p2\<lparr>ap_assemblers := (ap_assemblers p2)[i := a]\<rparr>\<rparr>"
    have body: "prepare_slot env h i rx = (if grown then Some (True, ?rx2) else map_option (\<lambda>rx. (False, rx)) (release_slot i ?rx2))"
      using True r(1,4) g by (simp add: prepare_slot_def p1(1) put_slot_def Let_def)
    let ?p3 = "p2\<lparr>ap_assemblers := (ap_assemblers p2)[i := a]\<rparr>"
    show ?thesis
    proof (cases grown)
      case gr: True
      have z: "am_bytes m3 + transport_assembler_capacity_bytes (ap_assemblers p2 ! i) = am_bytes m2 + transport_assembler_capacity_bytes a"
        using ga r(4) by simp
      have ow: "\<not> fa_owner a" "slot_ok G a" using a [OF gr] by blast+
      have lim: "am_bytes m3 \<le> am_limit m3" "am_limit m3 = am_limit m2" using ga by blast+
      have f: "pools_ok G others m3 ?p3" "pool_le ?p3 p2" "\<not> pool_live ?p3 i"
        using pools_free_slot [OF r(2) i nl ow z lim] by blast+
      have at: "ap_assemblers ?p3 ! i = a" using i d2(7) by simp
      have "pool_le ?p3 (rx_pool rx)" using pool_le_trans [OF f(2) pool_le_trans [OF r(3) p1(3)]] .
      then show ?thesis using body gr f(1,3) a [OF gr] at by (intro exI [of _ True] exI [of _ m3] exI [of _ ?p3]) simp
    next
      case False
      have a0: "a = zero_assembler" "am_bytes m3 = am_bytes m2" "am_limit m3 = am_limit m2" using ga False by blast+
      have p3: "?p3 = p2" using a0(1) r(4) list_update_id [of "ap_assemblers p2" i] by simp
      have "pools_ok G others (rx_memory ?rx2) (rx_pool ?rx2)" using r(2) a0(2,3) unfolding p3 by (simp add: pools_ok_def)
      then obtain m4 p4 where r40: "release_slot i ?rx2 = Some (?rx2\<lparr>rx_memory := m4, rx_pool := p4\<rparr>)"
        "pools_ok G others m4 p4" "pool_le p4 (rx_pool ?rx2)" "ap_assemblers p4 ! i = zero_assembler" by (rule release_slot_ok [OF _ i])
      have "pool_le p4 ?p3" using r40(3) by simp
      note r4 = r40(1,2) this r40(4)
      have "pool_le p4 (rx_pool rx)" using pool_le_trans [OF r4(3) [unfolded p3] pool_le_trans [OF r(3) p1(3)]] .
      moreover have "\<not> pool_live p4 i" using r4(4) by (simp add: pool_live_def zero_assembler_def)
      ultimately show ?thesis using body False r4(1,2) by (intro exI [of _ False] exI [of _ m4] exI [of _ p4]) simp
    qed
  qed
qed


text \<open>The subscription that a symbol was accepted under is still the same.\<close>

definition under :: "u8 \<Rightarrow> u64 \<Rightarrow> 's receiver \<Rightarrow> bool" where
  "under a generation rx \<longleftrightarrow> (\<exists>s. tb_states (rx_table rx) a = Some s \<and> ss_generation s = generation)"

lemma report_evicted_ok:
  assumes e: "env_ok cf env" and n: "n + cf_calls cf < 2 ^ 64" and ok: "rx_inv cf ds n rx" and u: "under a gen rx"
  shows "\<exists>go rx'. report_evicted env a gen slot rx = Some (go, rx') \<and> rx_inv cf ds (n + cf_calls cf) rx' \<and> quiet rx rx' \<and>
    (go \<longrightarrow> under a gen rx')"
proof -
  let ?s = "slot_of rx slot"
  have stay: "rx_inv cf ds (n + cf_calls cf) rx" using rx_inv_mono [OF ok] by simp
  show ?thesis
  proof (cases "fa_total_symbols ?s > 0 \<and> \<not> fa_decoded ?s \<and>
      transport_subscriptions_find_by_alias (rx_table rx) (fa_track_id ?s) \<noteq> None")
    case False
    then have "report_evicted env a gen slot rx = Some (True, rx)"
      by (auto simp: report_evicted_def Let_def split: option.split)
    then show ?thesis using stay u by auto
  next
    case True
    then obtain track where tr: "transport_subscriptions_find_by_alias (rx_table rx) (fa_track_id ?s) = Some track" by blast
    obtain rx' where r: "transport_emit_event env (Event_object_lost track (fa_group_id ?s) (fa_object_id ?s)) (count_lost rx) = Some rx'"
      "rx_inv cf ds (n + cf_calls cf) rx'" "quiet rx rx'" using emit_lost_ok [OF e n ok] by blast
    show ?thesis
    proof (cases "tb_states (rx_table rx') a")
      case None
      then have "report_evicted env a gen slot rx = Some (False, rx')"
        using True tr r(1) by (simp add: report_evicted_def Let_def transport_subscriptions_get_state_def)
      then show ?thesis using r by blast
    next
      case (Some s)
      then have "report_evicted env a gen slot rx = Some (ss_generation s = gen \<and> \<not> ev_closing env (rx_world rx'), rx')"
        using True tr r(1) by (simp add: report_evicted_def Let_def transport_subscriptions_get_state_def)
      then show ?thesis using r Some by (auto simp: under_def)
    qed
  qed
qed

lemma slot_matches_contents: "contents a = contents b \<Longrightarrow> slot_matches h a = slot_matches h b"
proof -
  assume c: "contents a = contents b"
  have "slot_matches h (contents x) = slot_matches h x" for x by (simp add: slot_matches_def contents_fields)
  then show ?thesis using c by metis
qed

definition fresh_key :: "u8 \<Rightarrow> u64 \<Rightarrow> u64 \<Rightarrow> assembler_pool \<Rightarrow> bool" where
  "fresh_key t g ob p \<longleftrightarrow> (\<forall>i < HARD_MAX_ASSEMBLERS. pool_live p i \<longrightarrow> pool_key p i \<noteq> (t, g, ob))"

lemma fresh_key_le: "fresh_key t g ob p \<Longrightarrow> pool_le p' p \<Longrightarrow> fresh_key t g ob p'"
  unfolding fresh_key_def pool_le_def using contents_key by metis

text \<open>A claim ends with a slot for the object in the index, or without one because there was no room or no subscription.\<close>

lemma claim_slot_ok:
  assumes e: "env_ok cf env" and n: "n + cf_calls cf < 2 ^ 64" and ok: "rx_inv cf ds n rx" and u: "under (fh_alias h) gen rx"
    and h: "header_wf h" "genuine_header (cf_sources cf) h" and fresh: "fresh_key (fh_alias h) (fh_group_id h) (fh_object_id h) (rx_pool rx)"
  shows "\<exists>claimed rx'. claim_slot env h gen rx = Some (claimed, rx') \<and> rx_inv cf ds (n + cf_calls cf) rx' \<and> calm rx rx' \<and>
    (\<forall>slot. claimed = Some slot \<longrightarrow> slot < HARD_MAX_ASSEMBLERS \<and> pool_live (rx_pool rx') slot \<and> slot_matches h (slot_of rx' slot) \<and>
       under (fh_alias h) gen rx')"
proof -
  note d = rx_invD [OF ok]
  have pos: "fh_total_symbols h \<noteq> 0" "fh_symbol_size h \<noteq> 0" using h(1) by (auto simp: header_wf_def)
  have M: "0 < cf_max cf" "cf_max cf \<le> HARD_MAX_ASSEMBLERS" "ev_max_assemblers env = cf_max cf" using e by (simp_all add: env_ok_def)
  obtain limit p0 where w: "transport_assembler_window (cf_max cf) (ev_rtt env) (rx_pool rx) (fh_total_symbols h) (fh_symbol_size h) = (limit, p0)"
    by (cases "transport_assembler_window (cf_max cf) (ev_rtt env) (rx_pool rx) (fh_total_symbols h) (fh_symbol_size h)")
  note wb = window_bounds [OF w pos]
  have lim: "0 < limit" "limit \<le> cf_max cf" using wb M d(2) by auto
  define slot where "slot = choose_slot p0 limit"
  have sl: "slot < limit" "slot < HARD_MAX_ASSEMBLERS" using choose_slot_less [OF lim(1), of p0] lim M by (simp_all add: slot_def)
  define p1 where "p1 = p0\<lparr>ap_index := sz_add slot 1 mod limit\<rparr>"
  have ss: "same_slots (rx_pool rx) p1" using wb by (simp add: p1_def same_slots_def)
  have l1: "ap_limit p1 = limit" using wb by (simp add: p1_def)
  let ?rx1 = "rx\<lparr>rx_pool := p1\<rparr>"
  have c1: "calm rx ?rx1" by (simp add: calm_same)
  have ok1: "rx_inv cf ds n ?rx1"
    using ok d(3) lim(2) l1 by (intro rx_inv_calm [OF ok c1]) (simp_all add: same_slots_pools(1) [OF ss] d(1))
  have u1: "under (fh_alias h) gen ?rx1" using u by (simp add: under_def)
  have f1: "fresh_key (fh_alias h) (fh_group_id h) (fh_object_id h) p1"
    using fresh unfolding fresh_key_def same_slots_pools(2,3) [OF ss] .
  obtain go rx2 where r2: "report_evicted env (fh_alias h) gen slot ?rx1 = Some (go, rx2)" "rx_inv cf ds (n + cf_calls cf) rx2"
    "quiet ?rx1 rx2" "go \<longrightarrow> under (fh_alias h) gen rx2" using report_evicted_ok [OF e n ok1 u1] by blast
  note d2 = rx_invD [OF r2(2)]
  have c2: "calm rx rx2" using c1 r2(3) calm_trans by (auto simp: quiet_def)
  have head: "claim_slot env h gen rx = (if \<not> go then Some (None, rx2) else do {
              (ready, rx) \<leftarrow> prepare_slot env h slot rx2;
              if \<not> ready then Some (None, rx)
              else let rx = put_slot rx slot (fill_slot (ev_now_ms env) h (slot_of rx slot)) in
                Some (Some slot, rx\<lparr>rx_pool := transport_index_assembler (rx_pool rx) slot\<rparr>) })"
    unfolding claim_slot_def M(3) w prod.case Let_def slot_def [symmetric] p1_def [symmetric] r2(1) by simp
  show ?thesis
  proof (cases go)
    case False
    then show ?thesis using head r2(2) c2 by simp
  next
    case go: True
    have f2: "fresh_key (fh_alias h) (fh_group_id h) (fh_object_id h) (rx_pool rx2)"
      using fresh_key_le [OF f1] r2(3) by (simp add: quiet_def)
    obtain ready m3 p3 where r3: "prepare_slot env h slot rx2 = Some (ready, rx2\<lparr>rx_memory := m3, rx_pool := p3\<rparr>)"
      "pools_ok (cf_sources cf) (cf_others cf) m3 p3" "pool_le p3 (rx_pool rx2)" "\<not> pool_live p3 slot"
      "ready \<longrightarrow> storage_ok (ap_assemblers p3 ! slot) \<and> fa_buffers (ap_assemblers p3 ! slot) \<noteq> None \<and>
       fh_total_symbols h \<le> fa_capacity_symbols (ap_assemblers p3 ! slot) \<and> fh_symbol_size h \<le> fa_capacity_symbol_size (ap_assemblers p3 ! slot)"
      using prepare_slot_ok [OF d2(1) sl(2) h(1), of env] by blast
    let ?rx3 = "rx2\<lparr>rx_memory := m3, rx_pool := p3\<rparr>"
    have q3: "quiet rx2 ?rx3" using r3(3) by (simp add: quiet_same)
    have ok3: "rx_inv cf ds (n + cf_calls cf) ?rx3" by (rule rx_inv_quiet [OF r2(2) q3]) (use d2(3) r3(2) in simp_all)
    have c3: "calm rx ?rx3" using c2 q3 calm_trans by (auto simp: quiet_def)
    show ?thesis
    proof (cases ready)
      case False
      then show ?thesis using head go r3(1) ok3 c3 by simp
    next
      case True
      define a where "a = fill_slot (ev_now_ms env) h (ap_assemblers p3 ! slot)"
      note d3 = pools_okD [OF r3(2)]
      have ready': "storage_ok (ap_assemblers p3 ! slot)" "fa_buffers (ap_assemblers p3 ! slot) \<noteq> None"
        "fh_total_symbols h \<le> fa_capacity_symbols (ap_assemblers p3 ! slot)" "fh_symbol_size h \<le> fa_capacity_symbol_size (ap_assemblers p3 ! slot)"
        using r3(5) True by blast+
      have aok: "slot_ok (cf_sources cf) a" unfolding a_def by (rule slot_ok_fill [OF ready' h])
      have am: "slot_matches h a" unfolding a_def by (rule slot_matches_fill [OF h(1)])
      have ow: "\<not> fa_owner a" using r3(4) by (simp add: a_def fill_slot_def pool_live_def)
      have cap: "am_bytes m3 + transport_assembler_capacity_bytes (ap_assemblers p3 ! slot) = am_bytes m3 + transport_assembler_capacity_bytes a"
        by (simp add: a_def capacity_fill)
      let ?p4 = "p3\<lparr>ap_assemblers := (ap_assemblers p3)[slot := a]\<rparr>"
      have p4: "pools_ok (cf_sources cf) (cf_others cf) m3 ?p4" "pool_le ?p4 p3" "\<not> pool_live ?p4 slot"
        using pools_free_slot [OF r3(2) sl(2) r3(4) ow aok cap d3(5) refl] by blast+
      have at: "ap_assemblers ?p4 ! slot = a" using sl(2) d3(7) by simp
      have key: "pool_key ?p4 slot = (fh_alias h, fh_group_id h, fh_object_id h)"
        using am at by (simp add: pool_key_def slot_matches_def Let_def)
      have f4: "fresh_key (fh_alias h) (fh_group_id h) (fh_object_id h) ?p4"
        by (rule fresh_key_le [OF f2 pool_le_trans [OF p4(2) r3(3)]])
      have nz: "fa_total_symbols (ap_assemblers ?p4 ! slot) \<noteq> 0" using am at by (simp add: slot_matches_def)
      let ?p5 = "transport_index_assembler ?p4 slot"
      have p5: "pools_ok (cf_sources cf) (cf_others cf) m3 ?p5" "pool_live ?p5 slot"
        "contents (ap_assemblers ?p5 ! slot) = contents (ap_assemblers ?p4 ! slot)" "ap_limit ?p5 = ap_limit ?p4"
        using pools_index [OF p4(1) sl(2) p4(3) _ nz] f4 unfolding fresh_key_def key by blast+
      let ?rx5 = "rx2\<lparr>rx_memory := m3, rx_pool := ?p5\<rparr>"
      have c5: "calm rx2 ?rx5" by (simp add: calm_same)
      have lim5: "ap_limit ?p5 \<le> cf_max cf" using p5(4) p4(2) r3(3) d2(2) by (simp add: pool_le_def)
      have ok5: "rx_inv cf ds (n + cf_calls cf) ?rx5"
        by (rule rx_inv_calm [OF r2(2) c5]) (use d2(3) p5(1) lim5 in simp_all)
      have m5: "slot_matches h (ap_assemblers ?p5 ! slot)" using slot_matches_contents [OF p5(3)] am at by simp
      have u5: "under (fh_alias h) gen ?rx5" using r2(4) go by (simp add: under_def)
      have r: "claim_slot env h gen rx = Some (Some slot, ?rx5)" using head go r3(1) True by (simp add: Let_def put_slot_def a_def)
      show ?thesis using r ok5 calm_trans [OF c2 c5] sl(2) p5(2) m5 u5 by (intro exI [of _ "Some slot"] exI [of _ ?rx5]) simp
    qed
  qed
qed

section \<open>Deliveries\<close>

lemma delivered_objects_snoc:
  "delivered_objects (ds @ [((a, k, g, ob), e)]) a' k' =
     (if a' = a \<and> k' = k \<and> rateless_delivery e then insert ob (delivered_objects ds a' k') else delivered_objects ds a' k')"
  by (auto simp: delivered_objects_def)

lemma spaced_snoc: "spaced hs \<Longrightarrow> x \<notin> set (last_completions hs) \<Longrightarrow> spaced (hs @ [x])"
  unfolding spaced_def set_last_completions by (auto simp: nth_append less_Suc_eq not_le)

lemma rateless_once_snoc:
  assumes ds: "rateless_once ds" and new: "rateless_delivery e \<longrightarrow> ob \<notin> delivered_objects ds a k"
  shows "rateless_once (ds @ [((a, k, g, ob), e)])"
  unfolding rateless_once_def
proof (intro allI impI)
  fix j i
  assume j: "j < length (ds @ [((a, k, g, ob), e)])" and i: "i < j"
    and r: "rateless_delivery (snd ((ds @ [((a, k, g, ob), e)]) ! i))" "rateless_delivery (snd ((ds @ [((a, k, g, ob), e)]) ! j))"
  show "case (fst ((ds @ [((a, k, g, ob), e)]) ! i), fst ((ds @ [((a, k, g, ob), e)]) ! j)) of
     ((a, k, g, ob), (a', k', g', ob')) \<Rightarrow> (a, k, ob) \<noteq> (a', k', ob')"
  proof (cases "j < length ds")
    case True
    then show ?thesis using ds i r unfolding rateless_once_def by (simp add: nth_append)
  next
    case False
    then have jl: "j = length ds" "i < length ds" using j i by simp_all
    obtain a' k' g' ob' e' where d: "ds ! i = ((a', k', g', ob'), e')" by (metis surj_pair)
    have "((a', k', g', ob'), e') \<in> set ds" using d jl(2) nth_mem by metis
    moreover have "rateless_delivery e'" "ob \<notin> delivered_objects ds a k" using r new jl d by (simp_all add: nth_append)
    ultimately have "(a', k', ob') \<noteq> (a, k, ob)" by (auto simp: delivered_objects_def)
    then show ?thesis using jl d by (simp add: nth_append)
  qed
qed

lemma source_event_simp: "source_event G ((a, k, g, ob), Event_object track g ob data key prio) \<longleftrightarrow> (\<forall>so. G a g ob = Some so \<longrightarrow> data = so_data so)"
  by (simp add: source_event_def)

lemma table_wf_deliver:
  assumes ok: "table_wf ds n tb" and s: "tb_states tb a = Some s" "k = ss_generation s"
  shows "table_wf (ds @ [((a, k, g, ob), e)]) n tb"
proof -
  have "ss_generation s \<le> tb_next_generation tb" using ok s(1) unfolding table_wf_def generations_bounded_def by blast
  then show ?thesis using ok s(2) by (simp add: table_wf_def)
qed

lemma table_deliver_plain:
  assumes ok: "table_ok ds n tb" and s: "tb_states tb a = Some s" "k = ss_generation s" and e: "\<not> rateless_delivery e"
  shows "table_ok (ds @ [((a, k, g, ob), e)]) n tb"
  using ok table_wf_deliver [OF _ s, of ds n g ob e] e unfolding table_ok_def state_ok_def by (simp add: delivered_objects_snoc)

lemma table_deliver_rateless:
  assumes ok: "table_ok ds n tb" and s: "tb_states tb a = Some s" "k = ss_generation s"
    and g: "gap_inv gap" "hist_ok gap (insert ob (delivered_objects ds a k))" and e: "rateless_delivery e"
  shows "table_ok (ds @ [((a, k, g, ob), e)]) n (put_object_gap tb a gap)"
proof -
  have "table_wf (ds @ [((a, k, g, ob), e)]) n (put_object_gap tb a gap)"
    using put_gap_table_wf [OF table_wf_deliver [OF _ s]] ok by (simp add: table_ok_def)
  moreover have "state_ok (ds @ [((a, k, g, ob), e)]) b s'" if "tb_states (put_object_gap tb a gap) b = Some s'" for b s'
    using that s g e table_okD(6) [OF ok, of b s'] by (auto simp: put_object_gap_states state_ok_def delivered_objects_snoc split: if_splits)
  ultimately show ?thesis by (simp add: table_ok_def)
qed

text \<open>A retirement keeps the gap state, and so does the recording of a delivery.\<close>

lemma gap_inv_retired:
  assumes g: "gap_inv gap" and s: "same_history gap gap'" "windows_retired (og_recovery_windows gap) (og_recovery_windows gap')"
  shows "gap_inv gap'"
proof -
  have "windows_ok (og_recovery_windows gap')" using retired_ok [OF s(2)] g by (simp add: gap_inv_def)
  moreover have "og_checkpoint_initialized gap' \<and> rw_final_object_id w \<le> og_last_checkpoint_object_id gap'"
    if "w \<in> set (og_recovery_windows gap')" "rw_active w" for w
    using retired_active [OF s(2) that] that(2) g s(1) unfolding gap_inv_def same_history_def by auto
  ultimately show ?thesis by (simp add: gap_inv_def)
qed

lemma gap_inv_mark: "gap_inv gap \<Longrightarrow> gap_inv (mark_object_delivered gap x)"
  by (simp add: gap_inv_def mark_object_delivered_def Let_def)

lemma gap_inv_window_mark:
  "gap_inv gap \<Longrightarrow> gap_inv (gap\<lparr>og_recovery_windows := map (window_mark g x) (og_recovery_windows gap)\<rparr>)"
  by (simp add: gap_inv_def marked_ok)

lemma mark_windows [simp]: "og_recovery_windows (mark_object_delivered gap x) = og_recovery_windows gap"
  by (simp add: mark_object_delivered_def Let_def)

text \<open>An acknowledgement run, for the gap of one track.\<close>

lemma acknowledge_conn_ok:
  assumes max: "M \<le> HARD_MAX_ASSEMBLERS" and p: "pools_ok G others (rc_memory conn) (rc_pool conn)" and g: "gap_inv (rc_gap conn)"
  shows "\<exists>ok conn'. acknowledge_completed_recovery_windows env M a conn = Some (ok, conn') \<and>
    same_history (rc_gap conn) (rc_gap conn') \<and> gap_inv (rc_gap conn') \<and> pools_ok G others (rc_memory conn') (rc_pool conn') \<and>
    pool_le (rc_pool conn') (rc_pool conn)"
proof -
  have "pool_account others conn" using p by (simp add: pool_account_def pools_ok_def)
  moreover have "windows_ok (og_recovery_windows (rc_gap conn))" using g by (simp add: gap_inv_def)
  ultimately obtain ok conn' where r: "acknowledge_completed_recovery_windows env M a conn = Some (ok, conn')"
    "same_history (rc_gap conn) (rc_gap conn')" "windows_retired (og_recovery_windows (rc_gap conn)) (og_recovery_windows (rc_gap conn'))"
    using acknowledge_plain [OF max, of conn others env a] by blast
  have "pools_ok G others (rc_memory conn') (rc_pool conn') \<and> pool_le (rc_pool conn') (rc_pool conn)"
    using acknowledge_pools [OF r(1) max p] by simp
  then show ?thesis using r gap_inv_retired [OF g r(2,3)] by blast
qed

lemma recovery_part_simps [simp]:
  "rc_gap (recovery_part rx gap) = gap" "rc_memory (recovery_part rx gap) = rx_memory rx" "rc_pool (recovery_part rx gap) = rx_pool rx"
  by (simp_all add: recovery_part_def)

lemma mark_delivered_ok:
  assumes e: "env_ok cf env" and p: "pools_ok (cf_sources cf) (cf_others cf) (rx_memory rx) (rx_pool rx)"
    and s: "tb_states (rx_table rx) a = Some s" and st: "state_ok ds a s"
  shows "\<exists>conn. mark_delivered env a g ob rx = Some (put_gap (with_recovery rx conn) a (rc_gap conn)) \<and>
    gap_inv (rc_gap conn) \<and> hist_ok (rc_gap conn) (insert ob (delivered_objects ds a (ss_generation s))) \<and>
    pools_ok (cf_sources cf) (cf_others cf) (rc_memory conn) (rc_pool conn) \<and> pool_le (rc_pool conn) (rx_pool rx)"
proof -
  let ?m = "mark_object_delivered (ss_object_gap s) ob"
  let ?gap = "?m\<lparr>og_recovery_windows := map (window_mark g ob) (og_recovery_windows ?m)\<rparr>"
  have M: "ev_max_assemblers env \<le> HARD_MAX_ASSEMBLERS" using e by (simp add: env_ok_def)
  have gi: "gap_inv ?gap" using gap_inv_window_mark [OF gap_inv_mark] st by (simp add: state_ok_def)
  have h: "hist_ok ?gap (insert ob (delivered_objects ds a (ss_generation s)))" using mark_ok st by (simp add: state_ok_def)
  obtain ok conn where r: "acknowledge_completed_recovery_windows (ev_ack env) (ev_max_assemblers env) a (recovery_part rx ?gap) = Some (ok, conn)"
    "same_history ?gap (rc_gap conn)" "gap_inv (rc_gap conn)" "pools_ok (cf_sources cf) (cf_others cf) (rc_memory conn) (rc_pool conn)"
    "pool_le (rc_pool conn) (rx_pool rx)"
    using acknowledge_conn_ok [OF M, of "cf_sources cf" "cf_others cf" "recovery_part rx ?gap" "ev_ack env" a] p gi
    unfolding recovery_part_simps by blast
  have c: "(recovery_part rx ?m)\<lparr>rc_gap := ?gap\<rparr> = recovery_part rx ?gap" by (simp add: recovery_part_def)
  have g0: "rc_gap (recovery_part rx ?m) = ?m" by (simp add: recovery_part_def)
  have "recovery_mark_delivered (ev_ack env) (ev_max_assemblers env) (recovery_part rx ?m) a g ob = Some conn"
    unfolding recovery_mark_delivered_def g0 c r(1) by simp
  then have "mark_delivered env a g ob rx = Some (put_gap (with_recovery rx conn) a (rc_gap conn))"
    using s by (simp add: mark_delivered_def transport_object_gap_def transport_subscriptions_get_state_def)
  then show ?thesis using r hist_same [OF r(2) h] by blast
qed

lemma with_recovery_simps [simp]:
  "rx_table (with_recovery rx c) = rx_table rx" "rx_completed (with_recovery rx c) = rx_completed rx"
  "rx_fec_cache (with_recovery rx c) = rx_fec_cache rx" "rx_events (with_recovery rx c) = rx_events rx"
  "rx_memory (with_recovery rx c) = rc_memory c" "rx_pool (with_recovery rx c) = rc_pool c"
  by (simp_all add: with_recovery_def)

lemma put_gap_simps [simp]:
  "rx_table (put_gap rx a gap) = put_object_gap (rx_table rx) a gap" "rx_completed (put_gap rx a gap) = rx_completed rx"
  "rx_fec_cache (put_gap rx a gap) = rx_fec_cache rx" "rx_events (put_gap rx a gap) = rx_events rx"
  "rx_memory (put_gap rx a gap) = rx_memory rx" "rx_pool (put_gap rx a gap) = rx_pool rx"
  by (simp_all add: put_gap_def)

lemma count_simps [simp]:
  "rx_table (count_recovered rx) = rx_table rx" "rx_completed (count_recovered rx) = rx_completed rx"
  "rx_fec_cache (count_recovered rx) = rx_fec_cache rx" "rx_events (count_recovered rx) = rx_events rx"
  "rx_memory (count_recovered rx) = rx_memory rx" "rx_pool (count_recovered rx) = rx_pool rx"
  by (simp_all add: count_recovered_def)

definition stepped :: "receiver_config \<Rightarrow> delivery list \<Rightarrow> nat \<Rightarrow> completion \<Rightarrow> 's receiver \<Rightarrow> 's receiver option \<Rightarrow> bool" where
  "stepped cf ds n key rx result \<longleftrightarrow> (\<exists>rx' new. result = Some rx' \<and> rx_inv cf (ds @ new) n rx' \<and>
     reports (map snd new) rx rx' \<and> (\<forall>d \<in> set new. fst d = key))"

lemma stepped_none: "rx_inv cf ds n rx' \<Longrightarrow> reports [] rx rx' \<Longrightarrow> stepped cf ds n key rx (Some rx')"
  unfolding stepped_def by (intro exI [of _ rx'] exI [of _ "[]"]) simp

lemma stepped_trans: "reports [] rx rx1 \<Longrightarrow> stepped cf ds n key rx1 r \<Longrightarrow> stepped cf ds n key rx r"
  unfolding stepped_def using reports_trans [of "[]" rx rx1] by fastforce

definition delivers :: "receiver_config \<Rightarrow> delivery list \<Rightarrow> nat \<Rightarrow> delivery \<Rightarrow> 's receiver \<Rightarrow> 's receiver option \<Rightarrow> bool" where
  "delivers cf ds n d rx result \<longleftrightarrow> (\<exists>rx'. result = Some rx' \<and> rx_inv cf (ds @ [d]) n rx' \<and> reports [snd d] rx rx')"

lemma delivers_stepped: "delivers cf ds n (key, e) rx result \<Longrightarrow> stepped cf ds n key rx result"
  unfolding delivers_def stepped_def
proof (elim exE)
  fix rx'
  assume "result = Some rx' \<and> rx_inv cf (ds @ [(key, e)]) n rx' \<and> reports [snd (key, e)] rx rx'"
  then show "\<exists>rx' new. result = Some rx' \<and> rx_inv cf (ds @ new) n rx' \<and> reports (map snd new) rx rx' \<and> (\<forall>d \<in> set new. fst d = key)"
    by (intro exI [of _ rx'] exI [of _ "[(key, e)]"]) simp
qed

lemma delivers_trans: "reports [] rx rx1 \<Longrightarrow> delivers cf ds n d rx1 r \<Longrightarrow> delivers cf ds n d rx r"
  unfolding delivers_def using reports_trans [of "[]" rx rx1] by fastforce

lemma deliver_object_ok:
  assumes e: "env_ok cf env" and n: "n + cf_calls cf < 2 ^ 64" and ok: "rx_inv cf ds n rx" and u: "under (fh_alias h) gen rx"
    and slot: "slot < HARD_MAX_ASSEMBLERS"
    and new: "(fh_alias h, gen, fh_group_id h, fh_object_id h) \<notin> set (last_completions (map fst ds))"
      "is_rateless_data track \<longrightarrow> fh_object_id h \<notin> delivered_objects ds (fh_alias h) gen"
    and data: "\<forall>so. cf_sources cf (fh_alias h) (fh_group_id h) (fh_object_id h) = Some so \<longrightarrow> full = so_data so"
  shows "delivers cf ds (n + cf_calls cf) ((fh_alias h, gen, fh_group_id h, fh_object_id h),
      Event_object track (fh_group_id h) (fh_object_id h) full (fh_is_keyframe h) prio) rx
    (deliver_object env track gen h prio full slot rx)"
proof -
  note d = rx_invD [OF ok]
  let ?k = "(fh_alias h, gen, fh_group_id h, fh_object_id h)"
  let ?e = "Event_object track (fh_group_id h) (fh_object_id h) full (fh_is_keyframe h) prio"
  let ?ds = "ds @ [(?k, ?e)]"
  obtain s where s: "tb_states (rx_table rx) (fh_alias h) = Some s" "gen = ss_generation s" using u by (auto simp: under_def)
  obtain c where c: "completed_remember (rx_completed rx) (fh_alias h) gen (fh_group_id h) (fh_object_id h) = Some c"
    "completed_holds c (map fst ds @ [?k])" using completed_remember_ok [OF d(4)] by blast
  let ?rx1 = "rx\<lparr>rx_completed := c\<rparr>"
  have r: "rateless_delivery ?e = is_rateless_data track" by (simp add: rateless_delivery_def)
  have "\<exists>rx2. (if is_rateless_data track then mark_delivered env (fh_alias h) (fh_group_id h) (fh_object_id h) ?rx1 else Some ?rx1) = Some rx2 \<and>
    table_ok ?ds n (rx_table rx2) \<and> pools_ok (cf_sources cf) (cf_others cf) (rx_memory rx2) (rx_pool rx2) \<and>
    ap_limit (rx_pool rx2) = ap_limit (rx_pool rx) \<and> rx_completed rx2 = c \<and> rx_fec_cache rx2 = rx_fec_cache rx \<and> rx_events rx2 = rx_events rx"
  proof (cases "is_rateless_data track")
    case False
    then have nr: "\<not> rateless_delivery ?e" using r by simp
    show ?thesis using False table_deliver_plain [OF d(3) s nr] d(1) by simp
  next
    case True
    then have ra: "rateless_delivery ?e" using r by simp
    have st: "state_ok ds (fh_alias h) s" using table_okD(6) [OF d(3) s(1)] .
    have p1: "pools_ok (cf_sources cf) (cf_others cf) (rx_memory ?rx1) (rx_pool ?rx1)" "tb_states (rx_table ?rx1) (fh_alias h) = Some s"
      using d(1) s(1) by simp_all
    obtain conn where m: "mark_delivered env (fh_alias h) (fh_group_id h) (fh_object_id h) ?rx1 =
          Some (put_gap (with_recovery ?rx1 conn) (fh_alias h) (rc_gap conn))"
      "gap_inv (rc_gap conn)" "hist_ok (rc_gap conn) (insert (fh_object_id h) (delivered_objects ds (fh_alias h) (ss_generation s)))"
      "pools_ok (cf_sources cf) (cf_others cf) (rc_memory conn) (rc_pool conn)" "pool_le (rc_pool conn) (rx_pool ?rx1)"
      using mark_delivered_ok [OF e p1 st] by blast
    have "table_ok ?ds n (put_object_gap (rx_table rx) (fh_alias h) (rc_gap conn))"
      using table_deliver_rateless [OF d(3) s m(2) _ ra] m(3) s(2) by simp
    then show ?thesis using True m(1,4,5) by (simp add: pool_le_def)
  qed
  then obtain rx2 where 2: "(if is_rateless_data track then mark_delivered env (fh_alias h) (fh_group_id h) (fh_object_id h) ?rx1 else Some ?rx1) = Some rx2"
    "table_ok ?ds n (rx_table rx2)" "pools_ok (cf_sources cf) (cf_others cf) (rx_memory rx2) (rx_pool rx2)"
    "ap_limit (rx_pool rx2) = ap_limit (rx_pool rx)" "rx_completed rx2 = c" "rx_fec_cache rx2 = rx_fec_cache rx" "rx_events rx2 = rx_events rx" by blast
  let ?rx3 = "count_recovered rx2" and ?ev = "rx_events (count_recovered rx2) @ [?e]"
  have src: "source_event (cf_sources cf) (?k, ?e)" using data by (simp add: source_event_simp)
  have "rx_inv cf ?ds n (?rx3\<lparr>rx_events := ?ev\<rparr>)"
    unfolding rx_inv_def using 2 d(2,5,6,7) c(2) src spaced_snoc [OF d(8) new(1)] rateless_once_snoc [OF d(9), of ?e] new(2) r
    by (simp add: is_object_event_def)
  from emit_ok [OF e n this] obtain rx4 where 4: "transport_emit_event env ?e ?rx3 = Some rx4" "rx_inv cf ?ds (n + cf_calls cf) rx4"
    "quiet (?rx3\<lparr>rx_events := ?ev\<rparr>) rx4" by blast
  note d4 = rx_invD [OF 4(2)]
  obtain m5 p5 where 5: "release_slot slot rx4 = Some (rx4\<lparr>rx_memory := m5, rx_pool := p5\<rparr>)" "pools_ok (cf_sources cf) (cf_others cf) m5 p5"
    "pool_le p5 (rx_pool rx4)" using release_slot_ok [OF d4(1) slot] by metis
  let ?rx5 = "rx4\<lparr>rx_memory := m5, rx_pool := p5\<rparr>"
  have q5: "quiet rx4 ?rx5" using 5(3) by (simp add: quiet_same)
  have ok5: "rx_inv cf ?ds (n + cf_calls cf) ?rx5" by (rule rx_inv_quiet [OF 4(2) q5]) (use d4(3) 5(2) in simp_all)
  have "reports [?e] rx (?rx3\<lparr>rx_events := ?ev\<rparr>)" using 2(7) by (simp add: reports_def is_object_event_def)
  moreover have "reports [] (?rx3\<lparr>rx_events := ?ev\<rparr>) ?rx5" using quiet_trans [OF 4(3) q5] by (simp add: quiet_def calm_def)
  ultimately have rep: "reports [?e] rx ?rx5" using reports_trans by fastforce
  have "deliver_object env track gen h prio full slot rx = Some ?rx5"
    using c(1) 2(1) 4(1) 5(1) by (simp add: deliver_object_def Let_def)
  then show ?thesis unfolding delivers_def using ok5 rep by (intro exI [of _ ?rx5]) simp
qed

section \<open>Symbols of a live slot\<close>

lemma put_live_slot:
  assumes ok: "rx_inv cf ds n rx" and i: "i < HARD_MAX_ASSEMBLERS" "pool_live (rx_pool rx) i"
    and a: "fa_owner a = fa_owner (slot_of rx i)" "fa_hash_next a = fa_hash_next (slot_of rx i)"
      "slot_ok (cf_sources cf) a" "slot_matches h a" "slot_matches h (slot_of rx i)"
    and m: "am_bytes m' + transport_assembler_capacity_bytes (slot_of rx i) = am_bytes (rx_memory rx) + transport_assembler_capacity_bytes a"
      "am_bytes m' \<le> am_limit m'" "am_limit m' = am_limit (rx_memory rx)" and c: "fec_cache_ok (cf_params cf) es"
  shows "rx_inv cf ds n (put_slot (rx\<lparr>rx_memory := m', rx_fec_cache := es\<rparr>) i a) \<and>
    pool_live (rx_pool (put_slot (rx\<lparr>rx_memory := m', rx_fec_cache := es\<rparr>) i a)) i \<and>
    slot_of (put_slot (rx\<lparr>rx_memory := m', rx_fec_cache := es\<rparr>) i a) i = a"
proof -
  note d = rx_invD [OF ok]
  note p = pools_okD [OF d(1)]
  have nx: "fa_hash_next a = slot_next (ap_assemblers (rx_pool rx)) i" using a(2) by simp
  have f: "fa_track_id a = fa_track_id (slot_of rx i)" "fa_group_id a = fa_group_id (slot_of rx i)"
      "fa_object_id a = fa_object_id (slot_of rx i)" "fa_total_symbols a \<noteq> 0" using a(4,5) by (simp_all add: slot_matches_def)
  have "pools_ok (cf_sources cf) (cf_others cf) m' ((rx_pool rx)\<lparr>ap_assemblers := (ap_assemblers (rx_pool rx))[i := a]\<rparr>) \<and>
      pool_live ((rx_pool rx)\<lparr>ap_assemblers := (ap_assemblers (rx_pool rx))[i := a]\<rparr>) i"
    by (rule pools_live_slot [OF d(1) i a(1) nx f(1-3) a(3) f(4) m])
  then show ?thesis using ok i(1) p(7) c by (simp add: rx_inv_def put_slot_def)
qed

definition serving :: "receiver_config \<Rightarrow> delivery list \<Rightarrow> nat \<Rightarrow> wire_fec_header \<Rightarrow> u64 \<Rightarrow> nat \<Rightarrow> 's receiver \<Rightarrow> bool" where
  "serving cf ds n h gen slot rx \<longleftrightarrow> rx_inv cf ds n rx \<and> slot < HARD_MAX_ASSEMBLERS \<and> pool_live (rx_pool rx) slot \<and>
     slot_matches h (slot_of rx slot) \<and> under (fh_alias h) gen rx"

lemma servingD:
  assumes "serving cf ds n h gen slot rx"
  shows "rx_inv cf ds n rx" "slot < HARD_MAX_ASSEMBLERS" "pool_live (rx_pool rx) slot" "slot_matches h (slot_of rx slot)"
    "under (fh_alias h) gen rx" "slot_ok (cf_sources cf) (slot_of rx slot)" "slot_wf (slot_of rx slot)"
    "storage_ok (slot_of rx slot)" "fa_total_symbols (slot_of rx slot) \<noteq> 0" "fa_buffers (slot_of rx slot) \<noteq> None" "\<not> fa_decoded (slot_of rx slot)"
proof -
  show 1: "rx_inv cf ds n rx" "slot < HARD_MAX_ASSEMBLERS" "pool_live (rx_pool rx) slot" "slot_matches h (slot_of rx slot)"
    "under (fh_alias h) gen rx" using assms by (simp_all add: serving_def)
  show 2: "slot_ok (cf_sources cf) (slot_of rx slot)" using pools_okD(2) [OF rx_invD(1) [OF 1(1)] 1(2)] .
  show 3: "fa_total_symbols (slot_of rx slot) \<noteq> 0" using 1(4) by (simp add: slot_matches_def)
  show "slot_wf (slot_of rx slot)" using 2 by (simp add: slot_ok_def)
  then show "storage_ok (slot_of rx slot)" "fa_buffers (slot_of rx slot) \<noteq> None" "\<not> fa_decoded (slot_of rx slot)"
    using 3 by (simp_all add: slot_wf_def)
qed

lemma serving_put:
  assumes s: "serving cf ds n h gen slot rx"
    and a: "fa_owner a = fa_owner (slot_of rx slot)" "fa_hash_next a = fa_hash_next (slot_of rx slot)" "slot_ok (cf_sources cf) a" "slot_matches h a"
    and m: "am_bytes m' + transport_assembler_capacity_bytes (slot_of rx slot) = am_bytes (rx_memory rx) + transport_assembler_capacity_bytes a"
      "am_bytes m' \<le> am_limit m'" "am_limit m' = am_limit (rx_memory rx)" and c: "fec_cache_ok (cf_params cf) es"
  defines "rx' \<equiv> put_slot (rx\<lparr>rx_memory := m', rx_fec_cache := es\<rparr>) slot a"
  shows "serving cf ds n h gen slot rx' \<and> slot_of rx' slot = a \<and> reports [] rx rx'"
proof -
  note d = servingD [OF s]
  have "rx_inv cf ds n rx' \<and> pool_live (rx_pool rx') slot \<and> slot_of rx' slot = a"
    unfolding rx'_def by (rule put_live_slot [OF d(1-3) a d(4) m c])
  moreover have "under (fh_alias h) gen rx'" using d(5) by (simp add: under_def rx'_def put_slot_def)
  ultimately show ?thesis using d(2) a(4) by (simp add: serving_def rx'_def put_slot_def reports_same)
qed

lemma widen_slot_ok:
  assumes s: "serving cf ds n h gen slot rx" and h: "header_wf h"
  shows "\<exists>go rx'. widen_slot env h slot rx = (go, rx') \<and> rx_inv cf ds n rx' \<and> reports [] rx rx' \<and> (go \<longrightarrow> serving cf ds n h gen slot rx')"
proof -
  note d = servingD [OF s]
  note q = rx_invD [OF d(1)]
  note p = pools_okD [OF q(1)]
  let ?a = "slot_of rx slot"
  show ?thesis
  proof (cases "fh_total_symbols h > fa_total_symbols ?a")
    case False
    then show ?thesis using s d(1) by (auto simp: widen_slot_def reports_same)
  next
    case True
    obtain grown m a where g: "transport_grow_assembler (ev_grow_ok env) (rx_memory rx) ?a (fh_total_symbols h) (fh_symbol_size h) = (grown, m, a)"
      by (cases "transport_grow_assembler (ev_grow_ok env) (rx_memory rx) ?a (fh_total_symbols h) (fh_symbol_size h)")
    have pos: "fh_total_symbols h \<noteq> 0" "fh_symbol_size h \<noteq> 0" using h by (auto simp: header_wf_def)
    let ?o = "am_bytes (rx_memory rx) - transport_assembler_capacity_bytes ?a"
    have "transport_assembler_capacity_bytes ?a \<le> slots_bytes (rx_pool rx)"
      using member_le_sum_list [of "transport_assembler_capacity_bytes ?a" "map transport_assembler_capacity_bytes (ap_assemblers (rx_pool rx))"] d(2) p(7)
      by (simp add: slots_bytes_def)
    then have o: "am_bytes (rx_memory rx) = ?o + transport_assembler_capacity_bytes ?a" using p(4) by simp
    have ga: "am_bytes m = ?o + transport_assembler_capacity_bytes a" "am_bytes m \<le> am_limit m" "am_limit m = am_limit (rx_memory rx)"
      "\<not> grown \<Longrightarrow> a = ?a" "grown \<Longrightarrow> transport_assembler_grow (ev_grow_ok env) ?a (fh_total_symbols h) (fh_symbol_size h) = (True, a)"
      using grow_accounting [OF d(8) pos o p(5,6) g] by blast+
    define b where "b = (if grown then a\<lparr>fa_total_symbols := fh_total_symbols h\<rparr> else a)"
    have b: "fa_owner b = fa_owner ?a \<and> fa_hash_next b = fa_hash_next ?a \<and> slot_ok (cf_sources cf) b \<and> slot_matches h b"
    proof (cases grown)
      case True
      then show ?thesis using slot_ok_widen [OF d(6,4) h \<open>fh_total_symbols h > fa_total_symbols ?a\<close> ga(5)] by (simp add: b_def)
    next
      case False
      then show ?thesis using ga(4) d(4,6) by (simp add: b_def)
    qed
    have cb: "transport_assembler_capacity_bytes b = transport_assembler_capacity_bytes a"
      by (simp add: b_def transport_assembler_capacity_bytes_def)
    have m: "am_bytes m + transport_assembler_capacity_bytes ?a = am_bytes (rx_memory rx) + transport_assembler_capacity_bytes b"
      using ga(1) o cb by linarith
    have pu: "rx\<lparr>rx_memory := m, rx_fec_cache := rx_fec_cache rx\<rparr> = rx\<lparr>rx_memory := m\<rparr>" by simp
    have sv: "serving cf ds n h gen slot (put_slot (rx\<lparr>rx_memory := m\<rparr>) slot b) \<and> reports [] rx (put_slot (rx\<lparr>rx_memory := m\<rparr>) slot b)"
      using serving_put [OF s _ _ _ _ m ga(2,3) q(5)] b unfolding pu by blast
    have "widen_slot env h slot rx = (grown, put_slot (rx\<lparr>rx_memory := m\<rparr>) slot b)"
      using True g by (simp add: widen_slot_def b_def)
    then show ?thesis using sv servingD(1) by blast
  qed
qed

lemma decode_object_ok:
  assumes e: "env_ok cf env" and s: "serving cf ds n h gen slot rx"
  shows "\<exists>success rx'. decode_object env rateless slot rx = Some (success, rx') \<and> serving cf ds n h gen slot rx' \<and> reports [] rx rx' \<and>
    (success \<longrightarrow> data_ready (cf_sources cf) (slot_of rx' slot))"
proof -
  note d = servingD [OF s]
  note q = rx_invD [OF d(1)]
  let ?a = "slot_of rx slot"
  let ?k = "unat (fa_data_symbols ?a)" and ?n = "unat (fa_total_symbols ?a)" and ?z = "unat (fa_symbol_size ?a)"
  obtain bs where bs: "fa_buffers ?a = Some bs" using d(10) by blast
  obtain rm mm where rm: "fa_received_mask ?a = Some rm" "fa_missing_mask ?a = Some mm"
    using storageD(3) [OF d(8) bs] by blast
  have stay: "serving cf ds n h gen slot rx" "reports [] rx rx" using s by (simp_all add: reports_same)
  show ?thesis
  proof (cases "\<forall>i < ?k. rm ! i")
    case True
    then have "decode_object env rateless slot rx = Some (True, rx)" by (simp add: decode_object_def rm)
    then show ?thesis using stay data_ready_all [OF d(6,9) rm(1) True] by blast
  next
    case False
    define t where "t = (if rateless \<or> ?n > 255 then FEC_RAPTORQ else FEC_REED_SOLOMON)"
    note body = decode_object_def [of env rateless slot rx, unfolded Let_def rm(1) bind.bind_lunit if_not_P [OF False] t_def [symmetric]]
    show ?thesis
    proof (cases "?n - ?k = 0")
      case True
      then have "decode_object env rateless slot rx = Some (False, rx)" by (simp add: body)
      then show ?thesis using stay by blast
    next
      case nk: False
      have laws: "decoder_laws (cf_sources cf) (cf_params cf) (ev_create env) (ev_decode env)" using e by (simp add: env_ok_def)
      obtain res es where g: "transport_fec_cache_get (ev_now_ns env) (ev_create env t ?k (?n - ?k) ?z) (rx_fec_cache rx) t ?k (?n - ?k) ?z = (res, es)"
        by (cases "transport_fec_cache_get (ev_now_ns env) (ev_create env t ?k (?n - ?k) ?z) (rx_fec_cache rx) t ?k (?n - ?k) ?z")
      have cr: "ev_create env t ?k (?n - ?k) ?z = Some f \<Longrightarrow> cf_params cf f = (t, ?k, ?n - ?k, ?z)" for f
        using laws by (simp add: decoder_laws_def)
      have es: "fec_cache_ok (cf_params cf) es" "\<forall>f. res = Some f \<longrightarrow> cf_params cf f = (t, ?k, ?n - ?k, ?z)"
        using fec_get_ok [OF q(5) cr g] by blast+
      show ?thesis
      proof (cases res)
        case None
        have "decode_object env rateless slot rx = Some (False, rx\<lparr>rx_fec_cache := es\<rparr>)" using nk g None by (simp add: body)
        moreover have "serving cf ds n h gen slot (rx\<lparr>rx_fec_cache := es\<rparr>)" using s es(1) by (simp add: serving_def rx_inv_def under_def)
        ultimately show ?thesis by (auto simp: reports_same)
      next
        case (Some f)
        define missing where "missing = map Not (take ?n rm) @ drop ?n mm"
        obtain success bs' where r: "ev_decode env f bs missing = (success, bs')" by (cases "ev_decode env f bs missing")
        let ?b = "?a\<lparr>fa_missing_mask := Some missing, fa_buffers := Some bs'\<rparr>"
        have par: "cf_params cf f = (t, ?k, ?n - ?k, ?z)" using es(2) Some by blast
        have b: "slot_ok (cf_sources cf) ?b" "success \<longrightarrow> data_ready (cf_sources cf) ?b"
          using slot_ok_decoded [OF d(6,9) bs rm laws par missing_def r] by blast+
        have bm: "slot_matches h ?b" using d(4) by (simp add: slot_matches_def)
        have cb: "am_bytes (rx_memory rx) + transport_assembler_capacity_bytes ?a = am_bytes (rx_memory rx) + transport_assembler_capacity_bytes ?b"
          using bs by (simp add: transport_assembler_capacity_bytes_def)
        have ob: "fa_owner ?b = fa_owner ?a" "fa_hash_next ?b = fa_hash_next ?a" by simp_all
        have pu: "rx\<lparr>rx_memory := rx_memory rx, rx_fec_cache := es\<rparr> = rx\<lparr>rx_fec_cache := es\<rparr>" by simp
        have sv: "serving cf ds n h gen slot (put_slot (rx\<lparr>rx_fec_cache := es\<rparr>) slot ?b)"
          "slot_of (put_slot (rx\<lparr>rx_fec_cache := es\<rparr>) slot ?b) slot = ?b" "reports [] rx (put_slot (rx\<lparr>rx_fec_cache := es\<rparr>) slot ?b)"
          using serving_put [OF s ob b(1) bm cb pools_okD(5) [OF q(1)] refl es(1)] unfolding pu by blast+
        have "decode_object env rateless slot rx = Some (success, put_slot (rx\<lparr>rx_fec_cache := es\<rparr>) slot ?b)"
          using nk g Some bs rm(2) r by (simp add: body missing_def)
        then show ?thesis using sv b(2) by auto
      qed
    qed
  qed
qed


lemma data_gathered:
  assumes ok: "slot_ok G a" and nz: "fa_total_symbols a \<noteq> 0" and bs: "fa_buffers a = Some bs" and r: "data_ready G a"
  obtains full where "gather (unat (fa_original_size a)) (unat (fa_symbol_size a)) (take (unat (fa_data_symbols a)) bs) = Some full"
    "\<forall>so. G (fa_track_id a) (fa_group_id a) (fa_object_id a) = Some so \<longrightarrow> full = so_data so"
proof -
  let ?k = "unat (fa_data_symbols a)" and ?z = "unat (fa_symbol_size a)"
  have wf: "slot_wf a" and g: "slot_genuine G a" using ok by (simp_all add: slot_ok_def)
  have st: "storage_ok a" using wf by (simp add: slot_wf_def)
  note s = storageD [OF st bs]
  have kl: "?k \<le> length bs" using wf nz s(1,4) by (simp add: slot_wf_def word_le_nat_alt)
  have b: "\<forall>b \<in> set bs. \<exists>x. b = Some x \<and> ?z \<le> length x" using st bs s(5) by (auto simp: storage_ok_def word_le_nat_alt)
  have "\<exists>full. gather (unat (fa_original_size a)) ?z (take ?k bs) = Some full \<and>
     (\<forall>so. G (fa_track_id a) (fa_group_id a) (fa_object_id a) = Some so \<longrightarrow> full = so_data so)"
  proof (cases "G (fa_track_id a) (fa_group_id a) (fa_object_id a)")
    case None
    have "\<forall>b \<in> set (take ?k bs). \<exists>x. b = Some x \<and> ?z \<le> length x" using b by (meson in_set_takeD)
    then show ?thesis using None by (simp add: gather_take)
  next
    case (Some so)
    have so: "so_k so = ?k" "so_z so = ?z" "length (so_data so) = unat (fa_original_size a)"
      using g nz Some by (simp_all add: slot_genuine_def)
    have "length (so_data so) \<le> ?k * ?z" using so(3) wf nz by (simp add: slot_wf_def)
    moreover have "\<forall>i < ?k. take ?z (the (bs ! i)) = data_block (so_data so) ?z i"
      using r Some bs so(1,2) by (simp add: data_ready_def source_symbol_def)
    ultimately have "gather (length (so_data so)) ?z (take ?k bs) = Some (so_data so)" using gather_source [OF b kl] by blast
    then show ?thesis using Some so(3) by simp
  qed
  then show thesis using that by blast
qed

lemma complete_object_ok:
  assumes e: "env_ok cf env" and n: "n + cf_calls cf < 2 ^ 64" and s: "serving cf ds n h gen slot rx"
    and new: "(fh_alias h, gen, fh_group_id h, fh_object_id h) \<notin> set (last_completions (map fst ds))"
      "is_rateless_data track \<longrightarrow> fh_object_id h \<notin> delivered_objects ds (fh_alias h) gen"
  shows "stepped cf ds (n + cf_calls cf) (fh_alias h, gen, fh_group_id h, fh_object_id h) rx (complete_object env track gen h slot rx)"
proof -
  obtain success rx1 where r: "decode_object env (is_rateless track) slot rx = Some (success, rx1)" "serving cf ds n h gen slot rx1"
    "reports [] rx rx1" "success \<longrightarrow> data_ready (cf_sources cf) (slot_of rx1 slot)" using decode_object_ok [OF e s] by blast
  note d = servingD [OF r(2)]
  show ?thesis
  proof (cases "\<not> success \<or> \<not> ev_malloc_ok env")
    case True
    then have "complete_object env track gen h slot rx = Some rx1" using r(1) by (auto simp: complete_object_def)
    then show ?thesis using stepped_none [OF rx_inv_mono [OF d(1)] r(3)] by simp
  next
    case False
    obtain bs where bs: "fa_buffers (slot_of rx1 slot) = Some bs" using d(10) by blast
    have dr: "data_ready (cf_sources cf) (slot_of rx1 slot)" using r(4) False by blast
    obtain full where f: "gather (unat (fa_original_size (slot_of rx1 slot))) (unat (fa_symbol_size (slot_of rx1 slot)))
        (take (unat (fa_data_symbols (slot_of rx1 slot))) bs) = Some full"
      "\<forall>so. cf_sources cf (fa_track_id (slot_of rx1 slot)) (fa_group_id (slot_of rx1 slot)) (fa_object_id (slot_of rx1 slot)) = Some so \<longrightarrow>
         full = so_data so" using data_gathered [OF d(6,9) bs dr] by blast
    have "complete_object env track gen h slot rx = deliver_object env track gen h (fa_priority (slot_of rx1 slot)) full slot rx1"
      using r(1) False bs f(1) by (simp add: complete_object_def Let_def)
    moreover have "\<forall>so. cf_sources cf (fh_alias h) (fh_group_id h) (fh_object_id h) = Some so \<longrightarrow> full = so_data so"
      using f(2) d(4) by (simp add: slot_matches_def)
    ultimately show ?thesis using stepped_trans [OF r(3) delivers_stepped [OF deliver_object_ok [OF e n d(1,5,2) new]]] by simp
  qed
qed

lemma receive_into_ok:
  assumes e: "env_ok cf env" and n: "n + cf_calls cf < 2 ^ 64" and s: "serving cf ds n h gen slot rx"
    and h: "header_wf h" "genuine (cf_sources cf) h symbol" "length symbol = unat (fh_symbol_size h)"
    and new: "(fh_alias h, gen, fh_group_id h, fh_object_id h) \<notin> set (last_completions (map fst ds))"
      "is_rateless_data track \<longrightarrow> fh_object_id h \<notin> delivered_objects ds (fh_alias h) gen"
  shows "stepped cf ds (n + cf_calls cf) (fh_alias h, gen, fh_group_id h, fh_object_id h) rx (receive_into env track gen h symbol slot rx)"
proof -
  obtain go rx1 where w: "widen_slot env h slot rx = (go, rx1)" "rx_inv cf ds n rx1" "reports [] rx rx1"
    "go \<longrightarrow> serving cf ds n h gen slot rx1" using widen_slot_ok [OF s h(1)] by blast
  note body = receive_into_def [of env track gen h symbol slot rx, unfolded w(1) prod.case, simplified servingD(11) [OF s] if_False]
  have stop: "stepped cf ds (n + cf_calls cf) k rx (Some rx1)" for k
    by (rule stepped_none [OF rx_inv_mono [OF w(2)] w(3)]) simp
  show ?thesis
  proof (cases "go \<and> fh_symbol_index h < fa_total_symbols (slot_of rx1 slot)")
    case False
    then show ?thesis using stop by (cases go) (simp_all add: body not_less)
  next
    case True
    then have s1: "serving cf ds n h gen slot rx1" and i: "fh_symbol_index h < fa_total_symbols (slot_of rx1 slot)" using w(4) by blast+
    note d = servingD [OF s1]
    obtain b where b: "store_symbol (ev_now_ms env) (fh_symbol_index h) symbol (slot_of rx1 slot) = Some b" "slot_ok (cf_sources cf) b"
      "slot_matches h b" "fa_owner b = fa_owner (slot_of rx1 slot)" "fa_hash_next b = fa_hash_next (slot_of rx1 slot)"
      "fa_capacity_symbols b = fa_capacity_symbols (slot_of rx1 slot)" "fa_capacity_symbol_size b = fa_capacity_symbol_size (slot_of rx1 slot)"
      using slot_ok_store [OF d(6,4) i h(3,2), of "ev_now_ms env"] by blast
    have "fa_buffers b \<noteq> None" using b(2,3) by (simp add: slot_ok_def slot_wf_def slot_matches_def)
    then have cb: "am_bytes (rx_memory rx1) + transport_assembler_capacity_bytes (slot_of rx1 slot) =
        am_bytes (rx_memory rx1) + transport_assembler_capacity_bytes b"
      using b(6,7) d(10) by (simp add: transport_assembler_capacity_bytes_def)
    note q = rx_invD [OF d(1)]
    have pu: "rx1\<lparr>rx_memory := rx_memory rx1, rx_fec_cache := rx_fec_cache rx1\<rparr> = rx1" by simp
    have sv: "serving cf ds n h gen slot (put_slot rx1 slot b)" "reports [] rx1 (put_slot rx1 slot b)"
      using serving_put [OF s1 b(4,5,2,3) cb pools_okD(5) [OF q(1)] refl q(5)] unfolding pu by blast+
    have rep: "reports [] rx (put_slot rx1 slot b)" using reports_trans [OF w(3) sv(2)] by simp
    show ?thesis
    proof (cases "fa_received_count b \<ge> fa_data_symbols b")
      case True
      then have "receive_into env track gen h symbol slot rx = complete_object env track gen h slot (put_slot rx1 slot b)"
        using \<open>go \<and> _\<close> b(1) i by (simp add: body not_le [symmetric] del: not_le)
      then show ?thesis using stepped_trans [OF rep complete_object_ok [OF e n sv(1) new]] by simp
    next
      case False
      then have "receive_into env track gen h symbol slot rx = Some (put_slot rx1 slot b)"
        using \<open>go \<and> _\<close> b(1) i by (simp add: body not_le [symmetric] del: not_le)
      then show ?thesis using stepped_none [OF rx_inv_mono [OF servingD(1) [OF sv(1)]] rep] by simp
    qed
  qed
qed

section \<open>The last symbol of an object\<close>

lemma gathered_source:
  assumes ok: "slot_ok G a" and nz: "fa_total_symbols a \<noteq> 0" and bs: "fa_buffers a = Some bs" and r: "data_ready G a"
    and so: "G (fa_track_id a) (fa_group_id a) (fa_object_id a) = Some so"
  shows "gather (unat (fa_original_size a)) (unat (fa_symbol_size a)) (take (unat (fa_data_symbols a)) bs) = Some (so_data so)"
  using data_gathered [OF ok nz bs r] so by metis

lemma complete_object_delivers:
  assumes e: "env_ok cf env" "ev_malloc_ok env" and n: "n + cf_calls cf < 2 ^ 64" and s: "serving cf ds n h gen slot rx"
    and new: "(fh_alias h, gen, fh_group_id h, fh_object_id h) \<notin> set (last_completions (map fst ds))"
      "is_rateless_data track \<longrightarrow> fh_object_id h \<notin> delivered_objects ds (fh_alias h) gen"
    and all: "\<forall>i < unat (fh_data_symbols h). fst (received_symbol (slot_of rx slot) i)"
    and so: "cf_sources cf (fh_alias h) (fh_group_id h) (fh_object_id h) = Some so"
  shows "\<exists>prio. delivers cf ds (n + cf_calls cf) ((fh_alias h, gen, fh_group_id h, fh_object_id h),
      Event_object track (fh_group_id h) (fh_object_id h) (so_data so) (fh_is_keyframe h) prio) rx (complete_object env track gen h slot rx)"
proof -
  note d = servingD [OF s]
  obtain bs where bs: "fa_buffers (slot_of rx slot) = Some bs" using d(10) by blast
  obtain rm where rm: "fa_received_mask (slot_of rx slot) = Some rm" using storageD(3) [OF d(8) bs] by blast
  have k: "fa_data_symbols (slot_of rx slot) = fh_data_symbols h" using d(4) by (simp add: slot_matches_def)
  have a: "\<forall>i < unat (fa_data_symbols (slot_of rx slot)). rm ! i" using all k by (simp add: received_symbol_def rm)
  have r: "decode_object env (is_rateless track) slot rx = Some (True, rx)" using a by (simp add: decode_object_def rm)
  have so': "cf_sources cf (fa_track_id (slot_of rx slot)) (fa_group_id (slot_of rx slot)) (fa_object_id (slot_of rx slot)) = Some so"
    using so d(4) by (simp add: slot_matches_def)
  have g: "gather (unat (fa_original_size (slot_of rx slot))) (unat (fa_symbol_size (slot_of rx slot)))
        (take (unat (fa_data_symbols (slot_of rx slot))) bs) = Some (so_data so)"
    by (rule gathered_source [OF d(6,9) bs data_ready_all [OF d(6,9) rm a] so'])
  have "complete_object env track gen h slot rx = deliver_object env track gen h (fa_priority (slot_of rx slot)) (so_data so) slot rx"
    using r e(2) bs g by (simp add: complete_object_def Let_def)
  then show ?thesis using deliver_object_ok [OF e(1) n d(1,5,2) new, of "so_data so" "fa_priority (slot_of rx slot)"] so by auto
qed

lemma receive_into_delivers:
  assumes e: "env_ok cf env" "ev_malloc_ok env" and n: "n + cf_calls cf < 2 ^ 64" and s: "serving cf ds n h gen slot rx"
    and h: "header_wf h" "genuine (cf_sources cf) h symbol" "length symbol = unat (fh_symbol_size h)"
    and new: "(fh_alias h, gen, fh_group_id h, fh_object_id h) \<notin> set (last_completions (map fst ds))"
      "is_rateless_data track \<longrightarrow> fh_object_id h \<notin> delivered_objects ds (fh_alias h) gen"
    and t: "fh_total_symbols h \<le> fa_total_symbols (slot_of rx slot)"
    and all: "\<forall>i < unat (fh_data_symbols h). i = unat (fh_symbol_index h) \<or> fst (received_symbol (slot_of rx slot) i)"
    and so: "cf_sources cf (fh_alias h) (fh_group_id h) (fh_object_id h) = Some so"
  shows "\<exists>prio. delivers cf ds (n + cf_calls cf) ((fh_alias h, gen, fh_group_id h, fh_object_id h),
      Event_object track (fh_group_id h) (fh_object_id h) (so_data so) (fh_is_keyframe h) prio) rx (receive_into env track gen h symbol slot rx)"
proof -
  note d = servingD [OF s]
  have i: "fh_symbol_index h < fa_total_symbols (slot_of rx slot)" using h(1) t by (auto simp: header_wf_def)
  have w: "widen_slot env h slot rx = (True, rx)" using leD [OF t] by (simp add: widen_slot_def)
  obtain b where b: "store_symbol (ev_now_ms env) (fh_symbol_index h) symbol (slot_of rx slot) = Some b" "slot_ok (cf_sources cf) b"
      "slot_matches h b" "fa_owner b = fa_owner (slot_of rx slot)" "fa_hash_next b = fa_hash_next (slot_of rx slot)"
      "fa_capacity_symbols b = fa_capacity_symbols (slot_of rx slot)" "fa_capacity_symbol_size b = fa_capacity_symbol_size (slot_of rx slot)"
      "fa_total_symbols b = fa_total_symbols (slot_of rx slot)"
      "\<forall>j < unat (fa_total_symbols (slot_of rx slot)). fst (received_symbol b j) \<longleftrightarrow> j = unat (fh_symbol_index h) \<or> fst (received_symbol (slot_of rx slot) j)"
    using slot_ok_store [OF d(6,4) i h(3,2), of "ev_now_ms env"] by blast
  have nz: "fa_total_symbols b \<noteq> 0" using b(3) by (simp add: slot_matches_def)
  have wf: "slot_wf b" using b(2) by (simp add: slot_ok_def)
  have st: "storage_ok b" using wf by (simp add: slot_wf_def)
  obtain bs where bs: "fa_buffers b = Some bs" using wf nz by (auto simp: slot_wf_def)
  have cb: "am_bytes (rx_memory rx) + transport_assembler_capacity_bytes (slot_of rx slot) =
      am_bytes (rx_memory rx) + transport_assembler_capacity_bytes b"
    using b(6,7) d(10) bs by (simp add: transport_assembler_capacity_bytes_def)
  note q = rx_invD [OF d(1)]
  have pu: "rx\<lparr>rx_memory := rx_memory rx, rx_fec_cache := rx_fec_cache rx\<rparr> = rx" by simp
  have sv: "serving cf ds n h gen slot (put_slot rx slot b)" "slot_of (put_slot rx slot b) slot = b" "reports [] rx (put_slot rx slot b)"
    using serving_put [OF s b(4,5,2,3) cb pools_okD(5) [OF q(1)] refl q(5)] unfolding pu by blast+
  have k: "fa_data_symbols b = fh_data_symbols h" using b(3) by (simp add: slot_matches_def)
  have kt: "unat (fh_data_symbols h) \<le> unat (fa_total_symbols b)" "unat (fa_total_symbols b) \<le> unat (fa_capacity_symbols b)"
    using wf nz k storageD(4) [OF st bs] by (simp_all add: slot_wf_def word_le_nat_alt)
  have all': "\<forall>j < unat (fh_data_symbols h). fst (received_symbol b j)" using all b(8,9) kt(1) by auto
  have "{..<unat (fh_data_symbols h)} \<subseteq> {j. j < unat (fa_capacity_symbols b) \<and> the (fa_received_mask b) ! j}"
    using all' kt by (auto simp: received_symbol_def)
  then have "unat (fh_data_symbols h) \<le> received_count b"
    unfolding received_count_def using card_mono [of "{j. j < unat (fa_capacity_symbols b) \<and> the (fa_received_mask b) ! j}" "{..<unat (fh_data_symbols h)}"]
    by simp
  then have c: "fa_received_count b \<ge> fa_data_symbols b" using wf nz k by (simp add: slot_wf_def word_le_nat_alt)
  have "receive_into env track gen h symbol slot rx = complete_object env track gen h slot (put_slot rx slot b)"
    using d(11) w b(1) c i by (simp add: receive_into_def not_le [symmetric] del: not_le)
  moreover have "\<forall>i < unat (fh_data_symbols h). fst (received_symbol (slot_of (put_slot rx slot b) slot) i)" using all' sv(2) by simp
  ultimately show ?thesis using complete_object_delivers [OF e n sv(1) new _ so] delivers_trans [OF sv(3)] by metis
qed

end
