(* ===== verification/Runs.thy ===== *)
theory Runs
  imports Delivery
begin

text \<open>
  The handlers of \<open>Receive\<close> against the invariant of \<open>Delivery\<close>: a datagram from its first check
  to the delivery, the tick with its timeouts and acknowledgements, and a checkpoint. \<open>receiver_run\<close>
  is the reachability of receiver states over these steps.
\<close>

section \<open>Datagrams\<close>

lemma queue_missing_same:
  "same_history gap (snd (queue_missing_objects now gap g f c)) \<and>
   og_recovery_windows (snd (queue_missing_objects now gap g f c)) = og_recovery_windows gap"
  by (simp add: queue_missing_objects_def Let_def same_history_def)

lemma observe_object_same:
  "same_history gap (observe_object now g ob gap) \<and> og_recovery_windows (observe_object now g ob gap) = og_recovery_windows gap"
  using queue_missing_same [of gap "int now" g "og_last_seen gap + 1" "ob - (og_last_seen gap + 1)"]
  by (simp add: observe_object_def Let_def same_history_def)

lemma gap_inv_observe: "gap_inv gap \<Longrightarrow> gap_inv (observe_object now g ob gap)"
  using observe_object_same [of gap now g ob] gap_inv_retired [of gap "observe_object now g ob gap"] by simp

lemma put_gap_ok:
  assumes ok: "rx_inv cf ds n rx" and s: "tb_states (rx_table rx) a = Some s"
    and g: "gap_inv gap" "hist_ok gap (delivered_objects ds a (ss_generation s))"
  shows "rx_inv cf ds n (put_gap rx a gap)"
  using ok put_gap_table [OF rx_invD(3) [OF ok] s g] by (simp add: rx_inv_def)

lemma put_gap_under: "under b gen (put_gap rx a gap) = under b gen rx"
  by (auto simp: under_def put_object_gap_states)

lemma receive_symbol_ok:
  assumes e: "env_ok cf env" and n: "n + 2 * cf_calls cf < 2 ^ 64" and ok: "rx_inv cf ds n rx"
    and s: "tb_states (rx_table rx) (fh_alias h) = Some state"
    and h: "header_wf h" "genuine (cf_sources cf) h symbol" "length symbol = unat (fh_symbol_size h)"
  shows "stepped cf ds (n + 2 * cf_calls cf) (fh_alias h, ss_generation state, fh_group_id h, fh_object_id h) rx
    (receive_symbol env track state h symbol rx)"
proof -
  let ?k = "(fh_alias h, ss_generation state, fh_group_id h, fh_object_id h)" and ?a = "fh_alias h"
  let ?p = "transport_assembler_observe_receive (ev_now_ms env) (rx_pool rx) (unat (fh_symbol_size h))"
  define rx0 where "rx0 = rx\<lparr>rx_pool := ?p\<rparr>"
  note d = rx_invD [OF ok]
  note ss = observe_same_slots(1) [of "rx_pool rx" "ev_now_ms env" "unat (fh_symbol_size h)"]
    observe_same_slots(2) [of "ev_now_ms env" "rx_pool rx" "unat (fh_symbol_size h)"]
  have ok0: "rx_inv cf ds n rx0" using ok by (simp add: rx_inv_def rx0_def same_slots_pools(1) [OF ss(1)] ss(2))
  have rep0: "reports [] rx rx0" by (simp add: reports_same rx0_def)
  have t0: "rx_table rx0 = rx_table rx" "rx_completed rx0 = rx_completed rx" by (simp_all add: rx0_def)
  obtain c where c: "completed_find (rx_completed rx) ?a (ss_generation state) (fh_group_id h) (fh_object_id h) = Some c"
    "c \<noteq> None \<longleftrightarrow> ?k \<in> set (last_completions (map fst ds))" using completed_find_ok [OF d(4)] by blast
  have st: "gap_inv (ss_object_gap state)" "hist_ok (ss_object_gap state) (delivered_objects ds ?a (ss_generation state))"
    using table_okD(6) [OF d(3) s] by (simp_all add: state_ok_def)
  let ?dup = "c \<noteq> None \<or> is_rateless_data track \<and> object_was_delivered (ss_object_gap state) (fh_object_id h)"
  show ?thesis
  proof (cases ?dup)
    case True
    then have "receive_symbol env track state h symbol rx = Some (count_duplicate rx0)"
      using c(1) by (auto simp: receive_symbol_def rx0_def [symmetric] t0 Let_def)
    moreover have "rx_inv cf ds (n + 2 * cf_calls cf) (count_duplicate rx0)"
      by (rule rx_inv_mono [of cf ds n]) (use ok0 in \<open>simp_all add: rx_inv_def count_duplicate_def\<close>)
    moreover have "reports [] rx (count_duplicate rx0)" by (simp add: reports_same rx0_def count_duplicate_def)
    ultimately show ?thesis by (simp add: stepped_none)
  next
    case False
    have new: "?k \<notin> set (last_completions (map fst ds))" "is_rateless_data track \<longrightarrow> fh_object_id h \<notin> delivered_objects ds ?a (ss_generation state)"
      using False c(2) hist_query(2) [OF st(2)] by blast+
    let ?gap = "observe_object (ev_now_ms env) (fh_group_id h) (fh_object_id h) (ss_object_gap state)"
    define rx1 where "rx1 = (if is_rateless_data track then put_gap rx0 ?a ?gap else rx0)"
    have "rx_inv cf ds n (put_gap rx0 ?a ?gap)"
      using put_gap_ok [OF ok0 _ gap_inv_observe [OF st(1)]] s hist_same [OF _ st(2)] observe_object_same by (simp add: t0)
    then have ok1: "rx_inv cf ds n rx1" using ok0 by (simp add: rx1_def)
    have u1: "under ?a (ss_generation state) rx1" using s by (auto simp: rx1_def put_gap_under) (auto simp: under_def t0)
    have rep1: "reports [] rx rx1" by (simp add: reports_same rx1_def rx0_def)
    note p1 = pools_okD(1) [OF rx_invD(1) [OF ok1]]
    obtain found where f: "transport_find_assembler (rx_pool rx1) ?a (fh_group_id h) (fh_object_id h) = Some found"
      "case found of None \<Rightarrow> \<forall>i < HARD_MAX_ASSEMBLERS. pool_live (rx_pool rx1) i \<longrightarrow> pool_key (rx_pool rx1) i \<noteq> (?a, fh_group_id h, fh_object_id h)
       | Some i \<Rightarrow> i < HARD_MAX_ASSEMBLERS \<and> pool_live (rx_pool rx1) i \<and> pool_key (rx_pool rx1) i = (?a, fh_group_id h, fh_object_id h)"
      using find_assembler_ok [OF p1] by blast
    have head: "receive_symbol env track state h symbol rx = (case found of
            Some slot \<Rightarrow>
              if fa_symbol_size (slot_of rx1 slot) \<noteq> fh_symbol_size h \<or> fa_data_symbols (slot_of rx1 slot) \<noteq> fh_data_symbols h \<or>
                 fa_original_size (slot_of rx1 slot) \<noteq> fh_original_size h
              then Some (count_malformed rx1)
              else receive_into env track (ss_generation state) h symbol slot rx1
          | None \<Rightarrow> do {
              (claimed, rx) \<leftarrow> claim_slot env h (ss_generation state) rx1;
              case claimed of
                None \<Rightarrow> Some rx
              | Some slot \<Rightarrow> receive_into env track (ss_generation state) h symbol slot rx })"
      using c(1) False f(1) unfolding receive_symbol_def Let_def rx0_def [symmetric] t0 rx1_def [symmetric] by (auto split: option.split)
    have le: "n + cf_calls cf \<le> n + 2 * cf_calls cf" by simp
    show ?thesis
    proof (cases found)
      case (Some slot)
      then have sl: "slot < HARD_MAX_ASSEMBLERS" "pool_live (rx_pool rx1) slot"
        "fa_track_id (slot_of rx1 slot) = ?a" "fa_group_id (slot_of rx1 slot) = fh_group_id h" "fa_object_id (slot_of rx1 slot) = fh_object_id h"
        using f(2) by (simp_all add: pool_key_def Let_def)
      have nz: "fa_total_symbols (slot_of rx1 slot) \<noteq> 0" using pools_okD(3) [OF rx_invD(1) [OF ok1] sl(1,2)] .
      show ?thesis
      proof (cases "fa_symbol_size (slot_of rx1 slot) \<noteq> fh_symbol_size h \<or> fa_data_symbols (slot_of rx1 slot) \<noteq> fh_data_symbols h \<or>
                 fa_original_size (slot_of rx1 slot) \<noteq> fh_original_size h")
        case True
        then have "receive_symbol env track state h symbol rx = Some (count_malformed rx1)" using head Some by simp
        moreover have "rx_inv cf ds (n + 2 * cf_calls cf) (count_malformed rx1)"
          by (rule rx_inv_mono [of cf ds n]) (use ok1 in \<open>simp_all add: rx_inv_def count_malformed_def\<close>)
        moreover have "reports [] rx (count_malformed rx1)" using rep1 by (simp add: reports_def count_malformed_def)
        ultimately show ?thesis by (simp add: stepped_none)
      next
        case m: False
        then have sv: "serving cf ds n h (ss_generation state) slot rx1" using sl nz ok1 u1 by (simp add: serving_def slot_matches_def)
        have n1: "n + cf_calls cf < 2 ^ 64" using n by simp
        have st: "stepped cf ds (n + cf_calls cf) ?k rx (receive_into env track (ss_generation state) h symbol slot rx1)"
          by (rule stepped_trans [OF rep1 receive_into_ok [OF e n1 sv h new]])
        have "receive_symbol env track state h symbol rx = receive_into env track (ss_generation state) h symbol slot rx1"
          using head Some m by simp
        then show ?thesis using st rx_inv_mono [OF _ le] unfolding stepped_def by metis
      qed
    next
      case None
      then have fresh: "fresh_key ?a (fh_group_id h) (fh_object_id h) (rx_pool rx1)" using f(2) by (simp add: fresh_key_def)
      have n1: "n + cf_calls cf < 2 ^ 64" and n2: "n + cf_calls cf + cf_calls cf < 2 ^ 64" using n by simp_all
      have gh: "genuine_header (cf_sources cf) h" using h(2) by (simp add: genuine_def)
      obtain claimed rx2 where cl: "claim_slot env h (ss_generation state) rx1 = Some (claimed, rx2)" "rx_inv cf ds (n + cf_calls cf) rx2"
        "calm rx1 rx2" "\<forall>slot. claimed = Some slot \<longrightarrow> slot < HARD_MAX_ASSEMBLERS \<and> pool_live (rx_pool rx2) slot \<and>
           slot_matches h (slot_of rx2 slot) \<and> under ?a (ss_generation state) rx2"
        using claim_slot_ok [OF e n1 ok1 u1 h(1) gh fresh] by blast
      have rep2: "reports [] rx rx2" using reports_trans [OF rep1] cl(3) by (fastforce simp: calm_def)
      show ?thesis
      proof (cases claimed)
        case None
        then have "receive_symbol env track state h symbol rx = Some rx2" using head cl(1) \<open>found = None\<close> by simp
        then show ?thesis using stepped_none [OF rx_inv_mono [OF cl(2) le] rep2] by simp
      next
        case (Some slot)
        then have sv: "serving cf ds (n + cf_calls cf) h (ss_generation state) slot rx2" using cl(2,4) by (simp add: serving_def)
        have "receive_symbol env track state h symbol rx = receive_into env track (ss_generation state) h symbol slot rx2"
          using head cl(1) \<open>found = None\<close> Some by simp
        then show ?thesis using stepped_trans [OF rep2 receive_into_ok [OF e n2 sv h new]] by (simp add: mult_2 add.assoc)
      qed
    qed
  qed
qed

lemma fec_header_wf:
  assumes ok: "fec_header_ok m h len"
  shows "header_wf h" "len = WIRE_FEC_HEADER_SIZE + unat (fh_symbol_size h)"
proof -
  have f: "fh_total_symbols h \<noteq> 0" "fh_total_symbols h \<le> 1024" "fh_symbol_size h \<noteq> 0" "fh_symbol_size h \<le> 1500"
    "fh_data_symbols h \<noteq> 0" "fh_data_symbols h \<le> fh_total_symbols h" "fh_symbol_index h < fh_total_symbols h"
    "fh_original_size h \<le> ucast (fh_data_symbols h) * ucast (fh_symbol_size h)" "fh_original_size h \<noteq> 0"
    "len = WIRE_FEC_HEADER_SIZE + unat (fh_symbol_size h)" using ok by (simp_all add: fec_header_ok_def not_less not_le)
  have "unat (fh_data_symbols h) \<le> unat (1024 :: u16)" "unat (fh_symbol_size h) \<le> unat (1500 :: u16)"
    using f(2,4,6) order_trans word_le_nat_alt by blast+
  then have b: "unat (fh_data_symbols h) \<le> 1024" "unat (fh_symbol_size h) \<le> 1500" by simp_all
  have "unat (fh_data_symbols h) * unat (fh_symbol_size h) \<le> 1024 * 1500" by (rule mult_le_mono [OF b])
  moreover have uc: "unat (ucast w :: u32) = unat w" for w :: u16
    using unsigned_less [where 'a = nat, of w] by (simp add: unsigned_ucast_eq take_bit_nat_eq_self)
  ultimately have "unat (ucast (fh_data_symbols h) * ucast (fh_symbol_size h) :: u32) = unat (fh_data_symbols h) * unat (fh_symbol_size h)"
    by (simp add: unat_word_ariths uc)
  then show "header_wf h" using f by (simp add: header_wf_def word_le_nat_alt [of "fh_original_size h"] word_neq_0_conv)
  show "len = WIRE_FEC_HEADER_SIZE + unat (fh_symbol_size h)" by (fact f(10))
qed

definition genuine_datagram :: "sources \<Rightarrow> bytes \<Rightarrow> bool" where
  "genuine_datagram G payload \<longleftrightarrow> (case qlinq_wire_decode_fec_header payload of Inl _ \<Rightarrow> True
     | Inr h \<Rightarrow> genuine G h (drop WIRE_FEC_HEADER_SIZE payload))"

text \<open>The name of what a datagram may deliver: its object, under the present subscription to its alias.\<close>

definition datagram_key :: "'s receiver \<Rightarrow> bytes \<Rightarrow> completion" where
  "datagram_key rx payload = (case qlinq_wire_decode_fec_header payload of Inl _ \<Rightarrow> (0, 0, 0, 0)
     | Inr h \<Rightarrow> (fh_alias h, case tb_states (rx_table rx) (fh_alias h) of None \<Rightarrow> 0 | Some s \<Rightarrow> ss_generation s,
         fh_group_id h, fh_object_id h))"

text \<open>A change of what the invariant does not look at.\<close>

definition untouched :: "'s receiver \<Rightarrow> 's receiver \<Rightarrow> bool" where
  "untouched rx rx' \<longleftrightarrow> rx_table rx' = rx_table rx \<and> rx_pool rx' = rx_pool rx \<and> rx_memory rx' = rx_memory rx \<and>
     rx_completed rx' = rx_completed rx \<and> rx_fec_cache rx' = rx_fec_cache rx \<and> rx_events rx' = rx_events rx"

lemma untouched_inv: "untouched rx rx' \<Longrightarrow> rx_inv cf ds n rx' = rx_inv cf ds n rx"
  by (simp add: untouched_def rx_inv_def)

lemma untouched_reports: "untouched rx rx' \<Longrightarrow> reports [] rx rx'"
  by (simp add: untouched_def reports_same)

lemma untouched_trans: "untouched rx rx1 \<Longrightarrow> untouched rx1 rx2 \<Longrightarrow> untouched rx rx2"
  by (simp add: untouched_def)

lemma untouched_simps [simp]:
  "untouched rx rx" "untouched rx (count_datagram rx)" "untouched rx (count_malformed rx)"
  "untouched rx (on_telemetry env payload rx)" "untouched rx (send_telemetry_reply env h rx)"
  "untouched rx (rx\<lparr>rx_world := w, rx_stats := st\<rparr>)"
  by (simp_all add: untouched_def count_datagram_def count_malformed_def on_telemetry_def send_telemetry_reply_def
      transport_queue_datagram_def Let_def split: telemetry_result.split sum.split)

lemma untouched_stepped: "rx_inv cf ds n rx \<Longrightarrow> n \<le> n' \<Longrightarrow> untouched rx rx' \<Longrightarrow> stepped cf ds n' key rx (Some rx')"
  using stepped_none untouched_inv untouched_reports rx_inv_mono by blast

lemma on_receive_datagram_frame_ok:
  assumes e: "env_ok cf env" and n: "n + 2 * cf_calls cf < 2 ^ 64" and ok: "rx_inv cf ds n rx"
    and g: "genuine_datagram (cf_sources cf) payload"
  shows "stepped cf ds (n + 2 * cf_calls cf) (datagram_key rx payload) rx (on_receive_datagram_frame env payload rx)"
proof -
  let ?rx = "count_datagram rx" and ?n = "n + 2 * cf_calls cf"
  have stop: "stepped cf ds ?n k rx (Some rx')" if "untouched ?rx rx'" for k rx'
    using untouched_stepped [OF ok _ untouched_trans [OF _ that]] by simp
  note body = on_receive_datagram_frame_def [of env payload rx, unfolded Let_def]
  show ?thesis
  proof (cases "ev_authenticated env")
    case False
    then show ?thesis using stop by (simp add: body)
  next
    case au: True
    show ?thesis
    proof (cases "qlinq_wire_decode_datagram_type payload")
      case (Inl x)
      then show ?thesis using au stop by (simp add: body)
    next
      case ty: (Inr type)
      show ?thesis
      proof (cases "type = WIRE_DATAGRAM_TELEMETRY")
        case True
        then show ?thesis using au ty stop by (simp add: body)
      next
        case nt: False
        show ?thesis
        proof (cases "qlinq_wire_decode_fec_header payload")
          case (Inl x)
          then show ?thesis using au ty nt stop by (simp add: body)
        next
          case h: (Inr h)
          show ?thesis
          proof (cases "transport_subscriptions_find_by_alias (rx_table ?rx) (fh_alias h)")
            case None
            then show ?thesis using au ty nt h stop by (simp add: body)
          next
            case tr: (Some track)
            let ?rx1 = "send_telemetry_reply env h ?rx"
            have u1: "untouched rx ?rx1" by (rule untouched_trans [of _ ?rx]) simp_all
            show ?thesis
            proof (cases "ti_flags track AND MOQ_TRACK_FLAG_RELIABLE \<noteq> 0")
              case True
              then show ?thesis using au ty nt h tr stop by (simp add: body)
            next
              case nr: False
              show ?thesis
              proof (cases "fec_header_ok (ev_max_fec_object_size env) h (length payload)")
                case False
                then show ?thesis using au ty nt h tr nr stop untouched_trans [of ?rx ?rx1] by (simp add: body)
              next
                case ho: True
                note wf = fec_header_wf [OF ho]
                show ?thesis
                proof (cases "tb_states (rx_table ?rx1) (fh_alias h)")
                  case None
                  then show ?thesis using au ty nt h tr nr ho stop by (simp add: body transport_subscriptions_get_state_def)
                next
                  case (Some state)
                  have "on_receive_datagram_frame env payload rx = receive_symbol env track state h (drop WIRE_FEC_HEADER_SIZE payload) ?rx1"
                    using au ty nt h tr nr ho Some by (simp add: body transport_subscriptions_get_state_def)
                  moreover have "datagram_key rx payload = (fh_alias h, ss_generation state, fh_group_id h, fh_object_id h)"
                    using Some u1 h by (simp add: datagram_key_def untouched_def)
                  moreover have "stepped cf ds ?n (fh_alias h, ss_generation state, fh_group_id h, fh_object_id h) ?rx1
                      (receive_symbol env track state h (drop WIRE_FEC_HEADER_SIZE payload) ?rx1)"
                    by (rule receive_symbol_ok [OF e n _ Some wf(1)]) (use ok untouched_inv [OF u1] g h wf(2) in \<open>simp_all add: genuine_datagram_def\<close>)
                  ultimately show ?thesis using stepped_trans [OF untouched_reports [OF u1]] by simp
                qed
              qed
            qed
          qed
        qed
      qed
    qed
  qed
qed

section \<open>Timeouts, acknowledgements and checkpoints\<close>

lemma next_assembler_bounds:
  assumes "pool_ok p"
  shows "transport_next_assembler p i \<ge> i \<or> transport_next_assembler p i = HARD_MAX_ASSEMBLERS" "transport_next_assembler p i \<le> HARD_MAX_ASSEMBLERS"
  using next_assembler_ok [OF assms, of i] by (auto simp: Let_def)

lemma expire_step_ok:
  assumes e: "env_ok cf env" and n: "n + cf_calls cf < 2 ^ 64" and ok: "rx_inv cf ds n rx" and i: "i < HARD_MAX_ASSEMBLERS"
  shows "\<exists>rx'. (let a = slot_of rx i in
          (if fa_total_symbols a = 0 then Some rx
           else if int (ev_now_ms env) - fa_last_activity_time_ms a \<ge> int (unat (ev_assembler_timeout_ms env))
           then Option.bind
             (case transport_subscriptions_find_by_alias (rx_table rx) (fa_track_id a) of
                None \<Rightarrow> Some rx
              | Some track \<Rightarrow> transport_emit_event env (Event_object_lost track (fa_group_id a) (fa_object_id a)) (count_lost rx))
             (release_slot i)
           else Some rx)) = Some rx' \<and> rx_inv cf ds (n + cf_calls cf) rx' \<and> quiet rx rx'"
proof -
  let ?a = "slot_of rx i"
  show ?thesis
  proof (cases "fa_total_symbols ?a \<noteq> 0 \<and> int (ev_now_ms env) - fa_last_activity_time_ms ?a \<ge> int (unat (ev_assembler_timeout_ms env))")
    case False
    then show ?thesis using rx_inv_mono [OF ok, of "n + cf_calls cf"] by (auto simp: Let_def)
  next
    case True
    have "\<exists>rx1. (case transport_subscriptions_find_by_alias (rx_table rx) (fa_track_id ?a) of
                None \<Rightarrow> Some rx
              | Some track \<Rightarrow> transport_emit_event env (Event_object_lost track (fa_group_id ?a) (fa_object_id ?a)) (count_lost rx)) = Some rx1 \<and>
         rx_inv cf ds (n + cf_calls cf) rx1 \<and> quiet rx rx1"
    proof (cases "transport_subscriptions_find_by_alias (rx_table rx) (fa_track_id ?a)")
      case None
      then show ?thesis using rx_inv_mono [OF ok, of "n + cf_calls cf"] by simp
    next
      case (Some track)
      then show ?thesis using emit_lost_ok [OF e n ok, of track "fa_group_id ?a" "fa_object_id ?a"] by simp
    qed
    then obtain rx1 where 1: "(case transport_subscriptions_find_by_alias (rx_table rx) (fa_track_id ?a) of
                None \<Rightarrow> Some rx
              | Some track \<Rightarrow> transport_emit_event env (Event_object_lost track (fa_group_id ?a) (fa_object_id ?a)) (count_lost rx)) = Some rx1"
         "rx_inv cf ds (n + cf_calls cf) rx1" "quiet rx rx1" by blast
    obtain m p where 2: "release_slot i rx1 = Some (rx1\<lparr>rx_memory := m, rx_pool := p\<rparr>)" "pools_ok (cf_sources cf) (cf_others cf) m p"
      "pool_le p (rx_pool rx1)" using release_slot_ok [OF rx_invD(1) [OF 1(2)] i] by metis
    have q: "quiet rx1 (rx1\<lparr>rx_memory := m, rx_pool := p\<rparr>)" using 2(3) by (simp add: quiet_same)
    have "rx_inv cf ds (n + cf_calls cf) (rx1\<lparr>rx_memory := m, rx_pool := p\<rparr>)"
      by (rule rx_inv_quiet [OF 1(2) q]) (use 2(2) rx_invD(3) [OF 1(2)] in simp_all)
    then show ?thesis using True 1(1) 2(1) quiet_trans [OF 1(3) q] by (simp add: Let_def)
  qed
qed

lemma expire_assemblers_ok:
  assumes e: "env_ok cf env"
  shows "rx_inv cf ds n rx \<Longrightarrow> n + (cf_max cf - i) * cf_calls cf < 2 ^ 64 \<Longrightarrow>
    \<exists>rx'. expire_assemblers env i rx = Some rx' \<and> rx_inv cf ds (n + (cf_max cf - i) * cf_calls cf) rx' \<and> quiet rx rx'"
proof (induction "cf_max cf - i" arbitrary: i n rx rule: less_induct)
  case less
  have M: "ev_max_assemblers env = cf_max cf" "cf_max cf \<le> HARD_MAX_ASSEMBLERS" using e by (simp_all add: env_ok_def)
  show ?case
  proof (cases "i \<ge> cf_max cf")
    case True
    then show ?thesis using less.prems(1) by (simp add: expire_assemblers.simps [of env i] M(1))
  next
    case False
    then have sp: "cf_max cf - i = Suc (cf_max cf - (i + 1))" by simp
    have n1: "n + cf_calls cf < 2 ^ 64" using less.prems(2) by (simp add: sp)
    have i: "i < HARD_MAX_ASSEMBLERS" using False M(2) by simp
    obtain rx1 where 1: "(let a = slot_of rx i in
          (if fa_total_symbols a = 0 then Some rx
           else if int (ev_now_ms env) - fa_last_activity_time_ms a \<ge> int (unat (ev_assembler_timeout_ms env))
           then Option.bind
             (case transport_subscriptions_find_by_alias (rx_table rx) (fa_track_id a) of
                None \<Rightarrow> Some rx
              | Some track \<Rightarrow> transport_emit_event env (Event_object_lost track (fa_group_id a) (fa_object_id a)) (count_lost rx))
             (release_slot i)
           else Some rx)) = Some rx1" "rx_inv cf ds (n + cf_calls cf) rx1" "quiet rx rx1"
      using expire_step_ok [OF e n1 less.prems(1) i] by blast
    let ?j = "transport_next_assembler (rx_pool rx1) (i + 1)"
    have p1: "pool_ok (rx_pool rx1)" using pools_okD(1) [OF rx_invD(1) [OF 1(2)]] .
    have j: "cf_max cf - ?j \<le> cf_max cf - (i + 1)"
      using next_assembler_bounds(1) [OF p1, of "i + 1"] M(2) by auto
    have "(cf_max cf - ?j) * cf_calls cf \<le> (cf_max cf - (i + 1)) * cf_calls cf" using j by (rule mult_le_mono1)
    then have le: "n + cf_calls cf + (cf_max cf - ?j) * cf_calls cf \<le> n + (cf_max cf - i) * cf_calls cf" by (simp add: sp)
    have n2: "n + cf_calls cf + (cf_max cf - ?j) * cf_calls cf < 2 ^ 64" using le less.prems(2) by linarith
    have "cf_max cf - ?j < cf_max cf - i" using j sp by simp
    from less.hyps [OF this 1(2) n2] obtain rx2 where 2: "expire_assemblers env ?j rx1 = Some rx2"
      "rx_inv cf ds (n + cf_calls cf + (cf_max cf - ?j) * cf_calls cf) rx2" "quiet rx1 rx2" by blast
    have "expire_assemblers env i rx = Some rx2"
      using False 1(1) 2(1) by (simp add: expire_assemblers.simps [of env i] M(1) Let_def)
    then show ?thesis using rx_inv_mono [OF 2(2) le] quiet_trans [OF 1(3) 2(3)] by blast
  qed
qed

lemma flush_track_ok:
  assumes max: "M \<le> HARD_MAX_ASSEMBLERS" and t: "table_ok ds n tb" and p: "pools_ok G others (rc_memory c) (rc_pool c)"
    and s: "sub \<in> set (tb_entries tb)"
  shows "\<exists>tb' c'. flush_track env M sub (Some (tb, c)) = Some (tb', c') \<and> table_ok ds n tb' \<and> tb_entries tb' = tb_entries tb \<and>
    pools_ok G others (rc_memory c') (rc_pool c') \<and> pool_le (rc_pool c') (rc_pool c)"
proof (cases "ts_active sub \<and> ti_type (ts_track_id sub) = ucast MOQ_TRACK_DATA \<and> ti_flags (ts_track_id sub) AND MOQ_TRACK_FLAG_FEC_RATELESS \<noteq> 0")
  case False
  then show ?thesis using t p by (auto simp: flush_track_def)
next
  case True
  let ?a = "ts_alias sub"
  have "\<exists>i < length (tb_entries tb). ts_active (tb_entries tb ! i) \<and> ts_alias (tb_entries tb ! i) = ?a"
    using s True by (auto simp: in_set_conv_nth)
  then have "tb_states tb ?a \<noteq> None" using table_okD(1) [OF t] unfolding subs_inv_def by blast
  then obtain st where st: "tb_states tb ?a = Some st" by blast
  have so: "gap_inv (ss_object_gap st)" "hist_ok (ss_object_gap st) (delivered_objects ds ?a (ss_generation st))"
    using table_okD(6) [OF t st] by (simp_all add: state_ok_def)
  let ?c = "c\<lparr>rc_gap := ss_object_gap st\<rparr>"
  have "pools_ok G others (rc_memory ?c) (rc_pool ?c)" "gap_inv (rc_gap ?c)" using p so(1) by simp_all
  from acknowledge_conn_ok [OF max this, of env ?a] obtain ok c' where r:
      "acknowledge_completed_recovery_windows env M ?a ?c = Some (ok, c')" "same_history (ss_object_gap st) (rc_gap c')"
      "gap_inv (rc_gap c')" "pools_ok G others (rc_memory c') (rc_pool c')" "pool_le (rc_pool c') (rc_pool c)" by auto
  have "flush_track env M sub (Some (tb, c)) = Some (put_object_gap tb ?a (rc_gap c'), c')"
    using True st r(1) by (simp add: flush_track_def transport_object_gap_def transport_subscriptions_get_state_def)
  moreover have "table_ok ds n (put_object_gap tb ?a (rc_gap c'))"
    using put_gap_table [OF t st r(3) hist_same [OF r(2) so(2)]] .
  ultimately show ?thesis using r(4,5) by simp
qed

lemma flush_fold_ok:
  assumes max: "M \<le> HARD_MAX_ASSEMBLERS"
  shows "set subs \<subseteq> set (tb_entries tb) \<Longrightarrow> table_ok ds n tb \<Longrightarrow> pools_ok G others (rc_memory c) (rc_pool c) \<Longrightarrow>
    \<exists>tb' c'. fold (flush_track env M) subs (Some (tb, c)) = Some (tb', c') \<and> table_ok ds n tb' \<and>
      pools_ok G others (rc_memory c') (rc_pool c') \<and> pool_le (rc_pool c') (rc_pool c)"
proof (induction subs arbitrary: tb c)
  case (Cons sub subs)
  have "sub \<in> set (tb_entries tb)" using Cons.prems(1) by simp
  from flush_track_ok [OF max Cons.prems(2,3) this, of env] obtain tb1 c1 where 1: "flush_track env M sub (Some (tb, c)) = Some (tb1, c1)"
    "table_ok ds n tb1" "tb_entries tb1 = tb_entries tb" "pools_ok G others (rc_memory c1) (rc_pool c1)" "pool_le (rc_pool c1) (rc_pool c)" by blast
  have "set subs \<subseteq> set (tb_entries tb1)" using Cons.prems(1) 1(3) by simp
  from Cons.IH [OF this 1(2,4)] obtain tb2 c2 where 2: "fold (flush_track env M) subs (Some (tb1, c1)) = Some (tb2, c2)" "table_ok ds n tb2"
    "pools_ok G others (rc_memory c2) (rc_pool c2)" "pool_le (rc_pool c2) (rc_pool c1)" by blast
  then show ?case using 1(1) pool_le_trans [OF 2(4) 1(5)] by simp
qed simp

lemma tick_receiver_ok:
  assumes e: "env_ok cf env" and n: "n + cf_max cf * cf_calls cf < 2 ^ 64" and ok: "rx_inv cf ds n rx"
  shows "\<exists>rx'. tick_receiver env rx = Some rx' \<and> rx_inv cf ds (n + cf_max cf * cf_calls cf) rx' \<and> quiet rx rx'"
proof (cases "ev_closing env (rx_world rx)")
  case True
  then show ?thesis using rx_inv_mono [OF ok, of "n + cf_max cf * cf_calls cf"] by (simp add: tick_receiver_def)
next
  case False
  note d = rx_invD [OF ok]
  have M: "ev_max_assemblers env \<le> HARD_MAX_ASSEMBLERS" using e by (simp add: env_ok_def)
  let ?c = "recovery_part rx zero_gap"
  have pc: "rc_memory ?c = rx_memory rx" "rc_pool ?c = rx_pool rx" by (simp_all add: recovery_part_def)
  have "\<exists>tb c. transport_protocol_flush_recovery_acks (ev_authenticated env) (ev_ack env) (ev_max_assemblers env) (rx_table rx) ?c = Some (tb, c) \<and>
    table_ok ds n tb \<and> pools_ok (cf_sources cf) (cf_others cf) (rc_memory c) (rc_pool c) \<and> pool_le (rc_pool c) (rx_pool rx)"
  proof (cases "ev_authenticated env")
    case False
    then show ?thesis using d(1,3) by (simp add: transport_protocol_flush_recovery_acks_def pc)
  next
    case True
    have "set (tb_entries (rx_table rx)) \<subseteq> set (tb_entries (rx_table rx))" "pools_ok (cf_sources cf) (cf_others cf) (rc_memory ?c) (rc_pool ?c)"
      using d(1) by (simp_all add: pc)
    from flush_fold_ok [OF M this(1) d(3) this(2), of "ev_ack env"] show ?thesis
      using True by (simp add: transport_protocol_flush_recovery_acks_def pc)
  qed
  then obtain tb c where f: "transport_protocol_flush_recovery_acks (ev_authenticated env) (ev_ack env) (ev_max_assemblers env) (rx_table rx) ?c = Some (tb, c)"
    "table_ok ds n tb" "pools_ok (cf_sources cf) (cf_others cf) (rc_memory c) (rc_pool c)" "pool_le (rc_pool c) (rx_pool rx)" by blast
  let ?rx1 = "(with_recovery rx c)\<lparr>rx_table := tb\<rparr>"
  have q1: "quiet rx ?rx1" using f(4) by (simp add: quiet_same)
  have ok1: "rx_inv cf ds n ?rx1" by (rule rx_inv_quiet [OF ok q1]) (use f(2,3) in simp_all)
  let ?i = "transport_next_assembler (rx_pool ?rx1) 0"
  have le: "(cf_max cf - ?i) * cf_calls cf \<le> cf_max cf * cf_calls cf" by (simp add: mult_le_mono1)
  then have "n + (cf_max cf - ?i) * cf_calls cf < 2 ^ 64" using n by linarith
  from expire_assemblers_ok [OF e ok1 this] obtain rx' where r: "expire_assemblers env ?i ?rx1 = Some rx'"
    "rx_inv cf ds (n + (cf_max cf - ?i) * cf_calls cf) rx'" "quiet ?rx1 rx'" by blast
  have le': "n + (cf_max cf - ?i) * cf_calls cf \<le> n + cf_max cf * cf_calls cf" using le by simp
  have "tick_receiver env rx = Some rx'" using False f(1) r(1) by (simp add: tick_receiver_def Let_def)
  then show ?thesis using rx_inv_mono [OF r(2) le'] quiet_trans [OF q1 r(3)] by blast
qed

text \<open>A new window lies above the last checkpoint, hence above all active windows.\<close>

lemma gap_inv_new_window:
  assumes g: "gap_inv gap" and fl: "rw_active w \<longrightarrow> rw_first_object_id w \<le> rw_final_object_id w"
    and w: "rw_active w \<longrightarrow> rw_final_object_id w = l"
    and new: "rw_active w \<longrightarrow> og_checkpoint_initialized gap \<longrightarrow> og_last_checkpoint_object_id gap < rw_first_object_id w"
    and above: "og_checkpoint_initialized gap \<longrightarrow> og_last_checkpoint_object_id gap \<le> l"
  shows "gap_inv (gap\<lparr>og_checkpoint_initialized := True, og_last_checkpoint_object_id := l,
      og_recovery_windows := (og_recovery_windows gap)[i := w]\<rparr>)"
proof -
  let ?ws = "og_recovery_windows gap"
  have act: "v = w \<or> v \<in> set ?ws" if "v \<in> set (?ws[i := w])" for v
    using that set_update_subset_insert [of ?ws i w] by blast
  have old: "og_checkpoint_initialized gap \<and> rw_final_object_id v \<le> og_last_checkpoint_object_id gap" if "v \<in> set ?ws" "rw_active v" for v
    using g that unfolding gap_inv_def by blast
  have wo: "windows_ok ?ws" using g by (simp add: gap_inv_def)
  have sep: "rw_final_object_id v < rw_first_object_id w" if "v \<in> set ?ws" "rw_active v" "rw_active w" for v
    using old [OF that(1,2)] new that(3) le_less_trans by blast
  have "windows_ok (?ws[i := w])"
    unfolding windows_ok_def
  proof (intro conjI ballI impI)
    fix v assume v: "v \<in> set (?ws[i := w])" "rw_active v"
    show "rw_first_object_id v \<le> rw_final_object_id v"
      using act [OF v(1)] v(2) wo fl unfolding windows_ok_def by auto
    fix u assume u: "u \<in> set (?ws[i := w])" "rw_active u"
    show "v = u \<or> rw_final_object_id v < rw_first_object_id u \<or> rw_final_object_id u < rw_first_object_id v"
      using act [OF v(1)] act [OF u(1)] v(2) u(2) sep wo unfolding windows_ok_def by metis
  qed
  moreover have "rw_final_object_id v \<le> l" if v: "v \<in> set (?ws[i := w])" "rw_active v" for v
    using act [OF v(1)] v(2) w old [of v] above order_trans by blast
  ultimately show ?thesis by (simp add: gap_inv_def)
qed

lemma send_keeps: "send_checkpoint_ack env conn a g l = (ok, conn') \<Longrightarrow> rc_gap conn' = rc_gap conn"
  by (auto simp: send_checkpoint_ack_def split: prod.splits bool.splits if_splits)

lemma checkpoint_conn_ok:
  assumes max: "M \<le> HARD_MAX_ASSEMBLERS" and p: "pools_ok G others (rc_memory conn) (rc_pool conn)"
    and g: "gap_inv (rc_gap conn)" "hist_ok (rc_gap conn) D"
  shows "\<exists>res conn'. receive_recovery_checkpoint env M now conn a gr f l acknowledge = Some (res, conn') \<and>
    gap_inv (rc_gap conn') \<and> hist_ok (rc_gap conn') D \<and> pools_ok G others (rc_memory conn') (rc_pool conn') \<and>
    pool_le (rc_pool conn') (rc_pool conn)"
proof -
  let ?gap = "rc_gap conn" and ?ws = "og_recovery_windows (rc_gap conn)"
  note def = receive_recovery_checkpoint_def [of env M now conn a gr f l acknowledge, unfolded Let_def]
  let ?bad = "f > l \<or> l - f \<ge> 32" and ?known = "find_recovery_window ?gap gr f l \<noteq> None"
  let ?old = "og_checkpoint_initialized ?gap \<and> l \<le> og_last_checkpoint_object_id ?gap"
  let ?skip = "og_checkpoint_initialized ?gap \<and> (og_last_checkpoint_object_id ?gap = - 1 \<or> f \<noteq> og_last_checkpoint_object_id ?gap + 1)"
  have stay: ?thesis if "receive_recovery_checkpoint env M now conn a gr f l acknowledge = Some (res, conn)" for res
    using that p g by simp
  show ?thesis
  proof (cases "?bad \<or> ?known")
    case True
    then show ?thesis using stay unfolding def by (cases ?bad) auto
  next
    case ok: False
    show ?thesis
    proof (cases ?old)
      case True
      obtain res c where c: "send_checkpoint_ack env conn a gr l = (res, c)" by (cases "send_checkpoint_ack env conn a gr l")
      have "receive_recovery_checkpoint env M now conn a gr f l acknowledge = Some (if acknowledge then (res, c) else (True, conn))"
        using ok True c unfolding def by simp
      then show ?thesis using p g send_pools [OF c] send_keeps [OF c] by (cases acknowledge) auto
    next
      case no: False
      show ?thesis
      proof (cases "?skip \<or> first_index (\<lambda>w. \<not> rw_active w) ?ws = None")
        case True
        then show ?thesis using ok no stay unfolding def by (cases ?skip) auto
      next
        case go: False
        then obtain i where i: "first_index (\<lambda>w. \<not> rw_active w) ?ws = Some i" by auto
        define w0 where "w0 = \<lparr>rw_active = True, rw_group_id = gr, rw_first_object_id = f, rw_final_object_id = l,
                rw_missing_mask = missing_objects ?gap f l, rw_cursor = 0, rw_last_request_ms = now\<rparr>"
        define w where "w = (if \<not> acknowledge \<and> missing_objects ?gap f l = 0 then zero_window else w0)"
        define c1 where "c1 = conn\<lparr>rc_gap := ?gap\<lparr>og_checkpoint_initialized := True, og_last_checkpoint_object_id := l,
                og_recovery_windows := ?ws[i := w]\<rparr>\<rparr>"
        have wa: "rw_active w \<longrightarrow> rw_first_object_id w = f \<and> rw_final_object_id w = l" by (simp add: w_def w0_def)
        have last: "og_last_checkpoint_object_id ?gap < f" if "og_checkpoint_initialized ?gap"
          using that go unat_plus_one [of "og_last_checkpoint_object_id ?gap"] by (auto simp: word_less_nat_alt)
        have fl: "f \<le> l" using ok by (simp add: not_less)
        have le: "og_checkpoint_initialized ?gap \<longrightarrow> og_last_checkpoint_object_id ?gap \<le> l" using no by (auto simp: not_le)
        have "gap_inv (rc_gap c1)"
          unfolding c1_def using gap_inv_new_window [OF g(1), of w l i] wa last fl le by simp
        moreover have "hist_ok (rc_gap c1) D" using g(2) by (simp add: c1_def)
        moreover have "pools_ok G others (rc_memory c1) (rc_pool c1)" "rc_pool c1 = rc_pool conn" using p by (simp_all add: c1_def)
        ultimately have c1: "gap_inv (rc_gap c1)" "hist_ok (rc_gap c1) D" "pools_ok G others (rc_memory c1) (rc_pool c1)" "rc_pool c1 = rc_pool conn" .
        have r: "receive_recovery_checkpoint env M now conn a gr f l acknowledge =
            (if \<not> acknowledge then Some (True, c1) else acknowledge_completed_recovery_windows env M a c1)"
        proof -
          have n: "\<not> ?bad" "\<not> ?known" "\<not> ?skip" using ok go by blast+
          show ?thesis unfolding def if_not_P [OF n(1)] if_not_P [OF n(2)] if_not_P [OF no] if_not_P [OF n(3)] i option.case
              w0_def [symmetric] w_def [symmetric] c1_def [symmetric] by (rule refl)
        qed
        obtain res c2 where c2: "acknowledge_completed_recovery_windows env M a c1 = Some (res, c2)" "same_history (rc_gap c1) (rc_gap c2)"
          "gap_inv (rc_gap c2)" "pools_ok G others (rc_memory c2) (rc_pool c2)" "pool_le (rc_pool c2) (rc_pool c1)"
          using acknowledge_conn_ok [OF max c1(3,1), of env a] by blast
        show ?thesis using r c1 c2 hist_same [OF c2(2) c1(2)] by (cases acknowledge) auto
      qed
    qed
  qed
qed

lemma checkpoint_receiver_ok:
  assumes e: "env_ok cf env" and ok: "rx_inv cf ds n rx"
  shows "\<exists>res rx'. checkpoint_receiver env a gr f l acknowledge rx = Some (res, rx') \<and> rx_inv cf ds n rx' \<and> quiet rx rx'"
proof (cases "tb_states (rx_table rx) a")
  case None
  then show ?thesis using ok by (auto simp: checkpoint_receiver_def transport_object_gap_def transport_subscriptions_get_state_def)
next
  case (Some s)
  note d = rx_invD [OF ok]
  have M: "ev_max_assemblers env \<le> HARD_MAX_ASSEMBLERS" using e by (simp add: env_ok_def)
  have so: "gap_inv (ss_object_gap s)" "hist_ok (ss_object_gap s) (delivered_objects ds a (ss_generation s))"
    using table_okD(6) [OF d(3) Some] by (simp_all add: state_ok_def)
  let ?c = "recovery_part rx (ss_object_gap s)"
  have "pools_ok (cf_sources cf) (cf_others cf) (rc_memory ?c) (rc_pool ?c)" "gap_inv (rc_gap ?c)"
    "hist_ok (rc_gap ?c) (delivered_objects ds a (ss_generation s))" using d(1) so by simp_all
  from checkpoint_conn_ok [OF M this, of "ev_ack env" "int (ev_now_ms env)" a gr f l acknowledge]
  obtain res c where r: "receive_recovery_checkpoint (ev_ack env) (ev_max_assemblers env) (int (ev_now_ms env)) ?c a gr f l acknowledge = Some (res, c)"
    "gap_inv (rc_gap c)" "hist_ok (rc_gap c) (delivered_objects ds a (ss_generation s))"
    "pools_ok (cf_sources cf) (cf_others cf) (rc_memory c) (rc_pool c)" "pool_le (rc_pool c) (rx_pool rx)" by auto
  let ?rx = "put_gap (with_recovery rx c) a (rc_gap c)"
  have "checkpoint_receiver env a gr f l acknowledge rx = Some (res, ?rx)"
    using Some r(1) by (simp add: checkpoint_receiver_def transport_object_gap_def transport_subscriptions_get_state_def)
  moreover have q: "quiet rx ?rx" using r(5) by (simp add: quiet_same)
  moreover have "rx_inv cf ds n ?rx" by (rule rx_inv_quiet [OF ok q]) (use put_gap_table [OF d(3) Some r(2,3)] r(4) in simp_all)
  ultimately show ?thesis by blast
qed

section \<open>Runs\<close>

text \<open>What one step delivers, read off the events: they carry the name of the datagram's object.\<close>

definition deliveries_of :: "completion \<Rightarrow> 's receiver \<Rightarrow> 's receiver \<Rightarrow> delivery list" where
  "deliveries_of key rx rx' = map (Pair key) (filter is_object_event (drop (length (rx_events rx)) (rx_events rx')))"

lemma deliveries_reported:
  assumes r: "reports (map snd new) rx rx'" and k: "\<forall>d \<in> set new. fst d = key"
  shows "deliveries_of key rx rx' = new"
proof -
  have "filter is_object_event (drop (length (rx_events rx)) (rx_events rx')) = map snd new" using r by (auto simp: reports_def)
  moreover have "map (Pair key \<circ> snd) new = new" using k by (induction new) auto
  ultimately show ?thesis by (simp add: deliveries_of_def)
qed

text \<open>
  A receiver starts with empty tables, with any limits and any state of the QUIC connection. Every
  step may have an environment of its own; \<open>n\<close> bounds the calls of the application so far.
\<close>

inductive receiver_run :: "receiver_config \<Rightarrow> nat \<Rightarrow> delivery list \<Rightarrow> 's receiver \<Rightarrow> bool" for cf where
  start: "transport_subscriptions_init True empty_table capacity = (True, rx_table rx) \<Longrightarrow> rx_pool rx = zero_pool \<Longrightarrow> am_bytes (rx_memory rx) = cf_others cf \<Longrightarrow>
     cf_others cf \<le> am_limit (rx_memory rx) \<Longrightarrow> am_limit (rx_memory rx) \<le> SIZE_MAX \<Longrightarrow>
     rx_completed rx = zero_completed \<Longrightarrow> fec_cache_ok (cf_params cf) (rx_fec_cache rx) \<Longrightarrow> rx_events rx = [] \<Longrightarrow>
     receiver_run cf 0 [] rx"
| datagram: "receiver_run cf n ds rx \<Longrightarrow> env_ok cf env \<Longrightarrow> genuine_datagram (cf_sources cf) payload \<Longrightarrow>
     n + 2 * cf_calls cf < 2 ^ 64 \<Longrightarrow> on_receive_datagram_frame env payload rx = Some rx' \<Longrightarrow>
     receiver_run cf (n + 2 * cf_calls cf) (ds @ deliveries_of (datagram_key rx payload) rx rx') rx'"
| tick: "receiver_run cf n ds rx \<Longrightarrow> env_ok cf env \<Longrightarrow> n + cf_max cf * cf_calls cf < 2 ^ 64 \<Longrightarrow>
     tick_receiver env rx = Some rx' \<Longrightarrow> receiver_run cf (n + cf_max cf * cf_calls cf) ds rx'"
| calls: "receiver_run cf n ds rx \<Longrightarrow> env_ok cf env \<Longrightarrow> n + length cs < 2 ^ 64 \<Longrightarrow> run_calls env cs rx = Some rx' \<Longrightarrow>
     receiver_run cf (n + length cs) ds rx'"
| checkpoint: "receiver_run cf n ds rx \<Longrightarrow> env_ok cf env \<Longrightarrow>
     checkpoint_receiver env a g f l acknowledge rx = Some (res, rx') \<Longrightarrow> receiver_run cf n ds rx'"

lemma start_pool: "pools_ok G others m zero_pool" if "am_bytes m = others" "others \<le> am_limit m" "am_limit m \<le> SIZE_MAX"
proof -
  have z: "ap_assemblers zero_pool ! i = zero_assembler" if "i < HARD_MAX_ASSEMBLERS" for i using that by (simp add: zero_pool_def)
  have "slots_bytes zero_pool = 0" by (simp add: slots_bytes_def zero_pool_def sum_list_triv sum_list_replicate)
  then show ?thesis using that z slot_ok_zero pool_ok_zero
    by (simp add: pools_ok_def pool_live_def) (simp add: zero_assembler_def)
qed

lemma start_table:
  assumes "transport_subscriptions_init True empty_table capacity = (True, tb)"
  shows "table_ok [] 0 tb"
proof -
  have "subs_inv tb" using init_inv [of empty_table True capacity] assms by (simp add: subs_inv_def empty_table_def)
  then show ?thesis using assms
    by (auto simp: table_ok_def table_wf_def transport_subscriptions_init_def transport_subscriptions_destroy_def
        generations_bounded_def empty_table_def split: if_splits)
qed

lemma receiver_run_inv: "receiver_run cf n ds rx \<Longrightarrow> rx_inv cf ds n rx"
proof (induction rule: receiver_run.induct)
  case (start capacity rx)
  have "ap_limit zero_pool \<le> cf_max cf" by (simp add: zero_pool_def)
  then show ?case using start start_pool [OF start(3,4,5)] start_table [OF start(1)] completed_holds_zero
    by (simp add: rx_inv_def spaced_def rateless_once_def)
next
  case (datagram n ds rx env payload rx')
  from on_receive_datagram_frame_ok [OF datagram.hyps(2,4) datagram.IH datagram.hyps(3)] obtain new where
    "rx_inv cf (ds @ new) (n + 2 * cf_calls cf) rx'" "reports (map snd new) rx rx'" "\<forall>d \<in> set new. fst d = datagram_key rx payload"
    using datagram.hyps(5) by (auto simp: stepped_def)
  then show ?case using deliveries_reported by metis
next
  case (tick n ds rx env rx')
  then show ?case using tick_receiver_ok [OF tick.hyps(2,3) tick.IH] by auto
next
  case (calls n ds rx env cs rx')
  then show ?case using run_calls_ok [OF calls.hyps(2) calls.IH calls.hyps(3)] by auto
next
  case (checkpoint n ds rx env a g f l acknowledge res rx')
  then show ?case using checkpoint_receiver_ok [OF checkpoint.hyps(2) checkpoint.IH, of a g f l acknowledge] by auto
qed

lemma receive_symbol_delivers:
  assumes e: "env_ok cf env" "ev_malloc_ok env" and n: "n + cf_calls cf < 2 ^ 64" and ok: "rx_inv cf ds n rx"
    and s: "tb_states (rx_table rx) (fh_alias h) = Some state"
    and h: "header_wf h" "genuine (cf_sources cf) h symbol" "length symbol = unat (fh_symbol_size h)"
    and new: "(fh_alias h, ss_generation state, fh_group_id h, fh_object_id h) \<notin> set (last_completions (map fst ds))"
      "is_rateless_data track \<longrightarrow> \<not> object_was_delivered (ss_object_gap state) (fh_object_id h)"
    and slot: "slot < HARD_MAX_ASSEMBLERS" "pool_live (rx_pool rx) slot" "slot_matches h (slot_of rx slot)"
    and t: "fh_total_symbols h \<le> fa_total_symbols (slot_of rx slot)"
    and all: "\<forall>i < unat (fh_data_symbols h). i = unat (fh_symbol_index h) \<or> fst (received_symbol (slot_of rx slot) i)"
    and so: "cf_sources cf (fh_alias h) (fh_group_id h) (fh_object_id h) = Some so"
  shows "\<exists>prio. delivers cf ds (n + cf_calls cf) ((fh_alias h, ss_generation state, fh_group_id h, fh_object_id h),
      Event_object track (fh_group_id h) (fh_object_id h) (so_data so) (fh_is_keyframe h) prio) rx
    (receive_symbol env track state h symbol rx)"
proof -
  let ?k = "(fh_alias h, ss_generation state, fh_group_id h, fh_object_id h)" and ?a = "fh_alias h"
  let ?p = "transport_assembler_observe_receive (ev_now_ms env) (rx_pool rx) (unat (fh_symbol_size h))"
  define rx0 where "rx0 = rx\<lparr>rx_pool := ?p\<rparr>"
  note d = rx_invD [OF ok]
  note ss = observe_same_slots(1) [of "rx_pool rx" "ev_now_ms env" "unat (fh_symbol_size h)"]
    observe_same_slots(2) [of "ev_now_ms env" "rx_pool rx" "unat (fh_symbol_size h)"]
  have ok0: "rx_inv cf ds n rx0" using ok by (simp add: rx_inv_def rx0_def same_slots_pools(1) [OF ss(1)] ss(2))
  have t0: "rx_table rx0 = rx_table rx" "rx_completed rx0 = rx_completed rx" by (simp_all add: rx0_def)
  have c: "completed_find (rx_completed rx) ?a (ss_generation state) (fh_group_id h) (fh_object_id h) = Some None"
    using completed_find_ok [OF d(4), of ?a "ss_generation state" "fh_group_id h" "fh_object_id h"] new(1) by auto
  have st: "gap_inv (ss_object_gap state)" "hist_ok (ss_object_gap state) (delivered_objects ds ?a (ss_generation state))"
    using table_okD(6) [OF d(3) s] by (simp_all add: state_ok_def)
  have new2: "is_rateless_data track \<longrightarrow> fh_object_id h \<notin> delivered_objects ds ?a (ss_generation state)"
    using new(2) hist_query(2) [OF st(2)] by blast
  let ?gap = "observe_object (ev_now_ms env) (fh_group_id h) (fh_object_id h) (ss_object_gap state)"
  define rx1 where "rx1 = (if is_rateless_data track then put_gap rx0 ?a ?gap else rx0)"
  have "rx_inv cf ds n (put_gap rx0 ?a ?gap)"
    using put_gap_ok [OF ok0 _ gap_inv_observe [OF st(1)]] s hist_same [OF _ st(2)] observe_object_same by (simp add: t0)
  then have ok1: "rx_inv cf ds n rx1" using ok0 by (simp add: rx1_def)
  have u1: "under ?a (ss_generation state) rx1" using s by (auto simp: rx1_def put_gap_under) (auto simp: under_def t0)
  have rep1: "reports [] rx rx1" by (simp add: reports_same rx1_def rx0_def)
  have p1: "rx_pool rx1 = ?p" by (simp add: rx1_def rx0_def)
  have at: "ap_assemblers (rx_pool rx1) = ap_assemblers (rx_pool rx)" using ss(1) by (simp add: p1 same_slots_def)
  have l1: "pool_live (rx_pool rx1) slot" using slot(2) unfolding p1 same_slots_pools(2) [OF ss(1)] .
  have sv: "serving cf ds n h (ss_generation state) slot rx1" using slot(1,3) ok1 u1 l1 at by (simp add: serving_def)
  have k1: "pool_key (rx_pool rx1) slot = (?a, fh_group_id h, fh_object_id h)"
    using slot(3) at by (simp add: pool_key_def slot_matches_def Let_def)
  have po: "pool_ok (rx_pool rx1)" using pools_okD(1) [OF rx_invD(1) [OF ok1]] .
  obtain found where f: "transport_find_assembler (rx_pool rx1) ?a (fh_group_id h) (fh_object_id h) = Some found"
      "case found of None \<Rightarrow> \<forall>i < HARD_MAX_ASSEMBLERS. pool_live (rx_pool rx1) i \<longrightarrow> pool_key (rx_pool rx1) i \<noteq> (?a, fh_group_id h, fh_object_id h)
       | Some i \<Rightarrow> i < HARD_MAX_ASSEMBLERS \<and> pool_live (rx_pool rx1) i \<and> pool_key (rx_pool rx1) i = (?a, fh_group_id h, fh_object_id h)"
      using find_assembler_ok [OF po] by blast
  obtain i where i: "found = Some i" "i < HARD_MAX_ASSEMBLERS" "pool_live (rx_pool rx1) i" "pool_key (rx_pool rx1) i = (?a, fh_group_id h, fh_object_id h)"
    using f(2) slot(1) l1 k1 by (cases found) auto
  have "i = slot" using po i(2-4) slot(1) l1 k1 unfolding pool_ok_def by metis
  have m: "\<not> (fa_symbol_size (slot_of rx1 slot) \<noteq> fh_symbol_size h \<or> fa_data_symbols (slot_of rx1 slot) \<noteq> fh_data_symbols h \<or>
                 fa_original_size (slot_of rx1 slot) \<noteq> fh_original_size h)" using servingD(4) [OF sv] by (simp add: slot_matches_def)
  have r: "receive_symbol env track state h symbol rx = receive_into env track (ss_generation state) h symbol slot rx1"
    using c new(2) f(1) m unfolding receive_symbol_def Let_def rx0_def [symmetric] t0 rx1_def [symmetric] i(1) \<open>i = slot\<close> by auto
  obtain prio where "delivers cf ds (n + cf_calls cf) (?k, Event_object track (fh_group_id h) (fh_object_id h) (so_data so) (fh_is_keyframe h) prio) rx1
      (receive_into env track (ss_generation state) h symbol slot rx1)"
    using receive_into_delivers [OF e n sv h new(1) new2 _ _ so] t all at by auto
  then show ?thesis unfolding r using delivers_trans [OF rep1] by blast
qed

text \<open>A datagram that passes the checks of the handler, with its track and subscription.\<close>

definition accepted :: "'s receive_env \<Rightarrow> 's receiver \<Rightarrow> bytes \<Rightarrow> wire_fec_header \<Rightarrow> moq_track_id \<Rightarrow> subscription_state \<Rightarrow> bool" where
  "accepted env rx payload h track state \<longleftrightarrow> ev_authenticated env \<and>
     qlinq_wire_decode_datagram_type payload = Inr WIRE_DATAGRAM_FEC \<and> qlinq_wire_decode_fec_header payload = Inr h \<and>
     transport_subscriptions_find_by_alias (rx_table rx) (fh_alias h) = Some track \<and>
     ti_flags track AND MOQ_TRACK_FLAG_RELIABLE = 0 \<and> fec_header_ok (ev_max_fec_object_size env) h (length payload) \<and>
     tb_states (rx_table rx) (fh_alias h) = Some state"

text \<open>A slot that misses at most one data symbol of the object, the one that a header announces.\<close>

definition one_missing :: "wire_fec_header \<Rightarrow> 's receiver \<Rightarrow> nat \<Rightarrow> bool" where
  "one_missing h rx slot \<longleftrightarrow> slot < HARD_MAX_ASSEMBLERS \<and> pool_live (rx_pool rx) slot \<and> slot_matches h (slot_of rx slot) \<and>
     fh_total_symbols h \<le> fa_total_symbols (slot_of rx slot) \<and>
     (\<forall>i < unat (fh_data_symbols h). i = unat (fh_symbol_index h) \<or> fst (received_symbol (slot_of rx slot) i))"

lemma datagram_delivers:
  assumes run: "receiver_run cf n ds rx" and e: "env_ok cf env" "ev_malloc_ok env" and n: "n + 2 * cf_calls cf < 2 ^ 64"
    and a: "accepted env rx payload h track state" and g: "genuine_datagram (cf_sources cf) payload"
    and so: "cf_sources cf (fh_alias h) (fh_group_id h) (fh_object_id h) = Some so"
    and new: "(fh_alias h, ss_generation state, fh_group_id h, fh_object_id h) \<notin> set (last_completions (map fst ds))"
      "is_rateless_data track \<longrightarrow> \<not> object_was_delivered (ss_object_gap state) (fh_object_id h)"
    and slot: "one_missing h rx slot"
  shows "\<exists>rx' prio. on_receive_datagram_frame env payload rx = Some rx' \<and>
    receiver_run cf (n + 2 * cf_calls cf) (ds @ [((fh_alias h, ss_generation state, fh_group_id h, fh_object_id h),
      Event_object track (fh_group_id h) (fh_object_id h) (so_data so) (fh_is_keyframe h) prio)]) rx'"
proof -
  let ?k = "(fh_alias h, ss_generation state, fh_group_id h, fh_object_id h)"
  let ?rx1 = "send_telemetry_reply env h (count_datagram rx)"
  have u1: "untouched rx ?rx1" by (rule untouched_trans [of _ "count_datagram rx"]) simp_all
  have ok: "rx_inv cf ds n ?rx1" using receiver_run_inv [OF run] untouched_inv [OF u1] by blast
  have tb: "rx_table ?rx1 = rx_table rx" "rx_pool ?rx1 = rx_pool rx" "rx_table (count_datagram rx) = rx_table rx"
    using u1 by (simp_all add: untouched_def count_datagram_def)
  have n1: "n + cf_calls cf < 2 ^ 64" using n by simp
  have acc: "ev_authenticated env" "qlinq_wire_decode_datagram_type payload = Inr WIRE_DATAGRAM_FEC" "qlinq_wire_decode_fec_header payload = Inr h"
    "transport_subscriptions_find_by_alias (rx_table rx) (fh_alias h) = Some track" "ti_flags track AND MOQ_TRACK_FLAG_RELIABLE = 0"
    "fec_header_ok (ev_max_fec_object_size env) h (length payload)" "tb_states (rx_table rx) (fh_alias h) = Some state"
    using a by (simp_all add: accepted_def)
  note wf = fec_header_wf [OF acc(6)]
  have r: "on_receive_datagram_frame env payload rx = receive_symbol env track state h (drop WIRE_FEC_HEADER_SIZE payload) ?rx1"
    using acc by (simp add: on_receive_datagram_frame_def Let_def tb transport_subscriptions_get_state_def)
  have gen: "genuine (cf_sources cf) h (drop WIRE_FEC_HEADER_SIZE payload)" using g acc(3) by (simp add: genuine_datagram_def)
  have len: "length (drop WIRE_FEC_HEADER_SIZE payload) = unat (fh_symbol_size h)" using wf(2) by simp
  obtain prio where "delivers cf ds (n + cf_calls cf) (?k, Event_object track (fh_group_id h) (fh_object_id h) (so_data so) (fh_is_keyframe h) prio) ?rx1
      (receive_symbol env track state h (drop WIRE_FEC_HEADER_SIZE payload) ?rx1)"
    using receive_symbol_delivers [OF e n1 ok _ wf(1) gen len new, of slot so] slot acc(7) so unfolding tb one_missing_def by blast
  then obtain rx' where rx': "on_receive_datagram_frame env payload rx = Some rx'"
    "reports [Event_object track (fh_group_id h) (fh_object_id h) (so_data so) (fh_is_keyframe h) prio] rx rx'"
    unfolding r delivers_def using reports_trans [OF untouched_reports [OF u1]] by fastforce
  have "datagram_key rx payload = ?k" using acc by (simp add: datagram_key_def)
  then have "deliveries_of (datagram_key rx payload) rx rx' =
      [(?k, Event_object track (fh_group_id h) (fh_object_id h) (so_data so) (fh_is_keyframe h) prio)]"
    using deliveries_reported [of "[(?k, Event_object track (fh_group_id h) (fh_object_id h) (so_data so) (fh_is_keyframe h) prio)]" rx rx'] rx'(2) by simp
  then show ?thesis using receiver_run.datagram [OF run e(1) g n rx'(1)] rx'(1) by auto
qed

end
