(* ===== verification/Reception.thy ===== *)
theory Reception
  imports Runs
begin

text \<open>
  What the receiver guarantees: the properties of \<open>receiver_run\<close>, and a concrete receiver that
  subscribes, receives the two data symbols of an object and delivers it.
\<close>

section \<open>A concrete receiver\<close>

text \<open>
  One subscription and one object of three bytes in two symbols of two bytes, with an exclusive-or
  code for its single repair symbol.
\<close>

definition example_source :: source_object where
  "example_source = \<lparr>so_data = [1, 2, 3], so_k = 2, so_z = 2, so_parity = (\<lambda>_. [2, 2])\<rparr>"

definition example_sources :: sources where
  "example_sources a g ob = (if a = 4 \<and> g = 5 \<and> ob = 6 then Some example_source else None)"

definition example_block :: "bytes \<Rightarrow> bytes \<Rightarrow> bytes \<Rightarrow> bytes" where
  "example_block old a b = map2 (XOR) (take 2 a) (take 2 b) @ drop 2 old"

definition example_decode :: "nat \<Rightarrow> bytes option list \<Rightarrow> bool list \<Rightarrow> bool \<times> bytes option list" where
  "example_decode h bs missing = (case bs of
       Some a # Some b # Some c # rest \<Rightarrow>
         if missing ! 2 \<or> missing ! 0 \<and> missing ! 1 then (\<not> missing ! 0 \<and> \<not> missing ! 1, bs)
         else if missing ! 0 then (True, Some (example_block a b c) # Some b # Some c # rest)
         else if missing ! 1 then (True, Some a # Some (example_block b a c) # Some c # rest)
         else (True, bs)
     | _ \<Rightarrow> (False, bs))"

definition example_create :: "fec_type \<Rightarrow> nat \<Rightarrow> nat \<Rightarrow> nat \<Rightarrow> nat option" where
  "example_create t k p z = (if (t, k, p, z) = (FEC_REED_SOLOMON, 2, 1, 2) then Some 7 else None)"

definition example_config :: receiver_config where
  "example_config = \<lparr>cf_sources = example_sources, cf_params = (\<lambda>_. (FEC_REED_SOLOMON, 2, 1, 2)), cf_others = 0, cf_max = 8, cf_calls = 0\<rparr>"

definition example_env :: "unit receive_env" where
  "example_env = \<lparr>ev_ack = example_stream_env, ev_authenticated = True, ev_ready = True, ev_closing = (\<lambda>_. False), ev_close = id,
     ev_write_track = (\<lambda>s _ _ _. (True, s)), ev_shutdown = (\<lambda>s _. s), ev_path_stats = (\<lambda>_ _. None), ev_path_available = (\<lambda>_ _. False),
     ev_path_datagrams = (\<lambda>_ _. 0), ev_send_datagram = (\<lambda>s _ _. s), ev_local_addrs = [],
     ev_fixed = \<lparr>fp_one = 1, fp_safe_whole = 1, fp_from_int = int, fp_from_float = (\<lambda>n d. int n), fp_add = (+), fp_div = (div), fp_max = 1000\<rparr>,
     ev_max_assemblers = 8, ev_max_fec_object_size = 1000, ev_max_subscriptions = 4, ev_assembler_timeout_ms = 100, ev_rtt = (\<lambda>_. None),
     ev_now_ms = 10, ev_now_ns = 10000, ev_grow_ok = True, ev_malloc_ok = True, ev_calloc_ok = True, ev_create = example_create,
     ev_decode = example_decode, ev_callback = (\<lambda>_ _. [])\<rparr>"

definition example_receiver :: "unit receiver" where
  "example_receiver = \<lparr>rx_table = snd (transport_subscriptions_init True empty_table 1), rx_pool = zero_pool,
     rx_memory = \<lparr>am_bytes = 0, am_limit = 1000, am_limit_errors = 0\<rparr>, rx_completed = zero_completed, rx_fec_cache = transport_fec_cache_destroy [],
     rx_owd = [], rx_queued_datagrams = [], rx_acks_sent = 0,
     rx_stats = \<lparr>rs_datagrams_received = 0, rs_conn_datagrams_received = 0, rs_malformed_datagrams = 0, rs_conn_malformed_datagrams = 0,
       rs_protocol_errors = 0, rs_duplicates_suppressed = 0, rs_objects_lost = 0, rs_objects_recovered = 0, rs_events_emitted = 0\<rparr>,
     rx_events = [], rx_world = ()\<rparr>"

definition example_track :: moq_track_id where
  "example_track = \<lparr>ti_type = 4, ti_flags = 2, ti_name = [0]\<rparr>"

definition example_header :: "u16 \<Rightarrow> wire_fec_header" where
  "example_header i = \<lparr>fh_alias = 4, fh_is_keyframe = True, fh_priority = 1, fh_path_id = 0, fh_group_id = 5, fh_object_id = 6,
     fh_symbol_index = i, fh_total_symbols = 3, fh_data_symbols = 2, fh_symbol_size = 2, fh_original_size = 3, fh_send_time_ns = 0\<rparr>"

definition example_datagram :: "u16 \<Rightarrow> bytes \<Rightarrow> bytes" where
  "example_datagram i symbol = (case qlinq_wire_encode_fec_header 44 (example_header i) of Inr b \<Rightarrow> b @ symbol | Inl _ \<Rightarrow> [])"




lemma example_env_simps [simp]:
  "ev_ack example_env = example_stream_env" "ev_authenticated example_env" "ev_ready example_env" "\<not> ev_closing example_env w"
  "ev_write_track example_env w a b c = (True, w)" "ev_path_stats example_env w i = None" "ev_max_assemblers example_env = 8"
  "ev_max_fec_object_size example_env = 1000" "ev_max_subscriptions example_env = 4" "ev_rtt example_env = (\<lambda>_. None)"
  "ev_now_ms example_env = 10" "ev_now_ns example_env = 10000" "ev_grow_ok example_env" "ev_malloc_ok example_env" "ev_calloc_ok example_env"
  "ev_create example_env = example_create" "ev_decode example_env = example_decode" "ev_callback example_env e w = []"
  by (simp_all add: example_env_def)

lemma example_header_simps [simp]:
  "fh_alias (example_header i) = 4" "fh_is_keyframe (example_header i)" "fh_priority (example_header i) = 1" "fh_group_id (example_header i) = 5"
  "fh_object_id (example_header i) = 6" "fh_symbol_index (example_header i) = i" "fh_total_symbols (example_header i) = 3"
  "fh_data_symbols (example_header i) = 2" "fh_symbol_size (example_header i) = 2" "fh_original_size (example_header i) = 3"
  "fh_path_id (example_header i) = 0"
  by (simp_all add: example_header_def)
definition example_entry :: track_subscription where
  "example_entry = \<lparr>ts_track_id = \<lparr>ti_type = 4, ti_flags = 2, ti_name = replicate 64 0\<rparr>, ts_alias = 4, ts_active = True,
     ts_stream = None, ts_ingress_stream = None\<rparr>"

definition example_table :: subscription_table where
  "example_table = \<lparr>tb_entries = [example_entry], tb_next_generation = 1, tb_states = [4 \<mapsto> fresh_state 1]\<rparr>"

lemma example_subscribed: "run_call example_env (App_subscribe example_track) example_receiver = Some (example_receiver\<lparr>rx_table := example_table\<rparr>)"
  by (simp add: example_receiver_def example_track_def transport_track_id_valid_def strnlen_def
   transport_track_type_valid_def subscribe_connection_def transport_subscriptions_init_def transport_subscriptions_find_def
   transport_subscriptions_find_alias_def transport_subscriptions_count_def cstr_def first_index_def example_stream_env_def
   transport_subscriptions_add_def ensure_initialized_def zero_subscription_def put_object_gap_def fresh_state_def example_table_def example_entry_def
   transport_subscriptions_destroy_def empty_table_def fill_array_def)



lemma example_bucket: "transport_receive_bucket 4 5 6 = 1414" by code_simp
lemma example_decoded: "qlinq_wire_decode_fec_header (example_datagram 0 [1,2]) = Inr (example_header 0)" 
 "qlinq_wire_decode_datagram_type (example_datagram 0 [1,2]) = Inr 1" "length (example_datagram 0 [1,2]) = 46" "drop 44 (example_datagram 0 [1,2]) = [1,2]"
 "qlinq_wire_decode_fec_header (example_datagram 1 [3,0]) = Inr (example_header 1)"
 
 "qlinq_wire_decode_datagram_type (example_datagram 1 [3,0]) = Inr 1" "length (example_datagram 1 [3,0]) = 46" "drop 44 (example_datagram 1 [3,0]) = [3,0]" by code_simp+

lemma example_table_simps [simp]: "transport_subscriptions_find_by_alias example_table 4 = Some (ts_track_id example_entry)"
  "transport_subscriptions_get_state example_table 4 = Some (fresh_state 1)"
  "ti_flags (ts_track_id example_entry) = 2" "ti_type (ts_track_id example_entry) = 4" "ss_generation (fresh_state g) = g"
  by (simp_all add: transport_subscriptions_find_by_alias_def example_table_def example_entry_def first_index_def transport_subscriptions_get_state_def
    fresh_state_def)

lemma example_telemetry [simp]: "send_telemetry_reply example_env (example_header i) rx = rx"
  by (simp add: send_telemetry_reply_def transport_queue_datagram_def split: sum.split)

lemma example_header_ok [simp]: "i < 3 \<Longrightarrow> fec_header_ok 1000 (example_header i) 46"
  by (simp add: fec_header_ok_def)

lemma example_handler: "rx_table rx = example_table \<Longrightarrow> (i, symbol) \<in> {(0, [1,2]), (1, [3,0])} \<Longrightarrow>
   on_receive_datagram_frame example_env (example_datagram i symbol) rx =
   receive_symbol example_env (ts_track_id example_entry) (fresh_state 1) (example_header i) symbol (count_datagram rx)"
  unfolding on_receive_datagram_frame_def Let_def
  by (elim insertE; simp add: example_decoded) (simp_all add: count_datagram_def example_decoded)

definition example_pool1 :: "assembler_pool" where
  "example_pool1 = transport_assembler_observe_receive 10 zero_pool 2"
lemma example_find: "completed_find zero_completed 4 1 5 6 = Some None" "transport_find_assembler example_pool1 4 5 6 = Some None"
  by (simp_all add: completed_find_def example_bucket zero_completed_def chain_find.simps example_pool1_def transport_assembler_observe_receive_def
   transport_find_assembler_def zero_pool_def)

lemma example_first_symbol: assumes "rx_pool rx = zero_pool" "rx_completed rx = zero_completed" shows "receive_symbol example_env (ts_track_id example_entry) (fresh_state 1) (example_header i) sy rx =
  Option.bind (claim_slot example_env (example_header i) 1 (rx\<lparr>rx_pool := example_pool1\<rparr>)) (\<lambda>(claimed, rx). case claimed of
                None \<Rightarrow> Some rx
              | Some slot \<Rightarrow> receive_into example_env (ts_track_id example_entry) 1 (example_header i) sy slot rx)"
  unfolding receive_symbol_def Let_def
  by (simp add: is_rateless_data_def is_rateless_def example_find assms example_pool1_def [symmetric] cong: option.case_cong)

definition example_pool2 :: "assembler_pool" where
  "example_pool2 = example_pool1\<lparr>ap_index := 1, ap_limit := 8\<rparr>"

lemma example_slots: "ap_assemblers zero_pool ! 0 = zero_assembler" "ap_assemblers example_pool1 = ap_assemblers zero_pool"
  "ap_assemblers example_pool2 = ap_assemblers zero_pool"
  by (simp_all add: zero_pool_def example_pool1_def transport_assembler_observe_receive_def example_pool2_def)


lemma example_window: "transport_assembler_window 8 (\<lambda>_. None) example_pool1 3 2 = (8, example_pool1\<lparr>ap_limit := 8\<rparr>)"
  by (simp add: transport_assembler_window_def window_target_def example_pool1_def transport_assembler_observe_receive_def zero_pool_def sz_mul_def SIZE_MAX_def)

lemma example_choice: "choose_slot (example_pool1\<lparr>ap_limit := 8\<rparr>) 8 = 0"
  by (simp add: choose_slot_def example_slots example_pool1_def transport_assembler_observe_receive_def zero_pool_def upt_rec sz_add_def SIZE_MAX_def zero_assembler_def)

lemma example_cursor: "example_pool1\<lparr>ap_limit := 8, ap_index := sz_add 0 1 mod 8\<rparr> = example_pool2"
  by (simp add: example_pool2_def sz_add_def SIZE_MAX_def)

lemma example_evicted: "rx_pool rx = example_pool2 \<Longrightarrow> report_evicted example_env 4 1 0 rx = Some (True, rx)"
  by (simp add: report_evicted_def example_slots zero_assembler_def)

definition example_grown :: "frame_assembler" where
  "example_grown = zero_assembler\<lparr>fa_buffers := Some [Some [0, 0], Some [0, 0], Some [0, 0]], fa_received_mask := Some [False, False, False],
   fa_missing_mask := Some [False, False, False], fa_missing_indices := Some [0, 0, 0], fa_capacity_symbols := 3, fa_capacity_symbol_size := 2\<rparr>"

definition example_memory1 :: "assembler_memory" where
  "example_memory1 = \<lparr>am_bytes = 0, am_limit = 1000, am_limit_errors = 0\<rparr>"
definition example_memory2 :: "assembler_memory" where
  "example_memory2 = \<lparr>am_bytes = 42, am_limit = 1000, am_limit_errors = 0\<rparr>"


lemma example_replicate: "replicate 3 x = [x, x, x]" "replicate 2 x = [x, x]" by (simp_all add: numeral_eq_Suc)

lemmas example_size_simps = sz_add_def sz_sub_def sz_mul_def SIZE_MAX_def

lemma example_required: "transport_assembler_required_bytes 3 2 = 42"
  by (simp add: transport_assembler_required_bytes_def example_size_simps)

lemma example_grow: "transport_grow_assembler True example_memory1 zero_assembler 3 2 = (True, example_memory2, example_grown)"
  by (simp add: transport_grow_assembler_def transport_assembler_grow_def zero_assembler_def example_memory1_def example_memory2_def example_grown_def
    transport_assembler_capacity_bytes_def example_required example_replicate Let_def) (simp add: example_size_simps)

definition example_pool3 :: "assembler_pool" where
  "example_pool3 = example_pool2\<lparr>ap_assemblers := (ap_assemblers zero_pool)[0 := example_grown]\<rparr>"

lemma pool_same_assemblers [simp]: "(p :: assembler_pool)\<lparr>ap_assemblers := ap_assemblers p\<rparr> = p" by simp

lemma example_prepared: "rx_pool rx = example_pool2 \<Longrightarrow> rx_memory rx = example_memory1 \<Longrightarrow>
   prepare_slot example_env (example_header i) 0 rx = Some (True, rx\<lparr>rx_memory := example_memory2, rx_pool := example_pool3\<rparr>)"
proof -
  assume r: "rx_pool rx = example_pool2" "rx_memory rx = example_memory1"
  have z: "\<not> fa_owner zero_assembler" "fa_buffers zero_assembler = None" "transport_assembler_release zero_assembler = zero_assembler"
    "release_accounting example_memory1 zero_assembler = example_memory1"
    by (simp_all add: zero_assembler_def transport_assembler_release_def release_accounting_def example_memory1_def transport_assembler_capacity_bytes_def sz_sub_def Let_def)
  have s: "(ap_assemblers zero_pool)[0 := zero_assembler] = ap_assemblers zero_pool" using example_slots(1) list_update_id by metis
  have p: "example_pool2\<lparr>ap_assemblers := ap_assemblers zero_pool\<rparr> = example_pool2" using example_slots(3) pool_same_assemblers by metis
  have u: "rx\<lparr>rx_memory := example_memory1, rx_pool := example_pool2\<rparr> = rx" using r by simp
  have tr: "transport_release_assembler example_memory1 example_pool2 0 = Some (example_memory1, example_pool2)"
    by (simp add: transport_release_assembler_def transport_unindex_assembler_def example_slots z s p Let_def)
  have un: "transport_unindex_assembler example_pool2 0 = Some example_pool2" by (simp add: transport_unindex_assembler_def example_slots z)
  have u2: "rx\<lparr>rx_pool := example_pool2\<rparr> = rx" using r by simp
  show ?thesis using r
    by (simp add: prepare_slot_def un u2 example_slots z release_slot_def tr u example_grow Let_def)
     (simp add: put_slot_def example_pool3_def example_slots)
qed

definition example_filled :: "u16 \<Rightarrow> frame_assembler" where
  "example_filled i = fill_slot 10 (example_header i) example_grown"
definition example_slot1 :: "u16 \<Rightarrow> frame_assembler" where
  "example_slot1 i = (example_filled i)\<lparr>fa_owner := True\<rparr>"
definition example_pool4 :: "u16 \<Rightarrow> assembler_pool" where
  "example_pool4 i = example_pool2\<lparr>ap_assemblers := (ap_assemblers zero_pool)[0 := example_slot1 i], ap_buckets := (replicate 2048 0)[1414 := 1],
   ap_count := 1, ap_active := (replicate 16 0)[0 := 1]\<rparr>"

lemma example_slot_count [simp]: "length (ap_assemblers zero_pool) = 1024" by (simp add: zero_pool_def)

lemma example_indexed: "transport_index_assembler (example_pool3\<lparr>ap_assemblers := (ap_assemblers example_pool3)[0 := example_filled i]\<rparr>) 0 = example_pool4 i"
proof -
  have k: "fa_track_id (example_filled i) = 4" "fa_group_id (example_filled i) = 5" "fa_object_id (example_filled i) = 6" by (simp_all add: example_filled_def fill_slot_def)
  have b: "ap_buckets example_pool3 = replicate 2048 0" "ap_active example_pool3 = replicate 16 0" "ap_count example_pool3 = 0"
    by (simp_all add: example_pool3_def example_pool2_def example_pool1_def transport_assembler_observe_receive_def zero_pool_def)
  have p: "(ap_assemblers example_pool3)[0 := example_filled i] ! 0 = example_filled i" by (simp add: example_pool3_def)
  have h: "fa_hash_next (example_filled i) = 0" by (simp add: example_filled_def fill_slot_def example_grown_def zero_assembler_def)
  have "(example_filled i)\<lparr>fa_owner := True, fa_hash_next := 0\<rparr> = example_slot1 i" using h by (simp add: example_slot1_def)
  then show ?thesis
    using p by (simp add: transport_index_assembler_def Let_def k example_bucket b example_pool4_def) (simp add: example_pool3_def example_size_simps)
qed

lemma example_claimed: "rx_memory rx = example_memory1 \<Longrightarrow> rx_pool rx = example_pool1 \<Longrightarrow> claim_slot example_env (example_header i) 1 rx =
   Some (Some 0, rx\<lparr>rx_memory := example_memory2, rx_pool := example_pool4 i\<rparr>)"
proof -
  assume r: "rx_memory rx = example_memory1" "rx_pool rx = example_pool1"
  have c: "example_pool1\<lparr>ap_limit := 8, ap_index := sz_add (choose_slot (example_pool1\<lparr>ap_limit := 8\<rparr>) 8) 1 mod 8\<rparr> = example_pool2"
    unfolding example_choice example_cursor ..
  show ?thesis unfolding claim_slot_def example_env_simps example_header_simps r example_window prod.case Let_def c
    by (simp add: example_choice example_evicted example_prepared r) (simp add: put_slot_def example_indexed [symmetric] example_filled_def example_pool3_def example_slots)
qed


definition example_slot2 :: "frame_assembler" where
  "example_slot2 = (example_slot1 0)\<lparr>fa_buffers := Some [Some [1, 2], Some [0, 0], Some [0, 0]], fa_received_mask := Some [True, False, False],
   fa_received_count := 1, fa_last_activity_time_ms := 10\<rparr>"
definition example_pool5 :: "assembler_pool" where
  "example_pool5 = (example_pool4 0)\<lparr>ap_assemblers := (ap_assemblers zero_pool)[0 := example_slot2]\<rparr>"

lemmas example_slot_defs = example_slot2_def example_slot1_def example_filled_def fill_slot_def example_grown_def zero_assembler_def

lemma example_slot_at: "ap_assemblers (example_pool4 i) ! 0 = example_slot1 i" "ap_assemblers example_pool5 ! 0 = example_slot2" by (simp_all add: example_pool4_def example_pool5_def)

lemma example_stored: "store_symbol 10 0 [1, 2] (example_slot1 0) = Some example_slot2"
  by (simp add: store_symbol_def example_slot_defs example_replicate)

lemma example_widened: "rx_pool rx = example_pool4 0 \<Longrightarrow> widen_slot example_env (example_header j) 0 rx = (True, rx)"
  "rx_pool rx = example_pool5 \<Longrightarrow> widen_slot example_env (example_header j) 0 rx = (True, rx)"
  by (simp_all add: widen_slot_def example_slot_at example_slot_defs)

lemma example_into: "rx_pool rx = example_pool4 0 \<Longrightarrow> receive_into example_env (ts_track_id example_entry) 1 (example_header 0) [1, 2] 0 rx =
    Some (rx\<lparr>rx_pool := example_pool5\<rparr>)"
proof -
  assume r: "rx_pool rx = example_pool4 0"
  have f: "\<not> fa_decoded (example_slot1 0)" "fa_total_symbols (example_slot1 0) = 3" "fa_received_count example_slot2 = 1" "fa_data_symbols example_slot2 = 2"
    by (simp_all add: example_slot_defs)
  have "put_slot rx 0 example_slot2 = rx\<lparr>rx_pool := example_pool5\<rparr>" by (simp add: put_slot_def r example_pool5_def example_pool4_def)
  then show ?thesis
    by (simp add: receive_into_def r example_slot_at f example_widened example_stored Let_def word_le_nat_alt)
qed

definition example_received :: "unit receiver" where
  "example_received = (count_datagram (example_receiver\<lparr>rx_table := example_table\<rparr>))\<lparr>rx_memory := example_memory2, rx_pool := example_pool5\<rparr>"

lemma example_datagram_received: "on_receive_datagram_frame example_env (example_datagram 0 [1, 2]) (example_receiver\<lparr>rx_table := example_table\<rparr>) = Some example_received"
proof -
  let ?rx = "count_datagram (example_receiver\<lparr>rx_table := example_table\<rparr>)"
  have r: "rx_pool ?rx = zero_pool" "rx_completed ?rx = zero_completed" "rx_memory ?rx = example_memory1"
    by (simp_all add: count_datagram_def example_receiver_def example_memory1_def)
  have h: "on_receive_datagram_frame example_env (example_datagram 0 [1, 2]) (example_receiver\<lparr>rx_table := example_table\<rparr>) =
    receive_symbol example_env (ts_track_id example_entry) (fresh_state 1) (example_header 0) [1, 2] ?rx"
    by (rule example_handler) simp_all
  show ?thesis unfolding h example_first_symbol [OF r(1,2)] by (simp add: example_claimed r example_into example_received_def)
qed


lemma example_block_length: "2 \<le> length old \<Longrightarrow> 2 \<le> length a \<Longrightarrow> 2 \<le> length b \<Longrightarrow> length (example_block old a b) = length old"
  by (simp add: example_block_def)

lemma example_block_take: "2 \<le> length a \<Longrightarrow> 2 \<le> length b \<Longrightarrow> take 2 (example_block old a b) = map2 (XOR) (take 2 a) (take 2 b)"
  by (simp add: example_block_def)

lemma example_symbols:
  "source_symbol example_source 0 = [1, 2]" "source_symbol example_source (Suc 0) = [3, 0]" "source_symbol example_source 2 = [2, 2]"
  by (simp_all add: source_symbol_def example_source_def data_block_def fill_array_def Let_def)

lemma example_laws: "decoder_laws example_sources (\<lambda>_. (FEC_REED_SOLOMON, 2, 1, 2)) example_create example_decode"
  unfolding decoder_laws_def
proof (intro conjI allI impI)
  fix t k p z h
  assume "example_create t k p z = Some h"
  then show "(FEC_REED_SOLOMON, 2, 1, 2) = (t, k, p, z)" by (auto simp: example_create_def split: if_splits)
next
  fix h :: nat and t k p z and bs :: "bytes option list" and missing ok bs'
  assume par: "(FEC_REED_SOLOMON, 2, 1, 2) = (t, k, p, z)" and example_slot_count: "k + p \<le> length bs" "length missing = length bs"
    and blocks: "\<forall>b \<in> set bs. \<exists>x. b = Some x \<and> z \<le> length x" and r: "example_decode h bs missing = (ok, bs')"
  have kz: "k = 2" "p = 1" "z = 2" using par by simp_all
  obtain a b c rest where bs: "bs = Some a # Some b # Some c # rest" "2 \<le> length a" "2 \<le> length b" "2 \<le> length c"
  proof -
    obtain x y v rest where "bs = x # y # v # rest" using example_slot_count(1) kz by (cases bs; cases "tl bs"; cases "tl (tl bs)") auto
    then show thesis using that blocks kz(3) by auto
  qed
  have rest: "\<exists>y. bs ! i = Some y" if "i < length bs" for i using blocks that nth_mem by fastforce
  note d = r [unfolded example_decode_def bs(1) list.case option.case]
  have out: "bs' = bs \<or> (missing ! 0 \<and> bs' = Some (example_block a b c) # Some b # Some c # rest) \<or>
      (missing ! 1 \<and> bs' = Some a # Some (example_block b a c) # Some c # rest)"
    using d bs(1) by (auto split: if_splits)
  have keep: "length bs' = length bs" using out bs(1) by auto
  show "length bs' = length bs" by (fact keep)
  fix i
  show "\<exists>y. bs' ! i = Some y \<and> length y = length (the (bs ! i)) \<and> (k + p \<le> i \<or> \<not> missing ! i \<longrightarrow> y = the (bs ! i))"
    if i: "i < length bs"
    using out
  proof (elim disjE)
    assume "bs' = bs"
    then show ?thesis using rest [OF i] by auto
  next
    assume m: "missing ! 0 \<and> bs' = Some (example_block a b c) # Some b # Some c # rest"
    show ?thesis
    proof (cases i)
      case 0
      then show ?thesis using m bs kz by (simp add: example_block_length)
    next
      case (Suc j)
      then have "bs' ! i = bs ! i" using m bs(1) by simp
      then show ?thesis using rest [OF i] by auto
    qed
  next
    assume m: "missing ! 1 \<and> bs' = Some a # Some (example_block b a c) # Some c # rest"
    show ?thesis
    proof (cases "i = 1")
      case True
      then show ?thesis using m bs kz by (simp add: example_block_length)
    next
      case False
      then have "bs' ! i = bs ! i" using m bs(1) by (simp add: nth_Cons')
      then show ?thesis using rest [OF i] by auto
    qed
  qed
next
  fix h :: nat and t k p z and bs :: "bytes option list" and missing ok bs' al g ob so i
  assume par: "(FEC_REED_SOLOMON, 2, 1, 2) = (t, k, p, z)" and example_slot_count: "k + p \<le> length bs" "length missing = length bs"
    and blocks: "\<forall>b \<in> set bs. \<exists>x. b = Some x \<and> z \<le> length x" and r: "example_decode h bs missing = (ok, bs')"
    and so: "example_sources al g ob = Some so" and ok: ok and given: "\<forall>i < k + p. \<not> missing ! i \<longrightarrow> take z (the (bs ! i)) = source_symbol so i"
    and i: "i < k"
  have kz: "k = 2" "p = 1" "z = 2" using par by simp_all
  obtain a b c rest where bs: "bs = Some a # Some b # Some c # rest" "2 \<le> length a" "2 \<le> length b" "2 \<le> length c"
  proof -
    obtain x y v rest where "bs = x # y # v # rest" using example_slot_count(1) kz by (cases bs; cases "tl bs"; cases "tl (tl bs)") auto
    then show thesis using that blocks kz(3) by auto
  qed
  have src: "so = example_source" using so by (simp add: example_sources_def split: if_splits)
  have g0: "\<not> missing ! 0 \<Longrightarrow> take 2 a = [1, 2]" using given [rule_format, of 0] kz bs(1) src by (simp add: example_symbols)
  have g1: "\<not> missing ! 1 \<Longrightarrow> take 2 b = [3, 0]" using given [rule_format, of 1] kz bs(1) src by (simp add: example_symbols)
  have g2: "\<not> missing ! 2 \<Longrightarrow> take 2 c = [2, 2]" using given [rule_format, of 2] kz bs(1) src by (simp add: example_symbols)
  note d = r [unfolded example_decode_def bs(1) list.case option.case]
  have "take 2 (the (bs' ! 0)) = [1, 2] \<and> take 2 (the (bs' ! 1)) = [3, 0]"
  proof (cases "missing ! 0 \<or> missing ! 1")
    case False
    then have "bs' = bs" using d bs(1) by (auto split: if_splits)
    then show ?thesis using False g0 g1 bs(1) by simp
  next
    case True
    then have m2: "\<not> missing ! 2 \<and> \<not> (missing ! 0 \<and> missing ! 1)" using d ok by (auto split: if_splits)
    show ?thesis
    proof (cases "missing ! 0")
      case True
      then have "bs' = Some (example_block a b c) # Some b # Some c # rest" "\<not> missing ! 1" using d m2 by auto
      then show ?thesis using g1 g2 m2 bs by (simp add: example_block_take)
    next
      case False
      then have "bs' = Some a # Some (example_block b a c) # Some c # rest" using d m2 True by auto
      then show ?thesis using False g0 g2 m2 bs by (simp add: example_block_take)
    qed
  qed
  moreover have "i = 0 \<or> i = 1" using i kz by auto
  ultimately show "take z (the (bs' ! i)) = source_symbol so i" using src kz by (auto simp: example_symbols)
qed

lemma example_env_ok: "env_ok example_config example_env"
  using example_laws by (simp add: env_ok_def example_config_def)

lemma example_config_simps [simp]:
  "cf_sources example_config = example_sources" "cf_calls example_config = 0" "cf_max example_config = 8" "cf_others example_config = 0"
  "cf_params example_config = (\<lambda>_. (FEC_REED_SOLOMON, 2, 1, 2))"
  by (simp_all add: example_config_def)

lemma example_run0: "receiver_run example_config 0 [] example_receiver"
proof (rule receiver_run.start [where capacity = 1])
  show "transport_subscriptions_init True empty_table 1 = (True, rx_table example_receiver)"
    by (simp add: example_receiver_def transport_subscriptions_init_def)
  show "fec_cache_ok (cf_params example_config) (rx_fec_cache example_receiver)"
    by (simp add: fec_cache_ok_def example_receiver_def transport_fec_cache_destroy_def zero_fec_entry_def)
qed (simp_all add: example_receiver_def SIZE_MAX_def)

lemma example_run1: "receiver_run example_config 1 [] (example_receiver\<lparr>rx_table := example_table\<rparr>)"
proof -
  have "run_calls example_env [App_subscribe example_track] example_receiver = Some (example_receiver\<lparr>rx_table := example_table\<rparr>)"
    by (simp only: run_calls.simps example_subscribed bind.bind_lunit)
  from receiver_run.calls [OF example_run0 example_env_ok _ this] show ?thesis by simp
qed

lemma example_genuine: "genuine_datagram example_sources (example_datagram 0 [1, 2])" "genuine_datagram example_sources (example_datagram 1 [3, 0])"
  by (simp_all add: genuine_datagram_def example_decoded genuine_def genuine_header_def example_sources_def example_symbols)
    (simp_all add: example_source_def)

lemma example_run2: "receiver_run example_config 1 [] example_received"
proof -
  have "deliveries_of k (example_receiver\<lparr>rx_table := example_table\<rparr>) example_received = []" for k
    by (simp add: deliveries_of_def example_received_def count_datagram_def example_receiver_def)
  then show ?thesis
    using receiver_run.datagram [OF example_run1 example_env_ok _ _ example_datagram_received] example_genuine(1) by simp
qed

section \<open>Properties\<close>



text \<open>
  C3. The receiver survives every input. From every reachable state, whatever bytes a datagram has, whatever a
  checkpoint announces, whatever the application calls and whichever allocation or decoding
  fails: the handler, the tick, the calls and the checkpoint return; no loop over a hash chain,
  over the windows or over the slots runs on, and nothing dereferences NULL.
\<close>

theorem receiver_always_returns:
  "receiver_run cf n ds rx \<Longrightarrow> cf_sources cf = (\<lambda>_ _ _. None) \<Longrightarrow> env_ok cf env \<Longrightarrow>
   n + 2 * cf_calls cf + cf_max cf * cf_calls cf + length calls < 2 ^ 64 \<Longrightarrow>
   on_receive_datagram_frame env payload rx \<noteq> None \<and> tick_receiver env rx \<noteq> None \<and> run_calls env calls rx \<noteq> None \<and>
   checkpoint_receiver env a g f l acknowledge rx \<noteq> None"
proof -
  assume r: "receiver_run cf n ds rx" and no: "cf_sources cf = (\<lambda>_ _ _. None)" and e: "env_ok cf env"
    and n: "n + 2 * cf_calls cf + cf_max cf * cf_calls cf + length calls < 2 ^ 64"
  note ok = receiver_run_inv [OF r]
  have "genuine_datagram (cf_sources cf) payload"
    by (simp add: genuine_datagram_def genuine_def genuine_header_def no split: sum.split)
  moreover have "n + 2 * cf_calls cf < 2 ^ 64" "n + cf_max cf * cf_calls cf < 2 ^ 64" "n + length calls < 2 ^ 64" using n by linarith+
  ultimately have "on_receive_datagram_frame env payload rx \<noteq> None"
    using on_receive_datagram_frame_ok [OF e _ ok, of payload] unfolding stepped_def by blast
  moreover have "tick_receiver env rx \<noteq> None" using tick_receiver_ok [OF e _ ok] \<open>n + cf_max cf * cf_calls cf < 2 ^ 64\<close> by blast
  moreover have "run_calls env calls rx \<noteq> None" using run_calls_ok [OF e ok] \<open>n + length calls < 2 ^ 64\<close> by blast
  moreover have "checkpoint_receiver env a g f l acknowledge rx \<noteq> None" using checkpoint_receiver_ok [OF e ok, of a g f l acknowledge] by blast
  ultimately show ?thesis by blast
qed

text \<open>
  C5. The receiver's storage is well formed and accounted for. In every reachable state there are 1024
  slots; each slot in use has its four arrays with as many entries as its capacity says, blocks
  as long as its symbol size, no more data symbols than symbols, an object that fits in them
  and a count equal to the number of received symbols; and the memory account is the
  memory of the other connections and the capacity of all slots, and it is within the limit.
\<close>

theorem receiver_storage_typed:
  "receiver_run cf n ds rx \<Longrightarrow>
   length (ap_assemblers (rx_pool rx)) = 1024 \<and> (\<forall>a \<in> set (ap_assemblers (rx_pool rx)). slot_wf a) \<and>
   ap_count (rx_pool rx) = card {i. i < 1024 \<and> fa_owner (ap_assemblers (rx_pool rx) ! i)} \<and>
   am_bytes (rx_memory rx) = cf_others cf + sum_list (map transport_assembler_capacity_bytes (ap_assemblers (rx_pool rx))) \<and>
   am_bytes (rx_memory rx) \<le> am_limit (rx_memory rx)"
proof -
  assume r: "receiver_run cf n ds rx"
  note p = rx_invD(1) [OF receiver_run_inv [OF r]]
  note d = pools_okD [OF p]
  have "slot_wf a" if "a \<in> set (ap_assemblers (rx_pool rx))" for a
    using that d(2,7) by (auto simp: in_set_conv_nth slot_ok_def)
  moreover have "ap_count (rx_pool rx) = card {i. i < 1024 \<and> fa_owner (ap_assemblers (rx_pool rx) ! i)}"
    using d(1) by (simp add: pool_ok_def pool_live_def)
  ultimately show ?thesis using d(4,5,7) by (simp add: slots_bytes_def)
qed

text \<open>
  C4. The last symbol delivers. When a datagram passes the checks and its object is in a slot
  that misses at most the data symbol of this datagram, and the object was not delivered
  before, the handler delivers the object at once, with the bytes of the sender.
\<close>

theorem last_symbol_delivers:
  "receiver_run cf n ds rx \<Longrightarrow> env_ok cf env \<Longrightarrow> ev_malloc_ok env \<Longrightarrow> n + 2 * cf_calls cf < 2 ^ 64 \<Longrightarrow>
   accepted env rx payload h track state \<Longrightarrow> genuine_datagram (cf_sources cf) payload \<Longrightarrow>
   cf_sources cf (fh_alias h) (fh_group_id h) (fh_object_id h) = Some so \<Longrightarrow>
   (fh_alias h, ss_generation state, fh_group_id h, fh_object_id h) \<notin> set (last_completions (map fst ds)) \<Longrightarrow>
   is_rateless_data track \<longrightarrow> \<not> object_was_delivered (ss_object_gap state) (fh_object_id h) \<Longrightarrow>
   one_missing h rx slot \<Longrightarrow>
   \<exists>rx' prio. on_receive_datagram_frame env payload rx = Some rx' \<and>
     receiver_run cf (n + 2 * cf_calls cf) (ds @ [((fh_alias h, ss_generation state, fh_group_id h, fh_object_id h),
       Event_object track (fh_group_id h) (fh_object_id h) (so_data so) (fh_is_keyframe h) prio)]) rx'"
  by (rule datagram_delivers)

lemma example_last:
  "accepted example_env example_received (example_datagram 1 [3, 0]) (example_header 1) (ts_track_id example_entry) (fresh_state 1) \<and>
   one_missing (example_header 1) example_received 0"
proof -
  have rt: "rx_table example_received = example_table" "rx_pool example_received = example_pool5"
    by (simp_all add: example_received_def count_datagram_def)
  have "tb_states example_table 4 = Some (fresh_state 1)" by (simp add: example_table_def)
  moreover have "fa_owner example_slot2" "slot_matches (example_header 1) example_slot2" "fa_total_symbols example_slot2 = 3"
    by (simp_all add: example_slot_defs slot_matches_def)
  moreover have "fst (received_symbol example_slot2 0)" by (simp add: received_symbol_def example_slot2_def)
  ultimately show ?thesis by (simp add: accepted_def one_missing_def rt example_decoded example_slot_at pool_live_def less_2_cases_iff)
qed

lemma example_delivered_run:
  obtains rx :: "unit receiver" and prio where "receiver_run example_config 1
    [((4, 1, 5, 6), Event_object (ts_track_id example_entry) 5 6 [1, 2, 3] True prio)] rx"
proof -
  have so: "cf_sources example_config (fh_alias (example_header 1)) (fh_group_id (example_header 1)) (fh_object_id (example_header 1)) = Some example_source"
    by (simp add: example_sources_def)
  have "\<not> is_rateless_data (ts_track_id example_entry)" by (simp add: is_rateless_data_def is_rateless_def)
  then obtain rx :: "unit receiver" and prio where "receiver_run example_config (1 + 2 * cf_calls example_config)
      ([] @ [((4, 1, 5, 6), Event_object (ts_track_id example_entry) 5 6 (so_data example_source) True prio)]) rx"
    using datagram_delivers [OF example_run2 example_env_ok _ _ _ _ so, of "example_datagram 1 [3, 0]" "ts_track_id example_entry" "fresh_state 1" 0]
      example_last example_genuine(2) by (auto simp: last_completions_def)
  then show thesis using that by (simp add: example_source_def)
qed

theorem last_symbol_delivers_witness:
  "\<exists>rx' prio. on_receive_datagram_frame example_env (example_datagram 1 [3, 0]) example_received = Some rx' \<and>
     receiver_run example_config 1 [((4, 1, 5, 6), Event_object (ts_track_id example_entry) 5 6 [1, 2, 3] True prio)] rx'"
proof -
  have so: "cf_sources example_config (fh_alias (example_header 1)) (fh_group_id (example_header 1)) (fh_object_id (example_header 1)) = Some example_source"
    by (simp add: example_sources_def)
  have "is_rateless_data (ts_track_id example_entry) \<longrightarrow> False" by (simp add: is_rateless_data_def is_rateless_def)
  then show ?thesis
    using last_symbol_delivers [OF example_run2 example_env_ok _ _ _ _ so, of "example_datagram 1 [3, 0]" "ts_track_id example_entry" "fresh_state 1" 0]
      example_last example_genuine(2) by (auto simp: last_completions_def example_source_def)
qed



definition anonymous_config :: receiver_config where
  "anonymous_config = example_config\<lparr>cf_sources := (\<lambda>_ _ _. None)\<rparr>"

lemma decoder_laws_none: "decoder_laws G params create decode \<Longrightarrow> decoder_laws (\<lambda>_ _ _. None) params create decode"
  unfolding decoder_laws_def by (simp only: option.distinct simp_thms) blast

theorem receiver_always_returns_witness:
  "on_receive_datagram_frame example_env [0x51, 1, 2] example_receiver \<noteq> None \<and> tick_receiver example_env example_receiver \<noteq> None \<and>
   run_calls example_env [App_subscribe example_track, App_unsubscribe example_track] example_receiver \<noteq> None \<and>
   checkpoint_receiver example_env 4 5 1 2 True example_receiver \<noteq> None"
proof (rule receiver_always_returns [of anonymous_config 0 "[]"])
  show "receiver_run anonymous_config 0 [] example_receiver"
  proof (rule receiver_run.start [where capacity = 1])
    show "transport_subscriptions_init True empty_table 1 = (True, rx_table example_receiver)"
      by (simp add: example_receiver_def transport_subscriptions_init_def)
    show "fec_cache_ok (cf_params anonymous_config) (rx_fec_cache example_receiver)"
      by (simp add: fec_cache_ok_def example_receiver_def transport_fec_cache_destroy_def zero_fec_entry_def)
  qed (simp_all add: example_receiver_def SIZE_MAX_def anonymous_config_def)
  show "env_ok anonymous_config example_env"
    using decoder_laws_none [OF example_laws] by (simp add: env_ok_def anonymous_config_def)
qed (simp_all add: anonymous_config_def)

theorem receiver_storage_typed_witness:
  "receiver_run example_config 1 [] example_received \<and> am_bytes (rx_memory example_received) = 42 \<and>
   sum_list (map transport_assembler_capacity_bytes (ap_assemblers (rx_pool example_received))) = 42"
  using receiver_storage_typed [OF example_run2] example_run2 by (simp add: example_received_def example_memory2_def)

end
