(* ===== verification/Placement.thy ===== *)
theory Placement
  imports Scheduler Repair Memory Subscriptions Wire
begin

text \<open>
  Sending the symbols of one object to one peer (\<open>publish_datagram_to_conn\<close> in
  \<open>transport_publish.c\<close> with \<open>transport_queue_datagram\<close> of \<open>transport_quicly.c\<close>): the paths of the
  connection are sampled, the object is scheduled on them, paths that cannot admit their share are
  dropped and the rest is planned again, and only a plan that all its paths admit is encoded and
  queued, one datagram per symbol.

  \<open>'s\<close> is quicly's state of the connection. What the code asks of quicly, pathflow, the clocks, the
  allocator and the codec is in the record \<open>send_env\<close>. The scheduler's log messages are left out.
\<close>

section \<open>Data\<close>

datatype publish_result = DELIVERED | BUFFERED | NO_RECIPIENTS | PARTIAL | BACKPRESSURE | INVALID_OBJECT | PUBLISH_ERROR

record 's send_env =
  se_path_stats :: "'s \<Rightarrow> nat \<Rightarrow> path_stats option"
  se_path_available :: "'s \<Rightarrow> nat \<Rightarrow> bool"
  se_path_datagrams :: "'s \<Rightarrow> nat \<Rightarrow> nat"
  se_send_datagram :: "'s \<Rightarrow> nat \<Rightarrow> bytes \<Rightarrow> 's"
  se_local_addrs :: "sockaddr list"
  se_egress_bytes :: "nat list"
  se_fixed :: fixed
  se_update :: "path_state \<Rightarrow> int \<Rightarrow> int \<Rightarrow> int \<Rightarrow> nat \<Rightarrow> int \<Rightarrow> path_state"
  se_optimize :: "path list \<Rightarrow> nat \<Rightarrow> nat \<Rightarrow> path list option"
  se_monotonic_ns :: nat
  se_now_ms :: nat
  se_send_time_ns :: "nat \<Rightarrow> u64"
  se_calloc :: "arena \<Rightarrow> nat \<Rightarrow> nat option"
  se_fec_now :: u64
  se_create :: "fec_type \<Rightarrow> nat \<Rightarrow> nat \<Rightarrow> nat \<Rightarrow> nat option"
  se_encode :: "nat \<Rightarrow> bytes list \<Rightarrow> bytes list option"

text \<open>What sending uses of \<open>transport_conn_t\<close>. The lists have an entry per physical link.\<close>

record 's sender =
  sn_world :: 's
  sn_subscriptions :: subscription_table
  sn_queued_datagrams :: "u16 list"
  sn_latest_owd :: "int list"
  sn_measurements :: "path_measurement list"
  sn_states :: "path_state list"
  sn_overridden :: "bool list"
  sn_budgets :: "path_budget list"
  sn_round_robin :: nat
  sn_admission_retry_at_ns :: nat

text \<open>What sending uses of \<open>transport_t\<close>.\<close>

record coder =
  cd_arena :: arena
  cd_fec_cache :: "fec_cache_entry list"

text \<open>A row of the \<open>active_\<close> arrays.\<close>

record active_path =
  av_physical :: nat
  av_quic :: nat
  av_state :: path_state
  av_sample :: path
  av_available :: nat

abbreviation (input) "DATAGRAM_QUEUE_CAPACITY \<equiv> (64 :: nat)"

section \<open>Operations\<close>

definition queue_datagram :: "'s send_env \<Rightarrow> nat \<Rightarrow> bytes \<Rightarrow> 's sender \<Rightarrow> bool \<times> 's sender" where
  "queue_datagram env path datagram sn =
     (if path \<ge> MAX_QUIC_PATHS \<or> se_path_stats env (sn_world sn) path = None \<or>
         se_path_datagrams env (sn_world sn) path \<ge> DATAGRAM_QUEUE_CAPACITY then (False, sn)
      else let depth_before = se_path_datagrams env (sn_world sn) path;
               world = se_send_datagram env (sn_world sn) path datagram;
               depth_after = se_path_datagrams env world path in
        (depth_after = sz_add depth_before 1, sn\<lparr>sn_world := world,
           sn_queued_datagrams := (sn_queued_datagrams sn)[path := of_nat depth_after]\<rparr>))"

definition note_admission_retry :: "fixed \<Rightarrow> path_budget \<Rightarrow> nat \<Rightarrow> nat \<Rightarrow> nat \<Rightarrow> nat \<Rightarrow> nat" where
  "note_admission_retry fp budget burst symbols now_ns retry_at =
     (let wait = transport_path_budget_wait fp budget burst symbols in
      if wait = 0 \<or> wait = SIZE_MAX then retry_at
      else let at = (if wait > SIZE_MAX - now_ns then SIZE_MAX else now_ns + wait) in
        if retry_at = 0 \<or> at < retry_at then at else retry_at)"

text \<open>The estimate of a path with the work that QUIC has in flight.\<close>

definition sample_in_flight :: "'s send_env \<Rightarrow> nat \<Rightarrow> path_stats \<Rightarrow> nat \<Rightarrow> nat \<Rightarrow> 's sender \<Rightarrow> path" where
  "sample_in_flight env estimate_symbol_size stats queued physical sn =
     (let sample = transport_path_estimate (se_fixed env) (Some stats) queued (se_egress_bytes env ! physical)
            estimate_symbol_size (sn_latest_owd sn ! physical) in
      sample\<lparr>pt_q := saturating_add (se_fixed env) (pt_q sample)
        (ceil_div (ps_bytes_in_flight stats) estimate_symbol_size)\<rparr>)"

text \<open>The cap of the measured rate and the backlog of the pacing budget.\<close>

definition cap_sample :: "'s send_env \<Rightarrow> nat \<Rightarrow> path_stats \<Rightarrow> path_measurement \<Rightarrow> path_state \<Rightarrow> path_budget \<Rightarrow> path \<Rightarrow> path \<times> path_budget" where
  "cap_sample env estimate_symbol_size stats measurement state budget sample =
     (let cap = transport_path_probe_cap (se_fixed env) measurement stats estimate_symbol_size (se_now_ms env);
          sample = (if pt_b sample > cap then sample\<lparr>pt_b := cap\<rparr> else sample);
          rate = (if pst_initialized state then pst_b_ewma state else pt_b sample);
          rate = (if rate > cap then cap else rate) in
      case transport_path_budget_update (se_fixed env) budget rate (se_monotonic_ns env) of
        (reserved, budget) \<Rightarrow> (if reserved > pt_q sample then sample\<lparr>pt_q := reserved\<rparr> else sample, budget))"

definition sample_path :: "'s send_env \<Rightarrow> nat \<Rightarrow> nat \<Rightarrow> 's sender \<Rightarrow> active_path option \<times> 's sender" where
  "sample_path env estimate_symbol_size physical sn =
     (case transport_path_get_stats_by_link (se_path_stats env (sn_world sn)) (se_local_addrs env) physical of
        None \<Rightarrow> (None, sn)
      | Some (mapped, stats) \<Rightarrow>
        if \<not> se_path_available env (sn_world sn) mapped then (None, sn)
        else let queued = se_path_datagrams env (sn_world sn) mapped in
          if queued \<ge> DATAGRAM_QUEUE_CAPACITY then (None, sn)
          else let sample = sample_in_flight env estimate_symbol_size stats queued physical sn;
                   active = \<lparr>av_physical = physical, av_quic = mapped, av_state = sn_states sn ! physical,
                     av_sample = sample, av_available = DATAGRAM_QUEUE_CAPACITY - queued\<rparr> in
            if sn_overridden sn ! physical then (Some active, sn)
            else (case cap_sample env estimate_symbol_size stats (sn_measurements sn ! physical) (sn_states sn ! physical)
                     (sn_budgets sn ! physical) sample of
              (sample, budget) \<Rightarrow>
                let state = transport_path_update_state (se_fixed env) (se_update env) (sn_states sn ! physical) sample False in
                (Some (active\<lparr>av_sample := sample,
                   av_state := (if pst_b_ewma state > pt_b sample then state\<lparr>pst_b_ewma := pt_b sample\<rparr> else state)\<rparr>),
                 sn\<lparr>sn_budgets := (sn_budgets sn)[physical := budget], sn_states := (sn_states sn)[physical := state]\<rparr>)))"

fun sample_paths :: "'s send_env \<Rightarrow> nat \<Rightarrow> nat list \<Rightarrow> 's sender \<Rightarrow> active_path list \<times> 's sender" where
  "sample_paths env z [] sn = ([], sn)"
| "sample_paths env z (physical # ps) sn =
     (case sample_path env z physical sn of (active, sn) \<Rightarrow>
        (case sample_paths env z ps sn of (actives, sn) \<Rightarrow>
           ((case active of None \<Rightarrow> actives | Some a \<Rightarrow> a # actives), sn)))"

text \<open>A rateless object is first sent without parity.\<close>

definition source_only :: "track_profile \<Rightarrow> nat \<Rightarrow> schedule \<Rightarrow> schedule" where
  "source_only profile data_symbols schedule =
     (if \<not> pr_fec_rateless profile then schedule
      else schedule\<lparr>sd_parity_symbols := 0,
        sd_paths := (if total_m (sd_paths schedule) = data_symbols
          then map (\<lambda>p. p\<lparr>pt_x := pt_m p\<rparr>) (sd_paths schedule) else sd_paths schedule)\<rparr>)"

text \<open>Whether a path cannot take its share now, and the time to try again.\<close>

definition path_blocked :: "'s send_env \<Rightarrow> 's sender \<Rightarrow> active_path \<Rightarrow> nat \<Rightarrow> nat \<Rightarrow> bool \<times> nat" where
  "path_blocked env sn active symbols retry_at =
     (if symbols = 0 then (False, retry_at)
      else let budget = sn_budgets sn ! av_physical active;
               burst = transport_path_budget_burst (se_fixed env) (pb_rate budget);
               burst = (if burst < symbols then symbols else burst);
               budget_blocked = (\<not> sn_overridden sn ! av_physical active \<and>
                 transport_path_budget_wait (se_fixed env) budget burst symbols \<noteq> 0) in
        (symbols > av_available active \<or> budget_blocked,
         if budget_blocked then note_admission_retry (se_fixed env) budget burst symbols (se_monotonic_ns env) retry_at
         else retry_at))"

fun find_blocked :: "'s send_env \<Rightarrow> 's sender \<Rightarrow> (active_path \<times> path) list \<Rightarrow> nat \<Rightarrow> nat option \<times> nat" where
  "find_blocked env sn [] retry_at = (None, retry_at)"
| "find_blocked env sn ((a, p) # rest) retry_at =
     (case path_blocked env sn a (pt_x p) retry_at of
        (True, retry_at) \<Rightarrow> (Some 0, retry_at)
      | (False, retry_at) \<Rightarrow>
          (case find_blocked env sn rest retry_at of (i, retry_at) \<Rightarrow> (map_option Suc i, retry_at)))"

lemma find_blocked_less: "find_blocked env sn rows r = (Some i, r') \<Longrightarrow> i < length rows"
  by (induction env sn rows r arbitrary: i r' rule: find_blocked.induct) (auto split: prod.splits bool.splits)

text \<open>The planning loop: every round drops a path that blocks.\<close>

function plan_paths :: "'s send_env \<Rightarrow> track_profile \<Rightarrow> nat \<Rightarrow> nat \<Rightarrow> u8 \<Rightarrow> active_path list \<Rightarrow> 's sender \<Rightarrow>
    (publish_result + active_path list \<times> schedule) \<times> 's sender" where
  "plan_paths env profile data_symbols symbol_size priority actives sn =
     (case transport_schedule_build (se_fixed env) (se_optimize env) (map av_state actives) data_symbols symbol_size
          (pr_fec_enabled profile \<or> pr_fec_rateless profile) priority (sn_round_robin sn) of
        None \<Rightarrow> (Inl PUBLISH_ERROR, sn)
      | Some (built, round_robin) \<Rightarrow>
        let schedule = source_only profile data_symbols built in
        (case find_blocked env sn (zip actives (sd_paths schedule)) (sn_admission_retry_at_ns sn) of
           (None, retry_at) \<Rightarrow>
             (Inr (actives, schedule), sn\<lparr>sn_round_robin := round_robin, sn_admission_retry_at_ns := retry_at\<rparr>)
         | (Some blocked, retry_at) \<Rightarrow>
             let rest = take blocked actives @ drop (Suc blocked) actives;
                 sn = sn\<lparr>sn_round_robin := round_robin, sn_admission_retry_at_ns := retry_at\<rparr> in
             if rest = [] then (Inl BACKPRESSURE, sn)
             else plan_paths env profile data_symbols symbol_size priority rest sn))"
  by pat_completeness auto
termination
  by (relation "measure (\<lambda>(env, profile, k, z, priority, actives, sn). length actives)")
    (auto dest!: find_blocked_less [OF sym])


section \<open>Encoding and queueing\<close>

definition arena_get :: "'s send_env \<Rightarrow> nat \<Rightarrow> arena \<Rightarrow> bool \<times> arena" where
  "arena_get env n arena = (case transport_arena_alloc (se_calloc env arena n) arena n of (p, arena) \<Rightarrow> (p \<noteq> None, arena))"

text \<open>Blocks are taken one by one until one is refused.\<close>

fun arena_get_all :: "'s send_env \<Rightarrow> nat list \<Rightarrow> arena \<Rightarrow> bool \<times> arena" where
  "arena_get_all env [] arena = (True, arena)"
| "arena_get_all env (n # ns) arena =
     (case arena_get env n arena of (True, arena) \<Rightarrow> arena_get_all env ns arena | (False, arena) \<Rightarrow> (False, arena))"

definition data_bytes :: "payload option \<Rightarrow> bytes" where
  "data_bytes d = (case d of None \<Rightarrow> [] | Some p \<Rightarrow> pl_bytes p)"

text \<open>The pointer arrays, then the source blocks that are not full, then the parity blocks.\<close>

definition get_blocks :: "'s send_env \<Rightarrow> nat \<Rightarrow> nat \<Rightarrow> nat \<Rightarrow> nat \<Rightarrow> arena \<Rightarrow> bool \<times> arena" where
  "get_blocks env size' symbol_size data_symbols parity_symbols arena =
     (case arena_get env (data_symbols * 8) arena of (data_ok, arena) \<Rightarrow>
      case arena_get env (parity_symbols * 8) arena of (parity_ok, arena) \<Rightarrow>
        if \<not> data_ok \<or> (parity_symbols > 0 \<and> \<not> parity_ok) then (False, arena)
        else (case arena_get_all env (map (\<lambda>i. symbol_size)
              (filter (\<lambda>i. (if i * symbol_size < size' then size' - i * symbol_size else 0) < symbol_size) [0..<data_symbols])) arena of
          (False, arena) \<Rightarrow> (False, arena)
        | (True, arena) \<Rightarrow> arena_get_all env (replicate parity_symbols symbol_size) arena))"

definition encode_parity :: "'s send_env \<Rightarrow> track_profile \<Rightarrow> bytes list \<Rightarrow> nat \<Rightarrow> nat \<Rightarrow> fec_cache_entry list \<Rightarrow>
    bytes list option \<times> fec_cache_entry list" where
  "encode_parity env profile data_blocks parity_symbols symbol_size cache =
     (if parity_symbols > 0
      then let t = (if pr_fec_rateless profile \<or> length data_blocks + parity_symbols > 255 then FEC_RAPTORQ else FEC_REED_SOLOMON) in
        (case transport_fec_cache_get (se_fec_now env) (se_create env t (length data_blocks) parity_symbols symbol_size)
            cache t (length data_blocks) parity_symbols symbol_size of
           (None, cache) \<Rightarrow> (None, cache)
         | (Some fec, cache) \<Rightarrow> (se_encode env fec data_blocks, cache))
      else (Some [], cache))"

definition symbol_header :: "moq_object \<Rightarrow> u8 \<Rightarrow> nat \<Rightarrow> nat \<Rightarrow> nat \<Rightarrow> u64 \<Rightarrow> nat \<Rightarrow> nat \<Rightarrow> wire_fec_header" where
  "symbol_header obj alias_id total_symbols data_symbols symbol_size send_time s mapped =
     \<lparr>fh_alias = alias_id, fh_is_keyframe = ob_is_keyframe obj, fh_priority = ob_priority obj, fh_path_id = of_nat mapped,
      fh_group_id = ob_group_id obj, fh_object_id = ob_object_id obj, fh_symbol_index = of_nat s,
      fh_total_symbols = of_nat total_symbols, fh_data_symbols = of_nat data_symbols, fh_symbol_size = of_nat symbol_size,
      fh_original_size = of_nat (data_size (ob_data obj)), fh_send_time_ns = send_time\<rparr>"

definition charge_path :: "'s send_env \<Rightarrow> nat \<Rightarrow> 's sender \<Rightarrow> 's sender" where
  "charge_path env physical sn =
     (if sn_overridden sn ! physical then sn
      else sn\<lparr>sn_budgets := (sn_budgets sn)[physical := transport_path_budget_charge (se_fixed env) (sn_budgets sn ! physical)]\<rparr>)"

fun send_symbols :: "'s send_env \<Rightarrow> (nat \<Rightarrow> nat \<Rightarrow> wire_fec_header) \<Rightarrow> (nat \<Rightarrow> bytes) \<Rightarrow> nat \<Rightarrow> active_path list \<Rightarrow> path list \<Rightarrow>
    nat \<Rightarrow> nat list \<Rightarrow> arena \<Rightarrow> 's sender \<Rightarrow> publish_result \<times> arena \<times> 's sender" where
  "send_symbols env header symbol symbol_size actives paths queued [] arena sn = (DELIVERED, arena, sn)"
| "send_symbols env header symbol symbol_size actives paths queued (s # ss) arena sn =
     (let pkt_len = WIRE_FEC_HEADER_SIZE + symbol_size; failed = (if queued > 0 then PARTIAL else PUBLISH_ERROR) in
      case arena_get env pkt_len arena of
        (False, arena) \<Rightarrow> (failed, arena, sn)
      | (True, arena) \<Rightarrow>
        (case transport_path_select_physical paths s of
           None \<Rightarrow> (failed, arena, sn)
         | Some scheduled \<Rightarrow>
           let mapped = av_quic (actives ! scheduled) in
           if mapped > 255 then (failed, arena, sn)
           else (case qlinq_wire_encode_fec_header pkt_len (header s mapped) of
             Inl _ \<Rightarrow> (failed, arena, sn)
           | Inr encoded \<Rightarrow>
             (case queue_datagram env mapped (encoded @ take symbol_size (symbol s)) sn of
                (False, sn) \<Rightarrow> (if queued > 0 then PARTIAL else BACKPRESSURE, arena, sn)
              | (True, sn) \<Rightarrow> send_symbols env header symbol symbol_size actives paths (queued + 1) ss arena
                  (charge_path env (av_physical (actives ! scheduled)) sn)))))"

text \<open>What happens once a plan is admitted; the second result is \<open>sent_total_symbols\<close> when it is set.\<close>

definition send_plan :: "'s send_env \<Rightarrow> moq_object \<Rightarrow> track_profile \<Rightarrow> nat \<Rightarrow> nat \<Rightarrow> active_path list \<Rightarrow> schedule \<Rightarrow> coder \<Rightarrow> 's sender \<Rightarrow>
    publish_result \<times> u16 option \<times> coder \<times> 's sender" where
  "send_plan env obj profile symbol_size data_symbols actives schedule cd sn =
     (let parity_symbols = sd_parity_symbols schedule; total_symbols = data_symbols + parity_symbols;
          sent = Some (of_nat total_symbols); arena = cd_arena cd; finish = (\<lambda>arena cache. \<lparr>cd_arena = transport_arena_reset arena, cd_fec_cache = cache\<rparr>) in
      if total_symbols > FEC_MAX_TOTAL_SYMBOLS \<or> total_symbols > 65535 then (INVALID_OBJECT, None, cd, sn)
      else if total_x (sd_paths schedule) \<noteq> total_symbols then (PUBLISH_ERROR, None, cd, sn)
      else let data_blocks = map (data_block (data_bytes (ob_data obj)) symbol_size) [0..<data_symbols] in
        case get_blocks env (data_size (ob_data obj)) symbol_size data_symbols parity_symbols arena of
          (False, arena) \<Rightarrow> (PUBLISH_ERROR, sent, finish arena (cd_fec_cache cd), sn)
        | (True, arena) \<Rightarrow>
          (case encode_parity env profile data_blocks parity_symbols symbol_size (cd_fec_cache cd) of
             (None, cache) \<Rightarrow> (PUBLISH_ERROR, sent, finish arena cache, sn)
           | (Some parity_blocks, cache) \<Rightarrow>
             (case transport_subscriptions_find_alias (sn_subscriptions sn) (ob_track_id obj) of
                None \<Rightarrow> (NO_RECIPIENTS, sent, finish arena cache, sn)
              | Some alias_id \<Rightarrow>
                (case send_symbols env (\<lambda>s. symbol_header obj alias_id total_symbols data_symbols symbol_size (se_send_time_ns env s) s)
                    (\<lambda>s. if s < data_symbols then data_blocks ! s else parity_blocks ! (s - data_symbols)) symbol_size
                    actives (sd_paths schedule) 0 [0..<total_symbols] arena sn of
                   (result, arena, sn) \<Rightarrow> (result, sent, finish arena cache,
                     if result = DELIVERED then sn\<lparr>sn_admission_retry_at_ns := 0\<rparr> else sn)))))"

definition publish_datagram_to_conn :: "'s send_env \<Rightarrow> moq_object \<Rightarrow> track_profile \<Rightarrow> nat \<Rightarrow> nat \<Rightarrow> nat \<Rightarrow> coder \<Rightarrow> 's sender \<Rightarrow>
    publish_result \<times> u16 option \<times> coder \<times> 's sender" where
  "publish_datagram_to_conn env obj profile symbol_size estimate_symbol_size data_symbols cd sn =
     (case sample_paths env estimate_symbol_size [0..<length (se_local_addrs env)] (sn\<lparr>sn_admission_retry_at_ns := 0\<rparr>) of
        ([], sn) \<Rightarrow> (BACKPRESSURE, None, cd, sn)
      | (actives, sn) \<Rightarrow>
        (case plan_paths env profile data_symbols symbol_size (ob_priority obj) actives sn of
           (Inl result, sn) \<Rightarrow> (result, None, cd, sn)
         | (Inr (actives, schedule), sn) \<Rightarrow> send_plan env obj profile symbol_size data_symbols actives schedule cd sn))"

end
