(* ===== verification/Admission.thy ===== *)
theory Admission
  imports Placement
begin

text \<open>
  Lemmas about sending an object to one peer (\<open>Placement\<close>): what sampling and planning leave alone, that every
  admitted plan covers the object exactly, what the send loop puts on the queues of quicly, and what it
  charges to the budget of every link.
\<close>

section \<open>What quicly promises of its datagram queues\<close>

text \<open>
  quicly keeps the datagrams of a path in order, and one that is submitted becomes the last of its
  path or is dropped. \<open>queue\<close> reads the queues off quicly's state.
\<close>

definition quicly_queues :: "'s send_env \<Rightarrow> ('s \<Rightarrow> nat \<Rightarrow> bytes list) \<Rightarrow> bool" where
  "quicly_queues env queue \<longleftrightarrow> (\<forall>w p. se_path_datagrams env w p = length (queue w p)) \<and>
     (\<forall>w p d. queue (se_send_datagram env w p d) = queue w \<or>
        queue (se_send_datagram env w p d) = (queue w)(p := queue w p @ [d]))"

definition enqueue_all :: "(nat \<times> bytes) list \<Rightarrow> (nat \<Rightarrow> bytes list) \<Rightarrow> nat \<Rightarrow> bytes list" where
  "enqueue_all ds q p = q p @ map snd (filter (\<lambda>d. fst d = p) ds)"

lemma enqueue_all_Nil [simp]: "enqueue_all [] q = q"
  by (rule ext) (simp add: enqueue_all_def)

lemma enqueue_all_Cons: "enqueue_all ((p, d) # ds) q = enqueue_all ds (q(p := q p @ [d]))"
  by (rule ext) (simp add: enqueue_all_def)

lemma queue_datagram_queues:
  assumes q: "quicly_queues env queue" and r: "queue_datagram env p d sn = (ok, sn')"
  shows "queue (sn_world sn') = (if ok then (queue (sn_world sn))(p := queue (sn_world sn) p @ [d]) else queue (sn_world sn)) \<and>
    (ok \<longrightarrow> p < MAX_QUIC_PATHS \<and> length (queue (sn_world sn) p) < DATAGRAM_QUEUE_CAPACITY) \<and>
    (\<exists>w l. sn' = sn\<lparr>sn_world := w, sn_queued_datagrams := l\<rparr>)"
proof -
  let ?w = "sn_world sn"
  show ?thesis
  proof (cases "p \<ge> MAX_QUIC_PATHS \<or> se_path_stats env ?w p = None \<or> se_path_datagrams env ?w p \<ge> DATAGRAM_QUEUE_CAPACITY")
    case True
    then show ?thesis using r by (auto simp: queue_datagram_def intro!: exI [of _ "sn_world sn"] exI [of _ "sn_queued_datagrams sn"])
  next
    case False
    have len: "se_path_datagrams env w p' = length (queue w p')" for w p' using q by (simp add: quicly_queues_def)
    have "length (queue ?w p) < 64" using False by (simp add: len)
    then have one: "sz_add (length (queue ?w p)) 1 = Suc (length (queue ?w p))" by (simp add: sz_add_def SIZE_MAX_def)
    have r': "ok \<longleftrightarrow> length (queue (se_send_datagram env ?w p d) p) = Suc (length (queue ?w p))"
      "sn' = sn\<lparr>sn_world := se_send_datagram env ?w p d,
         sn_queued_datagrams := (sn_queued_datagrams sn)[p := of_nat (length (queue (se_send_datagram env ?w p d) p))]\<rparr>"
      using r unfolding queue_datagram_def if_not_P [OF False] Let_def unfolding len one by auto
    have s: "queue (se_send_datagram env ?w p d) = queue ?w \<or>
        queue (se_send_datagram env ?w p d) = (queue ?w)(p := queue ?w p @ [d])"
      using q unfolding quicly_queues_def by blast
    then have "queue (sn_world sn') = (if ok then (queue ?w)(p := queue ?w p @ [d]) else queue ?w)"
      using r' by auto
    moreover have "ok \<longrightarrow> p < MAX_QUIC_PATHS \<and> length (queue ?w p) < DATAGRAM_QUEUE_CAPACITY" using False len by auto
    ultimately show ?thesis using r'(2) by blast
  qed
qed

section \<open>Sampling\<close>

text \<open>What stays the same, and the shape of the rows.\<close>

definition sampled :: "'s send_env \<Rightarrow> 's sender \<Rightarrow> 's sender \<Rightarrow> bool" where
  "sampled env sn sn' \<longleftrightarrow> (\<exists>b s. length b = length (sn_budgets sn) \<and> length s = length (sn_states sn) \<and>
     sn' = sn\<lparr>sn_budgets := b, sn_states := s\<rparr>)"

text \<open>The QUIC path of a link: the first one on its local address.\<close>

definition link_path :: "'s send_env \<Rightarrow> 's \<Rightarrow> nat \<Rightarrow> nat option" where
  "link_path env world i = map_option fst (transport_path_get_stats_by_link (se_path_stats env world) (se_local_addrs env) i)"

definition row_ok :: "'s send_env \<Rightarrow> 's sender \<Rightarrow> active_path \<Rightarrow> bool" where
  "row_ok env sn a \<longleftrightarrow> av_physical a < length (se_local_addrs env) \<and> av_quic a < MAX_QUIC_PATHS \<and>
     se_path_available env (sn_world sn) (av_quic a) \<and> 0 < av_available a \<and>
     av_available a + se_path_datagrams env (sn_world sn) (av_quic a) = DATAGRAM_QUEUE_CAPACITY \<and>
     link_path env (sn_world sn) (av_physical a) = Some (av_quic a)"

lemma sampled_refl [simp]: "sampled env sn sn"
  unfolding sampled_def by (rule exI [of _ "sn_budgets sn"], rule exI [of _ "sn_states sn"]) simp

lemma sampled_update:
  "length b = length (sn_budgets sn) \<Longrightarrow> length s = length (sn_states sn) \<Longrightarrow> sampled env sn (sn\<lparr>sn_budgets := b, sn_states := s\<rparr>)"
  unfolding sampled_def by blast

lemma sampled_trans: "sampled env a b \<Longrightarrow> sampled env b c \<Longrightarrow> sampled env a c"
  unfolding sampled_def by fastforce

lemma sampled_same:
  "sampled env sn sn' \<Longrightarrow> sn_world sn' = sn_world sn \<and> sn_subscriptions sn' = sn_subscriptions sn \<and>
     sn_overridden sn' = sn_overridden sn \<and> length (sn_budgets sn') = length (sn_budgets sn) \<and> sn_round_robin sn' = sn_round_robin sn"
  unfolding sampled_def by auto

lemma stats_by_link_less:
  "transport_path_get_stats_by_link query addrs i = Some (p, stats) \<Longrightarrow> i < length addrs \<and> p < MAX_QUIC_PATHS"
  by (auto simp: transport_path_get_stats_by_link_def first_index_Some split: if_splits option.splits)

lemma sample_path_ok:
  assumes "sample_path env z physical sn = (a, sn')"
  shows "sampled env sn sn' \<and> (\<forall>r. a = Some r \<longrightarrow> row_ok env sn r \<and> av_physical r = physical)"
proof (cases "transport_path_get_stats_by_link (se_path_stats env (sn_world sn)) (se_local_addrs env) physical")
  case None
  then show ?thesis using assms by (simp add: sample_path_def)
next
  case (Some ms)
  obtain m stats where ms: "ms = (m, stats)" by (cases ms)
  note l = stats_by_link_less [OF Some [unfolded ms]]
  show ?thesis
  proof (cases "\<not> se_path_available env (sn_world sn) m \<or> se_path_datagrams env (sn_world sn) m \<ge> 64 \<or> sn_overridden sn ! physical")
    case True
    then show ?thesis using assms Some ms l by (auto simp: sample_path_def Let_def row_ok_def link_path_def split: if_splits)
  next
    case False
    obtain sample budget where c: "cap_sample env z stats (sn_measurements sn ! physical) (sn_states sn ! physical)
        (sn_budgets sn ! physical) (sample_in_flight env z stats (se_path_datagrams env (sn_world sn) m) physical sn) = (sample, budget)"
      by (metis surj_pair)
    define st where "st = transport_path_update_state (se_fixed env) (se_update env) (sn_states sn ! physical) sample False"
    have r: "sn' = sn\<lparr>sn_budgets := (sn_budgets sn)[physical := budget], sn_states := (sn_states sn)[physical := st]\<rparr>"
      "a = Some \<lparr>av_physical = physical, av_quic = m, av_state = (if pst_b_ewma st > pt_b sample then st\<lparr>pst_b_ewma := pt_b sample\<rparr> else st),
         av_sample = sample, av_available = 64 - se_path_datagrams env (sn_world sn) m\<rparr>"
      using assms Some ms False c by (auto simp: sample_path_def Let_def st_def)
    have "sampled env sn sn'" unfolding r by (rule sampled_update) simp_all
    then show ?thesis using l False r(2) Some ms by (auto simp: row_ok_def link_path_def)
  qed
qed

lemma sample_paths_ok:
  "sample_paths env z ps sn = (rows, sn') \<Longrightarrow> distinct ps \<Longrightarrow>
   sampled env sn sn' \<and> (\<forall>a \<in> set rows. row_ok env sn a \<and> av_physical a \<in> set ps) \<and> distinct (map av_physical rows)"
proof (induction ps arbitrary: sn rows sn')
  case (Cons p ps)
  obtain a sn1 where a: "sample_path env z p sn = (a, sn1)" by (metis surj_pair)
  obtain rest sn2 where b: "sample_paths env z ps sn1 = (rest, sn2)" by (metis surj_pair)
  note s = sample_path_ok [OF a]
  note ih = Cons.IH [OF b]
  have r: "rows = (case a of None \<Rightarrow> rest | Some a \<Rightarrow> a # rest)" "sn' = sn2" using Cons.prems a b by auto
  have w: "row_ok env sn1 x = row_ok env sn x" for x using sampled_same [of env sn sn1] s by (simp add: row_ok_def)
  have "sampled env sn sn'" using sampled_trans s ih Cons.prems(2) unfolding r by (metis distinct.simps(2))
  then show ?case using ih s Cons.prems(2) w unfolding r by (cases a) auto
qed simp


section \<open>Planning\<close>

lemma source_only_facts:
  assumes "length (sd_paths s) = n" "total_x (sd_paths s) = k + sd_parity_symbols s"
    and "pr_fec_rateless profile \<longrightarrow> total_m (sd_paths s) = k \<or> sd_parity_symbols s = 0"
  shows "length (sd_paths (source_only profile k s)) = n \<and>
    total_x (sd_paths (source_only profile k s)) = k + sd_parity_symbols (source_only profile k s) \<and>
    (pr_fec_rateless profile \<longrightarrow> sd_parity_symbols (source_only profile k s) = 0) \<and>
    (\<not> pr_fec_rateless profile \<longrightarrow> source_only profile k s = s)"
  using assms by (auto simp: source_only_def comp_def)

definition admits :: "'s send_env \<Rightarrow> 's sender \<Rightarrow> active_path \<Rightarrow> nat \<Rightarrow> bool" where
  "admits env sn a x \<longleftrightarrow> x = 0 \<or> (x \<le> av_available a \<and> (sn_overridden sn ! av_physical a \<or>
     transport_path_budget_wait (se_fixed env) (sn_budgets sn ! av_physical a)
       (max (transport_path_budget_burst (se_fixed env) (pb_rate (sn_budgets sn ! av_physical a))) x) x = 0))"

lemma path_blocked_iff: "fst (path_blocked env sn a x t) \<longleftrightarrow> \<not> admits env sn a x"
  by (auto simp: path_blocked_def admits_def Let_def max_def)

lemma find_blocked_None:
  "find_blocked env sn rows t = (None, t') \<Longrightarrow> \<forall>(a, p) \<in> set rows. admits env sn a (pt_x p)"
proof (induction env sn rows t arbitrary: t' rule: find_blocked.induct)
  case (2 env sn a p rest t)
  obtain b u where b: "path_blocked env sn a (pt_x p) t = (b, u)" by (metis surj_pair)
  have nb: "\<not> b" using 2(2) b by (cases b) simp_all
  obtain i v where r: "find_blocked env sn rest u = (i, v)" by (metis surj_pair)
  have "i = None" using 2(2) b nb r by simp
  then have "\<forall>(a, p) \<in> set rest. admits env sn a (pt_x p)" using 2(1) b nb r by simp
  moreover have "admits env sn a (pt_x p)" using path_blocked_iff [of env sn a "pt_x p" t] b nb by simp
  ultimately show ?case by simp
qed simp

definition plan_ok :: "'s send_env \<Rightarrow> track_profile \<Rightarrow> nat \<Rightarrow> active_path list \<Rightarrow> 's sender \<Rightarrow> active_path list \<Rightarrow> schedule \<Rightarrow> bool" where
  "plan_ok env profile k rows sn rows' schedule \<longleftrightarrow> set rows' \<subseteq> set rows \<and>
     (distinct (map av_physical rows) \<longrightarrow> distinct (map av_physical rows')) \<and> length (sd_paths schedule) = length rows' \<and>
     total_x (sd_paths schedule) = k + sd_parity_symbols schedule \<and> 0 < k \<and>
     (pr_fec_rateless profile \<or> \<not> pr_fec_enabled profile \<longrightarrow> sd_parity_symbols schedule = 0) \<and>
     (pr_fec_enabled profile \<and> \<not> pr_fec_rateless profile \<and> k \<noteq> 1 \<longrightarrow> 0 < sd_parity_symbols schedule) \<and>
     (\<forall>i < length rows'. admits env sn (rows' ! i) (pt_x (sd_paths schedule ! i)))"

lemmas [simp del] = plan_paths.simps

lemma build_source_only:
  assumes opt: "optimizer_ok (se_optimize env)"
    and b: "transport_schedule_build (se_fixed env) (se_optimize env) (map av_state rows) k z
          (pr_fec_enabled profile \<or> pr_fec_rateless profile) prio rr0 = Some (built, rr)"
    and s: "s = source_only profile k built"
  shows "0 < k \<and> length (sd_paths s) = length rows \<and> total_x (sd_paths s) = k + sd_parity_symbols s \<and>
    (pr_fec_rateless profile \<or> \<not> pr_fec_enabled profile \<longrightarrow> sd_parity_symbols s = 0) \<and>
    (pr_fec_enabled profile \<and> \<not> pr_fec_rateless profile \<and> k \<noteq> 1 \<longrightarrow> 0 < sd_parity_symbols s)"
proof -
  let ?fec = "pr_fec_enabled profile \<or> pr_fec_rateless profile"
  note x = schedule_build_facts [OF opt b [symmetric]]
  have k: "0 < k" using conjunct1 [OF x] by (cases k) simp_all
  note y = conjunct2 [OF x, rule_format, OF refl]
  have b: "length (sd_paths built) = length rows" "total_x (sd_paths built) = k + sd_parity_symbols built"
    "\<not> ?fec \<Longrightarrow> sd_parity_symbols built = 0" "?fec \<Longrightarrow> k = 1 \<Longrightarrow> sd_parity_symbols built = 0"
    "?fec \<Longrightarrow> k \<noteq> 1 \<Longrightarrow> 0 < sd_parity_symbols built" "?fec \<Longrightarrow> k \<noteq> 1 \<Longrightarrow> total_m (sd_paths built) = k"
    using y by simp_all
  have "pr_fec_rateless profile \<longrightarrow> total_m (sd_paths built) = k \<or> sd_parity_symbols built = 0"
    using b(4,6) by (cases "k = 1") simp_all
  note f = source_only_facts [OF b(1,2) this, folded s]
  show ?thesis using f k b(3,5) by (cases "pr_fec_rateless profile") auto
qed

lemma plan_paths_ok:
  "plan_paths env profile k z prio rows sn = (res, sn') \<Longrightarrow> optimizer_ok (se_optimize env) \<Longrightarrow>
   (\<exists>rr t. sn' = sn\<lparr>sn_round_robin := rr, sn_admission_retry_at_ns := t\<rparr>) \<and>
   (case res of Inl e \<Rightarrow> e = PUBLISH_ERROR \<or> e = BACKPRESSURE
    | Inr (rows', schedule) \<Rightarrow> plan_ok env profile k rows sn rows' schedule)"
proof (induction env profile k z prio rows sn arbitrary: res sn' rule: plan_paths.induct)
  case (1 env profile k z prio rows sn)
  note e = 1(2) [unfolded plan_paths.simps [of env profile k z prio rows sn]]
  let ?build = "transport_schedule_build (se_fixed env) (se_optimize env) (map av_state rows) k z
          (pr_fec_enabled profile \<or> pr_fec_rateless profile) prio (sn_round_robin sn)"
  show ?case
  proof (cases ?build)
    case None
    have "sn = sn\<lparr>sn_round_robin := sn_round_robin sn, sn_admission_retry_at_ns := sn_admission_retry_at_ns sn\<rparr>" by simp
    then have "\<exists>rr t. sn = sn\<lparr>sn_round_robin := rr, sn_admission_retry_at_ns := t\<rparr>" by blast
    moreover have "res = Inl PUBLISH_ERROR" "sn' = sn" using e None by simp_all
    ultimately show ?thesis by simp
  next
    case (Some br)
    obtain built rr where br: "br = (built, rr)" by (cases br)
    define s where "s = source_only profile k built"
    obtain bl t where f: "find_blocked env sn (zip rows (sd_paths s)) (sn_admission_retry_at_ns sn) = (bl, t)" by (metis surj_pair)
    let ?sn = "sn\<lparr>sn_round_robin := rr, sn_admission_retry_at_ns := t\<rparr>"
    note s = build_source_only [OF 1(3) Some [unfolded br] s_def]
    show ?thesis
    proof (cases bl)
      case None
      have r: "res = Inr (rows, s)" "sn' = ?sn" using e Some br f None by (simp_all add: s_def [symmetric])
      have "admits env sn (rows ! i) (pt_x (sd_paths s ! i))" if i: "i < length rows" for i
      proof -
        have "(rows ! i, sd_paths s ! i) \<in> set (zip rows (sd_paths s))" using i s by (auto simp: set_zip)
        then show ?thesis using bspec [OF find_blocked_None [OF f [unfolded None]]] by fast
      qed
      then have "plan_ok env profile k rows sn rows s" using s by (simp add: plan_ok_def)
      then show ?thesis using r by auto
    next
      case bl: (Some i)
      let ?rest = "take i rows @ drop (Suc i) rows"
      show ?thesis
      proof (cases "?rest = []")
        case True
        then have "res = Inl BACKPRESSURE" "sn' = ?sn"
          using e Some br f bl by (simp_all add: s_def [symmetric] del: append_is_Nil_conv)
        then show ?thesis by auto
      next
        case False
        then have p: "plan_paths env profile k z prio ?rest ?sn = (res, sn')"
          using e Some br f bl by (simp add: s_def [symmetric] del: append_is_Nil_conv)
        note ih = 1(1) [OF Some br [symmetric] s_def f [symmetric] bl refl refl False p 1(3)]
        have sub: "set ?rest \<subseteq> set rows" using set_take_subset set_drop_subset by fastforce
        have di: "distinct (map av_physical rows) \<longrightarrow> distinct (map av_physical ?rest)"
          using set_take_disj_set_drop_if_distinct [of "map av_physical rows" i "Suc i"]
          by (simp add: take_map [symmetric] drop_map [symmetric])
        have ad: "admits env ?sn a x = admits env sn a x" for a x by (simp add: admits_def)
        have "plan_ok env profile k ?rest ?sn rows' schedule \<Longrightarrow> plan_ok env profile k rows sn rows' schedule" for rows' schedule
          using sub di unfolding plan_ok_def ad by blast
        then show ?thesis using ih by (auto split: sum.splits)
      qed
    qed
  qed
qed


section \<open>Queueing the symbols\<close>

definition datagram_bytes :: "nat \<Rightarrow> wire_fec_header \<Rightarrow> bytes \<Rightarrow> bytes" where
  "datagram_bytes symbol_size h symbol =
     (case qlinq_wire_encode_fec_header (WIRE_FEC_HEADER_SIZE + symbol_size) h of Inl _ \<Rightarrow> [] | Inr e \<Rightarrow> e @ take symbol_size symbol)"

text \<open>The row of a symbol, and the datagram that carries it with its QUIC path.\<close>

definition symbol_row :: "active_path list \<Rightarrow> path list \<Rightarrow> nat \<Rightarrow> active_path" where
  "symbol_row rows paths s = rows ! (symbol_owners paths ! s)"

definition planned :: "(nat \<Rightarrow> nat \<Rightarrow> wire_fec_header) \<Rightarrow> (nat \<Rightarrow> bytes) \<Rightarrow> nat \<Rightarrow> active_path list \<Rightarrow> path list \<Rightarrow> nat \<Rightarrow> nat \<times> bytes" where
  "planned header symbol z rows paths s =
     (av_quic (symbol_row rows paths s), datagram_bytes z (header s (av_quic (symbol_row rows paths s))) (symbol s))"

lemma encode_fec_header_fits:
  "\<exists>e. qlinq_wire_encode_fec_header (WIRE_FEC_HEADER_SIZE + z) h = Inr e"
  by (simp add: qlinq_wire_encode_fec_header_def)

lemma symbol_owner_row:
  assumes "s < total_x paths" "length paths = length rows"
  shows "transport_path_select_physical paths s = Some (symbol_owners paths ! s)" "symbol_row rows paths s \<in> set rows"
proof -
  have "symbol_owners paths ! s \<in> set (symbol_owners paths)" using assms(1) by (simp add: length_owners)
  then have "symbol_owners paths ! s < length rows" using assms(2) by (auto simp: symbol_owners_def)
  then show "symbol_row rows paths s \<in> set rows" by (simp add: symbol_row_def)
  show "transport_path_select_physical paths s = Some (symbol_owners paths ! s)"
    using assms(1) by (simp add: select_physical_owners length_owners)
qed

text \<open>Symbols among \<open>ss\<close> that go to a physical link.\<close>

definition link_load :: "active_path list \<Rightarrow> path list \<Rightarrow> nat list \<Rightarrow> nat \<Rightarrow> nat" where
  "link_load rows paths ss physical = length (filter (\<lambda>s. av_physical (symbol_row rows paths s) = physical) ss)"

definition charged_budget :: "fixed \<Rightarrow> bool \<Rightarrow> nat \<Rightarrow> path_budget \<Rightarrow> path_budget" where
  "charged_budget fp overridden n b = (if overridden then b else b\<lparr>pb_debt := pb_debt b + int n * fp_one fp\<rparr>)"

definition charged :: "'s send_env \<Rightarrow> (nat \<Rightarrow> nat) \<Rightarrow> 's sender \<Rightarrow> 's sender \<Rightarrow> bool" where
  "charged env load sn sn' \<longleftrightarrow> sn_subscriptions sn' = sn_subscriptions sn \<and> sn_overridden sn' = sn_overridden sn \<and>
     length (sn_budgets sn') = length (sn_budgets sn) \<and>
     (\<forall>i < length (sn_budgets sn). sn_budgets sn' ! i =
        charged_budget (se_fixed env) (sn_overridden sn ! i) (load i) (sn_budgets sn ! i))"

lemma charged_none: "sn_subscriptions sn' = sn_subscriptions sn \<Longrightarrow> sn_overridden sn' = sn_overridden sn \<Longrightarrow> sn_budgets sn' = sn_budgets sn \<Longrightarrow>
    charged env (\<lambda>i. 0) sn sn'"
  by (simp add: charged_def charged_budget_def)

lemma charged_budget_charge:
  "charged_budget fp ov n (if ov then b else transport_path_budget_charge fp b) = charged_budget fp ov (Suc n) b"
  by (simp add: charged_budget_def transport_path_budget_charge_def distrib_right)

lemma charge_path_budget:
  "i < length (sn_budgets sn) \<Longrightarrow> sn_budgets (charge_path env k sn) ! i =
     (if k = i then if sn_overridden sn ! i then sn_budgets sn ! i else transport_path_budget_charge (se_fixed env) (sn_budgets sn ! i)
      else sn_budgets sn ! i)"
  by (simp add: charge_path_def)

lemma charge_path_same [simp]:
  "sn_world (charge_path env k sn) = sn_world sn" "sn_subscriptions (charge_path env k sn) = sn_subscriptions sn"
  "sn_overridden (charge_path env k sn) = sn_overridden sn" "length (sn_budgets (charge_path env k sn)) = length (sn_budgets sn)"
  by (simp_all add: charge_path_def)

lemma charged_step:
  assumes "charged env load (charge_path env k sn) sn'"
  shows "charged env (\<lambda>i. (if k = i then 1 else 0) + load i) sn sn'"
proof -
  have "sn_budgets sn' ! i = charged_budget (se_fixed env) (sn_overridden sn ! i) ((if k = i then 1 else 0) + load i) (sn_budgets sn ! i)"
    if i: "i < length (sn_budgets sn)" for i
  proof -
    have "sn_budgets sn' ! i = charged_budget (se_fixed env) (sn_overridden sn ! i) (load i) (sn_budgets (charge_path env k sn) ! i)"
      using assms i by (simp add: charged_def)
    then show ?thesis using charged_budget_charge [of "se_fixed env" "sn_overridden sn ! i" "load i" "sn_budgets sn ! i"]
      by (cases "k = i") (simp_all only: charge_path_budget [OF i] if_True if_False simp_thms plus_1_eq_Suc add_0)
  qed
  then show ?thesis using assms by (simp add: charged_def)
qed

definition send_outcome :: "publish_result \<Rightarrow> nat \<Rightarrow> nat \<Rightarrow> nat \<Rightarrow> bool" where
  "send_outcome r n j m \<longleftrightarrow> (case r of DELIVERED \<Rightarrow> j = m | PARTIAL \<Rightarrow> 0 < n + j \<and> j < m
     | BACKPRESSURE \<Rightarrow> n + j = 0 \<and> 0 < m | PUBLISH_ERROR \<Rightarrow> n + j = 0 \<and> 0 < m | _ \<Rightarrow> False)"

lemma send_symbols_ok:
  assumes q: "quicly_queues env queue" and rows: "\<forall>a \<in> set rows. av_quic a < MAX_QUIC_PATHS" "length paths = length rows"
  shows "send_symbols env header symbol z rows paths n ss ar sn = (r, ar', sn') \<Longrightarrow> \<forall>s \<in> set ss. s < total_x paths \<Longrightarrow>
    \<exists>j \<le> length ss. queue (sn_world sn') = enqueue_all (map (planned header symbol z rows paths) (take j ss)) (queue (sn_world sn)) \<and>
      charged env (link_load rows paths (take j ss)) sn sn' \<and> send_outcome r n j (length ss) \<and>
      ((\<forall>p. length (queue (sn_world sn) p) \<le> DATAGRAM_QUEUE_CAPACITY) \<longrightarrow> (\<forall>p. length (queue (sn_world sn') p) \<le> DATAGRAM_QUEUE_CAPACITY))"
proof (induction ss arbitrary: n ar sn)
  case Nil
  then show ?case by (auto simp: send_outcome_def link_load_def charged_none)
next
  case (Cons s ss)
  let ?row = "symbol_row rows paths s"
  let ?m = "av_quic ?row"
  have stop: ?case if "r = (if n > 0 then PARTIAL else PUBLISH_ERROR) \<or> r = (if n > 0 then PARTIAL else BACKPRESSURE)"
    "queue (sn_world sn') = queue (sn_world sn)" "sn_subscriptions sn' = sn_subscriptions sn" "sn_overridden sn' = sn_overridden sn"
    "sn_budgets sn' = sn_budgets sn"
    using that charged_none [of sn' sn env] by (intro exI [of _ 0]) (auto simp: send_outcome_def link_load_def)
  note sel = symbol_owner_row [of s paths rows, OF _ rows(2)]
  have lt: "s < total_x paths" using Cons.prems(2) by simp
  have m: "?m < MAX_QUIC_PATHS" using sel(2) [OF lt] rows(1) by blast
  obtain e where e: "qlinq_wire_encode_fec_header (WIRE_FEC_HEADER_SIZE + z) (header s ?m) = Inr e" using encode_fec_header_fits by blast
  have d: "datagram_bytes z (header s ?m) (symbol s) = e @ take z (symbol s)" using e by (simp add: datagram_bytes_def)
  obtain ok ar1 where a: "arena_get env (WIRE_FEC_HEADER_SIZE + z) ar = (ok, ar1)" by (metis surj_pair)
  obtain sent sn1 where qd: "queue_datagram env ?m (e @ take z (symbol s)) sn = (sent, sn1)" by (metis surj_pair)
  note qq = queue_datagram_queues [OF q qd]
  show ?case
  proof (cases "ok \<and> sent")
    case False
    then show ?thesis
      using Cons.prems(1) a sel(1) [OF lt] m e qd qq stop
      by (cases ok; cases sent) (auto simp: symbol_row_def [symmetric] Let_def)
  next
    case True
    let ?sn = "charge_path env (av_physical ?row) sn1"
    have rest: "send_symbols env header symbol z rows paths (n + 1) ss ar1 ?sn = (r, ar', sn')"
      using Cons.prems(1) a sel(1) [OF lt] m e qd True by (simp add: symbol_row_def [symmetric] Let_def)
    have w: "sn_world ?sn = sn_world sn1" by (simp add: charge_path_def)
    obtain j where j: "j \<le> length ss" "queue (sn_world sn') = enqueue_all (map (planned header symbol z rows paths) (take j ss)) (queue (sn_world sn1))"
      "charged env (link_load rows paths (take j ss)) ?sn sn'" "send_outcome r (n + 1) j (length ss)"
      "(\<forall>p. length (queue (sn_world sn1) p) \<le> DATAGRAM_QUEUE_CAPACITY) \<longrightarrow> (\<forall>p. length (queue (sn_world sn') p) \<le> DATAGRAM_QUEUE_CAPACITY)"
      using Cons.IH [OF rest] Cons.prems(2) unfolding w by auto
    have q1: "queue (sn_world sn1) = (queue (sn_world sn))(?m := queue (sn_world sn) ?m @ [e @ take z (symbol s)])"
      "length (queue (sn_world sn) ?m) < DATAGRAM_QUEUE_CAPACITY" using qq True by simp_all
    have "planned header symbol z rows paths s = (?m, e @ take z (symbol s))" by (simp add: planned_def d)
    then have "queue (sn_world sn') = enqueue_all (map (planned header symbol z rows paths) (take (Suc j) (s # ss))) (queue (sn_world sn))"
      using j(2) by (simp add: enqueue_all_Cons q1(1))
    moreover have "charged env (link_load rows paths (take (Suc j) (s # ss))) sn sn'"
    proof -
      have "charged env (link_load rows paths (take j ss)) ?sn sn' \<longleftrightarrow> charged env (link_load rows paths (take j ss)) (charge_path env (av_physical ?row) sn) sn'"
        using qq by (auto simp: charged_def charge_path_def)
      then have "charged env (\<lambda>i. (if av_physical ?row = i then 1 else 0) + link_load rows paths (take j ss) i) sn sn'"
        using charged_step j(3) by blast
      moreover have "(\<lambda>i. (if av_physical ?row = i then 1 else 0) + link_load rows paths (take j ss) i) = link_load rows paths (take (Suc j) (s # ss))"
        by (rule ext) (simp add: link_load_def)
      ultimately show ?thesis by simp
    qed
    moreover have "send_outcome r n (Suc j) (length (s # ss))" using j(4) by (auto simp: send_outcome_def split: publish_result.splits)
    moreover have "(\<forall>p. length (queue (sn_world sn) p) \<le> DATAGRAM_QUEUE_CAPACITY) \<longrightarrow> (\<forall>p. length (queue (sn_world sn') p) \<le> DATAGRAM_QUEUE_CAPACITY)"
      using j(5) q1 by (auto simp: fun_upd_def)
    ultimately show ?thesis using j(1) by (intro exI [of _ "Suc j"]) simp
  qed
qed


section \<open>The share of a link\<close>

lemma link_load_row:
  assumes d: "distinct (map av_physical rows)" and l: "length paths = length rows" and j: "j < length rows"
  shows "link_load rows paths [0..<total_x paths] (av_physical (rows ! j)) = pt_x (paths ! j)"
proof -
  let ?o = "symbol_owners paths"
  have "av_physical (symbol_row rows paths s) = av_physical (rows ! j) \<longleftrightarrow> ?o ! s = j" if s: "s < total_x paths" for s
  proof -
    have "?o ! s \<in> set ?o" using s by (simp add: length_owners)
    then have "?o ! s < length rows" using l by (auto simp: symbol_owners_def)
    then show ?thesis using nth_eq_iff_index_eq [OF d, of "?o ! s" j] j by (simp add: symbol_row_def)
  qed
  then have "link_load rows paths [0..<total_x paths] (av_physical (rows ! j)) = length (filter (\<lambda>s. ?o ! s = j) [0..<length ?o])"
    unfolding link_load_def length_owners by (intro arg_cong [where f = length] filter_cong) auto
  also have "\<dots> = length (filter (\<lambda>x. x = j) (map ((!) ?o) [0..<length ?o]))" by (simp add: filter_map comp_def)
  also have "\<dots> = count_list ?o j" unfolding map_nth count_list_eq_length_filter by (intro arg_cong [where f = length] filter_cong) auto
  also have "\<dots> = pt_x (paths ! j)" using j l by (intro count_owners) simp
  finally show ?thesis .
qed

lemma link_load_other:
  assumes "length paths = length rows" "i \<notin> av_physical ` set rows"
  shows "link_load rows paths [0..<total_x paths] i = 0"
proof -
  have "av_physical (symbol_row rows paths s) \<noteq> i" if "s < total_x paths" for s
    using symbol_owner_row(2) [OF that assms(1)] assms(2) by blast
  then show ?thesis by (simp add: link_load_def filter_empty_conv)
qed

lemma link_load_sum:
  assumes "\<forall>a \<in> set rows. av_physical a < n" "length paths = length rows" "\<forall>s \<in> set ss. s < total_x paths"
  shows "(\<Sum>i < n. link_load rows paths ss i) = length ss"
  using assms(3)
proof (induction ss)
  case (Cons s ss)
  have "av_physical (symbol_row rows paths s) < n" using symbol_owner_row(2) [OF _ assms(2)] assms(1) Cons.prems by auto
  moreover have "link_load rows paths (s # ss) = (\<lambda>i. (if i = av_physical (symbol_row rows paths s) then 1 else 0) + link_load rows paths ss i)"
    by (rule ext) (auto simp: link_load_def)
  ultimately show ?case using Cons by (simp add: sum.distrib)
qed (simp add: link_load_def)

text \<open>The present rate of a link: the smoothed one if there is one, capped by what was measured.\<close>

definition link_rate :: "'s send_env \<Rightarrow> nat \<Rightarrow> 's sender \<Rightarrow> nat \<Rightarrow> int" where
  "link_rate env z sn i =
     (case transport_path_get_stats_by_link (se_path_stats env (sn_world sn)) (se_local_addrs env) i of None \<Rightarrow> 0
      | Some (p, stats) \<Rightarrow>
        let cap = transport_path_probe_cap (se_fixed env) (sn_measurements sn ! i) stats z (se_now_ms env);
            estimate = pt_b (sample_in_flight env z stats (se_path_datagrams env (sn_world sn) p) i sn) in
        min cap (if pst_initialized (sn_states sn ! i) then pst_b_ewma (sn_states sn ! i) else estimate))"

definition refreshed :: "'s send_env \<Rightarrow> nat \<Rightarrow> 's sender \<Rightarrow> nat \<Rightarrow> path_budget" where
  "refreshed env z sn i = snd (transport_path_budget_update (se_fixed env) (sn_budgets sn ! i) (link_rate env z sn i) (se_monotonic_ns env))"

lemma link_rate_same:
  "sn_world sn' = sn_world sn \<Longrightarrow> sn_measurements sn' = sn_measurements sn \<Longrightarrow> sn_latest_owd sn' = sn_latest_owd sn \<Longrightarrow>
   sn_states sn' ! i = sn_states sn ! i \<Longrightarrow> link_rate env z sn' i = link_rate env z sn i"
  by (simp add: link_rate_def sample_in_flight_def split: option.split)

text \<open>The budget of a sampled link is refreshed to its rate.\<close>

lemma cap_sample_budget:
  "snd (cap_sample env z stats m st b sample) = snd (transport_path_budget_update (se_fixed env) b
     (min (transport_path_probe_cap (se_fixed env) m stats z (se_now_ms env)) (if pst_initialized st then pst_b_ewma st else pt_b sample))
     (se_monotonic_ns env))"
proof -
  have m: "(if (c :: int) < r then c else r) = min c r" "min c (if c < b then c else b) = min c b" for c r b by simp_all
  show ?thesis
    unfolding cap_sample_def Let_def case_prod_unfold snd_conv m by (simp add: min_def if_distrib)
qed

lemma sample_path_budget:
  assumes "sample_path env z physical sn = (a, sn')" "physical < length (sn_budgets sn)"
  shows "(\<forall>i. i \<noteq> physical \<longrightarrow> sn_budgets sn' ! i = sn_budgets sn ! i \<and> link_rate env z sn' i = link_rate env z sn i) \<and>
    (\<forall>r. a = Some r \<longrightarrow> \<not> sn_overridden sn ! physical \<longrightarrow> sn_budgets sn' ! physical = refreshed env z sn physical)"
proof (cases "transport_path_get_stats_by_link (se_path_stats env (sn_world sn)) (se_local_addrs env) physical")
  case None
  then show ?thesis using assms by (simp add: sample_path_def)
next
  case (Some ms)
  obtain m stats where ms: "ms = (m, stats)" by (cases ms)
  show ?thesis
  proof (cases "\<not> se_path_available env (sn_world sn) m \<or> se_path_datagrams env (sn_world sn) m \<ge> 64 \<or> sn_overridden sn ! physical")
    case True
    then show ?thesis using assms Some ms by (auto simp: sample_path_def Let_def split: if_splits)
  next
    case False
    obtain sample budget where c: "cap_sample env z stats (sn_measurements sn ! physical) (sn_states sn ! physical)
        (sn_budgets sn ! physical) (sample_in_flight env z stats (se_path_datagrams env (sn_world sn) m) physical sn) = (sample, budget)"
      by (rule prod.exhaust)
    define st where "st = transport_path_update_state (se_fixed env) (se_update env) (sn_states sn ! physical) sample False"
    have r: "sn' = sn\<lparr>sn_budgets := (sn_budgets sn)[physical := budget], sn_states := (sn_states sn)[physical := st]\<rparr>"
      using assms(1) Some ms False c by (auto simp: sample_path_def Let_def st_def)
    have "budget = refreshed env z sn physical"
      using cap_sample_budget [of env z stats "sn_measurements sn ! physical" "sn_states sn ! physical" "sn_budgets sn ! physical"
        "sample_in_flight env z stats (se_path_datagrams env (sn_world sn) m) physical sn"]
      by (simp add: c refreshed_def link_rate_def Some ms Let_def)
    then show ?thesis using assms(2) by (auto simp: r intro: link_rate_same)
  qed
qed

lemma sample_paths_budget:
  "sample_paths env z ps sn = (rows, sn') \<Longrightarrow> distinct ps \<Longrightarrow> \<forall>i \<in> set ps. i < length (sn_budgets sn) \<Longrightarrow>
   (\<forall>i. i \<notin> set ps \<longrightarrow> sn_budgets sn' ! i = sn_budgets sn ! i) \<and>
   (\<forall>a \<in> set rows. \<not> sn_overridden sn ! av_physical a \<longrightarrow> sn_budgets sn' ! av_physical a = refreshed env z sn (av_physical a))"
proof (induction ps arbitrary: sn rows sn')
  case (Cons p ps)
  obtain a sn1 where a: "sample_path env z p sn = (a, sn1)" by (rule prod.exhaust)
  obtain rest sn2 where b: "sample_paths env z ps sn1 = (rest, sn2)" by (rule prod.exhaust)
  have r: "rows = (case a of None \<Rightarrow> rest | Some a \<Rightarrow> a # rest)" "sn' = sn2" using Cons.prems a b by auto
  note s = sampled_same [OF conjunct1 [OF sample_path_ok [OF a]]]
  have k: "p < length (sn_budgets sn)" "p \<notin> set ps" using Cons.prems by simp_all
  note q = sample_path_budget [OF a k(1)]
  have keep: "refreshed env z sn1 i = refreshed env z sn i" if "i \<noteq> p" for i using q that by (simp add: refreshed_def)
  have ih: "\<And>i. i \<notin> set ps \<Longrightarrow> sn_budgets sn' ! i = sn_budgets sn1 ! i"
    "\<And>x. x \<in> set rest \<Longrightarrow> \<not> sn_overridden sn ! av_physical x \<Longrightarrow> sn_budgets sn' ! av_physical x = refreshed env z sn1 (av_physical x)"
    using Cons.IH [OF b] Cons.prems(2,3) s unfolding r(2) by auto
  have rest: "av_physical x \<in> set ps" if "x \<in> set rest" for x using sample_paths_ok [OF b] Cons.prems(2) that by auto
  have "sn_budgets sn' ! av_physical x = refreshed env z sn (av_physical x)"
    if x: "x \<in> set rows" "\<not> sn_overridden sn ! av_physical x" for x
  proof (cases "x \<in> set rest")
    case True
    then have "av_physical x \<noteq> p" using rest k(2) by metis
    then show ?thesis using ih(2) [OF True x(2)] keep by simp
  next
    case False
    then have "a = Some x" using x(1) r(1) by (auto split: option.splits)
    then have "av_physical x = p" using sample_path_ok [OF a] by blast
    then show ?thesis using q x(2) ih(1) [OF k(2)] \<open>a = Some x\<close> by metis
  qed
  then show ?case using ih(1) q by auto
qed simp


section \<open>Publishing to a connection\<close>

text \<open>The symbols of an object of \<open>k\<close> blocks with these parity blocks, and the datagrams that carry a prefix of them.\<close>

definition object_symbol :: "moq_object \<Rightarrow> nat \<Rightarrow> nat \<Rightarrow> bytes list \<Rightarrow> nat \<Rightarrow> bytes" where
  "object_symbol obj z k parity s =
     (if s < k then data_block (data_bytes (ob_data obj)) z s else parity ! (s - k))"

text \<open>
  What the codec libraries promise of encoding: a codec has the parameters it was created with, and
  it makes that many parity blocks of the size of the source blocks. \<open>params\<close> tells the parameters of a handle.
\<close>

definition encoder_laws :: "'s send_env \<Rightarrow> (nat \<Rightarrow> fec_type \<times> nat \<times> nat \<times> nat) \<Rightarrow> bool" where
  "encoder_laws env params \<longleftrightarrow> (\<forall>t k p z h. se_create env t k p z = Some h \<longrightarrow> params h = (t, k, p, z)) \<and>
     (\<forall>h t k p z blocks parity. params h = (t, k, p, z) \<longrightarrow> length blocks = k \<longrightarrow> (\<forall>b \<in> set blocks. length b = z) \<longrightarrow>
        se_encode env h blocks = Some parity \<longrightarrow> length parity = p \<and> (\<forall>b \<in> set parity. length b = z))"

definition parity_of :: "'s send_env \<Rightarrow> (nat \<Rightarrow> fec_type \<times> nat \<times> nat \<times> nat) \<Rightarrow> nat \<Rightarrow> nat \<Rightarrow> bytes list \<Rightarrow> bytes list \<Rightarrow> bool" where
  "parity_of env params p z blocks parity \<longleftrightarrow> (if p = 0 then parity = []
     else \<exists>fec t. params fec = (t, length blocks, p, z) \<and> se_encode env fec blocks = Some parity)"

definition carries :: "'s send_env \<Rightarrow> (nat \<Rightarrow> fec_type \<times> nat \<times> nat \<times> nat) \<Rightarrow> moq_object \<Rightarrow> nat \<Rightarrow> nat \<Rightarrow> u8 \<Rightarrow> nat \<Rightarrow> bytes list \<Rightarrow> (nat \<times> bytes) list \<Rightarrow> bool" where
  "carries env params obj z k alias_id m parity ds \<longleftrightarrow> 0 < k \<and> k \<le> m \<and> m \<le> FEC_MAX_TOTAL_SYMBOLS \<and> length ds \<le> m \<and>
     parity_of env params (m - k) z (map (data_block (data_bytes (ob_data obj)) z) [0..<k]) parity \<and>
     (\<forall>i < length ds. fst (ds ! i) < MAX_QUIC_PATHS \<and>
        snd (ds ! i) = datagram_bytes z (symbol_header obj alias_id m k z (se_send_time_ns env i) i (fst (ds ! i)))
          (object_symbol obj z k parity i))"

lemma encode_parity_of:
  assumes e: "encode_parity env profile blocks p z cache = (res, cache')" and laws: "encoder_laws env params" "fec_cache_ok params cache"
  shows "fec_cache_ok params cache' \<and> (\<forall>parity. res = Some parity \<longrightarrow> parity_of env params p z blocks parity)"
proof (cases "p = 0")
  case True
  then show ?thesis using e laws(2) by (auto simp: encode_parity_def parity_of_def)
next
  case False
  define t where "t = (if pr_fec_rateless profile \<or> length blocks + p > 255 then FEC_RAPTORQ else FEC_REED_SOLOMON)"
  obtain fec cache1 where g: "transport_fec_cache_get (se_fec_now env) (se_create env t (length blocks) p z) cache t (length blocks) p z = (fec, cache1)"
    by (rule prod.exhaust)
  have new: "params h = (t, length blocks, p, z)" if "se_create env t (length blocks) p z = Some h" for h
    using laws(1) that by (simp add: encoder_laws_def)
  note ok = fec_get_ok [OF laws(2) new g]
  show ?thesis
  proof (cases fec)
    case None
    then show ?thesis using e False g ok by (simp add: encode_parity_def t_def [symmetric])
  next
    case (Some h)
    then have "res = se_encode env h blocks" "cache' = cache1" using e False g by (simp_all add: encode_parity_def t_def [symmetric])
    then show ?thesis using ok Some False by (auto simp: parity_of_def)
  qed
qed

definition arena_empty :: "arena \<Rightarrow> bool" where
  "arena_empty a \<longleftrightarrow> ar_offset a = 0 \<and> ar_fallbacks a = []"

lemma arena_empty_reset [simp]: "arena_empty (transport_arena_reset a)"
  by (simp add: arena_empty_def transport_arena_reset_def)

definition publication :: "'s send_env \<Rightarrow> (nat \<Rightarrow> fec_type \<times> nat \<times> nat \<times> nat) \<Rightarrow> ('s \<Rightarrow> nat \<Rightarrow> bytes list) \<Rightarrow> moq_object \<Rightarrow> nat \<Rightarrow> nat \<Rightarrow> 's sender \<Rightarrow>
    publish_result \<Rightarrow> u16 option \<Rightarrow> coder \<Rightarrow> 's sender \<Rightarrow> bool" where
  "publication env params queue obj z k sn r sent cd' sn' \<longleftrightarrow> (\<exists>ds.
     queue (sn_world sn') = enqueue_all ds (queue (sn_world sn)) \<and>
     (ds \<noteq> [] \<longrightarrow> (\<exists>alias_id m parity. transport_subscriptions_find_alias (sn_subscriptions sn) (ob_track_id obj) = Some alias_id \<and>
        sent = Some (of_nat m) \<and> carries env params obj z k alias_id m parity ds \<and>
        (r = DELIVERED \<longrightarrow> length ds = m) \<and> (r = PARTIAL \<longrightarrow> length ds < m))) \<and>
     (r = DELIVERED \<or> r = PARTIAL \<longleftrightarrow> ds \<noteq> []) \<and> r \<noteq> BUFFERED \<and> (sent \<noteq> None \<longrightarrow> arena_empty (cd_arena cd')) \<and> fec_cache_ok params (cd_fec_cache cd'))"

lemma publication_none:
  "queue (sn_world sn') = queue (sn_world sn) \<Longrightarrow> r \<noteq> DELIVERED \<Longrightarrow> r \<noteq> PARTIAL \<Longrightarrow> r \<noteq> BUFFERED \<Longrightarrow>
   (sent \<noteq> None \<Longrightarrow> arena_empty (cd_arena cd')) \<Longrightarrow> fec_cache_ok params (cd_fec_cache cd') \<Longrightarrow> publication env params queue obj z k sn r sent cd' sn'"
  unfolding publication_def by (rule exI [of _ "[]"]) auto

lemma send_plan_ok:
  assumes q: "quicly_queues env queue" and laws: "encoder_laws env params" "fec_cache_ok params (cd_fec_cache cd)"
    and rows: "\<forall>a \<in> set rows. av_quic a < MAX_QUIC_PATHS"
    and plan: "length (sd_paths schedule) = length rows" "total_x (sd_paths schedule) = k + sd_parity_symbols schedule" "0 < k"
    and r: "send_plan env obj profile z k rows schedule cd sn = (r, sent, cd', sn')"
  shows "publication env params queue obj z k sn r sent cd' sn' \<and>
    (r = DELIVERED \<longrightarrow> sent = Some (of_nat (total_x (sd_paths schedule))) \<and>
       charged env (link_load rows (sd_paths schedule) [0..<total_x (sd_paths schedule)]) sn sn' \<and>
       (\<exists>ds. queue (sn_world sn') = enqueue_all ds (queue (sn_world sn)) \<and>
          map fst ds = map (\<lambda>s. av_quic (symbol_row rows (sd_paths schedule) s)) [0..<total_x (sd_paths schedule)]))"
proof -
  let ?p = "sd_parity_symbols schedule"
  let ?m = "k + ?p"
  let ?blocks = "map (data_block (data_bytes (ob_data obj)) z) [0..<k]"
  show ?thesis
  proof (cases "?m > 1024")
    case True
    then have "r = INVALID_OBJECT" "sent = None" "sn' = sn" "cd' = cd" using r by (simp_all add: send_plan_def Let_def)
    then show ?thesis using laws(2) by (auto intro: publication_none)
  next
    case m: False
    obtain got ar1 where g: "get_blocks env (data_size (ob_data obj)) z k ?p (cd_arena cd) = (got, ar1)" by (rule prod.exhaust)
    show ?thesis
    proof (cases got)
      case False
      then have "r = PUBLISH_ERROR" "sn' = sn" "arena_empty (cd_arena cd')" "cd_fec_cache cd' = cd_fec_cache cd"
        using r m g plan(2) by (auto simp: send_plan_def Let_def)
      then show ?thesis using laws(2) by (auto intro: publication_none)
    next
      case got: True
      obtain parity cache where c: "encode_parity env profile ?blocks ?p z (cd_fec_cache cd) = (parity, cache)" by (rule prod.exhaust)
      note par = encode_parity_of [OF c laws]
      show ?thesis
      proof (cases parity)
        case None
        then have "r = PUBLISH_ERROR" "sn' = sn" "arena_empty (cd_arena cd')" "cd_fec_cache cd' = cache"
          using r m g got c plan(2) by (auto simp: send_plan_def Let_def)
        then show ?thesis using par by (auto intro: publication_none)
      next
        case parity: (Some pb)
        show ?thesis
        proof (cases "transport_subscriptions_find_alias (sn_subscriptions sn) (ob_track_id obj)")
          case None
          then have "r = NO_RECIPIENTS" "sn' = sn" "arena_empty (cd_arena cd')" "cd_fec_cache cd' = cache"
            using r m g got c parity plan(2) by (auto simp: send_plan_def Let_def)
          then show ?thesis using par by (auto intro: publication_none)
        next
          case al: (Some alias_id)
          let ?header = "\<lambda>s. symbol_header obj alias_id ?m k z (se_send_time_ns env s) s"
          let ?symbol = "\<lambda>s. if s < k then ?blocks ! s else pb ! (s - k)"
          obtain r0 ar0 sn0 where s: "send_symbols env ?header ?symbol z rows (sd_paths schedule) 0 [0..<?m] ar1 sn = (r0, ar0, sn0)"
            by (rule prod_cases3)
          have "\<not> (?m > FEC_MAX_TOTAL_SYMBOLS \<or> ?m > 65535)" using m by simp
          note r' = r [unfolded send_plan_def Let_def if_not_P [OF this] plan(2) g c parity al got]
          have "(r0, Some (of_nat ?m), \<lparr>cd_arena = transport_arena_reset ar0, cd_fec_cache = cache\<rparr>,
              if r0 = DELIVERED then sn0\<lparr>sn_admission_retry_at_ns := 0\<rparr> else sn0) = (r, sent, cd', sn')"
            using r' by (simp only: s got prod.case bool.case option.case simp_thms if_False)
          then have res: "r = r0" "sent = Some (of_nat ?m)" "arena_empty (cd_arena cd')" "queue (sn_world sn') = queue (sn_world sn0)"
            "charged env load sn sn' = charged env load sn sn0" "cd_fec_cache cd' = cache" for load
            by (cases "r0 = DELIVERED"; auto simp: charged_def)+
          have "\<forall>s \<in> set [0..<?m]. s < total_x (sd_paths schedule)" using plan(2) by simp
          from send_symbols_ok [OF q rows plan(1) s this] obtain j where j: "j \<le> ?m"
            "queue (sn_world sn0) = enqueue_all (map (planned ?header ?symbol z rows (sd_paths schedule)) (take j [0..<?m])) (queue (sn_world sn))"
            "charged env (link_load rows (sd_paths schedule) (take j [0..<?m])) sn sn0" "send_outcome r0 0 j ?m"
            unfolding length_upt minus_nat.diff_0 by blast
          let ?ds = "map (planned ?header ?symbol z rows (sd_paths schedule)) [0..<j]"
          have t: "take j [0..<?m] = [0..<j]" using j(1) by (simp add: min_def)
          have "fst (?ds ! i) < MAX_QUIC_PATHS \<and>
            snd (?ds ! i) = datagram_bytes z (symbol_header obj alias_id ?m k z (se_send_time_ns env i) i (fst (?ds ! i))) (object_symbol obj z k pb i)"
            if "i < j" for i
          proof -
            have "i < total_x (sd_paths schedule)" using that j(1) plan(2) by simp
            then have "av_quic (symbol_row rows (sd_paths schedule) i) < MAX_QUIC_PATHS"
              using symbol_owner_row(2) [OF _ plan(1)] rows by blast
            moreover have "?symbol i = object_symbol obj z k pb i" by (simp add: object_symbol_def)
            ultimately show ?thesis using that by (simp add: planned_def)
          qed
          then have car: "carries env params obj z k alias_id ?m pb ?ds"
            using m j(1) plan(3) par parity by (simp add: carries_def)
          have out: "r = DELIVERED \<Longrightarrow> j = ?m" "r = PARTIAL \<Longrightarrow> j < ?m" "r = DELIVERED \<or> r = PARTIAL \<longleftrightarrow> ?ds \<noteq> []" "r \<noteq> BUFFERED"
            using j(4) plan(3) unfolding res(1) send_outcome_def by (auto split: publish_result.splits)
          have "publication env params queue obj z k sn r sent cd' sn'"
            unfolding publication_def
          proof (intro exI [of _ ?ds] conjI impI)
            show "queue (sn_world sn') = enqueue_all ?ds (queue (sn_world sn))" using j(2) unfolding t res(4) .
            show "\<exists>alias_id m parity. transport_subscriptions_find_alias (sn_subscriptions sn) (ob_track_id obj) = Some alias_id \<and>
              sent = Some (of_nat m) \<and> carries env params obj z k alias_id m parity ?ds \<and> (r = DELIVERED \<longrightarrow> length ?ds = m) \<and> (r = PARTIAL \<longrightarrow> length ?ds < m)"
              using al res(2) car out(1,2) by (intro exI [of _ alias_id] exI [of _ ?m] exI [of _ pb]) simp
          qed (use out res(3,6) par in \<open>simp_all only: not_False_eq_True\<close>)
          moreover have "r = DELIVERED \<longrightarrow> sent = Some (of_nat (total_x (sd_paths schedule))) \<and>
              charged env (link_load rows (sd_paths schedule) [0..<total_x (sd_paths schedule)]) sn sn'"
            using out(1) j(3) res(2) unfolding t res(5) plan(2) by blast
          moreover have "r = DELIVERED \<longrightarrow> (\<exists>ds. queue (sn_world sn') = enqueue_all ds (queue (sn_world sn)) \<and>
              map fst ds = map (\<lambda>s. av_quic (symbol_row rows (sd_paths schedule) s)) [0..<total_x (sd_paths schedule)])"
            using out(1) j(2) unfolding t res(4) plan(2) by (intro impI exI [of _ ?ds]) (simp add: planned_def)
          ultimately show ?thesis by blast
        qed
      qed
    qed
  qed
qed


lemma publish_steps:
  assumes opt: "optimizer_ok (se_optimize env)"
    and r: "publish_datagram_to_conn env obj profile z est k cd sn = (r, sent, cd', sn')"
  obtains (blocked) "r = BACKPRESSURE \<or> r = PUBLISH_ERROR" "sent = None" "sn_world sn' = sn_world sn" "cd' = cd"
  | (planned) rows0 sn1 rows schedule sn2 where
      "sample_paths env est [0..<length (se_local_addrs env)] (sn\<lparr>sn_admission_retry_at_ns := 0\<rparr>) = (rows0, sn1)"
      "plan_ok env profile k rows0 sn1 rows schedule" "\<exists>rr t. sn2 = sn1\<lparr>sn_round_robin := rr, sn_admission_retry_at_ns := t\<rparr>"
      "send_plan env obj profile z k rows schedule cd sn2 = (r, sent, cd', sn')"
proof -
  let ?sn = "sn\<lparr>sn_admission_retry_at_ns := 0\<rparr>"
  obtain rows0 sn1 where a: "sample_paths env est [0..<length (se_local_addrs env)] ?sn = (rows0, sn1)" by (rule prod.exhaust)
  note s = sampled_same [OF conjunct1 [OF sample_paths_ok [OF a distinct_upt]]]
  obtain res sn2 where p: "plan_paths env profile k z (ob_priority obj) rows0 sn1 = (res, sn2)" by (rule prod.exhaust)
  note q = plan_paths_ok [OF p opt]
  have w: "sn_world sn2 = sn_world sn" using q s by auto
  show thesis
  proof (cases "rows0 = []")
    case True
    then have "r = BACKPRESSURE" "sent = None" "sn' = sn1" "cd' = cd" using r a by (simp_all add: publish_datagram_to_conn_def)
    then show thesis using blocked s by simp
  next
    case False
    then obtain a0 rest where rows0: "rows0 = a0 # rest" by (cases rows0) auto
    show thesis
    proof (cases res)
      case (Inl e)
      then have "r = e" "sent = None" "sn' = sn2" "cd' = cd" using r a p rows0 by (simp_all add: publish_datagram_to_conn_def)
      then show thesis using blocked q w Inl by auto
    next
      case (Inr rs)
      obtain rows schedule where rs: "rs = (rows, schedule)" by (cases rs)
      have "send_plan env obj profile z k rows schedule cd sn2 = (r, sent, cd', sn')"
        using r a p rows0 Inr rs by (simp add: publish_datagram_to_conn_def)
      moreover have "plan_ok env profile k rows0 sn1 rows schedule" "\<exists>rr t. sn2 = sn1\<lparr>sn_round_robin := rr, sn_admission_retry_at_ns := t\<rparr>"
        using q Inr rs by simp_all
      ultimately show thesis using planned a by blast
    qed
  qed
qed

lemma planned_rows:
  assumes a: "sample_paths env est [0..<length (se_local_addrs env)] sn = (rows0, sn1)" and p: "plan_ok env profile k rows0 sn1 rows schedule"
  shows "\<forall>a \<in> set rows. row_ok env sn a" "distinct (map av_physical rows)" "set rows \<subseteq> set rows0"
  using sample_paths_ok [OF a distinct_upt] p unfolding plan_ok_def by blast+

lemma publish_is_publication:
  assumes q: "quicly_queues env queue" and laws: "encoder_laws env params" "fec_cache_ok params (cd_fec_cache cd)" and opt: "optimizer_ok (se_optimize env)"
    and r: "publish_datagram_to_conn env obj profile z est k cd sn = (r, sent, cd', sn')"
  shows "publication env params queue obj z k sn r sent cd' sn'"
  using opt r
proof (cases rule: publish_steps)
  case blocked
  then show ?thesis using laws(2) by (intro publication_none) auto
next
  case (planned rows0 sn1 rows schedule sn2)
  note s = sampled_same [OF conjunct1 [OF sample_paths_ok [OF planned(1) distinct_upt]]]
  have same: "sn_world sn2 = sn_world sn" "sn_subscriptions sn2 = sn_subscriptions sn" using s planned(3) by auto
  have rows: "\<forall>a \<in> set rows. av_quic a < MAX_QUIC_PATHS" using planned_rows(1) [OF planned(1,2)] by (simp add: row_ok_def)
  have plan: "length (sd_paths schedule) = length rows" "total_x (sd_paths schedule) = k + sd_parity_symbols schedule" "0 < k"
    using planned(2) by (simp_all add: plan_ok_def)
  show ?thesis using send_plan_ok [OF q laws rows plan planned(4)] unfolding publication_def same by blast
qed

text \<open>
  The share of a link: it fits behind what waits on the link's QUIC path, and unless its rate is
  overridden the budget of the link, refreshed to its rate, admits the share as a whole and is charged for it.
\<close>

definition paced :: "'s send_env \<Rightarrow> nat \<Rightarrow> 's sender \<Rightarrow> 's sender \<Rightarrow> nat \<Rightarrow> nat \<Rightarrow> bool" where
  "paced env z sn sn' i n \<longleftrightarrow>
     (0 < n \<longrightarrow> (\<forall>p. link_path env (sn_world sn) i = Some p \<longrightarrow> se_path_datagrams env (sn_world sn) p + n \<le> DATAGRAM_QUEUE_CAPACITY) \<and>
       (\<not> sn_overridden sn ! i \<longrightarrow> path_admit (se_fixed env) (link_rate env z sn i) n (sn_budgets sn ! i) (se_monotonic_ns env) = (True, sn_budgets sn' ! i)))"

lemma admits_paced:
  assumes ad: "admits env sn1 a n" and fresh: "\<not> sn_overridden sn ! i \<Longrightarrow> sn_budgets sn1 ! i = refreshed env z sn i"
    and i: "av_physical a = i" "sn_overridden sn1 = sn_overridden sn" "row_ok env sn a"
    and c: "sn_budgets sn' ! i = charged_budget (se_fixed env) (sn_overridden sn ! i) n (sn_budgets sn1 ! i)"
  shows "paced env z sn sn' i n"
proof -
  have "path_admit (se_fixed env) (link_rate env z sn i) n (sn_budgets sn ! i) (se_monotonic_ns env) = (True, sn_budgets sn' ! i)"
    if n: "0 < n" "\<not> sn_overridden sn ! i"
  proof -
    let ?b = "sn_budgets sn1 ! i"
    let ?burst = "transport_path_budget_burst (se_fixed env) (pb_rate ?b)"
    have m: "(if ?burst < n then n else ?burst) = max ?burst n" by simp
    have "transport_path_budget_wait (se_fixed env) ?b (max ?burst n) n = 0" using ad n i by (simp add: admits_def)
    then show ?thesis
      unfolding path_admit_def fresh [OF n(2), unfolded refreshed_def, symmetric] Let_def m using c n by (simp add: charge_pow charged_budget_def)
  qed
  moreover have "se_path_datagrams env (sn_world sn) p + n \<le> DATAGRAM_QUEUE_CAPACITY"
    if "link_path env (sn_world sn) i = Some p" "0 < n" for p
    using ad i that by (auto simp: admits_def row_ok_def)
  ultimately show ?thesis by (simp add: paced_def)
qed

lemma delivered_paced:
  assumes q: "quicly_queues env queue" and laws: "encoder_laws env params" "fec_cache_ok params (cd_fec_cache cd)" and opt: "optimizer_ok (se_optimize env)" and links: "length (sn_budgets sn) = length (se_local_addrs env)"
    and r: "publish_datagram_to_conn env obj profile z est k cd sn = (DELIVERED, sent, cd', sn')"
  shows "\<exists>ds owner. sent = Some (of_nat (length ds)) \<and> queue (sn_world sn') = enqueue_all ds (queue (sn_world sn)) \<and>
    (\<forall>s < length ds. owner s < length (se_local_addrs env) \<and> link_path env (sn_world sn) (owner s) = Some (fst (ds ! s))) \<and>
    (\<forall>i < length (se_local_addrs env). paced env est sn sn' i (length (filter (\<lambda>s. owner s = i) [0..<length ds])))"
  using opt r
proof (cases rule: publish_steps)
  case blocked
  then show ?thesis by simp
next
  case (planned rows0 sn1 rows schedule sn2)
  let ?sn = "sn\<lparr>sn_admission_retry_at_ns := 0\<rparr>"
  let ?n = "length (se_local_addrs env)"
  let ?m = "total_x (sd_paths schedule)"
  let ?owner = "\<lambda>s. av_physical (symbol_row rows (sd_paths schedule) s)"
  note s = sampled_same [OF conjunct1 [OF sample_paths_ok [OF planned(1) distinct_upt]]]
  have len: "length (sn_budgets ?sn) = ?n" "length (sn_budgets sn2) = ?n" using links s planned(3) by auto
  have same: "sn_world sn2 = sn_world sn" "sn_budgets sn2 = sn_budgets sn1" "sn_overridden sn2 = sn_overridden sn" "sn_overridden sn1 = sn_overridden sn"
    using s planned(3) by auto
  have retry: "row_ok env ?sn a = row_ok env sn a" "refreshed env est ?sn i = refreshed env est sn i" for a i
    using link_rate_same [of ?sn sn] by (simp_all add: row_ok_def refreshed_def)
  note rows = planned_rows [OF planned(1,2), unfolded retry]
  have quic: "\<forall>a \<in> set rows. av_quic a < MAX_QUIC_PATHS" "\<forall>a \<in> set rows. av_physical a < ?n"
    using rows(1) by (simp_all add: row_ok_def)
  have plan: "length (sd_paths schedule) = length rows" "?m = k + sd_parity_symbols schedule" "0 < k"
    "\<forall>i < length rows. admits env sn1 (rows ! i) (pt_x (sd_paths schedule ! i))"
    using planned(2) by (simp_all add: plan_ok_def)
  let ?load = "link_load rows (sd_paths schedule) [0..<?m]"
  obtain ds where ds: "queue (sn_world sn') = enqueue_all ds (queue (sn_world sn))"
    "map fst ds = map (\<lambda>s. av_quic (symbol_row rows (sd_paths schedule) s)) [0..<?m]"
    using send_plan_ok [OF q laws quic(1) plan(1-3) planned(4)] unfolding same by blast
  have m: "length ds = ?m" using arg_cong [OF ds(2), of length] by simp
  have ch: "sent = Some (of_nat ?m)" "charged env ?load sn2 sn'"
    using send_plan_ok [OF q laws quic(1) plan(1-3) planned(4)] by simp_all
  have b: "sn_budgets sn' ! i = charged_budget (se_fixed env) (sn_overridden sn ! i) (?load i) (sn_budgets sn1 ! i)" if "i < ?n" for i
    using ch(2) that len(2) by (simp add: charged_def same)
  have "paced env est sn sn' i (?load i)" if i: "i < ?n" for i
  proof (cases "i \<in> av_physical ` set rows")
    case False
    then show ?thesis using link_load_other [OF plan(1) False] by (simp add: paced_def)
  next
    case True
    then obtain j where j: "j < length rows" "av_physical (rows ! j) = i" by (auto simp: in_set_conv_nth)
    have l: "?load i = pt_x (sd_paths schedule ! j)" using link_load_row [OF rows(2) plan(1) j(1)] j(2) by simp
    have mem: "rows ! j \<in> set rows0" "rows ! j \<in> set rows" using j(1) rows(3) by auto
    have fresh: "\<not> sn_overridden sn ! i \<Longrightarrow> sn_budgets sn1 ! i = refreshed env est sn i"
      using sample_paths_budget [OF planned(1) distinct_upt] len(1) mem(1) j(2) retry(2) by auto
    show ?thesis unfolding l
      by (rule admits_paced [OF _ fresh j(2) same(4) bspec [OF rows(1) mem(2)]]) (use plan(4) j(1) b [OF i] l in simp_all)
  qed
  moreover have "?owner s < ?n \<and> link_path env (sn_world sn) (?owner s) = Some (fst (ds ! s))" if "s < ?m" for s
  proof -
    have "row_ok env sn (symbol_row rows (sd_paths schedule) s)" using symbol_owner_row(2) [OF that plan(1)] rows(1) by blast
    moreover have "fst (ds ! s) = av_quic (symbol_row rows (sd_paths schedule) s)"
      using arg_cong [OF ds(2), of "\<lambda>xs. xs ! s"] that m by simp
    ultimately show ?thesis by (simp add: row_ok_def)
  qed
  ultimately show ?thesis using ch(1) ds(1) m
    by (intro exI [of _ ds] exI [of _ ?owner]) (simp add: link_load_def)
qed

end
