(* ===== verification/Publishing.thy ===== *)
theory Publishing
  imports Admission Runs
begin

text \<open>
  Sending an object to one peer, composed with the receiver: the datagrams that a publication queues
  are the genuine datagrams of the receiver's theory and pass its checks. The example publishes three
  bytes as two source symbols and one parity symbol of an XOR code over one link.
\<close>

section \<open>What arrives is what was published\<close>

text \<open>The object behind a publication, as the receiver's theory sees it.\<close>

definition published_source :: "moq_object \<Rightarrow> nat \<Rightarrow> nat \<Rightarrow> bytes list \<Rightarrow> source_object" where
  "published_source obj z k parity =
     \<lparr>so_data = data_bytes (ob_data obj), so_k = k, so_z = z, so_parity = (\<lambda>j. parity ! j)\<rparr>"

text \<open>Sizes that the caller guarantees: whole symbols cover the object.\<close>

definition object_fits :: "moq_object \<Rightarrow> nat \<Rightarrow> nat \<Rightarrow> bool" where
  "object_fits obj z k \<longleftrightarrow> 0 < z \<and> z \<le> 1500 \<and> 0 < data_size (ob_data obj) \<and>
     data_size (ob_data obj) \<le> k * z \<and> data_size (ob_data obj) < 2 ^ 32"

lemma data_size_bytes: "data_size d = length (data_bytes d)"
  by (simp add: data_size_def data_bytes_def split: option.split)

lemma object_symbol_length:
  assumes laws: "encoder_laws env params" and c: "parity_of env params (m - k) z (map (data_block data z) [0..<k]) parity" and s: "s < m"
    and data: "data = data_bytes (ob_data obj)"
  shows "length (object_symbol obj z k parity s) = z"
proof (cases "s < k")
  case True
  then show ?thesis by (simp add: object_symbol_def)
next
  case False
  then have "m - k \<noteq> 0" using s by simp
  then obtain fec t where f: "params fec = (t, k, m - k, z)" "se_encode env fec (map (data_block data z) [0..<k]) = Some parity"
    using c by (auto simp: parity_of_def)
  have "length parity = m - k \<and> (\<forall>b \<in> set parity. length b = z)"
    by (rule laws [unfolded encoder_laws_def, THEN conjunct2, rule_format, OF f(1) _ _ f(2)]) auto
  then show ?thesis using False s by (simp add: object_symbol_def)
qed

lemma carried_header:
  assumes c: "carries env params obj z k alias_id m parity ds" and fits: "object_fits obj z k" and laws: "encoder_laws env params" and i: "i < length ds"
  shows "qlinq_wire_decode_fec_header (snd (ds ! i)) = Inr (symbol_header obj alias_id m k z (se_send_time_ns env i) i (fst (ds ! i))) \<and>
    drop WIRE_FEC_HEADER_SIZE (snd (ds ! i)) = object_symbol obj z k parity i \<and> length (snd (ds ! i)) = WIRE_FEC_HEADER_SIZE + z"
proof -
  let ?h = "symbol_header obj alias_id m k z (se_send_time_ns env i) i (fst (ds ! i))"
  obtain e where e: "qlinq_wire_encode_fec_header (WIRE_FEC_HEADER_SIZE + z) ?h = Inr e" using encode_fec_header_fits by blast
  note d = fec_header_enc_dec [OF e]
  have im: "i < m" using c i by (simp add: carries_def)
  have l: "length (object_symbol obj z k parity i) = z"
    using object_symbol_length [OF laws _ im refl] c by (simp add: carries_def)
  have b: "snd (ds ! i) = e @ object_symbol obj z k parity i"
    using c i e l by (simp add: carries_def datagram_bytes_def)
  show ?thesis unfolding b using d l fec_header_prefix [of e "object_symbol obj z k parity i"] by simp
qed

lemma fec_header_type: "qlinq_wire_decode_fec_header bs = Inr h \<Longrightarrow> qlinq_wire_decode_datagram_type bs = Inr WIRE_DATAGRAM_FEC"
  by (auto simp: qlinq_wire_decode_fec_header_def qlinq_wire_decode_datagram_type_def check_envelope_def split: if_splits)

lemma carried_accepted:
  assumes c: "carries env params obj z k alias_id m parity ds" and fits: "object_fits obj z k" and laws: "encoder_laws env params"
    and i: "i < length ds" and mx: "data_size (ob_data obj) \<le> unat (max_size :: u32)"
    and g: "G alias_id (ob_group_id obj) (ob_object_id obj) = Some (published_source obj z k parity)"
  shows "qlinq_wire_decode_datagram_type (snd (ds ! i)) = Inr WIRE_DATAGRAM_FEC" "genuine_datagram G (snd (ds ! i))"
    "\<exists>h. qlinq_wire_decode_fec_header (snd (ds ! i)) = Inr h \<and> fec_header_ok max_size h (length (snd (ds ! i))) \<and>
       fh_alias h = alias_id \<and> fh_group_id h = ob_group_id obj \<and> fh_object_id h = ob_object_id obj \<and>
       unat (fh_symbol_index h) = i \<and> unat (fh_data_symbols h) = k \<and> unat (fh_total_symbols h) = m"
proof -
  let ?h = "symbol_header obj alias_id m k z (se_send_time_ns env i) i (fst (ds ! i))"
  note ch = carried_header [OF c fits laws i]
  have b: "0 < k" "k \<le> m" "m \<le> 1024" "i < m" using c i by (simp_all add: carries_def)
  have u: "unat (of_nat m :: u16) = m" "unat (of_nat k :: u16) = k" "unat (of_nat i :: u16) = i" "unat (of_nat z :: u16) = z"
    "unat (of_nat (data_size (ob_data obj)) :: u32) = data_size (ob_data obj)"
    using b fits by (simp_all add: object_fits_def unat_of_nat)
  have prod: "unat (ucast (of_nat k :: u16) * ucast (of_nat z :: u16) :: u32) = k * z"
  proof -
    have "k * z \<le> 1024 * 1500" using b fits by (intro mult_le_mono) (simp_all add: object_fits_def)
    moreover have "unat (ucast (of_nat n :: u16) :: u32) = unat (of_nat n :: u16)" for n
      by (simp add: unsigned_ucast_eq take_bit_nat_eq_self unat_of_nat)
    ultimately show ?thesis by (simp add: unat_word_ariths u)
  qed
  have "fec_header_ok max_size ?h (WIRE_FEC_HEADER_SIZE + z)"
    using b fits u mx prod by (auto simp: fec_header_ok_def symbol_header_def word_le_nat_alt word_less_nat_alt unat_eq_0 object_fits_def not_le)
  then show "\<exists>h. qlinq_wire_decode_fec_header (snd (ds ! i)) = Inr h \<and> fec_header_ok max_size h (length (snd (ds ! i))) \<and>
       fh_alias h = alias_id \<and> fh_group_id h = ob_group_id obj \<and> fh_object_id h = ob_object_id obj \<and>
       unat (fh_symbol_index h) = i \<and> unat (fh_data_symbols h) = k \<and> unat (fh_total_symbols h) = m"
    using ch u by (intro exI [of _ ?h]) (simp add: symbol_header_def)
  have "genuine G ?h (object_symbol obj z k parity i)"
    using g u by (simp add: genuine_def genuine_header_def symbol_header_def published_source_def source_symbol_def object_symbol_def data_size_bytes)
  then show "genuine_datagram G (snd (ds ! i))" using ch by (simp add: genuine_datagram_def)
  show "qlinq_wire_decode_datagram_type (snd (ds ! i)) = Inr WIRE_DATAGRAM_FEC" using ch by (intro fec_header_type) simp
qed


section \<open>An example\<close>

definition xor_blocks :: "bytes list \<Rightarrow> bytes list option" where
  "xor_blocks blocks = (case blocks of [a, b] \<Rightarrow> Some [map (\<lambda>(x, y). x XOR y) (zip a b)] | _ \<Rightarrow> None)"

text \<open>One link with a QUIC path of 200 packets per second; the state of quicly is its queues.\<close>

definition example_stats :: path_stats where
  "example_stats = \<lparr>ps_local = Sockaddr_in 1 10, ps_remote = Sockaddr_in 2 20, ps_rtt_smoothed = 50, ps_cwnd = 10000,
     ps_bytes_in_flight = 0, ps_sent = 0, ps_lost = 0, ps_acked = 0, ps_bytes_acked = 0\<rparr>"

definition example_send_env :: "(nat \<Rightarrow> bytes list) send_env" where
  "example_send_env = \<lparr>se_path_stats = (\<lambda>w p. if p = 0 then Some example_stats else None), se_path_available = (\<lambda>w p. True),
     se_path_datagrams = (\<lambda>w p. length (w p)), se_send_datagram = (\<lambda>w p d. w(p := w p @ [d])),
     se_local_addrs = [Sockaddr_in 1 10], se_egress_bytes = [0], se_fixed = example_fixed, se_update = (\<lambda>st b l p q w. st),
     se_optimize = first_path_only, se_monotonic_ns = 1000, se_now_ms = 0, se_send_time_ns = (\<lambda>s. 7), se_calloc = (\<lambda>a n. Some (length (ar_fallbacks a))), se_fec_now = 9,
     se_create = (\<lambda>t k p z. if (t, k, p, z) = (FEC_REED_SOLOMON, 2, 1, 2) then Some 0 else None),
     se_encode = (\<lambda>h blocks. if h = 0 then xor_blocks blocks else None)\<rparr>"

definition example_params :: "nat \<Rightarrow> fec_type \<times> nat \<times> nat \<times> nat" where
  "example_params h = (if h = 0 then (FEC_REED_SOLOMON, 2, 1, 2) else (FEC_RAPTORQ, 0, 0, 0))"

definition letter :: moq_object where
  "letter = \<lparr>ob_track_id = \<lparr>ti_type = 1, ti_flags = 2, ti_name = replicate 64 0\<rparr>, ob_group_id = 5, ob_object_id = 6,
     ob_data = Some \<lparr>pl_address = 0, pl_bytes = [1, 2, 3]\<rparr>, ob_is_keyframe = True, ob_priority = 1\<rparr>"

lemma example_queues: "quicly_queues example_send_env (\<lambda>w. w)"
  by (simp add: quicly_queues_def example_send_env_def)

lemma example_encoder: "encoder_laws example_send_env example_params"
proof -
  have "length parity = 1 \<and> (\<forall>b \<in> set parity. length b = 2)"
    if "xor_blocks blocks = Some parity" "\<forall>b \<in> set blocks. length b = 2" for blocks parity
    using that by (auto simp: xor_blocks_def split: list.splits)
  then show ?thesis by (auto simp: encoder_laws_def example_send_env_def example_params_def split: if_splits)
qed

lemma example_optimizer: "optimizer_ok (se_optimize example_send_env)"
  by (simp add: example_send_env_def first_path_only_ok)

definition example_sender :: "(nat \<Rightarrow> bytes list) sender" where
  "example_sender = \<lparr>sn_world = (\<lambda>p. []),
     sn_subscriptions = \<lparr>tb_entries = [\<lparr>ts_track_id = ob_track_id letter, ts_alias = 4, ts_active = True, ts_stream = None,
       ts_ingress_stream = None\<rparr>], tb_next_generation = 2, tb_states = (\<lambda>a. None)\<rparr>,
     sn_queued_datagrams = [0], sn_latest_owd = [0], sn_measurements = [(new_measurement example_stats 0 False 0)\<lparr>pm_initialized := False\<rparr>],
     sn_states = [\<lparr>pst_b_ewma = 13107200, pst_l_ewma = 0, pst_p_ewma = 0, pst_q_ewma = 0, pst_initialized = True\<rparr>], sn_overridden = [False],
     sn_budgets = [\<lparr>pb_debt = 0, pb_rate = 0, pb_at_ns = 0\<rparr>], sn_round_robin = 0, sn_admission_retry_at_ns = 3\<rparr>"

definition example_coder :: coder where
  "example_coder = \<lparr>cd_arena = \<lparr>ar_buffer = Some [], ar_capacity = 0, ar_offset = 0, ar_fallbacks = []\<rparr>,
     cd_fec_cache = replicate FEC_CACHE_SIZE zero_fec_entry\<rparr>"

definition example_profile :: track_profile where
  "example_profile = \<lparr>pr_reliable = False, pr_fec_enabled = True, pr_fec_rateless = False\<rparr>"

lemma example_cache: "fec_cache_ok example_params (cd_fec_cache example_coder)"
  by (simp add: fec_cache_ok_def example_coder_def zero_fec_entry_def)

lemma example_link: "transport_path_get_stats_by_link (\<lambda>p. if p = 0 then Some example_stats else None) [Sockaddr_in 1 10] 0 = Some (0, example_stats)"
proof -
  have "P 0 \<Longrightarrow> first_index P [0..<64] = Some 0" for P :: "nat \<Rightarrow> bool" unfolding first_index_Some by simp
  then show ?thesis by (simp add: transport_path_get_stats_by_link_def transport_path_matches_local_def example_stats_def)
qed

definition example_row :: active_path where
  "example_row = \<lparr>av_physical = 0, av_quic = 0,
     av_state = \<lparr>pst_b_ewma = 13107200, pst_l_ewma = 0, pst_p_ewma = 0, pst_q_ewma = 0, pst_initialized = True\<rparr>,
     av_sample = \<lparr>pt_b = 65536000, pt_l = 1638, pt_p = 655, pt_q = 0, pt_x = 0, pt_m = 0\<rparr>, av_available = 64\<rparr>"

definition example_ready :: "(nat \<Rightarrow> bytes list) sender" where
  "example_ready = example_sender\<lparr>sn_budgets := [\<lparr>pb_debt = 0, pb_rate = 13107200, pb_at_ns = 1000\<rparr>], sn_admission_retry_at_ns := 0\<rparr>"

lemma example_sampled:
  "sample_paths example_send_env 2 [0..<1] (example_sender\<lparr>sn_admission_retry_at_ns := 0\<rparr>) = ([example_row], example_ready)"
  by (simp add: sample_path_def example_send_env_def example_sender_def example_link sample_in_flight_def cap_sample_def Let_def
    transport_path_estimate_def estimate_rate_def transport_path_probe_cap_def transport_path_budget_update_def example_fixed_def
    transport_path_update_state_def saturating_add_def ceil_div_def signed_divide_int_def new_measurement_def SIZE_MAX_def sz_sub_def sz_add_def example_stats_def
    example_row_def example_ready_def)

definition example_plan :: schedule where
  "example_plan = \<lparr>sd_paths = [\<lparr>pt_b = 13107200, pt_l = 0, pt_p = 0, pt_q = 0, pt_x = 3, pt_m = 2\<rparr>], sd_parity_symbols = 1\<rparr>"

lemma example_planned:
  "plan_paths example_send_env example_profile 2 2 1 [example_row] example_ready = (Inr ([example_row], example_plan), example_ready)"
  by (simp add: plan_paths.simps transport_schedule_build_def example_send_env_def example_profile_def example_row_def schedule_inputs_def Let_def
    first_path_only_def count_parity_def earliest_path_def add_symbol_def source_only_def path_blocked_def transport_path_budget_burst_def transport_path_budget_wait_def example_fixed_def
    example_ready_def example_sender_def SIZE_MAX_def signed_divide_int_def example_plan_def finish_time_def)

lemma example_parity:
  obtains cache where "encode_parity example_send_env example_profile [[1, 2], [3, 0]] 1 2 (cd_fec_cache example_coder) = (Some [[2, 2]], cache)"
proof -
  have "first_index P (replicate n x) = None" if "\<not> P x" for P and x :: fec_cache_entry and n using that by (simp add: first_index_None)
  then have "fst (encode_parity example_send_env example_profile [[1, 2], [3, 0]] 1 2 (cd_fec_cache example_coder)) = Some [[2, 2]]"
    by (simp add: encode_parity_def example_send_env_def example_profile_def example_coder_def transport_fec_cache_get_def zero_fec_entry_def xor_blocks_def)
  then show thesis using that by (metis prod.collapse)
qed

lemma example_blocks: "map (data_block (data_bytes (ob_data letter)) 2) [0..<2] = [[1, 2], [3, 0]]" "data_size (ob_data letter) = 3"
  by (simp_all add: letter_def data_bytes_def data_size_def data_block_def fill_array_def upt_rec)

lemma example_got: "\<exists>a. get_blocks example_send_env 3 2 2 1 (cd_arena example_coder) = (True, \<lparr>ar_buffer = Some [], ar_capacity = 0, ar_offset = 0, ar_fallbacks = a\<rparr>) \<and> length a = 4"
  by (simp add: get_blocks_def example_coder_def arena_get_def transport_arena_alloc_def round_up_8_def example_send_env_def upt_rec SIZE_MAX_def sz_sub_def)

lemma example_alias: "transport_subscriptions_find_alias (sn_subscriptions example_ready) (ob_track_id letter) = Some 4"
  by (simp add: example_ready_def example_sender_def transport_subscriptions_find_alias_def track_matches_def strcmp_eq_def)

lemma example_arena:
  "length a < 9 \<Longrightarrow> arena_get example_send_env 46 \<lparr>ar_buffer = Some [], ar_capacity = 0, ar_offset = 0, ar_fallbacks = a\<rparr> =
     (True, \<lparr>ar_buffer = Some [], ar_capacity = 0, ar_offset = 0, ar_fallbacks = a @ [length a]\<rparr>)"
  by (simp add: arena_get_def transport_arena_alloc_def round_up_8_def example_send_env_def SIZE_MAX_def sz_sub_def)

lemma example_queue:
  "length (sn_world sn 0) < 64 \<Longrightarrow> \<exists>sn'. queue_datagram example_send_env 0 d sn = (True, sn') \<and>
     sn_world sn' = (sn_world sn)(0 := sn_world sn 0 @ [d])"
  by (simp add: queue_datagram_def example_send_env_def sz_add_def SIZE_MAX_def)

lemma example_send:
  "length a + length ss \<le> 9 \<Longrightarrow> length (sn_world sn 0) + length ss \<le> 64 \<Longrightarrow> \<forall>s \<in> set ss. s < 3 \<Longrightarrow>
   \<exists>ar sn'. send_symbols example_send_env header symbol 2 [example_row] (sd_paths example_plan) n ss
     \<lparr>ar_buffer = Some [], ar_capacity = 0, ar_offset = 0, ar_fallbacks = a\<rparr> sn = (DELIVERED, ar, sn')"
proof (induction ss arbitrary: n a sn)
  case (Cons s ss)
  have "transport_path_select_physical (sd_paths example_plan) s = Some 0" using Cons.prems by (simp add: example_plan_def)
  moreover obtain e where "qlinq_wire_encode_fec_header (WIRE_FEC_HEADER_SIZE + 2) (header s 0) = Inr e" using encode_fec_header_fits by blast
  moreover obtain sn1 where "queue_datagram example_send_env 0 (e @ take 2 (symbol s)) sn = (True, sn1)"
    "sn_world sn1 = (sn_world sn)(0 := sn_world sn 0 @ [e @ take 2 (symbol s)])" using example_queue [of sn] Cons.prems(2) by fastforce
  ultimately show ?case
    using Cons.IH [of "a @ [length a]" "charge_path example_send_env 0 sn1" "n + 1"] Cons.prems
    by (simp add: example_arena example_row_def)
qed simp

lemma letter_delivered:
  "\<exists>cd' sn'. publish_datagram_to_conn example_send_env letter example_profile 2 2 2 example_coder example_sender = (DELIVERED, Some 3, cd', sn')"
proof -
  obtain cache where c: "encode_parity example_send_env example_profile [[1, 2], [3, 0]] 1 2 (cd_fec_cache example_coder) = (Some [[2, 2]], cache)"
    by (rule example_parity)
  obtain a where a: "get_blocks example_send_env 3 2 2 1 (cd_arena example_coder) =
      (True, \<lparr>ar_buffer = Some [], ar_capacity = 0, ar_offset = 0, ar_fallbacks = a\<rparr>)" "length a = 4" using example_got by blast
  have p: "sd_parity_symbols example_plan = 1" "total_x (sd_paths example_plan) = 3" by (simp_all add: example_plan_def)
  have w: "sn_world example_ready 0 = []" by (simp add: example_ready_def example_sender_def)
  let ?header = "\<lambda>s. symbol_header letter 4 (2 + 1) 2 2 (se_send_time_ns example_send_env s) s"
  let ?symbol = "\<lambda>s. if s < 2 then [[1, 2], [3, 0]] ! s else [[2, 2]] ! (s - 2)"
  have "\<exists>ar sn'. send_symbols example_send_env ?header ?symbol 2 [example_row] (sd_paths example_plan) 0 [0..<2 + 1]
     \<lparr>ar_buffer = Some [], ar_capacity = 0, ar_offset = 0, ar_fallbacks = a\<rparr> example_ready = (DELIVERED, ar, sn')"
    using a(2) w by (intro example_send) auto
  then obtain ar sn' where s: "send_symbols example_send_env ?header ?symbol 2 [example_row] (sd_paths example_plan) 0 [0..<2 + 1]
     \<lparr>ar_buffer = Some [], ar_capacity = 0, ar_offset = 0, ar_fallbacks = a\<rparr> example_ready = (DELIVERED, ar, sn')" by blast
  have n: "\<not> ((2 :: nat) + 1 > 1024 \<or> (2 :: nat) + 1 > 65535)" "\<not> (3 :: nat) \<noteq> 2 + 1" by simp_all
  have "\<exists>cd' sn'. send_plan example_send_env letter example_profile 2 2 [example_row] example_plan example_coder example_ready = (DELIVERED, Some (of_nat (2 + 1)), cd', sn')"
    unfolding send_plan_def Let_def p example_blocks if_not_P [OF n(1)] if_not_P [OF n(2)] a(1) c example_alias prod.case option.case bool.case s by blast
  moreover have l: "length (se_local_addrs example_send_env) = 1" "ob_priority letter = 1" by (simp_all add: example_send_env_def letter_def)
  ultimately show ?thesis
    unfolding publish_datagram_to_conn_def l example_sampled prod.case list.case example_planned sum.case by simp
qed


section \<open>Properties\<close>

text \<open>
  C6. Sending an object to a peer puts an exact prefix of its symbols on the queues. Whatever the paths,
  budgets, allocations and quicly do, the datagrams that the call queued are the symbols 0, 1, 2, ... of the
  object in order, each with its header and the alias of the subscription. The result tells how many:
  DELIVERED that all announced symbols are queued, PARTIAL a proper nonempty prefix, anything else that
  nothing was queued. The scratch arena is empty afterwards and the codec cache stays right.
\<close>

theorem publication_all_or_prefix:
  "quicly_queues env queue \<Longrightarrow> encoder_laws env params \<Longrightarrow> fec_cache_ok params (cd_fec_cache cd) \<Longrightarrow> optimizer_ok (se_optimize env) \<Longrightarrow>
   publish_datagram_to_conn env obj profile z est k cd sn = (r, sent, cd', sn') \<Longrightarrow>
   \<exists>ds. queue (sn_world sn') = enqueue_all ds (queue (sn_world sn)) \<and>
     (ds \<noteq> [] \<longrightarrow> (\<exists>alias_id m parity. transport_subscriptions_find_alias (sn_subscriptions sn) (ob_track_id obj) = Some alias_id \<and>
        sent = Some (of_nat m) \<and> 0 < k \<and> k \<le> m \<and> m \<le> 1024 \<and> parity_of env params (m - k) z (map (data_block (data_bytes (ob_data obj)) z) [0..<k]) parity \<and>
        (\<forall>i < length ds. snd (ds ! i) = datagram_bytes z (symbol_header obj alias_id m k z (se_send_time_ns env i) i (fst (ds ! i)))
           (if i < k then data_block (data_bytes (ob_data obj)) z i else parity ! (i - k))) \<and>
        (r = DELIVERED \<longrightarrow> length ds = m) \<and> (r = PARTIAL \<longrightarrow> length ds < m))) \<and>
     (r = DELIVERED \<or> r = PARTIAL \<longleftrightarrow> ds \<noteq> []) \<and> (sent \<noteq> None \<longrightarrow> arena_empty (cd_arena cd')) \<and> fec_cache_ok params (cd_fec_cache cd')"
proof -
  assume a: "quicly_queues env queue" "encoder_laws env params" "fec_cache_ok params (cd_fec_cache cd)" "optimizer_ok (se_optimize env)"
    "publish_datagram_to_conn env obj profile z est k cd sn = (r, sent, cd', sn')"
  show ?thesis using publish_is_publication [OF a]
    unfolding publication_def carries_def object_symbol_def by (elim exE conjE) (intro exI conjI; blast)
qed

theorem publication_all_or_prefix_witness:
  "\<exists>cd' sn' ds. publish_datagram_to_conn example_send_env letter example_profile 2 2 2 example_coder example_sender = (DELIVERED, Some 3, cd', sn') \<and>
     sn_world sn' = enqueue_all ds (sn_world example_sender) \<and> ds \<noteq> []"
proof -
  obtain cd' sn' where r: "publish_datagram_to_conn example_send_env letter example_profile 2 2 2 example_coder example_sender = (DELIVERED, Some 3, cd', sn')"
    using letter_delivered by blast
  show ?thesis
    using r publication_all_or_prefix [OF example_queues example_encoder example_cache example_optimizer r] by auto
qed

text \<open>
  C8. A delivered object respects pacing and queue bounds on every link. Every symbol has a link, and its
  datagram is queued on the QUIC path of that link and nowhere else. The symbols of a link fit behind the
  datagrams that wait on its path, at most 64 together; and on a link whose rate is not overridden they
  are one admission of the link's budget: refreshed to the link's present rate (the smoothed one,
  capped by what was measured), admitted as a whole, and charged symbol by symbol, which is the step
  that the pacing bound is about.
\<close>

theorem publication_paced:
  "quicly_queues env queue \<Longrightarrow> encoder_laws env params \<Longrightarrow> fec_cache_ok params (cd_fec_cache cd) \<Longrightarrow> optimizer_ok (se_optimize env) \<Longrightarrow>
   length (sn_budgets sn) = length (se_local_addrs env) \<Longrightarrow>
   publish_datagram_to_conn env obj profile z est k cd sn = (DELIVERED, sent, cd', sn') \<Longrightarrow>
   \<exists>ds owner. sent = Some (of_nat (length ds)) \<and> queue (sn_world sn') = enqueue_all ds (queue (sn_world sn)) \<and>
     (\<forall>s < length ds. owner s < length (se_local_addrs env) \<and> link_path env (sn_world sn) (owner s) = Some (fst (ds ! s))) \<and>
     (\<forall>i < length (se_local_addrs env). let n = length (filter (\<lambda>s. owner s = i) [0..<length ds]) in 0 < n \<longrightarrow>
        (\<forall>p. link_path env (sn_world sn) i = Some p \<longrightarrow> length (queue (sn_world sn) p) + n \<le> 64) \<and>
        (\<not> sn_overridden sn ! i \<longrightarrow>
          path_admit (se_fixed env) (link_rate env est sn i) n (sn_budgets sn ! i) (se_monotonic_ns env) = (True, sn_budgets sn' ! i)))"
proof -
  assume a: "quicly_queues env queue" "encoder_laws env params" "fec_cache_ok params (cd_fec_cache cd)" "optimizer_ok (se_optimize env)"
    "length (sn_budgets sn) = length (se_local_addrs env)"
    "publish_datagram_to_conn env obj profile z est k cd sn = (DELIVERED, sent, cd', sn')"
  have l: "se_path_datagrams env w p = length (queue w p)" for w p using a(1) by (simp add: quicly_queues_def)
  show ?thesis using delivered_paced [OF a] unfolding paced_def Let_def l .
qed

theorem publication_paced_witness:
  "\<exists>cd' sn'. publish_datagram_to_conn example_send_env letter example_profile 2 2 2 example_coder example_sender = (DELIVERED, Some 3, cd', sn') \<and>
     length (sn_world sn' 0) = 3 \<and> path_admit example_fixed (link_rate example_send_env 2 example_sender 0) 3
       \<lparr>pb_debt = 0, pb_rate = 0, pb_at_ns = 0\<rparr> 1000 = (True, sn_budgets sn' ! 0)"
proof -
  obtain cd' sn' where r: "publish_datagram_to_conn example_send_env letter example_profile 2 2 2 example_coder example_sender = (DELIVERED, Some 3, cd', sn')"
    using letter_delivered by blast
  have l: "length (sn_budgets example_sender) = length (se_local_addrs example_send_env)" by (simp add: example_sender_def example_send_env_def)
  have e: "length (se_local_addrs example_send_env) = 1" "\<not> sn_overridden example_sender ! 0" "se_fixed example_send_env = example_fixed"
    "se_monotonic_ns example_send_env = 1000" "sn_budgets example_sender ! 0 = \<lparr>pb_debt = 0, pb_rate = 0, pb_at_ns = 0\<rparr>"
    "link_path example_send_env (sn_world example_sender) 0 = Some 0" "sn_world example_sender 0 = []"
    using example_link by (simp_all add: example_sender_def example_send_env_def link_path_def)
  note w = publication_paced [OF example_queues example_encoder example_cache example_optimizer l r, unfolded e(1) Let_def]
  show ?thesis
  proof (insert w, elim exE conjE, goal_cases)
    case (1 ds owner)
    have n: "length ds = 3 + 65536 * (length ds div 65536)" if "length ds \<ge> 0"
      using arg_cong [OF 1(1), of "\<lambda>x. unat (the x)"] mult_div_mod_eq [of 65536 "length ds"] by (simp add: unat_of_nat)
    have all: "filter (\<lambda>s. owner s = 0) [0..<length ds] = [0..<length ds]" using 1(3) by (intro filter_True) auto
    have "0 < length ds" using n by (cases "length ds") simp_all
    then have "length ds \<le> 64" using 1(4) e(6,7) all by simp
    then have m: "length ds = 3" using n by simp
    have "fst (ds ! s) = 0" if "s < 3" for s using 1(3) e(6) that m by auto
    then have "filter (\<lambda>d. fst d = 0) ds = ds" using m by (intro filter_True ballI) (metis in_set_conv_nth)
    then have "length (sn_world sn' 0) = 3" using 1(2) e(7) m by (simp add: enqueue_all_def)
    moreover have "path_admit example_fixed (link_rate example_send_env 2 example_sender 0) 3 \<lparr>pb_debt = 0, pb_rate = 0, pb_at_ns = 0\<rparr> 1000 = (True, sn_budgets sn' ! 0)"
      using 1(4) e all m by simp
    ultimately show ?case using r by blast
  qed
qed

text \<open>
  C7. Sender and receiver agree. Every datagram that a publication queues is accepted by the checks of a
  receiver that takes objects of this size, names the object and the symbol, and is genuine: for a
  receiver that reconstructs the object from genuine datagrams, what it delivers are the published bytes.
\<close>

theorem published_datagrams_genuine:
  "quicly_queues env queue \<Longrightarrow> encoder_laws env params \<Longrightarrow> fec_cache_ok params (cd_fec_cache cd) \<Longrightarrow> optimizer_ok (se_optimize env) \<Longrightarrow>
   object_fits obj z k \<Longrightarrow> data_size (ob_data obj) \<le> unat (max_size :: u32) \<Longrightarrow>
   publish_datagram_to_conn env obj profile z est k cd sn = (r, sent, cd', sn') \<Longrightarrow>
   \<exists>ds source. queue (sn_world sn') = enqueue_all ds (queue (sn_world sn)) \<and>
     so_data source = data_bytes (ob_data obj) \<and> so_k source = k \<and> so_z source = z \<and>
     (\<forall>i < length ds. \<exists>h. qlinq_wire_decode_datagram_type (snd (ds ! i)) = Inr WIRE_DATAGRAM_FEC \<and>
        qlinq_wire_decode_fec_header (snd (ds ! i)) = Inr h \<and> fec_header_ok max_size h (length (snd (ds ! i))) \<and>
        transport_subscriptions_find_alias (sn_subscriptions sn) (ob_track_id obj) = Some (fh_alias h) \<and>
        fh_group_id h = ob_group_id obj \<and> fh_object_id h = ob_object_id obj \<and> unat (fh_symbol_index h) = i \<and>
        (\<forall>G. G (fh_alias h) (ob_group_id obj) (ob_object_id obj) = Some source \<longrightarrow> genuine_datagram G (snd (ds ! i))))"
proof -
  assume a: "quicly_queues env queue" "encoder_laws env params" "fec_cache_ok params (cd_fec_cache cd)" "optimizer_ok (se_optimize env)"
    and fits: "object_fits obj z k" "data_size (ob_data obj) \<le> unat max_size"
    and r: "publish_datagram_to_conn env obj profile z est k cd sn = (r, sent, cd', sn')"
  obtain ds where ds: "queue (sn_world sn') = enqueue_all ds (queue (sn_world sn))"
    "ds \<noteq> [] \<Longrightarrow> \<exists>alias_id m parity. transport_subscriptions_find_alias (sn_subscriptions sn) (ob_track_id obj) = Some alias_id \<and>
       carries env params obj z k alias_id m parity ds"
    using publish_is_publication [OF a r] unfolding publication_def by blast
  show ?thesis
  proof (cases "ds = []")
    case True
    then show ?thesis using ds(1) by (intro exI [of _ ds] exI [of _ "published_source obj z k []"]) (simp add: published_source_def)
  next
    case False
    then obtain alias_id m parity where c: "transport_subscriptions_find_alias (sn_subscriptions sn) (ob_track_id obj) = Some alias_id"
      "carries env params obj z k alias_id m parity ds" using ds(2) by blast
    note acc = carried_accepted [OF c(2) fits(1) a(2) _ fits(2)]
    have "\<exists>h. qlinq_wire_decode_datagram_type (snd (ds ! i)) = Inr WIRE_DATAGRAM_FEC \<and>
        qlinq_wire_decode_fec_header (snd (ds ! i)) = Inr h \<and> fec_header_ok max_size h (length (snd (ds ! i))) \<and>
        transport_subscriptions_find_alias (sn_subscriptions sn) (ob_track_id obj) = Some (fh_alias h) \<and>
        fh_group_id h = ob_group_id obj \<and> fh_object_id h = ob_object_id obj \<and> unat (fh_symbol_index h) = i \<and>
        (\<forall>G. G (fh_alias h) (ob_group_id obj) (ob_object_id obj) = Some (published_source obj z k parity) \<longrightarrow> genuine_datagram G (snd (ds ! i)))"
      if i: "i < length ds" for i
    proof -
      let ?G = "\<lambda>_ _ _. Some (published_source obj z k parity)"
      obtain h where h: "qlinq_wire_decode_fec_header (snd (ds ! i)) = Inr h" "fec_header_ok max_size h (length (snd (ds ! i)))"
        "fh_alias h = alias_id" "fh_group_id h = ob_group_id obj" "fh_object_id h = ob_object_id obj" "unat (fh_symbol_index h) = i"
        using acc(3) [OF i, of ?G] by auto
      have "genuine_datagram G (snd (ds ! i))" if "G alias_id (ob_group_id obj) (ob_object_id obj) = Some (published_source obj z k parity)" for G
        using acc(2) [where G = G, OF i that] .
      then show ?thesis using h c(1) acc(1) [OF i, of ?G] by (intro exI [of _ h]) simp
    qed
    then show ?thesis using ds(1) by (intro exI [of _ ds] exI [of _ "published_source obj z k parity"]) (simp add: published_source_def)
  qed
qed

theorem published_datagrams_genuine_witness:
  "\<exists>cd' sn' ds source. publish_datagram_to_conn example_send_env letter example_profile 2 2 2 example_coder example_sender = (DELIVERED, Some 3, cd', sn') \<and>
     sn_world sn' = enqueue_all ds (sn_world example_sender) \<and> so_data source = [1, 2, 3] \<and>
     (\<forall>i < length ds. genuine_datagram (\<lambda>a g ob. if (a, g, ob) = (4, 5, 6) then Some source else None) (snd (ds ! i)))"
proof -
  obtain cd' sn' where r: "publish_datagram_to_conn example_send_env letter example_profile 2 2 2 example_coder example_sender = (DELIVERED, Some 3, cd', sn')"
    using letter_delivered by blast
  have fits: "object_fits letter 2 2" "data_size (ob_data letter) \<le> unat (1000 :: u32)" by (simp_all add: object_fits_def letter_def data_size_def)
  have al: "transport_subscriptions_find_alias (sn_subscriptions example_sender) (ob_track_id letter) = Some 4"
    using example_alias by (simp add: example_ready_def)
  have l: "ob_group_id letter = 5" "ob_object_id letter = 6" "data_bytes (ob_data letter) = [1, 2, 3]" by (simp_all add: letter_def data_bytes_def)
  note w = published_datagrams_genuine [OF example_queues example_encoder example_cache example_optimizer fits r, unfolded al l]
  show ?thesis
  proof (insert w, elim exE conjE, goal_cases)
    case (1 ds source)
    have "genuine_datagram (\<lambda>a g ob. if (a, g, ob) = (4, 5, 6) then Some source else None) (snd (ds ! i))" if "i < length ds" for i
      using 1(5) [rule_format, OF that] by (elim exE conjE) simp
    then show ?case using r 1(1,2) by blast
  qed
qed

end
