(* ===== verification/Publisher.thy ===== *)
theory Publisher
  imports Placement Limits "HOL-Library.Monad_Syntax"
begin

text \<open>
  The publisher (\<open>transport_publish.c\<close>): who receives a publication, recovery checkpoints and the
  release of acknowledged objects, the grouping of data records into coded objects, and publication
  over reliable streams or datagrams.

  A result \<open>None\<close> stands for a NULL dereference or a loop that does not end; errors of the code are values of
  \<open>publish_result\<close>. A member of the endpoint that is NULL is \<open>None\<close>. The streams of a connection are
  handles, its control stream is \<open>None\<close>; writing to them, the send queue of quicly and the clock are
  arguments (\<open>publish_env\<close>). Log messages are left out.
\<close>

section \<open>Data\<close>

record fec_track_state =
  ft_track_id :: moq_track_id
  ft_next_object_id :: u64
  ft_active :: bool
  ft_has_objects :: bool
  ft_checkpoint_initialized :: bool
  ft_checkpoint_group_id :: u64
  ft_last_checkpoint_object_id :: u64

text \<open>What publication uses of \<open>transport_conn_t\<close>.\<close>

record 's peer =
  pe_sender :: "'s sender"
  pe_quic :: bool
  pe_protocol_ready :: bool
  pe_authenticated :: bool
  pe_group_delivered :: bool
  pe_capabilities :: u32
  pe_max_reliable_object_size :: nat
  pe_max_fec_object_size :: nat
  pe_max_udp_payload_size :: nat
  pe_stream :: bool

record publish_stats =
  pu_delivered :: nat
  pu_buffered :: nat
  pu_no_recipients :: nat
  pu_partial :: nat
  pu_backpressure :: nat
  pu_invalid :: nat
  pu_errors :: nat
  pu_cache_releases :: nat
  pu_cache_backpressure :: nat
  pu_checkpoints_sent :: nat
  pu_track_ends_sent :: nat

text \<open>
  What publication uses of \<open>transport_t\<close>. \<open>en_fec_buf\<close> holds the first \<open>fec_buf_len\<close> bytes of the buffer.
  \<open>en_published\<close> is the trace of the model: every object handed to the streams or datagrams, with the
  result and whether it was a group. The code has no such member and nothing reads it.
\<close>

record 's endpoint =
  en_is_server :: bool
  en_conns :: "'s peer option list"
  en_client :: "'s peer option"
  en_sent_cache :: sent_cache
  en_coder :: coder
  en_max_reliable_object_size :: nat
  en_max_fec_object_size :: nat
  en_max_udp_payload_size :: nat
  en_fec_buf :: bytes
  en_fec_buf_address :: nat
  en_fec_buf_cap :: nat
  en_fec_first_pkt_time :: nat
  en_fec_track_id :: moq_track_id
  en_fec_pkt_count :: nat
  en_fec_priority :: u8
  en_fec_in_flush :: bool
  en_fec_flush_pending :: bool
  en_fec_tracks :: "fec_track_state list"
  en_stats :: publish_stats
  en_published :: "(moq_object \<times> publish_result \<times> bool) list"

record 's publish_env =
  pv_send :: "nat \<Rightarrow> 's send_env"
  pv_closing :: "'s \<Rightarrow> bool"
  pv_control_open :: "'s \<Rightarrow> bool"
  pv_handle_open :: "'s \<Rightarrow> stream_handle \<Rightarrow> bool"
  pv_open_stream :: "'s \<Rightarrow> stream_handle option \<times> 's"
  pv_accept_batch :: "'s \<Rightarrow> stream_handle option \<Rightarrow> nat \<Rightarrow> nat \<times> nat \<Rightarrow> bool \<times> nat \<times> nat"
  pv_write_object :: "'s \<Rightarrow> stream_handle option \<Rightarrow> u8 \<Rightarrow> moq_object \<Rightarrow> bool \<times> 's"
  pv_send_unicast :: "'s \<Rightarrow> bytes \<Rightarrow> bool \<times> 's"
  pv_write_checkpoint :: "'s \<Rightarrow> u8 \<Rightarrow> u64 \<Rightarrow> u64 \<Rightarrow> u64 \<Rightarrow> bool \<Rightarrow> bool \<times> 's"
  pv_write_track_end :: "'s \<Rightarrow> u8 \<Rightarrow> u64 \<Rightarrow> u64 \<Rightarrow> bool \<times> 's"
  pv_now_ms :: int
  pv_owner_ok :: bool
  pv_realloc :: "nat option"
  pv_calloc_ok :: bool
  pv_malloc :: "nat option"

abbreviation "pe_world c \<equiv> sn_world (pe_sender c)"
abbreviation "pe_table c \<equiv> sn_subscriptions (pe_sender c)"

definition put_world :: "'s \<Rightarrow> 's peer \<Rightarrow> 's peer" where
  "put_world w c = c\<lparr>pe_sender := (pe_sender c)\<lparr>sn_world := w\<rparr>\<rparr>"

definition put_table :: "subscription_table \<Rightarrow> 's peer \<Rightarrow> 's peer" where
  "put_table tb c = c\<lparr>pe_sender := (pe_sender c)\<lparr>sn_subscriptions := tb\<rparr>\<rparr>"

text \<open>The connections that every loop of the file goes over.\<close>

definition members :: "'s endpoint \<Rightarrow> 's peer option list" where
  "members t = (if en_is_server t then en_conns t else (case en_client t of None \<Rightarrow> [] | Some c \<Rightarrow> [Some c]))"

definition put_member :: "nat \<Rightarrow> 's peer \<Rightarrow> 's endpoint \<Rightarrow> 's endpoint" where
  "put_member i c t = (if en_is_server t then t\<lparr>en_conns := (en_conns t)[i := Some c]\<rparr> else t\<lparr>en_client := Some c\<rparr>)"

section \<open>Recipients\<close>

definition transport_publish_recipient_eligible :: "'s publish_env \<Rightarrow> 's endpoint \<Rightarrow> 's peer \<Rightarrow> moq_track_id \<Rightarrow> bool" where
  "transport_publish_recipient_eligible env t conn track \<longleftrightarrow>
     pe_quic conn \<and> pe_protocol_ready conn \<and> pe_authenticated conn \<and> \<not> pv_closing env (pe_world conn) \<and>
     (\<not> en_is_server t \<or> transport_subscriptions_contains (pe_table conn) track)"

definition publication_fec_limit :: "'s publish_env \<Rightarrow> 's endpoint \<Rightarrow> moq_track_id \<Rightarrow> nat" where
  "publication_fec_limit env t track =
     foldl (\<lambda>limit conn. case conn of None \<Rightarrow> limit
       | Some c \<Rightarrow> if transport_publish_recipient_eligible env t c track \<and> pe_max_fec_object_size c < limit
           then pe_max_fec_object_size c else limit) (en_max_fec_object_size t) (members t)"

definition transport_get_datagram_symbol_size :: "'s publish_env \<Rightarrow> 's endpoint \<Rightarrow> nat" where
  "transport_get_datagram_symbol_size env t =
     (if \<not> pv_owner_ok env then 0
      else let udp_payload_size = foldl (\<lambda>size' conn. case conn of None \<Rightarrow> size'
             | Some c \<Rightarrow> if pe_protocol_ready c \<and> pe_max_udp_payload_size c < size' then pe_max_udp_payload_size c else size')
             (en_max_udp_payload_size t) (members t);
           symbol_size = (if udp_payload_size > 80 then udp_payload_size - 80 else 0) in
        if symbol_size < 1000 then 1000 else symbol_size)"

section \<open>Checkpoints\<close>

definition find_fec_track_state :: "fec_track_state list \<Rightarrow> moq_track_id \<Rightarrow> bool \<Rightarrow> nat option \<times> fec_track_state list" where
  "find_fec_track_state tracks track_id create =
     (case first_index (\<lambda>s. ft_active s \<and> transport_track_id_equal (ft_track_id s) track_id) tracks of
        Some i \<Rightarrow> (Some i, tracks)
      | None \<Rightarrow>
          (case first_index (\<lambda>s. \<not> ft_active s) tracks of
             None \<Rightarrow> (None, tracks)
           | Some i \<Rightarrow> if \<not> create then (None, tracks)
               else (Some i, tracks[i := (tracks ! i)\<lparr>ft_track_id := track_id, ft_active := True\<rparr>])))"

definition transport_checkpoint_ack :: "'s peer \<Rightarrow> u8 \<Rightarrow> checkpoint_ack_state option" where
  "transport_checkpoint_ack conn alias_id =
     map_option ss_checkpoint_ack (transport_subscriptions_get_state (pe_table conn) alias_id)"

definition put_ack :: "'s peer \<Rightarrow> u8 \<Rightarrow> checkpoint_ack_state \<Rightarrow> 's peer" where
  "put_ack conn alias_id ack = put_table ((pe_table conn)\<lparr>tb_states := (tb_states (pe_table conn))
     (alias_id := map_option (\<lambda>s. s\<lparr>ss_checkpoint_ack := ack\<rparr>) (tb_states (pe_table conn) alias_id))\<rparr>) conn"

definition checkpoint_ack_pending :: "checkpoint_ack_state \<Rightarrow> bool" where
  "checkpoint_ack_pending s \<longleftrightarrow> ak_sent_initialized s \<and> (\<not> ak_acked_initialized s \<or>
     ak_acked_group_id s \<noteq> ak_sent_group_id s \<or> ak_acked_object_id s < ak_sent_object_id s)"

definition checkpoint_mark_sent :: "int \<Rightarrow> checkpoint_ack_state \<Rightarrow> u64 \<Rightarrow> u64 \<Rightarrow> checkpoint_ack_state" where
  "checkpoint_mark_sent now_ms s group_id object_id =
     (let already_pending = checkpoint_ack_pending s;
          s = s\<lparr>ak_sent_initialized := True, ak_sent_group_id := group_id, ak_sent_object_id := object_id\<rparr> in
      if \<not> already_pending \<or> ak_oldest_unacked_sent_at_ms s \<le> 0 then s\<lparr>ak_oldest_unacked_sent_at_ms := now_ms\<rparr> else s)"

definition is_capable :: "'s peer \<Rightarrow> bool" where
  "is_capable conn \<longleftrightarrow> pe_capabilities conn AND WIRE_CAP_RECOVERY_CHECKPOINTS \<noteq> 0"

record ack_scan =
  as_capable :: bool
  as_legacy :: bool
  as_minimum :: "(u64 \<times> u64) option"

text \<open>The scan over the members: \<open>Some None\<close> when it returns early.\<close>

fun scan_acks :: "moq_track_id \<Rightarrow> 's peer option list \<Rightarrow> ack_scan \<Rightarrow> ack_scan option option" where
  "scan_acks track [] s = Some (Some s)"
| "scan_acks track (None # conns) s = scan_acks track conns s"
| "scan_acks track (Some conn # conns) s =
     (case transport_subscriptions_find_alias (pe_table conn) track of
        None \<Rightarrow> scan_acks track conns s
      | Some alias_id \<Rightarrow>
        if \<not> is_capable conn then scan_acks track conns (s\<lparr>as_legacy := True\<rparr>)
        else (case transport_checkpoint_ack conn alias_id of
          None \<Rightarrow> None
        | Some state \<Rightarrow>
          if \<not> ak_participating state then scan_acks track conns s
          else let s = s\<lparr>as_capable := True\<rparr> in
            if \<not> ak_acked_initialized state then Some None
            else (case as_minimum s of
              None \<Rightarrow> scan_acks track conns (s\<lparr>as_minimum := Some (ak_acked_group_id state, ak_acked_object_id state)\<rparr>)
            | Some (minimum_group_id, minimum_object_id) \<Rightarrow>
                if ak_acked_object_id state < minimum_object_id
                then scan_acks track conns (s\<lparr>as_minimum := Some (ak_acked_group_id state, ak_acked_object_id state)\<rparr>)
                else if ak_acked_group_id state \<noteq> minimum_group_id then Some None
                else scan_acks track conns s)))"

definition release_acked_checkpoints :: "moq_track_id \<Rightarrow> 's endpoint \<Rightarrow> 's endpoint option" where
  "release_acked_checkpoints track t =
     (case scan_acks track (members t) \<lparr>as_capable = False, as_legacy = False, as_minimum = None\<rparr> of
        None \<Rightarrow> None
      | Some None \<Rightarrow> Some t
      | Some (Some s) \<Rightarrow>
        if as_legacy s then Some t
        else (case (if as_capable s \<and> as_minimum s \<noteq> None
              then transport_sent_cache_release_through (en_sent_cache t) track (fst (the (as_minimum s))) (snd (the (as_minimum s)))
              else if \<not> as_capable s then transport_sent_cache_release_track (en_sent_cache t) track
              else (0, en_sent_cache t)) of
           (released, cache) \<Rightarrow> Some (t\<lparr>en_sent_cache := cache, en_stats := (en_stats t)
             \<lparr>pu_cache_releases := sz_add (pu_cache_releases (en_stats t)) released\<rparr>\<rparr>)))"

definition count_checkpoint :: "'s endpoint \<Rightarrow> 's endpoint" where
  "count_checkpoint t = t\<lparr>en_stats := (en_stats t)\<lparr>pu_checkpoints_sent := sz_add (pu_checkpoints_sent (en_stats t)) 1\<rparr>\<rparr>"

definition zero_participating :: checkpoint_ack_state where
  "zero_participating = zero_ack\<lparr>ak_participating := True\<rparr>"

text \<open>The member is the \<open>i\<close>-th connection, \<open>conn\<close>.\<close>

definition transport_publish_checkpoint_member_added ::
  "'s publish_env \<Rightarrow> nat \<Rightarrow> 's peer \<Rightarrow> moq_track_id \<Rightarrow> u8 \<Rightarrow> 's endpoint \<Rightarrow> 's peer \<times> 's endpoint" where
  "transport_publish_checkpoint_member_added env i conn track alias_id t =
     (let conn = (if en_fec_flush_pending t \<and> transport_track_id_equal track (en_fec_track_id t)
            then conn\<lparr>pe_group_delivered := False\<rparr> else conn);
          kept = (conn, put_member i conn t) in
      if \<not> is_capable conn \<or> ti_type track \<noteq> ucast MOQ_TRACK_DATA \<or> ti_flags track AND MOQ_TRACK_FLAG_FEC_RATELESS = 0 then kept
      else if transport_checkpoint_ack conn alias_id = None then kept
      else let conn = put_ack conn alias_id zero_participating; joined = (conn, put_member i conn t) in
        case fst (find_fec_track_state (en_fec_tracks t) track False) of
          None \<Rightarrow> joined
        | Some j \<Rightarrow>
          let state = en_fec_tracks t ! j; last = ft_last_checkpoint_object_id state; group = ft_checkpoint_group_id state in
          if \<not> (ft_checkpoint_initialized state \<and> pe_stream conn \<and> pv_control_open env (pe_world conn)) then joined
          else (case pv_write_checkpoint env (pe_world conn) alias_id group last last True of
            (False, w) \<Rightarrow> (put_world w conn, put_member i (put_world w conn) t)
          | (True, w) \<Rightarrow>
              let conn = put_ack (put_world w conn) alias_id (zero_participating
                \<lparr>ak_sent_initialized := True, ak_sent_group_id := group, ak_sent_object_id := last,
                 ak_acked_initialized := True, ak_acked_group_id := group, ak_acked_object_id := last\<rparr>) in
              (conn, count_checkpoint (put_member i conn t))))"

definition transport_publish_checkpoint_member_removed :: "nat \<Rightarrow> 's peer \<Rightarrow> moq_track_id \<Rightarrow> u8 \<Rightarrow> 's endpoint \<Rightarrow> 's endpoint option" where
  "transport_publish_checkpoint_member_removed i conn track alias_id t =
     (if transport_checkpoint_ack conn alias_id = None then Some t
      else release_acked_checkpoints track (put_member i (put_ack conn alias_id zero_ack) t))"

fun remove_subscriptions :: "nat \<Rightarrow> track_subscription list \<Rightarrow> 's peer \<Rightarrow> 's endpoint \<Rightarrow> 's endpoint option" where
  "remove_subscriptions i [] conn t = Some t"
| "remove_subscriptions i (s # ss) conn t =
     (if \<not> ts_active s then remove_subscriptions i ss conn t
      else case transport_checkpoint_ack conn (ts_alias s) of
        None \<Rightarrow> None
      | Some ack \<Rightarrow>
        if \<not> ak_participating ack then remove_subscriptions i ss conn t
        else let conn = put_ack conn (ts_alias s) zero_ack in
          release_acked_checkpoints (ts_track_id s) (put_member i conn t) \<bind> remove_subscriptions i ss conn)"

definition transport_publish_checkpoint_connection_removed :: "nat \<Rightarrow> 's peer \<Rightarrow> 's endpoint \<Rightarrow> 's endpoint option" where
  "transport_publish_checkpoint_connection_removed i conn t = remove_subscriptions i (tb_entries (pe_table conn)) conn t"

definition transport_publish_checkpoint_acked ::
  "int \<Rightarrow> nat \<Rightarrow> 's peer \<Rightarrow> wire_track_checkpoint_ack \<Rightarrow> moq_track_id \<Rightarrow> 's endpoint \<Rightarrow> (bool \<times> 's endpoint) option" where
  "transport_publish_checkpoint_acked now_ms i conn ack track t =
     (if \<not> is_capable conn then Some (False, t)
      else case transport_checkpoint_ack conn (ca_alias ack) of
        None \<Rightarrow> None
      | Some state \<Rightarrow>
        if \<not> ak_participating state \<or> \<not> ak_sent_initialized state \<or> ca_group_id ack \<noteq> ak_sent_group_id state \<or>
           ca_final_object_id ack > ak_sent_object_id state then Some (False, t)
        else let advanced = (\<not> ak_acked_initialized state \<or> ca_final_object_id ack > ak_acked_object_id state);
                 state = (if advanced then state\<lparr>ak_acked_initialized := True, ak_acked_group_id := ca_group_id ack,
                   ak_acked_object_id := ca_final_object_id ack\<rparr> else state);
                 state = (if \<not> checkpoint_ack_pending state then state\<lparr>ak_oldest_unacked_sent_at_ms := 0\<rparr>
                   else if advanced then state\<lparr>ak_oldest_unacked_sent_at_ms := now_ms\<rparr> else state) in
          map_option (Pair True) (release_acked_checkpoints track (put_member i (put_ack conn (ca_alias ack) state) t)))"

definition checkpoint_participating :: "'s peer \<Rightarrow> u8 \<Rightarrow> bool option" where
  "checkpoint_participating conn alias_id = map_option ak_participating (transport_checkpoint_ack conn alias_id)"

fun cache_is_protected :: "moq_track_id \<Rightarrow> 's peer option list \<Rightarrow> bool \<Rightarrow> bool option" where
  "cache_is_protected track [] found = Some found"
| "cache_is_protected track (None # conns) found = cache_is_protected track conns found"
| "cache_is_protected track (Some conn # conns) found =
     (case transport_subscriptions_find_alias (pe_table conn) track of
        None \<Rightarrow> cache_is_protected track conns found
      | Some alias_id \<Rightarrow>
        if \<not> is_capable conn then Some False
        else checkpoint_participating conn alias_id \<bind> (\<lambda>p. cache_is_protected track conns (found \<or> p)))"

definition checkpoint_cache_is_protected :: "moq_track_id \<Rightarrow> 's endpoint \<Rightarrow> bool option" where
  "checkpoint_cache_is_protected track t = cache_is_protected track (members t) False"

text \<open>Payload bytes of the entries that may be evicted, added to \<open>available\<close>; whether there is one.\<close>

fun evictable_room :: "sent_entry list \<Rightarrow> nat \<Rightarrow> bool \<Rightarrow> nat \<times> bool" where
  "evictable_room [] available slot = (available, slot)"
| "evictable_room (e # es) available slot =
     (if se_data e \<noteq> None \<and> \<not> se_recovery_protected e
      then evictable_room es (sz_add available (data_size (se_data e))) True else evictable_room es available slot)"

definition transport_publish_recovery_ready :: "moq_track_id \<Rightarrow> 's endpoint \<Rightarrow> bool option" where
  "transport_publish_recovery_ready track t =
     (if ti_type track \<noteq> ucast MOQ_TRACK_DATA \<or> \<not> pr_fec_rateless (transport_track_profile track) then Some True
      else let cache = en_sent_cache t; needed = (if en_fec_buf t \<noteq> [] then length (en_fec_buf t) else 1);
               limit = transport_sent_cache_byte_limit cache in
        if sc_payload_bytes cache > limit then Some False
        else let available = limit - sc_payload_bytes cache; slot = sc_count cache < cache_capacity cache in
          if slot \<and> needed \<le> available then Some True
          else let pending_track = (if en_fec_buf t \<noteq> [] then en_fec_track_id t else track) in
            checkpoint_cache_is_protected pending_track t \<bind> (\<lambda>protected.
              if protected then Some False
              else (case evictable_room (sc_entries cache) available slot of
                (available, slot) \<Rightarrow> Some (slot \<and> needed \<le> available))))"

text \<open>One member of the loop that announces a checkpoint; \<open>ok\<close> is \<open>succeeded\<close>.\<close>

definition emit_to :: "'s publish_env \<Rightarrow> moq_track_id \<Rightarrow> u64 \<Rightarrow> u64 \<Rightarrow> u64 \<Rightarrow> nat \<Rightarrow> bool \<times> 's endpoint \<Rightarrow> (bool \<times> 's endpoint) option" where
  "emit_to env track group_id first_object_id final_object_id i = (\<lambda>(ok, t).
     case members t ! i of None \<Rightarrow> Some (ok, t)
     | Some conn \<Rightarrow>
       if \<not> pe_quic conn \<or> \<not> pe_protocol_ready conn \<or> \<not> pe_authenticated conn \<or> \<not> pe_stream conn \<or>
          \<not> pv_control_open env (pe_world conn) \<or> pv_closing env (pe_world conn) \<or> \<not> is_capable conn then Some (ok, t)
       else (case transport_subscriptions_find_alias (pe_table conn) track of
         None \<Rightarrow> Some (ok, t)
       | Some alias_id \<Rightarrow>
         checkpoint_participating conn alias_id \<bind> (\<lambda>participating.
           case (if participating then (conn, t)
               else transport_publish_checkpoint_member_added env i conn track alias_id t) of
             (conn, t) \<Rightarrow>
           (case pv_write_checkpoint env (pe_world conn) alias_id group_id first_object_id final_object_id False of
              (False, w) \<Rightarrow> Some (False, put_member i (put_world w conn) t)
            | (True, w) \<Rightarrow>
              transport_checkpoint_ack (put_world w conn) alias_id \<bind> (\<lambda>ack.
                Some (ok, count_checkpoint (put_member i (put_ack (put_world w conn) alias_id
                  (checkpoint_mark_sent (pv_now_ms env) ack group_id final_object_id)) t)))))))"

fun emit_all :: "'s publish_env \<Rightarrow> moq_track_id \<Rightarrow> u64 \<Rightarrow> u64 \<Rightarrow> u64 \<Rightarrow> nat list \<Rightarrow> bool \<times> 's endpoint \<Rightarrow> (bool \<times> 's endpoint) option" where
  "emit_all env track group_id first final [] s = Some s"
| "emit_all env track group_id first final (i # is) s =
     emit_to env track group_id first final i s \<bind> emit_all env track group_id first final is"

definition set_checkpoint :: "nat \<Rightarrow> u64 \<Rightarrow> u64 \<Rightarrow> 's endpoint \<Rightarrow> 's endpoint" where
  "set_checkpoint j group_id final_object_id t = t\<lparr>en_fec_tracks := (en_fec_tracks t)[j := (en_fec_tracks t ! j)
     \<lparr>ft_checkpoint_initialized := True, ft_checkpoint_group_id := group_id, ft_last_checkpoint_object_id := final_object_id\<rparr>]\<rparr>"

definition emit_rolling_checkpoint :: "'s publish_env \<Rightarrow> nat \<Rightarrow> u64 \<Rightarrow> u64 \<Rightarrow> u64 \<Rightarrow> 's endpoint \<Rightarrow> (bool \<times> 's endpoint) option" where
  "emit_rolling_checkpoint env j group_id first_object_id final_object_id t =
     map_option (\<lambda>(ok, t). (ok, set_checkpoint j group_id final_object_id t))
       (emit_all env (ft_track_id (en_fec_tracks t ! j)) group_id first_object_id final_object_id [0..<length (members t)] (True, t))"

section \<open>Reliable streams\<close>

definition set_stream :: "nat \<Rightarrow> stream_handle option \<Rightarrow> 's peer \<Rightarrow> 's peer" where
  "set_stream k h conn = put_table ((pe_table conn)\<lparr>tb_entries := (tb_entries (pe_table conn))
     [k := (tb_entries (pe_table conn) ! k)\<lparr>ts_stream := h\<rparr>]\<rparr>) conn"

definition find_subscription :: "'s peer \<Rightarrow> moq_track_id \<Rightarrow> nat option" where
  "find_subscription conn track = transport_subscriptions_find (pe_table conn) track"

text \<open>The stream of a subscription, opened if need be.\<close>

definition open_track_stream :: "'s publish_env \<Rightarrow> nat \<Rightarrow> 's peer \<Rightarrow> stream_handle option \<times> 's peer" where
  "open_track_stream env k conn =
     (case ts_stream (tb_entries (pe_table conn) ! k) of
        Some h \<Rightarrow> if pv_handle_open env (pe_world conn) h then (Some h, conn)
          else (case pv_open_stream env (pe_world conn) of (h, w) \<Rightarrow> (h, put_world w (set_stream k h conn)))
      | None \<Rightarrow> (case pv_open_stream env (pe_world conn) of (h, w) \<Rightarrow> (h, put_world w (set_stream k h conn))))"

text \<open>The preflight: a result to return at once, or the number of recipients.\<close>

fun preflight :: "'s publish_env \<Rightarrow> moq_object \<Rightarrow> nat list \<Rightarrow> nat \<Rightarrow> nat \<times> nat \<Rightarrow> 's endpoint \<Rightarrow> (publish_result + nat) \<times> 's endpoint" where
  "preflight env obj [] eligible reserved t = (Inr eligible, t)"
| "preflight env obj (i # is) eligible reserved t =
     (case members t ! i of
        None \<Rightarrow> preflight env obj is eligible reserved t
      | Some conn \<Rightarrow>
        if \<not> transport_publish_recipient_eligible env t conn (ob_track_id obj) then preflight env obj is eligible reserved t
        else if data_size (ob_data obj) > pe_max_reliable_object_size conn then (Inl INVALID_OBJECT, t)
        else (case find_subscription conn (ob_track_id obj) of
          None \<Rightarrow>
            (case pv_accept_batch env (pe_world conn) None (WIRE_FRAME_HEADER_SIZE + data_size (ob_data obj)) reserved of
               (True, reserved) \<Rightarrow> preflight env obj is (eligible + 1) reserved t
             | (False, _) \<Rightarrow> (Inl BACKPRESSURE, t))
        | Some k \<Rightarrow>
            (case open_track_stream env k conn of
               (None, conn) \<Rightarrow> (Inl PUBLISH_ERROR, put_member i conn t)
             | (Some h, conn) \<Rightarrow>
               (case pv_accept_batch env (pe_world conn) (Some h)
                    (WIRE_FRAME_HEADER_SIZE + data_size (ob_data obj) + WIRE_TRACK_OBJECT_HEADER_SIZE) reserved of
                  (True, reserved) \<Rightarrow> preflight env obj is (eligible + 1) reserved (put_member i conn t)
                | (False, _) \<Rightarrow> (Inl BACKPRESSURE, put_member i conn t)))))"

fun write_reliable :: "'s publish_env \<Rightarrow> moq_object \<Rightarrow> nat list \<Rightarrow> nat \<Rightarrow> 's endpoint \<Rightarrow> publish_result \<times> 's endpoint" where
  "write_reliable env obj [] delivered t = (DELIVERED, t)"
| "write_reliable env obj (i # is) delivered t =
     (case members t ! i of
        None \<Rightarrow> write_reliable env obj is delivered t
      | Some conn \<Rightarrow>
        if \<not> transport_publish_recipient_eligible env t conn (ob_track_id obj) then write_reliable env obj is delivered t
        else (case (case find_subscription conn (ob_track_id obj) of
              None \<Rightarrow> pv_send_unicast env (pe_world conn) (data_bytes (ob_data obj))
            | Some k \<Rightarrow> pv_write_object env (pe_world conn) (ts_stream (tb_entries (pe_table conn) ! k))
                (ts_alias (tb_entries (pe_table conn) ! k)) obj) of
          (False, w) \<Rightarrow> (if delivered > 0 then PARTIAL else PUBLISH_ERROR, put_member i (put_world w conn) t)
        | (True, w) \<Rightarrow> write_reliable env obj is (delivered + 1) (put_member i (put_world w conn) t)))"

definition publish_reliable :: "'s publish_env \<Rightarrow> moq_object \<Rightarrow> 's endpoint \<Rightarrow> publish_result \<times> 's endpoint" where
  "publish_reliable env obj t =
     (if data_size (ob_data obj) > en_max_reliable_object_size t then (INVALID_OBJECT, t)
      else case preflight env obj [0..<length (members t)] 0 (0, 0) t of
        (Inl result, t) \<Rightarrow> (result, t)
      | (Inr eligible, t) \<Rightarrow>
        (case write_reliable env obj [0..<length (members t)] 0 t of
           (DELIVERED, t) \<Rightarrow> (if eligible = 0 then NO_RECIPIENTS else DELIVERED, t)
         | (result, t) \<Rightarrow> (result, t)))"

section \<open>Datagrams\<close>

record fanout =
  fo_eligible :: nat
  fo_delivered :: nat
  fo_maximum_sent_symbols :: u16
  fo_partially_queued :: bool
  fo_failure :: publish_result

text \<open>What a result for one recipient adds to the account.\<close>

definition fanout_add :: "publish_result \<Rightarrow> u16 \<Rightarrow> fanout \<Rightarrow> fanout" where
  "fanout_add result sent_symbols f =
     (let f = (if sent_symbols > fo_maximum_sent_symbols f then f\<lparr>fo_maximum_sent_symbols := sent_symbols\<rparr> else f) in
      if result = DELIVERED then f\<lparr>fo_delivered := fo_delivered f + 1\<rparr>
      else if result = NO_RECIPIENTS then f\<lparr>fo_eligible := fo_eligible f - 1\<rparr>
      else let f = (if result = PARTIAL then f\<lparr>fo_partially_queued := True\<rparr> else f) in
        if result = BACKPRESSURE then f\<lparr>fo_failure := BACKPRESSURE\<rparr> else f)"

fun fan_out :: "'s publish_env \<Rightarrow> moq_object \<Rightarrow> nat \<Rightarrow> nat \<Rightarrow> nat \<Rightarrow> nat list \<Rightarrow> fanout \<Rightarrow> 's endpoint \<Rightarrow> fanout \<times> 's endpoint" where
  "fan_out env obj symbol_size estimate_symbol_size data_symbols [] f t = (f, t)"
| "fan_out env obj symbol_size estimate_symbol_size data_symbols (i # is) f t =
     (case members t ! i of
        None \<Rightarrow> fan_out env obj symbol_size estimate_symbol_size data_symbols is f t
      | Some conn \<Rightarrow>
        if \<not> transport_publish_recipient_eligible env t conn (ob_track_id obj)
        then fan_out env obj symbol_size estimate_symbol_size data_symbols is f t
        else let f = f\<lparr>fo_eligible := fo_eligible f + 1\<rparr> in
          if en_fec_in_flush t \<and> pe_group_delivered conn
          then fan_out env obj symbol_size estimate_symbol_size data_symbols is (f\<lparr>fo_delivered := fo_delivered f + 1\<rparr>) t
          else if data_size (ob_data obj) > pe_max_fec_object_size conn
          then fan_out env obj symbol_size estimate_symbol_size data_symbols is (f\<lparr>fo_failure := INVALID_OBJECT\<rparr>) t
          else (case publish_datagram_to_conn (pv_send env i) obj (transport_track_profile (ob_track_id obj))
                symbol_size estimate_symbol_size data_symbols (en_coder t) (pe_sender conn) of
            (result, sent, cd, sn) \<Rightarrow>
              let conn = conn\<lparr>pe_sender := sn, pe_group_delivered := pe_group_delivered conn \<or> (result = DELIVERED \<and> en_fec_in_flush t)\<rparr> in
              fan_out env obj symbol_size estimate_symbol_size data_symbols is
                (fanout_add result (case sent of None \<Rightarrow> 0 | Some m \<Rightarrow> m) f) (put_member i conn (t\<lparr>en_coder := cd\<rparr>))))"

definition symbol_size_for :: "nat \<Rightarrow> nat \<Rightarrow> nat" where
  "symbol_size_for estimate_symbol_size data_size' = (if estimate_symbol_size > data_size' then data_size' else estimate_symbol_size)"

definition data_symbols_for :: "nat \<Rightarrow> nat \<Rightarrow> nat" where
  "data_symbols_for data_size' symbol_size =
     (let data_symbols = sz_sub (sz_add data_size' symbol_size) 1 in
      if data_symbols div symbol_size = 0 then 1 else data_symbols div symbol_size)"

definition publish_datagrams :: "'s publish_env \<Rightarrow> moq_object \<Rightarrow> nat \<Rightarrow> 's endpoint \<Rightarrow> (publish_result \<times> 's endpoint) option" where
  "publish_datagrams env obj fec_limit t =
     (let size' = data_size (ob_data obj); track = ob_track_id obj; profile = transport_track_profile track;
          retained = (ti_type track = ucast MOQ_TRACK_DATA \<and> pr_fec_rateless profile) in
      if size' = 0 \<or> size' > fec_limit then Some (INVALID_OBJECT, t)
      else let estimate_symbol_size = transport_get_datagram_symbol_size env t;
               symbol_size = symbol_size_for estimate_symbol_size size';
               data_symbols = data_symbols_for size' symbol_size in
        (if retained then checkpoint_cache_is_protected track t else Some False) \<bind> (\<lambda>protect.
          if retained \<and> \<not> transport_sent_cache_can_store (en_sent_cache t) obj (\<not> protect)
          then Some (BACKPRESSURE, t\<lparr>en_stats := (en_stats t)\<lparr>pu_cache_backpressure := sz_add (pu_cache_backpressure (en_stats t)) 1\<rparr>\<rparr>)
          else (case fan_out env obj symbol_size estimate_symbol_size data_symbols [0..<length (members t)]
                \<lparr>fo_eligible = 0, fo_delivered = 0, fo_maximum_sent_symbols = of_nat data_symbols, fo_partially_queued = False,
                 fo_failure = PUBLISH_ERROR\<rparr> t of
            (f, t) \<Rightarrow>
            (case (if (fo_delivered f > 0 \<or> fo_partially_queued f) \<and> retained
                then transport_sent_cache_store (pv_calloc_ok env) (pv_malloc env) (en_sent_cache t) obj (fo_maximum_sent_symbols f)
                  (of_nat data_symbols) (of_nat symbol_size) (\<not> protect)
                else (True, en_sent_cache t)) of
              (False, cache) \<Rightarrow> Some (if fo_delivered f > 0 then PARTIAL else PUBLISH_ERROR, t\<lparr>en_sent_cache := cache\<rparr>)
            | (True, cache) \<Rightarrow>
              Some (if fo_partially_queued f \<or> (fo_delivered f > 0 \<and> fo_delivered f \<noteq> fo_eligible f) then PARTIAL
                else if fo_delivered f = 0 then (if fo_eligible f = 0 then NO_RECIPIENTS else fo_failure f) else DELIVERED,
                t\<lparr>en_sent_cache := cache\<rparr>)))))"

section \<open>Publication without grouping\<close>

text \<open>A recipient subscribed under other flags.\<close>

definition flags_mismatch :: "'s publish_env \<Rightarrow> 's endpoint \<Rightarrow> moq_track_id \<Rightarrow> 's peer \<Rightarrow> bool" where
  "flags_mismatch env t track conn \<longleftrightarrow> transport_publish_recipient_eligible env t conn track \<and>
     (case find_subscription conn track of None \<Rightarrow> False
      | Some k \<Rightarrow> ti_flags (ts_track_id (tb_entries (pe_table conn) ! k)) \<noteq> ti_flags track)"

definition publish_valid :: "'s publish_env \<Rightarrow> moq_object \<Rightarrow> 's endpoint \<Rightarrow> bool" where
  "publish_valid env obj t \<longleftrightarrow> pv_owner_ok env \<and> transport_track_id_valid (ob_track_id obj) \<and>
     list_all (\<lambda>c. case c of None \<Rightarrow> True | Some conn \<Rightarrow> \<not> flags_mismatch env t (ob_track_id obj) conn) (members t)"

definition published :: "moq_object \<Rightarrow> bool \<Rightarrow> publish_result \<times> 's endpoint \<Rightarrow> publish_result \<times> 's endpoint" where
  "published obj grouped = (\<lambda>(result, t). (result, t\<lparr>en_published := en_published t @ [(obj, result, grouped)]\<rparr>))"

definition publish_ungrouped :: "'s publish_env \<Rightarrow> moq_object \<Rightarrow> 's endpoint \<Rightarrow> (publish_result \<times> 's endpoint) option" where
  "publish_ungrouped env obj t =
     map_option (published obj (en_fec_in_flush t))
       (if \<not> publish_valid env obj t then Some (INVALID_OBJECT, t)
        else if pr_reliable (transport_track_profile (ob_track_id obj)) then Some (publish_reliable env obj t)
        else publish_datagrams env obj (publication_fec_limit env t (ob_track_id obj)) t)"

section \<open>Grouping\<close>

text \<open>The growth of the buffer: \<open>Some None\<close> is the overflow error.\<close>

partial_function (option) grow_capacity :: "nat \<Rightarrow> nat \<Rightarrow> nat option option" where
  "grow_capacity new_cap needed =
     (if new_cap \<ge> needed then Some (Some new_cap)
      else if new_cap > SIZE_MAX div 2 then Some None
      else grow_capacity (new_cap * 2) needed)"

declare grow_capacity.simps [code]

definition ensure_capacity :: "'s publish_env \<Rightarrow> nat \<Rightarrow> 's endpoint \<Rightarrow> (bool \<times> 's endpoint) option" where
  "ensure_capacity env needed t =
     (if needed \<le> en_fec_buf_cap t then Some (True, t)
      else let new_cap = (if en_fec_buf_cap t = 0 then 4096 else sz_mul (en_fec_buf_cap t) 2) in
        if new_cap < en_fec_buf_cap t then Some (False, t)
        else (case grow_capacity new_cap needed of
          None \<Rightarrow> None
        | Some None \<Rightarrow> Some (False, t)
        | Some (Some new_cap) \<Rightarrow>
            (case pv_realloc env of None \<Rightarrow> Some (False, t)
             | Some address \<Rightarrow> Some (True, t\<lparr>en_fec_buf_address := address, en_fec_buf_cap := new_cap\<rparr>))))"

definition group_object :: "'s endpoint \<Rightarrow> fec_track_state \<Rightarrow> moq_object" where
  "group_object t state = \<lparr>ob_track_id = en_fec_track_id t, ob_group_id = 0, ob_object_id = ft_next_object_id state,
     ob_data = Some \<lparr>pl_address = en_fec_buf_address t, pl_bytes = en_fec_buf t\<rparr>, ob_is_keyframe = False,
     ob_priority = en_fec_priority t\<rparr>"

text \<open>After a group was accepted: the next object, and the empty buffer.\<close>

definition group_done :: "nat \<Rightarrow> 's endpoint \<Rightarrow> 's endpoint" where
  "group_done j t = t\<lparr>en_fec_tracks := (en_fec_tracks t)[j := (en_fec_tracks t ! j)
       \<lparr>ft_next_object_id := ft_next_object_id (en_fec_tracks t ! j) + 1, ft_has_objects := True\<rparr>],
     en_fec_buf := [], en_fec_first_pkt_time := 0, en_fec_pkt_count := 0, en_fec_flush_pending := False\<rparr>"

definition transport_publish_flush_grouped_ex :: "'s publish_env \<Rightarrow> 's endpoint \<Rightarrow> (publish_result \<times> 's endpoint) option" where
  "transport_publish_flush_grouped_ex env t =
     (if en_fec_buf t = [] then Some (DELIVERED, t)
      else case find_fec_track_state (en_fec_tracks t) (en_fec_track_id t) True of
        (None, tracks) \<Rightarrow> Some (PUBLISH_ERROR, t)
      | (Some j, tracks) \<Rightarrow>
        let obj = group_object t (tracks ! j) in
        publish_ungrouped env obj (t\<lparr>en_fec_tracks := tracks, en_fec_flush_pending := True, en_fec_in_flush := True\<rparr>) \<bind> (\<lambda>(result, t).
          let t = t\<lparr>en_fec_in_flush := False\<rparr> in
          if result \<noteq> DELIVERED \<and> result \<noteq> NO_RECIPIENTS then Some (result, t)
          else let t = group_done j t; state = en_fec_tracks t ! j in
            if ti_flags (ft_track_id state) AND MOQ_TRACK_FLAG_FEC_RATELESS \<noteq> 0 \<and> ft_next_object_id state mod 32 = 0
            then map_option (\<lambda>(ok, t). (DELIVERED, t))
              (emit_rolling_checkpoint env j 0 (ft_next_object_id state - 32) (ft_next_object_id state - 1) t)
            else Some (DELIVERED, t)))"

definition transport_publish_flush_grouped :: "'s publish_env \<Rightarrow> 's endpoint \<Rightarrow> (bool \<times> 's endpoint) option" where
  "transport_publish_flush_grouped env t =
     map_option (\<lambda>(result, t). (result = DELIVERED \<or> result = NO_RECIPIENTS, t)) (transport_publish_flush_grouped_ex env t)"

text \<open>The second result is \<open>has_objects\<close> with \<open>final_object_id\<close>.\<close>

definition transport_publish_finish_grouped :: "'s publish_env \<Rightarrow> moq_track_id \<Rightarrow> 's endpoint \<Rightarrow> ((bool \<times> u64) option \<times> 's endpoint) option" where
  "transport_publish_finish_grouped env track t =
     (if en_fec_buf t \<noteq> [] \<and> transport_track_id_equal (en_fec_track_id t) track
      then transport_publish_flush_grouped env t else Some (True, t)) \<bind> (\<lambda>(flushed, t).
        if \<not> flushed then Some (None, t)
        else case fst (find_fec_track_state (en_fec_tracks t) track False) of
          None \<Rightarrow> Some (Some (False, 0), t)
        | Some j \<Rightarrow> Some (Some (if ft_has_objects (en_fec_tracks t ! j)
              then (True, ft_next_object_id (en_fec_tracks t ! j) - 1) else (False, 0)), t))"

text \<open>Whether a data record goes to the grouping buffer.\<close>

definition coded_subscription :: "'s peer \<Rightarrow> moq_track_id \<Rightarrow> bool" where
  "coded_subscription conn track =
     (case find_subscription conn track of None \<Rightarrow> False
      | Some k \<Rightarrow> let profile = transport_track_profile (ts_track_id (tb_entries (pe_table conn) ! k)) in
          pr_fec_enabled profile \<or> pr_fec_rateless profile)"

definition groups_records :: "'s publish_env \<Rightarrow> 's endpoint \<Rightarrow> moq_track_id \<Rightarrow> bool" where
  "groups_records env t track =
     (if en_is_server t
      then list_ex (\<lambda>c. case c of None \<Rightarrow> False
        | Some conn \<Rightarrow> pe_quic conn \<and> pe_protocol_ready conn \<and> pe_authenticated conn \<and> \<not> pv_closing env (pe_world conn) \<and>
            coded_subscription conn track) (en_conns t)
      else case en_client t of None \<Rightarrow> False
        | Some conn \<Rightarrow> pe_protocol_ready conn \<and> pe_authenticated conn \<and> coded_subscription conn track)"

text \<open>The start of a group. A member that is NULL is dereferenced here.\<close>

definition restart_peer :: "'s peer option \<Rightarrow> 's peer option" where
  "restart_peer c = map_option (\<lambda>conn. conn\<lparr>pe_group_delivered := False\<rparr>) c"

definition start_group :: "nat \<Rightarrow> moq_object \<Rightarrow> 's endpoint \<Rightarrow> 's endpoint option" where
  "start_group now obj t =
     (if en_fec_buf t \<noteq> [] then Some t
      else if None \<in> set (members t) then None
      else Some ((if en_is_server t then t\<lparr>en_conns := map restart_peer (en_conns t)\<rparr>
          else t\<lparr>en_client := restart_peer (en_client t)\<rparr>)
        \<lparr>en_fec_first_pkt_time := now, en_fec_track_id := ob_track_id obj, en_fec_priority := ob_priority obj\<rparr>))"

definition record_bytes :: "bytes \<Rightarrow> bytes" where
  "record_bytes data = write_u16 (of_nat (length data)) @ data"

text \<open>A flush that has to succeed before the record is admitted: \<open>Inl\<close> is the result of the call.\<close>

definition flush_first :: "'s publish_env \<Rightarrow> bool \<Rightarrow> 's endpoint \<Rightarrow> (publish_result option \<times> 's endpoint) option" where
  "flush_first env needed t =
     (if \<not> needed then Some (None, t)
      else map_option (\<lambda>(result, t).
        (if result = BACKPRESSURE \<or> result = PARTIAL then Some BACKPRESSURE
         else if result \<noteq> DELIVERED then Some PUBLISH_ERROR else None, t)) (transport_publish_flush_grouped_ex env t))"

definition append_record :: "'s publish_env \<Rightarrow> nat \<Rightarrow> moq_object \<Rightarrow> 's endpoint \<Rightarrow> (publish_result option \<times> 's endpoint) option" where
  "append_record env now obj t = start_group now obj t \<bind> (\<lambda>t.
     let size' = data_size (ob_data obj) in
     if size' > sz_sub (SIZE_MAX - 2) (length (en_fec_buf t)) then Some (Some INVALID_OBJECT, t)
     else ensure_capacity env (length (en_fec_buf t) + 2 + size') t \<bind> (\<lambda>(ok, t).
       if \<not> ok then Some (Some PUBLISH_ERROR, t)
       else Some (None, t\<lparr>en_fec_buf := en_fec_buf t @ record_bytes (data_bytes (ob_data obj)),
              en_fec_pkt_count := unat (of_nat (en_fec_pkt_count t + 1) :: u32)\<rparr>)))"

abbreviation (input) "MAX_FEC_GROUP_SIZE \<equiv> (32768 :: nat)"

definition group_record :: "'s publish_env \<Rightarrow> nat \<Rightarrow> moq_object \<Rightarrow> nat \<Rightarrow> 's endpoint \<Rightarrow> (publish_result \<times> 's endpoint) option" where
  "group_record env now obj fec_limit t =
     (let group_limit = (if fec_limit < MAX_FEC_GROUP_SIZE then fec_limit else MAX_FEC_GROUP_SIZE); size' = data_size (ob_data obj) in
      if size' > MAX_FEC_RECORD_SIZE \<or> fec_limit < 2 \<or> size' > fec_limit - 2 then Some (INVALID_OBJECT, t)
      else flush_first env (en_fec_buf t \<noteq> [] \<and> (en_fec_flush_pending t \<or>
            \<not> transport_track_id_equal (en_fec_track_id t) (ob_track_id obj) \<or> en_fec_priority t \<noteq> ob_priority obj)) t \<bind>
        (\<lambda>(stop, t). case stop of Some result \<Rightarrow> Some (result, t)
        | None \<Rightarrow> flush_first env (en_fec_buf t \<noteq> [] \<and> (en_fec_pkt_count t \<ge> 4 \<or> size' > group_limit - 2 \<or>
              length (en_fec_buf t) > group_limit - 2 - size')) t \<bind>
          (\<lambda>(stop, t). case stop of Some result \<Rightarrow> Some (result, t)
          | None \<Rightarrow> append_record env now obj t \<bind>
            (\<lambda>(stop, t). case stop of Some result \<Rightarrow> Some (result, t)
            | None \<Rightarrow>
              if en_fec_pkt_count t \<ge> 4 \<or> length (en_fec_buf t) \<ge> group_limit
              then map_option (\<lambda>(result, t).
                (if result = BACKPRESSURE \<or> result = PARTIAL then BUFFERED
                 else if result = DELIVERED then DELIVERED else PUBLISH_ERROR, t)) (transport_publish_flush_grouped_ex env t)
              else Some (BUFFERED, t)))))"

definition transport_publish_impl :: "'s publish_env \<Rightarrow> nat \<Rightarrow> moq_object \<Rightarrow> 's endpoint \<Rightarrow> (publish_result \<times> 's endpoint) option" where
  "transport_publish_impl env now obj t =
     (if \<not> publish_valid env obj t then Some (INVALID_OBJECT, t)
      else if ti_type (ob_track_id obj) = ucast MOQ_TRACK_DATA \<and> \<not> en_fec_in_flush t \<and> groups_records env t (ob_track_id obj)
      then group_record env now obj (publication_fec_limit env t (ob_track_id obj)) t
      else publish_ungrouped env obj t)"

definition count_result :: "publish_result \<Rightarrow> publish_stats \<Rightarrow> publish_stats" where
  "count_result result s = (case result of
       DELIVERED \<Rightarrow> s\<lparr>pu_delivered := sz_add (pu_delivered s) 1\<rparr>
     | BUFFERED \<Rightarrow> s\<lparr>pu_buffered := sz_add (pu_buffered s) 1\<rparr>
     | NO_RECIPIENTS \<Rightarrow> s\<lparr>pu_no_recipients := sz_add (pu_no_recipients s) 1\<rparr>
     | PARTIAL \<Rightarrow> s\<lparr>pu_partial := sz_add (pu_partial s) 1\<rparr>
     | BACKPRESSURE \<Rightarrow> s\<lparr>pu_backpressure := sz_add (pu_backpressure s) 1\<rparr>
     | INVALID_OBJECT \<Rightarrow> s\<lparr>pu_invalid := sz_add (pu_invalid s) 1\<rparr>
     | PUBLISH_ERROR \<Rightarrow> s\<lparr>pu_errors := sz_add (pu_errors s) 1\<rparr>)"

definition transport_publish_ex :: "'s publish_env \<Rightarrow> nat \<Rightarrow> moq_object \<Rightarrow> 's endpoint \<Rightarrow> (publish_result \<times> 's endpoint) option" where
  "transport_publish_ex env now obj t =
     (if \<not> pv_owner_ok env then Some (INVALID_OBJECT, t)
      else map_option (\<lambda>(result, t). (result, t\<lparr>en_stats := count_result result (en_stats t)\<rparr>)) (transport_publish_impl env now obj t))"

definition transport_publish :: "'s publish_env \<Rightarrow> nat \<Rightarrow> moq_object \<Rightarrow> 's endpoint \<Rightarrow> (bool \<times> 's endpoint) option" where
  "transport_publish env now obj t = map_option (\<lambda>(result, t).
     (result = DELIVERED \<or> result = BUFFERED \<or> result = NO_RECIPIENTS, t)) (transport_publish_ex env now obj t)"

section \<open>The end of a track\<close>

definition count_track_end :: "'s endpoint \<Rightarrow> 's endpoint" where
  "count_track_end t = t\<lparr>en_stats := (en_stats t)\<lparr>pu_track_ends_sent := sz_add (pu_track_ends_sent (en_stats t)) 1\<rparr>\<rparr>"

text \<open>One member of the loop; the flags are \<open>found\<close> and \<open>succeeded\<close>.\<close>

definition finish_to :: "'s publish_env \<Rightarrow> moq_track_id \<Rightarrow> u64 \<Rightarrow> nat \<Rightarrow> (bool \<times> bool) \<times> 's endpoint \<Rightarrow> ((bool \<times> bool) \<times> 's endpoint) option" where
  "finish_to env track final_object_id i = (\<lambda>((found, succeeded), t).
     case members t ! i of None \<Rightarrow> Some ((found, succeeded), t)
     | Some conn \<Rightarrow>
       if \<not> pe_quic conn \<or> \<not> pe_protocol_ready conn \<or> \<not> pe_authenticated conn \<or> \<not> pe_stream conn \<or>
          \<not> pv_control_open env (pe_world conn) \<or> pv_closing env (pe_world conn) then Some ((found, succeeded), t)
       else (case transport_subscriptions_find_alias (pe_table conn) track of
         None \<Rightarrow> Some ((found, succeeded), t)
       | Some alias_id \<Rightarrow>
         (case pv_write_track_end env (pe_world conn) alias_id 0 final_object_id of
            (False, w) \<Rightarrow> Some ((True, False), put_member i (put_world w conn) t)
          | (True, w) \<Rightarrow>
            let conn = put_world w conn; t = count_track_end (put_member i conn t) in
            if \<not> is_capable conn then Some ((True, succeeded), t)
            else checkpoint_participating conn alias_id \<bind> (\<lambda>participating.
              case (if participating then (conn, t)
                  else transport_publish_checkpoint_member_added env i conn track alias_id t) of
                (conn, t) \<Rightarrow> transport_checkpoint_ack conn alias_id \<bind> (\<lambda>ack.
                  Some ((True, succeeded), put_member i (put_ack conn alias_id
                    (checkpoint_mark_sent (pv_now_ms env) ack 0 final_object_id)) t))))))"

fun finish_all :: "'s publish_env \<Rightarrow> moq_track_id \<Rightarrow> u64 \<Rightarrow> nat list \<Rightarrow> (bool \<times> bool) \<times> 's endpoint \<Rightarrow> ((bool \<times> bool) \<times> 's endpoint) option" where
  "finish_all env track final [] s = Some s"
| "finish_all env track final (i # is) s = finish_to env track final i s \<bind> finish_all env track final is"

definition transport_finish_track :: "'s publish_env \<Rightarrow> moq_track_id \<Rightarrow> 's endpoint \<Rightarrow> (bool \<times> 's endpoint) option" where
  "transport_finish_track env track t =
     (if \<not> pv_owner_ok env \<or> \<not> transport_track_id_valid track \<or> ti_type track \<noteq> ucast MOQ_TRACK_DATA \<or>
         ti_flags track AND MOQ_TRACK_FLAG_FEC_RATELESS = 0 then Some (False, t)
      else transport_publish_finish_grouped env track t \<bind> (\<lambda>(finished, t). case finished of
          None \<Rightarrow> Some (False, t)
        | Some (has_objects, final_object_id) \<Rightarrow>
          if \<not> has_objects then Some (True, t)
          else map_option (\<lambda>((found, succeeded), t).
              (\<not> found \<or> succeeded, case fst (find_fec_track_state (en_fec_tracks t) track False) of
                 None \<Rightarrow> t | Some j \<Rightarrow> set_checkpoint j 0 final_object_id t))
            (finish_all env track final_object_id [0..<length (members t)] ((False, True), t))))"

end
