(* ===== verification/Grouping.thy ===== *)
theory Grouping
  imports Publisher
begin

text \<open>
  What the grouping of data records promises: records enter the buffer whole, leave it in order as
  consecutively numbered objects, and are neither lost, repeated nor reordered.
\<close>

section \<open>What publication leaves alone\<close>

type_synonym publication = "moq_object \<times> publish_result \<times> bool"

definition group_part ::
  "'s endpoint \<Rightarrow> bytes \<times> moq_track_id \<times> nat \<times> u8 \<times> bool \<times> bool \<times> fec_track_state list \<times> publication list" where
  "group_part t = (en_fec_buf t, en_fec_track_id t, en_fec_pkt_count t, en_fec_priority t, en_fec_flush_pending t,
     en_fec_in_flush t, en_fec_tracks t, en_published t)"

lemma group_part_put [simp]: "group_part (put_member i c t) = group_part t"
  by (simp add: put_member_def group_part_def)

lemma group_part_count [simp]: "group_part (count_checkpoint t) = group_part t" "group_part (count_track_end t) = group_part t"
  by (simp_all add: count_checkpoint_def count_track_end_def group_part_def)

lemma group_part_other [simp]:
  "group_part (t\<lparr>en_coder := cd\<rparr>) = group_part t" "group_part (t\<lparr>en_sent_cache := ca\<rparr>) = group_part t"
  "group_part (t\<lparr>en_stats := st\<rparr>) = group_part t"
  "group_part (t\<lparr>en_fec_buf_address := ad, en_fec_buf_cap := cp\<rparr>) = group_part t"
  by (simp_all add: group_part_def)

lemma preflight_group: "preflight env obj is eligible reserved t = (r, t') \<Longrightarrow> group_part t' = group_part t"
proof (induction env obj "is" eligible reserved t rule: preflight.induct)
  case (2 env obj i "is" eligible reserved t)
  then show ?case by (auto simp: Let_def split: option.splits if_splits prod.splits bool.splits)
qed simp

lemma write_reliable_group: "write_reliable env obj is delivered t = (r, t') \<Longrightarrow> group_part t' = group_part t"
proof (induction env obj "is" delivered t rule: write_reliable.induct)
  case (2 env obj i "is" delivered t)
  then show ?case by (auto simp: Let_def split: option.splits if_splits prod.splits bool.splits)
qed simp

lemma publish_reliable_group: "publish_reliable env obj t = (r, t') \<Longrightarrow> group_part t' = group_part t"
  by (auto simp: publish_reliable_def split: if_splits prod.splits sum.splits publish_result.splits
      dest!: preflight_group write_reliable_group)

lemma fan_out_group: "fan_out env obj z e k is f t = (f', t') \<Longrightarrow> group_part t' = group_part t"
proof (induction env obj z e k "is" f t rule: fan_out.induct)
  case (2 env obj z e k i "is" f t)
  then show ?case by (auto simp: Let_def split: option.splits if_splits prod.splits)
qed simp

lemma publish_datagrams_group: "publish_datagrams env obj limit t = Some (r, t') \<Longrightarrow> group_part t' = group_part t"
  by (auto simp: publish_datagrams_def Let_def bind_eq_Some_conv split: if_splits prod.splits bool.splits dest!: fan_out_group)

text \<open>Publication itself only adds to the trace.\<close>

lemma publish_ungrouped_group:
  assumes "publish_ungrouped env obj t = Some (r, t')"
  shows "group_part t' = group_part (t\<lparr>en_published := en_published t @ [(obj, r, en_fec_in_flush t)]\<rparr>)"
proof -
  obtain t1 where t': "t' = t1\<lparr>en_published := en_published t1 @ [(obj, r, en_fec_in_flush t)]\<rparr>"
    and t1: "group_part t1 = group_part t"
    using assms by (auto simp: publish_ungrouped_def published_def split: if_splits prod.splits
        dest!: publish_reliable_group publish_datagrams_group)
  then show ?thesis by (simp add: group_part_def)
qed

lemma member_added_group:
  "transport_publish_checkpoint_member_added env i conn track a t = (conn', t') \<Longrightarrow> group_part t' = group_part t"
  by (auto simp: transport_publish_checkpoint_member_added_def Let_def split: if_splits option.splits prod.splits bool.splits)

lemma emit_to_group: "emit_to env track g f l i s = Some s' \<Longrightarrow> group_part (snd s') = group_part (snd s)"
  by (cases s) (auto simp: emit_to_def Let_def bind_eq_Some_conv split: option.splits if_splits prod.splits bool.splits
      dest!: member_added_group)

lemma emit_all_group: "emit_all env track g f l is s = Some s' \<Longrightarrow> group_part (snd s') = group_part (snd s)"
proof (induction env track g f l "is" s rule: emit_all.induct)
  case (2 env track g f l i "is" s)
  from "2.prems" obtain s1 where "emit_to env track g f l i s = Some s1" "emit_all env track g f l is s1 = Some s'"
    by (cases "emit_to env track g f l i s") auto
  then show ?case using "2.IH" emit_to_group by metis
qed simp

lemma finish_to_group: "finish_to env track l i s = Some s' \<Longrightarrow> group_part (snd s') = group_part (snd s)"
  by (cases s) (auto simp: finish_to_def Let_def bind_eq_Some_conv split: option.splits if_splits prod.splits bool.splits
      dest!: member_added_group)

lemma finish_all_group: "finish_all env track l is s = Some s' \<Longrightarrow> group_part (snd s') = group_part (snd s)"
proof (induction env track l "is" s rule: finish_all.induct)
  case (2 env track l i "is" s)
  from "2.prems" obtain s1 where "finish_to env track l i s = Some s1" "finish_all env track l is s1 = Some s'"
    by (cases "finish_to env track l i s") auto
  then show ?case using "2.IH" finish_to_group by metis
qed simp

lemma release_group: "release_acked_checkpoints track t = Some t' \<Longrightarrow> group_part t' = group_part t"
  by (auto simp: release_acked_checkpoints_def group_part_def split: option.splits if_splits prod.splits)

section \<open>Object numbers\<close>

abbreviation (input) same_id :: "moq_track_id \<Rightarrow> moq_track_id \<Rightarrow> bool" where
  "same_id \<equiv> transport_track_id_equal"

definition track_slot :: "fec_track_state list \<Rightarrow> moq_track_id \<Rightarrow> nat option" where
  "track_slot tracks T = first_index (\<lambda>s. ft_active s \<and> same_id (ft_track_id s) T) tracks"

definition next_number :: "fec_track_state list \<Rightarrow> moq_track_id \<Rightarrow> u64" where
  "next_number tracks T = (case track_slot tracks T of None \<Rightarrow> 0 | Some j \<Rightarrow> ft_next_object_id (tracks ! j))"

text \<open>Entries that are not in use are zero.\<close>

definition tracks_wf :: "fec_track_state list \<Rightarrow> bool" where
  "tracks_wf tracks \<longleftrightarrow> (\<forall>s \<in> set tracks. \<not> ft_active s \<longrightarrow> ft_next_object_id s = 0 \<and> \<not> ft_has_objects s \<and> \<not> ft_checkpoint_initialized s)"

lemma first_index_replace:
  assumes "i < length xs" "P y \<longleftrightarrow> P (xs ! i)"
  shows "first_index P (xs[i := y]) = first_index P xs"
  using assms by (induction xs arbitrary: i) (auto split: nat.splits)

lemma first_index_enter:
  assumes "first_index P xs = None" "i < length xs" "P y"
  shows "first_index P (xs[i := y]) = Some i"
  using assms by (intro first_index_unique) (auto simp: first_index_None nth_list_update split: if_splits)

lemma same_id_class: "same_id a b \<Longrightarrow> same_id a c \<longleftrightarrow> same_id b c"
  by (simp add: transport_track_id_equal_def strcmp_eq_def)

lemma track_slot_Some: "track_slot tracks T = Some j \<Longrightarrow> j < length tracks \<and> ft_active (tracks ! j) \<and> same_id (ft_track_id (tracks ! j)) T"
  by (simp add: track_slot_def first_index_Some)

lemma tracks_wf_update:
  assumes "tracks_wf tracks" "ft_active s"
  shows "tracks_wf (tracks[j := s])"
  using assms set_update_subset_insert [of tracks j s] unfolding tracks_wf_def by blast

text \<open>A track found or created is the one its number is looked up in.\<close>

lemma find_track_result:
  assumes "find_fec_track_state tracks T create = (r, tracks')" "tracks_wf tracks"
  shows "tracks_wf tracks' \<and> length tracks' = length tracks \<and> (\<forall>U. next_number tracks' U = next_number tracks U) \<and>
    (\<forall>j. r = Some j \<longrightarrow> track_slot tracks' T = Some j) \<and> (r = None \<or> \<not> create \<longrightarrow> tracks' = tracks) \<and> (\<not> create \<longrightarrow> r = track_slot tracks T)"
proof (cases "track_slot tracks T")
  case (Some j)
  then show ?thesis using assms by (auto simp: find_fec_track_state_def track_slot_def)
next
  case None
  note n = None [unfolded track_slot_def]
  show ?thesis
  proof (cases "first_index (\<lambda>s. \<not> ft_active s) tracks")
    case None
    then show ?thesis using assms n by (auto simp: find_fec_track_state_def track_slot_def)
  next
    case (Some i)
    then have i: "i < length tracks" "\<not> ft_active (tracks ! i)" by (simp_all add: first_index_Some)
    show ?thesis
    proof (cases create)
      case False
      then show ?thesis using assms n Some by (auto simp: find_fec_track_state_def track_slot_def)
    next
      case True
      let ?s = "(tracks ! i)\<lparr>ft_track_id := T, ft_active := True\<rparr>"
      have r: "r = Some i" "tracks' = tracks[i := ?s]" using assms(1) n Some True by (simp_all add: find_fec_track_state_def)
      have zero: "ft_next_object_id (tracks ! i) = 0" using assms(2) i by (auto simp: tracks_wf_def)
      have slot: "track_slot tracks' T = Some i"
        unfolding r track_slot_def using i by (intro first_index_enter n) (simp_all add: track_id_equal_refl)
      have next': "next_number tracks' U = next_number tracks U" for U
      proof (cases "same_id T U")
        case True
        then have c: "same_id x U \<longleftrightarrow> same_id x T" for x
          using same_id_class [of T U x] track_id_equal_sym by blast
        show ?thesis using slot n zero i unfolding next_number_def track_slot_def c r by simp
      next
        case False
        then have "track_slot tracks' U = track_slot tracks U"
          unfolding r track_slot_def using i by (intro first_index_replace) simp_all
        moreover have "track_slot tracks U \<noteq> Some i" using i track_slot_Some by blast
        ultimately show ?thesis using i by (auto simp: next_number_def r split: option.splits)
      qed
      have "tracks_wf tracks'" unfolding r using assms(2) by (rule tracks_wf_update) simp
      then show ?thesis using slot next' True r by simp
    qed
  qed
qed

lemma same_fields_next:
  assumes "j < length tracks" "ft_active s = ft_active (tracks ! j)" "ft_track_id s = ft_track_id (tracks ! j)"
  shows "track_slot (tracks[j := s]) U = track_slot tracks U"
  unfolding track_slot_def using assms by (intro first_index_replace) simp_all

lemma next_number_update:
  assumes "track_slot tracks T = Some j" "ft_active s = ft_active (tracks ! j)" "ft_track_id s = ft_track_id (tracks ! j)"
  shows "next_number (tracks[j := s]) U = (if same_id T U then ft_next_object_id s else next_number tracks U)"
proof -
  note j = track_slot_Some [OF assms(1)]
  have slot: "track_slot (tracks[j := s]) U = track_slot tracks U" using j assms by (intro same_fields_next) simp_all
  show ?thesis
  proof (cases "same_id T U")
    case True
    then have c: "same_id x U \<longleftrightarrow> same_id x T" for x
      using same_id_class [of T U x] track_id_equal_sym by blast
    then have "track_slot tracks U = Some j" using assms(1) unfolding track_slot_def by simp
    then show ?thesis using j True by (simp add: next_number_def slot)
  next
    case False
    have "track_slot tracks U \<noteq> Some j"
      using j False track_slot_Some [of tracks U j] same_id_class by blast
    then show ?thesis using False by (auto simp: next_number_def slot split: option.splits)
  qed
qed

section \<open>Records in the buffer and in objects\<close>

definition records_of :: "bytes list \<Rightarrow> bytes" where
  "records_of rs = concat (map record_bytes rs)"

lemma records_of_simps [simp]: "records_of [] = []" "records_of (rs @ ss) = records_of rs @ records_of ss"
  by (simp_all add: records_of_def)

lemma records_of_one: "records_of [r] = record_bytes r"
  by (simp add: records_of_def)

lemma records_of_empty [simp]: "records_of rs = [] \<longleftrightarrow> rs = []"
  by (cases rs) (simp_all add: records_of_def record_bytes_def write_u16_def)

type_synonym group = "moq_object \<times> bytes list"

definition of_track :: "moq_track_id \<Rightarrow> group list \<Rightarrow> group list" where
  "of_track U gs = filter (\<lambda>g. same_id (ob_track_id (fst g)) U) gs"

definition records_on :: "moq_track_id \<Rightarrow> (moq_track_id \<times> bytes) list \<Rightarrow> bytes list" where
  "records_on U acc = map snd (filter (\<lambda>r. same_id (fst r) U) acc)"

lemma of_track_snoc: "of_track U (gs @ [g]) = of_track U gs @ (if same_id (ob_track_id (fst g)) U then [g] else [])"
  by (simp add: of_track_def)

lemma records_on_snoc: "records_on U (acc @ [r]) = records_on U acc @ (if same_id (fst r) U then [snd r] else [])"
  by (simp add: records_on_def)

text \<open>
  The groups that a run has handed out, in order, as its trace shows: delivered, or there was nobody
  to deliver them to. A group that was refused or only partly queued is handed out again later.
\<close>

definition groups_handed :: "'s endpoint \<Rightarrow> moq_object list" where
  "groups_handed t = map fst (filter (\<lambda>(ob, r, grouped). grouped \<and> (r = DELIVERED \<or> r = NO_RECIPIENTS)) (en_published t))"

definition group_ok :: "group \<Rightarrow> bool" where
  "group_ok g \<longleftrightarrow> data_bytes (ob_data (fst g)) = records_of (snd g) \<and> snd g \<noteq> [] \<and> length (snd g) \<le> 4 \<and>
     (\<forall>r \<in> set (snd g). length r \<le> 65535) \<and> ob_group_id (fst g) = 0"

definition numbered :: "group list \<Rightarrow> bool" where
  "numbered gs \<longleftrightarrow> (\<forall>U. map (\<lambda>g. ob_object_id (fst g)) (of_track U gs) = map of_nat [0..<length (of_track U gs)])"

text \<open>\<open>acc\<close> are the records accepted so far, \<open>gs\<close> the groups published.\<close>

definition group_inv :: "'s endpoint \<Rightarrow> (moq_track_id \<times> bytes) list \<Rightarrow> group list \<Rightarrow> bytes list \<Rightarrow> bool" where
  "group_inv t acc gs pending \<longleftrightarrow> en_fec_buf t = records_of pending \<and> length pending = en_fec_pkt_count t \<and> length pending \<le> 4 \<and>
     (\<forall>r \<in> set pending. length r \<le> 65535) \<and> tracks_wf (en_fec_tracks t) \<and>
     (\<forall>U. next_number (en_fec_tracks t) U = of_nat (length (of_track U gs))) \<and> numbered gs \<and> list_all group_ok gs \<and>
     (\<forall>U. concat (map snd (of_track U gs)) @ (if same_id (en_fec_track_id t) U then pending else []) = records_on U acc) \<and>
     groups_handed t = map fst gs \<and> \<not> en_fec_in_flush t"

lemma group_inv_part: "group_part t' = group_part t \<Longrightarrow> group_inv t' acc gs p = group_inv t acc gs p"
  by (simp add: group_inv_def group_part_def groups_handed_def)

lemma group_inv_cong:
  assumes "en_fec_buf t' = en_fec_buf t" "en_fec_pkt_count t' = en_fec_pkt_count t" "p = [] \<or> en_fec_track_id t' = en_fec_track_id t"
    "tracks_wf (en_fec_tracks t')" "\<And>U. next_number (en_fec_tracks t') U = next_number (en_fec_tracks t) U"
    "groups_handed t' = groups_handed t" "en_fec_in_flush t' = en_fec_in_flush t" "group_inv t acc gs p"
  shows "group_inv t' acc gs p"
  using assms by (cases "p = []") (simp_all add: group_inv_def)

text \<open>A flush publishes the pending records as the next object, or leaves everything as it was.\<close>

lemma group_inv_flushed:
  assumes inv: "group_inv t acc gs p" and p: "p \<noteq> []"
    and ob: "data_bytes (ob_data ob) = en_fec_buf t" "ob_track_id ob = en_fec_track_id t" "ob_group_id ob = 0"
      "ob_object_id ob = next_number (en_fec_tracks t) (en_fec_track_id t)"
    and t': "en_fec_buf t' = []" "en_fec_pkt_count t' = 0" "tracks_wf (en_fec_tracks t')"
      "\<And>U. next_number (en_fec_tracks t') U = next_number (en_fec_tracks t) U + (if same_id (en_fec_track_id t) U then 1 else 0)"
      "groups_handed t' = groups_handed t @ [ob]" "\<not> en_fec_in_flush t'"
  shows "group_inv t' acc (gs @ [(ob, p)]) []"
proof -
  note i = inv [unfolded group_inv_def]
  have "numbered (gs @ [(ob, p)])"
    unfolding numbered_def
  proof
    fix U
    have "ob_object_id ob = of_nat (length (of_track U gs))" if "same_id (en_fec_track_id t) U"
    proof -
      have "same_id x (en_fec_track_id t) \<longleftrightarrow> same_id x U" for x
        using that same_id_class [of "en_fec_track_id t" U x] track_id_equal_sym by blast
      then have "of_track (en_fec_track_id t) gs = of_track U gs" by (simp add: of_track_def)
      then show ?thesis using i ob by simp
    qed
    then show "map (\<lambda>g. ob_object_id (fst g)) (of_track U (gs @ [(ob, p)])) = map of_nat [0..<length (of_track U (gs @ [(ob, p)]))]"
      using i ob by (simp add: of_track_snoc numbered_def)
  qed
  moreover have "list_all group_ok (gs @ [(ob, p)])" using i ob p by (simp add: group_ok_def)
  moreover have "concat (map snd (of_track U (gs @ [(ob, p)]))) = records_on U acc" for U
  proof -
    have "concat (map snd (of_track U gs)) @ (if same_id (en_fec_track_id t) U then p else []) = records_on U acc"
      using i by blast
    then show ?thesis using ob by (simp add: of_track_snoc split: if_splits)
  qed
  ultimately show ?thesis using i ob t' by (simp add: group_inv_def of_track_snoc)
qed

lemma checkpoint_numbers:
  assumes "track_slot (en_fec_tracks t) T = Some j" "tracks_wf (en_fec_tracks t)"
  shows "tracks_wf (en_fec_tracks (set_checkpoint j g l t)) \<and> next_number (en_fec_tracks (set_checkpoint j g l t)) U = next_number (en_fec_tracks t) U"
proof -
  note j = track_slot_Some [OF assms(1)]
  have "next_number (en_fec_tracks (set_checkpoint j g l t)) U =
      (if same_id T U then ft_next_object_id (en_fec_tracks t ! j) else next_number (en_fec_tracks t) U)"
    using next_number_update [OF assms(1)] by (simp add: set_checkpoint_def)
  moreover have "next_number (en_fec_tracks t) U = ft_next_object_id (en_fec_tracks t ! j)" if "same_id T U"
    using next_number_update [OF assms(1) refl refl, of U] that by simp
  ultimately show ?thesis using assms(2) j by (auto simp: set_checkpoint_def intro: tracks_wf_update)
qed

lemma emit_rolling_group:
  assumes "emit_rolling_checkpoint env j g f l t = Some (ok, t')" "group_inv t acc gs p" "track_slot (en_fec_tracks t) T = Some j"
  shows "group_inv t' acc gs p \<and> en_fec_buf t' = en_fec_buf t"
proof -
  from assms(1) obtain t1 where t1: "group_part t1 = group_part t" "t' = set_checkpoint j g l t1"
    by (auto simp: emit_rolling_checkpoint_def dest!: emit_all_group)
  have same: "en_fec_tracks t1 = en_fec_tracks t" "en_fec_buf t1 = en_fec_buf t" using t1(1) by (simp_all add: group_part_def)
  have "group_inv t1 acc gs p" using assms(2) group_inv_part [OF t1(1)] by blast
  moreover have "tracks_wf (en_fec_tracks t1)" using assms(2) same by (simp add: group_inv_def)
  ultimately have "group_inv t' acc gs p"
    using checkpoint_numbers [of t1 T j g l] assms(3) same
    by (intro group_inv_cong [of t' t1]) (simp_all add: t1(2) set_checkpoint_def groups_handed_def)
  then show ?thesis using t1(2) same by (simp add: set_checkpoint_def)
qed

lemma flush_result:
  assumes inv: "group_inv t acc gs p" and env: "env \<in> E" and r: "transport_publish_flush_grouped_ex env t = Some (r, t')"
  shows "(r = DELIVERED \<and> (\<exists>gs'. group_inv t' acc (gs @ gs') []) \<and> en_fec_buf t' = []) \<or>
    (r \<noteq> DELIVERED \<and> p \<noteq> [] \<and> group_inv t' acc gs p)"
proof (cases "p = []")
  case True
  then have "en_fec_buf t = []" using inv by (simp add: group_inv_def)
  then show ?thesis using r inv True by (auto simp: transport_publish_flush_grouped_ex_def intro: exI [of _ "[]"])
next
  case p: False
  then have buf: "en_fec_buf t \<noteq> []" using inv by (simp add: group_inv_def)
  obtain fj tracks where find': "find_fec_track_state (en_fec_tracks t) (en_fec_track_id t) True = (fj, tracks)" by (rule prod.exhaust)
  have wf: "tracks_wf (en_fec_tracks t)" using inv by (simp add: group_inv_def)
  note found = find_track_result [OF find' wf]
  show ?thesis
  proof (cases fj)
    case None
    then show ?thesis using r inv p buf find' by (simp add: transport_publish_flush_grouped_ex_def)
  next
    case (Some j)
    have slot: "track_slot tracks (en_fec_track_id t) = Some j" using found Some by simp
    note j = track_slot_Some [OF slot]
    define t1 where "t1 = t\<lparr>en_fec_tracks := tracks, en_fec_flush_pending := True, en_fec_in_flush := True\<rparr>"
    let ?ob = "group_object t (tracks ! j)"
    obtain res t2 where pub: "publish_ungrouped env ?ob t1 = Some (res, t2)"
      using r buf find' Some by (auto simp: transport_publish_flush_grouped_ex_def Let_def t1_def bind_eq_Some_conv)
    define t3 where "t3 = t2\<lparr>en_fec_in_flush := False\<rparr>"
    have part3: "en_fec_buf t3 = en_fec_buf t" "en_fec_track_id t3 = en_fec_track_id t" "en_fec_pkt_count t3 = en_fec_pkt_count t"
      "en_fec_tracks t3 = tracks" "en_published t3 = en_published t @ [(?ob, res, True)]" "\<not> en_fec_in_flush t3"
      using publish_ungrouped_group [OF pub] by (simp_all add: t3_def group_part_def t1_def)
    note tr3 = part3(4) and eq3 = part3(1,2)
    define t0 where "t0 = t\<lparr>en_fec_tracks := tracks\<rparr>"
    have inv0: "group_inv t0 acc gs p"
      using found inv by (intro group_inv_cong [of t0 t]) (simp_all add: t0_def groups_handed_def)
    have rest: "(if res \<noteq> DELIVERED \<and> res \<noteq> NO_RECIPIENTS then Some (res, t3)
        else let t = group_done j t3; state = en_fec_tracks t ! j in
          if ti_flags (ft_track_id state) AND MOQ_TRACK_FLAG_FEC_RATELESS \<noteq> 0 \<and> ft_next_object_id state mod 32 = 0
          then map_option (\<lambda>(ok, t). (DELIVERED, t))
            (emit_rolling_checkpoint env j 0 (ft_next_object_id state - 32) (ft_next_object_id state - 1) t)
          else Some (DELIVERED, t)) = Some (r, t')"
      using r pub [unfolded t1_def] unfolding transport_publish_flush_grouped_ex_def if_not_P [OF buf] find' Some prod.case option.case
      unfolding Let_def t3_def by simp
    show ?thesis
    proof (cases "res \<noteq> DELIVERED \<and> res \<noteq> NO_RECIPIENTS")
      case True
      have "groups_handed t3 = groups_handed t0" using True by (auto simp: groups_handed_def part3 t0_def)
      then have "group_inv t3 acc gs p"
        using part3 inv0 by (intro group_inv_cong [OF _ _ _ _ _ _ _ inv0]) (simp_all add: t0_def group_inv_def)
      then show ?thesis using rest True p by auto
    next
      case False
      have num: "ft_next_object_id (tracks ! j) = next_number (en_fec_tracks t) (en_fec_track_id t)"
        using found slot by (metis next_number_def option.simps(5))
      define t4 where "t4 = group_done j t3"
      let ?s = "(tracks ! j)\<lparr>ft_next_object_id := ft_next_object_id (tracks ! j) + 1, ft_has_objects := True\<rparr>"
      have tr4: "en_fec_tracks t4 = tracks[j := ?s]" by (simp add: t4_def group_done_def tr3)
      have next4: "next_number (en_fec_tracks t4) U = next_number (en_fec_tracks t0) U + (if same_id (en_fec_track_id t0) U then 1 else 0)" for U
      proof -
        have "next_number tracks U = ft_next_object_id (tracks ! j)" if "same_id (en_fec_track_id t) U"
          using next_number_update [OF slot refl refl, of U] that by simp
        then show ?thesis unfolding tr4 using next_number_update [OF slot, of ?s U] by (simp add: t0_def)
      qed
      have wf4: "tracks_wf (en_fec_tracks t4)" unfolding tr4 using found j by (intro tracks_wf_update) simp_all
      have handed4: "groups_handed t4 = groups_handed t0 @ [?ob]"
        using False by (auto simp: groups_handed_def t4_def group_done_def part3 t0_def)
      have inv4: "group_inv t4 acc (gs @ [(?ob, p)]) []"
      proof (rule group_inv_flushed [OF inv0 p])
        show "ob_object_id ?ob = next_number (en_fec_tracks t0) (en_fec_track_id t0)"
          using num found by (simp add: group_object_def t0_def)
      qed (use wf4 next4 handed4 part3 in \<open>simp_all add: group_object_def t4_def group_done_def data_bytes_def t0_def\<close>)
      have slot4: "track_slot (en_fec_tracks t4) (en_fec_track_id t) = Some j"
        unfolding tr4 using slot j by (simp add: same_fields_next)
      have buf4: "en_fec_buf t4 = []" by (simp add: t4_def group_done_def)
      from rest False have "(r = DELIVERED \<and> t' = t4) \<or>
          (r = DELIVERED \<and> (\<exists>f l ok. emit_rolling_checkpoint env j 0 f l t4 = Some (ok, t')))"
        by (auto simp: Let_def t4_def [symmetric] split: if_splits)
      then show ?thesis using inv4 buf4 emit_rolling_group [OF _ inv4 slot4] by metis
    qed
  qed
qed

text \<open>A record joins the buffer.\<close>

lemma ensure_capacity_group: "ensure_capacity env n t = Some (ok, t') \<Longrightarrow> group_part t' = group_part t"
  by (auto simp: ensure_capacity_def Let_def split: if_splits option.splits)

lemma group_inv_append:
  assumes inv: "group_inv t acc gs p"
    and t': "en_fec_buf t' = en_fec_buf t @ record_bytes d" "en_fec_pkt_count t' = en_fec_pkt_count t + 1"
      "en_fec_tracks t' = en_fec_tracks t" "same_id (en_fec_track_id t') T" "groups_handed t' = groups_handed t"
      "en_fec_in_flush t' = en_fec_in_flush t" "p = [] \<or> en_fec_track_id t' = en_fec_track_id t"
    and small: "length p < 4" "length d \<le> 65535"
  shows "group_inv t' (acc @ [(T, d)]) gs (p @ [d])"
proof -
  note i = inv [unfolded group_inv_def]
  have "concat (map snd (of_track U gs)) @ (if same_id (en_fec_track_id t') U then p @ [d] else []) = records_on U (acc @ [(T, d)])" for U
  proof -
    have "concat (map snd (of_track U gs)) @ (if same_id (en_fec_track_id t) U then p else []) = records_on U acc"
      using i by blast
    moreover have "same_id (en_fec_track_id t') U = same_id T U" using same_id_class [OF t'(4)] .
    ultimately show ?thesis using t'(7) by (cases "p = []") (auto simp: records_on_snoc split: if_splits)
  qed
  then show ?thesis using i t' small by (auto simp: group_inv_def records_of_one)
qed

lemma start_group_result:
  assumes "start_group now ob t = Some t1"
  shows "groups_handed t1 = groups_handed t" "en_fec_in_flush t1 = en_fec_in_flush t" "en_fec_buf t1 = en_fec_buf t" "en_fec_pkt_count t1 = en_fec_pkt_count t" "en_fec_tracks t1 = en_fec_tracks t"
    "en_fec_track_id t1 = (if en_fec_buf t = [] then ob_track_id ob else en_fec_track_id t)"
  using assms by (auto simp: start_group_def groups_handed_def split: if_splits)

lemma data_size_length: "data_size d = length (data_bytes d)"
  by (cases d) (simp_all add: data_size_def data_bytes_def)

lemma append_record_result:
  assumes inv: "group_inv t acc gs p" and r: "append_record env now ob t = Some (stop, t')"
    and same: "p = [] \<or> same_id (en_fec_track_id t) (ob_track_id ob)"
    and small: "length p < 4" "length (data_bytes (ob_data ob)) \<le> 65535"
  shows "(stop = None \<and> group_inv t' (acc @ [(ob_track_id ob, data_bytes (ob_data ob))]) gs (p @ [data_bytes (ob_data ob)])) \<or>
    ((stop = Some INVALID_OBJECT \<or> stop = Some PUBLISH_ERROR) \<and> group_inv t' acc gs p)"
proof -
  note i = inv [unfolded group_inv_def]
  from r obtain t1 where t1: "start_group now ob t = Some t1"
    and r1: "(let size' = data_size (ob_data ob) in
     if size' > sz_sub (SIZE_MAX - 2) (length (en_fec_buf t1)) then Some (Some INVALID_OBJECT, t1)
     else ensure_capacity env (length (en_fec_buf t1) + 2 + size') t1 \<bind> (\<lambda>(ok, t).
       if \<not> ok then Some (Some PUBLISH_ERROR, t)
       else Some (None, t\<lparr>en_fec_buf := en_fec_buf t @ record_bytes (data_bytes (ob_data ob)),
              en_fec_pkt_count := unat (of_nat (en_fec_pkt_count t + 1) :: u32)\<rparr>))) = Some (stop, t')"
    by (auto simp: append_record_def bind_eq_Some_conv)
  note s = start_group_result [OF t1]
  have bp: "en_fec_buf t = [] \<longleftrightarrow> p = []" using i by simp
  have inv1: "group_inv t1 acc gs p" using s i bp by (intro group_inv_cong [OF _ _ _ _ _ _ _ inv]) simp_all
  consider (refused) "stop = Some INVALID_OBJECT" "t' = t1"
    | (failed) "stop = Some PUBLISH_ERROR" "group_part t' = group_part t1"
    | (joined) t2 where "stop = None" "group_part t2 = group_part t1"
        "t' = t2\<lparr>en_fec_buf := en_fec_buf t2 @ record_bytes (data_bytes (ob_data ob)),
              en_fec_pkt_count := unat (of_nat (en_fec_pkt_count t2 + 1) :: u32)\<rparr>"
    using r1 by (auto simp: Let_def bind_eq_Some_conv split: if_splits dest!: ensure_capacity_group)
  then show ?thesis
  proof cases
    case refused then show ?thesis using inv1 by simp
  next
    case failed then show ?thesis using inv1 group_inv_part by blast
  next
    case (joined t2)
    have small': "en_fec_pkt_count t + 1 < 2 ^ 32" using i small by simp
    have t2: "en_fec_buf t2 = en_fec_buf t1" "en_fec_pkt_count t2 = en_fec_pkt_count t1" "en_fec_tracks t2 = en_fec_tracks t1"
      "en_fec_track_id t2 = en_fec_track_id t1" "en_published t2 = en_published t1" "en_fec_in_flush t2 = en_fec_in_flush t1"
      using joined(2) by (simp_all add: group_part_def)
    have inv': "group_inv t' (acc @ [(ob_track_id ob, data_bytes (ob_data ob))]) gs (p @ [data_bytes (ob_data ob)])"
    proof (rule group_inv_append [OF inv1])
      show "en_fec_pkt_count t' = en_fec_pkt_count t1 + 1"
        using small' s t2 unat_of_nat_small [of "en_fec_pkt_count t + 1", where 'a = 32] by (simp add: joined)
      show "same_id (en_fec_track_id t') (ob_track_id ob)"
        using same bp by (auto simp: joined t2 s track_id_equal_refl)
    qed (use small in \<open>simp_all add: joined t2 groups_handed_def\<close>)
    then show ?thesis using joined by simp
  qed
qed

section \<open>Publishing a record\<close>

lemma flush_first_result:
  assumes inv: "group_inv t acc gs p" and env: "env \<in> E" and r: "flush_first env needed t = Some (stop, t')"
  shows "(stop = None \<and> \<not> needed \<and> t' = t) \<or> (stop = None \<and> needed \<and> (\<exists>gs'. group_inv t' acc (gs @ gs') [])) \<or>
    ((stop = Some BACKPRESSURE \<or> stop = Some PUBLISH_ERROR) \<and> group_inv t' acc gs p)"
proof (cases needed)
  case True
  then obtain res where f: "transport_publish_flush_grouped_ex env t = Some (res, t')"
    and stop: "stop = (if res = BACKPRESSURE \<or> res = PARTIAL then Some BACKPRESSURE else if res \<noteq> DELIVERED then Some PUBLISH_ERROR else None)"
    using r by (auto simp: flush_first_def)
  show ?thesis using flush_result [OF inv env f] stop True by auto
qed (use r in \<open>simp add: flush_first_def\<close>)

lemma bound_result: "x \<bind> f = Some r \<Longrightarrow> \<exists>a b. x = Some (a, b)"
  by (cases x) auto

lemma group_inv_buffer:
  "group_inv t acc gs p \<Longrightarrow> (en_fec_buf t = [] \<longleftrightarrow> p = []) \<and> en_fec_pkt_count t = length p"
  by (simp add: group_inv_def)

definition accepted_as :: "publish_result \<Rightarrow> bool \<Rightarrow> bool" where
  "accepted_as r admitted \<longleftrightarrow> (r = DELIVERED \<or> r = BUFFERED \<longrightarrow> admitted) \<and> (admitted \<longrightarrow> r = DELIVERED \<or> r = BUFFERED \<or> r = PUBLISH_ERROR)"

lemma group_record_result:
  assumes inv: "group_inv t acc gs p" and env: "env \<in> E" and r: "group_record env now ob limit t = Some (r, t')"
  shows "\<exists>admitted gs' p'. group_inv t' (acc @ (if admitted then [(ob_track_id ob, data_bytes (ob_data ob))] else [])) (gs @ gs') p' \<and>
    accepted_as r admitted \<and> (r = DELIVERED \<longrightarrow> p' = [])"
proof -
  let ?d = "data_bytes (ob_data ob)"
  let ?limit = "if limit < MAX_FEC_GROUP_SIZE then limit else MAX_FEC_GROUP_SIZE"
  let ?size = "data_size (ob_data ob)"
  have stays: ?thesis if "group_inv t' acc (gs @ gs') p'" "r = BACKPRESSURE \<or> r = PUBLISH_ERROR \<or> r = INVALID_OBJECT" for gs' p'
    using that by (intro exI [of _ False] exI [of _ gs'] exI [of _ p']) (auto simp: accepted_as_def)
  show ?thesis
  proof (cases "?size > MAX_FEC_RECORD_SIZE \<or> limit < 2 \<or> ?size > limit - 2")
    case True
    then have "r = INVALID_OBJECT" "t' = t" using r by (auto simp: group_record_def Let_def)
    then show ?thesis using inv stays [of "[]" p] by simp
  next
    case ok: False
    define n1 where "n1 = (en_fec_buf t \<noteq> [] \<and> (en_fec_flush_pending t \<or>
            \<not> same_id (en_fec_track_id t) (ob_track_id ob) \<or> en_fec_priority t \<noteq> ob_priority ob))"
    note r0 = r [unfolded group_record_def Let_def if_not_P [OF ok], folded n1_def]
    obtain stop1 t1 where f1: "flush_first env n1 t = Some (stop1, t1)" using bound_result [OF r0] by blast
    note r1 = r0 [unfolded f1 bind.bind_lunit prod.case]
    note res1 = flush_first_result [OF inv env f1]
    show ?thesis
    proof (cases stop1)
      case (Some x)
      have "r = x" "t' = t1" using r1 [unfolded Some option.case] by simp_all
      moreover have "x = BACKPRESSURE \<or> x = PUBLISH_ERROR" "group_inv t1 acc (gs @ []) p" using res1 Some by simp_all
      ultimately show ?thesis by (intro stays [of "[]" p]) auto
    next
      case None
      have "\<exists>gs1 p1. group_inv t1 acc (gs @ gs1) p1 \<and> (p1 = [] \<or> same_id (en_fec_track_id t1) (ob_track_id ob))"
        using res1 None
      proof (elim disjE)
        assume "stop1 = None \<and> \<not> n1 \<and> t1 = t"
        moreover have "p = [] \<or> same_id (en_fec_track_id t) (ob_track_id ob)" if "\<not> n1"
          using that group_inv_buffer [OF inv] unfolding n1_def by blast
        ultimately show ?thesis using inv by (intro exI [of _ "[]"] exI [of _ p]) simp
      next
        assume "stop1 = None \<and> n1 \<and> (\<exists>gs'. group_inv t1 acc (gs @ gs') [])"
        then obtain gs' where "group_inv t1 acc (gs @ gs') []" by auto
        then show ?thesis by (intro exI [of _ gs'] exI [of _ "[]"]) simp
      qed auto
      then obtain gs1 p1 where inv1: "group_inv t1 acc (gs @ gs1) p1"
        and same1: "p1 = [] \<or> same_id (en_fec_track_id t1) (ob_track_id ob)" by blast
      define n2 where "n2 = (en_fec_buf t1 \<noteq> [] \<and> (en_fec_pkt_count t1 \<ge> 4 \<or> ?size > ?limit - 2 \<or> length (en_fec_buf t1) > ?limit - 2 - ?size))"
      note r1' = r1 [unfolded None option.case, folded n2_def]
      obtain stop2 t2 where f2: "flush_first env n2 t1 = Some (stop2, t2)" using bound_result [OF r1'] by blast
      note r2 = r1' [unfolded f2 bind.bind_lunit prod.case]
      note res2 = flush_first_result [OF inv1 env f2]
      show ?thesis
      proof (cases stop2)
        case (Some x)
        have "r = x" "t' = t2" using r2 [unfolded Some option.case] by simp_all
        moreover have "x = BACKPRESSURE \<or> x = PUBLISH_ERROR" "group_inv t2 acc (gs @ gs1) p1" using res2 Some by simp_all
      ultimately show ?thesis by (intro stays [of gs1 p1]) auto
      next
        case None
        have "\<exists>gs2 p2. group_inv t2 acc (gs @ gs2) p2 \<and> (p2 = [] \<or> same_id (en_fec_track_id t2) (ob_track_id ob)) \<and> length p2 < 4"
          using res2 None
        proof (elim disjE)
          assume "stop2 = None \<and> \<not> n2 \<and> t2 = t1"
          moreover have "length p1 < 4" if "\<not> n2"
            using that group_inv_buffer [OF inv1] unfolding n2_def by (cases "p1 = []") auto
          ultimately show ?thesis using inv1 same1 by (intro exI [of _ gs1] exI [of _ p1]) simp
        next
          assume "stop2 = None \<and> n2 \<and> (\<exists>gs'. group_inv t2 acc ((gs @ gs1) @ gs') [])"
          then obtain gs' where "group_inv t2 acc (gs @ (gs1 @ gs')) []" by auto
          then show ?thesis by (intro exI [of _ "gs1 @ gs'"] exI [of _ "[]"]) simp
        qed auto
        then obtain gs2 p2 where inv2: "group_inv t2 acc (gs @ gs2) p2"
          and same2: "p2 = [] \<or> same_id (en_fec_track_id t2) (ob_track_id ob)" and l2: "length p2 < 4" by blast
        note r2' = r2 [unfolded None option.case]
        obtain stop3 t3 where f3: "append_record env now ob t2 = Some (stop3, t3)" using bound_result [OF r2'] by blast
        note r3 = r2' [unfolded f3 bind.bind_lunit prod.case]
        have size': "length ?d \<le> 65535" using ok by (simp add: data_size_length)
        note res3 = append_record_result [OF inv2 f3 same2 l2 size']
        show ?thesis
        proof (cases stop3)
          case (Some x)
          have "r = x" "t' = t3" using r3 [unfolded Some option.case] by simp_all
          moreover have "x = INVALID_OBJECT \<or> x = PUBLISH_ERROR" "group_inv t3 acc (gs @ gs2) p2" using res3 Some by simp_all
          ultimately show ?thesis by (intro stays [of gs2 p2]) auto
        next
          case None
          with res3 have inv3: "group_inv t3 (acc @ [(ob_track_id ob, ?d)]) (gs @ gs2) (p2 @ [?d])" by simp
          have joined: ?thesis if "group_inv t' (acc @ [(ob_track_id ob, ?d)]) (gs @ gs') p'" "r = DELIVERED \<or> r = BUFFERED \<or> r = PUBLISH_ERROR"
              "r = DELIVERED \<longrightarrow> p' = []" for gs' p'
            using that by (intro exI [of _ True] exI [of _ gs'] exI [of _ p']) (auto simp: accepted_as_def)
          show ?thesis
          proof (cases "en_fec_pkt_count t3 \<ge> 4 \<or> length (en_fec_buf t3) \<ge> ?limit")
            case False
            have "r = BUFFERED" "t' = t3" using r3 [unfolded None option.case if_not_P [OF False]] by simp_all
            then show ?thesis using inv3 by (intro joined [of gs2 "p2 @ [?d]"]) simp_all
          next
            case True
            then obtain res where f: "transport_publish_flush_grouped_ex env t3 = Some (res, t')"
              and rr: "r = (if res = BACKPRESSURE \<or> res = PARTIAL then BUFFERED else if res = DELIVERED then DELIVERED else PUBLISH_ERROR)"
              using r3 [unfolded None option.case if_P [OF True]] by auto
            from flush_result [OF inv3 env f] show ?thesis
            proof (elim disjE conjE exE)
              fix gs' assume "res = DELIVERED" "group_inv t' (acc @ [(ob_track_id ob, ?d)]) ((gs @ gs2) @ gs') []"
              then show ?thesis using rr by (intro joined [of "gs2 @ gs'" "[]"]) simp_all
            next
              assume "res \<noteq> DELIVERED" "group_inv t' (acc @ [(ob_track_id ob, ?d)]) (gs @ gs2) (p2 @ [?d])"
              then show ?thesis using rr by (intro joined [of gs2 "p2 @ [?d]"]) (simp_all split: if_splits)
            qed
          qed
        qed
      qed
    qed
  qed
qed

section \<open>Runs of a publisher\<close>

definition grouped :: "'s publish_env \<Rightarrow> moq_object \<Rightarrow> 's endpoint \<Rightarrow> bool" where
  "grouped env ob t \<longleftrightarrow> publish_valid env ob t \<and> ti_type (ob_track_id ob) = ucast MOQ_TRACK_DATA \<and> \<not> en_fec_in_flush t \<and>
     groups_records env t (ob_track_id ob)"

definition no_groups :: "'s endpoint \<Rightarrow> bool" where
  "no_groups t \<longleftrightarrow> en_fec_buf t = [] \<and> en_fec_pkt_count t = 0 \<and> \<not> en_fec_in_flush t \<and> en_published t = [] \<and>
     (\<forall>s \<in> set (en_fec_tracks t). \<not> ft_active s \<and> ft_next_object_id s = 0 \<and> \<not> ft_has_objects s \<and> \<not> ft_checkpoint_initialized s)"

text \<open>
  The log lists the records offered for grouping with the results of the calls. \<open>elsewhere\<close> is anything
  that leaves the grouping alone: connections, subscriptions and acknowledgements come and go.
\<close>

inductive publisher_run :: "'s publish_env set \<Rightarrow> 's endpoint \<Rightarrow> (moq_object \<times> publish_result) list \<Rightarrow> bool" for E where
  start: "no_groups t \<Longrightarrow> publisher_run E t []"
| a_record: "publisher_run E t log \<Longrightarrow> env \<in> E \<Longrightarrow> grouped env ob t \<Longrightarrow> transport_publish_ex env now ob t = Some (r, t') \<Longrightarrow>
    publisher_run E t' (log @ [(ob, r)])"
| an_object: "publisher_run E t log \<Longrightarrow> env \<in> E \<Longrightarrow> \<not> grouped env ob t \<Longrightarrow> transport_publish_ex env now ob t = Some (r, t') \<Longrightarrow>
    publisher_run E t' log"
| a_flush: "publisher_run E t log \<Longrightarrow> env \<in> E \<Longrightarrow> transport_publish_flush_grouped env t = Some (ok, t') \<Longrightarrow> publisher_run E t' log"
| a_finish: "publisher_run E t log \<Longrightarrow> env \<in> E \<Longrightarrow> transport_finish_track env track t = Some (ok, t') \<Longrightarrow> publisher_run E t' log"
| elsewhere: "publisher_run E t log \<Longrightarrow> group_part t' = group_part t \<Longrightarrow> publisher_run E t' log"

definition accepted_records :: "(moq_object \<times> publish_result) list \<Rightarrow> bool list \<Rightarrow> (moq_track_id \<times> bytes) list" where
  "accepted_records log admitted = map (\<lambda>((ob, r), _). (ob_track_id ob, data_bytes (ob_data ob))) (filter snd (zip log admitted))"

definition results_match :: "(moq_object \<times> publish_result) list \<Rightarrow> bool list \<Rightarrow> bool" where
  "results_match log admitted \<longleftrightarrow> list_all2 (\<lambda>l a. accepted_as (snd l) a) log admitted"

lemma accepted_snoc:
  assumes "results_match log admitted" "accepted_as r a"
  shows "results_match (log @ [(ob, r)]) (admitted @ [a])"
    "accepted_records (log @ [(ob, r)]) (admitted @ [a]) =
       accepted_records log admitted @ (if a then [(ob_track_id ob, data_bytes (ob_data ob))] else [])"
  using assms by (auto simp: results_match_def accepted_records_def list_all2_appendI dest: list_all2_lengthD)

lemma publish_ex_impl:
  assumes "transport_publish_ex env now ob t = Some (r, t')"
  shows "(\<not> pv_owner_ok env \<and> t' = t) \<or> (\<exists>t1. transport_publish_impl env now ob t = Some (r, t1) \<and> group_part t' = group_part t1)"
  using assms by (auto simp: transport_publish_ex_def split: if_splits)

lemma no_groups_inv:
  assumes "no_groups t"
  shows "group_inv t [] [] []"
proof -
  have "track_slot (en_fec_tracks t) U = None" for U
    using assms by (auto simp: no_groups_def track_slot_def first_index_None)
  then show ?thesis using assms by (simp add: no_groups_def group_inv_def tracks_wf_def next_number_def of_track_def numbered_def records_on_def
      groups_handed_def)
qed

lemma finish_grouped_result:
  assumes inv: "group_inv t acc gs p" and env: "env \<in> E" and r: "transport_publish_finish_grouped env T t = Some (res, t')"
  shows "\<exists>gs' p'. group_inv t' acc (gs @ gs') p' \<and> (res \<noteq> None \<longrightarrow> p' = [] \<or> \<not> same_id (en_fec_track_id t') T)"
proof -
  let ?mine = "en_fec_buf t \<noteq> [] \<and> same_id (en_fec_track_id t) T"
  obtain ok t1 where f: "(if ?mine then transport_publish_flush_grouped env t else Some (True, t)) = Some (ok, t1)"
    and t': "t' = t1" "res \<noteq> None \<longrightarrow> ok"
    using r unfolding transport_publish_finish_grouped_def bind_eq_Some_conv
    by (auto simp: split: if_splits option.splits)
  show ?thesis
  proof (cases ?mine)
    case False
    have "t' = t" using f [unfolded if_not_P [OF False]] t' by simp
    then show ?thesis using inv False group_inv_buffer [OF inv] by (intro exI [of _ "[]"] exI [of _ p]) auto
  next
    case True
    then obtain r1 where f1: "transport_publish_flush_grouped_ex env t = Some (r1, t')" and ok: "ok \<longleftrightarrow> r1 = DELIVERED \<or> r1 = NO_RECIPIENTS"
      using f t' by (auto simp: transport_publish_flush_grouped_def)
    have "r1 \<noteq> NO_RECIPIENTS" using f1
      by (auto simp: transport_publish_flush_grouped_ex_def Let_def bind_eq_Some_conv split: if_splits option.splits prod.splits)
    then show ?thesis using flush_result [OF inv env f1] ok t' by (metis append_Nil2)
  qed
qed

lemma finish_track_result:
  assumes inv: "group_inv t acc gs p" and env: "env \<in> E" and r: "transport_finish_track env T t = Some (ok, t')"
  shows "\<exists>gs' p'. group_inv t' acc (gs @ gs') p' \<and> (ok \<longrightarrow> p' = [] \<or> \<not> same_id (en_fec_track_id t') T)"
proof (cases "\<not> pv_owner_ok env \<or> \<not> transport_track_id_valid T \<or> ti_type T \<noteq> ucast MOQ_TRACK_DATA \<or> ti_flags T AND MOQ_TRACK_FLAG_FEC_RATELESS = 0")
  case True
  have "t' = t" "\<not> ok" using r [unfolded transport_finish_track_def if_P [OF True]] by simp_all
  then show ?thesis using inv by (intro exI [of _ "[]"] exI [of _ p]) simp
next
  case False
  note r0 = r [unfolded transport_finish_track_def if_not_P [OF False]]
  obtain res t1 where f: "transport_publish_finish_grouped env T t = Some (res, t1)" using bound_result [OF r0] by blast
  note r1 = r0 [unfolded f bind.bind_lunit prod.case]
  obtain gs' p' where g: "group_inv t1 acc (gs @ gs') p'" "res \<noteq> None \<longrightarrow> p' = [] \<or> \<not> same_id (en_fec_track_id t1) T"
    using finish_grouped_result [OF inv env f] by blast
  have "(t' = t1 \<and> (ok \<longrightarrow> res \<noteq> None)) \<or> (\<exists>s l. res \<noteq> None \<and> group_part s = group_part t1 \<and>
      t' = (case fst (find_fec_track_state (en_fec_tracks s) T False) of None \<Rightarrow> s | Some j \<Rightarrow> set_checkpoint j 0 l s))"
  proof (cases res)
    case None
    then show ?thesis using r1 by simp
  next
    case (Some hl)
    obtain h l where hl: "hl = (h, l)" by (rule prod.exhaust)
    note r2 = r1 [unfolded Some hl option.case prod.case]
    show ?thesis
    proof (cases h)
      case False
      then show ?thesis using r2 Some by simp
    next
      case True
      then have nn: "\<not> \<not> h" by simp
      note r3 = r2 [unfolded if_not_P [OF nn]]
      obtain x where x: "finish_all env T l [0..<length (members t1)] ((False, True), t1) = Some x"
        using r3 by (cases "finish_all env T l [0..<length (members t1)] ((False, True), t1)") simp_all
      obtain a b s where s: "x = ((a, b), s)" by (metis prod.exhaust)
      have "t' = (case fst (find_fec_track_state (en_fec_tracks s) T False) of None \<Rightarrow> s | Some j \<Rightarrow> set_checkpoint j 0 l s)"
        using r3 [unfolded x s option.map prod.case] by simp
      then show ?thesis using finish_all_group [OF x] s Some by (intro disjI2 exI [of _ s] exI [of _ l]) simp
    qed
  qed
  then show ?thesis
  proof (elim disjE exE conjE)
    assume "t' = t1" "ok \<longrightarrow> res \<noteq> None"
    then show ?thesis using g by (intro exI [of _ gs'] exI [of _ p']) simp
  next
    fix s l
    assume some: "res \<noteq> None" and s: "group_part s = group_part t1"
      and t': "t' = (case fst (find_fec_track_state (en_fec_tracks s) T False) of None \<Rightarrow> s | Some j \<Rightarrow> set_checkpoint j 0 l s)"
    have gi: "group_inv s acc (gs @ gs') p'" using g(1) group_inv_part [OF s] by blast
    have id: "en_fec_track_id s = en_fec_track_id t1" using s by (simp add: group_part_def)
    have wf: "tracks_wf (en_fec_tracks s)" using gi by (simp add: group_inv_def)
    have fj: "fst (find_fec_track_state (en_fec_tracks s) T False) = track_slot (en_fec_tracks s) T"
      using find_track_result [OF prod.collapse [symmetric] wf, of T False] by blast
    show ?thesis
    proof (cases "track_slot (en_fec_tracks s) T")
      case None
      have "t' = s" using t' [unfolded fj None] by simp
      with gi g(2) some id show ?thesis by (intro exI [of _ gs'] exI [of _ p']) simp
    next
      case (Some j)
      have t'': "t' = set_checkpoint j 0 l s" using t' [unfolded fj Some] by simp
      have "group_inv t' acc (gs @ gs') p'"
        unfolding t''
        by (rule group_inv_cong [of _ s]) (use checkpoint_numbers [OF Some wf, of 0 l] gi in \<open>simp_all add: set_checkpoint_def groups_handed_def\<close>)
      moreover have "en_fec_track_id t' = en_fec_track_id s" by (simp add: t'' set_checkpoint_def)
      ultimately show ?thesis using g(2) some id by (intro exI [of _ gs'] exI [of _ p']) simp
    qed
  qed
qed

lemma publisher_run_inv:
  assumes "publisher_run E t log"
  shows "\<exists>admitted gs p. results_match log admitted \<and> group_inv t (accepted_records log admitted) gs p"
  using assms
proof (induction rule: publisher_run.induct)
  case (start t)
  then show ?case using no_groups_inv by (intro exI [of _ "[]"]) (simp add: results_match_def accepted_records_def)
next
  case (a_record t log env ob now r t')
  then obtain admitted gs p where m: "results_match log admitted" and inv: "group_inv t (accepted_records log admitted) gs p" by blast
  have "pv_owner_ok env" using a_record.hyps(3) by (simp add: grouped_def publish_valid_def)
  then obtain t1 where t1: "transport_publish_impl env now ob t = Some (r, t1)" "group_part t' = group_part t1"
    using publish_ex_impl [OF a_record.hyps(4)] by blast
  then have "group_record env now ob (publication_fec_limit env t (ob_track_id ob)) t = Some (r, t1)"
    using a_record.hyps(3) by (simp add: transport_publish_impl_def grouped_def)
  from group_record_result [OF inv a_record.hyps(2) this] obtain a gs' p'
    where g: "group_inv t1 (accepted_records log admitted @ (if a then [(ob_track_id ob, data_bytes (ob_data ob))] else [])) (gs @ gs') p'"
      "accepted_as r a" by blast
  show ?case
    using accepted_snoc [OF m g(2), of ob] g(1) group_inv_part [OF t1(2)] by metis
next
  case (an_object t log env ob now r t')
  then obtain admitted gs p where m: "results_match log admitted" and inv: "group_inv t (accepted_records log admitted) gs p" by blast
  have flush: "\<not> en_fec_in_flush t" using inv by (simp add: group_inv_def)
  have "group_part t' = group_part t \<or>
    group_part t' = group_part (t\<lparr>en_published := en_published t @ [(ob, r, False)]\<rparr>)"
  proof (cases "pv_owner_ok env")
    case False
    then show ?thesis using an_object.hyps(4) by (simp add: transport_publish_ex_def)
  next
    case True
    then obtain t1 where t1: "transport_publish_impl env now ob t = Some (r, t1)" "group_part t' = group_part t1"
      using publish_ex_impl [OF an_object.hyps(4)] by blast
    then show ?thesis using an_object.hyps(3) publish_ungrouped_group [of env ob t r t1] flush
      by (auto simp: transport_publish_impl_def grouped_def split: if_splits)
  qed
  moreover have "group_inv (t\<lparr>en_published := en_published t @ [(ob, r, False)]\<rparr>) (accepted_records log admitted) gs p"
    by (rule group_inv_cong [OF _ _ _ _ _ _ _ inv]) (use inv in \<open>simp_all add: groups_handed_def group_inv_def\<close>)
  ultimately show ?case using m inv group_inv_part by blast
next
  case (a_flush t log env ok t')
  then obtain admitted gs p where m: "results_match log admitted" and inv: "group_inv t (accepted_records log admitted) gs p" by blast
  from a_flush.hyps(3) obtain r where f: "transport_publish_flush_grouped_ex env t = Some (r, t')" by (auto simp: transport_publish_flush_grouped_def)
  show ?case using flush_result [OF inv a_flush.hyps(2) f] m by blast
next
  case (a_finish t log env track ok t')
  then obtain admitted gs p where m: "results_match log admitted" and inv: "group_inv t (accepted_records log admitted) gs p" by blast
  show ?case using finish_track_result [OF inv a_finish.hyps(2,3)] m by blast
next
  case (elsewhere t log t')
  then show ?case using group_inv_part by blast
qed

end
