(* ===== verification/Membership.thy ===== *)
theory Membership
  imports Publisher Admission
begin

text \<open>
  What every operation of the publisher keeps of its connections, stated once for any property of a
  connection that the elementary changes keep, and the fact that every operation returns.
\<close>

section \<open>Elementary changes of a connection\<close>

definition acked_state :: "int \<Rightarrow> checkpoint_ack_state \<Rightarrow> u64 \<Rightarrow> u64 \<Rightarrow> checkpoint_ack_state" where
  "acked_state now_ms state group_id object_id =
     (let advanced = (\<not> ak_acked_initialized state \<or> object_id > ak_acked_object_id state);
          state = (if advanced then state\<lparr>ak_acked_initialized := True, ak_acked_group_id := group_id,
            ak_acked_object_id := object_id\<rparr> else state) in
      if \<not> checkpoint_ack_pending state then state\<lparr>ak_oldest_unacked_sent_at_ms := 0\<rparr>
      else if advanced then state\<lparr>ak_oldest_unacked_sent_at_ms := now_ms\<rparr> else state)"

definition baseline_ack :: "u64 \<Rightarrow> u64 \<Rightarrow> checkpoint_ack_state" where
  "baseline_ack g l = zero_participating
     \<lparr>ak_sent_initialized := True, ak_sent_group_id := g, ak_sent_object_id := l,
      ak_acked_initialized := True, ak_acked_group_id := g, ak_acked_object_id := l\<rparr>"

inductive ack_step :: "checkpoint_ack_state \<Rightarrow> checkpoint_ack_state \<Rightarrow> bool" where
  cleared: "ack_step a zero_ack"
| joined: "ack_step a zero_participating"
| baseline: "ack_step a (baseline_ack 0 l)"
| marked: "ack_step a (checkpoint_mark_sent now a 0 final)"
| acked: "ak_participating a \<Longrightarrow> ak_sent_initialized a \<Longrightarrow> g = ak_sent_group_id a \<Longrightarrow> x \<le> ak_sent_object_id a \<Longrightarrow>
    ack_step a (acked_state now a g x)"

text \<open>A property of a connection that all elementary changes keep.\<close>

locale member_law =
  fixes P :: "'s peer \<Rightarrow> bool"
  assumes sender: "P c \<Longrightarrow> sn_subscriptions sn = sn_subscriptions (pe_sender c) \<Longrightarrow> P (c\<lparr>pe_sender := sn\<rparr>)"
    and delivered: "P c \<Longrightarrow> P (c\<lparr>pe_group_delivered := b\<rparr>)"
    and stream: "P c \<Longrightarrow> P (set_stream k h c)"
    and ack: "P c \<Longrightarrow> (\<And>old. transport_checkpoint_ack c a = Some old \<Longrightarrow> ack_step old new) \<Longrightarrow> P (put_ack c a new)"
    and table: "P c \<Longrightarrow> subs_inv (pe_table c)"

section \<open>The list of connections\<close>

lemma members_put [simp]: "i < length (members t) \<Longrightarrow> members (put_member i c t) = (members t)[i := Some c]"
  by (cases "en_is_server t"; cases "en_client t") (auto simp: members_def put_member_def)

lemma members_other [simp]:
  "members (count_checkpoint t) = members t" "members (count_track_end t) = members t"
  "members (t\<lparr>en_coder := cd\<rparr>) = members t" "members (t\<lparr>en_sent_cache := ca\<rparr>) = members t"
  "members (t\<lparr>en_stats := st\<rparr>) = members t" "members (t\<lparr>en_fec_in_flush := fl\<rparr>) = members t"
  "members (t\<lparr>en_published := pu\<rparr>) = members t"
  "members (t\<lparr>en_fec_buf_address := ad, en_fec_buf_cap := cp\<rparr>) = members t"
  "members (set_checkpoint j g l t) = members t" "members (group_done j t) = members t"
  "members (t\<lparr>en_fec_tracks := ts, en_fec_flush_pending := b, en_fec_in_flush := fl\<rparr>) = members t"
  "members (t\<lparr>en_fec_buf := buf, en_fec_pkt_count := n\<rparr>) = members t"
  "members (t\<lparr>en_fec_tracks := ts, en_fec_flush_pending := b\<rparr>) = members t"
  "members (t\<lparr>en_sent_cache := ca, en_stats := st\<rparr>) = members t"
  by (simp_all add: members_def count_checkpoint_def count_track_end_def set_checkpoint_def group_done_def)

definition endpoint_ok :: "'s endpoint \<Rightarrow> bool" where
  "endpoint_ok t \<longleftrightarrow> (\<forall>s \<in> set (en_fec_tracks t). ft_checkpoint_group_id s = 0) \<and> cache_inv (en_sent_cache t)"

lemma endpoint_ok_other [simp]:
  "endpoint_ok (put_member i c t) = endpoint_ok t"
  "endpoint_ok (count_checkpoint t) = endpoint_ok t" "endpoint_ok (count_track_end t) = endpoint_ok t"
  "endpoint_ok (t\<lparr>en_coder := cd\<rparr>) = endpoint_ok t"
  "endpoint_ok (t\<lparr>en_stats := st\<rparr>) = endpoint_ok t" "endpoint_ok (t\<lparr>en_fec_in_flush := fl\<rparr>) = endpoint_ok t"
  "endpoint_ok (t\<lparr>en_published := pu\<rparr>) = endpoint_ok t"
  "endpoint_ok (t\<lparr>en_fec_buf_address := ad, en_fec_buf_cap := cp\<rparr>) = endpoint_ok t"
  "endpoint_ok (t\<lparr>en_fec_buf := buf, en_fec_pkt_count := n\<rparr>) = endpoint_ok t"
  by (simp_all add: endpoint_ok_def put_member_def count_checkpoint_def count_track_end_def)

text \<open>Publication to one connection keeps its subscriptions.\<close>

lemma queue_datagram_table: "sn_subscriptions (snd (queue_datagram env p d sn)) = sn_subscriptions sn"
  by (simp add: queue_datagram_def Let_def)

lemma charge_path_table: "sn_subscriptions (charge_path env p sn) = sn_subscriptions sn"
  by (simp add: charge_path_def)

lemma send_symbols_table:
  "sn_subscriptions (snd (snd (send_symbols env header symbol z actives paths queued ss arena sn))) = sn_subscriptions sn"
proof (induction ss arbitrary: queued arena sn)
  case (Cons s ss)
  then show ?case
    by (simp add: Let_def case_prod_beta queue_datagram_table charge_path_table split: bool.split option.split sum.split)
qed simp

lemma plan_paths_table: "sn_subscriptions (snd (plan_paths env profile k z prio actives sn)) = sn_subscriptions sn"
proof (induction env profile k z prio actives sn rule: plan_paths.induct)
  case (1 env profile k z prio actives sn)
  note e = plan_paths.simps [of env profile k z prio actives sn]
  show ?case
  proof (cases "transport_schedule_build (se_fixed env) (se_optimize env) (map av_state actives) k z
      (pr_fec_enabled profile \<or> pr_fec_rateless profile) prio (sn_round_robin sn)")
    case None
    then show ?thesis unfolding e by simp
  next
    case (Some br)
    obtain built rr where br: "br = (built, rr)" by (rule prod.exhaust)
    obtain bl t where f: "find_blocked env sn (zip actives (sd_paths (source_only profile k built))) (sn_admission_retry_at_ns sn) = (bl, t)"
      by (rule prod.exhaust)
    let ?sn = "sn\<lparr>sn_round_robin := rr, sn_admission_retry_at_ns := t\<rparr>"
    show ?thesis
    proof (cases bl)
      case None
      then show ?thesis unfolding e Some br option.case prod.case Let_def f by simp
    next
      case bl: (Some i)
      let ?rest = "take i actives @ drop (Suc i) actives"
      show ?thesis
      proof (cases "?rest = []")
        case True
        show ?thesis unfolding e Some br option.case prod.case Let_def f bl if_P [OF True] by simp
      next
        case False
        show ?thesis
          unfolding e Some br option.case prod.case Let_def f bl if_not_P [OF False]
          using "1.IH" [OF Some br [symmetric] refl f [symmetric] bl refl refl False] by simp
      qed
    qed
  qed
qed

lemma publish_datagram_table:
  "sn_subscriptions (snd (snd (snd (publish_datagram_to_conn env ob profile z e k cd sn)))) = sn_subscriptions sn"
proof -
  obtain rows sn1 where a: "sample_paths env e [0..<length (se_local_addrs env)] (sn\<lparr>sn_admission_retry_at_ns := 0\<rparr>) = (rows, sn1)"
    by (rule prod.exhaust)
  have s1: "sn_subscriptions sn1 = sn_subscriptions sn"
    using sampled_same [OF conjunct1 [OF sample_paths_ok [OF a distinct_upt]]] by simp
  obtain res sn2 where p: "plan_paths env profile k z (ob_priority ob) rows sn1 = (res, sn2)" by (rule prod.exhaust)
  have s2: "sn_subscriptions sn2 = sn_subscriptions sn1" using plan_paths_table [of env profile k z "ob_priority ob" rows sn1] p by simp
  have "sn_subscriptions (snd (snd (snd (send_plan env ob profile z k rows' schedule cd sn2)))) = sn_subscriptions sn2" for rows' schedule
    by (simp add: send_plan_def Let_def case_prod_beta send_symbols_table split: bool.split option.split)
  then show ?thesis using a p s1 s2
    by (cases rows; cases res) (simp_all add: publish_datagram_to_conn_def case_prod_beta del: plan_paths.simps)
qed

section \<open>Keeping a law\<close>

definition sound :: "('s peer \<Rightarrow> bool) \<Rightarrow> 's endpoint \<Rightarrow> bool" where
  "sound P t \<longleftrightarrow> (\<forall>c. Some c \<in> set (members t) \<longrightarrow> P c) \<and> endpoint_ok t"

definition stays :: "('s peer \<Rightarrow> bool) \<Rightarrow> 's endpoint \<Rightarrow> 's endpoint \<Rightarrow> bool" where
  "stays P t t' \<longleftrightarrow> sound P t' \<and> map (\<lambda>c. c = None) (members t') = map (\<lambda>c. c = None) (members t)"

lemma stays_refl: "sound P t \<Longrightarrow> stays P t t"
  by (simp add: stays_def)

lemma stays_trans: "stays P t t1 \<Longrightarrow> stays P t1 t2 \<Longrightarrow> stays P t t2"
  by (simp add: stays_def)

lemma stays_sound: "stays P t t' \<Longrightarrow> sound P t'"
  by (simp add: stays_def)

lemma stays_length: "stays P t t' \<Longrightarrow> length (members t') = length (members t)"
  unfolding stays_def by (metis length_map)

lemma stays_None: "stays P t t' \<Longrightarrow> None \<in> set (members t') \<longleftrightarrow> None \<in> set (members t)"
proof -
  assume "stays P t t'"
  then have "map (\<lambda>c. c = None) (members t') = map (\<lambda>c. c = None) (members t)" by (simp add: stays_def)
  then have "True \<in> set (map (\<lambda>c. c = None) (members t')) \<longleftrightarrow> True \<in> set (map (\<lambda>c. c = None) (members t))" by simp
  then show ?thesis by (auto simp: image_iff)
qed

lemma stays_same: "sound P t \<Longrightarrow> members t' = members t \<Longrightarrow> endpoint_ok t' \<Longrightarrow> stays P t t'"
  by (simp add: stays_def sound_def)

lemma stays_put:
  assumes "sound P t" "members t ! i = Some c0" "i < length (members t)" "P c"
  shows "stays P t (put_member i c t)"
proof -
  have "map (\<lambda>c. c = None) ((members t)[i := Some c]) = map (\<lambda>c. c = None) (members t)"
    using assms by (intro nth_equalityI) (auto simp: nth_list_update)
  moreover have "P x" if "Some x \<in> set ((members t)[i := Some c])" for x
    using that assms set_update_subset_insert [of "members t" i "Some c"] by (auto simp: sound_def)
  ultimately show ?thesis using assms by (auto simp: stays_def sound_def)
qed

lemma sound_member: "sound P t \<Longrightarrow> i < length (members t) \<Longrightarrow> members t ! i = Some c \<Longrightarrow> P c"
  unfolding sound_def by (metis nth_mem)

lemma stays_cache: "stays P t t' \<Longrightarrow> cache_inv ca \<Longrightarrow> stays P t (t'\<lparr>en_sent_cache := ca\<rparr>)"
  by (simp add: stays_def sound_def endpoint_ok_def)

text \<open>The operations of the sent cache keep its invariant, whatever the allocator answers.\<close>

lemma sent_cache_release_inv:
  assumes "cache_inv c"
  shows "cache_inv (snd (transport_sent_cache_release_through c track g l))" "cache_inv (snd (transport_sent_cache_release_track c track))"
proof -
  have *: "cache_inv (snd (release_loop P c 0 0))" if "\<And>e. P e \<Longrightarrow> se_data e \<noteq> None" for P
    using release_loop_result [OF assms prod.collapse [symmetric] that] by blast
  show "cache_inv (snd (transport_sent_cache_release_through c track g l))"
    unfolding transport_sent_cache_release_through_def by (rule *) simp
  show "cache_inv (snd (transport_sent_cache_release_track c track))"
    unfolding transport_sent_cache_release_track_def by (rule *) simp
qed

lemma store_inv:
  assumes inv: "cache_inv c"
  shows "cache_inv (snd (transport_sent_cache_store k m c ob t d w allow))"
proof (cases "ob_data ob")
  case None
  then show ?thesis using inv by (simp add: transport_sent_cache_store_def)
next
  case src: (Some s)
  show ?thesis
  proof (cases "pl_bytes s = []")
    case True
    then show ?thesis using inv src by (simp add: transport_sent_cache_store_def)
  next
    case pos: False
    obtain ok c1 where i: "transport_sent_cache_init k c (sc_max_payload_bytes c) MAX_FEC_OBJECT_SIZE = (ok, c1)" by (rule prod.exhaust)
    note i1 = init_result [OF inv i]
    show ?thesis
    proof (cases ok)
      case False
      then show ?thesis using i i1 src pos by (simp add: transport_sent_cache_store_def)
    next
      case True
      have ne: "sc_entries c1 \<noteq> []" and inv1: "cache_inv c1" using i1 True by simp_all
      have init1: "transport_sent_cache_init k c1 (sc_max_payload_bytes c1) MAX_FEC_OBJECT_SIZE = (True, c1)"
        using ne by (simp add: transport_sent_cache_init_def)
      then have same: "transport_sent_cache_store k m c ob t d w allow = transport_sent_cache_store k m c1 ob t d w allow" for m
        using i True src pos by (simp add: transport_sent_cache_store_def)
      have some: "cache_inv (snd (transport_sent_cache_store k (Some a) c1 ob t d w allow))" for a
        using store_initialized(2) [OF inv1 ne src _ prod.collapse [symmetric]] pos by blast
      have ev: "cache_inv (snd (evict_loop c1 s allow 0))"
        using evict_loop_result [OF inv1 ne prod.collapse [symmetric]] by (simp add: evicted_from_def)
      have "snd (transport_sent_cache_store k None c1 ob t d w allow) = snd (transport_sent_cache_store k (Some 0) c1 ob t d w allow) \<or>
          snd (transport_sent_cache_store k None c1 ob t d w allow) = snd (evict_loop c1 s allow 0)"
        using src pos init1 by (auto simp: transport_sent_cache_store_def split: prod.split bool.split option.split)
      then show ?thesis unfolding same using some ev by (cases m) auto
    qed
  qed
qed

lemma ack_put [simp]:
  "transport_checkpoint_ack (put_ack c a x) b = (if b = a then map_option (\<lambda>_. x) (transport_checkpoint_ack c a) else transport_checkpoint_ack c b)"
  by (simp add: transport_checkpoint_ack_def transport_subscriptions_get_state_def put_ack_def put_table_def option.map_comp comp_def)

lemma ack_world [simp]: "transport_checkpoint_ack (put_world w c) b = transport_checkpoint_ack c b"
  by (simp add: transport_checkpoint_ack_def put_world_def)

lemma ack_delivered [simp]: "transport_checkpoint_ack (c\<lparr>pe_group_delivered := d\<rparr>) b = transport_checkpoint_ack c b"
  by (simp add: transport_checkpoint_ack_def)

lemma alias_has_ack:
  assumes "subs_inv (pe_table c)" "transport_subscriptions_find_alias (pe_table c) track = Some a"
  shows "transport_checkpoint_ack c a \<noteq> None"
proof -
  have "tb_states (pe_table c) a \<noteq> None"
    using assms unfolding inv_state [OF assms(1)]
    by (auto simp: transport_subscriptions_find_alias_def dest: first_live)
  then show ?thesis by (simp add: transport_checkpoint_ack_def transport_subscriptions_get_state_def)
qed

lemma endpoint_ok_nth: "endpoint_ok t \<Longrightarrow> j < length (en_fec_tracks t) \<Longrightarrow> ft_checkpoint_group_id (en_fec_tracks t ! j) = 0"
  by (simp add: endpoint_ok_def)

lemma endpoint_ok_checkpoint: "endpoint_ok t \<Longrightarrow> endpoint_ok (set_checkpoint j 0 l t)"
  by (auto simp: endpoint_ok_def set_checkpoint_def dest!: subsetD [OF set_update_subset_insert])

context member_law
begin

lemma world: "P c \<Longrightarrow> P (put_world w c)"
  unfolding put_world_def by (rule sender) simp_all

lemma preflight_stays:
  assumes "sound P t" "\<forall>i \<in> set is. i < length (members t)"
  shows "stays P t (snd (preflight env ob is eligible reserved t))"
  using assms
proof (induction "is" arbitrary: eligible reserved t)
  case Nil
  then show ?case by (simp add: stays_refl)
next
  case (Cons i "is")
  have go: "stays P t (snd (preflight env ob is e rs t'))" if "stays P t t'" for e rs t'
    using stays_trans [OF that Cons.IH [OF stays_sound [OF that]]] Cons.prems(2) stays_length [OF that] by simp
  show ?case
  proof (cases "members t ! i")
    case None
    then show ?thesis using go [OF stays_refl [OF Cons.prems(1)]] by simp
  next
    case (Some c)
    have i: "i < length (members t)" using Cons.prems(2) by simp
    have c: "P c" by (rule sound_member [OF Cons.prems(1) i Some])
    have op: "P c'" if "open_track_stream env k c = (h, c')" for k h c'
      using that c by (auto simp: open_track_stream_def intro: world stream split: option.splits if_splits prod.splits)
    have put: "stays P t (put_member i c' t)" if "open_track_stream env k c = (h, c')" for k h c'
      by (rule stays_put [OF Cons.prems(1) Some i op [OF that]])
    show ?thesis
      using go [OF stays_refl [OF Cons.prems(1)]] go [OF put] put stays_refl [OF Cons.prems(1)] Some
      by (auto simp: Let_def split: option.split prod.split bool.split)
  qed
qed

lemma write_reliable_stays:
  assumes "sound P t" "\<forall>i \<in> set is. i < length (members t)"
  shows "stays P t (snd (write_reliable env ob is delivered t))"
  using assms
proof (induction "is" arbitrary: delivered t)
  case Nil
  then show ?case by (simp add: stays_refl)
next
  case (Cons i "is")
  have go: "stays P t (snd (write_reliable env ob is d t'))" if "stays P t t'" for d t'
    using stays_trans [OF that Cons.IH [OF stays_sound [OF that]]] Cons.prems(2) stays_length [OF that] by simp
  show ?case
  proof (cases "members t ! i")
    case None
    then show ?thesis using go [OF stays_refl [OF Cons.prems(1)]] by simp
  next
    case (Some c)
    have i: "i < length (members t)" using Cons.prems(2) by simp
    have c: "P c" by (rule sound_member [OF Cons.prems(1) i Some])
    have put: "stays P t (put_member i (put_world w c) t)" for w
      by (rule stays_put [OF Cons.prems(1) Some i world [OF c]])
    show ?thesis
      using go [OF stays_refl [OF Cons.prems(1)]] go [OF put] put Some
      by (auto simp: Let_def split: prod.split bool.split)
  qed
qed

lemma upt_members: "\<forall>i \<in> set [0..<length (members t)]. i < length (members t)"
  by simp

lemma publish_reliable_stays:
  assumes s: "sound P t"
  shows "stays P t (snd (publish_reliable env ob t))"
proof -
  obtain r t1 where f: "preflight env ob [0..<length (members t)] 0 (0, 0) t = (r, t1)" by (rule prod.exhaust)
  have t1: "stays P t t1" using preflight_stays [OF s upt_members, of env ob 0 "(0, 0)"] f by simp
  obtain r2 t2 where w: "write_reliable env ob [0..<length (members t1)] 0 t1 = (r2, t2)" by (rule prod.exhaust)
  have t2: "stays P t t2" using stays_trans [OF t1 write_reliable_stays [OF stays_sound [OF t1] upt_members, of env ob 0, unfolded w snd_conv]] .
  show ?thesis using f w t1 t2 stays_refl [OF s]
    by (cases r; cases r2) (simp_all add: publish_reliable_def)
qed

lemma fan_out_stays:
  assumes "sound P t" "\<forall>i \<in> set is. i < length (members t)"
  shows "stays P t (snd (fan_out env ob z e k is f t))"
  using assms
proof (induction "is" arbitrary: f t)
  case Nil
  then show ?case by (simp add: stays_refl)
next
  case (Cons i "is")
  have go: "stays P t (snd (fan_out env ob z e k is f' t'))" if "stays P t t'" for f' t'
    using stays_trans [OF that Cons.IH [OF stays_sound [OF that]]] Cons.prems(2) stays_length [OF that] by simp
  show ?case
  proof (cases "members t ! i")
    case None
    then show ?thesis using go [OF stays_refl [OF Cons.prems(1)]] by simp
  next
    case (Some c)
    have i: "i < length (members t)" using Cons.prems(2) by simp
    have c: "P c" by (rule sound_member [OF Cons.prems(1) i Some])
    obtain r sent cd sn where pub: "publish_datagram_to_conn (pv_send env i) ob (transport_track_profile (ob_track_id ob))
        z e k (en_coder t) (pe_sender c) = (r, sent, cd, sn)" by (rule prod_cases4)
    have sn: "sn_subscriptions sn = sn_subscriptions (pe_sender c)"
      using publish_datagram_table [of "pv_send env i" ob "transport_track_profile (ob_track_id ob)" z e k "en_coder t" "pe_sender c"] pub by simp
    have P': "P (c\<lparr>pe_sender := sn, pe_group_delivered := b\<rparr>)" for b
      using delivered [OF sender [OF c sn], of b] by simp
    have put: "stays P t (put_member i (c\<lparr>pe_sender := sn, pe_group_delivered := b\<rparr>) (t\<lparr>en_coder := cd\<rparr>))" for b
    proof -
      have "stays P t (t\<lparr>en_coder := cd\<rparr>)" using Cons.prems(1) by (intro stays_same) (simp_all add: sound_def)
      moreover have "stays P (t\<lparr>en_coder := cd\<rparr>) (put_member i (c\<lparr>pe_sender := sn, pe_group_delivered := b\<rparr>) (t\<lparr>en_coder := cd\<rparr>))"
        by (rule stays_put [OF stays_sound [OF calculation], of i c]) (use Some i P' in simp_all)
      ultimately show ?thesis by (rule stays_trans)
    qed
    show ?thesis
      using go [OF stays_refl [OF Cons.prems(1)]] go [OF put] Some pub by (simp add: Let_def)
  qed
qed

text \<open>The checkpoint functions return, and keep the law.\<close>

lemma scan_returns:
  assumes "\<forall>c. Some c \<in> set cs \<longrightarrow> P c"
  shows "\<exists>r. scan_acks track cs s = Some r"
  using assms
proof (induction cs arbitrary: s)
  case (Cons c cs)
  then have ih: "\<exists>r. scan_acks track cs s = Some r" for s by simp
  show ?case
  proof (cases c)
    case None
    then show ?thesis using ih by simp
  next
    case (Some conn)
    then have "subs_inv (pe_table conn)" using Cons.prems table by simp
    note ex = alias_has_ack [OF this, of track]
    show ?thesis
      using Some ih ex by (auto simp: Let_def split: option.split prod.split)
  qed
qed simp

lemma release_returns:
  assumes s: "sound P t"
  shows "\<exists>t'. release_acked_checkpoints track t = Some t' \<and> stays P t t'"
proof -
  have "\<forall>c. Some c \<in> set (members t) \<longrightarrow> P c" using s by (simp add: sound_def)
  from scan_returns [OF this] obtain r where
    r: "scan_acks track (members t) \<lparr>as_capable = False, as_legacy = False, as_minimum = None\<rparr> = Some r" by blast
  have same: "stays P t (t\<lparr>en_sent_cache := cache, en_stats := st\<rparr>)" if "cache_inv cache" for cache st
    using s that by (intro stays_same) (simp_all add: sound_def endpoint_ok_def)
  have inv: "cache_inv (en_sent_cache t)" using s by (simp add: sound_def endpoint_ok_def)
  have i1: "cache_inv (snd (transport_sent_cache_release_through (en_sent_cache t) track g l))" for g l
    using sent_cache_release_inv(1) [OF inv] .
  have i2: "cache_inv (snd (transport_sent_cache_release_track (en_sent_cache t) track))"
    using sent_cache_release_inv(2) [OF inv] .
  show ?thesis
    using r same [OF i1] same [OF i2] same [OF inv] stays_refl [OF s]
    by (auto simp: release_acked_checkpoints_def case_prod_beta split: option.split)
qed

lemma protected_returns:
  assumes "\<forall>c. Some c \<in> set cs \<longrightarrow> P c"
  shows "\<exists>r. cache_is_protected track cs f = Some r"
  using assms
proof (induction cs arbitrary: f)
  case (Cons c cs)
  then have ih: "\<exists>r. cache_is_protected track cs f = Some r" for f by simp
  show ?case
  proof (cases c)
    case None
    then show ?thesis using ih by simp
  next
    case (Some conn)
    then have "subs_inv (pe_table conn)" using Cons.prems table by simp
    note ex = alias_has_ack [OF this, of track]
    show ?thesis
      using Some ih ex by (auto simp: checkpoint_participating_def split: option.split)
  qed
qed simp

lemma member_added_stays:
  assumes s: "sound P t" and i: "i < length (members t)" "members t ! i = Some c0" and c: "P c"
    and r: "transport_publish_checkpoint_member_added env i c track a t = (c', t')"
  shows "P c' \<and> stays P t t' \<and> (pe_table c' = pe_table c \<or> (\<exists>x. pe_table c' = pe_table (put_ack c a x)))"
proof -
  define c1 where "c1 = (if en_fec_flush_pending t \<and> transport_track_id_equal track (en_fec_track_id t) then c\<lparr>pe_group_delivered := False\<rparr> else c)"
  have c1: "P c1" "pe_table c1 = pe_table c" unfolding c1_def using c delivered by (auto split: if_split)
  have ack1: "P (put_ack x a zero_participating)" if "P x" for x
    by (rule ack [OF that]) (rule ack_step.joined)
  have base: "P (put_ack x a (baseline_ack 0 l))" if "P x" for x l
    by (rule ack [OF that]) (rule ack_step.baseline)
  have put: "stays P t (put_member i x t)" if "P x" for x
    by (rule stays_put [OF s i(2,1) that])
  have cnt: "stays P t (count_checkpoint (put_member i x t))" if "P x" for x
    using put [OF that] i by (simp add: stays_def sound_def)
  have tab: "pe_table (put_ack (put_world w (put_ack c1 a x)) a y) = pe_table (put_ack c a y)"
    "pe_table (put_world w (put_ack c1 a x)) = pe_table (put_ack c a x)" "pe_table (put_ack c1 a x) = pe_table (put_ack c a x)" for w x y
    using c1(2) by (simp_all add: put_ack_def put_table_def put_world_def option.map_comp comp_def)
  show ?thesis
  proof (cases "\<not> is_capable c1 \<or> ti_type track \<noteq> ucast MOQ_TRACK_DATA \<or> ti_flags track AND MOQ_TRACK_FLAG_FEC_RATELESS = 0 \<or>
      transport_checkpoint_ack c1 a = None \<or> fst (find_fec_track_state (en_fec_tracks t) track False) = None")
    case True
    then have "(c', t') = (c1, put_member i c1 t) \<or> (c', t') = (put_ack c1 a zero_participating, put_member i (put_ack c1 a zero_participating) t)"
      using r by (auto simp: transport_publish_checkpoint_member_added_def Let_def c1_def [symmetric] split: if_splits)
    then show ?thesis using c1 put ack1 tab by blast
  next
    case False
    then obtain j where j: "fst (find_fec_track_state (en_fec_tracks t) track False) = Some j" by blast
    have jl: "j < length (en_fec_tracks t)"
      using j by (auto simp: find_fec_track_state_def first_index_Some split: option.splits)
    have g: "ft_checkpoint_group_id (en_fec_tracks t ! j) = 0" using s jl by (intro endpoint_ok_nth) (simp_all add: sound_def)
    let ?s = "en_fec_tracks t ! j" and ?c2 = "put_ack c1 a zero_participating"
    obtain ok w where wr: "pv_write_checkpoint env (pe_world ?c2) a 0 (ft_last_checkpoint_object_id ?s) (ft_last_checkpoint_object_id ?s) True = (ok, w)"
      by (rule prod.exhaust)
    have "(c', t') = (?c2, put_member i ?c2 t) \<or> (c', t') = (put_world w ?c2, put_member i (put_world w ?c2) t) \<or>
        (let x = put_ack (put_world w ?c2) a (baseline_ack 0 (ft_last_checkpoint_object_id ?s)) in (c', t') = (x, count_checkpoint (put_member i x t)))"
      using r False j g wr
      by (auto simp: transport_publish_checkpoint_member_added_def Let_def c1_def [symmetric] baseline_ack_def split: if_splits bool.splits)
    then show ?thesis using c1 put cnt ack1 base world tab unfolding Let_def by (metis Pair_inject)
  qed
qed

lemma ack_table_cong: "pe_table c' = pe_table c \<Longrightarrow> transport_checkpoint_ack c' b = transport_checkpoint_ack c b"
  by (simp add: transport_checkpoint_ack_def)

lemma joined_has_ack:
  assumes "transport_checkpoint_ack c a \<noteq> None" "pe_table c' = pe_table c \<or> (\<exists>x. pe_table c' = pe_table (put_ack c a x))"
  shows "transport_checkpoint_ack c' a \<noteq> None"
  using assms by (auto simp: ack_table_cong [of c' c] ack_table_cong [of c' "put_ack c a _"])

lemma marked_keeps:
  assumes "P c" "transport_checkpoint_ack c a = Some old"
  shows "P (put_ack c a (checkpoint_mark_sent now old 0 l))"
  using assms by (intro ack) (auto intro: ack_step.marked)

text \<open>A member takes part before anything is announced to it.\<close>

lemma join_stays:
  assumes s: "sound P t" and i: "i < length (members t)" "members t ! i = Some c" and al: "transport_subscriptions_find_alias (pe_table c) track = Some a"
  shows "\<exists>p. checkpoint_participating c a = Some p \<and>
    (case (if p then (c, t) else transport_publish_checkpoint_member_added env i c track a t) of (c', t') \<Rightarrow>
       P c' \<and> stays P t t' \<and> transport_checkpoint_ack c' a \<noteq> None)"
proof -
  have c: "P c" by (rule sound_member [OF s i])
  have ex: "transport_checkpoint_ack c a \<noteq> None" by (rule alias_has_ack [OF table [OF c] al])
  then obtain p where p: "checkpoint_participating c a = Some p" by (auto simp: checkpoint_participating_def)
  obtain c' t' where add: "transport_publish_checkpoint_member_added env i c track a t = (c', t')" by (rule prod.exhaust)
  note m = member_added_stays [OF s i c add]
  have "transport_checkpoint_ack c' a \<noteq> None" using joined_has_ack [OF ex] m by blast
  then show ?thesis using p add m c s ex stays_refl [OF s] by simp
qed

lemma emit_to_returns:
  assumes s: "sound P t" and i: "i < length (members t)"
  shows "\<exists>ok' t'. emit_to env track 0 f l i (ok, t) = Some (ok', t') \<and> stays P t t'"
proof (cases "members t ! i")
  case None
  then show ?thesis using stays_refl [OF s] by (simp add: emit_to_def)
next
  case (Some c)
  let ?skip = "\<not> pe_quic c \<or> \<not> pe_protocol_ready c \<or> \<not> pe_authenticated c \<or> \<not> pe_stream c \<or>
          \<not> pv_control_open env (pe_world c) \<or> pv_closing env (pe_world c) \<or> \<not> is_capable c"
  consider (skip) "?skip" | (nobody) "\<not> ?skip" "transport_subscriptions_find_alias (pe_table c) track = None"
    | (al) a where "\<not> ?skip" "transport_subscriptions_find_alias (pe_table c) track = Some a" by (meson not_None_eq)
  then show ?thesis
  proof cases
    case skip
    show ?thesis unfolding emit_to_def prod.case Some option.case if_P [OF skip] using stays_refl [OF s] by simp
  next
    case nobody
    show ?thesis unfolding emit_to_def prod.case Some option.case if_not_P [OF nobody(1)] nobody(2) using stays_refl [OF s] by simp
  next
    case (al a)
    note go = al(1) and al = al(2)
    obtain p where p: "checkpoint_participating c a = Some p" and
      j: "case (if p then (c, t) else transport_publish_checkpoint_member_added env i c track a t) of (c', t') \<Rightarrow>
         P c' \<and> stays P t t' \<and> transport_checkpoint_ack c' a \<noteq> None"
      by (rule exE [OF join_stays [OF s i Some al, of env]]) (rule that, (erule conjunct1 conjunct2)+)
    obtain c' t' where joined: "(if p then (c, t) else transport_publish_checkpoint_member_added env i c track a t) = (c', t')"
      by (rule prod.exhaust)
    have "P c' \<and> stays P t t' \<and> transport_checkpoint_ack c' a \<noteq> None" using j unfolding joined prod.case .
    then obtain old where c': "P c'" "stays P t t'" "transport_checkpoint_ack c' a = Some old" by blast
    have i': "i < length (members t')" using i stays_length [OF c'(2)] by simp
    have "map (\<lambda>c. c = None) (members t') ! i = map (\<lambda>c. c = None) (members t) ! i" using c'(2) by (simp add: stays_def)
    then obtain c0 where c0: "members t' ! i = Some c0" using i i' Some by auto
    obtain ok2 w where wr: "pv_write_checkpoint env (pe_world c') a 0 f l False = (ok2, w)" by (rule prod.exhaust)
    have put: "stays P t (put_member i x t')" if "P x" for x
      using stays_trans [OF c'(2) stays_put [OF stays_sound [OF c'(2)] c0 i' that]] .
    have cnt: "stays P t (count_checkpoint (put_member i x t'))" if "P x" for x
      using put [OF that] i' by (simp add: stays_def sound_def)
    have mk: "P (put_ack (put_world w c') a (checkpoint_mark_sent (pv_now_ms env) old 0 l))"
      using c' by (intro marked_keeps) (simp_all add: world)
    have "emit_to env track 0 f l i (ok, t) = (if ok2 then Some (ok, count_checkpoint (put_member i (put_ack (put_world w c') a
        (checkpoint_mark_sent (pv_now_ms env) old 0 l)) t')) else Some (False, put_member i (put_world w c') t'))"
      unfolding emit_to_def prod.case Some option.case if_not_P [OF go] al p bind.bind_lunit joined wr
      using c'(3) by (simp split: bool.split)
    then show ?thesis using cnt [OF mk] put [OF world [OF c'(1)]] by (cases ok2) auto
  qed
qed

lemma emit_all_returns:
  assumes "sound P t" "\<forall>i \<in> set is. i < length (members t)"
  shows "\<exists>ok' t'. emit_all env track 0 f l is (ok, t) = Some (ok', t') \<and> stays P t t'"
  using assms
proof (induction "is" arbitrary: ok t)
  case Nil
  then show ?case by (simp add: stays_refl)
next
  case (Cons i "is")
  obtain ok1 t1 where e: "emit_to env track 0 f l i (ok, t) = Some (ok1, t1)" "stays P t t1"
    using emit_to_returns [OF Cons.prems(1)] Cons.prems(2) by (metis list.set_intros(1))
  obtain ok2 t2 where e2: "emit_all env track 0 f l is (ok1, t1) = Some (ok2, t2)" "stays P t1 t2"
  proof -
    have "\<forall>i \<in> set is. i < length (members t1)" using Cons.prems(2) stays_length [OF e(2)] by simp
    then show ?thesis using Cons.IH [OF stays_sound [OF e(2)]] that by blast
  qed
  show ?case using e(1) e2(1) stays_trans [OF e(2) e2(2)] by simp
qed

lemma rolling_returns:
  assumes s: "sound P t"
  shows "\<exists>ok t'. emit_rolling_checkpoint env j 0 f l t = Some (ok, t') \<and> stays P t t'"
proof -
  obtain ok t1 where e: "emit_all env (ft_track_id (en_fec_tracks t ! j)) 0 f l [0..<length (members t)] (True, t) = Some (ok, t1)" "stays P t t1"
    using emit_all_returns [OF s upt_members] by blast
  have "stays P t (set_checkpoint j 0 l t1)"
    using e(2) endpoint_ok_checkpoint by (auto simp: stays_def sound_def)
  then show ?thesis using e(1) by (simp add: emit_rolling_checkpoint_def)
qed

text \<open>Publication returns, and keeps the law.\<close>

lemma datagrams_return:
  assumes s: "sound P t"
  shows "\<exists>r t'. publish_datagrams env ob limit t = Some (r, t') \<and> stays P t t'"
proof -
  have "\<forall>c. Some c \<in> set (members t) \<longrightarrow> P c" using s by (simp add: sound_def)
  from protected_returns [OF this] obtain pr where pr: "checkpoint_cache_is_protected (ob_track_id ob) t = Some pr"
    unfolding checkpoint_cache_is_protected_def by blast
  have same: "stays P t (t\<lparr>en_stats := st\<rparr>)" for st using s by (intro stays_same) (simp_all add: sound_def)
  have fo: "stays P t t'" if "fan_out env ob z e k [0..<length (members t)] f t = (f', t')" for z e k f f' t'
    using fan_out_stays [OF s upt_members, of env ob z e k f] that by simp
  let ?size = "data_size (ob_data ob)" and ?R = "ti_type (ob_track_id ob) = ucast MOQ_TRACK_DATA \<and> pr_fec_rateless (transport_track_profile (ob_track_id ob))"
  show ?thesis
  proof (cases "?size = 0 \<or> ?size > limit")
    case True
    show ?thesis unfolding publish_datagrams_def Let_def if_P [OF True] using stays_refl [OF s] by simp
  next
    case ok: False
    obtain pr' where pr': "(if ?R then checkpoint_cache_is_protected (ob_track_id ob) t else Some False) = Some pr'"
      by (rule that [of "if ?R then pr else False"]) (simp add: pr)
    let ?room = "transport_sent_cache_can_store (en_sent_cache t) ob (\<not> pr')"
    show ?thesis
    proof (cases "?R \<and> \<not> ?room")
      case True
      show ?thesis unfolding publish_datagrams_def Let_def if_not_P [OF ok] pr' bind.bind_lunit if_P [OF True] using same by simp
    next
      case False
      let ?e = "transport_get_datagram_symbol_size env t"
      let ?z = "symbol_size_for ?e ?size"
      let ?k = "data_symbols_for ?size ?z"
      obtain f t1 where f: "fan_out env ob ?z ?e ?k [0..<length (members t)] \<lparr>fo_eligible = 0, fo_delivered = 0,
          fo_maximum_sent_symbols = of_nat ?k, fo_partially_queued = False, fo_failure = PUBLISH_ERROR\<rparr> t = (f, t1)" by (rule prod.exhaust)
      obtain ok2 ca where st: "(if (fo_delivered f > 0 \<or> fo_partially_queued f) \<and> ?R
          then transport_sent_cache_store (pv_calloc_ok env) (pv_malloc env) (en_sent_cache t1) ob (fo_maximum_sent_symbols f)
            (of_nat ?k) (of_nat ?z) (\<not> pr') else (True, en_sent_cache t1)) = (ok2, ca)" by (rule prod.exhaust)
      have inv1: "cache_inv (en_sent_cache t1)" using fo [OF f] by (simp add: stays_def sound_def endpoint_ok_def)
      have inv2: "cache_inv ca" using st inv1 store_inv [OF inv1] by (metis prod.inject snd_conv)
      show ?thesis
        unfolding publish_datagrams_def Let_def if_not_P [OF ok] pr' bind.bind_lunit if_not_P [OF False] f prod.case st
        using stays_cache [OF fo [OF f] inv2] by (cases ok2) simp_all
    qed
  qed
qed

lemma ungrouped_returns:
  assumes s: "sound P t"
  shows "\<exists>r t'. publish_ungrouped env ob t = Some (r, t') \<and> stays P t t'"
proof -
  have add: "stays P t (t'\<lparr>en_published := pu\<rparr>)" if "stays P t t'" for t' pu
    using that by (simp add: stays_def sound_def)
  have "\<exists>r t'. (if \<not> publish_valid env ob t then Some (INVALID_OBJECT, t)
      else if pr_reliable (transport_track_profile (ob_track_id ob)) then Some (publish_reliable env ob t)
      else publish_datagrams env ob (publication_fec_limit env t (ob_track_id ob)) t) = Some (r, t') \<and> stays P t t'"
    using datagrams_return [OF s] publish_reliable_stays [OF s, of env ob] stays_refl [OF s]
    by (cases "publish_reliable env ob t") auto
  then show ?thesis unfolding publish_ungrouped_def using add by (auto simp: published_def)
qed

text \<open>Grouping.\<close>

lemma find_track_groups:
  assumes "find_fec_track_state (en_fec_tracks t) track c = (r, tracks)" "endpoint_ok t"
  shows "endpoint_ok (t\<lparr>en_fec_tracks := tracks, en_fec_flush_pending := b\<rparr>)"
proof -
  have "tracks = en_fec_tracks t \<or> (\<exists>i. i < length (en_fec_tracks t) \<and>
      tracks = (en_fec_tracks t)[i := (en_fec_tracks t ! i)\<lparr>ft_track_id := track, ft_active := True\<rparr>])"
    using assms(1) by (auto simp: find_fec_track_state_def first_index_Some split: option.splits if_splits)
  then show ?thesis using assms(2)
    by (elim disjE exE conjE) (auto simp: endpoint_ok_def dest!: subsetD [OF set_update_subset_insert])
qed

lemma group_done_groups: "endpoint_ok t \<Longrightarrow> endpoint_ok (group_done j t)"
proof (cases "j < length (en_fec_tracks t)")
  case True
  assume "endpoint_ok t"
  with True show ?thesis by (auto simp: endpoint_ok_def group_done_def dest!: subsetD [OF set_update_subset_insert])
qed (simp add: endpoint_ok_def group_done_def list_update_beyond)

lemma flush_returns:
  assumes s: "sound P t"
  shows "\<exists>r t'. transport_publish_flush_grouped_ex env t = Some (r, t') \<and> stays P t t'"
proof (cases "en_fec_buf t = []")
  case True
  then show ?thesis using stays_refl [OF s] by (simp add: transport_publish_flush_grouped_ex_def)
next
  case buf: False
  obtain fj tracks where find': "find_fec_track_state (en_fec_tracks t) (en_fec_track_id t) True = (fj, tracks)" by (rule prod.exhaust)
  show ?thesis
  proof (cases fj)
    case None
    show ?thesis unfolding transport_publish_flush_grouped_ex_def if_not_P [OF buf] find' prod.case None option.case
      using stays_refl [OF s] by simp
  next
    case (Some j)
    let ?t1 = "t\<lparr>en_fec_tracks := tracks, en_fec_flush_pending := True, en_fec_in_flush := True\<rparr>"
    have t1: "stays P t ?t1"
      using s by (intro stays_same) (simp_all add: sound_def find_track_groups [OF find'])
    obtain res t2 where pub: "publish_ungrouped env (group_object t (tracks ! j)) ?t1 = Some (res, t2)" "stays P ?t1 t2"
      using ungrouped_returns [OF stays_sound [OF t1]] by blast
    let ?t3 = "t2\<lparr>en_fec_in_flush := False\<rparr>"
    have t2: "stays P t t2" by (rule stays_trans [OF t1 pub(2)])
    have t3: "stays P t ?t3" using t2 by (simp add: stays_def sound_def)
    show ?thesis
    proof (cases "res \<noteq> DELIVERED \<and> res \<noteq> NO_RECIPIENTS")
      case True
      show ?thesis unfolding transport_publish_flush_grouped_ex_def if_not_P [OF buf] find' prod.case Some option.case Let_def pub(1)
          bind.bind_lunit if_P [OF True] using t3 by simp
    next
      case False
      let ?t4 = "group_done j ?t3"
      let ?s = "en_fec_tracks ?t4 ! j"
      have t4: "stays P t ?t4" using t3 group_done_groups [of ?t3 j] by (simp add: stays_def sound_def)
      let ?c = "ti_flags (ft_track_id ?s) AND MOQ_TRACK_FLAG_FEC_RATELESS \<noteq> 0 \<and> ft_next_object_id ?s mod 32 = 0"
      obtain ok t5 where r: "emit_rolling_checkpoint env j 0 (ft_next_object_id ?s - 32) (ft_next_object_id ?s - 1) ?t4 = Some (ok, t5)" "stays P ?t4 t5"
        using rolling_returns [OF stays_sound [OF t4]] by blast
      have e: "transport_publish_flush_grouped_ex env t = (if ?c then Some (DELIVERED, t5) else Some (DELIVERED, ?t4))"
        unfolding transport_publish_flush_grouped_ex_def if_not_P [OF buf] find' prod.case Some option.case Let_def pub(1)
          bind.bind_lunit if_not_P [OF False] r(1) by simp
      show ?thesis unfolding e using t4 stays_trans [OF t4 r(2)] by (cases ?c) simp_all
    qed
  qed
qed

lemma flush_first_returns:
  assumes s: "sound P t"
  shows "\<exists>stop t'. flush_first env needed t = Some (stop, t') \<and> stays P t t'"
proof (cases needed)
  case True
  obtain r t' where f: "transport_publish_flush_grouped_ex env t = Some (r, t')" "stays P t t'" using flush_returns [OF s] by blast
  have "flush_first env needed t = Some (if r = BACKPRESSURE \<or> r = PARTIAL then Some BACKPRESSURE
      else if r \<noteq> DELIVERED then Some PUBLISH_ERROR else None, t')"
    unfolding flush_first_def using f(1) True by simp
  then show ?thesis using f(2) by blast
qed (use stays_refl [OF s] in \<open>simp add: flush_first_def\<close>)

lemma grow_capacity_returns: "0 < c \<Longrightarrow> \<exists>r. grow_capacity c n = Some r"
proof (induction "n - c" arbitrary: c rule: less_induct)
  case less
  show ?case
  proof (cases "n \<le> c \<or> c > SIZE_MAX div 2")
    case True
    then show ?thesis by (subst grow_capacity.simps) auto
  next
    case False
    then have "\<exists>r. grow_capacity (c * 2) n = Some r" using less.prems by (intro less.hyps) auto
    then show ?thesis using False by (subst grow_capacity.simps) simp
  qed
qed

lemma ensure_returns:
  assumes s: "sound P t"
  shows "\<exists>ok t'. ensure_capacity env n t = Some (ok, t') \<and> stays P t t'"
proof -
  let ?c = "if en_fec_buf_cap t = 0 then 4096 else sz_mul (en_fec_buf_cap t) 2"
  have same: "stays P t (t\<lparr>en_fec_buf_address := a, en_fec_buf_cap := c\<rparr>)" for a c
    using s by (intro stays_same) (simp_all add: sound_def)
  have "\<exists>r. grow_capacity ?c n = Some r" if "\<not> ?c < en_fec_buf_cap t"
    using that by (intro grow_capacity_returns) (auto split: if_splits)
  then show ?thesis using same stays_refl [OF s]
    by (auto simp: ensure_capacity_def Let_def split: option.split)
qed

lemma restart_stays:
  assumes s: "sound P t" and n: "None \<notin> set (members t)"
  shows "\<exists>t'. start_group now ob t = Some t' \<and> stays P t t'"
proof -
  let ?t = "(if en_is_server t then t\<lparr>en_conns := map restart_peer (en_conns t)\<rparr> else t\<lparr>en_client := restart_peer (en_client t)\<rparr>)
        \<lparr>en_fec_first_pkt_time := now, en_fec_track_id := ob_track_id ob, en_fec_priority := ob_priority ob\<rparr>"
  have m: "members ?t = map restart_peer (members t)" by (auto simp: members_def restart_peer_def split: option.split)
  have "P c'" if "Some c' \<in> restart_peer ` set (members t)" for c'
  proof -
    from that obtain x where "x \<in> set (members t)" "restart_peer x = Some c'" by force
    then obtain c where "Some c \<in> set (members t)" "c' = c\<lparr>pe_group_delivered := False\<rparr>"
      by (auto simp: restart_peer_def)
    then show ?thesis using s delivered by (simp add: sound_def)
  qed
  moreover have "endpoint_ok ?t" using s by (simp add: sound_def endpoint_ok_def)
  ultimately have "stays P t ?t" unfolding stays_def sound_def m by (simp add: comp_def restart_peer_def)
  then show ?thesis using n stays_refl [OF s] by (cases "en_fec_buf t = []") (simp_all add: start_group_def)
qed

lemma append_returns:
  assumes s: "sound P t" and n: "None \<notin> set (members t)"
  shows "\<exists>stop t'. append_record env now ob t = Some (stop, t') \<and> stays P t t'"
proof -
  obtain t1 where t1: "start_group now ob t = Some t1" "stays P t t1" using restart_stays [OF s n] by blast
  obtain ok t2 where t2: "ensure_capacity env (length (en_fec_buf t1) + 2 + data_size (ob_data ob)) t1 = Some (ok, t2)" "stays P t1 t2"
    using ensure_returns [OF stays_sound [OF t1(2)]] by blast
  have t2': "stays P t t2" by (rule stays_trans [OF t1(2) t2(2)])
  then have "stays P t (t2\<lparr>en_fec_buf := b, en_fec_pkt_count := m\<rparr>)" for b m by (simp add: stays_def sound_def)
  then show ?thesis unfolding append_record_def t1(1) bind.bind_lunit Let_def using t1(2) t2(1) t2' by simp
qed

lemma group_record_returns:
  assumes s: "sound P t" and n: "None \<notin> set (members t)"
  shows "\<exists>r t'. group_record env now ob limit t = Some (r, t') \<and> stays P t t'"
proof -
  let ?size = "data_size (ob_data ob)"
  let ?limit = "if limit < MAX_FEC_GROUP_SIZE then limit else MAX_FEC_GROUP_SIZE"
  show ?thesis
  proof (cases "?size > MAX_FEC_RECORD_SIZE \<or> limit < 2 \<or> ?size > limit - 2")
    case True
    show ?thesis unfolding group_record_def Let_def if_P [OF True] using stays_refl [OF s] by simp
  next
    case ok: False
    define n1 where "n1 = (en_fec_buf t \<noteq> [] \<and> (en_fec_flush_pending t \<or>
            \<not> transport_track_id_equal (en_fec_track_id t) (ob_track_id ob) \<or> en_fec_priority t \<noteq> ob_priority ob))"
    obtain stop1 t1 where f1: "flush_first env n1 t = Some (stop1, t1)" "stays P t t1" using flush_first_returns [OF s] by blast
    note e1 = group_record_def [of env now ob limit t, unfolded Let_def if_not_P [OF ok], folded n1_def, unfolded f1(1) bind.bind_lunit prod.case]
    show ?thesis
    proof (cases stop1)
      case (Some x)
      show ?thesis unfolding e1 Some option.case using f1(2) by simp
    next
      case None
      define n2 where "n2 = (en_fec_buf t1 \<noteq> [] \<and> (en_fec_pkt_count t1 \<ge> 4 \<or> ?size > ?limit - 2 \<or> length (en_fec_buf t1) > ?limit - 2 - ?size))"
      obtain stop2 t2 where f2: "flush_first env n2 t1 = Some (stop2, t2)" "stays P t1 t2"
        using flush_first_returns [OF stays_sound [OF f1(2)]] by blast
      have t2: "stays P t t2" by (rule stays_trans [OF f1(2) f2(2)])
      note e2 = e1 [unfolded None option.case, folded n2_def, unfolded f2(1) bind.bind_lunit prod.case]
      show ?thesis
      proof (cases stop2)
        case (Some x)
        show ?thesis unfolding e2 Some option.case using t2 by simp
      next
        case None
        obtain stop3 t3 where f3: "append_record env now ob t2 = Some (stop3, t3)" "stays P t2 t3"
          using append_returns [OF stays_sound [OF t2]] n stays_None [OF t2] by blast
        have t3: "stays P t t3" by (rule stays_trans [OF t2 f3(2)])
        note e3 = e2 [unfolded None option.case f3(1) bind.bind_lunit prod.case]
        show ?thesis
        proof (cases stop3)
          case (Some x)
          show ?thesis unfolding e3 Some option.case using t3 by simp
        next
          case None
          obtain r t4 where f4: "transport_publish_flush_grouped_ex env t3 = Some (r, t4)" "stays P t3 t4"
            using flush_returns [OF stays_sound [OF t3]] by blast
          show ?thesis unfolding e3 None option.case f4(1) using t3 stays_trans [OF t3 f4(2)] by simp
        qed
      qed
    qed
  qed
qed

lemma impl_returns:
  assumes s: "sound P t" and n: "None \<notin> set (members t)"
  shows "\<exists>r t'. transport_publish_impl env now ob t = Some (r, t') \<and> stays P t t'"
  using group_record_returns [OF s n, of env now ob "publication_fec_limit env t (ob_track_id ob)"] ungrouped_returns [OF s, of env ob]
    stays_refl [OF s] by (simp add: transport_publish_impl_def)

lemma publish_ex_returns:
  assumes s: "sound P t" and n: "None \<notin> set (members t)"
  shows "\<exists>r t'. transport_publish_ex env now ob t = Some (r, t') \<and> stays P t t'"
proof -
  obtain r t1 where t1: "transport_publish_impl env now ob t = Some (r, t1)" "stays P t t1" using impl_returns [OF s n] by blast
  then have "stays P t (t1\<lparr>en_stats := st\<rparr>)" for st by (simp add: stays_def sound_def)
  then show ?thesis using t1 stays_refl [OF s] by (simp add: transport_publish_ex_def)
qed

text \<open>The end of a track.\<close>

lemma finish_to_returns:
  assumes s: "sound P t" and i: "i < length (members t)"
  shows "\<exists>f' t'. finish_to env track l i (f, t) = Some (f', t') \<and> stays P t t'"
proof (cases "members t ! i")
  case None
  then show ?thesis using stays_refl [OF s] by (cases f) (simp add: finish_to_def)
next
  case (Some c)
  obtain fd sc where f: "f = (fd, sc)" by (rule prod.exhaust)
  have c: "P c" by (rule sound_member [OF s i Some])
  let ?skip = "\<not> pe_quic c \<or> \<not> pe_protocol_ready c \<or> \<not> pe_authenticated c \<or> \<not> pe_stream c \<or>
          \<not> pv_control_open env (pe_world c) \<or> pv_closing env (pe_world c)"
  consider (skip) "?skip" | (nobody) "\<not> ?skip" "transport_subscriptions_find_alias (pe_table c) track = None"
    | (al) a where "\<not> ?skip" "transport_subscriptions_find_alias (pe_table c) track = Some a" by (meson not_None_eq)
  then show ?thesis
  proof cases
    case skip
    show ?thesis unfolding finish_to_def f prod.case Some option.case if_P [OF skip] using stays_refl [OF s] by simp
  next
    case nobody
    show ?thesis unfolding finish_to_def f prod.case Some option.case if_not_P [OF nobody(1)] nobody(2) using stays_refl [OF s] by simp
  next
    case (al a)
    note go = al(1) and al = al(2)
    obtain ok w where wr: "pv_write_track_end env (pe_world c) a 0 l = (ok, w)" by (rule prod.exhaust)
    let ?c1 = "put_world w c"
    have put1: "stays P t (put_member i ?c1 t)" by (rule stays_put [OF s Some i world [OF c]])
    note e = finish_to_def [of env track l i, THEN fun_cong, of "(f, t)", unfolded f prod.case Some option.case if_not_P [OF go] al wr]
    show ?thesis
    proof (cases ok)
      case False
      then show ?thesis using e put1 unfolding f by simp blast
    next
      case True
      let ?t1 = "count_track_end (put_member i ?c1 t)"
      have t1: "stays P t ?t1" using put1 i by (simp add: stays_def sound_def)
      have i1: "i < length (members ?t1)" "members ?t1 ! i = Some ?c1" using i by simp_all
      show ?thesis
      proof (cases "is_capable ?c1")
        case False
        then show ?thesis using e True t1 unfolding f by (simp add: Let_def) blast
      next
        case cap: True
        have al1: "transport_subscriptions_find_alias (pe_table ?c1) track = Some a" using al by (simp add: put_world_def)
        obtain p where p: "checkpoint_participating ?c1 a = Some p" and
          j: "case (if p then (?c1, ?t1) else transport_publish_checkpoint_member_added env i ?c1 track a ?t1) of (c', t') \<Rightarrow>
             P c' \<and> stays P ?t1 t' \<and> transport_checkpoint_ack c' a \<noteq> None"
          by (rule exE [OF join_stays [OF stays_sound [OF t1] i1 al1, of env]]) (rule that, (erule conjunct1 conjunct2)+)
        obtain c' t' where joined: "(if p then (?c1, ?t1) else transport_publish_checkpoint_member_added env i ?c1 track a ?t1) = (c', t')"
          by (rule prod.exhaust)
        have "P c' \<and> stays P ?t1 t' \<and> transport_checkpoint_ack c' a \<noteq> None" using j unfolding joined prod.case .
        then obtain old where c': "P c'" "stays P ?t1 t'" "transport_checkpoint_ack c' a = Some old" by blast
        have i': "i < length (members t')" using i1 stays_length [OF c'(2)] by simp
        have "map (\<lambda>c. c = None) (members t') ! i = map (\<lambda>c. c = None) (members ?t1) ! i" using c'(2) by (simp add: stays_def)
        then obtain c0 where c0: "members t' ! i = Some c0" using i1 i' by auto
        have mk: "P (put_ack c' a (checkpoint_mark_sent (pv_now_ms env) old 0 l))" using c' by (intro marked_keeps)
        have put: "stays P t (put_member i (put_ack c' a (checkpoint_mark_sent (pv_now_ms env) old 0 l)) t')"
          using stays_trans [OF t1 stays_trans [OF c'(2) stays_put [OF stays_sound [OF c'(2)] c0 i' mk]]] .
        have nc: "\<not> \<not> is_capable ?c1" using cap by simp
        have "finish_to env track l i (f, t) = Some ((True, sc), put_member i (put_ack c' a (checkpoint_mark_sent (pv_now_ms env) old 0 l)) t')"
          using e [unfolded True bool.case prod.case Let_def if_not_P [OF nc] p bind.bind_lunit joined c'(3)] True unfolding f by simp
        then show ?thesis using put by blast
      qed
    qed
  qed
qed

lemma finish_all_returns:
  assumes "sound P t" "\<forall>i \<in> set is. i < length (members t)"
  shows "\<exists>f' t'. finish_all env track l is (f, t) = Some (f', t') \<and> stays P t t'"
  using assms
proof (induction "is" arbitrary: f t)
  case Nil
  then show ?case by (simp add: stays_refl)
next
  case (Cons i "is")
  obtain f1 t1 where e: "finish_to env track l i (f, t) = Some (f1, t1)" "stays P t t1"
    using finish_to_returns [OF Cons.prems(1)] Cons.prems(2) by (metis list.set_intros(1))
  obtain f2 t2 where e2: "finish_all env track l is (f1, t1) = Some (f2, t2)" "stays P t1 t2"
  proof -
    have "\<forall>i \<in> set is. i < length (members t1)" using Cons.prems(2) stays_length [OF e(2)] by simp
    then show ?thesis using Cons.IH [OF stays_sound [OF e(2)]] that by blast
  qed
  show ?case using e(1) e2(1) stays_trans [OF e(2) e2(2)] by simp
qed

lemma finish_track_returns:
  assumes s: "sound P t"
  shows "\<exists>ok t'. transport_finish_track env track t = Some (ok, t') \<and> stays P t t'"
proof (cases "\<not> pv_owner_ok env \<or> \<not> transport_track_id_valid track \<or> ti_type track \<noteq> ucast MOQ_TRACK_DATA \<or> ti_flags track AND MOQ_TRACK_FLAG_FEC_RATELESS = 0")
  case True
  show ?thesis unfolding transport_finish_track_def if_P [OF True] using stays_refl [OF s] by simp blast
next
  case bad: False
  let ?mine = "en_fec_buf t \<noteq> [] \<and> transport_track_id_equal (en_fec_track_id t) track"
  obtain r0 tf where f0: "transport_publish_flush_grouped_ex env t = Some (r0, tf)" "stays P t tf" using flush_returns [OF s] by blast
  obtain ok1 t1 where f1: "(if ?mine then transport_publish_flush_grouped env t else Some (True, t)) = Some (ok1, t1)" and t1: "stays P t t1"
  proof (cases ?mine)
    case True
    then have "(if ?mine then transport_publish_flush_grouped env t else Some (True, t)) = Some (r0 = DELIVERED \<or> r0 = NO_RECIPIENTS, tf)"
      using f0(1) unfolding transport_publish_flush_grouped_def by simp
    then show ?thesis using f0(2) that by blast
  next
    case False
    show ?thesis by (rule that [OF if_not_P [OF False] stays_refl [OF s]])
  qed
  have "\<exists>res. transport_publish_finish_grouped env track t = Some (res, t1)"
    unfolding transport_publish_finish_grouped_def f1 bind.bind_lunit prod.case by (simp split: option.split)
  then obtain res where f2: "transport_publish_finish_grouped env track t = Some (res, t1)" by blast
  note e = transport_finish_track_def [of env track t, unfolded if_not_P [OF bad] f2 bind.bind_lunit prod.case]
  show ?thesis
  proof (cases res)
    case None
    show ?thesis unfolding e None option.case using t1 by simp blast
  next
    case (Some hl)
    obtain h l where hl: "hl = (h, l)" by (rule prod.exhaust)
    obtain f3 t2 where fin: "finish_all env track l [0..<length (members t1)] ((False, True), t1) = Some (f3, t2)" "stays P t1 t2"
      using finish_all_returns [OF stays_sound [OF t1] upt_members] by blast
    have t2: "stays P t t2" by (rule stays_trans [OF t1 fin(2)])
    then have "stays P t (set_checkpoint j 0 l t2)" for j using endpoint_ok_checkpoint by (auto simp: stays_def sound_def)
    then show ?thesis unfolding e Some hl option.case prod.case fin(1) using t1 t2
      by (cases h; cases f3; simp split: option.split; blast)
  qed
qed

text \<open>Acknowledgements and departures.\<close>

lemma put_ack_stays:
  assumes s: "sound P t" and i: "i < length (members t)" "members t ! i = Some c0" and c: "P c"
    and st: "\<And>old. transport_checkpoint_ack c a = Some old \<Longrightarrow> ack_step old new"
  shows "P (put_ack c a new)" "stays P t (put_member i (put_ack c a new) t)"
  using ack [OF c st] stays_put [OF s i(2,1)] by blast+

lemma removed_returns:
  assumes s: "sound P t" and i: "i < length (members t)" "members t ! i = Some c0" and c: "P c"
  shows "\<exists>t'. transport_publish_checkpoint_member_removed i c track a t = Some t' \<and> stays P t t'"
proof -
  have st: "stays P t (put_member i (put_ack c a zero_ack) t)"
    by (rule put_ack_stays(2) [OF s i c]) (rule ack_step.cleared)
  obtain t' where "release_acked_checkpoints track (put_member i (put_ack c a zero_ack) t) = Some t'"
      "stays P (put_member i (put_ack c a zero_ack) t) t'"
    using release_returns [OF stays_sound [OF st]] by blast
  then show ?thesis using stays_trans [OF st] stays_refl [OF s] by (auto simp: transport_publish_checkpoint_member_removed_def)
qed

lemma acked_form:
  "transport_publish_checkpoint_acked now i c w track t =
     (if \<not> is_capable c then Some (False, t)
      else case transport_checkpoint_ack c (ca_alias w) of
        None \<Rightarrow> None
      | Some state \<Rightarrow>
        if \<not> ak_participating state \<or> \<not> ak_sent_initialized state \<or> ca_group_id w \<noteq> ak_sent_group_id state \<or>
           ca_final_object_id w > ak_sent_object_id state then Some (False, t)
        else map_option (Pair True) (release_acked_checkpoints track (put_member i
          (put_ack c (ca_alias w) (acked_state now state (ca_group_id w) (ca_final_object_id w))) t)))"
  unfolding transport_publish_checkpoint_acked_def acked_state_def Let_def by (simp split: option.split)

lemma acked_returns:
  assumes s: "sound P t" and i: "i < length (members t)" "members t ! i = Some c"
    and al: "transport_checkpoint_ack c (ca_alias w) \<noteq> None"
  shows "\<exists>ok t'. transport_publish_checkpoint_acked now i c w track t = Some (ok, t') \<and> stays P t t'"
proof -
  have c: "P c" by (rule sound_member [OF s i])
  from al obtain state where state: "transport_checkpoint_ack c (ca_alias w) = Some state" by blast
  let ?bad = "\<not> ak_participating state \<or> \<not> ak_sent_initialized state \<or> ca_group_id w \<noteq> ak_sent_group_id state \<or>
           ca_final_object_id w > ak_sent_object_id state"
  show ?thesis
  proof (cases "\<not> is_capable c \<or> ?bad")
    case True
    then show ?thesis using stays_refl [OF s] state unfolding acked_form by auto
  next
    case False
    let ?n = "acked_state now state (ca_group_id w) (ca_final_object_id w)"
    have st: "stays P t (put_member i (put_ack c (ca_alias w) ?n) t)"
      using False state by (intro put_ack_stays(2) [OF s i c]) (auto intro: ack_step.acked)
    obtain t' where "release_acked_checkpoints track (put_member i (put_ack c (ca_alias w) ?n) t) = Some t'"
      "stays P (put_member i (put_ack c (ca_alias w) ?n) t) t'"
      using release_returns [OF stays_sound [OF st]] by blast
    then show ?thesis using stays_trans [OF st] False state unfolding acked_form by auto
  qed
qed

end

section \<open>The laws of the model\<close>

definition peer_table_ok :: "'s peer \<Rightarrow> bool" where
  "peer_table_ok c \<longleftrightarrow> subs_inv (pe_table c)"

text \<open>Checkpoints and acknowledgements are of group zero, the only one the publisher uses.\<close>

definition ack_groups_zero :: "'s peer \<Rightarrow> bool" where
  "ack_groups_zero c \<longleftrightarrow> peer_table_ok c \<and>
     (\<forall>a x. transport_checkpoint_ack c a = Some x \<longrightarrow> ak_sent_group_id x = 0 \<and> ak_acked_group_id x = 0)"

lemma put_ack_table:
  assumes "subs_inv (pe_table c)"
  shows "subs_inv (pe_table (put_ack c a x))"
  using assms by (auto simp: subs_inv_def put_ack_def put_table_def)

lemma set_stream_table:
  assumes "subs_inv (pe_table c)"
  shows "subs_inv (pe_table (set_stream k h c)) \<and> tb_states (pe_table (set_stream k h c)) = tb_states (pe_table c)"
proof -
  have "subs_inv (pe_table (set_stream k h c))"
    by (rule conjunct1 [OF same_subs [OF _ _ _ assms]]; cases "k < length (tb_entries (pe_table c))")
      (auto simp: set_stream_def put_table_def nth_list_update list_update_beyond)
  then show ?thesis by (simp add: set_stream_def put_table_def)
qed

interpretation tables: member_law "peer_table_ok :: 's peer \<Rightarrow> bool"
  by unfold_locales (simp_all add: peer_table_ok_def put_ack_table set_stream_table)

lemma zero_step:
  assumes "ack_step a b" "ak_sent_group_id a = 0 \<and> ak_acked_group_id a = 0"
  shows "ak_sent_group_id b = 0 \<and> ak_acked_group_id b = 0"
  using assms
  by cases (simp_all add: zero_ack_def zero_participating_def baseline_ack_def checkpoint_mark_sent_def acked_state_def Let_def)

interpretation groups: member_law "ack_groups_zero :: 's peer \<Rightarrow> bool"
proof
  fix c :: "'s peer" and sn :: "'s sender" assume "ack_groups_zero c" "sn_subscriptions sn = sn_subscriptions (pe_sender c)"
  then show "ack_groups_zero (c\<lparr>pe_sender := sn\<rparr>)" by (simp add: ack_groups_zero_def peer_table_ok_def transport_checkpoint_ack_def)
next
  fix c :: "'s peer" and b assume "ack_groups_zero c"
  then show "ack_groups_zero (c\<lparr>pe_group_delivered := b\<rparr>)" by (simp add: ack_groups_zero_def peer_table_ok_def)
next
  fix c :: "'s peer" and k h assume "ack_groups_zero c"
  then show "ack_groups_zero (set_stream k h c)"
    using set_stream_table [of c k h]
    by (simp add: ack_groups_zero_def peer_table_ok_def transport_checkpoint_ack_def transport_subscriptions_get_state_def)
next
  fix c :: "'s peer" and a new assume "ack_groups_zero c" "\<And>old. transport_checkpoint_ack c a = Some old \<Longrightarrow> ack_step old new"
  then show "ack_groups_zero (put_ack c a new)"
    using zero_step put_ack_table by (auto simp: ack_groups_zero_def peer_table_ok_def split: if_splits)
next
  fix c :: "'s peer" assume "ack_groups_zero c"
  then show "subs_inv (pe_table c)" by (simp add: ack_groups_zero_def peer_table_ok_def)
qed

end
