(* ===== verification/Samples.thy ===== *)
theory Samples
  imports Membership Publishing
begin

text \<open>
  A small publisher: a server that retains two objects of a data track and has announced a checkpoint
  at object five, and a connection that understands checkpoints.
\<close>

definition data_track :: moq_track_id where
  "data_track = \<lparr>ti_type = 4, ti_flags = 4, ti_name = 97 # replicate 63 0\<rparr>"

definition retained :: "u64 \<Rightarrow> sent_entry" where
  "retained n = zero_entry\<lparr>se_track_id := data_track, se_object_id := n,
     se_data := Some \<lparr>pl_address = 64, pl_bytes = [1, 2, 3]\<rparr>, se_total_symbols := 1, se_data_symbols := 1, se_symbol_size := 3\<rparr>"

definition example_publish_env :: "(nat \<Rightarrow> bytes list) publish_env" where
  "example_publish_env = \<lparr>pv_send = (\<lambda>i. example_send_env), pv_closing = (\<lambda>w. False), pv_control_open = (\<lambda>w. True),
     pv_handle_open = (\<lambda>w h. True), pv_open_stream = (\<lambda>w. (Some 0, w)), pv_accept_batch = (\<lambda>w h n r. (True, r)),
     pv_write_object = (\<lambda>w h a ob. (True, w)), pv_send_unicast = (\<lambda>w d. (True, w)),
     pv_write_checkpoint = (\<lambda>w a g f l b. (True, w)), pv_write_track_end = (\<lambda>w a g l. (True, w)),
     pv_now_ms = 5, pv_owner_ok = True, pv_realloc = Some 64, pv_calloc_ok = True, pv_malloc = Some 128\<rparr>"

definition example_table :: subscription_table where
  "example_table = snd (transport_subscriptions_init True empty_table 1)"

definition example_peer :: "(nat \<Rightarrow> bytes list) peer" where
  "example_peer = \<lparr>pe_sender = example_sender\<lparr>sn_subscriptions := example_table\<rparr>, pe_quic = True, pe_protocol_ready = True,
     pe_authenticated = True, pe_group_delivered = False, pe_capabilities = WIRE_CAP_RECOVERY_CHECKPOINTS,
     pe_max_reliable_object_size = 100, pe_max_fec_object_size = 100, pe_max_udp_payload_size = 1200, pe_stream = True\<rparr>"

definition example_state :: fec_track_state where
  "example_state = \<lparr>ft_track_id = data_track, ft_next_object_id = 6, ft_active = True, ft_has_objects = True,
     ft_checkpoint_initialized = True, ft_checkpoint_group_id = 0, ft_last_checkpoint_object_id = 5\<rparr>"

definition zero_publish_stats :: publish_stats where
  "zero_publish_stats = \<lparr>pu_delivered = 0, pu_buffered = 0, pu_no_recipients = 0, pu_partial = 0, pu_backpressure = 0,
     pu_invalid = 0, pu_errors = 0, pu_cache_releases = 0, pu_cache_backpressure = 0, pu_checkpoints_sent = 0, pu_track_ends_sent = 0\<rparr>"

definition example_endpoint :: "(nat \<Rightarrow> bytes list) endpoint" where
  "example_endpoint = \<lparr>en_is_server = True, en_conns = [], en_client = None,
     en_sent_cache = zero_cache\<lparr>sc_entries := [retained 3, retained 7], sc_max_payload_bytes := 10, sc_payload_bytes := 6, sc_count := 2\<rparr>,
     en_coder = example_coder, en_max_reliable_object_size = 100, en_max_fec_object_size = 100, en_max_udp_payload_size = 1200,
     en_fec_buf = [], en_fec_buf_address = 0, en_fec_buf_cap = 0, en_fec_first_pkt_time = 0, en_fec_track_id = zero_track,
     en_fec_pkt_count = 0, en_fec_priority = 0, en_fec_in_flush = False, en_fec_flush_pending = False,
     en_fec_tracks = [example_state], en_stats = zero_publish_stats, en_published = []\<rparr>"

lemma example_endpoint_ok: "endpoint_ok example_endpoint"
proof -
  have "cache_inv (en_sent_cache example_endpoint)"
    by (rule cache_inv_intro)
      (auto simp: example_endpoint_def retained_def zero_cache_def transport_sent_cache_byte_limit_def SIZE_MAX_def same_object_def
        entry_is_def entry_bytes_def entry_used_def data_size_def less_Suc_eq)
  then show ?thesis by (simp add: endpoint_ok_def example_endpoint_def example_state_def)
qed

definition joined_table :: subscription_table where
  "joined_table = \<lparr>tb_entries = [\<lparr>ts_track_id = data_track, ts_alias = 9, ts_active = True, ts_stream = None, ts_ingress_stream = None\<rparr>],
     tb_next_generation = 1, tb_states = (\<lambda>a. if a = 9 then Some (fresh_state 1) else None)\<rparr>"

lemma example_subscribe:
  "transport_subscriptions_add True True example_table 4 4 (ti_name data_track) 9 = (True, joined_table)"
proof -
  have n: "strnlen (ti_name data_track) 64 = 1" by (simp add: data_track_def strnlen_def cstr_def takeWhile_replicate)
  have f: "fill_array 64 (take 1 (ti_name data_track)) = ti_name data_track" by (simp add: data_track_def fill_array_def)
  show ?thesis
    using n f by (simp add: transport_subscriptions_add_def ensure_initialized_def example_table_def transport_subscriptions_init_def
      transport_subscriptions_destroy_def empty_table_def zero_subscription_def Let_def joined_table_def data_track_def fun_eq_iff)
qed

text \<open>The peer after it joined at the checkpoint.\<close>

definition subscribed_peer :: "(nat \<Rightarrow> bytes list) peer" where
  "subscribed_peer = put_ack (put_table joined_table example_peer) 9 (baseline_ack 0 5)"

definition subscribed_endpoint :: "(nat \<Rightarrow> bytes list) endpoint" where
  "subscribed_endpoint = count_checkpoint (example_endpoint\<lparr>en_conns := [Some subscribed_peer]\<rparr>)"

lemma example_joined:
  "transport_publish_checkpoint_member_added example_publish_env 0 (put_table joined_table example_peer) data_track 9
     (example_endpoint\<lparr>en_conns := [Some example_peer]\<rparr>) = (subscribed_peer, subscribed_endpoint)"
proof -
  have w: "put_world (pe_world c) c = c" for c :: "(nat \<Rightarrow> bytes list) peer" by (simp add: put_world_def)
  have ww: "put_ack (put_ack c a x) a y = put_ack c a y" for c :: "(nat \<Rightarrow> bytes list) peer" and a x y
    by (simp add: put_ack_def put_table_def option.map_comp comp_def)
  have st: "pe_stream (put_ack c a x) = pe_stream c" for c :: "(nat \<Rightarrow> bytes list) peer" and a x
    by (simp add: put_ack_def put_table_def)
  have ack: "transport_checkpoint_ack (put_table joined_table example_peer) 9 = Some zero_ack"
    by (simp add: transport_checkpoint_ack_def transport_subscriptions_get_state_def put_table_def joined_table_def fresh_state_def)
  have cap: "is_capable (put_table joined_table example_peer)" by (simp add: is_capable_def put_table_def example_peer_def)
  have fnd: "find_fec_track_state [example_state] data_track False = (Some 0, [example_state])"
    by (simp add: find_fec_track_state_def example_state_def track_id_equal_refl)
  show ?thesis
    unfolding transport_publish_checkpoint_member_added_def Let_def
    using ack cap fnd
    by (simp add: example_endpoint_def data_track_def example_publish_env_def put_member_def w ww st subscribed_endpoint_def
        subscribed_peer_def baseline_ack_def example_state_def put_table_def example_peer_def)
qed

end
