(* ===== verification/Checkpoints.thy ===== *)
theory Checkpoints
  imports Samples
begin

text \<open>
  What the publisher's recovery checkpoints promise: which retained objects an acknowledgement, a
  departure or a disconnection releases.
\<close>

section \<open>Subscribers and participants\<close>

definition subscriber :: "moq_track_id \<Rightarrow> 's peer option list \<Rightarrow> 's peer \<Rightarrow> u8 \<Rightarrow> bool" where
  "subscriber track cs conn a \<longleftrightarrow> Some conn \<in> set cs \<and> transport_subscriptions_find_alias (pe_table conn) track = Some a"

definition legacy :: "moq_track_id \<Rightarrow> 's peer option list \<Rightarrow> bool" where
  "legacy track cs \<longleftrightarrow> (\<exists>conn a. subscriber track cs conn a \<and> \<not> is_capable conn)"

definition participant :: "moq_track_id \<Rightarrow> 's peer option list \<Rightarrow> checkpoint_ack_state \<Rightarrow> bool" where
  "participant track cs ack \<longleftrightarrow> (\<exists>conn a. subscriber track cs conn a \<and> is_capable conn \<and>
     transport_checkpoint_ack conn a = Some ack \<and> ak_participating ack)"

definition acknowledges :: "checkpoint_ack_state \<Rightarrow> u64 \<Rightarrow> u64 \<Rightarrow> bool" where
  "acknowledges ack group_id object_id \<longleftrightarrow>
     ak_acked_initialized ack \<and> ak_acked_group_id ack = group_id \<and> object_id \<le> ak_acked_object_id ack"

text \<open>An object every subscriber has acknowledged; nothing of a track with a legacy subscriber.\<close>

definition releasable :: "moq_track_id \<Rightarrow> 's peer option list \<Rightarrow> sent_entry \<Rightarrow> bool" where
  "releasable track cs e \<longleftrightarrow> se_data e \<noteq> None \<and> sent_track_equal (se_track_id e) track \<and> \<not> legacy track cs \<and>
     (\<forall>ack. participant track cs ack \<longrightarrow> acknowledges ack (se_group_id e) (se_object_id e))"

text \<open>The groups of the checkpoints of a track are all zero, as the publisher numbers them.\<close>

definition single_group :: "moq_track_id \<Rightarrow> 's peer option list \<Rightarrow> bool" where
  "single_group track cs \<longleftrightarrow> (\<forall>ack. participant track cs ack \<and> ak_acked_initialized ack \<longrightarrow> ak_acked_group_id ack = 0)"

definition tables_ok :: "'s peer option list \<Rightarrow> bool" where
  "tables_ok cs \<longleftrightarrow> (\<forall>conn. Some conn \<in> set cs \<longrightarrow> subs_inv (pe_table conn))"

lemma subscriber_Cons: "subscriber track (c # cs) conn a \<longleftrightarrow> subscriber track [c] conn a \<or> subscriber track cs conn a"
  by (auto simp: subscriber_def)

lemma legacy_Cons: "legacy track (c # cs) \<longleftrightarrow> legacy track [c] \<or> legacy track cs"
  unfolding legacy_def subscriber_Cons [of track c cs] by blast

lemma participant_Cons: "participant track (c # cs) ack \<longleftrightarrow> participant track [c] ack \<or> participant track cs ack"
  unfolding participant_def subscriber_Cons [of track c cs] by blast

lemma nobody: "\<not> subscriber track [] conn a" "\<not> legacy track []" "\<not> participant track [] ack"
  by (simp_all add: subscriber_def legacy_def participant_def)

lemma absent_member:
  "\<not> legacy track [None]" "\<not> participant track [None] ack"
  "transport_subscriptions_find_alias (pe_table conn) track = None \<Longrightarrow> \<not> legacy track [Some conn]"
  "transport_subscriptions_find_alias (pe_table conn) track = None \<Longrightarrow> \<not> participant track [Some conn] ack"
  by (simp_all add: subscriber_def legacy_def participant_def)

lemma present_member:
  assumes "transport_subscriptions_find_alias (pe_table conn) track = Some a"
  shows "legacy track [Some conn] \<longleftrightarrow> \<not> is_capable conn"
    "participant track [Some conn] ack \<longleftrightarrow> is_capable conn \<and> transport_checkpoint_ack conn a = Some ack \<and> ak_participating ack"
  using assms by (auto simp: subscriber_def legacy_def participant_def)

lemma tables_ok_Cons: "tables_ok (c # cs) \<longleftrightarrow> tables_ok [c] \<and> tables_ok cs"
  by (auto simp: tables_ok_def)

lemma single_group_Cons: "single_group track (c # cs) \<longleftrightarrow> single_group track [c] \<and> single_group track cs"
  unfolding single_group_def participant_Cons [of track c cs] by blast

section \<open>The scan\<close>

text \<open>\<open>below s x\<close>: \<open>x\<close> is not above the minimum found so far.\<close>

definition below :: "ack_scan \<Rightarrow> u64 \<Rightarrow> bool" where
  "below s x \<longleftrightarrow> (\<forall>g m. as_minimum s = Some (g, m) \<longrightarrow> x \<le> m)"

definition scanned :: "moq_track_id \<Rightarrow> 's peer option list \<Rightarrow> ack_scan \<Rightarrow> ack_scan \<Rightarrow> bool" where
  "scanned track cs s s' \<longleftrightarrow> as_legacy s' = (as_legacy s \<or> legacy track cs) \<and>
     as_capable s' = (as_capable s \<or> (\<exists>ack. participant track cs ack)) \<and>
     (as_minimum s' = None \<longleftrightarrow> as_minimum s = None \<and> (\<nexists>ack. participant track cs ack)) \<and>
     (\<forall>g m. as_minimum s' = Some (g, m) \<longrightarrow> g = 0) \<and>
     (\<forall>ack. participant track cs ack \<longrightarrow> ak_acked_initialized ack) \<and>
     (\<forall>x. below s' x \<longleftrightarrow> below s x \<and> (\<forall>ack. participant track cs ack \<longrightarrow> x \<le> ak_acked_object_id ack))"

lemma scanned_trans:
  assumes "scanned track [c] s s'" "scanned track cs s' s''"
  shows "scanned track (c # cs) s s''"
  using assms unfolding scanned_def legacy_Cons [of track c cs] participant_Cons [of track c cs]
  by (smt (verit))

definition scan_result :: "moq_track_id \<Rightarrow> 's peer option list \<Rightarrow> ack_scan \<Rightarrow> ack_scan option option \<Rightarrow> bool" where
  "scan_result track cs s r \<longleftrightarrow> (case r of None \<Rightarrow> False
     | Some None \<Rightarrow> \<exists>ack. participant track cs ack \<and> \<not> ak_acked_initialized ack
     | Some (Some s') \<Rightarrow> scanned track cs s s')"

lemma scan_result_Cons:
  assumes "scanned track [c] s s'" "scan_result track cs s' r"
  shows "scan_result track (c # cs) s r"
proof (cases r)
  case None then show ?thesis using assms(2) by (simp add: scan_result_def)
next
  case (Some x)
  then show ?thesis using assms scanned_trans [OF assms(1)]
    by (cases x) (auto simp: scan_result_def participant_Cons [of track c cs])
qed

lemma scan_acks_result:
  assumes "tables_ok cs" "single_group track cs" "\<And>g m. as_minimum s = Some (g, m) \<Longrightarrow> g = 0"
  shows "scan_result track cs s (scan_acks track cs s)"
  using assms
proof (induction cs arbitrary: s)
  case Nil
  then show ?case by (simp add: scan_result_def scanned_def nobody)
next
  case (Cons c cs)
  note IH = Cons.IH [OF conjunct2 [OF Cons.prems(1) [unfolded tables_ok_Cons [of c cs]]]
      conjunct2 [OF Cons.prems(2) [unfolded single_group_Cons [of track c cs]]]]
  have skip: "scan_result track (c # cs) s (scan_acks track cs s')"
    if "scanned track [c] s s'" for s'
    using that IH [of s'] by (intro scan_result_Cons [OF that]) (auto simp: scanned_def)
  show ?case
  proof (cases c)
    case None
    then have "scanned track [c] s s" using Cons.prems(3) by (simp add: scanned_def absent_member)
    then show ?thesis using skip None by simp
  next
    case c: (Some conn)
    show ?thesis
    proof (cases "transport_subscriptions_find_alias (pe_table conn) track")
      case None
      then have "scanned track [c] s s" using Cons.prems(3) c by (simp add: scanned_def absent_member)
      then show ?thesis using skip None c by simp
    next
      case a: (Some a)
      note p = present_member [OF a]
      show ?thesis
      proof (cases "is_capable conn")
        case False
        then have "scanned track [c] s (s\<lparr>as_legacy := True\<rparr>)"
          using Cons.prems(3) c p by (simp add: scanned_def below_def)
        from skip [OF this] show ?thesis using a c False by simp
      next
        case cap: True
        have "subs_inv (pe_table conn)" using Cons.prems(1) c by (simp add: tables_ok_def)
        from alias_has_ack [OF this a] obtain ack where ack: "transport_checkpoint_ack conn a = Some ack" by blast
        show ?thesis
        proof (cases "ak_participating ack")
          case False
          then have "scanned track [c] s s" using Cons.prems(3) c p cap ack by (auto simp: scanned_def)
          then show ?thesis using skip a c cap ack False by simp
        next
          case part: True
          then have pc: "participant track (c # cs) ack"
            unfolding participant_Cons [of track c cs] using c p cap ack by blast
          show ?thesis
          proof (cases "ak_acked_initialized ack")
            case False
            then have "scan_result track (c # cs) s (Some None)" using pc by (auto simp: scan_result_def)
            then show ?thesis using a c cap ack part False by (simp add: Let_def)
          next
            case init: True
            have g: "ak_acked_group_id ack = 0"
              using Cons.prems(2) pc init unfolding single_group_def by blast
            have one: "participant track [c] x \<longleftrightarrow> x = ack" "\<not> legacy track [c]" "Ex (participant track [c])" for x
              using c p cap ack part by auto
            define s2 where "s2 = s\<lparr>as_capable := True, as_minimum := Some (ak_acked_group_id ack, ak_acked_object_id ack)\<rparr>"
            define s1 where "s1 = s\<lparr>as_capable := True\<rparr>"
            show ?thesis
            proof (cases "as_minimum s")
              case None
              have "scanned track [c] s s2" using None g init unfolding scanned_def s2_def by (simp add: below_def one)
              from skip [OF this] show ?thesis using a c cap ack part init None by (simp add: s2_def Let_def)
            next
              case m: (Some gm)
              obtain m where gm: "as_minimum s = Some (0, m)" using m Cons.prems(3) by (cases gm) auto
              show ?thesis
              proof (cases "ak_acked_object_id ack < m")
                case True
                then have "scanned track [c] s s2" using gm g init unfolding scanned_def s2_def by (auto simp: below_def one)
                from skip [OF this] show ?thesis using a c cap ack part init gm True by (simp add: s2_def Let_def)
              next
                case False
                then have "scanned track [c] s s1" using gm g init unfolding scanned_def s1_def by (auto simp: below_def one)
                from skip [OF this] show ?thesis using a c cap ack part init gm False g by (simp add: s1_def Let_def)
              qed
            qed
          qed
        qed
      qed
    qed
  qed
qed

section \<open>The release\<close>

definition with_released :: "nat \<Rightarrow> sent_cache \<Rightarrow> 's endpoint \<Rightarrow> 's endpoint" where
  "with_released n cache t = t\<lparr>en_sent_cache := cache, en_stats := (en_stats t)
     \<lparr>pu_cache_releases := sz_add (pu_cache_releases (en_stats t)) n\<rparr>\<rparr>"

definition swept :: "moq_track_id \<Rightarrow> 's endpoint \<Rightarrow> 's endpoint \<Rightarrow> bool" where
  "swept track t t' \<longleftrightarrow> (\<exists>n cache. (t' = t \<or> t' = with_released n cache t) \<and> cache_inv (en_sent_cache t') \<and>
     sc_entries (en_sent_cache t') = map (\<lambda>e. if releasable track (members t) e then zero_entry else e) (sc_entries (en_sent_cache t)))"

lemma nothing_swept:
  assumes "cache_inv (en_sent_cache t)" "\<And>e. \<not> releasable track (members t) e"
  shows "swept track t t"
  using assms by (auto simp: swept_def)

lemma release_acked_swept:
  assumes inv: "cache_inv (en_sent_cache t)" and tables: "tables_ok (members t)" and groups: "single_group track (members t)"
  shows "\<exists>t'. release_acked_checkpoints track t = Some t' \<and> swept track t t'"
proof -
  define s0 where "s0 = \<lparr>as_capable = False, as_legacy = False, as_minimum = None\<rparr>"
  let ?r = "scan_acks track (members t) s0"
  have r: "scan_result track (members t) s0 ?r"
    by (rule scan_acks_result [OF tables groups]) (simp add: s0_def)
  then obtain x where x: "?r = Some x" by (cases ?r) (auto simp: scan_result_def)
  show ?thesis
  proof (cases x)
    case None
    then obtain ack where "participant track (members t) ack" "\<not> ak_acked_initialized ack"
      using r x by (auto simp: scan_result_def)
    then have "swept track t t" by (intro nothing_swept [OF inv]) (auto simp: releasable_def acknowledges_def)
    then show ?thesis using x None by (simp add: release_acked_checkpoints_def flip: s0_def)
  next
    case (Some s)
    have s: "scanned track (members t) s0 s" using r x Some by (simp add: scan_result_def)
    show ?thesis
    proof (cases "as_legacy s")
      case True
      then have "legacy track (members t)" using s by (simp add: scanned_def s0_def)
      then have "swept track t t" by (intro nothing_swept [OF inv]) (auto simp: releasable_def)
      then show ?thesis using x Some True by (simp add: release_acked_checkpoints_def flip: s0_def)
    next
      case no: False
      then have nl: "\<not> legacy track (members t)" using s by (simp add: scanned_def s0_def)
      show ?thesis
      proof (cases "as_capable s")
        case cap: True
        then obtain m where m: "as_minimum s = Some (0, m)"
          using s by (cases "as_minimum s") (auto simp: scanned_def s0_def)
        have rel: "releasable track (members t) e \<longleftrightarrow> se_data e \<noteq> None \<and> sent_track_equal (se_track_id e) track \<and>
            se_group_id e = 0 \<and> se_object_id e \<le> m" for e
        proof -
          have le: "x \<le> m \<longleftrightarrow> (\<forall>ack. participant track (members t) ack \<longrightarrow> x \<le> ak_acked_object_id ack)" for x
            using s m unfolding scanned_def below_def s0_def by auto
          have "(\<forall>ack. participant track (members t) ack \<longrightarrow> ak_acked_initialized ack \<and> ak_acked_group_id ack = 0)"
            using s groups unfolding scanned_def single_group_def by blast
          moreover have "\<exists>ack. participant track (members t) ack" using s cap by (simp add: scanned_def s0_def)
          ultimately show ?thesis unfolding releasable_def acknowledges_def le using nl by metis
        qed
        obtain n cache where c: "transport_sent_cache_release_through (en_sent_cache t) track 0 m = (n, cache)" by fastforce
        have "swept track t (with_released n cache t)"
          using sent_cache_release_exact [OF inv c] unfolding swept_def rel by (auto simp: with_released_def)
        then show ?thesis using x Some no cap m c
          by (simp add: release_acked_checkpoints_def with_released_def flip: s0_def)
      next
        case cap: False
        then have none: "\<not> participant track (members t) ack" for ack using s by (simp add: scanned_def)
        have rel: "releasable track (members t) e \<longleftrightarrow> se_data e \<noteq> None \<and> sent_track_equal (se_track_id e) track" for e
          by (simp add: releasable_def nl none)
        obtain n cache where c: "transport_sent_cache_release_track (en_sent_cache t) track = (n, cache)" by fastforce
        have "swept track t (with_released n cache t)"
          using release_loop_result [OF inv c [unfolded transport_sent_cache_release_track_def]]
          unfolding swept_def rel by (auto simp: with_released_def)
        then show ?thesis using x Some no cap c
          by (simp add: release_acked_checkpoints_def with_released_def flip: s0_def)
      qed
    qed
  qed
qed

section \<open>Runs\<close>

lemma remove_returns:
  assumes "sound ack_groups_zero t" "i < length (members t)" "members t ! i = Some c0" "ack_groups_zero c"
    "\<forall>s \<in> set ss. ts_active s \<longrightarrow> transport_checkpoint_ack c (ts_alias s) \<noteq> None"
  shows "\<exists>t'. remove_subscriptions i ss c t = Some t' \<and> stays ack_groups_zero t t'"
  using assms
proof (induction ss arbitrary: c c0 t)
  case Nil
  then show ?case by (simp add: stays_refl)
next
  case (Cons s ss)
  show ?case
  proof (cases "ts_active s")
    case False
    then show ?thesis using Cons.IH [OF Cons.prems(1-4)] Cons.prems(5) by simp
  next
    case True
    then obtain old where old: "transport_checkpoint_ack c (ts_alias s) = Some old" using Cons.prems(5) by auto
    show ?thesis
    proof (cases "ak_participating old")
      case False
      then show ?thesis using Cons.IH [OF Cons.prems(1-4)] Cons.prems(5) True old by simp
    next
      case part: True
      let ?c = "put_ack c (ts_alias s) zero_ack"
      have c: "ack_groups_zero ?c" and st: "stays ack_groups_zero t (put_member i ?c t)"
        by (rule groups.put_ack_stays [OF Cons.prems(1-4)], rule ack_step.cleared)+
      obtain t1 where t1: "release_acked_checkpoints (ts_track_id s) (put_member i ?c t) = Some t1"
        "stays ack_groups_zero (put_member i ?c t) t1"
        using groups.release_returns [OF stays_sound [OF st]] by blast
      have all: "stays ack_groups_zero t t1" by (rule stays_trans [OF st t1(2)])
      have i': "i < length (members t1)" using Cons.prems(2) stays_length [OF all] by simp
      have "map (\<lambda>c. c = None) (members t1) ! i = map (\<lambda>c. c = None) (members t) ! i" using all by (simp add: stays_def)
      then obtain c1 where c1: "members t1 ! i = Some c1" using Cons.prems(2,3) i' by auto
      have "\<forall>s' \<in> set ss. ts_active s' \<longrightarrow> transport_checkpoint_ack ?c (ts_alias s') \<noteq> None" using Cons.prems(5) old by auto
      from Cons.IH [OF stays_sound [OF all] i' c1 c this] obtain t' where
        "remove_subscriptions i ss ?c t1 = Some t'" "stays ack_groups_zero t1 t'" by blast
      then show ?thesis using True old part t1(1) stays_trans [OF all] by simp
    qed
  qed
qed

lemma entry_has_ack:
  assumes "subs_inv (pe_table c)"
  shows "\<forall>s \<in> set (tb_entries (pe_table c)). ts_active s \<longrightarrow> transport_checkpoint_ack c (ts_alias s) \<noteq> None"
proof (intro ballI impI)
  fix s assume "s \<in> set (tb_entries (pe_table c))" "ts_active s"
  then obtain i where "live (tb_entries (pe_table c)) i" "tb_entries (pe_table c) ! i = s"
    by (auto simp: live_def in_set_conv_nth)
  then have "tb_states (pe_table c) (ts_alias s) \<noteq> None" using inv_state [OF assms] by blast
  then show "transport_checkpoint_ack c (ts_alias s) \<noteq> None"
    by (simp add: transport_checkpoint_ack_def transport_subscriptions_get_state_def)
qed

text \<open>New subscriptions start unacknowledged.\<close>

definition states_from :: "subscription_table \<Rightarrow> subscription_table \<Rightarrow> bool" where
  "states_from tb tb' \<longleftrightarrow> (\<forall>a x. tb_states tb' a = Some x \<longrightarrow> tb_states tb a = Some x \<or> ss_checkpoint_ack x = zero_ack)"

lemma ensure_states_from: "states_from tb (snd (ensure_initialized k tb))"
  by (auto simp: states_from_def ensure_initialized_def transport_subscriptions_init_def transport_subscriptions_destroy_def empty_table_def)

lemma add_states_from:
  assumes "subs_inv tb" and "transport_subscriptions_add k k' tb ty fl name a = (ok, tb')"
  shows "states_from tb tb'"
proof -
  note e = ensure_states_from [of tb k, unfolded states_from_def]
  have fresh: "ss_checkpoint_ack (fresh_state g) = zero_ack" for g by (simp add: fresh_state_def)
  have inv: "subs_inv (snd (ensure_initialized k tb))" using assms(1) by (rule ensure_inv)
  show ?thesis using assms(2)
  proof (cases rule: add_cases)
    case refused
    then show ?thesis using ensure_states_from by simp
  next
    case (updated tb1 i)
    show ?thesis
    proof (cases "ts_alias (tb_entries tb1 ! i) = a")
      case True
      then show ?thesis using e updated by (simp add: states_from_def)
    next
      case False
      note m = move_alias_states [OF inv [folded updated(2)] updated(3) False]
      show ?thesis using e [folded updated(2)] False fresh unfolding states_from_def updated(7) by (auto simp: m split: if_splits)
    qed
  next
    case (added tb1 i entry)
    then show ?thesis using e fresh by (auto simp: states_from_def split: if_splits)
  qed
qed

lemma states_from_groups:
  assumes "ack_groups_zero c" "states_from (pe_table c) tb" "subs_inv tb"
  shows "ack_groups_zero (put_table tb c)"
  using assms
  by (fastforce simp: ack_groups_zero_def peer_table_ok_def put_table_def states_from_def transport_checkpoint_ack_def
      transport_subscriptions_get_state_def zero_ack_def)

text \<open>
  What happens to the connections of a publisher: they come and go, subscribe and unsubscribe,
  acknowledge, and are published to.
\<close>

inductive checkpoint_run :: "'s endpoint \<Rightarrow> bool" where
  start: "members t = [] \<Longrightarrow> endpoint_ok t \<Longrightarrow> checkpoint_run t"
| accepted: "checkpoint_run t \<Longrightarrow> en_is_server t \<Longrightarrow> transport_subscriptions_init True empty_table n = (True, pe_table c) \<Longrightarrow>
    checkpoint_run (t\<lparr>en_conns := en_conns t @ [Some c]\<rparr>)"
| connected: "checkpoint_run t \<Longrightarrow> \<not> en_is_server t \<Longrightarrow> transport_subscriptions_init True empty_table n = (True, pe_table c) \<Longrightarrow>
    checkpoint_run (t\<lparr>en_client := Some c\<rparr>)"
| removed: "checkpoint_run t \<Longrightarrow> i < length (members t) \<Longrightarrow> members t ! i = Some c \<Longrightarrow>
    transport_publish_checkpoint_connection_removed i c t = Some t1 \<Longrightarrow>
    t' = (if en_is_server t1 then t1\<lparr>en_conns := take i (en_conns t1) @ drop (Suc i) (en_conns t1)\<rparr> else t1\<lparr>en_client := None\<rparr>) \<Longrightarrow>
    checkpoint_run t'"
| subscribed: "checkpoint_run t \<Longrightarrow> i < length (members t) \<Longrightarrow> members t ! i = Some c \<Longrightarrow>
    transport_subscriptions_add k k' (pe_table c) (ti_type track) (ti_flags track) (ti_name track) a = (True, tb) \<Longrightarrow>
    transport_publish_checkpoint_member_added env i (put_table tb c) track a t = (c', t') \<Longrightarrow> checkpoint_run t'"
| unsubscribed: "checkpoint_run t \<Longrightarrow> i < length (members t) \<Longrightarrow> members t ! i = Some c \<Longrightarrow>
    transport_publish_checkpoint_member_removed i c track a t = Some t1 \<Longrightarrow> members t1 ! i = Some c1 \<Longrightarrow>
    transport_subscriptions_remove (pe_table c1) (ti_type track) (ti_name track) = (tb, st) \<Longrightarrow>
    checkpoint_run (put_member i (put_table tb c1) t1)"
| acknowledged: "checkpoint_run t \<Longrightarrow> i < length (members t) \<Longrightarrow> members t ! i = Some c \<Longrightarrow>
    transport_checkpoint_ack c (ca_alias w) \<noteq> None \<Longrightarrow>
    transport_publish_checkpoint_acked now i c w track t = Some (ok, t') \<Longrightarrow> checkpoint_run t'"
| published: "checkpoint_run t \<Longrightarrow> transport_publish_ex env tm ob t = Some (r, t') \<Longrightarrow> checkpoint_run t'"
| flushed: "checkpoint_run t \<Longrightarrow> transport_publish_flush_grouped env t = Some (ok, t') \<Longrightarrow> checkpoint_run t'"
| finished: "checkpoint_run t \<Longrightarrow> transport_finish_track env track t = Some (ok, t') \<Longrightarrow> checkpoint_run t'"

lemma empty_table_groups:
  assumes "transport_subscriptions_init True empty_table n = (True, pe_table c)"
  shows "ack_groups_zero c"
proof -
  have "subs_inv empty_table" by (simp add: subs_inv_def empty_table_def)
  from init_inv [OF this, of True n] have "subs_inv (pe_table c)" using assms by simp
  moreover have "tb_states (pe_table c) a = None" for a
    using arg_cong [OF assms, of "\<lambda>x. tb_states (snd x) a"]
    by (auto simp: transport_subscriptions_init_def transport_subscriptions_destroy_def empty_table_def split: if_splits)
  ultimately show ?thesis by (simp add: ack_groups_zero_def peer_table_ok_def transport_checkpoint_ack_def transport_subscriptions_get_state_def)
qed

definition run_ok :: "'s endpoint \<Rightarrow> bool" where
  "run_ok t \<longleftrightarrow> sound ack_groups_zero t \<and> None \<notin> set (members t)"

lemma run_okD: "run_ok t \<Longrightarrow> sound ack_groups_zero t"
  by (simp add: run_ok_def)

lemma run_ok_stays: "run_ok t \<Longrightarrow> stays ack_groups_zero t t' \<Longrightarrow> run_ok t'"
  using stays_None by (auto simp: run_ok_def stays_def)

lemma run_ok_returned: "run_ok t \<Longrightarrow> \<exists>x t'. f = Some (x, t') \<and> stays ack_groups_zero t t' \<Longrightarrow> f = Some (y, t'') \<Longrightarrow> run_ok t''"
  using run_ok_stays by auto

lemma run_ok_join:
  assumes "run_ok t" "set (members t') \<subseteq> insert (Some c) (set (members t))" "endpoint_ok t'" "ack_groups_zero c"
  shows "run_ok t'"
  using assms unfolding run_ok_def sound_def by blast

lemma checkpoint_run_ok: "checkpoint_run t \<Longrightarrow> run_ok t"
proof (induction rule: checkpoint_run.induct)
  case (start t)
  then show ?case by (simp add: run_ok_def sound_def)
next
  case (accepted t n c)
  have "set (members (t\<lparr>en_conns := en_conns t @ [Some c]\<rparr>)) \<subseteq> insert (Some c) (set (members t))"
    using accepted.hyps(2) by (auto simp: members_def)
  moreover have "endpoint_ok (t\<lparr>en_conns := en_conns t @ [Some c]\<rparr>)" using accepted.IH by (simp add: run_ok_def sound_def endpoint_ok_def)
  ultimately show ?case by (rule run_ok_join [OF accepted.IH _ _ empty_table_groups [OF accepted.hyps(3)]])
next
  case (connected t n c)
  have "set (members (t\<lparr>en_client := Some c\<rparr>)) \<subseteq> insert (Some c) (set (members t))"
    using connected.hyps(2) by (auto simp: members_def)
  moreover have "endpoint_ok (t\<lparr>en_client := Some c\<rparr>)" using connected.IH by (simp add: run_ok_def sound_def endpoint_ok_def)
  ultimately show ?case by (rule run_ok_join [OF connected.IH _ _ empty_table_groups [OF connected.hyps(3)]])
next
  case (removed t i c t1 t')
  note s = run_okD [OF removed.IH]
  have c: "ack_groups_zero c" by (rule sound_member [OF s removed.hyps(2,3)])
  then have "subs_inv (pe_table c)" by (simp add: ack_groups_zero_def peer_table_ok_def)
  from remove_returns [OF s removed.hyps(2,3) c entry_has_ack [OF this]]
  obtain t2 where "remove_subscriptions i (tb_entries (pe_table c)) c t = Some t2" "stays ack_groups_zero t t2" by blast
  then have t1: "run_ok t1"
    using removed.hyps(4) run_ok_stays [OF removed.IH] unfolding transport_publish_checkpoint_connection_removed_def by simp
  have "set (members t') \<subseteq> set (members t1)"
    unfolding removed.hyps(5) using set_take_subset [of i "en_conns t1"] set_drop_subset [of "Suc i" "en_conns t1"]
    by (simp add: members_def)
  moreover have "endpoint_ok t'" using t1 removed.hyps(5) by (simp add: run_ok_def sound_def endpoint_ok_def)
  ultimately show ?case using t1 by (auto simp: run_ok_def sound_def)
next
  case (subscribed t i c k k' track a tb env c' t')
  note s = run_okD [OF subscribed.IH]
  have c: "ack_groups_zero c" by (rule sound_member [OF s subscribed.hyps(2,3)])
  then have inv: "subs_inv (pe_table c)" by (simp add: ack_groups_zero_def peer_table_ok_def)
  have "subs_inv tb" using add_inv [OF inv, of k k' "ti_type track" "ti_flags track" "ti_name track" a] subscribed.hyps(4) by simp
  then have "ack_groups_zero (put_table tb c)"
    by (rule states_from_groups [OF c add_states_from [OF inv subscribed.hyps(4)]])
  from groups.member_added_stays [OF s subscribed.hyps(2,3) this subscribed.hyps(5)] show ?case
    using run_ok_stays [OF subscribed.IH] by blast
next
  case (unsubscribed t i c track a t1 c1 tb st)
  note s = run_okD [OF unsubscribed.IH]
  have c: "ack_groups_zero c" by (rule sound_member [OF s unsubscribed.hyps(2,3)])
  have t1: "stays ack_groups_zero t t1"
    using groups.removed_returns [OF s unsubscribed.hyps(2,3) c, of track a] unfolding unsubscribed.hyps(4) by simp
  have i': "i < length (members t1)" using unsubscribed.hyps(2) stays_length [OF t1] by simp
  have c1: "ack_groups_zero c1" by (rule sound_member [OF stays_sound [OF t1] i' unsubscribed.hyps(5)])
  then have inv: "subs_inv (pe_table c1)" by (simp add: ack_groups_zero_def peer_table_ok_def)
  have "states_from (pe_table c1) tb" using unsubscribed.hyps(6)
    by (cases rule: remove_cases) (auto simp: states_from_def split: if_splits)
  moreover have "subs_inv tb" using remove_inv [OF inv unsubscribed.hyps(6)] by blast
  ultimately have "ack_groups_zero (put_table tb c1)" by (rule states_from_groups [OF c1])
  from stays_put [OF stays_sound [OF t1] unsubscribed.hyps(5) i' this] show ?case
    using run_ok_stays [OF run_ok_stays [OF unsubscribed.IH t1]] by blast
next
  case (acknowledged t i c w now track ok t')
  show ?case by (rule run_ok_returned [OF acknowledged.IH groups.acked_returns [OF run_okD [OF acknowledged.IH] acknowledged.hyps(2,3,4)] acknowledged.hyps(5)])
next
  case (published t env tm ob r t')
  have "None \<notin> set (members t)" using published.IH by (simp add: run_ok_def)
  from run_ok_returned [OF published.IH groups.publish_ex_returns [OF run_okD [OF published.IH] this] published.hyps(2)] show ?case .
next
  case (flushed t env ok t')
  from flushed.hyps(2) obtain r where f: "transport_publish_flush_grouped_ex env t = Some (r, t')" by (auto simp: transport_publish_flush_grouped_def)
  show ?case by (rule run_ok_returned [OF flushed.IH groups.flush_returns [OF run_okD [OF flushed.IH]] f])
next
  case (finished t env track ok t')
  show ?case by (rule run_ok_returned [OF finished.IH groups.finish_track_returns [OF run_okD [OF finished.IH]] finished.hyps(2)])
qed

section \<open>Properties\<close>

lemma sound_facts:
  assumes s: "sound ack_groups_zero t"
  shows "cache_inv (en_sent_cache t)" "tables_ok (members t)" "single_group track (members t)"
proof -
  show "cache_inv (en_sent_cache t)" using s by (simp add: sound_def endpoint_ok_def)
  show "tables_ok (members t)" using s by (auto simp: tables_ok_def sound_def ack_groups_zero_def peer_table_ok_def)
  show "single_group track (members t)"
    using s by (auto simp: single_group_def participant_def subscriber_def sound_def ack_groups_zero_def)
qed

lemma sound_release:
  assumes s: "sound ack_groups_zero t"
  shows "\<exists>t'. release_acked_checkpoints track t = Some t' \<and> members t' = members t \<and> cache_inv (en_sent_cache t') \<and>
    sc_entries (en_sent_cache t') = map (\<lambda>e. if releasable track (members t) e then zero_entry else e) (sc_entries (en_sent_cache t))"
proof -
  obtain t' where t': "release_acked_checkpoints track t = Some t'" "swept track t t'"
    using release_acked_swept [OF sound_facts(1,2) sound_facts(3)] s by blast
  then have "members t' = members t" by (auto simp: swept_def with_released_def)
  then show ?thesis using t' by (auto simp: swept_def)
qed

text \<open>
  C16. Retained objects are released exactly when every subscriber has acknowledged them. In every state
  that connecting, subscribing, publishing, acknowledging and leaving can produce, the release always
  returns, leaves everything but the cache and a counter alone, and clears precisely the retained
  objects of the track that every participating subscriber acknowledged, none at all while a
  subscriber that knows no checkpoints is there.
\<close>

theorem checkpoint_release_exact:
  assumes "checkpoint_run t"
  shows "\<exists>t'. release_acked_checkpoints track t = Some t' \<and> members t' = members t \<and> cache_inv (en_sent_cache t') \<and>
    sc_entries (en_sent_cache t') = map (\<lambda>e. if releasable track (members t) e then zero_entry else e) (sc_entries (en_sent_cache t))"
  by (rule sound_release [OF run_okD [OF checkpoint_run_ok [OF assms]]])

text \<open>
  C17. A checkpoint acknowledgement counts only within what was announced. In every reachable state the
  handler returns; it refuses, without changing anything, an acknowledgement of a peer that does not
  take part, of another group or of an object beyond the last announced one; and an accepted one
  updates the record of that peer alone, after which exactly the objects that all participants have
  now acknowledged leave the cache.
\<close>

definition acceptable :: "'s peer \<Rightarrow> checkpoint_ack_state \<Rightarrow> wire_track_checkpoint_ack \<Rightarrow> bool" where
  "acceptable c state w \<longleftrightarrow> is_capable c \<and> ak_participating state \<and> ak_sent_initialized state \<and>
     ca_group_id w = ak_sent_group_id state \<and> ca_final_object_id w \<le> ak_sent_object_id state"

theorem checkpoint_ack_exact:
  assumes run: "checkpoint_run t" and i: "i < length (members t)" "members t ! i = Some c"
    and state: "transport_checkpoint_ack c (ca_alias w) = Some state"
    and c': "c' = put_ack c (ca_alias w) (acked_state now state (ca_group_id w) (ca_final_object_id w))"
  shows "\<exists>t'. transport_publish_checkpoint_acked now i c w track t = Some (acceptable c state w, t') \<and>
    (\<not> acceptable c state w \<longrightarrow> t' = t) \<and>
    (acceptable c state w \<longrightarrow> members t' = (members t)[i := Some c'] \<and> sc_entries (en_sent_cache t') =
      map (\<lambda>e. if releasable track (members t') e then zero_entry else e) (sc_entries (en_sent_cache t)))"
proof (cases "acceptable c state w")
  case False
  then show ?thesis using state by (auto simp: groups.acked_form acceptable_def)
next
  case True
  note s = run_okD [OF checkpoint_run_ok [OF run]]
  have st: "stays ack_groups_zero t (put_member i c' t)"
    unfolding c' using True state
    by (intro groups.put_ack_stays(2) [OF s i sound_member [OF s i]]) (auto simp: acceptable_def intro: ack_step.acked)
  obtain t' where t': "release_acked_checkpoints track (put_member i c' t) = Some t'" "members t' = members (put_member i c' t)"
    "sc_entries (en_sent_cache t') = map (\<lambda>e. if releasable track (members (put_member i c' t)) e then zero_entry else e)
       (sc_entries (en_sent_cache (put_member i c' t)))"
    using sound_release [OF stays_sound [OF st]] by blast
  have "en_sent_cache (put_member i c' t) = en_sent_cache t" by (simp add: put_member_def)
  moreover have "transport_publish_checkpoint_acked now i c w track t = Some (True, t')"
    using True state t'(1) by (auto simp: groups.acked_form acceptable_def c')
  ultimately show ?thesis using True t'(2,3) i by simp
qed

text \<open>
  C18. The publisher always answers: in every reachable state publishing an object or a record,
  flushing the pending group and finishing a track return, so that no NULL connection or missing
  subscription state is ever dereferenced and every loop ends.
\<close>

theorem publisher_always_returns:
  assumes "checkpoint_run t"
  shows "transport_publish_ex env tm ob t \<noteq> None \<and> transport_publish_flush_grouped env t \<noteq> None \<and>
    transport_finish_track env track t \<noteq> None"
proof -
  note r = checkpoint_run_ok [OF assms]
  note s = run_okD [OF r]
  have n: "None \<notin> set (members t)" using r by (simp add: run_ok_def)
  show ?thesis
    using groups.publish_ex_returns [OF s n, of env tm ob] groups.flush_returns [OF s, of env]
      groups.finish_track_returns [OF s, of env track] by (auto simp: transport_publish_flush_grouped_def)
qed

text \<open>The sample publisher: one subscriber that acknowledged through object five.\<close>

lemma example_run: "checkpoint_run subscribed_endpoint"
proof -
  have "checkpoint_run example_endpoint"
    by (rule checkpoint_run.start [OF _ example_endpoint_ok]) (simp add: example_endpoint_def members_def)
  then have "checkpoint_run (example_endpoint\<lparr>en_conns := en_conns example_endpoint @ [Some example_peer]\<rparr>)"
    by (rule checkpoint_run.accepted [where n = 1])
      (simp_all add: example_endpoint_def example_peer_def example_table_def transport_subscriptions_init_def)
  then have run: "checkpoint_run (example_endpoint\<lparr>en_conns := [Some example_peer]\<rparr>)" by (simp add: example_endpoint_def)
  have m: "members (example_endpoint\<lparr>en_conns := [Some example_peer]\<rparr>) = [Some example_peer]" by (simp add: members_def example_endpoint_def)
  have "transport_subscriptions_add True True (pe_table example_peer) (ti_type data_track) (ti_flags data_track) (ti_name data_track) 9
      = (True, joined_table)"
    using example_subscribe by (simp add: example_peer_def data_track_def)
  then show ?thesis using checkpoint_run.subscribed [OF run _ _ _ example_joined] m by simp
qed

lemma example_members: "members subscribed_endpoint = [Some subscribed_peer]"
  unfolding subscribed_endpoint_def members_other by (simp add: members_def example_endpoint_def)

lemma example_subscriber:
  "subscriber data_track (members subscribed_endpoint) c a \<longleftrightarrow> c = subscribed_peer \<and> a = 9" "is_capable subscribed_peer"
  "transport_checkpoint_ack subscribed_peer 9 = Some (baseline_ack 0 5)"
proof -
  note m = example_members
  have t: "tb_entries (pe_table subscribed_peer) = tb_entries joined_table"
    by (simp add: subscribed_peer_def put_ack_def put_table_def)
  have "transport_subscriptions_find_alias (pe_table subscribed_peer) data_track = Some 9"
    by (simp add: transport_subscriptions_find_alias_def t joined_table_def track_matches_def strcmp_eq_def)
  then show "subscriber data_track (members subscribed_endpoint) c a \<longleftrightarrow> c = subscribed_peer \<and> a = 9"
    using m by (auto simp: subscriber_def)
  show "is_capable subscribed_peer" by (simp add: is_capable_def subscribed_peer_def put_ack_def put_table_def example_peer_def)
  show "transport_checkpoint_ack subscribed_peer 9 = Some (baseline_ack 0 5)"
    by (simp add: subscribed_peer_def transport_checkpoint_ack_def transport_subscriptions_get_state_def put_ack_def put_table_def
      joined_table_def)
qed

lemma example_releasable:
  "releasable data_track (members subscribed_endpoint) (retained n) \<longleftrightarrow> n \<le> 5"
proof -
  have "participant data_track (members subscribed_endpoint) ack \<longleftrightarrow> ack = baseline_ack 0 5" for ack
    unfolding participant_def example_subscriber(1) using example_subscriber(2,3)
    by (auto simp: baseline_ack_def zero_participating_def)
  moreover have "\<not> legacy data_track (members subscribed_endpoint)" unfolding legacy_def example_subscriber(1) using example_subscriber(2) by simp
  ultimately show ?thesis
    by (simp add: releasable_def retained_def acknowledges_def baseline_ack_def zero_entry_def sent_track_equal_refl)
qed

theorem checkpoint_release_exact_witness:
  "\<exists>t'. release_acked_checkpoints data_track subscribed_endpoint = Some t' \<and> sc_entries (en_sent_cache t') = [zero_entry, retained 7]"
proof -
  have "sc_entries (en_sent_cache subscribed_endpoint) = [retained 3, retained 7]"
    by (simp add: subscribed_endpoint_def count_checkpoint_def example_endpoint_def)
  then show ?thesis using checkpoint_release_exact [OF example_run, of data_track] by (auto simp: example_releasable)
qed

definition example_checkpoint_ack :: "u64 \<Rightarrow> wire_track_checkpoint_ack" where
  "example_checkpoint_ack n = \<lparr>ca_alias = 9, ca_group_id = 0, ca_final_object_id = n\<rparr>"

theorem checkpoint_ack_exact_witness:
  "transport_publish_checkpoint_acked 3 0 subscribed_peer (example_checkpoint_ack 6) data_track subscribed_endpoint =
     Some (False, subscribed_endpoint)
   \<and> (\<exists>t'. transport_publish_checkpoint_acked 3 0 subscribed_peer (example_checkpoint_ack 5) data_track subscribed_endpoint =
     Some (True, t'))"
proof -
  have i: "0 < length (members subscribed_endpoint)" "members subscribed_endpoint ! 0 = Some subscribed_peer"
    by (simp_all add: example_members)
  have st: "transport_checkpoint_ack subscribed_peer (ca_alias (example_checkpoint_ack n)) = Some (baseline_ack 0 5)" for n
    using example_subscriber(3) by (simp add: example_checkpoint_ack_def)
  have "\<not> acceptable subscribed_peer (baseline_ack 0 5) (example_checkpoint_ack 6)"
    "acceptable subscribed_peer (baseline_ack 0 5) (example_checkpoint_ack 5)"
    using example_subscriber(2) by (simp_all add: acceptable_def baseline_ack_def example_checkpoint_ack_def zero_participating_def)
  then show ?thesis
    using checkpoint_ack_exact [OF example_run i st refl, of 3 6 data_track]
      checkpoint_ack_exact [OF example_run i st refl, of 3 5 data_track] by auto
qed

theorem publisher_always_returns_witness:
  "transport_publish_ex example_publish_env 1 \<lparr>ob_track_id = data_track, ob_group_id = 0, ob_object_id = 6,
     ob_data = Some \<lparr>pl_address = 64, pl_bytes = [1, 2]\<rparr>, ob_is_keyframe = False, ob_priority = 0\<rparr> subscribed_endpoint \<noteq> None \<and>
   transport_publish_flush_grouped example_publish_env subscribed_endpoint \<noteq> None \<and>
   transport_finish_track example_publish_env data_track subscribed_endpoint \<noteq> None"
  by (rule publisher_always_returns [OF example_run])

end
