(* ===== verification/Application.thy ===== *)
theory Application
  imports Grouping
begin

text \<open>
  The receiving and sending side of the command line application (src/app/main.c): received objects are
  put in order in a window of 256, the records are taken out of them and written to the output file.
  \<open>fwrite\<close> and \<open>malloc\<close> are parameters.
\<close>

abbreviation (input) "APP_REORDER_OBJECTS \<equiv> (256 :: nat)"
abbreviation (input) "APP_REORDER_MAX_BYTES \<equiv> (67108864 :: nat)"

section \<open>State\<close>

record reorder_entry =
  re_data :: bytes
  re_object_id :: u64
  re_active :: bool

definition zero_reorder :: reorder_entry where
  "zero_reorder = \<lparr>re_data = [], re_object_id = 0, re_active = False\<rparr>"

record app =
  ap_track :: moq_track_id
  ap_auth_token :: bytes
  ap_has_input :: bool
  ap_output :: "bytes option"
  ap_message_capacity :: nat
  ap_pending :: bytes
  ap_next_object_id :: u64
  ap_sent_records :: nat
  ap_received_records :: nat
  ap_received_bytes :: nat
  ap_count_limit :: nat
  ap_receive_limit :: nat
  ap_subscriptions :: nat
  ap_required_subscriptions :: nat
  ap_interval_ms :: int
  ap_next_send_at :: int
  ap_finished_at :: int
  ap_received_at :: int
  ap_is_server :: bool
  ap_input_eof :: bool
  ap_track_finished :: bool
  ap_failed :: bool
  ap_reorder_initialized :: bool
  ap_reorder_group_id :: u64
  ap_reorder_next_object_id :: u64
  ap_reorder_bytes :: nat
  ap_reorder :: "reorder_entry list"

text \<open>The output file is its contents; \<open>fwrite\<close> tells how many bytes of a block it wrote.\<close>

type_synonym writer = "bytes \<Rightarrow> bytes \<Rightarrow> nat"

definition app_fwrite :: "writer \<Rightarrow> bytes \<Rightarrow> app \<Rightarrow> bool \<times> app" where
  "app_fwrite wr block app = (case ap_output app of None \<Rightarrow> (True, app)
     | Some out \<Rightarrow> (wr out block = length block, app\<lparr>ap_output := Some (out @ take (wr out block) block)\<rparr>))"

definition count_record :: "nat \<Rightarrow> app \<Rightarrow> app" where
  "count_record n app = app\<lparr>ap_received_records := sz_add (ap_received_records app) 1,
     ap_received_bytes := sz_add (ap_received_bytes app) n\<rparr>"

section \<open>Writing the records of an object\<close>

definition carries_records :: "moq_track_id \<Rightarrow> bool" where
  "carries_records track \<longleftrightarrow> ti_type track = ucast MOQ_TRACK_DATA \<and>
     ti_flags track AND (MOQ_TRACK_FLAG_FEC_ENABLED OR MOQ_TRACK_FLAG_FEC_RATELESS) \<noteq> 0"

fun write_records :: "writer \<Rightarrow> bytes \<Rightarrow> app \<Rightarrow> bool \<times> app" where
  "write_records wr data app =
     (if data = [] then (True, app)
      else if length data < 2 then (False, app)
      else let n = unat (read_u16 data); rest = drop 2 data in
        if n = 0 \<or> n > length rest then (False, app)
        else case app_fwrite wr (take n rest) app of
          (False, app) \<Rightarrow> (False, app)
        | (True, app) \<Rightarrow> write_records wr (drop n rest) (count_record n app))"

declare write_records.simps [simp del]

definition write_payload :: "writer \<Rightarrow> int \<Rightarrow> moq_track_id \<Rightarrow> bytes \<Rightarrow> app \<Rightarrow> bool \<times> app" where
  "write_payload wr now track data app =
     (let (ok, app) = (if carries_records track then write_records wr data app
        else let (ok, app) = (if data \<noteq> [] then app_fwrite wr data app else (True, app)) in
          if ok then (True, count_record (length data) app) else (False, app)) in
      if \<not> ok then (False, app)
      else if ap_receive_limit app \<noteq> 0 \<and> ap_received_records app \<ge> ap_receive_limit app \<and> ap_received_at app = 0
      then (True, app\<lparr>ap_received_at := now\<rparr>)
      else (True, app))"

section \<open>The reorder window\<close>

text \<open>The array has 256 entries and the slots are taken modulo 256; beyond it nothing is active.\<close>

definition reorder_slot :: "app \<Rightarrow> nat \<Rightarrow> reorder_entry" where
  "reorder_slot app i = (if i < length (ap_reorder app) then ap_reorder app ! i else zero_reorder)"

definition object_slot :: "u64 \<Rightarrow> nat" where
  "object_slot object_id = unat object_id mod APP_REORDER_OBJECTS"

definition write_out_slot :: "nat \<Rightarrow> app \<Rightarrow> app" where
  "write_out_slot i app = app\<lparr>ap_reorder_bytes := sz_sub (ap_reorder_bytes app) (length (re_data (reorder_slot app i))),
     ap_reorder := (ap_reorder app)[i := zero_reorder], ap_reorder_next_object_id := ap_reorder_next_object_id app + 1\<rparr>"

lemma fwrite_keeps: "app_fwrite wr b app = (ok, app') \<Longrightarrow> ap_reorder app' = ap_reorder app"
  by (auto simp: app_fwrite_def split: option.splits)

lemma write_records_keeps: "write_records wr data app = (ok, app') \<Longrightarrow> ap_reorder app' = ap_reorder app"
proof (induction wr data app rule: write_records.induct)
  case (1 wr data app)
  let ?n = "unat (read_u16 data)" and ?rest = "drop 2 data"
  show ?case
  proof (cases "data = [] \<or> length data < 2 \<or> ?n = 0 \<or> ?n > length ?rest")
    case True
    then show ?thesis using "1.prems" by (subst (asm) write_records.simps) (auto simp: Let_def split: if_splits)
  next
    case False
    obtain ok1 app1 where w: "app_fwrite wr (take ?n ?rest) app = (ok1, app1)" by (rule prod.exhaust)
    show ?thesis
    proof (cases ok1)
      case True
      have "write_records wr (drop ?n ?rest) (count_record ?n app1) = (ok, app')"
        using "1.prems" False w True by (subst (asm) write_records.simps) (simp add: Let_def)
      then have "ap_reorder app' = ap_reorder (count_record ?n app1)" using "1.IH" False w True by simp
      then show ?thesis using fwrite_keeps [OF w] by (simp add: count_record_def)
    next
      case no: False
      then show ?thesis using "1.prems" False w fwrite_keeps [OF w] by (subst (asm) write_records.simps) (simp add: Let_def)
    qed
  qed
qed

lemma write_payload_keeps: "write_payload wr now track data app = (ok, app') \<Longrightarrow> ap_reorder app' = ap_reorder app"
  by (auto simp: write_payload_def Let_def count_record_def split: if_splits prod.splits dest!: fwrite_keeps write_records_keeps)

function drain_objects :: "writer \<Rightarrow> int \<Rightarrow> moq_track_id \<Rightarrow> app \<Rightarrow> bool \<times> app" where
  "drain_objects wr now track app =
     (let slot = object_slot (ap_reorder_next_object_id app); entry = reorder_slot app slot in
      if \<not> re_active entry \<or> re_object_id entry \<noteq> ap_reorder_next_object_id app then (True, app)
      else case write_payload wr now track (re_data entry) app of
        (False, app) \<Rightarrow> (False, app)
      | (True, app) \<Rightarrow> drain_objects wr now track (write_out_slot slot app))"
  by auto
termination
proof (relation "measure (\<lambda>(wr, now, track, app). length (filter re_active (ap_reorder app)))", goal_cases)
  case 1
  show ?case by simp
next
  case (2 wr now track app slot entry a b)
  have b: "ap_reorder b = ap_reorder app" using write_payload_keeps [OF 2(4) [symmetric]] .
  have slot: "slot < length (ap_reorder app)" "re_active (ap_reorder app ! slot)"
    using 2(2,3) by (auto simp: reorder_slot_def zero_reorder_def split: if_splits)
  have "length (filter re_active (xs[i := zero_reorder])) < length (filter re_active xs)"
    if "i < length xs" "re_active (xs ! i)" for i and xs :: "reorder_entry list"
    using that by (induction xs arbitrary: i) (auto simp: zero_reorder_def Suc_le_eq split: nat.splits)
  from this [OF slot] show ?case by (simp add: write_out_slot_def b)
qed

declare drain_objects.simps [simp del]

record received_object =
  rx_track_id :: moq_track_id
  rx_group_id :: u64
  rx_object_id :: u64
  rx_data :: bytes

definition write_object :: "writer \<Rightarrow> int \<Rightarrow> bool \<Rightarrow> received_object \<Rightarrow> app \<Rightarrow> bool \<times> app" where
  "write_object wr now malloc_ok event app =
     (if \<not> carries_records (rx_track_id event) then write_payload wr now (rx_track_id event) (rx_data event) app
      else
       let app = (if \<not> ap_reorder_initialized app
             then app\<lparr>ap_reorder_initialized := True, ap_reorder_group_id := rx_group_id event, ap_reorder_next_object_id := 0\<rparr>
             else app) in
       if rx_group_id event \<noteq> ap_reorder_group_id app \<or> rx_object_id event < ap_reorder_next_object_id app
       then (rx_group_id event = ap_reorder_group_id app, app)
       else let distance = rx_object_id event - ap_reorder_next_object_id app in
       if unat distance \<ge> APP_REORDER_OBJECTS \<or> length (rx_data event) > sz_sub APP_REORDER_MAX_BYTES (ap_reorder_bytes app)
       then (False, app)
       else let slot = object_slot (rx_object_id event); entry = reorder_slot app slot in
       if re_active entry then (re_object_id entry = rx_object_id event, app)
       else if \<not> malloc_ok then (False, app)
       else drain_objects wr now (rx_track_id event) (app\<lparr>
          ap_reorder := (ap_reorder app)[slot := \<lparr>re_data = rx_data event, re_object_id = rx_object_id event, re_active = True\<rparr>],
          ap_reorder_bytes := sz_add (ap_reorder_bytes app) (length (rx_data event))\<rparr>))"

section \<open>Events of the transport\<close>

text \<open>
  What the handler asks of the transport is a result: an authentication to send, the answer to one, a
  subscription. \<open>ask\<close> tells which of these calls succeed.
\<close>

datatype app_event =
  Connected
| Auth bytes
| Auth_complete bool
| Subscribe moq_track_id
| Unsubscribe moq_track_id
| Object received_object
| Disconnected
| Object_lost
| Keyframe_request

datatype app_request = Send_auth bytes | Respond_auth bool | Subscribe_to moq_track_id

definition app_subscribe :: "(app_request \<Rightarrow> bool) \<Rightarrow> app \<Rightarrow> app \<times> app_request list" where
  "app_subscribe ask app = (app\<lparr>ap_failed := ap_failed app \<or> \<not> ask (Subscribe_to (ap_track app))\<rparr>, [Subscribe_to (ap_track app)])"

definition names_track :: "moq_track_id \<Rightarrow> app \<Rightarrow> bool" where
  "names_track track app \<longleftrightarrow> ti_type track = ti_type (ap_track app) \<and> strcmp_eq (ti_name track) (ti_name (ap_track app))"

definition on_event :: "writer \<Rightarrow> int \<Rightarrow> bool \<Rightarrow> (app_request \<Rightarrow> bool) \<Rightarrow> app_event \<Rightarrow> app \<Rightarrow> app \<times> app_request list" where
  "on_event wr now malloc_ok ask event app = (case event of
     Connected \<Rightarrow> if \<not> ap_is_server app
       then (app\<lparr>ap_failed := ap_failed app \<or> \<not> ask (Send_auth (ap_auth_token app))\<rparr>, [Send_auth (ap_auth_token app)])
       else (app, [])
   | Auth token \<Rightarrow> let accepted = (ap_is_server app \<and> token = ap_auth_token app);
         app = app\<lparr>ap_failed := ap_failed app \<or> \<not> ask (Respond_auth accepted)\<rparr> in
       if accepted then (let (app, asked) = app_subscribe ask app in (app, Respond_auth accepted # asked))
       else (app, [Respond_auth accepted])
   | Auth_complete success \<Rightarrow> if success then app_subscribe ask app else (app\<lparr>ap_failed := True\<rparr>, [])
   | Subscribe track \<Rightarrow> (if names_track track app then app\<lparr>ap_subscriptions := sz_add (ap_subscriptions app) 1\<rparr> else app, [])
   | Unsubscribe track \<Rightarrow> (if names_track track app \<and> ap_subscriptions app \<noteq> 0
       then app\<lparr>ap_subscriptions := ap_subscriptions app - 1\<rparr> else app, [])
   | Object ob \<Rightarrow> if names_track (rx_track_id ob) app
       then (let (ok, app) = write_object wr now malloc_ok ob app in (if ok then app else app\<lparr>ap_failed := True\<rparr>, []))
       else (app, [])
   | Disconnected \<Rightarrow> (app, []) | Object_lost \<Rightarrow> (app, []) | Keyframe_request \<Rightarrow> (app, []))"

section \<open>Sending the input\<close>

definition pending_object :: "app \<Rightarrow> moq_object" where
  "pending_object app = \<lparr>ob_track_id = ap_track app, ob_group_id = 0, ob_object_id = ap_next_object_id app,
     ob_data = Some \<lparr>pl_address = 0, pl_bytes = ap_pending app\<rparr>, ob_is_keyframe = False, ob_priority = 1\<rparr>"

text \<open>\<open>result\<close> is the answer of \<open>transport_publish_ex\<close> for the pending object.\<close>

definition publish_pending :: "int \<Rightarrow> publish_result \<Rightarrow> app \<Rightarrow> app" where
  "publish_pending now result app =
     (if ap_pending app = [] \<or> now < ap_next_send_at app then app
      else if result = BACKPRESSURE then app
      else if result = INVALID_OBJECT \<or> result = PUBLISH_ERROR \<or> result = PARTIAL then app\<lparr>ap_failed := True\<rparr>
      else app\<lparr>ap_pending := [], ap_next_object_id := ap_next_object_id app + 1,
         ap_sent_records := sz_add (ap_sent_records app) 1, ap_next_send_at := now + ap_interval_ms app\<rparr>)"

datatype read_result = Read_some bytes | Read_end | Read_later | Read_failed

definition load_input :: "bool \<Rightarrow> read_result \<Rightarrow> app \<Rightarrow> app" where
  "load_input ready result app =
     (if \<not> ready \<or> \<not> ap_has_input app \<or> ap_input_eof app \<or> ap_pending app \<noteq> [] \<or>
         ap_subscriptions app < ap_required_subscriptions app then app
      else if ap_count_limit app \<noteq> 0 \<and> ap_sent_records app \<ge> ap_count_limit app then app\<lparr>ap_input_eof := True\<rparr>
      else case result of
        Read_some block \<Rightarrow> app\<lparr>ap_pending := block\<rparr>
      | Read_end \<Rightarrow> app\<lparr>ap_input_eof := True\<rparr>
      | Read_later \<Rightarrow> app
      | Read_failed \<Rightarrow> app\<lparr>ap_failed := True\<rparr>)"

text \<open>\<open>finished\<close> is the answer of \<open>transport_finish_track\<close>.\<close>

definition finish_track :: "int \<Rightarrow> bool \<Rightarrow> app \<Rightarrow> app" where
  "finish_track now finished app =
     (if \<not> ap_input_eof app \<or> ap_pending app \<noteq> [] \<or> ap_track_finished app then app
      else if ti_flags (ap_track app) AND MOQ_TRACK_FLAG_FEC_RATELESS \<noteq> 0 \<and> \<not> finished then app
      else app\<lparr>ap_track_finished := True, ap_finished_at := now\<rparr>)"

end
