(* ===== verification/Records.thy ===== *)
theory Records
  imports Application Samples
begin

text \<open>
  From the records one application hands to the publisher to the bytes another application writes: the
  grouping of the publisher and the reorder window of the receiving application, composed.
\<close>

section \<open>Reading records back\<close>

definition record_fits :: "bytes \<Rightarrow> bool" where
  "record_fits r \<longleftrightarrow> r \<noteq> [] \<and> length r \<le> 65535"

abbreviation (input) full_write :: writer where
  "full_write \<equiv> \<lambda>out block. length block"

lemma records_of_Cons: "records_of (r # rs) = record_bytes r @ records_of rs"
  by (simp add: records_of_def)

lemma record_head:
  assumes "length r \<le> 65535"
  shows "unat (read_u16 (record_bytes r @ rest)) = length r" "drop 2 (record_bytes r @ rest) = r @ rest"
    "record_bytes r @ rest \<noteq> []" "\<not> length (record_bytes r @ rest) < 2"
proof -
  show "unat (read_u16 (record_bytes r @ rest)) = length r"
    using assms by (simp add: record_bytes_def read_write_u16 unat_of_nat_small)
qed (simp_all add: record_bytes_def write_u16_def)

definition append_output :: "bytes list \<Rightarrow> app \<Rightarrow> app" where
  "append_output rs app = app\<lparr>ap_output := map_option (\<lambda>out. out @ concat rs) (ap_output app),
     ap_received_records := (ap_received_records app + length rs) mod (SIZE_MAX + 1),
     ap_received_bytes := (ap_received_bytes app + length (concat rs)) mod (SIZE_MAX + 1)\<rparr>"

definition counters_ok :: "app \<Rightarrow> bool" where
  "counters_ok app \<longleftrightarrow> ap_received_records app \<le> SIZE_MAX \<and> ap_received_bytes app \<le> SIZE_MAX"

lemma wraps: "sz_add a b = (a + b) mod (SIZE_MAX + 1)" "(a + b) mod (SIZE_MAX + 1) \<le> SIZE_MAX"
    "((a + b) mod (SIZE_MAX + 1) + c) mod (SIZE_MAX + 1) = (a + (b + c)) mod (SIZE_MAX + 1)"
  by (simp_all add: sz_add_def mod_add_left_eq add.assoc flip: less_Suc_eq_le)

lemma append_output_step:
  "append_output rs (count_record (length r) (snd (app_fwrite full_write r app))) = append_output (r # rs) app"
  "counters_ok (count_record (length r) (snd (app_fwrite full_write r app)))" "fst (app_fwrite full_write r app)"
proof -
  have one: "(a + 1) mod (SIZE_MAX + 1) = sz_add a 1" for a by (simp add: wraps)
  show "append_output rs (count_record (length r) (snd (app_fwrite full_write r app))) = append_output (r # rs) app"
  proof (cases "ap_output app")
    case None
    then show ?thesis
      using wraps(3) [of "ap_received_records app" 1 "length rs"] wraps(3) [of "ap_received_bytes app" "length r" "length (concat rs)"]
      by (simp add: append_output_def count_record_def app_fwrite_def wraps(1))
  next
    case (Some out)
    then show ?thesis
      using wraps(3) [of "ap_received_records app" 1 "length rs"] wraps(3) [of "ap_received_bytes app" "length r" "length (concat rs)"]
      by (simp add: append_output_def count_record_def app_fwrite_def wraps(1))
  qed
  show "counters_ok (count_record (length r) (snd (app_fwrite full_write r app)))"
    using wraps(2) by (simp add: counters_ok_def count_record_def wraps(1))
  show "fst (app_fwrite full_write r app)" by (simp add: app_fwrite_def split: option.split)
qed

lemma append_output_Nil: "counters_ok app \<Longrightarrow> append_output [] app = app"
  by (cases "ap_output app") (simp_all add: append_output_def counters_ok_def less_Suc_eq_le)

lemma write_records_all:
  assumes "list_all record_fits rs" "counters_ok app"
  shows "write_records full_write (records_of rs) app = (True, append_output rs app)"
  using assms
proof (induction rs arbitrary: app)
  case Nil
  then show ?case by (subst write_records.simps) (simp add: append_output_Nil)
next
  case (Cons r rs)
  have r: "length r \<le> 65535" "r \<noteq> []" using Cons.prems by (simp_all add: record_fits_def)
  define data where "data = record_bytes r @ records_of rs"
  note h = record_head [OF r(1), of "records_of rs", folded data_def]
  obtain app1 where w: "app_fwrite full_write r app = (True, app1)"
    using append_output_step(3) [of r app] by (cases "app_fwrite full_write r app") auto
  note s = append_output_step(1,2) [where r = r and app = app, unfolded w snd_conv]
  have "write_records full_write (records_of (r # rs)) app = write_records full_write (records_of rs) (count_record (length r) app1)"
    unfolding records_of_Cons data_def [symmetric] by (subst write_records.simps) (use h r w in \<open>simp add: Let_def\<close>)
  also have "\<dots> = (True, append_output rs (count_record (length r) app1))"
    using Cons.IH Cons.prems(1) s(2) by simp
  finally show ?case using s(1) by simp
qed

lemma write_payload_all:
  assumes "carries_records T" "list_all record_fits rs" "counters_ok app"
  shows "\<exists>at. write_payload full_write now T (records_of rs) app = (True, (append_output rs app)\<lparr>ap_received_at := at\<rparr>)"
proof -
  let ?a = "append_output rs app"
  show ?thesis
    by (intro exI [of _ "if ap_receive_limit ?a \<noteq> 0 \<and> ap_received_records ?a \<ge> ap_receive_limit ?a \<and> ap_received_at ?a = 0
        then now else ap_received_at ?a"])
      (simp add: write_payload_def assms(1) write_records_all [OF assms(2,3)])
qed

section \<open>The reorder window\<close>

text \<open>
  \<open>rss\<close> are the records of the objects of the track in order, \<open>S\<close> the objects taken in so far and \<open>k\<close>
  the next one to write.
\<close>

definition held :: "nat set \<Rightarrow> nat \<Rightarrow> bytes list list \<Rightarrow> nat" where
  "held S k rss = (\<Sum>n \<in> {n \<in> S. k \<le> n}. length (records_of (rss ! n)))"

definition window_inv :: "bytes list list \<Rightarrow> nat set \<Rightarrow> nat \<Rightarrow> app \<Rightarrow> bool" where
  "window_inv rss S k app \<longleftrightarrow> length (ap_reorder app) = 256 \<and> ap_reorder_next_object_id app = of_nat k \<and> counters_ok app \<and>
     {..<k} \<subseteq> S \<and> S \<subseteq> {..<length rss} \<and> S \<subseteq> {..<k + 256} \<and>
     (\<forall>i < 256. re_active (ap_reorder app ! i) \<longrightarrow> (\<exists>n \<in> S. k \<le> n \<and> n mod 256 = i)) \<and>
     (\<forall>n \<in> S. k \<le> n \<longrightarrow> ap_reorder app ! (n mod 256) = \<lparr>re_data = records_of (rss ! n), re_object_id = of_nat n, re_active = True\<rparr>) \<and>
     ap_reorder_bytes app = held S k rss \<and> held S k rss \<le> APP_REORDER_MAX_BYTES \<and>
     ap_output app = Some (concat (concat (take k rss)))"

lemma window_unique: "k \<le> n \<Longrightarrow> k \<le> (m :: nat) \<Longrightarrow> n < k + 256 \<Longrightarrow> m < k + 256 \<Longrightarrow> n mod 256 = m mod 256 \<Longrightarrow> n = m"
proof -
  assume a: "k \<le> n" "k \<le> m" "n < k + 256" "m < k + 256" "n mod 256 = m mod 256"
  note e = mult_div_mod_eq [of 256 n] mult_div_mod_eq [of 256 m]
  have "n div 256 < m div 256 + 1" "m div 256 < n div 256 + 1" using a e by linarith+
  then have "n div 256 = m div 256" by linarith
  then show "n = m" using a(5) e by metis
qed

lemma slot_of_nat:
  assumes "n < 2 ^ 64"
  shows "object_slot (of_nat n) = n mod 256"
  using assms by (simp add: object_slot_def unat_of_nat_small)

lemma of_nat_u64_eq: "n < 2 ^ 64 \<Longrightarrow> m < 2 ^ 64 \<Longrightarrow> (of_nat n :: u64) = of_nat m \<longleftrightarrow> n = m"
  by (auto dest: arg_cong [of _ _ unat] simp: unat_of_nat_small)

lemma held_release:
  assumes "k \<in> S" "finite S"
  shows "held S k rss = length (records_of (rss ! k)) + held S (Suc k) rss"
proof -
  have "{n \<in> S. k \<le> n} = insert k {n \<in> S. Suc k \<le> n}" using assms by auto
  then show ?thesis using assms by (simp add: held_def)
qed

lemma held_insert:
  assumes "n \<notin> S" "k \<le> n" "finite S"
  shows "held (insert n S) k rss = length (records_of (rss ! n)) + held S k rss"
proof -
  have "{m \<in> insert n S. k \<le> m} = insert n {m \<in> S. k \<le> m}" using assms by auto
  then show ?thesis using assms by (simp add: held_def)
qed

lemma window_release:
  assumes inv: "window_inv rss S k app" and k: "k \<in> S" and len: "length rss < 2 ^ 64" and fits: "list_all (list_all record_fits) rss"
    and T: "carries_records T"
  shows "\<exists>app1. write_payload full_write now T (records_of (rss ! k)) app = (True, app1) \<and>
    window_inv rss S (Suc k) (write_out_slot (k mod 256) app1) \<and>
    ap_reorder_initialized (write_out_slot (k mod 256) app1) = ap_reorder_initialized app \<and>
    ap_reorder_group_id (write_out_slot (k mod 256) app1) = ap_reorder_group_id app"
proof -
  note i = inv [unfolded window_inv_def]
  have kl: "k < length rss" using i k by auto
  then have f: "list_all record_fits (rss ! k)" using fits by (simp add: list_all_length)
  obtain at where w: "write_payload full_write now T (records_of (rss ! k)) app = (True, (append_output (rss ! k) app)\<lparr>ap_received_at := at\<rparr>)"
    using write_payload_all [OF T f] i by blast
  let ?app1 = "(append_output (rss ! k) app)\<lparr>ap_received_at := at\<rparr>"
  let ?a = "write_out_slot (k mod 256) ?app1"
  have fin: "finite S" using i finite_subset by blast
  have slot: "reorder_slot ?app1 (k mod 256) = \<lparr>re_data = records_of (rss ! k), re_object_id = of_nat k, re_active = True\<rparr>"
    using i k by (simp add: reorder_slot_def append_output_def)
  have reorder: "ap_reorder ?a = (ap_reorder app)[k mod 256 := zero_reorder]"
    by (simp add: write_out_slot_def append_output_def)
  have other: "n mod 256 \<noteq> k mod 256" if "n \<in> S" "Suc k \<le> n" for n
  proof -
    have "n < k + 256" using that i by auto
    then show ?thesis using that window_unique [of k n k] by auto
  qed
  have active: "\<exists>n \<in> S. Suc k \<le> n \<and> n mod 256 = j" if jl: "j < 256" and ja: "re_active (ap_reorder ?a ! j)" for j
  proof -
    have j: "j \<noteq> k mod 256" "re_active (ap_reorder app ! j)"
      using jl ja i unfolding reorder by (auto simp: nth_list_update zero_reorder_def split: if_splits)
    then obtain n where n: "n \<in> S" "k \<le> n" "n mod 256 = j" using i jl by blast
    then have "n \<noteq> k" using j(1) by auto
    then show ?thesis using n by (intro bexI [of _ n]) simp_all
  qed
  have entries: "ap_reorder ?a ! (n mod 256) = \<lparr>re_data = records_of (rss ! n), re_object_id = of_nat n, re_active = True\<rparr>"
    if "n \<in> S" "Suc k \<le> n" for n
    using other [OF that] i that unfolding reorder by simp
  have bytes: "ap_reorder_bytes ?a = held S (Suc k) rss" "held S (Suc k) rss \<le> APP_REORDER_MAX_BYTES"
    using i held_release [OF k fin, of rss] slot by (simp_all add: write_out_slot_def append_output_def no_wrap)
  have out: "ap_output ?a = Some (concat (concat (take (Suc k) rss)))"
    using i kl by (simp add: write_out_slot_def append_output_def take_Suc_conv_app_nth)
  have cnt: "counters_ok ?a" by (simp add: counters_ok_def write_out_slot_def append_output_def flip: less_Suc_eq_le)
  have sub: "{..<Suc k} \<subseteq> S" "S \<subseteq> {..<Suc k + 256}" using i k by (auto simp: less_Suc_eq)
  have "window_inv rss S (Suc k) ?a"
    unfolding window_inv_def
    using active entries bytes out cnt sub i by (simp add: reorder) (simp add: write_out_slot_def append_output_def)
  then show ?thesis using w by (intro exI [of _ ?app1]) (simp add: write_out_slot_def append_output_def)
qed

lemma drain_result:
  assumes "window_inv rss S k app" "length rss < 2 ^ 64" "list_all (list_all record_fits) rss" "carries_records T"
  shows "\<exists>k' app'. drain_objects full_write now T app = (True, app') \<and> window_inv rss S k' app' \<and> k' \<notin> S \<and> k \<le> k' \<and>
    ap_reorder_initialized app' = ap_reorder_initialized app \<and> ap_reorder_group_id app' = ap_reorder_group_id app"
  using assms(1)
proof (induction "length rss - k" arbitrary: k app rule: less_induct)
  case less
  note i = less.prems [unfolded window_inv_def]
  have k: "k < 2 ^ 64" using i assms(2) by (metis finite_lessThan card_lessThan card_mono lessThan_subset_iff order.trans order_le_less_trans)
  note slot = slot_of_nat [OF k]
  have nx: "ap_reorder_next_object_id app = of_nat k" using i by simp
  have entry: "reorder_slot app (k mod 256) = ap_reorder app ! (k mod 256)" using i by (simp add: reorder_slot_def)
  show ?case
  proof (cases "k \<in> S")
    case True
    then have e: "ap_reorder app ! (k mod 256) = \<lparr>re_data = records_of (rss ! k), re_object_id = of_nat k, re_active = True\<rparr>"
      using i by blast
    obtain app1 where w: "write_payload full_write now T (records_of (rss ! k)) app = (True, app1)"
      "window_inv rss S (Suc k) (write_out_slot (k mod 256) app1)"
      "ap_reorder_initialized (write_out_slot (k mod 256) app1) = ap_reorder_initialized app"
      "ap_reorder_group_id (write_out_slot (k mod 256) app1) = ap_reorder_group_id app"
      using window_release [OF less.prems True assms(2-4)] by blast
    have "drain_objects full_write now T app = drain_objects full_write now T (write_out_slot (k mod 256) app1)"
      by (subst drain_objects.simps) (simp add: nx slot entry e Let_def w(1))
    moreover have "length rss - Suc k < length rss - k" using i True by auto
    ultimately show ?thesis using less.hyps [OF _ w(2)] w(3,4) Suc_leD by metis
  next
    case False
    have "\<not> re_active (ap_reorder app ! (k mod 256)) \<or> re_object_id (ap_reorder app ! (k mod 256)) \<noteq> of_nat k"
    proof (rule ccontr)
      assume "\<not> ?thesis"
      then have a: "re_active (ap_reorder app ! (k mod 256))" "re_object_id (ap_reorder app ! (k mod 256)) = of_nat k" by simp_all
      then obtain n where n: "n \<in> S" "k \<le> n" "n mod 256 = k mod 256" using i by (meson mod_less_divisor zero_less_numeral)
      then have "n < k + 256" using i by auto
      then have "n = k" using window_unique [OF n(2) order.refl _ _ n(3)] by simp
      then show False using n False by simp
    qed
    then have "drain_objects full_write now T app = (True, app)"
      by (subst drain_objects.simps) (auto simp: nx slot entry Let_def)
    then show ?thesis using less.prems False by blast
  qed
qed

section \<open>Arrivals\<close>

definition arrival :: "moq_track_id \<Rightarrow> bytes list \<Rightarrow> nat \<Rightarrow> received_object" where
  "arrival T payloads n = \<lparr>rx_track_id = T, rx_group_id = 0, rx_object_id = of_nat n, rx_data = payloads ! n\<rparr>"

definition app_state_ok :: "bytes list list \<Rightarrow> nat set \<Rightarrow> nat \<Rightarrow> app \<Rightarrow> bool" where
  "app_state_ok rss S k app \<longleftrightarrow> window_inv rss S k app \<and> k \<notin> S \<and>
     (if ap_reorder_initialized app then ap_reorder_group_id app = 0 else S = {} \<and> k = 0)"

text \<open>When an object is taken in: it was written before, or it fits into the window and its memory.\<close>

definition takes :: "bytes list list \<Rightarrow> nat set \<Rightarrow> nat \<Rightarrow> bool \<Rightarrow> nat \<Rightarrow> bool" where
  "takes rss S k malloc_ok n \<longleftrightarrow> n < k \<or> (n < k + 256 \<and>
     length (records_of (rss ! n)) + held S k rss \<le> APP_REORDER_MAX_BYTES \<and> (n \<in> S \<or> malloc_ok))"

definition begin_window :: "app \<Rightarrow> app" where
  "begin_window app = (if \<not> ap_reorder_initialized app
     then app\<lparr>ap_reorder_initialized := True, ap_reorder_group_id := 0, ap_reorder_next_object_id := 0\<rparr> else app)"

lemma begin_window_ok: "app_state_ok rss S k app \<Longrightarrow> window_inv rss S k (begin_window app) \<and> k \<notin> S \<and>
    ap_reorder_initialized (begin_window app) \<and> ap_reorder_group_id (begin_window app) = 0"
  by (auto simp: app_state_ok_def begin_window_def window_inv_def counters_ok_def split: if_splits)

definition store_object :: "nat \<Rightarrow> bytes \<Rightarrow> u64 \<Rightarrow> app \<Rightarrow> app" where
  "store_object slot data object_id app = app\<lparr>
     ap_reorder := (ap_reorder app)[slot := \<lparr>re_data = data, re_object_id = object_id, re_active = True\<rparr>],
     ap_reorder_bytes := sz_add (ap_reorder_bytes app) (length data)\<rparr>"

lemma store_window:
  assumes inv: "window_inv rss S k app" and n: "k \<le> n" "n < k + 256" "n < length rss" "n \<notin> S"
    and fits: "length (records_of (rss ! n)) + held S k rss \<le> APP_REORDER_MAX_BYTES"
  shows "window_inv rss (insert n S) k (store_object (n mod 256) (records_of (rss ! n)) (of_nat n) app)"
proof -
  note i = inv [unfolded window_inv_def]
  have fin: "finite S" using i finite_subset by blast
  let ?e = "\<lparr>re_data = records_of (rss ! n), re_object_id = of_nat n, re_active = True\<rparr>"
  have other: "m mod 256 \<noteq> n mod 256" if "m \<in> S" "k \<le> m" for m
  proof -
    have "m < k + 256" using that i by auto
    then show ?thesis using that n window_unique [of k m n] by auto
  qed
  have active: "\<exists>m \<in> insert n S. k \<le> m \<and> m mod 256 = j" if jl: "j < 256" and "re_active ((ap_reorder app)[n mod 256 := ?e] ! j)" for j
  proof (cases "j = n mod 256")
    case True
    then show ?thesis using n by blast
  next
    case False
    then have "re_active (ap_reorder app ! j)" using that by simp
    then show ?thesis using i jl by blast
  qed
  have entries: "(ap_reorder app)[n mod 256 := ?e] ! (m mod 256) = \<lparr>re_data = records_of (rss ! m), re_object_id = of_nat m, re_active = True\<rparr>"
    if "m \<in> insert n S" "k \<le> m" for m
  proof (cases "m = n")
    case True
    then show ?thesis using i by simp
  next
    case False
    then have m: "m \<in> S" using that by simp
    then have "n mod 256 \<noteq> m mod 256" using other that(2) by metis
    then show ?thesis using i m that(2) by simp
  qed
  have bytes: "sz_add (ap_reorder_bytes app) (length (records_of (rss ! n))) = held (insert n S) k rss" "held (insert n S) k rss \<le> APP_REORDER_MAX_BYTES"
    using i held_insert [OF n(4,1) fin, of rss] fits by (simp_all add: sz_add_def SIZE_MAX_def)
  show ?thesis
    unfolding window_inv_def store_object_def
    using active entries bytes i n by (simp add: counters_ok_def subset_insertI2)
qed

lemma write_object_step:
  assumes ok: "app_state_ok rss S k app" and n: "n < length rss" and len: "length rss < 2 ^ 64" and fits: "list_all (list_all record_fits) rss"
    and T: "carries_records T"
  shows "\<exists>app' k'. write_object full_write now m (arrival T (map records_of rss) n) app = (takes rss S k m n, app') \<and>
    app_state_ok rss (if takes rss S k m n then insert n S else S) k' app'"
proof -
  let ?ev = "arrival T (map records_of rss) n" and ?a = "begin_window app"
  note b = begin_window_ok [OF ok]
  note i = b [THEN conjunct1, unfolded window_inv_def]
  have kb: "k < 2 ^ 64" using i len by (metis finite_lessThan card_lessThan card_mono lessThan_subset_iff order.trans order_le_less_trans)
  have nb: "n < 2 ^ 64" using n len by simp
  have ev: "rx_track_id ?ev = T" "rx_group_id ?ev = 0" "rx_object_id ?ev = of_nat n" "rx_data ?ev = records_of (rss ! n)"
    using n by (simp_all add: arrival_def)
  have a: "(if \<not> ap_reorder_initialized app then app\<lparr>ap_reorder_initialized := True, ap_reorder_group_id := 0,
      ap_reorder_next_object_id := 0\<rparr> else app) = ?a" by (simp add: begin_window_def)
  have nx: "ap_reorder_next_object_id ?a = of_nat k" using i by blast
  have less: "(of_nat n :: u64) < of_nat k \<longleftrightarrow> n < k" using nb kb by (simp add: word_less_nat_alt unat_of_nat_small)
  have kept: "app_state_ok rss S k ?a" using b by (simp add: app_state_ok_def)
  note w = write_object_def [of full_write now m ?ev app, unfolded Let_def a nx ev less]
  show ?thesis
  proof (cases "n < k")
    case True
    have "n \<in> S" using i True by auto
    moreover have "write_object full_write now m ?ev app = (True, ?a)" using w True T b by simp
    ultimately show ?thesis using True kept by (intro exI [of _ ?a] exI [of _ k]) (simp add: takes_def insert_absorb)
  next
    case False
    have dist: "unat (of_nat n - of_nat k :: u64) = n - k"
      using False nb kb less by (simp add: unat_sub_if' unat_of_nat_small not_less)
    have bytes: "ap_reorder_bytes ?a = held S k rss" "held S k rss \<le> APP_REORDER_MAX_BYTES" using i by blast+
    have big: "length (records_of (rss ! n)) > sz_sub APP_REORDER_MAX_BYTES (ap_reorder_bytes ?a) \<longleftrightarrow>
        \<not> length (records_of (rss ! n)) + held S k rss \<le> APP_REORDER_MAX_BYTES"
      using bytes by (simp add: no_wrap) linarith
    note w1 = w [unfolded dist big slot_of_nat [OF nb]]
    have slot: "reorder_slot ?a (n mod 256) = ap_reorder ?a ! (n mod 256)" using i by (simp add: reorder_slot_def)
    consider (refused) "n \<ge> k + 256 \<or> \<not> length (records_of (rss ! n)) + held S k rss \<le> APP_REORDER_MAX_BYTES"
      | (again) "n < k + 256" "length (records_of (rss ! n)) + held S k rss \<le> APP_REORDER_MAX_BYTES" "n \<in> S"
      | (new) "n < k + 256" "length (records_of (rss ! n)) + held S k rss \<le> APP_REORDER_MAX_BYTES" "n \<notin> S"
      by linarith
    then show ?thesis
    proof cases
      case refused
      then have "write_object full_write now m ?ev app = (False, ?a)" using w1 False T b by auto
      moreover have "\<not> takes rss S k m n" using refused False by (auto simp: takes_def)
      ultimately show ?thesis using kept by (intro exI [of _ ?a] exI [of _ k]) simp
    next
      case again
      have e: "ap_reorder ?a ! (n mod 256) = \<lparr>re_data = records_of (rss ! n), re_object_id = of_nat n, re_active = True\<rparr>"
        using i again(3) False by auto
      have "write_object full_write now m ?ev app = (True, ?a)" using w1 False T b again by (auto simp: slot e)
      moreover have "takes rss S k m n" using again by (simp add: takes_def)
      ultimately show ?thesis using kept again(3) by (intro exI [of _ ?a] exI [of _ k]) (simp add: insert_absorb)
    next
      case new
      have free: "\<not> re_active (reorder_slot ?a (n mod 256))"
      proof
        assume "re_active (reorder_slot ?a (n mod 256))"
        then obtain j where j: "j \<in> S" "k \<le> j" "j mod 256 = n mod 256" using i slot by (metis mod_less_divisor zero_less_numeral)
        then have "j < k + 256" using i by auto
        then have "j = n" using window_unique [of k j n] j new(1) False by simp
        then show False using j new by simp
      qed
      show ?thesis
      proof (cases m)
        case no: False
        have "write_object full_write now m ?ev app = (False, ?a)" using w1 False T b new free no by auto
        moreover have "\<not> takes rss S k m n" using new False no by (simp add: takes_def)
        ultimately show ?thesis using kept by (intro exI [of _ ?a] exI [of _ k]) simp
      next
        case True
        let ?s = "store_object (n mod 256) (records_of (rss ! n)) (of_nat n) ?a"
        have "write_object full_write now m ?ev app = drain_objects full_write now T ?s"
          using w1 False T b new free True by (auto simp: store_object_def)
        moreover have "window_inv rss (insert n S) k ?s"
          using b False n new by (intro store_window) simp_all
        from drain_result [OF this len fits T, of now] obtain k' app' where
          "drain_objects full_write now T ?s = (True, app')" "window_inv rss (insert n S) k' app'" "k' \<notin> insert n S"
          "ap_reorder_initialized app'" "ap_reorder_group_id app' = 0" using b by (auto simp: store_object_def)
        moreover have "takes rss S k m n" using new True by (simp add: takes_def)
        ultimately show ?thesis by (intro exI [of _ app'] exI [of _ k']) (simp add: app_state_ok_def)
      qed
    qed
  qed
qed

section \<open>Runs of the receiving application\<close>

definition receiving_part :: "app \<Rightarrow> reorder_entry list \<times> u64 \<times> bool \<times> u64 \<times> nat \<times> bytes option \<times> nat \<times> nat" where
  "receiving_part app = (ap_reorder app, ap_reorder_next_object_id app, ap_reorder_initialized app, ap_reorder_group_id app,
     ap_reorder_bytes app, ap_output app, ap_received_records app, ap_received_bytes app)"

text \<open>
  The objects of a track arrive in any order and any number of times. \<open>S\<close> collects those taken in.
  \<open>elsewhere\<close> is what the application does beside: it sends, peers come and go.
\<close>

inductive app_run :: "moq_track_id \<Rightarrow> bytes list \<Rightarrow> app \<Rightarrow> nat set \<Rightarrow> bool" for T payloads where
  start: "receiving_part app = (replicate 256 zero_reorder, 0, False, 0, 0, Some [], 0, 0) \<Longrightarrow> app_run T payloads app {}"
| arrives: "app_run T payloads app S \<Longrightarrow> n < length payloads \<Longrightarrow>
    write_object full_write now m (arrival T payloads n) app = (ok, app') \<Longrightarrow> app_run T payloads app' (if ok then insert n S else S)"
| elsewhere: "app_run T payloads app S \<Longrightarrow> receiving_part app' = receiving_part app \<Longrightarrow> app_run T payloads app' S"

lemma app_state_ok_part: "receiving_part app' = receiving_part app \<Longrightarrow> app_state_ok rss S k app' = app_state_ok rss S k app"
  by (simp add: receiving_part_def app_state_ok_def window_inv_def counters_ok_def)

lemma app_run_ok:
  assumes "app_run T (map records_of rss) app S" "carries_records T" "list_all (list_all record_fits) rss" "length rss < 2 ^ 64"
  shows "\<exists>k. app_state_ok rss S k app"
  using assms(1)
proof (induction rule: app_run.induct)
  case (start app)
  then have "app_state_ok rss {} 0 app"
    by (simp add: receiving_part_def app_state_ok_def window_inv_def counters_ok_def held_def zero_reorder_def)
  then show ?case ..
next
  case (arrives app S n now m ok app')
  then obtain k where k: "app_state_ok rss S k app" by blast
  have n: "n < length rss" using arrives.hyps(2) by simp
  from write_object_step [OF k n assms(4,3,2), of now m] show ?case using arrives.hyps(3) by auto
next
  case (elsewhere app S app')
  then show ?case using app_state_ok_part by blast
qed

section \<open>Properties\<close>

text \<open>
  C11. The receiving application writes the records in order, whatever the order of arrival. When
  the objects of a track arrive in any order and with any repetitions, the output is at every
  moment the records of the objects before the first one still missing, each once and in order. An
  object is taken in exactly when it was written already or lies in the window of 256 after
  that point, fits into 64 MiB with what is held, and memory for it is there.
\<close>

theorem app_output_in_order:
  assumes "app_run T (map records_of rss) app S" "carries_records T" "list_all (list_all record_fits) rss" "length rss < 2 ^ 64"
  shows "\<exists>k. {..<k} \<subseteq> S \<and> k \<notin> S \<and> ap_output app = Some (concat (concat (take k rss))) \<and>
    (\<forall>n < length rss. \<forall>now m. fst (write_object full_write now m (arrival T (map records_of rss) n) app) = takes rss S k m n)"
proof -
  obtain k where k: "app_state_ok rss S k app" using app_run_ok [OF assms] by blast
  have "fst (write_object full_write now m (arrival T (map records_of rss) n) app) = takes rss S k m n" if "n < length rss" for n now m
    using write_object_step [OF k that assms(4,3,2), of now m] by auto
  then show ?thesis using k by (intro exI [of _ k]) (simp add: app_state_ok_def window_inv_def)
qed

text \<open>
  C10. Grouping neither loses, repeats nor reorders records. In every run of the publisher the
  records it accepted on a track are exactly, in order, those of the groups that the run handed to
  publication on that track (delivered, or nobody was there) and then those in the buffer. Every group
  holds one to four records and its object carries exactly their bytes; the groups of a track are
  numbered 0, 1, 2 and so on. A record is accepted when the call reports DELIVERED or BUFFERED, not
  accepted when it reports INVALID, BACKPRESSURE, PARTIAL or NO_RECIPIENTS.
\<close>

theorem grouped_records_exact:
  assumes "publisher_run E t log"
  shows "\<exists>admitted gs pending. results_match log admitted \<and> en_fec_buf t = records_of pending \<and> length pending \<le> 4 \<and>
    map fst gs = groups_handed t \<and> list_all group_ok gs \<and>
    (\<forall>U. map (\<lambda>g. ob_object_id (fst g)) (of_track U gs) = map of_nat [0..<length (of_track U gs)]) \<and>
    (\<forall>U. concat (map snd (of_track U gs)) @ (if same_id (en_fec_track_id t) U then pending else []) =
      records_on U (accepted_records log admitted))"
  using publisher_run_inv [OF assms] unfolding group_inv_def numbered_def by metis

text \<open>The records of the groups of one track fit the format, and the objects carry them.\<close>

lemma of_track_objects: "map fst (of_track U gs) = filter (\<lambda>ob. same_id (ob_track_id ob) U) (map fst gs)"
  by (simp add: of_track_def filter_map comp_def)

lemma of_track_payloads:
  assumes "list_all group_ok gs"
  shows "map (\<lambda>ob. data_bytes (ob_data ob)) (map fst (of_track U gs)) = map records_of (map snd (of_track U gs))"
  using assms by (auto simp: of_track_def list_all_iff group_ok_def)

lemma of_track_fits:
  assumes ok: "list_all group_ok gs" and whole: "concat (map snd (of_track U gs)) @ rest = records_on U acc"
    and nonempty: "\<forall>(ob, r) \<in> set acc. r \<noteq> []"
  shows "list_all (list_all record_fits) (map snd (of_track U gs))"
proof (unfold list_all_iff, intro ballI)
  fix rs r assume r: "rs \<in> set (map snd (of_track U gs))" "r \<in> set rs"
  then have "r \<in> set (concat (map snd (of_track U gs)))" by auto
  then have "r \<in> set (records_on U acc)" using whole by (metis UnI1 set_append)
  then have "r \<noteq> []" using nonempty by (fastforce simp: records_on_def)
  moreover have "length r \<le> 65535" using r ok by (auto simp: group_ok_def of_track_def list_all_iff)
  ultimately show "record_fits r" by (simp add: record_fits_def)
qed

lemma accepted_nonempty:
  assumes "\<forall>(ob, r) \<in> set log. data_bytes (ob_data ob) \<noteq> []"
  shows "\<forall>(T, d) \<in> set (accepted_records log admitted). d \<noteq> []"
  using assms by (fastforce simp: accepted_records_def dest: set_zip_leftD)

text \<open>What an application has written of the groups of a track, against the records behind them.\<close>

lemma app_prefix:
  assumes "app_run T (map records_of rss) app S" "carries_records T" "list_all (list_all record_fits) rss" "length rss < 2 ^ 64"
    and whole: "concat rss @ rest = rs"
  shows "(\<exists>n. ap_output app = Some (concat (take n rs))) \<and>
    (S = {..<length rss} \<and> rest = [] \<longrightarrow> ap_output app = Some (concat rs))"
proof -
  obtain k where k: "app_state_ok rss S k app" using app_run_ok [OF assms(1-4)] by blast
  then have o: "ap_output app = Some (concat (concat (take k rss)))" "k \<notin> S" by (simp_all add: app_state_ok_def window_inv_def)
  have "rs = concat (take k rss) @ (concat (drop k rss) @ rest)"
    unfolding whole [symmetric] by (metis append.assoc append_take_drop_id concat_append)
  then have "take (length (concat (take k rss))) rs = concat (take k rss)" by simp
  moreover have "concat (take k rss) = rs" if "S = {..<length rss} \<and> rest = []"
    using o(2) that whole by simp
  ultimately show ?thesis using o(1) by metis
qed


section \<open>Concrete runs\<close>

text \<open>Two objects of a track of the data type arrive in the wrong order.\<close>

definition fresh_app :: app where
  "fresh_app = \<lparr>ap_track = data_track, ap_auth_token = [1], ap_has_input = False, ap_output = Some [], ap_message_capacity = 1200,
     ap_pending = [], ap_next_object_id = 0, ap_sent_records = 0, ap_received_records = 0, ap_received_bytes = 0,
     ap_count_limit = 0, ap_receive_limit = 0, ap_subscriptions = 0, ap_required_subscriptions = 0, ap_interval_ms = 0,
     ap_next_send_at = 0, ap_finished_at = 0, ap_received_at = 0, ap_is_server = False, ap_input_eof = False,
     ap_track_finished = False, ap_failed = False, ap_reorder_initialized = False, ap_reorder_group_id = 0,
     ap_reorder_next_object_id = 0, ap_reorder_bytes = 0, ap_reorder = replicate 256 zero_reorder\<rparr>"

lemma data_track_records: "carries_records data_track"
  by (simp add: carries_records_def data_track_def)

theorem app_output_in_order_witness:
  "\<exists>app. app_run data_track (map records_of [[[1, 2]], [[3], [4]]]) app {0, 1} \<and> ap_output app = Some [1, 2, 3, 4]"
proof -
  let ?rss = "[[[1, 2]], [[3], [4 :: u8]]]"
  let ?run = "app_run data_track (map records_of ?rss)"
  have fits: "list_all (list_all record_fits) ?rss" "length ?rss < 2 ^ 64" by (simp_all add: record_fits_def)
  note order = app_output_in_order [OF _ data_track_records fits]
  have small: "length (records_of (?rss ! n)) \<le> 6" if "n < 2" for n
    using that by (auto simp: less_2_cases_iff records_of_def record_bytes_def)
  have held: "held S k ?rss \<le> 12" if "S \<subseteq> {0, 1}" for S k
  proof -
    have "held S k ?rss \<le> sum (\<lambda>n. length (records_of (?rss ! n))) {0, 1}"
      unfolding held_def by (rule sum_mono2) (use that in auto)
    also have "\<dots> \<le> 12" using small [of 0] small [of 1] by simp
    finally show ?thesis .
  qed
  have step: "\<exists>app'. ?run app' (insert n S)" if r: "?run app S" and S: "S \<subseteq> {0, 1}" and n: "n < 2" for app S n
  proof -
    obtain k where k: "k \<notin> S" "fst (write_object full_write 0 True (arrival data_track (map records_of ?rss) n) app) = takes ?rss S k True n"
      using order [OF r] n by auto
    have "takes ?rss S k True n" using small [OF n] held [OF S, of k] n by (auto simp: takes_def)
    then obtain app' where "write_object full_write 0 True (arrival data_track (map records_of ?rss) n) app = (True, app')"
      using k(2) by (cases "write_object full_write 0 True (arrival data_track (map records_of ?rss) n) app") auto
    from app_run.arrives [OF r _ this] show ?thesis using n by auto
  qed
  have "?run fresh_app {}" by (rule app_run.start) (simp add: receiving_part_def fresh_app_def)
  then obtain a1 where "?run a1 {1}" using step [of fresh_app "{}" 1] by auto
  then obtain a2 where a2: "?run a2 {0, 1}" using step [of a1 "{1}" 0] by auto
  obtain k where k: "{..<k} \<subseteq> {0, 1 :: nat}" "k \<notin> {0, 1}" "ap_output a2 = Some (concat (concat (take k ?rss)))"
    using order [OF a2] by blast
  have "k = 2"
  proof (rule ccontr)
    assume "k \<noteq> 2"
    then have "2 < k" using k(2) by auto
    then show False using k(1) by auto
  qed
  then show ?thesis using a2 k(3) by auto
qed

text \<open>A publisher with one subscriber takes a record into its buffer.\<close>

definition grouping_endpoint :: "(nat \<Rightarrow> bytes list) endpoint" where
  "grouping_endpoint = example_endpoint\<lparr>en_conns := [Some subscribed_peer],
     en_sent_cache := zero_cache\<lparr>sc_max_payload_bytes := 10\<rparr>, en_fec_tracks :=
     [example_state\<lparr>ft_next_object_id := 0, ft_active := False, ft_has_objects := False, ft_checkpoint_initialized := False\<rparr>]\<rparr>"

definition small_record :: moq_object where
  "small_record = \<lparr>ob_track_id = data_track, ob_group_id = 0, ob_object_id = 0,
     ob_data = Some \<lparr>pl_address = 64, pl_bytes = [1, 2]\<rparr>, ob_is_keyframe = False, ob_priority = 0\<rparr>"

lemma subscribed_subscription: "find_subscription subscribed_peer data_track = Some 0"
  "tb_entries (pe_table subscribed_peer) ! 0 = \<lparr>ts_track_id = data_track, ts_alias = 9, ts_active = True, ts_stream = None, ts_ingress_stream = None\<rparr>"
proof -
  have t: "tb_entries (pe_table subscribed_peer) = tb_entries joined_table"
    by (simp add: subscribed_peer_def put_ack_def put_table_def)
  show "tb_entries (pe_table subscribed_peer) ! 0 = \<lparr>ts_track_id = data_track, ts_alias = 9, ts_active = True, ts_stream = None, ts_ingress_stream = None\<rparr>"
    by (simp add: t joined_table_def)
  show "find_subscription subscribed_peer data_track = Some 0"
    by (simp add: find_subscription_def transport_subscriptions_find_def t joined_table_def track_matches_def strcmp_eq_def)
qed

lemma small_record_valid:
  "publish_valid example_publish_env small_record grouping_endpoint" "groups_records example_publish_env grouping_endpoint data_track"
  "publication_fec_limit example_publish_env grouping_endpoint data_track = 100"
proof -
  have m: "members grouping_endpoint = [Some subscribed_peer]" by (simp add: members_def grouping_endpoint_def example_endpoint_def)
  have p: "pe_quic subscribed_peer" "pe_protocol_ready subscribed_peer" "pe_authenticated subscribed_peer" "pe_max_fec_object_size subscribed_peer = 100"
    by (simp_all add: subscribed_peer_def put_ack_def put_table_def example_peer_def)
  have v: "transport_track_id_valid data_track"
    by (simp add: transport_track_id_valid_def data_track_def strnlen_def cstr_def takeWhile_replicate transport_track_type_valid_def)
  have prof: "pr_fec_rateless (transport_track_profile data_track)" by (simp add: transport_track_profile_def data_track_def)
  show "publish_valid example_publish_env small_record grouping_endpoint"
    by (simp add: publish_valid_def m v flags_mismatch_def subscribed_subscription small_record_def example_publish_env_def)
  show "groups_records example_publish_env grouping_endpoint data_track"
    by (simp add: groups_records_def grouping_endpoint_def example_endpoint_def p example_publish_env_def coded_subscription_def
        subscribed_subscription prof)
  show "publication_fec_limit example_publish_env grouping_endpoint data_track = 100"
    by (simp add: publication_fec_limit_def m p) (simp add: grouping_endpoint_def example_endpoint_def)
qed

text \<open>The endpoint with the record in its buffer, after the subscriber has left.\<close>

definition left_endpoint :: "(nat \<Rightarrow> bytes list) endpoint" where
  "left_endpoint = grouping_endpoint\<lparr>en_conns := [], en_fec_buf := [0, 2, 1, 2], en_fec_track_id := data_track, en_fec_pkt_count := 1\<rparr>"

lemma small_record_buffered:
  "grouped example_publish_env small_record grouping_endpoint"
  "\<exists>t'. transport_publish_ex example_publish_env 1 small_record grouping_endpoint = Some (BUFFERED, t') \<and>
     group_part t' = group_part left_endpoint"
proof -
  note v = small_record_valid
  have f: "en_fec_buf grouping_endpoint = []" "en_fec_pkt_count grouping_endpoint = 0" "en_fec_buf_cap grouping_endpoint = 0"
    "\<not> en_fec_in_flush grouping_endpoint" "members grouping_endpoint = [Some subscribed_peer]" "en_is_server grouping_endpoint"
    "en_fec_priority grouping_endpoint = 0"
    by (simp_all add: grouping_endpoint_def example_endpoint_def members_def)
  have o: "ob_track_id small_record = data_track" "ti_type data_track = ucast MOQ_TRACK_DATA" "data_size (ob_data small_record) = 2"
    "data_bytes (ob_data small_record) = [1, 2]" "ob_priority small_record = 0"
    by (simp_all add: small_record_def data_track_def data_size_def data_bytes_def)
  show g: "grouped example_publish_env small_record grouping_endpoint" using v f o by (simp add: grouped_def)
  have grow: "grow_capacity 4096 (Suc (Suc (Suc (Suc 0)))) = Some (Some 4096)" by (subst grow_capacity.simps) simp
  have env: "pv_realloc example_publish_env = Some 64" "pv_owner_ok example_publish_env" by (simp_all add: example_publish_env_def)
  show "\<exists>t'. transport_publish_ex example_publish_env 1 small_record grouping_endpoint = Some (BUFFERED, t') \<and>
     group_part t' = group_part left_endpoint"
    using v f o grow env
    by (simp add: transport_publish_ex_def transport_publish_impl_def group_record_def flush_first_def append_record_def start_group_def
        ensure_capacity_def sz_sub_def SIZE_MAX_def record_bytes_def write_u16_def group_part_def left_endpoint_def)
qed

text \<open>The flush then finds nobody and hands the group out as object 0.\<close>

definition small_group :: moq_object where
  "small_group = \<lparr>ob_track_id = data_track, ob_group_id = 0, ob_object_id = 0,
     ob_data = Some \<lparr>pl_address = 0, pl_bytes = [0, 2, 1, 2]\<rparr>, ob_is_keyframe = False, ob_priority = 0\<rparr>"

lemma small_group_flushed:
  "\<exists>t'. transport_publish_flush_grouped example_publish_env left_endpoint = Some (True, t') \<and>
     en_fec_buf t' = [] \<and> groups_handed t' = [small_group]"
proof -
  let ?tracks = "[example_state\<lparr>ft_next_object_id := 0, ft_has_objects := False, ft_checkpoint_initialized := False\<rparr>]"
  let ?t = "left_endpoint\<lparr>en_fec_tracks := ?tracks, en_fec_flush_pending := True, en_fec_in_flush := True\<rparr>"
  have e: "en_fec_buf left_endpoint = [0, 2, 1, 2]" "en_fec_track_id left_endpoint = data_track"
    "en_published left_endpoint = []"
    by (simp_all add: left_endpoint_def grouping_endpoint_def example_endpoint_def)
  have find': "find_fec_track_state (en_fec_tracks left_endpoint) data_track True = (Some 0, ?tracks)"
    by (simp add: find_fec_track_state_def left_endpoint_def grouping_endpoint_def example_state_def)
  have obj: "group_object left_endpoint (?tracks ! 0) = small_group"
    by (simp add: group_object_def small_group_def left_endpoint_def grouping_endpoint_def example_endpoint_def)
  have v: "publish_valid example_publish_env small_group ?t"
    using small_record_valid(1) by (simp add: publish_valid_def members_def left_endpoint_def grouping_endpoint_def
        example_endpoint_def small_group_def small_record_def)
  have prof: "pr_fec_rateless (transport_track_profile data_track)" "\<not> pr_reliable (transport_track_profile data_track)"
    by (simp_all add: transport_track_profile_def data_track_def)
  have m: "members ?t = []" by (simp add: members_def left_endpoint_def grouping_endpoint_def example_endpoint_def)
  have fl: "publication_fec_limit example_publish_env ?t data_track = 100"
    unfolding publication_fec_limit_def m by (simp add: left_endpoint_def grouping_endpoint_def example_endpoint_def)
  have can: "transport_sent_cache_can_store (en_sent_cache ?t) small_group True"
    by (simp add: transport_sent_cache_can_store_def small_group_def left_endpoint_def grouping_endpoint_def zero_cache_def
        transport_sent_cache_byte_limit_def)
  have d: "publish_datagrams example_publish_env small_group 100 ?t = Some (NO_RECIPIENTS, ?t)"
    using can prof m
    by (simp add: publish_datagrams_def Let_def small_group_def data_size_def checkpoint_cache_is_protected_def data_track_def)
  have pub: "publish_ungrouped example_publish_env small_group ?t =
      Some (NO_RECIPIENTS, ?t\<lparr>en_published := [(small_group, NO_RECIPIENTS, True)]\<rparr>)"
    using v prof fl d by (simp add: publish_ungrouped_def published_def small_group_def e)
  show ?thesis
    using pub unfolding transport_publish_flush_grouped_def transport_publish_flush_grouped_ex_def Let_def e(2) find' prod.case option.case obj
    by (simp add: e group_done_def groups_handed_def example_state_def)
qed

lemma small_record_run:
  obtains t' where "publisher_run {example_publish_env} t' [(small_record, BUFFERED)]" "en_fec_buf t' = []"
    "groups_handed t' = [small_group]"
proof -
  let ?run = "publisher_run {example_publish_env}"
  have "?run grouping_endpoint []"
    by (rule publisher_run.start) (simp add: no_groups_def grouping_endpoint_def example_endpoint_def)
  moreover obtain t1 where t1: "transport_publish_ex example_publish_env 1 small_record grouping_endpoint = Some (BUFFERED, t1)"
    "group_part t1 = group_part left_endpoint" using small_record_buffered(2) by blast
  ultimately have "?run t1 ([] @ [(small_record, BUFFERED)])"
    using small_record_buffered(1) by (intro publisher_run.a_record) simp_all
  then have "?run left_endpoint [(small_record, BUFFERED)]"
    using publisher_run.elsewhere [OF _ t1(2) [symmetric]] by simp
  moreover obtain t2 where t2: "transport_publish_flush_grouped example_publish_env left_endpoint = Some (True, t2)"
     "en_fec_buf t2 = []" "groups_handed t2 = [small_group]" using small_group_flushed by blast
  ultimately have "?run t2 [(small_record, BUFFERED)]"
    using publisher_run.a_flush by blast
  then show ?thesis using t2 that by blast
qed

theorem grouped_records_exact_witness:
  "\<exists>t' gs. publisher_run {example_publish_env} t' [(small_record, BUFFERED)] \<and> map fst gs = [small_group] \<and>
    (\<forall>g \<in> set gs. data_bytes (ob_data (fst g)) = records_of (snd g))"
proof -
  obtain t' where t': "publisher_run {example_publish_env} t' [(small_record, BUFFERED)]" "groups_handed t' = [small_group]"
    by (rule small_record_run)
  then obtain gs where "map fst gs = groups_handed t'" "list_all group_ok gs" using grouped_records_exact [OF t'(1)] by blast
  then show ?thesis using t' by (intro exI [of _ t'] exI [of _ gs]) (auto simp: list_all_iff group_ok_def)
qed


end
