(* ===== verification/Api.thy ===== *)
theory Api
  imports Fifo Grouping Limits
begin

text \<open>
  The application interface (src/common/qlinq.c): contexts with a bounded event queue, endpoints with
  their peers, and named streams. A pointer to an endpoint, stream or connection is a number, a
  linked list is a list with its head first. The transport under an endpoint answers through
  \<open>api_env\<close>, and the calls it gets are recorded in the order they are made.
\<close>

section \<open>The event queue\<close>

datatype api_status = Q_OK | Q_AGAIN | Q_INVALID | Q_STATE | Q_NO_MEMORY | Q_IO | Q_RESOURCE_LIMIT

definition status_negative :: "api_status \<Rightarrow> bool" where
  "status_negative s = (case s of Q_OK \<Rightarrow> False | Q_AGAIN \<Rightarrow> False | _ \<Rightarrow> True)"

datatype api_event_type = PEER_READY | PEER_REJECTED | PEER_DISCONNECTED | SUBSCRIBER_JOINED | SUBSCRIBER_LEFT | RECORD |
  RECORD_LOST | KEYFRAME_REQUESTED | STREAM_WRITABLE | ERROR

record disconnect_info =
  dc_error_code :: u64
  dc_raw_error :: int
  dc_application_error :: bool
  dc_offending_frame_type :: u64
  dc_remote :: bool
  dc_was_ready :: bool
  dc_outgoing :: bool
  dc_reason :: "bytes option"

definition zero_disconnect :: disconnect_info where
  "zero_disconnect = \<lparr>dc_error_code = 0, dc_raw_error = 0, dc_application_error = False, dc_offending_frame_type = 0,
     dc_remote = False, dc_was_ready = False, dc_outgoing = False, dc_reason = None\<rparr>"

record api_record =
  rc_group_id :: u64
  rc_sequence :: u64
  rc_data :: "bytes option"
  rc_size :: nat
  rc_keyframe :: bool
  rc_priority :: u8

definition zero_record :: api_record where
  "zero_record = \<lparr>rc_group_id = 0, rc_sequence = 0, rc_data = None, rc_size = 0, rc_keyframe = False, rc_priority = 0\<rparr>"

record api_event =
  ev_type :: api_event_type
  ev_endpoint :: nat
  ev_stream :: "nat option"
  ev_peer_id :: u32
  ev_content_type :: u32
  ev_delivery :: u32
  ev_stream_name :: bytes
  ev_record :: api_record
  ev_disconnect :: disconnect_info
  ev_status :: api_status
  ev_message :: "bytes option"

text \<open>An event with the named members; the rest is zero.\<close>

definition plain_event :: "api_event_type \<Rightarrow> nat \<Rightarrow> u32 \<Rightarrow> api_status \<Rightarrow> api_event" where
  "plain_event ty endpoint peer status = \<lparr>ev_type = ty, ev_endpoint = endpoint, ev_stream = None, ev_peer_id = peer,
     ev_content_type = 0, ev_delivery = 0, ev_stream_name = replicate 64 0, ev_record = zero_record,
     ev_disconnect = zero_disconnect, ev_status = status, ev_message = None\<rparr>"

record event_node =
  nd_allocation_size :: nat
  nd_event :: api_event

record event_queue =
  eq_nodes :: "event_node list"
  eq_queued_events :: nat
  eq_queued_bytes :: nat
  eq_max_events :: nat
  eq_max_bytes :: nat
  eq_last_status :: api_status

text \<open>What the transport and the allocator answer. \<open>av_node_size\<close> is \<open>sizeof(qlinq_event_node_t)\<close>.\<close>

record api_env =
  av_node_size :: nat
  av_calloc_node :: bool
  av_calloc_peer :: bool
  av_conn_id :: "nat \<Rightarrow> u32"
  av_send_auth :: "nat \<Rightarrow> bool"
  av_respond_auth :: "nat \<Rightarrow> bool \<Rightarrow> bool"
  av_subscribe_conn :: "nat \<Rightarrow> moq_track_id \<Rightarrow> bool"
  av_track_ready :: "moq_track_id \<Rightarrow> bool"

definition set_status :: "api_status \<Rightarrow> event_queue \<Rightarrow> event_queue" where
  "set_status s q = q\<lparr>eq_last_status := s\<rparr>"

definition message_bytes :: "bytes option \<Rightarrow> nat" where
  "message_bytes message = (case message of None \<Rightarrow> 0 | Some m \<Rightarrow> length m + 1)"

text \<open>The event as it is stored: with its own copies of payload and message.\<close>

definition owned_event :: "api_event \<Rightarrow> bytes \<Rightarrow> bytes option \<Rightarrow> api_event" where
  "owned_event source payload message = source
     \<lparr>ev_record := (ev_record source)\<lparr>rc_data := if payload = [] then None else Some payload\<rparr>,
      ev_message := message,
      ev_disconnect := (ev_disconnect source)\<lparr>dc_reason := if ev_type source = PEER_DISCONNECTED then message else None\<rparr>\<rparr>"

definition queue_event :: "api_env \<Rightarrow> api_event \<Rightarrow> bytes \<Rightarrow> bytes option \<Rightarrow> event_queue \<Rightarrow> bool \<times> event_queue" where
  "queue_event env source payload message q =
     (let message_size = message_bytes message; payload_size = length payload in
      if (case message of None \<Rightarrow> False | Some m \<Rightarrow> length m = SIZE_MAX) then (False, set_status Q_INVALID q)
      else if payload_size > SIZE_MAX - av_node_size env \<or> message_size > SIZE_MAX - av_node_size env - payload_size
      then (False, set_status Q_INVALID q)
      else let allocation_size = av_node_size env + payload_size + message_size in
      if eq_queued_events q \<ge> eq_max_events q \<or> eq_queued_bytes q > eq_max_bytes q \<or>
         allocation_size > eq_max_bytes q - eq_queued_bytes q
      then (False, set_status Q_RESOURCE_LIMIT q)
      else if \<not> av_calloc_node env then (False, set_status Q_NO_MEMORY q)
      else (True, q\<lparr>eq_nodes := eq_nodes q @ [\<lparr>nd_allocation_size = allocation_size, nd_event = owned_event source payload message\<rparr>],
             eq_queued_events := sz_add (eq_queued_events q) 1, eq_queued_bytes := sz_add (eq_queued_bytes q) allocation_size\<rparr>))"

definition qlinq_next_event :: "event_queue \<Rightarrow> (api_event \<times> event_queue) option" where
  "qlinq_next_event q = (case eq_nodes q of [] \<Rightarrow> None
     | node # nodes \<Rightarrow> Some (nd_event node, q\<lparr>eq_nodes := nodes, eq_queued_events := sz_sub (eq_queued_events q) 1,
         eq_queued_bytes := sz_sub (eq_queued_bytes q) (nd_allocation_size node)\<rparr>))"

section \<open>Streams, peers and endpoints\<close>

datatype stream_direction = STREAM_PUBLISH | STREAM_SUBSCRIBE

record api_stream =
  sm_handle :: nat
  sm_track :: moq_track_id
  sm_content_type :: u32
  sm_delivery :: u32
  sm_direction :: stream_direction
  sm_open :: bool
  sm_records_sent :: nat
  sm_records_received :: nat
  sm_objects_lost :: nat
  sm_writable_known :: bool
  sm_last_writable :: bool
  sm_active :: bool

record peer_state =
  pr_connection :: nat
  pr_id :: u32
  pr_ready :: bool

record api_endpoint =
  qe_handle :: nat
  qe_has_transport :: bool
  qe_streams :: "api_stream list"
  qe_peers :: "peer_state list"
  qe_shared_secret :: bytes
  qe_ready_peers :: nat
  qe_endpoint_records_received :: nat
  qe_last_service_ms :: int
  qe_service_pending :: bool
  qe_listener :: bool
  qe_active :: bool

text \<open>Calls of the transport that change something.\<close>

datatype transport_call = Call_send_auth nat bytes | Call_respond_auth nat bool | Call_subscribe nat moq_track_id |
  Call_unsubscribe moq_track_id | Call_close nat bytes

text \<open>An endpoint at work: itself, the event queue of its context and the calls made so far.\<close>

record api_state =
  as_endpoint :: api_endpoint
  as_queue :: event_queue
  as_calls :: "transport_call list"

definition on_endpoint :: "(api_endpoint \<Rightarrow> api_endpoint) \<Rightarrow> api_state \<Rightarrow> api_state" where
  "on_endpoint f s = s\<lparr>as_endpoint := f (as_endpoint s)\<rparr>"

definition called :: "transport_call \<Rightarrow> api_state \<Rightarrow> api_state" where
  "called c s = s\<lparr>as_calls := as_calls s @ [c]\<rparr>"

definition queue_on :: "api_env \<Rightarrow> api_event \<Rightarrow> bytes \<Rightarrow> bytes option \<Rightarrow> api_state \<Rightarrow> bool \<times> api_state" where
  "queue_on env ev payload message s = (let (ok, q) = queue_event env ev payload message (as_queue s) in (ok, s\<lparr>as_queue := q\<rparr>))"

definition secret_equal :: "bytes \<Rightarrow> bytes \<Rightarrow> bool" where
  "secret_equal secret data = (length data = length secret \<and>
     foldl (\<lambda>difference (a, b). difference OR (a XOR b)) 0 (zip secret data) = 0)"

abbreviation (input) "DELIVERY_DATAGRAM \<equiv> (0 :: u32)"
abbreviation (input) "DELIVERY_RELIABLE \<equiv> (1 :: u32)"
abbreviation (input) "DELIVERY_FIXED_FEC \<equiv> (2 :: u32)"
abbreviation (input) "DELIVERY_RATELESS \<equiv> (3 :: u32)"

definition content_type_valid :: "u32 \<Rightarrow> bool" where
  "content_type_valid t \<longleftrightarrow> t = 0 \<or> t = 1 \<or> t = 2 \<or> t = 3 \<or> t = 4 \<or> t = 6"

definition delivery_valid :: "u32 \<Rightarrow> bool" where
  "delivery_valid d \<longleftrightarrow> d = DELIVERY_DATAGRAM \<or> d = DELIVERY_RELIABLE \<or> d = DELIVERY_FIXED_FEC \<or> d = DELIVERY_RATELESS"

definition delivery_flags :: "u32 \<Rightarrow> u8" where
  "delivery_flags d = (if d = DELIVERY_RELIABLE then MOQ_TRACK_FLAG_RELIABLE
     else if d = DELIVERY_FIXED_FEC then MOQ_TRACK_FLAG_FEC_ENABLED
     else if d = DELIVERY_RATELESS then MOQ_TRACK_FLAG_FEC_RATELESS else 0)"

definition flags_delivery :: "u8 \<Rightarrow> u32" where
  "flags_delivery flags = (if flags AND MOQ_TRACK_FLAG_RELIABLE \<noteq> 0 then DELIVERY_RELIABLE
     else if flags AND MOQ_TRACK_FLAG_FEC_RATELESS \<noteq> 0 then DELIVERY_RATELESS
     else if flags AND MOQ_TRACK_FLAG_FEC_ENABLED \<noteq> 0 then DELIVERY_FIXED_FEC else DELIVERY_DATAGRAM)"

definition stream_matches :: "api_stream \<Rightarrow> moq_track_id \<Rightarrow> bool" where
  "stream_matches stream track \<longleftrightarrow> ti_type (sm_track stream) = ti_type track \<and>
     sm_delivery stream = flags_delivery (ti_flags track) \<and> strcmp_eq (ti_name (sm_track stream)) (ti_name track)"

text \<open>The index of the stream in the list of the endpoint.\<close>

definition find_stream :: "api_endpoint \<Rightarrow> moq_track_id \<Rightarrow> stream_direction \<Rightarrow> nat option" where
  "find_stream ep track direction =
     first_index (\<lambda>s. sm_active s \<and> sm_direction s = direction \<and> stream_matches s track) (qe_streams ep)"

definition update_stream :: "nat \<Rightarrow> (api_stream \<Rightarrow> api_stream) \<Rightarrow> api_endpoint \<Rightarrow> api_endpoint" where
  "update_stream i f ep = ep\<lparr>qe_streams := (qe_streams ep)[i := f (qe_streams ep ! i)]\<rparr>"

definition queue_error :: "api_env \<Rightarrow> api_status \<Rightarrow> bytes \<Rightarrow> api_state \<Rightarrow> api_state" where
  "queue_error env status message s =
     (let s = s\<lparr>as_queue := set_status status (as_queue s)\<rparr> in
      snd (queue_on env (plain_event ERROR (qe_handle (as_endpoint s)) 0 status) [] (Some message) s))"

section \<open>Peers\<close>

definition find_peer :: "api_endpoint \<Rightarrow> nat \<Rightarrow> nat option" where
  "find_peer ep connection = first_index (\<lambda>p. pr_connection p = connection) (qe_peers ep)"

text \<open>The error messages are constants of the code; their text is a parameter.\<close>

definition add_peer :: "api_env \<Rightarrow> bytes \<Rightarrow> nat \<Rightarrow> api_state \<Rightarrow> nat option \<times> api_state" where
  "add_peer env message connection s =
     (case find_peer (as_endpoint s) connection of
        Some i \<Rightarrow> (Some i, s)
      | None \<Rightarrow>
        if \<not> av_calloc_peer env then (None, queue_error env Q_NO_MEMORY message s)
        else (Some 0, on_endpoint (\<lambda>ep. ep\<lparr>qe_peers :=
          \<lparr>pr_connection = connection, pr_id = av_conn_id env connection, pr_ready = False\<rparr> # qe_peers ep\<rparr>) s))"

definition peer_id :: "api_env \<Rightarrow> api_endpoint \<Rightarrow> nat \<Rightarrow> u32" where
  "peer_id env ep connection = (case find_peer ep connection of
     Some i \<Rightarrow> pr_id (qe_peers ep ! i) | None \<Rightarrow> av_conn_id env connection)"

definition remove_peer :: "nat \<Rightarrow> api_endpoint \<Rightarrow> api_endpoint" where
  "remove_peer connection ep =
     (case find_peer ep connection of None \<Rightarrow> ep
      | Some i \<Rightarrow> ep\<lparr>qe_ready_peers := (if pr_ready (qe_peers ep ! i) \<and> qe_ready_peers ep \<noteq> 0
            then qe_ready_peers ep - 1 else qe_ready_peers ep),
          qe_peers := take i (qe_peers ep) @ drop (Suc i) (qe_peers ep)\<rparr>)"

section \<open>Received records\<close>

definition fill_event_stream :: "moq_track_id \<Rightarrow> nat option \<Rightarrow> api_event \<Rightarrow> api_event" where
  "fill_event_stream track stream ev = ev\<lparr>ev_stream := stream, ev_content_type := ti_type track,
     ev_delivery := flags_delivery (ti_flags track), ev_stream_name := take 63 (ti_name track) @ [0]\<rparr>"

record received =
  rv_connection :: nat
  rv_track_id :: moq_track_id
  rv_group_id :: u64
  rv_object_id :: u64
  rv_data :: bytes
  rv_is_keyframe :: bool
  rv_priority :: u8

definition record_event :: "api_env \<Rightarrow> received \<Rightarrow> bytes \<Rightarrow> nat \<Rightarrow> api_endpoint \<Rightarrow> api_event" where
  "record_event env ob data i ep = fill_event_stream (rv_track_id ob) (Some (sm_handle (qe_streams ep ! i)))
     ((plain_event RECORD (qe_handle ep) (peer_id env ep (rv_connection ob)) Q_OK)
       \<lparr>ev_record := \<lparr>rc_group_id = rv_group_id ob, rc_sequence = rv_object_id ob, rc_data = Some data, rc_size = length data,
          rc_keyframe = rv_is_keyframe ob, rc_priority = rv_priority ob\<rparr>\<rparr>)"

definition queue_record :: "api_env \<Rightarrow> received \<Rightarrow> bytes \<Rightarrow> api_state \<Rightarrow> bool \<times> api_state" where
  "queue_record env ob data s =
     (case find_stream (as_endpoint s) (rv_track_id ob) STREAM_SUBSCRIBE of
        None \<Rightarrow> (True, s)
      | Some i \<Rightarrow>
        if \<not> sm_open (qe_streams (as_endpoint s) ! i) then (True, s)
        else let (queued, s) = queue_on env (record_event env ob data i (as_endpoint s)) data None s in
          if queued then (True, on_endpoint (\<lambda>ep. update_stream i (\<lambda>st. st\<lparr>sm_records_received := sz_add (sm_records_received st) 1\<rparr>)
              (ep\<lparr>qe_endpoint_records_received := sz_add (qe_endpoint_records_received ep) 1\<rparr>)) s)
          else (False, s))"

definition reject_received_record :: "api_env \<Rightarrow> received \<Rightarrow> bytes \<Rightarrow> api_state \<Rightarrow> api_state" where
  "reject_received_record env ob reason s =
     (let s = queue_error env Q_RESOURCE_LIMIT reason s in
      if ti_flags (rv_track_id ob) AND (MOQ_TRACK_FLAG_RELIABLE OR MOQ_TRACK_FLAG_FEC_ENABLED OR MOQ_TRACK_FLAG_FEC_RATELESS) \<noteq> 0
      then called (Call_close (rv_connection ob) reason) s else s)"

definition grouped_data :: "moq_track_id \<Rightarrow> bool" where
  "grouped_data track \<longleftrightarrow> ti_type track = ucast MOQ_TRACK_DATA \<and>
     ti_flags track AND (MOQ_TRACK_FLAG_FEC_ENABLED OR MOQ_TRACK_FLAG_FEC_RATELESS) \<noteq> 0"

record api_messages =
  ms_no_peer :: bytes
  ms_not_queued :: bytes
  ms_not_recovered :: bytes
  ms_bad_payload :: bytes
  ms_bad_length :: bytes
  ms_no_subscription :: bytes
  ms_no_auth :: bytes
  ms_no_response :: bytes
  ms_unspecified :: bytes

fun split_records :: "api_env \<Rightarrow> api_messages \<Rightarrow> received \<Rightarrow> bytes \<Rightarrow> api_state \<Rightarrow> api_state" where
  "split_records env ms ob data s =
     (if data = [] then s
      else if length data < 2 then queue_error env Q_INVALID (ms_bad_payload ms) s
      else let n = unat (push_bit 8 (ucast (data ! 0)) OR ucast (data ! 1) :: u16); rest = drop 2 data in
        if n = 0 \<or> n > length rest then queue_error env Q_INVALID (ms_bad_length ms) s
        else let (queued, s) = queue_record env ob (take n rest) s in
          if \<not> queued then reject_received_record env ob (ms_not_recovered ms) s
          else split_records env ms ob (drop n rest) s)"

declare split_records.simps [simp del]

definition queue_received_object :: "api_env \<Rightarrow> api_messages \<Rightarrow> received \<Rightarrow> api_state \<Rightarrow> api_state" where
  "queue_received_object env ms ob s =
     (if \<not> grouped_data (rv_track_id ob)
      then let (queued, s) = queue_record env ob (rv_data ob) s in
        if queued then s else reject_received_record env ob (ms_not_queued ms) s
      else split_records env ms ob (rv_data ob) s)"

section \<open>Transport events\<close>

text \<open>\<open>activate_subscriptions\<close> asks for every active subscription of the endpoint, newest first.\<close>

fun activate_streams :: "api_env \<Rightarrow> api_messages \<Rightarrow> nat \<Rightarrow> api_stream list \<Rightarrow> api_state \<Rightarrow> api_state" where
  "activate_streams env ms connection [] s = s"
| "activate_streams env ms connection (st # sts) s =
     (if \<not> sm_active st \<or> sm_direction st \<noteq> STREAM_SUBSCRIBE then activate_streams env ms connection sts s
      else let s = called (Call_subscribe connection (sm_track st)) s in
        activate_streams env ms connection sts
          (if av_subscribe_conn env connection (sm_track st) then s else queue_error env Q_STATE (ms_no_subscription ms) s))"

definition activate_subscriptions :: "api_env \<Rightarrow> api_messages \<Rightarrow> nat \<Rightarrow> api_state \<Rightarrow> api_state" where
  "activate_subscriptions env ms connection s = activate_streams env ms connection (qe_streams (as_endpoint s)) s"

definition mark_peer_ready :: "api_env \<Rightarrow> api_messages \<Rightarrow> nat \<Rightarrow> api_state \<Rightarrow> api_state" where
  "mark_peer_ready env ms connection s =
     (let (peer, s) = add_peer env (ms_no_peer ms) connection s in
      case peer of None \<Rightarrow> s
      | Some i \<Rightarrow>
        if pr_ready (qe_peers (as_endpoint s) ! i) then s
        else let s = on_endpoint (\<lambda>ep. ep\<lparr>qe_peers := (qe_peers ep)[i := (qe_peers ep ! i)\<lparr>pr_ready := True\<rparr>],
                 qe_ready_peers := sz_add (qe_ready_peers ep) 1\<rparr>) s;
               s = activate_subscriptions env ms connection s in
          snd (queue_on env (plain_event PEER_READY (qe_handle (as_endpoint s)) (pr_id (qe_peers (as_endpoint s) ! i)) Q_OK) [] None s))"

datatype transport_event =
  T_connected
| T_disconnected disconnect_info
| T_subscribe moq_track_id
| T_unsubscribe moq_track_id
| T_object received
| T_auth bytes
| T_auth_complete bool
| T_keyframe_request moq_track_id
| T_object_lost moq_track_id u64 u64

definition peer_rejected :: "api_env \<Rightarrow> nat \<Rightarrow> api_state \<Rightarrow> api_state" where
  "peer_rejected env conn s = snd (queue_on env (plain_event PEER_REJECTED (qe_handle (as_endpoint s))
     (peer_id env (as_endpoint s) conn) Q_STATE) [] None s)"

definition subscriber_event :: "api_env \<Rightarrow> api_event_type \<Rightarrow> nat \<Rightarrow> moq_track_id \<Rightarrow> api_state \<Rightarrow> api_state" where
  "subscriber_event env ty conn track s =
     (let ep = as_endpoint s; stream = map_option (\<lambda>i. sm_handle (qe_streams ep ! i)) (find_stream ep track STREAM_PUBLISH) in
      snd (queue_on env (fill_event_stream track stream (plain_event ty (qe_handle ep) (peer_id env ep conn) Q_OK)) [] None s))"

definition on_transport_event :: "api_env \<Rightarrow> api_messages \<Rightarrow> nat \<Rightarrow> transport_event \<Rightarrow> api_state \<Rightarrow> api_state" where
  "on_transport_event env ms conn source s =
     (if \<not> qe_active (as_endpoint s) then s
      else case source of
        T_connected \<Rightarrow>
          let s = snd (add_peer env (ms_no_peer ms) conn s) in
          if \<not> qe_listener (as_endpoint s)
          then let s = called (Call_send_auth conn (qe_shared_secret (as_endpoint s))) s in
            if av_send_auth env conn then s else queue_error env Q_STATE (ms_no_auth ms) s
          else s
      | T_auth token \<Rightarrow>
          let accepted = (qe_listener (as_endpoint s) \<and> secret_equal (qe_shared_secret (as_endpoint s)) token);
              s = called (Call_respond_auth conn accepted) s in
          if \<not> av_respond_auth env conn accepted then queue_error env Q_STATE (ms_no_response ms) s
          else if accepted then mark_peer_ready env ms conn s else peer_rejected env conn s
      | T_auth_complete success \<Rightarrow> if success then mark_peer_ready env ms conn s else peer_rejected env conn s
      | T_disconnected d \<Rightarrow>
          let ep = as_endpoint s;
              was_ready = (case find_peer ep conn of None \<Rightarrow> False | Some i \<Rightarrow> pr_ready (qe_peers ep ! i));
              ev = (plain_event PEER_DISCONNECTED (qe_handle ep) (peer_id env ep conn) Q_OK)
                \<lparr>ev_disconnect := d\<lparr>dc_was_ready := was_ready, dc_outgoing := \<not> qe_listener ep, dc_reason := None\<rparr>\<rparr>;
              reason = (case dc_reason d of Some r \<Rightarrow> if r \<noteq> [] then r else ms_unspecified ms | None \<Rightarrow> ms_unspecified ms) in
          on_endpoint (remove_peer conn) (snd (queue_on env ev [] (Some reason) s))
      | T_subscribe track \<Rightarrow> subscriber_event env SUBSCRIBER_JOINED conn track s
      | T_unsubscribe track \<Rightarrow> subscriber_event env SUBSCRIBER_LEFT conn track s
      | T_keyframe_request track \<Rightarrow> subscriber_event env KEYFRAME_REQUESTED conn track s
      | T_object ob \<Rightarrow> queue_received_object env ms (ob\<lparr>rv_connection := conn\<rparr>) s
      | T_object_lost track group_id object_id \<Rightarrow>
          let ep = as_endpoint s; i = find_stream ep track STREAM_SUBSCRIBE;
              ev = fill_event_stream track (map_option (\<lambda>i. sm_handle (qe_streams ep ! i)) i)
                ((plain_event RECORD_LOST (qe_handle ep) (peer_id env ep conn) Q_OK)
                  \<lparr>ev_record := zero_record\<lparr>rc_group_id := group_id, rc_sequence := object_id\<rparr>\<rparr>);
              s = (case i of None \<Rightarrow> s | Some i \<Rightarrow>
                on_endpoint (update_stream i (\<lambda>st. st\<lparr>sm_objects_lost := sz_add (sm_objects_lost st) 1\<rparr>)) s) in
          snd (queue_on env ev [] None s))"

section \<open>Operations on streams\<close>

record stream_config =
  sg_content_type :: u32
  sg_delivery :: u32
  sg_name :: bytes

text \<open>
  \<open>calloc_stream\<close> is the address of the new stream. A configuration without a name, or a NULL one, is
  the value \<open>None\<close>. The name is the string without its terminator.
\<close>

definition name_array :: "bytes \<Rightarrow> bytes" where
  "name_array name = fill_array 64 name"

fun subscribe_peers :: "api_env \<Rightarrow> api_messages \<Rightarrow> moq_track_id \<Rightarrow> peer_state list \<Rightarrow> bool \<Rightarrow> api_state \<Rightarrow> bool \<times> api_state" where
  "subscribe_peers env ms track [] failed s = (failed, s)"
| "subscribe_peers env ms track (p # ps) failed s =
     (if \<not> pr_ready p then subscribe_peers env ms track ps failed s
      else let s = called (Call_subscribe (pr_connection p) track) s in
        if av_subscribe_conn env (pr_connection p) track then subscribe_peers env ms track ps failed s
        else subscribe_peers env ms track ps True (queue_error env Q_STATE (ms_no_subscription ms) s))"

definition open_stream :: "api_env \<Rightarrow> api_messages \<Rightarrow> nat option \<Rightarrow> stream_config option \<Rightarrow> stream_direction \<Rightarrow> api_state \<Rightarrow>
    nat option \<times> api_state" where
  "open_stream env ms calloc_stream config direction s =
     (let fail = (\<lambda>status. (None, s\<lparr>as_queue := set_status status (as_queue s)\<rparr>)); ep = as_endpoint s in
      case config of None \<Rightarrow> fail Q_INVALID
      | Some config \<Rightarrow>
        if \<not> qe_active ep \<or> \<not> qe_has_transport ep \<or> sg_name config = [] \<or> length (sg_name config) \<ge> 64 \<or>
           \<not> content_type_valid (sg_content_type config) \<or> \<not> delivery_valid (sg_delivery config) then fail Q_INVALID
        else let track = \<lparr>ti_type = sg_content_type config, ti_flags = delivery_flags (sg_delivery config),
                   ti_name = name_array (sg_name config)\<rparr> in
        if list_ex (\<lambda>e. sm_active e \<and> sm_direction e = direction \<and> ti_type (sm_track e) = ti_type track \<and>
             strcmp_eq (ti_name (sm_track e)) (ti_name track)) (qe_streams ep) then fail Q_STATE
        else case calloc_stream of None \<Rightarrow> fail Q_NO_MEMORY
        | Some h \<Rightarrow>
          let stream = \<lparr>sm_handle = h, sm_track = track, sm_content_type = sg_content_type config, sm_delivery = sg_delivery config,
                 sm_direction = direction, sm_open = True, sm_records_sent = 0, sm_records_received = 0, sm_objects_lost = 0,
                 sm_writable_known = False, sm_last_writable = False, sm_active = True\<rparr>;
              s = on_endpoint (\<lambda>ep. ep\<lparr>qe_streams := stream # qe_streams ep, qe_service_pending := True\<rparr>) s;
              (failed, s) = (if direction = STREAM_SUBSCRIBE then subscribe_peers env ms track (qe_peers ep) False s else (False, s)) in
          (Some h, if failed then s else s\<lparr>as_queue := set_status Q_OK (as_queue s)\<rparr>))"

definition qlinq_stream_close :: "nat \<Rightarrow> api_state \<Rightarrow> api_state" where
  "qlinq_stream_close i s =
     (let st = qe_streams (as_endpoint s) ! i in
      if \<not> sm_active st then s
      else let s = on_endpoint (\<lambda>ep. ep\<lparr>qe_service_pending := True\<rparr>) s;
             s = (if sm_direction st = STREAM_SUBSCRIBE \<and> qe_has_transport (as_endpoint s)
               then called (Call_unsubscribe (sm_track st)) s else s) in
        on_endpoint (update_stream i (\<lambda>st. st\<lparr>sm_open := False, sm_active := False\<rparr>)) s)"

definition qlinq_stream_is_writable :: "api_env \<Rightarrow> nat \<Rightarrow> api_endpoint \<Rightarrow> bool" where
  "qlinq_stream_is_writable env i ep = (let st = qe_streams ep ! i in
     sm_active st \<and> sm_open st \<and> sm_direction st = STREAM_PUBLISH \<and> qe_has_transport ep \<and> av_track_ready env (sm_track st))"

datatype send_result = SEND_SENT | SEND_BUFFERED | SEND_NO_SUBSCRIBERS | SEND_PARTIAL | SEND_WOULD_BLOCK | SEND_INVALID | SEND_FAILED

definition map_send_result :: "publish_result \<Rightarrow> send_result" where
  "map_send_result r = (case r of DELIVERED \<Rightarrow> SEND_SENT | BUFFERED \<Rightarrow> SEND_BUFFERED | NO_RECIPIENTS \<Rightarrow> SEND_NO_SUBSCRIBERS
     | PARTIAL \<Rightarrow> SEND_PARTIAL | BACKPRESSURE \<Rightarrow> SEND_WOULD_BLOCK | INVALID_OBJECT \<Rightarrow> SEND_INVALID | PUBLISH_ERROR \<Rightarrow> SEND_FAILED)"

definition record_object :: "moq_track_id \<Rightarrow> api_record \<Rightarrow> moq_object" where
  "record_object track r = \<lparr>ob_track_id = track, ob_group_id = rc_group_id r, ob_object_id = rc_sequence r,
     ob_data = map_option (\<lambda>d. \<lparr>pl_address = 0, pl_bytes = d\<rparr>) (rc_data r), ob_is_keyframe = rc_keyframe r, ob_priority = rc_priority r\<rparr>"

text \<open>\<open>publish\<close> is \<open>transport_publish_ex\<close> of the transport under the endpoint.\<close>

definition qlinq_stream_send :: "(moq_object \<Rightarrow> publish_result) \<Rightarrow> nat \<Rightarrow> api_record \<Rightarrow> api_endpoint \<Rightarrow> send_result \<times> api_endpoint" where
  "qlinq_stream_send publish i r ep =
     (let st = qe_streams ep ! i in
      if \<not> sm_active st \<or> \<not> sm_open st \<or> sm_direction st \<noteq> STREAM_PUBLISH \<or> \<not> qe_has_transport ep \<or>
         (rc_size r \<noteq> 0 \<and> rc_data r = None) then (SEND_INVALID, ep)
      else let ep = ep\<lparr>qe_service_pending := True\<rparr>; mapped = map_send_result (publish (record_object (sm_track st) r));
             ep = (if mapped = SEND_SENT \<or> mapped = SEND_BUFFERED \<or> mapped = SEND_PARTIAL
               then update_stream i (\<lambda>st. st\<lparr>sm_records_sent := sz_add (sm_records_sent st) 1\<rparr>) ep else ep);
             ep = (if mapped = SEND_WOULD_BLOCK
               then update_stream i (\<lambda>st. st\<lparr>sm_writable_known := True, sm_last_writable := False\<rparr>) ep else ep) in
        (mapped, ep))"

section \<open>Writable events\<close>

definition writable_event :: "nat \<Rightarrow> api_stream \<Rightarrow> api_event" where
  "writable_event endpoint st = (plain_event STREAM_WRITABLE endpoint 0 Q_OK)
     \<lparr>ev_stream := Some (sm_handle st), ev_content_type := sm_content_type st, ev_delivery := sm_delivery st,
      ev_stream_name := take 63 (ti_name (sm_track st)) @ [0]\<rparr>"

definition refresh_stream :: "api_env \<Rightarrow> nat \<Rightarrow> api_stream \<Rightarrow> event_queue \<Rightarrow> api_stream \<times> event_queue" where
  "refresh_stream env endpoint st q =
     (if \<not> sm_active st \<or> sm_direction st \<noteq> STREAM_PUBLISH \<or> \<not> sm_open st then (st, q)
      else let writable = av_track_ready env (sm_track st);
             became_writable = (writable \<and> (\<not> sm_writable_known st \<or> \<not> sm_last_writable st));
             st = st\<lparr>sm_writable_known := True, sm_last_writable := writable\<rparr> in
        if \<not> became_writable then (st, q)
        else let (ok, q) = queue_event env (writable_event endpoint st) [] None q in
          (if ok then st else st\<lparr>sm_writable_known := False\<rparr>, q))"

fun refresh_streams :: "api_env \<Rightarrow> nat \<Rightarrow> api_stream list \<Rightarrow> event_queue \<Rightarrow> api_stream list \<times> event_queue" where
  "refresh_streams env endpoint [] q = ([], q)"
| "refresh_streams env endpoint (st # sts) q =
     (let (st, q) = refresh_stream env endpoint st q; (sts, q) = refresh_streams env endpoint sts q in (st # sts, q))"

text \<open>The transports of the endpoints answer differently: \<open>env\<close> is a function of the endpoint.\<close>

fun refresh_writable_events :: "(nat \<Rightarrow> api_env) \<Rightarrow> api_endpoint list \<Rightarrow> event_queue \<Rightarrow> api_endpoint list \<times> event_queue" where
  "refresh_writable_events env [] q = ([], q)"
| "refresh_writable_events env (ep # eps) q =
     (let (ep, q) = (if \<not> qe_active ep \<or> \<not> qe_has_transport ep then (ep, q)
        else let (sts, q) = refresh_streams (env (qe_handle ep)) (qe_handle ep) (qe_streams ep) q in (ep\<lparr>qe_streams := sts\<rparr>, q));
        (eps, q) = refresh_writable_events env eps q in (ep # eps, q))"

end
