(* ===== verification/Service.thy ===== *)
theory Service
  imports Api
begin

text \<open>
  Contexts and endpoints of src/common/qlinq.c: creation, the service loop and the operations on an
  endpoint. What \<open>transport_tick\<close> reports, the clock and \<open>poll\<close> are arguments.
\<close>

record api_context =
  cx_endpoints :: "api_endpoint list"
  cx_queue :: event_queue
  cx_poll_capacity :: nat
  cx_calls :: "(nat \<times> transport_call) list"

abbreviation (input) "DEFAULT_EVENT_COUNT \<equiv> (1024 :: nat)"
abbreviation (input) "DEFAULT_EVENT_BYTES \<equiv> (67108864 :: nat)"

text \<open>A missing configuration is two zeros. \<open>ready\<close> tells that memory and the socket layer are there.\<close>

definition qlinq_context_create :: "api_env \<Rightarrow> bool \<Rightarrow> nat \<Rightarrow> nat \<Rightarrow> api_context option" where
  "qlinq_context_create env ready max_events max_bytes =
     (let max_events = (if max_events \<noteq> 0 then max_events else DEFAULT_EVENT_COUNT);
          max_bytes = (if max_bytes \<noteq> 0 then max_bytes else DEFAULT_EVENT_BYTES) in
      if \<not> ready \<or> max_events = 0 \<or> max_bytes < av_node_size env then None
      else Some \<lparr>cx_endpoints = [], cx_queue = \<lparr>eq_nodes = [], eq_queued_events = 0, eq_queued_bytes = 0,
             eq_max_events = max_events, eq_max_bytes = max_bytes, eq_last_status = Q_OK\<rparr>,
             cx_poll_capacity = 0, cx_calls = []\<rparr>)"

definition cx_status :: "api_status \<Rightarrow> api_context \<Rightarrow> api_context" where
  "cx_status s cx = cx\<lparr>cx_queue := set_status s (cx_queue cx)\<rparr>"

section \<open>Endpoints\<close>

text \<open>The settings that are only passed on to \<open>transport_create\<close> (timing, limits, trust store) are left out.\<close>

record endpoint_config =
  eg_bind_addresses :: "bytes option list"
  eg_remote_addresses :: "bytes option list"
  eg_port :: u16
  eg_certificate :: "bytes option"
  eg_private_key :: "bytes option"
  eg_shared_secret :: "bytes option"
  eg_shared_secret_size :: nat
  eg_repair_mode :: u32

abbreviation (input) "QLINQ_MAX_PATHS \<equiv> (4 :: nat)"

definition endpoint_config_valid :: "endpoint_config \<Rightarrow> bool \<Rightarrow> bool" where
  "endpoint_config_valid c listener \<longleftrightarrow> \<not> (eg_port c = 0 \<or>
     eg_bind_addresses c = [] \<or> length (eg_bind_addresses c) > QLINQ_MAX_PATHS \<or> length (eg_remote_addresses c) > QLINQ_MAX_PATHS \<or>
     (listener \<and> eg_remote_addresses c \<noteq> []) \<or> (\<not> listener \<and> eg_remote_addresses c = []) \<or>
     (listener \<and> (eg_certificate c = None \<or> eg_private_key c = None)) \<or>
     (eg_shared_secret_size c \<noteq> 0 \<and> eg_shared_secret c = None) \<or> eg_shared_secret_size c > 65535 \<or>
     (eg_repair_mode c \<noteq> 0 \<and> eg_repair_mode c \<noteq> 1 \<and> eg_repair_mode c \<noteq> 2)) \<and>
     list_all (\<lambda>a. a \<noteq> None) (eg_bind_addresses c) \<and> list_all (\<lambda>a. a \<noteq> None) (eg_remote_addresses c)"

text \<open>
  \<open>calloc_endpoint\<close> is the address of the endpoint, \<open>malloc_secret\<close> and \<open>created\<close> tell whether the memory
  for the secret and the transport were obtained.
\<close>

definition open_endpoint :: "nat option \<Rightarrow> bool \<Rightarrow> bool \<Rightarrow> endpoint_config option \<Rightarrow> bool \<Rightarrow> api_context \<Rightarrow> nat option \<times> api_context" where
  "open_endpoint calloc_endpoint malloc_secret created config listener cx =
     (case config of None \<Rightarrow> (None, cx_status Q_INVALID cx)
      | Some c \<Rightarrow>
        if \<not> endpoint_config_valid c listener then (None, cx_status Q_INVALID cx)
        else case calloc_endpoint of None \<Rightarrow> (None, cx_status Q_NO_MEMORY cx)
        | Some h \<Rightarrow>
          if eg_shared_secret_size c \<noteq> 0 \<and> \<not> malloc_secret then (None, cx_status Q_NO_MEMORY cx)
          else if \<not> created then (None, cx_status Q_IO cx)
          else let ep = \<lparr>qe_handle = h, qe_has_transport = True, qe_streams = [], qe_peers = [],
                 qe_shared_secret = (if eg_shared_secret_size c \<noteq> 0 then take (eg_shared_secret_size c) (the (eg_shared_secret c)) else []),
                 qe_ready_peers = 0, qe_endpoint_records_received = 0, qe_last_service_ms = 0, qe_service_pending = True,
                 qe_listener = listener, qe_active = True\<rparr> in
            (Some h, cx_status Q_OK (cx\<lparr>cx_endpoints := ep # cx_endpoints cx\<rparr>)))"

definition qlinq_endpoint_close :: "api_endpoint \<Rightarrow> api_endpoint" where
  "qlinq_endpoint_close ep =
     (if \<not> qe_active ep then ep
      else ep\<lparr>qe_active := False, qe_streams := map (\<lambda>st. st\<lparr>sm_open := False, sm_active := False\<rparr>) (qe_streams ep),
        qe_has_transport := False, qe_peers := [], qe_ready_peers := 0\<rparr>)"

section \<open>The service loop\<close>

text \<open>One sweep over an endpoint: the transport reports the events \<open>reports\<close>, each with its connection.\<close>

definition service_endpoint :: "api_env \<Rightarrow> api_messages \<Rightarrow> int \<Rightarrow> (nat \<times> transport_event) list \<Rightarrow> api_state \<Rightarrow> api_state" where
  "service_endpoint env ms now reports s =
     foldl (\<lambda>s (conn, ev). on_transport_event env ms conn ev s)
       (on_endpoint (\<lambda>ep. ep\<lparr>qe_last_service_ms := now, qe_service_pending := False\<rparr>) s) reports"

definition serve :: "api_env \<Rightarrow> api_messages \<Rightarrow> int \<Rightarrow> (nat \<times> transport_event) list \<Rightarrow> api_endpoint \<Rightarrow> event_queue \<Rightarrow>
    api_endpoint \<times> event_queue \<times> transport_call list" where
  "serve env ms now reports ep q =
     (let s = service_endpoint env ms now reports \<lparr>as_endpoint = ep, as_queue = q, as_calls = []\<rparr> in
      (as_endpoint s, as_queue s, as_calls s))"

definition in_service :: "api_endpoint \<Rightarrow> bool" where
  "in_service ep \<longleftrightarrow> qe_active ep \<and> qe_has_transport ep"

text \<open>\<open>due\<close> selects the endpoints of a pass; the others are left alone.\<close>

fun sweep :: "(nat \<Rightarrow> api_env) \<Rightarrow> api_messages \<Rightarrow> int \<Rightarrow> (nat \<Rightarrow> (nat \<times> transport_event) list) \<Rightarrow> (api_endpoint \<Rightarrow> bool) \<Rightarrow>
    api_endpoint list \<Rightarrow> event_queue \<Rightarrow> api_endpoint list \<times> event_queue \<times> (nat \<times> transport_call) list" where
  "sweep env ms now reports due [] q = ([], q, [])"
| "sweep env ms now reports due (ep # eps) q =
     (let (ep, q, calls) = (if in_service ep \<and> due ep then serve (env (qe_handle ep)) ms now (reports (qe_handle ep)) ep q
        else (ep, q, []));
          (eps, q, calls') = sweep env ms now reports due eps q in
      (ep # eps, q, map (Pair (qe_handle ep)) calls @ calls'))"

definition sweep_context :: "(nat \<Rightarrow> api_env) \<Rightarrow> api_messages \<Rightarrow> int \<Rightarrow> (nat \<Rightarrow> (nat \<times> transport_event) list) \<Rightarrow> (api_endpoint \<Rightarrow> bool) \<Rightarrow>
    api_context \<Rightarrow> api_context" where
  "sweep_context env ms now reports due cx =
     (let (eps, q, calls) = sweep env ms now reports due (cx_endpoints cx) (cx_queue cx) in
      cx\<lparr>cx_endpoints := eps, cx_queue := q, cx_calls := cx_calls cx @ calls\<rparr>)"

definition refresh_context :: "(nat \<Rightarrow> api_env) \<Rightarrow> api_context \<Rightarrow> api_context" where
  "refresh_context env cx = (let (eps, q) = refresh_writable_events env (cx_endpoints cx) (cx_queue cx) in
     cx\<lparr>cx_endpoints := eps, cx_queue := q\<rparr>)"

definition reported :: "api_status \<Rightarrow> api_status" where
  "reported s = (if status_negative s then s else Q_OK)"

text \<open>The time to wait: \<open>deadlines\<close> are those of the endpoints in service, negative for none.\<close>

abbreviation (input) "INT_MAX \<equiv> (2147483647 :: int)"

definition wait_step :: "int \<Rightarrow> int \<Rightarrow> int \<Rightarrow> int" where
  "wait_step now wait_ms deadline =
     (if deadline < 0 then wait_ms
      else let remaining = (if deadline \<le> now then 0 else deadline - now);
               timer_wait = (if remaining > INT_MAX then INT_MAX else remaining) in
        if wait_ms < 0 \<or> timer_wait < wait_ms then timer_wait else wait_ms)"

text \<open>
  \<open>poll\<close> gets the time to wait and answers with \<open>None\<close> for an error, whether that was an interruption, or
  the number of ready sockets and which endpoints own one.
\<close>

datatype poll_answer = Poll_failed bool | Polled int "nat \<Rightarrow> bool"

record service_env =
  sv_now :: int
  sv_poll_now :: int
  sv_after_now :: int
  sv_deadline :: "nat \<Rightarrow> int"
  sv_reports :: "nat \<Rightarrow> (nat \<times> transport_event) list"
  sv_reports_after :: "nat \<Rightarrow> (nat \<times> transport_event) list"
  sv_poll :: "int \<Rightarrow> poll_answer"
  sv_calloc :: bool

definition due_now :: "service_env \<Rightarrow> api_endpoint \<Rightarrow> bool" where
  "due_now sv ep \<longleftrightarrow> qe_service_pending ep \<or> qe_last_service_ms ep \<noteq> sv_now sv"

definition service_wait :: "service_env \<Rightarrow> int \<Rightarrow> api_context \<Rightarrow> int" where
  "service_wait sv timeout_ms cx = foldl (wait_step (sv_poll_now sv)) timeout_ms
     (map (\<lambda>ep. sv_deadline sv (qe_handle ep)) (filter in_service (cx_endpoints cx)))"

definition due_after :: "service_env \<Rightarrow> int \<Rightarrow> (nat \<Rightarrow> bool) \<Rightarrow> api_endpoint \<Rightarrow> bool" where
  "due_after sv result revents ep \<longleftrightarrow> result = 0 \<or>
     (sv_deadline sv (qe_handle ep) \<ge> 0 \<and> sv_deadline sv (qe_handle ep) \<le> sv_after_now sv) \<or> revents (qe_handle ep)"

definition service_poll :: "(nat \<Rightarrow> api_env) \<Rightarrow> api_messages \<Rightarrow> service_env \<Rightarrow> int \<Rightarrow> api_context \<Rightarrow> api_status \<times> api_context" where
  "service_poll env ms sv timeout_ms cx =
     (case sv_poll sv (service_wait sv timeout_ms cx) of
        Poll_failed interrupted \<Rightarrow> if interrupted then (Q_AGAIN, cx_status Q_AGAIN cx) else (Q_IO, cx_status Q_IO cx)
      | Polled result revents \<Rightarrow>
        let cx = sweep_context env ms (sv_after_now sv) (sv_reports_after sv) (due_after sv result revents) cx;
            cx = refresh_context env cx in
        if status_negative (eq_last_status (cx_queue cx)) then (eq_last_status (cx_queue cx), cx)
        else (Q_OK, cx_status Q_OK cx))"

abbreviation (input) "MAX_POLL_FDS \<equiv> (5 :: nat)"

definition qlinq_service :: "(nat \<Rightarrow> api_env) \<Rightarrow> api_messages \<Rightarrow> service_env \<Rightarrow> int \<Rightarrow> api_context \<Rightarrow> api_status \<times> api_context" where
  "qlinq_service env ms sv timeout_ms cx =
     (if timeout_ms < -1 then (Q_INVALID, cx)
      else if eq_nodes (cx_queue cx) \<noteq> [] then (reported (eq_last_status (cx_queue cx)), cx)
      else let cx = cx_status Q_OK cx;
               endpoint_count = length (filter in_service (cx_endpoints cx));
               cx = refresh_context env (sweep_context env ms (sv_now sv) (sv_reports sv) (due_now sv) cx) in
        if eq_nodes (cx_queue cx) \<noteq> [] then (reported (eq_last_status (cx_queue cx)), cx)
        else if endpoint_count = 0 then (Q_STATE, cx_status Q_STATE cx)
        else if endpoint_count > SIZE_MAX div 32 \<or> endpoint_count > SIZE_MAX div MAX_POLL_FDS \<or>
             endpoint_count * MAX_POLL_FDS > SIZE_MAX div 8 then (Q_RESOURCE_LIMIT, cx_status Q_RESOURCE_LIMIT cx)
        else if endpoint_count > cx_poll_capacity cx \<and> \<not> sv_calloc sv then (Q_NO_MEMORY, cx_status Q_NO_MEMORY cx)
        else service_poll env ms sv timeout_ms (cx\<lparr>cx_poll_capacity := max endpoint_count (cx_poll_capacity cx)\<rparr>))"

text \<open>
  The accessor of peers: \<open>conn_stats\<close> tells whether the transport has statistics of a connection; the
  values it copies from them are left out.
\<close>

record peer_info =
  pf_peer_id :: u32
  pf_outgoing :: bool
  pf_ready :: bool

definition qlinq_endpoint_get_peer :: "(nat \<Rightarrow> bool) \<Rightarrow> u32 \<Rightarrow> api_endpoint \<Rightarrow> peer_info option" where
  "qlinq_endpoint_get_peer conn_stats i ep =
     (if \<not> qe_active ep \<or> \<not> qe_has_transport ep \<or> i = 0 then None
      else case first_index (\<lambda>p. pr_id p = i) (qe_peers ep) of None \<Rightarrow> None
      | Some j \<Rightarrow> if \<not> conn_stats (pr_connection (qe_peers ep ! j)) then None
          else Some \<lparr>pf_peer_id = i, pf_outgoing = \<not> qe_listener ep, pf_ready = pr_ready (qe_peers ep ! j)\<rparr>)"

end
