(* ===== verification/Interface.thy ===== *)
theory Interface
  imports Service Records
begin

text \<open>
  What the application interface promises: events come out in order within the limits, a grouped
  object is split into exactly its records or the connection is closed, only peers that authenticated
  become ready and are subscribed to, writable events are edges, and the service loop waits for no
  longer than asked.
\<close>

section \<open>The event queue is a bounded queue\<close>

definition queue_ok :: "event_queue \<Rightarrow> bool" where
  "queue_ok q \<longleftrightarrow> eq_queued_events q = length (eq_nodes q) \<and>
     eq_queued_bytes q = sum_list (map nd_allocation_size (eq_nodes q)) \<and>
     eq_queued_events q \<le> eq_max_events q \<and> eq_queued_bytes q \<le> eq_max_bytes q \<and>
     eq_max_events q \<le> SIZE_MAX \<and> eq_max_bytes q \<le> SIZE_MAX"

definition append_node :: "event_queue \<Rightarrow> event_node \<Rightarrow> event_queue option" where
  "append_node q node =
     (if eq_queued_events q < eq_max_events q \<and> eq_queued_bytes q + nd_allocation_size node \<le> eq_max_bytes q
      then Some (q\<lparr>eq_nodes := eq_nodes q @ [node], eq_queued_events := eq_queued_events q + 1,
        eq_queued_bytes := eq_queued_bytes q + nd_allocation_size node\<rparr>)
      else None)"

definition take_node :: "event_queue \<Rightarrow> (event_node \<times> event_queue) option" where
  "take_node q = (case eq_nodes q of [] \<Rightarrow> None
     | node # nodes \<Rightarrow> Some (node, q\<lparr>eq_nodes := nodes, eq_queued_events := eq_queued_events q - 1,
         eq_queued_bytes := eq_queued_bytes q - nd_allocation_size node\<rparr>))"

interpretation events: bounded_fifo queue_ok eq_nodes nd_allocation_size eq_max_events eq_max_bytes append_node take_node
  by unfold_locales (auto simp: queue_ok_def append_node_def take_node_def split: list.splits if_splits)

text \<open>The code's operations are those of the interface, up to the status word.\<close>

definition node_of :: "api_env \<Rightarrow> api_event \<Rightarrow> bytes \<Rightarrow> bytes option \<Rightarrow> event_node" where
  "node_of env ev payload message = \<lparr>nd_allocation_size = av_node_size env + length payload + message_bytes message,
     nd_event = owned_event ev payload message\<rparr>"

lemma queue_ok_status [simp]: "queue_ok (set_status s q) = queue_ok q" "eq_nodes (set_status s q) = eq_nodes q"
  "eq_max_events (set_status s q) = eq_max_events q" "eq_max_bytes (set_status s q) = eq_max_bytes q"
  "eq_last_status (set_status s q) = s"
  by (simp_all add: queue_ok_def set_status_def)

lemma queue_event_result:
  assumes "queue_ok q"
  shows "(\<exists>s. queue_event env ev payload message q = (False, set_status s q)) \<or>
    (\<exists>q'. append_node q (node_of env ev payload message) = Some q' \<and> queue_event env ev payload message q = (True, q'))"
proof -
  let ?n = "node_of env ev payload message"
  have fits: "append_node q ?n = Some (q\<lparr>eq_nodes := eq_nodes q @ [?n], eq_queued_events := sz_add (eq_queued_events q) 1,
        eq_queued_bytes := sz_add (eq_queued_bytes q) (nd_allocation_size ?n)\<rparr>)"
    if "\<not> (eq_queued_events q \<ge> eq_max_events q \<or> eq_queued_bytes q > eq_max_bytes q \<or>
         nd_allocation_size ?n > eq_max_bytes q - eq_queued_bytes q)"
    using that assms by (simp add: append_node_def queue_ok_def no_wrap) linarith
  show ?thesis
    unfolding queue_event_def Let_def using fits by (auto simp: node_of_def)
qed

lemma queue_event_refused: "queue_event env ev payload message q = (False, q') \<Longrightarrow> status_negative (eq_last_status q')"
  by (auto simp: queue_event_def Let_def status_negative_def split: if_splits)

lemma next_event_result:
  assumes "queue_ok q"
  shows "qlinq_next_event q = map_option (\<lambda>(n, q). (nd_event n, q)) (take_node q)"
  using assms by (auto simp: qlinq_next_event_def take_node_def queue_ok_def no_wrap split: list.splits)

datatype queue_op = Post api_event bytes "bytes option" | Take

text \<open>The state of a run: the queue, the events accepted and the events handed out.\<close>

definition queue_step :: "api_env \<Rightarrow> queue_op \<Rightarrow> event_queue \<times> api_event list \<times> api_event list \<Rightarrow>
    event_queue \<times> api_event list \<times> api_event list" where
  "queue_step env op s = (case s of (q, posted, taken) \<Rightarrow> (case op of
     Post ev payload message \<Rightarrow> let (ok, q) = queue_event env ev payload message q in
       (q, if ok then posted @ [owned_event ev payload message] else posted, taken)
   | Take \<Rightarrow> (case qlinq_next_event q of None \<Rightarrow> (q, posted, taken) | Some (ev, q) \<Rightarrow> (q, posted, taken @ [ev]))))"

definition queue_run :: "api_env \<Rightarrow> event_queue \<Rightarrow> queue_op list \<Rightarrow> event_queue \<times> api_event list \<times> api_event list" where
  "queue_run env q ops = foldl (\<lambda>s op. queue_step env op s) (q, [], []) ops"

definition run_invariant :: "nat \<Rightarrow> nat \<Rightarrow> event_queue \<times> api_event list \<times> api_event list \<Rightarrow> bool" where
  "run_invariant m b s \<longleftrightarrow> (case s of (q, posted, taken) \<Rightarrow> queue_ok q \<and> taken @ map nd_event (eq_nodes q) = posted \<and>
     eq_max_events q = m \<and> eq_max_bytes q = b)"

lemma queue_step_keeps:
  assumes "run_invariant m b s"
  shows "run_invariant m b (queue_step env op s)"
proof -
  obtain q posted taken where s: "s = (q, posted, taken)" by (rule prod_cases3)
  note i = assms [unfolded run_invariant_def s prod.case]
  show ?thesis
  proof (cases op)
    case (Post ev payload message)
    from queue_event_result [OF conjunct1 [OF i], of env ev payload message] show ?thesis
    proof (elim disjE exE conjE)
      fix st assume "queue_event env ev payload message q = (False, set_status st q)"
      then show ?thesis using i by (simp add: queue_step_def s Post run_invariant_def)
    next
      fix q1 assume a: "append_node q (node_of env ev payload message) = Some q1" "queue_event env ev payload message q = (True, q1)"
      show ?thesis using events.enq_items [OF conjunct1 [OF i] a(1)] a(2) i
        by (simp add: queue_step_def s Post run_invariant_def node_of_def flip: append_assoc)
    qed
  next
    case Take
    show ?thesis
    proof (cases "take_node q")
      case None
      then show ?thesis using i next_event_result [OF conjunct1 [OF i]] by (simp add: queue_step_def s Take run_invariant_def)
    next
      case (Some p)
      obtain n q1 where p: "p = (n, q1)" by (rule prod.exhaust)
      show ?thesis using events.deq_items [OF conjunct1 [OF i]] next_event_result [OF conjunct1 [OF i]] i Some p
        by (auto simp: queue_step_def s Take run_invariant_def)
    qed
  qed
qed

lemma queue_run_order:
  assumes "queue_ok q" "eq_nodes q = []"
  shows "run_invariant (eq_max_events q) (eq_max_bytes q) (queue_run env q ops)"
proof -
  have "run_invariant m b s \<Longrightarrow> run_invariant m b (foldl (\<lambda>s op. queue_step env op s) s ops)" for m b s
    by (induction ops arbitrary: s) (simp_all add: queue_step_keeps)
  then show ?thesis using assms by (simp add: queue_run_def run_invariant_def)
qed

text \<open>
  C14. The event queue delivers in order and within its limits. Over any interleaving of queued events
  and calls of \<open>qlinq_next_event\<close> on a fresh context, the events handed out and then those still
  queued are exactly the accepted ones in order, each with its own copy of payload and message;
  the number of events and the bytes of their allocations never exceed the configured limits.
\<close>

theorem api_events_in_order:
  assumes "qlinq_context_create env ready max_events max_bytes = Some cx" "max_events \<le> SIZE_MAX" "max_bytes \<le> SIZE_MAX"
    and "queue_run env (cx_queue cx) ops = (q, posted, taken)"
  shows "taken @ map nd_event (eq_nodes q) = posted \<and> length (eq_nodes q) \<le> eq_max_events (cx_queue cx) \<and>
    sum_list (map nd_allocation_size (eq_nodes q)) \<le> eq_max_bytes (cx_queue cx)"
proof -
  have q0: "queue_ok (cx_queue cx)" "eq_nodes (cx_queue cx) = []"
    using assms(1-3) by (auto simp: qlinq_context_create_def queue_ok_def Let_def SIZE_MAX_def split: if_splits)
  note r = queue_run_order [OF q0, of env ops, unfolded assms(4) run_invariant_def prod.case]
  show ?thesis using r events.within [of q] by auto
qed

section \<open>Grouped records\<close>

text \<open>What counters do not touch.\<close>

definition stream_view :: "api_stream \<Rightarrow> nat \<times> moq_track_id \<times> u32 \<times> stream_direction \<times> bool \<times> bool" where
  "stream_view st = (sm_handle st, sm_track st, sm_delivery st, sm_direction st, sm_open st, sm_active st)"

definition same_shape :: "api_endpoint \<Rightarrow> api_endpoint \<Rightarrow> bool" where
  "same_shape ep ep' \<longleftrightarrow> qe_handle ep' = qe_handle ep \<and> qe_peers ep' = qe_peers ep \<and>
     map stream_view (qe_streams ep') = map stream_view (qe_streams ep)"

lemma same_shape_trans: "same_shape a b \<Longrightarrow> same_shape b c \<Longrightarrow> same_shape a c"
  by (simp add: same_shape_def)

lemma same_shape_length: "same_shape ep ep' \<Longrightarrow> length (qe_streams ep') = length (qe_streams ep)"
  using map_eq_imp_length_eq by (auto simp: same_shape_def)

lemma same_shape_stream:
  assumes "same_shape ep ep'" "i < length (qe_streams ep)"
  shows "stream_view (qe_streams ep' ! i) = stream_view (qe_streams ep ! i)"
  using assms same_shape_length [OF assms(1)] by (metis nth_map same_shape_def)

lemma same_shape_find:
  assumes "same_shape ep ep'"
  shows "find_stream ep' track dir = find_stream ep track dir"
proof -
  have f: "find_stream e track dir = first_index (\<lambda>(h, t, d, r, op, ac). ac \<and> r = dir \<and> ti_type t = ti_type track \<and>
      d = flags_delivery (ti_flags track) \<and> strcmp_eq (ti_name t) (ti_name track)) (map stream_view (qe_streams e))" for e
    by (simp add: find_stream_def first_index_def takeWhile_map stream_view_def comp_def stream_matches_def)
  show ?thesis using assms by (simp add: f same_shape_def)
qed

lemma same_shape_event:
  assumes "same_shape ep ep'" "i < length (qe_streams ep)"
  shows "record_event env ob d i ep' = record_event env ob d i ep"
proof -
  have "qe_peers ep' = qe_peers ep" "qe_handle ep' = qe_handle ep" using assms(1) by (simp_all add: same_shape_def)
  moreover have "sm_handle (qe_streams ep' ! i) = sm_handle (qe_streams ep ! i)"
    using same_shape_stream [OF assms] by (simp add: stream_view_def)
  ultimately show ?thesis by (simp add: record_event_def peer_id_def find_peer_def cong: option.case_cong)
qed

lemma queue_record_result:
  assumes q: "queue_ok (as_queue s)" and i: "find_stream (as_endpoint s) (rv_track_id ob) STREAM_SUBSCRIBE = Some i"
    and open_stream: "sm_open (qe_streams (as_endpoint s) ! i)"
  shows "(\<exists>st. queue_record env ob data s = (False, s\<lparr>as_queue := set_status st (as_queue s)\<rparr>)) \<or>
    (\<exists>s'. queue_record env ob data s = (True, s') \<and> same_shape (as_endpoint s) (as_endpoint s') \<and> queue_ok (as_queue s') \<and>
      eq_nodes (as_queue s') = eq_nodes (as_queue s) @ [node_of env (record_event env ob data i (as_endpoint s)) data None] \<and>
      as_calls s' = as_calls s \<and> qe_endpoint_records_received (as_endpoint s') = sz_add (qe_endpoint_records_received (as_endpoint s)) 1)"
proof -
  let ?ev = "record_event env ob data i (as_endpoint s)"
  from queue_event_result [OF q, of env ?ev data None] show ?thesis
  proof (elim disjE exE conjE)
    fix st assume "queue_event env ?ev data None (as_queue s) = (False, set_status st (as_queue s))"
    then show ?thesis using i open_stream by (intro disjI1 exI [of _ st]) (simp add: queue_record_def queue_on_def)
  next
    fix q' assume a: "append_node (as_queue s) (node_of env ?ev data None) = Some q'" "queue_event env ?ev data None (as_queue s) = (True, q')"
    note e = events.enq_items [OF q a(1)]
    let ?s = "on_endpoint (\<lambda>ep. update_stream i (\<lambda>st. st\<lparr>sm_records_received := sz_add (sm_records_received st) 1\<rparr>)
        (ep\<lparr>qe_endpoint_records_received := sz_add (qe_endpoint_records_received ep) 1\<rparr>)) (s\<lparr>as_queue := q'\<rparr>)"
    have "queue_record env ob data s = (True, ?s)" using a(2) i open_stream by (simp add: queue_record_def queue_on_def)
    moreover have "same_shape (as_endpoint s) (as_endpoint ?s)"
      by (simp add: same_shape_def on_endpoint_def update_stream_def map_update stream_view_def list_update_same_conv flip: map_update)
        (cases "i < length (qe_streams (as_endpoint s))"; simp add: list_eq_iff_nth_eq nth_list_update stream_view_def)
    ultimately show ?thesis using e by (intro disjI2 exI [of _ ?s]) (simp add: on_endpoint_def update_stream_def)
  qed
qed

definition record_nodes :: "api_env \<Rightarrow> received \<Rightarrow> nat \<Rightarrow> api_endpoint \<Rightarrow> bytes list \<Rightarrow> event_node list" where
  "record_nodes env ob i ep rs = map (\<lambda>r. node_of env (record_event env ob r i ep) r None) rs"

text \<open>An error was reported: in the status of the queue, and by an event if there was room for one.\<close>

definition error_reported :: "api_status \<Rightarrow> event_node list \<Rightarrow> event_queue \<Rightarrow> bool" where
  "error_reported st extra q \<longleftrightarrow> status_negative (eq_last_status q) \<and> length extra \<le> 1 \<and>
     (\<forall>x \<in> set extra. ev_type (nd_event x) = ERROR \<and> ev_status (nd_event x) = st)"

text \<open>What is left of a payload after its whole records: nothing, or bytes that are no record.\<close>

definition malformed :: "bytes \<Rightarrow> bool" where
  "malformed tail \<longleftrightarrow> tail \<noteq> [] \<and> (length tail < 2 \<or> unat (read_u16 tail) = 0 \<or> unat (read_u16 tail) > length tail - 2)"

text \<open>
  The records queued are a prefix. If it is not all of them, the connection is closed; a malformed rest is
  reported and the connection stays.
\<close>

definition split_outcome :: "api_env \<Rightarrow> api_messages \<Rightarrow> received \<Rightarrow> nat \<Rightarrow> bytes list \<Rightarrow> bytes \<Rightarrow> api_state \<Rightarrow> api_state \<Rightarrow> bool" where
  "split_outcome env ms ob i rs tail s s' \<longleftrightarrow> (\<exists>n extra. n \<le> length rs \<and>
     eq_nodes (as_queue s') = eq_nodes (as_queue s) @ record_nodes env ob i (as_endpoint s) (take n rs) @ extra \<and>
     (if n < length rs then as_calls s' = as_calls s @ [Call_close (rv_connection ob) (ms_not_recovered ms)] \<and>
        error_reported Q_RESOURCE_LIMIT extra (as_queue s')
      else as_calls s' = as_calls s \<and> (if tail = [] then extra = [] else error_reported Q_INVALID extra (as_queue s'))))"

lemma queue_error_result:
  assumes "queue_ok (as_queue s)" "status_negative st"
  shows "\<exists>extra. eq_nodes (as_queue (queue_error env st m s)) = eq_nodes (as_queue s) @ extra \<and>
    error_reported st extra (as_queue (queue_error env st m s)) \<and>
    as_calls (queue_error env st m s) = as_calls s \<and> as_endpoint (queue_error env st m s) = as_endpoint s \<and> queue_ok (as_queue (queue_error env st m s))"
proof -
  let ?q = "set_status st (as_queue s)" and ?ev = "plain_event ERROR (qe_handle (as_endpoint s)) 0 st"
  have q: "queue_ok ?q" using assms by simp
  from queue_event_result [OF q, of env ?ev "[]" "Some m"] show ?thesis
  proof (elim disjE exE conjE)
    fix st' assume f: "queue_event env ?ev [] (Some m) ?q = (False, set_status st' ?q)"
    then show ?thesis using q queue_event_refused [OF f]
      by (intro exI [of _ "[]"]) (simp add: queue_error_def queue_on_def error_reported_def)
  next
    fix q' assume a: "append_node ?q (node_of env ?ev [] (Some m)) = Some q'" "queue_event env ?ev [] (Some m) ?q = (True, q')"
    have "eq_last_status q' = st" using a(1) by (auto simp: append_node_def split: if_splits)
    then show ?thesis using events.enq_items [OF q a(1)] a(2) assms(2)
      by (intro exI [of _ "[node_of env ?ev [] (Some m)]"])
        (simp add: queue_error_def queue_on_def node_of_def owned_event_def plain_event_def error_reported_def)
  qed
qed

lemma read_u16_nth: "push_bit 8 (ucast (data ! 0)) OR ucast (data ! Suc 0) = (read_u16 data :: u16)"
  by (simp add: read_u16_def)

lemma split_malformed:
  assumes "queue_ok (as_queue s)" "malformed tail"
  shows "split_outcome env ms ob i [] tail s (split_records env ms ob tail s)"
proof -
  define m where "m = (if length tail < 2 then ms_bad_payload ms else ms_bad_length ms)"
  have m: "split_records env ms ob tail s = queue_error env Q_INVALID m s"
    using assms(2) by (subst split_records.simps) (auto simp: malformed_def m_def read_u16_nth Let_def)
  obtain extra where "eq_nodes (as_queue (queue_error env Q_INVALID m s)) = eq_nodes (as_queue s) @ extra"
    "error_reported Q_INVALID extra (as_queue (queue_error env Q_INVALID m s))"
    "as_calls (queue_error env Q_INVALID m s) = as_calls s"
    using queue_error_result [OF assms(1), of Q_INVALID env m] by (auto simp: status_negative_def)
  then show ?thesis using assms(2)
    unfolding m split_outcome_def by (intro exI [of _ 0] exI [of _ extra]) (simp add: record_nodes_def malformed_def)
qed

lemma coded_flags:
  assumes "grouped_data T"
  shows "ti_flags T AND (MOQ_TRACK_FLAG_RELIABLE OR MOQ_TRACK_FLAG_FEC_ENABLED OR MOQ_TRACK_FLAG_FEC_RATELESS) \<noteq> 0"
proof -
  have "ti_flags T AND 6 = (ti_flags T AND 7) AND 6" by (simp add: and.assoc)
  then show ?thesis using assms by (auto simp: grouped_data_def)
qed

lemma split_records_result:
  assumes "queue_ok (as_queue s)" "find_stream (as_endpoint s) (rv_track_id ob) STREAM_SUBSCRIBE = Some i"
    "sm_open (qe_streams (as_endpoint s) ! i)" "list_all record_fits rs" "grouped_data (rv_track_id ob)" "tail = [] \<or> malformed tail"
  shows "split_outcome env ms ob i rs tail s (split_records env ms ob (records_of rs @ tail) s)"
  using assms
proof (induction rs arbitrary: s)
  case Nil
  show ?case
  proof (cases "tail = []")
    case True
    then show ?thesis by (subst split_records.simps) (simp add: split_outcome_def record_nodes_def)
  next
    case False
    then show ?thesis using split_malformed [OF Nil.prems(1)] Nil.prems(6) by simp
  qed
next
  case (Cons r rs)
  have r: "length r \<le> 65535" "r \<noteq> []" using Cons.prems by (simp_all add: record_fits_def)
  define data where "data = record_bytes r @ (records_of rs @ tail)"
  have data: "records_of (r # rs) @ tail = data" by (simp add: data_def records_of_Cons)
  note h = record_head [OF r(1), of "records_of rs @ tail", folded data_def]
  have il: "i < length (qe_streams (as_endpoint s))" using Cons.prems(2) by (simp add: find_stream_def first_index_Some)
  have len: "unat (push_bit 8 (ucast (data ! 0)) OR ucast (data ! 1) :: u16) = length r" using h(1) by (simp add: read_u16_def)
  have step: "split_records env ms ob data s = (let (queued, s) = queue_record env ob r s in
      if \<not> queued then reject_received_record env ob (ms_not_recovered ms) s else split_records env ms ob (records_of rs @ tail) s)"
    by (subst split_records.simps) (use h r len in \<open>simp add: Let_def split: prod.split\<close>)
  from queue_record_result [OF Cons.prems(1-3), of env r] show ?case
  proof (elim disjE exE conjE)
    fix st assume f: "queue_record env ob r s = (False, s\<lparr>as_queue := set_status st (as_queue s)\<rparr>)"
    let ?s1 = "s\<lparr>as_queue := set_status st (as_queue s)\<rparr>"
    let ?s2 = "queue_error env Q_RESOURCE_LIMIT (ms_not_recovered ms) ?s1"
    obtain extra where e: "eq_nodes (as_queue ?s2) = eq_nodes (as_queue s) @ extra"
      "error_reported Q_RESOURCE_LIMIT extra (as_queue ?s2)" "as_calls ?s2 = as_calls s"
      using queue_error_result [of ?s1 Q_RESOURCE_LIMIT env "ms_not_recovered ms"] Cons.prems(1) by (auto simp: status_negative_def)
    have "split_records env ms ob data s = called (Call_close (rv_connection ob) (ms_not_recovered ms)) ?s2"
      unfolding step f using coded_flags [OF Cons.prems(5)] by (simp add: reject_received_record_def)
    then show ?thesis unfolding data split_outcome_def using e
      by (intro exI [of _ 0] exI [of _ extra]) (simp add: called_def record_nodes_def)
  next
    fix s1 assume f: "queue_record env ob r s = (True, s1)" "same_shape (as_endpoint s) (as_endpoint s1)" "queue_ok (as_queue s1)"
      "eq_nodes (as_queue s1) = eq_nodes (as_queue s) @ [node_of env (record_event env ob r i (as_endpoint s)) r None]" "as_calls s1 = as_calls s"
    let ?s2 = "split_records env ms ob (records_of rs @ tail) s1"
    have "sm_open (qe_streams (as_endpoint s1) ! i)" using same_shape_stream [OF f(2) il] Cons.prems(3) by (simp add: stream_view_def)
    then have "split_outcome env ms ob i rs tail s1 ?s2"
      using Cons.prems f(3) same_shape_find [OF f(2)] by (intro Cons.IH) simp_all
    then obtain n extra where n: "n \<le> length rs"
        "eq_nodes (as_queue ?s2) = eq_nodes (as_queue s1) @ record_nodes env ob i (as_endpoint s1) (take n rs) @ extra"
      "if n < length rs then as_calls ?s2 = as_calls s1 @ [Call_close (rv_connection ob) (ms_not_recovered ms)] \<and>
          error_reported Q_RESOURCE_LIMIT extra (as_queue ?s2)
       else as_calls ?s2 = as_calls s1 \<and> (if tail = [] then extra = [] else error_reported Q_INVALID extra (as_queue ?s2))"
      unfolding split_outcome_def by blast
    have nodes: "record_nodes env ob i (as_endpoint s1) xs = record_nodes env ob i (as_endpoint s) xs" for xs
      using same_shape_event [OF f(2) il] by (simp add: record_nodes_def)
    have "split_records env ms ob data s = ?s2" unfolding step f by simp
    then show ?thesis unfolding data split_outcome_def using n f(4,5) nodes
      by (intro exI [of _ "Suc n"] exI [of _ extra]) (simp add: record_nodes_def)
  qed
qed

text \<open>Every payload is such a sequence of records with such a rest.\<close>

lemma payload_records:
  "\<exists>rs tail. data = records_of rs @ tail \<and> list_all record_fits rs \<and> (tail = [] \<or> malformed tail)"
proof (induction "length data" arbitrary: data rule: less_induct)
  case less
  show ?case
  proof (cases "data = [] \<or> malformed data")
    case True
    then show ?thesis by (intro exI [of _ "[]"] exI [of _ data]) auto
  next
    case False
    define n where "n = unat (read_u16 data)"
    have n: "2 \<le> length data" "n \<noteq> 0" "n \<le> length data - 2" "n \<le> 65535"
      using False unat_less_2p [of "read_u16 data"] by (auto simp: malformed_def n_def)
    define r where "r = take n (drop 2 data)"
    have r: "length r = n" using n by (simp add: r_def)
    obtain a b rest where d: "data = a # b # rest" using n(1) by (cases data rule: list.exhaust; cases "tl data") auto
    have "write_u16 (of_nat n) = take 2 data" by (simp add: n_def d write_read_u16)
    then have data: "data = record_bytes r @ drop n (drop 2 data)"
      using append_take_drop_id [of 2 data] append_take_drop_id [of n "drop 2 data"] by (simp add: record_bytes_def r, simp add: r_def)
    obtain rs tail where t: "drop n (drop 2 data) = records_of rs @ tail" "list_all record_fits rs" "tail = [] \<or> malformed tail"
    proof -
      have "length (drop n (drop 2 data)) < length data" using n by simp
      then show ?thesis using less [of "drop n (drop 2 data)"] that by blast
    qed
    have "record_fits r" using n r by (auto simp: record_fits_def)
    then show ?thesis using data t by (intro exI [of _ "r # rs"] exI [of _ tail]) (simp add: records_of_Cons)
  qed
qed

text \<open>
  C13. A grouped object comes out as exactly its records, or the connection is closed. Every payload is a
  sequence of non-empty records followed by nothing or by a rest that is no record (a lone byte, a
  zero length, a length beyond the end). When such an object arrives for an open subscription,
  record events are queued for a prefix of the records, in order, each with its payload. If they are
  not all of them, for lack of space or memory, the connection is closed, so no whole record of a
  coded track is dropped silently; if they are, a malformed rest is reported as an error and the
  connection stays, so whatever the rest held, an empty record and all behind it included, is lost.
\<close>

theorem grouped_object_split:
  assumes "queue_ok (as_queue s)" "find_stream (as_endpoint s) (rv_track_id ob) STREAM_SUBSCRIBE = Some i"
    "sm_open (qe_streams (as_endpoint s) ! i)" "grouped_data (rv_track_id ob)"
  shows "(\<exists>rs tail. rv_data ob = records_of rs @ tail \<and> list_all record_fits rs \<and> (tail = [] \<or> malformed tail)) \<and>
    (\<forall>rs tail. rv_data ob = records_of rs @ tail \<longrightarrow> list_all record_fits rs \<longrightarrow> tail = [] \<or> malformed tail \<longrightarrow>
      split_outcome env ms ob i rs tail s (queue_received_object env ms ob s))"
  using split_records_result [OF assms(1-3) _ assms(4)] payload_records [of "rv_data ob"] assms(4)
  by (simp add: queue_received_object_def)

section \<open>Authentication\<close>

text \<open>What authenticates a connection: the right secret at a listener, or the answer of the listener.\<close>

definition grants :: "api_env \<Rightarrow> api_endpoint \<Rightarrow> nat \<Rightarrow> transport_event \<Rightarrow> bool" where
  "grants env ep conn ev \<longleftrightarrow> (case ev of
     T_auth token \<Rightarrow> qe_listener ep \<and> token = qe_shared_secret ep \<and> av_respond_auth env conn True
   | T_auth_complete success \<Rightarrow> success | _ \<Rightarrow> False)"

definition authenticated_after :: "api_env \<Rightarrow> api_endpoint \<Rightarrow> nat \<Rightarrow> transport_event \<Rightarrow> nat set \<Rightarrow> nat set" where
  "authenticated_after env ep conn ev A = (case ev of T_disconnected d \<Rightarrow> A - {conn}
     | _ \<Rightarrow> if grants env ep conn ev then insert conn A else A)"

text \<open>
  \<open>A\<close> are the authenticated connections; the log has the calls of each step with the connections that
  were authenticated by then. \<open>elsewhere\<close> is what touches neither peers nor security: records are sent
  and popped, streams close, writable events are refreshed.
\<close>

inductive endpoint_run :: "api_state \<Rightarrow> nat set \<Rightarrow> (nat set \<times> transport_call list) list \<Rightarrow> bool" where
  start: "qe_peers (as_endpoint s) = [] \<Longrightarrow> qe_ready_peers (as_endpoint s) = 0 \<Longrightarrow> as_calls s = [] \<Longrightarrow> endpoint_run s {} []"
| event: "endpoint_run s A log \<Longrightarrow> qe_active (as_endpoint s) \<Longrightarrow> length (qe_peers (as_endpoint s)) < SIZE_MAX \<Longrightarrow> s' = on_transport_event env ms conn ev (s\<lparr>as_calls := []\<rparr>) \<Longrightarrow>
    A' = authenticated_after env (as_endpoint s) conn ev A \<Longrightarrow> endpoint_run s' A' (log @ [(A', as_calls s')])"
| opened: "endpoint_run s A log \<Longrightarrow> open_stream env ms address config dir (s\<lparr>as_calls := []\<rparr>) = (h, s') \<Longrightarrow>
    endpoint_run s' A (log @ [(A, as_calls s')])"
| closed: "endpoint_run s A log \<Longrightarrow> endpoint_run (s\<lparr>as_endpoint := qlinq_endpoint_close (as_endpoint s)\<rparr>) A log"
| elsewhere: "endpoint_run s A log \<Longrightarrow> qe_peers (as_endpoint s') = qe_peers (as_endpoint s) \<Longrightarrow>
    qe_ready_peers (as_endpoint s') = qe_ready_peers (as_endpoint s) \<Longrightarrow> endpoint_run s' A log"

definition peers_ok :: "api_endpoint \<Rightarrow> nat set \<Rightarrow> bool" where
  "peers_ok ep A \<longleftrightarrow> distinct (map pr_connection (qe_peers ep)) \<and> qe_ready_peers ep = length (filter pr_ready (qe_peers ep)) \<and>
     (\<forall>p \<in> set (qe_peers ep). pr_ready p \<longrightarrow> pr_connection p \<in> A)"

text \<open>The queue, the counters and the streams do not matter for the peers.\<close>

lemma queue_on_snd [simp]: "as_endpoint (snd (queue_on env ev p m s)) = as_endpoint s" "as_calls (snd (queue_on env ev p m s)) = as_calls s"
  by (simp_all add: queue_on_def split: prod.split)

lemma queue_error_keeps [simp]: "as_endpoint (queue_error env st m s) = as_endpoint s" "as_calls (queue_error env st m s) = as_calls s"
  by (simp_all add: queue_error_def Let_def)

lemma called_keeps [simp]: "as_endpoint (called c s) = as_endpoint s" "as_calls (called c s) = as_calls s @ [c]"
  by (simp_all add: called_def)

lemma on_endpoint_keeps [simp]: "as_endpoint (on_endpoint f s) = f (as_endpoint s)" "as_calls (on_endpoint f s) = as_calls s"
  by (simp_all add: on_endpoint_def)

definition subscribes_to :: "nat set \<Rightarrow> transport_call list \<Rightarrow> bool" where
  "subscribes_to A cs \<longleftrightarrow> (\<forall>c t. Call_subscribe c t \<in> set cs \<longrightarrow> c \<in> A)"

lemma subscribes_append [simp]: "subscribes_to A (cs @ ds) \<longleftrightarrow> subscribes_to A cs \<and> subscribes_to A ds" "subscribes_to A []"
  by (auto simp: subscribes_to_def)

lemma activate_result:
  "as_endpoint (activate_streams env ms conn sts s) = as_endpoint s \<and>
   (\<exists>cs. as_calls (activate_streams env ms conn sts s) = as_calls s @ cs \<and> subscribes_to {conn} cs)"
proof (induction env ms conn sts s rule: activate_streams.induct)
  case (2 env ms conn st sts s)
  show ?case
  proof (cases "\<not> sm_active st \<or> sm_direction st \<noteq> STREAM_SUBSCRIBE")
    case True
    then show ?thesis using "2.IH"(1) by auto
  next
    case False
    let ?s = "called (Call_subscribe conn (sm_track st)) s"
    let ?t = "if av_subscribe_conn env conn (sm_track st) then ?s else queue_error env Q_STATE (ms_no_subscription ms) ?s"
    have t: "as_endpoint ?t = as_endpoint s" "as_calls ?t = as_calls s @ [Call_subscribe conn (sm_track st)]" by simp_all
    have "activate_streams env ms conn (st # sts) s = activate_streams env ms conn sts ?t" using False by simp
    moreover obtain cs where "as_endpoint (activate_streams env ms conn sts ?t) = as_endpoint ?t"
      "as_calls (activate_streams env ms conn sts ?t) = as_calls ?t @ cs" "subscribes_to {conn} cs"
      using "2.IH"(2) [OF False refl] by blast
    moreover have "subscribes_to {conn} [Call_subscribe conn (sm_track st)]" by (simp add: subscribes_to_def)
    ultimately show ?thesis using t by (intro conjI exI [of _ "[Call_subscribe conn (sm_track st)] @ cs"]) (simp_all del: append_Cons)
  qed
qed simp

lemma find_peer_result:
  "find_peer ep c = None \<longleftrightarrow> c \<notin> pr_connection ` set (qe_peers ep)"
  "find_peer ep c = Some i \<Longrightarrow> i < length (qe_peers ep) \<and> pr_connection (qe_peers ep ! i) = c"
proof -
  show "find_peer ep c = None \<longleftrightarrow> c \<notin> pr_connection ` set (qe_peers ep)"
    by (simp add: find_peer_def first_index_None image_iff) (metis in_set_conv_nth)
qed (simp add: find_peer_def first_index_Some)

lemma add_peer_result:
  assumes "peers_ok (as_endpoint s) A" "add_peer env m c s = (r, s')"
  shows "peers_ok (as_endpoint s') A \<and> as_calls s' = as_calls s \<and> qe_streams (as_endpoint s') = qe_streams (as_endpoint s) \<and>
    length (qe_peers (as_endpoint s')) \<le> Suc (length (qe_peers (as_endpoint s))) \<and>
    qe_listener (as_endpoint s') = qe_listener (as_endpoint s) \<and>
    (\<forall>i. r = Some i \<longrightarrow> i < length (qe_peers (as_endpoint s')) \<and> pr_connection (qe_peers (as_endpoint s') ! i) = c)"
proof (cases "find_peer (as_endpoint s) c")
  case (Some i)
  then show ?thesis using assms find_peer_result(2) by (auto simp: add_peer_def)
next
  case None
  then have "c \<notin> pr_connection ` set (qe_peers (as_endpoint s))" using find_peer_result(1) by blast
  then show ?thesis using assms None by (auto simp: add_peer_def peers_ok_def split: if_splits)
qed

lemma peers_ok_more: "peers_ok ep A \<Longrightarrow> A \<subseteq> B \<Longrightarrow> peers_ok ep B"
  by (auto simp: peers_ok_def)

lemma peers_ok_same: "qe_peers ep' = qe_peers ep \<Longrightarrow> qe_ready_peers ep' = qe_ready_peers ep \<Longrightarrow> peers_ok ep' A = peers_ok ep A"
  by (simp add: peers_ok_def)

lemma ready_peers_update:
  assumes "i < length ps" "\<not> pr_ready (ps ! i)"
  shows "length (filter pr_ready (ps[i := (ps ! i)\<lparr>pr_ready := True\<rparr>])) = Suc (length (filter pr_ready ps))"
  using assms by (induction ps arbitrary: i) (auto split: nat.splits)

lemma mark_ready_result:
  assumes "peers_ok (as_endpoint s) A" "c \<in> A" "length (qe_peers (as_endpoint s)) < SIZE_MAX"
  shows "peers_ok (as_endpoint (mark_peer_ready env ms c s)) A \<and>
    (\<exists>cs. as_calls (mark_peer_ready env ms c s) = as_calls s @ cs \<and> subscribes_to A cs)"
proof -
  obtain r s1 where a: "add_peer env (ms_no_peer ms) c s = (r, s1)" by (rule prod.exhaust)
  note ar = add_peer_result [OF assms(1) a]
  show ?thesis
  proof (cases r)
    case None
    then show ?thesis using a ar by (auto simp: mark_peer_ready_def)
  next
    case (Some i)
    show ?thesis
    proof (cases "pr_ready (qe_peers (as_endpoint s1) ! i)")
      case True
      then show ?thesis using a ar Some by (auto simp: mark_peer_ready_def)
    next
      case False
      define s2 where "s2 = on_endpoint (\<lambda>ep. ep\<lparr>qe_peers := (qe_peers ep)[i := (qe_peers ep ! i)\<lparr>pr_ready := True\<rparr>],
                 qe_ready_peers := sz_add (qe_ready_peers ep) 1\<rparr>) s1"
      have i: "i < length (qe_peers (as_endpoint s1))" "pr_connection (qe_peers (as_endpoint s1) ! i) = c" using ar Some by auto
      have len: "length (filter pr_ready (qe_peers (as_endpoint s1))) < SIZE_MAX"
      proof -
        have "length (filter pr_ready (qe_peers (as_endpoint s1))) < length (qe_peers (as_endpoint s1))"
          using i False by (intro length_filter_less [of "qe_peers (as_endpoint s1) ! i"]) simp_all
        then show ?thesis using ar assms(3) by linarith
      qed
      have conns: "map pr_connection ((qe_peers (as_endpoint s1))[i := (qe_peers (as_endpoint s1) ! i)\<lparr>pr_ready := True\<rparr>]) =
          map pr_connection (qe_peers (as_endpoint s1))"
        by (simp add: map_update list_update_same_conv i(1))
      have p2: "peers_ok (as_endpoint s2) A"
        using ar i assms(2) len ready_peers_update [OF i(1) False] conns
        by (auto simp: s2_def peers_ok_def no_wrap dest!: set_update_subset_insert [THEN subsetD])
      obtain cs where act: "as_endpoint (activate_subscriptions env ms c s2) = as_endpoint s2"
        "as_calls (activate_subscriptions env ms c s2) = as_calls s2 @ cs" "subscribes_to {c} cs"
        using activate_result [of env ms c "qe_streams (as_endpoint s2)" s2] by (auto simp: activate_subscriptions_def)
      have "mark_peer_ready env ms c s = snd (queue_on env (plain_event PEER_READY (qe_handle (as_endpoint (activate_subscriptions env ms c s2)))
          (pr_id (qe_peers (as_endpoint (activate_subscriptions env ms c s2)) ! i)) Q_OK) [] None (activate_subscriptions env ms c s2))"
        using a Some False by (simp add: mark_peer_ready_def s2_def Let_def)
      moreover have "as_calls s2 = as_calls s" using ar by (simp add: s2_def)
      ultimately show ?thesis using act p2 assms(2) by (auto simp: subscribes_to_def)
    qed
  qed
qed

text \<open>Steps that leave the peers alone and subscribe to nobody.\<close>

definition inert :: "api_state \<Rightarrow> api_state \<Rightarrow> bool" where
  "inert s s' \<longleftrightarrow> qe_peers (as_endpoint s') = qe_peers (as_endpoint s) \<and> qe_ready_peers (as_endpoint s') = qe_ready_peers (as_endpoint s) \<and>
     (\<exists>cs. as_calls s' = as_calls s @ cs \<and> subscribes_to {} cs)"

lemma inert_refl: "inert s s"
  by (simp add: inert_def)

lemma inert_trans: "inert s s' \<Longrightarrow> inert s' s'' \<Longrightarrow> inert s s''"
  unfolding inert_def by (metis append.assoc subscribes_append(1))

lemma inert_same: "as_endpoint s' = as_endpoint s \<Longrightarrow> as_calls s' = as_calls s \<Longrightarrow> inert s s'"
  by (simp add: inert_def)

lemma update_stream_peers [simp]: "qe_peers (update_stream i f ep) = qe_peers ep" "qe_ready_peers (update_stream i f ep) = qe_ready_peers ep"
  by (simp_all add: update_stream_def)

lemma queue_record_inert: "queue_record env ob d s = (ok, s') \<Longrightarrow> inert s s'"
proof -
  assume r: "queue_record env ob d s = (ok, s')"
  have "qe_peers (as_endpoint (snd (queue_record env ob d s))) = qe_peers (as_endpoint s) \<and>
      qe_ready_peers (as_endpoint (snd (queue_record env ob d s))) = qe_ready_peers (as_endpoint s) \<and>
      as_calls (snd (queue_record env ob d s)) = as_calls s"
    by (simp add: queue_record_def Let_def case_prod_beta split: option.split)
  then show ?thesis using r by (simp add: inert_def)
qed

lemma reject_inert: "inert s (reject_received_record env ob m s)"
  by (simp add: reject_received_record_def inert_def Let_def subscribes_to_def)

lemma split_records_inert: "inert s (split_records env ms ob data s)"
proof (induction env ms ob data s rule: split_records.induct)
  case (1 env ms ob data s)
  let ?n = "unat (push_bit 8 (ucast (data ! 0)) OR ucast (data ! 1) :: u16)" and ?rest = "drop 2 data"
  show ?case
  proof (cases "data = [] \<or> length data < 2 \<or> ?n = 0 \<or> ?n > length ?rest")
    case True
    then show ?thesis by (subst split_records.simps) (auto simp: Let_def inert_refl intro: inert_same)
  next
    case False
    obtain ok s1 where r: "queue_record env ob (take ?n ?rest) s = (ok, s1)" by (rule prod.exhaust)
    note q = queue_record_inert [OF r]
    show ?thesis
    proof (cases ok)
      case True
      have "split_records env ms ob data s = split_records env ms ob (drop ?n ?rest) s1"
        by (subst split_records.simps) (use False r True in \<open>simp add: Let_def\<close>)
      moreover have "inert s1 (split_records env ms ob (drop ?n ?rest) s1)"
        using "1.IH" [OF _ _ refl refl _ r [symmetric] refl] False True by simp
      ultimately show ?thesis using inert_trans [OF q] by simp
    next
      case no: False
      have "split_records env ms ob data s = reject_received_record env ob (ms_not_recovered ms) s1"
        by (subst split_records.simps) (use False r no in \<open>simp add: Let_def\<close>)
      then show ?thesis using inert_trans [OF q reject_inert] by simp
    qed
  qed
qed

lemma queue_received_inert: "inert s (queue_received_object env ms ob s)"
proof (cases "grouped_data (rv_track_id ob)")
  case True
  then show ?thesis using split_records_inert by (simp add: queue_received_object_def)
next
  case False
  obtain ok s1 where r: "queue_record env ob (rv_data ob) s = (ok, s1)" by (rule prod.exhaust)
  then show ?thesis using False queue_record_inert [OF r] inert_trans [OF _ reject_inert]
    by (simp add: queue_received_object_def)
qed

lemma inert_peers_ok: "inert s s' \<Longrightarrow> peers_ok (as_endpoint s) A \<Longrightarrow> peers_ok (as_endpoint s') A"
  by (simp add: inert_def peers_ok_def)

lemma subscribes_mono: "subscribes_to A cs \<Longrightarrow> A \<subseteq> B \<Longrightarrow> subscribes_to B cs"
  by (auto simp: subscribes_to_def)

lemma secret_equal_iff: "secret_equal secret data \<longleftrightarrow> data = secret"
proof -
  have or0: "x OR y = 0 \<longleftrightarrow> x = 0 \<and> y = 0" for x y :: u8 by (auto simp: bit_eq_iff bit_simps)
  have xor0: "x XOR y = 0 \<longleftrightarrow> x = y" for x y :: u8 by (auto simp: bit_eq_iff bit_simps)
  have "length xs = length ys \<Longrightarrow> foldl (\<lambda>d (a, b). d OR (a XOR b)) d (zip xs ys) = 0 \<longleftrightarrow> d = 0 \<and> xs = ys" for d :: u8 and xs ys
    by (induction xs ys arbitrary: d rule: list_induct2) (auto simp: or0 xor0)
  then show ?thesis by (auto simp: secret_equal_def)
qed

lemma remove_peer_result:
  assumes "peers_ok ep A"
  shows "peers_ok (remove_peer c ep) (A - {c})"
proof (cases "find_peer ep c")
  case None
  then show ?thesis using assms find_peer_result(1) [of ep c] by (auto simp: remove_peer_def peers_ok_def)
next
  case (Some i)
  let ?ps = "qe_peers ep"
  note i = find_peer_result(2) [OF Some]
  have ps: "?ps = take i ?ps @ ?ps ! i # drop (Suc i) ?ps" using i id_take_nth_drop by blast
  have split: "set ?ps = insert (?ps ! i) (set (take i ?ps @ drop (Suc i) ?ps))"
    "length (filter pr_ready ?ps) = (if pr_ready (?ps ! i) then 1 else 0) + length (filter pr_ready (take i ?ps @ drop (Suc i) ?ps))"
    by (subst (1) ps, simp)+
  have d: "distinct (map pr_connection (take i ?ps @ drop (Suc i) ?ps))" "c \<notin> pr_connection ` set (take i ?ps @ drop (Suc i) ?ps)"
  proof -
    have "distinct (map pr_connection (take i ?ps @ ?ps ! i # drop (Suc i) ?ps))" using assms ps by (simp add: peers_ok_def)
    then show "distinct (map pr_connection (take i ?ps @ drop (Suc i) ?ps))" "c \<notin> pr_connection ` set (take i ?ps @ drop (Suc i) ?ps)"
      using i by auto
  qed
  have "\<forall>p \<in> set (take i ?ps @ drop (Suc i) ?ps). pr_ready p \<longrightarrow> pr_connection p \<in> A - {c}"
  proof (intro ballI impI)
    fix p assume p: "p \<in> set (take i ?ps @ drop (Suc i) ?ps)" "pr_ready p"
    then have "p \<in> set ?ps" using split(1) by blast
    then show "pr_connection p \<in> A - {c}" using assms p d(2) by (auto simp: peers_ok_def)
  qed
  then show ?thesis using Some assms split(2) d(1) by (simp add: remove_peer_def peers_ok_def)
qed

lemma transport_event_result:
  assumes ok: "peers_ok (as_endpoint s) A" and len: "length (qe_peers (as_endpoint s)) < SIZE_MAX" and act: "qe_active (as_endpoint s)"
  shows "peers_ok (as_endpoint (on_transport_event env ms conn ev s)) (authenticated_after env (as_endpoint s) conn ev A) \<and>
    (\<exists>cs. as_calls (on_transport_event env ms conn ev s) = as_calls s @ cs \<and>
      subscribes_to (authenticated_after env (as_endpoint s) conn ev A) cs)"
proof -
  let ?r = "on_transport_event env ms conn ev s" and ?A = "authenticated_after env (as_endpoint s) conn ev A"
  have inert_case: ?thesis if q: "inert s ?r" and a: "A \<subseteq> ?A"
    using inert_peers_ok [OF q ok] peers_ok_more [OF _ a] q subscribes_mono [of "{}"] unfolding inert_def by blast
  show ?thesis
  proof (cases ev)
    case T_connected
    obtain r s1 where a: "add_peer env (ms_no_peer ms) conn s = (r, s1)" by (rule prod.exhaust)
    note ar = add_peer_result [OF ok a]
    have "as_endpoint ?r = as_endpoint s1 \<and> (as_calls ?r = as_calls s1 \<or> as_calls ?r = as_calls s1 @ [Call_send_auth conn (qe_shared_secret (as_endpoint s1))])"
      using act a T_connected by (simp add: on_transport_event_def Let_def)
    moreover have "?A = A" using T_connected by (simp add: authenticated_after_def grants_def)
    ultimately show ?thesis using ar by (auto simp: subscribes_to_def)
  next
    case (T_disconnected d)
    have A: "?A = A - {conn}" using T_disconnected by (simp add: authenticated_after_def)
    obtain ev' p m where r: "?r = on_endpoint (remove_peer conn) (snd (queue_on env ev' p m s))"
      using act T_disconnected by (simp add: on_transport_event_def Let_def)
    have "as_endpoint ?r = remove_peer conn (as_endpoint s)" "as_calls ?r = as_calls s" unfolding r by simp_all
    then show ?thesis using remove_peer_result [OF ok, of conn] A by (intro conjI exI [of _ "[]"]) simp_all
  next
    case (T_auth token)
    let ?acc = "qe_listener (as_endpoint s) \<and> token = qe_shared_secret (as_endpoint s)"
    let ?s = "called (Call_respond_auth conn ?acc) s"
    have A: "?A = (if ?acc \<and> av_respond_auth env conn True then insert conn A else A)"
      using T_auth by (auto simp: authenticated_after_def grants_def)
    have r: "?r = (if \<not> av_respond_auth env conn ?acc then queue_error env Q_STATE (ms_no_response ms) ?s
        else if ?acc then mark_peer_ready env ms conn ?s else peer_rejected env conn ?s)"
      using act T_auth by (simp add: on_transport_event_def Let_def secret_equal_iff)
    show ?thesis
    proof (cases "av_respond_auth env conn ?acc \<and> ?acc")
      case True
      have "peers_ok (as_endpoint ?s) (insert conn A)" using peers_ok_more [OF ok] by auto
      from mark_ready_result [OF this, of conn env ms] len obtain cs where
        "peers_ok (as_endpoint (mark_peer_ready env ms conn ?s)) (insert conn A)"
        "as_calls (mark_peer_ready env ms conn ?s) = as_calls ?s @ cs" "subscribes_to (insert conn A) cs" by auto
      moreover have "?A = insert conn A" "?r = mark_peer_ready env ms conn ?s" using True A r by auto
      ultimately show ?thesis by (auto simp: subscribes_to_def)
    next
      case False
      then have "as_endpoint ?r = as_endpoint s" "as_calls ?r = as_calls s @ [Call_respond_auth conn ?acc]"
        using r by (auto simp: peer_rejected_def)
      then have "inert s ?r" by (simp add: inert_def subscribes_to_def)
      then show ?thesis using A by (intro inert_case) auto
    qed
  next
    case (T_auth_complete success)
    show ?thesis
    proof (cases success)
      case True
      have A: "?A = insert conn A" using T_auth_complete True by (simp add: authenticated_after_def grants_def)
      have "peers_ok (as_endpoint s) (insert conn A)" using peers_ok_more [OF ok] by auto
      from mark_ready_result [OF this _ len, of conn env ms] A show ?thesis using T_auth_complete True act
        by (simp add: on_transport_event_def)
    next
      case False
      then have "inert s ?r" using T_auth_complete act by (simp add: on_transport_event_def peer_rejected_def inert_same)
      then show ?thesis using T_auth_complete False by (intro inert_case) (auto simp: authenticated_after_def grants_def)
    qed
  next
    case (T_object ob)
    have "inert s ?r" using T_object act queue_received_inert by (simp add: on_transport_event_def)
    then show ?thesis using T_object by (intro inert_case) (simp_all add: authenticated_after_def grants_def)
  next
    case (T_object_lost track g ob)
    have "inert s ?r" using T_object_lost act
      by (simp add: on_transport_event_def Let_def inert_def split: option.split)
    then show ?thesis using T_object_lost by (intro inert_case) (simp_all add: authenticated_after_def grants_def)
  next
    case (T_subscribe track)
    have "inert s ?r" using T_subscribe act by (simp add: on_transport_event_def subscriber_event_def Let_def inert_same)
    then show ?thesis using T_subscribe by (intro inert_case) (simp_all add: authenticated_after_def grants_def)
  next
    case (T_unsubscribe track)
    have "inert s ?r" using T_unsubscribe act by (simp add: on_transport_event_def subscriber_event_def Let_def inert_same)
    then show ?thesis using T_unsubscribe by (intro inert_case) (simp_all add: authenticated_after_def grants_def)
  next
    case (T_keyframe_request track)
    have "inert s ?r" using T_keyframe_request act by (simp add: on_transport_event_def subscriber_event_def Let_def inert_same)
    then show ?thesis using T_keyframe_request by (intro inert_case) (simp_all add: authenticated_after_def grants_def)
  qed
qed

lemma subscribe_peers_result:
  assumes "subscribe_peers env ms track ps failed s = (f, s')" "\<forall>p \<in> set ps. pr_ready p \<longrightarrow> pr_connection p \<in> A"
  shows "as_endpoint s' = as_endpoint s \<and> (\<exists>cs. as_calls s' = as_calls s @ cs \<and> subscribes_to A cs)"
  using assms
proof (induction env ms track ps failed s rule: subscribe_peers.induct)
  case (2 env ms track p ps failed s)
  show ?case
  proof (cases "pr_ready p")
    case False
    then show ?thesis using "2.IH"(1) "2.prems" by simp
  next
    case True
    let ?s = "called (Call_subscribe (pr_connection p) track) s"
    have one: "subscribes_to A [Call_subscribe (pr_connection p) track]" using True "2.prems"(2) by (simp add: subscribes_to_def)
    have nr: "\<not> \<not> pr_ready p" using True by simp
    show ?thesis
    proof (cases "av_subscribe_conn env (pr_connection p) track")
      case sub: True
      have "subscribe_peers env ms track ps failed ?s = (f, s')" using "2.prems"(1) True sub by simp
      from "2.IH"(2) [OF nr refl sub this] "2.prems"(2) obtain cs where
        "as_endpoint s' = as_endpoint ?s" "as_calls s' = as_calls ?s @ cs" "subscribes_to A cs" by auto
      then show ?thesis using one by (intro conjI exI [of _ "[Call_subscribe (pr_connection p) track] @ cs"]) (simp_all del: append_Cons)
    next
      case sub: False
      let ?t = "queue_error env Q_STATE (ms_no_subscription ms) ?s"
      have "subscribe_peers env ms track ps True ?t = (f, s')" using "2.prems"(1) True sub by (simp add: Let_def)
      from "2.IH"(3) [OF nr refl sub this] "2.prems"(2) obtain cs where
        "as_endpoint s' = as_endpoint ?t" "as_calls s' = as_calls ?t @ cs" "subscribes_to A cs" by auto
      then show ?thesis using one by (intro conjI exI [of _ "[Call_subscribe (pr_connection p) track] @ cs"]) (simp_all del: append_Cons)
    qed
  qed
qed simp

lemma open_stream_result:
  assumes "open_stream env ms address config dir s = (h, s')" "peers_ok (as_endpoint s) A"
  shows "peers_ok (as_endpoint s') A \<and> (\<exists>cs. as_calls s' = as_calls s @ cs \<and> subscribes_to A cs)"
proof -
  have same: "qe_peers (as_endpoint s') = qe_peers (as_endpoint s) \<and> qe_ready_peers (as_endpoint s') = qe_ready_peers (as_endpoint s) \<and>
      (\<exists>cs. as_calls s' = as_calls s @ cs \<and> subscribes_to A cs)"
    using assms(1) unfolding open_stream_def Let_def
    by (auto simp: assms(2) [unfolded peers_ok_def] split: option.splits if_splits prod.splits
        dest!: subscribe_peers_result [of _ _ _ _ _ _ _ _ A])
  then show ?thesis using assms(2) by (simp add: peers_ok_def)
qed

lemma endpoint_run_ok:
  "endpoint_run s A log \<Longrightarrow> peers_ok (as_endpoint s) A \<and> list_all (\<lambda>(B, cs). subscribes_to B cs) log"
proof (induction rule: endpoint_run.induct)
  case (start s)
  then show ?case by (simp add: peers_ok_def)
next
  case (event s A log s' env ms conn ev A')
  let ?s = "s\<lparr>as_calls := []\<rparr>"
  have "peers_ok (as_endpoint ?s) A" "length (qe_peers (as_endpoint ?s)) < SIZE_MAX" "qe_active (as_endpoint ?s)" using event by simp_all
  from transport_event_result [OF this, of env ms conn ev] event show ?case by auto
next
  case (opened s A log env ms address config dir h s')
  have "peers_ok (as_endpoint (s\<lparr>as_calls := []\<rparr>)) A" using opened.IH by simp
  from open_stream_result [OF opened.hyps(2) this] opened.IH show ?case by auto
next
  case (closed s A log)
  then show ?case by (auto simp: qlinq_endpoint_close_def peers_ok_def)
next
  case (elsewhere s A log s')
  then show ?case by (simp add: peers_ok_def)
qed

text \<open>
  C12. Only authenticated peers become ready and are subscribed to. In every run of an endpoint a peer
  is ready only while its connection is authenticated (a listener accepted exactly the shared
  secret and the answer was sent, or the listener's answer was positive, and it has not
  disconnected since), connections are listed once, the count of ready peers is exact, and every
  subscription the endpoint asks for goes to a connection authenticated at that moment.
\<close>

theorem ready_peers_authenticated:
  assumes "endpoint_run s A log"
  shows "(\<forall>p \<in> set (qe_peers (as_endpoint s)). pr_ready p \<longrightarrow> pr_connection p \<in> A) \<and>
    distinct (map pr_connection (qe_peers (as_endpoint s))) \<and>
    qe_ready_peers (as_endpoint s) = length (filter pr_ready (qe_peers (as_endpoint s))) \<and>
    (\<forall>(B, cs) \<in> set log. \<forall>c t. Call_subscribe c t \<in> set cs \<longrightarrow> c \<in> B)"
  using endpoint_run_ok [OF assms] by (auto simp: peers_ok_def list_all_iff subscribes_to_def)

section \<open>The service loop\<close>

text \<open>What no event and no refresh changes about an endpoint: whether it is served, and its handle.\<close>

definition service_view :: "api_endpoint \<Rightarrow> nat \<times> bool \<times> bool" where
  "service_view ep = (qe_handle ep, qe_active ep, qe_has_transport ep)"

lemma service_view_updates [simp]:
  "service_view (ep\<lparr>qe_streams := sts\<rparr>) = service_view ep"
  "service_view (ep\<lparr>qe_peers := ps\<rparr>) = service_view ep"
  "service_view (ep\<lparr>qe_peers := ps, qe_ready_peers := n\<rparr>) = service_view ep"
  "service_view (ep\<lparr>qe_endpoint_records_received := n\<rparr>) = service_view ep"
  "service_view (ep\<lparr>qe_last_service_ms := t, qe_service_pending := b\<rparr>) = service_view ep"
  "service_view (update_stream i f ep) = service_view ep"
  "service_view (remove_peer conn ep) = service_view ep"
  by (simp_all add: service_view_def update_stream_def remove_peer_def split: option.splits)

lemma queue_record_view: "queue_record env ob d s = (ok, s') \<Longrightarrow> service_view (as_endpoint s') = service_view (as_endpoint s)"
  by (auto simp: queue_record_def queue_on_def split: option.splits prod.splits if_splits)

lemma reject_view [simp]: "service_view (as_endpoint (reject_received_record env ob m s)) = service_view (as_endpoint s)"
  by (simp add: reject_received_record_def Let_def)

lemma split_records_view [simp]: "service_view (as_endpoint (split_records env ms ob data s)) = service_view (as_endpoint s)"
proof (induction env ms ob data s rule: split_records.induct)
  case (1 env ms ob data s)
  define n where "n = unat (read_u16 data)"
  obtain queued s1 where q: "queue_record env ob (take n (drop 2 data)) s = (queued, s1)" by (rule prod.exhaust)
  show ?case
  proof (cases "data = [] \<or> length data < 2 \<or> n = 0 \<or> n > length (drop 2 data) \<or> \<not> queued")
    case True
    then show ?thesis using queue_record_view [OF q] q
      by (subst split_records.simps) (auto simp: Let_def read_u16_nth n_def [symmetric])
  next
    case False
    then have "service_view (as_endpoint (split_records env ms ob (drop n (drop 2 data)) s1)) = service_view (as_endpoint s1)"
      using 1 [OF _ _ _ refl _ q [symmetric]] by (simp add: n_def read_u16_nth)
    then show ?thesis using queue_record_view [OF q] q False
      by (subst split_records.simps) (auto simp: Let_def read_u16_nth n_def [symmetric])
  qed
qed

lemma received_view [simp]: "service_view (as_endpoint (queue_received_object env ms ob s)) = service_view (as_endpoint s)"
  by (auto simp: queue_received_object_def Let_def split: prod.splits dest: queue_record_view)

lemma activate_view [simp]: "service_view (as_endpoint (activate_streams env ms conn sts s)) = service_view (as_endpoint s)"
  by (induction env ms conn sts s rule: activate_streams.induct) (auto simp: Let_def)

lemma add_peer_view: "add_peer env m conn s = (i, s') \<Longrightarrow> service_view (as_endpoint s') = service_view (as_endpoint s)"
  by (auto simp: add_peer_def split: option.splits if_splits)

lemma added_peer_view [simp]: "service_view (as_endpoint (snd (add_peer env m conn s))) = service_view (as_endpoint s)"
  by (rule add_peer_view [OF prod.collapse [symmetric]])

lemma mark_ready_view [simp]: "service_view (as_endpoint (mark_peer_ready env ms conn s)) = service_view (as_endpoint s)"
  by (auto simp: mark_peer_ready_def activate_subscriptions_def Let_def split: option.splits prod.splits dest: add_peer_view)

lemma event_view [simp]: "service_view (as_endpoint (on_transport_event env ms conn ev s)) = service_view (as_endpoint s)"
  by (cases ev) (auto simp: on_transport_event_def peer_rejected_def subscriber_event_def Let_def split: option.splits)

lemma served_view: "serve env ms now rps ep q = (ep', q', calls) \<Longrightarrow> service_view ep' = service_view ep"
proof -
  have "service_view (as_endpoint (foldl (\<lambda>s (conn, ev). on_transport_event env ms conn ev s) s rps)) = service_view (as_endpoint s)" for s
    by (induction rps arbitrary: s) auto
  then show "serve env ms now rps ep q = (ep', q', calls) \<Longrightarrow> service_view ep' = service_view ep"
    by (auto simp: serve_def service_endpoint_def Let_def)
qed

lemma sweep_view: "sweep env ms now rps due eps q = (eps', q', calls) \<Longrightarrow> map service_view eps' = map service_view eps"
proof (induction eps arbitrary: q eps' q' calls)
  case (Cons ep eps)
  then show ?case
    by (auto simp: Let_def split: prod.splits if_splits dest: served_view)
qed simp

lemma refresh_view: "refresh_writable_events env eps q = (eps', q') \<Longrightarrow> map service_view eps' = map service_view eps"
proof (induction eps arbitrary: q eps' q')
  case (Cons ep eps)
  then show ?case by (auto simp: Let_def split: prod.splits if_splits)
qed simp

text \<open>The context after the first pass over its endpoints, before \<open>poll\<close>.\<close>

definition first_pass :: "(nat \<Rightarrow> api_env) \<Rightarrow> api_messages \<Rightarrow> service_env \<Rightarrow> api_context \<Rightarrow> api_context" where
  "first_pass env ms sv cx = refresh_context env (sweep_context env ms (sv_now sv) (sv_reports sv) (due_now sv) (cx_status Q_OK cx))"

lemma first_pass_view: "map service_view (cx_endpoints (first_pass env ms sv cx)) = map service_view (cx_endpoints cx)"
  using sweep_view [of env ms "sv_now sv" "sv_reports sv" "due_now sv" "cx_endpoints cx" "cx_queue (cx_status Q_OK cx)"]
  by (auto simp: first_pass_def sweep_context_def refresh_context_def cx_status_def Let_def split: prod.splits dest: refresh_view)

lemma deadlines_view:
  assumes "map service_view eps' = map service_view eps"
  shows "map (\<lambda>ep. d (qe_handle ep)) (filter in_service eps') = map (\<lambda>ep. d (qe_handle ep)) (filter in_service eps)"
  using assms by (induction eps' eps rule: list_induct2') (auto simp: service_view_def in_service_def)

text \<open>When the service call gets as far as \<open>poll\<close>.\<close>

definition reaches_poll :: "(nat \<Rightarrow> api_env) \<Rightarrow> api_messages \<Rightarrow> service_env \<Rightarrow> int \<Rightarrow> api_context \<Rightarrow> bool" where
  "reaches_poll env ms sv timeout_ms cx \<longleftrightarrow> (let n = length (filter in_service (cx_endpoints cx)) in
     -1 \<le> timeout_ms \<and> eq_nodes (cx_queue cx) = [] \<and> eq_nodes (cx_queue (first_pass env ms sv cx)) = [] \<and>
     0 < n \<and> n \<le> SIZE_MAX div 32 \<and> n \<le> SIZE_MAX div MAX_POLL_FDS \<and> n * MAX_POLL_FDS \<le> SIZE_MAX div 8 \<and>
     (n \<le> cx_poll_capacity (first_pass env ms sv cx) \<or> sv_calloc sv))"

text \<open>The time left until the deadline of an endpoint, and the right time to wait.\<close>

definition time_left :: "service_env \<Rightarrow> api_endpoint \<Rightarrow> int" where
  "time_left sv ep = min INT_MAX (max 0 (sv_deadline sv (qe_handle ep) - sv_poll_now sv))"

definition waits_for :: "service_env \<Rightarrow> int \<Rightarrow> api_endpoint list \<Rightarrow> int \<Rightarrow> bool" where
  "waits_for sv timeout_ms eps w \<longleftrightarrow> (let timed = filter (\<lambda>ep. in_service ep \<and> 0 \<le> sv_deadline sv (qe_handle ep)) eps in
     w \<in> set (timeout_ms # map (time_left sv) timed) \<and> (0 \<le> timeout_ms \<longrightarrow> w \<le> timeout_ms) \<and>
     list_all (\<lambda>ep. 0 \<le> w \<and> w \<le> time_left sv ep) timed)"

lemma wait_fold:
  assumes "left = (\<lambda>d. min INT_MAX (max 0 (d - now)))"
  shows "foldl (wait_step now) w ds \<in> set (w # map left (filter (\<lambda>d. 0 \<le> d) ds)) \<and>
    (0 \<le> w \<longrightarrow> 0 \<le> foldl (wait_step now) w ds \<and> foldl (wait_step now) w ds \<le> w) \<and>
    (\<forall>d \<in> set ds. 0 \<le> d \<longrightarrow> 0 \<le> foldl (wait_step now) w ds \<and> foldl (wait_step now) w ds \<le> left d)"
proof (induction ds arbitrary: w)
  case (Cons e ds)
  have "0 \<le> e \<Longrightarrow> 0 \<le> wait_step now w e \<and> wait_step now w e \<le> left e" "0 \<le> w \<Longrightarrow> 0 \<le> wait_step now w e \<and> wait_step now w e \<le> w"
    "wait_step now w e = w \<or> 0 \<le> e \<and> wait_step now w e = left e"
    by (auto simp: wait_step_def Let_def assms)
  then show ?case using Cons.IH [of "wait_step now w e"] by fastforce
qed simp

lemma service_wait_right: "waits_for sv timeout_ms (cx_endpoints cx) (service_wait sv timeout_ms cx)"
  using wait_fold [OF refl, of "sv_poll_now sv" timeout_ms "map (\<lambda>ep. sv_deadline sv (qe_handle ep)) (filter in_service (cx_endpoints cx))"]
  by (auto simp: waits_for_def service_wait_def time_left_def Let_def list_all_iff)

lemma first_pass_wait:
  assumes "cx_endpoints cx' = cx_endpoints (first_pass env ms sv cx)"
  shows "service_wait sv timeout_ms cx' = service_wait sv timeout_ms cx"
  unfolding service_wait_def assms deadlines_view [OF first_pass_view] ..

lemma other_poll [simp]:
  "first_pass env ms (sv\<lparr>sv_poll := p\<rparr>) cx = first_pass env ms sv cx"
  "reaches_poll env ms (sv\<lparr>sv_poll := p\<rparr>) timeout_ms cx = reaches_poll env ms sv timeout_ms cx"
  "service_wait (sv\<lparr>sv_poll := p\<rparr>) timeout_ms cx = service_wait sv timeout_ms cx"
  "due_after (sv\<lparr>sv_poll := p\<rparr>) = due_after sv"
proof -
  have "due_now (sv\<lparr>sv_poll := p\<rparr>) = due_now sv" by (simp add: due_now_def fun_eq_iff)
  then show f: "first_pass env ms (sv\<lparr>sv_poll := p\<rparr>) cx = first_pass env ms sv cx" by (simp add: first_pass_def)
  show "reaches_poll env ms (sv\<lparr>sv_poll := p\<rparr>) timeout_ms cx = reaches_poll env ms sv timeout_ms cx"
    by (simp add: reaches_poll_def f)
  show "service_wait (sv\<lparr>sv_poll := p\<rparr>) timeout_ms cx = service_wait sv timeout_ms cx" by (simp add: service_wait_def)
  show "due_after (sv\<lparr>sv_poll := p\<rparr>) = due_after sv" by (simp add: due_after_def fun_eq_iff)
qed

definition polling_context :: "(nat \<Rightarrow> api_env) \<Rightarrow> api_messages \<Rightarrow> service_env \<Rightarrow> api_context \<Rightarrow> api_context" where
  "polling_context env ms sv cx = (first_pass env ms sv cx)\<lparr>cx_poll_capacity :=
     max (length (filter in_service (cx_endpoints cx))) (cx_poll_capacity (first_pass env ms sv cx))\<rparr>"

lemma service_code:
  "qlinq_service env ms sv timeout_ms cx = (let n = length (filter in_service (cx_endpoints cx)); f = first_pass env ms sv cx in
     if timeout_ms < -1 then (Q_INVALID, cx)
     else if eq_nodes (cx_queue cx) \<noteq> [] then (reported (eq_last_status (cx_queue cx)), cx)
     else if eq_nodes (cx_queue f) \<noteq> [] then (reported (eq_last_status (cx_queue f)), f)
     else if n = 0 then (Q_STATE, cx_status Q_STATE f)
     else if n > SIZE_MAX div 32 \<or> n > SIZE_MAX div MAX_POLL_FDS \<or> n * MAX_POLL_FDS > SIZE_MAX div 8
     then (Q_RESOURCE_LIMIT, cx_status Q_RESOURCE_LIMIT f)
     else if n > cx_poll_capacity f \<and> \<not> sv_calloc sv then (Q_NO_MEMORY, cx_status Q_NO_MEMORY f)
     else service_poll env ms sv timeout_ms (polling_context env ms sv cx))"
  unfolding qlinq_service_def polling_context_def first_pass_def Let_def cx_status_def by simp

lemma service_reaches:
  assumes "reaches_poll env ms sv timeout_ms cx"
  shows "qlinq_service env ms sv timeout_ms cx = service_poll env ms sv timeout_ms (polling_context env ms sv cx)"
  using assms unfolding service_code reaches_poll_def Let_def by (auto simp: linorder_not_less)

lemma service_stops:
  assumes "\<not> reaches_poll env ms sv timeout_ms cx"
  shows "qlinq_service env ms (sv\<lparr>sv_poll := p\<rparr>) timeout_ms cx = qlinq_service env ms sv timeout_ms cx"
  using assms unfolding service_code reaches_poll_def Let_def other_poll by (auto simp: linorder_not_less)

text \<open>
  C15. The service loop never oversleeps. When a service call gets as far as \<open>poll\<close>, there is one time to wait
  whose answer is all that counts: an error answered for it is reported, and what \<open>poll\<close> would answer
  for any other time changes nothing. This time is the least of the given limit, unless negative, and
  the time left to the deadline of every endpoint in service that has one; it is negative only if
  there is neither. With events pending the call returns at once and changes nothing.
\<close>

theorem service_wait_exact:
  "(reaches_poll env ms sv timeout_ms cx \<longrightarrow> (\<exists>w. waits_for sv timeout_ms (cx_endpoints cx) w \<and>
     (\<forall>interrupted p. p w = Poll_failed interrupted \<longrightarrow>
       fst (qlinq_service env ms (sv\<lparr>sv_poll := p\<rparr>) timeout_ms cx) = (if interrupted then Q_AGAIN else Q_IO)) \<and>
     (\<forall>p p'. p w = p' w \<longrightarrow> qlinq_service env ms (sv\<lparr>sv_poll := p\<rparr>) timeout_ms cx = qlinq_service env ms (sv\<lparr>sv_poll := p'\<rparr>) timeout_ms cx))) \<and>
   (\<not> reaches_poll env ms sv timeout_ms cx \<longrightarrow>
     (\<forall>p. qlinq_service env ms (sv\<lparr>sv_poll := p\<rparr>) timeout_ms cx = qlinq_service env ms sv timeout_ms cx)) \<and>
   (-1 \<le> timeout_ms \<and> eq_nodes (cx_queue cx) \<noteq> [] \<longrightarrow>
     qlinq_service env ms sv timeout_ms cx = (reported (eq_last_status (cx_queue cx)), cx))"
proof -
  let ?w = "service_wait sv timeout_ms cx"
  let ?run = "\<lambda>p. qlinq_service env ms (sv\<lparr>sv_poll := p\<rparr>) timeout_ms cx"
  have wait: "service_wait sv timeout_ms (polling_context env ms sv cx) = ?w"
    by (rule first_pass_wait) (simp add: polling_context_def)
  have run: "?run p = service_poll env ms (sv\<lparr>sv_poll := p\<rparr>) timeout_ms (polling_context env ms sv cx)"
    if "reaches_poll env ms sv timeout_ms cx" for p
    using that service_reaches [of env ms "sv\<lparr>sv_poll := p\<rparr>" timeout_ms cx] by (simp add: polling_context_def)
  have "fst (?run p) = (if interrupted then Q_AGAIN else Q_IO)"
    if "reaches_poll env ms sv timeout_ms cx" "p ?w = Poll_failed interrupted" for p interrupted
    using that(2) by (simp add: run [OF that(1)] service_poll_def wait)
  moreover have "?run p = ?run p'" if "reaches_poll env ms sv timeout_ms cx" "p ?w = p' ?w" for p p'
    using that(2) by (simp add: run [OF that(1)] service_poll_def wait split: poll_answer.split)
  moreover have "qlinq_service env ms sv timeout_ms cx = (reported (eq_last_status (cx_queue cx)), cx)"
    if "-1 \<le> timeout_ms" "eq_nodes (cx_queue cx) \<noteq> []"
    using that by (simp add: qlinq_service_def)
  ultimately show ?thesis using service_wait_right service_stops by blast
qed

section \<open>A small listener\<close>

definition sample_env :: api_env where
  "sample_env = \<lparr>av_node_size = 100, av_calloc_node = True, av_calloc_peer = True, av_conn_id = (\<lambda>c. of_nat c),
     av_send_auth = (\<lambda>c. True), av_respond_auth = (\<lambda>c a. True), av_subscribe_conn = (\<lambda>c t. True), av_track_ready = (\<lambda>t. True)\<rparr>"

definition sample_messages :: api_messages where
  "sample_messages = \<lparr>ms_no_peer = [1], ms_not_queued = [2], ms_not_recovered = [3], ms_bad_payload = [4], ms_bad_length = [5],
     ms_no_subscription = [6], ms_no_auth = [7], ms_no_response = [8], ms_unspecified = [9]\<rparr>"

definition sample_stream :: api_stream where
  "sample_stream = \<lparr>sm_handle = 70, sm_track = data_track, sm_content_type = 4, sm_delivery = 3, sm_direction = STREAM_SUBSCRIBE,
     sm_open = True, sm_records_sent = 0, sm_records_received = 0, sm_objects_lost = 0, sm_writable_known = False,
     sm_last_writable = False, sm_active = True\<rparr>"

definition sample_listener :: api_endpoint where
  "sample_listener = \<lparr>qe_handle = 60, qe_has_transport = True, qe_streams = [sample_stream], qe_peers = [], qe_shared_secret = [7],
     qe_ready_peers = 0, qe_endpoint_records_received = 0, qe_last_service_ms = 0, qe_service_pending = True, qe_listener = True,
     qe_active = True\<rparr>"

definition sample_queue :: event_queue where
  "sample_queue = \<lparr>eq_nodes = [], eq_queued_events = 0, eq_queued_bytes = 0, eq_max_events = 8, eq_max_bytes = 1000, eq_last_status = Q_OK\<rparr>"

definition sample_state :: api_state where
  "sample_state = \<lparr>as_endpoint = sample_listener, as_queue = sample_queue, as_calls = []\<rparr>"

theorem api_events_in_order_witness:
  "\<exists>cx q posted taken. qlinq_context_create sample_env True 2 300 = Some cx \<and>
     queue_run sample_env (cx_queue cx) [Post (plain_event ERROR 60 0 Q_IO) [1, 2] None, Take, Post (plain_event RECORD 60 0 Q_OK) [] (Some [3])] =
       (q, posted, taken) \<and> taken @ map nd_event (eq_nodes q) = posted"
proof -
  obtain cx where cx: "qlinq_context_create sample_env True 2 300 = Some cx" by (simp add: qlinq_context_create_def sample_env_def)
  obtain q posted taken where r: "queue_run sample_env (cx_queue cx) [Post (plain_event ERROR 60 0 Q_IO) [1, 2] None, Take,
      Post (plain_event RECORD 60 0 Q_OK) [] (Some [3])] = (q, posted, taken)" by (rule prod_cases3)
  show ?thesis using api_events_in_order [OF cx _ _ r] cx r by (auto simp: SIZE_MAX_def)
qed

definition sample_object :: received where
  "sample_object = \<lparr>rv_connection = 5, rv_track_id = data_track, rv_group_id = 0, rv_object_id = 3,
     rv_data = records_of [[1, 2], [3]] @ [0, 0, 9], rv_is_keyframe = False, rv_priority = 0\<rparr>"

lemma sample_subscription: "find_stream (as_endpoint sample_state) (rv_track_id sample_object) STREAM_SUBSCRIBE = Some 0"
  by (simp add: find_stream_def sample_state_def sample_listener_def sample_stream_def sample_object_def stream_matches_def
      flags_delivery_def data_track_def strcmp_eq_def)

theorem grouped_object_split_witness:
  "split_outcome sample_env sample_messages sample_object 0 [[1, 2], [3]] [0, 0, 9] sample_state
     (queue_received_object sample_env sample_messages sample_object sample_state)"
proof -
  have "list_all record_fits [[1, 2], [3]]" "malformed [0, 0, 9]" "rv_data sample_object = records_of [[1, 2], [3]] @ [0, 0, 9]"
    by (simp_all add: record_fits_def malformed_def read_u16_def sample_object_def)
  moreover note grouped_object_split [OF _ sample_subscription, of sample_env sample_messages]
  ultimately show ?thesis
    by (simp add: sample_state_def sample_listener_def sample_stream_def sample_object_def sample_queue_def queue_ok_def SIZE_MAX_def
      grouped_data_def data_track_def)
qed

theorem ready_peers_authenticated_witness:
  "\<exists>s log. endpoint_run s {5} log \<and> qe_ready_peers (as_endpoint s) = 1 \<and>
     distinct (map pr_connection (qe_peers (as_endpoint s)))"
proof -
  let ?s = "on_transport_event sample_env sample_messages 5 (T_auth [7]) (sample_state\<lparr>as_calls := []\<rparr>)"
  have "endpoint_run sample_state {} []" by (rule endpoint_run.start) (simp_all add: sample_state_def sample_listener_def)
  then have run: "endpoint_run ?s {5} ([] @ [({5}, as_calls ?s)])"
    by (rule endpoint_run.event [OF _ _ _ refl])
      (simp_all add: sample_state_def sample_listener_def SIZE_MAX_def authenticated_after_def grants_def sample_env_def)
  have "qe_ready_peers (as_endpoint ?s) = 1"
    using activate_result by (simp add: on_transport_event_def secret_equal_iff sample_state_def sample_listener_def sample_env_def mark_peer_ready_def
        add_peer_def find_peer_def Let_def activate_subscriptions_def called_def on_endpoint_def sz_add_def SIZE_MAX_def)
  then show ?thesis using ready_peers_authenticated [OF run] run by blast
qed

theorem service_wait_exact_witness:
  "\<exists>cx sv p. cx_endpoints cx = [sample_listener] \<and> (\<forall>w. p w = Poll_failed (w = 20)) \<and>
     sv_deadline sv 60 = 30 \<and> sv_poll_now sv = 10 \<and>
     fst (qlinq_service (\<lambda>h. sample_env) sample_messages (sv\<lparr>sv_poll := p\<rparr>) 100 cx) = Q_AGAIN"
proof -
  let ?cx = "\<lparr>cx_endpoints = [sample_listener], cx_queue = sample_queue, cx_poll_capacity = 0, cx_calls = []\<rparr>"
  let ?sv = "\<lparr>sv_now = 10, sv_poll_now = 10, sv_after_now = 30, sv_deadline = (\<lambda>h. 30), sv_reports = (\<lambda>h. []),
    sv_reports_after = (\<lambda>h. []), sv_poll = (\<lambda>w. Polled 0 (\<lambda>h. False)), sv_calloc = True\<rparr>"
  let ?p = "\<lambda>w. Poll_failed (w = 20)"
  have "eq_nodes (cx_queue (first_pass (\<lambda>h. sample_env) sample_messages ?sv ?cx)) = []"
    by (simp add: first_pass_def sweep_context_def refresh_context_def serve_def service_endpoint_def on_endpoint_def
      in_service_def sample_listener_def sample_queue_def cx_status_def due_now_def set_status_def refresh_stream_def sample_stream_def Let_def)
  then have reach: "reaches_poll (\<lambda>h. sample_env) sample_messages ?sv 100 ?cx"
    by (simp add: reaches_poll_def sample_listener_def sample_queue_def in_service_def SIZE_MAX_def)
  obtain w where w: "waits_for ?sv 100 (cx_endpoints ?cx) w"
    "\<forall>interrupted p. p w = Poll_failed interrupted \<longrightarrow>
      fst (qlinq_service (\<lambda>h. sample_env) sample_messages (?sv\<lparr>sv_poll := p\<rparr>) 100 ?cx) = (if interrupted then Q_AGAIN else Q_IO)"
    using service_wait_exact [of "\<lambda>h. sample_env" sample_messages ?sv 100 ?cx, THEN conjunct1, THEN mp, OF reach]
    by (elim exE conjE)
  have "w = 20" using w(1) by (auto simp: waits_for_def time_left_def in_service_def sample_listener_def)
  then show ?thesis using w(2) [rule_format, of ?p "w = 20"]
    by (intro exI [of _ ?cx] exI [of _ ?sv] exI [of _ ?p]) simp
qed

end
