(* ===== verification/Spec2Isabelle.thy ===== *)
theory Spec2Isabelle
  imports Wire Subscriptions Egress Repair Assembly Stream Scheduler Recovery Completed Telemetry Receive Receiver Delivery Runs Reception Publishing Publisher Grouping Checkpoints Records Interface
begin

text \<open>
  qlinq: a verification library of the transport core (directory src/src/common).

  The program. qlinq publishes small media or data objects on named tracks to subscribed peers over
  QUIC connections that can use several network paths. An object travels either as one frame on a
  reliable stream or, on a track with forward error correction, as a number of coded symbols, one
  per QUIC datagram. A publisher groups records into objects, codes them, spreads the symbols over
  the paths (transport_publish.c, transport_scheduler.c, transport_paths.c) and keeps the object
  for repairs (transport_fec_state.c, transport_repair.c). A receiver collects the symbols of an
  object in an assembler, decodes, delivers once, asks for what is missing and acknowledges
  completed stretches of objects (transport_protocol.c, transport_quicly.c). All frames are laid
  out by transport_wire.c; UDP packets leave through transport_egress.c and transport_udp.c.

  Theories and the files they model. Names of definitions are those of the C functions; a
  definition that models a loop or a block of a function has a name of its own and the manifest
  gives its lines.
  \<^item> \<open>Qlinq_Prelude\<close>: bytes, big endian words, checked size arithmetic, list updates.
  \<^item> \<open>Wire\<close>: transport_wire.c. A decoder returns a sum of the C error code and the record; round
    trips with the encoder, canonicity, stability of decisions under more input.
  \<^item> \<open>Tracks\<close>: transport_tracks.c, cli_parse.c. \<open>Limits\<close>: transport_config.c.
  \<^item> \<open>Subscriptions\<close>: transport_subscriptions.c, a table refined to a map from tracks to aliases.
  \<^item> \<open>Fifo\<close>, \<open>Buckets\<close>, \<open>Chains\<close>: interfaces as locales (a bounded queue, token buckets, chained
    hash index), each interpreted on the code's own operations in the theories that use them.
  \<^item> \<open>Udp\<close>, \<open>Egress\<close>: transport_udp.c, transport_egress.c, a bounded FIFO of packets.
  \<^item> \<open>SentCache\<close>, \<open>Repair\<close>: transport_fec_state.c, transport_repair.c.
  \<^item> \<open>Memory\<close>, \<open>Assembly\<close>: transport_memory.c and the assembler pool of transport_quicly.c.
  \<^item> \<open>Stream\<close>: transport_stream.c. \<open>Paths\<close>, \<open>Scheduler\<close>: transport_paths.c, transport_scheduler.c.
  \<^item> \<open>Placement\<close>, \<open>Admission\<close>, \<open>Publishing\<close>: the sending of coded objects in transport_quicly.c, symbols
    placed on the links under their budgets, and what the receiver makes of the datagrams.
  \<^item> \<open>Publisher\<close>: transport_publish.c, recipients, recovery checkpoints, grouping of data records,
    publication, the end of a track. \<open>Membership\<close>: the locale \<open>member_law\<close> of facts about connections that
    every operation of the publisher keeps, interpreted twice. \<open>Grouping\<close>: no record is lost, repeated or
    reordered. \<open>Checkpoints\<close>: what acknowledgements release. \<open>Samples\<close>: a small publisher for examples.
  \<^item> \<open>Application\<close>, \<open>Records\<close>: src/app/main.c, its reorder window and output, and the path of a record
    from the sending to the receiving application.
  \<^item> \<open>Api\<close>, \<open>Service\<close>, \<open>Interface\<close>: qlinq.c, the application interface: its event queue (the second instance
    of \<open>bounded_fifo\<close>), peers, streams, the service loop, and what they promise.
  \<^item> \<open>Recovery\<close>, \<open>Completed\<close>, \<open>Telemetry\<close>, \<open>Receive\<close>: transport_protocol.c, receiving side.
  \<^item> \<open>Receiver\<close>, \<open>Delivery\<close>, \<open>Runs\<close>, \<open>Reception\<close>: the invariant of the receiver, its operations under
    the invariant, runs as an \<open>inductive\<close> relation, and the theorems about runs: what is delivered
    was published, at most once, every handler returns, and the last missing symbol delivers.

  Conventions. A struct is a record, an enumeration a datatype or the word the code keeps it in, a
  pointer to a struct is the struct passed and returned, an out parameter is a result. Integers of
  fixed width are words; sizes and counters that the code checks or keeps below their limits are
  natural numbers with the overflow check or the wrap written out. A NULL pointer that means
  something is an option; the tests of reference parameters against NULL at the head of a function
  are left out, since the model has no such references. An error return is a value of an option or
  sum type. Allocation results, the clock, answers of the kernel and of quicly, and addresses are
  arguments. One handler reads the clock once where the code reads it several times in a row.

  Parameters. quicly, picotls, pathflow and the codec libraries are submodules without files in
  this tree; what the code calls of them is an argument: fixed point arithmetic and smoothing of
  pathflow (record \<open>fixed\<close>, hypothesis \<open>fixed_ok\<close>), the optimiser of the scheduler, the FEC
  encoder and decoder (a codec restores an object from enough of its symbols, record \<open>encoder_laws\<close>),
  quicly's path statistics, datagram queues and send buffers (\<open>publish_env\<close>). Each theorem with such a hypothesis has a witness with a concrete
  instance (an XOR parity code, fixed point with 16 fractional bits).

  Loops. Loops over arrays and lists are structural recursions or bounded by the array length, so
  no fuel is chosen by hand. Loops that follow links (the hash chains, the expiry scan, the
  acknowledgement loop) are \<open>partial_function (option)\<close>: a loop that does not end is the value
  \<open>None\<close>, and that they end on every reachable state is proved (\<open>receiver_always_returns\<close>,
  \<open>acknowledge_ends\<close>).

  Not modelled. Log messages. Input and output glue: the option parsing and poll loops of the command
  line programs, the Linux tunnel host, examples,
  socket wrappers, the interface monitor (ifmon.c) and TLS set-up (transport_tls.c). The connection
  life cycle in transport_quicly.c (sockets, path discovery, handshakes, quicly callbacks) is
  mostly calls into quicly, which has no source here.
\<close>

end
